(* ===== verification/Prelude.thy ===== *)
theory Prelude
  imports Main "HOL-Library.Word"
begin

text \<open>
  Shared vocabulary of the development: the C++ scalar types, the console output of a
  program as a list of lines, the decimal printing of integers, generic lemmas on lists
  and words, runs that a fault may stop, and the interfaces that the concurrent components share: a transition
  system with an inductive invariant, one from whose states an end can be reached (\<open>ends_from\<close>) or must be (\<open>ending_system\<close>), a simulation
  between two transition systems, and the interleaving of threads given by their local steps, with its refinement (\<open>thread_refinement\<close>).
\<close>

unbundle bit_operations_syntax

section \<open>Scalar types and console output\<close>

type_synonym size_t = "64 word"
type_synonym uint32 = "32 word"
type_synonym byte = "8 word"
type_synonym console = "string list"

named_theorems run_simps \<open>equations that evaluate a modelled operation\<close>
named_theorems inv_intros \<open>preservation lemmas of a component's invariant\<close>

text \<open>\<^verbatim>\<open>std::to_string\<close> and \<^verbatim>\<open>operator<<\<close> on integers print in base ten.\<close>

definition nl :: string where
  "nl = [CHR 0x0A]"

definition digit_char :: "nat \<Rightarrow> char" where
  "digit_char d = char_of (48 + d)"

fun dec_nat :: "nat \<Rightarrow> string" where
  "dec_nat n = (if n < 10 then [digit_char n] else dec_nat (n div 10) @ [digit_char (n mod 10)])"

declare dec_nat.simps [simp del]

definition dec_int :: "int \<Rightarrow> string" where
  "dec_int i = (if i < 0 then CHR ''-'' # dec_nat (nat (- i)) else dec_nat (nat i))"

lemma digit_chars:
  "digit_char 0 = CHR ''0''" "digit_char 1 = CHR ''1''" "digit_char 2 = CHR ''2''" "digit_char 3 = CHR ''3''"
  "digit_char 4 = CHR ''4''" "digit_char 5 = CHR ''5''" "digit_char 6 = CHR ''6''" "digit_char 7 = CHR ''7''"
  "digit_char 8 = CHR ''8''" "digit_char 9 = CHR ''9''"
  by code_simp+

text \<open>For evaluation, the same digits computed on binary integers.\<close>

function dec_pos :: "int \<Rightarrow> string" where
  "dec_pos i = (if i < 10 then [digit_char (nat i)] else dec_pos (i div 10) @ [digit_char (nat (i mod 10))])"
  by pat_completeness auto
termination by (relation "measure nat") auto

declare dec_pos.simps [simp del]

lemma dec_nat_pos: "0 \<le> i \<Longrightarrow> dec_nat (nat i) = dec_pos i"
proof (induction i rule: dec_pos.induct)
  case (1 i)
  then show ?case
    by (subst dec_pos.simps, subst dec_nat.simps) (auto simp: nat_div_distrib nat_mod_distrib)
qed

lemma dec_int_code [code]: "dec_int i = (if i < 0 then CHR ''-'' # dec_pos (- i) else dec_pos i)"
  by (simp add: dec_int_def dec_nat_pos)

lemma dec_nat_code [code]: "dec_nat n = dec_pos (int n)"
  using dec_nat_pos [of "int n"] by simp

text \<open>\<^verbatim>\<open>printf\<close> with \<open>d\<close> decimals of the value \<open>n / 10 ^ d\<close>, for non-negative values that are exact at that precision.\<close>

definition dec_fixed :: "nat \<Rightarrow> int \<Rightarrow> string" where
  "dec_fixed d n = dec_int (n div 10 ^ d) @ ''.'' @ map (\<lambda>k. digit_char (nat (n div 10 ^ k mod 10))) (rev [0..<d])"

text \<open>\<^verbatim>\<open>printf\<close> with a minimal field width, left-justified (\<open>%-nd\<close>) or right-justified (\<open>%nd\<close>).\<close>

definition pad :: "nat \<Rightarrow> string \<Rightarrow> string" where
  "pad n s = s @ replicate (n - length s) (CHR '' '')"

definition pad_left :: "nat \<Rightarrow> string \<Rightarrow> string" where
  "pad_left n s = replicate (n - length s) (CHR '' '') @ s"

section \<open>Reading decimal digits back\<close>

definition digit_val :: "char \<Rightarrow> nat option" where
  "digit_val c = (let k = of_char c :: nat in if 48 \<le> k \<and> k \<le> 57 then Some (k - 48) else None)"

lemma digit_val_digit_char [simp]: "d < 10 \<Longrightarrow> digit_val (digit_char d) = Some d"
  by (simp add: digit_val_def digit_char_def Let_def)

section \<open>Lists\<close>

lemma upt_snoc: "i \<le> j \<Longrightarrow> [i..<Suc j] = [i..<j] @ [j]"
  by simp

lemma nth_update_neq_mod:
  assumes "i mod n \<noteq> j mod n"
  shows "(xs[i mod n := v]) ! (j mod n) = xs ! (j mod n)"
  using assms by (simp add: nth_list_update)

lemma sum_list_update_nat:
  fixes xs :: "nat list"
  assumes "i < length xs"
  shows "sum_list (xs[i := v]) + xs ! i = sum_list xs + v"
  using assms by (induction xs arbitrary: i) (auto split: nat.splits)

lemma sum_list_upto:
  fixes n :: nat
  shows "2 * (\<Sum>k = 0..<n. int k) = int n * (int n - 1)"
  by (induction n) (auto simp: algebra_simps)

section \<open>Counters modulo a capacity\<close>

lemma mod_eq_close:
  fixes a b n :: nat
  assumes "a \<le> b" and "b - a < n"
  shows "a mod n = b mod n \<longleftrightarrow> a = b"
proof
  assume eq: "a mod n = b mod n"
  have "n dvd b - a"
    using assms(1) eq mod_eq_dvd_iff_nat by metis
  then show "a = b"
    using assms dvd_imp_le by fastforce
qed simp

lemma Suc_mod_mod: "Suc (a mod n) mod n = Suc a mod n"
  by (rule mod_Suc_eq)

section \<open>Powers of two as words\<close>

text \<open>
  The test \<^verbatim>\<open>(c & (c - 1)) == 0\<close> holds, for a nonzero \<open>c\<close>, exactly on powers of two,
  and then masking with \<open>c - 1\<close> is the remainder modulo \<open>c\<close>.
\<close>

lemma nat_pow2_test: "0 < n \<Longrightarrow> n AND (n - 1) = 0 \<Longrightarrow> \<exists>k. n = 2 ^ k" for n :: nat
proof (induction n rule: less_induct)
  case (less n)
  show ?case
  proof (cases "even n")
    case True
    then obtain m where m: "n = 2 * m" by (elim evenE)
    with less.prems have pos: "0 < m" by simp
    then have pred: "2 * m - 1 = 2 * (m - 1) + 1" by simp
    have "(2 * m) AND (2 * (m - 1) + 1) = 2 * (m AND (m - 1))"
      by (subst and_nat_rec) simp
    with less.prems m pred have "m AND (m - 1) = 0" by simp
    with less.IH [of m] m pos obtain k where "m = 2 ^ k" by auto
    with m have "n = 2 ^ Suc k" by simp
    then show ?thesis ..
  next
    case False
    then obtain m where m: "n = 2 * m + 1" by (elim oddE)
    have "(2 * m + 1) AND (2 * m) = 2 * m"
      by (subst and_nat_rec) simp
    with less.prems m have "n = 2 ^ 0" by simp
    then show ?thesis ..
  qed
qed

lemma word_pow2_test:
  fixes c :: "'a::len word"
  assumes "c AND (c - 1) = 0" and "c \<noteq> 0"
  obtains k where "k < LENGTH('a)" and "c = 2 ^ k" and "unat c = 2 ^ k"
proof -
  have pos: "0 < unat c"
    using assms(2) by (simp add: unat_gt_0)
  have pred: "unat (c - 1) = unat c - 1"
    using assms(2) by (simp add: unat_minus_one)
  have "unat c AND (unat c - 1) = unat (c AND (c - 1))"
    by (simp add: unsigned_and_eq pred)
  also have "\<dots> = 0" using assms(1) by simp
  finally obtain k where k: "unat c = 2 ^ k"
    using nat_pow2_test [OF pos] by auto
  have "2 ^ k < (2::nat) ^ LENGTH('a)"
    using k unsigned_less [of c, where 'a = nat] by simp
  then have "k < LENGTH('a)" by simp
  moreover have "c = 2 ^ k"
    using arg_cong [OF k, of "of_nat :: nat \<Rightarrow> 'a word"] by simp
  ultimately show ?thesis using that k by blast
qed

lemma unat_and_pow2_mask:
  fixes x c :: "'a::len word"
  assumes "c AND (c - 1) = 0" and "c \<noteq> 0"
  shows "unat (x AND (c - 1)) = unat x mod unat c"
proof -
  obtain k where c: "c = 2 ^ k" and uc: "unat c = 2 ^ k"
    using word_pow2_test [OF assms] by blast
  have "c - 1 = mask k"
    by (simp add: c mask_eq_decr_exp)
  then have "x AND (c - 1) = take_bit k x"
    by (simp add: take_bit_eq_mask)
  then have "unat (x AND (c - 1)) = take_bit k (unat x)"
    by (simp add: unsigned_take_bit_eq)
  also have "\<dots> = unat x mod 2 ^ k"
    by (simp add: take_bit_eq_mod)
  finally show ?thesis by (simp add: uc)
qed

section \<open>Runs that a fault may stop\<close>

text \<open>A run ends with a value or with the fault that stopped it, in the state it has reached.\<close>

type_synonym ('e, 's, 'a) exec = "'s \<Rightarrow> ('e + 'a) \<times> 's"

definition okay :: "'a \<Rightarrow> ('e, 's, 'a) exec" where
  "okay x m = (Inr x, m)"

definition fault_with :: "'e \<Rightarrow> ('e, 's, 'a) exec" where
  "fault_with e m = (Inl e, m)"

definition andthen :: "('e, 's, 'a) exec \<Rightarrow> ('a \<Rightarrow> ('e, 's, 'b) exec) \<Rightarrow> ('e, 's, 'b) exec" where
  "andthen r k m = (case r m of (Inl e, m') \<Rightarrow> (Inl e, m') | (Inr x, m') \<Rightarrow> k x m')"

primrec runs :: "('e, 's, unit) exec list \<Rightarrow> ('e, 's, unit) exec" where
  "runs [] = okay ()"
| "runs (r # rs) = andthen r (\<lambda>_. runs rs)"

lemma runs_append: "runs (rs @ ss) = andthen (runs rs) (\<lambda>_. runs ss)"
  by (induction rs) (auto simp: andthen_def okay_def fun_eq_iff split: sum.splits prod.splits)

lemma fst_runs_Cons: "fst (runs (r # rs) m) = (case fst (r m) of Inl e \<Rightarrow> Inl e | Inr _ \<Rightarrow> fst (runs rs (snd (r m))))"
  by (simp add: andthen_def split: prod.split sum.split)

lemma snd_runs_Cons: "fst (r m) = Inr () \<Longrightarrow> snd (runs (r # rs) m) = snd (runs rs (snd (r m)))"
  by (auto simp: andthen_def split: prod.split sum.split)

lemma runs_Nil: "runs [] m = (Inr (), m)"
  by (simp add: okay_def)

section \<open>Options and sums over a list\<close>

lemma Some_eq_map_option [simp]: "Some y = map_option f x \<longleftrightarrow> (\<exists>z. x = Some z \<and> y = f z)"
  by (cases x) auto

lemma sum_list_map_update:
  fixes f :: "'a \<Rightarrow> 'b::cancel_comm_monoid_add"
  assumes "k < length xs"
  shows "sum_list (map f (xs[k := v])) + f (xs ! k) = sum_list (map f xs) + f v"
  using assms by (induction xs arbitrary: k) (auto simp: add_ac split: nat.splits)

lemma sum_list_map_zero: "(\<And>x. x \<in> set xs \<Longrightarrow> f x = 0) \<Longrightarrow> sum_list (map f xs) = 0"
  by (induction xs) auto

lemma sum_nth_update:
  fixes f :: "nat \<Rightarrow> 'a \<Rightarrow> 'b::comm_monoid_add"
  assumes "k < length xs"
  shows "(\<Sum>i<length xs. f i (xs[k := v] ! i)) + f k (xs ! k) = (\<Sum>i<length xs. f i (xs ! i)) + f k v"
proof -
  have split: "(\<Sum>i<length xs. f i (ys ! i)) = f k (ys ! k) + (\<Sum>i\<in>{..<length xs} - {k}. f i (ys ! i))" for ys
    using assms by (simp add: sum.remove)
  have "(\<Sum>i\<in>{..<length xs} - {k}. f i (xs[k := v] ! i)) = (\<Sum>i\<in>{..<length xs} - {k}. f i (xs ! i))"
    by (rule sum.cong) auto
  then show ?thesis using assms by (simp add: split add_ac)
qed

section \<open>Transition systems\<close>

locale inv_system =
  fixes init :: "'s \<Rightarrow> bool"
    and step :: "'s \<Rightarrow> 's \<Rightarrow> bool"
    and inv :: "'s \<Rightarrow> bool"
  assumes init_inv: "init s \<Longrightarrow> inv s"
    and step_inv: "inv s \<Longrightarrow> step s t \<Longrightarrow> inv t"
begin

lemma steps_inv: "step\<^sup>*\<^sup>* s t \<Longrightarrow> inv s \<Longrightarrow> inv t"
  by (induction rule: rtranclp_induct) (auto intro: step_inv)

lemma reachable_inv: "init s \<Longrightarrow> step\<^sup>*\<^sup>* s t \<Longrightarrow> inv t"
  by (blast intro: steps_inv init_inv)

end

text \<open>
  A simulation: every concrete step from a state of the invariant is matched by zero or
  more abstract steps between the abstractions.
\<close>

locale simulation = inv_system init step inv
  for init :: "'s \<Rightarrow> bool" and step :: "'s \<Rightarrow> 's \<Rightarrow> bool" and inv :: "'s \<Rightarrow> bool" +
  fixes astep :: "'a \<Rightarrow> 'a \<Rightarrow> bool"
    and abs :: "'s \<Rightarrow> 'a"
  assumes sim: "inv s \<Longrightarrow> step s t \<Longrightarrow> astep\<^sup>*\<^sup>* (abs s) (abs t)"
begin

lemma steps_sim: "step\<^sup>*\<^sup>* s t \<Longrightarrow> inv s \<Longrightarrow> astep\<^sup>*\<^sup>* (abs s) (abs t)"
proof (induction rule: rtranclp_induct)
  case base
  show ?case by simp
next
  case (step t u)
  then have "inv t" using steps_inv by blast
  with step show ?case by (meson rtranclp_trans sim)
qed

lemma reachable_sim: "init s \<Longrightarrow> step\<^sup>*\<^sup>* s t \<Longrightarrow> astep\<^sup>*\<^sup>* (abs s) (abs t)"
  by (blast intro: steps_sim init_inv)

end

section \<open>Runs that end\<close>

text \<open>A system that can always be brought to its end: a state that is not final has a step that lowers the measure.\<close>

locale ends_from = inv_system init step inv
  for init :: "'s \<Rightarrow> bool" and step :: "'s \<Rightarrow> 's \<Rightarrow> bool" and inv :: "'s \<Rightarrow> bool" +
  fixes left :: "'s \<Rightarrow> nat"
    and final :: "'s \<Rightarrow> bool"
  assumes advance: "inv s \<Longrightarrow> \<not> final s \<Longrightarrow> \<exists>t. step s t \<and> left t < left s"
begin

lemma finishes: "inv s \<Longrightarrow> \<exists>t. step\<^sup>*\<^sup>* s t \<and> final t"
proof (induction "left s" arbitrary: s rule: less_induct)
  case less
  show ?case
  proof (cases "final s")
    case False
    then obtain t where "step s t" "left t < left s" using advance less.prems by blast
    with less show ?thesis by (meson converse_rtranclp_into_rtranclp step_inv)
  qed blast
qed

end

text \<open>A system that always ends: every step lowers the measure.  Then there is no infinite run.\<close>

locale ending_system = inv_system init step inv
  for init :: "'s \<Rightarrow> bool" and step :: "'s \<Rightarrow> 's \<Rightarrow> bool" and inv :: "'s \<Rightarrow> bool" +
  fixes left :: "'s \<Rightarrow> nat"
    and final :: "'s \<Rightarrow> bool"
  assumes decreases: "inv s \<Longrightarrow> step s t \<Longrightarrow> left t < left s"
    and progress: "inv s \<Longrightarrow> \<not> final s \<Longrightarrow> \<exists>t. step s t"

sublocale ending_system \<subseteq> ends_from
  by unfold_locales (use decreases progress in blast)

context ending_system
begin

lemma no_infinite_run:
  assumes "inv (run 0)"
  shows "\<exists>k. \<not> step (run k) (run (Suc k))"
proof (rule ccontr)
  assume "\<nexists>k. \<not> step (run k) (run (Suc k))"
  then have st: "step (run k) (run (Suc k))" for k by blast
  have inv: "inv (run k)" for k by (induction k) (use assms st step_inv in blast)+
  have "left (run k) + k \<le> left (run 0)" for k
  proof (induction k)
    case (Suc k)
    have "left (run (Suc k)) < left (run k)" by (rule decreases [OF inv st])
    with Suc show ?case by linarith
  qed simp
  from this [of "Suc (left (run 0))"] show False by simp
qed

end

section \<open>Threads over a shared state\<close>

text \<open>
  Thread \<open>i\<close> is the \<open>i\<close>-th element of a list of local states; \<open>local c i g l\<close> is its next step from the shared state \<open>g\<close>,
  if it has one, where \<open>c\<close> is what the scheduler or a library decides.
\<close>

inductive par_step :: "('c \<Rightarrow> nat \<Rightarrow> 'g \<Rightarrow> 'l \<Rightarrow> ('g \<times> 'l) option) \<Rightarrow> 'g \<times> 'l list \<Rightarrow> 'g \<times> 'l list \<Rightarrow> bool"
  for local :: "'c \<Rightarrow> nat \<Rightarrow> 'g \<Rightarrow> 'l \<Rightarrow> ('g \<times> 'l) option" where
  par_stepI: "i < length ls \<Longrightarrow> local c i g (ls ! i) = Some (g', l') \<Longrightarrow> par_step local (g, ls) (g', ls[i := l'])"

inductive_cases par_stepE: "par_step local (g, ls) s'"

text \<open>The run that follows a schedule, when every scheduled thread can make its step.\<close>

fun par_run :: "('c \<Rightarrow> nat \<Rightarrow> 'g \<Rightarrow> 'l \<Rightarrow> ('g \<times> 'l) option) \<Rightarrow> ('c \<times> nat) list \<Rightarrow> 'g \<times> 'l list \<Rightarrow> ('g \<times> 'l list) option" where
  "par_run local [] s = Some s"
| "par_run local ((c, i) # cs) (g, ls) =
     (if i < length ls then case local c i g (ls ! i) of None \<Rightarrow> None | Some (g', l') \<Rightarrow> par_run local cs (g', ls[i := l']) else None)"

lemma par_run_steps: "par_run local cs s = Some t \<Longrightarrow> (par_step local)\<^sup>*\<^sup>* s t"
  by (induction local cs s rule: par_run.induct)
    (auto split: if_splits option.splits intro: converse_rtranclp_into_rtranclp par_stepI)

definition where_in :: "('l \<Rightarrow> bool) \<Rightarrow> 'l list \<Rightarrow> nat set" where
  "where_in P ls = {i. i < length ls \<and> P (ls ! i)}"

lemma where_in_update:
  "k < length ls \<Longrightarrow> where_in P (ls[k := v]) = (if P v then insert k (where_in P ls) else where_in P ls - {k})"
  by (auto simp: where_in_def nth_list_update)

lemma where_in_iff: "k < length ls \<Longrightarrow> k \<in> where_in P ls \<longleftrightarrow> P (ls ! k)"
  by (simp add: where_in_def)

lemma all_set_update:
  "(\<forall>l\<in>set ls. P l) \<Longrightarrow> P v \<Longrightarrow> \<forall>l\<in>set (ls[k := v]). P l"
  using set_update_subset_insert [of ls k v] by blast

lemma par_progress:
  "i < length ls \<Longrightarrow> local c i g (ls ! i) \<noteq> None \<Longrightarrow> \<exists>t. par_step local (g, ls) t"
  using par_stepI [of i ls local c g] by (cases "local c i g (ls ! i)") auto

text \<open>A measure of the local state that every step lowers gives a measure of the system.\<close>

lemma par_step_lowers:
  fixes \<mu> :: "'l \<Rightarrow> nat"
  assumes "par_step local (g, ls) (g', ls')" and "\<And>c i l l'. local c i g l = Some (g', l') \<Longrightarrow> \<mu> l' < \<mu> l"
  shows "sum_list (map \<mu> ls') < sum_list (map \<mu> ls)"
  using assms(1)
proof cases
  case (par_stepI i c l')
  then show ?thesis using sum_list_map_update [of i ls \<mu> l'] assms(2) [of c i "ls ! i" l'] by simp
qed

text \<open>
  Threads that call an object through its operations behave like threads that work on what the object stands for: \<open>f\<close> maps the
  shared state of the one to that of the other while it is well formed.
\<close>

locale thread_refinement =
  fixes conc :: "'c \<Rightarrow> nat \<Rightarrow> 'g \<Rightarrow> 'l \<Rightarrow> ('g \<times> 'l) option"
    and spec :: "'c \<Rightarrow> nat \<Rightarrow> 'h \<Rightarrow> 'l \<Rightarrow> ('h \<times> 'l) option"
    and f :: "'g \<Rightarrow> 'h"
    and good :: "'g \<Rightarrow> bool"
  assumes local_refines: "good g \<Longrightarrow> map_option (map_prod f id) (conc c i g l) = spec c i (f g) l"
    and local_good: "good g \<Longrightarrow> conc c i g l = Some (g', l') \<Longrightarrow> good g'"
begin

lemma step_refines:
  assumes "good (fst s)" and "par_step conc s t"
  shows "par_step spec (map_prod f id s) (map_prod f id t) \<and> good (fst t)"
  using assms(2)
proof cases
  case (par_stepI i ls c g g' l')
  then show ?thesis
    using local_refines [of g c i "ls ! i"] local_good [of g c i "ls ! i" g' l'] assms(1) par_step.par_stepI [of i ls spec c "f g" "f g'" l'] by simp
qed

lemma run_refines:
  assumes "(par_step conc)\<^sup>*\<^sup>* s t" and "good (fst s)"
  shows "(par_step spec)\<^sup>*\<^sup>* (map_prod f id s) (map_prod f id t) \<and> good (fst t)"
  using assms(1)
proof (induction rule: rtranclp_induct)
  case (step y z)
  then show ?case using step_refines [of y z] by (meson rtranclp.rtrancl_into_rtrancl)
qed (simp add: assms(2))

lemma step_lifts:
  assumes "good (fst s)" and "par_step spec (map_prod f id s) t"
  shows "\<exists>t'. par_step conc s t' \<and> t = map_prod f id t' \<and> good (fst t')"
proof -
  obtain g ls where s: "s = (g, ls)" by (cases s)
  obtain i c h l where i: "i < length ls" "spec c i (f g) (ls ! i) = Some (h, l)" and t: "t = (h, ls[i := l])"
    using assms(2) unfolding s by (auto elim!: par_stepE)
  then obtain g' where g': "conc c i g (ls ! i) = Some (g', l)" "h = f g'"
    using local_refines [of g c i "ls ! i"] assms(1) by (auto simp: s)
  then show ?thesis using par_stepI [of i ls conc c g g' l] i(1) local_good [of g c i "ls ! i" g' l] assms(1) t by (auto simp: s)
qed

lemma run_lifts:
  assumes "(par_step spec)\<^sup>*\<^sup>* a t" and "good (fst s)" and "a = map_prod f id s"
  shows "\<exists>t'. (par_step conc)\<^sup>*\<^sup>* s t' \<and> t = map_prod f id t' \<and> good (fst t')"
  using assms(1)
proof (induction rule: rtranclp_induct)
  case (step y z)
  then show ?case using step_lifts by (meson rtranclp.rtrancl_into_rtrancl)
qed (use assms(2, 3) in blast)

end

end
