(* ===== verification/Framing.thy ===== *)
theory Framing
  imports Prelude
begin

text \<open>
  The length-framed protocol of \<^verbatim>\<open>networking/10_socket_patterns.cpp\<close> (\<open>send_frame\<close>,
  \<open>recv_frame\<close>, \<open>framed_server\<close>) and of \<^verbatim>\<open>networking/01_tcp_server_client.cpp\<close> (\<open>send_all\<close>,
  \<open>recv_exactly\<close>, the echo loop of \<open>run_server\<close>).  What the kernel answers to each \<open>send\<close> or
  \<open>recv\<close> is a parameter: a list of replies, one per call.  It may move any positive number
  of bytes up to what was asked for, be interrupted, or fail; when the list is used up, the
  call blocks.
\<close>

unbundle bit_operations_syntax

section \<open>The kernel's replies\<close>

text \<open>\<open>Moves k\<close> transfers \<open>k + 1\<close> bytes, or fewer when fewer are left.\<close>

datatype reply = Moves nat | Interrupted | Broken

datatype io_result = IO_Done | IO_Eof | IO_Error | IO_Blocked

section \<open>Byte order\<close>

definition htonl :: "32 word \<Rightarrow> 8 word list" where
  "htonl w = [ucast (drop_bit 24 w), ucast (drop_bit 16 w), ucast (drop_bit 8 w), ucast w]"

fun ntohl :: "8 word list \<Rightarrow> 32 word" where
  "ntohl [a, b, c, d] =
     (push_bit 24 (ucast a) OR push_bit 16 (ucast b)) OR (push_bit 8 (ucast c) OR ucast d)"
| "ntohl _ = 0"

lemma ntohl_htonl: "ntohl (htonl w) = w"
proof (rule bit_word_eqI)
  fix n assume "n < LENGTH(32)"
  then consider "n < 8" | "8 \<le> n" "n < 16" | "16 \<le> n" "n < 24" | "24 \<le> n" "n < 32" by fastforce
  then show "bit (ntohl (htonl w)) n \<longleftrightarrow> bit w n"
    by cases (auto simp: htonl_def bit_simps)
qed

lemma length_htonl [simp]: "length (htonl w) = 4"
  by (simp add: htonl_def)

section \<open>The loops\<close>

text \<open>
  The send loop: \<open>retry\<close> is whether \<^verbatim>\<open>EINTR\<close> is retried (\<open>send_all\<close>) or ends the loop like
  any other \<open>n <= 0\<close> (\<open>send_frame\<close>).  The result has the bytes that reached the wire and the
  replies not yet used.
\<close>

fun send_loop :: "bool \<Rightarrow> reply list \<Rightarrow> 'a list \<Rightarrow> io_result \<times> 'a list \<times> reply list" where
  "send_loop retry plan [] = (IO_Done, [], plan)"
| "send_loop retry [] (b # bs) = (IO_Blocked, [], [])"
| "send_loop retry (Moves k # plan) (b # bs) =
     (let n = min (Suc k) (length (b # bs))
      in case send_loop retry plan (drop n (b # bs)) of
           (r, w, p) \<Rightarrow> (r, take n (b # bs) @ w, p))"
| "send_loop retry (Interrupted # plan) (b # bs) =
     (if retry then send_loop retry plan (b # bs) else (IO_Error, [], plan))"
| "send_loop retry (Broken # plan) (b # bs) = (IO_Error, [], plan)"

text \<open>
  The receive loop for \<open>rem\<close> more bytes from a stream that holds \<open>inb\<close> and is then closed by
  the peer.
\<close>

fun recv_loop :: "bool \<Rightarrow> reply list \<Rightarrow> 'a list \<Rightarrow> nat \<Rightarrow> io_result \<times> 'a list \<times> 'a list \<times> reply list" where
  "recv_loop retry plan inb 0 = (IO_Done, [], inb, plan)"
| "recv_loop retry [] inb (Suc m) = (IO_Blocked, [], inb, [])"
| "recv_loop retry (Moves k # plan) inb (Suc m) =
     (if inb = [] then (IO_Eof, [], [], plan)
      else let n = min (Suc k) (min (Suc m) (length inb))
           in case recv_loop retry plan (drop n inb) (Suc m - n) of
                (r, got, rest, p) \<Rightarrow> (r, take n inb @ got, rest, p))"
| "recv_loop retry (Interrupted # plan) inb (Suc m) =
     (if retry then recv_loop retry plan inb (Suc m) else (IO_Error, [], inb, plan))"
| "recv_loop retry (Broken # plan) inb (Suc m) = (IO_Error, [], inb, plan)"

section \<open>Frames\<close>

datatype recv_result = Frame "8 word list" | Nullopt | Hangs

text \<open>\<open>send_frame\<close> returns true on \<open>IO_Done\<close> and false on \<open>IO_Error\<close>.\<close>

definition send_frame :: "reply list \<Rightarrow> 8 word list \<Rightarrow> 32 word \<Rightarrow> io_result \<times> 8 word list \<times> reply list" where
  "send_frame plan payload len =
     (case send_loop False plan (htonl len) of
        (IO_Done, w, p) \<Rightarrow>
          (case send_loop False p (take (unat len) payload) of
             (r, w', p') \<Rightarrow> (r, w @ w', p'))
      | (r, w, p) \<Rightarrow> (r, w, p))"

definition frame_failed :: "io_result \<Rightarrow> recv_result" where
  "frame_failed r = (if r = IO_Blocked then Hangs else Nullopt)"

definition recv_frame :: "reply list \<Rightarrow> 8 word list \<Rightarrow> recv_result \<times> 8 word list \<times> reply list" where
  "recv_frame plan inb =
     (case recv_loop False plan inb 4 of
        (IO_Done, l, rest, p) \<Rightarrow>
          (let len = ntohl l
           in if len = 0 \<or> 2 ^ 20 < len then (Nullopt, rest, p)
              else case recv_loop False p rest (unat len) of
                     (IO_Done, msg, rest', p') \<Rightarrow> (Frame msg, rest', p')
                   | (r, _, rest', p') \<Rightarrow> (frame_failed r, rest', p'))
      | (r, _, rest, p) \<Rightarrow> (frame_failed r, rest, p))"

definition frame_of :: "8 word list \<Rightarrow> 8 word list" where
  "frame_of msg = htonl (of_nat (length msg)) @ msg"

lemma length_frame_of: "length (frame_of msg) = 4 + length msg"
  by (simp add: frame_of_def)

section \<open>What the loops do\<close>

text \<open>Whatever the kernel answers, the wire holds a prefix of the buffer, and all of it on success.\<close>

lemma send_loop_prefix:
  "send_loop retry plan bs = (r, w, p) \<Longrightarrow> (\<exists>z. bs = w @ z) \<and> (r = IO_Done \<longrightarrow> w = bs)"
proof (induction retry plan bs arbitrary: r w p rule: send_loop.induct)
  case (3 retry k plan b bs)
  let ?n = "min (Suc k) (length (b # bs))"
  obtain r' w' p' where s: "send_loop retry plan (drop ?n (b # bs)) = (r', w', p')" by (metis prod_cases3)
  with 3(2) have "w = take ?n (b # bs) @ w'" "r = r'" by (simp_all add: Let_def)
  moreover from 3(1) [OF refl s] obtain z where "drop ?n (b # bs) = w' @ z" "r' = IO_Done \<longrightarrow> w' = drop ?n (b # bs)"
    by blast
  ultimately show ?case by (metis append.assoc append_take_drop_id)
qed (auto split: if_splits)

lemma recv_loop_prefix:
  "recv_loop retry plan inb m = (r, got, rest, p) \<Longrightarrow>
     inb = got @ rest \<and> length got \<le> m \<and> (r = IO_Done \<longrightarrow> length got = m)"
proof (induction retry plan inb m arbitrary: r got rest p rule: recv_loop.induct)
  case (3 retry k plan inb m)
  show ?case
  proof (cases "inb = []")
    case False
    let ?n = "min (Suc k) (min (Suc m) (length inb))"
    obtain r' g' rest' p' where s: "recv_loop retry plan (drop ?n inb) (Suc m - ?n) = (r', g', rest', p')"
      by (metis prod_cases4)
    with 3(2) False have "got = take ?n inb @ g'" "r = r'" "rest = rest'" by (simp_all add: Let_def)
    moreover from 3(1) [OF False refl s]
    have "drop ?n inb = g' @ rest'" "length g' \<le> Suc m - ?n" "r' = IO_Done \<longrightarrow> length g' = Suc m - ?n" by blast+
    moreover have "?n \<le> Suc m" "?n \<le> length inb" by simp_all
    moreover have "inb = take ?n inb @ drop ?n inb" by simp
    moreover have "length (take ?n inb) = ?n" by simp
    ultimately show ?thesis
      by (metis add_left_mono append.assoc le_add_diff_inverse length_append)
  qed (use 3(2) in simp)
qed (auto split: if_splits)

lemma htonl_ntohl:
  assumes "length l = 4"
  shows "htonl (ntohl l) = l"
proof -
  obtain a b c d where l: "l = [a, b, c, d]"
    using assms by (auto simp: numeral_eq_Suc length_Suc_conv)
  have "(ucast (drop_bit 24 (ntohl l)) :: 8 word) = a" "(ucast (drop_bit 16 (ntohl l)) :: 8 word) = b"
    "(ucast (drop_bit 8 (ntohl l)) :: 8 word) = c" "(ucast (ntohl l) :: 8 word) = d"
    by (rule bit_word_eqI; auto simp: l bit_simps dest: bit_imp_le_length)+
  then show ?thesis by (simp add: htonl_def l)
qed

text \<open>A kernel that always makes progress.\<close>

fun moves :: "reply \<Rightarrow> bool" where
  "moves (Moves k) = True"
| "moves _ = False"

lemma send_loop_good:
  "list_all moves plan \<Longrightarrow> length bs + extra \<le> length plan \<Longrightarrow>
     \<exists>p. send_loop retry plan bs = (IO_Done, bs, p) \<and> list_all moves p \<and> extra \<le> length p"
proof (induction retry plan bs rule: send_loop.induct)
  case (3 retry k plan b bs)
  let ?n = "min (Suc k) (length (b # bs))"
  have "length (drop ?n (b # bs)) + extra \<le> length plan" using 3(3) by auto
  with 3 obtain p where "send_loop retry plan (drop ?n (b # bs)) = (IO_Done, drop ?n (b # bs), p)"
    "list_all moves p" "extra \<le> length p" by auto
  then show ?case by (simp add: Let_def del: drop_Suc_Cons take_Suc_Cons min_Suc_Suc)
qed auto

lemma recv_loop_good:
  "list_all moves plan \<Longrightarrow> m + extra \<le> length plan \<Longrightarrow> m \<le> length inb \<Longrightarrow>
     \<exists>p. recv_loop retry plan inb m = (IO_Done, take m inb, drop m inb, p) \<and> list_all moves p \<and> extra \<le> length p"
proof (induction retry plan inb m rule: recv_loop.induct)
  case (3 retry k plan inb m)
  let ?n = "min (Suc k) (min (Suc m) (length inb))"
  have n: "1 \<le> ?n" "?n \<le> Suc m" and ne: "inb \<noteq> []" using 3(4) by auto
  have "Suc m - ?n + extra \<le> length plan" "Suc m - ?n \<le> length (drop ?n inb)"
    using 3(3,4) n by auto
  with 3 ne obtain p where p: "recv_loop retry plan (drop ?n inb) (Suc m - ?n)
      = (IO_Done, take (Suc m - ?n) (drop ?n inb), drop (Suc m - ?n) (drop ?n inb), p)"
    "list_all moves p" "extra \<le> length p" by auto
  have "take ?n inb @ take (Suc m - ?n) (drop ?n inb) = take (Suc m) inb"
    using n(2) by (metis le_add_diff_inverse take_add)
  moreover have "drop (Suc m - ?n) (drop ?n inb) = drop (Suc m) inb"
    using n(2) by (simp only: drop_drop) (metis le_add_diff_inverse2 add.commute)
  ultimately show ?case using p ne by (simp add: Let_def)
qed auto

lemma send_frame_good:
  assumes "list_all moves plan" and "4 + length msg + extra \<le> length plan" and "length msg < 2 ^ 32"
  shows "\<exists>p. send_frame plan msg (of_nat (length msg)) = (IO_Done, frame_of msg, p) \<and> list_all moves p \<and> extra \<le> length p"
proof -
  let ?l = "htonl (of_nat (length msg))"
  obtain p where p: "send_loop False plan ?l = (IO_Done, ?l, p)" "list_all moves p" "length msg + extra \<le> length p"
    using send_loop_good [of plan ?l "length msg + extra" False] assms by auto
  obtain q where "send_loop False p msg = (IO_Done, msg, q)" "list_all moves q" "extra \<le> length q"
    using send_loop_good [OF p(2,3), of False] by auto
  moreover have "unat (of_nat (length msg) :: 32 word) = length msg"
    using assms(3) by (simp add: unsigned_of_nat take_bit_nat_eq_self)
  ultimately show ?thesis using p by (simp add: send_frame_def frame_of_def)
qed

definition sane_length :: "32 word \<Rightarrow> bool" where
  "sane_length len \<longleftrightarrow> len \<noteq> 0 \<and> len \<le> 2 ^ 20"

lemma recv_frame_good:
  assumes "list_all moves plan" and "4 + length msg + extra \<le> length plan" and "length msg < 2 ^ 32"
  shows "\<exists>p rest'. recv_frame plan (frame_of msg @ rest)
      = (if sane_length (of_nat (length msg)) then (Frame msg, rest, p) else (Nullopt, rest', p))
    \<and> list_all moves p \<and> extra \<le> length p"
proof -
  let ?l = "htonl (of_nat (length msg))"
  obtain p where p: "recv_loop False plan (frame_of msg @ rest) 4 = (IO_Done, ?l, msg @ rest, p)"
    "list_all moves p" "length msg + extra \<le> length p"
    using recv_loop_good [of plan 4 "length msg + extra" "frame_of msg @ rest" False] assms(1,2)
    by (auto simp: frame_of_def)
  obtain q where q: "recv_loop False p (msg @ rest) (length msg) = (IO_Done, msg, rest, q)" "list_all moves q" "extra \<le> length q"
    using recv_loop_good [OF p(2,3), of "msg @ rest" False] by auto
  have "unat (of_nat (length msg) :: 32 word) = length msg"
    using assms(3) by (simp add: unsigned_of_nat take_bit_nat_eq_self)
  with p q show ?thesis
    by (cases "sane_length (of_nat (length msg))")
      (auto simp: recv_frame_def ntohl_htonl Let_def sane_length_def not_less [symmetric])
qed

lemma recv_frame_sound:
  assumes "recv_frame plan inb = (Frame msg, rest, p)"
  shows "inb = frame_of msg @ rest \<and> sane_length (of_nat (length msg)) \<and> length msg < 2 ^ 32"
proof -
  obtain r l rest1 p1 where 1: "recv_loop False plan inb 4 = (r, l, rest1, p1)" by (metis prod_cases4)
  have r: "r = IO_Done" using assms 1 by (cases r) (auto simp: recv_frame_def frame_failed_def)
  let ?len = "ntohl l"
  have sane: "sane_length ?len"
    using assms 1 r by (auto simp: recv_frame_def sane_length_def Let_def not_less [symmetric] split: if_splits)
  obtain r' m rest2 p2 where 2: "recv_loop False p1 rest1 (unat ?len) = (r', m, rest2, p2)" by (metis prod_cases4)
  have r': "r' = IO_Done" "m = msg" "rest2 = rest"
    using assms 1 r 2 sane
    by (cases r'; auto simp: recv_frame_def frame_failed_def Let_def sane_length_def split: if_splits)+
  have l: "inb = l @ rest1" "length l = 4" using recv_loop_prefix [OF 1] r by auto
  have m: "rest1 = msg @ rest" "length msg = unat ?len" using recv_loop_prefix [OF 2] r' by auto
  have len: "of_nat (length msg) = ?len" by (simp add: m(2))
  with l m have "inb = frame_of msg @ rest" by (simp add: frame_of_def htonl_ntohl)
  moreover have "length msg < 2 ^ 32" using unsigned_less [of ?len, where 'a = nat] by (simp add: m(2))
  ultimately show ?thesis using len sane by simp
qed

section \<open>The servers\<close>

datatype server_end = Disconnected | Invalid_Length | Died | Server_Hangs

text \<open>\<open>framed_server\<close>: messages received, bytes echoed, and how it ended; the result of \<open>send_frame\<close> is ignored.\<close>

function framed_server :: "reply list \<Rightarrow> reply list \<Rightarrow> 8 word list \<Rightarrow> 8 word list list \<times> 8 word list \<times> server_end" where
  "framed_server pr ps inb =
     (case recv_frame pr inb of
        (Nullopt, _, _) \<Rightarrow> ([], [], Disconnected)
      | (Hangs, _, _) \<Rightarrow> ([], [], Server_Hangs)
      | (Frame msg, rest, pr') \<Rightarrow>
          (case send_frame ps msg (of_nat (length msg)) of
             (r, w, ps') \<Rightarrow>
               if r = IO_Blocked then ([msg], w, Server_Hangs)
               else case framed_server pr' ps' rest of
                      (ms, ws, e) \<Rightarrow> (msg # ms, w @ ws, e)))"
  by pat_completeness auto
termination
  apply (relation "measure (\<lambda>(_, _, inb). length inb)")
   apply simp
  subgoal for pr ps inb
    by (auto dest!: recv_frame_sound [OF sym] simp: frame_of_def)
  done

declare framed_server.simps [simp del]

text \<open>\<open>run_server\<close> of \<^verbatim>\<open>01_tcp_server_client.cpp\<close>.\<close>

function run_server :: "reply list \<Rightarrow> reply list \<Rightarrow> 8 word list \<Rightarrow> 8 word list list \<times> 8 word list \<times> server_end" where
  "run_server pr ps inb =
     (case recv_loop True pr inb 4 of
        (IO_Eof, _, _, _) \<Rightarrow> ([], [], Disconnected)
      | (IO_Error, _, _, _) \<Rightarrow> ([], [], Died)
      | (IO_Blocked, _, _, _) \<Rightarrow> ([], [], Server_Hangs)
      | (IO_Done, l, rest, p) \<Rightarrow>
          (let len = ntohl l
           in if len = 0 \<or> 4096 < len then ([], [], Invalid_Length)
              else case recv_loop True p rest (unat len) of
                     (IO_Eof, _, _, _) \<Rightarrow> ([], [], Disconnected)
                   | (IO_Error, _, _, _) \<Rightarrow> ([], [], Died)
                   | (IO_Blocked, _, _, _) \<Rightarrow> ([], [], Server_Hangs)
                   | (IO_Done, msg, rest', p') \<Rightarrow>
                       (case send_loop True ps l of
                          (r1, w1, ps1) \<Rightarrow>
                            if r1 \<noteq> IO_Done then ([msg], w1, if r1 = IO_Blocked then Server_Hangs else Died)
                            else case send_loop True ps1 msg of
                                   (r2, w2, ps2) \<Rightarrow>
                                     if r2 \<noteq> IO_Done then ([msg], w1 @ w2, if r2 = IO_Blocked then Server_Hangs else Died)
                                     else case run_server p' ps2 rest' of
                                            (ms, ws, e) \<Rightarrow> (msg # ms, w1 @ w2 @ ws, e))))"
  by pat_completeness auto
termination
  apply (relation "measure (\<lambda>(_, _, inb). length inb)")
   apply simp
  subgoal for pr ps inb
    by (auto dest!: recv_loop_prefix [OF sym])
  done

declare run_server.simps [simp del]

text \<open>
  What both servers promise: they stop at the end of the stream, and they serve one frame
  of an accepted length and go on with the rest of the stream.
\<close>

definition serve_first ::
  "8 word list \<Rightarrow> 8 word list list \<times> 8 word list \<times> server_end \<Rightarrow> 8 word list list \<times> 8 word list \<times> server_end" where
  "serve_first m res = (case res of (ms, ws, e) \<Rightarrow> (m # ms, frame_of m @ ws, e))"

locale echo_server =
  fixes serve :: "reply list \<Rightarrow> reply list \<Rightarrow> 8 word list \<Rightarrow> 8 word list list \<times> 8 word list \<times> server_end"
    and accepts :: "8 word list \<Rightarrow> bool"
  assumes serve_eof: "list_all moves pr \<Longrightarrow> pr \<noteq> [] \<Longrightarrow> serve pr ps [] = ([], [], Disconnected)"
    and serve_frame: "list_all moves pr \<Longrightarrow> list_all moves ps \<Longrightarrow> accepts m \<Longrightarrow>
      4 + length m + k \<le> length pr \<Longrightarrow> 4 + length m + j \<le> length ps \<Longrightarrow>
      \<exists>pr' ps'. list_all moves pr' \<and> list_all moves ps' \<and> k \<le> length pr' \<and> j \<le> length ps'
        \<and> serve pr ps (frame_of m @ rest) = serve_first m (serve pr' ps' rest)"
begin

lemma echoes:
  assumes "list_all moves pr" and "list_all moves ps" and "list_all accepts msgs"
    and "length (concat (map frame_of msgs)) < length pr" and "length (concat (map frame_of msgs)) \<le> length ps"
  shows "serve pr ps (concat (map frame_of msgs)) = (msgs, concat (map frame_of msgs), Disconnected)"
  using assms
proof (induction msgs arbitrary: pr ps)
  case Nil
  then show ?case using serve_eof [of pr ps] by auto
next
  case (Cons m msgs)
  let ?n = "length (concat (map frame_of msgs))"
  have "4 + length m + Suc ?n \<le> length pr" "4 + length m + ?n \<le> length ps"
    using Cons.prems by (simp_all add: length_frame_of)
  then obtain pr' ps' where "list_all moves pr'" "list_all moves ps'" "Suc ?n \<le> length pr'" "?n \<le> length ps'"
    "serve pr ps (frame_of m @ concat (map frame_of msgs)) = serve_first m (serve pr' ps' (concat (map frame_of msgs)))"
    using serve_frame [of pr ps m "Suc ?n" ?n "concat (map frame_of msgs)"] Cons.prems by auto
  with Cons.IH [of pr' ps'] Cons.prems(3) show ?case by (simp add: serve_first_def)
qed

end

lemma recv_loop_eof: "list_all moves pr \<Longrightarrow> pr \<noteq> [] \<Longrightarrow> \<exists>p. recv_loop retry pr [] (Suc m) = (IO_Eof, [], [], p)"
  by (cases pr; cases "hd pr") auto

interpretation framed: echo_server framed_server "\<lambda>m. length m < 2 ^ 32 \<and> sane_length (of_nat (length m))"
proof (unfold_locales, goal_cases)
  case (1 pr ps)
  then obtain p where "recv_loop False pr ([] :: 8 word list) (Suc 3) = (IO_Eof, [], [], p)" using recv_loop_eof by blast
  then show ?case by (subst framed_server.simps) (simp add: recv_frame_def frame_failed_def)
next
  case (2 pr ps m k j rest)
  then obtain p where p: "recv_frame pr (frame_of m @ rest) = (Frame m, rest, p)" "list_all moves p" "k \<le> length p"
    using recv_frame_good [of pr m k rest] by auto
  obtain q where "send_frame ps m (of_nat (length m)) = (IO_Done, frame_of m, q)" "list_all moves q" "j \<le> length q"
    using send_frame_good [of ps m j] 2 by auto
  with p show ?case
    by (intro exI [of _ p] exI [of _ q]) (subst framed_server.simps, simp add: serve_first_def)
qed

definition tcp_accepts :: "8 word list \<Rightarrow> bool" where
  "tcp_accepts m \<longleftrightarrow> 0 < length m \<and> length m \<le> 4096"

lemma tcp_length:
  assumes "tcp_accepts m"
  shows "unat (of_nat (length m) :: 32 word) = length m"
    and "(of_nat (length m) :: 32 word) \<noteq> 0" and "\<not> 4096 < (of_nat (length m) :: 32 word)"
proof -
  show *: "unat (of_nat (length m) :: 32 word) = length m"
    using assms by (simp add: tcp_accepts_def unsigned_of_nat take_bit_nat_eq_self)
  show "(of_nat (length m) :: 32 word) \<noteq> 0" using * assms by (auto simp: tcp_accepts_def)
  show "\<not> 4096 < (of_nat (length m) :: 32 word)"
    using assms by (simp add: word_less_nat_alt * tcp_accepts_def)
qed

interpretation tcp: echo_server run_server tcp_accepts
proof (unfold_locales, goal_cases)
  case (1 pr ps)
  then obtain p where "recv_loop True pr ([] :: 8 word list) (Suc 3) = (IO_Eof, [], [], p)" using recv_loop_eof by blast
  then show ?case by (subst run_server.simps) simp
next
  case (2 pr ps m k j rest)
  let ?l = "htonl (of_nat (length m))"
  obtain p where p: "recv_loop True pr (frame_of m @ rest) 4 = (IO_Done, ?l, m @ rest, p)"
    "list_all moves p" "length m + k \<le> length p"
    using recv_loop_good [of pr 4 "length m + k" "frame_of m @ rest" True] 2 by (auto simp: frame_of_def)
  obtain p' where p': "recv_loop True p (m @ rest) (length m) = (IO_Done, m, rest, p')" "list_all moves p'" "k \<le> length p'"
    using recv_loop_good [OF p(2,3), of "m @ rest" True] by auto
  obtain q where q: "send_loop True ps ?l = (IO_Done, ?l, q)" "list_all moves q" "length m + j \<le> length q"
    using send_loop_good [of ps ?l "length m + j" True] 2 by auto
  obtain q' where q': "send_loop True q m = (IO_Done, m, q')" "list_all moves q'" "j \<le> length q'"
    using send_loop_good [OF q(2,3), of True] by auto
  have "run_server pr ps (frame_of m @ rest) = serve_first m (run_server p' q' rest)"
    using tcp_length [OF 2(3)] p p' q q'
    by (subst run_server.simps) (simp add: serve_first_def frame_of_def ntohl_htonl split: prod.splits)
  with p' q' show ?case by blast
qed

section \<open>Properties\<close>

text \<open>
  C28: The framed protocol never corrupts a message, whatever the kernel answers: what
  \<open>send_frame\<close> puts on the wire is a prefix of the frame and is the whole frame when it
  returns true, and a message that \<open>recv_frame\<close> returns is exactly the payload of the frame at the
  head of the stream, with the stream advanced past it.
\<close>

theorem frame_integrity:
  "(length msg < 2 ^ 32 \<longrightarrow> send_frame plan msg (of_nat (length msg)) = (r, w, p) \<longrightarrow>
      (\<exists>z. frame_of msg = w @ z) \<and> (r = IO_Done \<longrightarrow> w = frame_of msg))
   \<and> (recv_frame plan' inb = (Frame msg', rest, p') \<longrightarrow> inb = frame_of msg' @ rest)"
proof (intro conjI impI)
  assume len: "length msg < 2 ^ 32" and s: "send_frame plan msg (of_nat (length msg)) = (r, w, p)"
  have u: "unat (of_nat (length msg) :: 32 word) = length msg"
    using len by (simp add: unsigned_of_nat take_bit_nat_eq_self)
  obtain r1 w1 p1 where 1: "send_loop False plan (htonl (of_nat (length msg))) = (r1, w1, p1)" by (metis prod_cases3)
  obtain r2 w2 p2 where 2: "send_loop False p1 msg = (r2, w2, p2)" by (metis prod_cases3)
  have "(r1 = IO_Done \<and> r = r2 \<and> w = w1 @ w2) \<or> (r1 \<noteq> IO_Done \<and> r = r1 \<and> w = w1)"
    using s 1 2 u by (cases r1) (auto simp: send_frame_def)
  with send_loop_prefix [OF 1] send_loop_prefix [OF 2]
  show "\<exists>z. frame_of msg = w @ z" and "r = IO_Done \<Longrightarrow> w = frame_of msg"
    by (auto simp: frame_of_def)
next
  assume "recv_frame plan' inb = (Frame msg', rest, p')"
  then show "inb = frame_of msg' @ rest" using recv_frame_sound by blast
qed

theorem frame_integrity_witness:
  "send_frame [Moves 9, Moves 0, Broken] [104, 105] 2 = (IO_Error, [0, 0, 0, 2, 104], []) \<and>
   (\<exists>z. frame_of [104, 105] = [0, 0, 0, 2, 104] @ z) \<and>
   recv_frame [Moves 2, Moves 9, Moves 9] [0, 0, 0, 1, 104, 7] = (Frame [104], [7], []) \<and>
   [0, 0, 0, 1, 104, 7] = frame_of [104] @ [7]"
proof -
  have s: "send_frame [Moves 9, Moves 0, Broken] [104, 105] 2 = (IO_Error, [0, 0, 0, 2, 104], [])" by code_simp
  have r: "recv_frame [Moves 2, Moves 9, Moves 9] [0, 0, 0, 1, 104, 7] = (Frame [104], [7], [])" by code_simp
  show ?thesis
    using frame_integrity [of "[104, 105]" "[Moves 9, Moves 0, Broken]" IO_Error "[0, 0, 0, 2, 104]" "[]"
        "[Moves 2, Moves 9, Moves 9]" "[0, 0, 0, 1, 104, 7]" "[104]" "[7]" "[]"] s r by simp
qed

text \<open>
  C13: Round trip for every chunking: if the kernel moves at least one byte per call, then
  \<open>send_frame\<close> succeeds and \<open>recv_frame\<close> returns the message and leaves the rest of the stream,
  provided the message is not empty and has at most \<open>2 ^ 20\<close> bytes.  Other messages are
  sent just as well, but \<open>recv_frame\<close> rejects them as if the peer had closed the connection.
\<close>

theorem frame_roundtrip:
  assumes "list_all moves ps" and "list_all moves pr" and "length msg < 2 ^ 32"
    and "4 + length msg \<le> length ps" and "4 + length msg \<le> length pr"
  shows "\<exists>p q r. send_frame ps msg (of_nat (length msg)) = (IO_Done, frame_of msg, p)
    \<and> recv_frame pr (frame_of msg @ rest)
        = (if 0 < length msg \<and> length msg \<le> 2 ^ 20 then (Frame msg, rest, q) else (Nullopt, r, q))"
proof -
  have "unat (of_nat (length msg) :: 32 word) = length msg"
    using assms(3) by (simp add: unsigned_of_nat take_bit_nat_eq_self)
  then have "sane_length (of_nat (length msg)) \<longleftrightarrow> 0 < length msg \<and> length msg \<le> 2 ^ 20"
    by (auto simp: sane_length_def word_le_nat_alt unat_eq_0 [symmetric])
  with send_frame_good [of ps msg 0] recv_frame_good [of pr msg 0 rest] assms show ?thesis by auto
qed

theorem frame_roundtrip_witness:
  "\<exists>p q. send_frame (replicate 6 (Moves 0)) [72, 105] 2 = (IO_Done, [0, 0, 0, 2, 72, 105], p)
    \<and> recv_frame (replicate 6 (Moves 2)) ([0, 0, 0, 2, 72, 105] @ [9]) = (Frame [72, 105], [9], q)"
  using frame_roundtrip [of "replicate 6 (Moves 0)" "replicate 6 (Moves 2)" "[72, 105]" "[9]"]
  by (auto simp: frame_of_def htonl_def list_all_iff)

text \<open>
  Both echo servers, fed any sequence of messages of a length they accept and under any
  chunking of the reads and writes, receive exactly these messages in order, echo exactly
  the bytes that were sent, and notice the end of the stream.  The server of
  \<^verbatim>\<open>10_socket_patterns.cpp\<close> accepts 1 to \<open>2 ^ 20\<close> bytes, the one of
  \<^verbatim>\<open>01_tcp_server_client.cpp\<close> 1 to 4096.
\<close>

theorem servers_echo:
  assumes "list_all moves pr" and "list_all moves ps"
    and "length (concat (map frame_of msgs)) < length pr" and "length (concat (map frame_of msgs)) \<le> length ps"
  shows "(list_all (\<lambda>m. length m < 2 ^ 32 \<and> sane_length (of_nat (length m))) msgs \<longrightarrow>
      framed_server pr ps (concat (map frame_of msgs)) = (msgs, concat (map frame_of msgs), Disconnected))
    \<and> (list_all tcp_accepts msgs \<longrightarrow>
      run_server pr ps (concat (map frame_of msgs)) = (msgs, concat (map frame_of msgs), Disconnected))"
  using framed.echoes [OF assms(1,2) _ assms(3,4)] tcp.echoes [OF assms(1,2) _ assms(3,4)] by blast

theorem servers_echo_witness:
  "run_server (replicate 11 (Moves 1)) (replicate 10 (Moves 0)) (frame_of [65] @ frame_of [66])
     = ([[65], [66]], frame_of [65] @ frame_of [66], Disconnected)"
  using servers_echo [of "replicate 11 (Moves 1)" "replicate 10 (Moves 0)" "[[65], [66]]"]
  by (simp add: tcp_accepts_def list_all_iff frame_of_def)

end
