(* ===== verification/Connections.thy ===== *)
theory Connections
  imports Prelude "HOL-Library.Multiset"
begin

text \<open>
  The connection management of \<^verbatim>\<open>networking/10_socket_patterns.cpp\<close>: the RAII class
  \<open>Socket\<close>, \<open>connect_with_timeout\<close>, \<open>reconnect_with_backoff\<close> and \<open>ConnectionPool\<close>.  What the
  operating system answers is a parameter of the definitions.
\<close>

section \<open>Socket\<close>

definition INVALID :: int where
  "INVALID = - 1"

text \<open>
  The live \<open>Socket\<close> objects with their \<open>fd_\<close> (a destroyed object is \<open>None\<close>), the descriptors that are
  open in the process, the descriptors handed out by \<open>release\<close>, and whether \<open>::close\<close> was
  ever called on a descriptor that is not open.
\<close>

record fd_world =
  objects :: "int option list"
  open_fds :: "int set"
  released :: "int set"
  bad_close :: bool

definition fd_new :: fd_world where
  "fd_new = \<lparr>objects = [], open_fds = {}, released = {}, bad_close = False\<rparr>"

definition sys_close :: "int \<Rightarrow> fd_world \<Rightarrow> fd_world" where
  "sys_close fd w = w\<lparr>open_fds := open_fds w - {fd}, bad_close := bad_close w \<or> fd \<notin> open_fds w\<rparr>"

definition set_fd :: "nat \<Rightarrow> int option \<Rightarrow> fd_world \<Rightarrow> fd_world" where
  "set_fd i v w = w\<lparr>objects := (objects w)[i := v]\<rparr>"

text \<open>\<open>Socket(::socket(...))\<close>: the descriptor is one the kernel has just opened.\<close>

definition socket_open :: "int \<Rightarrow> fd_world \<Rightarrow> fd_world" where
  "socket_open fd w = w\<lparr>objects := objects w @ [Some fd], open_fds := insert fd (open_fds w)\<rparr>"

definition socket_close :: "nat \<Rightarrow> int \<Rightarrow> fd_world \<Rightarrow> fd_world" where
  "socket_close i fd w = (if fd \<noteq> INVALID then set_fd i (Some INVALID) (sys_close fd w) else w)"

definition socket_destroy :: "nat \<Rightarrow> int \<Rightarrow> fd_world \<Rightarrow> fd_world" where
  "socket_destroy i fd w = set_fd i None (socket_close i fd w)"

definition socket_move :: "nat \<Rightarrow> int \<Rightarrow> fd_world \<Rightarrow> fd_world" where
  "socket_move i fd w = (set_fd i (Some INVALID) w)\<lparr>objects := (objects w)[i := Some INVALID] @ [Some fd]\<rparr>"

definition socket_assign :: "nat \<Rightarrow> int \<Rightarrow> nat \<Rightarrow> int \<Rightarrow> fd_world \<Rightarrow> fd_world" where
  "socket_assign i fd j fd' w =
     (if i \<noteq> j then set_fd j (Some INVALID) (set_fd i (Some fd') (socket_close i fd w)) else w)"

definition socket_release :: "nat \<Rightarrow> int \<Rightarrow> fd_world \<Rightarrow> fd_world" where
  "socket_release i fd w = (set_fd i (Some INVALID) w)\<lparr>released := released w \<union> ({fd} - {INVALID})\<rparr>"

text \<open>One operation on live objects; \<open>Open_Op\<close> takes a descriptor the kernel may return, that is, one that is
  not open.  (The constructor takes any number; two \<open>Socket\<close>s made from the same descriptor by the caller would both close it.)\<close>

datatype sock_op = Open_Op int | Default_Op | Close_Op nat | Destroy_Op nat | Move_Op nat | Assign_Op nat nat | Release_Op nat

definition fd_at :: "int option list \<Rightarrow> nat \<Rightarrow> int option" where
  "fd_at xs i = (if i < length xs then xs ! i else None)"

fun sock_exec :: "sock_op \<Rightarrow> fd_world \<Rightarrow> fd_world" where
  "sock_exec (Open_Op fd) w = (if 0 \<le> fd \<and> fd \<notin> open_fds w then socket_open fd w else w)"
| "sock_exec Default_Op w = w\<lparr>objects := objects w @ [Some INVALID]\<rparr>"
| "sock_exec (Close_Op i) w = (case fd_at (objects w) i of None \<Rightarrow> w | Some fd \<Rightarrow> socket_close i fd w)"
| "sock_exec (Destroy_Op i) w = (case fd_at (objects w) i of None \<Rightarrow> w | Some fd \<Rightarrow> socket_destroy i fd w)"
| "sock_exec (Move_Op i) w = (case fd_at (objects w) i of None \<Rightarrow> w | Some fd \<Rightarrow> socket_move i fd w)"
| "sock_exec (Assign_Op i j) w =
     (case (fd_at (objects w) i, fd_at (objects w) j) of
        (Some fd, Some fd') \<Rightarrow> socket_assign i fd j fd' w
      | _ \<Rightarrow> w)"
| "sock_exec (Release_Op i) w = (case fd_at (objects w) i of None \<Rightarrow> w | Some fd \<Rightarrow> socket_release i fd w)"

text \<open>
  Unique ownership, over the descriptors \<open>h\<close> of the objects: a holder \<open>g\<close> assigns every open
  descriptor that was not released to the one live object that has it, and no object has
  any other valid descriptor.
\<close>

definition held_by :: "(int \<Rightarrow> nat) \<Rightarrow> (nat \<Rightarrow> int option) \<Rightarrow> int set \<Rightarrow> bool" where
  "held_by g h A \<longleftrightarrow> (\<forall>fd \<in> A. fd \<noteq> INVALID \<longrightarrow> h (g fd) = Some fd)
     \<and> (\<forall>i fd. h i = Some fd \<longrightarrow> fd \<noteq> INVALID \<longrightarrow> fd \<in> A \<and> g fd = i)"

definition own :: "(nat \<Rightarrow> int option) \<Rightarrow> int set \<Rightarrow> int set \<Rightarrow> bool" where
  "own h U R \<longleftrightarrow> R \<subseteq> U \<and> INVALID \<notin> U \<and> (\<exists>g. held_by g h (U - R))"

lemma own_fd: "own h U R \<Longrightarrow> h i = Some fd \<Longrightarrow> fd \<noteq> INVALID \<Longrightarrow> fd \<in> U \<and> fd \<notin> R"
  by (auto simp: own_def held_by_def)

lemma own_unique: "own h U R \<Longrightarrow> h i = Some fd \<Longrightarrow> h j = Some fd \<Longrightarrow> fd \<noteq> INVALID \<Longrightarrow> j = i"
  unfolding own_def held_by_def by blast

lemma own_dead:
  assumes "own h U R" and "\<forall>i. h i = None"
  shows "U = R"
proof -
  obtain g where g: "held_by g h (U - R)" and U: "R \<subseteq> U" "INVALID \<notin> U" using assms(1) by (auto simp: own_def)
  have "x \<in> R" if "x \<in> U" for x
  proof (rule ccontr)
    assume "x \<notin> R"
    then have "x \<in> U - R" "x \<noteq> INVALID" using that U(2) by auto
    then have "h (g x) = Some x" using g by (simp add: held_by_def)
    with assms(2) show False by simp
  qed
  with U(1) show ?thesis by blast
qed

lemma own_null:
  assumes "own h U R" and "h n = None \<or> h n = Some INVALID" and "v = None \<or> v = Some INVALID"
  shows "own (h(n := v)) U R"
proof -
  obtain g where g: "held_by g h (U - R)" using assms(1) by (auto simp: own_def)
  with assms(2,3) have "held_by g (h(n := v)) (U - R)" by (auto simp: held_by_def)
  with assms(1) show ?thesis unfolding own_def by blast
qed

lemma own_open:
  assumes "own h U R" and "h n = None \<or> h n = Some INVALID" and "fd \<notin> U" and "fd \<noteq> INVALID"
  shows "own (h(n := Some fd)) (insert fd U) R"
proof -
  obtain g where g: "held_by g h (U - R)" using assms(1) by (auto simp: own_def)
  have "fd \<notin> R" using assms by (auto simp: own_def)
  with g assms(2-4) have "held_by (g(fd := n)) (h(n := Some fd)) (insert fd U - R)"
    by (auto simp: held_by_def)
  moreover have "INVALID \<notin> insert fd U" "R \<subseteq> insert fd U" using assms by (auto simp: own_def)
  ultimately show ?thesis unfolding own_def by blast
qed

lemma own_close:
  assumes "own h U R" and "h i = Some fd" and "fd \<noteq> INVALID"
  shows "own (h(i := Some INVALID)) (U - {fd}) R"
proof -
  obtain g where g: "held_by g h (U - R)" using assms(1) by (auto simp: own_def)
  then have i: "fd \<in> U - R" "g fd = i" using assms(2,3) unfolding held_by_def by blast+
  have "held_by g (h(i := Some INVALID)) (U - {fd} - R)"
    unfolding held_by_def
  proof (intro conjI ballI allI impI)
    fix x assume x: "x \<in> U - {fd} - R" "x \<noteq> INVALID"
    then have "h (g x) = Some x" using g unfolding held_by_def by blast
    moreover from this have "g x \<noteq> i" using assms(2) x(1) by auto
    ultimately show "(h(i := Some INVALID)) (g x) = Some x" by simp
  next
    fix k x assume "(h(i := Some INVALID)) k = Some x" "x \<noteq> INVALID"
    then have k: "k \<noteq> i" "h k = Some x" "x \<noteq> INVALID" by (auto split: if_splits)
    then have "x \<in> U - R" "g x = k" using g unfolding held_by_def by blast+
    with k(1) i(2) show "x \<in> U - {fd} - R" "g x = k" by auto
  qed
  with assms(1) i(1) show ?thesis unfolding own_def by blast
qed

lemma own_move:
  assumes "own h U R" and "h i = Some fd" and "h n = None \<or> h n = Some INVALID" and "i \<noteq> n"
  shows "own (h(i := Some INVALID, n := Some fd)) U R"
proof (cases "fd = INVALID")
  case True
  have "own (h(i := Some INVALID)) U R" by (rule own_null) (use assms True in auto)
  then show ?thesis by (rule own_null) (use assms True in auto)
next
  case False
  have "own (h(i := Some INVALID)) (U - {fd}) R" by (rule own_close) (use assms False in auto)
  then have "own (h(i := Some INVALID, n := Some fd)) (insert fd (U - {fd})) R"
    by (rule own_open) (use assms False in auto)
  moreover have "fd \<in> U" using own_fd [OF assms(1,2) False] by simp
  ultimately show ?thesis by (simp add: insert_absorb)
qed

lemma own_release:
  assumes "own h U R" and "h i = Some fd"
  shows "own (h(i := Some INVALID)) U (R \<union> ({fd} - {INVALID}))"
proof (cases "fd = INVALID")
  case True
  then show ?thesis using own_null [of h U R i "Some INVALID"] assms by auto
next
  case False
  have "own (h(i := Some INVALID)) (U - {fd}) R" by (rule own_close) (use assms False in auto)
  moreover have "fd \<in> U" using own_fd [OF assms False] by simp
  moreover have "U - {fd} - R = U - (R \<union> {fd})" by blast
  ultimately show ?thesis using assms(1) False by (auto simp: own_def)
qed

definition fd_inv :: "fd_world \<Rightarrow> bool" where
  "fd_inv w \<longleftrightarrow> \<not> bad_close w \<and> own (fd_at (objects w)) (open_fds w) (released w)"

lemma fd_at_set [simp]: "i < length xs \<Longrightarrow> fd_at (xs[i := v]) = (fd_at xs)(i := v)"
  by (auto simp: fd_at_def fun_eq_iff nth_list_update)

lemma fd_at_app [simp]: "fd_at (xs @ [v]) = (fd_at xs)(length xs := v)"
  by (auto simp: fd_at_def fun_eq_iff nth_append)

lemma fd_at_len: "fd_at xs i = Some fd \<Longrightarrow> i < length xs"
  by (auto simp: fd_at_def split: if_splits)

lemma fd_at_beyond [simp]: "fd_at xs (length xs) = None"
  by (simp add: fd_at_def)

text \<open>Closing, and what the object holds afterwards.\<close>

lemma sock_close_inv:
  assumes "fd_inv w" and "fd_at (objects w) i = Some fd"
  shows "fd_inv (socket_close i fd w)"
    and "fd_at (objects (socket_close i fd w)) = (fd_at (objects w))(i := Some INVALID)"
    and "length (objects (socket_close i fd w)) = length (objects w)"
proof -
  have len: "i < length (objects w)" by (rule fd_at_len [OF assms(2)])
  show "length (objects (socket_close i fd w)) = length (objects w)"
    by (simp add: socket_close_def set_fd_def sys_close_def)
  show obj: "fd_at (objects (socket_close i fd w)) = (fd_at (objects w))(i := Some INVALID)"
    using len assms(2) by (auto simp: socket_close_def set_fd_def sys_close_def fun_eq_iff)
  show "fd_inv (socket_close i fd w)"
  proof (cases "fd = INVALID")
    case False
    then have "fd \<in> open_fds w" using assms own_fd by (auto simp: fd_inv_def)
    with own_close [of "fd_at (objects w)" "open_fds w" "released w" i fd] assms False len show ?thesis
      by (simp add: fd_inv_def socket_close_def set_fd_def sys_close_def)
  qed (use assms in \<open>simp add: socket_close_def\<close>)
qed

lemma sock_destroy_inv:
  assumes "fd_inv w" and "fd_at (objects w) i = Some fd"
  shows "fd_inv (socket_destroy i fd w)"
proof -
  note c = sock_close_inv [OF assms]
  have "own ((fd_at (objects (socket_close i fd w)))(i := None)) (open_fds (socket_close i fd w)) (released (socket_close i fd w))"
    by (rule own_null) (use c in \<open>simp_all add: fd_inv_def\<close>)
  with c fd_at_len [OF assms(2)] show ?thesis by (simp add: fd_inv_def socket_destroy_def set_fd_def)
qed

lemma sock_move_inv:
  assumes "fd_inv w" and "fd_at (objects w) i = Some fd"
  shows "fd_inv (socket_move i fd w)"
proof -
  note len = fd_at_len [OF assms(2)]
  have "own ((fd_at (objects w))(i := Some INVALID, length (objects w) := Some fd)) (open_fds w) (released w)"
    by (rule own_move) (use assms len in \<open>simp_all add: fd_inv_def\<close>)
  with assms len show ?thesis by (simp add: fd_inv_def socket_move_def set_fd_def)
qed

lemma sock_assign_inv:
  assumes "fd_inv w" and "fd_at (objects w) i = Some fd" and "fd_at (objects w) j = Some fd'"
  shows "fd_inv (socket_assign i fd j fd' w)"
proof (cases "i = j")
  case False
  note c = sock_close_inv [OF assms(1,2)]
  let ?w = "socket_close i fd w"
  have "own ((fd_at (objects ?w))(j := Some INVALID, i := Some fd')) (open_fds ?w) (released ?w)"
    by (rule own_move) (use c assms False in \<open>simp_all add: fd_inv_def\<close>)
  with c fd_at_len [OF assms(2)] fd_at_len [OF assms(3)] False show ?thesis
    by (simp add: fd_inv_def socket_assign_def set_fd_def fun_upd_twist)
qed (use assms in \<open>simp add: socket_assign_def\<close>)

lemma sock_release_inv:
  assumes "fd_inv w" and "fd_at (objects w) i = Some fd"
  shows "fd_inv (socket_release i fd w)"
  using assms own_release [of "fd_at (objects w)" "open_fds w" "released w" i fd] fd_at_len [OF assms(2)]
  by (simp add: fd_inv_def socket_release_def set_fd_def)

lemma sock_open_inv: "fd_inv w \<Longrightarrow> fd \<notin> open_fds w \<Longrightarrow> 0 \<le> fd \<Longrightarrow> fd_inv (socket_open fd w)"
  using own_open [of "fd_at (objects w)" "open_fds w" "released w" "length (objects w)" fd]
  by (simp add: fd_inv_def socket_open_def INVALID_def)

lemma sock_default_inv: "fd_inv w \<Longrightarrow> fd_inv (w\<lparr>objects := objects w @ [Some INVALID]\<rparr>)"
  using own_null [of "fd_at (objects w)" "open_fds w" "released w" "length (objects w)" "Some INVALID"]
  by (simp add: fd_inv_def)

lemmas socket_invs = sock_close_inv(1) sock_destroy_inv sock_move_inv sock_assign_inv sock_release_inv sock_open_inv sock_default_inv

lemma sock_exec_inv: "fd_inv w \<Longrightarrow> fd_inv (sock_exec op w)"
  by (cases op) (auto simp: socket_invs split: option.splits)

section \<open>Connecting\<close>

text \<open>What the system calls of \<open>connect_with_timeout\<close> answer.\<close>

record connect_env =
  inet_pton_rc :: int
  connect_rc :: int
  connect_errno :: int
  poll_rc :: "int \<Rightarrow> int"
  so_error :: int

definition EINPROGRESS :: int where "EINPROGRESS = 115"

text \<open>The result is the descriptor and whether it is still in non-blocking mode.\<close>

definition connect_with_timeout :: "connect_env \<Rightarrow> int \<Rightarrow> int \<Rightarrow> (int \<times> bool) option" where
  "connect_with_timeout e fd timeout =
     (if inet_pton_rc e \<noteq> 1 then None
      else if connect_rc e = 0 then Some (fd, True)
      else if connect_errno e \<noteq> EINPROGRESS then None
      else if poll_rc e timeout \<le> 0 then None
      else if so_error e \<noteq> 0 then None
      else Some (fd, False))"

text \<open>
  \<open>reconnect_with_backoff\<close>: \<open>conn\<close> is the outcome of each attempt, \<open>scale\<close> the truncated
  multiplication by \<open>factor\<close>.  The result has the lines printed, the delays slept and the
  descriptor.
\<close>

function backoff_loop :: "(nat \<Rightarrow> int \<Rightarrow> int option) \<Rightarrow> (int \<Rightarrow> int) \<Rightarrow> nat \<Rightarrow> nat \<Rightarrow> int \<Rightarrow> console \<times> int list \<times> int" where
  "backoff_loop conn scale max_attempts attempt delay =
     (if attempt \<le> max_attempts
      then (let l = ''  reconnect: attempt '' @ dec_nat attempt @ '', timeout='' @ dec_int delay @ '' ms''
            in case conn attempt delay of
                 Some fd \<Rightarrow> ([l, ''  reconnect: connected on attempt '' @ dec_nat attempt], [], fd)
               | None \<Rightarrow>
                   (case backoff_loop conn scale max_attempts (Suc attempt) (scale delay) of
                      (ls, sl, r) \<Rightarrow> (l # ls, (if attempt < max_attempts then [delay] else []) @ sl, r)))
      else ([''  reconnect: all attempts failed''], [], INVALID))"
  by pat_completeness auto
termination by (relation "measure (\<lambda>(_, _, m, a, _). Suc m - a)") auto

declare backoff_loop.simps [simp del]

definition reconnect_with_backoff :: "(nat \<Rightarrow> int \<Rightarrow> int option) \<Rightarrow> (int \<Rightarrow> int) \<Rightarrow> nat \<Rightarrow> int \<Rightarrow> console \<times> int list \<times> int" where
  "reconnect_with_backoff conn scale max_attempts initial_delay =
     backoff_loop conn scale max_attempts 1 initial_delay"

definition doubled :: "int \<Rightarrow> int" where "doubled d = 2 * d"

lemma backoff_success:
  "attempt + n \<le> m \<Longrightarrow> (\<And>j. j < n \<Longrightarrow> conn (attempt + j) (d * 2 ^ j) = None) \<Longrightarrow>
   conn (attempt + n) (d * 2 ^ n) = Some fd \<Longrightarrow>
   snd (backoff_loop conn doubled m attempt d) = (map (\<lambda>j. d * 2 ^ j) [0..<n], fd)"
proof (induction n arbitrary: attempt d)
  case 0
  then show ?case by (subst backoff_loop.simps) (simp add: Let_def)
next
  case (Suc n)
  have "conn (Suc attempt + j) (doubled d * 2 ^ j) = None" if "j < n" for j
    using Suc.prems(2) [of "Suc j"] that by (simp add: doubled_def mult.assoc mult.left_commute)
  moreover have "conn (Suc attempt + n) (doubled d * 2 ^ n) = Some fd"
    using Suc.prems(3) by (simp add: doubled_def mult.assoc mult.left_commute)
  ultimately have "snd (backoff_loop conn doubled m (Suc attempt) (doubled d))
      = (map (\<lambda>j. doubled d * 2 ^ j) [0..<n], fd)"
    using Suc.IH [of "Suc attempt" "doubled d"] Suc.prems(1) by simp
  moreover have "conn attempt d = None" using Suc.prems(2) [of 0] by simp
  moreover have "map (\<lambda>j. d * 2 ^ j) [0..<Suc n] = d # map (\<lambda>j. doubled d * 2 ^ j) [0..<n]"
    by (simp add: upt_conv_Cons map_Suc_upt [symmetric] doubled_def mult.assoc mult.left_commute del: upt_Suc)
  ultimately show ?case using Suc.prems(1)
    by (subst backoff_loop.simps) (auto simp: Let_def split: prod.splits simp del: upt_Suc)
qed

lemma backoff_failure:
  "attempt + n = Suc m \<Longrightarrow> (\<And>j. j < n \<Longrightarrow> conn (attempt + j) (d * 2 ^ j) = None) \<Longrightarrow>
   snd (backoff_loop conn doubled m attempt d) = (map (\<lambda>j. d * 2 ^ j) [0..<n - 1], INVALID)"
proof (induction n arbitrary: attempt d)
  case 0
  then show ?case by (subst backoff_loop.simps) simp
next
  case (Suc n)
  have "conn (Suc attempt + j) (doubled d * 2 ^ j) = None" if "j < n" for j
    using Suc.prems(2) [of "Suc j"] that by (simp add: doubled_def mult.assoc mult.left_commute)
  then have "snd (backoff_loop conn doubled m (Suc attempt) (doubled d))
      = (map (\<lambda>j. doubled d * 2 ^ j) [0..<n - 1], INVALID)"
    using Suc.IH [of "Suc attempt" "doubled d"] Suc.prems(1) by simp
  moreover have "conn attempt d = None" using Suc.prems(2) [of 0] by simp
  moreover have "0 < n \<Longrightarrow> map (\<lambda>j. d * 2 ^ j) [0..<n] = d # map (\<lambda>j. doubled d * 2 ^ j) [0..<n - 1]"
    by (cases n) (simp_all add: upt_conv_Cons map_Suc_upt [symmetric] doubled_def mult.assoc mult.left_commute del: upt_Suc)
  ultimately show ?case using Suc.prems(1)
    by (subst backoff_loop.simps) (cases n; auto simp: Let_def split: prod.splits simp del: upt_Suc)
qed

section \<open>ConnectionPool\<close>

record conn_pool =
  pool_fds :: "int list"
  available :: "nat list"

definition pool_add :: "int option \<Rightarrow> conn_pool \<Rightarrow> conn_pool" where
  "pool_add c p =
     (case c of
        None \<Rightarrow> p
      | Some fd \<Rightarrow> p\<lparr>available := available p @ [length (pool_fds p)], pool_fds := pool_fds p @ [fd]\<rparr>)"

text \<open>The constructor, given what each connection attempt returned.\<close>

definition make_pool :: "int option list \<Rightarrow> conn_pool" where
  "make_pool cs = fold pool_add cs \<lparr>pool_fds = [], available = []\<rparr>"

definition pool_acquire :: "conn_pool \<Rightarrow> int \<times> conn_pool" where
  "pool_acquire p =
     (if available p = [] then (- 1, p)
      else (pool_fds p ! last (available p), p\<lparr>available := butlast (available p)\<rparr>))"

fun find_fd :: "int \<Rightarrow> nat \<Rightarrow> int list \<Rightarrow> nat option" where
  "find_fd fd i [] = None"
| "find_fd fd i (x # xs) = (if x = fd then Some i else find_fd fd (Suc i) xs)"

definition pool_release :: "int \<Rightarrow> conn_pool \<Rightarrow> conn_pool" where
  "pool_release fd p =
     (case find_fd fd 0 (pool_fds p) of
        None \<Rightarrow> p
      | Some i \<Rightarrow> p\<lparr>available := available p @ [i]\<rparr>)"

definition available_count :: "conn_pool \<Rightarrow> nat" where
  "available_count p = length (available p)"

text \<open>A client that gives back only descriptors it holds.\<close>

datatype pool_op = Acquire | Release int

fun pool_client :: "pool_op list \<Rightarrow> conn_pool \<Rightarrow> int list \<Rightarrow> conn_pool \<times> int list" where
  "pool_client [] p held = (p, held)"
| "pool_client (Acquire # ops) p held =
     (case pool_acquire p of
        (fd, p') \<Rightarrow> pool_client ops p' (if fd = - 1 then held else fd # held))"
| "pool_client (Release fd # ops) p held =
     (if fd \<in> set held then pool_client ops (pool_release fd p) (remove1 fd held) else pool_client ops p held)"

text \<open>The connections are exactly the available ones and those held.\<close>

definition pool_inv :: "conn_pool \<Rightarrow> int list \<Rightarrow> bool" where
  "pool_inv p held \<longleftrightarrow> distinct (pool_fds p) \<and> list_all (\<lambda>fd. 0 \<le> fd) (pool_fds p)
     \<and> list_all (\<lambda>i. i < length (pool_fds p)) (available p)
     \<and> mset (pool_fds p) = mset (map (\<lambda>i. pool_fds p ! i) (available p)) + mset held"

lemma find_fd_Some: "find_fd fd i xs = Some k \<Longrightarrow> i \<le> k \<and> k - i < length xs \<and> xs ! (k - i) = fd"
proof (induction xs arbitrary: i)
  case (Cons x xs)
  show ?case
  proof (cases "x = fd")
    case False
    with Cons have "Suc i \<le> k \<and> k - Suc i < length xs \<and> xs ! (k - Suc i) = fd" by simp
    then show ?thesis by (auto simp: nth_Cons' Suc_diff_Suc)
  qed (use Cons.prems in auto)
qed simp

lemma find_fd_None: "find_fd fd i xs = None \<Longrightarrow> fd \<notin> set xs"
  by (induction xs arbitrary: i) (auto split: if_splits)

lemma pool_acquire_inv:
  assumes "pool_inv p held" and "pool_acquire p = (fd, p')"
  shows "pool_inv p' (if fd = - 1 then held else fd # held)"
proof (cases "available p" rule: rev_cases)
  case (snoc b i)
  then have "i < length (pool_fds p)" using assms(1) by (simp add: pool_inv_def)
  then have "0 \<le> pool_fds p ! i" using assms(1) by (simp add: pool_inv_def list_all_length)
  with snoc assms show ?thesis by (auto simp: pool_inv_def pool_acquire_def)
qed (use assms in \<open>auto simp: pool_acquire_def\<close>)

lemma pool_release_inv:
  assumes "pool_inv p held" and "fd \<in> set held"
  shows "pool_inv (pool_release fd p) (remove1 fd held)"
proof -
  have "fd \<in> set (pool_fds p)"
    using assms by (metis Un_iff pool_inv_def set_mset_mset set_mset_union)
  then obtain i where i: "find_fd fd 0 (pool_fds p) = Some i"
    using find_fd_None [of fd 0 "pool_fds p"] by (cases "find_fd fd 0 (pool_fds p)") auto
  then have "i < length (pool_fds p)" "pool_fds p ! i = fd" using find_fd_Some [OF i] by auto
  moreover have "mset held = mset (remove1 fd held) + {#fd#}" using assms(2) by simp
  ultimately show ?thesis using assms(1) i by (auto simp: pool_inv_def pool_release_def)
qed

lemma pool_client_inv: "pool_inv p held \<Longrightarrow> pool_client ops p held = (p', held') \<Longrightarrow>
    pool_inv p' held' \<and> pool_fds p' = pool_fds p"
proof (induction ops p held rule: pool_client.induct)
  case (2 ops p held)
  obtain fd q where q: "pool_acquire p = (fd, q)" by fastforce
  then have "pool_fds q = pool_fds p" by (auto simp: pool_acquire_def split: if_splits)
  with 2 q pool_acquire_inv [OF 2(2) q] show ?case by auto
next
  case (3 fd ops p held)
  have "pool_fds (pool_release fd p) = pool_fds p" by (simp add: pool_release_def split: option.split)
  with 3 pool_release_inv [of p held fd] show ?case by (auto split: if_splits)
qed simp

lemma make_pool_fds:
  "pool_fds (fold pool_add cs p) = pool_fds p @ List.map_filter id cs
   \<and> available (fold pool_add cs p) = available p @ [length (pool_fds p)..<length (pool_fds p) + length (List.map_filter id cs)]"
proof (induction cs arbitrary: p)
  case (Cons c cs)
  show ?case
  proof (cases c)
    case (Some fd)
    with Cons [of "pool_add c p"] show ?thesis
      by (simp add: pool_add_def map_filter_simps upt_conv_Cons del: upt_Suc)
  qed (use Cons [of p] in \<open>simp add: pool_add_def map_filter_simps\<close>)
qed (simp add: map_filter_simps)

lemma make_pool_inv:
  assumes "distinct (List.map_filter id cs)" and "list_all (\<lambda>fd. 0 \<le> fd) (List.map_filter id cs)"
  shows "pool_inv (make_pool cs) []"
  using assms make_pool_fds [of cs "\<lparr>pool_fds = [], available = []\<rparr>"]
  by (simp add: pool_inv_def make_pool_def list_all_iff map_nth)

section \<open>Properties\<close>

text \<open>
  C14: \<open>Socket\<close> owns its descriptor uniquely.  After any sequence of constructions, moves, move
  assignments (self-assignment included), closes, releases and destructions, no descriptor
  was ever closed twice; the valid descriptor of a live object is open and no other object
  has it; and every open descriptor belongs to a live object or was released, so destroying
  all objects leaks nothing.
\<close>

theorem socket_raii:
  "let w = fold sock_exec ops fd_new in
     \<not> bad_close w
     \<and> (\<forall>i fd. fd_at (objects w) i = Some fd \<and> fd \<noteq> INVALID \<longrightarrow>
          fd \<in> open_fds w \<and> (\<forall>j. fd_at (objects w) j = Some fd \<longrightarrow> j = i))
     \<and> ((\<forall>i. fd_at (objects w) i = None) \<longrightarrow> open_fds w = released w)"
proof -
  have "fd_inv (fold sock_exec ops w)" if "fd_inv w" for w
    using that by (induction ops arbitrary: w) (auto intro: sock_exec_inv)
  moreover have "fd_inv fd_new"
    by (auto simp: fd_inv_def fd_new_def own_def held_by_def fd_at_def)
  ultimately have "fd_inv (fold sock_exec ops fd_new)" by blast
  then have inv: "\<not> bad_close (fold sock_exec ops fd_new)"
    "own (fd_at (objects (fold sock_exec ops fd_new))) (open_fds (fold sock_exec ops fd_new)) (released (fold sock_exec ops fd_new))"
    by (simp_all add: fd_inv_def)
  show ?thesis
    unfolding Let_def using inv(1) own_fd [OF inv(2)] own_unique [OF inv(2)] own_dead [OF inv(2)] by blast
qed

theorem socket_raii_witness:
  "let w = fold sock_exec [Open_Op 3, Move_Op 0, Assign_Op 1 1, Destroy_Op 1, Destroy_Op 0] fd_new in
     (\<forall>i. fd_at (objects w) i = None) \<and> open_fds w = {}"
proof -
  let ?w = "fold sock_exec [Open_Op 3, Move_Op 0, Assign_Op 1 1, Destroy_Op 1, Destroy_Op 0] fd_new"
  have "objects ?w = [None, None]" "released ?w = {}"
    by (simp_all add: fd_new_def socket_open_def socket_move_def socket_assign_def socket_destroy_def
        socket_close_def set_fd_def sys_close_def fd_at_def INVALID_def)
  then have "\<forall>i. fd_at (objects ?w) i = None"
    by (simp only: fd_at_def) (simp add: nth_Cons' numeral_2_eq_2)
  with socket_raii [of "[Open_Op 3, Move_Op 0, Assign_Op 1 1, Destroy_Op 1, Destroy_Op 0]"] \<open>released ?w = {}\<close>
  show ?thesis unfolding Let_def by metis
qed

text \<open>
  \<open>reconnect_with_backoff\<close> with factor 2 returns the socket of the first successful
  attempt, after having slept \<open>d, 2d, 4d, \<dots>\<close> once after each failed attempt; when all
  attempts fail it returns the invalid socket and does not sleep after the last one.
  \<open>connect_with_timeout\<close> succeeds only when the connection is established, and it hands out a
  socket in blocking mode except when \<open>connect\<close> completed at once, where the socket stays
  non-blocking.
\<close>

theorem reconnect_backoff:
  "(n < m \<longrightarrow> (\<forall>j < n. conn (Suc j) (d * 2 ^ j) = None) \<longrightarrow> conn (Suc n) (d * 2 ^ n) = Some fd \<longrightarrow>
      snd (reconnect_with_backoff conn doubled m d) = (map (\<lambda>j. d * 2 ^ j) [0..<n], fd))
   \<and> ((\<forall>j < m. conn (Suc j) (d * 2 ^ j) = None) \<longrightarrow>
      snd (reconnect_with_backoff conn doubled m d) = (map (\<lambda>j. d * 2 ^ j) [0..<m - 1], INVALID))
   \<and> (connect_with_timeout e s t = Some (s', nonblocking) \<longleftrightarrow>
      s' = s \<and> inet_pton_rc e = 1
      \<and> (if connect_rc e = 0 then nonblocking
         else \<not> nonblocking \<and> connect_errno e = EINPROGRESS \<and> 0 < poll_rc e t \<and> so_error e = 0))"
proof (intro conjI impI)
  assume "n < m" "\<forall>j < n. conn (Suc j) (d * 2 ^ j) = None" "conn (Suc n) (d * 2 ^ n) = Some fd"
  then show "snd (reconnect_with_backoff conn doubled m d) = (map (\<lambda>j. d * 2 ^ j) [0..<n], fd)"
    using backoff_success [of 1 n m conn d fd] by (simp add: reconnect_with_backoff_def)
next
  assume "\<forall>j < m. conn (Suc j) (d * 2 ^ j) = None"
  then show "snd (reconnect_with_backoff conn doubled m d) = (map (\<lambda>j. d * 2 ^ j) [0..<m - 1], INVALID)"
    using backoff_failure [of 1 m m conn d] by (simp add: reconnect_with_backoff_def)
qed (auto simp: connect_with_timeout_def)

theorem reconnect_backoff_witness:
  "snd (reconnect_with_backoff (\<lambda>_ _. None) doubled 4 20) = ([20, 40, 80], INVALID)"
  using reconnect_backoff [of 0 4 "\<lambda>_ _. None" 20] by (simp add: numeral_eq_Suc)

text \<open>
  C15: The connection pool hands every connection to at most one client at a time: for any
  interleaving of \<open>acquire\<close> and \<open>release\<close> in which clients give back only what they hold, the
  held descriptors are distinct, the available and the held ones together are exactly the
  pool, and \<open>acquire\<close> fails only when every connection is held.  Releasing a descriptor twice
  breaks this: the pool then hands the same connection out twice.
\<close>

theorem pool_exclusive:
  "(distinct (List.map_filter id cs) \<and> list_all (\<lambda>fd. 0 \<le> fd) (List.map_filter id cs) \<longrightarrow>
     (let (p, held) = pool_client ops (make_pool cs) [] in
        distinct held \<and> set held \<subseteq> set (List.map_filter id cs)
        \<and> available_count p + length held = length (List.map_filter id cs)
        \<and> (fst (pool_acquire p) = - 1 \<longleftrightarrow> length held = length (List.map_filter id cs))))
   \<and> (let p = pool_release 6 (pool_release 6 (snd (pool_acquire (make_pool [Some 5, Some 6])))) in
        fst (pool_acquire p) = 6 \<and> fst (pool_acquire (snd (pool_acquire p))) = 6)"
proof (intro conjI impI)
  assume a: "distinct (List.map_filter id cs) \<and> list_all (\<lambda>fd. 0 \<le> fd) (List.map_filter id cs)"
  obtain p held where c: "pool_client ops (make_pool cs) [] = (p, held)" by fastforce
  have inv: "pool_inv p held" and fds: "pool_fds p = List.map_filter id cs"
    using pool_client_inv [OF make_pool_inv c] a make_pool_fds [of cs "\<lparr>pool_fds = [], available = []\<rparr>"]
    by (auto simp: make_pool_def)
  let ?av = "map (\<lambda>i. pool_fds p ! i) (available p)"
  have m: "mset (?av @ held) = mset (pool_fds p)" using inv by (simp add: pool_inv_def)
  have "distinct (?av @ held)" using m inv by (metis mset_eq_imp_distinct_iff pool_inv_def)
  moreover have "set held \<subseteq> set (pool_fds p)" using m by (metis Un_upper2 set_append mset_eq_setD)
  moreover have len: "length (available p) + length held = length (pool_fds p)"
    using arg_cong [OF m, of "size :: int multiset \<Rightarrow> nat"] by simp
  moreover have "fst (pool_acquire p) = - 1 \<longleftrightarrow> available p = []"
  proof (cases "available p" rule: rev_cases)
    case (snoc b i)
    then have "i < length (pool_fds p)" using inv by (simp add: pool_inv_def)
    then have "0 \<le> pool_fds p ! i" using inv by (simp add: pool_inv_def list_all_length)
    with snoc show ?thesis by (simp add: pool_acquire_def)
  qed (simp add: pool_acquire_def)
  ultimately show "let (p, held) = pool_client ops (make_pool cs) [] in
        distinct held \<and> set held \<subseteq> set (List.map_filter id cs)
        \<and> available_count p + length held = length (List.map_filter id cs)
        \<and> (fst (pool_acquire p) = - 1 \<longleftrightarrow> length held = length (List.map_filter id cs))"
    by (auto simp: c fds available_count_def)
qed code_simp

theorem pool_exclusive_witness:
  "pool_client [Acquire, Acquire, Release 5] (make_pool [Some 4, None, Some 5]) []
     = (\<lparr>pool_fds = [4, 5], available = [1]\<rparr>, [4])
   \<and> available_count \<lparr>pool_fds = [4, 5], available = [1]\<rparr> + length [4 :: int] = 2"
proof -
  have "pool_client [Acquire, Acquire, Release 5] (make_pool [Some 4, None, Some 5]) []
     = (\<lparr>pool_fds = [4, 5], available = [1]\<rparr>, [4])"
    by (simp add: make_pool_def pool_add_def pool_acquire_def pool_release_def)
  with pool_exclusive [of "[Some 4, None, Some 5]" "[Acquire, Acquire, Release 5]"] show ?thesis
    by (simp add: map_filter_simps)
qed

end
