(* ===== verification/Generators.thy ===== *)
theory Generators
  imports Prelude
begin

text \<open>
  \<open>Generator<T>\<close> of \<^verbatim>\<open>coroutines/01_generator.cpp\<close>, \<^verbatim>\<open>coroutines/07_pipeline.cpp\<close> and
  \<^verbatim>\<open>coroutines/10_cancellation.cpp\<close>.  A coroutine body is a function from the state it
  was suspended in to what it does until the next suspension point: it yields a value and
  suspends in a new state, or it returns.  \<open>None\<close> stands for a body that never comes back
  (an adaptor that searches an endless source) or whose next step is undefined.  The
  class wraps a frame with the promise's current value; the adaptors of the pipeline are
  bodies over the state of the generator they pull from.
\<close>

section \<open>Bodies\<close>

datatype ('s, 'a) outcome = Yield 'a 's | Finished

type_synonym ('s, 'a) body = "'s \<Rightarrow> ('s, 'a) outcome option"

section \<open>The class\<close>

datatype 's suspension = At 's | Final

record ('s, 'a) frame =
  resume_at :: "'s suspension"
  current_value :: "'a option"

text \<open>A generator owns a handle: \<open>None\<close> after it has been moved from.\<close>

type_synonym ('s, 'a) generator = "('s, 'a) frame option"

datatype gen_error = Null_Handle | Resumed_When_Done | No_Value | No_Return

definition make_generator :: "'s \<Rightarrow> ('s, 'a) generator" where
  "make_generator s = Some \<lparr>resume_at = At s, current_value = None\<rparr>"

definition handle_resume :: "('s, 'a) body \<Rightarrow> ('s, 'a) frame \<Rightarrow> gen_error + ('s, 'a) frame" where
  "handle_resume body h =
     (case resume_at h of
        Final \<Rightarrow> Inl Resumed_When_Done
      | At s \<Rightarrow>
          (case body s of
             None \<Rightarrow> Inl No_Return
           | Some (Yield v s') \<Rightarrow> Inr (h\<lparr>resume_at := At s', current_value := Some v\<rparr>)
           | Some Finished \<Rightarrow> Inr (h\<lparr>resume_at := Final\<rparr>)))"

definition handle_done :: "('s, 'a) frame \<Rightarrow> bool" where
  "handle_done h \<longleftrightarrow> resume_at h = Final"

definition gen_next :: "('s, 'a) body \<Rightarrow> ('s, 'a) generator \<Rightarrow> gen_error + bool \<times> ('s, 'a) generator" where
  "gen_next body g =
     (case g of
        None \<Rightarrow> Inl Null_Handle
      | Some h \<Rightarrow>
          (case handle_resume body h of
             Inl e \<Rightarrow> Inl e
           | Inr h' \<Rightarrow> Inr (\<not> handle_done h', Some h')))"

definition gen_value :: "('s, 'a) generator \<Rightarrow> gen_error + 'a" where
  "gen_value g =
     (case g of
        None \<Rightarrow> Inl Null_Handle
      | Some h \<Rightarrow> (case current_value h of None \<Rightarrow> Inl No_Value | Some v \<Rightarrow> Inr v))"

text \<open>The move constructor: the new owner and what the source is left with.\<close>

definition gen_move :: "('s, 'a) generator \<Rightarrow> ('s, 'a) generator \<times> ('s, 'a) generator" where
  "gen_move g = (g, None)"

text \<open>The destructor frees the frame it owns; the result tells whether it freed one.\<close>

definition gen_destroy :: "('s, 'a) generator \<Rightarrow> bool" where
  "gen_destroy g \<longleftrightarrow> g \<noteq> None"

text \<open>
  The range-for loop \<open>for (auto& v : gen) out.push_back(v)\<close> of \<open>collect\<close>: \<open>begin()\<close> resumes
  once, \<open>operator++\<close> resumes again, the loop ends when the coroutine is done.
\<close>

partial_function (option) drain :: "('s, 'a) body \<Rightarrow> 's \<Rightarrow> 'a list \<Rightarrow> 'a list option" where
  "drain body s out =
     (case body s of
        None \<Rightarrow> None
      | Some Finished \<Rightarrow> Some out
      | Some (Yield v s') \<Rightarrow> drain body s' (out @ [v]))"

definition collect :: "('s, 'a) body \<Rightarrow> 's \<Rightarrow> 'a list option" where
  "collect body s = drain body s []"

definition print_all :: "('s, 'a) body \<Rightarrow> 's \<Rightarrow> ('a \<Rightarrow> string) \<Rightarrow> string \<Rightarrow> string option" where
  "print_all body s shw label =
     map_option (\<lambda>vs. label @ '': '' @ concat (map (\<lambda>v. shw v @ '' '') vs)) (collect body s)"

section \<open>Sources\<close>

text \<open>\<^verbatim>\<open>long long\<close> addition: undefined when it leaves the 64-bit range.\<close>

definition add_ll :: "int \<Rightarrow> int \<Rightarrow> int option" where
  "add_ll a b = (if a + b < 2 ^ 63 \<and> - (2 ^ 63) \<le> a + b then Some (a + b) else None)"

text \<open>
  \<open>fibonacci\<close>: the first resume enters the loop; every later one first runs
  \<open>a = std::exchange(b, a + b)\<close>.
\<close>

datatype fib_state = Fib_Start | Fib_Loop int int

fun fibonacci_body :: "(fib_state, int) body" where
  "fibonacci_body Fib_Start = Some (Yield 0 (Fib_Loop 0 1))"
| "fibonacci_body (Fib_Loop a b) =
     (case add_ll a b of None \<Rightarrow> None | Some c \<Rightarrow> Some (Yield b (Fib_Loop b c)))"

text \<open>
  \<open>range(start, stop, step)\<close>: the state is the value the loop tests next.  An \<^verbatim>\<open>int\<close> that
  left its 32-bit range on the increment is undefined behaviour.
\<close>

definition int_ok :: "int \<Rightarrow> bool" where
  "int_ok i \<longleftrightarrow> - (2 ^ 31) \<le> i \<and> i < 2 ^ 31"

definition range_body :: "int \<Rightarrow> int \<Rightarrow> (int, int) body" where
  "range_body stop step i =
     (if \<not> int_ok i then None
      else if i < stop then Some (Yield i (i + step))
      else Some Finished)"

fun from_body :: "('a list, 'a) body" where
  "from_body [] = Some Finished"
| "from_body (v # vs) = Some (Yield v vs)"

definition iota_body :: "(int, int) body" where
  "iota_body i = (if int_ok i then Some (Yield i (i + 1)) else None)"

definition of_body :: "(int list, int) body" where
  "of_body = from_body"

text \<open>\<open>counting_gen\<close> polls its stop token before every yield.\<close>

definition counting_gen_body :: "bool \<Rightarrow> (int, int) body" where
  "counting_gen_body stop i =
     (if \<not> int_ok i then None else if stop then Some Finished else Some (Yield i (i + 1)))"

section \<open>Adaptors\<close>

definition map_body :: "('s, 'a) body \<Rightarrow> ('a \<Rightarrow> 'b) \<Rightarrow> ('s, 'b) body" where
  "map_body src fn s =
     (case src s of
        None \<Rightarrow> None
      | Some Finished \<Rightarrow> Some Finished
      | Some (Yield v s') \<Rightarrow> Some (Yield (fn v) s'))"

partial_function (option) filter_body :: "('s, 'a) body \<Rightarrow> ('a \<Rightarrow> bool) \<Rightarrow> ('s, 'a) body" where
  "filter_body src pred s =
     (case src s of
        None \<Rightarrow> None
      | Some Finished \<Rightarrow> Some Finished
      | Some (Yield v s') \<Rightarrow> if pred v then Some (Yield v s') else filter_body src pred s')"

text \<open>The source is resumed before \<open>count++ >= n\<close> is tested.\<close>

definition take_body :: "('s, 'a) body \<Rightarrow> nat \<Rightarrow> ('s \<times> nat, 'a) body" where
  "take_body src n = (\<lambda>(s, count).
     case src s of
        None \<Rightarrow> None
      | Some Finished \<Rightarrow> Some Finished
      | Some (Yield v s') \<Rightarrow>
          if n \<le> count then Some Finished else Some (Yield v (s', Suc count)))"

partial_function (option) drop_body :: "('s, 'a) body \<Rightarrow> nat \<Rightarrow> ('s \<times> nat, 'a) body" where
  "drop_body src n st =
     (case src (fst st) of
        None \<Rightarrow> None
      | Some Finished \<Rightarrow> Some Finished
      | Some (Yield v s') \<Rightarrow>
          if snd st < n then drop_body src n (s', Suc (snd st))
          else Some (Yield v (s', Suc (snd st))))"

definition zip_body :: "('s, 'a) body \<Rightarrow> ('t, 'b) body \<Rightarrow> ('s \<times> 't, 'a \<times> 'b) body" where
  "zip_body sa sb = (\<lambda>(a, b).
     case sa a of
        None \<Rightarrow> None
      | Some oa \<Rightarrow>
          (case sb b of
             None \<Rightarrow> None
           | Some ob \<Rightarrow>
               (case (oa, ob) of
                  (Yield v a', Yield w b') \<Rightarrow> Some (Yield (v, w) (a', b'))
                | _ \<Rightarrow> Some Finished)))"

definition scan_body :: "('s, 'a) body \<Rightarrow> ('u \<Rightarrow> 'a \<Rightarrow> 'u) \<Rightarrow> ('s \<times> 'u, 'u) body" where
  "scan_body src combine = (\<lambda>(s, acc).
     case src s of
        None \<Rightarrow> None
      | Some Finished \<Rightarrow> Some Finished
      | Some (Yield v s') \<Rightarrow> (let acc' = combine acc v in Some (Yield acc' (s', acc'))))"

definition squared_range_body :: "int \<Rightarrow> (int, int) body" where
  "squared_range_body n s =
     (if \<not> int_ok (n + 1) then None
      else case range_body (n + 1) 1 s of
        None \<Rightarrow> None
      | Some Finished \<Rightarrow> Some Finished
      | Some (Yield v s') \<Rightarrow> if int_ok (v * v) then Some (Yield (v * v) s') else None)"

declare drain.simps [code] filter_body.simps [code] drop_body.simps [code]

section \<open>Complete and partial runs\<close>

inductive yields :: "('s, 'a) body \<Rightarrow> 's \<Rightarrow> 'a list \<Rightarrow> bool" for body :: "('s, 'a) body" where
  yields_done: "body s = Some Finished \<Longrightarrow> yields body s []"
| yields_step: "body s = Some (Yield v s') \<Longrightarrow> yields body s' vs \<Longrightarrow> yields body s (v # vs)"

inductive emits :: "('s, 'a) body \<Rightarrow> 's \<Rightarrow> 'a list \<Rightarrow> 's \<Rightarrow> bool" for body :: "('s, 'a) body" where
  emits_none: "emits body s [] s"
| emits_step: "body s = Some (Yield v s') \<Longrightarrow> emits body s' vs t \<Longrightarrow> emits body s (v # vs) t"

inductive_cases yields_NilE: "yields body s []"
inductive_cases yields_ConsE: "yields body s (v # vs)"
inductive_cases emits_NilE: "emits body s [] t"
inductive_cases emits_ConsE: "emits body s (v # vs) t"

lemma drain_yields: "yields body s vs \<Longrightarrow> drain body s out = Some (out @ vs)"
  by (induction arbitrary: out rule: yields.induct) (auto simp: drain.simps)

lemma collect_yields: "yields body s vs \<Longrightarrow> collect body s = Some vs"
  by (simp add: collect_def drain_yields)

lemma yields_deterministic: "yields body s vs \<Longrightarrow> yields body s ws \<Longrightarrow> vs = ws"
  by (metis collect_yields option.inject)

lemma emits_yields: "emits body s vs t \<Longrightarrow> yields body t ws \<Longrightarrow> yields body s (vs @ ws)"
  by (induction rule: emits.induct) (auto intro: yields_step)

text \<open>The converse: what \<open>collect\<close> returns is a complete run.\<close>

lemma drain_returns:
  assumes "drain body s out = Some ws"
  shows "\<exists>vs. ws = out @ vs \<and> yields body s vs"
proof (rule drain.raw_induct [where P = "\<lambda>body s out ws. \<exists>vs. ws = out @ vs \<and> yields body s vs", OF _ assms])
  fix f and body :: "('s, 'a) body" and s out ws
  assume IH: "\<And>body s out ws. f body s out = Some ws \<Longrightarrow> \<exists>vs. ws = out @ vs \<and> yields body s vs"
    and eq: "(case body s of None \<Rightarrow> None | Some Finished \<Rightarrow> Some out
       | Some (Yield v s') \<Rightarrow> f body s' (out @ [v])) = Some ws"
  show "\<exists>vs. ws = out @ vs \<and> yields body s vs"
    using eq by (auto split: option.splits outcome.splits intro: yields_done dest!: IH)
      (metis yields_step append_Cons append_Nil)
qed

section \<open>The adaptors on runs\<close>

lemma yields_map: "yields src s vs \<Longrightarrow> yields (map_body src fn) s (map fn vs)"
  by (induction rule: yields.induct) (auto simp: map_body_def intro: yields.intros)

lemma emits_map: "emits src s vs t \<Longrightarrow> emits (map_body src fn) s (map fn vs) t"
  by (induction rule: emits.induct) (auto simp: map_body_def intro: emits.intros)

lemma filter_skip:
  "src s = Some (Yield v s') \<Longrightarrow> \<not> pred v \<Longrightarrow> filter_body src pred s = filter_body src pred s'"
  by (simp add: filter_body.simps)

lemma filter_keep: "src s = Some (Yield v s') \<Longrightarrow> pred v \<Longrightarrow> filter_body src pred s = Some (Yield v s')"
  by (simp add: filter_body.simps)

lemma filter_finished: "src s = Some Finished \<Longrightarrow> filter_body src pred s = Some Finished"
  by (simp add: filter_body.simps)

lemma yields_same: "body s = body s' \<Longrightarrow> yields body s' vs \<Longrightarrow> yields body s vs"
  by (erule yields.cases) (auto intro: yields.intros)

lemma yields_filter: "yields src s vs \<Longrightarrow> yields (filter_body src pred) s (filter pred vs)"
proof (induction rule: yields.induct)
  case (yields_done s)
  then show ?case by (simp add: filter_finished yields.yields_done)
next
  case (yields_step s v s' vs)
  show ?case
  proof (cases "pred v")
    case True
    with yields_step show ?thesis
      by (simp add: yields.yields_step [OF filter_keep])
  next
    case False
    with yields_step filter_skip [of src s v s' pred] show ?thesis
      by (auto intro: yields_same)
  qed
qed

lemma emits_same: "body s = body s' \<Longrightarrow> emits body s' (v # vs) t \<Longrightarrow> emits body s (v # vs) t"
  by (auto elim!: emits_ConsE intro: emits_step)

lemma emits_filter:
  "emits src s vs t \<Longrightarrow> vs \<noteq> [] \<Longrightarrow> pred (last vs) \<Longrightarrow> emits (filter_body src pred) s (filter pred vs) t"
proof (induction rule: emits.induct)
  case (emits_step s v s' vs t)
  show ?case
  proof (cases "vs = []")
    case True
    with emits_step show ?thesis
      by (auto elim!: emits_NilE intro!: emits.intros filter_keep)
  next
    case False
    with emits_step have IH: "emits (filter_body src pred) s' (filter pred vs) t" by simp
    have "filter pred vs \<noteq> []" using False emits_step.prems(2) by (auto simp: filter_empty_conv)
    then obtain w ws where w: "filter pred vs = w # ws" by (cases "filter pred vs") auto
    show ?thesis
    proof (cases "pred v")
      case True
      with IH emits_step.hyps show ?thesis
        by (simp add: emits.emits_step [OF filter_keep])
    next
      case False
      with IH w filter_skip [of src s v s' pred] emits_step.hyps show ?thesis
        by (auto intro: emits_same)
    qed
  qed
qed simp

lemma take_run:
  assumes "emits src s vs t" and "c + length vs = n"
    and "src t = Some Finished \<or> (\<exists>w t'. src t = Some (Yield w t'))"
  shows "yields (take_body src n) (s, c) vs"
  using assms
proof (induction arbitrary: c rule: emits.induct)
  case (emits_none s)
  then show ?case by (intro yields_done) (auto simp: take_body_def)
next
  case (emits_step s v s' vs t)
  then have "yields (take_body src n) (s', Suc c) vs" by simp
  moreover have "take_body src n (s, c) = Some (Yield v (s', Suc c))"
    using emits_step.hyps(1) emits_step.prems(1) by (simp add: take_body_def)
  ultimately show ?case by (intro yields.yields_step)
qed

lemma take_short: "yields src s vs \<Longrightarrow> c + length vs \<le> n \<Longrightarrow> yields (take_body src n) (s, c) vs"
proof (induction arbitrary: c rule: yields.induct)
  case (yields_done s)
  then show ?case by (intro yields.yields_done) (simp add: take_body_def)
next
  case (yields_step s v s' vs)
  then have "yields (take_body src n) (s', Suc c) vs" by simp
  moreover have "take_body src n (s, c) = Some (Yield v (s', Suc c))"
    using yields_step.hyps(1) yields_step.prems by (simp add: take_body_def)
  ultimately show ?case by (intro yields.yields_step)
qed

lemma yields_split: "yields src s vs \<Longrightarrow> \<exists>t. emits src s (take k vs) t \<and> yields src t (drop k vs)"
proof (induction arbitrary: k rule: yields.induct)
  case (yields_done s)
  then show ?case by (auto intro: emits.intros yields.intros)
next
  case (yields_step s v s' vs)
  show ?case
  proof (cases k)
    case 0
    with yields_step.hyps show ?thesis by (auto intro: emits.intros yields.intros)
  next
    case (Suc j)
    with yields_step.IH [of j] yields_step.hyps(1) show ?thesis by (auto intro: emits.intros)
  qed
qed

lemma yields_progress: "yields src s vs \<Longrightarrow> src s = Some Finished \<or> (\<exists>w t. src s = Some (Yield w t))"
  by (erule yields.cases) auto

lemma yields_take:
  assumes "yields src s vs"
  shows "yields (take_body src n) (s, 0) (take n vs)"
proof (cases "length vs \<le> n")
  case True
  with take_short [OF assms, of 0 n] show ?thesis by simp
next
  case False
  obtain t where "emits src s (take n vs) t" and "yields src t (drop n vs)"
    using yields_split [OF assms] by blast
  with False show ?thesis by (intro take_run) (auto dest: yields_progress)
qed

lemma yields_drop: "yields src s vs \<Longrightarrow> yields (drop_body src n) (s, c) (drop (n - c) vs)"
proof (induction arbitrary: c rule: yields.induct)
  case (yields_done s)
  then have "drop_body src n (s, c) = Some Finished" by (subst drop_body.simps) simp
  then show ?case by (simp add: yields.yields_done)
next
  case (yields_step s v s' vs)
  show ?case
  proof (cases "c < n")
    case True
    then have "drop_body src n (s, c) = drop_body src n (s', Suc c)"
      using yields_step.hyps(1) by (subst drop_body.simps) simp
    moreover have "drop (n - c) (v # vs) = drop (n - Suc c) vs"
      using True by (metis Suc_diff_Suc drop_Suc_Cons)
    ultimately show ?thesis using yields_step.IH [of "Suc c"] by (auto intro: yields_same)
  next
    case False
    then have "drop_body src n (s, c) = Some (Yield v (s', Suc c))"
      using yields_step.hyps(1) by (subst drop_body.simps) simp
    moreover have "yields (drop_body src n) (s', Suc c) vs"
      using yields_step.IH [of "Suc c"] False by simp
    ultimately show ?thesis using False by (auto intro: yields.yields_step)
  qed
qed

lemma yields_zip: "yields sa a vs \<Longrightarrow> yields sb b ws \<Longrightarrow> yields (zip_body sa sb) (a, b) (zip vs ws)"
proof (induction arbitrary: b ws rule: yields.induct)
  case (yields_done a)
  from yields_progress [OF yields_done(2)] yields_done(1) show ?case
    by (auto intro!: yields.yields_done simp: zip_body_def)
next
  case (yields_step a v a' vs)
  show ?case
  proof (cases ws)
    case Nil
    with yields_step show ?thesis
      by (auto elim!: yields_NilE intro!: yields.yields_done simp: zip_body_def)
  next
    case (Cons w ws')
    with yields_step.prems obtain b' where "sb b = Some (Yield w b')" "yields sb b' ws'"
      by (auto elim: yields_ConsE)
    with Cons yields_step show ?thesis
      by (auto intro!: yields.yields_step [where s' = "(a', b')"] simp: zip_body_def)
  qed
qed

fun scanl1 :: "('u \<Rightarrow> 'a \<Rightarrow> 'u) \<Rightarrow> 'u \<Rightarrow> 'a list \<Rightarrow> 'u list" where
  "scanl1 f acc [] = []"
| "scanl1 f acc (v # vs) = f acc v # scanl1 f (f acc v) vs"

lemma yields_scan: "yields src s vs \<Longrightarrow> yields (scan_body src f) (s, acc) (scanl1 f acc vs)"
  by (induction arbitrary: acc rule: yields.induct)
    (auto simp: scan_body_def Let_def intro: yields.intros)

section \<open>Endless sources\<close>

text \<open>
  A source that yields in every state of a set \<open>live\<close>: what it emits, and what \<open>take\<close> makes
  of it.  \<open>take\<close> resumes the source once more than it yields, so the source must be alive
  in the state after the last value too.
\<close>

locale endless =
  fixes body :: "('s, 'a) body"
    and out :: "'s \<Rightarrow> 'a"
    and nxt :: "'s \<Rightarrow> 's"
    and live :: "'s \<Rightarrow> bool"
  assumes body_yields: "live s \<Longrightarrow> body s = Some (Yield (out s) (nxt s))"
begin

lemma emits_prefix:
  "(\<And>k. k < n \<Longrightarrow> live ((nxt ^^ k) s)) \<Longrightarrow> emits body s (map (\<lambda>k. out ((nxt ^^ k) s)) [0..<n]) ((nxt ^^ n) s)"
proof (induction n arbitrary: s)
  case (Suc n)
  have "map (\<lambda>k. out ((nxt ^^ k) s)) [0..<Suc n]
      = out s # map (\<lambda>k. out ((nxt ^^ k) (nxt s))) [0..<n]"
    by (simp add: upt_conv_Cons map_Suc_upt [symmetric] funpow_swap1 del: upt_Suc)
  moreover have "live ((nxt ^^ k) (nxt s))" if "k < n" for k
    using Suc.prems [of "Suc k"] that by (simp add: funpow_swap1)
  moreover have "live s" using Suc.prems [of 0] by simp
  ultimately show ?case using Suc.IH [of "nxt s"] emits_step [OF body_yields]
    by (simp add: funpow_swap1 del: upt_Suc)
qed (simp add: emits_none)

lemma take_prefix:
  assumes "\<And>k. k \<le> n \<Longrightarrow> live ((nxt ^^ k) s)"
  shows "yields (take_body body n) (s, 0) (map (\<lambda>k. out ((nxt ^^ k) s)) [0..<n])"
  using emits_prefix [of n s] by (rule take_run) (use assms in \<open>auto simp: body_yields\<close>)

end

interpretation iota: endless iota_body id "\<lambda>i. i + 1" int_ok
  by unfold_locales (simp add: iota_body_def)

interpretation counting: endless "counting_gen_body False" id "\<lambda>i. i + 1" int_ok
  by unfold_locales (simp add: counting_gen_body_def)

lemma iota_after: "((\<lambda>i. i + 1) ^^ k) i = i + int k"
  by (induction k) auto

lemma int_ok_between: "int_ok i \<Longrightarrow> int_ok (i + int n) \<Longrightarrow> k \<le> n \<Longrightarrow> int_ok (i + int k)"
  by (simp add: int_ok_def)

lemma iota_take:
  assumes "int_ok i" and "int_ok (i + int n)"
  shows "yields (take_body iota_body n) (i, 0) (map (\<lambda>k. i + int k) [0..<n])"
  using iota.take_prefix [of n i] int_ok_between [OF assms] by (simp add: iota_after)

lemma yields_from: "yields from_body vs vs"
  by (induction vs) (auto intro: yields.intros)

section \<open>Pulling by hand\<close>

fun pulls :: "nat \<Rightarrow> ('s, 'a) body \<Rightarrow> 's \<Rightarrow> ('a list \<times> 's) option" where
  "pulls 0 body s = Some ([], s)"
| "pulls (Suc n) body s =
     (case body s of
        Some (Yield v s') \<Rightarrow> map_option (\<lambda>(vs, t). (v # vs, t)) (pulls n body s')
      | _ \<Rightarrow> None)"

lemma pulls_emits: "pulls n body s = Some (vs, t) \<Longrightarrow> emits body s vs t \<and> length vs = n"
  by (induction n arbitrary: s vs) (auto split: option.splits outcome.splits intro: emits.intros)

section \<open>The main programs\<close>

definition show_ints :: "int list \<Rightarrow> string" where
  "show_ints vs = concat (map (\<lambda>v. dec_int v @ '' '') vs)"

text \<open>\<open>main\<close> of \<^verbatim>\<open>01_generator.cpp\<close>: \<open>f2\<close> is pulled until a value exceeds 100.\<close>

partial_function (option) pull_until :: "(int \<Rightarrow> bool) \<Rightarrow> ('s, int) body \<Rightarrow> 's \<Rightarrow> int option" where
  "pull_until p body s =
     (case body s of
        None \<Rightarrow> None
      | Some Finished \<Rightarrow> None
      | Some (Yield v s') \<Rightarrow> if p v then Some v else pull_until p body s')"

declare pull_until.simps [code]

definition generator_main :: "string option list" where
  "generator_main =
     [map_option (\<lambda>vs. ''range(0, 10, 2): '' @ show_ints vs) (collect (range_body 10 2) 0),
      map_option (\<lambda>(vs, _). ''fibonacci: '' @ show_ints vs) (pulls 10 fibonacci_body Fib_Start),
      map_option (\<lambda>vs. ''names: '' @ concat (map (\<lambda>v. v @ '' '') vs))
        (collect from_body [''Alice'', ''Bob'', ''Carol'']),
      map_option (\<lambda>vs. ''squares 1-5: '' @ show_ints vs) (collect (squared_range_body 5) 1),
      map_option (\<lambda>v. ''first Fibonacci > 100: '' @ dec_int v)
        (pull_until (\<lambda>v. \<not> v \<le> 100) fibonacci_body Fib_Start)]"

text \<open>
  \<open>main\<close> of \<^verbatim>\<open>07_pipeline.cpp\<close>.  The letters are passed to \<open>of(std::vector<int>)\<close>, so
  their character codes flow through the pipeline and are what is printed.
\<close>

definition letters :: "int list" where
  "letters = [97, 98, 99, 100, 101]"

definition pipeline_main :: "string option list" where
  "pipeline_main =
     [print_all (map_body (take_body iota_body 5) (\<lambda>x. x * x)) (1, 0) dec_int ''squares 1-5'',
      print_all (filter_body (take_body iota_body 20) (\<lambda>x. x mod 2 = 0)) (0, 0) dec_int ''evens 0-18'',
      print_all (take_body (drop_body iota_body 5) 5) ((0, 0), 0) dec_int ''iota[5..9]'',
      print_all (take_body (filter_body (map_body iota_body (\<lambda>x. x * x)) (\<lambda>x. 10 < x)) 5) (1, 0)
        dec_int ''squares > 10'',
      map_option (\<lambda>ps. ''zip(letters, 0..): '' @ concat (map (\<lambda>(c, i). dec_int c @ dec_int i @ '' '') ps))
        (collect (zip_body of_body (take_body iota_body 5)) (letters, (0, 0))),
      print_all (scan_body (take_body iota_body 6) (+)) ((1, 0), 0) dec_int ''running sum 1-6'']"

text \<open>
  \<open>main\<close> of \<^verbatim>\<open>10_cancellation.cpp\<close>, first part: five pulls, then the stop request, then one
  more pull.  The generator prints where it noticed the request.
\<close>

definition cancellable_generator_demo :: "console option" where
  "cancellable_generator_demo =
     (case pulls 5 (counting_gen_body False) 0 of
        None \<Rightarrow> None
      | Some (vs, i) \<Rightarrow>
          (case counting_gen_body True i of
             Some Finished \<Rightarrow>
               Some (map (\<lambda>v. ''  '' @ dec_int v) vs @ [''[gen] cancellation detected at i='' @ dec_int i])
           | _ \<Rightarrow> None))"

section \<open>The class follows the body\<close>

lemma gen_next_cases:
  "gen_next body (make_generator s) =
     (case body s of
        None \<Rightarrow> Inl No_Return
      | Some (Yield v s') \<Rightarrow> Inr (True, Some \<lparr>resume_at = At s', current_value = Some v\<rparr>)
      | Some Finished \<Rightarrow> Inr (False, Some \<lparr>resume_at = Final, current_value = None\<rparr>))"
  by (simp add: gen_next_def make_generator_def handle_resume_def handle_done_def
      split: option.splits outcome.splits)

text \<open>The loop \<open>while (gen.next()) out.push_back(gen.value())\<close> over the class, with a bound on the pulls.\<close>

fun next_loop :: "nat \<Rightarrow> ('s, 'a) body \<Rightarrow> ('s, 'a) generator \<Rightarrow> gen_error + 'a list \<times> ('s, 'a) generator" where
  "next_loop 0 body g = Inr ([], g)"
| "next_loop (Suc n) body g =
     (case gen_next body g of
        Inl e \<Rightarrow> Inl e
      | Inr (False, g') \<Rightarrow> Inr ([], g')
      | Inr (True, g') \<Rightarrow>
          (case gen_value g' of
             Inl e \<Rightarrow> Inl e
           | Inr v \<Rightarrow>
               (case next_loop n body g' of
                  Inl e \<Rightarrow> Inl e
                | Inr (vs, g'') \<Rightarrow> Inr (v # vs, g''))))"

lemma next_loop_yields:
  assumes "yields body s vs" and "length vs < n"
  shows "\<exists>w. next_loop n body (Some \<lparr>resume_at = At s, current_value = c\<rparr>)
      = Inr (vs, Some \<lparr>resume_at = Final, current_value = w\<rparr>)"
  using assms
proof (induction arbitrary: c n rule: yields.induct)
  case (yields_done s)
  then show ?case
    by (cases n) (auto simp: gen_next_def handle_resume_def handle_done_def)
next
  case (yields_step s v s' vs)
  then obtain m where m: "n = Suc m" "length vs < m" by (cases n) auto
  with yields_step.IH [of m "Some v"] yields_step.hyps show ?case
    by (auto simp: gen_next_def gen_value_def handle_resume_def handle_done_def)
qed

section \<open>Properties\<close>

text \<open>
  C9: Pulling a generator with \<open>next()\<close>/\<open>value()\<close> delivers exactly the values that the
  range-for loop of \<open>collect\<close> delivers, in order, and leaves the coroutine at its final
  suspension point; one more \<open>next()\<close> is an error (resuming a finished coroutine), and so
  are \<open>next()\<close> and \<open>value()\<close> on the object it was moved from, which the destructor does not
  free again.
\<close>

theorem generator_next_agrees:
  assumes "collect body s = Some vs" and "length vs < n"
  shows "\<exists>g. next_loop n body (make_generator s) = Inr (vs, g) \<and> gen_next body g = Inl Resumed_When_Done
    \<and> gen_next body (snd (gen_move g)) = Inl Null_Handle \<and> gen_value (snd (gen_move g)) = Inl Null_Handle
    \<and> gen_destroy (fst (gen_move g)) \<and> \<not> gen_destroy (snd (gen_move g))"
proof -
  have "yields body s vs" using drain_returns [of body s "[]" vs] assms(1) by (simp add: collect_def)
  from next_loop_yields [OF this assms(2), of None] show ?thesis
    by (auto simp: make_generator_def gen_next_def gen_value_def handle_resume_def gen_move_def gen_destroy_def)
qed

theorem generator_next_agrees_witness:
  "collect (range_body 10 2) 0 = Some [0, 2, 4, 6, 8] \<and>
   (\<exists>g. next_loop 6 (range_body 10 2) (make_generator 0) = Inr ([0, 2, 4, 6, 8], g))"
  using generator_next_agrees [of "range_body 10 2" 0 "[0, 2, 4, 6, 8]" 6]
  by (auto simp: collect_def drain.simps range_body_def int_ok_def)

text \<open>
  C10: The pipeline adaptors compute the list functions they are named after: on a source
  whose values are \<open>vs\<close>, \<open>map\<close>, \<open>filter\<close>, \<open>take\<close>, \<open>drop\<close>, \<open>scan\<close> yield the mapped, filtered,
  truncated and accumulated list, and \<open>zip\<close> with a second source yields the pairs up to the
  shorter of the two.
\<close>

theorem adaptors_correct:
  assumes "collect src s = Some vs" and "collect src2 s2 = Some ws"
  shows "collect (map_body src fn) s = Some (map fn vs)
    \<and> collect (filter_body src pred) s = Some (filter pred vs)
    \<and> collect (take_body src n) (s, 0) = Some (take n vs)
    \<and> collect (drop_body src n) (s, 0) = Some (drop n vs)
    \<and> collect (zip_body src src2) (s, s2) = Some (zip vs ws)
    \<and> collect (scan_body src combine) (s, init) = Some (scanl1 combine init vs)"
proof -
  have v: "yields src s vs" using drain_returns [of src s "[]" vs] assms(1) by (simp add: collect_def)
  have w: "yields src2 s2 ws" using drain_returns [of src2 s2 "[]" ws] assms(2) by (simp add: collect_def)
  show ?thesis
    using yields_drop [OF v, of n 0]
    by (simp add: collect_yields [OF yields_map [OF v]] collect_yields [OF yields_filter [OF v]]
        collect_yields [OF yields_take [OF v]] collect_yields [OF yields_zip [OF v w]]
        collect_yields [OF yields_scan [OF v]] collect_yields)
qed

theorem adaptors_correct_witness:
  "collect (range_body 4 1) 0 = Some [0, 1, 2, 3] \<and>
   collect (zip_body (range_body 4 1) of_body) (0, [7, 8]) = Some [(0, 7), (1, 8)] \<and>
   collect (drop_body (range_body 4 1) 3) (0, 0) = Some [3]"
  using adaptors_correct [of "range_body 4 1" 0 "[0, 1, 2, 3]" of_body "[7, 8]" "[7, 8]" id "\<lambda>_. True" 3 "\<lambda>a _. a" "0 :: int"]
  by (auto simp: collect_def drain.simps range_body_def int_ok_def of_body_def)

text \<open>
  \<open>take(src, n)\<close> resumes its source once more after the \<open>n\<close>-th value: when that resume
  does not come back, neither does \<open>take\<close>.  So taking the single zero of \<open>iota(0)\<close> through
  a filter never completes, although the value asked for has been delivered.
\<close>

theorem take_pulls_once_more:
  "(emits src s vs t \<longrightarrow> src t = None \<longrightarrow> collect (take_body src (length vs)) (s, 0) = None)
   \<and> collect (take_body (filter_body iota_body (\<lambda>x. x = 0)) 1) (0, 0) = None"
proof -
  have gen: "drain (take_body b (c + length xs)) (u, c) out = None" if "emits b u xs t" "b t = None"
    for b :: "('x, 'y) body" and u xs t c out
    using that
  proof (induction arbitrary: c out rule: emits.induct)
    case (emits_none s)
    then show ?case by (simp add: drain.simps take_body_def)
  next
    case (emits_step s v s' vs t)
    then show ?case using emits_step.IH [of "Suc c"] by (subst drain.simps) (simp add: take_body_def)
  qed
  have never: "filter_body iota_body (\<lambda>x. x = 0) i = None" if "0 < i" for i
    using that
  proof (induction "nat (2 ^ 31 - i)" arbitrary: i)
    case 0
    then show ?case by (simp add: filter_body.simps iota_body_def int_ok_def)
  next
    case (Suc k)
    then have "filter_body iota_body (\<lambda>x. x = 0) (i + 1) = None" by (intro Suc.hyps(1)) auto
    then show ?case using Suc by (subst filter_body.simps) (simp add: iota_body_def)
  qed
  have "emits (filter_body iota_body (\<lambda>x. x = 0)) 0 [0] 1"
    by (rule emits_step [where s' = 1]) (simp_all add: filter_body.simps iota_body_def int_ok_def emits_none)
  from gen [OF this never, of 0] gen [of src s vs t 0] show ?thesis
    by (simp add: collect_def)
qed

theorem take_pulls_once_more_witness:
  "collect (take_body (iota_body :: (int, int) body) (length [2 ^ 31 - 1 :: int])) (2 ^ 31 - 1, 0) = None"
proof -
  have "emits iota_body (2 ^ 31 - 1) [2 ^ 31 - 1] (2 ^ 31)"
    by (rule emits_step [where s' = "2 ^ 31"]) (simp_all add: iota_body_def int_ok_def emits_none)
  with take_pulls_once_more [of iota_body "2 ^ 31 - 1" "[2 ^ 31 - 1]" "2 ^ 31"] show ?thesis
    by (simp add: iota_body_def int_ok_def)
qed

fun fib_number :: "nat \<Rightarrow> int" where
  "fib_number 0 = 0"
| "fib_number (Suc 0) = 1"
| "fib_number (Suc (Suc n)) = fib_number n + fib_number (Suc n)"

lemma fib_number_nonneg: "0 \<le> fib_number n"
  by (induction n rule: fib_number.induct) auto

lemma fib_number_mono: "m \<le> n \<Longrightarrow> fib_number m \<le> fib_number n"
proof (induction n)
  case (Suc n)
  have "fib_number n \<le> fib_number (Suc n)" by (cases n) (auto simp: fib_number_nonneg)
  with Suc show ?case by (cases "m = Suc n") auto
qed simp

fun fib_pair :: "nat \<Rightarrow> int \<times> int" where
  "fib_pair 0 = (0, 1)"
| "fib_pair (Suc n) = (let (a, b) = fib_pair n in (b, a + b))"

lemma fib_pair_eq: "fib_pair n = (fib_number n, fib_number (Suc n))"
  by (induction n) (auto simp: Let_def)

lemma fib_limit: "fib_number 92 < 2 ^ 63 \<and> 2 ^ 63 \<le> fib_number 93"
proof -
  have "fib_pair 92 = (7540113804746346429, 12200160415121876738)" by code_simp
  then show ?thesis by (simp add: fib_pair_eq del: fib_number.simps)
qed

lemma fib_fits: "add_ll (fib_number k) (fib_number (Suc k)) = (if k \<le> 90 then Some (fib_number (Suc (Suc k))) else None)"
proof -
  have "fib_number (Suc (Suc k)) < 2 ^ 63 \<longleftrightarrow> k \<le> 90"
    using fib_limit fib_number_mono [of "Suc (Suc k)" 92] fib_number_mono [of 93 "Suc (Suc k)"]
    by (cases "k \<le> 90") (auto simp del: fib_number.simps)
  moreover have "- (2 ^ 63) \<le> fib_number (Suc (Suc k))"
    by (rule order_trans [OF _ fib_number_nonneg]) simp
  ultimately show ?thesis by (auto simp: add_ll_def)
qed

lemma fib_pulls:
  "k \<le> 91 \<Longrightarrow> map_option fst (pulls m fibonacci_body (Fib_Loop (fib_number k) (fib_number (Suc k))))
     = (if m + k \<le> 91 then Some (map fib_number [Suc k..<Suc k + m]) else None)"
proof (induction m arbitrary: k)
  case (Suc m)
  show ?case
  proof (cases "k \<le> 90")
    case True
    with Suc.IH [of "Suc k"] show ?thesis
      by (auto simp: fib_fits option.map_comp comp_def case_prod_beta upt_conv_Cons map_option_case
          simp del: fib_number.simps upt_Suc split: option.splits if_splits)
  qed (auto simp: fib_fits simp del: fib_number.simps)
qed simp

text \<open>
  \<open>fibonacci()\<close> is not endless: the first 92 pulls deliver the Fibonacci numbers \<open>F(0)\<close>
  to \<open>F(91)\<close>, and the next resume overflows \<^verbatim>\<open>long long\<close> when it computes \<open>a + b\<close>.
\<close>

theorem fibonacci_values:
  "map_option fst (pulls n fibonacci_body Fib_Start) = (if n \<le> 92 then Some (map fib_number [0..<n]) else None)"
proof (cases n)
  case (Suc m)
  with fib_pulls [of 0 m] show ?thesis
    by (auto simp: option.map_comp comp_def case_prod_beta upt_conv_Cons map_option_case
        simp del: upt_Suc split: option.splits if_splits)
qed simp

text \<open>
  The demonstration programs print exactly these lines.  In the \<open>zip\<close> line the letters
  appear as their character codes, because \<open>of\<close> takes a vector of \<^verbatim>\<open>int\<close>.
\<close>

lemma generator_programs:
  "generator_main =
     [Some ''range(0, 10, 2): 0 2 4 6 8 '', Some ''fibonacci: 0 1 1 2 3 5 8 13 21 34 '',
      Some ''names: Alice Bob Carol '', Some ''squares 1-5: 1 4 9 16 25 '',
      Some ''first Fibonacci > 100: 144'']
   \<and> pipeline_main =
     [Some ''squares 1-5: 1 4 9 16 25 '', Some ''evens 0-18: 0 2 4 6 8 10 12 14 16 18 '',
      Some ''iota[5..9]: 5 6 7 8 9 '', Some ''squares > 10: 16 25 36 49 64 '',
      Some ''zip(letters, 0..): 970 981 992 1003 1014 '', Some ''running sum 1-6: 1 3 6 10 15 21 '']
   \<and> cancellable_generator_demo =
     Some [''  0'', ''  1'', ''  2'', ''  3'', ''  4'', ''[gen] cancellation detected at i=5'']"
  by code_simp

end
