(* ===== verification/Tasks.thy ===== *)
theory Tasks
  imports Prelude
begin

text \<open>
  \<open>Task<T>\<close> of \<^verbatim>\<open>coroutines/02_task.cpp\<close> and its copies in \<^verbatim>\<open>04_awaitable.cpp\<close>,
  \<^verbatim>\<open>05_thread_hop.cpp\<close>, \<^verbatim>\<open>09_when_all.cpp\<close> and \<^verbatim>\<open>10_cancellation.cpp\<close>, and the bare handles of
  \<^verbatim>\<open>03_coroutine_handle.cpp\<close>.  A coroutine body is a tree of the suspension points it
  reaches; the machine below holds the coroutine frames with their promises and
  continuations and runs one frame at a time, transferring control symmetrically on
  \<open>co_await\<close> and at the final suspension point.  The reference semantics \<open>eval\<close> runs a body by
  direct recursion; the central lemmas show that the machine computes it.
\<close>

section \<open>Bodies\<close>

datatype val = VInt int | VStr string

datatype ty = TInt | TStr

text \<open>\<open>T result{}\<close>: the value a promise starts with.\<close>

fun default_of :: "ty \<Rightarrow> val" where
  "default_of TInt = VInt 0"
| "default_of TStr = VStr ''''"

text \<open>What \<open>return_value\<close> or \<open>unhandled_exception\<close> stored, and what \<open>await_resume\<close> hands on.\<close>

datatype fin = Ret val | Exn string

datatype delivery = Value val | Raised string

text \<open>
  The three promise types: the variant of \<^verbatim>\<open>02_task.cpp\<close>, the plain result of
  \<^verbatim>\<open>04_awaitable.cpp\<close> whose \<open>unhandled_exception\<close> does nothing, and the result with an
  exception pointer of the other copies.
\<close>

datatype flavour = Variant | Plain | Plain_Exn

fun await_resume :: "flavour \<Rightarrow> ty \<Rightarrow> fin option \<Rightarrow> delivery" where
  "await_resume Variant t (Some (Ret v)) = Value v"
| "await_resume Variant t (Some (Exn e)) = Raised e"
| "await_resume Variant t None = Raised ''bad_variant_access''"
| "await_resume Plain t (Some (Ret v)) = Value v"
| "await_resume Plain t (Some (Exn e)) = Value (default_of t)"
| "await_resume Plain t None = Value (default_of t)"
| "await_resume Plain_Exn t (Some (Ret v)) = Value v"
| "await_resume Plain_Exn t (Some (Exn e)) = Raised e"
| "await_resume Plain_Exn t None = Value (default_of t)"

text \<open>
  Where the handle of a suspended coroutine goes: nowhere (\<open>std::suspend_always\<close>), into the
  global slot \<open>parked\<close>, or into the queue of a pool or timer thread.
\<close>

datatype where_to = Nowhere | Slot | Pool

datatype co =
    Co_Return val
  | Co_Throw string
  | Co_Print string co
  | Co_Await ty co "delivery \<Rightarrow> co"
  | Co_Suspend where_to co
  | Co_Read_Flag "bool \<Rightarrow> co"

section \<open>The machine\<close>

datatype co_state = Ready co | Waiting nat ty "delivery \<Rightarrow> co" | Ended

record task_frame =
  code :: co_state
  promise_fin :: "fin option"
  continuation :: "nat option"

text \<open>A destroyed frame is \<open>None\<close>; \<open>fault\<close> records a resume of a destroyed or finished frame.\<close>

record machine =
  frames :: "task_frame option list"
  running :: "nat option"
  parked :: "nat option"
  posted :: "nat list"
  flag :: bool
  printed :: console
  fault :: bool

definition new_frame :: "co \<Rightarrow> nat option \<Rightarrow> task_frame" where
  "new_frame c k = \<lparr>code = Ready c, promise_fin = None, continuation = k\<rparr>"

definition start_task :: "bool \<Rightarrow> co \<Rightarrow> machine" where
  "start_task b c = \<lparr>frames = [Some (new_frame c None)], running = None, parked = None,
     posted = [], flag = b, printed = [], fault = False\<rparr>"

definition set_frame :: "nat \<Rightarrow> task_frame \<Rightarrow> machine \<Rightarrow> machine" where
  "set_frame i f m = m\<lparr>frames := (frames m)[i := Some f]\<rparr>"

definition stuck :: "machine \<Rightarrow> machine" where
  "stuck m = m\<lparr>running := None, fault := True\<rparr>"

text \<open>\<open>final_suspend\<close>: transfer to the continuation, or to the noop coroutine.\<close>

definition finish :: "nat \<Rightarrow> task_frame \<Rightarrow> fin \<Rightarrow> machine \<Rightarrow> machine" where
  "finish i f r m = (set_frame i (f\<lparr>code := Ended, promise_fin := Some r\<rparr>) m)\<lparr>running := continuation f\<rparr>"

definition suspend :: "nat \<Rightarrow> where_to \<Rightarrow> machine \<Rightarrow> machine" where
  "suspend i w m =
     (case w of
        Nowhere \<Rightarrow> m\<lparr>running := None\<rparr>
      | Slot \<Rightarrow> m\<lparr>running := None, parked := Some i\<rparr>
      | Pool \<Rightarrow> m\<lparr>running := None, posted := posted m @ [i]\<rparr>)"

text \<open>
  \<open>co_await task\<close>: a frame is created, \<open>await_suspend\<close> stores the continuation and returns
  the new handle.
\<close>

definition await_task :: "nat \<Rightarrow> task_frame \<Rightarrow> ty \<Rightarrow> co \<Rightarrow> (delivery \<Rightarrow> co) \<Rightarrow> machine \<Rightarrow> machine" where
  "await_task i f t c k m =
     m\<lparr>frames := (frames m)[i := Some (f\<lparr>code := Waiting (length (frames m)) t k\<rparr>)]
          @ [Some (new_frame c (Some i))],
       running := Some (length (frames m))\<rparr>"

text \<open>The continuation wakes up: \<open>await_resume\<close> reads the promise, the awaited task is destroyed.\<close>

definition wake_up :: "flavour \<Rightarrow> nat \<Rightarrow> task_frame \<Rightarrow> nat \<Rightarrow> ty \<Rightarrow> (delivery \<Rightarrow> co) \<Rightarrow> machine \<Rightarrow> machine" where
  "wake_up fl i f j t k m =
     (case frames m ! j of
        None \<Rightarrow> stuck m
      | Some g \<Rightarrow>
          m\<lparr>frames := (frames m)[i := Some (f\<lparr>code := Ready (k (await_resume fl t (promise_fin g)))\<rparr>), j := None]\<rparr>)"

definition frame_at :: "machine \<Rightarrow> nat \<Rightarrow> task_frame option" where
  "frame_at m i = (if i < length (frames m) then frames m ! i else None)"

definition co_step :: "flavour \<Rightarrow> machine \<Rightarrow> machine" where
  "co_step fl m =
     (case running m of
        None \<Rightarrow> m
      | Some i \<Rightarrow>
          (case frame_at m i of
             None \<Rightarrow> stuck m
           | Some f \<Rightarrow>
               (case code f of
                  Ended \<Rightarrow> stuck m
                | Waiting j t k \<Rightarrow> wake_up fl i f j t k m
                | Ready (Co_Return v) \<Rightarrow> finish i f (Ret v) m
                | Ready (Co_Throw e) \<Rightarrow> finish i f (Exn e) m
                | Ready (Co_Print s c) \<Rightarrow> (set_frame i (f\<lparr>code := Ready c\<rparr>) m)\<lparr>printed := printed m @ [s]\<rparr>
                | Ready (Co_Await t c k) \<Rightarrow> await_task i f t c k m
                | Ready (Co_Suspend w c) \<Rightarrow> suspend i w (set_frame i (f\<lparr>code := Ready c\<rparr>) m)
                | Ready (Co_Read_Flag k) \<Rightarrow> set_frame i (f\<lparr>code := Ready (k (flag m))\<rparr>) m)))"

text \<open>\<open>handle.resume()\<close> runs until control comes back to the caller.\<close>

partial_function (option) drive :: "flavour \<Rightarrow> machine \<Rightarrow> machine option" where
  "drive fl m = (if running m = None then Some m else drive fl (co_step fl m))"

declare drive.simps [code]

definition resume :: "flavour \<Rightarrow> nat \<Rightarrow> machine \<Rightarrow> machine option" where
  "resume fl i m = drive fl (m\<lparr>running := Some i\<rparr>)"

definition task_done :: "machine \<Rightarrow> nat \<Rightarrow> bool" where
  "task_done m i = (case frame_at m i of None \<Rightarrow> False | Some f \<Rightarrow> (case code f of Ended \<Rightarrow> True | _ \<Rightarrow> False))"

definition task_result :: "flavour \<Rightarrow> ty \<Rightarrow> nat \<Rightarrow> machine \<Rightarrow> delivery" where
  "task_result fl t i m =
     (case frame_at m i of None \<Rightarrow> Raised ''destroyed'' | Some f \<Rightarrow> await_resume fl t (promise_fin f))"

text \<open>\<open>sync_wait\<close>: resume once, then \<open>await_resume\<close>, whatever state the coroutine is in.\<close>

definition sync_wait :: "flavour \<Rightarrow> ty \<Rightarrow> nat \<Rightarrow> machine \<Rightarrow> (delivery \<times> machine) option" where
  "sync_wait fl t i m = map_option (\<lambda>m'. (task_result fl t i m', m')) (resume fl i m)"

text \<open>\<open>~Task\<close>\<close>

definition destroy_task :: "nat \<Rightarrow> machine \<Rightarrow> machine" where
  "destroy_task i m = m\<lparr>frames := (frames m)[i := None]\<rparr>"

text \<open>A pool thread (or a timer) takes the first posted handle and resumes it.\<close>

definition pool_turn :: "flavour \<Rightarrow> machine \<Rightarrow> machine option" where
  "pool_turn fl m =
     (case posted m of
        [] \<Rightarrow> Some m
      | i # q \<Rightarrow> resume fl i (m\<lparr>posted := q\<rparr>))"

section \<open>Direct semantics\<close>

text \<open>Output and stored result of a body run as a plain function; \<open>None\<close> when it suspends.\<close>

primrec eval :: "flavour \<Rightarrow> bool \<Rightarrow> co \<Rightarrow> console \<times> fin option" where
  "eval fl b (Co_Return v) = ([], Some (Ret v))"
| "eval fl b (Co_Throw e) = ([], Some (Exn e))"
| "eval fl b (Co_Print s c) = (s # fst (eval fl b c), snd (eval fl b c))"
| "eval fl b (Co_Await t c k) =
     (case snd (eval fl b c) of
        None \<Rightarrow> (fst (eval fl b c), None)
      | Some r \<Rightarrow> (fst (eval fl b c) @ fst (eval fl b (k (await_resume fl t (Some r)))),
                  snd (eval fl b (k (await_resume fl t (Some r))))))"
| "eval fl b (Co_Suspend w c) = ([], None)"
| "eval fl b (Co_Read_Flag k) = eval fl b (k b)"

lemmas step_defs = co_step_def frame_at_def set_frame_def finish_def await_task_def wake_up_def suspend_def

lemma drive_step: "running m = Some i \<Longrightarrow> drive fl m = drive fl (co_step fl m)"
  by (subst drive.simps) simp

lemma drive_idle: "running m = None \<Longrightarrow> drive fl m = Some m"
  by (subst drive.simps) simp

text \<open>A body that completes: the machine reaches its final suspension with every awaited frame freed.\<close>

definition completed :: "nat \<Rightarrow> task_frame \<Rightarrow> fin \<Rightarrow> console \<Rightarrow> nat \<Rightarrow> machine \<Rightarrow> machine" where
  "completed i f r out n m =
     m\<lparr>frames := (frames m)[i := Some (f\<lparr>code := Ended, promise_fin := Some r\<rparr>)] @ replicate n None,
       running := continuation f, printed := printed m @ out\<rparr>"

lemma drive_completes:
  assumes "running m = Some i" and "i < length (frames m)" and "frames m ! i = Some f"
    and "code f = Ready c" and "eval fl (flag m) c = (out, Some r)"
  shows "\<exists>n. drive fl m = drive fl (completed i f r out n m)"
  using assms
proof (induction c arbitrary: m i f out r)
  case (Co_Return v)
  then show ?case
    by (intro exI [of _ 0]) (simp add: drive_step step_defs completed_def)
next
  case (Co_Throw e)
  then show ?case
    by (intro exI [of _ 0]) (simp add: drive_step step_defs completed_def)
next
  case (Co_Print s c)
  let ?f = "f\<lparr>code := Ready c\<rparr>"
  let ?m = "m\<lparr>frames := (frames m)[i := Some ?f], printed := printed m @ [s]\<rparr>"
  obtain o' where o': "out = s # o'" "eval fl (flag m) c = (o', Some r)"
    using Co_Print.prems(5) by (cases "eval fl (flag m) c") auto
  have "drive fl m = drive fl ?m" using Co_Print.prems by (simp add: drive_step step_defs)
  moreover obtain n where "drive fl ?m = drive fl (completed i ?f r o' n ?m)"
    using Co_Print.IH [of ?m i ?f o' r] Co_Print.prems o' by auto
  ultimately show ?case using o'(1) by (auto intro!: exI [of _ n] simp: completed_def)
next
  case (Co_Suspend w c)
  then show ?case by simp
next
  case (Co_Read_Flag k)
  let ?f = "f\<lparr>code := Ready (k (flag m))\<rparr>"
  let ?m = "m\<lparr>frames := (frames m)[i := Some ?f]\<rparr>"
  have "drive fl m = drive fl ?m" using Co_Read_Flag.prems by (simp add: drive_step step_defs)
  moreover obtain n where "drive fl ?m = drive fl (completed i ?f r out n ?m)"
    using Co_Read_Flag.IH [of "k (flag m)" ?m i ?f out r] Co_Read_Flag.prems by auto
  ultimately show ?case by (auto intro!: exI [of _ n] simp: completed_def)
next
  case (Co_Await t c k)
  let ?j = "length (frames m)"
  let ?w = "f\<lparr>code := Waiting ?j t k\<rparr>"
  let ?g = "new_frame c (Some i)"
  let ?m = "m\<lparr>frames := (frames m)[i := Some ?w] @ [Some ?g], running := Some ?j\<rparr>"
  obtain o1 r1 where 1: "eval fl (flag m) c = (o1, Some r1)"
    using Co_Await.prems(5) by (cases "eval fl (flag m) c") (auto split: option.splits)
  define d where "d = await_resume fl t (Some r1)"
  obtain o2 where 2: "eval fl (flag m) (k d) = (o2, Some r)" "out = o1 @ o2"
    using Co_Await.prems(5) 1 by (cases "eval fl (flag m) (k d)") (auto simp: d_def)
  have a: "drive fl m = drive fl ?m" using Co_Await.prems by (simp add: drive_step step_defs)
  obtain n where n: "drive fl ?m = drive fl (completed ?j ?g r1 o1 n ?m)"
    using Co_Await.IH(1) [of ?m ?j ?g o1 r1] 1 by (auto simp: new_frame_def nth_append)
  let ?c = "completed ?j ?g r1 o1 n ?m"
  let ?f = "f\<lparr>code := Ready (k d)\<rparr>"
  let ?d = "?c\<lparr>frames := (frames ?c)[i := Some ?f, ?j := None]\<rparr>"
  have b: "drive fl ?c = drive fl ?d"
    using Co_Await.prems(2)
    by (subst drive_step [where i = i])
      (simp_all add: completed_def step_defs new_frame_def nth_append list_update_append d_def)
  obtain n' where n': "drive fl ?d = drive fl (completed i ?f r o2 n' ?d)"
    using Co_Await.IH(2) [of "k d" ?d i ?f o2 r] 2 Co_Await.prems(2)
    by (auto simp: completed_def new_frame_def nth_append list_update_append)
  have "completed i ?f r o2 n' ?d = completed i f r out (Suc n + n') m"
    using Co_Await.prems(2) 2(2)
    by (simp add: completed_def new_frame_def list_update_append replicate_add)
  with a n b n' show ?case by metis
qed

text \<open>
  A body that suspends: control returns to the resumer, the frames below it are untouched
  and no result has been stored.
\<close>

definition halted :: "nat \<Rightarrow> task_frame \<Rightarrow> console \<Rightarrow> machine \<Rightarrow> machine \<Rightarrow> bool" where
  "halted i f out m m' \<longleftrightarrow> running m' = None \<and> printed m' = printed m @ out \<and> fault m' = fault m
     \<and> length (frames m) \<le> length (frames m') \<and> (\<forall>j < i. frames m' ! j = frames m ! j)
     \<and> (\<exists>f'. frames m' ! i = Some f' \<and> promise_fin f' = promise_fin f)"

lemma drive_halts:
  assumes "running m = Some i" and "i < length (frames m)" and "frames m ! i = Some f"
    and "code f = Ready c" and "eval fl (flag m) c = (out, None)"
  shows "\<exists>m'. drive fl m = Some m' \<and> halted i f out m m'"
  using assms
proof (induction c arbitrary: m i f out)
  case (Co_Print s c)
  let ?f = "f\<lparr>code := Ready c\<rparr>"
  let ?m = "m\<lparr>frames := (frames m)[i := Some ?f], printed := printed m @ [s]\<rparr>"
  obtain o' where o': "out = s # o'" "eval fl (flag m) c = (o', None)"
    using Co_Print.prems(5) by (cases "eval fl (flag m) c") auto
  have "drive fl m = drive fl ?m" using Co_Print.prems by (simp add: drive_step step_defs)
  moreover obtain m' where "drive fl ?m = Some m'" "halted i ?f o' ?m m'"
    using Co_Print.IH [of ?m i ?f o'] Co_Print.prems o' by auto
  ultimately show ?case using o'(1) by (auto simp: halted_def)
next
  case (Co_Suspend w c)
  let ?m = "suspend i w (m\<lparr>frames := (frames m)[i := Some (f\<lparr>code := Ready c\<rparr>)]\<rparr>)"
  have "drive fl m = drive fl ?m" using Co_Suspend.prems by (simp add: drive_step step_defs)
  moreover have "running ?m = None" by (simp add: suspend_def split: where_to.split)
  ultimately show ?case using Co_Suspend.prems
    by (auto simp: drive_idle halted_def suspend_def split: where_to.split)
next
  case (Co_Read_Flag k)
  let ?f = "f\<lparr>code := Ready (k (flag m))\<rparr>"
  let ?m = "m\<lparr>frames := (frames m)[i := Some ?f]\<rparr>"
  have "drive fl m = drive fl ?m" using Co_Read_Flag.prems by (simp add: drive_step step_defs)
  moreover obtain m' where "drive fl ?m = Some m'" "halted i ?f out ?m m'"
    using Co_Read_Flag.IH [of "k (flag m)" ?m i ?f out] Co_Read_Flag.prems by auto
  ultimately show ?case by (auto simp: halted_def)
next
  case (Co_Await t c k)
  let ?j = "length (frames m)"
  let ?w = "f\<lparr>code := Waiting ?j t k\<rparr>"
  let ?g = "new_frame c (Some i)"
  let ?m = "m\<lparr>frames := (frames m)[i := Some ?w] @ [Some ?g], running := Some ?j\<rparr>"
  have a: "drive fl m = drive fl ?m" using Co_Await.prems by (simp add: drive_step step_defs)
  obtain o1 r1 where 1: "eval fl (flag m) c = (o1, r1)" by fastforce
  show ?case
  proof (cases r1)
    case None
    then obtain m' where "drive fl ?m = Some m'" "halted ?j ?g o1 ?m m'"
      using Co_Await.IH(1) [of ?m ?j ?g o1] 1 by (auto simp: new_frame_def nth_append)
    then show ?thesis using a 1 None Co_Await.prems by (auto simp: halted_def nth_append)
  next
    case (Some r)
    define d where "d = await_resume fl t (Some r)"
    obtain o2 where 2: "eval fl (flag m) (k d) = (o2, None)" "out = o1 @ o2"
      using Co_Await.prems(5) 1 Some by (cases "eval fl (flag m) (k d)") (auto simp: d_def)
    obtain n where n: "drive fl ?m = drive fl (completed ?j ?g r o1 n ?m)"
      using drive_completes [of ?m ?j ?g c fl o1 r] 1 Some by (auto simp: new_frame_def nth_append)
    let ?c = "completed ?j ?g r o1 n ?m"
    let ?f = "f\<lparr>code := Ready (k d)\<rparr>"
    let ?d = "?c\<lparr>frames := (frames ?c)[i := Some ?f, ?j := None]\<rparr>"
    have b: "drive fl ?c = drive fl ?d"
      using Co_Await.prems(2)
      by (subst drive_step [where i = i])
        (simp_all add: completed_def step_defs new_frame_def nth_append list_update_append d_def)
    obtain m' where m': "drive fl ?d = Some m'" "halted i ?f o2 ?d m'"
      using Co_Await.IH(2) [of "k d" ?d i ?f o2] 2 Co_Await.prems(2)
      by (auto simp: completed_def new_frame_def nth_append list_update_append)
    then have "halted i f out m m'"
      using 2(2) Co_Await.prems(2) by (auto simp: halted_def completed_def nth_append)
    with a n b m'(1) show ?thesis by metis
  qed
qed simp_all

section \<open>The demonstration coroutines\<close>

definition compute :: "int \<Rightarrow> co" where
  "compute x = Co_Return (VInt (x * x))"

fun int_of_val :: "val \<Rightarrow> int" where
  "int_of_val (VInt i) = i"
| "int_of_val (VStr s) = 0"

text \<open>\<open>co_await\<close> in the middle of an expression: an exception leaves the body.\<close>

definition and_then :: "(val \<Rightarrow> co) \<Rightarrow> delivery \<Rightarrow> co" where
  "and_then k d = (case d of Value v \<Rightarrow> k v | Raised e \<Rightarrow> Co_Throw e)"

definition format_result :: "int \<Rightarrow> co" where
  "format_result x = Co_Await TInt (compute x)
     (and_then (\<lambda>sq. Co_Return (VStr (dec_int x @ ''^2 = '' @ dec_int (int_of_val sq)))))"

definition level_c :: co where "level_c = Co_Return (VInt 7)"
definition level_b :: co where "level_b = Co_Await TInt level_c (and_then (\<lambda>v. Co_Return (VInt (int_of_val v + 1))))"
definition level_a :: co where "level_a = Co_Await TInt level_b (and_then (\<lambda>v. Co_Return (VInt (int_of_val v * 2))))"

definition will_throw :: co where "will_throw = Co_Throw ''something went wrong''"

definition catches_exception :: co where
  "catches_exception = Co_Await TInt will_throw (\<lambda>d.
     case d of
       Value v \<Rightarrow> Co_Return v
     | Raised e \<Rightarrow> Co_Print (''caught: '' @ e) (Co_Return (VInt (- 1))))"


definition text_of :: "console \<Rightarrow> string" where
  "text_of ls = concat (map (\<lambda>l. l @ nl) ls)"

fun show_delivery :: "delivery \<Rightarrow> string" where
  "show_delivery (Value (VInt i)) = dec_int i"
| "show_delivery (Value (VStr s)) = s"
| "show_delivery (Raised e) = ''terminate: '' @ e"

text \<open>
  \<open>std::cout << label << task.sync_wait() << "\n"\<close>: the label is written before the task
  runs, so what the task prints comes between the label and the result.
\<close>

definition print_sync :: "string \<Rightarrow> flavour \<Rightarrow> ty \<Rightarrow> co \<Rightarrow> string option" where
  "print_sync label fl t c =
     map_option (\<lambda>(d, m). label @ text_of (printed m) @ show_delivery d @ nl)
       (sync_wait fl t 0 (start_task False c))"

definition task_main :: "string option list" where
  "task_main =
     [print_sync [] Variant TInt (compute 5),
      print_sync [] Variant TStr (format_result 6),
      print_sync ''level_a: '' Variant TInt level_a,
      print_sync ''exception result: '' Variant TInt catches_exception]"

text \<open>\<^verbatim>\<open>03_coroutine_handle.cpp\<close>: \<open>GetPromise::await_suspend\<close> returns false, so it does not suspend.\<close>

definition self_aware_coroutine :: co where
  "self_aware_coroutine = Co_Suspend Nowhere (Co_Suspend Nowhere (Co_Return (VInt 0)))"

fun done_after :: "nat \<Rightarrow> machine \<Rightarrow> bool list option" where
  "done_after 0 m = Some [task_done m 0]"
| "done_after (Suc n) m =
     (case resume Plain 0 m of
        None \<Rightarrow> None
      | Some m' \<Rightarrow> map_option (\<lambda>ds. task_done m 0 # ds) (done_after n m'))"

definition transfer_worker :: "string \<Rightarrow> co" where
  "transfer_worker name = Co_Print (''  ['' @ name @ ''] running'') (Co_Return (VInt 0))"

text \<open>Frame 0 is B, frame 1 is A with \<open>next\<close> set to B.\<close>

definition transfer_demo :: "(console \<times> bool \<times> bool) option" where
  "transfer_demo =
     map_option (\<lambda>m. (printed m, task_done m 1, task_done m 0))
       (resume Plain 1
          ((start_task False (transfer_worker ''B''))\<lparr>frames :=
             [Some (new_frame (transfer_worker ''B'') None), Some (new_frame (transfer_worker ''A'') (Some 0))]\<rparr>))"

definition handle_main :: "bool list option \<times> (console \<times> bool \<times> bool) option" where
  "handle_main = (done_after 3 (start_task False self_aware_coroutine), transfer_demo)"

text \<open>\<^verbatim>\<open>04_awaitable.cpp\<close>: \<open>ImmediateValue\<close> is always ready.\<close>

definition demo_immediate :: co where
  "demo_immediate = Co_Print [] (Co_Print ''--- ImmediateValue ---''
     (Co_Print ''result (no suspension): 42'' (Co_Return (VInt 42))))"

definition demo_always_suspend :: co where
  "demo_always_suspend = Co_Print [] (Co_Print ''--- AlwaysSuspend ---'' (Co_Print ''before suspend''
     (Co_Suspend Slot (Co_Print ''after resume'' (Co_Return (VInt 1))))))"

definition ready_when :: "string \<Rightarrow> co \<Rightarrow> co" where
  "ready_when name k = Co_Read_Flag (\<lambda>ready.
     Co_Print (''  [ReadyWhen:'' @ name @ ''] await_ready='' @ (if ready then ''1'' else ''0''))
       (let resumed = Co_Print (''  [ReadyWhen:'' @ name @ ''] resumed'') k in
        if ready then resumed
        else Co_Print (''  [ReadyWhen:'' @ name @ ''] suspending'') (Co_Suspend Slot resumed)))"

definition demo_ready_when :: co where
  "demo_ready_when = Co_Print [] (Co_Print ''--- ReadyWhen ---''
     (ready_when ''flag'' (Co_Print ''condition was satisfied'' (Co_Return (VInt 2)))))"

text \<open>
  \<open>Deferred\<close>: the callback resumes the handle inside \<open>await_suspend\<close>; the body runs on, and
  when it suspends next, control returns through the callback to the resumer.
\<close>

definition demo_deferred :: co where
  "demo_deferred = Co_Print [] (Co_Print ''--- Deferred ---''
     (Co_Print ''callback: setting result and resuming''
       (Co_Print ''deferred result: 99'' (Co_Return (VInt 99)))))"

text \<open>\<open>sync_wait\<close>, then whatever \<open>main\<close> prints, then \<open>if (parked) parked.resume()\<close>.\<close>

definition park_demo :: "string \<Rightarrow> bool \<Rightarrow> co \<Rightarrow> (delivery \<times> console) option" where
  "park_demo msg new_flag c =
     (case sync_wait Plain TInt 0 (start_task False c) of
        None \<Rightarrow> None
      | Some (d, m) \<Rightarrow>
          (case parked m of
             None \<Rightarrow> Some (d, printed m)
           | Some h \<Rightarrow>
               map_option (\<lambda>m'. (d, printed m'))
                 (resume Plain h (m\<lparr>printed := printed m @ [msg], flag := new_flag, parked := None\<rparr>))))"

definition awaitable_main :: "(delivery \<times> console) option list" where
  "awaitable_main =
     [map_option (\<lambda>(d, m). (d, printed m)) (sync_wait Plain TInt 0 (start_task False demo_immediate)),
      park_demo ''externally resuming parked coroutine'' False demo_always_suspend,
      park_demo ''setting flag=true and resuming'' True demo_ready_when,
      map_option (\<lambda>(d, m). (d, printed m)) (sync_wait Plain TInt 0 (start_task True demo_deferred))]"

text \<open>\<^verbatim>\<open>05_thread_hop.cpp\<close>: the thread ids of the trace are left out.\<close>

definition process_request :: "int \<Rightarrow> co" where
  "process_request i =
     Co_Print (''[req '' @ dec_int i @ ''] start'')
       (Co_Suspend Pool
          (Co_Print (''[req '' @ dec_int i @ ''] compute'')
             (Co_Suspend Pool
                (Co_Print (''[req '' @ dec_int i @ ''] send'') (Co_Return (VInt (i * i)))))))"

text \<open>
  \<^verbatim>\<open>10_cancellation.cpp\<close>: \<open>CancellableDelay\<close> is ready when the stop was requested already;
  otherwise only the timer thread keeps the handle, because the \<open>stop_callback\<close> is a
  temporary that is gone when \<open>await_suspend\<close> returns.  \<open>flag\<close> is \<open>stop_requested()\<close>.
\<close>

definition cancellable_delay :: "(bool \<Rightarrow> co) \<Rightarrow> co" where
  "cancellable_delay k = Co_Read_Flag (\<lambda>stop. if stop then k True else Co_Suspend Pool (Co_Read_Flag k))"

definition delay_step :: "string \<Rightarrow> co \<Rightarrow> co" where
  "delay_step i k = Co_Print (''[task] step '' @ i)
     (cancellable_delay (\<lambda>cancelled.
        if cancelled then Co_Print (''[task] cancelled at step '' @ i) (Co_Return (VStr ''cancelled'')) else k))"

definition long_operation :: co where
  "long_operation = delay_step ''1'' (delay_step ''2''
     (Co_Print ''[task] step 3 (done)'' (Co_Return (VStr ''completed''))))"

section \<open>Properties\<close>

text \<open>
  C11: For every coroutine body and every promise type, \<open>sync_wait\<close> on the machine with
  symmetric transfer, no other thread running in between, returns; it delivers what \<open>await_resume\<close> makes of the result the body
  computes when run as a plain recursive program (an exception included), prints the same
  lines in the same order, and resumes no destroyed or finished frame.  When the body
  completed, its own frame is at the final suspension point and every frame it awaited has
  been freed.  When the body suspended, no result has been stored: \<open>sync_wait\<close> delivers the
  default value of the promise, or raises \<open>bad_variant_access\<close> for the variant promise of
  \<^verbatim>\<open>02_task.cpp\<close>.
\<close>

theorem sync_wait_correct:
  "\<exists>m'. sync_wait fl t 0 (start_task b c) = Some (await_resume fl t (snd (eval fl b c)), m')
     \<and> printed m' = fst (eval fl b c) \<and> \<not> fault m'
     \<and> (snd (eval fl b c) \<noteq> None \<longrightarrow> task_done m' 0 \<and> (\<forall>j > 0. frame_at m' j = None))"
proof -
  let ?f = "new_frame c None"
  let ?m = "(start_task b c)\<lparr>running := Some 0\<rparr>"
  have base: "running ?m = Some 0" "0 < length (frames ?m)" "frames ?m ! 0 = Some ?f" "code ?f = Ready c"
    by (simp_all add: start_task_def new_frame_def)
  obtain out r where e: "eval fl (flag ?m) c = (out, r)" by fastforce
  then have e': "eval fl b c = (out, r)" by (simp add: start_task_def)
  show ?thesis
  proof (cases r)
    case None
    obtain m' where "drive fl ?m = Some m'" "halted 0 ?f out ?m m'"
      using drive_halts [OF base] e None by auto
    with None e' show ?thesis
      by (auto simp: sync_wait_def resume_def task_result_def halted_def frame_at_def start_task_def new_frame_def)
  next
    case (Some x)
    obtain n where "drive fl ?m = drive fl (completed 0 ?f x out n ?m)"
      using drive_completes [OF base, of fl out x] e Some by auto
    with Some e' show ?thesis
      by (auto simp: sync_wait_def resume_def task_result_def frame_at_def start_task_def new_frame_def
          completed_def drive_idle task_done_def)
  qed
qed

theorem sync_wait_correct_witness:
  "eval Variant False level_a = ([], Some (Ret (VInt 16))) \<and>
   (\<exists>m'. sync_wait Variant TInt 0 (start_task False level_a) = Some (Value (VInt 16), m') \<and> task_done m' 0
      \<and> frame_at m' 1 = None)"
proof -
  have e: "eval Variant False level_a = ([], Some (Ret (VInt 16)))"
    by (simp add: level_a_def level_b_def level_c_def and_then_def)
  from sync_wait_correct [of Variant TInt False level_a] show ?thesis by (auto simp: e)
qed

text \<open>
  What the demonstration programs print.  In the last line of \<^verbatim>\<open>02_task.cpp\<close> the label
  comes before the line the task prints.  The bare handle of \<^verbatim>\<open>03_coroutine_handle.cpp\<close> is
  done after three resumes, and one resume of A completes A and then B.  In
  \<^verbatim>\<open>04_awaitable.cpp\<close> \<open>sync_wait\<close> delivers 0 for the two tasks that park themselves, and the
  external resume runs them to their end.
\<close>

lemma task_programs:
  "task_main = [Some (''25'' @ nl), Some (''6^2 = 36'' @ nl), Some (''level_a: 16'' @ nl),
     Some (''exception result: caught: something went wrong'' @ nl @ ''-1'' @ nl)]
   \<and> handle_main = (Some [False, False, False, True], Some ([''  [A] running'', ''  [B] running''], True, True))
   \<and> awaitable_main =
     [Some (Value (VInt 42), ['''', ''--- ImmediateValue ---'', ''result (no suspension): 42'']),
      Some (Value (VInt 0), ['''', ''--- AlwaysSuspend ---'', ''before suspend'',
         ''externally resuming parked coroutine'', ''after resume'']),
      Some (Value (VInt 0), ['''', ''--- ReadyWhen ---'', ''  [ReadyWhen:flag] await_ready=0'',
         ''  [ReadyWhen:flag] suspending'', ''setting flag=true and resuming'', ''  [ReadyWhen:flag] resumed'',
         ''condition was satisfied'']),
      Some (Value (VInt 99), ['''', ''--- Deferred ---'', ''callback: setting result and resuming'',
         ''deferred result: 99''])]"
  by code_simp

lemmas run_machine = sync_wait_def resume_def drive.simps step_defs start_task_def new_frame_def
  task_result_def task_done_def pool_turn_def destroy_task_def stuck_def

text \<open>
  \<open>sync_wait\<close> does not wait for a coroutine that hops to a pool.  For every request it
  delivers 0 as soon as the coroutine is queued, and when the launcher then destroys the
  task, the pool thread resumes a destroyed frame.  Only if both pool threads happen to run
  before the launcher reads the promise is the result the square.
\<close>

theorem thread_hop_sync_wait:
  "(\<exists>m m'. sync_wait Plain_Exn TInt 0 (start_task False (process_request i)) = Some (Value (VInt 0), m)
      \<and> posted m = [0] \<and> pool_turn Plain_Exn (destroy_task 0 m) = Some m' \<and> fault m')
   \<and> (\<exists>m m1 m2. resume Plain_Exn 0 (start_task False (process_request i)) = Some m
      \<and> pool_turn Plain_Exn m = Some m1 \<and> pool_turn Plain_Exn m1 = Some m2
      \<and> task_result Plain_Exn TInt 0 m2 = Value (VInt (i * i)) \<and> \<not> fault m2)"
  by (simp add: run_machine process_request_def)

text \<open>
  A stop request does not wake a \<open>CancellableDelay\<close>: after \<open>await_suspend\<close> the handle is
  held by the timer thread alone, whatever the stop token says.  \<open>sync_wait\<close> of
  \<open>long_operation\<close> delivers the empty string at the first delay, and after \<open>main\<close> destroyed
  the temporary task the timer resumes a destroyed frame.  Were the task kept, the timer
  would find the request and the operation would end as cancelled; without a request two
  timers bring it to completion.
\<close>

theorem cancellable_delay_not_woken:
  "\<exists>m. sync_wait Plain_Exn TStr 0 (start_task False long_operation) = Some (Value (VStr ''''), m)
     \<and> posted m = [0] \<and> parked m = None
     \<and> (\<exists>m'. pool_turn Plain_Exn (destroy_task 0 m) = Some m' \<and> fault m')
     \<and> (\<exists>m'. pool_turn Plain_Exn (m\<lparr>flag := True\<rparr>) = Some m'
          \<and> task_result Plain_Exn TStr 0 m' = Value (VStr ''cancelled'')
          \<and> printed m' = [''[task] step 1'', ''[task] cancelled at step 1''])
     \<and> (\<exists>m1 m2. pool_turn Plain_Exn m = Some m1 \<and> pool_turn Plain_Exn m1 = Some m2
          \<and> task_result Plain_Exn TStr 0 m2 = Value (VStr ''completed'')
          \<and> printed m2 = [''[task] step 1'', ''[task] step 2'', ''[task] step 3 (done)''])"
  by (simp add: run_machine long_operation_def delay_step_def cancellable_delay_def)

end
