(* ===== verification/Scheduler.thy ===== *)
theory Scheduler
  imports Prelude
begin

text \<open>
  The cooperative round-robin scheduler of \<^verbatim>\<open>coroutines/06_scheduler.cpp\<close> and its example
  tasks.  A job is the state its coroutine is suspended in; resuming it gives the lines it
  prints, the jobs it spawns, the shared queue and the state it yields in, or none when it
  ran to its final suspension point.
\<close>

section \<open>Jobs\<close>

datatype job =
    Counter string int int
  | Producer int int
  | Consumer int int
  | Spawner_Start
  | Spawner_End

text \<open>\<open>Counter name i n\<close>, \<open>Producer i count\<close> and \<open>Consumer received count\<close> are at the head of
  their loops.  The counts are \<open>int\<close>s of the program, all at most 4; for a count below \<open>INT_MAX\<close> no
  \<open>++\<close> of the loops leaves the type.\<close>

fun job_resume :: "job \<Rightarrow> int list \<Rightarrow> console \<times> job list \<times> int list \<times> job option" where
  "job_resume (Counter name i n) q =
     (if i \<le> n
      then ([''['' @ name @ ''] step '' @ dec_int i @ ''/'' @ dec_int n], [], q, Some (Counter name (i + 1) n))
      else ([''['' @ name @ ''] done''], [], q, None))"
| "job_resume (Producer i count) q =
     (if i < count
      then ([''[producer] pushed '' @ dec_int i], [], q @ [i], Some (Producer (i + 1) count))
      else ([], [], q, None))"
| "job_resume (Consumer received count) q =
     (if received < count
      then (case q of
              v # q' \<Rightarrow> ([''[consumer] got '' @ dec_int v], [], q', Some (Consumer (received + 1) count))
            | [] \<Rightarrow> ([], [], [], Some (Consumer received count)))
      else ([], [], q, None))"
| "job_resume Spawner_Start q =
     ([''[spawner] spawning sub-tasks''], [Counter ''sub-A'' 1 2, Counter ''sub-B'' 1 2], q, Some Spawner_End)"
| "job_resume Spawner_End q = ([''[spawner] done''], [], q, None)"

section \<open>The scheduler\<close>

text \<open>\<open>ended\<close> counts the frames left at their final suspension point: nothing destroys them.\<close>

record sched =
  ready :: "job list"
  shared_queue :: "int list"
  log_lines :: console
  ended :: nat

definition sched_new :: sched where
  "sched_new = \<lparr>ready = [], shared_queue = [], log_lines = [], ended = 0\<rparr>"

definition enqueue :: "job \<Rightarrow> sched \<Rightarrow> sched" where
  "enqueue j s = s\<lparr>ready := ready s @ [j]\<rparr>"

text \<open>\<open>spawn\<close> calls the coroutine function, which suspends at once, and enqueues the handle.\<close>

definition spawn :: "job \<Rightarrow> sched \<Rightarrow> sched" where
  "spawn j s = enqueue j s"

definition run_one :: "job \<Rightarrow> sched \<Rightarrow> sched" where
  "run_one j s =
     (case job_resume j (shared_queue s) of
        (ls, spawned, q, next) \<Rightarrow>
          let s' = fold spawn spawned (s\<lparr>shared_queue := q, log_lines := log_lines s @ ls\<rparr>)
          in case next of
               Some j' \<Rightarrow> enqueue j' s'
             | None \<Rightarrow> s'\<lparr>ended := Suc (ended s')\<rparr>)"

partial_function (option) sched_run :: "sched \<Rightarrow> sched option" where
  "sched_run s =
     (case ready s of
        [] \<Rightarrow> Some s
      | j # js \<Rightarrow> sched_run (run_one j (s\<lparr>ready := js\<rparr>)))"

declare sched_run.simps [code]

section \<open>Round robin\<close>

text \<open>
  A job that neither spawns nor looks at the shared queue is characterised by what it
  prints in each of its turns.
\<close>

fun independent :: "job \<Rightarrow> bool" where
  "independent (Counter name i n) = True"
| "independent (Producer i count) = True"
| "independent _ = False"

function turns :: "job \<Rightarrow> console list" where
  "turns (Counter name i n) =
     (if i \<le> n then [''['' @ name @ ''] step '' @ dec_int i @ ''/'' @ dec_int n] # turns (Counter name (i + 1) n)
      else [[''['' @ name @ ''] done'']])"
| "turns (Producer i count) =
     (if i < count then [''[producer] pushed '' @ dec_int i] # turns (Producer (i + 1) count) else [[]])"
| "turns (Consumer received count) = []"
| "turns Spawner_Start = []"
| "turns Spawner_End = []"
  by pat_completeness auto
termination
  by (relation "measure (\<lambda>j. case j of Counter _ i n \<Rightarrow> nat (n + 1 - i) | Producer i n \<Rightarrow> nat (n - i) | _ \<Rightarrow> 0)") auto

declare turns.simps [simp del]

lemma turns_resume:
  assumes "independent j"
  shows "\<exists>l ls q' nx. job_resume j q = (l, [], q', nx) \<and> turns j = l # ls
    \<and> (case nx of None \<Rightarrow> ls = [] | Some j' \<Rightarrow> independent j' \<and> turns j' = ls \<and> ls \<noteq> [])"
proof (cases j)
  case (Counter name i n)
  then show ?thesis by (cases "i \<le> n") (auto simp: turns.simps)
next
  case (Producer i n)
  then show ?thesis by (cases "i < n") (auto simp: turns.simps)
qed (use assms in auto)

lemma turns_ne: "independent j \<Longrightarrow> turns j \<noteq> []"
  using turns_resume [of j "[]"] by auto

text \<open>The queue discipline on the turns alone.\<close>

function rr :: "'a list list \<Rightarrow> 'a list" where
  "rr [] = []"
| "rr ([] # q) = rr q"
| "rr ((c # cs) # q) = c # rr (q @ (if cs = [] then [] else [cs]))"
  by pat_completeness auto
termination
  by (relation "measure (\<lambda>q. sum_list (map (\<lambda>cs. Suc (2 * length cs)) q))") auto

lemma rr_round:
  "[] \<notin> set q1 \<Longrightarrow> rr (q1 @ q2) = map hd q1 @ rr (q2 @ filter (\<lambda>cs. cs \<noteq> []) (map tl q1))"
proof (induction q1 arbitrary: q2)
  case (Cons cs q1)
  then obtain x xs where "cs = x # xs" by (cases cs) auto
  with Cons.IH [of "q2 @ (if xs = [] then [] else [xs])"] Cons.prems show ?case by simp
qed simp

lemma heads_tails:
  "[] \<notin> set q \<Longrightarrow> concat (map (case_list [] (\<lambda>h t. [h])) q) = map hd q
     \<and> concat (map (case_list [] (\<lambda>h t. [t])) q) = map tl q"
  by (induction q) (auto split: list.splits)

lemma transpose_nonempty: "transpose (filter (\<lambda>cs. cs \<noteq> []) q) = transpose q"
proof (induction q rule: transpose.induct)
  case (3 x xs xss)
  have h: "concat (map (case_list [] (\<lambda>h t. [h])) (filter (\<lambda>cs. cs \<noteq> []) ys))
      = concat (map (case_list [] (\<lambda>h t. [h])) ys)" for ys :: "'a list list"
    by (induction ys) (auto split: list.splits)
  have t: "concat (map (case_list [] (\<lambda>h t. [t])) (filter (\<lambda>cs. cs \<noteq> []) ys))
      = concat (map (case_list [] (\<lambda>h t. [t])) ys)" for ys :: "'a list list"
    by (induction ys) (auto split: list.splits)
  show ?case by (simp add: h t)
qed auto

lemma transpose_round:
  assumes "[] \<notin> set q" and "q \<noteq> []"
  shows "transpose q = map hd q # transpose (filter (\<lambda>cs. cs \<noteq> []) (map tl q))"
proof -
  obtain x xs q' where q: "q = (x # xs) # q'" using assms by (cases q; cases "hd q") auto
  with heads_tails [of q'] assms(1) show ?thesis
    using transpose_nonempty [of "xs # map tl q'"] by (simp add: q)
qed

lemma rr_transpose: "[] \<notin> set q \<Longrightarrow> rr q = concat (transpose q)"
proof (induction "sum_list (map length q)" arbitrary: q rule: less_induct)
  case less
  show ?case
  proof (cases q)
    case (Cons cs q')
    let ?r = "filter (\<lambda>cs. cs \<noteq> []) (map tl q)"
    have "sum_list (map length (filter (\<lambda>cs. cs \<noteq> []) (map tl p))) \<le> sum_list (map length p)" for p :: "'a list list"
      by (induction p) auto
    from this [of q'] have "sum_list (map length ?r) < sum_list (map length q)"
      using less.prems Cons by (cases cs) auto
    then have "rr ?r = concat (transpose ?r)" by (intro less.hyps) auto
    then show ?thesis
      using rr_round [of q "[]"] transpose_round [of q] less.prems Cons by simp
  qed simp
qed

lemma sched_run_turn:
  assumes "ready s = j # js" and "job_resume j (shared_queue s) = (l, [], q, nx)"
  shows "sched_run s = sched_run (s\<lparr>ready := js @ (case nx of None \<Rightarrow> [] | Some j' \<Rightarrow> [j']),
    shared_queue := q, log_lines := log_lines s @ l, ended := ended s + (if nx = None then 1 else 0)\<rparr>)"
  using assms by (cases s, subst sched_run.simps) (auto simp: run_one_def enqueue_def split: option.splits)

lemma sched_run_rr:
  assumes "list_all independent (ready s)"
  shows "\<exists>s'. sched_run s = Some s' \<and> ready s' = [] \<and> ended s' = ended s + length (ready s)
     \<and> log_lines s' = log_lines s @ concat (rr (map turns (ready s)))"
  using assms
proof (induction "sum_list (map (length \<circ> turns) (ready s))" arbitrary: s rule: less_induct)
  case less
  show ?case
  proof (cases "ready s")
    case Nil
    then show ?thesis by (subst sched_run.simps) simp
  next
    case (Cons j js)
    with less.prems have j: "independent j" "list_all independent js" by simp_all
    obtain l ls q nx where r: "job_resume j (shared_queue s) = (l, [], q, nx)" "turns j = l # ls"
      and nx: "case nx of None \<Rightarrow> ls = [] | Some j' \<Rightarrow> independent j' \<and> turns j' = ls \<and> ls \<noteq> []"
      using turns_resume [OF j(1), of "shared_queue s"] by (elim exE conjE) (rule that)
    let ?s = "s\<lparr>ready := js @ (case nx of None \<Rightarrow> [] | Some j' \<Rightarrow> [j']), shared_queue := q,
      log_lines := log_lines s @ l, ended := ended s + (if nx = None then 1 else 0)\<rparr>"
    have run: "sched_run s = sched_run ?s" by (rule sched_run_turn [OF Cons r(1)])
    have "sum_list (map (length \<circ> turns) (ready ?s)) < sum_list (map (length \<circ> turns) (ready s))"
      and "list_all independent (ready ?s)"
      using Cons r(2) j nx by (cases nx; simp)+
    from less.hyps [OF this] obtain s' where "sched_run ?s = Some s'" "ready s' = []"
      "ended s' = ended ?s + length (ready ?s)"
      "log_lines s' = log_lines ?s @ concat (rr (map turns (ready ?s)))" by blast
    with run Cons r(2) nx show ?thesis by (cases nx) auto
  qed
qed

section \<open>Producer and consumer\<close>

definition pc_line :: "int \<Rightarrow> console" where
  "pc_line k = [''[producer] pushed '' @ dec_int k, ''[consumer] got '' @ dec_int k]"

lemma producer_consumer_from:
  assumes "ready s = [Producer i n, Consumer i n]" and "shared_queue s = []" and "i \<le> n"
  shows "\<exists>s'. sched_run s = Some s' \<and> ready s' = [] \<and> shared_queue s' = [] \<and> ended s' = ended s + 2
     \<and> log_lines s' = log_lines s @ concat (map pc_line [i..n - 1])"
  using assms
proof (induction "nat (n - i)" arbitrary: s i)
  case 0
  then have "i = n" by simp
  with 0 show ?case
    by (simp add: sched_run.simps run_one_def)
next
  case (Suc k)
  then have lt: "i < n" by simp
  let ?s = "s\<lparr>ready := [Producer (i + 1) n, Consumer (i + 1) n], log_lines := log_lines s @ pc_line i\<rparr>"
  have "sched_run s = sched_run ?s"
    using Suc.prems lt
    by (cases s, subst sched_run.simps, simp add: run_one_def enqueue_def, subst sched_run.simps)
      (simp add: run_one_def enqueue_def pc_line_def)
  moreover have "\<exists>s'. sched_run ?s = Some s' \<and> ready s' = [] \<and> shared_queue s' = [] \<and> ended s' = ended ?s + 2
     \<and> log_lines s' = log_lines ?s @ concat (map pc_line [i + 1..n - 1])"
    using Suc lt by (intro Suc.hyps(1)) auto
  moreover have "[i..n - 1] = i # [i + 1..n - 1]" using lt by (simp add: upto_rec1)
  ultimately show ?case by auto
qed

definition scheduler_main :: "console option" where
  "scheduler_main =
     (case sched_run (spawn (Counter ''gamma'' 1 2) (spawn (Counter ''beta'' 1 3)
             (spawn (Counter ''alpha'' 1 3) (sched_new\<lparr>log_lines := [''=== round-robin interleaving ===''] \<rparr>)))) of
        None \<Rightarrow> None
      | Some s1 \<Rightarrow>
          (case sched_run (spawn (Consumer 0 4) (spawn (Producer 0 4)
                  (s1\<lparr>log_lines := log_lines s1 @ ['''', ''=== producer / consumer ===''] \<rparr>))) of
             None \<Rightarrow> None
           | Some s2 \<Rightarrow>
               map_option log_lines (sched_run (spawn Spawner_Start
                  (s2\<lparr>log_lines := log_lines s2 @ ['''', ''=== dynamic spawn ===''] \<rparr>)))))"

section \<open>A consumer nobody feeds\<close>

lemma lone_consumer_spins:
  assumes "sched_run s = Some s'"
  shows "\<not> (ready s = [Consumer i n] \<and> shared_queue s = [] \<and> i < n)"
proof (rule sched_run.raw_induct [OF _ assms])
  fix f s s'
  assume "\<And>s s'. f s = Some s' \<Longrightarrow> \<not> (ready s = [Consumer i n] \<and> shared_queue s = [] \<and> i < n)"
    and "(case ready s of [] \<Rightarrow> Some s | j # js \<Rightarrow> f (run_one j (s\<lparr>ready := js\<rparr>))) = Some s'"
  then show "\<not> (ready s = [Consumer i n] \<and> shared_queue s = [] \<and> i < n)"
    by (fastforce simp: run_one_def enqueue_def)
qed

section \<open>Properties\<close>

text \<open>
  C12: The scheduler is a fair round robin.  For any queue of counting and producing jobs,
  which wait for nothing, \<open>run()\<close> returns with the queue empty and every coroutine at its
  final suspension point, and what it prints is the turns of the jobs read
  column by column: the first turns of all jobs in spawn order, then the second turns of the
  jobs that are still alive, and so on; every job gets all its turns, in its own order.
  A producer and a consumer of \<open>n\<close> items, spawned together, also return, each item being
  consumed in the turn after it was produced; a consumer that is left alone with an empty
  queue yields for ever, so \<open>run()\<close> does not return.
\<close>

theorem scheduler_round_robin:
  "(list_all independent (ready s) \<longrightarrow>
      (\<exists>s'. sched_run s = Some s' \<and> ready s' = [] \<and> ended s' = ended s + length (ready s)
         \<and> log_lines s' = log_lines s @ concat (concat (transpose (map turns (ready s))))))
   \<and> (\<exists>s'. sched_run (spawn (Consumer 0 (int n)) (spawn (Producer 0 (int n)) sched_new)) = Some s'
        \<and> ready s' = [] \<and> shared_queue s' = [] \<and> log_lines s' = concat (map pc_line [0..int n - 1]))
   \<and> sched_run (spawn (Consumer 0 (int (Suc n))) sched_new) = None"
proof (intro conjI impI)
  assume ind: "list_all independent (ready s)"
  have "[] \<notin> set (map turns (ready s))" using ind by (auto simp: list_all_iff dest!: turns_ne)
  with sched_run_rr [OF ind]
  show "\<exists>s'. sched_run s = Some s' \<and> ready s' = [] \<and> ended s' = ended s + length (ready s)
     \<and> log_lines s' = log_lines s @ concat (concat (transpose (map turns (ready s))))"
    by (simp add: rr_transpose)
next
  show "\<exists>s'. sched_run (spawn (Consumer 0 (int n)) (spawn (Producer 0 (int n)) sched_new)) = Some s'
      \<and> ready s' = [] \<and> shared_queue s' = [] \<and> log_lines s' = concat (map pc_line [0..int n - 1])"
    using producer_consumer_from [of "spawn (Consumer 0 (int n)) (spawn (Producer 0 (int n)) sched_new)" 0 "int n"]
    by (auto simp: spawn_def enqueue_def sched_new_def)
next
  have "sched_run (spawn (Consumer 0 (int (Suc n))) sched_new) \<noteq> Some s'" for s'
    using lone_consumer_spins by (fastforce simp: spawn_def enqueue_def sched_new_def)
  then show "sched_run (spawn (Consumer 0 (int (Suc n))) sched_new) = None" by blast
qed

theorem scheduler_round_robin_witness:
  "list_all independent [Counter ''a'' 1 1, Counter ''b'' 1 0] \<and>
   (\<exists>s'. sched_run (sched_new\<lparr>ready := [Counter ''a'' 1 1, Counter ''b'' 1 0]\<rparr>) = Some s' \<and> ended s' = 2
      \<and> log_lines s' = [''[a] step 1/1'', ''[b] done'', ''[a] done''])
   \<and> sched_run (spawn (Consumer 0 4) sched_new) = None"
proof -
  have "dec_int 1 = ''1''" by code_simp
  with scheduler_round_robin [of "sched_new\<lparr>ready := [Counter ''a'' 1 1, Counter ''b'' 1 0]\<rparr>" 3]
  show ?thesis by (auto simp: sched_new_def turns.simps)
qed

text \<open>
  The whole demonstration program, its spawner included, prints the listed lines.
\<close>

lemma scheduler_main_prints:
  "scheduler_main = Some
     [''=== round-robin interleaving ==='',
      ''[alpha] step 1/3'', ''[beta] step 1/3'', ''[gamma] step 1/2'',
      ''[alpha] step 2/3'', ''[beta] step 2/3'', ''[gamma] step 2/2'',
      ''[alpha] step 3/3'', ''[beta] step 3/3'', ''[gamma] done'', ''[alpha] done'', ''[beta] done'',
      '''', ''=== producer / consumer ==='',
      ''[producer] pushed 0'', ''[consumer] got 0'', ''[producer] pushed 1'', ''[consumer] got 1'',
      ''[producer] pushed 2'', ''[consumer] got 2'', ''[producer] pushed 3'', ''[consumer] got 3'',
      '''', ''=== dynamic spawn ==='', ''[spawner] spawning sub-tasks'',
      ''[sub-A] step 1/2'', ''[sub-B] step 1/2'', ''[spawner] done'',
      ''[sub-A] step 2/2'', ''[sub-B] step 2/2'', ''[sub-A] done'', ''[sub-B] done'']"
  by code_simp

end
