(* ===== verification/When_All.thy ===== *)
theory When_All
  imports Prelude
begin

text \<open>
  \<open>WhenAllContext\<close>, \<open>WhenAllAwaiter\<close>, \<open>notify_on_done\<close> and \<open>when_all\<close> of
  \<^verbatim>\<open>coroutines/09_when_all.cpp\<close>: children on pool threads store their result and count down;
  the last one resumes the parent.  Child \<open>i\<close> produces \<open>vs ! i\<close>, or throws when that is \<open>None\<close>.
\<close>

datatype child_pc = C_Run | C_Out | C_Last | C_Done | C_Threw

text \<open>\<open>P_Check\<close> is \<open>await_ready\<close>, \<open>P_Store\<close> is \<open>await_suspend\<close>.\<close>

datatype parent_pc = P_Check | P_Store | P_Suspended | P_Resumed

record when_all_ctx =
  remaining :: int
  parent_set :: bool
  results :: "int list"
  children :: "child_pc list"
  parent_at :: parent_pc
  null_resume :: bool

definition when_all_init :: "nat \<Rightarrow> when_all_ctx" where
  "when_all_init n = \<lparr>remaining = int n, parent_set = False, results = replicate n 0,
     children = replicate n C_Run, parent_at = P_Check, null_resume = False\<rparr>"

definition child_to :: "nat \<Rightarrow> child_pc \<Rightarrow> when_all_ctx \<Rightarrow> when_all_ctx" where
  "child_to i p c = c\<lparr>children := (children c)[i := p]\<rparr>"

text \<open>
  \<open>notify\<close> is the atomic \<open>fetch_sub\<close> followed, for the last child, by \<open>parent.resume()\<close>;
  resuming the null handle is undefined behaviour.
\<close>

inductive when_all_step :: "int option list \<Rightarrow> when_all_ctx \<Rightarrow> when_all_ctx \<Rightarrow> bool" for vs :: "int option list" where
  child_out: "i < length (children c) \<Longrightarrow> children c ! i = C_Run \<Longrightarrow> vs ! i = Some v \<Longrightarrow>
     when_all_step vs c (child_to i C_Out (c\<lparr>results := (results c)[i := v]\<rparr>))"
| child_throws: "i < length (children c) \<Longrightarrow> children c ! i = C_Run \<Longrightarrow> vs ! i = None \<Longrightarrow>
     when_all_step vs c (child_to i C_Threw c)"
| child_notify: "i < length (children c) \<Longrightarrow> children c ! i = C_Out \<Longrightarrow>
     when_all_step vs c (child_to i (if remaining c = 1 then C_Last else C_Done) (c\<lparr>remaining := remaining c - 1\<rparr>))"
| child_resumes: "i < length (children c) \<Longrightarrow> children c ! i = C_Last \<Longrightarrow> parent_set c \<Longrightarrow>
     when_all_step vs c (child_to i C_Done (c\<lparr>parent_at := P_Resumed\<rparr>))"
| child_null: "i < length (children c) \<Longrightarrow> children c ! i = C_Last \<Longrightarrow> \<not> parent_set c \<Longrightarrow>
     when_all_step vs c (child_to i C_Done (c\<lparr>null_resume := True\<rparr>))"
| parent_check: "parent_at c = P_Check \<Longrightarrow>
     when_all_step vs c (c\<lparr>parent_at := (if remaining c = 0 then P_Resumed else P_Store)\<rparr>)"
| parent_store: "parent_at c = P_Store \<Longrightarrow>
     when_all_step vs c (c\<lparr>parent_at := P_Suspended, parent_set := True\<rparr>)"

inductive_cases when_all_stepE: "when_all_step vs c c'"

fun child_open :: "child_pc \<Rightarrow> nat" where
  "child_open C_Last = 0"
| "child_open C_Done = 0"
| "child_open _ = 1"

text \<open>
  The invariant in three parts: the counter counts the children that have not notified, a
  child that stored its result stored the right one, and exactly the moment the counter
  reaches zero hands the duty to resume the parent to one child.
\<close>

definition wa_count :: "int option list \<Rightarrow> when_all_ctx \<Rightarrow> bool" where
  "wa_count vs c \<longleftrightarrow> length (children c) = length vs \<and> length (results c) = length vs
     \<and> remaining c = int (sum_list (map child_open (children c)))"

definition wa_vals :: "int option list \<Rightarrow> when_all_ctx \<Rightarrow> bool" where
  "wa_vals vs c \<longleftrightarrow> (\<forall>i < length vs.
     (children c ! i = C_Threw \<longrightarrow> vs ! i = None)
     \<and> (children c ! i \<in> {C_Out, C_Last, C_Done} \<longrightarrow> vs ! i = Some (results c ! i)))"

definition wa_last :: "int option list \<Rightarrow> when_all_ctx \<Rightarrow> bool" where
  "wa_last vs c \<longleftrightarrow> (C_Last \<in> set (children c) \<or> parent_at c = P_Resumed \<longrightarrow> remaining c = 0)
     \<and> (null_resume c \<or> parent_at c = P_Resumed \<or> vs = [] \<or> remaining c \<noteq> 0 \<or> C_Last \<in> set (children c))
     \<and> (parent_at c \<in> {P_Store, P_Suspended} \<longrightarrow> vs \<noteq> [])"

definition when_all_inv :: "int option list \<Rightarrow> when_all_ctx \<Rightarrow> bool" where
  "when_all_inv vs c \<longleftrightarrow> wa_count vs c \<and> wa_vals vs c \<and> wa_last vs c"

lemma open_update:
  assumes "i < length cs"
  shows "sum_list (map child_open (cs[i := p])) + child_open (cs ! i) = sum_list (map child_open cs) + child_open p"
  using sum_list_update_nat [of i "map child_open cs" "child_open p"] assms by (simp add: map_update)

lemma open_zero: "sum_list (map child_open cs) = 0 \<Longrightarrow> i < length cs \<Longrightarrow> cs ! i = C_Last \<or> cs ! i = C_Done"
  by (cases "cs ! i") (auto dest!: bspec [OF _ nth_mem [of i cs]])

lemma open_pos: "i < length cs \<Longrightarrow> cs ! i = C_Out \<Longrightarrow> 0 < sum_list (map child_open cs)"
  using open_zero [of cs i] by (cases "sum_list (map child_open cs)") auto

lemma last_update:
  assumes "cs ! i \<noteq> C_Last" and "p \<noteq> C_Last"
  shows "C_Last \<in> set (cs[i := p]) \<longleftrightarrow> C_Last \<in> set cs"
proof
  assume "C_Last \<in> set cs"
  then obtain j where j: "j < length cs" "cs ! j = C_Last" by (auto simp: in_set_conv_nth)
  with assms(1) have "cs[i := p] ! j = C_Last" by (cases "i = j") auto
  with j(1) show "C_Last \<in> set (cs[i := p])" by (metis length_list_update nth_mem)
qed (use assms(2) set_update_subset_insert [of cs i p] in auto)

lemma wa_count_step:
  assumes "wa_count vs c" and "when_all_step vs c c'"
  shows "wa_count vs c'"
  using assms(2)
proof cases
  case (child_out i v)
  with assms(1) open_update [of i "children c" C_Out] show ?thesis by (simp add: wa_count_def child_to_def)
next
  case (child_throws i)
  with assms(1) open_update [of i "children c" C_Threw] show ?thesis by (simp add: wa_count_def child_to_def)
next
  case (child_notify i)
  let ?p = "if remaining c = 1 then C_Last else C_Done"
  have "child_open ?p = 0" by simp
  with child_notify assms(1) open_update [of i "children c" ?p] show ?thesis
    by (simp add: wa_count_def child_to_def del: child_open.simps(1, 2))
next
  case (child_resumes i)
  with assms(1) open_update [of i "children c" C_Done] show ?thesis by (simp add: wa_count_def child_to_def)
next
  case (child_null i)
  with assms(1) open_update [of i "children c" C_Done] show ?thesis by (simp add: wa_count_def child_to_def)
qed (use assms(1) in \<open>simp_all add: wa_count_def\<close>)

lemma wa_vals_step:
  assumes "wa_count vs c" and "wa_vals vs c" and "when_all_step vs c c'"
  shows "wa_vals vs c'"
  using assms(3)
proof cases
  case (child_out i v)
  with assms(1,2) show ?thesis by (simp add: wa_count_def wa_vals_def child_to_def nth_list_update)
next
  case (child_throws i)
  with assms(1,2) show ?thesis by (simp add: wa_count_def wa_vals_def child_to_def nth_list_update)
next
  case (child_notify i)
  with assms(1,2) show ?thesis by (simp add: wa_count_def wa_vals_def child_to_def nth_list_update)
next
  case (child_resumes i)
  with assms(1,2) show ?thesis by (simp add: wa_count_def wa_vals_def child_to_def nth_list_update)
next
  case (child_null i)
  with assms(1,2) show ?thesis by (simp add: wa_count_def wa_vals_def child_to_def nth_list_update)
qed (use assms(2) in \<open>simp_all add: wa_vals_def\<close>)

lemma wa_last_step:
  assumes "wa_count vs c" and "wa_last vs c" and "when_all_step vs c c'"
  shows "wa_last vs c'"
  using assms(3)
proof cases
  case (child_out i v)
  with assms(2) last_update [of "children c" i C_Out] show ?thesis by (simp add: wa_last_def child_to_def)
next
  case (child_throws i)
  with assms(2) last_update [of "children c" i C_Threw] show ?thesis by (simp add: wa_last_def child_to_def)
next
  case (child_notify i)
  with assms(1) open_pos [of i "children c"] have pos: "0 < remaining c" by (simp add: wa_count_def)
  show ?thesis
  proof (cases "remaining c = 1")
    case True
    with child_notify assms(2) set_update_memI [of i "children c" C_Last] show ?thesis
      by (simp add: wa_last_def child_to_def)
  next
    case False
    with child_notify assms(2) pos last_update [of "children c" i C_Done] show ?thesis
      by (auto simp: wa_last_def child_to_def)
  qed
next
  case (child_resumes i)
  then have "C_Last \<in> set (children c)" by (metis nth_mem)
  with child_resumes assms(2) show ?thesis by (simp add: wa_last_def child_to_def)
next
  case (child_null i)
  then have "C_Last \<in> set (children c)" by (metis nth_mem)
  with child_null assms(2) show ?thesis by (simp add: wa_last_def child_to_def)
next
  case parent_check
  with assms(1,2) show ?thesis by (auto simp: wa_last_def wa_count_def)
next
  case parent_store
  with assms(2) show ?thesis by (auto simp: wa_last_def)
qed

interpretation when_all: inv_system
  "\<lambda>c. c = when_all_init (length vs)" "when_all_step vs" "when_all_inv vs" for vs
proof (unfold_locales, goal_cases)
  case (1 c)
  then show ?case
    by (auto simp: when_all_inv_def wa_count_def wa_vals_def wa_last_def when_all_init_def sum_list_replicate)
next
  case (2 c c')
  then show ?case
    by (auto simp: when_all_inv_def intro: wa_count_step wa_vals_step wa_last_step)
qed

lemma when_all_results:
  assumes "when_all_inv vs c" and "parent_at c = P_Resumed"
  shows "map Some (results c) = vs"
proof (rule nth_equalityI)
  have zero: "sum_list (map child_open (children c)) = 0" and len: "length (children c) = length vs" "length (results c) = length vs"
    using assms by (auto simp: when_all_inv_def wa_count_def wa_last_def)
  show "length (map Some (results c)) = length vs" using len by simp
  fix i assume "i < length (map Some (results c))"
  with len open_zero [OF zero, of i] assms(1) show "map Some (results c) ! i = vs ! i"
    by (auto simp: when_all_inv_def wa_vals_def)
qed

lemma when_all_moves:
  assumes inv: "when_all_inv vs c" and "None \<notin> set vs" and "\<not> null_resume c" and "parent_at c \<noteq> P_Resumed"
  shows "\<exists>c'. when_all_step vs c c'"
proof (cases "parent_at c = P_Suspended")
  case True
  have len: "length (children c) = length vs" using inv by (simp add: when_all_inv_def wa_count_def)
  have "\<exists>x \<in> set (children c). x \<in> {C_Run, C_Out, C_Last, C_Threw}"
  proof (rule ccontr)
    assume none: "\<not> ?thesis"
    have "child_open x = 0" if "x \<in> set (children c)" for x using none that by (cases x) auto
    then have "sum_list (map child_open (children c)) = 0" by (auto simp: sum_list_eq_0_iff)
    with inv True assms(3) none show False by (auto simp: when_all_inv_def wa_count_def wa_last_def)
  qed
  then obtain i where i: "i < length vs" "children c ! i \<in> {C_Run, C_Out, C_Last, C_Threw}"
    unfolding len [symmetric] by (auto simp: in_set_conv_nth)
  moreover from i assms(2) obtain v where v: "vs ! i = Some v" by (metis nth_mem option.exhaust)
  moreover have "children c ! i \<noteq> C_Threw" using inv i(1) v by (auto simp: when_all_inv_def wa_vals_def)
  ultimately consider "children c ! i = C_Run" | "children c ! i = C_Out" | "children c ! i = C_Last" by auto
  then show ?thesis
    using i(1) v len child_out [of i c vs v] child_notify [of i c vs] child_resumes [of i c vs] child_null [of i c vs]
    by cases auto
next
  case False
  with assms(4) show ?thesis
    using parent_check [of c vs] parent_store [of c vs] by (cases "parent_at c") auto
qed

section \<open>Properties\<close>


lemma wa_one: "when_all_step vs a b \<Longrightarrow> (when_all_step vs)\<^sup>*\<^sup>* a b"
  by (rule r_into_rtranclp)

lemma wa_more: "when_all_step vs a b \<Longrightarrow> (when_all_step vs)\<^sup>*\<^sup>* b c \<Longrightarrow> (when_all_step vs)\<^sup>*\<^sup>* a c"
  by (rule converse_rtranclp_into_rtranclp)

definition one_child_done :: when_all_ctx where
  "one_child_done = \<lparr>remaining = 0, parent_set = True, results = [10], children = [C_Done],
     parent_at = P_Resumed, null_resume = False\<rparr>"

lemma one_child_run: "(when_all_step [Some 10])\<^sup>*\<^sup>* (when_all_init 1) one_child_done"
proof -
  let ?c = "\<lambda>r p xs ch a. \<lparr>remaining = r, parent_set = p, results = xs, children = [ch], parent_at = a, null_resume = False\<rparr>"
  have s1: "when_all_step [Some 10] (?c 1 False [0] C_Run P_Check) (?c 1 False [0] C_Run P_Store)"
    using parent_check [of "?c 1 False [0] C_Run P_Check"] by simp
  have s2: "when_all_step [Some 10] (?c 1 False [0] C_Run P_Store) (?c 1 True [0] C_Run P_Suspended)"
    using parent_store [of "?c 1 False [0] C_Run P_Store"] by simp
  have s3: "when_all_step [Some 10] (?c 1 True [0] C_Run P_Suspended) (?c 1 True [10] C_Out P_Suspended)"
    using child_out [of 0 "?c 1 True [0] C_Run P_Suspended" "[Some 10]" 10] by (simp add: child_to_def)
  have s4: "when_all_step [Some 10] (?c 1 True [10] C_Out P_Suspended) (?c 0 True [10] C_Last P_Suspended)"
    using child_notify [of 0 "?c 1 True [10] C_Out P_Suspended" "[Some 10]"] by (simp add: child_to_def)
  have s5: "when_all_step [Some 10] (?c 0 True [10] C_Last P_Suspended) one_child_done"
    using child_resumes [of 0 "?c 0 True [10] C_Last P_Suspended" "[Some 10]"]
    by (simp add: child_to_def one_child_done_def)
  show ?thesis
    using wa_more [OF s1 wa_more [OF s2 wa_more [OF s3 wa_more [OF s4 wa_one [OF s5]]]]]
    by (simp add: when_all_init_def)
qed


text \<open>
  Two flaws of the protocol.  A child that finishes before the parent has stored its
  handle resumes the null handle; and a child that throws never notifies, after which the
  parent is suspended and nothing can move.
\<close>

theorem when_all_flaws:
  "(\<exists>c. (when_all_step [Some 10])\<^sup>*\<^sup>* (when_all_init 1) c \<and> null_resume c)
   \<and> (\<exists>c. (when_all_step [None])\<^sup>*\<^sup>* (when_all_init 1) c \<and> parent_at c = P_Suspended \<and> \<not> null_resume c
        \<and> (\<forall>c'. \<not> when_all_step [None] c c'))"
proof
  let ?c = "\<lambda>r xs ch n. \<lparr>remaining = r, parent_set = False, results = xs, children = [ch], parent_at = P_Check, null_resume = n\<rparr>"
  have s1: "when_all_step [Some 10] (?c 1 [0] C_Run False) (?c 1 [10] C_Out False)"
    using child_out [of 0 "?c 1 [0] C_Run False" "[Some 10]" 10] by (simp add: child_to_def)
  have s2: "when_all_step [Some 10] (?c 1 [10] C_Out False) (?c 0 [10] C_Last False)"
    using child_notify [of 0 "?c 1 [10] C_Out False" "[Some 10]"] by (simp add: child_to_def)
  have s3: "when_all_step [Some 10] (?c 0 [10] C_Last False) (?c 0 [10] C_Done True)"
    using child_null [of 0 "?c 0 [10] C_Last False" "[Some 10]"] by (simp add: child_to_def)
  have "(when_all_step [Some 10])\<^sup>*\<^sup>* (when_all_init 1) (?c 0 [10] C_Done True)"
    using wa_more [OF s1 wa_more [OF s2 wa_one [OF s3]]]
    by (simp add: when_all_init_def)
  then show "\<exists>c. (when_all_step [Some 10])\<^sup>*\<^sup>* (when_all_init 1) c \<and> null_resume c" by fastforce
next
  let ?c = "\<lambda>p ch a. \<lparr>remaining = 1, parent_set = p, results = [0], children = [ch], parent_at = a, null_resume = False\<rparr>"
  have s1: "when_all_step [None] (?c False C_Run P_Check) (?c False C_Threw P_Check)"
    using child_throws [of 0 "?c False C_Run P_Check" "[None]"] by (simp add: child_to_def)
  have s2: "when_all_step [None] (?c False C_Threw P_Check) (?c False C_Threw P_Store)"
    using parent_check [of "?c False C_Threw P_Check"] by simp
  have s3: "when_all_step [None] (?c False C_Threw P_Store) (?c True C_Threw P_Suspended)"
    using parent_store [of "?c False C_Threw P_Store"] by simp
  have "(when_all_step [None])\<^sup>*\<^sup>* (when_all_init 1) (?c True C_Threw P_Suspended)"
    using wa_more [OF s1 wa_more [OF s2 wa_one [OF s3]]]
    by (simp add: when_all_init_def)
  moreover have "\<not> when_all_step [None] (?c True C_Threw P_Suspended) c'" for c'
    by (auto elim: when_all_stepE)
  ultimately show "\<exists>c. (when_all_step [None])\<^sup>*\<^sup>* (when_all_init 1) c \<and> parent_at c = P_Suspended \<and> \<not> null_resume c
        \<and> (\<forall>c'. \<not> when_all_step [None] c c')" by fastforce
qed

end
