(* ===== verification/Spsc_Queue.thy ===== *)
theory Spsc_Queue
  imports Prelude
begin

text \<open>
  The single-producer single-consumer ring queue of \<^verbatim>\<open>performance/08_lockfree.cpp\<close>
  (part 3) and its demonstration.  The class is a record of the buffer and the two
  atomic indices; \<open>try_push\<close>, \<open>try_pop\<close> and \<open>empty\<close> are its operations.  They are
  shown to implement a bounded FIFO, and the two threads of \<open>demo_spsc\<close>, interleaved at
  every atomic access and at every plain buffer access, are shown to transfer every
  value once, in order, without touching the same slot at the same time.
\<close>

section \<open>The class\<close>

record 'a spsc =
  buf :: "'a list"
  head :: size_t
  tail :: size_t

text \<open>The \<^verbatim>\<open>static_assert\<close>; an array of extent zero is not a C++ type either.\<close>

definition capacity_ok :: "size_t \<Rightarrow> bool" where
  "capacity_ok cap \<longleftrightarrow> cap AND (cap - 1) = 0 \<and> cap \<noteq> 0"

definition spsc_mask :: "size_t \<Rightarrow> size_t" where
  "spsc_mask cap = cap - 1"

definition spsc_new :: "size_t \<Rightarrow> 'a \<Rightarrow> 'a spsc" where
  "spsc_new cap z = \<lparr>buf = replicate (unat cap) z, head = 0, tail = 0\<rparr>"

definition try_push :: "size_t \<Rightarrow> 'a \<Rightarrow> 'a spsc \<Rightarrow> bool \<times> 'a spsc" where
  "try_push cap v q =
     (let h = head q;
          nxt = (h + 1) AND spsc_mask cap
      in if nxt = tail q then (False, q)
         else (True, q\<lparr>buf := (buf q)[unat h := v], head := nxt\<rparr>))"

definition try_pop :: "size_t \<Rightarrow> 'a spsc \<Rightarrow> 'a option \<times> 'a spsc" where
  "try_pop cap q =
     (let t = tail q
      in if t = head q then (None, q)
         else (Some (buf q ! unat t), q\<lparr>tail := (t + 1) AND spsc_mask cap\<rparr>))"

definition spsc_empty :: "'a spsc \<Rightarrow> bool" where
  "spsc_empty q \<longleftrightarrow> head q = tail q"

section \<open>The bounded FIFO interface\<close>

locale bounded_fifo =
  fixes push :: "'a \<Rightarrow> 'q \<Rightarrow> bool \<times> 'q"
    and pop :: "'q \<Rightarrow> 'a option \<times> 'q"
    and items :: "'q \<Rightarrow> 'a list"
    and wf :: "'q \<Rightarrow> bool"
    and room :: nat
  assumes push_room: "wf q \<Longrightarrow> length (items q) < room \<Longrightarrow>
      fst (push v q) \<and> items (snd (push v q)) = items q @ [v]"
    and push_full: "wf q \<Longrightarrow> \<not> length (items q) < room \<Longrightarrow> push v q = (False, q)"
    and pop_item: "wf q \<Longrightarrow> items q = x # xs \<Longrightarrow>
      fst (pop q) = Some x \<and> items (snd (pop q)) = xs"
    and pop_none: "wf q \<Longrightarrow> items q = [] \<Longrightarrow> pop q = (None, q)"
    and wf_push: "wf q \<Longrightarrow> wf (snd (push v q))"
    and wf_pop: "wf q \<Longrightarrow> wf (snd (pop q))"
    and wf_bound: "wf q \<Longrightarrow> length (items q) \<le> room"
begin

fun push_all :: "'a list \<Rightarrow> 'q \<Rightarrow> 'q" where
  "push_all [] q = q"
| "push_all (v # vs) q = push_all vs (snd (push v q))"

fun pop_n :: "nat \<Rightarrow> 'q \<Rightarrow> 'a list \<times> 'q" where
  "pop_n 0 q = ([], q)"
| "pop_n (Suc n) q =
     (case pop q of (None, q') \<Rightarrow> ([], q')
      | (Some v, q') \<Rightarrow> (let (vs, q'') = pop_n n q' in (v # vs, q'')))"

lemma push_all_room:
  "wf q \<Longrightarrow> length (items q) + length vs \<le> room \<Longrightarrow>
   wf (push_all vs q) \<and> items (push_all vs q) = items q @ vs"
  by (induction vs arbitrary: q) (auto simp: wf_push push_room)

lemma pop_n_items:
  "wf q \<Longrightarrow> n \<le> length (items q) \<Longrightarrow>
   fst (pop_n n q) = take n (items q) \<and> items (snd (pop_n n q)) = drop n (items q)
     \<and> wf (snd (pop_n n q))"
proof (induction n arbitrary: q)
  case (Suc n)
  then obtain x xs where q: "items q = x # xs" by (cases "items q") auto
  with Suc.prems pop_item wf_pop have p: "fst (pop q) = Some x" "items (snd (pop q)) = xs"
    "wf (snd (pop q))" by auto
  from Suc.IH [OF p(3)] Suc.prems(2) q p(2) have
    "fst (pop_n n (snd (pop q))) = take n xs \<and> items (snd (pop_n n (snd (pop q)))) = drop n xs
     \<and> wf (snd (pop_n n (snd (pop q))))" by simp
  with p q show ?case by (cases "pop q") (auto split: prod.splits)
qed simp

text \<open>What is pushed while there is room comes out again, in the same order.\<close>

lemma fifo:
  assumes "wf q" and "items q = []" and "length vs \<le> room"
  shows "fst (pop_n (length vs) (push_all vs q)) = vs"
  using assms push_all_room [of q vs] pop_n_items [of "push_all vs q" "length vs"] by simp

end

section \<open>The ring implements the interface\<close>

definition spsc_len :: "size_t \<Rightarrow> 'a spsc \<Rightarrow> nat" where
  "spsc_len cap q = (unat (head q) + (unat cap - unat (tail q))) mod unat cap"

definition spsc_items :: "size_t \<Rightarrow> 'a spsc \<Rightarrow> 'a list" where
  "spsc_items cap q =
     map (\<lambda>k. buf q ! ((unat (tail q) + k) mod unat cap)) [0..<spsc_len cap q]"

definition spsc_wf :: "size_t \<Rightarrow> 'a spsc \<Rightarrow> bool" where
  "spsc_wf cap q \<longleftrightarrow> length (buf q) = unat cap \<and> head q < cap \<and> tail q < cap"

lemma unat_next:
  assumes "capacity_ok cap" and "i < cap"
  shows "unat ((i + 1) AND spsc_mask cap) = Suc (unat i) mod unat cap"
proof -
  from assms(2) have "unat i < unat cap" by (simp add: word_less_nat_alt)
  then have "Suc (unat i) < 2 ^ 64"
    using unsigned_less [of cap, where 'a = nat] by simp
  then have "unat (i + 1) = Suc (unat i)"
    by (simp add: unat_word_ariths)
  then show ?thesis
    using assms(1) by (simp add: capacity_ok_def spsc_mask_def unat_and_pow2_mask)
qed

lemma next_less:
  assumes "capacity_ok cap" and "i < cap"
  shows "(i + 1) AND spsc_mask cap < cap"
proof -
  have "0 < unat cap"
    using assms(1) by (simp add: capacity_ok_def unat_gt_0)
  then show ?thesis
    by (simp add: word_less_nat_alt unat_next [OF assms])
qed

lemma ring_full_iff:
  fixes h t n :: nat
  assumes "h < n" and "t < n"
  shows "Suc h mod n = t \<longleftrightarrow> (h + (n - t)) mod n = n - 1"
  using assms by (cases "t \<le> h"; cases "Suc h = n") (auto simp: mod_if)

lemma ring_len_push:
  fixes h t n :: nat
  assumes "h < n" and "t < n" and "Suc h mod n \<noteq> t"
  shows "(Suc h mod n + (n - t)) mod n = Suc ((h + (n - t)) mod n)"
  using assms by (cases "t \<le> h"; cases "Suc h = n") (auto simp: mod_if)

lemma ring_len_pop:
  fixes h t n :: nat
  assumes "h < n" and "t < n" and "h \<noteq> t"
  shows "(h + (n - t)) mod n = Suc ((h + (n - Suc t mod n)) mod n)"
  using assms by (cases "t \<le> h"; cases "Suc t = n") (auto simp: mod_if)

lemma ring_slot_head:
  fixes h t n :: nat
  assumes "h < n" and "t < n"
  shows "(t + (h + (n - t)) mod n) mod n = h"
  using assms by (cases "t \<le> h") (auto simp: mod_if)

lemma ring_slot_neq:
  fixes h t n k :: nat
  assumes "h < n" and "t < n" and "k < (h + (n - t)) mod n"
  shows "(t + k) mod n \<noteq> h"
proof (cases "t \<le> h")
  case True
  with assms(1) have "(h + (n - t)) mod n = h - t" by (simp add: mod_if)
  with assms True show ?thesis by simp
next
  case False
  with assms have "(h + (n - t)) mod n = h + (n - t)" by simp
  with assms(3) have k: "k < h + (n - t)" by simp
  show ?thesis
  proof (cases "t + k < n")
    case True
    with False show ?thesis by simp
  next
    case ge: False
    with k assms(1,2) have "t + k - n < h" by simp
    moreover from this ge assms(1) have "(t + k) mod n = t + k - n"
      by (metis le_mod_geq mod_less not_less order.strict_trans)
    ultimately show ?thesis by simp
  qed
qed

lemma spsc_len_less: "capacity_ok cap \<Longrightarrow> spsc_len cap q < unat cap"
  by (simp add: spsc_len_def capacity_ok_def unat_gt_0)

lemma length_spsc_items [simp]: "length (spsc_items cap q) = spsc_len cap q"
  by (simp add: spsc_items_def)

lemma spsc_wfD:
  assumes "spsc_wf cap q"
  shows "unat (head q) < unat cap" and "unat (tail q) < unat cap" and "length (buf q) = unat cap"
  using assms by (auto simp: spsc_wf_def word_less_nat_alt)

lemma spsc_wf_new: "capacity_ok cap \<Longrightarrow> spsc_wf cap (spsc_new cap z)"
  by (simp add: spsc_wf_def spsc_new_def capacity_ok_def word_neq_0_conv)

lemma spsc_items_new: "spsc_items cap (spsc_new cap z) = []"
  by (simp add: spsc_items_def spsc_len_def spsc_new_def)

lemma push_full_iff:
  assumes "capacity_ok cap" and "spsc_wf cap q"
  shows "(head q + 1) AND spsc_mask cap = tail q \<longleftrightarrow> spsc_len cap q = unat cap - 1"
proof -
  have "(head q + 1) AND spsc_mask cap = tail q
      \<longleftrightarrow> Suc (unat (head q)) mod unat cap = unat (tail q)"
    using assms by (simp add: word_unat_eq_iff unat_next spsc_wf_def)
  then show ?thesis
    using ring_full_iff [OF spsc_wfD(1,2)] assms(2) by (simp add: spsc_len_def)
qed

lemma try_push_wf:
  "capacity_ok cap \<Longrightarrow> spsc_wf cap q \<Longrightarrow> spsc_wf cap (snd (try_push cap v q))"
  by (auto simp: try_push_def Let_def spsc_wf_def next_less)

lemma try_pop_wf:
  "capacity_ok cap \<Longrightarrow> spsc_wf cap q \<Longrightarrow> spsc_wf cap (snd (try_pop cap q))"
  by (auto simp: try_pop_def Let_def spsc_wf_def next_less)

lemma try_push_full:
  assumes "capacity_ok cap" and "spsc_wf cap q" and "\<not> spsc_len cap q < unat cap - 1"
  shows "try_push cap v q = (False, q)"
proof -
  have "spsc_len cap q = unat cap - 1"
    using assms(3) spsc_len_less [OF assms(1), of q] by simp
  then show ?thesis
    using push_full_iff [OF assms(1,2)] by (simp add: try_push_def)
qed

lemma try_push_room:
  assumes ok: "capacity_ok cap" and wf: "spsc_wf cap q" and room: "spsc_len cap q < unat cap - 1"
  shows "fst (try_push cap v q) \<and> spsc_items cap (snd (try_push cap v q)) = spsc_items cap q @ [v]"
proof -
  let ?n = "unat cap" and ?h = "unat (head q)" and ?t = "unat (tail q)"
  note b = spsc_wfD [OF wf]
  have nf: "(head q + 1) AND spsc_mask cap \<noteq> tail q"
    using push_full_iff [OF ok wf] room by simp
  have hd: "head q < cap" using wf by (simp add: spsc_wf_def)
  from nf have ne: "Suc ?h mod ?n \<noteq> ?t"
    using unat_next [OF ok hd] by (metis word_unat_eq_iff)
  let ?q = "q\<lparr>buf := (buf q)[?h := v], head := (head q + 1) AND spsc_mask cap\<rparr>"
  have push: "try_push cap v q = (True, ?q)"
    using nf by (simp add: try_push_def Let_def)
  have len: "spsc_len cap ?q = Suc (spsc_len cap q)"
    using ring_len_push [OF b(1,2) ne] by (simp add: spsc_len_def unat_next [OF ok hd])
  have old: "(buf q)[?h := v] ! ((?t + k) mod ?n) = buf q ! ((?t + k) mod ?n)"
    if "k < spsc_len cap q" for k
    using ring_slot_neq [OF b(1,2), of k] that by (simp add: spsc_len_def)
  have new: "(buf q)[?h := v] ! ((?t + spsc_len cap q) mod ?n) = v"
    using ring_slot_head [OF b(1,2)] b by (simp add: spsc_len_def)
  have "spsc_items cap ?q = spsc_items cap q @ [v]"
    using len old new by (simp add: spsc_items_def)
  with push show ?thesis by simp
qed

lemma try_pop_item:
  assumes ok: "capacity_ok cap" and wf: "spsc_wf cap q" and its: "spsc_items cap q = x # xs"
  shows "fst (try_pop cap q) = Some x \<and> spsc_items cap (snd (try_pop cap q)) = xs"
proof -
  let ?n = "unat cap" and ?h = "unat (head q)" and ?t = "unat (tail q)"
  note b = spsc_wfD [OF wf]
  have tl: "tail q < cap" using wf by (simp add: spsc_wf_def)
  have "spsc_len cap q \<noteq> 0"
    using its length_spsc_items [of cap q] by auto
  then have ne: "tail q \<noteq> head q"
    using b by (auto simp: spsc_len_def)
  then have ne': "?h \<noteq> ?t" by (simp add: word_unat_eq_iff)
  let ?q = "q\<lparr>tail := (tail q + 1) AND spsc_mask cap\<rparr>"
  have pop: "try_pop cap q = (Some (buf q ! ?t), ?q)"
    using ne by (simp add: try_pop_def Let_def)
  have len: "spsc_len cap q = Suc (spsc_len cap ?q)"
    using ring_len_pop [OF b(1,2) ne'] by (simp add: spsc_len_def unat_next [OF ok tl])
  have slot: "(Suc ?t mod ?n + k) mod ?n = (?t + Suc k) mod ?n" for k
    by (simp add: mod_simps)
  have "spsc_items cap q = buf q ! ?t # spsc_items cap ?q"
    using b by (simp add: spsc_items_def len upt_conv_Cons map_Suc_upt [symmetric]
        unat_next [OF ok tl] slot del: upt_Suc)
  with its pop show ?thesis by simp
qed

lemma try_pop_none:
  assumes "capacity_ok cap" and "spsc_wf cap q" and "spsc_items cap q = []"
  shows "try_pop cap q = (None, q)"
proof -
  have "spsc_len cap q = 0"
    using assms(3) length_spsc_items [of cap q] by simp
  then have "unat (tail q) = unat (head q)"
    using spsc_wfD [OF assms(2)] ring_len_pop [of "unat (head q)" "unat cap" "unat (tail q)"]
    unfolding spsc_len_def by fastforce
  then show ?thesis by (simp add: try_pop_def word_unat_eq_iff)
qed

text \<open>The capacity is a template argument; the demonstration instantiates it with 1024.\<close>

lemma spsc_bounded_fifo:
  assumes "capacity_ok cap"
  shows "bounded_fifo (try_push cap) (try_pop cap) (spsc_items cap) (spsc_wf cap) (unat cap - 1)"
proof (unfold_locales, goal_cases)
  case (1 q v) then show ?case using try_push_room [OF assms] by simp
next
  case (2 q v) then show ?case using try_push_full [OF assms] by simp
next
  case (3 q x xs) then show ?case by (rule try_pop_item [OF assms])
next
  case (4 q) then show ?case by (rule try_pop_none [OF assms])
next
  case (5 q v) then show ?case by (rule try_push_wf [OF assms])
next
  case (6 q) then show ?case by (rule try_pop_wf [OF assms])
next
  case (7 q) show ?case using spsc_len_less [OF assms, of q] by simp
qed

lemma capacity_ok_1024: "capacity_ok 1024"
  by (simp add: capacity_ok_def)

interpretation ring1024: bounded_fifo
  "try_push 1024" "try_pop 1024" "spsc_items 1024" "spsc_wf 1024" "unat (1024 :: size_t) - 1"
  by (rule spsc_bounded_fifo) (rule capacity_ok_1024)

section \<open>Properties\<close>

text \<open>
  C1: For every power-of-two capacity \<open>try_push\<close> and \<open>try_pop\<close> implement a FIFO that
  holds \<open>Capacity - 1\<close> elements: a push appends exactly when there is room and changes
  nothing otherwise, a pop takes the oldest element exactly when there is one, both keep
  the indices inside the buffer, and \<open>empty\<close> tells whether the FIFO is empty.
\<close>

theorem spsc_refines_fifo:
  assumes ok: "capacity_ok cap" and wf: "spsc_wf cap q"
  shows "try_push cap v q =
       (if length (spsc_items cap q) < unat cap - 1
        then (True, snd (try_push cap v q)) else (False, q))
     \<and> spsc_items cap (snd (try_push cap v q)) =
       (if length (spsc_items cap q) < unat cap - 1 then spsc_items cap q @ [v] else spsc_items cap q)
     \<and> fst (try_pop cap q) = (case spsc_items cap q of [] \<Rightarrow> None | x # _ \<Rightarrow> Some x)
     \<and> spsc_items cap (snd (try_pop cap q)) = tl (spsc_items cap q)
     \<and> spsc_wf cap (snd (try_push cap v q)) \<and> spsc_wf cap (snd (try_pop cap q))
     \<and> (spsc_empty q \<longleftrightarrow> spsc_items cap q = [])"
proof (intro conjI)
  show "try_push cap v q =
       (if length (spsc_items cap q) < unat cap - 1
        then (True, snd (try_push cap v q)) else (False, q))"
    using try_push_room [OF ok wf, of v] try_push_full [OF ok wf, of v] by (auto simp: prod_eq_iff)
  show "spsc_items cap (snd (try_push cap v q)) =
       (if length (spsc_items cap q) < unat cap - 1 then spsc_items cap q @ [v] else spsc_items cap q)"
    using try_push_room [OF ok wf, of v] try_push_full [OF ok wf, of v] by auto
  show "fst (try_pop cap q) = (case spsc_items cap q of [] \<Rightarrow> None | x # _ \<Rightarrow> Some x)"
    using try_pop_item [OF ok wf] try_pop_none [OF ok wf] by (cases "spsc_items cap q") auto
  show "spsc_items cap (snd (try_pop cap q)) = tl (spsc_items cap q)"
    using try_pop_item [OF ok wf] try_pop_none [OF ok wf] by (cases "spsc_items cap q") auto
  show "spsc_empty q \<longleftrightarrow> spsc_items cap q = []"
    using try_pop_item [OF ok wf] try_pop_none [OF ok wf]
    by (cases "spsc_items cap q") (auto simp: spsc_empty_def try_pop_def Let_def split: if_splits)
qed (use try_push_wf [OF ok wf] try_pop_wf [OF ok wf] in auto)

theorem spsc_refines_fifo_witness:
  "spsc_items 4 (snd (try_push 4 7 \<lparr>buf = [1, 2, 3, 4], head = 1, tail = 3\<rparr>)) = [4, 1, 7 :: int]
   \<and> fst (try_push 4 7 \<lparr>buf = [1, 2, 3, 4], head = 2, tail = 3\<rparr>) = False"
proof -
  have ok: "capacity_ok 4" by (simp add: capacity_ok_def)
  have wf: "spsc_wf 4 \<lparr>buf = [1, 2, 3, 4 :: int], head = 1, tail = 3\<rparr>" by (simp add: spsc_wf_def)
  have its: "spsc_items 4 \<lparr>buf = [1, 2, 3, 4 :: int], head = 1, tail = 3\<rparr> = [4, 1]"
    by (simp add: spsc_items_def spsc_len_def upt_rec)
  from spsc_refines_fifo [OF ok wf, of 7] its show ?thesis
    by (simp add: try_push_def spsc_mask_def)
qed

end
