(* ===== verification/Spsc_Demo.thy ===== *)
theory Spsc_Demo
  imports Spsc_Queue
begin

text \<open>
  \<open>demo_spsc\<close> of \<^verbatim>\<open>performance/08_lockfree.cpp\<close>: a producer thread that pushes
  \<open>0, \<dots>, N - 1\<close> with a spin loop around \<open>try_push\<close> and a consumer thread that sums what
  it pops.  Every atomic load, every atomic store and every plain access to the buffer is
  a step of its own; the steps of the two threads interleave in any order.  Each index is
  written by one thread only and published by a release store that the other thread reads
  with an acquire load, so the interleavings are those of sequential consistency.
\<close>

section \<open>The two threads\<close>

datatype producer_pc =
    PTop
  | PLoaded size_t
  | PChecked size_t size_t
  | PWritten size_t

datatype consumer_pc =
    CTop
  | CLoaded size_t
  | CChecked size_t
  | CRead size_t int

record demo_sys =
  ring :: "int spsc"
  p_i :: nat
  p_pc :: producer_pc
  c_received :: nat
  c_sum :: int
  c_pc :: consumer_pc

definition demo_init :: "size_t \<Rightarrow> demo_sys" where
  "demo_init cap =
     \<lparr>ring = spsc_new cap 0, p_i = 0, p_pc = PTop, c_received = 0, c_sum = 0, c_pc = CTop\<rparr>"

inductive producer_step :: "size_t \<Rightarrow> nat \<Rightarrow> demo_sys \<Rightarrow> demo_sys \<Rightarrow> bool"
  for cap :: size_t and n :: nat where
  p_load: "p_pc s = PTop \<Longrightarrow> p_i s < n \<Longrightarrow>
     producer_step cap n s (s\<lparr>p_pc := PLoaded (head (ring s))\<rparr>)"
| p_full: "p_pc s = PLoaded h \<Longrightarrow> (h + 1) AND spsc_mask cap = tail (ring s) \<Longrightarrow>
     producer_step cap n s (s\<lparr>p_pc := PTop\<rparr>)"
| p_room: "p_pc s = PLoaded h \<Longrightarrow> (h + 1) AND spsc_mask cap \<noteq> tail (ring s) \<Longrightarrow>
     producer_step cap n s (s\<lparr>p_pc := PChecked h ((h + 1) AND spsc_mask cap)\<rparr>)"
| p_write: "p_pc s = PChecked h nxt \<Longrightarrow>
     producer_step cap n s
       (s\<lparr>ring := (ring s)\<lparr>buf := (buf (ring s))[unat h := int (p_i s)]\<rparr>, p_pc := PWritten nxt\<rparr>)"
| p_store: "p_pc s = PWritten nxt \<Longrightarrow>
     producer_step cap n s
       (s\<lparr>ring := (ring s)\<lparr>head := nxt\<rparr>, p_i := Suc (p_i s), p_pc := PTop\<rparr>)"

inductive consumer_step :: "size_t \<Rightarrow> nat \<Rightarrow> demo_sys \<Rightarrow> demo_sys \<Rightarrow> bool"
  for cap :: size_t and n :: nat where
  c_load: "c_pc s = CTop \<Longrightarrow> c_received s < n \<Longrightarrow>
     consumer_step cap n s (s\<lparr>c_pc := CLoaded (tail (ring s))\<rparr>)"
| c_none: "c_pc s = CLoaded t \<Longrightarrow> t = head (ring s) \<Longrightarrow>
     consumer_step cap n s (s\<lparr>c_pc := CTop\<rparr>)"
| c_some: "c_pc s = CLoaded t \<Longrightarrow> t \<noteq> head (ring s) \<Longrightarrow>
     consumer_step cap n s (s\<lparr>c_pc := CChecked t\<rparr>)"
| c_read: "c_pc s = CChecked t \<Longrightarrow>
     consumer_step cap n s (s\<lparr>c_pc := CRead t (buf (ring s) ! unat t)\<rparr>)"
| c_store: "c_pc s = CRead t v \<Longrightarrow>
     consumer_step cap n s
       (s\<lparr>ring := (ring s)\<lparr>tail := (t + 1) AND spsc_mask cap\<rparr>,
          c_sum := c_sum s + v, c_received := Suc (c_received s), c_pc := CTop\<rparr>)"

definition demo_step :: "size_t \<Rightarrow> nat \<Rightarrow> demo_sys \<Rightarrow> demo_sys \<Rightarrow> bool" where
  "demo_step cap n s t \<longleftrightarrow> producer_step cap n s t \<or> consumer_step cap n s t"

text \<open>Both threads have left their loops.\<close>

definition demo_joined :: "nat \<Rightarrow> demo_sys \<Rightarrow> bool" where
  "demo_joined n s \<longleftrightarrow> p_i s = n \<and> p_pc s = PTop \<and> c_received s = n \<and> c_pc s = CTop"

section \<open>Execution under a schedule\<close>

text \<open>Each thread is deterministic; a schedule says which one moves (\<open>True\<close> the producer).\<close>

definition producer_next :: "size_t \<Rightarrow> nat \<Rightarrow> demo_sys \<Rightarrow> demo_sys option" where
  "producer_next cap n s =
     (case p_pc s of
        PTop \<Rightarrow> if p_i s < n then Some (s\<lparr>p_pc := PLoaded (head (ring s))\<rparr>) else None
      | PLoaded h \<Rightarrow>
          (let nxt = (h + 1) AND spsc_mask cap
           in if nxt = tail (ring s) then Some (s\<lparr>p_pc := PTop\<rparr>)
              else Some (s\<lparr>p_pc := PChecked h nxt\<rparr>))
      | PChecked h nxt \<Rightarrow>
          Some (s\<lparr>ring := (ring s)\<lparr>buf := (buf (ring s))[unat h := int (p_i s)]\<rparr>,
                  p_pc := PWritten nxt\<rparr>)
      | PWritten nxt \<Rightarrow>
          Some (s\<lparr>ring := (ring s)\<lparr>head := nxt\<rparr>, p_i := Suc (p_i s), p_pc := PTop\<rparr>))"

definition consumer_next :: "size_t \<Rightarrow> nat \<Rightarrow> demo_sys \<Rightarrow> demo_sys option" where
  "consumer_next cap n s =
     (case c_pc s of
        CTop \<Rightarrow> if c_received s < n then Some (s\<lparr>c_pc := CLoaded (tail (ring s))\<rparr>) else None
      | CLoaded t \<Rightarrow>
          if t = head (ring s) then Some (s\<lparr>c_pc := CTop\<rparr>) else Some (s\<lparr>c_pc := CChecked t\<rparr>)
      | CChecked t \<Rightarrow> Some (s\<lparr>c_pc := CRead t (buf (ring s) ! unat t)\<rparr>)
      | CRead t v \<Rightarrow>
          Some (s\<lparr>ring := (ring s)\<lparr>tail := (t + 1) AND spsc_mask cap\<rparr>,
                  c_sum := c_sum s + v, c_received := Suc (c_received s), c_pc := CTop\<rparr>))"

lemma producer_step_iff: "producer_step cap n s t \<longleftrightarrow> producer_next cap n s = Some t"
  by (auto simp: producer_next_def Let_def producer_step.simps
      split: producer_pc.splits if_splits)

lemma consumer_step_iff: "consumer_step cap n s t \<longleftrightarrow> consumer_next cap n s = Some t"
  by (auto simp: consumer_next_def consumer_step.simps split: consumer_pc.splits if_splits)

fun demo_run :: "size_t \<Rightarrow> nat \<Rightarrow> bool list \<Rightarrow> demo_sys \<Rightarrow> demo_sys option" where
  "demo_run cap n [] s = Some s"
| "demo_run cap n (b # bs) s =
     (case (if b then producer_next cap n s else consumer_next cap n s) of
        None \<Rightarrow> None | Some t \<Rightarrow> demo_run cap n bs t)"

lemma demo_run_steps: "demo_run cap n bs s = Some t \<Longrightarrow> (demo_step cap n)\<^sup>*\<^sup>* s t"
proof (induction bs arbitrary: s)
  case (Cons b bs)
  then obtain u where "demo_step cap n s u" and "demo_run cap n bs u = Some t"
    by (auto simp: demo_step_def producer_step_iff consumer_step_iff
        split: if_splits option.splits)
  with Cons.IH show ?case by (meson converse_rtranclp_into_rtranclp)
qed simp

section \<open>The invariant\<close>

text \<open>
  The indices are the unbounded counters \<open>p_i\<close> and \<open>c_received\<close> modulo the capacity, and
  the slots between them hold the values that are in flight.
\<close>

definition ring_inv :: "size_t \<Rightarrow> nat \<Rightarrow> demo_sys \<Rightarrow> bool" where
  "ring_inv cap n s \<longleftrightarrow>
     length (buf (ring s)) = unat cap
     \<and> unat (head (ring s)) = p_i s mod unat cap
     \<and> unat (tail (ring s)) = c_received s mod unat cap
     \<and> c_received s \<le> p_i s \<and> p_i s \<le> n \<and> p_i s < c_received s + unat cap
     \<and> (\<forall>k. c_received s \<le> k \<and> k < p_i s \<longrightarrow> buf (ring s) ! (k mod unat cap) = int k)
     \<and> c_sum s = (\<Sum>k = 0..<c_received s. int k)"

definition p_inv :: "size_t \<Rightarrow> nat \<Rightarrow> demo_sys \<Rightarrow> bool" where
  "p_inv cap n s \<longleftrightarrow>
     (case p_pc s of
        PTop \<Rightarrow> True
      | PLoaded h \<Rightarrow> h = head (ring s) \<and> p_i s < n
      | PChecked h nxt \<Rightarrow> h = head (ring s) \<and> nxt = (h + 1) AND spsc_mask cap \<and> p_i s < n
          \<and> Suc (p_i s) < c_received s + unat cap
      | PWritten nxt \<Rightarrow> nxt = (head (ring s) + 1) AND spsc_mask cap \<and> p_i s < n
          \<and> Suc (p_i s) < c_received s + unat cap
          \<and> buf (ring s) ! (p_i s mod unat cap) = int (p_i s))"

definition c_inv :: "nat \<Rightarrow> demo_sys \<Rightarrow> bool" where
  "c_inv n s \<longleftrightarrow>
     (case c_pc s of
        CTop \<Rightarrow> True
      | CLoaded t \<Rightarrow> t = tail (ring s) \<and> c_received s < n
      | CChecked t \<Rightarrow> t = tail (ring s) \<and> c_received s < p_i s
      | CRead t v \<Rightarrow> t = tail (ring s) \<and> c_received s < p_i s \<and> v = int (c_received s))"

definition demo_inv :: "size_t \<Rightarrow> nat \<Rightarrow> demo_sys \<Rightarrow> bool" where
  "demo_inv cap n s \<longleftrightarrow> ring_inv cap n s \<and> p_inv cap n s \<and> c_inv n s"

lemmas demo_inv_defs = demo_inv_def ring_inv_def p_inv_def c_inv_def

lemma demo_init_inv: "capacity_ok cap \<Longrightarrow> demo_inv cap n (demo_init cap)"
  by (simp add: demo_inv_defs demo_init_def spsc_new_def capacity_ok_def unat_gt_0)

lemma next_mod:
  assumes "capacity_ok cap" and "unat x = a mod unat cap"
  shows "unat ((x + 1) AND spsc_mask cap) = Suc a mod unat cap"
proof -
  have "0 < unat cap" using assms(1) by (simp add: capacity_ok_def unat_gt_0)
  then have "x < cap" using assms(2) by (simp add: word_less_nat_alt)
  then show ?thesis using unat_next [OF assms(1)] assms(2) by (simp add: mod_Suc_eq)
qed

lemma room_iff:
  assumes "capacity_ok cap" and "ring_inv cap n s"
  shows "(head (ring s) + 1) AND spsc_mask cap = tail (ring s)
     \<longleftrightarrow> Suc (p_i s) = c_received s + unat cap"
proof -
  from assms have h: "unat ((head (ring s) + 1) AND spsc_mask cap) = Suc (p_i s) mod unat cap"
    by (intro next_mod) (auto simp: ring_inv_def)
  have t: "unat (tail (ring s)) = c_received s mod unat cap"
    and le: "c_received s \<le> p_i s" and lt: "p_i s < c_received s + unat cap"
    using assms(2) by (auto simp: ring_inv_def)
  have "Suc (p_i s) mod unat cap = c_received s mod unat cap
      \<longleftrightarrow> Suc (p_i s) = c_received s + unat cap"
  proof (cases "Suc (p_i s) = c_received s + unat cap")
    case False
    with lt le have "Suc (p_i s) - c_received s < unat cap" by linarith
    with le False mod_eq_close [of "c_received s" "Suc (p_i s)" "unat cap"] show ?thesis by auto
  qed simp
  then show ?thesis by (simp add: word_unat_eq_iff h t)
qed

lemma items_iff:
  assumes "ring_inv cap n s"
  shows "tail (ring s) = head (ring s) \<longleftrightarrow> c_received s = p_i s"
proof -
  from assms have "c_received s mod unat cap = p_i s mod unat cap \<longleftrightarrow> c_received s = p_i s"
    by (intro mod_eq_close) (auto simp: ring_inv_def)
  with assms show ?thesis by (simp add: word_unat_eq_iff ring_inv_def)
qed

lemma slot_other:
  fixes k i r n :: nat
  assumes "r \<le> k" and "k < i" and "i < r + n"
  shows "k mod n \<noteq> i mod n"
  using assms mod_eq_close [of k i n] by auto

lemma producer_step_inv:
  assumes ok: "capacity_ok cap" and inv: "demo_inv cap n s" and st: "producer_step cap n s t"
  shows "demo_inv cap n t"
  using st
proof cases
  case p_load
  then show ?thesis using inv by (simp add: demo_inv_defs split: consumer_pc.splits)
next
  case (p_full h)
  then show ?thesis using inv by (simp add: demo_inv_defs split: consumer_pc.splits)
next
  case (p_room h)
  have "Suc (p_i s) \<noteq> c_received s + unat cap"
    using room_iff [OF ok, of n s] inv p_room by (auto simp: demo_inv_def p_inv_def)
  then show ?thesis using inv p_room by (auto simp: demo_inv_defs split: consumer_pc.splits)
next
  case (p_write h nxt)
  have old: "(buf (ring s))[p_i s mod unat cap := v] ! (k mod unat cap) = int k"
    if "c_received s \<le> k" and "k < p_i s" for k v
    using that inv slot_other [of "c_received s" k "p_i s" "unat cap"]
    by (simp add: demo_inv_defs nth_update_neq_mod)
  have "0 < unat cap" using ok by (simp add: capacity_ok_def unat_gt_0)
  then show ?thesis
    using inv p_write old by (auto simp: demo_inv_defs split: consumer_pc.splits)
next
  case (p_store nxt)
  have nx: "unat nxt = Suc (p_i s) mod unat cap"
    using inv p_store(2) ok by (auto simp: demo_inv_defs intro!: next_mod)
  show ?thesis
    using inv p_store nx by (auto simp: demo_inv_defs less_Suc_eq split: consumer_pc.splits)
qed

lemma consumer_step_inv:
  assumes ok: "capacity_ok cap" and inv: "demo_inv cap n s" and st: "consumer_step cap n s t"
  shows "demo_inv cap n t"
  using st
proof cases
  case c_load
  then show ?thesis using inv by (simp add: demo_inv_defs split: producer_pc.splits)
next
  case (c_none t)
  then show ?thesis using inv by (auto simp: demo_inv_defs split: producer_pc.splits)
next
  case (c_some t)
  have "c_received s \<noteq> p_i s"
    using items_iff [of cap n s] inv c_some by (auto simp: demo_inv_def c_inv_def)
  then show ?thesis using inv c_some by (auto simp: demo_inv_defs split: producer_pc.splits)
next
  case (c_read t)
  then show ?thesis using inv by (auto simp: demo_inv_defs split: producer_pc.splits)
next
  case (c_store t v)
  have nx: "unat ((t + 1) AND spsc_mask cap) = Suc (c_received s) mod unat cap"
    using inv c_store(2) ok by (auto simp: demo_inv_defs intro!: next_mod)
  show ?thesis
    using inv c_store nx by (auto simp: demo_inv_defs split: producer_pc.splits)
qed

lemma demo_inv_system:
  assumes "capacity_ok cap"
  shows "inv_system (\<lambda>s. s = demo_init cap) (demo_step cap n) (demo_inv cap n)"
  by unfold_locales
    (auto simp: demo_step_def demo_init_inv assms
       intro: producer_step_inv [OF assms] consumer_step_inv [OF assms])

interpretation demo1024: inv_system
  "\<lambda>s. s = demo_init 1024" "demo_step 1024 n" "demo_inv 1024 n" for n
  by (rule demo_inv_system) (rule capacity_ok_1024)

lemma demo_reachable_inv:
  assumes "capacity_ok cap" and "(demo_step cap n)\<^sup>*\<^sup>* (demo_init cap) s"
  shows "demo_inv cap n s"
  using inv_system.reachable_inv [OF demo_inv_system [OF assms(1)] refl assms(2)] .

section \<open>Progress\<close>

text \<open>
  What is left to do: four steps per value and thread, less the steps already taken for
  the current value.  A spin that fails increases it, so progress means that some step
  decreases it.
\<close>

fun p_rank :: "producer_pc \<Rightarrow> nat" where
  "p_rank PTop = 0"
| "p_rank (PLoaded _) = 1"
| "p_rank (PChecked _ _) = 2"
| "p_rank (PWritten _) = 3"

fun c_rank :: "consumer_pc \<Rightarrow> nat" where
  "c_rank CTop = 0"
| "c_rank (CLoaded _) = 1"
| "c_rank (CChecked _) = 2"
| "c_rank (CRead _ _) = 3"

definition demo_left :: "nat \<Rightarrow> demo_sys \<Rightarrow> nat" where
  "demo_left n s =
     (4 * (n - p_i s) + 3 - p_rank (p_pc s)) + (4 * (n - c_received s) + 3 - c_rank (c_pc s))"

lemma consumer_advances:
  assumes inv: "demo_inv cap n s" and more: "c_received s < p_i s"
  shows "\<exists>t. demo_step cap n s t \<and> demo_left n t < demo_left n s"
proof (cases "c_pc s")
  case CTop
  with inv more c_load [of s n cap] show ?thesis
    by (intro exI conjI) (auto simp: demo_step_def demo_left_def demo_inv_defs)
next
  case (CLoaded t)
  with inv more items_iff [of cap n s] c_some [of s t cap n] show ?thesis
    by (intro exI conjI) (auto simp: demo_step_def demo_left_def demo_inv_def c_inv_def)
next
  case (CChecked t)
  with inv c_read [of s t cap n] show ?thesis
    by (intro exI conjI) (auto simp: demo_step_def demo_left_def)
next
  case (CRead t v)
  with inv more c_store [of s t v cap n] show ?thesis
    by (intro exI conjI) (auto simp: demo_step_def demo_left_def demo_inv_defs)
qed

lemma producer_advances:
  assumes ok: "capacity_ok cap" and two: "1 < unat cap" and inv: "demo_inv cap n s"
    and idle: "c_received s = p_i s" and more: "p_i s < n"
  shows "\<exists>t. demo_step cap n s t \<and> demo_left n t < demo_left n s"
proof (cases "p_pc s")
  case PTop
  with inv more p_load [of s n cap] show ?thesis
    by (intro exI conjI) (auto simp: demo_step_def demo_left_def)
next
  case (PLoaded h)
  with inv idle two room_iff [OF ok, of n s] p_room [of s h cap n] show ?thesis
    by (intro exI conjI) (auto simp: demo_step_def demo_left_def demo_inv_def p_inv_def)
next
  case (PChecked h nxt)
  with p_write [of s h nxt cap n] show ?thesis
    by (intro exI conjI) (auto simp: demo_step_def demo_left_def)
next
  case (PWritten nxt)
  with more p_store [of s nxt cap n] show ?thesis
    by (intro exI conjI) (auto simp: demo_step_def demo_left_def)
qed

lemma demo_advances:
  assumes ok: "capacity_ok cap" and two: "1 < unat cap" and inv: "demo_inv cap n s"
    and "\<not> demo_joined n s"
  shows "\<exists>t. demo_step cap n s t \<and> (demo_left n t < demo_left n s \<or> demo_joined n t)"
proof -
  consider "c_received s < p_i s" | "c_received s = p_i s" "p_i s < n" | "c_received s = n" "p_i s = n"
    using inv by (fastforce simp: demo_inv_defs)
  then show ?thesis
  proof cases
    case 3
    with inv have "p_pc s = PTop" and "c_pc s = CTop"
      by (auto simp: demo_inv_defs split: producer_pc.splits consumer_pc.splits)
    with 3 assms(4) show ?thesis by (simp add: demo_joined_def)
  qed (use consumer_advances [OF inv] producer_advances [OF ok two inv] in blast)+
qed

lemma demo_can_finish:
  assumes ok: "capacity_ok cap" and two: "1 < unat cap" and "demo_inv cap n s"
  shows "\<exists>t. (demo_step cap n)\<^sup>*\<^sup>* s t \<and> demo_joined n t"
  using assms(3)
proof (induction "demo_left n s" arbitrary: s rule: less_induct)
  case less
  show ?case
  proof (cases "demo_joined n s")
    case False
    then obtain t where st: "demo_step cap n s t"
      and t: "demo_left n t < demo_left n s \<or> demo_joined n t"
      using demo_advances [OF ok two less.prems] by blast
    from st less.prems have "demo_inv cap n t"
      by (auto simp: demo_step_def intro: producer_step_inv [OF ok] consumer_step_inv [OF ok])
    with less.hyps t have "\<exists>u. (demo_step cap n)\<^sup>*\<^sup>* t u \<and> demo_joined n u" by blast
    with st show ?thesis by (meson converse_rtranclp_into_rtranclp)
  qed blast
qed

section \<open>Properties\<close>

text \<open>
  C2: In every reachable state of \<open>demo_spsc\<close>, when the producer is about to write its
  slot and the consumer is about to read its slot, the two slots differ and both are
  inside the buffer: the plain accesses to \<^verbatim>\<open>buf_\<close> never race.
\<close>

theorem spsc_no_race:
  assumes "capacity_ok cap" and "(demo_step cap n)\<^sup>*\<^sup>* (demo_init cap) s"
    and "p_pc s = PChecked h nxt" and "c_pc s = CChecked t"
  shows "h \<noteq> t \<and> unat h < length (buf (ring s)) \<and> unat t < length (buf (ring s))"
proof -
  have inv: "demo_inv cap n s" using demo_reachable_inv assms(1,2) .
  have "0 < unat cap" using assms(1) by (simp add: capacity_ok_def unat_gt_0)
  moreover have "c_received s mod unat cap \<noteq> p_i s mod unat cap"
    using inv assms(4) slot_other [of "c_received s" "c_received s" "p_i s" "unat cap"]
    by (auto simp: demo_inv_defs)
  ultimately show ?thesis using inv assms(3,4) by (auto simp: demo_inv_defs word_unat_eq_iff)
qed

text \<open>
  Whatever the interleaving, when both threads have been joined the consumer has
  received every value exactly once: the sum is \<open>N (N - 1) / 2\<close>, the value the
  demonstration prints as expected.
\<close>

theorem spsc_sum:
  assumes "capacity_ok cap" and "(demo_step cap n)\<^sup>*\<^sup>* (demo_init cap) s" and "demo_joined n s"
  shows "2 * c_sum s = int n * (int n - 1)"
proof -
  have "demo_inv cap n s" using demo_reachable_inv assms(1,2) .
  then show ?thesis using assms(3) sum_list_upto [of n] by (simp add: demo_inv_defs demo_joined_def)
qed

text \<open>
  C3: \<open>demo_spsc\<close> can always finish: from every reachable state there is a continuation
  in which both threads leave their loops, provided the ring has at least two slots (a
  ring of one slot is always full and empty at once).
\<close>

theorem spsc_finishes:
  assumes "capacity_ok cap" and "1 < unat cap"
    and "(demo_step cap n)\<^sup>*\<^sup>* (demo_init cap) s"
  shows "\<exists>t. (demo_step cap n)\<^sup>*\<^sup>* s t \<and> demo_joined n t"
  using assms demo_can_finish demo_reachable_inv by blast

theorem spsc_finishes_witness:
  "\<exists>t. (demo_step 1024 100000)\<^sup>*\<^sup>* (demo_init 1024) t \<and> demo_joined 100000 t"
  using spsc_finishes [OF capacity_ok_1024, of 100000 "demo_init 1024"] by simp

theorem spsc_sum_witness:
  "\<exists>s. (demo_step 1024 100000)\<^sup>*\<^sup>* (demo_init 1024) s \<and> demo_joined 100000 s
     \<and> c_sum s = 4999950000"
proof -
  obtain s where s: "(demo_step 1024 100000)\<^sup>*\<^sup>* (demo_init 1024) s" "demo_joined 100000 s"
    using demo_can_finish [OF capacity_ok_1024, of 100000 "demo_init 1024"]
      demo_init_inv [OF capacity_ok_1024] by auto
  with spsc_sum [OF capacity_ok_1024 s] show ?thesis by (intro exI [of _ s]) simp
qed

theorem spsc_no_race_witness:
  "\<exists>s. (demo_step 4 3)\<^sup>*\<^sup>* (demo_init 4) s \<and> p_pc s = PChecked 1 2 \<and> c_pc s = CChecked 0
     \<and> (1 :: size_t) \<noteq> 0 \<and> unat (1 :: size_t) < length (buf (ring s))"
proof -
  define sched where "sched = [True, True, True, True, True, True, False, False]"
  obtain s where run: "demo_run 4 3 sched (demo_init 4) = Some s"
    and pcs: "p_pc s = PChecked 1 2" "c_pc s = CChecked 0"
    by (simp add: sched_def demo_init_def spsc_new_def producer_next_def consumer_next_def
        spsc_mask_def)
  have reach: "(demo_step 4 3)\<^sup>*\<^sup>* (demo_init 4) s" using demo_run_steps [OF run] .
  have "capacity_ok 4" by (simp add: capacity_ok_def)
  from spsc_no_race [OF this reach pcs] reach pcs show ?thesis by blast
qed

end
