(* ===== verification/Atomic_Counters.thy ===== *)
theory Atomic_Counters
  imports Prelude
begin

text \<open>
  Counters shared by several threads: the CAS loop and the \<open>fetch_add\<close> loop of
  \<open>demo_cas\<close> in \<^verbatim>\<open>performance/08_lockfree.cpp\<close>, and the mutex-protected
  \<open>increment_guard\<close> of \<^verbatim>\<open>concurrency/02_mutex_locks.cpp\<close>.  All three are shown to
  implement one abstract counter that is incremented in one indivisible step, so that no
  increment is lost whatever the interleaving.
\<close>

section \<open>The abstract counter\<close>

text \<open>The value (a 32-bit \<^verbatim>\<open>int\<close>) and how many increments each thread has made.\<close>

type_synonym counter_spec = "32 word \<times> nat list"

inductive spec_step :: "nat \<Rightarrow> counter_spec \<Rightarrow> counter_spec \<Rightarrow> bool" for ops :: nat where
  spec_inc: "t < length ds \<Longrightarrow> ds ! t < ops \<Longrightarrow> spec_step ops (c, ds) (c + 1, ds[t := Suc (ds ! t)])"

definition spec_inv :: "nat \<Rightarrow> nat \<Rightarrow> counter_spec \<Rightarrow> bool" where
  "spec_inv n ops s \<longleftrightarrow>
     fst s = of_nat (sum_list (snd s)) \<and> length (snd s) = n \<and> (\<forall>d \<in> set (snd s). d \<le> ops)"

interpretation spec: inv_system
  "\<lambda>s. s = (0, replicate n 0)" "spec_step ops" "spec_inv n ops" for n ops
proof (unfold_locales, goal_cases)
  case (1 s)
  then show ?case by (auto simp: spec_inv_def sum_list_replicate)
next
  case (2 s t)
  from 2(2,1) show ?case
  proof cases
    case (spec_inc t ds c)
    have "sum_list (ds[t := Suc (ds ! t)]) = Suc (sum_list ds)"
      using sum_list_update_nat [OF spec_inc(3), of "Suc (ds ! t)"] by simp
    moreover have "d \<le> ops" if "d \<in> set (ds[t := Suc (ds ! t)])" for d
      using that set_update_subset_insert [of ds t "Suc (ds ! t)"] 2(1) spec_inc
      by (auto simp: spec_inv_def)
    ultimately show ?thesis using 2(1) spec_inc by (simp add: spec_inv_def)
  qed
qed

lemma spec_total:
  assumes "(spec_step ops)\<^sup>*\<^sup>* (0, replicate n 0) (c, replicate n ops)"
  shows "c = of_nat (n * ops)"
proof -
  have "spec_inv n ops (c, replicate n ops)"
    using spec.reachable_inv [OF refl assms] .
  then show ?thesis by (simp add: spec_inv_def sum_list_replicate)
qed

section \<open>The CAS loop\<close>

datatype cas_pc = CasTop | CasLoaded "32 word"

record cas_sys =
  cas_counter :: "32 word"
  cas_i :: "nat list"
  cas_at :: "cas_pc list"

definition cas_init :: "nat \<Rightarrow> cas_sys" where
  "cas_init n = \<lparr>cas_counter = 0, cas_i = replicate n 0, cas_at = replicate n CasTop\<rparr>"

text \<open>
  \<^verbatim>\<open>compare_exchange_weak\<close> may fail although the value is the expected one; on failure
  it writes the current value into \<^verbatim>\<open>expected\<close>.
\<close>

inductive cas_step :: "nat \<Rightarrow> cas_sys \<Rightarrow> cas_sys \<Rightarrow> bool" for ops :: nat where
  cas_load: "t < length (cas_at s) \<Longrightarrow> cas_at s ! t = CasTop \<Longrightarrow> cas_i s ! t < ops \<Longrightarrow>
     cas_step ops s (s\<lparr>cas_at := (cas_at s)[t := CasLoaded (cas_counter s)]\<rparr>)"
| cas_ok: "t < length (cas_at s) \<Longrightarrow> cas_at s ! t = CasLoaded e \<Longrightarrow> cas_counter s = e \<Longrightarrow>
     cas_step ops s
       (s\<lparr>cas_counter := e + 1, cas_i := (cas_i s)[t := Suc (cas_i s ! t)],
          cas_at := (cas_at s)[t := CasTop]\<rparr>)"
| cas_fail: "t < length (cas_at s) \<Longrightarrow> cas_at s ! t = CasLoaded e \<Longrightarrow>
     cas_step ops s (s\<lparr>cas_at := (cas_at s)[t := CasLoaded (cas_counter s)]\<rparr>)"

definition cas_inv :: "nat \<Rightarrow> nat \<Rightarrow> cas_sys \<Rightarrow> bool" where
  "cas_inv n ops s \<longleftrightarrow> length (cas_i s) = n \<and> length (cas_at s) = n
     \<and> (\<forall>t < n. cas_at s ! t \<noteq> CasTop \<longrightarrow> cas_i s ! t < ops)"

definition cas_abs :: "cas_sys \<Rightarrow> counter_spec" where
  "cas_abs s = (cas_counter s, cas_i s)"

definition cas_joined :: "nat \<Rightarrow> cas_sys \<Rightarrow> bool" where
  "cas_joined ops s \<longleftrightarrow> (\<forall>i \<in> set (cas_i s). i = ops) \<and> (\<forall>p \<in> set (cas_at s). p = CasTop)"

interpretation cas: simulation
  "\<lambda>s. s = cas_init n" "cas_step ops" "cas_inv n ops" "spec_step ops" cas_abs for n ops
proof (unfold_locales, goal_cases)
  case (1 s)
  then show ?case by (simp add: cas_init_def cas_inv_def)
next
  case (2 s t)
  from 2(2,1) show ?case
    by cases (auto simp: cas_inv_def nth_list_update)
next
  case (3 s t)
  from 3(2) show ?case
  proof cases
    case (cas_ok t e)
    then have "spec_step ops (cas_abs s) (e + 1, (cas_i s)[t := Suc (cas_i s ! t)])"
      using 3(1) spec_inc [of t "cas_i s" ops e] by (simp add: cas_abs_def cas_inv_def)
    with cas_ok show ?thesis by (simp add: cas_abs_def r_into_rtranclp)
  qed (simp_all add: cas_abs_def)
qed

section \<open>The \<^verbatim>\<open>fetch_add\<close> loop\<close>

record fa_sys =
  fa_counter :: "32 word"
  fa_i :: "nat list"

definition fa_init :: "nat \<Rightarrow> fa_sys" where
  "fa_init n = \<lparr>fa_counter = 0, fa_i = replicate n 0\<rparr>"

inductive fa_step :: "nat \<Rightarrow> fa_sys \<Rightarrow> fa_sys \<Rightarrow> bool" for ops :: nat where
  fa_add: "t < length (fa_i s) \<Longrightarrow> fa_i s ! t < ops \<Longrightarrow>
     fa_step ops s (s\<lparr>fa_counter := fa_counter s + 1, fa_i := (fa_i s)[t := Suc (fa_i s ! t)]\<rparr>)"

definition fa_abs :: "fa_sys \<Rightarrow> counter_spec" where
  "fa_abs s = (fa_counter s, fa_i s)"

interpretation fa: simulation
  "\<lambda>s. s = fa_init n" "fa_step ops" "\<lambda>s. length (fa_i s) = n" "spec_step ops" fa_abs for n ops
proof (unfold_locales, goal_cases)
  case (1 s)
  then show ?case by (simp add: fa_init_def)
next
  case (2 s t)
  from 2(2,1) show ?case by cases simp
next
  case (3 s t)
  from 3(2) show ?case
    by cases (auto simp: fa_abs_def intro: r_into_rtranclp spec_inc)
qed

section \<open>Increments under a mutex\<close>

text \<open>
  \<^verbatim>\<open>++counter\<close> on a plain \<^verbatim>\<open>int\<close> is a read followed by a write; \<^verbatim>\<open>lock_guard\<close> (and
  \<^verbatim>\<open>unique_lock\<close> with its early \<^verbatim>\<open>unlock\<close>) brackets the two.
\<close>

datatype mtx_pc = MStart | MLocked | MRead "32 word" | MWritten | MEnd

record mtx_sys =
  m_counter :: "32 word"
  m_owner :: "nat option"
  m_at :: "mtx_pc list"

definition mtx_init :: "nat \<Rightarrow> mtx_sys" where
  "mtx_init n = \<lparr>m_counter = 0, m_owner = None, m_at = replicate n MStart\<rparr>"

inductive mtx_step :: "mtx_sys \<Rightarrow> mtx_sys \<Rightarrow> bool" where
  m_lock: "t < length (m_at s) \<Longrightarrow> m_at s ! t = MStart \<Longrightarrow> m_owner s = None \<Longrightarrow>
     mtx_step s (s\<lparr>m_owner := Some t, m_at := (m_at s)[t := MLocked]\<rparr>)"
| m_read: "t < length (m_at s) \<Longrightarrow> m_at s ! t = MLocked \<Longrightarrow>
     mtx_step s (s\<lparr>m_at := (m_at s)[t := MRead (m_counter s)]\<rparr>)"
| m_write: "t < length (m_at s) \<Longrightarrow> m_at s ! t = MRead v \<Longrightarrow>
     mtx_step s (s\<lparr>m_counter := v + 1, m_at := (m_at s)[t := MWritten]\<rparr>)"
| m_unlock: "t < length (m_at s) \<Longrightarrow> m_at s ! t = MWritten \<Longrightarrow>
     mtx_step s (s\<lparr>m_owner := None, m_at := (m_at s)[t := MEnd]\<rparr>)"

fun m_holds :: "mtx_pc \<Rightarrow> bool" where
  "m_holds MStart = False"
| "m_holds MEnd = False"
| "m_holds _ = True"

fun m_done :: "mtx_pc \<Rightarrow> nat" where
  "m_done MWritten = 1"
| "m_done MEnd = 1"
| "m_done _ = 0"

definition mtx_inv :: "nat \<Rightarrow> mtx_sys \<Rightarrow> bool" where
  "mtx_inv n s \<longleftrightarrow> length (m_at s) = n
     \<and> (\<forall>t < n. m_holds (m_at s ! t) \<longleftrightarrow> m_owner s = Some t)
     \<and> (\<forall>t < n. \<forall>v. m_at s ! t = MRead v \<longrightarrow> v = m_counter s)"

definition mtx_abs :: "mtx_sys \<Rightarrow> counter_spec" where
  "mtx_abs s = (m_counter s, map m_done (m_at s))"

lemma mtx_step_inv:
  assumes inv: "mtx_inv n s" and st: "mtx_step s t"
  shows "mtx_inv n t"
  using st
proof cases
  case (m_lock i)
  with inv show ?thesis by (auto simp: mtx_inv_def nth_list_update)
next
  case (m_read i)
  with inv show ?thesis by (auto simp: mtx_inv_def nth_list_update)
next
  case (m_write i v)
  have holds: "m_holds (m_at s ! k) \<longleftrightarrow> m_owner s = Some k" if "k < n" for k
    using inv that by (simp add: mtx_inv_def)
  have len: "length (m_at s) = n" using inv by (simp add: mtx_inv_def)
  have own: "m_owner s = Some i" using holds [of i] m_write len by simp
  have "m_at t ! k \<noteq> MRead w" if "k < n" for k w
  proof
    assume r: "m_at t ! k = MRead w"
    then have "k \<noteq> i" and "m_at s ! k = MRead w"
      using m_write len that by (auto simp: nth_list_update split: if_splits)
    then show False using holds [OF that] own by simp
  qed
  moreover have "m_holds (m_at t ! k) \<longleftrightarrow> m_owner t = Some k" if "k < n" for k
    using holds [OF that] own m_write len that by (simp add: nth_list_update)
  ultimately show ?thesis using m_write len by (simp add: mtx_inv_def)
next
  case (m_unlock i)
  have "m_holds (m_at s ! i)" using m_unlock by simp
  with m_unlock inv show ?thesis by (auto simp: mtx_inv_def nth_list_update)
qed

lemma map_m_done_update:
  "i < length xs \<Longrightarrow> m_done p = m_done (xs ! i) \<Longrightarrow> map m_done (xs[i := p]) = map m_done xs"
  by (simp add: map_update list_update_same_conv)

interpretation mtx: simulation
  "\<lambda>s. s = mtx_init n" mtx_step "mtx_inv n" "spec_step 1" mtx_abs for n
proof (unfold_locales, goal_cases)
  case (1 s)
  then show ?case by (simp add: mtx_init_def mtx_inv_def)
next
  case (2 s t)
  then show ?case by (rule mtx_step_inv)
next
  case (3 s t)
  from 3(2) show ?case
  proof cases
    case (m_write i v)
    with 3(1) have v: "v = m_counter s" by (simp add: mtx_inv_def)
    have "map m_done (m_at t) = (map m_done (m_at s))[i := Suc (map m_done (m_at s) ! i)]"
      using m_write by (simp add: map_update)
    then have "spec_step 1 (mtx_abs s) (mtx_abs t)"
      using m_write v spec_inc [of i "map m_done (m_at s)" 1 "m_counter s"]
      by (simp add: mtx_abs_def)
    then show ?thesis by (rule r_into_rtranclp)
  qed (simp_all add: mtx_abs_def map_m_done_update)
qed

section \<open>No lost update\<close>

text \<open>
  C4: Whatever the interleaving and however often \<open>compare_exchange_weak\<close> fails, when all
  \<open>n\<close> threads of the CAS loop have made their \<open>ops\<close> increments the counter is \<open>n * ops\<close>
  (modulo the width of \<^verbatim>\<open>int\<close>).
\<close>

theorem cas_no_lost_update:
  assumes "(cas_step ops)\<^sup>*\<^sup>* (cas_init n) s" and "cas_joined ops s"
  shows "cas_counter s = of_nat (n * ops)"
proof -
  have "cas_inv n ops s" using cas.reachable_inv [OF refl assms(1)] .
  then have "cas_i s = replicate n ops"
    using assms(2) by (intro replicate_eqI) (auto simp: cas_inv_def cas_joined_def)
  moreover have "(spec_step ops)\<^sup>*\<^sup>* (0, replicate n 0) (cas_counter s, cas_i s)"
    using cas.reachable_sim [OF refl assms(1)] by (simp add: cas_abs_def cas_init_def)
  ultimately show ?thesis using spec_total by simp
qed

text \<open>
  The mutex brackets the two accesses of \<open>++counter\<close>: in every reachable state at
  most one thread is between \<open>lock\<close> and \<open>unlock\<close>, and when all \<open>n\<close> threads have
  returned from \<open>increment_guard\<close> the counter is \<open>n\<close>.
\<close>

theorem mutex_counter:
  assumes "mtx_step\<^sup>*\<^sup>* (mtx_init n) s"
  shows "(\<forall>i j. i < n \<and> j < n \<and> m_holds (m_at s ! i) \<and> m_holds (m_at s ! j) \<longrightarrow> i = j)
     \<and> (m_at s = replicate n MEnd \<longrightarrow> m_counter s = of_nat n)"
proof -
  have inv: "mtx_inv n s" using mtx.reachable_inv [OF refl assms] .
  have "(spec_step 1)\<^sup>*\<^sup>* (0, replicate n 0) (m_counter s, map m_done (m_at s))"
    using mtx.reachable_sim [OF refl assms] by (simp add: mtx_abs_def mtx_init_def)
  then have "m_at s = replicate n MEnd \<longrightarrow> m_counter s = of_nat n"
    using spec_total [of 1 n "m_counter s"] by auto
  with inv show ?thesis by (auto simp: mtx_inv_def)
qed

section \<open>Execution under a schedule\<close>

text \<open>
  A schedule entry names the thread that moves and whether a compare-exchange of its own
  fails spuriously.
\<close>

definition cas_next :: "nat \<Rightarrow> nat \<times> bool \<Rightarrow> cas_sys \<Rightarrow> cas_sys option" where
  "cas_next ops e s =
     (let t = fst e in
      if t < length (cas_at s) then
        (case cas_at s ! t of
           CasTop \<Rightarrow> if cas_i s ! t < ops
             then Some (s\<lparr>cas_at := (cas_at s)[t := CasLoaded (cas_counter s)]\<rparr>) else None
         | CasLoaded x \<Rightarrow> if cas_counter s = x \<and> \<not> snd e
             then Some (s\<lparr>cas_counter := x + 1, cas_i := (cas_i s)[t := Suc (cas_i s ! t)],
                          cas_at := (cas_at s)[t := CasTop]\<rparr>)
             else Some (s\<lparr>cas_at := (cas_at s)[t := CasLoaded (cas_counter s)]\<rparr>))
      else None)"

lemma cas_next_step: "cas_next ops e s = Some s' \<Longrightarrow> cas_step ops s s'"
  by (auto simp: cas_next_def Let_def split: if_splits cas_pc.splits intro: cas_step.intros)

fun cas_run :: "nat \<Rightarrow> (nat \<times> bool) list \<Rightarrow> cas_sys \<Rightarrow> cas_sys option" where
  "cas_run ops [] s = Some s"
| "cas_run ops (e # es) s = (case cas_next ops e s of None \<Rightarrow> None | Some t \<Rightarrow> cas_run ops es t)"

lemma cas_run_steps: "cas_run ops es s = Some t \<Longrightarrow> (cas_step ops)\<^sup>*\<^sup>* s t"
  by (induction es arbitrary: s)
    (auto split: option.splits intro: converse_rtranclp_into_rtranclp cas_next_step)

text \<open>Two threads load the same value; one wins, the other fails, reloads and retries.\<close>

theorem cas_no_lost_update_witness:
  "\<exists>s. (cas_step 1)\<^sup>*\<^sup>* (cas_init 2) s \<and> cas_joined 1 s \<and> cas_counter s = 2"
proof -
  obtain s where run: "cas_run 1 [(0, False), (1, False), (0, False), (1, False), (1, True), (1, False)]
      (cas_init 2) = Some s" and joined: "cas_joined 1 s"
    by (simp add: cas_next_def cas_init_def cas_joined_def numeral_2_eq_2)
  show ?thesis
    using cas_no_lost_update [OF cas_run_steps [OF run] joined] cas_run_steps [OF run] joined
    by auto
qed

theorem mutex_counter_witness:
  "\<exists>s. mtx_step\<^sup>*\<^sup>* (mtx_init 1) s \<and> m_at s = replicate 1 MEnd \<and> m_counter s = 1"
proof -
  define s where "s = \<lparr>m_counter = 1, m_owner = None, m_at = [MEnd]\<rparr>"
  have "mtx_step (mtx_init 1) \<lparr>m_counter = 0, m_owner = Some 0, m_at = [MLocked]\<rparr>"
    using m_lock [of 0 "mtx_init 1"] by (simp add: mtx_init_def)
  also have "mtx_step\<^sup>*\<^sup>* \<dots> \<lparr>m_counter = 0, m_owner = Some 0, m_at = [MRead 0]\<rparr>"
    using m_read [of 0 "\<lparr>m_counter = 0, m_owner = Some 0, m_at = [MLocked]\<rparr>"] by auto
  also have "mtx_step\<^sup>*\<^sup>* \<dots> \<lparr>m_counter = 1, m_owner = Some 0, m_at = [MWritten]\<rparr>"
    using m_write [of 0 "\<lparr>m_counter = 0, m_owner = Some 0, m_at = [MRead 0]\<rparr>" 0] by auto
  also have "mtx_step\<^sup>*\<^sup>* \<dots> s"
    using m_unlock [of 0 "\<lparr>m_counter = 1, m_owner = Some 0, m_at = [MWritten]\<rparr>"]
    by (auto simp: s_def)
  finally have "mtx_step\<^sup>*\<^sup>* (mtx_init 1) s" .
  with mutex_counter [OF this] show ?thesis by (intro exI [of _ s]) (simp add: s_def)
qed

end
