(* ===== verification/Lock_Order.thy ===== *)
theory Lock_Order
  imports Prelude
begin

text \<open>
  Threads that acquire several mutexes: \<open>thread_send_order\<close> and \<open>thread_process_fill\<close> of
  \<^verbatim>\<open>build_tooling/04_tsan.cpp\<close> (part 4), whose orders are inverted, the \<open>scoped_lock\<close>
  of part 5, and \<open>transfer_a_to_b\<close> of \<^verbatim>\<open>concurrency/02_mutex_locks.cpp\<close>.  A thread is the
  list of mutexes its nested \<^verbatim>\<open>lock_guard\<close>s take, in order; leaving the scope releases
  them all.  The inverted order is shown to deadlock exactly when each thread holds its first
  mutex, which does happen; acquiring in one total order or with one \<open>scoped_lock\<close> is shown
  to exclude deadlock for any number of threads.
\<close>

section \<open>Threads and mutexes\<close>

record lk_sys =
  owner :: "nat \<Rightarrow> nat option"
  taken :: "nat list"
  left_scope :: "bool list"

type_synonym plan = "nat list list"

definition lk_init :: "plan \<Rightarrow> lk_sys" where
  "lk_init p = \<lparr>owner = (\<lambda>_. None), taken = replicate (length p) 0,
     left_scope = replicate (length p) False\<rparr>"

inductive lk_step :: "plan \<Rightarrow> lk_sys \<Rightarrow> lk_sys \<Rightarrow> bool" for p :: plan where
  lk_acquire: "t < length p \<Longrightarrow> taken s ! t < length (p ! t) \<Longrightarrow>
     owner s (p ! t ! (taken s ! t)) = None \<Longrightarrow>
     lk_step p s (s\<lparr>owner := (owner s)(p ! t ! (taken s ! t) := Some t),
                    taken := (taken s)[t := Suc (taken s ! t)]\<rparr>)"
| lk_leave: "t < length p \<Longrightarrow> taken s ! t = length (p ! t) \<Longrightarrow> \<not> left_scope s ! t \<Longrightarrow>
     lk_step p s (s\<lparr>owner := (\<lambda>m. if owner s m = Some t then None else owner s m),
                    left_scope := (left_scope s)[t := True]\<rparr>)"

definition lk_finished :: "lk_sys \<Rightarrow> bool" where
  "lk_finished s \<longleftrightarrow> (\<forall>b \<in> set (left_scope s). b)"

definition lk_deadlocked :: "plan \<Rightarrow> lk_sys \<Rightarrow> bool" where
  "lk_deadlocked p s \<longleftrightarrow> \<not> lk_finished s \<and> (\<forall>t. \<not> lk_step p s t)"

section \<open>The code's threads\<close>

definition g_lock_orders :: nat where "g_lock_orders = 0"
definition g_lock_fills :: nat where "g_lock_fills = 1"

definition thread_send_order :: "nat list" where
  "thread_send_order = [g_lock_orders, g_lock_fills]"

definition thread_process_fill :: "nat list" where
  "thread_process_fill = [g_lock_fills, g_lock_orders]"

definition demo_lock_order_inversion :: plan where
  "demo_lock_order_inversion = [thread_send_order, thread_process_fill]"

section \<open>Ownership invariant\<close>

definition lk_inv :: "plan \<Rightarrow> lk_sys \<Rightarrow> bool" where
  "lk_inv p s \<longleftrightarrow>
     length (taken s) = length p \<and> length (left_scope s) = length p
     \<and> (\<forall>t < length p. taken s ! t \<le> length (p ! t))
     \<and> (\<forall>t < length p. left_scope s ! t \<longrightarrow> taken s ! t = length (p ! t))
     \<and> (\<forall>m t. owner s m = Some t \<longrightarrow>
          t < length p \<and> \<not> left_scope s ! t \<and> m \<in> set (take (taken s ! t) (p ! t)))"

lemma lk_step_inv:
  assumes inv: "lk_inv p s" and st: "lk_step p s s'"
  shows "lk_inv p s'"
  using st
proof cases
  case (lk_acquire t)
  have "\<not> left_scope s ! t" using inv lk_acquire by (auto simp: lk_inv_def)
  with inv lk_acquire show ?thesis
    by (auto simp: lk_inv_def nth_list_update take_Suc_conv_app_nth)
next
  case (lk_leave t)
  with inv show ?thesis
    by (auto simp: lk_inv_def nth_list_update split: if_splits)
qed

interpretation lk: inv_system "\<lambda>s. s = lk_init p" "lk_step p" "lk_inv p" for p
  by unfold_locales (simp add: lk_init_def lk_inv_def, rule lk_step_inv)

section \<open>A total order excludes deadlock\<close>

definition ordered_plan :: "plan \<Rightarrow> bool" where
  "ordered_plan p \<longleftrightarrow> (\<forall>ms \<in> set p. sorted_wrt (<) ms)"

definition wanted :: "plan \<Rightarrow> lk_sys \<Rightarrow> nat \<Rightarrow> nat" where
  "wanted p s t = p ! t ! (taken s ! t)"

definition waiting :: "plan \<Rightarrow> lk_sys \<Rightarrow> nat set" where
  "waiting p s = {t. t < length p \<and> taken s ! t < length (p ! t)}"

lemma finite_waiting: "finite (waiting p s)"
  by (rule finite_subset [of _ "{..<length p}"]) (auto simp: waiting_def)

lemma ordered_wanted_greater:
  assumes "ordered_plan p" and "u \<in> waiting p s" and "m \<in> set (take (taken s ! u) (p ! u))"
  shows "m < wanted p s u"
proof -
  from assms(3) obtain k where k: "k < taken s ! u" "m = p ! u ! k"
    by (auto simp: in_set_conv_nth)
  from assms(1,2) have "sorted_wrt (<) (p ! u)"
    by (auto simp: ordered_plan_def waiting_def)
  with k assms(2) show ?thesis
    by (auto simp: wanted_def waiting_def sorted_wrt_iff_nth_less)
qed

lemma stuck_waits:
  assumes inv: "lk_inv p s" and stuck: "\<And>s'. \<not> lk_step p s s'" and t: "t < length p"
    and unfinished: "\<not> left_scope s ! t"
  shows "t \<in> waiting p s \<and> (\<exists>u. owner s (wanted p s t) = Some u)"
proof -
  have le: "taken s ! t \<le> length (p ! t)" using inv t by (simp add: lk_inv_def)
  have "taken s ! t \<noteq> length (p ! t)" using stuck lk_leave [OF t _ unfinished] by blast
  with le have lt: "taken s ! t < length (p ! t)" by simp
  have "owner s (wanted p s t) \<noteq> None"
    using stuck lk_acquire [OF t lt] by (auto simp: wanted_def)
  with lt t show ?thesis by (auto simp: waiting_def)
qed

lemma ordered_no_deadlock:
  assumes inv: "lk_inv p s" and ord: "ordered_plan p"
  shows "\<not> lk_deadlocked p s"
proof
  assume "lk_deadlocked p s"
  then have stuck: "\<And>s'. \<not> lk_step p s s'" and "\<not> lk_finished s"
    by (auto simp: lk_deadlocked_def)
  then obtain t where t: "t < length p" "\<not> left_scope s ! t"
    using inv by (auto simp: lk_finished_def in_set_conv_nth lk_inv_def)
  then have "waiting p s \<noteq> {}" using stuck_waits [OF inv stuck] by blast
  then have "Max (wanted p s ` waiting p s) \<in> wanted p s ` waiting p s"
    using finite_waiting [of p s] by (intro Max_in) auto
  then obtain v where v: "v \<in> waiting p s"
    and eq: "wanted p s v = Max (wanted p s ` waiting p s)" by (metis imageE)
  have mx: "wanted p s u \<le> wanted p s v" if "u \<in> waiting p s" for u
    using eq that finite_waiting [of p s] by simp
  have "v < length p" and "\<not> left_scope s ! v"
    using v inv by (auto simp: waiting_def lk_inv_def)
  then obtain u where u: "owner s (wanted p s v) = Some u"
    using stuck_waits [OF inv stuck] by blast
  then have uw: "u \<in> waiting p s" and held: "wanted p s v \<in> set (take (taken s ! u) (p ! u))"
    using inv stuck_waits [OF inv stuck, of u] by (auto simp: lk_inv_def)
  from ordered_wanted_greater [OF ord uw held] mx [OF uw] show False by simp
qed

lemma ordered_plan_never_stuck:
  assumes "ordered_plan p" and "(lk_step p)\<^sup>*\<^sup>* (lk_init p) s"
  shows "\<not> lk_deadlocked p s"
  using ordered_no_deadlock [OF lk.reachable_inv [OF refl assms(2)] assms(1)] .

section \<open>The inverted orders\<close>

text \<open>Until it leaves its scope, a thread owns every mutex it has taken.\<close>

definition lk_held :: "plan \<Rightarrow> lk_sys \<Rightarrow> bool" where
  "lk_held p s \<longleftrightarrow> (\<forall>t < length p. \<not> left_scope s ! t \<longrightarrow>
     (\<forall>m \<in> set (take (taken s ! t) (p ! t)). owner s m = Some t))"

lemma lk_step_held:
  assumes "lk_inv p s \<and> lk_held p s" and st: "lk_step p s s'"
  shows "lk_inv p s' \<and> lk_held p s'"
  using st
proof cases
  case (lk_acquire t)
  have len: "t < length (taken s)" using assms(1) lk_acquire(2) by (simp add: lk_inv_def)
  have "lk_held p s'"
    unfolding lk_held_def
  proof (intro allI impI ballI)
    fix u m
    assume u: "u < length p" "\<not> left_scope s' ! u" "m \<in> set (take (taken s' ! u) (p ! u))"
    show "owner s' m = Some u"
    proof (cases "u = t")
      case True
      with u(3) lk_acquire(1,3) len
      have "m = p ! t ! (taken s ! t) \<or> m \<in> set (take (taken s ! t) (p ! t))"
        by (auto simp: take_Suc_conv_app_nth)
      with True u(1,2) lk_acquire(1) assms(1) show ?thesis by (auto simp: lk_held_def)
    next
      case False
      with u lk_acquire(1) assms(1) have "owner s m = Some u" by (auto simp: lk_held_def)
      with lk_acquire(1,4) show ?thesis by auto
    qed
  qed
  with assms lk_step_inv show ?thesis by blast
next
  case (lk_leave t)
  have len: "t < length (left_scope s)" using assms(1) lk_leave(2) by (simp add: lk_inv_def)
  have "lk_held p s'"
    unfolding lk_held_def
  proof (intro allI impI ballI)
    fix u m
    assume u: "u < length p" "\<not> left_scope s' ! u" "m \<in> set (take (taken s' ! u) (p ! u))"
    have "u \<noteq> t" using u(2) lk_leave(1) len by auto
    with u lk_leave(1) assms(1) have "owner s m = Some u" by (auto simp: lk_held_def)
    with \<open>u \<noteq> t\<close> lk_leave(1) show "owner s' m = Some u" by auto
  qed
  with assms lk_step_inv show ?thesis by blast
qed

interpretation lkh: inv_system "\<lambda>s. s = lk_init p" "lk_step p" "\<lambda>s. lk_inv p s \<and> lk_held p s" for p
  by unfold_locales (simp add: lk_init_def lk_inv_def lk_held_def, rule lk_step_held)

lemmas inversion_plan = demo_lock_order_inversion_def thread_send_order_def
  thread_process_fill_def g_lock_orders_def g_lock_fills_def

lemma inversion_cycle:
  assumes "lk_inv demo_lock_order_inversion s" "lk_deadlocked demo_lock_order_inversion s"
  shows "taken s = [1, 1]"
proof -
  let ?p = "demo_lock_order_inversion"
  have stuck: "\<And>s'. \<not> lk_step ?p s s'" and "\<not> lk_finished s"
    using assms(2) by (auto simp: lk_deadlocked_def)
  obtain x y where xy: "taken s = [x, y]"
    using assms(1) by (auto simp: lk_inv_def inversion_plan length_Suc_conv)
  have own: "u < 2 \<and> \<not> left_scope s ! u \<and> m \<in> set (take (taken s ! u) (?p ! u))"
    if "owner s m = Some u" for m u
    using assms(1) that by (auto simp: lk_inv_def inversion_plan numeral_2_eq_2)
  have waits: "\<exists>u. taken s ! t < 2 \<and> owner s (wanted ?p s t) = Some u"
    if "t < 2" "\<not> left_scope s ! t" for t
    using stuck_waits [OF assms(1) stuck, of t] that
    by (auto simp: waiting_def inversion_plan less_Suc_eq numeral_2_eq_2)
  have other: "\<not> left_scope s ! (1 - t) \<and> taken s ! (1 - t) \<noteq> 0"
    if "t < 2" "\<not> left_scope s ! t" for t
  proof -
    from that have "\<exists>u. taken s ! t < 2 \<and> owner s (wanted ?p s t) = Some u" by (rule waits)
    then obtain u where u: "taken s ! t < 2" "owner s (wanted ?p s t) = Some u" by blast
    from own [OF u(2)] u(1) that(1) show ?thesis
      by (auto simp: wanted_def inversion_plan less_Suc_eq numeral_2_eq_2 take_Cons'
          split: if_splits)
  qed
  obtain t where t: "t < 2" "\<not> left_scope s ! t"
    using assms(1) \<open>\<not> lk_finished s\<close>
    by (auto simp: lk_finished_def in_set_conv_nth lk_inv_def inversion_plan numeral_2_eq_2)
  have u: "1 - t < 2" "1 - (1 - t) = t" using t(1) by auto
  have "taken s ! t = 1" "taken s ! (1 - t) = 1"
    using other [OF t] other [OF u(1)] waits [OF t] waits [OF u(1)] u(2) by fastforce+
  with t(1) xy show ?thesis by (auto simp: less_Suc_eq numeral_2_eq_2)
qed

lemma inversion_stuck:
  assumes "lk_inv demo_lock_order_inversion s \<and> lk_held demo_lock_order_inversion s"
    and "taken s = [1, 1]"
  shows "lk_deadlocked demo_lock_order_inversion s"
proof -
  let ?p = "demo_lock_order_inversion"
  have two: "t = 0 \<or> t = 1" if "t < length ?p" for t
    using that by (auto simp: inversion_plan)
  have in_scope: "\<not> left_scope s ! 0" "\<not> left_scope s ! 1"
    and len: "length (left_scope s) = 2"
    using assms by (auto simp: lk_inv_def inversion_plan)
  then have own: "owner s 0 = Some 0" "owner s 1 = Some 1"
    using assms by (auto simp: lk_held_def inversion_plan)
  have "\<not> lk_step ?p s s'" for s'
  proof
    assume "lk_step ?p s s'"
    then show False
    proof cases
      case (lk_acquire t)
      with own assms(2) two [OF lk_acquire(2)] show False by (auto simp: inversion_plan)
    next
      case (lk_leave t)
      with assms(2) two [OF lk_leave(2)] show False by (auto simp: inversion_plan)
    qed
  qed
  moreover have "\<not> lk_finished s"
    using in_scope len by (metis lk_finished_def nth_mem zero_less_numeral)
  ultimately show ?thesis by (simp add: lk_deadlocked_def)
qed

text \<open>
  \<open>thread_send_order\<close> and \<open>thread_process_fill\<close> take the two mutexes in opposite
  orders and can reach a deadlock: each holds one mutex and waits for the other's.
\<close>

lemma lock_order_inversion_deadlocks:
  "\<exists>s. (lk_step demo_lock_order_inversion)\<^sup>*\<^sup>* (lk_init demo_lock_order_inversion) s
     \<and> lk_deadlocked demo_lock_order_inversion s"
proof -
  let ?p = "demo_lock_order_inversion"
  note plan = demo_lock_order_inversion_def thread_send_order_def thread_process_fill_def
    g_lock_orders_def g_lock_fills_def lk_init_def
  define s1 where "s1 = (lk_init ?p)\<lparr>owner := (\<lambda>_. None)(0 := Some 0), taken := [1, 0]\<rparr>"
  define s2 where "s2 = (lk_init ?p)\<lparr>owner := (\<lambda>_. None)(0 := Some 0, 1 := Some 1), taken := [1, 1]\<rparr>"
  have "lk_step ?p (lk_init ?p) s1"
    using lk_acquire [of 0 ?p "lk_init ?p"] by (simp add: plan s1_def)
  moreover have "lk_step ?p s1 s2"
    using lk_acquire [of 1 ?p s1] by (simp add: plan s1_def s2_def)
  ultimately have "(lk_step ?p)\<^sup>*\<^sup>* (lk_init ?p) s2" by (meson rtranclp.simps)
  moreover have "lk_deadlocked ?p s2"
    by (auto simp: lk_deadlocked_def lk_finished_def plan s2_def nth_Cons' elim!: lk_step.cases
        split: if_splits)
  ultimately show ?thesis by blast
qed

section \<open>\<^verbatim>\<open>std::scoped_lock\<close>\<close>

text \<open>
  \<^verbatim>\<open>std::scoped_lock\<close> takes all its mutexes or none (\<^verbatim>\<open>std::lock\<close> backs off when it cannot
  get one), so acquiring is one step that needs all of them free.
\<close>

inductive sl_step :: "plan \<Rightarrow> lk_sys \<Rightarrow> lk_sys \<Rightarrow> bool" for p :: plan where
  sl_acquire: "t < length p \<Longrightarrow> taken s ! t < length (p ! t) \<Longrightarrow>
     (\<forall>m \<in> set (p ! t). owner s m = None) \<Longrightarrow>
     sl_step p s (s\<lparr>owner := (\<lambda>m. if m \<in> set (p ! t) then Some t else owner s m),
                    taken := (taken s)[t := length (p ! t)]\<rparr>)"
| sl_leave: "t < length p \<Longrightarrow> taken s ! t = length (p ! t) \<Longrightarrow> \<not> left_scope s ! t \<Longrightarrow>
     sl_step p s (s\<lparr>owner := (\<lambda>m. if owner s m = Some t then None else owner s m),
                    left_scope := (left_scope s)[t := True]\<rparr>)"

text \<open>The two threads of \<open>demo_scoped_lock\<close>: \<open>{g_mu_a, g_mu_b}\<close> and \<open>{g_mu_b, g_mu_a}\<close>.\<close>

definition demo_scoped_lock :: plan where
  "demo_scoped_lock = [[0, 1], [1, 0]]"

definition transfer_a_to_b :: "nat list" where
  "transfer_a_to_b = [0, 1]"

definition sl_inv :: "plan \<Rightarrow> lk_sys \<Rightarrow> bool" where
  "sl_inv p s \<longleftrightarrow>
     length (taken s) = length p \<and> length (left_scope s) = length p
     \<and> (\<forall>t < length p. taken s ! t = 0 \<or> taken s ! t = length (p ! t))
     \<and> (\<forall>t < length p. left_scope s ! t \<longrightarrow> taken s ! t = length (p ! t))
     \<and> (\<forall>m t. owner s m = Some t \<longrightarrow>
          t < length p \<and> \<not> left_scope s ! t \<and> taken s ! t = length (p ! t))"

lemma sl_step_inv:
  assumes inv: "sl_inv p s" and st: "sl_step p s s'"
  shows "sl_inv p s'"
  using st
proof cases
  case (sl_acquire t)
  have "\<not> left_scope s ! t" using inv sl_acquire by (auto simp: sl_inv_def)
  with inv sl_acquire show ?thesis by (auto simp: sl_inv_def nth_list_update)
next
  case (sl_leave t)
  with inv show ?thesis by (auto simp: sl_inv_def nth_list_update split: if_splits)
qed

interpretation sl: inv_system "\<lambda>s. s = lk_init p" "sl_step p" "sl_inv p" for p
  by unfold_locales (simp add: lk_init_def sl_inv_def, rule sl_step_inv)

lemma sl_advances:
  assumes inv: "sl_inv p s" and "\<not> lk_finished s"
  shows "\<exists>s'. sl_step p s s'"
proof -
  from assms obtain t where t: "t < length p" "\<not> left_scope s ! t"
    by (auto simp: lk_finished_def in_set_conv_nth sl_inv_def)
  show ?thesis
  proof (cases "taken s ! t = length (p ! t)")
    case True
    with t show ?thesis by (blast intro: sl_leave)
  next
    case False
    with inv t have lt: "taken s ! t < length (p ! t)" by (auto simp: sl_inv_def)
    show ?thesis
    proof (cases "\<forall>m \<in> set (p ! t). owner s m = None")
      case True
      with t lt show ?thesis by (blast intro: sl_acquire)
    next
      case False
      then obtain m u where "owner s m = Some u" by auto
      with inv have "u < length p" "taken s ! u = length (p ! u)" "\<not> left_scope s ! u"
        by (auto simp: sl_inv_def)
      from sl_leave [OF this] show ?thesis by blast
    qed
  qed
qed

section \<open>Properties\<close>

text \<open>
  Threads that take all their mutexes with one \<open>scoped_lock\<close> never get stuck, in
  whatever order each of them lists the mutexes; this covers \<open>demo_scoped_lock\<close>.
\<close>

theorem scoped_lock_deadlock_free:
  assumes "(sl_step p)\<^sup>*\<^sup>* (lk_init p) s" and "\<not> lk_finished s"
  shows "\<exists>s'. sl_step p s s'"
  using sl_advances [OF sl.reachable_inv [OF refl assms(1)] assms(2)] .

theorem scoped_lock_deadlock_free_witness:
  "\<exists>s'. sl_step demo_scoped_lock (lk_init demo_scoped_lock) s'"
proof -
  have "\<not> lk_finished (lk_init demo_scoped_lock)"
    by (simp add: lk_finished_def lk_init_def demo_scoped_lock_def)
  from scoped_lock_deadlock_free [OF rtranclp.rtrancl_refl this] show ?thesis .
qed

text \<open>
  C5: In every state the two threads of \<open>demo_lock_order_inversion\<close> can reach, they are
  deadlocked exactly when each holds its first mutex and not its second, and such a state
  is reached.  The two threads of \<open>demo_scoped_lock\<close>, which list their mutexes in
  opposite orders too, can always take a step until both have left their scopes.
\<close>

theorem two_mutex_threads:
  "(\<forall>s. (lk_step demo_lock_order_inversion)\<^sup>*\<^sup>* (lk_init demo_lock_order_inversion) s \<longrightarrow>
      lk_deadlocked demo_lock_order_inversion s = (taken s = [1, 1]))
   \<and> (\<exists>s. (lk_step demo_lock_order_inversion)\<^sup>*\<^sup>* (lk_init demo_lock_order_inversion) s
        \<and> taken s = [1, 1])
   \<and> (\<forall>s. (sl_step demo_scoped_lock)\<^sup>*\<^sup>* (lk_init demo_scoped_lock) s \<longrightarrow>
        lk_finished s \<or> (\<exists>s'. sl_step demo_scoped_lock s s'))"
proof (intro conjI allI impI)
  fix s assume "(lk_step demo_lock_order_inversion)\<^sup>*\<^sup>* (lk_init demo_lock_order_inversion) s"
  then show "lk_deadlocked demo_lock_order_inversion s = (taken s = [1, 1])"
    using lkh.reachable_inv [OF refl] inversion_cycle inversion_stuck by blast
next
  show "\<exists>s. (lk_step demo_lock_order_inversion)\<^sup>*\<^sup>* (lk_init demo_lock_order_inversion) s
      \<and> taken s = [1, 1]"
    using lock_order_inversion_deadlocks lk.reachable_inv [OF refl] inversion_cycle by blast
next
  fix s assume "(sl_step demo_scoped_lock)\<^sup>*\<^sup>* (lk_init demo_scoped_lock) s"
  then show "lk_finished s \<or> (\<exists>s'. sl_step demo_scoped_lock s s')"
    using sl_advances [OF sl.reachable_inv [OF refl]] by blast
qed

theorem two_mutex_threads_witness:
  "(\<exists>s. (lk_step demo_lock_order_inversion)\<^sup>*\<^sup>* (lk_init demo_lock_order_inversion) s
      \<and> lk_deadlocked demo_lock_order_inversion s)
   \<and> (\<exists>s'. sl_step demo_scoped_lock (lk_init demo_scoped_lock) s')"
proof -
  have "\<not> lk_finished (lk_init demo_scoped_lock)"
    by (simp add: lk_finished_def lk_init_def demo_scoped_lock_def)
  with two_mutex_threads show ?thesis by blast
qed

end
