(* ===== verification/Arena.thy ===== *)
theory Arena
  imports Prelude
begin

text \<open>
  The bump-pointer arena of \<^verbatim>\<open>performance/07_allocators.cpp\<close>: \<open>alloc\<close>, \<open>make\<close> and
  \<open>reset\<close> over 64-bit sizes, and the allocation loops of its demonstrations.  Pointers
  are offsets into the buffer; the address of the buffer is a parameter where alignment
  of an address is stated.
\<close>

section \<open>The class\<close>

record arena =
  a_cap :: size_t
  a_used :: size_t

definition arena_new :: "size_t \<Rightarrow> arena" where
  "arena_new capacity = \<lparr>a_cap = capacity, a_used = 0\<rparr>"

definition align_up :: "size_t \<Rightarrow> size_t \<Rightarrow> size_t" where
  "align_up used align = (used + align - 1) AND NOT (align - 1)"

text \<open>The offset of the block, or \<open>None\<close> for the null pointer.\<close>

definition alloc :: "size_t \<Rightarrow> size_t \<Rightarrow> arena \<Rightarrow> size_t option \<times> arena" where
  "alloc bytes align a =
     (let aligned = align_up (a_used a) align
      in if aligned + bytes > a_cap a then (None, a)
         else (Some aligned, a\<lparr>a_used := aligned + bytes\<rparr>))"

text \<open>\<open>make\<close> allocates and constructs; on a null pointer it constructs nothing.\<close>

definition make_obj :: "size_t \<Rightarrow> size_t \<Rightarrow> 'v \<Rightarrow> (size_t \<rightharpoonup> 'v) \<times> arena
    \<Rightarrow> size_t option \<times> (size_t \<rightharpoonup> 'v) \<times> arena" where
  "make_obj sz align v s =
     (case alloc sz align (snd s) of
        (None, a) \<Rightarrow> (None, fst s, a)
      | (Some p, a) \<Rightarrow> (Some p, (fst s)(p \<mapsto> v), a))"

definition reset :: "arena \<Rightarrow> arena" where
  "reset a = a\<lparr>a_used := 0\<rparr>"

section \<open>Rounding up to a power of two\<close>

definition pow2 :: "size_t \<Rightarrow> bool" where
  "pow2 x \<longleftrightarrow> x AND (x - 1) = 0 \<and> x \<noteq> 0"

lemma and_not_mask_eq: "x AND NOT (mask k) = x - take_bit k x" for x :: "'a::len word"
proof -
  have "x AND NOT (mask k) = push_bit k (drop_bit k x)"
    by (rule bit_word_eqI) (auto simp: bit_simps)
  also have "\<dots> = x - take_bit k x"
    using bits_ident [of k x] by (simp add: algebra_simps)
  finally show ?thesis .
qed

lemma unat_and_not_pow2:
  assumes "pow2 a"
  shows "unat (x AND NOT (a - 1)) = unat x - unat x mod unat a"
proof -
  obtain k where a: "a = 2 ^ k" and ua: "unat a = 2 ^ k"
    using word_pow2_test [of a] assms by (auto simp: pow2_def)
  have "a - 1 = mask k" by (simp add: a mask_eq_decr_exp)
  then have eq: "x AND NOT (a - 1) = x - take_bit k x" by (simp add: and_not_mask_eq)
  have tb: "unat (take_bit k x) = unat x mod unat a"
    unfolding unsigned_take_bit_eq by (simp add: take_bit_eq_mod ua)
  then have "take_bit k x \<le> x" by (simp add: word_le_nat_alt)
  then show ?thesis by (simp add: eq unat_sub tb)
qed

lemma unat_align_up:
  assumes "pow2 al" and "unat used + unat al \<le> 2 ^ 64"
  shows "unat (align_up used al) = (unat used + unat al - 1) - (unat used + unat al - 1) mod unat al"
proof -
  have "0 < unat al" using assms(1) by (simp add: pow2_def unat_gt_0)
  moreover have "unat (al - 1) = unat al - 1"
    using assms(1) by (simp add: unat_minus_one pow2_def)
  moreover have "used + al - 1 = used + (al - 1)" by simp
  ultimately have "unat (used + al - 1) = unat used + unat al - 1"
    using assms(2) by (simp only: unat_word_ariths) simp
  then show ?thesis by (simp add: align_up_def unat_and_not_pow2 [OF assms(1)])
qed

lemma align_up_props:
  assumes "pow2 al" and "unat used + unat al \<le> 2 ^ 64"
  shows "unat used \<le> unat (align_up used al)"
    and "unat (align_up used al) < unat used + unat al"
    and "unat al dvd unat (align_up used al)"
proof -
  let ?s = "unat used + unat al - 1"
  have pos: "0 < unat al" using assms(1) by (simp add: pow2_def unat_gt_0)
  have lt: "?s mod unat al < unat al" using pos by simp
  have le: "?s mod unat al \<le> ?s" by simp
  note eq = unat_align_up [OF assms]
  show "unat used \<le> unat (align_up used al)" using lt pos unfolding eq by linarith
  show "unat (align_up used al) < unat used + unat al" using pos by (simp add: eq)
  show "unat al dvd unat (align_up used al)" unfolding eq by (rule dvd_minus_mod)
qed

section \<open>Sequences of allocations\<close>

text \<open>A request is its size and its alignment; a block is its offset and its size.\<close>

type_synonym request = "size_t \<times> size_t"
type_synonym block = "size_t \<times> size_t"

fun alloc_all :: "request list \<Rightarrow> arena \<Rightarrow> block list \<times> arena" where
  "alloc_all [] a = ([], a)"
| "alloc_all ((bytes, align) # rs) a =
     (case alloc bytes align a of
        (None, a') \<Rightarrow> alloc_all rs a'
      | (Some p, a') \<Rightarrow> (let (bs, a'') = alloc_all rs a' in ((p, bytes) # bs, a'')))"

text \<open>Requests that cannot wrap the 64-bit arithmetic of \<open>alloc\<close> on this arena.\<close>

definition request_fits :: "arena \<Rightarrow> request \<Rightarrow> bool" where
  "request_fits a r \<longleftrightarrow> pow2 (snd r)
     \<and> unat (a_cap a) + unat (snd r) + unat (fst r) < 2 ^ 64"

definition arena_wf :: "arena \<Rightarrow> bool" where
  "arena_wf a \<longleftrightarrow> a_used a \<le> a_cap a"

lemma alloc_cap [simp]: "a_cap (snd (alloc b al a)) = a_cap a"
  by (simp add: alloc_def Let_def)

lemma alloc_None: "alloc b al a = (None, a') \<Longrightarrow> a' = a"
  by (auto simp: alloc_def Let_def split: if_splits)

lemma alloc_Some:
  assumes ok: "request_fits a (b, al)" and wf: "arena_wf a" and al: "alloc b al a = (Some p, a')"
  shows "unat (a_used a) \<le> unat p" and "unat al dvd unat p"
    and "unat (a_used a') = unat p + unat b" and "unat (a_used a') \<le> unat (a_cap a)"
    and "a_cap a' = a_cap a" and "arena_wf a'"
proof -
  have p2: "pow2 al" and fit: "unat (a_cap a) + unat al + unat b < 2 ^ 64"
    using ok by (auto simp: request_fits_def)
  have u: "unat (a_used a) \<le> unat (a_cap a)" using wf by (simp add: arena_wf_def word_le_nat_alt)
  have bnd: "unat (a_used a) + unat al \<le> 2 ^ 64" using u fit by simp
  have pa: "p = align_up (a_used a) al" and a': "a' = a\<lparr>a_used := p + b\<rparr>"
    and le: "p + b \<le> a_cap a"
    using al by (auto simp: alloc_def Let_def not_less split: if_splits)
  note pr = align_up_props [OF p2 bnd, folded pa]
  show "unat (a_used a) \<le> unat p" and "unat al dvd unat p" by (fact pr(1), fact pr(3))
  have "unat p + unat b < 2 ^ 64" using pr(2) u fit by simp
  then have sum: "unat (p + b) = unat p + unat b" by (simp add: unat_word_ariths)
  show "unat (a_used a') = unat p + unat b" by (simp add: a' sum)
  show "unat (a_used a') \<le> unat (a_cap a)" using le by (simp add: a' word_le_nat_alt)
  show "a_cap a' = a_cap a" by (simp add: a')
  show "arena_wf a'" using le by (simp add: a' arena_wf_def)
qed

definition block_end :: "block \<Rightarrow> nat" where
  "block_end b = unat (fst b) + unat (snd b)"

lemma alloc_all_blocks:
  assumes "arena_wf a" and "\<forall>r \<in> set rs. request_fits a r"
  shows "sorted_wrt (\<lambda>b c. block_end b \<le> unat (fst c)) (fst (alloc_all rs a))
     \<and> (\<forall>b \<in> set (fst (alloc_all rs a)).
          unat (a_used a) \<le> unat (fst b) \<and> block_end b \<le> unat (a_cap a))
     \<and> arena_wf (snd (alloc_all rs a)) \<and> a_cap (snd (alloc_all rs a)) = a_cap a"
  using assms
proof (induction rs arbitrary: a)
  case (Cons r rs)
  obtain b al where r: "r = (b, al)" by fastforce
  have fit: "request_fits a (b, al)" using Cons.prems r by simp
  show ?case
  proof (cases "fst (alloc b al a)")
    case None
    then have "alloc b al a = (None, a)" using alloc_None by (metis prod.collapse)
    with Cons r show ?thesis by simp
  next
    case (Some p)
    then obtain a' where al: "alloc b al a = (Some p, a')" by (metis prod.collapse)
    note s = alloc_Some [OF fit Cons.prems(1) al]
    have "\<forall>r \<in> set rs. request_fits a' r" using Cons.prems(2) s(5) by (simp add: request_fits_def)
    note IH = Cons.IH [OF s(6) this]
    have res: "fst (alloc_all (r # rs) a) = (p, b) # fst (alloc_all rs a')"
      "snd (alloc_all (r # rs) a) = snd (alloc_all rs a')"
      by (simp_all add: r al case_prod_beta)
    have "block_end (p, b) = unat (a_used a')" by (simp add: block_end_def s(3))
    with IH s(1,4,5) show ?thesis
      unfolding res by (fastforce simp: block_end_def)
  qed
qed simp

section \<open>The demonstrations\<close>

text \<open>
  \<open>PriceUpdate\<close> holds an \<^verbatim>\<open>int64_t\<close>, a \<^verbatim>\<open>double\<close> and an \<^verbatim>\<open>int\<close>: 24 bytes aligned to 8.
\<close>

definition price_update_size :: size_t where "price_update_size = 24"
definition price_update_align :: size_t where "price_update_align = 8"

text \<open>One event of \<open>demo_arena\<close> and one repetition of \<open>demo_comparison\<close>: reset, then
  \<open>n\<close> objects; the list holds what \<open>make\<close> returned.\<close>

fun make_n :: "nat \<Rightarrow> arena \<Rightarrow> size_t option list \<times> arena" where
  "make_n 0 a = ([], a)"
| "make_n (Suc n) a =
     (let (p, a') = alloc price_update_size price_update_align a;
          (ps, a'') = make_n n a'
      in (p # ps, a''))"

definition demo_event :: "nat \<Rightarrow> arena \<Rightarrow> size_t option list \<times> arena" where
  "demo_event n a = make_n n (reset a)"

definition demo_arena :: arena where
  "demo_arena = arena_new 65536"

definition demo_comparison_arena :: "nat \<Rightarrow> arena" where
  "demo_comparison_arena n = arena_new (of_nat (n + 16) * price_update_size)"

lemma align_up_8:
  assumes "8 dvd unat u" and "unat u + 8 \<le> 2 ^ 64"
  shows "align_up u 8 = u"
proof -
  have p: "pow2 8" by (simp add: pow2_def)
  have u8: "unat (8 :: size_t) = 8" by simp
  have "unat (align_up u 8) = (unat u + 8 - 1) - (unat u + 8 - 1) mod 8"
    using unat_align_up [OF p, of u] assms(2) unfolding u8 by blast
  then have "unat (align_up u 8) = (unat u + 7) - (unat u + 7) mod 8"
    by (simp add: add.commute)
  also have "(unat u + 7) mod 8 = 7" using assms(1) by presburger
  finally have "unat (align_up u 8) = unat u" by simp
  then show ?thesis by (simp add: word_unat_eq_iff)
qed

lemma make_n_room:
  assumes "8 dvd unat (a_used a)" and "unat (a_used a) + 24 * n \<le> unat (a_cap a)"
    and "unat (a_cap a) < 2 ^ 63"
  shows "fst (make_n n a) = map (\<lambda>k. Some (a_used a + of_nat (24 * k))) [0..<n]"
  using assms
proof (induction n arbitrary: a)
  case (Suc n)
  have "unat (a_used a) + 8 \<le> 2 ^ 64" using Suc.prems by simp
  then have up: "align_up (a_used a) 8 = a_used a" using align_up_8 Suc.prems(1) by blast
  have sum: "unat (a_used a + 24) = unat (a_used a) + 24"
    using Suc.prems by (simp add: unat_word_ariths)
  then have le: "\<not> a_used a + 24 > a_cap a" using Suc.prems by (simp add: word_less_nat_alt)
  let ?a = "a\<lparr>a_used := a_used a + 24\<rparr>"
  have al: "alloc price_update_size price_update_align a = (Some (a_used a), ?a)"
    using up le by (simp add: alloc_def Let_def price_update_size_def price_update_align_def)
  have "fst (make_n n ?a) = map (\<lambda>k. Some (a_used ?a + of_nat (24 * k))) [0..<n]"
    using Suc.prems by (intro Suc.IH) (simp_all add: sum)
  then show ?case
    by (simp add: al case_prod_beta upt_conv_Cons map_Suc_upt [symmetric] algebra_simps del: upt_Suc)
qed simp

section \<open>Properties\<close>

text \<open>
  C6: On requests that cannot wrap the 64-bit arithmetic, the blocks handed out between
  two resets lie inside the buffer, in allocation order and without overlap, and the
  bookkeeping stays within the capacity; a request that does not fit leaves the arena as
  it was.
\<close>

theorem arena_blocks_disjoint:
  assumes "arena_wf a" and "\<forall>r \<in> set rs. request_fits a r"
  shows "sorted_wrt (\<lambda>b c. block_end b \<le> unat (fst c)) (fst (alloc_all rs (reset a)))
     \<and> (\<forall>b \<in> set (fst (alloc_all rs (reset a))). block_end b \<le> unat (a_cap a))
     \<and> arena_wf (snd (alloc_all rs (reset a)))"
proof -
  have "arena_wf (reset a)" and "\<forall>r \<in> set rs. request_fits (reset a) r"
    using assms by (simp_all add: arena_wf_def reset_def request_fits_def)
  from alloc_all_blocks [OF this] show ?thesis by (simp add: reset_def)
qed

theorem arena_blocks_disjoint_witness:
  "sorted_wrt (\<lambda>b c. block_end b \<le> unat (fst c))
     (fst (alloc_all [(10, 16), (3, 4), (100, 8), (4, 1)] (reset (arena_new 64))))
   \<and> fst (alloc_all [(10, 16), (3, 4), (100, 8), (4, 1)] (reset (arena_new 64)))
       = [(0, 10), (12, 3), (15, 4)]"
proof -
  have "arena_wf (arena_new 64)" by (simp add: arena_wf_def arena_new_def)
  moreover have "\<forall>r \<in> set [(10, 16), (3, 4), (100, 8), (4, 1)]. request_fits (arena_new 64) r"
    by (simp add: request_fits_def arena_new_def pow2_def)
  ultimately have "sorted_wrt (\<lambda>b c. block_end b \<le> unat (fst c))
     (fst (alloc_all [(10, 16), (3, 4), (100, 8), (4, 1)] (reset (arena_new 64))))"
    using arena_blocks_disjoint by blast
  then show ?thesis
    by (simp add: arena_new_def reset_def alloc_def align_up_def Let_def)
qed

text \<open>
  The check \<open>aligned + bytes > cap_\<close> is made on the wrapped sum: a request of
  \<open>2^64 - 32\<close> bytes on an arena of 128 bytes with 64 bytes in use succeeds, moves
  \<open>used_\<close> backwards, and the next request overlaps the block handed out before.
\<close>

theorem arena_wraps:
  "\<exists>a1 a2 a3.
     alloc 64 16 (arena_new 128) = (Some 0, a1)
     \<and> alloc (- 32) 16 a1 = (Some 64, a2) \<and> unat (a_cap a2) < 64 + unat (- 32 :: size_t)
     \<and> alloc 32 16 a2 = (Some 32, a3) \<and> a_used a2 < a_used a1"
  by (simp add: arena_new_def alloc_def align_up_def Let_def)

text \<open>
  The per-event pattern never dereferences a null pointer: when \<open>n\<close> objects of 24
  bytes fit the arena, every \<open>make\<close> of an event succeeds, the \<open>k\<close>-th at offset \<open>24 k\<close>,
  whatever was allocated before the event.
\<close>

theorem demo_event_never_null:
  assumes "24 * n \<le> unat (a_cap a)" and "unat (a_cap a) < 2 ^ 63"
  shows "fst (demo_event n a) = map (\<lambda>k. Some (of_nat (24 * k))) [0..<n]"
  using assms make_n_room [of "reset a" n] by (simp add: demo_event_def reset_def)

theorem demo_event_never_null_witness:
  "fst (demo_event 50 demo_arena) = map (\<lambda>k. Some (of_nat (24 * k))) [0..<50]
   \<and> fst (demo_event 50000 (demo_comparison_arena 50000))
       = map (\<lambda>k. Some (of_nat (24 * k))) [0..<50000]"
proof -
  have "fst (demo_event 50 demo_arena) = map (\<lambda>k. Some (of_nat (24 * k))) [0..<50]"
    by (rule demo_event_never_null) (simp_all add: demo_arena_def arena_new_def)
  moreover have "fst (demo_event 50000 (demo_comparison_arena 50000))
       = map (\<lambda>k. Some (of_nat (24 * k))) [0..<50000]"
    by (rule demo_event_never_null)
      (simp_all add: demo_comparison_arena_def arena_new_def price_update_size_def)
  ultimately show ?thesis by blast
qed

text \<open>
  \<open>alloc\<close> aligns the offset, not the address: the returned address is aligned when
  the alignment of the buffer's address is a multiple of the requested one, and an offset
  that is a multiple of 64 in a buffer aligned to 16 (what \<open>new std::byte[]\<close> guarantees)
  need not be.
\<close>

theorem arena_alignment:
  "(\<forall>base a b al p a'. request_fits a (b, al) \<and> arena_wf a \<and> alloc b al a = (Some p, a')
      \<and> unat al dvd base \<longrightarrow> unat al dvd base + unat p)
   \<and> (\<exists>base a b p a'. 16 dvd base \<and> request_fits a (b, 64) \<and> arena_wf a
      \<and> alloc b 64 a = (Some p, a') \<and> \<not> (64 :: nat) dvd base + unat p)"
proof (intro conjI)
  show "\<forall>base a b al p a'. request_fits a (b, al) \<and> arena_wf a \<and> alloc b al a = (Some p, a')
      \<and> unat al dvd base \<longrightarrow> unat al dvd base + unat p"
    using alloc_Some(2) by (meson dvd_add)
  show "\<exists>base a b p a'. 16 dvd base \<and> request_fits a (b, 64) \<and> arena_wf a
      \<and> alloc b 64 a = (Some p, a') \<and> \<not> (64 :: nat) dvd base + unat p"
    by (intro exI [of _ 16] exI [of _ "arena_new 128"] exI [of _ 8] exI [of _ 0])
      (auto simp: request_fits_def pow2_def arena_wf_def arena_new_def alloc_def align_up_def)
qed

theorem arena_alignment_witness:
  "\<exists>a'. alloc 10 8 (arena_new 64) = (Some 0, a') \<and> unat (8 :: size_t) dvd 4096 + unat (0 :: size_t)"
proof -
  obtain a' where al: "alloc 10 8 (arena_new 64) = (Some 0, a')"
    by (simp add: arena_new_def alloc_def align_up_def)
  moreover have "request_fits (arena_new 64) (10, 8) \<and> arena_wf (arena_new 64)"
    by (simp add: request_fits_def pow2_def arena_new_def arena_wf_def)
  moreover have "unat (8 :: size_t) dvd 4096" by simp
  ultimately have "unat (8 :: size_t) dvd 4096 + unat (0 :: size_t)"
    using arena_alignment by blast
  with al show ?thesis by blast
qed

end
