(* ===== verification/Worker_Pool.thy ===== *)
theory Worker_Pool
  imports Prelude
begin

text \<open>
  Worker threads that drain a shared queue under a mutex and a condition variable:
  \<open>ThreadPool\<close> of \<^verbatim>\<open>concurrency/08_thread_pool.cpp\<close>, \<open>TaskQueue\<close> of
  \<^verbatim>\<open>concurrency/07_async_handlers.cpp\<close>, the consumers of
  \<^verbatim>\<open>concurrency/03_condition_variable.cpp\<close> and the pools of
  \<^verbatim>\<open>coroutines/05_thread_hop.cpp\<close> and \<^verbatim>\<open>coroutines/09_when_all.cpp\<close>.
  The four classes differ in how a worker decides, under the lock, between waiting,
  leaving and taking a task; the rest of the protocol is one transition system over that
  decision.  A critical section is one step (the mutex makes it indivisible), the
  notification after it is a step of its own, and a waiting worker may wake spuriously.
\<close>

section \<open>The decision of a worker that holds the lock\<close>

datatype decision = Sleep | Leave | Take

text \<open>
  The arguments are the shutdown flag and whether the queue is empty.  \<open>cv.wait(lk, pred)\<close>
  sleeps while the predicate is false.
\<close>

definition work_decide :: "bool \<Rightarrow> bool \<Rightarrow> decision" where
  "work_decide done emp =
     (if \<not> (\<not> emp \<or> done) then Sleep
      else if done \<and> emp then Leave
      else Take)"

definition run_decide :: "bool \<Rightarrow> bool \<Rightarrow> decision" where
  "run_decide stop emp =
     (if \<not> (\<not> emp \<or> stop) then Sleep
      else if emp then Leave
      else Take)"

definition consumer_decide :: "bool \<Rightarrow> bool \<Rightarrow> decision" where
  "consumer_decide done emp =
     (if \<not> (\<not> emp \<or> done) then Sleep
      else if \<not> emp then Take
      else Leave)"

definition worker_decide :: "bool \<Rightarrow> bool \<Rightarrow> decision" where
  "worker_decide stop emp =
     (if \<not> (stop \<or> \<not> emp) then Sleep
      else if stop \<and> emp then Leave
      else Take)"

section \<open>The pool\<close>

datatype worker = WTop | WSleep | WRun nat | WExit

datatype cmd = Submit | Get nat

datatype main_pc = MRun | MNotifyOne | MNotifyAll | MJoin | MEnd

text \<open>
  Tasks are numbered in submission order; \<open>results\<close> is what their packaged tasks have
  stored, \<open>started\<close> the order in which workers took them, \<open>outs\<close> what the main thread
  read from its futures.
\<close>

record 'r pool =
  queue :: "nat list"
  down :: bool
  workers :: "worker list"
  results :: "nat \<rightharpoonup> 'r"
  submitted :: nat
  started :: "nat list"
  prog :: "cmd list"
  main_at :: main_pc
  outs :: "'r list"

definition pool_init :: "nat \<Rightarrow> cmd list \<Rightarrow> 'r pool" where
  "pool_init n p = \<lparr>queue = [], down = False, workers = replicate n WTop, results = Map.empty,
     submitted = 0, started = [], prog = p, main_at = MRun, outs = []\<rparr>"

definition wake :: "worker \<Rightarrow> worker" where
  "wake w = (if w = WSleep then WTop else w)"

inductive pool_step ::
  "(bool \<Rightarrow> bool \<Rightarrow> decision) \<Rightarrow> (nat \<Rightarrow> 'r) \<Rightarrow> 'r pool \<Rightarrow> 'r pool \<Rightarrow> bool"
  for decide :: "bool \<Rightarrow> bool \<Rightarrow> decision" and body :: "nat \<Rightarrow> 'r" where
  m_submit: "main_at s = MRun \<Longrightarrow> prog s = Submit # p \<Longrightarrow>
     pool_step decide body s
       (s\<lparr>queue := queue s @ [submitted s], submitted := Suc (submitted s), prog := p,
          main_at := MNotifyOne\<rparr>)"
| m_notify: "main_at s = MNotifyOne \<Longrightarrow> w < length (workers s) \<Longrightarrow> workers s ! w = WSleep \<Longrightarrow>
     pool_step decide body s (s\<lparr>workers := (workers s)[w := WTop], main_at := MRun\<rparr>)"
| m_notify_none: "main_at s = MNotifyOne \<Longrightarrow> WSleep \<notin> set (workers s) \<Longrightarrow>
     pool_step decide body s (s\<lparr>main_at := MRun\<rparr>)"
| m_get: "main_at s = MRun \<Longrightarrow> prog s = Get i # p \<Longrightarrow> results s i = Some v \<Longrightarrow>
     pool_step decide body s (s\<lparr>outs := outs s @ [v], prog := p\<rparr>)"
| m_down: "main_at s = MRun \<Longrightarrow> prog s = [] \<Longrightarrow>
     pool_step decide body s (s\<lparr>down := True, main_at := MNotifyAll\<rparr>)"
| m_notify_all: "main_at s = MNotifyAll \<Longrightarrow>
     pool_step decide body s (s\<lparr>workers := map wake (workers s), main_at := MJoin\<rparr>)"
| m_join: "main_at s = MJoin \<Longrightarrow> \<forall>w \<in> set (workers s). w = WExit \<Longrightarrow>
     pool_step decide body s (s\<lparr>main_at := MEnd\<rparr>)"
| w_sleep: "w < length (workers s) \<Longrightarrow> workers s ! w = WTop \<Longrightarrow>
     decide (down s) (queue s = []) = Sleep \<Longrightarrow>
     pool_step decide body s (s\<lparr>workers := (workers s)[w := WSleep]\<rparr>)"
| w_leave: "w < length (workers s) \<Longrightarrow> workers s ! w = WTop \<Longrightarrow>
     decide (down s) (queue s = []) = Leave \<Longrightarrow>
     pool_step decide body s (s\<lparr>workers := (workers s)[w := WExit]\<rparr>)"
| w_take: "w < length (workers s) \<Longrightarrow> workers s ! w = WTop \<Longrightarrow>
     decide (down s) (queue s = []) = Take \<Longrightarrow>
     pool_step decide body s
       (s\<lparr>workers := (workers s)[w := WRun (hd (queue s))], queue := tl (queue s),
          started := started s @ [hd (queue s)]\<rparr>)"
| w_run: "w < length (workers s) \<Longrightarrow> workers s ! w = WRun t \<Longrightarrow>
     pool_step decide body s
       (s\<lparr>workers := (workers s)[w := WTop], results := (results s)(t \<mapsto> body t)\<rparr>)"

inductive spurious :: "'r pool \<Rightarrow> 'r pool \<Rightarrow> bool" where
  "w < length (workers s) \<Longrightarrow> workers s ! w = WSleep \<Longrightarrow>
     spurious s (s\<lparr>workers := (workers s)[w := WTop]\<rparr>)"

definition pool_move ::
  "(bool \<Rightarrow> bool \<Rightarrow> decision) \<Rightarrow> (nat \<Rightarrow> 'r) \<Rightarrow> 'r pool \<Rightarrow> 'r pool \<Rightarrow> bool" where
  "pool_move decide body s t \<longleftrightarrow> pool_step decide body s t \<or> spurious s t"

text \<open>The main thread asks for a future only after it has submitted the task.\<close>

fun prog_ok :: "nat \<Rightarrow> cmd list \<Rightarrow> bool" where
  "prog_ok k [] = True"
| "prog_ok k (Submit # p) = prog_ok (Suc k) p"
| "prog_ok k (Get i # p) = (i < k \<and> prog_ok k p)"

fun gets :: "cmd list \<Rightarrow> nat list" where
  "gets [] = []"
| "gets (Submit # p) = gets p"
| "gets (Get i # p) = i # gets p"

fun submits :: "cmd list \<Rightarrow> nat" where
  "submits [] = 0"
| "submits (Submit # p) = Suc (submits p)"
| "submits (Get i # p) = submits p"

section \<open>The programs\<close>

text \<open>\<open>main\<close> of \<^verbatim>\<open>08_thread_pool.cpp\<close>: submit eight tasks to four workers, then read the
  eight futures in order; the pool is destroyed at the end of the scope.\<close>

definition main_prog :: "cmd list" where
  "main_prog = replicate 8 Submit @ map Get [0..<8]"

definition main_body :: "nat \<Rightarrow> int" where
  "main_body i = int i * int i"

definition tq_main_prog :: "cmd list" where
  "tq_main_prog = replicate 5 Submit"

definition producer_prog :: "cmd list" where
  "producer_prog = replicate 6 Submit"

section \<open>Invariant\<close>

definition awake :: "worker \<Rightarrow> bool" where
  "awake w \<longleftrightarrow> w \<noteq> WSleep \<and> w \<noteq> WExit"

definition tasks_inv :: "(nat \<Rightarrow> 'r) \<Rightarrow> 'r pool \<Rightarrow> bool" where
  "tasks_inv body s \<longleftrightarrow>
     started s @ queue s = [0..<submitted s]
     \<and> (\<forall>t \<in> set (started s). results s t = Some (body t) \<or> WRun t \<in> set (workers s))
     \<and> (\<forall>t v. results s t = Some v \<longrightarrow> v = body t)"

definition main_inv :: "(nat \<Rightarrow> 'r) \<Rightarrow> cmd list \<Rightarrow> 'r pool \<Rightarrow> bool" where
  "main_inv body p0 s \<longleftrightarrow>
     outs s @ map body (gets (prog s)) = map body (gets p0)
     \<and> submitted s + submits (prog s) = submits p0
     \<and> prog_ok (submitted s) (prog s)
     \<and> (down s \<longleftrightarrow> main_at s \<in> {MNotifyAll, MJoin, MEnd})
     \<and> (down s \<longrightarrow> prog s = [])"

definition workers_inv :: "nat \<Rightarrow> 'r pool \<Rightarrow> bool" where
  "workers_inv n s \<longleftrightarrow>
     length (workers s) = n
     \<and> (WExit \<in> set (workers s) \<longrightarrow> down s \<and> queue s = [])
     \<and> (main_at s \<in> {MJoin, MEnd} \<longrightarrow> WSleep \<notin> set (workers s))
     \<and> (main_at s = MEnd \<longrightarrow> (\<forall>w \<in> set (workers s). w = WExit))
     \<and> (queue s \<noteq> [] \<longrightarrow> main_at s = MNotifyOne \<or> (\<exists>w \<in> set (workers s). awake w))"

definition pool_inv :: "nat \<Rightarrow> (nat \<Rightarrow> 'r) \<Rightarrow> cmd list \<Rightarrow> 'r pool \<Rightarrow> bool" where
  "pool_inv n body p0 s \<longleftrightarrow> tasks_inv body s \<and> main_inv body p0 s \<and> workers_inv n s"

text \<open>What is left to do; every step but a spurious wake-up decreases it.\<close>

fun worker_weight :: "worker \<Rightarrow> nat" where
  "worker_weight WTop = 1"
| "worker_weight (WRun t) = 2"
| "worker_weight WSleep = 0"
| "worker_weight WExit = 0"

fun main_weight :: "nat \<Rightarrow> main_pc \<Rightarrow> nat" where
  "main_weight n MEnd = 0"
| "main_weight n MJoin = 1"
| "main_weight n MNotifyAll = n + 2"
| "main_weight n MRun = n + 3"
| "main_weight n MNotifyOne = n + 5"

definition pool_left :: "nat \<Rightarrow> 'r pool \<Rightarrow> nat" where
  "pool_left n s = 5 * length (prog s) + 2 * length (queue s)
     + sum_list (map worker_weight (workers s)) + main_weight n (main_at s)"

lemma weight_update:
  "w < length ws \<Longrightarrow> sum_list (map worker_weight (ws[w := x])) + worker_weight (ws ! w)
     = sum_list (map worker_weight ws) + worker_weight x"
  using sum_list_update_nat [of w "map worker_weight ws" "worker_weight x"] by (simp add: map_update)

lemma weight_wake: "sum_list (map worker_weight (map wake ws)) \<le> sum_list (map worker_weight ws) + length ws"
  by (induction ws) (auto simp: wake_def)

lemma in_set_update: "w < length ws \<Longrightarrow> x \<in> set (ws[w := x])"
  by (simp add: set_update_memI)

lemma set_update_keep: "y \<in> set ws \<Longrightarrow> ws ! w \<noteq> y \<Longrightarrow> y \<in> set (ws[w := x])"
  by (metis in_set_conv_nth length_list_update nth_list_update_neq)

lemma set_update_other: "y \<in> set (ws[w := x]) \<Longrightarrow> y = x \<or> y \<in> set ws"
  by (meson insertE set_update_subset_insert subsetD)

section \<open>The contract of a worker loop\<close>

locale worker_loop =
  fixes decide :: "bool \<Rightarrow> bool \<Rightarrow> decision"
  assumes decide_spec: "decide d e = (if \<not> e then Take else if d then Leave else Sleep)"
begin

lemma step_tasks_inv:
  assumes inv: "tasks_inv body s" and st: "pool_step decide body s t"
  shows "tasks_inv body t"
  using st
proof cases
  case (w_take w)
  then have ne: "queue s \<noteq> []" by (auto simp: decide_spec split: if_splits)
  have "started t @ queue t = started s @ queue s" using w_take ne by simp
  moreover have "WRun u \<in> set (workers t)" if "WRun u \<in> set (workers s)" for u
    using that w_take by (auto intro: set_update_keep)
  moreover have "WRun (hd (queue s)) \<in> set (workers t)" using w_take by (simp add: in_set_update)
  ultimately show ?thesis using inv w_take by (auto simp: tasks_inv_def)
next
  case (w_run w u)
  have "WRun v \<in> set (workers t)" if "WRun v \<in> set (workers s)" and "v \<noteq> u" for v
    using that w_run by (auto intro: set_update_keep)
  with inv w_run show ?thesis by (auto simp: tasks_inv_def)
next
  case m_notify_all
  then have "WRun u \<in> set (workers t)" if "WRun u \<in> set (workers s)" for u
    using that by (force simp: wake_def)
  with inv m_notify_all show ?thesis by (auto simp: tasks_inv_def)
qed (use inv in \<open>auto simp: tasks_inv_def intro: set_update_keep\<close>)

lemma step_main_inv:
  assumes inv: "tasks_inv body s" "main_inv body p0 s" and st: "pool_step decide body s t"
  shows "main_inv body p0 t"
  using st
proof cases
  case (m_get i p v)
  with inv show ?thesis by (auto simp: main_inv_def tasks_inv_def)
qed (use inv in \<open>auto simp: main_inv_def\<close>)

lemma step_workers_inv:
  assumes inv: "main_inv body p0 s" "workers_inv n s" and n: "0 < n" and st: "pool_step decide body s t"
  shows "workers_inv n t"
  using st
proof cases
  case (m_submit p)
  with inv show ?thesis by (auto simp: workers_inv_def main_inv_def)
next
  case (m_notify w)
  with inv show ?thesis
    by (auto simp: workers_inv_def main_inv_def awake_def intro: in_set_update dest: set_update_other)
next
  case m_notify_none
  have mem: "workers s ! 0 \<in> set (workers s)" using inv n by (simp add: workers_inv_def)
  have "awake (workers s ! 0)" if "\<not> down s"
    using m_notify_none inv(2) that mem unfolding workers_inv_def awake_def by metis
  with inv m_notify_none mem show ?thesis by (auto simp: workers_inv_def main_inv_def)
next
  case m_notify_all
  with inv show ?thesis by (auto simp: workers_inv_def main_inv_def wake_def awake_def split: if_splits)
next
  case (w_sleep w)
  then have "\<not> down s" "queue s = []" by (auto simp: decide_spec split: if_splits)
  with inv w_sleep show ?thesis
    by (auto simp: workers_inv_def main_inv_def dest: set_update_other)
next
  case (w_leave w)
  then have "down s" "queue s = []" by (auto simp: decide_spec split: if_splits)
  with inv w_leave show ?thesis
    by (auto simp: workers_inv_def main_inv_def dest: set_update_other)
next
  case (w_take w)
  then have "queue s \<noteq> []" by (auto simp: decide_spec split: if_splits)
  with inv w_take show ?thesis
    by (auto simp: workers_inv_def awake_def intro: in_set_update dest: set_update_other)
next
  case (w_run w u)
  then have "WRun u \<in> set (workers s)" by (metis nth_mem)
  then have "main_at s \<noteq> MEnd" using inv(2) by (auto simp: workers_inv_def)
  with inv w_run show ?thesis
    by (auto simp: workers_inv_def awake_def intro: in_set_update dest: set_update_other)
qed (use inv in \<open>auto simp: workers_inv_def main_inv_def\<close>)

lemma spurious_inv:
  assumes inv: "pool_inv n body p0 s" and st: "spurious s t"
  shows "pool_inv n body p0 t"
  using st
proof cases
  case (1 w)
  have "WRun u \<in> set (workers t)" if "WRun u \<in> set (workers s)" for u
    using that 1 by (auto intro: set_update_keep)
  moreover have "awake WTop" by (simp add: awake_def)
  moreover have "\<exists>w \<in> set (workers t). awake w" using 1 in_set_update calculation(2) by fastforce
  moreover have "WExit \<in> set (workers t) \<Longrightarrow> WExit \<in> set (workers s)"
    "WSleep \<in> set (workers t) \<Longrightarrow> WSleep \<in> set (workers s)"
    using 1 set_update_other by fastforce+
  moreover have "main_at s \<noteq> MEnd" using 1 inv nth_mem by (fastforce simp: pool_inv_def workers_inv_def)
  ultimately show ?thesis using inv 1 by (auto simp: pool_inv_def tasks_inv_def main_inv_def workers_inv_def)
qed

lemma move_inv:
  assumes "0 < n" and "pool_inv n body p0 s" and "pool_move decide body s t"
  shows "pool_inv n body p0 t"
  using assms step_tasks_inv step_main_inv step_workers_inv spurious_inv
  unfolding pool_move_def pool_inv_def by (metis pool_inv_def)

lemma init_inv: "0 < n \<Longrightarrow> prog_ok 0 p0 \<Longrightarrow> pool_inv n body p0 (pool_init n p0)"
  by (auto simp: pool_inv_def tasks_inv_def main_inv_def workers_inv_def pool_init_def)

lemma pool_system:
  assumes "0 < n" and "prog_ok 0 p0"
  shows "inv_system (\<lambda>s. s = pool_init n p0) (pool_move decide body) (pool_inv n body p0)"
  using assms by unfold_locales (auto simp: init_inv intro: move_inv)

lemma reach_inv:
  assumes "0 < n" and "prog_ok 0 p0" and "(pool_move decide body)\<^sup>*\<^sup>* (pool_init n p0) s"
  shows "pool_inv n body p0 s"
  using inv_system.reachable_inv [OF pool_system [OF assms(1,2)] refl assms(3)] .

lemma awake_steps:
  assumes "w \<in> set (workers s)" and "awake w"
  shows "\<exists>t. pool_step decide body s t"
proof -
  from assms(1) obtain k where k: "k < length (workers s)" "workers s ! k = w"
    by (auto simp: in_set_conv_nth)
  show ?thesis
  proof (cases w)
    case WTop
    then show ?thesis
      using k w_sleep [of k s decide body] w_leave [of k s decide body] w_take [of k s decide body]
      by (cases "decide (down s) (queue s = [])") blast+
  next
    case (WRun t)
    then show ?thesis using k w_run by blast
  qed (use assms(2) in \<open>auto simp: awake_def\<close>)
qed

lemma run_not_stuck:
  assumes inv: "pool_inv n body p0 s" and "main_at s = MRun"
  shows "\<exists>t. pool_step decide body s t"
proof (cases "prog s")
  case Nil
  then show ?thesis using assms(2) m_down by blast
next
  case (Cons c p)
  show ?thesis
  proof (cases c)
    case Submit
    then show ?thesis using m_submit [OF assms(2), of p] Cons by blast
  next
    case (Get i)
    with inv Cons have i: "i < submitted s" by (simp add: pool_inv_def main_inv_def)
    then have "i \<in> set (started s @ queue s)" using inv by (simp add: pool_inv_def tasks_inv_def)
    moreover have "i \<in> set (started s) \<Longrightarrow> results s i = Some (body i) \<or> WRun i \<in> set (workers s)"
      using inv by (simp add: pool_inv_def tasks_inv_def)
    ultimately consider "results s i = Some (body i)" | "WRun i \<in> set (workers s)" | "queue s \<noteq> []"
      by (cases "queue s") auto
    then show ?thesis
    proof cases
      case 1
      then show ?thesis using m_get [OF assms(2), of i p "body i"] Cons Get by blast
    next
      case 2
      then show ?thesis by (rule awake_steps) (simp add: awake_def)
    next
      case 3
      then show ?thesis using inv assms(2) awake_steps by (auto simp: pool_inv_def workers_inv_def)
    qed
  qed
qed

lemma not_stuck:
  assumes inv: "pool_inv n body p0 s" and "main_at s \<noteq> MEnd"
  shows "\<exists>t. pool_step decide body s t"
proof (cases "main_at s")
  case MRun
  with inv show ?thesis by (rule run_not_stuck)
next
  case MNotifyOne
  then show ?thesis using m_notify m_notify_none by (metis in_set_conv_nth)
next
  case MNotifyAll
  then show ?thesis using m_notify_all by blast
next
  case MJoin
  show ?thesis
  proof (cases "\<forall>w \<in> set (workers s). w = WExit")
    case True
    then show ?thesis using MJoin m_join by blast
  next
    case False
    then obtain w where w: "w \<in> set (workers s)" "w \<noteq> WExit" by blast
    with inv MJoin have "w \<noteq> WSleep" by (auto simp: pool_inv_def workers_inv_def)
    with w show ?thesis using awake_steps [of w s body] by (auto simp: awake_def)
  qed
qed (use assms(2) in simp)

lemma step_decreases:
  assumes inv: "pool_inv n body p0 s" and st: "pool_step decide body s t"
  shows "pool_left n t < pool_left n s"
  using st
proof cases
  case (m_notify w)
  with weight_update [of w "workers s" WTop] show ?thesis by (simp add: pool_left_def)
next
  case m_notify_all
  with weight_wake [of "workers s"] inv show ?thesis
    by (simp add: pool_left_def pool_inv_def workers_inv_def del: map_map)
next
  case (w_sleep w)
  with weight_update [of w "workers s" WSleep] show ?thesis by (simp add: pool_left_def)
next
  case (w_leave w)
  with weight_update [of w "workers s" WExit] show ?thesis by (simp add: pool_left_def)
next
  case (w_take w)
  then obtain q qs where "queue s = q # qs"
    by (cases "queue s") (auto simp: decide_spec split: if_splits)
  with w_take weight_update [of w "workers s" "WRun (hd (queue s))"] show ?thesis
    by (simp add: pool_left_def)
next
  case (w_run w u)
  with weight_update [of w "workers s" WTop] show ?thesis by (simp add: pool_left_def)
qed (simp_all add: pool_left_def)

lemma can_end:
  assumes n: "0 < n" and "pool_inv n body p0 s"
  shows "\<exists>t. (pool_step decide body)\<^sup>*\<^sup>* s t \<and> main_at t = MEnd"
  using assms(2)
proof (induction "pool_left n s" arbitrary: s rule: less_induct)
  case less
  show ?case
  proof (cases "main_at s = MEnd")
    case False
    then obtain t where st: "pool_step decide body s t" using not_stuck [OF less.prems] by blast
    have "pool_inv n body p0 t" using move_inv [OF n less.prems] st by (simp add: pool_move_def)
    with less.hyps step_decreases [OF less.prems st]
    have "\<exists>u. (pool_step decide body)\<^sup>*\<^sup>* t u \<and> main_at u = MEnd" by blast
    with st show ?thesis by (meson converse_rtranclp_into_rtranclp)
  qed blast
qed

text \<open>At the end every submitted task has been started once, in order, and has its result.\<close>

lemma end_complete:
  assumes inv: "pool_inv n body p0 s" and fin: "main_at s = MEnd" and n: "0 < n"
  shows "started s = [0..<submits p0] \<and> (\<forall>t < submits p0. results s t = Some (body t))
     \<and> outs s = map body (gets p0)"
proof -
  have down: "down s" "prog s = []" using inv fin by (auto simp: pool_inv_def main_inv_def)
  have ws: "\<forall>w \<in> set (workers s). w = WExit" "length (workers s) = n"
    using inv fin by (auto simp: pool_inv_def workers_inv_def)
  then have "WExit \<in> set (workers s)" using n by (metis length_pos_if_in_set nth_mem)
  then have "queue s = []" using inv by (simp add: pool_inv_def workers_inv_def)
  then have st: "started s = [0..<submits p0]"
    using inv down by (simp add: pool_inv_def tasks_inv_def main_inv_def)
  have "results s t = Some (body t)" if "t < submits p0" for t
    using inv ws(1) st that by (fastforce simp: pool_inv_def tasks_inv_def)
  with st show ?thesis using inv down by (simp add: pool_inv_def main_inv_def)
qed

end

interpretation thread_pool: worker_loop work_decide
  by unfold_locales (simp add: work_decide_def)

interpretation task_queue: worker_loop run_decide
  by unfold_locales (simp add: run_decide_def)

interpretation cv_consumer: worker_loop consumer_decide
  by unfold_locales (simp add: consumer_decide_def)

interpretation hop_pool: worker_loop worker_decide
  by unfold_locales (simp add: worker_decide_def)

section \<open>Properties\<close>

text \<open>
  C7: \<open>ThreadPool\<close> of \<open>08_thread_pool.cpp\<close>: when the destructor returns, every submitted
  task has been started exactly once, in submission order, every packaged task holds its
  value, and the main thread has read the values of the futures it asked for in the order
  it asked for them, whatever the interleaving of the workers and of spurious wake-ups.
\<close>

theorem thread_pool_complete:
  assumes "0 < n" and "prog_ok 0 p" and "(pool_move work_decide body)\<^sup>*\<^sup>* (pool_init n p) s"
    and "main_at s = MEnd"
  shows "started s = [0..<submits p] \<and> (\<forall>t < submits p. results s t = Some (body t))
     \<and> outs s = map body (gets p)"
  using thread_pool.end_complete [OF thread_pool.reach_inv [OF assms(1-3)] assms(4,1)] .

text \<open>
  No lost wake-up: in every reachable state of \<open>ThreadPool\<close> in which the main thread
  has not come back from the destructor, a step other than a spurious wake-up is possible,
  also when the main thread is blocked on a future.
\<close>

theorem thread_pool_deadlock_free:
  assumes "0 < n" and "prog_ok 0 p" and "(pool_move work_decide body)\<^sup>*\<^sup>* (pool_init n p) s"
    and "main_at s \<noteq> MEnd"
  shows "\<exists>t. pool_step work_decide body s t"
  using thread_pool.not_stuck [OF thread_pool.reach_inv [OF assms(1-3)] assms(4)] .

text \<open>
  C8: The pool terminates: every step other than a spurious wake-up decreases
  \<open>pool_left\<close>, so a run makes at most \<open>pool_left\<close> such steps between wake-ups and, with
  the previous property, ends in \<open>MEnd\<close>; from every reachable state that end is reachable.
\<close>

theorem thread_pool_terminates:
  assumes "0 < n" and "prog_ok 0 p" and "(pool_move work_decide body)\<^sup>*\<^sup>* (pool_init n p) s"
  shows "(\<forall>t. pool_step work_decide body s t \<longrightarrow> pool_left n t < pool_left n s)
     \<and> (\<exists>t. (pool_step work_decide body)\<^sup>*\<^sup>* s t \<and> main_at t = MEnd)"
proof -
  have inv: "pool_inv n body p s" using thread_pool.reach_inv [OF assms] .
  with thread_pool.can_end [OF assms(1) inv] thread_pool.step_decreases show ?thesis by blast
qed

text \<open>
  The same three guarantees for \<open>TaskQueue\<close> of \<open>07_async_handlers.cpp\<close> (one worker),
  for the two consumers of \<open>03_condition_variable.cpp\<close> and for the pools of the
  coroutine examples: whichever of the loops the workers run, the queue is drained and
  the threads are joined.
\<close>

theorem other_pools_complete:
  assumes "d \<in> {run_decide, consumer_decide, worker_decide}" and "0 < n" and "prog_ok 0 p"
    and "(pool_move d body)\<^sup>*\<^sup>* (pool_init n p) s"
  shows "(main_at s = MEnd \<longrightarrow> started s = [0..<submits p] \<and> (\<forall>t < submits p. results s t = Some (body t)))
     \<and> (main_at s \<noteq> MEnd \<longrightarrow> (\<exists>t. pool_step d body s t))
     \<and> (\<exists>t. (pool_step d body)\<^sup>*\<^sup>* s t \<and> main_at t = MEnd)"
proof -
  have loop: "worker_loop d"
    using assms(1) task_queue.worker_loop_axioms cv_consumer.worker_loop_axioms
      hop_pool.worker_loop_axioms by auto
  have inv: "pool_inv n body p s" using worker_loop.reach_inv [OF loop assms(2-4)] .
  show ?thesis
    using worker_loop.end_complete [OF loop inv _ assms(2)] worker_loop.not_stuck [OF loop inv]
      worker_loop.can_end [OF loop assms(2) inv] by blast
qed

section \<open>Witnesses\<close>

lemma main_prog_ok: "prog_ok 0 main_prog \<and> submits main_prog = 8 \<and> gets main_prog = [0..<8]"
  by (simp add: main_prog_def upt_rec eval_nat_numeral)

theorem thread_pool_terminates_witness:
  "\<exists>t. (pool_step work_decide main_body)\<^sup>*\<^sup>* (pool_init 4 main_prog) t \<and> main_at t = MEnd"
  using thread_pool_terminates [of 4 main_prog main_body "pool_init 4 main_prog"] main_prog_ok by simp

lemma step_move: "(pool_step d b)\<^sup>*\<^sup>* s t \<Longrightarrow> (pool_move d b)\<^sup>*\<^sup>* s t"
  by (erule rtranclp_mono [THEN predicate2D, rotated]) (auto simp: pool_move_def)

theorem thread_pool_complete_witness:
  "\<exists>s. (pool_move work_decide main_body)\<^sup>*\<^sup>* (pool_init 4 main_prog) s \<and> main_at s = MEnd
     \<and> outs s = [0, 1, 4, 9, 16, 25, 36, 49]"
proof -
  have inv: "pool_inv 4 main_body main_prog (pool_init 4 main_prog)"
    by (rule thread_pool.init_inv) (simp_all add: main_prog_ok)
  obtain s where st: "(pool_step work_decide main_body)\<^sup>*\<^sup>* (pool_init 4 main_prog) s"
    and e: "main_at s = MEnd"
    using thread_pool.can_end [OF _ inv] by auto
  have "outs s = map main_body (gets main_prog)"
    using thread_pool_complete [OF _ _ step_move [OF st] e] main_prog_ok by simp
  also have "\<dots> = [0, 1, 4, 9, 16, 25, 36, 49]"
    using main_prog_ok by (simp add: main_body_def upt_rec eval_nat_numeral)
  finally show ?thesis using step_move [OF st] e by blast
qed

theorem thread_pool_deadlock_free_witness:
  "\<exists>t. pool_step work_decide main_body (pool_init 4 main_prog) t"
  using thread_pool_deadlock_free [of 4 main_prog main_body "pool_init 4 main_prog"] main_prog_ok
  by (simp add: pool_init_def)

theorem other_pools_complete_witness:
  "\<exists>t. (pool_step run_decide main_body)\<^sup>*\<^sup>* (pool_init 1 tq_main_prog) t \<and> main_at t = MEnd"
  using other_pools_complete [of run_decide 1 tq_main_prog main_body "pool_init 1 tq_main_prog"]
  by (simp add: tq_main_prog_def numeral_eq_Suc)

end
