(* ===== verification/Copy_Swap.thy ===== *)
theory Copy_Swap
  imports Prelude
begin

text \<open>
  The resource-owning classes written with the copy-and-swap idiom: \<open>Buffer\<close> of
  \<^verbatim>\<open>errors/04_exception_safety.cpp\<close> and \<open>String\<close> of \<^verbatim>\<open>oop/05_copy_and_swap.cpp\<close>, over an
  explicit free store.  \<open>new\<close> may throw: whether it succeeds is a parameter of each operation
  that allocates.
\<close>

section \<open>The free store\<close>

datatype cs_error = Bad_Alloc | Null_Read

record 'a mem =
  blocks :: "nat \<Rightarrow> 'a list option"
  next_block :: nat
  bad_free :: bool

definition mem_empty :: "'a mem" where
  "mem_empty = \<lparr>blocks = (\<lambda>_. None), next_block = 0, bad_free = False\<rparr>"

definition mem_ok :: "'a mem \<Rightarrow> bool" where
  "mem_ok m \<longleftrightarrow> \<not> bad_free m \<and> (\<forall>p. next_block m \<le> p \<longrightarrow> blocks m p = None)"

definition mem_new :: "'a list \<Rightarrow> 'a mem \<Rightarrow> nat \<times> 'a mem" where
  "mem_new xs m = (next_block m, m\<lparr>blocks := (blocks m)(next_block m := Some xs), next_block := Suc (next_block m)\<rparr>)"

text \<open>\<open>delete[]\<close>: nothing for the null pointer, undefined for a block that is not allocated.\<close>

definition mem_delete :: "nat option \<Rightarrow> 'a mem \<Rightarrow> 'a mem" where
  "mem_delete q m =
     (case q of
        None \<Rightarrow> m
      | Some p \<Rightarrow> m\<lparr>blocks := (blocks m)(p := None), bad_free := bad_free m \<or> blocks m p = None\<rparr>)"

section \<open>The classes\<close>

record owner =
  data_ptr :: "nat option"
  data_size :: nat

text \<open>\<open>String\<close> stores a terminator after its characters, \<open>Buffer\<close> does not: \<open>extra\<close> is 1 or 0.\<close>

definition construct :: "bool \<Rightarrow> nat \<Rightarrow> 'a list \<Rightarrow> 'a mem \<Rightarrow> cs_error + owner \<times> 'a mem" where
  "construct ok n xs m =
     (if ok then (case mem_new xs m of (p, m') \<Rightarrow> Inr (\<lparr>data_ptr = Some p, data_size = n\<rparr>, m')) else Inl Bad_Alloc)"

definition buffer_new :: "bool \<Rightarrow> nat \<Rightarrow> int mem \<Rightarrow> cs_error + owner \<times> int mem" where
  "buffer_new ok n m = construct ok n (replicate n 0) m"

definition string_new :: "bool \<Rightarrow> string \<Rightarrow> char mem \<Rightarrow> cs_error + owner \<times> char mem" where
  "string_new ok s m = construct ok (length s) (s @ [CHR 0x00]) m"

text \<open>What an object's pointer reads: \<open>None\<close> when it is null or dangling.\<close>

definition contents :: "owner \<Rightarrow> 'a mem \<Rightarrow> 'a list option" where
  "contents x m = (case data_ptr x of None \<Rightarrow> None | Some p \<Rightarrow> blocks m p)"

text \<open>The copy constructor copies \<open>data_size + extra\<close> elements; the allocation comes first.\<close>

definition copy_construct :: "nat \<Rightarrow> bool \<Rightarrow> owner \<Rightarrow> 'a mem \<Rightarrow> cs_error + owner \<times> 'a mem" where
  "copy_construct extra ok y m =
     (if \<not> ok then Inl Bad_Alloc
      else case contents y m of
             None \<Rightarrow> if data_size y + extra = 0 then construct ok 0 [] m else Inl Null_Read
           | Some xs \<Rightarrow> construct ok (data_size y) (take (data_size y + extra) xs) m)"

text \<open>The move constructor of \<open>String\<close>: the new object and the emptied source.\<close>

definition move_construct :: "owner \<Rightarrow> owner \<times> owner" where
  "move_construct y = (y, \<lparr>data_ptr = None, data_size = 0\<rparr>)"

definition swap_owner :: "owner \<Rightarrow> owner \<Rightarrow> owner \<times> owner" where
  "swap_owner a b = (b, a)"

definition destroy :: "owner \<Rightarrow> 'a mem \<Rightarrow> 'a mem" where
  "destroy x m = mem_delete (data_ptr x) m"

text \<open>
  \<open>operator=(T other)\<close>: the argument is constructed by copy or by move, swapped with \<open>*this\<close>,
  and destroyed with what \<open>*this\<close> had.
\<close>

definition assign_from :: "owner \<Rightarrow> owner \<Rightarrow> 'a mem \<Rightarrow> owner \<times> 'a mem" where
  "assign_from x tmp m = (case swap_owner x tmp of (x', tmp') \<Rightarrow> (x', destroy tmp' m))"

definition copy_assign :: "nat \<Rightarrow> bool \<Rightarrow> owner \<Rightarrow> owner \<Rightarrow> 'a mem \<Rightarrow> cs_error option \<times> owner \<times> 'a mem" where
  "copy_assign extra ok x y m =
     (case copy_construct extra ok y m of
        Inl e \<Rightarrow> (Some e, x, m)
      | Inr (tmp, m') \<Rightarrow> (None, assign_from x tmp m'))"

definition move_assign :: "owner \<Rightarrow> owner \<Rightarrow> 'a mem \<Rightarrow> owner \<times> owner \<times> 'a mem" where
  "move_assign x y m =
     (case move_construct y of (tmp, y') \<Rightarrow> (case assign_from x tmp m of (x', m') \<Rightarrow> (x', y', m')))"

text \<open>\<open>Buffer::operator[]\<close>; outside the buffer it is undefined.\<close>

definition buffer_get :: "owner \<Rightarrow> nat \<Rightarrow> int mem \<Rightarrow> int option" where
  "buffer_get x i m = (case contents x m of None \<Rightarrow> None | Some xs \<Rightarrow> if i < length xs then Some (xs ! i) else None)"

definition buffer_set :: "owner \<Rightarrow> nat \<Rightarrow> int \<Rightarrow> int mem \<Rightarrow> int mem option" where
  "buffer_set x i v m =
     (case (data_ptr x, contents x m) of
        (Some p, Some xs) \<Rightarrow> if i < length xs then Some (m\<lparr>blocks := (blocks m)(p := Some (xs[i := v]))\<rparr>) else None
      | _ \<Rightarrow> None)"

text \<open>\<open>c_str\<close> printed: the characters before the terminator.\<close>

definition c_str :: "owner \<Rightarrow> char mem \<Rightarrow> string option" where
  "c_str x m = map_option (takeWhile (\<lambda>c. c \<noteq> CHR 0x00)) (contents x m)"

section \<open>The demonstrations\<close>

definition string_main :: "string option list" where
  "string_main =
     (case string_new True ''hello'' mem_empty of
        Inl e \<Rightarrow> []
      | Inr (a, m1) \<Rightarrow>
          (case string_new True ''world'' m1 of
             Inl e \<Rightarrow> []
           | Inr (b, m2) \<Rightarrow>
               (case copy_assign 1 True b a m2 of
                  (_, b3, m3) \<Rightarrow>
                    (case move_assign b3 a m3 of
                       (b4, a4, m4) \<Rightarrow>
                         (case copy_assign 1 True b4 b4 m4 of
                            (_, b5, m5) \<Rightarrow>
                              [c_str a m2, c_str b m2, c_str b3 m3, c_str b4 m4, c_str b5 m5])))))"

fun buffer_fill :: "owner \<Rightarrow> (nat \<times> int) list \<Rightarrow> int mem \<Rightarrow> int mem option" where
  "buffer_fill x [] m = Some m"
| "buffer_fill x ((i, v) # w) m = (case buffer_set x i v m of None \<Rightarrow> None | Some m' \<Rightarrow> buffer_fill x w m')"

definition buffer_main :: "int option list" where
  "buffer_main =
     (case buffer_new True 4 mem_empty of
        Inl e \<Rightarrow> []
      | Inr (b1, m1) \<Rightarrow>
          (case buffer_fill b1 [(0, 1), (1, 2), (2, 3), (3, 4)] m1 of
             None \<Rightarrow> []
           | Some m2 \<Rightarrow>
               (case buffer_new True 4 m2 of
                  Inl e \<Rightarrow> []
                | Inr (b2, m3) \<Rightarrow>
                    (case buffer_fill b2 [(0, 9)] m3 of
                       None \<Rightarrow> []
                     | Some m4 \<Rightarrow>
                         (case copy_assign 0 True b2 b1 m4 of
                            (_, b2', m5) \<Rightarrow>
                              (case copy_assign 0 True b1 b1 m5 of
                                 (_, b1', m6) \<Rightarrow>
                                   [buffer_get b2' 0 m5, buffer_get b2' 3 m5, buffer_get b1' 0 m6]))))))"

lemma copy_swap_programs:
  "string_main = [Some ''hello'', Some ''world'', Some ''hello'', Some ''hello'', Some ''hello'']"
  "buffer_main = [Some 1, Some 4, Some 1]"
  by code_simp+

section \<open>Properties\<close>

lemmas copy_swap_defs = copy_assign_def copy_construct_def construct_def mem_new_def assign_from_def
  swap_owner_def destroy_def mem_delete_def contents_def move_assign_def move_construct_def

text \<open>
  C16: Assignment by copy-and-swap has the strong guarantee, self-assignment included.  If
  the allocation throws, the target and the whole free store are unchanged.  Otherwise the
  target holds its own fresh block with the same elements as the source, the target's old
  block is gone, every other block is untouched, and nothing is freed twice or leaked: the
  only changes are one block gained and one lost.  Assignment from a moved source allocates
  nothing: the target takes over the source's block, its old block is freed exactly once and
  the source is left null; a moved-from \<open>String\<close> is not a valid source of a copy, since
  its copy constructor reads one byte through the null pointer.
\<close>

theorem copy_and_swap:
  assumes "mem_ok m" and "data_ptr x = Some p" and "blocks m p = Some old"
    and "data_ptr y = Some q" and "blocks m q = Some xs" and "length xs = data_size y + extra"
  shows "(case copy_assign extra ok x y m of
     (Some e, x', m') \<Rightarrow> \<not> ok \<and> e = Bad_Alloc \<and> x' = x \<and> m' = m
   | (None, x', m') \<Rightarrow> ok \<and> mem_ok m' \<and> contents x' m' = Some xs \<and> data_size x' = data_size y
       \<and> (\<exists>r. data_ptr x' = Some r \<and> blocks m r = None
            \<and> blocks m' = (blocks m)(p := None, r := Some xs)))
   \<and> (p \<noteq> q \<longrightarrow> (case move_assign x y m of (x', y', m') \<Rightarrow>
     mem_ok m' \<and> x' = y \<and> contents x' m' = Some xs \<and> data_ptr y' = None \<and> data_size y' = 0
     \<and> blocks m' = (blocks m)(p := None) \<and> copy_construct 1 True y' m' = Inl Null_Read))"
proof -
  have fresh: "blocks m (next_block m) = None" using assms(1) by (simp add: mem_ok_def)
  with assms(3) have "p \<noteq> next_block m" by auto
  moreover have "p < next_block m" using assms(1,3) by (auto simp: mem_ok_def not_le [symmetric])
  ultimately show ?thesis
    using assms fresh by (auto simp: copy_swap_defs mem_ok_def fun_upd_twist)
qed

theorem copy_and_swap_witness:
  "let m = \<lparr>blocks = [0 \<mapsto> ''hi''], next_block = 1, bad_free = False\<rparr>; a = \<lparr>data_ptr = Some 0, data_size = 1\<rparr> in
     case copy_assign 1 True a a m of (e, x', m') \<Rightarrow> e = None \<and> contents x' m' = Some ''hi''"
  using copy_and_swap [of "\<lparr>blocks = [0 \<mapsto> ''hi''], next_block = 1, bad_free = False\<rparr>"
      "\<lparr>data_ptr = Some 0, data_size = 1\<rparr>" 0 "''hi''" "\<lparr>data_ptr = Some 0, data_size = 1\<rparr>" 0 "''hi''" 1 True]
  by (simp add: copy_swap_defs mem_ok_def Let_def)

end
