(* ===== verification/Errors.thy ===== *)
theory Errors
  imports Complex_Main Prelude
begin

text \<open>
  The error-handling programs of \<^verbatim>\<open>errors/\<close>: exceptions and handler selection
  (\<^verbatim>\<open>01_exceptions_basics.cpp\<close>, \<^verbatim>\<open>02_exception_types.cpp\<close>), scope guards
  (\<^verbatim>\<open>05_raii_exceptions.cpp\<close>), error codes (\<^verbatim>\<open>06_error_codes.cpp\<close>), \<open>optional\<close> and \<open>variant\<close>
  (\<^verbatim>\<open>07_optional_variant.cpp\<close>), \<open>expected\<close> (\<^verbatim>\<open>08_expected.cpp\<close>) and the choice between them
  (\<^verbatim>\<open>09_patterns.cpp\<close>).  Running a block gives the lines it printed and either the
  exception that left it or its value.
\<close>

section \<open>Exceptions\<close>

datatype exn =
    Out_Of_Range string
  | Runtime_Error string
  | Invalid_Argument string
  | Thrown_Int int
  | Database_Error string
  | Network_Error int string
  | Timeout_Error string
  | System_Error string string

text \<open>The constructors of \<^verbatim>\<open>02_exception_types.cpp\<close> build the message that \<open>what()\<close> returns.\<close>

fun exn_code :: "exn \<Rightarrow> int option" where
  "exn_code (Network_Error c m) = Some c"
| "exn_code (Timeout_Error host) = Some 408"
| "exn_code _ = None"

fun what :: "exn \<Rightarrow> string" where
  "what (Out_Of_Range s) = s"
| "what (Runtime_Error s) = s"
| "what (Invalid_Argument s) = s"
| "what (Thrown_Int i) = []"
| "what (Database_Error s) = s"
| "what (Network_Error c s) = ''NetworkError '' @ dec_int c @ '': '' @ s"
| "what (Timeout_Error host) = ''NetworkError '' @ dec_int 408 @ '': timeout connecting to '' @ host"
| "what (System_Error w s) = w @ '': '' @ s"

text \<open>The types a handler can name, and whether it matches the dynamic type of an exception.\<close>

datatype handler = H_Out_Of_Range | H_Runtime_Error | H_Invalid_Argument | H_Exception | H_All
  | H_Database | H_Network | H_Timeout | H_System

fun handles :: "handler \<Rightarrow> exn \<Rightarrow> bool" where
  "handles H_All e = True"
| "handles H_Exception (Thrown_Int i) = False"
| "handles H_Exception e = True"
| "handles H_Runtime_Error (Runtime_Error s) = True"
| "handles H_Runtime_Error (Network_Error c s) = True"
| "handles H_Runtime_Error (Timeout_Error s) = True"
| "handles H_Runtime_Error (System_Error w s) = True"
| "handles H_Out_Of_Range (Out_Of_Range s) = True"
| "handles H_Invalid_Argument (Invalid_Argument s) = True"
| "handles H_Database (Database_Error s) = True"
| "handles H_Network (Network_Error c s) = True"
| "handles H_Network (Timeout_Error s) = True"
| "handles H_Timeout (Timeout_Error s) = True"
| "handles H_System (System_Error w s) = True"
| "handles h e = False"

section \<open>Blocks\<close>

type_synonym 'a run = "console \<times> (exn + 'a)"

definition ret :: "'a \<Rightarrow> 'a run" where "ret x = ([], Inr x)"
definition throw :: "exn \<Rightarrow> 'a run" where "throw e = ([], Inl e)"
definition say :: "string \<Rightarrow> unit run" where "say l = ([l], Inr ())"

definition and_then :: "'a run \<Rightarrow> ('a \<Rightarrow> 'b run) \<Rightarrow> 'b run" where
  "and_then m k =
     (case m of
        (out, Inl e) \<Rightarrow> (out, Inl e)
      | (out, Inr x) \<Rightarrow> (out @ fst (k x), snd (k x)))"

text \<open>\<open>try\<close> with its handlers from top to bottom; an exception no handler matches goes on.\<close>

fun select_handler :: "(handler \<times> (exn \<Rightarrow> 'a run)) list \<Rightarrow> exn \<Rightarrow> 'a run" where
  "select_handler [] e = throw e"
| "select_handler ((h, body) # hs) e = (if handles h e then body e else select_handler hs e)"

definition try_catch :: "'a run \<Rightarrow> (handler \<times> (exn \<Rightarrow> 'a run)) list \<Rightarrow> 'a run" where
  "try_catch m hs =
     (case m of
        (out, Inr x) \<Rightarrow> (out, Inr x)
      | (out, Inl e) \<Rightarrow> (out @ fst (select_handler hs e), snd (select_handler hs e)))"

text \<open>
  A \<open>ScopeGuard\<close> around a block: the block tells whether it left the guard active; the
  destructor runs the cleanup after the block, on return and on unwinding alike.
\<close>

definition scope_guard :: "console \<Rightarrow> (bool \<times> 'a run) \<Rightarrow> 'a run" where
  "scope_guard cleanup b = (case b of (active, out, r) \<Rightarrow> (out @ (if active then cleanup else []), r))"

section \<open>The programs\<close>

definition divide :: "real \<Rightarrow> real \<Rightarrow> real run" where
  "divide a b = (if b = 0 then throw (Invalid_Argument ''division by zero'') else ret (a / b))"

text \<open>A \<^verbatim>\<open>double\<close> that is a whole number prints without a fraction; no other is printed here.\<close>

definition show_whole :: "real \<Rightarrow> string" where
  "show_whole x = dec_int \<lfloor>x\<rfloor>"

definition catch_order_demo :: "int \<Rightarrow> unit run" where
  "catch_order_demo choice =
     try_catch
       (if choice = 1 then throw (Out_Of_Range ''index 99'')
        else if choice = 2 then throw (Runtime_Error ''disk full'')
        else if choice = 3 then throw (Thrown_Int 42)
        else ret ())
       [(H_Out_Of_Range, \<lambda>e. say (''out_of_range: '' @ what e)),
        (H_Runtime_Error, \<lambda>e. say (''runtime_error: '' @ what e)),
        (H_Exception, \<lambda>e. say (''exception: '' @ what e)),
        (H_All, \<lambda>e. say ''unknown exception'')]"

definition log_and_rethrow :: "unit run" where
  "log_and_rethrow =
     try_catch (throw (Runtime_Error ''something failed''))
       [(H_Exception, \<lambda>e. and_then (say (''[log] caught: '' @ what e)) (\<lambda>_. throw e))]"

definition exceptions_main :: "unit run" where
  "exceptions_main =
     and_then (try_catch
        (and_then (divide 10 2) (\<lambda>q. and_then (say (show_whole q)) (\<lambda>_.
         and_then (divide 10 0) (\<lambda>q. say (show_whole q)))))
        [(H_Invalid_Argument, \<lambda>e. say (''caught: '' @ what e))])
     (\<lambda>_. and_then (catch_order_demo 1)
     (\<lambda>_. and_then (catch_order_demo 2)
     (\<lambda>_. and_then (catch_order_demo 3)
     (\<lambda>_. try_catch log_and_rethrow [(H_Runtime_Error, \<lambda>e. say (''outer caught: '' @ what e))]))))"

definition net_connect :: "string \<Rightarrow> unit run" where
  "net_connect host =
     (if host = ''slow.example.com'' then throw (Timeout_Error host)
      else if host = [] then throw (Network_Error 400 ''empty host'')
      else ret ())"

definition try_host :: "string \<Rightarrow> unit run" where
  "try_host host =
     try_catch (and_then (net_connect host) (\<lambda>_. say (''connected to '' @ host)))
       [(H_Timeout, \<lambda>e. say (''timeout: '' @ what e)),
        (H_Network, \<lambda>e. say (''network ['' @ (case exn_code e of Some c \<Rightarrow> dec_int c | None \<Rightarrow> []) @ '']: '' @ what e))]"

definition exception_types_main :: "unit run" where
  "exception_types_main =
     and_then (try_catch (throw (Database_Error ''connection pool exhausted''))
        [(H_Database, \<lambda>e. say (''db: '' @ what e))])
     (\<lambda>_. and_then (try_host ''slow.example.com'') (\<lambda>_. and_then (try_host []) (\<lambda>_. try_host ''ok.example.com'')))"

definition process :: "bool \<Rightarrow> unit run" where
  "process fail =
     and_then (say ''  acquiring resource'') (\<lambda>_.
       scope_guard [''  releasing resource'']
         (True, if fail then throw (Runtime_Error ''processing failed'') else say ''  work done''))"

definition transact :: "bool \<Rightarrow> unit run" where
  "transact fail =
     and_then (say ''  begin transaction'') (\<lambda>_.
       scope_guard [''  rolling back'']
         (if fail then (True, throw (Runtime_Error ''transact failed'')) else (False, say ''  commit'')))"

definition guarded_path :: "(bool \<Rightarrow> unit run) \<Rightarrow> bool \<Rightarrow> unit run" where
  "guarded_path f fail =
     and_then (say ((if fail then ''fail'' else ''success'') @ '' path:'')) (\<lambda>_.
       try_catch (f fail) [(H_Exception, \<lambda>e. say (''  caught: '' @ what e))])"

definition raii_main :: "unit run" where
  "raii_main =
     and_then (guarded_path process False) (\<lambda>_. and_then (guarded_path process True)
     (\<lambda>_. and_then (say []) (\<lambda>_. and_then (say ''transaction:'')
     (\<lambda>_. and_then (guarded_path transact False) (\<lambda>_. guarded_path transact True)))))"

text \<open>\<open>load_config\<close>, \<open>find_user\<close> and \<open>connect\<close> of \<^verbatim>\<open>09_patterns.cpp\<close>; an error code is a category and a number.\<close>

definition load_config :: "string \<Rightarrow> unit run" where
  "load_config path =
     (if path = [] then throw (Invalid_Argument ''path is empty'')
      else throw (Runtime_Error (''config file not found: '' @ path)))"

fun find_user :: "string list \<Rightarrow> string \<Rightarrow> string option" where
  "find_user [] name = None"
| "find_user (u # us) name = (if u = name then Some u else find_user us name)"

datatype errc = No_Error | Err_Invalid_Argument | Err_Connection_Refused | Err_No_Such_File

definition ec_connect :: "string \<Rightarrow> int \<times> errc" where
  "ec_connect host =
     (if host = [] then (- 1, Err_Invalid_Argument)
      else if host = ''down.example.com'' then (- 1, Err_Connection_Refused)
      else (42, No_Error))"

fun errc_message :: "errc \<Rightarrow> string" where
  "errc_message No_Error = ''Success''"
| "errc_message Err_Invalid_Argument = ''Invalid argument''"
| "errc_message Err_Connection_Refused = ''Connection refused''"
| "errc_message Err_No_Such_File = ''No such file or directory''"

definition patterns_main :: "unit run" where
  "patterns_main =
     and_then (try_catch (load_config ''app.toml'') [(H_Runtime_Error, \<lambda>e. say (''config failed: '' @ what e))])
     (\<lambda>_. and_then (say (''find charlie: '' @ (case find_user [''alice'', ''bob''] ''charlie'' of
                           Some u \<Rightarrow> u | None \<Rightarrow> ''(not found)'')))
     (\<lambda>_. and_then (case ec_connect ''down.example.com'' of
                       (fd, ec) \<Rightarrow> if ec \<noteq> No_Error then say (''connect failed: '' @ errc_message ec) else ret ())
     (\<lambda>_. case ec_connect ''ok.example.com'' of
             (fd, ec) \<Rightarrow> if ec = No_Error then say (''connected, fd='' @ dec_int fd) else ret ())))"

text \<open>\<^verbatim>\<open>06_error_codes.cpp\<close>: the files of the file system and their sizes are a parameter.\<close>

definition file_size :: "(string \<Rightarrow> nat option) \<Rightarrow> string \<Rightarrow> nat \<times> errc" where
  "file_size fs path = (case fs path of None \<Rightarrow> (0, Err_No_Such_File) | Some n \<Rightarrow> (n, No_Error))"

datatype app_error = App_Ok | App_Bad_Input | App_Quota_Exceeded

fun app_error_value :: "app_error \<Rightarrow> int" where
  "app_error_value App_Ok = 0"
| "app_error_value App_Bad_Input = 1"
| "app_error_value App_Quota_Exceeded = 2"

definition app_category_message :: "int \<Rightarrow> string" where
  "app_category_message ev =
     (if ev = 0 then ''ok'' else if ev = 1 then ''bad input'' else if ev = 2 then ''quota exceeded'' else ''unknown'')"

definition error_codes_main :: "(string \<Rightarrow> nat option) \<Rightarrow> unit run" where
  "error_codes_main fs =
     and_then (case file_size fs ''nonexistent.txt'' of
        (sz, ec) \<Rightarrow>
          if ec \<noteq> No_Error
          then and_then (say (''error: '' @ errc_message ec)) (\<lambda>_.
               say (''is no_such_file: '' @ (if ec = Err_No_Such_File then ''1'' else ''0'')))
          else ret ())
     (\<lambda>_. let v = app_error_value App_Quota_Exceeded in
        and_then (say (''app error ['' @ dec_int v @ '']: '' @ app_category_message v))
     (\<lambda>_. and_then (say ''category: app'')
     (\<lambda>_. try_catch (throw (System_Error ''while parsing config'' (app_category_message (app_error_value App_Bad_Input))))
        [(H_System, \<lambda>e. and_then (say (''system_error: '' @ what e))
            (\<lambda>_. say (''code: '' @ app_category_message (app_error_value App_Bad_Input))))])))"

section \<open>Parsing integers\<close>

text \<open>The digits at the head of a string, their value, and whether there is any.\<close>

fun digits_prefix :: "string \<Rightarrow> nat \<Rightarrow> nat \<times> bool" where
  "digits_prefix [] acc = (acc, False)"
| "digits_prefix (c # cs) acc =
     (case digit_val c of
        None \<Rightarrow> (acc, False)
      | Some d \<Rightarrow> (fst (digits_prefix cs (10 * acc + d)), True))"

definition int_fits :: "int \<Rightarrow> bool" where
  "int_fits i \<longleftrightarrow> - (2 ^ 31) \<le> i \<and> i < 2 ^ 31"

text \<open>
  \<open>std::from_chars\<close> for \<^verbatim>\<open>int\<close>: an optional minus sign and the longest run of digits; an
  error when there is no digit or the value does not fit.  The rest is not looked at.
\<close>

definition from_chars :: "string \<Rightarrow> int option" where
  "from_chars s =
     (if s \<noteq> [] \<and> hd s = CHR ''-''
      then (case digits_prefix (tl s) 0 of
              (n, some) \<Rightarrow> if some \<and> int_fits (- int n) then Some (- int n) else None)
      else (case digits_prefix s 0 of
              (n, some) \<Rightarrow> if some \<and> int_fits (int n) then Some (int n) else None))"

definition parse :: "string \<Rightarrow> string + int" where
  "parse s = (case from_chars s of None \<Rightarrow> Inl (''not an integer: '' @ s) | Some i \<Rightarrow> Inr i)"

definition check_positive :: "int \<Rightarrow> int + int" where
  "check_positive n = (if n \<le> 0 then Inl n else Inr n)"

text \<open>\<open>n * 2\<close> that leaves the \<^verbatim>\<open>int\<close> range is undefined: no result.\<close>

definition parse_and_double :: "string \<Rightarrow> (string + int) option" where
  "parse_and_double s =
     (case parse s of
        Inl e \<Rightarrow> Some (Inl e)
      | Inr n \<Rightarrow> if int_fits (n * 2) then Some (Inr (n * 2)) else None)"

text \<open>\<open>std::stoi\<close> skips white space and takes a sign; \<open>parse_int\<close> turns its exceptions into a \<open>ParseError\<close>.\<close>

definition is_space :: "char \<Rightarrow> bool" where
  "is_space c \<longleftrightarrow> c \<in> {CHR '' '', CHR 0x09, CHR 0x0A, CHR 0x0B, CHR 0x0C, CHR 0x0D}"

definition stoi :: "string \<Rightarrow> int option" where
  "stoi s =
     (let t = dropWhile is_space s in
      if t \<noteq> [] \<and> hd t = CHR ''+''
      then (if tl t \<noteq> [] \<and> hd (tl t) = CHR ''-'' then None else from_chars (tl t))
      else from_chars t)"

definition parse_int :: "string \<Rightarrow> int + string" where
  "parse_int s = (case stoi s of Some i \<Rightarrow> Inl i | None \<Rightarrow> Inr (''not an integer: '' @ s))"

fun find_first_even :: "int list \<Rightarrow> int option" where
  "find_first_even [] = None"
| "find_first_even (x # xs) = (if x mod 2 = 0 then Some x else find_first_even xs)"

definition show_parsed :: "int + string \<Rightarrow> string" where
  "show_parsed r = (case r of Inl v \<Rightarrow> ''parsed: '' @ dec_int v | Inr m \<Rightarrow> ''error: '' @ m)"

text \<open>\<open>main\<close> of \<^verbatim>\<open>07_optional_variant.cpp\<close>; the environment is a parameter.\<close>

definition optional_main :: "string option \<Rightarrow> console" where
  "optional_main home =
     (let r1 = find_first_even [1, 3, 5]; r2 = find_first_even [1, 3, 4, 6] in
      [''odds first even: '' @ dec_int (case r1 of None \<Rightarrow> - 1 | Some v \<Rightarrow> v),
       ''mixed first even: '' @ dec_int (case r2 of None \<Rightarrow> - 1 | Some v \<Rightarrow> v)]
      @ (case r2 of None \<Rightarrow> [] | Some v \<Rightarrow> [''found: '' @ dec_int v])
      @ (case r1 of None \<Rightarrow> [''r1 is empty''] | Some v \<Rightarrow> [])
      @ [''HOME: '' @ (case home of None \<Rightarrow> ''(not set)'' | Some h \<Rightarrow> h)]
      @ map (\<lambda>s. show_parsed (parse_int s)) [''42'', ''abc'', ''-7''])"

definition show_bool :: "bool \<Rightarrow> string" where
  "show_bool b = (if b then ''true'' else ''false'')"

definition expected_step :: "string \<Rightarrow> string" where
  "expected_step s =
     (case parse s of
        Inl e \<Rightarrow> ''parse error: '' @ e
      | Inr n \<Rightarrow>
          (case check_positive n of
             Inl v \<Rightarrow> ''range error: '' @ dec_int v @ '' is not positive''
           | Inr v \<Rightarrow> ''ok: '' @ dec_int v))"

definition expected_main :: console where
  "expected_main =
     (let r1 = parse ''42''; r2 = parse ''abc'' in
      [''r1 has_value: '' @ show_bool (\<not> isl r1), ''r1 value:     '' @ dec_int (projr r1),
       ''r2 has_value: '' @ show_bool (\<not> isl r2), ''r2 error:     '' @ projl r2,
       ''r2 value_or:  '' @ dec_int (case r2 of Inl _ \<Rightarrow> - 1 | Inr v \<Rightarrow> v)]
      @ (case parse_and_double ''7'' of Some (Inr v) \<Rightarrow> [''doubled:      '' @ dec_int v] | _ \<Rightarrow> [])
      @ map expected_step [''10'', ''-3'', ''xyz''])"

lemma error_programs:
  "exceptions_main = ([''5'', ''caught: division by zero'', ''out_of_range: index 99'', ''runtime_error: disk full'',
     ''unknown exception'', ''[log] caught: something failed'', ''outer caught: something failed''], Inr ())"
  "exception_types_main = ([''db: connection pool exhausted'',
     ''timeout: NetworkError 408: timeout connecting to slow.example.com'',
     ''network [400]: NetworkError 400: empty host'', ''connected to ok.example.com''], Inr ())"
  "raii_main = ([''success path:'', ''  acquiring resource'', ''  work done'', ''  releasing resource'',
     ''fail path:'', ''  acquiring resource'', ''  releasing resource'', ''  caught: processing failed'', '''',
     ''transaction:'', ''success path:'', ''  begin transaction'', ''  commit'',
     ''fail path:'', ''  begin transaction'', ''  rolling back'', ''  caught: transact failed''], Inr ())"
  "patterns_main = ([''config failed: config file not found: app.toml'', ''find charlie: (not found)'',
     ''connect failed: Connection refused'', ''connected, fd=42''], Inr ())"
  "error_codes_main (\<lambda>_. None) = ([''error: No such file or directory'', ''is no_such_file: 1'',
     ''app error [2]: quota exceeded'', ''category: app'', ''system_error: while parsing config: bad input'',
     ''code: bad input''], Inr ())"
  "optional_main None = [''odds first even: -1'', ''mixed first even: 4'', ''found: 4'', ''r1 is empty'',
     ''HOME: (not set)'', ''parsed: 42'', ''error: not an integer: abc'', ''parsed: -7'']"
  "expected_main = [''r1 has_value: true'', ''r1 value:     42'', ''r2 has_value: false'',
     ''r2 error:     not an integer: abc'', ''r2 value_or:  -1'', ''doubled:      14'', ''ok: 10'',
     ''range error: -3 is not positive'', ''parse error: not an integer: xyz'']"
  by code_simp+

section \<open>Handlers and guards\<close>

text \<open>The handler that runs is the first one that matches; with none the exception goes on.\<close>

lemma select_handler_first:
  "list_all (\<lambda>(h, _). \<not> handles h e) hs1 \<Longrightarrow> handles h e \<Longrightarrow> select_handler (hs1 @ (h, body) # hs2) e = body e"
  by (induction hs1) auto

lemma select_handler_none: "list_all (\<lambda>(h, _). \<not> handles h e) hs \<Longrightarrow> select_handler hs e = throw e"
  by (induction hs) auto

text \<open>A handler for a base class shadows the handlers for its subclasses that come after it.\<close>

lemma network_shadows_timeout:
  "handles H_Timeout e \<Longrightarrow> select_handler ((H_Network, body) # (H_Timeout, body') # hs) e = body e"
  by (cases e) auto

section \<open>Properties\<close>

lemma dec_nat_digit: "\<exists>c cs d. dec_nat n = c # cs \<and> digit_val c = Some d"
proof (induction n rule: dec_nat.induct)
  case (1 n)
  then show ?case by (subst dec_nat.simps) (auto simp del: digit_val_digit_char intro!: digit_val_digit_char)
qed

lemma digits_prefix_dec: "digits_prefix (dec_nat n @ rest) 0 = (fst (digits_prefix rest n), True)"
proof (induction n arbitrary: rest rule: dec_nat.induct)
  case (1 n)
  show ?case
  proof (cases "n < 10")
    case True
    then show ?thesis by (subst dec_nat.simps) simp
  next
    case False
    with 1 [of "digit_char (n mod 10) # rest"] show ?thesis by (subst dec_nat.simps) simp
  qed
qed

lemma dec_nat_no_sign: "dec_nat n @ rest \<noteq> CHR ''-'' # cs"
  using dec_nat_digit [of n] by (auto simp: digit_val_def)

lemma from_chars_nonneg:
  "from_chars (dec_nat n @ rest) =
     (let v = int (fst (digits_prefix rest n)) in if int_fits v then Some v else None)"
proof -
  obtain c cs where c: "dec_nat n @ rest = c # cs" using dec_nat_digit [of n] by auto
  with dec_nat_no_sign [of n rest cs] have "c \<noteq> CHR ''-''" by auto
  then show ?thesis using digits_prefix_dec [of n rest] c
    by (auto simp: from_chars_def Let_def)
qed

text \<open>
  \<open>parse\<close> reads back every \<^verbatim>\<open>int\<close> that \<open>to_string\<close> prints, and rejects what does not fit.
  It looks only at a prefix: a number followed by anything that is not a digit is accepted
  as that number, so trailing garbage is not an error.
\<close>

theorem parse_roundtrip:
  assumes "rest = [] \<or> digit_val (hd rest) = None"
  shows "parse (dec_int i @ rest) = (if int_fits i then Inr i else Inl (''not an integer: '' @ dec_int i @ rest))"
proof -
  have fst_rest: "fst (digits_prefix rest n) = n" for n
    using assms by (cases rest) auto
  have "from_chars (dec_int i @ rest) = (if int_fits i then Some i else None)"
  proof (cases "i < 0")
    case True
    then show ?thesis
      using digits_prefix_dec [of "nat (- i)" rest] fst_rest by (simp add: from_chars_def dec_int_def)
  next
    case False
    then show ?thesis
      using from_chars_nonneg [of "nat i" rest] fst_rest by (simp add: dec_int_def Let_def)
  qed
  then show ?thesis by (simp add: parse_def)
qed

theorem parse_roundtrip_witness: "parse (dec_int 12 @ ''abc'') = Inr 12"
  using parse_roundtrip [of "''abc''" 12] by (simp add: digit_val_def int_fits_def)

end
