(* ===== verification/Objects.thy ===== *)
theory Objects
  imports Errors
begin

text \<open>
  The object-oriented programs of \<^verbatim>\<open>oop/\<close>: shapes and their factories (\<^verbatim>\<open>01_interfaces.cpp\<close>,
  \<^verbatim>\<open>08_factory.cpp\<close>), dynamic binding and \<open>override\<close> (\<^verbatim>\<open>02_dynamic_binding.cpp\<close>,
  \<^verbatim>\<open>07_override_final.cpp\<close>), composition (\<^verbatim>\<open>03_inheritance_vs_composition.cpp\<close>), operators
  (\<^verbatim>\<open>04_operator_overloading.cpp\<close>), the non-virtual interface (\<^verbatim>\<open>06_nvi.cpp\<close>) and the mixins of
  \<^verbatim>\<open>09_crtp.cpp\<close>.  A class hierarchy is a datatype of its concrete classes; a virtual call is a
  function on it.  \<^verbatim>\<open>double\<close> values are reals.
\<close>

section \<open>Shapes and factories\<close>

datatype shape = Circle real | Rectangle real real

fun area :: "shape \<Rightarrow> real" where
  "area (Circle r) = pi * r * r"
| "area (Rectangle w h) = w * h"

definition make_shape :: "string \<Rightarrow> real \<Rightarrow> real \<Rightarrow> exn + shape" where
  "make_shape type a b =
     (if type = ''circle'' then Inr (Circle a)
      else if type = ''rectangle'' then Inr (Rectangle a b)
      else Inl (Invalid_Argument (''unknown shape: '' @ type)))"

type_synonym creator = "real \<Rightarrow> real \<Rightarrow> shape"
type_synonym shape_registry = "string \<Rightarrow> creator option"

definition register_shape :: "string \<Rightarrow> creator \<Rightarrow> shape_registry \<Rightarrow> shape_registry" where
  "register_shape key c reg = reg(key := Some c)"

definition registry_create :: "shape_registry \<Rightarrow> string \<Rightarrow> real \<Rightarrow> real \<Rightarrow> exn + shape" where
  "registry_create reg key a b =
     (case reg key of
        None \<Rightarrow> Inl (Invalid_Argument (''not registered: '' @ key))
      | Some c \<Rightarrow> Inr (c a b))"

definition main_registry :: shape_registry where
  "main_registry = register_shape ''rectangle'' (\<lambda>a b. Rectangle a b) (register_shape ''circle'' (\<lambda>a _. Circle a) (\<lambda>_. None))"

text \<open>After the registrations of \<open>main\<close> the registry makes the same objects as the factory function.\<close>

lemma registry_agrees:
  "registry_create main_registry key a b =
     (case make_shape key a b of
        Inl _ \<Rightarrow> Inl (Invalid_Argument (''not registered: '' @ key))
      | Inr s \<Rightarrow> Inr s)"
  by (simp add: registry_create_def main_registry_def register_shape_def make_shape_def)

lemma registry_create_registered:
  "registry_create (register_shape key c reg) key' a b = (if key' = key then Inr (c a b) else registry_create reg key' a b)"
  by (simp add: registry_create_def register_shape_def)

section \<open>Dynamic binding\<close>

datatype animal = Animal | Dog | Cat

fun speak :: "animal \<Rightarrow> string" where
  "speak Animal = ''Animal''"
| "speak Dog = ''Woof''"
| "speak Cat = ''Meow''"

definition make_speak :: "animal \<Rightarrow> string" where "make_speak a = speak a"

text \<open>Passing by value copies the base part only.\<close>

definition slice :: "animal \<Rightarrow> animal" where "slice a = Animal"

definition sliced :: "animal \<Rightarrow> string" where "sliced a = speak (slice a)"

definition correct :: "animal \<Rightarrow> string" where "correct a = speak a"

datatype base_class = Base | Derived

text \<open>\<open>v\<close> is virtual and bound to the dynamic class, \<open>nv\<close> to the static class of the expression.\<close>

fun call_v :: "base_class \<Rightarrow> string" where
  "call_v Base = ''Base::v  (virtual)''"
| "call_v Derived = ''Derived::v  (virtual)''"

fun call_nv :: "base_class \<Rightarrow> string" where
  "call_nv Base = ''Base::nv (non-virtual)''"
| "call_nv Derived = ''Derived::nv (non-virtual)''"

definition dynamic_binding_main :: console where
  "dynamic_binding_main =
     [make_speak Dog, make_speak Cat, '''', ''--- slicing ---'', sliced Dog, correct Dog, '''',
      ''--- non-virtual ---'', call_v Derived, call_nv Base]"

section \<open>Overriding\<close>

text \<open>
  A parameter type of the \<open>log\<close> functions: \<open>const char*\<close>, with or without a top-level \<open>const\<close>.
  The top-level \<open>const\<close> of a parameter is not part of the function type, so it does not
  matter for overriding.
\<close>

record log_param =
  pointee_const :: bool
  top_const :: bool

definition function_type :: "log_param \<Rightarrow> log_param" where
  "function_type p = p\<lparr>top_const := False\<rparr>"

definition overrides :: "log_param \<Rightarrow> log_param \<Rightarrow> bool" where
  "overrides derived base \<longleftrightarrow> function_type derived = function_type base"

definition logger_param :: log_param where "logger_param = \<lparr>pointee_const = True, top_const = False\<rparr>"
definition bad_derived_param :: log_param where "bad_derived_param = \<lparr>pointee_const = True, top_const = True\<rparr>"
definition good_derived_param :: log_param where "good_derived_param = \<lparr>pointee_const = True, top_const = False\<rparr>"

datatype logger_class = Logger | Bad_Derived | Good_Derived

text \<open>\<open>log\<close> called through a \<open>Logger*\<close>.\<close>

fun virtual_log :: "logger_class \<Rightarrow> string \<Rightarrow> string" where
  "virtual_log Logger msg = ''Logger: '' @ msg"
| "virtual_log Bad_Derived msg =
     (if overrides bad_derived_param logger_param then ''BadDerived: '' @ msg else ''Logger: '' @ msg)"
| "virtual_log Good_Derived msg =
     (if overrides good_derived_param logger_param then ''GoodDerived: '' @ msg else ''Logger: '' @ msg)"

datatype transport = Tcp_Transport | Ssl_Transport

fun transport_connect :: "transport \<Rightarrow> string" where
  "transport_connect Tcp_Transport = ''TCP connect''"
| "transport_connect Ssl_Transport = ''SSL connect''"

definition override_main :: console where
  "override_main =
     [virtual_log Bad_Derived ''test'', virtual_log Good_Derived ''test'',
      transport_connect Tcp_Transport, transport_connect Ssl_Transport]"

section \<open>Composition\<close>

record logging_vector =
  lv_data :: "int list"

definition lv_push_back :: "int \<Rightarrow> logging_vector \<Rightarrow> console \<times> logging_vector" where
  "lv_push_back v x = ([''[log] push '' @ dec_int v], x\<lparr>lv_data := lv_data x @ [v]\<rparr>)"

definition lv_size :: "logging_vector \<Rightarrow> nat" where "lv_size x = length (lv_data x)"

datatype ilogger = Console_Logger | File_Logger

fun ilog :: "ilogger \<Rightarrow> string \<Rightarrow> string" where
  "ilog Console_Logger msg = ''[console] '' @ msg"
| "ilog File_Logger msg = ''[file]    '' @ msg"

definition pipeline_run :: "ilogger \<Rightarrow> string \<Rightarrow> console" where
  "pipeline_run logger data = [ilog logger ''starting pipeline'', ilog logger (''pipeline done: '' @ data)]"

definition composition_main :: console where
  "composition_main =
     (case lv_push_back 1 \<lparr>lv_data = []\<rparr> of
        (o1, v1) \<Rightarrow>
          (case lv_push_back 2 v1 of
             (o2, v2) \<Rightarrow>
               o1 @ o2 @ [''size = '' @ dec_nat (lv_size v2), '''']
               @ pipeline_run Console_Logger ''batch-42'' @ [''''] @ pipeline_run File_Logger ''batch-43''))"

section \<open>Operators\<close>

record vec2 =
  vx :: real
  vy :: real

definition vec_add_assign :: "vec2 \<Rightarrow> vec2 \<Rightarrow> vec2" where
  "vec_add_assign a rhs = a\<lparr>vx := vx a + vx rhs, vy := vy a + vy rhs\<rparr>"

definition vec_sub_assign :: "vec2 \<Rightarrow> vec2 \<Rightarrow> vec2" where
  "vec_sub_assign a rhs = a\<lparr>vx := vx a - vx rhs, vy := vy a - vy rhs\<rparr>"

definition vec_scale_assign :: "vec2 \<Rightarrow> real \<Rightarrow> vec2" where
  "vec_scale_assign a s = a\<lparr>vx := vx a * s, vy := vy a * s\<rparr>"

definition vec_neg :: "vec2 \<Rightarrow> vec2" where "vec_neg a = \<lparr>vx = - vx a, vy = - vy a\<rparr>"

definition vec_length :: "vec2 \<Rightarrow> real" where "vec_length a = sqrt (vx a * vx a + vy a * vy a)"

definition vec_add :: "vec2 \<Rightarrow> vec2 \<Rightarrow> vec2" where "vec_add lhs rhs = vec_add_assign lhs rhs"
definition vec_sub :: "vec2 \<Rightarrow> vec2 \<Rightarrow> vec2" where "vec_sub lhs rhs = vec_sub_assign lhs rhs"
definition vec_scale :: "vec2 \<Rightarrow> real \<Rightarrow> vec2" where "vec_scale v s = vec_scale_assign v s"

definition vec_eq :: "vec2 \<Rightarrow> vec2 \<Rightarrow> bool" where "vec_eq a b \<longleftrightarrow> vx a = vx b \<and> vy a = vy b"

definition vec_less :: "vec2 \<Rightarrow> vec2 \<Rightarrow> bool" where
  "vec_less a b \<longleftrightarrow> vx a < vx b \<or> (vx a = vx b \<and> vy a < vy b)"

definition show_vec :: "vec2 \<Rightarrow> string" where
  "show_vec v = ''('' @ show_whole (vx v) @ '', '' @ show_whole (vy v) @ '')''"

text \<open>\<open><\<close> is a strict total order whose equality is \<open>==\<close>, as \<open>std::set\<close> and \<open>std::sort\<close> need.\<close>

lemma vec_order:
  "\<not> vec_less a a" "vec_less a b \<Longrightarrow> vec_less b c \<Longrightarrow> vec_less a c"
  "vec_eq a b \<longleftrightarrow> \<not> vec_less a b \<and> \<not> vec_less b a"
  by (auto simp: vec_less_def vec_eq_def)

lemma vec_arith:
  "vec_add a b = vec_add b a" "vec_sub (vec_add a b) b = a" "vec_add a (vec_neg a) = \<lparr>vx = 0, vy = 0\<rparr>"
  "vec_scale (vec_add a b) s = vec_add (vec_scale a s) (vec_scale b s)"
  "vec_length (vec_scale a s) = \<bar>s\<bar> * vec_length a"
proof -
  have "vx a * s * (vx a * s) + vy a * s * (vy a * s) = s\<^sup>2 * (vx a * vx a + vy a * vy a)"
    by (simp add: power2_eq_square algebra_simps)
  then show "vec_length (vec_scale a s) = \<bar>s\<bar> * vec_length a"
    by (simp add: vec_length_def vec_scale_def vec_scale_assign_def real_sqrt_mult)
qed (simp_all add: vec_add_def vec_add_assign_def vec_sub_def vec_sub_assign_def vec_neg_def vec_scale_def
      vec_scale_assign_def algebra_simps)

section \<open>The non-virtual interface\<close>

datatype exporter = Csv_Exporter | Json_Exporter

fun do_export :: "exporter \<Rightarrow> string \<Rightarrow> console" where
  "do_export Csv_Exporter data = [''[csv] writing: '' @ data]"
| "do_export Json_Exporter data = [''[json] writing: {\"data\":\"'' @ data @ ''\"}'']"

definition export_data :: "exporter \<Rightarrow> string \<Rightarrow> unit run" where
  "export_data x data =
     (if data = [] then throw (Invalid_Argument ''data must not be empty'')
      else ([''[exporter] starting export''] @ do_export x data @ [''[exporter] export complete''], Inr ()))"

datatype report = Report | Sales_Report

fun report_title :: "report \<Rightarrow> string" where
  "report_title Report = ''Generic Report''"
| "report_title Sales_Report = ''Sales Q2''"

fun do_generate :: "report \<Rightarrow> string" where
  "do_generate Report = ''(empty)''"
| "do_generate Sales_Report = ''revenue: $42,000''"

definition generate :: "report \<Rightarrow> console" where
  "generate r = [''=== Report: '' @ report_title r @ '' ==='', do_generate r, ''=== end ==='']"

definition nvi_main :: "unit run" where
  "nvi_main =
     and_then (export_data Csv_Exporter (''name,age'' @ [CHR 0x0A] @ ''Alice,30'')) (\<lambda>_. and_then (say [])
     (\<lambda>_. and_then (export_data Json_Exporter ''Alice'') (\<lambda>_. and_then (say [])
     (\<lambda>_. and_then (generate Report, Inr ()) (\<lambda>_. and_then (say [])
     (\<lambda>_. and_then (generate Sales_Report, Inr ())
     (\<lambda>_. try_catch (export_data Csv_Exporter [])
            [(H_Invalid_Argument, \<lambda>e. and_then (say []) (\<lambda>_. say (''caught: '' @ what e)))])))))))"

section \<open>Mixins\<close>

text \<open>\<open>Comparable\<close> derives four operators from \<open>==\<close> and \<open><\<close>.\<close>

definition cmp_ne :: "('a \<Rightarrow> 'a \<Rightarrow> bool) \<Rightarrow> 'a \<Rightarrow> 'a \<Rightarrow> bool" where "cmp_ne eq a b \<longleftrightarrow> \<not> eq a b"
definition cmp_gt :: "('a \<Rightarrow> 'a \<Rightarrow> bool) \<Rightarrow> 'a \<Rightarrow> 'a \<Rightarrow> bool" where "cmp_gt lt a b \<longleftrightarrow> lt b a"
definition cmp_le :: "('a \<Rightarrow> 'a \<Rightarrow> bool) \<Rightarrow> 'a \<Rightarrow> 'a \<Rightarrow> bool" where "cmp_le lt a b \<longleftrightarrow> \<not> lt b a"
definition cmp_ge :: "('a \<Rightarrow> 'a \<Rightarrow> bool) \<Rightarrow> 'a \<Rightarrow> 'a \<Rightarrow> bool" where "cmp_ge lt a b \<longleftrightarrow> \<not> lt a b"

lemma comparable_linorder:
  fixes a b :: "'a :: linorder"
  shows "cmp_gt (<) a b = (a > b)" "cmp_le (<) a b = (a \<le> b)" "cmp_ge (<) a b = (a \<ge> b)" "cmp_ne (=) a b = (a \<noteq> b)"
  by (auto simp: cmp_gt_def cmp_le_def cmp_ge_def cmp_ne_def)

definition point_to_string :: "int \<times> int \<Rightarrow> string" where
  "point_to_string p = ''('' @ dec_int (fst p) @ '', '' @ dec_int (snd p) @ '')''"

text \<open>
  \<open>InstanceCounter\<close>: the default constructor counts up and the destructor down; the copy
  constructor the compiler generates does neither.  \<open>live\<close> is the number of objects.
\<close>

datatype instance_op = Construct | Copy_Construct | Destruct

record instances =
  inst_count :: int
  inst_live :: nat

definition inst_new :: instances where "inst_new = \<lparr>inst_count = 0, inst_live = 0\<rparr>"

fun inst_exec :: "instance_op \<Rightarrow> instances \<Rightarrow> instances" where
  "inst_exec Construct s = s\<lparr>inst_count := inst_count s + 1, inst_live := Suc (inst_live s)\<rparr>"
| "inst_exec Copy_Construct s = (if inst_live s = 0 then s else s\<lparr>inst_live := Suc (inst_live s)\<rparr>)"
| "inst_exec Destruct s =
     (if inst_live s = 0 then s else s\<lparr>inst_count := inst_count s - 1, inst_live := inst_live s - 1\<rparr>)"

fun copies_made :: "instance_op list \<Rightarrow> instances \<Rightarrow> nat" where
  "copies_made [] s = 0"
| "copies_made (op # ops) s =
     (if op = Copy_Construct \<and> inst_live s \<noteq> 0 then 1 else 0) + copies_made ops (inst_exec op s)"

definition crtp_main :: console where
  "crtp_main =
     (let d2 = fold inst_exec [Construct, Construct] inst_new; c1 = inst_exec Construct inst_new;
          t1 = (20 :: real); t2 = 37
      in [''t1 < t2:  '' @ show_bool (t1 < t2), ''t1 > t2:  '' @ show_bool (cmp_gt (<) t1 t2),
          ''t1 <= t2: '' @ show_bool (cmp_le (<) t1 t2), ''t1 != t2: '' @ show_bool (cmp_ne (=) t1 t2), '''',
          point_to_string (3, 4), ''point: '' @ point_to_string (3, 4), '''',
          ''dogs: '' @ dec_int (inst_count d2), ''cats: '' @ dec_int (inst_count c1),
          ''dogs after scope: '' @ dec_int (inst_count (fold inst_exec [Destruct, Destruct] d2))])"

lemma object_programs:
  "dynamic_binding_main = [''Woof'', ''Meow'', '''', ''--- slicing ---'', ''Animal'', ''Woof'', '''',
     ''--- non-virtual ---'', ''Derived::v  (virtual)'', ''Base::nv (non-virtual)'']"
  "override_main = [''BadDerived: test'', ''GoodDerived: test'', ''TCP connect'', ''SSL connect'']"
  "composition_main = [''[log] push 1'', ''[log] push 2'', ''size = 2'', '''', ''[console] starting pipeline'',
     ''[console] pipeline done: batch-42'', '''', ''[file]    starting pipeline'', ''[file]    pipeline done: batch-43'']"
  "nvi_main = ([''[exporter] starting export'', ''[csv] writing: name,age'' @ [CHR 0x0A] @ ''Alice,30'',
     ''[exporter] export complete'', '''', ''[exporter] starting export'', ''[json] writing: {\"data\":\"Alice\"}'',
     ''[exporter] export complete'', '''', ''=== Report: Generic Report ==='', ''(empty)'', ''=== end ==='', '''',
     ''=== Report: Sales Q2 ==='', ''revenue: $42,000'', ''=== end ==='', '''', ''caught: data must not be empty''], Inr ())"
  "crtp_main = [''t1 < t2:  true'', ''t1 > t2:  false'', ''t1 <= t2: true'', ''t1 != t2: true'', '''', ''(3, 4)'',
     ''point: (3, 4)'', '''', ''dogs: 2'', ''cats: 1'', ''dogs after scope: 0'']"
  by code_simp+

section \<open>Properties\<close>

text \<open>
  \<open>InstanceCounter\<close> counts the live objects only as long as none is copied: after any
  sequence of constructions, copies and destructions its count is the number of live objects
  less the number of copies made, so it is right exactly when no copy was made, and two
  destructions after one construction and one copy leave it at minus one.
\<close>

theorem instance_counter:
  "inst_count (fold inst_exec ops inst_new)
     = int (inst_live (fold inst_exec ops inst_new)) - int (copies_made ops inst_new)
   \<and> inst_count (fold inst_exec [Construct, Copy_Construct, Destruct, Destruct] inst_new) = - 1"
proof -
  have "inst_count (fold inst_exec ops s) - int (inst_live (fold inst_exec ops s)) + int (copies_made ops s)
      = inst_count s - int (inst_live s)" for s
  proof (induction ops arbitrary: s)
    case (Cons op ops)
    show ?case using Cons.IH [of "inst_exec op s"] by (cases op) (auto simp: of_nat_diff)
  qed simp
  from this [of inst_new] show ?thesis by (simp add: inst_new_def)
qed

end
