(* ===== verification/Callbacks.thy ===== *)
theory Callbacks
  imports Errors "HOL-Library.AList" "HOL-Library.Monad_Syntax"
begin

text \<open>
  The callables of \<^verbatim>\<open>lambdas/\<close>: the event classes \<open>EventBus\<close>
  (\<^verbatim>\<open>03_function_vs_fp_vs_template.cpp\<close>), \<open>EventEmitter\<close> and \<open>Emitter\<close> (\<^verbatim>\<open>05_callbacks.cpp\<close>), the
  higher-order functions of \<^verbatim>\<open>06_higher_order.cpp\<close>, and the demonstrations of captures
  (\<^verbatim>\<open>01_syntax_captures.cpp\<close>) and immediately invoked lambdas (\<^verbatim>\<open>04_iile.cpp\<close>).  A handler is
  what it does with its argument, here the lines it prints; handlers that subscribe or
  unsubscribe while they run are outside the model.
\<close>

type_synonym event_handler = "string \<Rightarrow> console"

section \<open>EventBus\<close>

record event_bus =
  bus_handlers :: "event_handler list"

definition subscribe :: "event_handler \<Rightarrow> event_bus \<Rightarrow> event_bus" where
  "subscribe h b = b\<lparr>bus_handlers := bus_handlers b @ [h]\<rparr>"

definition publish :: "string \<Rightarrow> event_bus \<Rightarrow> console" where
  "publish e b = concat (map (\<lambda>h. h e) (bus_handlers b))"

definition register_hot_handler :: "event_bus \<Rightarrow> event_handler \<Rightarrow> event_bus" where
  "register_hot_handler b f = subscribe f b"

section \<open>EventEmitter\<close>

text \<open>\<open>std::map\<close> as an association list: \<open>operator[]\<close> inserts an empty vector for a new key.\<close>

record event_emitter =
  ee_handlers :: "(string \<times> (int \<times> event_handler) list) list"
  ee_next_id :: int

definition ee_new :: event_emitter where
  "ee_new = \<lparr>ee_handlers = [], ee_next_id = 0\<rparr>"

definition ee_at :: "string \<Rightarrow> event_emitter \<Rightarrow> (int \<times> event_handler) list" where
  "ee_at e s = (case map_of (ee_handlers s) e of None \<Rightarrow> [] | Some v \<Rightarrow> v)"

text \<open>
  \<open>next_id_\<close> is an \<open>int\<close>: \<open>next_id_++\<close> at \<open>INT_MAX\<close> is undefined, here \<open>None\<close>.
\<close>

definition next_id_increment :: "int \<Rightarrow> int option" where
  "next_id_increment i = (if i = 2147483647 then None else Some (i + 1))"

definition ee_on :: "string \<Rightarrow> event_handler \<Rightarrow> event_emitter \<Rightarrow> (int \<times> event_emitter) option" where
  "ee_on e h s =
     (let i = ee_next_id s
      in case next_id_increment i of
           None \<Rightarrow> None
         | Some i' \<Rightarrow> Some (i, \<lparr>ee_handlers = AList.update e (ee_at e s @ [(i, h)]) (ee_handlers s), ee_next_id = i'\<rparr>))"

definition ee_off :: "string \<Rightarrow> int \<Rightarrow> event_emitter \<Rightarrow> event_emitter" where
  "ee_off e i s = s\<lparr>ee_handlers := AList.update e (filter (\<lambda>p. \<not> fst p = i) (ee_at e s)) (ee_handlers s)\<rparr>"

definition ee_emit :: "string \<Rightarrow> string \<Rightarrow> event_emitter \<Rightarrow> console" where
  "ee_emit e data s =
     (case map_of (ee_handlers s) e of
        None \<Rightarrow> []
      | Some v \<Rightarrow> concat (map (\<lambda>(i, h). h data) v))"

section \<open>Emitter\<close>

text \<open>\<open>std::unordered_map\<close> as a partial function.\<close>

record emitter =
  em_slots :: "string \<Rightarrow> (int \<times> event_handler) list option"
  em_next_id :: int

definition em_new :: emitter where
  "em_new = \<lparr>em_slots = (\<lambda>_. None), em_next_id = 0\<rparr>"

definition em_at :: "string \<Rightarrow> emitter \<Rightarrow> (int \<times> event_handler) list" where
  "em_at e s = (case em_slots s e of None \<Rightarrow> [] | Some v \<Rightarrow> v)"

definition em_on :: "string \<Rightarrow> event_handler \<Rightarrow> emitter \<Rightarrow> (int \<times> emitter) option" where
  "em_on e h s =
     (let i = em_next_id s
      in case next_id_increment i of
           None \<Rightarrow> None
         | Some i' \<Rightarrow> Some (i, \<lparr>em_slots = (em_slots s)(e := Some (em_at e s @ [(i, h)])), em_next_id = i'\<rparr>))"

definition em_emit :: "string \<Rightarrow> string \<Rightarrow> emitter \<Rightarrow> console" where
  "em_emit e data s =
     (case em_slots s e of
        Some v \<Rightarrow> concat (map (\<lambda>(i, h). h data) v)
      | None \<Rightarrow> [])"

definition em_off :: "string \<Rightarrow> int \<Rightarrow> emitter \<Rightarrow> emitter" where
  "em_off e i s = s\<lparr>em_slots := (em_slots s)(e := Some (filter (\<lambda>p. \<not> fst p = i) (em_at e s)))\<rparr>"

section \<open>What both emitters promise\<close>

datatype sub_op = On string event_handler | Off string int

text \<open>The specification: the live subscriptions in the order they were made.\<close>

type_synonym subscriptions = "(string \<times> int \<times> event_handler) list"

fun spec_op :: "sub_op \<Rightarrow> subscriptions \<times> int \<Rightarrow> subscriptions \<times> int" where
  "spec_op (On e h) (subs, n) = (subs @ [(e, n, h)], n + 1)"
| "spec_op (Off e i) (subs, n) = (filter (\<lambda>x. \<not> (fst x = e \<and> fst (snd x) = i)) subs, n)"

definition spec_emit :: "string \<Rightarrow> string \<Rightarrow> subscriptions \<Rightarrow> console" where
  "spec_emit e data subs = concat (map (\<lambda>x. snd (snd x) data) (filter (\<lambda>x. fst x = e) subs))"

text \<open>A sequence of operations, with the ids that the subscriptions return.\<close>

fun hub_run :: "(string \<Rightarrow> event_handler \<Rightarrow> 's \<Rightarrow> (int \<times> 's) option) \<Rightarrow> (string \<Rightarrow> int \<Rightarrow> 's \<Rightarrow> 's)
    \<Rightarrow> sub_op list \<Rightarrow> 's \<Rightarrow> (int list \<times> 's) option" where
  "hub_run on off [] s = Some ([], s)"
| "hub_run on off (On e h # ops) s =
     (case on e h s of
        None \<Rightarrow> None
      | Some (i, s') \<Rightarrow> map_option (map_prod ((#) i) id) (hub_run on off ops s'))"
| "hub_run on off (Off e i # ops) s = hub_run on off ops (off e i s)"

fun ons :: "sub_op list \<Rightarrow> int" where
  "ons [] = 0"
| "ons (On e h # ops) = ons ops + 1"
| "ons (Off e i # ops) = ons ops"

lemma ons_nonneg: "0 \<le> ons ops"
  by (induction ops rule: ons.induct) auto

locale event_hub =
  fixes new :: 's
    and subs_at :: "string \<Rightarrow> 's \<Rightarrow> (int \<times> event_handler) list"
    and next_id :: "'s \<Rightarrow> int"
    and on :: "string \<Rightarrow> event_handler \<Rightarrow> 's \<Rightarrow> (int \<times> 's) option"
    and off :: "string \<Rightarrow> int \<Rightarrow> 's \<Rightarrow> 's"
    and emit :: "string \<Rightarrow> string \<Rightarrow> 's \<Rightarrow> console"
  assumes new_at: "subs_at e new = []" and new_id: "next_id new = 0"
    and on_none: "on e h s = None \<longleftrightarrow> next_id s = 2147483647"
    and on_at: "on e h s = Some (i, s') \<Longrightarrow>
          subs_at e' s' = subs_at e' s @ (if e' = e then [(next_id s, h)] else [])"
    and on_id: "on e h s = Some (i, s') \<Longrightarrow> i = next_id s \<and> next_id s' = next_id s + 1"
    and off_at: "subs_at e' (off e i s) = (if e' = e then filter (\<lambda>p. fst p \<noteq> i) (subs_at e s) else subs_at e' s)"
    and off_id: "next_id (off e i s) = next_id s"
    and emit_at: "emit e data s = concat (map (\<lambda>(i, h). h data) (subs_at e s))"
begin

definition abs_rel :: "'s \<Rightarrow> subscriptions \<times> int \<Rightarrow> bool" where
  "abs_rel s a \<longleftrightarrow> next_id s = snd a \<and> snd a \<le> 2147483647
     \<and> (\<forall>e. subs_at e s = map snd (filter (\<lambda>x. fst x = e) (fst a)))"

lemma filter_off: "filter (\<lambda>p. fst p \<noteq> i) (map snd (filter (\<lambda>x. fst x = e) subs))
    = map snd (filter (\<lambda>x. fst x = e) (filter (\<lambda>x. \<not> (fst x = e \<and> fst (snd x) = i)) subs))"
  by (induction subs) auto

lemma filter_other: "e' \<noteq> e \<Longrightarrow> filter (\<lambda>x. fst x = e') (filter (\<lambda>x. \<not> (fst x = e \<and> fst (snd x) = i)) subs)
    = filter (\<lambda>x. fst x = e') subs"
  by (induction subs) auto

lemma on_abs:
  assumes "abs_rel s a" and "on e h s = Some (i, s')"
  shows "i = snd a \<and> abs_rel s' (spec_op (On e h) a)"
proof -
  obtain subs n where a: "a = (subs, n)" by fastforce
  have "n \<noteq> 2147483647" using assms on_none [of e h s] by (auto simp: abs_rel_def a)
  with assms on_id [OF assms(2)] on_at [OF assms(2)] show ?thesis by (auto simp: abs_rel_def a)
qed

lemma off_abs:
  assumes r: "abs_rel s a"
  shows "abs_rel (off e i s) (spec_op (Off e i) a)"
proof -
  obtain subs n where a: "a = (subs, n)" by fastforce
  have "subs_at e' (off e i s) = map snd (filter (\<lambda>x. fst x = e')
      (filter (\<lambda>x. \<not> (fst x = e \<and> fst (snd x) = i)) subs))" for e'
  proof (cases "e' = e")
    case True
    with r a show ?thesis by (simp only: abs_rel_def off_at filter_off fst_conv if_True refl)
  next
    case False
    with r a show ?thesis by (simp only: abs_rel_def off_at filter_other [OF False] fst_conv if_False)
  qed
  with r a show ?thesis by (simp add: abs_rel_def off_id)
qed

lemma run_abs:
  assumes "abs_rel s a"
  shows "case hub_run on off ops s of
      None \<Rightarrow> 2147483647 < snd a + ons ops
    | Some (ids, s') \<Rightarrow> snd a + ons ops \<le> 2147483647
        \<and> ids = [snd a..snd a + ons ops - 1] \<and> abs_rel s' (fold spec_op ops a)"
  using assms
proof (induction ops arbitrary: s a)
  case Nil
  then show ?case by (simp add: abs_rel_def)
next
  case (Cons op ops)
  show ?case
  proof (cases op)
    case op: (On e h)
    show ?thesis
    proof (cases "on e h s")
      case None
      with Cons.prems have "snd a = 2147483647" by (simp add: on_none abs_rel_def)
      with None op ons_nonneg [of ops] show ?thesis by simp
    next
      case (Some r)
      then obtain s' where r: "on e h s = Some (snd a, s')" and s': "abs_rel s' (spec_op (On e h) a)"
        using on_abs [OF Cons.prems] by (cases r) blast
      have [simp]: "snd (spec_op (On e h) a) = snd a + 1" by (cases a) simp
      have "[snd a..snd a + ons ops] = snd a # [snd a + 1..snd a + ons ops]"
        using ons_nonneg [of ops] by (simp add: upto_rec1)
      with Cons.IH [OF s'] r op show ?thesis by (auto simp: algebra_simps split: option.splits)
    qed
  next
    case op: (Off e i)
    have [simp]: "snd (spec_op (Off e i) a) = snd a" by (cases a) simp
    from Cons.IH [OF off_abs [OF Cons.prems, of e i]] show ?thesis
      by (auto simp: op split: option.splits)
  qed
qed

lemma new_abs: "abs_rel new ([], 0)"
  by (simp add: abs_rel_def new_at new_id)

lemma run_spec:
  "case hub_run on off ops new of
     None \<Rightarrow> 2 ^ 31 \<le> ons ops
   | Some (ids, s) \<Rightarrow> ons ops < 2 ^ 31 \<and> ids = [0..ons ops - 1]
       \<and> emit e data s = spec_emit e data (fst (fold spec_op ops ([], 0)))"
  using run_abs [OF new_abs, of ops]
  by (auto simp: abs_rel_def emit_at spec_emit_def case_prod_unfold comp_def split: option.splits)

end

interpretation ee: event_hub ee_new ee_at ee_next_id ee_on ee_off ee_emit
  by unfold_locales
    (auto simp: ee_new_def ee_at_def ee_on_def ee_off_def ee_emit_def
      next_id_increment_def Let_def update_conv' split: option.splits if_splits)

interpretation em: event_hub em_new em_at em_next_id em_on em_off em_emit
  by unfold_locales
    (auto simp: em_new_def em_at_def em_on_def em_off_def em_emit_def
      next_id_increment_def Let_def split: option.splits if_splits)

section \<open>Higher-order functions\<close>

text \<open>The loops of \<^verbatim>\<open>06_higher_order.cpp\<close>: \<open>out\<close> is the vector built so far.\<close>

fun vec_map_loop :: "('a \<Rightarrow> 'b) \<Rightarrow> 'a list \<Rightarrow> 'b list \<Rightarrow> 'b list" where
  "vec_map_loop f [] out = out"
| "vec_map_loop f (x # v) out = vec_map_loop f v (out @ [f x])"

definition vec_map :: "'a list \<Rightarrow> ('a \<Rightarrow> 'b) \<Rightarrow> 'b list" where
  "vec_map v f = vec_map_loop f v []"

fun vec_filter_loop :: "('a \<Rightarrow> bool) \<Rightarrow> 'a list \<Rightarrow> 'a list \<Rightarrow> 'a list" where
  "vec_filter_loop pred [] out = out"
| "vec_filter_loop pred (x # v) out = vec_filter_loop pred v (if pred x then out @ [x] else out)"

definition vec_filter :: "'a list \<Rightarrow> ('a \<Rightarrow> bool) \<Rightarrow> 'a list" where
  "vec_filter v pred = vec_filter_loop pred v []"

fun vec_reduce :: "'a list \<Rightarrow> 'u \<Rightarrow> ('u \<Rightarrow> 'a \<Rightarrow> 'u) \<Rightarrow> 'u" where
  "vec_reduce [] init fop = init"
| "vec_reduce (x # v) init fop = vec_reduce v (fop init x) fop"

definition make_multiplier :: "int \<Rightarrow> int \<Rightarrow> int" where
  "make_multiplier factor = (\<lambda>x. x * factor)"

definition make_between :: "int \<Rightarrow> int \<Rightarrow> int \<Rightarrow> bool" where
  "make_between lo hi = (\<lambda>x. lo \<le> x \<and> x \<le> hi)"

definition compose :: "('b \<Rightarrow> 'c) \<Rightarrow> ('a \<Rightarrow> 'b) \<Rightarrow> 'a \<Rightarrow> 'c" where
  "compose f g = (\<lambda>x. f (g x))"

definition partial :: "('a \<Rightarrow> 'b \<Rightarrow> 'c) \<Rightarrow> 'a \<Rightarrow> 'b \<Rightarrow> 'c" where
  "partial f first = (\<lambda>second. f first second)"

definition print_vec :: "('a \<Rightarrow> string) \<Rightarrow> 'a list \<Rightarrow> string \<Rightarrow> string" where
  "print_vec shw v label =
     (if label \<noteq> [] then label @ '': '' else []) @ concat (map (\<lambda>x. shw x @ '' '') v)"

definition higher_order_main :: console where
  "higher_order_main =
     (let nums = [1, 2, 3, 4, 5, 6, 7, 8, 9, 10] :: int list;
          evens = vec_filter nums (\<lambda>x. x mod 2 = 0)
      in [print_vec dec_int (vec_map nums (\<lambda>x. x * 2)) ''doubled'',
          print_vec id (vec_map nums dec_int) ''as_str'',
          print_vec dec_int evens ''evens'',
          ''sum='' @ dec_int (vec_reduce nums 0 (\<lambda>acc x. acc + x)),
          ''prod='' @ dec_int (vec_reduce nums 1 (\<lambda>acc x. acc * x)),
          ''sum of squares of evens='' @
            dec_int (vec_reduce (vec_map (vec_filter nums (\<lambda>x. x mod 2 = 0)) (\<lambda>x. x * x)) 0 (\<lambda>acc x. acc + x)),
          print_vec dec_int (vec_map nums (make_multiplier 3)) ''tripled'',
          print_vec dec_int (vec_filter nums (make_between 4 7)) ''between 4-7'',
          ''double_then_add1(5)='' @ dec_int (compose (\<lambda>x. x + 1) (\<lambda>x. x * 2) 5),
          print_vec dec_int (vec_map evens (partial (\<lambda>a b. a + b) 10)) ''evens + 10''])"

lemma vec_map_loop_map: "vec_map_loop f v out = out @ map f v"
  by (induction v arbitrary: out) auto

lemma vec_filter_loop_filter: "vec_filter_loop pred v out = out @ filter pred v"
  by (induction v arbitrary: out) auto

text \<open>The loops are the list functions, so that chains of them fuse.\<close>

lemma vec_functions:
  "vec_map v f = map f v" "vec_filter v pred = filter pred v" "vec_reduce v init fop = foldl fop init v"
proof -
  show "vec_map v f = map f v" by (simp add: vec_map_def vec_map_loop_map)
  show "vec_filter v pred = filter pred v" by (simp add: vec_filter_def vec_filter_loop_filter)
  show "vec_reduce v init fop = foldl fop init v" by (induction v arbitrary: init) auto
qed

section \<open>The other demonstrations\<close>

text \<open>
  \<open>apply_template\<close>, \<open>apply_fp\<close> and \<open>apply_stdfn\<close> run the same loop; the callable acts on the
  state it refers to.
\<close>

fun apply_each :: "int list \<Rightarrow> (int \<Rightarrow> 's \<Rightarrow> 's) \<Rightarrow> 's \<Rightarrow> 's" where
  "apply_each [] func s = s"
| "apply_each (x # v) func s = apply_each v func (func x s)"

definition function_kinds_main :: console where
  "function_kinds_main =
     (let v = [1, 2, 3, 4, 5];
          bus = subscribe (\<lambda>e. [''handler2: '' @ e])
                  (register_hot_handler \<lparr>bus_handlers = []\<rparr> (\<lambda>e. [''handler1: '' @ e]))
      in [''template sum='' @ dec_int (apply_each v (\<lambda>x sum. sum + x) 0),
          apply_each v (\<lambda>x out. out @ dec_int x @ '' '') [],
          ''stdfn log='' @ apply_each v (\<lambda>x log. log @ dec_int x @ '' '') []]
         @ publish ''click'' bus @ publish ''hover'' bus @ [''handler1 fired 2 times''])"

definition callbacks_main :: "console option" where
  "callbacks_main = do {
     (id1, em1) \<leftarrow> em_on ''data'' (\<lambda>d. [''[LOG] data: '' @ d]) em_new;
     (id2, em2) \<leftarrow> em_on ''data'' (\<lambda>d. [''[raw] '' @ d]) em1;
     Some (map (\<lambda>f. ''processing: '' @ f) [''main.cpp'', ''util.cpp'', ''test.cpp'']
         @ [''processed 3 files'', '''']
         @ em_emit ''data'' ''payload-1'' em2 @ em_emit ''data'' ''payload-2'' em2
         @ ['''', ''(unsubscribing id1)''] @ em_emit ''data'' ''payload-3'' (em_off ''data'' id1 em2))}"

text \<open>
  \<^verbatim>\<open>01_syntax_captures.cpp\<close>: a capture by copy takes the value at the definition, a capture
  by reference reads the variable at the call.
\<close>

definition by_copy :: "'a \<Rightarrow> ('a \<Rightarrow> 'b) \<Rightarrow> 's \<Rightarrow> 'b" where
  "by_copy captured body = (\<lambda>store. body captured)"

definition by_reference :: "('s \<Rightarrow> 'a) \<Rightarrow> ('a \<Rightarrow> 'b) \<Rightarrow> 's \<Rightarrow> 'b" where
  "by_reference var body = (\<lambda>store. body (var store))"

record capture_store =
  counter_var :: int
  prefix_var :: string
  id_var :: int
  v_var :: "int list"
  widget_value :: int

definition captures_main :: console where
  "captures_main =
     (let s0 = \<lparr>counter_var = 0, prefix_var = ''item'', id_var = 7, v_var = [1, 2, 3], widget_value = 10\<rparr>;
          snap = by_copy (counter_var s0) (\<lambda>c. ''snap='' @ dec_int c);
          s1 = s0\<lparr>counter_var := 99\<rparr>;
          inc = (\<lambda>s. s\<lparr>counter_var := counter_var s + 1\<rparr>);
          s2 = inc (inc s1);
          label = by_copy (prefix_var s2, id_var s2) (\<lambda>(p, i). p @ ''-'' @ dec_int i);
          s3 = s2\<lparr>prefix_var := ''CHANGED'', id_var := 999\<rparr>;
          sum_ref = by_reference v_var (\<lambda>v. dec_int (sum_list v));
          s4 = s3\<lparr>v_var := v_var s3 @ [4]\<rparr>;
          x0 = 10; x1 = x0 + 5; x2 = x1 + 5;
          getter = by_reference widget_value dec_int;
          snapshot = by_copy (widget_value s4) dec_int;
          s5 = s4\<lparr>widget_value := 99\<rparr>
      in [''hello'', snap s1, ''counter='' @ dec_int (counter_var s2), label s3, ''sum='' @ sum_ref s4,
          ''inner x='' @ dec_int x1, ''inner x='' @ dec_int x2, ''outer x='' @ dec_int x0,
          ''owned value='' @ dec_int 42, ''(dangling ref example intentionally skipped)'',
          ''getter='' @ getter s5, ''snapshot='' @ snapshot s5])"

text \<open>\<^verbatim>\<open>04_iile.cpp\<close>: the initialisers; the environment variable is a parameter.\<close>

definition config_value :: int where
  "config_value = (let base = 10; base = base * 2; base = base + 5 in base)"

definition timeout_ms :: "string \<Rightarrow> int" where
  "timeout_ms env = (if env = ''production'' then 5000 else if env = ''staging'' then 1000 else 200)"

definition error_codes :: "string \<Rightarrow> int option" where
  "error_codes = Map.empty(''ok'' \<mapsto> 200, ''not_found'' \<mapsto> 404, ''server_error'' \<mapsto> 500)"

definition port :: "string option \<Rightarrow> int" where
  "port env_port =
     (case env_port of
        None \<Rightarrow> 8080
      | Some s \<Rightarrow>
          (case stoi s of
             None \<Rightarrow> 8080
           | Some p \<Rightarrow> if p < 1 \<or> 65535 < p then 8080 else p))"

definition squares :: "int list" where
  "squares = map (\<lambda>i. int i * int i) [0..<10]"

definition iile_main :: "string option \<Rightarrow> console" where
  "iile_main env_port =
     [''config_value='' @ dec_int config_value, ''timeout='' @ dec_int (timeout_ms ''production'') @ ''ms'',
      ''error_codes[\"not_found\"]='' @ (case error_codes ''not_found'' of Some c \<Rightarrow> dec_int c | None \<Rightarrow> []),
      ''port='' @ dec_int (port env_port), ''squares[7]='' @ dec_int (squares ! 7)]"

lemma port_in_range: "1 \<le> port e \<and> port e \<le> 65535"
  by (simp add: port_def split: option.split)

lemma callback_programs:
  "higher_order_main = [''doubled: 2 4 6 8 10 12 14 16 18 20 '', ''as_str: 1 2 3 4 5 6 7 8 9 10 '', ''evens: 2 4 6 8 10 '',
     ''sum=55'', ''prod=3628800'', ''sum of squares of evens=220'', ''tripled: 3 6 9 12 15 18 21 24 27 30 '',
     ''between 4-7: 4 5 6 7 '', ''double_then_add1(5)=11'', ''evens + 10: 12 14 16 18 20 '']"
  "function_kinds_main = [''template sum=15'', ''1 2 3 4 5 '', ''stdfn log=1 2 3 4 5 '', ''handler1: click'',
     ''handler2: click'', ''handler1: hover'', ''handler2: hover'', ''handler1 fired 2 times'']"
  "callbacks_main = Some [''processing: main.cpp'', ''processing: util.cpp'', ''processing: test.cpp'', ''processed 3 files'',
     '''', ''[LOG] data: payload-1'', ''[raw] payload-1'', ''[LOG] data: payload-2'', ''[raw] payload-2'', '''',
     ''(unsubscribing id1)'', ''[raw] payload-3'']"
  "captures_main = [''hello'', ''snap=0'', ''counter=101'', ''item-7'', ''sum=10'', ''inner x=15'', ''inner x=20'',
     ''outer x=10'', ''owned value=42'', ''(dangling ref example intentionally skipped)'', ''getter=99'', ''snapshot=10'']"
  "iile_main None = [''config_value=25'', ''timeout=5000ms'', ''error_codes[\"not_found\"]=404'', ''port=8080'', ''squares[7]=49'']"
  by code_simp+

section \<open>Properties\<close>

text \<open>
  C17: Both emitters implement the list of live subscriptions.  Of any sequence of
  subscriptions and cancellations with fewer than \<open>2 ^ 31\<close> subscriptions, every operation is
  defined (with more, \<open>next_id_++\<close> overflows), the ids returned are 0, 1, 2, \<open>\<dots>\<close> in order, so
  that no id is handed out twice, the id of a cancelled subscription included, and afterwards
  emitting an event runs exactly the handlers subscribed to that event and not cancelled
  since, each once, in the order of subscription, and each with the emitted data.
\<close>

theorem emitters_refine_subscriptions:
  "(case hub_run ee_on ee_off ops ee_new of
      None \<Rightarrow> 2 ^ 31 \<le> ons ops
    | Some (ids, s) \<Rightarrow> ons ops < 2 ^ 31 \<and> ids = [0..ons ops - 1]
        \<and> ee_emit e data s = spec_emit e data (fst (fold spec_op ops ([], 0))))
   \<and> (case hub_run em_on em_off ops em_new of
        None \<Rightarrow> 2 ^ 31 \<le> ons ops
      | Some (ids, s) \<Rightarrow> ons ops < 2 ^ 31 \<and> ids = [0..ons ops - 1]
          \<and> em_emit e data s = spec_emit e data (fst (fold spec_op ops ([], 0))))"
  using ee.run_spec em.run_spec by blast

end
