(* ===== verification/Algorithms.thy ===== *)
theory Algorithms
  imports Prelude "HOL-Library.Multiset"
begin

text \<open>
  The programs of \<^verbatim>\<open>algorithms/\<close> and the standard algorithms they call.  A range is a list and
  an iterator into it a position, \<open>end()\<close> being the length.  Each algorithm is defined by what
  the C++ standard says of its result; where the standard leaves the result open (the tail
  behind \<open>partial_sort\<close>, the order inside the groups of \<open>partition\<close>, the layout of a heap, the
  elements behind the new end of \<open>remove_if\<close>) the open part is an argument of the program.  A
  printed line is \<open>None\<close> when the program dereferences \<open>end()\<close>.
\<close>

section \<open>Printing\<close>

definition print_ints :: "int list \<Rightarrow> string \<Rightarrow> string" where
  "print_ints v label = (if label = [] then [] else label @ '': '') @ concat (map (\<lambda>x. dec_int x @ '' '') v)"

definition show_bool :: "bool \<Rightarrow> string" where
  "show_bool b = (if b then ''true'' else ''false'')"

definition deref :: "'a list \<Rightarrow> nat \<Rightarrow> 'a option" where
  "deref v i = (if i < length v then Some (v ! i) else None)"

definition is_even :: "int \<Rightarrow> bool" where
  "is_even x \<longleftrightarrow> x mod 2 = 0"

section \<open>Sorting with a comparator\<close>

record person =
  person_name :: string
  person_age :: int

text \<open>\<open>operator<\<close> of \<open>std::string\<close>: lexicographic on the bytes.\<close>

fun string_less :: "string \<Rightarrow> string \<Rightarrow> bool" where
  "string_less [] ys = (ys \<noteq> [])"
| "string_less (x # xs) [] = False"
| "string_less (x # xs) (y # ys) =
     (if (of_char x :: nat) = of_char y then string_less xs ys else (of_char x :: nat) < of_char y)"

fun insert_by :: "('a \<Rightarrow> 'a \<Rightarrow> bool) \<Rightarrow> 'a \<Rightarrow> 'a list \<Rightarrow> 'a list" where
  "insert_by lt x [] = [x]"
| "insert_by lt x (y # ys) = (if lt y x then y # insert_by lt x ys else x # y # ys)"

text \<open>
  The result of \<open>stable_sort\<close>, which is also that of \<open>sort\<close> when elements that compare
  equivalent are equal.
\<close>

definition stable_sort :: "('a \<Rightarrow> 'a \<Rightarrow> bool) \<Rightarrow> 'a list \<Rightarrow> 'a list" where
  "stable_sort lt xs = foldr (insert_by lt) xs []"

definition equivalent :: "('a \<Rightarrow> 'a \<Rightarrow> bool) \<Rightarrow> 'a \<Rightarrow> 'a \<Rightarrow> bool" where
  "equivalent lt x y \<longleftrightarrow> \<not> lt x y \<and> \<not> lt y x"

definition by_age_name :: "person \<Rightarrow> person \<Rightarrow> bool" where
  "by_age_name a b =
     (if person_age a \<noteq> person_age b then person_age a < person_age b
      else string_less (person_name a) (person_name b))"

definition by_age :: "person \<Rightarrow> person \<Rightarrow> bool" where
  "by_age a b \<longleftrightarrow> person_age a < person_age b"

definition show_people :: "person list \<Rightarrow> string" where
  "show_people ps = concat (map (\<lambda>p. person_name p @ ''('' @ dec_int (person_age p) @ '') '') ps)"

text \<open>
  What the standard promises of \<open>partial_sort\<close> and \<open>nth_element\<close> on integers: a permutation whose
  first \<open>m\<close> positions, respectively whose position \<open>n\<close>, are those of the sorted range, with nothing
  greater before position \<open>n\<close> and nothing smaller behind it.
\<close>

definition partial_sort_spec :: "(nat \<Rightarrow> int list \<Rightarrow> int list) \<Rightarrow> bool" where
  "partial_sort_spec f \<longleftrightarrow> (\<forall>m v. mset (f m v) = mset v \<and> (m \<le> length v \<longrightarrow> take m (f m v) = take m (sort v)))"

definition nth_element_spec :: "(nat \<Rightarrow> int list \<Rightarrow> int list) \<Rightarrow> bool" where
  "nth_element_spec f \<longleftrightarrow> (\<forall>n v. mset (f n v) = mset v \<and> (n < length v \<longrightarrow> f n v ! n = sort v ! n
     \<and> (\<forall>i < n. f n v ! i \<le> f n v ! n) \<and> (\<forall>i. n \<le> i \<and> i < length v \<longrightarrow> f n v ! n \<le> f n v ! i)))"

definition sorting_main :: "(nat \<Rightarrow> int list \<Rightarrow> int list) \<Rightarrow> (nat \<Rightarrow> int list \<Rightarrow> int list) \<Rightarrow> string option list" where
  "sorting_main partial_sort nth_element =
     (let v = stable_sort (<) [5, 3, 8, 1, 9, 2, 7, 4, 6];
          desc = stable_sort (\<lambda>a b. b < a) v;
          people = [\<lparr>person_name = ''alice'', person_age = 30\<rparr>, \<lparr>person_name = ''bob'', person_age = 25\<rparr>,
                    \<lparr>person_name = ''carol'', person_age = 30\<rparr>, \<lparr>person_name = ''dave'', person_age = 25\<rparr>];
          v2 = partial_sort 3 [5, 3, 8, 1, 9, 2, 7];
          v3 = [5, 3, 8, 1, 9, 2, 7, 4, 6];
          mid = length v3 div 2
      in [Some (print_ints v ''sort asc''), Some (print_ints desc ''sort desc''),
          Some (show_people (stable_sort by_age_name people)), Some (show_people (stable_sort by_age people)),
          Some (print_ints v2 ''partial_sort(3)''),
          map_option (\<lambda>x. ''median candidate: '' @ dec_int x) (deref (nth_element mid v3) mid)])"

section \<open>Linear search\<close>

definition find_if :: "('a \<Rightarrow> bool) \<Rightarrow> 'a list \<Rightarrow> nat" where
  "find_if P v = length (takeWhile (\<lambda>x. \<not> P x) v)"

definition std_find :: "'a \<Rightarrow> 'a list \<Rightarrow> nat" where
  "std_find x v = find_if (\<lambda>y. y = x) v"

definition find_if_not :: "('a \<Rightarrow> bool) \<Rightarrow> 'a list \<Rightarrow> nat" where
  "find_if_not P v = find_if (\<lambda>x. \<not> P x) v"

definition find_first_of :: "'a list \<Rightarrow> 'a list \<Rightarrow> nat" where
  "find_first_of v targets = find_if (\<lambda>x. x \<in> set targets) v"

fun search :: "'a list \<Rightarrow> 'a list \<Rightarrow> nat" where
  "search [] needle = 0"
| "search (x # xs) needle = (if take (length needle) (x # xs) = needle then 0 else Suc (search xs needle))"

fun adjacent_find :: "('a \<Rightarrow> 'a \<Rightarrow> bool) \<Rightarrow> 'a list \<Rightarrow> nat" where
  "adjacent_find R (x # y # ys) = (if R x y then 0 else Suc (adjacent_find R (y # ys)))"
| "adjacent_find R v = length v"

text \<open>The lines guarded by \<open>it != end()\<close> are printed only when the search succeeds.\<close>

definition guarded :: "bool \<Rightarrow> string \<Rightarrow> string option list" where
  "guarded b line = (if b then [Some line] else [])"

definition search_main :: "string option list" where
  "search_main =
     (let v = [3, 1, 4, 1, 5, 9, 2, 6, 5, 3] :: int list;
          it = std_find 9 v;
          targets = [9, 5];
          ffo = find_first_of v targets;
          needle = [1, 5];
          pos = search v needle;
          v2 = [1, 2, 3, 3, 4, 5, 5] :: int list;
          text = ''the quick brown fox'';
          sit = search text ''brown''
      in guarded (it \<noteq> length v) (''found 9 at index '' @ dec_nat it)
         @ [map_option (\<lambda>x. ''first even: '' @ dec_int x) (deref v (find_if is_even v)),
            map_option (\<lambda>x. ''first non-1: '' @ dec_int x) (deref v (find_if_not (\<lambda>x. x = 1) v)),
            map_option (\<lambda>x. ''first element that is 9 or 5: '' @ dec_int x @ '' at index '' @ dec_nat ffo) (deref v ffo)]
         @ guarded (pos \<noteq> length v) (''sub-sequence {1,5} at index '' @ dec_nat pos)
         @ [map_option (\<lambda>x. ''first consecutive pair: '' @ dec_int x) (deref v2 (adjacent_find (=) v2)),
            map_option (\<lambda>x. ''first pair where b==2a: '' @ dec_int x) (deref v2 (adjacent_find (\<lambda>a b. b = a * 2) v2))]
         @ guarded (sit \<noteq> length text) (''found \"brown\" at pos '' @ dec_nat sit))"

section \<open>Binary search\<close>

text \<open>
  The furthermost position before which every element is less than the value, respectively not
  greater than it.
\<close>

definition lower_bound :: "('a \<Rightarrow> 'a \<Rightarrow> bool) \<Rightarrow> 'a list \<Rightarrow> 'a \<Rightarrow> nat" where
  "lower_bound lt v x = length (takeWhile (\<lambda>y. lt y x) v)"

definition upper_bound :: "('a \<Rightarrow> 'a \<Rightarrow> bool) \<Rightarrow> 'a list \<Rightarrow> 'a \<Rightarrow> nat" where
  "upper_bound lt v x = length (takeWhile (\<lambda>y. \<not> lt x y) v)"

definition equal_range :: "('a \<Rightarrow> 'a \<Rightarrow> bool) \<Rightarrow> 'a list \<Rightarrow> 'a \<Rightarrow> nat \<times> nat" where
  "equal_range lt v x = (lower_bound lt v x, upper_bound lt v x)"

definition binary_search :: "('a \<Rightarrow> 'a \<Rightarrow> bool) \<Rightarrow> 'a list \<Rightarrow> 'a \<Rightarrow> bool" where
  "binary_search lt v x =
     (case deref v (lower_bound lt v x) of None \<Rightarrow> False | Some y \<Rightarrow> \<not> lt x y)"

definition vec_insert :: "nat \<Rightarrow> 'a \<Rightarrow> 'a list \<Rightarrow> 'a list" where
  "vec_insert i x v = take i v @ x # drop i v"

definition slice_range :: "nat \<Rightarrow> nat \<Rightarrow> 'a list \<Rightarrow> 'a list" where
  "slice_range i j v = take (j - i) (drop i v)"

fun comma_sep :: "int list \<Rightarrow> string" where
  "comma_sep [] = []"
| "comma_sep [x] = dec_int x"
| "comma_sep (x # xs) = dec_int x @ '', '' @ comma_sep xs"

definition print_range :: "string \<Rightarrow> int list \<Rightarrow> string" where
  "print_range label v = label @ '': ['' @ comma_sep v @ '']''"

definition binary_search_main :: "string option list" where
  "binary_search_main =
     (let v = [1, 2, 4, 4, 4, 6, 8, 10] :: int list;
          (first, last) = equal_range (<) v 4;
          (f5, l5) = equal_range (<) v 5;
          sorted = [1, 3, 5, 7];
          sorted = vec_insert (lower_bound (<) sorted 4) 4 sorted;
          desc = [10, 8, 6, 4, 2]
      in [Some (''binary_search(4): '' @ show_bool (binary_search (<) v 4)),
          Some (''binary_search(5): '' @ show_bool (binary_search (<) v 5)),
          Some (''lower_bound(4) index: '' @ dec_nat (lower_bound (<) v 4)),
          map_option (\<lambda>x. ''lower_bound(5) points to: '' @ dec_int x) (deref v (lower_bound (<) v 5)),
          Some (''upper_bound(4) index: '' @ dec_nat (upper_bound (<) v 4)),
          Some (''equal_range(4) count: '' @ dec_nat (last - first)),
          Some (print_range ''equal_range(4)'' (slice_range first last v)),
          Some (''equal_range(5) empty: '' @ show_bool (f5 = l5)),
          Some (print_ints sorted []),
          map_option (\<lambda>x. ''lower_bound(5, desc) points to: '' @ dec_int x)
            (deref desc (lower_bound (\<lambda>a b. b < a) desc 5))])"

section \<open>Partitioning\<close>

definition stable_partition :: "('a \<Rightarrow> bool) \<Rightarrow> 'a list \<Rightarrow> 'a list \<times> nat" where
  "stable_partition P v = (filter P v @ filter (\<lambda>x. \<not> P x) v, length (filter P v))"

text \<open>\<open>partition\<close>: a permutation with the elements of \<open>P\<close> first.\<close>

definition partition_spec :: "((int \<Rightarrow> bool) \<Rightarrow> int list \<Rightarrow> int list) \<Rightarrow> bool" where
  "partition_spec f \<longleftrightarrow> (\<forall>P v. mset (f P v) = mset v
     \<and> (\<exists>t e. f P v = t @ e \<and> (\<forall>x \<in> set t. P x) \<and> (\<forall>x \<in> set e. \<not> P x)))"

definition partition_copy :: "('a \<Rightarrow> bool) \<Rightarrow> 'a list \<Rightarrow> 'a list \<times> 'a list" where
  "partition_copy P v = (filter P v, filter (\<lambda>x. \<not> P x) v)"

definition is_partitioned :: "('a \<Rightarrow> bool) \<Rightarrow> 'a list \<Rightarrow> bool" where
  "is_partitioned P v = list_all (\<lambda>x. \<not> P x) (dropWhile P v)"

definition show_students :: "(string \<times> int) list \<Rightarrow> string" where
  "show_students s = concat (map (\<lambda>(n, k). n @ ''('' @ dec_int k @ '') '') s)"

definition partition_main :: "((int \<Rightarrow> bool) \<Rightarrow> int list \<Rightarrow> int list) \<Rightarrow> console" where
  "partition_main part =
     (let v = part is_even [1, 2, 3, 4, 5, 6, 7, 8];
          (v2, _) = stable_partition is_even [1, 2, 3, 4, 5, 6, 7, 8];
          v3 = [1, 2, 3, 4, 5, 6];
          (evens, odds) = partition_copy is_even v3;
          students = [(''alice'', 82), (''bob'', 45), (''carol'', 91), (''dave'', 58), (''eve'', 37)];
          (students, pass_bound) = stable_partition (\<lambda>(_, score). 60 \<le> score) students
      in [print_ints v ''partitioned'',
          ''first odd at index: '' @ dec_nat (find_if_not is_even v),
          print_ints v2 ''stable_partition'',
          print_ints evens ''evens'', print_ints odds ''odds'',
          ''v2 is_partitioned(even): '' @ show_bool (is_partitioned is_even v2),
          ''v3 is_partitioned(even): '' @ show_bool (is_partitioned is_even v3),
          ''passing: '' @ show_students (take pass_bound students),
          ''failing: '' @ show_students (drop pass_bound students)])"

section \<open>Removing\<close>

text \<open>
  \<open>remove_if\<close> moves the kept elements to the front and returns their number; the range keeps its
  length and \<open>junk\<close> is what stands behind the new end.
\<close>

definition remove_if :: "(nat \<Rightarrow> 'a) \<Rightarrow> ('a \<Rightarrow> bool) \<Rightarrow> 'a list \<Rightarrow> 'a list \<times> nat" where
  "remove_if junk P v =
     (let kept = filter (\<lambda>x. \<not> P x) v in (kept @ map junk [length kept..<length v], length kept))"

fun drop_repeats :: "'a list \<Rightarrow> 'a list" where
  "drop_repeats (x # y # ys) = (if x = y then drop_repeats (x # ys) else x # drop_repeats (y # ys))"
| "drop_repeats v = v"

definition unique :: "(nat \<Rightarrow> 'a) \<Rightarrow> 'a list \<Rightarrow> 'a list \<times> nat" where
  "unique junk v =
     (let kept = drop_repeats v in (kept @ map junk [length kept..<length v], length kept))"

text \<open>\<open>v.erase(new_end, v.end())\<close>.\<close>

definition erase_tail :: "'a list \<times> nat \<Rightarrow> 'a list" where
  "erase_tail r = take (snd r) (fst r)"

definition erase_if :: "(nat \<Rightarrow> 'a) \<Rightarrow> ('a \<Rightarrow> bool) \<Rightarrow> 'a list \<Rightarrow> 'a list" where
  "erase_if junk P v = erase_tail (remove_if junk P v)"

definition remove_main :: "(nat \<Rightarrow> int) \<Rightarrow> console" where
  "remove_main junk =
     [print_ints (erase_tail (remove_if junk (\<lambda>x. x = 2) [1, 2, 3, 2, 4, 2, 5])) ''remove 2'',
      print_ints (erase_tail (remove_if junk is_even [1, 2, 3, 4, 5, 6, 7, 8])) ''remove evens'',
      print_ints (erase_if junk (\<lambda>x. x > 3) [1, 2, 3, 4, 5, 6]) ''erase_if >3'',
      print_ints (erase_if junk (\<lambda>x. x = 2) [1, 2, 3, 2, 1]) ''erase 2'',
      print_ints (erase_tail (unique junk [1, 1, 2, 3, 3, 3, 4, 4, 5])) ''unique (already sorted)'',
      print_ints (erase_tail (unique junk [3, 1, 1, 2, 3, 2])) ''unique (unsorted)'',
      print_ints (erase_tail (unique junk (stable_sort (<) [3, 1, 1, 2, 3, 2]))) ''sort+unique'']"

section \<open>Transforming\<close>

fun transform2 :: "('a \<Rightarrow> 'b \<Rightarrow> 'c) \<Rightarrow> 'a list \<Rightarrow> 'b list \<Rightarrow> 'c list" where
  "transform2 f (x # xs) (y # ys) = f x y # transform2 f xs ys"
| "transform2 f xs ys = []"

definition replace_if :: "('a \<Rightarrow> bool) \<Rightarrow> 'a \<Rightarrow> 'a list \<Rightarrow> 'a list" where
  "replace_if P n v = map (\<lambda>x. if P x then n else x) v"

text \<open>\<open>generate\<close> with a callable that keeps a state: the element and the next state.\<close>

fun generate_range :: "('s \<Rightarrow> 'a \<times> 's) \<Rightarrow> 's \<Rightarrow> nat \<Rightarrow> 'a list" where
  "generate_range g s 0 = []"
| "generate_range g s (Suc n) = (let (x, s') = g s in x # generate_range g s' n)"

definition transform_main :: console where
  "transform_main =
     (let v = [1, 2, 3, 4, 5] :: int list;
          doubled = map (\<lambda>x. x * 2) v;
          v = map (\<lambda>x. x * x) v;
          a = [1, 2, 3] :: int list;
          b = [10, 20, 30];
          total = fold (\<lambda>x t. t + x) a 0;
          v2 = replace_if is_even 0 [1, 2, 3, 4, 5, 6];
          v3 = map (\<lambda>_. 7) (replicate 5 (0 :: int));
          v4 = generate_range (\<lambda>n. (n + 10, n + 10)) 0 6
      in [print_ints doubled ''doubled'', print_ints v ''squared in-place'',
          print_ints (transform2 (\<lambda>x y. x + y) a b) ''a+b'', ''total='' @ dec_int total,
          print_ints v2 ''replace evens with 0'', print_ints v3 ''fill 7'', print_ints v4 ''generate +10''])"

section \<open>Numeric algorithms\<close>

definition accumulate :: "('b \<Rightarrow> 'a \<Rightarrow> 'b) \<Rightarrow> 'b \<Rightarrow> 'a list \<Rightarrow> 'b" where
  "accumulate f init v = foldl f init v"

fun scan_from :: "('a \<Rightarrow> 'a \<Rightarrow> 'a) \<Rightarrow> 'a \<Rightarrow> 'a list \<Rightarrow> 'a list" where
  "scan_from f acc [] = []"
| "scan_from f acc (x # xs) = f acc x # scan_from f (f acc x) xs"

definition partial_sum :: "('a \<Rightarrow> 'a \<Rightarrow> 'a) \<Rightarrow> 'a list \<Rightarrow> 'a list" where
  "partial_sum f v = (case v of [] \<Rightarrow> [] | x # xs \<Rightarrow> x # scan_from f x xs)"

fun exclusive_scan :: "('a \<Rightarrow> 'a \<Rightarrow> 'a) \<Rightarrow> 'a \<Rightarrow> 'a list \<Rightarrow> 'a list" where
  "exclusive_scan f acc [] = []"
| "exclusive_scan f acc (x # xs) = acc # exclusive_scan f (f acc x) xs"

fun inner_product :: "('c \<Rightarrow> 'd \<Rightarrow> 'c) \<Rightarrow> ('a \<Rightarrow> 'b \<Rightarrow> 'd) \<Rightarrow> 'c \<Rightarrow> 'a list \<Rightarrow> 'b list \<Rightarrow> 'c" where
  "inner_product add mul acc (x # xs) (y # ys) = inner_product add mul (add acc (mul x y)) xs ys"
| "inner_product add mul acc xs ys = acc"

definition iota_fill :: "int \<Rightarrow> nat \<Rightarrow> int list" where
  "iota_fill x n = map (\<lambda>i. x + int i) [0..<n]"

definition numeric_main :: console where
  "numeric_main =
     (let v = [1, 2, 3, 4, 5] :: int list;
          a = [1, 2, 3] :: int list;
          b = [4, 5, 6]
      in [''sum='' @ dec_int (accumulate (+) 0 v), ''product='' @ dec_int (accumulate (*) 1 v),
          accumulate (@) [] [''hello'', '' '', ''world''],
          ''reduce sum='' @ dec_int (accumulate (+) 0 v),
          print_ints (partial_sum (+) v) ''partial_sum'',
          print_ints (partial_sum (+) v) ''inclusive_scan'',
          print_ints (exclusive_scan (+) 0 v) ''exclusive_scan'',
          ''dot product='' @ dec_int (inner_product (+) (*) 0 a b),
          ''sum of max pairs='' @ dec_int (inner_product (+) max 0 a b),
          print_ints (iota_fill 1 6) ''iota(1)''])"

section \<open>Predicates and counting\<close>

fun all_of :: "('a \<Rightarrow> bool) \<Rightarrow> 'a list \<Rightarrow> bool" where
  "all_of P [] = True"
| "all_of P (x # xs) = (if P x then all_of P xs else False)"

fun any_of :: "('a \<Rightarrow> bool) \<Rightarrow> 'a list \<Rightarrow> bool" where
  "any_of P [] = False"
| "any_of P (x # xs) = (if P x then True else any_of P xs)"

fun none_of :: "('a \<Rightarrow> bool) \<Rightarrow> 'a list \<Rightarrow> bool" where
  "none_of P [] = True"
| "none_of P (x # xs) = (if P x then False else none_of P xs)"

definition count_if :: "('a \<Rightarrow> bool) \<Rightarrow> 'a list \<Rightarrow> nat" where
  "count_if P v = foldl (\<lambda>n x. if P x then Suc n else n) 0 v"

text \<open>The second range must be at least as long as the first; reading beyond it is \<open>None\<close>.\<close>

fun mismatch :: "'a list \<Rightarrow> 'a list \<Rightarrow> nat option" where
  "mismatch [] ys = Some 0"
| "mismatch (x # xs) [] = None"
| "mismatch (x # xs) (y # ys) = (if x = y then map_option Suc (mismatch xs ys) else Some 0)"

definition range_equal :: "'a list \<Rightarrow> 'a list \<Rightarrow> bool option" where
  "range_equal xs ys = map_option (\<lambda>i. i = length xs) (mismatch xs ys)"

definition predicates_main :: "string option list" where
  "predicates_main =
     (let v = [2, 4, 6, 8, 10] :: int list;
          mixed = [2, 4, 5, 8, 10] :: int list;
          is_neg = (\<lambda>x :: int. x < 0);
          nums = [1, 2, 2, 3, 2, 4, 5] :: int list;
          a = [1, 2, 3] :: int list;
          b = [1, 2, 3];
          c = [1, 2, 4]
      in [Some (''all even:  '' @ show_bool (all_of is_even v)),
          Some (''any neg:   '' @ show_bool (any_of is_neg v)),
          Some (''none neg:  '' @ show_bool (none_of is_neg v)),
          Some (''mixed all even: '' @ show_bool (all_of is_even mixed)),
          Some (''mixed any odd:  '' @ show_bool (any_of (\<lambda>x. \<not> is_even x) mixed)),
          Some (''empty all_of:  '' @ show_bool (all_of is_even [])),
          Some (''empty any_of:  '' @ show_bool (any_of is_even [])),
          Some (''empty none_of: '' @ show_bool (none_of is_even [])),
          Some (''count 2:     '' @ dec_nat (count_if (\<lambda>x. x = 2) nums)),
          Some (''count >2:    '' @ dec_nat (count_if (\<lambda>x. x > 2) nums)),
          map_option (\<lambda>e. ''a==b: '' @ show_bool e) (range_equal a b),
          map_option (\<lambda>e. ''a==c: '' @ show_bool e) (range_equal a c)]
         @ (case mismatch a c of
              None \<Rightarrow> [None]
            | Some i \<Rightarrow> (if i \<noteq> length a
                then [Some (''first mismatch: a='' @ dec_int (a ! i) @ '' c='' @ dec_int (c ! i))] else [])))"

section \<open>Minimum, maximum and heaps\<close>

text \<open>The first of the largest elements, the first of the smallest.\<close>

fun max_element :: "('a \<Rightarrow> 'a \<Rightarrow> bool) \<Rightarrow> 'a list \<Rightarrow> 'a option" where
  "max_element lt [] = None"
| "max_element lt (x # xs) = Some (foldl (\<lambda>m y. if lt m y then y else m) x xs)"

fun min_element :: "('a \<Rightarrow> 'a \<Rightarrow> bool) \<Rightarrow> 'a list \<Rightarrow> 'a option" where
  "min_element lt [] = None"
| "min_element lt (x # xs) = Some (foldl (\<lambda>m y. if lt y m then y else m) x xs)"

definition clamp :: "int \<Rightarrow> int \<Rightarrow> int \<Rightarrow> int" where
  "clamp v lo hi = (if v < lo then lo else if hi < v then hi else v)"

definition is_heap :: "int list \<Rightarrow> bool" where
  "is_heap h = list_all (\<lambda>i. h ! i \<le> h ! ((i - 1) div 2)) [1..<length h]"

text \<open>
  What the standard promises of the heap operations: \<open>make_heap\<close> and \<open>push_heap\<close> give a heap of the same
  elements, \<open>push_heap\<close> when all but the last element are one; \<open>pop_heap\<close> moves the top of a
  heap to the back and leaves a heap before it; \<open>sort_heap\<close> sorts a heap.
\<close>

record heap_ops =
  make_heap :: "int list \<Rightarrow> int list"
  push_heap :: "int list \<Rightarrow> int list"
  pop_heap :: "int list \<Rightarrow> int list"

definition heap_spec :: "heap_ops \<Rightarrow> bool" where
  "heap_spec r \<longleftrightarrow>
     (\<forall>h. is_heap (make_heap r h) \<and> mset (make_heap r h) = mset h)
   \<and> (\<forall>h x. is_heap h \<longrightarrow> is_heap (push_heap r (h @ [x])) \<and> mset (push_heap r (h @ [x])) = add_mset x (mset h))
   \<and> (\<forall>h. is_heap h \<and> h \<noteq> [] \<longrightarrow> (\<exists>h'. pop_heap r h = h' @ [hd h] \<and> is_heap h' \<and> add_mset (hd h) (mset h') = mset h))"

definition heap_main :: "heap_ops \<Rightarrow> string option list" where
  "heap_main r =
     (let v = [3, 1, 4, 1, 5, 9, 2, 6] :: int list;
          v2 = [-5, 3, -1, 4, -9] :: int list;
          h = make_heap r [3, 1, 4, 1, 5, 9, 2];
          h1 = push_heap r (h @ [7]);
          h2 = pop_heap r h1;
          h3 = butlast h2;
          h4 = sort (make_heap r h3)
      in [map_option (\<lambda>(mn, mx). ''min='' @ dec_int mn @ '' max='' @ dec_int mx)
            (case (min_element (<) v, max_element (<) v) of (Some mn, Some mx) \<Rightarrow> Some (mn, mx) | _ \<Rightarrow> None),
          map_option (\<lambda>(lo, hi). ''minmax: '' @ dec_int lo @ '' '' @ dec_int hi)
            (case (min_element (<) v, max_element (<) v) of (Some lo, Some hi) \<Rightarrow> Some (lo, hi) | _ \<Rightarrow> None),
          map_option (\<lambda>x. ''largest abs: '' @ dec_int x) (max_element (\<lambda>a b. \<bar>a\<bar> < \<bar>b\<bar>) v2),
          Some (dec_int (clamp 3 0 10)), Some (dec_int (clamp (-2) 0 10)), Some (dec_int (clamp 15 0 10)),
          map_option (\<lambda>x. ''heap top: '' @ dec_int x) (deref h 0),
          Some (print_ints h ''after make_heap''),
          map_option (\<lambda>x. ''after push 7, top: '' @ dec_int x) (deref h1 0),
          map_option (\<lambda>x. ''popped: '' @ dec_int x) (deref h2 (length h2 - 1)),
          map_option (\<lambda>x. ''new top: '' @ dec_int x) (deref h3 0),
          Some (print_ints h4 ''sort_heap'')])"

section \<open>Set operations\<close>

text \<open>One pass over two sorted ranges.\<close>

fun set_union :: "int list \<Rightarrow> int list \<Rightarrow> int list" where
  "set_union (x # xs) (y # ys) =
     (if x < y then x # set_union xs (y # ys)
      else if y < x then y # set_union (x # xs) ys
      else x # set_union xs ys)"
| "set_union xs ys = xs @ ys"

fun set_intersection :: "int list \<Rightarrow> int list \<Rightarrow> int list" where
  "set_intersection (x # xs) (y # ys) =
     (if x < y then set_intersection xs (y # ys)
      else if y < x then set_intersection (x # xs) ys
      else x # set_intersection xs ys)"
| "set_intersection xs ys = []"

fun set_difference :: "int list \<Rightarrow> int list \<Rightarrow> int list" where
  "set_difference (x # xs) (y # ys) =
     (if x < y then x # set_difference xs (y # ys)
      else if y < x then set_difference (x # xs) ys
      else set_difference xs ys)"
| "set_difference xs ys = xs"

fun set_symmetric_difference :: "int list \<Rightarrow> int list \<Rightarrow> int list" where
  "set_symmetric_difference (x # xs) (y # ys) =
     (if x < y then x # set_symmetric_difference xs (y # ys)
      else if y < x then y # set_symmetric_difference (x # xs) ys
      else set_symmetric_difference xs ys)"
| "set_symmetric_difference xs ys = xs @ ys"

section \<open>Permutations and reordering\<close>

text \<open>
  \<open>next_permutation\<close>: when the tail has no next permutation it is in descending order, and the head
  is exchanged with the last element of the tail greater than it and the tail reversed.
\<close>

fun swap_last_greater :: "int \<Rightarrow> int list \<Rightarrow> (int \<times> int list) option" where
  "swap_last_greater x [] = None"
| "swap_last_greater x (y # ys) =
     (case swap_last_greater x ys of
        Some (z, zs) \<Rightarrow> Some (z, y # zs)
      | None \<Rightarrow> if x < y then Some (y, x # ys) else None)"

fun next_perm :: "int list \<Rightarrow> int list option" where
  "next_perm [] = None"
| "next_perm (x # xs) =
     (case next_perm xs of
        Some ys \<Rightarrow> Some (x # ys)
      | None \<Rightarrow> map_option (\<lambda>(y, ys). y # rev ys) (swap_last_greater x xs))"

definition next_permutation :: "int list \<Rightarrow> bool \<times> int list" where
  "next_permutation v = (case next_perm v of Some w \<Rightarrow> (True, w) | None \<Rightarrow> (False, rev v))"

definition rotate_range :: "nat \<Rightarrow> 'a list \<Rightarrow> 'a list" where
  "rotate_range n v = drop n v @ take n v"

text \<open>The \<open>do\<close>-\<open>while\<close> loop over the permutations; not returning is \<open>None\<close>.\<close>

partial_function (option) permutations_from :: "int list \<Rightarrow> int list list option" where
  "permutations_from v =
     (let (more, w) = next_permutation v
      in if more then Option.bind (permutations_from w) (\<lambda>ps. Some (v # ps)) else Some [v])"

declare permutations_from.simps [code]

definition show_permutations :: "int list list \<Rightarrow> string" where
  "show_permutations ps = concat (map (\<lambda>p. concat (map dec_int p) @ '' '') ps)"

definition set_main :: "string option list" where
  "set_main =
     (let a = [1, 2, 3, 4, 5];
          b = [3, 4, 5, 6, 7];
          words = [''hello'', ''world'', ''foo''];
          dest = words
      in [Some (print_ints (set_union a b) ''union''),
          Some (print_ints (set_intersection a b) ''intersection''),
          Some (print_ints (set_difference a b) ''a - b''),
          Some (print_ints (set_symmetric_difference a b) ''symmetric diff''),
          Some ''all permutations of {1,2,3}:'',
          map_option show_permutations (permutations_from [1, 2, 3]),
          Some (print_ints (rev [1, 2, 3, 4, 5]) ''reversed''),
          Some (print_ints (rotate_range 2 [1, 2, 3, 4, 5]) ''rotate by 2''),
          Some (print_ints (filter is_even [1, 2, 3, 4, 5, 6]) ''copy_if evens''),
          map_option (\<lambda>w. ''moved dest[0]='' @ w) (deref dest 0)])"

section \<open>Ranges and views\<close>

definition iota_view :: "int \<Rightarrow> int \<Rightarrow> int list" where
  "iota_view a b = map (\<lambda>i. a + int i) [0..<nat (b - a)]"

definition proj_less :: "('a \<Rightarrow> int) \<Rightarrow> 'a \<Rightarrow> 'a \<Rightarrow> bool" where
  "proj_less proj a b \<longleftrightarrow> proj a < proj b"

definition ranges_main :: "string option list" where
  "ranges_main =
     (let v = stable_sort (<) [5, 3, 8, 1, 9, 2, 7];
          people = stable_sort (proj_less person_age)
            [\<lparr>person_name = ''carol'', person_age = 30\<rparr>, \<lparr>person_name = ''alice'', person_age = 25\<rparr>,
             \<lparr>person_name = ''bob'', person_age = 35\<rparr>];
          nums = [1, 2, 3, 4, 5, 6, 7, 8, 9, 10];
          view = take 3 (map (\<lambda>x. x * x) (filter is_even nums));
          squares = map (\<lambda>x. x * x) (iota_view 1 6)
      in [Some (print_ints v ''ranges::sort''),
          map_option (\<lambda>x. ''find 7: '' @ dec_int x) (deref v (std_find 7 v)),
          Some (show_people people),
          Some (print_ints view ''filter|transform|take(3)''),
          Some (print_ints (iota_view 1 6) ''iota(1,6)''),
          Some (print_ints squares ''squares''),
          Some (print_ints (rev v) ''reverse''),
          Some (print_ints (take 3 (drop 2 v)) ''drop(2)|take(3)''),
          Some (print_ints squares ''materialised squares''),
          map_option (\<lambda>p. ''oldest: '' @ person_name p) (max_element (proj_less person_age) people),
          Some (''any under 30: '' @ show_bool (any_of (\<lambda>a. a < 30) (map person_age people)))])"

section \<open>What the programs print\<close>

lemma erase_remove [simp]: "erase_tail (remove_if junk P v) = filter (\<lambda>x. \<not> P x) v"
  by (simp add: erase_tail_def remove_if_def Let_def)

lemma erase_unique [simp]: "erase_tail (unique junk v) = drop_repeats v"
  by (simp add: erase_tail_def unique_def Let_def)

lemma algorithm_programs:
  "search_main = map Some [''found 9 at index 5'', ''first even: 4'', ''first non-1: 3'',
     ''first element that is 9 or 5: 5 at index 4'', ''sub-sequence {1,5} at index 3'', ''first consecutive pair: 3'',
     ''first pair where b==2a: 1'', ''found \"brown\" at pos 10'']"
  "binary_search_main = map Some [''binary_search(4): true'', ''binary_search(5): false'', ''lower_bound(4) index: 2'',
     ''lower_bound(5) points to: 6'', ''upper_bound(4) index: 5'', ''equal_range(4) count: 3'', ''equal_range(4): [4, 4, 4]'',
     ''equal_range(5) empty: true'', ''1 3 4 5 7 '', ''lower_bound(5, desc) points to: 4'']"
  "transform_main = [''doubled: 2 4 6 8 10 '', ''squared in-place: 1 4 9 16 25 '', ''a+b: 11 22 33 '', ''total=6'',
     ''replace evens with 0: 1 0 3 0 5 0 '', ''fill 7: 7 7 7 7 7 '', ''generate +10: 10 20 30 40 50 60 '']"
  "numeric_main = [''sum=15'', ''product=120'', ''hello world'', ''reduce sum=15'', ''partial_sum: 1 3 6 10 15 '',
     ''inclusive_scan: 1 3 6 10 15 '', ''exclusive_scan: 0 1 3 6 10 '', ''dot product=32'', ''sum of max pairs=15'',
     ''iota(1): 1 2 3 4 5 6 '']"
  "predicates_main = map Some [''all even:  true'', ''any neg:   false'', ''none neg:  true'', ''mixed all even: false'',
     ''mixed any odd:  true'', ''empty all_of:  true'', ''empty any_of:  false'', ''empty none_of: true'',
     ''count 2:     3'', ''count >2:    3'', ''a==b: true'', ''a==c: false'', ''first mismatch: a=3 c=4'']"
  "set_main = map Some [''union: 1 2 3 4 5 6 7 '', ''intersection: 3 4 5 '', ''a - b: 1 2 '', ''symmetric diff: 1 2 6 7 '',
     ''all permutations of {1,2,3}:'', ''123 132 213 231 312 321 '', ''reversed: 5 4 3 2 1 '', ''rotate by 2: 3 4 5 1 2 '',
     ''copy_if evens: 2 4 6 '', ''moved dest[0]=hello'']"
  "ranges_main = map Some [''ranges::sort: 1 2 3 5 7 8 9 '', ''find 7: 7'', ''alice(25) carol(30) bob(35) '',
     ''filter|transform|take(3): 4 16 36 '', ''iota(1,6): 1 2 3 4 5 '', ''squares: 1 4 9 16 25 '', ''reverse: 9 8 7 5 3 2 1 '',
     ''drop(2)|take(3): 3 5 7 '', ''materialised squares: 1 4 9 16 25 '', ''oldest: bob'', ''any under 30: true'']"
  by code_simp+

definition remove_lines :: console where
  "remove_lines =
     [print_ints (filter (\<lambda>x. \<not> x = 2) [1, 2, 3, 2, 4, 2, 5]) ''remove 2'',
      print_ints (filter (\<lambda>x. \<not> is_even x) [1, 2, 3, 4, 5, 6, 7, 8]) ''remove evens'',
      print_ints (filter (\<lambda>x. \<not> x > 3) [1, 2, 3, 4, 5, 6]) ''erase_if >3'',
      print_ints (filter (\<lambda>x. \<not> x = 2) [1, 2, 3, 2, 1]) ''erase 2'',
      print_ints (drop_repeats [1, 1, 2, 3, 3, 3, 4, 4, 5]) ''unique (already sorted)'',
      print_ints (drop_repeats [3, 1, 1, 2, 3, 2]) ''unique (unsorted)'',
      print_ints (drop_repeats (stable_sort (<) [3, 1, 1, 2, 3, 2])) ''sort+unique'']"

lemma remove_program:
  "remove_main junk = [''remove 2: 1 3 4 5 '', ''remove evens: 1 3 5 7 '', ''erase_if >3: 1 2 3 '', ''erase 2: 1 3 1 '',
     ''unique (already sorted): 1 2 3 4 5 '', ''unique (unsorted): 3 1 2 3 2 '', ''sort+unique: 1 2 3 '']"
proof -
  have "remove_main junk = remove_lines"
    unfolding remove_main_def remove_lines_def erase_if_def erase_remove erase_unique ..
  also have "\<dots> = [''remove 2: 1 3 4 5 '', ''remove evens: 1 3 5 7 '', ''erase_if >3: 1 2 3 '', ''erase 2: 1 3 1 '',
     ''unique (already sorted): 1 2 3 4 5 '', ''unique (unsorted): 3 1 2 3 2 '', ''sort+unique: 1 2 3 '']"
    by code_simp
  finally show ?thesis .
qed

section \<open>Sorting with a strict weak order\<close>

locale strict_weak_order =
  fixes lt :: "'a \<Rightarrow> 'a \<Rightarrow> bool"
  assumes irrefl: "\<not> lt x x"
    and trans: "lt x y \<Longrightarrow> lt y z \<Longrightarrow> lt x z"
    and incomparable: "\<not> lt x y \<Longrightarrow> \<not> lt y z \<Longrightarrow> \<not> lt x z"
begin

lemma asym: "lt x y \<Longrightarrow> \<not> lt y x"
  using irrefl trans by blast

lemma insert_mset: "mset (insert_by lt x ys) = add_mset x (mset ys)"
  by (induction ys) auto

lemma insert_sorted:
  "sorted_wrt (\<lambda>a b. \<not> lt b a) ys \<Longrightarrow> sorted_wrt (\<lambda>a b. \<not> lt b a) (insert_by lt x ys)"
proof (induction ys)
  case (Cons y ys)
  have "set (insert_by lt x ys) = insert x (set ys)"
    using arg_cong [OF insert_mset, of set_mset] by simp
  moreover have "\<not> lt z x" if "z \<in> set ys" "\<not> lt y x" for z
    using that Cons.prems incomparable [of z y x] by simp
  ultimately show ?case using Cons asym [of y x] by auto
qed simp

lemma insert_stable:
  "sorted_wrt (\<lambda>a b. \<not> lt b a) ys \<Longrightarrow>
     filter (equivalent lt z) (insert_by lt x ys) = (if equivalent lt z x then [x] else []) @ filter (equivalent lt z) ys"
proof (induction ys)
  case (Cons y ys)
  have "\<not> (equivalent lt z x \<and> equivalent lt z y)" if "lt y x"
    using that incomparable by (auto simp: equivalent_def)
  with Cons show ?case by auto
qed simp

lemma sort_mset: "mset (stable_sort lt v) = mset v"
  unfolding stable_sort_def by (induction v) (auto simp: insert_mset)

lemma sort_sorted: "sorted_wrt (\<lambda>a b. \<not> lt b a) (stable_sort lt v)"
  unfolding stable_sort_def by (induction v) (auto simp: insert_sorted)

lemma sort_stable: "filter (equivalent lt z) (stable_sort lt v) = filter (equivalent lt z) v"
  using sort_sorted unfolding stable_sort_def
  by (induction v) (auto simp: insert_stable)

end

interpretation int_less: strict_weak_order "(<) :: int \<Rightarrow> int \<Rightarrow> bool"
  by unfold_locales auto

interpretation int_greater: strict_weak_order "\<lambda>a b :: int. b < a"
  by unfold_locales auto

interpretation age_order: strict_weak_order by_age
  by unfold_locales (auto simp: by_age_def)

interpretation projected: strict_weak_order "proj_less f"
  by unfold_locales (auto simp: proj_less_def)

lemma string_less_irrefl: "\<not> string_less x x"
  by (induction x) auto

lemma string_less_trans: "string_less x y \<Longrightarrow> string_less y z \<Longrightarrow> string_less x z"
proof (induction x y arbitrary: z rule: string_less.induct)
  case (3 x xs y ys)
  then show ?case by (cases z) (auto split: if_splits)
qed (auto elim: string_less.elims)

lemma string_less_total: "\<not> string_less x y \<Longrightarrow> \<not> string_less y x \<Longrightarrow> x = y"
  by (induction x y rule: string_less.induct) (auto split: if_splits)

interpretation age_name_order: strict_weak_order by_age_name
proof
  show "\<not> by_age_name x x" for x by (simp add: by_age_name_def string_less_irrefl)
  show "by_age_name x z" if "by_age_name x y" "by_age_name y z" for x y z
    using that string_less_trans by (auto simp: by_age_name_def split: if_splits)
  show "\<not> by_age_name x z" if "\<not> by_age_name x y" "\<not> by_age_name y z" for x y z
    using that string_less_trans string_less_total
    by (auto simp: by_age_name_def split: if_splits)  metis+
qed

text \<open>On integers the result is the sorted permutation of the library.\<close>

lemma int_sort: "stable_sort (<) v = sort v" for v :: "int list"
proof -
  have "sorted (stable_sort (<) v)"
    using int_less.sort_sorted [of v] by (simp add: not_less)
  then show ?thesis
    using int_less.sort_mset [of v] properties_for_sort by metis
qed

section \<open>Sorted ranges\<close>

lemma deref_drop: "deref v i = (case drop i v of [] \<Rightarrow> None | y # ys \<Rightarrow> Some y)"
  by (cases "i < length v") (simp_all add: deref_def Cons_nth_drop_Suc [symmetric])

lemma sorted_take_less: "sorted v \<Longrightarrow> takeWhile (\<lambda>y. y < x) v = filter (\<lambda>y. y < x) v" for x :: int
  by (induction v) (auto simp: empty_filter_conv)

lemma sorted_drop_less: "sorted v \<Longrightarrow> dropWhile (\<lambda>y. y < x) v = filter (\<lambda>y. x \<le> y) v" for x :: int
proof (induction v)
  case (Cons y v)
  have "filter (\<lambda>y. x \<le> y) v = v" if "\<not> y < x"
    using that Cons.prems by (intro filter_True) auto
  with Cons show ?case by auto
qed simp

lemma sorted_take_upto: "sorted v \<Longrightarrow> takeWhile (\<lambda>y. \<not> x < y) v = filter (\<lambda>y. y \<le> x) v" for x :: int
  by (induction v) (auto simp: empty_filter_conv)

lemma sorted_split: "sorted v \<Longrightarrow> filter (\<lambda>y. y < x) v @ filter (\<lambda>y. x \<le> y) v = v" for x :: int
  using takeWhile_dropWhile_id [of "\<lambda>y. y < x" v] by (simp add: sorted_take_less sorted_drop_less)

lemma lower_bound_take: "sorted v \<Longrightarrow> take (lower_bound (<) v x) v = filter (\<lambda>y. y < x) v" for x :: int
  unfolding lower_bound_def by (metis sorted_take_less takeWhile_eq_take)

lemma lower_bound_drop: "sorted v \<Longrightarrow> drop (lower_bound (<) v x) v = filter (\<lambda>y. x \<le> y) v" for x :: int
  unfolding lower_bound_def by (metis sorted_drop_less dropWhile_eq_drop)

lemma binary_search_member: "sorted v \<Longrightarrow> binary_search (<) v x \<longleftrightarrow> x \<in> set v" for x :: int
proof -
  assume s: "sorted v"
  let ?r = "filter (\<lambda>y. x \<le> y) v"
  have d: "deref v (lower_bound (<) v x) = (case ?r of [] \<Rightarrow> None | y # ys \<Rightarrow> Some y)"
    by (simp add: deref_drop lower_bound_drop [OF s])
  show ?thesis
  proof (cases ?r)
    case Nil
    then show ?thesis using d by (auto simp: binary_search_def filter_empty_conv)
  next
    case (Cons y ys)
    have "sorted ?r" using s by (rule sorted_filter [where f = id, simplified])
    moreover have "x \<in> set v \<longleftrightarrow> x \<in> set ?r" by simp
    moreover have "x \<le> y" "y \<in> set v" using Cons filter_eq_ConsD [OF Cons] by auto
    ultimately show ?thesis using d Cons by (fastforce simp: binary_search_def)
  qed
qed

lemma equal_range_slice:
  assumes s: "sorted v"
  shows "slice_range (lower_bound (<) v x) (upper_bound (<) v x) v = replicate (count_list v x) (x::int)"
proof -
  have "upper_bound (<) v x - lower_bound (<) v x = length (filter (\<lambda>y. y = x) v)"
  proof -
    have "length (filter (\<lambda>y. y \<le> x) v) = length (filter (\<lambda>y. y < x) v) + length (filter (\<lambda>y. y = x) v)"
      by (induction v) auto
    then show ?thesis
      using s by (simp add: upper_bound_def lower_bound_def sorted_take_upto sorted_take_less)
  qed
  moreover have "take (length (filter (\<lambda>y. y = x) v)) (filter (\<lambda>y. x \<le> y) v) = filter (\<lambda>y. y = x) v"
  proof (use s in \<open>induction v\<close>)
    case (Cons a v)
    have "filter (\<lambda>y. y = x) v = []" if "x < a"
      using that Cons.prems by (auto simp: filter_empty_conv)
    with Cons show ?case by (cases a x rule: linorder_cases) auto
  qed simp
  moreover have "filter (\<lambda>y. y = x) v = replicate (count_list v x) x"
    by (induction v) auto
  ultimately show ?thesis by (simp add: slice_range_def lower_bound_drop [OF s])
qed

lemma sorted_insertion:
  fixes x :: int
  assumes s: "sorted v"
  shows "sorted (vec_insert (lower_bound (<) v x) x v)" "mset (vec_insert (lower_bound (<) v x) x v) = add_mset x (mset v)"
proof -
  have e: "vec_insert (lower_bound (<) v x) x v = filter (\<lambda>y. y < x) v @ x # filter (\<lambda>y. x \<le> y) v"
    using s by (simp add: vec_insert_def lower_bound_take lower_bound_drop)
  show "mset (vec_insert (lower_bound (<) v x) x v) = add_mset x (mset v)"
    using arg_cong [OF sorted_split [OF s, of x], of mset] by (simp add: e)
  show "sorted (vec_insert (lower_bound (<) v x) x v)"
    unfolding e using s by (auto simp: sorted_append intro: sorted_filter [where f = id, simplified])
qed

lemma sorted_unique:
  fixes v :: "int list"
  shows "sorted v \<Longrightarrow> sorted (drop_repeats v) \<and> distinct (drop_repeats v) \<and> set (drop_repeats v) = set v"
proof (induction v rule: drop_repeats.induct)
  case (1 x y ys)
  show ?case
  proof (cases "x = y")
    case True
    with 1 show ?thesis by auto
  next
    case False
    with 1 have "sorted (drop_repeats (y # ys))" "distinct (drop_repeats (y # ys))"
        "set (drop_repeats (y # ys)) = set (y # ys)" "x < y" "\<forall>z \<in> set ys. y \<le> z"
      by auto
    with False show ?thesis by auto
  qed
qed auto

text \<open>
  Each set operation keeps, of every value, the number of copies the standard asks for: the
  larger, the smaller, the excess of the first range, or the excess of either.
\<close>

lemma count_all_greater: "sorted (y # ys) \<Longrightarrow> x < y \<Longrightarrow> count (mset (y # ys)) x = 0" for x :: int
  by (auto simp: count_eq_zero_iff)

lemma count_notin: "z \<notin> set ys \<Longrightarrow> count (mset ys) z = 0"
  by (simp add: count_eq_zero_iff)

lemma set_union_mset: "sorted v \<Longrightarrow> sorted w \<Longrightarrow> mset (set_union v w) = mset v \<union># mset w"
proof (induction v w rule: set_union.induct)
  case (1 x xs y ys)
  show ?case
  proof (rule multiset_eqI)
    fix z
    show "count (mset (set_union (x # xs) (y # ys))) z = count (mset (x # xs) \<union># mset (y # ys)) z"
      using 1 count_all_greater [of y ys z] count_all_greater [of x xs z]
      by (cases x y rule: linorder_cases) (auto simp: count_notin)
  qed
qed auto

lemma set_intersection_mset: "sorted v \<Longrightarrow> sorted w \<Longrightarrow> mset (set_intersection v w) = mset v \<inter># mset w"
proof (induction v w rule: set_intersection.induct)
  case (1 x xs y ys)
  show ?case
  proof (rule multiset_eqI)
    fix z
    show "count (mset (set_intersection (x # xs) (y # ys))) z = count (mset (x # xs) \<inter># mset (y # ys)) z"
      using 1 count_all_greater [of y ys z] count_all_greater [of x xs z]
      by (cases x y rule: linorder_cases) (auto simp: count_notin)
  qed
qed auto

lemma set_difference_mset: "sorted v \<Longrightarrow> sorted w \<Longrightarrow> mset (set_difference v w) = mset v - mset w"
proof (induction v w rule: set_difference.induct)
  case (1 x xs y ys)
  show ?case
  proof (rule multiset_eqI)
    fix z
    show "count (mset (set_difference (x # xs) (y # ys))) z = count (mset (x # xs) - mset (y # ys)) z"
      using 1 count_all_greater [of y ys z] count_all_greater [of x xs z]
      by (cases x y rule: linorder_cases) (auto simp: count_notin)
  qed
qed auto

lemma set_symmetric_difference_mset:
  "sorted v \<Longrightarrow> sorted w \<Longrightarrow> mset (set_symmetric_difference v w) = (mset v - mset w) + (mset w - mset v)"
proof (induction v w rule: set_symmetric_difference.induct)
  case (1 x xs y ys)
  show ?case
  proof (rule multiset_eqI)
    fix z
    show "count (mset (set_symmetric_difference (x # xs) (y # ys))) z
        = count ((mset (x # xs) - mset (y # ys)) + (mset (y # ys) - mset (x # xs))) z"
      using 1 count_all_greater [of y ys z] count_all_greater [of x xs z]
      by (cases x y rule: linorder_cases) (auto simp: count_notin)
  qed
qed auto

lemma set_of_union: "sorted v \<Longrightarrow> sorted w \<Longrightarrow> set (set_union v w) = set v \<union> set w"
  using arg_cong [OF set_union_mset, of v w set_mset] by simp

lemma set_intersection_subset: "set (set_intersection v w) \<subseteq> set v"
  by (induction v w rule: set_intersection.induct) auto

lemma set_difference_subset: "set (set_difference v w) \<subseteq> set v"
  by (induction v w rule: set_difference.induct) auto

lemma set_symmetric_difference_subset: "set (set_symmetric_difference v w) \<subseteq> set v \<union> set w"
  by (induction v w rule: set_symmetric_difference.induct) auto

lemma set_union_sorted: "sorted v \<Longrightarrow> sorted w \<Longrightarrow> sorted (set_union v w)"
proof (induction v w rule: set_union.induct)
  case (1 x xs y ys)
  then show ?case by (cases x y rule: linorder_cases) (fastforce simp: set_of_union)+
qed auto

lemma set_intersection_sorted: "sorted v \<Longrightarrow> sorted w \<Longrightarrow> sorted (set_intersection v w)"
proof (induction v w rule: set_intersection.induct)
  case (1 x xs y ys)
  then show ?case using set_intersection_subset [of xs ys] by (cases x y rule: linorder_cases) auto
qed auto

lemma set_difference_sorted: "sorted v \<Longrightarrow> sorted w \<Longrightarrow> sorted (set_difference v w)"
proof (induction v w rule: set_difference.induct)
  case (1 x xs y ys)
  then show ?case using set_difference_subset [of xs "y # ys"] by (cases x y rule: linorder_cases) auto
qed auto

lemma set_symmetric_difference_sorted: "sorted v \<Longrightarrow> sorted w \<Longrightarrow> sorted (set_symmetric_difference v w)"
proof (induction v w rule: set_symmetric_difference.induct)
  case (1 x xs y ys)
  then show ?case
    using set_symmetric_difference_subset [of xs "y # ys"] set_symmetric_difference_subset [of "x # xs" ys]
    by (cases x y rule: linorder_cases) fastforce+
qed auto

lemmas set_operations =
  set_union_mset set_intersection_mset set_difference_mset set_symmetric_difference_mset
  set_union_sorted set_intersection_sorted set_difference_sorted set_symmetric_difference_sorted

section \<open>The next permutation\<close>

fun lex_less :: "int list \<Rightarrow> int list \<Rightarrow> bool" where
  "lex_less (x # xs) (y # ys) \<longleftrightarrow> x < y \<or> x = y \<and> lex_less xs ys"
| "lex_less xs ys \<longleftrightarrow> False"

abbreviation descending :: "int list \<Rightarrow> bool" where
  "descending xs \<equiv> sorted_wrt (\<ge>) xs"

lemma swap_none: "swap_last_greater x xs = None \<longleftrightarrow> (\<forall>y \<in> set xs. y \<le> x)"
  by (induction xs) (auto split: option.splits)

lemma swap_mset: "swap_last_greater x xs = Some (z, zs) \<Longrightarrow> x < z \<and> add_mset z (mset zs) = add_mset x (mset xs)"
  by (induction xs arbitrary: zs) (auto split: option.splits if_splits)

lemma swap_least:
  "descending xs \<Longrightarrow> swap_last_greater x xs = Some (z, zs) \<Longrightarrow> descending zs \<and> (\<forall>w \<in> set xs. x < w \<longrightarrow> z \<le> w)"
proof (induction xs arbitrary: zs)
  case (Cons y ys)
  show ?case
  proof (cases "swap_last_greater x ys")
    case None
    with Cons.prems show ?thesis by (auto simp: swap_none split: if_splits)
  next
    case (Some p)
    with Cons.prems obtain us where us: "swap_last_greater x ys = Some (z, us)" "zs = y # us"
      by (cases p) auto
    with Cons have "descending us" "\<forall>w \<in> set ys. x < w \<longrightarrow> z \<le> w" by auto
    moreover have "x < z" and "mset (z # us) = mset (x # ys)"
      using swap_mset [OF us(1)] by simp_all
    moreover from this(2) have s: "set (z # us) = set (x # ys)" by (rule mset_eq_setD)
    moreover have "z \<in> set ys" using s \<open>x < z\<close> by auto
    then have "z \<le> y" using Cons.prems by simp
    moreover have "u \<le> y" if "u \<in> set us" for u
    proof -
      have "u = x \<or> u \<in> set ys" using that s by auto
      then show ?thesis using \<open>x < z\<close> \<open>z \<le> y\<close> Cons.prems by auto
    qed
    ultimately show ?thesis using us(2) by simp
  qed
qed simp

lemma next_perm_none: "next_perm xs = None \<longleftrightarrow> descending xs"
  by (induction xs) (auto simp: swap_none split: option.splits)

lemma descending_greatest: "descending xs \<Longrightarrow> mset ys = mset xs \<Longrightarrow> \<not> lex_less xs ys"
proof (induction xs arbitrary: ys)
  case (Cons x xs)
  show ?case
  proof (cases ys)
    case (Cons y zs)
    have "set ys = set (x # xs)" using Cons.prems(2) by (rule mset_eq_setD)
    then have "y \<in> set (x # xs)" using Cons by auto
    with Cons Cons.prems Cons.IH [of zs] show ?thesis by auto
  qed simp
qed simp

lemma ascending_least: "sorted xs \<Longrightarrow> mset ys = mset xs \<Longrightarrow> xs = ys \<or> lex_less xs ys"
proof (induction xs arbitrary: ys)
  case (Cons x xs)
  then obtain y zs where ys: "ys = y # zs" by (cases ys) auto
  with Cons.prems have "y \<in> set (x # xs)" by (metis list.set_intros(1) set_mset_mset)
  with Cons ys show ?case by (cases "x = y") auto
qed simp

lemma next_perm_some:
  assumes "next_perm xs = Some zs"
  shows "mset zs = mset xs \<and> lex_less xs zs \<and> (\<forall>ys. mset ys = mset xs \<longrightarrow> lex_less xs ys \<longrightarrow> zs = ys \<or> lex_less zs ys)"
  using assms
proof (induction xs arbitrary: zs)
  case (Cons x xs)
  show ?case
  proof (cases "next_perm xs")
    case (Some us)
    with Cons have zs: "zs = x # us" and us: "mset us = mset xs" "lex_less xs us"
        "\<forall>ys. mset ys = mset xs \<longrightarrow> lex_less xs ys \<longrightarrow> us = ys \<or> lex_less us ys"
      by auto
    have "zs = ys \<or> lex_less zs ys" if "mset ys = mset (x # xs)" "lex_less (x # xs) ys" for ys
      using that us zs by (cases ys) auto
    with zs us show ?thesis by auto
  next
    case None
    then have d: "descending xs" by (simp add: next_perm_none)
    from None Cons.prems obtain y us where sw: "swap_last_greater x xs = Some (y, us)" and zs: "zs = y # rev us"
      by auto
    note m = swap_mset [OF sw] and l = swap_least [OF d sw]
    have "zs = ys \<or> lex_less zs ys" if ys: "mset ys = mset (x # xs)" "lex_less (x # xs) ys" for ys
    proof -
      obtain b bs where b: "ys = b # bs" using ys(2) by (cases ys) auto
      with ys descending_greatest [OF d] have "x < b" by auto
      moreover have "b \<in> set (x # xs)" using ys(1) b by (metis list.set_intros(1) set_mset_mset)
      ultimately have "y \<le> b" using l by auto
      moreover have "rev us = bs \<or> lex_less (rev us) bs" if "y = b"
        using that ys(1) b m l by (intro ascending_least) (simp_all add: sorted_wrt_rev, metis add_mset_add_mset_same_iff)
      ultimately show ?thesis using zs b by auto
    qed
    with zs m show ?thesis by auto
  qed
qed simp

lemma lex_less_irrefl: "\<not> lex_less v v"
  by (induction v) auto

lemma lex_less_trans: "lex_less u v \<Longrightarrow> lex_less v w \<Longrightarrow> lex_less u w"
proof (induction u v arbitrary: w rule: lex_less.induct)
  case (1 x xs y ys)
  then show ?case by (cases w) auto
qed auto

definition later :: "int list \<Rightarrow> int list set" where
  "later v = {w. mset w = mset v \<and> lex_less v w}"

lemma later_finite: "finite (later v)"
proof (rule finite_subset)
  show "later v \<subseteq> {w. set w \<subseteq> set v \<and> length w = length v}"
    using mset_eq_setD mset_eq_length by (fastforce simp: later_def)
  show "finite {w. set w \<subseteq> set v \<and> length w = length v}" by (rule finite_lists_length_eq) simp
qed

lemma later_step:
  assumes "next_perm v = Some w"
  shows "later v = insert w (later w)" "w \<notin> later w"
  using next_perm_some [OF assms] lex_less_irrefl lex_less_trans by (auto simp: later_def)

text \<open>
  The loop returns, and visits the permutations from its starting point on, each exactly once
  and in lexicographic order.
\<close>

lemma permutations_loop:
  "\<exists>ps. permutations_from v = Some (v # ps) \<and> sorted_wrt lex_less (v # ps) \<and> set ps = later v"
proof (induction "card (later v)" arbitrary: v rule: less_induct)
  case less
  show ?case
  proof (cases "next_perm v")
    case None
    then have "later v = {}"
      using descending_greatest by (auto simp: later_def next_perm_none)
    with None show ?thesis
      by (subst permutations_from.simps) (simp add: next_permutation_def)
  next
    case (Some w)
    note step = later_step [OF Some]
    have "card (later w) < card (later v)"
      using step later_finite [of w] by simp
    from less [OF this] obtain ps where ps: "permutations_from w = Some (w # ps)"
        "sorted_wrt lex_less (w # ps)" "set ps = later w" by blast
    have "permutations_from v = Some (v # w # ps)"
      using Some ps(1) by (subst permutations_from.simps) (simp add: next_permutation_def)
    moreover have "\<forall>u \<in> set (w # ps). lex_less v u"
      using ps(3) step(1) by (auto simp: later_def)
    ultimately show ?thesis using ps step(1) by auto
  qed
qed

section \<open>Heaps\<close>

lemma is_heap_iff: "is_heap h \<longleftrightarrow> (\<forall>i. 0 < i \<and> i < length h \<longrightarrow> h ! i \<le> h ! ((i - 1) div 2))"
  by (auto simp: is_heap_def list_all_iff)

lemma heap_top_index: "is_heap h \<Longrightarrow> i < length h \<Longrightarrow> h ! i \<le> h ! 0"
proof (induction i rule: less_induct)
  case (less i)
  show ?case
  proof (cases "i = 0")
    case False
    then have p: "(i - 1) div 2 < i" by simp
    have "h ! i \<le> h ! ((i - 1) div 2)" using less.prems False by (simp add: is_heap_iff)
    also have "\<dots> \<le> h ! 0" using less.IH [OF p] less.prems p by simp
    finally show ?thesis .
  qed simp
qed

lemma heap_top: "is_heap h \<Longrightarrow> h \<noteq> [] \<Longrightarrow> deref h 0 = Some (Max (set h))"
proof -
  assume h: "is_heap h" "h \<noteq> []"
  have "x \<le> h ! 0" if "x \<in> set h" for x
    using that heap_top_index [OF h(1)] by (auto simp: in_set_conv_nth)
  then have "Max (set h) = h ! 0" using h(2) by (intro Max_eqI) auto
  with h(2) show ?thesis by (simp add: deref_def)
qed

lemma small_numbers:
  "dec_int 0 = ''0''" "dec_int 1 = ''1''" "dec_int 2 = ''2''" "dec_int 3 = ''3''" "dec_int 4 = ''4''" "dec_int 5 = ''5''"
  "dec_int 7 = ''7''" "dec_int 9 = ''9''" "dec_int 10 = ''10''" "dec_int (- 9) = ''-9''"
  by code_simp+

text \<open>Every implementation of the heap operations prints these lines.\<close>

lemma heap_program:
  assumes r: "heap_spec r"
  shows "heap_main r = map Some [''min=1 max=9'', ''minmax: 1 9'', ''largest abs: -9'', ''3'', ''0'', ''10'', ''heap top: 9'',
     print_ints (make_heap r [3, 1, 4, 1, 5, 9, 2]) ''after make_heap'', ''after push 7, top: 9'', ''popped: 9'',
     ''new top: 7'', ''sort_heap: 1 1 2 3 4 5 7 '']"
proof -
  define h where "h = make_heap r [3, 1, 4, 1, 5, 9, 2]"
  define h1 where "h1 = push_heap r (h @ [7])"
  have h: "is_heap h" "mset h = mset [3, 1, 4, 1, 5, 9, 2]"
    using r by (auto simp: heap_spec_def h_def)
  have h1: "is_heap h1" "mset h1 = mset [7, 3, 1, 4, 1, 5, 9, 2]"
    using r h by (auto simp: heap_spec_def h1_def)
  have ne: "h \<noteq> []" "h1 \<noteq> []" using h(2) h1(2) by auto
  have top: "deref h 0 = Some 9" "deref h1 0 = Some 9"
    using heap_top [OF h(1) ne(1)] heap_top [OF h1(1) ne(2)] mset_eq_setD [OF h(2)] mset_eq_setD [OF h1(2)] by auto
  then have hd: "hd h1 = 9" using ne(2) by (simp add: deref_def hd_conv_nth)
  obtain h3 where h3: "pop_heap r h1 = h3 @ [9]" "is_heap h3" "add_mset 9 (mset h3) = mset h1"
    using r h1(1) ne(2) hd unfolding heap_spec_def by metis
  have m3: "mset h3 = mset [7, 3, 1, 4, 1, 5, 2]" using h3(3) h1(2) by (simp add: add_mset_commute)
  then have "h3 \<noteq> []" by auto
  then have top3: "deref h3 0 = Some 7" using heap_top [OF h3(2)] mset_eq_setD [OF m3] by auto
  have "mset (make_heap r h3) = mset [7, 3, 1, 4, 1, 5, 2]" using r m3 by (auto simp: heap_spec_def)
  then have s: "sort (make_heap r h3) = [1, 1, 2, 3, 4, 5, 7]"
    using sorted_list_of_multiset_mset [of "make_heap r h3"] sorted_list_of_multiset_mset [of "[7, 3, 1, 4, 1, 5, 2] :: int list"]
    by simp
  have "deref (h3 @ [9]) (length (h3 @ [9]) - 1) = Some 9" by (simp add: deref_def)
  with s top top3 h3(1) show ?thesis
    unfolding heap_main_def Let_def h_def [symmetric] h1_def [symmetric]
    by (simp add: small_numbers clamp_def print_ints_def)
qed

text \<open>The same for \<open>sort\<close>, \<open>partial_sort\<close>, \<open>nth_element\<close> and \<open>partition\<close>.\<close>

lemma sorted_lines:
  "print_ints (stable_sort (<) [5, 3, 8, 1, 9, 2, 7, 4, 6]) ''sort asc'' = ''sort asc: 1 2 3 4 5 6 7 8 9 ''"
  "print_ints (stable_sort (\<lambda>a b. b < a) (stable_sort (<) [5, 3, 8, 1, 9, 2, 7, 4, 6])) ''sort desc''
     = ''sort desc: 9 8 7 6 5 4 3 2 1 ''"
  "show_people (stable_sort by_age_name [\<lparr>person_name = ''alice'', person_age = 30\<rparr>, \<lparr>person_name = ''bob'', person_age = 25\<rparr>,
      \<lparr>person_name = ''carol'', person_age = 30\<rparr>, \<lparr>person_name = ''dave'', person_age = 25\<rparr>])
     = ''bob(25) dave(25) alice(30) carol(30) ''"
  "show_people (stable_sort by_age [\<lparr>person_name = ''alice'', person_age = 30\<rparr>, \<lparr>person_name = ''bob'', person_age = 25\<rparr>,
      \<lparr>person_name = ''carol'', person_age = 30\<rparr>, \<lparr>person_name = ''dave'', person_age = 25\<rparr>])
     = ''bob(25) dave(25) alice(30) carol(30) ''"
  by code_simp+

lemma sorting_program:
  assumes ps: "partial_sort_spec psort" and nel: "nth_element_spec nth_el"
  shows "\<exists>rest. sorting_main psort nth_el = map Some [''sort asc: 1 2 3 4 5 6 7 8 9 '', ''sort desc: 9 8 7 6 5 4 3 2 1 '',
     ''bob(25) dave(25) alice(30) carol(30) '', ''bob(25) dave(25) alice(30) carol(30) '',
     ''partial_sort(3): 1 2 3 '' @ rest, ''median candidate: 5'']"
proof -
  define v2 where "v2 = psort 3 [5, 3, 8, 1, 9, 2, 7]"
  define v3 where "v3 = nth_el 4 [5, 3, 8, 1, 9, 2, 7, 4, 6]"
  have "take 3 v2 = [1, 2, 3]" using ps by (simp add: partial_sort_spec_def v2_def)
  then have "print_ints v2 ''partial_sort(3)'' = print_ints ([1, 2, 3] @ drop 3 v2) ''partial_sort(3)''"
    by (metis append_take_drop_id)
  then have l2: "print_ints v2 ''partial_sort(3)'' = ''partial_sort(3): 1 2 3 '' @ print_ints (drop 3 v2) []"
    by (simp add: print_ints_def small_numbers)
  have "mset v3 = mset [5, 3, 8, 1, 9, 2, 7, 4, 6]" "v3 ! 4 = 5"
    using nel by (auto simp: nth_element_spec_def v3_def)
  then have l3: "deref v3 4 = Some 5" using mset_eq_length by (fastforce simp: deref_def)
  have mid: "length [5, 3, 8, 1, 9, 2, 7, 4, 6 :: int] div 2 = 4" by simp
  show ?thesis
    unfolding sorting_main_def Let_def mid v2_def [symmetric] v3_def [symmetric] l2 l3 sorted_lines
    by (rule exI [of _ "print_ints (drop 3 v2) []"]) (simp add: small_numbers)
qed

lemma partition_main_tail:
  "partition_main part =
     [print_ints (part is_even [1, 2, 3, 4, 5, 6, 7, 8]) ''partitioned'',
      ''first odd at index: '' @ dec_nat (find_if_not is_even (part is_even [1, 2, 3, 4, 5, 6, 7, 8])),
      ''stable_partition: 2 4 6 8 1 3 5 7 '', ''evens: 2 4 6 '', ''odds: 1 3 5 '', ''v2 is_partitioned(even): true'',
      ''v3 is_partitioned(even): false'', ''passing: alice(82) carol(91) '', ''failing: bob(45) dave(58) eve(37) '']"
proof -
  have "drop 2 (partition_main part) = drop 2 (partition_main (\<lambda>_ v. v))"
    by (simp add: partition_main_def Let_def split_beta)
  also have "\<dots> = [''stable_partition: 2 4 6 8 1 3 5 7 '', ''evens: 2 4 6 '', ''odds: 1 3 5 '', ''v2 is_partitioned(even): true'',
      ''v3 is_partitioned(even): false'', ''passing: alice(82) carol(91) '', ''failing: bob(45) dave(58) eve(37) '']"
    by code_simp
  finally have "drop 2 (partition_main part) = \<dots>" .
  moreover have "take 2 (partition_main part) = [print_ints (part is_even [1, 2, 3, 4, 5, 6, 7, 8]) ''partitioned'',
      ''first odd at index: '' @ dec_nat (find_if_not is_even (part is_even [1, 2, 3, 4, 5, 6, 7, 8]))]"
    by (simp add: partition_main_def Let_def split_beta)
  ultimately show ?thesis using append_take_drop_id [of 2 "partition_main part"] by simp
qed

lemma partition_program:
  assumes pt: "partition_spec part"
  shows "\<exists>group1 group2. mset group1 = {#2, 4, 6, 8#} \<and> mset group2 = {#1, 3, 5, 7#}
     \<and> partition_main part = [print_ints (group1 @ group2) ''partitioned'', ''first odd at index: 4'',
         ''stable_partition: 2 4 6 8 1 3 5 7 '', ''evens: 2 4 6 '', ''odds: 1 3 5 '', ''v2 is_partitioned(even): true'',
         ''v3 is_partitioned(even): false'', ''passing: alice(82) carol(91) '', ''failing: bob(45) dave(58) eve(37) '']"
proof -
  let ?v = "[1, 2, 3, 4, 5, 6, 7, 8]"
  obtain t e where te: "part is_even ?v = t @ e" "\<forall>x \<in> set t. is_even x" "\<forall>x \<in> set e. \<not> is_even x"
      "mset (part is_even ?v) = mset ?v"
    using pt unfolding partition_spec_def by metis
  have "filter is_even (part is_even ?v) = t" "filter (\<lambda>x. \<not> is_even x) (part is_even ?v) = e"
    using te(1-3) by (auto simp: filter_empty_conv)
  then have m: "mset t = mset (filter is_even ?v)" "mset e = mset (filter (\<lambda>x. \<not> is_even x) ?v)"
    using te(4) by (metis mset_filter)+
  have ev: "filter is_even ?v = [2, 4, 6, 8]" "filter (\<lambda>x. \<not> is_even x) ?v = [1, 3, 5, 7]" by code_simp+
  have "length t = 4" using mset_eq_length [OF m(1)] ev by simp
  moreover have "takeWhile is_even (t @ e) = t"
    using te(2,3) by (cases e) (auto simp: takeWhile_append)
  ultimately have b: "find_if_not is_even (t @ e) = 4"
    by (simp add: find_if_not_def find_if_def)
  have four: "''first odd at index: '' @ dec_nat 4 = ''first odd at index: 4''" by code_simp
  have "partition_main part = [print_ints (t @ e) ''partitioned'', ''first odd at index: 4'',
         ''stable_partition: 2 4 6 8 1 3 5 7 '', ''evens: 2 4 6 '', ''odds: 1 3 5 '', ''v2 is_partitioned(even): true'',
         ''v3 is_partitioned(even): false'', ''passing: alice(82) carol(91) '', ''failing: bob(45) dave(58) eve(37) '']"
    unfolding partition_main_tail [of part] te(1) b four by (rule refl)
  then show ?thesis using m ev by auto
qed

section \<open>Properties\<close>

text \<open>
  The idioms the programs demonstrate do what their comments promise, for every input.  On a
  sorted vector \<open>binary_search\<close> decides membership, \<open>equal_range\<close> delimits exactly the copies of
  the value, and inserting at \<open>lower_bound\<close> adds the value and keeps the vector sorted; the set
  operations on two sorted ranges give sorted ranges with the largest, the smallest and the
  differences of the multiplicities.  Sorting, \<open>unique\<close> and erasing leaves every value once
  whatever \<open>unique\<close> leaves behind its new end.  The \<open>do\<close>-\<open>while\<close> loop over \<open>next_permutation\<close> returns,
  and from sorted order it visits every permutation exactly once, in lexicographic order.
\<close>

theorem algorithm_idioms:
  fixes u v w :: "int list"
  assumes "sorted v" and "sorted w"
  shows "(binary_search (<) v x \<longleftrightarrow> x \<in> set v)
    \<and> slice_range (fst (equal_range (<) v x)) (snd (equal_range (<) v x)) v = replicate (count_list v x) x
    \<and> sorted (vec_insert (lower_bound (<) v x) x v) \<and> mset (vec_insert (lower_bound (<) v x) x v) = add_mset x (mset v)
    \<and> sorted (set_union v w) \<and> mset (set_union v w) = mset v \<union># mset w
    \<and> sorted (set_intersection v w) \<and> mset (set_intersection v w) = mset v \<inter># mset w
    \<and> sorted (set_difference v w) \<and> mset (set_difference v w) = mset v - mset w
    \<and> sorted (set_symmetric_difference v w)
    \<and> mset (set_symmetric_difference v w) = (mset v - mset w) + (mset w - mset v)
    \<and> (let u' = erase_tail (unique junk (stable_sort (<) u)) in sorted u' \<and> distinct u' \<and> set u' = set u)
    \<and> (\<exists>ps. permutations_from v = Some ps \<and> sorted_wrt lex_less ps \<and> set ps = {p. mset p = mset v})"
proof -
  have d: "sorted (drop_repeats (sort u)) \<and> distinct (drop_repeats (sort u)) \<and> set (drop_repeats (sort u)) = set u"
    using sorted_unique [of "sort u"] by simp
  obtain ps where ps: "permutations_from v = Some (v # ps)" "sorted_wrt lex_less (v # ps)" "set ps = later v"
    using permutations_loop by blast
  have "set (v # ps) = {p. mset p = mset v}"
    using ps(3) ascending_least [OF assms(1)] by (auto simp: later_def)
  with ps have "\<exists>ps. permutations_from v = Some ps \<and> sorted_wrt lex_less ps \<and> set ps = {p. mset p = mset v}" by blast
  with assms d show ?thesis
    by (simp add: binary_search_member equal_range_def equal_range_slice sorted_insertion set_operations Let_def int_sort)
qed

theorem algorithm_idioms_witness:
  "sorted [1, 2, 4, 4, 8 :: int] \<and> sorted [3, 4 :: int]
   \<and> (binary_search (<) [1, 2, 4, 4, 8] (4 :: int) \<longleftrightarrow> 4 \<in> set [1, 2, 4, 4, 8 :: int])
   \<and> mset (set_union [1, 2, 4, 4, 8] [3, 4]) = mset [1, 2, 4, 4, 8] \<union># mset [3, 4]"
proof -
  have s: "sorted [1, 2, 4, 4, 8 :: int]" "sorted [3, 4 :: int]" by simp_all
  from algorithm_idioms [OF this, of 4 _ "[]"] s show ?thesis by blast
qed

end
