(* ===== verification/Seqlock.thy ===== *)
theory Seqlock
  imports Prelude Complex_Main
begin

text \<open>
  The shared-memory price feed of \<^verbatim>\<open>system_calls/04_mmap_ipc.cpp\<close>.  A writer process publishes
  updates of a \<open>PriceUpdate\<close> under a sequence counter that is odd while an update is in progress;
  \<open>demo_anonymous_shared\<close> reads with the seqlock protocol, \<open>demo_named_shm_reader\<close> without it.
  Every atomic access is a step of its own and the steps of the two processes interleave freely;
  all stores are release and all loads acquire in program order, so the interleavings are
  sequentially consistent.  \<^verbatim>\<open>double\<close> values are reals.
\<close>

section \<open>The shared page and the writer\<close>

datatype writer_pc = W_Load | W_Odd int | W_Mid int | W_Spread int | W_Count int | W_Even int | W_Done

record price_update =
  pu_seq :: int
  pu_mid :: real
  pu_spread :: real
  pu_updates :: int
  w_round :: nat
  w_pc :: writer_pc

text \<open>What a writer publishes: how many updates, and the mid price and spread of each.\<close>

record feed =
  rounds :: nat
  mids :: "nat \<Rightarrow> real"
  spreads :: "nat \<Rightarrow> real"

definition anonymous_feed :: feed where
  "anonymous_feed = \<lparr>rounds = 5, mids = (\<lambda>i. 100 + real i * 0.5), spreads = (\<lambda>i. 0.02 + real i * 0.001)\<rparr>"

definition named_feed :: feed where
  "named_feed = \<lparr>rounds = 3, mids = (\<lambda>i. 200 + real i), spreads = (\<lambda>i. 0.1 + real i * 0.01)\<rparr>"

text \<open>The page as \<open>new (raw) PriceUpdate{}\<close> leaves it, with the writer before its loop.\<close>

definition page_init :: price_update where
  "page_init = \<lparr>pu_seq = 0, pu_mid = 0, pu_spread = 0, pu_updates = 0, w_round = 0, w_pc = W_Load\<rparr>"

inductive writer_step :: "feed \<Rightarrow> price_update \<Rightarrow> price_update \<Rightarrow> bool" for f :: feed where
  w_load: "w_pc p = W_Load \<Longrightarrow> w_round p < rounds f \<Longrightarrow> writer_step f p (p\<lparr>w_pc := W_Odd (pu_seq p)\<rparr>)"
| w_odd: "w_pc p = W_Odd s \<Longrightarrow> writer_step f p (p\<lparr>pu_seq := s + 1, w_pc := W_Mid s\<rparr>)"
| w_mid: "w_pc p = W_Mid s \<Longrightarrow> writer_step f p (p\<lparr>pu_mid := mids f (w_round p), w_pc := W_Spread s\<rparr>)"
| w_spread: "w_pc p = W_Spread s \<Longrightarrow> writer_step f p (p\<lparr>pu_spread := spreads f (w_round p), w_pc := W_Count s\<rparr>)"
| w_count: "w_pc p = W_Count s \<Longrightarrow> writer_step f p (p\<lparr>pu_updates := pu_updates p + 1, w_pc := W_Even s\<rparr>)"
| w_even: "w_pc p = W_Even s \<Longrightarrow> writer_step f p (p\<lparr>pu_seq := s + 2, w_round := Suc (w_round p), w_pc := W_Load\<rparr>)"
| w_exit: "w_pc p = W_Load \<Longrightarrow> \<not> w_round p < rounds f \<Longrightarrow> writer_step f p (p\<lparr>w_pc := W_Done\<rparr>)"

inductive_cases writer_stepE: "writer_step f p q"

section \<open>The readers\<close>

record reader =
  seen :: int
  shown :: "(int \<times> real \<times> real) list"

definition reader_init :: reader where
  "reader_init = \<lparr>seen = 0, shown = []\<rparr>"

text \<open>The lines \<open>if (nu > seen) { printf(...); seen = nu; }\<close>.\<close>

definition show_update :: "int \<Rightarrow> real \<Rightarrow> real \<Rightarrow> reader \<Rightarrow> reader" where
  "show_update nu m sp r = (if nu > seen r then \<lparr>seen = nu, shown = shown r @ [(nu, m, sp)]\<rparr> else r)"

datatype reader_pc = R_Top | R_Mid int | R_Spread int real | R_Check int real real | R_Count real real | R_End

type_synonym anon_sys = "price_update \<times> reader_pc \<times> reader"

inductive anon_step :: "feed \<Rightarrow> anon_sys \<Rightarrow> anon_sys \<Rightarrow> bool" for f :: feed where
  a_writer: "writer_step f p q \<Longrightarrow> anon_step f (p, c, r) (q, c, r)"
| a_seq: "seen r < int (rounds f) \<Longrightarrow>
     anon_step f (p, R_Top, r) (p, if pu_seq p mod 2 \<noteq> 0 then R_Top else R_Mid (pu_seq p), r)"
| a_mid: "anon_step f (p, R_Mid s1, r) (p, R_Spread s1 (pu_mid p), r)"
| a_spread: "anon_step f (p, R_Spread s1 m, r) (p, R_Check s1 m (pu_spread p), r)"
| a_check: "anon_step f (p, R_Check s1 m sp, r) (p, if s1 \<noteq> pu_seq p then R_Top else R_Count m sp, r)"
| a_count: "anon_step f (p, R_Count m sp, r) (p, R_Top, show_update (pu_updates p) m sp r)"
| a_end: "\<not> seen r < int (rounds f) \<Longrightarrow> anon_step f (p, R_Top, r) (p, R_End, r)"

inductive_cases anon_stepE: "anon_step f (p, c, r) s'"

definition anon_init :: anon_sys where
  "anon_init = (page_init, R_Top, reader_init)"

datatype named_pc = N_Top | N_Mid int | N_Spread int real | N_End

type_synonym named_sys = "price_update \<times> named_pc \<times> reader"

inductive named_step :: "feed \<Rightarrow> named_sys \<Rightarrow> named_sys \<Rightarrow> bool" for f :: feed where
  n_writer: "writer_step f p q \<Longrightarrow> named_step f (p, c, r) (q, c, r)"
| n_count: "seen r < int (rounds f) \<Longrightarrow>
     named_step f (p, N_Top, r) (p, if pu_updates p > seen r then N_Mid (pu_updates p) else N_Top, r)"
| n_mid: "named_step f (p, N_Mid nu, r) (p, N_Spread nu (pu_mid p), r)"
| n_spread: "named_step f (p, N_Spread nu m, r) (p, N_Top, show_update nu m (pu_spread p) r)"
| n_end: "\<not> seen r < int (rounds f) \<Longrightarrow> named_step f (p, N_Top, r) (p, N_End, r)"

inductive_cases named_stepE: "named_step f (p, c, r) s'"

definition named_init :: named_sys where
  "named_init = (page_init, N_Top, reader_init)"

section \<open>The writer's invariant\<close>

text \<open>Version \<open>k\<close> of the page: all zero before the first update, then what update \<open>k\<close> published.\<close>

definition ver_mid :: "feed \<Rightarrow> nat \<Rightarrow> real" where
  "ver_mid f k = (case k of 0 \<Rightarrow> 0 | Suc i \<Rightarrow> mids f i)"

definition ver_spread :: "feed \<Rightarrow> nat \<Rightarrow> real" where
  "ver_spread f k = (case k of 0 \<Rightarrow> 0 | Suc i \<Rightarrow> spreads f i)"

text \<open>
  How far the current round has got: which of mid price, spread and update count it has
  already stored, and whether the counter is odd.
\<close>

fun progress :: "writer_pc \<Rightarrow> nat \<times> nat \<times> nat \<times> nat" where
  "progress W_Load = (0, 0, 0, 0)"
| "progress (W_Odd s) = (0, 0, 0, 0)"
| "progress (W_Mid s) = (1, 0, 0, 0)"
| "progress (W_Spread s) = (1, 1, 0, 0)"
| "progress (W_Count s) = (1, 1, 1, 0)"
| "progress (W_Even s) = (1, 1, 1, 1)"
| "progress W_Done = (0, 0, 0, 0)"

fun writer_saved :: "writer_pc \<Rightarrow> int option" where
  "writer_saved W_Load = None"
| "writer_saved W_Done = None"
| "writer_saved (W_Odd s) = Some s"
| "writer_saved (W_Mid s) = Some s"
| "writer_saved (W_Spread s) = Some s"
| "writer_saved (W_Count s) = Some s"
| "writer_saved (W_Even s) = Some s"

definition writer_inv :: "feed \<Rightarrow> price_update \<Rightarrow> bool" where
  "writer_inv f p \<longleftrightarrow>
     (case progress (w_pc p) of (od, m, sp, n) \<Rightarrow>
        pu_seq p = 2 * int (w_round p) + int od
      \<and> pu_mid p = ver_mid f (w_round p + m)
      \<and> pu_spread p = ver_spread f (w_round p + sp)
      \<and> pu_updates p = int (w_round p + n))
   \<and> (case writer_saved (w_pc p) of None \<Rightarrow> w_round p \<le> rounds f
      | Some s \<Rightarrow> s = 2 * int (w_round p) \<and> w_round p < rounds f)
   \<and> (w_pc p = W_Done \<longrightarrow> w_round p = rounds f)"

lemma writer_init: "writer_inv f page_init"
  by (simp add: writer_inv_def page_init_def ver_mid_def ver_spread_def)

lemma writer_inv_step: "writer_inv f p \<Longrightarrow> writer_step f p q \<Longrightarrow> writer_inv f q"
  by (erule writer_step.cases) (auto simp: writer_inv_def ver_mid_def ver_spread_def)

lemma writer_seq_mono: "writer_inv f p \<Longrightarrow> writer_step f p q \<Longrightarrow> pu_seq p \<le> pu_seq q"
  by (erule writer_step.cases) (auto simp: writer_inv_def)

lemma writer_updates_mono: "writer_step f p q \<Longrightarrow> pu_updates p \<le> pu_updates q"
  by (erule writer_step.cases) auto

text \<open>While the counter stands at an even value the page holds one version.\<close>

lemma even_page:
  assumes "writer_inv f p" and "pu_seq p = 2 * int k"
  shows "pu_mid p = ver_mid f k" "pu_spread p = ver_spread f k" "pu_updates p = int k"
proof -
  have "progress (w_pc p) = (0, 0, 0, 0) \<and> w_round p = k"
    using assms by (cases "w_pc p") (auto simp: writer_inv_def, presburger+)
  with assms show "pu_mid p = ver_mid f k" "pu_spread p = ver_spread f k" "pu_updates p = int k"
    by (auto simp: writer_inv_def)
qed

lemma updates_bound: "writer_inv f p \<Longrightarrow> 0 \<le> pu_updates p \<and> pu_updates p \<le> int (rounds f)"
  by (cases "w_pc p") (auto simp: writer_inv_def)

section \<open>What the seqlock reader holds\<close>

fun pc_inv :: "feed \<Rightarrow> price_update \<Rightarrow> reader_pc \<Rightarrow> bool" where
  "pc_inv f p (R_Mid s1) \<longleftrightarrow> (\<exists>k. s1 = 2 * int k \<and> s1 \<le> pu_seq p)"
| "pc_inv f p (R_Spread s1 m) \<longleftrightarrow>
     (\<exists>k. s1 = 2 * int k \<and> s1 \<le> pu_seq p \<and> (pu_seq p = s1 \<longrightarrow> m = ver_mid f k))"
| "pc_inv f p (R_Check s1 m sp) \<longleftrightarrow>
     (\<exists>k. s1 = 2 * int k \<and> s1 \<le> pu_seq p \<and> (pu_seq p = s1 \<longrightarrow> m = ver_mid f k \<and> sp = ver_spread f k))"
| "pc_inv f p (R_Count m sp) \<longleftrightarrow> (\<exists>k. m = ver_mid f k \<and> sp = ver_spread f k \<and> int k \<le> pu_updates p)"
| "pc_inv f p c \<longleftrightarrow> True"

definition seen_inv :: "feed \<Rightarrow> price_update \<Rightarrow> reader \<Rightarrow> bool" where
  "seen_inv f p r \<longleftrightarrow> 0 \<le> seen r \<and> seen r \<le> pu_updates p
     \<and> (if shown r = [] then seen r = 0 else seen r = fst (last (shown r)))
     \<and> sorted_wrt (<) (map fst (shown r)) \<and> (\<forall>x \<in> set (shown r). 0 < fst x \<and> fst x \<le> seen r)"

definition snapshot :: "feed \<Rightarrow> int \<times> real \<times> real \<Rightarrow> bool" where
  "snapshot f x \<longleftrightarrow> (\<exists>k. int k \<le> fst x \<and> snd x = (ver_mid f k, ver_spread f k))"

lemma pc_inv_writer:
  assumes "writer_inv f p" and "writer_step f p q" and "pc_inv f p c"
  shows "pc_inv f q c"
proof -
  have q: "writer_inv f q" "pu_seq p \<le> pu_seq q" "pu_updates p \<le> pu_updates q"
    using assms writer_inv_step writer_seq_mono writer_updates_mono by blast+
  have same: "pu_seq p = s1" if "s1 \<le> pu_seq p" "pu_seq q = s1" for s1 using that q(2) by simp
  show ?thesis using assms(3) q same by (cases c) (force intro: order_trans)+
qed

lemma pc_inv_reader:
  assumes w: "writer_inv f p"
  shows "pu_seq p mod 2 = 0 \<Longrightarrow> pc_inv f p (R_Mid (pu_seq p))"
    and "pc_inv f p (R_Mid s1) \<Longrightarrow> pc_inv f p (R_Spread s1 (pu_mid p))"
    and "pc_inv f p (R_Spread s1 m) \<Longrightarrow> pc_inv f p (R_Check s1 m (pu_spread p))"
    and "pc_inv f p (R_Check (pu_seq p) m sp) \<Longrightarrow> pc_inv f p (R_Count m sp)"
proof -
  have "0 \<le> pu_seq p" using w by (auto simp: writer_inv_def split: prod.splits)
  then show "pc_inv f p (R_Mid (pu_seq p))" if "pu_seq p mod 2 = 0"
    using that by (auto intro!: exI [of _ "nat (pu_seq p div 2)"])
qed (use even_page [OF w] in auto)

lemma show_update_inv:
  assumes "seen_inv f p r"
  shows "seen_inv f p (show_update (pu_updates p) m sp r)"
  using assms by (force simp: seen_inv_def show_update_def sorted_wrt_append)

lemma show_update_snapshot:
  assumes "\<forall>x \<in> set (shown r). snapshot f x" and "pc_inv f p (R_Count m sp)"
  shows "\<forall>x \<in> set (shown (show_update (pu_updates p) m sp r)). snapshot f x"
  using assms by (auto simp: show_update_def snapshot_def)

definition anon_inv :: "feed \<Rightarrow> anon_sys \<Rightarrow> bool" where
  "anon_inv f s = (case s of (p, c, r) \<Rightarrow> writer_inv f p \<and> pc_inv f p c \<and> seen_inv f p r
     \<and> (\<forall>x \<in> set (shown r). snapshot f x) \<and> (c = R_End \<longrightarrow> seen r = int (rounds f)))"

lemma seen_inv_mono: "seen_inv f p r \<Longrightarrow> pu_updates p \<le> pu_updates q \<Longrightarrow> seen_inv f q r"
  by (auto simp: seen_inv_def)

lemma anon_inv_step: "anon_inv f s \<Longrightarrow> anon_step f s t \<Longrightarrow> anon_inv f t"
proof (erule anon_step.cases, goal_cases)
  case (1 p q c r)
  then show ?case
    using pc_inv_writer writer_inv_step writer_updates_mono seen_inv_mono by (auto simp: anon_inv_def)
next
  case (2 r p)
  then show ?case using pc_inv_reader(1) by (auto simp: anon_inv_def)
next
  case (3 p s1 r)
  then show ?case using pc_inv_reader(2) by (auto simp: anon_inv_def)
next
  case (4 p s1 m r)
  then show ?case using pc_inv_reader(3) by (auto simp: anon_inv_def)
next
  case (5 p s1 m sp r)
  then show ?case using pc_inv_reader(4) [of f p m sp] by (auto simp: anon_inv_def simp del: pc_inv.simps(1-4))
next
  case (6 p m sp r)
  then show ?case
    using show_update_inv [of f p r m sp] show_update_snapshot [of r f p m sp] by (simp add: anon_inv_def)
next
  case (7 r p)
  then show ?case using updates_bound [of f p] by (auto simp: anon_inv_def seen_inv_def)
qed

interpretation seqlock: inv_system "\<lambda>s. s = anon_init" "anon_step f" "anon_inv f" for f
proof unfold_locales
  show "anon_inv f s" if "s = anon_init" for s
    using that writer_init by (simp add: anon_inv_def anon_init_def reader_init_def seen_inv_def page_init_def)
qed (rule anon_inv_step)

section \<open>Runs of the writer\<close>

definition page_at :: "feed \<Rightarrow> nat \<Rightarrow> price_update" where
  "page_at f k = \<lparr>pu_seq = 2 * int k, pu_mid = ver_mid f k, pu_spread = ver_spread f k,
     pu_updates = int k, w_round = k, w_pc = W_Load\<rparr>"

text \<open>The page in round \<open>k\<close> after the mid price of the next update was stored.\<close>

definition page_mid :: "feed \<Rightarrow> nat \<Rightarrow> price_update" where
  "page_mid f k = \<lparr>pu_seq = 2 * int k + 1, pu_mid = ver_mid f (Suc k), pu_spread = ver_spread f k,
     pu_updates = int k, w_round = k, w_pc = W_Spread (2 * int k)\<rparr>"

lemma page_at_0: "page_at f 0 = page_init"
  by (simp add: page_at_def page_init_def ver_mid_def ver_spread_def)

lemma writer_first_half: "k < rounds f \<Longrightarrow> (writer_step f)\<^sup>*\<^sup>* (page_at f k) (page_mid f k)"
proof -
  assume k: "k < rounds f"
  let ?p = "page_at f k"
  let ?p1 = "?p\<lparr>w_pc := W_Odd (2 * int k)\<rparr>"
  let ?p2 = "?p1\<lparr>pu_seq := 2 * int k + 1, w_pc := W_Mid (2 * int k)\<rparr>"
  have "writer_step f ?p ?p1" using w_load [of ?p f] k by (simp add: page_at_def)
  moreover have "writer_step f ?p1 ?p2" using w_odd [of ?p1] by simp
  moreover have "writer_step f ?p2 (page_mid f k)"
    using w_mid [of ?p2 _ f] by (simp add: page_at_def page_mid_def ver_mid_def)
  ultimately show ?thesis by (meson converse_rtranclp_into_rtranclp rtranclp.rtrancl_refl)
qed

lemma writer_second_half: "k < rounds f \<Longrightarrow> (writer_step f)\<^sup>*\<^sup>* (page_mid f k) (page_at f (Suc k))"
proof -
  assume k: "k < rounds f"
  let ?p = "page_mid f k"
  let ?p1 = "?p\<lparr>pu_spread := ver_spread f (Suc k), w_pc := W_Count (2 * int k)\<rparr>"
  let ?p2 = "?p1\<lparr>pu_updates := int k + 1, w_pc := W_Even (2 * int k)\<rparr>"
  have "writer_step f ?p ?p1" using w_spread [of ?p _ f] by (simp add: page_mid_def ver_spread_def)
  moreover have "writer_step f ?p1 ?p2" using w_count [of ?p1 _ f] by (simp add: page_mid_def)
  moreover have "writer_step f ?p2 (page_at f (Suc k))"
    using w_even [of ?p2 _ f] by (simp add: page_at_def page_mid_def add.commute)
  ultimately show ?thesis by (meson converse_rtranclp_into_rtranclp rtranclp.rtrancl_refl)
qed

lemma writer_run: "k \<le> rounds f \<Longrightarrow> (writer_step f)\<^sup>*\<^sup>* page_init (page_at f k)"
proof (induction k)
  case (Suc k)
  then show ?case
    using writer_first_half [of k f] writer_second_half [of k f] by simp
qed (simp add: page_at_0)

lemma anon_writer_run: "(writer_step f)\<^sup>*\<^sup>* p q \<Longrightarrow> (anon_step f)\<^sup>*\<^sup>* (p, c, r) (q, c, r)"
  by (induction rule: rtranclp_induct) (auto intro: rtranclp.rtrancl_into_rtrancl a_writer)

lemma named_writer_run: "(writer_step f)\<^sup>*\<^sup>* p q \<Longrightarrow> (named_step f)\<^sup>*\<^sup>* (p, c, r) (q, c, r)"
  by (induction rule: rtranclp_induct) (auto intro: rtranclp.rtrancl_into_rtrancl n_writer)

text \<open>From any of its states the writer can finish.\<close>

fun steps_left :: "writer_pc \<Rightarrow> nat" where
  "steps_left W_Load = 6"
| "steps_left (W_Odd s) = 5"
| "steps_left (W_Mid s) = 4"
| "steps_left (W_Spread s) = 3"
| "steps_left (W_Count s) = 2"
| "steps_left (W_Even s) = 1"
| "steps_left W_Done = 0"

definition writer_left :: "feed \<Rightarrow> price_update \<Rightarrow> nat" where
  "writer_left f p = 6 * (rounds f - w_round p) + steps_left (w_pc p)"

lemma writer_progress:
  assumes "writer_inv f p" and "w_pc p \<noteq> W_Done"
  shows "\<exists>q. writer_step f p q \<and> writer_left f q < writer_left f p"
proof (cases "w_pc p")
  case W_Load
  then show ?thesis
    by (cases "w_round p < rounds f") (auto simp: writer_left_def dest: w_load w_exit intro!: exI)
next
  case (W_Even s)
  with assms have "w_round p < rounds f" by (simp add: writer_inv_def)
  with W_Even show ?thesis using w_even [of p s f] by (auto simp: writer_left_def intro!: exI)
qed (use assms in \<open>auto simp: writer_left_def dest: w_odd w_mid w_spread w_count intro!: exI\<close>)

lemma writer_finishes:
  "writer_inv f p \<Longrightarrow> \<exists>q. (writer_step f)\<^sup>*\<^sup>* p q \<and> w_pc q = W_Done \<and> writer_inv f q"
proof (induction "writer_left f p" arbitrary: p rule: less_induct)
  case less
  show ?case
  proof (cases "w_pc p = W_Done")
    case True
    with less.prems show ?thesis by blast
  next
    case False
    with less.prems obtain q where "writer_step f p q" "writer_left f q < writer_left f p"
      using writer_progress by blast
    with less show ?thesis using writer_inv_step by (meson converse_rtranclp_into_rtranclp)
  qed
qed

section \<open>Runs of the seqlock reader\<close>

text \<open>On a page that rests at version \<open>k\<close> the reader takes a snapshot of it.\<close>

lemma anon_to_count:
  assumes "seen r < int (rounds f)" and "pu_seq p = 2 * int k"
  shows "(anon_step f)\<^sup>*\<^sup>* (p, R_Top, r) (p, R_Count (pu_mid p) (pu_spread p), r)"
proof -
  have "anon_step f (p, R_Top, r) (p, R_Mid (pu_seq p), r)"
    using a_seq [of r f p] assms by simp
  moreover have "anon_step f (p, R_Check (pu_seq p) m sp, r) (p, R_Count m sp, r)" for m sp
    using a_check [of f p "pu_seq p"] by simp
  ultimately show ?thesis by (meson a_mid a_spread converse_rtranclp_into_rtranclp rtranclp.rtrancl_refl)
qed

lemma anon_to_end:
  assumes "pu_updates p = int (rounds f)"
  shows "(anon_step f)\<^sup>*\<^sup>* (p, R_Count m sp, r) (p, R_End, show_update (pu_updates p) m sp r)"
proof -
  have "\<not> seen (show_update (pu_updates p) m sp r) < int (rounds f)"
    using assms by (auto simp: show_update_def)
  then show ?thesis by (meson a_count a_end converse_rtranclp_into_rtranclp rtranclp.rtrancl_refl)
qed

lemma anon_finish_done:
  assumes "pu_seq p = 2 * int (rounds f)" and "pu_updates p = int (rounds f)"
  shows "\<exists>r'. (anon_step f)\<^sup>*\<^sup>* (p, c, r) (p, R_End, r')"
proof -
  have top: "\<exists>r'. (anon_step f)\<^sup>*\<^sup>* (p, R_Top, r) (p, R_End, r')" for r
  proof (cases "seen r < int (rounds f)")
    case True
    then show ?thesis using anon_to_count [OF _ assms(1)] anon_to_end [OF assms(2)] by (meson rtranclp_trans)
  next
    case False
    then show ?thesis using a_end by blast
  qed
  have check: "\<exists>r'. (anon_step f)\<^sup>*\<^sup>* (p, R_Check s1 m sp, r) (p, R_End, r')" for s1 m sp
  proof (cases "s1 = pu_seq p")
    case True
    then have "anon_step f (p, R_Check s1 m sp, r) (p, R_Count m sp, r)" using a_check [of f p s1 m sp r] by simp
    then show ?thesis using anon_to_end [OF assms(2)] by (meson converse_rtranclp_into_rtranclp)
  next
    case False
    then have "anon_step f (p, R_Check s1 m sp, r) (p, R_Top, r)" using a_check [of f p s1 m sp r] by simp
    then show ?thesis using top by (meson converse_rtranclp_into_rtranclp)
  qed
  have spread: "\<exists>r'. (anon_step f)\<^sup>*\<^sup>* (p, R_Spread s1 m, r) (p, R_End, r')" for s1 m
    using check a_spread by (meson converse_rtranclp_into_rtranclp)
  show ?thesis
  proof (cases c)
    case (R_Mid s1)
    then show ?thesis using spread a_mid by (meson converse_rtranclp_into_rtranclp)
  qed (use top check spread anon_to_end [OF assms(2)] in blast)+
qed

lemma anon_can_finish:
  assumes "anon_inv f (p, c, r)"
  shows "\<exists>q r'. (anon_step f)\<^sup>*\<^sup>* (p, c, r) (q, R_End, r')"
proof -
  from assms obtain q where q: "(writer_step f)\<^sup>*\<^sup>* p q" "w_pc q = W_Done" "writer_inv f q"
    using writer_finishes [of f p] by (auto simp: anon_inv_def)
  then have "pu_seq q = 2 * int (rounds f)" "pu_updates q = int (rounds f)"
    by (auto simp: writer_inv_def)
  then show ?thesis using anon_finish_done anon_writer_run [OF q(1)] by (meson rtranclp_trans)
qed

section \<open>The reader without the seqlock\<close>

fun named_pc_inv :: "feed \<Rightarrow> price_update \<Rightarrow> named_pc \<Rightarrow> bool" where
  "named_pc_inv f p (N_Mid nu) \<longleftrightarrow> nu \<le> pu_updates p"
| "named_pc_inv f p (N_Spread nu m) \<longleftrightarrow> nu \<le> pu_updates p
     \<and> (\<exists>k. nu \<le> int k \<and> m = ver_mid f k \<and> int k \<le> pu_updates p + 1)"
| "named_pc_inv f p c \<longleftrightarrow> True"

text \<open>A line that mixes at most two neighbouring or later versions, none older than its number.\<close>

definition mixture :: "feed \<Rightarrow> int \<times> real \<times> real \<Rightarrow> bool" where
  "mixture f x \<longleftrightarrow> (\<exists>km ks. fst x \<le> int km \<and> fst x \<le> int ks \<and> km \<le> ks + 1
     \<and> snd x = (ver_mid f km, ver_spread f ks))"

definition named_inv :: "feed \<Rightarrow> named_sys \<Rightarrow> bool" where
  "named_inv f s = (case s of (p, c, r) \<Rightarrow> writer_inv f p \<and> named_pc_inv f p c
     \<and> (\<forall>x \<in> set (shown r). mixture f x))"

lemma page_versions:
  assumes "writer_inv f p"
  shows "\<exists>km. pu_mid p = ver_mid f km \<and> pu_updates p \<le> int km \<and> int km \<le> pu_updates p + 1"
    and "\<exists>ks. pu_spread p = ver_spread f ks \<and> pu_updates p \<le> int ks"
  using assms by (cases "w_pc p"; force simp: writer_inv_def)+

lemma named_pc_inv_mono: "named_pc_inv f p c \<Longrightarrow> pu_updates p \<le> pu_updates q \<Longrightarrow> named_pc_inv f q c"
  by (cases c) (auto intro: order_trans)

lemma show_update_mixture:
  assumes "writer_inv f p" and "named_pc_inv f p (N_Spread nu m)" and "\<forall>x \<in> set (shown r). mixture f x"
  shows "\<forall>x \<in> set (shown (show_update nu m (pu_spread p) r)). mixture f x"
proof -
  obtain km where "nu \<le> int km" "m = ver_mid f km" "int km \<le> pu_updates p + 1" using assms(2) by auto
  moreover obtain ks where "pu_spread p = ver_spread f ks" "pu_updates p \<le> int ks"
    using page_versions(2) [OF assms(1)] by blast
  moreover have "nu \<le> pu_updates p" using assms(2) by simp
  ultimately have "mixture f (nu, m, pu_spread p)"
    unfolding mixture_def by (intro exI [of _ km] exI [of _ ks]) auto
  with assms(3) show ?thesis by (auto simp: show_update_def)
qed

lemma named_inv_step: "named_inv f s \<Longrightarrow> named_step f s t \<Longrightarrow> named_inv f t"
proof (erule named_step.cases, goal_cases)
  case (1 p q c r)
  then show ?case using writer_inv_step writer_updates_mono named_pc_inv_mono by (auto simp: named_inv_def)
next
  case (3 p nu r)
  then show ?case using page_versions(1) [of f p] by (force simp: named_inv_def)
next
  case (4 p nu m r)
  then show ?case using show_update_mixture [of f p nu m r] by (simp add: named_inv_def)
qed (auto simp: named_inv_def)

interpretation named_shm: inv_system "\<lambda>s. s = named_init" "named_step f" "named_inv f" for f
proof unfold_locales
  show "named_inv f s" if "s = named_init" for s
    using that writer_init by (simp add: named_inv_def named_init_def reader_init_def)
qed (rule named_inv_step)

section \<open>Properties\<close>

text \<open>
  C18: The seqlock gives the reader of \<open>demo_anonymous_shared\<close> untorn snapshots, for any feed and any
  interleaving with the writer: every line it prints shows the mid price and the spread of one
  and the same version of the page, a version not newer than the update number printed with
  it; the numbers increase strictly, and when the reader leaves its loop the last one is the
  number of updates.  From every reachable state the reader can finish.
\<close>

theorem seqlock_snapshots:
  assumes "(anon_step f)\<^sup>*\<^sup>* anon_init (p, c, r)"
  shows "(\<forall>(nu, m, sp) \<in> set (shown r). \<exists>k. int k \<le> nu \<and> nu \<le> int (rounds f) \<and> m = ver_mid f k \<and> sp = ver_spread f k)
    \<and> sorted_wrt (<) (map fst (shown r))
    \<and> (c = R_End \<and> 0 < rounds f \<longrightarrow> shown r \<noteq> [] \<and> fst (last (shown r)) = int (rounds f))
    \<and> (\<exists>q r'. (anon_step f)\<^sup>*\<^sup>* (p, c, r) (q, R_End, r'))"
proof -
  have inv: "anon_inv f (p, c, r)" using seqlock.reachable_inv [OF refl assms] .
  then have i: "writer_inv f p" "seen_inv f p r" "\<forall>x \<in> set (shown r). snapshot f x"
      "c = R_End \<longrightarrow> seen r = int (rounds f)"
    by (auto simp: anon_inv_def)
  have "seen r \<le> int (rounds f)" using i(2) updates_bound [OF i(1)] by (auto simp: seen_inv_def)
  then have "\<forall>x \<in> set (shown r). fst x \<le> int (rounds f)" using i(2) by (auto simp: seen_inv_def)
  then have "\<forall>(nu, m, sp) \<in> set (shown r). \<exists>k. int k \<le> nu \<and> nu \<le> int (rounds f) \<and> m = ver_mid f k \<and> sp = ver_spread f k"
    using i(3) by (fastforce simp: snapshot_def)
  with i(2,4) anon_can_finish [OF inv] show ?thesis by (auto simp: seen_inv_def split: if_splits)
qed

text \<open>
  The number printed with a snapshot is read after the snapshot was checked, so it can be newer:
  the reader may print the page as it was before the first update together with the number of
  the last update, and leave without having shown any price.
\<close>

lemma seqlock_stale_run:
  assumes "0 < rounds f"
  shows "(anon_step f)\<^sup>*\<^sup>* anon_init
    (page_at f (rounds f), R_End, \<lparr>seen = int (rounds f), shown = [(int (rounds f), 0, 0)]\<rparr>)"
proof -
  let ?q = "page_at f (rounds f)"
  have "(anon_step f)\<^sup>*\<^sup>* anon_init (page_init, R_Count 0 0, reader_init)"
    using anon_to_count [of reader_init f page_init 0] assms
    by (simp add: anon_init_def reader_init_def page_init_def)
  also have "(anon_step f)\<^sup>*\<^sup>* (page_init, R_Count 0 0, reader_init) (?q, R_Count 0 0, reader_init)"
    by (rule anon_writer_run) (simp add: writer_run)
  also have "(anon_step f)\<^sup>*\<^sup>* (?q, R_Count 0 0, reader_init) (?q, R_End, show_update (pu_updates ?q) 0 0 reader_init)"
    by (rule anon_to_end) (simp add: page_at_def)
  also have "show_update (pu_updates ?q) 0 0 reader_init = \<lparr>seen = int (rounds f), shown = [(int (rounds f), 0, 0)]\<rparr>"
    using assms by (simp add: show_update_def reader_init_def page_at_def)
  finally show ?thesis .
qed

text \<open>The reader without the seqlock may mix the mid price of an update with the spread of the one before.\<close>

lemma named_torn_run:
  "(named_step named_feed)\<^sup>*\<^sup>* named_init (page_mid named_feed 1, N_Top, \<lparr>seen = 1, shown = [(1, 201, 0.1)]\<rparr>)"
proof -
  let ?f = named_feed
  let ?p = "page_at ?f 1" and ?q = "page_mid ?f 1"
  have "(named_step ?f)\<^sup>*\<^sup>* named_init (?p, N_Top, reader_init)"
    unfolding named_init_def by (rule named_writer_run, rule writer_run) (simp add: named_feed_def)
  also have "named_step ?f (?p, N_Top, reader_init) (?p, N_Mid 1, reader_init)"
    using n_count [of reader_init ?f ?p] by (simp add: named_feed_def reader_init_def page_at_def)
  also have "(named_step ?f)\<^sup>*\<^sup>* (?p, N_Mid 1, reader_init) (?q, N_Mid 1, reader_init)"
    by (rule named_writer_run, rule writer_first_half) (simp add: named_feed_def)
  also have "named_step ?f (?q, N_Mid 1, reader_init) (?q, N_Spread 1 (pu_mid ?q), reader_init)"
    by (rule n_mid)
  also have "named_step ?f (?q, N_Spread 1 (pu_mid ?q), reader_init)
      (?q, N_Top, show_update 1 (pu_mid ?q) (pu_spread ?q) reader_init)"
    by (rule n_spread)
  also have "show_update 1 (pu_mid ?q) (pu_spread ?q) reader_init = \<lparr>seen = 1, shown = [(1, 201, 0.1)]\<rparr>"
    by (simp add: show_update_def reader_init_def page_mid_def ver_mid_def ver_spread_def named_feed_def)
  finally show ?thesis .
qed

text \<open>
  What the two readers do not give.  The seqlock reader reads the update number after it has
  checked the snapshot, so it can print the initial page, a price that was never published,
  under the number of the last update and then stop.  The reader of \<open>demo_named_shm_reader\<close> reads
  no sequence counter: what it prints is never older than the number it prints, but the mid
  price and the spread can belong to two different updates.
\<close>

theorem shared_memory_reader_flaws:
  "(\<exists>q r. (anon_step anonymous_feed)\<^sup>*\<^sup>* anon_init (q, R_End, r) \<and> shown r = [(5, 0, 0)])
   \<and> ((named_step f)\<^sup>*\<^sup>* named_init (p, c, r) \<longrightarrow> (\<forall>(nu, m, sp) \<in> set (shown r). \<exists>km ks. nu \<le> int km \<and> nu \<le> int ks
        \<and> km \<le> ks + 1 \<and> m = ver_mid f km \<and> sp = ver_spread f ks))
   \<and> (\<exists>q c r. (named_step named_feed)\<^sup>*\<^sup>* named_init (q, c, r) \<and> shown r = [(1, 201, 0.1)]
        \<and> (\<forall>k. (ver_mid named_feed k, ver_spread named_feed k) \<noteq> (201, 0.1)))"
proof (intro conjI impI)
  show "\<exists>q r. (anon_step anonymous_feed)\<^sup>*\<^sup>* anon_init (q, R_End, r) \<and> shown r = [(5, 0, 0)]"
    using seqlock_stale_run [of anonymous_feed] by (force simp: anonymous_feed_def)
next
  assume "(named_step f)\<^sup>*\<^sup>* named_init (p, c, r)"
  then have "named_inv f (p, c, r)" using named_shm.reachable_inv [OF refl] by blast
  then show "\<forall>(nu, m, sp) \<in> set (shown r). \<exists>km ks. nu \<le> int km \<and> nu \<le> int ks \<and> km \<le> ks + 1
      \<and> m = ver_mid f km \<and> sp = ver_spread f ks"
    by (fastforce simp: named_inv_def mixture_def)
next
  have "(ver_mid named_feed k, ver_spread named_feed k) \<noteq> (201, 0.1)" for k
    by (simp add: ver_mid_def ver_spread_def named_feed_def split: nat.splits)
  then show "\<exists>q c r. (named_step named_feed)\<^sup>*\<^sup>* named_init (q, c, r) \<and> shown r = [(1, 201, 0.1)]
        \<and> (\<forall>k. (ver_mid named_feed k, ver_spread named_feed k) \<noteq> (201, 0.1))"
    using named_torn_run by force
qed

theorem seqlock_snapshots_witness:
  "(anon_step anonymous_feed)\<^sup>*\<^sup>* anon_init (page_at anonymous_feed 5, R_End, \<lparr>seen = 5, shown = [(5, 0, 0)]\<rparr>)
   \<and> (\<exists>k. int k \<le> 5 \<and> 0 = ver_mid anonymous_feed k \<and> 0 = ver_spread anonymous_feed k)"
proof -
  have "(anon_step anonymous_feed)\<^sup>*\<^sup>* anon_init (page_at anonymous_feed 5, R_End, \<lparr>seen = 5, shown = [(5, 0, 0)]\<rparr>)"
    using seqlock_stale_run [of anonymous_feed] by (simp add: anonymous_feed_def)
  with seqlock_snapshots [OF this] show ?thesis by auto
qed

theorem shared_memory_reader_flaws_witness:
  "(named_step named_feed)\<^sup>*\<^sup>* named_init (page_mid named_feed 1, N_Top, \<lparr>seen = 1, shown = [(1, 201, 0.1)]\<rparr>)
   \<and> (\<exists>km ks. 1 \<le> int km \<and> 1 \<le> int ks \<and> km \<le> ks + 1 \<and> 201 = ver_mid named_feed km \<and> 0.1 = ver_spread named_feed ks)"
  using shared_memory_reader_flaws [of named_feed "page_mid named_feed 1" N_Top "\<lparr>seen = 1, shown = [(1, 201, 0.1)]\<rparr>"]
    named_torn_run by simp

end
