(* ===== verification/Event_Loops.thy ===== *)
theory Event_Loops
  imports Prelude "HOL-Library.Multiset"
begin

text \<open>
  The event loops that multiplex several descriptors: the \<open>poll\<close> loop of \<^verbatim>\<open>system_calls/08_poll.cpp\<close>
  and the \<open>epoll\<close> and \<open>kqueue\<close> loops of \<^verbatim>\<open>system_calls/10_epoll_kqueue.cpp\<close>, each of which reads several
  feeds until all of them are closed, and the servers of \<^verbatim>\<open>networking/06_select_poll_epoll.cpp\<close> and
  \<^verbatim>\<open>networking/03_nonblocking_io.cpp\<close>, which accept clients and read from them.  What the kernel
  answers to each wait is a parameter, with what the reads and accepts after it deliver; when the
  answers are used up the loop is waiting.
\<close>

section \<open>Feeds under one loop\<close>

text \<open>
  The state the three loops share: the descriptors that are watched (\<open>-1\<close> in a \<open>pollfd\<close> slot whose feed
  was closed), the counter of open feeds, the calls of \<open>close\<close> and \<open>waitpid\<close> made so far, and what
  was printed.
\<close>

record ev_state =
  watched :: "int list"
  open_count :: int
  closed :: "int list"
  reaped :: "int list"
  ev_out :: console

text \<open>
  What the kernel reports for one descriptor: the readiness bits, the chunks the following reads
  deliver, and whether the last read fails with an error other than \<open>EAGAIN\<close>.
\<close>

record revents =
  ev_in :: bool
  ev_hup :: bool
  ev_err :: bool
  ev_chunks :: "string list"
  ev_broken :: bool

datatype 'e wait_reply = Wait_Eintr | Wait_Fail | Wait_Timeout | Wait_Ready 'e

datatype loop_end = Loop_Done ev_state | Loop_Waiting ev_state | Loop_Died string

text \<open>\<^verbatim>\<open>printf("%s")\<close> prints a buffer up to its first NUL byte.\<close>

definition cstr :: "string \<Rightarrow> string" where
  "cstr s = takeWhile (\<lambda>c. c \<noteq> CHR 0x00) s"

definition print_data :: "int \<Rightarrow> string \<Rightarrow> string" where
  "print_data fd chunk = ''  [fd '' @ dec_int fd @ ''] '' @ cstr chunk"

definition fd_line :: "int \<Rightarrow> string \<Rightarrow> string" where
  "fd_line fd msg = ''  [fd '' @ dec_int fd @ ''] '' @ msg"

definition ev_say :: "console \<Rightarrow> ev_state \<Rightarrow> ev_state" where
  "ev_say ls s = s\<lparr>ev_out := ev_out s @ ls\<rparr>"

definition ev_start :: "int list \<Rightarrow> ev_state" where
  "ev_start fds = \<lparr>watched = fds, open_count = int (length fds), closed = [], reaped = [], ev_out = []\<rparr>"

text \<open>The loop around the wait, the same in the three programs.\<close>

fun wait_loop ::
  "string \<Rightarrow> string \<Rightarrow> ('e \<Rightarrow> ev_state \<Rightarrow> string + ev_state) \<Rightarrow> 'e wait_reply list \<Rightarrow> ev_state \<Rightarrow> loop_end" where
  "wait_loop failed late handle [] s = (if open_count s > 0 then Loop_Waiting s else Loop_Done s)"
| "wait_loop failed late handle (w # ws) s =
     (if open_count s > 0 then
        (case w of
           Wait_Eintr \<Rightarrow> wait_loop failed late handle ws s
         | Wait_Fail \<Rightarrow> Loop_Died failed
         | Wait_Timeout \<Rightarrow> wait_loop failed late handle ws (ev_say [late] s)
         | Wait_Ready e \<Rightarrow>
             (case handle e s of
                Inl msg \<Rightarrow> Loop_Died msg
              | Inr t \<Rightarrow> wait_loop failed late handle ws t))
      else Loop_Done s)"

subsection \<open>The poll loop\<close>

definition poll_in :: "nat \<Rightarrow> revents \<Rightarrow> ev_state \<Rightarrow> string + ev_state" where
  "poll_in i r s =
     (if ev_in r then
        (if ev_broken r then Inl ''read event''
         else Inr (ev_say (map (print_data (watched s ! i)) (ev_chunks r)) s))
      else Inr s)"

definition poll_hup :: "int list \<Rightarrow> nat \<Rightarrow> revents \<Rightarrow> ev_state \<Rightarrow> ev_state" where
  "poll_hup pids i r s =
     (if ev_hup r then
        (ev_say [fd_line (watched s ! i) ''POLLHUP - feed closed''] s)
          \<lparr>closed := closed s @ [watched s ! i], watched := (watched s)[i := -1],
           open_count := open_count s - 1, reaped := reaped s @ [pids ! i]\<rparr>
      else s)"

definition poll_err :: "nat \<Rightarrow> revents \<Rightarrow> ev_state \<Rightarrow> ev_state" where
  "poll_err i r s =
     (if ev_err r then
        (ev_say [fd_line (watched s ! i) ''POLLERR''] s)
          \<lparr>closed := closed s @ [watched s ! i], watched := (watched s)[i := -1], open_count := open_count s - 1\<rparr>
      else s)"

definition poll_slot :: "int list \<Rightarrow> nat \<Rightarrow> revents \<Rightarrow> ev_state \<Rightarrow> string + ev_state" where
  "poll_slot pids i r s =
     (if watched s ! i = -1 then Inr s
      else (case poll_in i r s of
              Inl msg \<Rightarrow> Inl msg
            | Inr t \<Rightarrow> Inr (poll_err i r (poll_hup pids i r t))))"

fun poll_slots :: "int list \<Rightarrow> nat \<Rightarrow> revents list \<Rightarrow> ev_state \<Rightarrow> string + ev_state" where
  "poll_slots pids i [] s = Inr s"
| "poll_slots pids i (r # rs) s =
     (case poll_slot pids i r s of Inl msg \<Rightarrow> Inl msg | Inr t \<Rightarrow> poll_slots pids (Suc i) rs t)"

definition event_loop :: "int list \<Rightarrow> int list \<Rightarrow> revents list wait_reply list \<Rightarrow> loop_end" where
  "event_loop reader_fds pids ws =
     wait_loop ''poll'' ''  poll timeout (200 ms) - no events'' (poll_slots pids 0) ws (ev_start reader_fds)"

subsection \<open>The epoll loop\<close>

text \<open>\<open>for (j) if (fds[j] == fd) waitpid(pids[j])\<close>.\<close>

definition reap_matching :: "int list \<Rightarrow> int list \<Rightarrow> int \<Rightarrow> int list" where
  "reap_matching fds pids fd = map snd (filter (\<lambda>(f, p). f = fd) (zip fds pids))"

definition epoll_event :: "int list \<Rightarrow> int list \<Rightarrow> int \<times> revents \<Rightarrow> ev_state \<Rightarrow> ev_state" where
  "epoll_event fds pids e s =
     (let fd = fst e;
          s = (if ev_in (snd e) then ev_say (map (print_data fd) (ev_chunks (snd e))) s else s)
      in if ev_hup (snd e) \<or> ev_err (snd e)
         then (ev_say [fd_line fd ''closed''] s)
                \<lparr>watched := remove1 fd (watched s), closed := closed s @ [fd],
                 open_count := open_count s - 1, reaped := reaped s @ reap_matching fds pids fd\<rparr>
         else s)"

definition epoll_events :: "int list \<Rightarrow> int list \<Rightarrow> (int \<times> revents) list \<Rightarrow> ev_state \<Rightarrow> string + ev_state" where
  "epoll_events fds pids es s = Inr (fold (epoll_event fds pids) es s)"

definition epoll_loop :: "int list \<Rightarrow> int list \<Rightarrow> (int \<times> revents) list wait_reply list \<Rightarrow> loop_end" where
  "epoll_loop fds pids ws = wait_loop ''epoll_wait'' ''  epoll timeout'' (epoll_events fds pids) ws (ev_start fds)"

subsection \<open>The kqueue loop\<close>

text \<open>
  A \<open>kevent\<close> carries the descriptor, the index that was registered with it, and its flags; here
  \<open>ev_err\<close> is \<open>EV_ERROR\<close> and \<open>ev_hup\<close> is \<open>EV_EOF\<close>.
\<close>

definition kqueue_event :: "int list \<Rightarrow> int \<times> nat \<times> revents \<Rightarrow> ev_state \<Rightarrow> ev_state" where
  "kqueue_event pids e s =
     (let fd = fst e; idx = fst (snd e); r = snd (snd e)
      in if ev_err r
         then (ev_say [fd_line fd ''EV_ERROR''] s)
                \<lparr>watched := remove1 fd (watched s), closed := closed s @ [fd], open_count := open_count s - 1\<rparr>
         else
           (let s = ev_say (map (print_data fd) (ev_chunks r)) s
            in if ev_hup r
               then (ev_say [fd_line fd ''EV_EOF - feed closed''] s)
                      \<lparr>watched := remove1 fd (watched s), closed := closed s @ [fd],
                       open_count := open_count s - 1, reaped := reaped s @ [pids ! idx]\<rparr>
               else s))"

definition kqueue_events :: "int list \<Rightarrow> (int \<times> nat \<times> revents) list \<Rightarrow> ev_state \<Rightarrow> string + ev_state" where
  "kqueue_events pids es s = Inr (fold (kqueue_event pids) es s)"

definition kqueue_loop :: "int list \<Rightarrow> int list \<Rightarrow> (int \<times> nat \<times> revents) list wait_reply list \<Rightarrow> loop_end" where
  "kqueue_loop fds pids ws = wait_loop ''kevent wait'' ''  kqueue timeout'' (kqueue_events pids) ws (ev_start fds)"

section \<open>What the three loops share\<close>

definition live :: "ev_state \<Rightarrow> int list" where
  "live s = filter (\<lambda>fd. fd \<noteq> -1) (watched s)"

text \<open>
  Every feed is either open and watched or was closed once, and the counter is the number of open
  ones.
\<close>

definition ev_inv :: "int list \<Rightarrow> ev_state \<Rightarrow> bool" where
  "ev_inv fds s \<longleftrightarrow> open_count s = int (length (live s)) \<and> distinct (live s @ closed s)
     \<and> set (live s @ closed s) = set fds"

text \<open>The kernel's answers are acceptable at the states in which the loop gets them.\<close>

fun answers_ok ::
  "string \<Rightarrow> ('e \<Rightarrow> ev_state \<Rightarrow> string + ev_state) \<Rightarrow> ('e \<Rightarrow> ev_state \<Rightarrow> bool) \<Rightarrow> 'e wait_reply list \<Rightarrow> ev_state \<Rightarrow> bool" where
  "answers_ok late handle good [] s = True"
| "answers_ok late handle good (w # ws) s =
     (case w of
        Wait_Ready e \<Rightarrow> good e s \<and> (case handle e s of Inl msg \<Rightarrow> True | Inr t \<Rightarrow> answers_ok late handle good ws t)
      | Wait_Timeout \<Rightarrow> answers_ok late handle good ws (ev_say [late] s)
      | _ \<Rightarrow> answers_ok late handle good ws s)"

fun end_state :: "loop_end \<Rightarrow> ev_state option" where
  "end_state (Loop_Done s) = Some s"
| "end_state (Loop_Waiting s) = Some s"
| "end_state (Loop_Died msg) = None"

locale event_handler =
  fixes fds :: "int list"
    and handle :: "'e \<Rightarrow> ev_state \<Rightarrow> string + ev_state"
    and good :: "'e \<Rightarrow> ev_state \<Rightarrow> bool"
  assumes handle_inv: "ev_inv fds s \<Longrightarrow> good e s \<Longrightarrow> handle e s = Inr t \<Longrightarrow> ev_inv fds t"
begin

lemma start_inv: "distinct fds \<Longrightarrow> \<forall>fd \<in> set fds. 0 \<le> fd \<Longrightarrow> ev_inv fds (ev_start fds)"
proof -
  assume fds: "distinct fds" "\<forall>fd \<in> set fds. 0 \<le> fd"
  then have "live (ev_start fds) = fds"
    by (auto simp: live_def ev_start_def intro!: filter_True)
  then show ?thesis using fds(1) by (simp add: ev_inv_def ev_start_def)
qed

lemma loop_inv:
  assumes "answers_ok late handle good ws s" and "ev_inv fds s"
  shows "case wait_loop failed late handle ws s of
      Loop_Done t \<Rightarrow> ev_inv fds t \<and> live t = []
    | Loop_Waiting t \<Rightarrow> ev_inv fds t \<and> live t \<noteq> []
    | Loop_Died msg \<Rightarrow> True"
  using assms
proof (induction ws arbitrary: s)
  case Nil
  then show ?case by (auto simp: ev_inv_def)
next
  case (Cons w ws)
  have said: "ev_inv fds (ev_say ls s) \<longleftrightarrow> ev_inv fds s" for ls
    by (simp add: ev_inv_def ev_say_def live_def)
  show ?case
  proof (cases "open_count s > 0")
    case False
    with Cons.prems show ?thesis by (auto simp: ev_inv_def)
  next
    case True
    with Cons show ?thesis using handle_inv [of s] said by (cases w) (auto split: sum.splits)
  qed
qed

lemma loop_correct:
  assumes "distinct fds" and "\<forall>fd \<in> set fds. 0 \<le> fd" and "answers_ok late handle good ws (ev_start fds)"
  shows "case wait_loop failed late handle ws (ev_start fds) of
      Loop_Done t \<Rightarrow> live t = [] \<and> distinct (closed t) \<and> set (closed t) = set fds
    | Loop_Waiting t \<Rightarrow> live t \<noteq> [] \<and> distinct (closed t) \<and> set (live t) \<union> set (closed t) = set fds
        \<and> set (live t) \<inter> set (closed t) = {} \<and> open_count t = int (length (live t))
    | Loop_Died msg \<Rightarrow> True"
  using loop_inv [OF assms(3) start_inv [OF assms(1,2)], of failed]
  by (auto simp: ev_inv_def ev_start_def split: loop_end.splits)

end

text \<open>Closing one open descriptor.\<close>

lemma live_close_slot:
  fixes ws :: "int list"
  assumes "i < length ws" and "ws ! i \<noteq> -1" and "distinct (filter (\<lambda>fd. fd \<noteq> -1) ws)"
  shows "filter (\<lambda>fd. fd \<noteq> -1) (ws[i := -1]) = remove1 (ws ! i) (filter (\<lambda>fd. fd \<noteq> -1) ws)"
  using assms
proof (induction ws arbitrary: i)
  case (Cons w ws)
  then show ?case by (cases i) auto
qed simp

lemma ev_inv_close:
  assumes "ev_inv fds s" and "fd \<in> set (live s)"
    and "live t = remove1 fd (live s)" and "closed t = closed s @ [fd]" and "open_count t = open_count s - 1"
  shows "ev_inv fds t"
proof -
  have "0 < length (live s)" using assms(2) by (cases "live s") auto
  then have "int (length (live s) - 1) = int (length (live s)) - 1" by linarith
  with assms show ?thesis by (auto simp: ev_inv_def length_remove1 set_remove1_eq)
qed

lemma ev_inv_same: "ev_inv fds s \<Longrightarrow> watched t = watched s \<Longrightarrow> closed t = closed s \<Longrightarrow> open_count t = open_count s \<Longrightarrow> ev_inv fds t"
  by (simp add: ev_inv_def live_def)

subsection \<open>The poll loop\<close>

definition poll_good :: "revents list \<Rightarrow> ev_state \<Rightarrow> bool" where
  "poll_good rs s \<longleftrightarrow> length rs \<le> length (watched s) \<and> list_all (\<lambda>r. \<not> (ev_hup r \<and> ev_err r)) rs"

lemma poll_slot_length: "poll_slot pids i r s = Inr t \<Longrightarrow> length (watched t) = length (watched s)"
  by (auto simp: poll_slot_def poll_in_def poll_err_def poll_hup_def ev_say_def split: if_splits sum.splits)

lemma poll_slot_inv:
  assumes "ev_inv fds s" and "i < length (watched s)" and "\<not> (ev_hup r \<and> ev_err r)" and "poll_slot pids i r s = Inr t"
  shows "ev_inv fds t"
proof (cases "watched s ! i = -1 \<or> \<not> ev_hup r \<and> \<not> ev_err r")
  case True
  with assms show ?thesis
    by (auto simp: poll_slot_def poll_in_def poll_err_def poll_hup_def ev_say_def ev_inv_same split: if_splits)
next
  case False
  have "live t = remove1 (watched s ! i) (live s)" "closed t = closed s @ [watched s ! i]"
      "open_count t = open_count s - 1"
    using assms False live_close_slot [of i "watched s"]
    by (auto simp: poll_slot_def poll_in_def poll_err_def poll_hup_def ev_say_def live_def ev_inv_def split: if_splits sum.splits)
  moreover have "watched s ! i \<in> set (live s)" using False assms(2) by (simp add: live_def)
  ultimately show ?thesis using ev_inv_close [OF assms(1)] by blast
qed

lemma poll_slots_inv:
  assumes "ev_inv fds s" and "i + length rs \<le> length (watched s)" and "list_all (\<lambda>r. \<not> (ev_hup r \<and> ev_err r)) rs"
    and "poll_slots pids i rs s = Inr t"
  shows "ev_inv fds t"
  using assms
proof (induction rs arbitrary: i s)
  case (Cons r rs)
  then obtain u where u: "poll_slot pids i r s = Inr u" "poll_slots pids (Suc i) rs u = Inr t"
    by (auto split: sum.splits)
  have "ev_inv fds u" using poll_slot_inv [OF Cons.prems(1) _ _ u(1)] Cons.prems(2,3) by simp
  then show ?case
    using Cons.IH [OF _ _ _ u(2)] Cons.prems(2,3) poll_slot_length [OF u(1)] by simp
qed simp

interpretation poll_feeds: event_handler fds "poll_slots pids 0" poll_good for fds pids
  by unfold_locales (rule poll_slots_inv, auto simp: poll_good_def)

subsection \<open>The epoll and kqueue loops\<close>

text \<open>The kernel reports each descriptor at most once per wait, and only those that are registered.\<close>

definition reports :: "('e \<Rightarrow> int) \<Rightarrow> 'e list \<Rightarrow> ev_state \<Rightarrow> bool" where
  "reports fd_of es s \<longleftrightarrow> distinct (map fd_of es) \<and> set (map fd_of es) \<subseteq> set (live s)"

lemma live_remove: "fd \<noteq> -1 \<Longrightarrow> filter (\<lambda>fd. fd \<noteq> -1) (remove1 fd ws) = remove1 fd (filter (\<lambda>fd. fd \<noteq> -1) ws)"
    for ws :: "int list"
  by (induction ws) auto

lemma fold_events_inv:
  assumes step: "\<And>e s. ev_inv fds s \<Longrightarrow> fd_of e \<in> set (live s) \<Longrightarrow>
      ev_inv fds (h e s) \<and> (live (h e s) = live s \<or> live (h e s) = remove1 (fd_of e) (live s))"
  shows "ev_inv fds s \<Longrightarrow> reports fd_of es s \<Longrightarrow> ev_inv fds (fold h es s)"
proof (induction es arbitrary: s)
  case (Cons e es)
  have "distinct (live s)" using Cons.prems(1) by (simp add: ev_inv_def)
  moreover have "live (h e s) = live s \<or> live (h e s) = remove1 (fd_of e) (live s)"
    using Cons.prems step [of s e] by (simp add: reports_def)
  ultimately have "set (live s) - {fd_of e} \<subseteq> set (live (h e s))" by auto
  moreover have "fd_of e \<notin> set (map fd_of es)" "set (map fd_of es) \<subseteq> set (live s)" "distinct (map fd_of es)"
    using Cons.prems(2) by (simp_all add: reports_def)
  ultimately have "reports fd_of es (h e s)" unfolding reports_def by blast
  with Cons step [of s e] show ?case by (simp add: reports_def)
qed simp

lemma epoll_event_inv:
  assumes "ev_inv fds s" and "fst e \<in> set (live s)"
  shows "ev_inv fds (epoll_event all pids e s)
    \<and> (live (epoll_event all pids e s) = live s \<or> live (epoll_event all pids e s) = remove1 (fst e) (live s))"
proof (cases "ev_hup (snd e) \<or> ev_err (snd e)")
  case True
  have "fst e \<noteq> -1" using assms(2) by (simp add: live_def)
  then have l: "live (epoll_event all pids e s) = remove1 (fst e) (live s)"
    using True by (auto simp: epoll_event_def Let_def ev_say_def live_def live_remove)
  with True show ?thesis
    by (auto intro!: ev_inv_close [OF assms] simp: epoll_event_def Let_def ev_say_def)
next
  case False
  with assms show ?thesis by (auto simp: epoll_event_def Let_def ev_say_def live_def intro: ev_inv_same)
qed

lemma kqueue_event_inv:
  assumes "ev_inv fds s" and "fst e \<in> set (live s)"
  shows "ev_inv fds (kqueue_event pids e s)
    \<and> (live (kqueue_event pids e s) = live s \<or> live (kqueue_event pids e s) = remove1 (fst e) (live s))"
proof (cases "ev_err (snd (snd e)) \<or> ev_hup (snd (snd e))")
  case True
  have "fst e \<noteq> -1" using assms(2) by (simp add: live_def)
  then have l: "live (kqueue_event pids e s) = remove1 (fst e) (live s)"
    using True by (auto simp: kqueue_event_def Let_def ev_say_def live_def live_remove)
  with True show ?thesis
    by (auto intro!: ev_inv_close [OF assms] simp: kqueue_event_def Let_def ev_say_def)
next
  case False
  with assms show ?thesis by (auto simp: kqueue_event_def Let_def ev_say_def live_def intro: ev_inv_same)
qed

interpretation epoll_feeds: event_handler fds "epoll_events all pids" "reports fst" for fds all pids
  by unfold_locales (auto simp: epoll_events_def intro!: fold_events_inv [where fd_of = fst] epoll_event_inv)

interpretation kqueue_feeds: event_handler fds "kqueue_events pids" "reports fst" for fds pids
  by unfold_locales (auto simp: kqueue_events_def intro!: fold_events_inv [where fd_of = fst] kqueue_event_inv)

section \<open>Servers that accept and read\<close>

text \<open>
  \<open>demo_poll\<close> of \<^verbatim>\<open>networking/06_select_poll_epoll.cpp\<close>.  An entry of the vector is a descriptor with
  what the kernel reports for it: nothing, or \<open>POLLIN\<close> with what the call that follows returns, the
  new descriptor of \<open>accept\<close> (\<open>None\<close> when it fails) and the bytes of \<open>recv\<close> (\<open>None\<close> for an end of
  file or an error).
\<close>

datatype activity = Idle | Pollin (accepts: "int option") (receives: "string option")

record pollfd =
  pfd_fd :: int
  pfd_act :: activity

record server =
  sv_fds :: "pollfd list"
  sv_closed :: "int list"
  sv_accepted :: "int list"
  sv_data :: "(int \<times> string) list"
  sv_out :: console

text \<open>
  The body of the inner loop at index \<open>i\<close>; \<open>None\<close> for the index means \<open>goto poll_done\<close>.  The test
  \<open>fds[i].fd == srv\<close> decides between accepting and reading.
\<close>

definition serve_entry :: "int \<Rightarrow> nat \<Rightarrow> server \<Rightarrow> nat option \<times> server" where
  "serve_entry srv i s =
     (let e = sv_fds s ! i
      in case pfd_act e of
           Idle \<Rightarrow> (Some (Suc i), s)
         | Pollin a d \<Rightarrow>
             (if pfd_fd e = srv
              then (case a of
                      None \<Rightarrow> (Some (Suc i), s)
                    | Some cli \<Rightarrow>
                        (let fds = sv_fds s @ [\<lparr>pfd_fd = cli, pfd_act = Idle\<rparr>]
                         in (Some (Suc i), s\<lparr>sv_fds := fds, sv_accepted := sv_accepted s @ [cli],
                               sv_out := sv_out s @ [''  poll: accepted fd='' @ dec_int cli
                                 @ '' (total fds='' @ dec_nat (length fds) @ '')'']\<rparr>)))
              else (case d of
                      None \<Rightarrow>
                        (let fds = take i (sv_fds s) @ drop (Suc i) (sv_fds s);
                             t = s\<lparr>sv_fds := fds, sv_closed := sv_closed s @ [pfd_fd e],
                                   sv_out := sv_out s @ [''  poll: fd='' @ dec_int (pfd_fd e) @ '' closed'']\<rparr>
                         in (if length fds = 1 then None else Some i, t))
                    | Some b \<Rightarrow>
                        (Some (Suc i), s\<lparr>sv_data := sv_data s @ [(pfd_fd e, b)],
                           sv_out := sv_out s @ [''  poll: fd='' @ dec_int (pfd_fd e) @ '' data=''
                             @ [CHR 0x27] @ cstr b @ [CHR 0x27]]\<rparr>))))"

definition busy :: "pollfd \<Rightarrow> nat" where
  "busy e = (if pfd_act e = Idle then 1 else 3)"

lemma serve_entry_measure:
  assumes "i < length (sv_fds s)" and "serve_entry srv i s = (Some j, t)"
  shows "sum_list (map busy (drop j (sv_fds t))) < sum_list (map busy (drop i (sv_fds s)))"
proof -
  have d: "drop i (sv_fds s) = sv_fds s ! i # drop (Suc i) (sv_fds s)"
    using assms(1) by (simp add: Cons_nth_drop_Suc)
  show ?thesis
    using assms by (auto simp: serve_entry_def Let_def d busy_def split: activity.splits option.splits if_splits)
qed

function serve_pass :: "int \<Rightarrow> nat \<Rightarrow> server \<Rightarrow> bool \<times> server" where
  "serve_pass srv i s =
     (if i < length (sv_fds s)
      then (case serve_entry srv i s of
              (None, t) \<Rightarrow> (True, t)
            | (Some j, t) \<Rightarrow> serve_pass srv j t)
      else (False, s))"
  by pat_completeness auto
termination
  by (relation "measure (\<lambda>(srv, i, s). sum_list (map busy (drop i (sv_fds s))))")
    (auto dest!: sym [of "(Some _, _)"] dest: serve_entry_measure)

declare serve_pass.simps [simp del]

text \<open>Each \<open>poll\<close> overwrites the reported activity of the entries.\<close>

definition poll_report :: "(int \<Rightarrow> activity) \<Rightarrow> server \<Rightarrow> server" where
  "poll_report act s = s\<lparr>sv_fds := map (\<lambda>e. e\<lparr>pfd_act := act (pfd_fd e)\<rparr>) (sv_fds s)\<rparr>"

text \<open>
  The outer loop: one element per \<open>poll\<close> that returns a positive number; the loop ends when the
  deadline has passed, that is when the list is used up.  Afterwards only \<open>srv\<close> is closed.  The
  flag is whether the loop was left by \<open>goto poll_done\<close>.
\<close>

fun serve_rounds :: "int \<Rightarrow> (int \<Rightarrow> activity) list \<Rightarrow> server \<Rightarrow> bool \<times> server" where
  "serve_rounds srv [] s = (False, s)"
| "serve_rounds srv (act # acts) s =
     (case serve_pass srv 0 (poll_report act s) of (True, t) \<Rightarrow> (True, t) | (False, t) \<Rightarrow> serve_rounds srv acts t)"

definition server_start :: "int \<Rightarrow> server" where
  "server_start srv =
     \<lparr>sv_fds = [\<lparr>pfd_fd = srv, pfd_act = Idle\<rparr>], sv_closed = [], sv_accepted = [], sv_data = [], sv_out = []\<rparr>"

definition demo_poll :: "int \<Rightarrow> (int \<Rightarrow> activity) list \<Rightarrow> server" where
  "demo_poll srv acts =
     (let s = snd (serve_rounds srv acts (server_start srv)) in s\<lparr>sv_closed := sv_closed s @ [srv]\<rparr>)"

subsection \<open>The edge-triggered servers\<close>

text \<open>
  \<open>demo_epoll\<close> and \<open>demo_kqueue\<close>: the same loop with two sets of system calls.  An event names a
  descriptor; on the listening socket \<open>accept\<close> follows, on a client the reads until \<open>EAGAIN\<close>, an end
  of file or an error.
\<close>

datatype drain_end = Drain_Again | Drain_Eof | Drain_Error

record et_event =
  et_fd :: int
  et_accept :: "int option"
  et_chunks :: "string list"
  et_end :: drain_end

datatype et_reply = Et_Timeout | Et_Eintr | Et_Fail | Et_Events "et_event list"

record et_server =
  et_clients :: "int list"
  et_closed :: "int list"
  et_accepted :: "int list"
  et_data :: "(int \<times> string) list"
  et_out :: console

datatype et_flow = Et_Continue et_server | Et_Done et_server | Et_Died string

definition et_say :: "string \<Rightarrow> et_server \<Rightarrow> et_server" where
  "et_say l s = s\<lparr>et_out := et_out s @ [l]\<rparr>"

definition et_read :: "string \<Rightarrow> int \<Rightarrow> string list \<Rightarrow> et_server \<Rightarrow> et_server" where
  "et_read tag fd chunks s =
     s\<lparr>et_data := et_data s @ map (Pair fd) chunks,
       et_out := et_out s @ map (\<lambda>c. ''  '' @ tag @ '': fd='' @ dec_int fd @ '' data='' @ [CHR 0x27] @ cstr c @ [CHR 0x27]) chunks\<rparr>"

definition et_handle :: "string \<Rightarrow> int \<Rightarrow> et_event \<Rightarrow> et_server \<Rightarrow> et_flow" where
  "et_handle tag srv e s =
     (if et_fd e = srv
      then (case et_accept e of
              None \<Rightarrow> Et_Continue s
            | Some cli \<Rightarrow> Et_Continue (et_say (''  '' @ tag @ '': accepted fd='' @ dec_int cli)
                (s\<lparr>et_clients := et_clients s @ [cli], et_accepted := et_accepted s @ [cli]\<rparr>)))
      else
        (let t = et_read tag (et_fd e) (et_chunks e) s
         in case et_end e of
              Drain_Again \<Rightarrow> Et_Continue t
            | Drain_Error \<Rightarrow> Et_Died ''recv''
            | Drain_Eof \<Rightarrow>
                Et_Done (et_say (''  '' @ tag @ '': fd='' @ dec_int (et_fd e) @ '' EOF'')
                  (t\<lparr>et_clients := remove1 (et_fd e) (et_clients t), et_closed := et_closed t @ [et_fd e]\<rparr>))))"

fun et_events :: "string \<Rightarrow> int \<Rightarrow> et_event list \<Rightarrow> et_server \<Rightarrow> et_flow" where
  "et_events tag srv [] s = Et_Continue s"
| "et_events tag srv (e # es) s =
     (case et_handle tag srv e s of Et_Continue t \<Rightarrow> et_events tag srv es t | other \<Rightarrow> other)"

fun et_loop :: "string \<Rightarrow> string \<Rightarrow> int \<Rightarrow> et_reply list \<Rightarrow> nat \<Rightarrow> et_server \<Rightarrow> et_flow" where
  "et_loop tag late srv [] n s = (if n < 10 then Et_Continue s else Et_Done s)"
| "et_loop tag late srv (r # rs) n s =
     (if n < 10 then
        (case r of
           Et_Timeout \<Rightarrow> Et_Done (et_say late s)
         | Et_Eintr \<Rightarrow> et_loop tag late srv rs n s
         | Et_Fail \<Rightarrow> et_loop tag late srv rs (Suc n) s
         | Et_Events es \<Rightarrow>
             (case et_events tag srv es s of
                Et_Continue t \<Rightarrow> et_loop tag late srv rs (Suc n) t
              | other \<Rightarrow> other))
      else Et_Done s)"

definition et_start :: et_server where
  "et_start = \<lparr>et_clients = [], et_closed = [], et_accepted = [], et_data = [], et_out = []\<rparr>"

text \<open>After the loop the multiplexer and the listening socket are closed.\<close>

definition demo_epoll :: "int \<Rightarrow> int \<Rightarrow> et_reply list \<Rightarrow> et_server option" where
  "demo_epoll srv epfd rs =
     (case et_loop ''epoll'' ''  epoll_wait timeout'' srv rs 0 et_start of
        Et_Died msg \<Rightarrow> None
      | Et_Done s \<Rightarrow> Some (s\<lparr>et_closed := et_closed s @ [epfd, srv]\<rparr>)
      | Et_Continue s \<Rightarrow> Some s)"

definition demo_kqueue :: "int \<Rightarrow> int \<Rightarrow> et_reply list \<Rightarrow> et_server option" where
  "demo_kqueue srv kq rs =
     (case et_loop ''kqueue'' ''  kevent timeout'' srv rs 0 et_start of
        Et_Died msg \<Rightarrow> None
      | Et_Done s \<Rightarrow> Some (s\<lparr>et_closed := et_closed s @ [kq, srv]\<rparr>)
      | Et_Continue s \<Rightarrow> Some s)"

subsection \<open>The non-blocking server\<close>

text \<open>
  \<open>nonblocking_server\<close> of \<^verbatim>\<open>networking/03_nonblocking_io.cpp\<close>: the accept loop, then the loop that polls
  and reads until \<open>EAGAIN\<close>.
\<close>

datatype accept_reply = Acc_Timeout | Acc_Eintr | Acc_Again | Acc_Error | Acc_Fd int

datatype accept_end = Accepted int | Accept_Died | Accept_Waiting

fun accept_loop :: "accept_reply list \<Rightarrow> console \<times> accept_end" where
  "accept_loop [] = ([], Accept_Waiting)"
| "accept_loop (r # rs) =
     (case r of
        Acc_Timeout \<Rightarrow> (let (out, e) = accept_loop rs in (''server: poll timeout'' # out, e))
      | Acc_Eintr \<Rightarrow> accept_loop rs
      | Acc_Again \<Rightarrow> accept_loop rs
      | Acc_Error \<Rightarrow> ([], Accept_Died)
      | Acc_Fd fd \<Rightarrow> ([], Accepted fd))"

datatype recv_reply = Rv_Timeout | Rv_Drain "string list" drain_end

datatype recv_stop = Recv_Done | Recv_Died | Recv_Waiting

record recv_end =
  rv_data :: "string list"
  rv_stop :: recv_stop
  rv_out :: console

definition received_line :: "string \<Rightarrow> string" where
  "received_line c = ''server: received ['' @ dec_nat (length c) @ '' bytes] '' @ [CHR 0x27] @ cstr c @ [CHR 0x27]"

fun nb_recv_loop :: "recv_reply list \<Rightarrow> recv_end" where
  "nb_recv_loop [] = \<lparr>rv_data = [], rv_stop = Recv_Waiting, rv_out = []\<rparr>"
| "nb_recv_loop (Rv_Timeout # rs) = \<lparr>rv_data = [], rv_stop = Recv_Done, rv_out = [''server: recv timeout, done'']\<rparr>"
| "nb_recv_loop (Rv_Drain chunks e # rs) =
     (let rest = (case e of
                    Drain_Again \<Rightarrow> nb_recv_loop rs
                  | Drain_Eof \<Rightarrow> \<lparr>rv_data = [], rv_stop = Recv_Done, rv_out = [''server: EOF'']\<rparr>
                  | Drain_Error \<Rightarrow> \<lparr>rv_data = [], rv_stop = Recv_Died, rv_out = []\<rparr>)
      in rest\<lparr>rv_data := chunks @ rv_data rest, rv_out := map received_line chunks @ rv_out rest\<rparr>)"

definition nonblocking_server :: "accept_reply list \<Rightarrow> recv_reply list \<Rightarrow> console \<times> string list" where
  "nonblocking_server accs recvs =
     (case accept_loop accs of
        (out, Accepted fd) \<Rightarrow>
          (let e = nb_recv_loop recvs
           in (''server: waiting for connection (non-blocking accept)'' # out @ [''server: accepted connection''] @ rv_out e
               @ (if rv_stop e \<noteq> Recv_Done then [] else [''server: total messages received: '' @ dec_nat (length (rv_data e))]),
               rv_data e))
      | (out, _) \<Rightarrow> (''server: waiting for connection (non-blocking accept)'' # out, []))"

section \<open>What the servers keep\<close>

text \<open>The listening socket stays first, and every accepted descriptor is in the vector or was closed.\<close>

definition serve_inv :: "int \<Rightarrow> server \<Rightarrow> bool" where
  "serve_inv srv s \<longleftrightarrow> sv_fds s \<noteq> [] \<and> pfd_fd (hd (sv_fds s)) = srv
     \<and> list_all (\<lambda>e. pfd_fd e \<noteq> srv) (tl (sv_fds s))
     \<and> mset (map pfd_fd (tl (sv_fds s))) + mset (sv_closed s) = mset (sv_accepted s)"

definition accept_sane :: "int \<Rightarrow> server \<Rightarrow> bool" where
  "accept_sane srv s \<longleftrightarrow> list_all (\<lambda>e. pfd_fd e = srv \<longrightarrow> pfd_act e \<noteq> Idle \<longrightarrow> accepts (pfd_act e) \<noteq> Some srv) (sv_fds s)"

lemma serve_entry_inv:
  assumes inv: "serve_inv srv s" "accept_sane srv s" and i: "i < length (sv_fds s)"
    and e: "serve_entry srv i s = (j, t)"
  shows "serve_inv srv t \<and> accept_sane srv t \<and> (j = None \<longrightarrow> tl (sv_fds t) = [])"
proof -
  obtain x xs where fds: "sv_fds s = x # xs" and x: "pfd_fd x = srv" using inv(1) by (cases "sv_fds s") (auto simp: serve_inv_def)
  show ?thesis
  proof (cases i)
    case 0
    then show ?thesis
      using inv e fds x by (auto simp: serve_entry_def serve_inv_def accept_sane_def Let_def split: activity.splits option.splits)
  next
    case (Suc k)
    then have k: "k < length xs" using i fds by simp
    then have sp: "xs = take k xs @ xs ! k # drop (Suc k) xs" by (simp add: id_take_nth_drop)
    have other: "pfd_fd (xs ! k) \<noteq> srv" using inv(1) fds k by (simp add: serve_inv_def list_all_length)
    have m: "mset (map pfd_fd xs) = add_mset (pfd_fd (xs ! k)) (mset (map pfd_fd (take k xs @ drop (Suc k) xs)))"
      by (subst sp) simp
    have la: "list_all P (take k xs @ drop (Suc k) xs)" if "list_all P xs" for P
      using that by (auto simp: list_all_iff dest: in_set_takeD in_set_dropD)
    show ?thesis
      using inv e fds Suc k other m la [of "\<lambda>e. pfd_fd e \<noteq> srv"]
        la [of "\<lambda>e. pfd_fd e = srv \<longrightarrow> pfd_act e \<noteq> Idle \<longrightarrow> accepts (pfd_act e) \<noteq> Some srv"]
      by (auto simp: serve_entry_def serve_inv_def accept_sane_def Let_def min_def split: activity.splits option.splits if_splits)
  qed
qed

lemma serve_pass_inv:
  "serve_inv srv s \<Longrightarrow> accept_sane srv s \<Longrightarrow> serve_pass srv i s = (b, t) \<Longrightarrow>
     serve_inv srv t \<and> (b \<longrightarrow> tl (sv_fds t) = [])"
proof (induction srv i s rule: serve_pass.induct)
  case (1 srv i s)
  show ?case
  proof (cases "i < length (sv_fds s)")
    case True
    obtain j u where e: "serve_entry srv i s = (j, u)" by fastforce
    note inv = serve_entry_inv [OF 1(2,3) True e]
    show ?thesis
    proof (cases j)
      case None
      with 1(4) True e inv show ?thesis by (subst (asm) serve_pass.simps) simp
    next
      case (Some k)
      with 1(4) True e have "serve_pass srv k u = (b, t)" by (subst (asm) serve_pass.simps) simp
      with 1(1) [OF True e [symmetric] Some] inv show ?thesis by simp
    qed
  next
    case False
    with 1 show ?thesis by (subst (asm) (2) serve_pass.simps) simp
  qed
qed

lemma report_inv: "serve_inv srv s \<Longrightarrow> serve_inv srv (poll_report act s)"
proof -
  have "map pfd_fd (map (\<lambda>e. e\<lparr>pfd_act := act (pfd_fd e)\<rparr>) xs) = map pfd_fd xs" for xs by simp
  then show "serve_inv srv s \<Longrightarrow> serve_inv srv (poll_report act s)"
    by (cases "sv_fds s") (auto simp: serve_inv_def poll_report_def list_all_iff comp_def)
qed

definition kernel_sane :: "int \<Rightarrow> (int \<Rightarrow> activity) list \<Rightarrow> bool" where
  "kernel_sane srv acts \<longleftrightarrow> list_all (\<lambda>act. act srv \<noteq> Idle \<longrightarrow> accepts (act srv) \<noteq> Some srv) acts"

lemma serve_rounds_inv: "serve_inv srv s \<Longrightarrow> kernel_sane srv acts \<Longrightarrow>
    serve_inv srv (snd (serve_rounds srv acts s)) \<and> (fst (serve_rounds srv acts s) \<longrightarrow> tl (sv_fds (snd (serve_rounds srv acts s))) = [])"
proof (induction acts arbitrary: s)
  case (Cons act acts)
  obtain b t where p: "serve_pass srv 0 (poll_report act s) = (b, t)" by fastforce
  have "accept_sane srv (poll_report act s)"
    using Cons.prems(2) by (auto simp: accept_sane_def poll_report_def kernel_sane_def list_all_iff)
  with serve_pass_inv [OF report_inv [OF Cons.prems(1)] _ p] Cons show ?case
    by (cases b) (auto simp: p kernel_sane_def)
qed simp

text \<open>The same account for the edge-triggered servers.\<close>

definition et_inv :: "et_server \<Rightarrow> bool" where
  "et_inv s \<longleftrightarrow> mset (et_clients s) + mset (et_closed s) = mset (et_accepted s)"

fun et_ok :: "et_flow \<Rightarrow> bool" where
  "et_ok (Et_Continue s) = et_inv s"
| "et_ok (Et_Done s) = et_inv s"
| "et_ok (Et_Died msg) = True"

text \<open>The multiplexer reports only the listening socket and registered clients.\<close>

fun et_reports :: "string \<Rightarrow> int \<Rightarrow> et_event list \<Rightarrow> et_server \<Rightarrow> bool" where
  "et_reports tag srv [] s = True"
| "et_reports tag srv (e # es) s =
     ((et_fd e = srv \<or> et_fd e \<in> set (et_clients s))
      \<and> (case et_handle tag srv e s of Et_Continue t \<Rightarrow> et_reports tag srv es t | _ \<Rightarrow> True))"

fun et_sane :: "string \<Rightarrow> int \<Rightarrow> et_reply list \<Rightarrow> et_server \<Rightarrow> bool" where
  "et_sane tag srv [] s = True"
| "et_sane tag srv (r # rs) s =
     (case r of
        Et_Events es \<Rightarrow> et_reports tag srv es s
          \<and> (case et_events tag srv es s of Et_Continue t \<Rightarrow> et_sane tag srv rs t | _ \<Rightarrow> True)
      | _ \<Rightarrow> et_sane tag srv rs s)"

lemma mset_close: "fd \<in> set cs \<Longrightarrow> mset cs + mset ds = mset as \<Longrightarrow> mset (remove1 fd cs) + mset (ds @ [fd]) = mset as"
  by (metis add_mset_remove_trivial_If mset.simps mset_append mset_remove1 set_mset_mset
      union_mset_add_mset_left union_mset_add_mset_right add.right_neutral)

lemma et_handle_inv:
  assumes "et_inv s" and "et_fd e = srv \<or> et_fd e \<in> set (et_clients s)"
  shows "et_ok (et_handle tag srv e s)"
proof (cases "et_fd e = srv")
  case True
  with assms show ?thesis by (auto simp: et_handle_def et_inv_def et_say_def split: option.splits)
next
  case False
  then have "mset (remove1 (et_fd e) (et_clients s)) + mset (et_closed s @ [et_fd e]) = mset (et_accepted s)"
    using assms by (intro mset_close) (auto simp: et_inv_def)
  with False assms(1) show ?thesis
    by (cases "et_end e") (simp_all add: et_handle_def et_inv_def et_say_def et_read_def Let_def)
qed

lemma et_events_inv: "et_inv s \<Longrightarrow> et_reports tag srv es s \<Longrightarrow> et_ok (et_events tag srv es s)"
proof (induction es arbitrary: s)
  case (Cons e es)
  then show ?case using et_handle_inv [of s e srv tag] by (auto split: et_flow.splits)
qed simp

lemma et_loop_inv: "et_inv s \<Longrightarrow> et_sane tag srv rs s \<Longrightarrow> et_ok (et_loop tag late srv rs n s)"
proof (induction rs arbitrary: n s)
  case (Cons r rs)
  have "et_inv (et_say late s)" using Cons.prems(1) by (simp add: et_inv_def et_say_def)
  with Cons show ?case
    using et_events_inv [of s tag srv] by (cases r) (auto split: et_flow.splits, force+)
qed simp

section \<open>Properties\<close>

definition loop_outcome :: "int list \<Rightarrow> loop_end \<Rightarrow> bool" where
  "loop_outcome fds e =
     (case e of
        Loop_Done t \<Rightarrow> live t = [] \<and> distinct (closed t) \<and> set (closed t) = set fds
      | Loop_Waiting t \<Rightarrow> live t \<noteq> [] \<and> distinct (closed t) \<and> set (live t) \<union> set (closed t) = set fds
          \<and> set (live t) \<inter> set (closed t) = {} \<and> open_count t = int (length (live t))
      | Loop_Died msg \<Rightarrow> True)"

text \<open>
  C40: The three event loops close every feed exactly once.  For any distinct descriptors and any
  sequence of kernel answers that concern open feeds, the \<open>epoll\<close> and the \<open>kqueue\<close> loop end exactly
  when every feed was closed, each by one \<open>close\<close>; while they wait, the counter is the number of
  open feeds, and no closed descriptor is watched.  The \<open>poll\<close> loop does the same as long as no
  answer reports \<open>POLLHUP\<close> and \<open>POLLERR\<close> together for one feed.
\<close>

theorem event_loops_close_once:
  assumes "distinct fds" and "\<forall>fd \<in> set fds. 0 \<le> fd"
  shows "(answers_ok ''  poll timeout (200 ms) - no events'' (poll_slots pids 0) poll_good ws (ev_start fds) \<longrightarrow>
      loop_outcome fds (event_loop fds pids ws))
    \<and> (answers_ok ''  epoll timeout'' (epoll_events fds pids) (reports fst) es (ev_start fds) \<longrightarrow>
      loop_outcome fds (epoll_loop fds pids es))
    \<and> (answers_ok ''  kqueue timeout'' (kqueue_events pids) (reports fst) ks (ev_start fds) \<longrightarrow>
      loop_outcome fds (kqueue_loop fds pids ks))"
  unfolding loop_outcome_def event_loop_def epoll_loop_def kqueue_loop_def
  by (intro conjI impI poll_feeds.loop_correct epoll_feeds.loop_correct kqueue_feeds.loop_correct assms)

definition hangup :: revents where
  "hangup = \<lparr>ev_in = False, ev_hup = True, ev_err = False, ev_chunks = [], ev_broken = False\<rparr>"

definition quiet :: revents where
  "quiet = \<lparr>ev_in = False, ev_hup = False, ev_err = False, ev_chunks = [], ev_broken = False\<rparr>"

theorem event_loops_close_once_witness:
  "distinct [7, 8 :: int]
   \<and> answers_ok ''  poll timeout (200 ms) - no events'' (poll_slots [101, 102] 0) poll_good
       [Wait_Ready [hangup, quiet], Wait_Timeout, Wait_Ready [quiet, hangup]] (ev_start [7, 8])
   \<and> loop_outcome [7, 8] (event_loop [7, 8] [101, 102]
       [Wait_Ready [hangup, quiet], Wait_Timeout, Wait_Ready [quiet, hangup]])"
proof -
  have ok: "answers_ok ''  poll timeout (200 ms) - no events'' (poll_slots [101, 102] 0) poll_good
       [Wait_Ready [hangup, quiet], Wait_Timeout, Wait_Ready [quiet, hangup]] (ev_start [7, 8])"
    by code_simp
  have d: "distinct [7, 8 :: int]" "\<forall>fd \<in> set [7, 8 :: int]. 0 \<le> fd" by auto
  from event_loops_close_once [OF d, of "[101, 102]" "[Wait_Ready [hangup, quiet], Wait_Timeout, Wait_Ready [quiet, hangup]]" "[]" "[]"]
  show ?thesis using ok d by blast
qed

text \<open>
  Descriptors of the servers.  Whatever clients connect, send and disconnect, every descriptor
  that \<open>demo_poll\<close>, \<open>demo_epoll\<close> or \<open>demo_kqueue\<close> accepted is either closed or still in the watched set when the
  function returns, and none is closed twice; the listening socket is always closed.  When
  \<open>demo_poll\<close> leaves because the last client disconnected, nothing stays open.
\<close>

theorem servers_account_for_descriptors:
  assumes "kernel_sane srv acts"
    and "et_sane ''epoll'' srv rs et_start" and "et_sane ''kqueue'' srv ks et_start"
  shows "(let s = demo_poll srv acts
      in mset (map pfd_fd (tl (sv_fds s))) + mset (sv_closed s) = add_mset srv (mset (sv_accepted s)))
    \<and> (fst (serve_rounds srv acts (server_start srv)) \<longrightarrow> tl (sv_fds (demo_poll srv acts)) = [])
    \<and> (et_loop ''epoll'' ''  epoll_wait timeout'' srv rs 0 et_start = Et_Done e \<longrightarrow>
        (\<exists>s. demo_epoll srv epfd rs = Some s \<and> mset (et_clients s) + mset (et_closed s) = {#epfd, srv#} + mset (et_accepted s)))
    \<and> (et_loop ''kqueue'' ''  kevent timeout'' srv ks 0 et_start = Et_Done k \<longrightarrow>
        (\<exists>s. demo_kqueue srv kq ks = Some s \<and> mset (et_clients s) + mset (et_closed s) = {#kq, srv#} + mset (et_accepted s)))"
proof (intro conjI impI)
  have start: "serve_inv srv (server_start srv)" by (simp add: serve_inv_def server_start_def)
  show "let s = demo_poll srv acts
      in mset (map pfd_fd (tl (sv_fds s))) + mset (sv_closed s) = add_mset srv (mset (sv_accepted s))"
    using serve_rounds_inv [OF start assms(1)] by (simp add: demo_poll_def Let_def serve_inv_def)
  have "et_inv et_start" by (simp add: et_inv_def et_start_def)
  then have ok: "et_ok (et_loop tag late srv r 0 et_start)" if "et_sane tag srv r et_start" for tag late r
    using et_loop_inv that by blast
  show "\<exists>s. demo_epoll srv epfd rs = Some s \<and> mset (et_clients s) + mset (et_closed s) = {#epfd, srv#} + mset (et_accepted s)"
    if "et_loop ''epoll'' ''  epoll_wait timeout'' srv rs 0 et_start = Et_Done e"
    using ok [OF assms(2), of "''  epoll_wait timeout''"] that
    by (auto simp: demo_epoll_def et_inv_def add_mset_commute)
  show "\<exists>s. demo_kqueue srv kq ks = Some s \<and> mset (et_clients s) + mset (et_closed s) = {#kq, srv#} + mset (et_accepted s)"
    if "et_loop ''kqueue'' ''  kevent timeout'' srv ks 0 et_start = Et_Done k"
    using ok [OF assms(3), of "''  kevent timeout''"] that
    by (auto simp: demo_kqueue_def et_inv_def add_mset_commute)
  show "tl (sv_fds (demo_poll srv acts)) = []" if "fst (serve_rounds srv acts (server_start srv))"
    using serve_rounds_inv [OF start assms(1)] that by (simp add: demo_poll_def Let_def)
qed

definition visitor :: "int \<Rightarrow> activity" where
  "visitor fd = (if fd = 3 then Pollin (Some 7) None else Idle)"

definition leaver :: "int \<Rightarrow> activity" where
  "leaver fd = (if fd = 7 then Pollin None None else Idle)"

definition connect_event :: "int \<Rightarrow> int \<Rightarrow> et_event" where
  "connect_event srv cli = \<lparr>et_fd = srv, et_accept = Some cli, et_chunks = [], et_end = Drain_Again\<rparr>"

definition eof_event :: "int \<Rightarrow> et_event" where
  "eof_event fd = \<lparr>et_fd = fd, et_accept = None, et_chunks = [''TICK1TICK2''], et_end = Drain_Eof\<rparr>"

theorem servers_account_for_descriptors_witness:
  "kernel_sane 3 [visitor, leaver] \<and> fst (serve_rounds 3 [visitor, leaver] (server_start 3))
   \<and> tl (sv_fds (demo_poll 3 [visitor, leaver])) = []
   \<and> et_sane ''epoll'' 3 [Et_Events [connect_event 3 7], Et_Events [eof_event 7]] et_start
   \<and> et_sane ''kqueue'' 3 [] et_start"
proof -
  have k: "kernel_sane 3 [visitor, leaver]" by code_simp
  have f: "fst (serve_rounds 3 [visitor, leaver] (server_start 3))" by code_simp
  have e: "et_sane ''epoll'' 3 [Et_Events [connect_event 3 7], Et_Events [eof_event 7]] et_start" by code_simp
  have q: "et_sane ''kqueue'' 3 [] et_start" by simp
  from servers_account_for_descriptors [OF k e q] k f e q show ?thesis by blast
qed

text \<open>
  Where the loops go wrong.  When the kernel reports \<open>POLLHUP\<close> and \<open>POLLERR\<close> together, the \<open>poll\<close> loop
  of the feeds counts the feed down twice, calls \<open>close(-1)\<close> and ends while another feed is still
  open.  \<open>demo_poll\<close> leaves a connected client open when its deadline passes, and \<open>demo_epoll\<close> leaves every
  other client open when the first one disconnects.  \<open>nonblocking_server\<close> reports the number of reads
  as the number of messages: two messages that arrive together count as one.
\<close>

theorem event_loop_flaws:
  "(\<exists>t. event_loop [7, 8] [101, 102] [Wait_Ready [hangup\<lparr>ev_err := True\<rparr>, quiet]] = Loop_Done t
      \<and> live t = [8] \<and> closed t = [7, -1])
   \<and> sv_closed (demo_poll 3 [visitor]) = [3] \<and> map pfd_fd (sv_fds (demo_poll 3 [visitor])) = [3, 7]
   \<and> map_option (\<lambda>s. (et_closed s, et_clients s))
       (demo_epoll 3 4 [Et_Events [connect_event 3 7], Et_Events [connect_event 3 9], Et_Events [eof_event 7]])
     = Some ([7, 4, 3], [9])
   \<and> last (fst (nonblocking_server [Acc_Again, Acc_Fd 5]
       [Rv_Drain [''QUOTE AAPL 182.50 182.51TRADE AAPL 182.50 100''] Drain_Eof]))
     = ''server: total messages received: 1''"
proof (intro conjI)
  have "\<exists>t. event_loop [7, 8] [101, 102] [Wait_Ready [hangup\<lparr>ev_err := True\<rparr>, quiet]] = Loop_Done t"
    by (simp add: event_loop_def ev_start_def poll_slot_def poll_in_def poll_hup_def poll_err_def hangup_def quiet_def ev_say_def)
  moreover have "end_state (event_loop [7, 8] [101, 102] [Wait_Ready [hangup\<lparr>ev_err := True\<rparr>, quiet]]) = Some t
      \<Longrightarrow> live t = [8] \<and> closed t = [7, -1]" for t
    by (auto simp: event_loop_def ev_start_def poll_slot_def poll_in_def poll_hup_def poll_err_def hangup_def quiet_def
        ev_say_def live_def)
  ultimately show "\<exists>t. event_loop [7, 8] [101, 102] [Wait_Ready [hangup\<lparr>ev_err := True\<rparr>, quiet]] = Loop_Done t
      \<and> live t = [8] \<and> closed t = [7, -1]" by fastforce
qed code_simp+

end
