(* ===== verification/Trading.thy ===== *)
theory Trading
  imports Complex_Main Prelude "HOL-Library.Multiset"
begin

text \<open>
  The classes under test in \<^verbatim>\<open>testing/\<close>: the limit order book (\<^verbatim>\<open>02_gtest_fixtures.cpp\<close>), the risk engine
  (\<^verbatim>\<open>09_catch2_bdd.cpp\<close>), the order router and the pricing engine with their mocked collaborators
  (\<^verbatim>\<open>07_gmock_actions.cpp\<close>, \<^verbatim>\<open>05_gmock_basics.cpp\<close>), the portfolio and pricing functions
  (\<^verbatim>\<open>01_gtest_basics.cpp\<close>, \<^verbatim>\<open>03_gtest_parameterized.cpp\<close>, \<^verbatim>\<open>04_gtest_death_tests.cpp\<close>, \<^verbatim>\<open>08_catch2_basics.cpp\<close>) and the
  seams of \<^verbatim>\<open>10_testability_patterns.cpp\<close>; with each, its tests as the facts they check.  \<^verbatim>\<open>double\<close> values
  are reals, exceptions and aborts are values of a sum type.
\<close>

section \<open>Failures\<close>

datatype failure = Invalid_Argument string | Runtime_Failure string | Domain_Error string | Aborted string

text \<open>\<^verbatim>\<open>EXPECT_THROW\<close>, \<^verbatim>\<open>EXPECT_NO_THROW\<close> and \<^verbatim>\<open>EXPECT_NEAR\<close>.\<close>

fun throws_invalid :: "failure + 'a \<Rightarrow> bool" where
  "throws_invalid (Inl (Invalid_Argument m)) = True"
| "throws_invalid r = False"

fun throws_domain :: "failure + 'a \<Rightarrow> bool" where
  "throws_domain (Inl (Domain_Error m)) = True"
| "throws_domain r = False"

fun dies :: "failure + 'a \<Rightarrow> bool" where
  "dies (Inl (Aborted m)) = True"
| "dies r = False"

fun no_throw :: "failure + 'a \<Rightarrow> bool" where
  "no_throw (Inr v) = True"
| "no_throw (Inl e) = False"

definition near :: "real \<Rightarrow> real \<Rightarrow> real \<Rightarrow> bool" where
  "near a b eps \<longleftrightarrow> \<bar>a - b\<bar> \<le> eps"

fun result_near :: "failure + real \<Rightarrow> real \<Rightarrow> real \<Rightarrow> bool" where
  "result_near (Inr a) b eps = near a b eps"
| "result_near (Inl e) b eps = False"

text \<open>\<open>Approx(b).epsilon(e)\<close>: the tolerance is relative to the expected value; \<open>margin\<close> is absolute.\<close>

definition approx :: "real \<Rightarrow> real \<Rightarrow> real \<Rightarrow> bool" where
  "approx a b e \<longleftrightarrow> near a b (e * \<bar>b\<bar>)"

fun result_approx :: "failure + real \<Rightarrow> real \<Rightarrow> real \<Rightarrow> bool" where
  "result_approx (Inr a) b e = approx a b e"
| "result_approx (Inl f) b e = False"

section \<open>The order book\<close>

record order =
  oid :: int
  oprice :: real
  oqty :: int

text \<open>
  \<open>std::map<double, std::vector<Order>>\<close> in the order of its keys.  Indexing with a new price inserts a
  level; erasing an order leaves its level behind.
\<close>

type_synonym order_book = "(real \<times> order list) list"

fun push_level :: "order \<Rightarrow> order_book \<Rightarrow> order_book" where
  "push_level x [] = [(oprice x, [x])]"
| "push_level x ((p, xs) # ls) =
     (if oprice x < p then (oprice x, [x]) # (p, xs) # ls
      else if oprice x = p then (p, xs @ [x]) # ls
      else (p, xs) # push_level x ls)"

definition book_add :: "order \<Rightarrow> order_book \<Rightarrow> failure + order_book" where
  "book_add x b = (if oqty x \<le> 0 then Inl (Invalid_Argument ''qty must be positive'') else Inr (push_level x b))"

fun erase_first :: "int \<Rightarrow> order list \<Rightarrow> order list" where
  "erase_first i [] = []"
| "erase_first i (x # xs) = (if oid x = i then xs else x # erase_first i xs)"

fun book_cancel :: "int \<Rightarrow> order_book \<Rightarrow> bool \<times> order_book" where
  "book_cancel i [] = (False, [])"
| "book_cancel i ((p, xs) # ls) =
     (if list_ex (\<lambda>x. oid x = i) xs then (True, (p, erase_first i xs) # ls)
      else (let (ok, ls') = book_cancel i ls in (ok, (p, xs) # ls')))"

definition best_bid :: "order_book \<Rightarrow> failure + real" where
  "best_bid b = (if b = [] then Inl (Runtime_Failure ''empty book'') else Inr (fst (last b)))"

definition depth :: "order_book \<Rightarrow> int" where
  "depth b = fold (\<lambda>(p, xs) total. total + int (length xs)) b 0"

definition resting :: "order_book \<Rightarrow> order list" where
  "resting b = concat (map snd b)"

text \<open>The levels are in increasing order of price, and every order is on the level of its price.\<close>

definition book_inv :: "order_book \<Rightarrow> bool" where
  "book_inv b \<longleftrightarrow> sorted_wrt (<) (map fst b) \<and> (\<forall>(p, xs) \<in> set b. \<forall>x \<in> set xs. oprice x = p \<and> 0 < oqty x)"

datatype book_op = Add order | Cancel int

text \<open>A failed \<open>add\<close> throws and leaves the book as it was.\<close>

fun book_exec :: "book_op \<Rightarrow> order_book \<Rightarrow> order_book" where
  "book_exec (Add x) b = (case book_add x b of Inl e \<Rightarrow> b | Inr b' \<Rightarrow> b')"
| "book_exec (Cancel i) b = snd (book_cancel i b)"

subsection \<open>Specification: a bag of resting orders\<close>

locale resting_orders =
  fixes new_book :: 'b
    and add :: "order \<Rightarrow> 'b \<Rightarrow> failure + 'b"
    and cancel :: "int \<Rightarrow> 'b \<Rightarrow> bool \<times> 'b"
    and invar :: "'b \<Rightarrow> bool"
    and orders :: "'b \<Rightarrow> order multiset"
  assumes new_orders: "orders new_book = {#}" and new_inv: "invar new_book"
    and add_ok: "invar b \<Longrightarrow> 0 < oqty x \<Longrightarrow> \<exists>b'. add x b = Inr b' \<and> invar b' \<and> orders b' = add_mset x (orders b)"
    and add_bad: "oqty x \<le> 0 \<Longrightarrow> \<exists>e. add x b = Inl e"
    and cancel_none: "invar b \<Longrightarrow> (\<forall>x \<in># orders b. oid x \<noteq> i) \<Longrightarrow> cancel i b = (False, b)"
    and cancel_one: "invar b \<Longrightarrow> y \<in># orders b \<Longrightarrow> oid y = i \<Longrightarrow>
      \<exists>b' x. cancel i b = (True, b') \<and> invar b' \<and> oid x = i \<and> x \<in># orders b \<and> orders b' = orders b - {#x#}"
begin

definition run_op :: "book_op \<Rightarrow> 'b \<Rightarrow> 'b" where
  "run_op op b = (case op of Add x \<Rightarrow> (case add x b of Inl e \<Rightarrow> b | Inr b' \<Rightarrow> b') | Cancel i \<Rightarrow> snd (cancel i b))"

lemma run_op_inv: "invar b \<Longrightarrow> invar (run_op op b)"
proof (cases op)
  case (Add x)
  then show "invar b \<Longrightarrow> ?thesis"
    using add_ok [of b x] add_bad [of x b] by (cases "0 < oqty x") (auto simp: run_op_def)
next
  case (Cancel i)
  show "invar b \<Longrightarrow> ?thesis"
  proof (cases "\<exists>y. y \<in># orders b \<and> oid y = i")
    case True
    assume "invar b"
    with True obtain b' where "cancel i b = (True, b')" "invar b'" using cancel_one by blast
    with Cancel show ?thesis by (simp add: run_op_def)
  next
    case False
    assume "invar b"
    with False have "cancel i b = (False, b)" using cancel_none by blast
    with Cancel \<open>invar b\<close> show ?thesis by (simp add: run_op_def)
  qed
qed

lemma run_inv: "invar b \<Longrightarrow> invar (fold run_op ops b)"
  by (induction ops arbitrary: b) (auto simp: run_op_inv)

text \<open>With distinct ids the cancelled order is the one with that id.\<close>

lemma cancel_unique:
  assumes "invar b" and "y \<in># orders b" and "oid y = i" and "\<forall>x \<in># orders b. oid x = i \<longrightarrow> x = y"
  shows "\<exists>b'. cancel i b = (True, b') \<and> invar b' \<and> orders b' = orders b - {#y#}"
  using cancel_one [OF assms(1-3)] assms(4) by metis

end

subsection \<open>The order book implements it\<close>

lemma push_level_mset: "mset (resting (push_level x b)) = add_mset x (mset (resting b))"
  by (induction x b rule: push_level.induct) (auto simp: resting_def)

lemma push_level_keys: "set (map fst (push_level x b)) = insert (oprice x) (set (map fst b))"
  by (induction x b rule: push_level.induct) auto

lemma push_level_inv: "book_inv b \<Longrightarrow> 0 < oqty x \<Longrightarrow> book_inv (push_level x b)"
proof (induction x b rule: push_level.induct)
  case (2 x p xs ls)
  have "book_inv ls" using 2(2) by (auto simp: book_inv_def)
  then show ?case
    using 2 push_level_keys [of x ls] by (fastforce simp: book_inv_def)
qed (simp add: book_inv_def)

lemma erase_first_mset:
  "list_ex (\<lambda>x. oid x = i) xs \<Longrightarrow> \<exists>x. oid x = i \<and> x \<in> set xs \<and> mset (erase_first i xs) = mset xs - {#x#} \<and> set (erase_first i xs) \<subseteq> set xs"
proof (induction xs)
  case (Cons y ys)
  show ?case
  proof (cases "oid y = i")
    case False
    with Cons obtain x where "oid x = i" "x \<in> set ys" "mset (erase_first i ys) = mset ys - {#x#}" "set (erase_first i ys) \<subseteq> set ys"
      by auto
    with False show ?thesis by (intro exI [of _ x]) (auto simp: add_mset_remove_trivial_If)
  qed auto
qed simp

lemma cancel_keys: "map fst (snd (book_cancel i b)) = map fst b"
  by (induction i b rule: book_cancel.induct) (auto split: prod.splits)

lemma cancel_absent: "\<forall>x \<in> set (resting b). oid x \<noteq> i \<Longrightarrow> book_cancel i b = (False, b)"
  by (induction i b rule: book_cancel.induct) (auto simp: resting_def list_ex_iff)

lemma cancel_present:
  "y \<in> set (resting b) \<Longrightarrow> oid y = i \<Longrightarrow> fst (book_cancel i b)
     \<and> (\<exists>x. oid x = i \<and> x \<in> set (resting b) \<and> mset (resting (snd (book_cancel i b))) = mset (resting b) - {#x#})"
proof (induction i b rule: book_cancel.induct)
  case (2 i p xs ls)
  show ?case
  proof (cases "list_ex (\<lambda>x. oid x = i) xs")
    case True
    then obtain x where "oid x = i" "x \<in> set xs" "mset (erase_first i xs) = mset xs - {#x#}"
      using erase_first_mset by blast
    with True show ?thesis by (auto simp: resting_def intro!: exI [of _ x])
  next
    case False
    with 2 have ih: "fst (book_cancel i ls)" "\<exists>x. oid x = i \<and> x \<in> set (resting ls)
        \<and> mset (resting (snd (book_cancel i ls))) = mset (resting ls) - {#x#}"
      by (auto simp: resting_def list_ex_iff)
    then obtain x where x: "oid x = i" "x \<in> set (resting ls)"
        "mset (resting (snd (book_cancel i ls))) = mset (resting ls) - {#x#}" by blast
    have "resting (snd (book_cancel i ((p, xs) # ls))) = xs @ resting (snd (book_cancel i ls))"
      using False by (simp add: resting_def split: prod.splits)
    moreover have "fst (book_cancel i ((p, xs) # ls)) = fst (book_cancel i ls)"
      using False by (simp split: prod.splits)
    moreover have "resting ((p, xs) # ls) = xs @ resting ls" by (simp add: resting_def)
    moreover have "mset xs + (mset (resting ls) - {#x#}) = mset xs + mset (resting ls) - {#x#}"
      using x(2) by (intro diff_union_single_conv [symmetric]) simp
    ultimately have "mset (resting (snd (book_cancel i ((p, xs) # ls)))) = mset (resting ((p, xs) # ls)) - {#x#}"
      using x(3) by simp
    with x ih(1) \<open>fst _ = fst _\<close> \<open>resting ((p, xs) # ls) = _\<close> show ?thesis by auto
  qed
qed (simp add: resting_def)

lemma cancel_orders_subset: "(p, xs) \<in> set (snd (book_cancel i b)) \<Longrightarrow> \<exists>ys. (p, ys) \<in> set b \<and> set xs \<subseteq> set ys"
proof (induction i b rule: book_cancel.induct)
  case (2 i q zs ls)
  then show ?case using erase_first_mset [of i zs] by (fastforce split: if_splits prod.splits)
qed simp

lemma cancel_inv: "book_inv b \<Longrightarrow> book_inv (snd (book_cancel i b))"
  using cancel_orders_subset [of _ _ i b] cancel_keys [of i b] by (fastforce simp: book_inv_def)

interpretation book: resting_orders "[]" book_add book_cancel book_inv "mset \<circ> resting"
proof unfold_locales
  show "\<exists>b' x. book_cancel i b = (True, b') \<and> book_inv b' \<and> oid x = i \<and> x \<in># (mset \<circ> resting) b
      \<and> (mset \<circ> resting) b' = (mset \<circ> resting) b - {#x#}"
    if "book_inv b" "y \<in># (mset \<circ> resting) b" "oid y = i" for b y i
    using that cancel_present [of y b i] cancel_inv [of b i] by (cases "book_cancel i b") auto
next
  show "book_inv []" by (simp add: book_inv_def)
next
  show "(mset \<circ> resting) [] = {#}" by (simp add: resting_def)
qed (auto simp: book_add_def push_level_mset push_level_inv cancel_absent)

subsection \<open>Depth and best bid\<close>

lemma depth_resting: "depth b = int (length (resting b))"
proof -
  have "fold (\<lambda>(p, xs) total. total + int (length xs)) b n = n + int (length (resting b))" for n
    by (induction b arbitrary: n) (auto simp: resting_def)
  then show ?thesis by (simp add: depth_def)
qed

fun valid_prices :: "book_op list \<Rightarrow> real list" where
  "valid_prices [] = []"
| "valid_prices (Add x # ops) = (if 0 < oqty x then [oprice x] else []) @ valid_prices ops"
| "valid_prices (Cancel i # ops) = valid_prices ops"

lemma book_exec_run: "book.run_op = book_exec"
proof (intro ext)
  show "book.run_op op b = book_exec op b" for op b by (cases op) (simp_all add: book.run_op_def)
qed

lemma book_keys: "set (map fst (fold book_exec ops b)) = set (map fst b) \<union> set (valid_prices ops)"
proof (induction ops arbitrary: b)
  case (Cons op ops)
  then show ?case
    using push_level_keys [of _ b] arg_cong [OF cancel_keys [of _ b], of set]
    by (cases op) (auto simp: book_add_def)
qed simp

lemma reachable_book: "book_inv (fold book_exec ops [])"
  using book.run_inv [OF book.new_inv] by (simp add: book_exec_run)

lemma sorted_le_last: "sorted xs \<Longrightarrow> p \<in> set xs \<Longrightarrow> p \<le> last xs" for p :: real
  by (induction xs) auto

lemma best_bid_max:
  assumes "book_inv b" and "b \<noteq> []"
  shows "best_bid b = Inr (Max (set (map fst b)))"
proof -
  have "map fst b \<noteq> []" using assms(2) by simp
  moreover have "sorted (map fst b)" using assms(1) by (simp add: book_inv_def strict_sorted_iff)
  then have "\<forall>p \<in> set (map fst b). p \<le> last (map fst b)"
    using sorted_le_last by blast
  ultimately have "Max (set (map fst b)) = last (map fst b)"
    using last_in_set [of "map fst b"] by (intro Max_eqI) auto
  with assms(2) show ?thesis by (simp add: best_bid_def last_map)
qed

lemma resting_below_best:
  assumes "book_inv b" and "x \<in> set (resting b)"
  shows "oprice x \<in> set (map fst b)"
  using assms by (force simp: book_inv_def resting_def)

section \<open>Risk checks, routing and pricing\<close>

record risk_order =
  ro_id :: int
  ro_symbol :: string
  ro_buy :: bool
  ro_price :: real
  ro_qty :: int

text \<open>\<open>RiskEngine::check\<close>: \<open>None\<close> is approval.\<close>

definition risk_check :: "real \<Rightarrow> risk_order \<Rightarrow> string option" where
  "risk_check max_notional o' =
     (if ro_qty o' \<le> 0 then Some ''qty must be positive''
      else if ro_price o' \<le> 0 then Some ''price must be positive''
      else if ro_price o' * real_of_int (ro_qty o') > max_notional then Some ''notional exceeds limit''
      else None)"

text \<open>
  \<open>IOrderRouter\<close>: the calls a router receives, and what it answers.  The mock answers from a script
  and records its calls; \<open>query\<close> may write a price through its pointer.
\<close>

datatype router_call = Send string int real | Cancel_Call int | Query int

record router =
  calls :: "router_call list"
  send_answers :: "int list"
  cancel_answers :: "bool list"
  query_answers :: "(bool \<times> real option) list"

definition router_send :: "string \<Rightarrow> int \<Rightarrow> real \<Rightarrow> router \<Rightarrow> int \<times> router" where
  "router_send symb q p r =
     (case send_answers r of
        [] \<Rightarrow> (0, r\<lparr>calls := calls r @ [Send symb q p]\<rparr>)
      | a # as \<Rightarrow> (a, r\<lparr>calls := calls r @ [Send symb q p], send_answers := (if as = [] then [a] else as)\<rparr>))"

definition router_cancel :: "int \<Rightarrow> router \<Rightarrow> bool \<times> router" where
  "router_cancel i r =
     (case cancel_answers r of
        [] \<Rightarrow> (False, r\<lparr>calls := calls r @ [Cancel_Call i]\<rparr>)
      | a # as \<Rightarrow> (a, r\<lparr>calls := calls r @ [Cancel_Call i], cancel_answers := (if as = [] then [a] else as)\<rparr>))"

definition router_query :: "int \<Rightarrow> router \<Rightarrow> (bool \<times> real option) \<times> router" where
  "router_query i r =
     (case query_answers r of
        [] \<Rightarrow> ((False, None), r\<lparr>calls := calls r @ [Query i]\<rparr>)
      | a # as \<Rightarrow> (a, r\<lparr>calls := calls r @ [Query i], query_answers := (if as = [] then [a] else as)\<rparr>))"

text \<open>\<open>SmartOrderRouter\<close>.\<close>

definition place :: "string \<Rightarrow> int \<Rightarrow> real \<Rightarrow> router \<Rightarrow> int \<times> router" where
  "place symb q p r = router_send symb q p r"

definition try_cancel :: "int \<Rightarrow> router \<Rightarrow> bool \<times> router" where
  "try_cancel i r = router_cancel i r"

definition amend :: "int \<Rightarrow> string \<Rightarrow> int \<Rightarrow> real \<Rightarrow> router \<Rightarrow> int \<times> router" where
  "amend old_id symb q new_price r = (let (_, r) = router_cancel old_id r in router_send symb q new_price r)"

definition lookup_price :: "int \<Rightarrow> router \<Rightarrow> real \<times> router" where
  "lookup_price i r = (let ((_, out), r) = router_query i r in (case out of None \<Rightarrow> 0 | Some p \<Rightarrow> p, r))"

text \<open>\<open>PricingEngine\<close> over a feed; the flag of the result is whether \<open>get_quote\<close> was called.\<close>

record quote =
  q_symbol :: string
  q_bid :: real
  q_ask :: real

record md_feed =
  is_connected :: bool
  get_quote :: "string \<Rightarrow> quote"
  subscribed :: "string list"

definition mid_price :: "string \<Rightarrow> md_feed \<Rightarrow> real \<times> bool" where
  "mid_price symb f =
     (if \<not> is_connected f then (-1, False)
      else let q = get_quote f symb in ((q_bid q + q_ask q) / 2, True))"

definition watch :: "string \<Rightarrow> md_feed \<Rightarrow> md_feed" where
  "watch symb f = f\<lparr>subscribed := subscribed f @ [symb]\<rparr>"

section \<open>Numeric functions\<close>

definition checked_clamp :: "int \<Rightarrow> int \<Rightarrow> int \<Rightarrow> failure + int" where
  "checked_clamp v lo hi =
     (if lo > hi then Inl (Invalid_Argument ''lo > hi'') else if v < lo then Inr lo else if v > hi then Inr hi else Inr v)"

text \<open>The Black-Scholes price with \<open>std::erfc\<close> as a parameter.\<close>

definition norm_cdf :: "(real \<Rightarrow> real) \<Rightarrow> real \<Rightarrow> real" where
  "norm_cdf erfc x = 1 / 2 * erfc (- x / sqrt 2)"

definition bs_price :: "(real \<Rightarrow> real) \<Rightarrow> real \<Rightarrow> real \<Rightarrow> real \<Rightarrow> real \<Rightarrow> real \<Rightarrow> real" where
  "bs_price erfc S K r sigma T =
     (let d1 = (ln (S / K) + (r + 1 / 2 * sigma * sigma) * T) / (sigma * sqrt T);
          d2 = d1 - sigma * sqrt T
      in S * norm_cdf erfc d1 - K * exp (- r * T) * norm_cdf erfc d2)"

definition bs_call :: "(real \<Rightarrow> real) \<Rightarrow> real \<Rightarrow> real \<Rightarrow> real \<Rightarrow> real \<Rightarrow> real \<Rightarrow> failure + real" where
  "bs_call erfc S K r sigma T =
     (if sigma \<le> 0 \<or> T \<le> 0 then Inl (Invalid_Argument ''sigma and T must be positive'')
      else Inr (bs_price erfc S K r sigma T))"

definition safe_divide :: "real \<Rightarrow> real \<Rightarrow> failure + real" where
  "safe_divide a b = (if b = 0 then Inl (Domain_Error ''division by zero'') else Inr (a / b))"

definition positive_sqrt :: "int \<Rightarrow> failure + int" where
  "positive_sqrt n =
     (if n < 0 then Inl (Aborted ''input must be non-negative'') else Inr \<lfloor>sqrt (real_of_int n)\<rfloor>)"

definition require_positive_price :: "real \<Rightarrow> failure + unit" where
  "require_positive_price p = (if p \<le> 0 then Inl (Aborted ''FATAL: price must be positive'') else Inr ())"

fun weighted_sum :: "real list \<Rightarrow> real list \<Rightarrow> real \<Rightarrow> real" where
  "weighted_sum (w # ws) (r # rs) acc = weighted_sum ws rs (acc + w * r)"
| "weighted_sum ws rs acc = acc"

definition portfolio_return :: "real list \<Rightarrow> real list \<Rightarrow> failure + real" where
  "portfolio_return ws rs =
     (if length ws \<noteq> length rs then Inl (Invalid_Argument ''size mismatch'') else Inr (weighted_sum ws rs 0))"

text \<open>The loops over \<open>i\<close> and \<open>j\<close>; the covariance matrix has at least as many rows and columns as weights.\<close>

definition portfolio_variance :: "real list \<Rightarrow> real list list \<Rightarrow> real" where
  "portfolio_variance w cov =
     (let n = length w
      in foldl (\<lambda>v i. foldl (\<lambda>v j. v + w ! i * w ! j * cov ! i ! j) v [0..<n]) 0 [0..<n])"

definition sharpe_ratio :: "real \<Rightarrow> real \<Rightarrow> real \<Rightarrow> failure + real" where
  "sharpe_ratio ret risk_free vol =
     (if vol \<le> 0 then Inl (Domain_Error ''vol must be positive'') else Inr ((ret - risk_free) / vol))"

text \<open>The \<open>inner_product\<close> version of \<^verbatim>\<open>03_gtest_parameterized.cpp\<close>, with ranges of equal length.\<close>

definition inner_return :: "real list \<Rightarrow> real list \<Rightarrow> real" where
  "inner_return w r = fold (\<lambda>(a, b) acc. acc + a * b) (zip w r) 0"

definition std_clamp :: "int \<Rightarrow> int \<Rightarrow> int \<Rightarrow> int" where
  "std_clamp v lo hi = (if v < lo then lo else if hi < v then hi else v)"

section \<open>Trades and matchers\<close>

record trade =
  t_symbol :: string
  t_price :: real
  t_qty :: int
  t_buy :: bool

definition is_valid_trade :: "trade \<Rightarrow> bool" where
  "is_valid_trade t \<longleftrightarrow> t_price t > 0 \<and> t_qty t > 0"

definition notional_above :: "real \<Rightarrow> trade \<Rightarrow> bool" where
  "notional_above min_notional t \<longleftrightarrow> t_price t * real_of_int (t_qty t) > min_notional"

fun starts_with :: "string \<Rightarrow> string \<Rightarrow> bool" where
  "starts_with [] s = True"
| "starts_with (c # cs) [] = False"
| "starts_with (c # cs) (d # s) = (c = d \<and> starts_with cs s)"

fun has_substr :: "string \<Rightarrow> string \<Rightarrow> bool" where
  "has_substr p [] = (p = [])"
| "has_substr p (c # s) = (starts_with p (c # s) \<or> has_substr p s)"

definition ends_with :: "string \<Rightarrow> string \<Rightarrow> bool" where
  "ends_with p s = starts_with (rev p) (rev s)"

section \<open>Seams\<close>

text \<open>Clocks in microseconds; \<open>FakeClock::advance\<close> takes seconds.\<close>

definition advance :: "int \<Rightarrow> int \<Rightarrow> int" where
  "advance secs t = t + secs * 1000000"

text \<open>\<open>duration_cast<seconds>\<close> truncates towards zero.\<close>

definition trunc_div :: "int \<Rightarrow> int \<Rightarrow> int" where
  "trunc_div a b = sgn a * (\<bar>a\<bar> div b)"

definition stamp :: "int \<Rightarrow> int \<Rightarrow> string" where
  "stamp now i = ''order-'' @ dec_int i @ ''@'' @ dec_int (trunc_div now 1000000)"

definition should_close :: "(int \<Rightarrow> real) \<Rightarrow> real \<Rightarrow> int \<Rightarrow> bool" where
  "should_close unrealised_pnl stop_loss pos \<longleftrightarrow> unrealised_pnl pos < - stop_loss"

definition measure_us :: "(int \<Rightarrow> int) \<Rightarrow> int \<Rightarrow> int" where
  "measure_us fn clock = (let start = clock; clock = fn clock in clock - start)"

definition spy_write :: "string \<Rightarrow> string list \<Rightarrow> string list" where
  "spy_write event entries = entries @ [event]"

definition dummy_write :: "string \<Rightarrow> 'a \<Rightarrow> 'a" where
  "dummy_write event sink = sink"

definition process_order :: "(string \<Rightarrow> 'l \<Rightarrow> 'l) \<Rightarrow> int \<Rightarrow> 'l \<Rightarrow> 'l" where
  "process_order write i sink = write (''processed:'' @ dec_int i) sink"

section \<open>What the functions guarantee\<close>

lemma clamp_bounds: "lo \<le> hi \<Longrightarrow> \<exists>c. checked_clamp v lo hi = Inr c \<and> lo \<le> c \<and> c \<le> hi \<and> (lo \<le> v \<and> v \<le> hi \<longrightarrow> c = v)"
  by (auto simp: checked_clamp_def)

lemma positive_sqrt_floor:
  assumes "0 \<le> n"
  shows "\<exists>k. positive_sqrt n = Inr k \<and> 0 \<le> k \<and> k * k \<le> n \<and> n < (k + 1) * (k + 1)"
proof -
  let ?k = "\<lfloor>sqrt (real_of_int n)\<rfloor>"
  have k0: "0 \<le> ?k" using assms by simp
  have "real_of_int ?k \<le> sqrt (real_of_int n)" by linarith
  then have "real_of_int ?k * real_of_int ?k \<le> sqrt (real_of_int n) * sqrt (real_of_int n)"
    using k0 assms by (intro mult_mono) auto
  then have "real_of_int (?k * ?k) \<le> real_of_int n" using assms by simp
  then have low: "?k * ?k \<le> n" by linarith
  have "0 < real_of_int (?k + 1)" using k0 by linarith
  have "sqrt (real_of_int n) < real_of_int (?k + 1)" by linarith
  then have "sqrt (real_of_int n) * sqrt (real_of_int n) < real_of_int (?k + 1) * real_of_int (?k + 1)"
    using assms \<open>0 < real_of_int (?k + 1)\<close> by (intro mult_strict_mono) auto
  then have "real_of_int n < real_of_int ((?k + 1) * (?k + 1))" using assms by (simp only: of_int_mult) simp
  then have "n < (?k + 1) * (?k + 1)" by linarith
  with low k0 assms show ?thesis by (simp add: positive_sqrt_def)
qed

lemma risk_check_spec: "risk_check limit x = None \<longleftrightarrow> 0 < ro_qty x \<and> 0 < ro_price x \<and> ro_price x * real_of_int (ro_qty x) \<le> limit"
  by (auto simp: risk_check_def)

lemma amend_order: "calls (snd (amend i symb q p r)) = calls r @ [Cancel_Call i, Send symb q p]"
  by (auto simp: amend_def router_cancel_def router_send_def Let_def split: list.splits)

lemma weighted_sum_acc: "weighted_sum ws rs acc = acc + sum_list (map2 (*) ws rs)"
  by (induction ws rs acc rule: weighted_sum.induct) (auto split: list.splits)

lemma foldl_plus: "foldl (\<lambda>v j. v + f j) a xs = a + sum_list (map f xs)" for a :: real
  by (induction xs arbitrary: a) auto

lemma variance_sum: "portfolio_variance w cov = (\<Sum>i<length w. \<Sum>j<length w. w ! i * w ! j * cov ! i ! j)"
  unfolding portfolio_variance_def Let_def foldl_plus
  by (simp add: sum_list_sum_nth atLeast0LessThan interv_sum_list_conv_sum_set_nat)

text \<open>
  With \<open>erfc\<close> between 0 and 2 the price of a call never exceeds the spot price, and never falls below
  the spot's share less the strike.
\<close>

lemma bs_price_bounds:
  assumes "\<forall>x. 0 \<le> erfc x \<and> erfc x \<le> 2" and "0 < S" and "0 < K"
  shows "bs_price erfc S K r sigma T \<le> S" "- (K * exp (- r * T)) \<le> bs_price erfc S K r sigma T"
proof -
  have n: "0 \<le> norm_cdf erfc x" "norm_cdf erfc x \<le> 1" for x
    using assms(1) by (auto simp: norm_cdf_def)
  have a: "0 \<le> S * norm_cdf erfc x" "S * norm_cdf erfc x \<le> S" for x
    using n [of x] assms(2) by (auto simp: mult_left_le)
  have b: "0 \<le> K * exp (- r * T) * norm_cdf erfc x" "K * exp (- r * T) * norm_cdf erfc x \<le> K * exp (- r * T)" for x
    using n [of x] assms(3) by (auto simp: mult_left_le)
  show "bs_price erfc S K r sigma T \<le> S"
    unfolding bs_price_def Let_def using a(2) b(1) by (smt (verit))
  show "- (K * exp (- r * T)) \<le> bs_price erfc S K r sigma T"
    unfolding bs_price_def Let_def using a(1) b(2) by (smt (verit))
qed

section \<open>The tests\<close>

text \<open>The fixture of \<open>OrderBookTest\<close>.\<close>

definition fixture :: order_book where
  "fixture = fold (\<lambda>x. book_exec (Add x))
     [\<lparr>oid = 1, oprice = 99.5, oqty = 100\<rparr>, \<lparr>oid = 2, oprice = 99.75, oqty = 200\<rparr>, \<lparr>oid = 3, oprice = 99.25, oqty = 150\<rparr>] []"

definition order_book_tests :: "bool list" where
  "order_book_tests =
     [best_bid fixture = Inr 99.75,
      depth fixture = 3,
      fst (book_cancel 1 fixture) \<and> depth (snd (book_cancel 1 fixture)) = 2,
      \<not> fst (book_cancel 999 fixture) \<and> depth (snd (book_cancel 999 fixture)) = 3,
      throws_invalid (book_add \<lparr>oid = 4, oprice = 100, oqty = 0\<rparr> fixture)
        \<and> depth (book_exec (Add \<lparr>oid = 4, oprice = 100, oqty = 0\<rparr>) fixture) = 3,
      throws_invalid (book_add \<lparr>oid = 5, oprice = 100, oqty = -10\<rparr> fixture),
      fst (book_cancel 2 fixture) \<and> best_bid (snd (book_cancel 2 fixture)) = Inr 99.5]"

definition clamp_tests :: "bool list" where
  "clamp_tests =
     [checked_clamp 5 0 10 = Inr 5, checked_clamp (-3) 0 10 = Inr 0, checked_clamp 15 0 10 = Inr 10,
      checked_clamp 0 0 10 = Inr 0 \<and> checked_clamp 10 0 10 = Inr 10,
      throws_invalid (checked_clamp 5 10 0), no_throw (checked_clamp 5 0 10)]"

definition bs_throw_tests :: "(real \<Rightarrow> real) \<Rightarrow> bool list" where
  "bs_throw_tests erfc =
     [throws_invalid (bs_call erfc 100 100 0.05 0 1), throws_invalid (bs_call erfc 100 100 0.05 0.2 0),
      no_throw (bs_call erfc 100 100 0.05 0.2 1), \<not> no_throw (bs_call erfc 100 100 0.05 0 1)]"

definition death_tests :: "bool list" where
  "death_tests =
     [throws_domain (safe_divide 1 0), no_throw (safe_divide 10 2), result_near (safe_divide 10 4) 2.5 (1 / 10 ^ 9),
      dies (positive_sqrt (-1)), positive_sqrt 0 = Inr 0,
      dies (require_positive_price 0) \<and> dies (require_positive_price (-1)), no_throw (require_positive_price 100)]"

definition test_feed :: "bool \<Rightarrow> real \<Rightarrow> real \<Rightarrow> md_feed" where
  "test_feed up b a = \<lparr>is_connected = up, get_quote = (\<lambda>symb. \<lparr>q_symbol = symb, q_bid = b, q_ask = a\<rparr>), subscribed = []\<rparr>"

definition pricing_tests :: "bool list" where
  "pricing_tests =
     [near (fst (mid_price ''AAPL'' (test_feed True 149.9 150.1))) 150 (1 / 10 ^ 9),
      mid_price ''AAPL'' (test_feed False 0 0) = (-1, False),
      subscribed (watch ''GOOGL'' (test_feed True 0 0)) = [''GOOGL''],
      snd (mid_price ''X'' (test_feed True 10 10.2)) \<and> snd (mid_price ''X'' (test_feed True 10 10.2)),
      near (fst (mid_price ''Z'' (test_feed True 5 5.1))) 5.05 (1 / 10 ^ 9)]"

definition mock_router :: "int list \<Rightarrow> bool list \<Rightarrow> (bool \<times> real option) list \<Rightarrow> router" where
  "mock_router ss cs qs = \<lparr>calls = [], send_answers = ss, cancel_answers = cs, query_answers = qs\<rparr>"

definition router_tests :: "bool list" where
  "router_tests =
     [(let (a, r) = place ''AAPL'' 100 150 (mock_router [101, 102] [] []);
           (b, r) = place ''AAPL'' 100 151 r in a = 101 \<and> b = 102),
      (let (a, r) = place ''X'' 1 1 (mock_router [1, 999] [] []);
           (b, r) = place ''X'' 1 1 r; (c, r) = place ''X'' 1 1 r in a = 1 \<and> b = 999 \<and> c = 999),
      (let (a, r) = place ''MSFT'' 50 300 (mock_router [42] [] []) in a = 42 \<and> calls r = [Send ''MSFT'' 50 300]),
      fst (lookup_price 7 (mock_router [] [] [(True, Some 195.5)])) = 195.5,
      (let (a, r) = place ''X'' 1 1 (mock_router (map (\<lambda>k. 1000 + k) [1, 2]) [] []);
           (b, r) = place ''Y'' 1 2 r in a = 1001 \<and> b = 1002),
      (let (a, r) = amend 10 ''AAPL'' 100 151 (mock_router [11] [True] [])
       in a = 11 \<and> calls r = [Cancel_Call 10, Send ''AAPL'' 100 151])]"

definition portfolio_tests :: "bool list" where
  "portfolio_tests =
     [result_approx (portfolio_return [0.6, 0.4] [0.1, 0.05]) 0.08 (1 / 10 ^ 9),
      throws_invalid (portfolio_return [0.5, 0.5] [0.1]),
      result_approx (sharpe_ratio 0.12 0.02 0.15) 0.6667 (1 / 10 ^ 4),
      throws_domain (sharpe_ratio 0.12 0.02 0) \<and> no_throw (sharpe_ratio 0.12 0.02 0.15),
      approx (portfolio_variance [0.5, 0.5] [[0.2 * 0.2, 0], [0, 0.3 * 0.3]])
        (0.25 * 0.2 * 0.2 + 0.25 * 0.3 * 0.3) (1 / 10 ^ 9),
      approx (portfolio_variance [0.5, 0.5] [[0.2 * 0.2, 0.2 * 0.3], [0.2 * 0.3, 0.3 * 0.3]])
        ((0.5 * 0.2 + 0.5 * 0.3) * (0.5 * 0.2 + 0.5 * 0.3)) (1 / 10 ^ 9),
      near (portfolio_variance [0.5, 0.5] [[0.2 * 0.2, - 0.2 * 0.2], [- 0.2 * 0.2, 0.2 * 0.2]]) 0 (1 / 10 ^ 12),
      approx 1.001 1 0.01, \<not> approx 1.02 1 0.001, near 0.000001 0 (1 / 10 ^ 5)]"

text \<open>The parameterised and typed suites, and the curve of \<open>PricingCurveTest\<close> between its set-up and tear-down.\<close>

definition clamp_cases :: "(int \<times> int \<times> int \<times> int) list" where
  "clamp_cases = [(5, 0, 10, 5), (-3, 0, 10, 0), (15, 0, 10, 10), (0, 0, 10, 0), (10, 0, 10, 10)]"

definition spot_strike_grid :: "(real \<times> real) list" where
  "spot_strike_grid = List.product [80, 100, 120] [90, 100, 110]"

definition parameterized_tests :: "bool list" where
  "parameterized_tests =
     map (\<lambda>(input, lo, hi, expected). std_clamp input lo hi = expected) clamp_cases
     @ [near (inner_return [0.6, 0.4] [0.1, 0.05]) 0.08 (1 / 10 ^ 5), near (inner_return [] []) 0 (1 / 10 ^ 12)]"

definition curve_value :: real where
  "curve_value = 0.045"

definition curve_tests :: "bool list" where
  "curve_tests = [curve_value > 0, curve_value \<ge> 0 \<and> curve_value \<le> 0.2]"

definition matcher_tests :: "bool list" where
  "matcher_tests =
     (let t = (\<lambda>s p q b. \<lparr>t_symbol = s, t_price = p, t_qty = q, t_buy = b\<rparr>)
      in [t_price (t ''AAPL'' 150 10 True) > 100,
          near (t_price (t ''AAPL'' 150.005 10 True)) 150 0.01,
          has_substr ''TSLA'' ''Trade executed: TSLA 100@200.5'',
          starts_with ''ERROR'' ''ERROR: order rejected by risk'',
          ends_with ''\<newline>'' ''filled 100 shares\<newline>'',
          length [t ''A'' 1 10 True, t ''B'' 2 20 False, t ''C'' 3 30 True] = 3,
          ([] :: trade list) = [],
          list_all (\<lambda>x. t_qty x > 0) [t ''X'' 1 5 True, t ''Y'' 2 10 False],
          list_ex (\<lambda>x. t_symbol x = ''SPY'') [t ''SPY'' 420 100 True, t ''QQQ'' 380 50 False],
          (let x = t ''GOOG'' 2800 5 True in t_symbol x = ''GOOG'' \<and> t_buy x \<and> t_qty x \<ge> 1),
          (let x = t ''AAPL'' 150 10 True in t_buy x \<or> t_qty x > 1000),
          is_valid_trade (t ''SPY'' 420 10 True),
          notional_above 10000 (t ''NVDA'' 800 50 True)])"

definition risk_tests :: "bool list" where
  "risk_tests =
     (let o' = (\<lambda>i s b p q. \<lparr>ro_id = i, ro_symbol = s, ro_buy = b, ro_price = p, ro_qty = q\<rparr>)
      in [risk_check 1000000 (o' 1 ''AAPL'' True 150 100) = None,
          risk_check 1000000 (o' 2 ''AAPL'' True 150 10000) = Some ''notional exceeds limit'',
          risk_check 1000000 (o' 3 ''TSLA'' False 200 0) = Some ''qty must be positive'',
          risk_check 500000 (o' 4 ''SPY'' True 500 1000) = None,
          risk_check 500000 (o' 5 ''SPY'' True 500 1001) \<noteq> None,
          risk_check (10 ^ 12) (o' 6 ''X'' True 0 10) \<noteq> None,
          risk_check (10 ^ 12) (o' 7 ''X'' True (-50) 10) \<noteq> None,
          risk_check (10 ^ 12) (o' 8 ''X'' False 100 (-5)) \<noteq> None])"

definition seam_tests :: "bool list" where
  "seam_tests =
     [stamp 1000000000000 42 = ''order-42@1000000'' \<and> stamp (advance 5 1000000000000) 42 = ''order-42@1000005'',
      should_close (\<lambda>_. -5000) 3000 1, \<not> should_close (\<lambda>_. -1000) 3000 1,
      measure_us (advance 1) 0 = 1000000,
      process_order spy_write 2 (process_order spy_write 1 []) = [''processed:1'', ''processed:2'']]"

lemma fixture_levels:
  "fixture = [(99.25, [\<lparr>oid = 3, oprice = 99.25, oqty = 150\<rparr>]), (99.5, [\<lparr>oid = 1, oprice = 99.5, oqty = 100\<rparr>]),
     (99.75, [\<lparr>oid = 2, oprice = 99.75, oqty = 200\<rparr>])]"
  by (simp add: fixture_def book_add_def)

lemma order_book_test_results: "order_book_tests = [True, True, True, True, True, True, False]"
  by (simp add: order_book_tests_def fixture_levels best_bid_def depth_def book_add_def)

lemma other_test_results:
  "list_all id clamp_tests" "list_all id (bs_throw_tests erfc)" "list_all id death_tests" "list_all id pricing_tests"
  "list_all id router_tests" "list_all id portfolio_tests" "list_all id risk_tests"
proof -
  show "list_all id clamp_tests" by (simp add: clamp_tests_def checked_clamp_def)
  show "list_all id (bs_throw_tests erfc)" by (simp add: bs_throw_tests_def bs_call_def)
  show "list_all id death_tests"
    by (simp add: death_tests_def safe_divide_def near_def positive_sqrt_def require_positive_price_def)
  show "list_all id pricing_tests" by (simp add: pricing_tests_def mid_price_def test_feed_def near_def watch_def)
  show "list_all id router_tests"
    by (simp add: router_tests_def place_def mock_router_def router_send_def lookup_price_def router_query_def amend_def
        router_cancel_def)
  show "list_all id portfolio_tests"
    by (simp add: portfolio_tests_def portfolio_return_def sharpe_ratio_def near_def approx_def portfolio_variance_def)
  show "list_all id risk_tests" by (simp add: risk_tests_def risk_check_def)
qed

lemma suite_test_results: "list_all id parameterized_tests" "list_all id curve_tests" "list_all id matcher_tests"
proof -
  show "list_all id parameterized_tests"
    by (simp add: parameterized_tests_def clamp_cases_def std_clamp_def near_def inner_return_def)
  show "list_all id curve_tests" by (simp add: curve_tests_def curve_value_def)
  show "list_all id matcher_tests"
    by (simp add: matcher_tests_def near_def ends_with_def is_valid_trade_def notional_above_def)
qed

text \<open>The grid of \<open>BSBoundsTest\<close>: the upper bound holds at every point.\<close>

lemma grid_upper_bound:
  "\<forall>y. 0 \<le> erfc y \<and> erfc y \<le> 2 \<Longrightarrow> \<forall>(S, K) \<in> set spot_strike_grid. bs_price erfc S K 0.05 0.2 1 \<le> S"
  using bs_price_bounds(1) [of erfc] by (auto simp: spot_strike_grid_def)

lemma seam_test_results: "list_all id seam_tests"
proof -
  have "stamp 1000000000000 42 = ''order-42@1000000''" "stamp (advance 5 1000000000000) 42 = ''order-42@1000005''"
    by code_simp+
  moreover have "process_order spy_write 2 (process_order spy_write 1 []) = [''processed:1'', ''processed:2'']"
    by code_simp
  ultimately show ?thesis by (simp add: seam_tests_def should_close_def measure_us_def advance_def)
qed

section \<open>Properties\<close>

text \<open>
  C19: From the empty book, after any sequence of adds and cancels, the order book is a bag of resting orders:
  the levels are strictly increasing and hold only positive orders of their own price; \<open>depth\<close> is the
  number of resting orders; an order with a positive quantity is added exactly once and any other is
  rejected with the book unchanged; \<open>cancel\<close> removes exactly one order with the given id when there is one,
  and otherwise returns false and changes nothing.
\<close>

theorem order_book_refines:
  assumes "b = fold book_exec ops []"
  shows "book_inv b \<and> depth b = int (length (resting b))
    \<and> (0 < oqty x \<longrightarrow> (\<exists>b'. book_add x b = Inr b' \<and> mset (resting b') = add_mset x (mset (resting b))))
    \<and> (oqty x \<le> 0 \<longrightarrow> throws_invalid (book_add x b) \<and> book_exec (Add x) b = b)
    \<and> ((\<exists>y \<in> set (resting b). oid y = i) \<longrightarrow>
        (\<exists>b' y. book_cancel i b = (True, b') \<and> oid y = i \<and> y \<in> set (resting b) \<and> mset (resting b') = mset (resting b) - {#y#}))
    \<and> ((\<forall>y \<in> set (resting b). oid y \<noteq> i) \<longrightarrow> book_cancel i b = (False, b))"
proof (intro conjI impI)
  show inv: "book_inv b" using reachable_book assms by simp
  show "depth b = int (length (resting b))" by (rule depth_resting)
  show "\<exists>b'. book_add x b = Inr b' \<and> mset (resting b') = add_mset x (mset (resting b))" if "0 < oqty x"
    using book.add_ok [OF inv that] by auto
  show "throws_invalid (book_add x b)" "book_exec (Add x) b = b" if "oqty x \<le> 0"
    using that by (simp_all add: book_add_def)
  show "\<exists>b' y. book_cancel i b = (True, b') \<and> oid y = i \<and> y \<in> set (resting b) \<and> mset (resting b') = mset (resting b) - {#y#}"
    if "\<exists>y \<in> set (resting b). oid y = i"
    using that book.cancel_one [OF inv] by fastforce
  show "book_cancel i b = (False, b)" if "\<forall>y \<in> set (resting b). oid y \<noteq> i"
    using that by (rule cancel_absent)
qed

theorem order_book_refines_witness:
  "book_inv fixture \<and> depth fixture = int (length (resting fixture))
    \<and> (\<exists>b' y. book_cancel 2 fixture = (True, b') \<and> oid y = 2 \<and> y \<in> set (resting fixture)
         \<and> mset (resting b') = mset (resting fixture) - {#y#})
    \<and> book_cancel 999 fixture = (False, fixture)
    \<and> (\<exists>b'. book_add \<lparr>oid = 7, oprice = 1, oqty = 1\<rparr> fixture = Inr b'
         \<and> mset (resting b') = add_mset \<lparr>oid = 7, oprice = 1, oqty = 1\<rparr> (mset (resting fixture)))
    \<and> throws_invalid (book_add \<lparr>oid = 7, oprice = 1, oqty = 0\<rparr> fixture)"
proof -
  let ?ops = "[Add \<lparr>oid = 1, oprice = 99.5, oqty = 100\<rparr>, Add \<lparr>oid = 2, oprice = 99.75, oqty = 200\<rparr>,
    Add \<lparr>oid = 3, oprice = 99.25, oqty = 150\<rparr>]"
  have b: "fixture = fold book_exec ?ops []" by (simp add: fixture_def)
  have "\<exists>y \<in> set (resting fixture). oid y = 2" "\<forall>y \<in> set (resting fixture). oid y \<noteq> 999"
    by (simp_all add: fixture_levels resting_def)
  then show ?thesis
    using order_book_refines [OF b, of "\<lparr>oid = 7, oprice = 1, oqty = 1\<rparr>" 2]
      order_book_refines [OF b, of "\<lparr>oid = 7, oprice = 1, oqty = 0\<rparr>" 999]
    by simp
qed

text \<open>
  The best bid is the highest price ever added with a positive quantity, whatever was cancelled since:
  \<open>cancel\<close> leaves the emptied level in the map.  So \<open>BestBidUpdatesAfterCancel\<close> fails, and a book
  with no orders left still has a best bid; the other six tests of the suite pass.
\<close>

theorem best_bid_ignores_cancels:
  "best_bid (fold book_exec ops []) =
     (if valid_prices ops = [] then Inl (Runtime_Failure ''empty book'') else Inr (Max (set (valid_prices ops))))
   \<and> order_book_tests = [True, True, True, True, True, True, False]
   \<and> depth (fold book_exec [Add \<lparr>oid = 1, oprice = p, oqty = 1\<rparr>, Cancel 1] []) = 0
   \<and> best_bid (fold book_exec [Add \<lparr>oid = 1, oprice = p, oqty = 1\<rparr>, Cancel 1] []) = Inr p"
proof (intro conjI)
  have k: "set (map fst (fold book_exec ops [])) = set (valid_prices ops)" by (simp add: book_keys del: set_map)
  show "best_bid (fold book_exec ops []) =
     (if valid_prices ops = [] then Inl (Runtime_Failure ''empty book'') else Inr (Max (set (valid_prices ops))))"
  proof (cases "fold book_exec ops [] = []")
    case True
    with k show ?thesis by (simp add: best_bid_def)
  next
    case False
    with k have "valid_prices ops \<noteq> []" by fastforce
    with best_bid_max [OF reachable_book False] k show ?thesis by simp
  qed
  show "depth (fold book_exec [Add \<lparr>oid = 1, oprice = p, oqty = 1\<rparr>, Cancel 1] []) = 0"
    "best_bid (fold book_exec [Add \<lparr>oid = 1, oprice = p, oqty = 1\<rparr>, Cancel 1] []) = Inr p"
    by (simp_all add: book_add_def depth_def best_bid_def)
qed (rule order_book_test_results)

text \<open>
  The functions under test meet their specifications: the risk engine approves exactly the orders with
  positive quantity and price within the notional limit; a clamp lies in its interval and keeps values inside;
  \<open>positive_sqrt\<close> is the integer square root; \<open>amend\<close> cancels before it sends; the variance is the
  double sum; a Black-Scholes call costs at most the spot price whenever \<open>erfc\<close> stays within 0 and 2; and the
  test suites of these functions pass.
\<close>

theorem functions_under_test:
  "(risk_check limit x = None \<longleftrightarrow> 0 < ro_qty x \<and> 0 < ro_price x \<and> ro_price x * real_of_int (ro_qty x) \<le> limit)
   \<and> (lo \<le> hi \<longrightarrow> (\<exists>c. checked_clamp v lo hi = Inr c \<and> lo \<le> c \<and> c \<le> hi \<and> (lo \<le> v \<and> v \<le> hi \<longrightarrow> c = v)))
   \<and> (0 \<le> n \<longrightarrow> (\<exists>k. positive_sqrt n = Inr k \<and> 0 \<le> k \<and> k * k \<le> n \<and> n < (k + 1) * (k + 1)))
   \<and> calls (snd (amend i symb q p r)) = calls r @ [Cancel_Call i, Send symb q p]
   \<and> portfolio_variance w cov = (\<Sum>i<length w. \<Sum>j<length w. w ! i * w ! j * cov ! i ! j)
   \<and> ((\<forall>y. 0 \<le> erfc y \<and> erfc y \<le> 2) \<and> 0 < S \<and> 0 < K \<longrightarrow> bs_price erfc S K rate sigma T \<le> S)
   \<and> list_all id (clamp_tests @ bs_throw_tests erfc @ death_tests @ pricing_tests @ router_tests @ portfolio_tests
      @ risk_tests @ seam_tests @ parameterized_tests @ curve_tests @ matcher_tests)"
  using risk_check_spec clamp_bounds positive_sqrt_floor amend_order variance_sum bs_price_bounds(1)
    other_test_results seam_test_results suite_test_results
  by simp

theorem functions_under_test_witness:
  "(\<exists>c. checked_clamp 15 0 10 = Inr c \<and> 0 \<le> c \<and> c \<le> 10)
    \<and> (\<exists>k. positive_sqrt 10 = Inr k \<and> 0 \<le> k \<and> k * k \<le> 10 \<and> 10 < (k + 1) * (k + 1))
    \<and> bs_price (\<lambda>y. if y < 0 then 2 else if y = 0 then 1 else 0) 100 100 0.05 0.2 1 \<le> 100"
  using functions_under_test [where lo = 0 and hi = 10 and v = 15 and n = 10
    and erfc = "\<lambda>y. if y < 0 then 2 else if y = 0 then 1 else 0" and S = 100 and K = 100
    and rate = "0.05" and sigma = "0.2" and T = 1]
  by auto

end
