(* ===== verification/Transfers.thy ===== *)
theory Transfers
  imports Complex_Main Framing "HOL-Library.Sublist"
begin

text \<open>
  Byte transfers through descriptors: \<open>write_all\<close> and the reading loops of \<^verbatim>\<open>system_calls/01_file_io.cpp\<close> and
  \<^verbatim>\<open>07_pipes_fifo.cpp\<close>, the non-blocking client of \<^verbatim>\<open>networking/03_nonblocking_io.cpp\<close>, \<open>sendfile\<close> and \<open>splice\<close>
  of \<^verbatim>\<open>networking/08_sendfile_zerocopy.cpp\<close>, and the echo servers of \<^verbatim>\<open>networking/07_unix_domain_sockets.cpp\<close> and
  \<^verbatim>\<open>networking/09_io_uring.cpp\<close>.  As in \<^verbatim>\<open>Framing\<close>, what the kernel answers is a parameter: a list of replies,
  one per call; a call beyond the list blocks.
\<close>

section \<open>Writing and reading whole buffers\<close>

text \<open>\<open>write_all\<close>: a short write continues after the bytes written, \<^verbatim>\<open>EINTR\<close> retries, any other error exits.\<close>

definition write_all :: "reply list \<Rightarrow> 'a list \<Rightarrow> io_result \<times> 'a list \<times> reply list" where
  "write_all plan bs = send_loop True plan bs"

text \<open>
  The loop that reads to the end of the stream into a buffer with \<open>room\<close> bytes left.  \<open>read\<close> asked for
  no bytes returns 0, which the loop takes for the end of the stream.
\<close>

fun read_all :: "nat \<Rightarrow> reply list \<Rightarrow> 'a list \<Rightarrow> io_result \<times> 'a list" where
  "read_all room [] inb = (IO_Blocked, [])"
| "read_all room (Moves k # plan) inb =
     (if room = 0 \<or> inb = [] then (IO_Done, [])
      else let n = min (Suc k) (min room (length inb))
           in case read_all (room - n) plan (drop n inb) of (r, got) \<Rightarrow> (r, take n inb @ got))"
| "read_all room (Interrupted # plan) inb = read_all room plan inb"
| "read_all room (Broken # plan) inb = (IO_Error, [])"

text \<open>Several buffers written one after the other.\<close>

fun write_seq :: "reply list \<Rightarrow> 'a list list \<Rightarrow> io_result \<times> 'a list \<times> reply list" where
  "write_seq plan [] = (IO_Done, [], plan)"
| "write_seq plan (b # bs) =
     (case write_all plan b of
        (IO_Done, w, p) \<Rightarrow> (case write_seq p bs of (r, w', p') \<Rightarrow> (r, w @ w', p'))
      | (r, w, p) \<Rightarrow> (r, w, p))"

section \<open>Files and pipes\<close>

text \<open>The lines of \<open>/tmp/prices.csv\<close>: the header and five prices 0.25 apart.\<close>

definition csv_line :: "nat \<Rightarrow> string" where
  "csv_line i = dec_int (1700000000 + int i) @ '','' @ dec_fixed 2 (10000 + 25 * int i) @ nl"

definition csv_lines :: "string list" where
  "csv_lines = (''ts,price'' @ nl) # map csv_line [0..<5]"

definition upto_newline :: "string \<Rightarrow> string" where
  "upto_newline s = takeWhile (\<lambda>c. c \<noteq> CHR 0x0A) s"

text \<open>
  \<open>main\<close> of \<^verbatim>\<open>01_file_io.cpp\<close> up to the append: write the file, read it back into 511 bytes, seek to 9
  and read up to 31 bytes of the first data line, append one line.  The result is what was printed and
  the file.  The single \<open>read\<close> returns \<open>k\<close> bytes at most.
\<close>

definition csv_main :: "reply list \<Rightarrow> reply list \<Rightarrow> nat \<Rightarrow> reply list \<Rightarrow> (nat \<times> string \<times> string \<times> string) option" where
  "csv_main pw pr k pa =
     (case write_seq pw csv_lines of
        (IO_Done, file, _) \<Rightarrow>
          (case read_all 511 pr file of
             (IO_Done, buf) \<Rightarrow>
               (let first_line = upto_newline (take (min k 31) (drop 9 file))
                in case write_all pa (''1700000005,101.25'' @ nl) of
                     (IO_Done, w, _) \<Rightarrow> Some (length buf, buf, first_line, file @ w)
                   | _ \<Rightarrow> None)
           | _ \<Rightarrow> None)
      | _ \<Rightarrow> None)"

text \<open>The anonymous pipe: the parent writes three orders, the child reads to the end of the stream.\<close>

definition orders :: "string list" where
  "orders = [''ORD_001'' @ nl, ''ORD_002'' @ nl, ''ORD_003'' @ nl]"

definition demo_anonymous_pipe :: "reply list \<Rightarrow> reply list \<Rightarrow> string option" where
  "demo_anonymous_pipe pw pr =
     (case write_seq pw orders of
        (IO_Done, wire, _) \<Rightarrow>
          (case read_all 255 pr wire of
             (IO_Done, buf) \<Rightarrow> Some (''  child received '' @ dec_nat (length buf) @ '' bytes: '' @ buf)
           | _ \<Rightarrow> None)
      | _ \<Rightarrow> None)"

definition tick_line :: "nat \<Rightarrow> string" where
  "tick_line i = ''TICK '' @ dec_nat i @ '' '' @ dec_fixed 3 (100000 + 100 * int i) @ nl"

definition demo_fifo :: "reply list \<Rightarrow> reply list \<Rightarrow> string option" where
  "demo_fifo pw pr =
     (case write_seq pw (map tick_line [0..<4]) of
        (IO_Done, wire, _) \<Rightarrow>
          (case read_all 255 pr wire of
             (IO_Done, buf) \<Rightarrow> Some (''  reader: '' @ dec_nat (length buf) @ '' bytes received:'' @ nl @ buf)
           | _ \<Rightarrow> None)
      | _ \<Rightarrow> None)"

text \<open>
  The socket pair: one \<open>read\<close> on each side.  \<open>k\<close> and \<open>j\<close> are the most bytes the child's and the
  parent's \<open>read\<close> return; the reply is cut by \<open>snprintf\<close> at 79 characters.
\<close>

definition demo_socketpair :: "reply list \<Rightarrow> nat \<Rightarrow> reply list \<Rightarrow> nat \<Rightarrow> string option" where
  "demo_socketpair pw k pc j =
     (case write_all pw ''PRICE_REQUEST'' of
        (IO_Done, wire, _) \<Rightarrow>
          (let buf = take (min k 63) wire
           in if buf = [] then Some []
              else case write_all pc (take 79 (''ECHO:'' @ buf)) of
                     (IO_Done, back, _) \<Rightarrow> (let reply = take (min j 79) back in Some (if reply = [] then [] else ''  parent received: '' @ reply))
                   | _ \<Rightarrow> None)
      | _ \<Rightarrow> None)"

section \<open>The non-blocking client\<close>

datatype connect_reply = Connected_Now | In_Progress "int option" | Connect_Error

text \<open>
  The result of \<open>connect\<close>; \<open>In_Progress None\<close> is a poll that times out or fails, \<open>In_Progress (Some e)\<close> is a
  writable socket with \<^verbatim>\<open>SO_ERROR\<close> \<open>e\<close>.  \<open>Inl\<close> is an exit by \<open>die\<close>.
\<close>

datatype connect_end = Ready_To_Send | Gave_Up

definition nonblocking_connect :: "connect_reply \<Rightarrow> string + console \<times> connect_end" where
  "nonblocking_connect r =
     (case r of
        Connected_Now \<Rightarrow> Inr ([''client: connected immediately (unlikely on non-blocking)''], Ready_To_Send)
      | In_Progress None \<Rightarrow> Inl ''poll for connect''
      | In_Progress (Some e) \<Rightarrow>
          (let l = ''client: connect in progress (EINPROGRESS), polling...''
           in if e \<noteq> 0 then Inr ([l], Gave_Up)
              else Inr ([l, ''client: connect completed successfully''], Ready_To_Send))
      | Connect_Error \<Rightarrow> Inl ''connect'')"

definition client_msgs :: "string list" where
  "client_msgs = [''QUOTE AAPL 182.50 182.51'', ''QUOTE MSFT  415.20 415.25'', ''TRADE AAPL 182.50 100'']"

definition quoted :: "string \<Rightarrow> string" where
  "quoted s = CHR 0x27 # s @ [CHR 0x27]"

text \<open>The send loop of the client: \<open>Interrupted\<close> stands for \<^verbatim>\<open>EAGAIN\<close>, which is retried.\<close>

fun nb_send_msgs :: "reply list \<Rightarrow> string list \<Rightarrow> io_result \<times> string \<times> console" where
  "nb_send_msgs plan [] = (IO_Done, [], [])"
| "nb_send_msgs plan (m # ms) =
     (case send_loop True plan m of
        (IO_Done, w, p) \<Rightarrow>
          (case nb_send_msgs p ms of (r, w', out) \<Rightarrow> (r, w @ w', (''client: sent '' @ quoted m) # out))
      | (r, w, p) \<Rightarrow> (r, w, []))"

section \<open>sendfile\<close>

text \<open>
  \<open>create_test_file\<close>: the representation of \<open>double\<close> is a parameter.
\<close>

definition create_test_file :: "(real \<Rightarrow> 'a list) \<Rightarrow> nat \<Rightarrow> 'a list" where
  "create_test_file enc n_prices = concat (map (\<lambda>i. enc (100 + real i * 0.01)) [0..<n_prices])"

text \<open>
  The Linux loop.  The size was taken from \<open>stat\<close> earlier, so the file may be shorter by now: at its end
  \<open>sendfile\<close> returns 0.
\<close>

function sendfile_loop :: "reply list \<Rightarrow> 'a list \<Rightarrow> nat \<Rightarrow> nat \<Rightarrow> io_result \<times> 'a list" where
  "sendfile_loop plan file offset remaining =
     (if remaining = 0 then (IO_Done, [])
      else case plan of
             [] \<Rightarrow> (IO_Blocked, [])
           | Moves k # p \<Rightarrow>
               (let sent = min (Suc k) (min remaining (length file - offset))
                in case sendfile_loop p file (offset + sent) (remaining - sent) of
                     (r, w) \<Rightarrow> (r, take sent (drop offset file) @ w))
           | Interrupted # p \<Rightarrow> sendfile_loop p file offset remaining
           | Broken # p \<Rightarrow> (IO_Error, []))"
  by pat_completeness auto
termination by (relation "measure (\<lambda>(plan, _). length plan)") auto

declare sendfile_loop.simps [simp del]

text \<open>The macOS loop: a call that returns \<^verbatim>\<open>EAGAIN\<close> may have sent bytes, and reports how many.\<close>

datatype mac_reply = Mac_Ok nat | Mac_Again nat | Mac_Fail

definition mac_this_len :: "mac_reply \<Rightarrow> nat" where
  "mac_this_len r = (case r of Mac_Ok k \<Rightarrow> Suc k | Mac_Again k \<Rightarrow> k | Mac_Fail \<Rightarrow> 0)"

function mac_sendfile_loop :: "mac_reply list \<Rightarrow> 'a list \<Rightarrow> nat \<Rightarrow> nat \<Rightarrow> io_result \<times> 'a list" where
  "mac_sendfile_loop plan file offset len =
     (if len = 0 then (IO_Done, [])
      else case plan of
             [] \<Rightarrow> (IO_Blocked, [])
           | rc # p \<Rightarrow>
               if rc = Mac_Fail then (IO_Error, [])
               else let this_len = min (mac_this_len rc) (min len (length file - offset))
                    in case mac_sendfile_loop p file (offset + this_len) (len - this_len) of
                         (r, w) \<Rightarrow> (r, take this_len (drop offset file) @ w))"
  by pat_completeness auto
termination by (relation "measure (\<lambda>(plan, _). length plan)") auto

declare mac_sendfile_loop.simps [simp del]

text \<open>
  The fallback reads blocks of 65536 bytes and sends each once; \<open>ks\<close> says how many bytes each \<open>send\<close>
  accepts.
\<close>

function fallback_loop :: "nat list \<Rightarrow> 'a list \<Rightarrow> 'a list" where
  "fallback_loop ks file =
     (if file = [] then []
      else case ks of
             [] \<Rightarrow> []
           | k # ks' \<Rightarrow> take (min k 65536) (take 65536 file) @ fallback_loop ks' (drop 65536 file))"
  by pat_completeness auto
termination by (relation "measure (\<lambda>(ks, _). length ks)") auto

declare fallback_loop.simps [simp del]

text \<open>\<open>count_receiver\<close>: counts what arrives until the expected number, the end of the stream or an error.\<close>

fun count_receiver :: "nat \<Rightarrow> reply list \<Rightarrow> 'a list \<Rightarrow> nat \<Rightarrow> nat option" where
  "count_receiver expected plan inb tot =
     (if expected \<le> tot then Some tot
      else case plan of
             [] \<Rightarrow> None
           | Moves k # p \<Rightarrow>
               if inb = [] then Some tot
               else let n = min (Suc k) (min 65536 (length inb)) in count_receiver expected p (drop n inb) (tot + n)
           | _ \<Rightarrow> Some tot)"

declare count_receiver.simps [simp del]

section \<open>splice\<close>

text \<open>
  The state of the loop: what is left of the file, what is in the pipe, what reached the socket and the
  variable \<open>remaining\<close>.  A reply gives the bytes each of the two \<open>splice\<close> calls moves at most; a call
  with something to move and room for it moves at least one byte, a call at the end of the file or for
  zero bytes moves none.
\<close>

record 'a splice_state =
  sp_file :: "'a list"
  sp_pipe :: "'a list"
  sp_wire :: "'a list"
  sp_remaining :: nat

datatype splice_reply = Spliced nat nat | File_To_Pipe_Fails | Pipe_To_Sock_Fails nat

definition splice_in :: "nat \<Rightarrow> 'a splice_state \<Rightarrow> nat" where
  "splice_in k s = min (Suc k) (min (sp_remaining s) (length (sp_file s)))"

definition splice_out :: "nat \<Rightarrow> nat \<Rightarrow> nat" where
  "splice_out n j = min (Suc j) n"

text \<open>One pass of the loop.\<close>

definition splice_pass :: "nat \<Rightarrow> nat \<Rightarrow> 'a splice_state \<Rightarrow> 'a splice_state" where
  "splice_pass k j s =
     (let n = splice_in k s;
          pipe = sp_pipe s @ take n (sp_file s);
          m = splice_out n j
      in s\<lparr>sp_file := drop n (sp_file s), sp_pipe := drop m pipe, sp_wire := sp_wire s @ take m pipe,
           sp_remaining := sp_remaining s - m\<rparr>)"

fun splice_loop :: "splice_reply list \<Rightarrow> 'a splice_state \<Rightarrow> io_result \<times> 'a splice_state" where
  "splice_loop plan s =
     (if sp_remaining s = 0 then (IO_Done, s)
      else case plan of
             [] \<Rightarrow> (IO_Blocked, s)
           | Spliced k j # p \<Rightarrow> splice_loop p (splice_pass k j s)
           | File_To_Pipe_Fails # p \<Rightarrow> (IO_Error, s)
           | Pipe_To_Sock_Fails k # p \<Rightarrow>
               (let n = splice_in k s
                in (IO_Error, s\<lparr>sp_file := drop n (sp_file s), sp_pipe := sp_pipe s @ take n (sp_file s)\<rparr>)))"

declare splice_loop.simps [simp del]

definition splice_start :: "'a list \<Rightarrow> 'a splice_state" where
  "splice_start file = \<lparr>sp_file = file, sp_pipe = [], sp_wire = [], sp_remaining = length file\<rparr>"

section \<open>Echo servers without a send loop\<close>

text \<open>
  \<open>stream_server\<close>: each \<open>recv\<close> of up to 255 bytes is sent back by one \<open>send\<close> whose result is ignored.
  A pair \<open>(k, j)\<close> of the plan bounds what that \<open>recv\<close> and that \<open>send\<close> move; when the plan is used up
  the next \<open>recv\<close> fails and the loop ends.
\<close>

fun stream_server :: "(nat \<times> nat) list \<Rightarrow> 'a list \<Rightarrow> 'a list list \<times> 'a list" where
  "stream_server [] inb = ([], [])"
| "stream_server ((k, j) # plan) inb =
     (if inb = [] then ([], [])
      else let buf = take (min (Suc k) 255) inb
           in case stream_server plan (drop (length buf) inb) of
                (got, w) \<Rightarrow> (buf # got, take (Suc j) buf @ w))"

text \<open>\<open>dgram_server\<close>: three datagrams at most, each cut at 255 bytes; an empty one ends the loop.\<close>

fun dgram_loop :: "nat \<Rightarrow> (string \<times> string) list \<Rightarrow> console" where
  "dgram_loop 0 ds = []"
| "dgram_loop (Suc i) [] = []"
| "dgram_loop (Suc i) ((d, path) # ds) =
     (if d = [] then []
      else (''dgram server: '' @ quoted (take 255 d) @ '' from '' @ quoted path) # dgram_loop i ds)"

definition dgram_server :: "(string \<times> string) list \<Rightarrow> console" where
  "dgram_server ds = dgram_loop 3 ds"

definition dgram_client :: "string \<Rightarrow> (string \<times> string) list" where
  "dgram_client path = map (\<lambda>m. (m, path)) [''TICK AAPL 182.50'', ''TICK MSFT 415.20'', ''DONE'']"

section \<open>The io\_uring echo server\<close>

text \<open>
  The server has one operation in flight.  A completion is a failed wait or the result of that operation;
  for a \<open>recv\<close> it carries the bytes, at most 1023 of them.
\<close>

datatype op_tag = Tag_Accept | Tag_Recv | Tag_Send

datatype 'a completion = Wait_Fails | Op_Fails | Accepts int | Receives "'a list" | Sends nat

record 'a uring =
  in_flight :: op_tag
  ctx_buf :: "'a list"
  client_fd :: int
  ur_received :: "'a list list"
  ur_wire :: "'a list"
  ur_closed :: "int list"

definition uring_init :: "'a uring" where
  "uring_init = \<lparr>in_flight = Tag_Accept, ctx_buf = [], client_fd = -1, ur_received = [], ur_wire = [], ur_closed = []\<rparr>"

text \<open>One completion: \<open>Inl\<close> leaves the loop.\<close>

definition uring_step :: "'a completion \<Rightarrow> 'a uring \<Rightarrow> 'a uring + 'a uring" where
  "uring_step c s =
     (case c of
        Wait_Fails \<Rightarrow> Inl s
      | Op_Fails \<Rightarrow> Inl (if in_flight s = Tag_Accept then s else s\<lparr>ur_closed := ur_closed s @ [client_fd s]\<rparr>)
      | Accepts fd \<Rightarrow> Inr (s\<lparr>client_fd := fd, in_flight := Tag_Recv\<rparr>)
      | Receives d \<Rightarrow>
          if d = [] then Inl (s\<lparr>ur_closed := ur_closed s @ [client_fd s]\<rparr>)
          else Inr (s\<lparr>ctx_buf := d, ur_received := ur_received s @ [d], in_flight := Tag_Send\<rparr>)
      | Sends n \<Rightarrow> Inr (s\<lparr>ur_wire := ur_wire s @ take n (ctx_buf s), in_flight := Tag_Recv\<rparr>))"

text \<open>The completion answers the operation in flight.\<close>

fun answers_tag :: "op_tag \<Rightarrow> 'a completion \<Rightarrow> bool" where
  "answers_tag t Wait_Fails = True"
| "answers_tag t Op_Fails = True"
| "answers_tag t (Accepts fd) = (t = Tag_Accept)"
| "answers_tag t (Receives d) = (t = Tag_Recv \<and> length d \<le> 1023)"
| "answers_tag t (Sends n) = (t = Tag_Send)"

text \<open>The loop of 20 iterations, and the closing of the listening socket.\<close>

fun uring_loop :: "nat \<Rightarrow> 'a completion list \<Rightarrow> 'a uring \<Rightarrow> 'a uring option" where
  "uring_loop 0 cs s = Some s"
| "uring_loop (Suc n) [] s = None"
| "uring_loop (Suc n) (c # cs) s = (case uring_step c s of Inl t \<Rightarrow> Some t | Inr t \<Rightarrow> uring_loop n cs t)"

definition io_uring_echo_server :: "int \<Rightarrow> 'a completion list \<Rightarrow> 'a uring option" where
  "io_uring_echo_server srv cs =
     (case uring_loop 20 cs uring_init of None \<Rightarrow> None | Some s \<Rightarrow> Some (s\<lparr>ur_closed := ur_closed s @ [srv]\<rparr>))"

text \<open>The client of that server, against a peer that answers each message with one reply.\<close>

definition uring_msgs :: "string list" where
  "uring_msgs = [''QUOTE AAPL 182.50'', ''TRADE MSFT 100'', ''BYE'']"

definition tcp_client :: "(string \<Rightarrow> string) \<Rightarrow> console" where
  "tcp_client peer =
     map (\<lambda>m. ''  client echo: '' @ quoted (take 255 (peer m))) (filter (\<lambda>m. peer m \<noteq> []) uring_msgs)"

section \<open>Enough progress\<close>

text \<open>
  The replies that let a loop finish: none is an error, and \<open>n\<close> of them move bytes; any number of
  interrupted calls may come between them.
\<close>

definition steady :: "nat \<Rightarrow> reply list \<Rightarrow> bool" where
  "steady n plan \<longleftrightarrow> Broken \<notin> set plan \<and> n \<le> length (filter moves plan)"

lemma steady_Cons:
  "steady n (Moves k # plan) = steady (n - 1) plan"
  "steady n (Interrupted # plan) = steady n plan" "\<not> steady n (Broken # plan)"
  by (auto simp: steady_def)

lemma steady_mono: "steady n plan \<Longrightarrow> m \<le> n \<Longrightarrow> steady m plan"
  by (simp add: steady_def)

definition mac_steady :: "nat \<Rightarrow> mac_reply list \<Rightarrow> bool" where
  "mac_steady n plan \<longleftrightarrow> Mac_Fail \<notin> set plan \<and> n \<le> length (filter (\<lambda>x. 0 < mac_this_len x) plan)"

section \<open>Receivers\<close>

lemma read_all_prefix: "prefix (snd (read_all room plan inb)) (take room inb)"
proof (induction room plan inb rule: read_all.induct)
  case (2 room k plan inb)
  show ?case
  proof (cases "room = 0 \<or> inb = []")
    case False
    let ?n = "min (Suc k) (min room (length inb))"
    have "take room inb = take ?n inb @ take (room - ?n) (drop ?n inb)"
      using take_add [of ?n "room - ?n" inb] by simp
    with 2(1) [OF False refl] False show ?thesis by (simp add: Let_def case_prod_unfold)
  qed auto
qed auto

lemma min_minus_less: "0 < n \<Longrightarrow> min a b < Suc l \<Longrightarrow> 0 < min a b \<Longrightarrow> min (a - n) (b - n) < l" for a b n l :: nat
  unfolding min_diff by linarith

lemma read_all_good:
  "steady (Suc (min room (length inb))) plan \<Longrightarrow> read_all room plan inb = (IO_Done, take room inb)"
proof (induction room plan inb rule: read_all.induct)
  case (2 room k plan inb)
  show ?case
  proof (cases "room = 0 \<or> inb = []")
    case False
    define n where "n = min (Suc k) (min room (length inb))"
    have n: "0 < n" "n \<le> room" using False by (auto simp: n_def)
    have "Suc (min (room - n) (length inb - n)) \<le> min room (length inb)"
      using min_minus_less [OF n(1), of room "length inb" "min room (length inb)"] False by simp
    with 2(2) have "steady (Suc (min (room - n) (length (drop n inb)))) plan"
      by (auto simp: steady_Cons elim: steady_mono)
    then have "read_all (room - n) plan (drop n inb) = (IO_Done, take (room - n) (drop n inb))"
      by (rule 2(1) [OF False n_def])
    moreover have "take room inb = take n inb @ take (room - n) (drop n inb)"
      using take_add [of n "room - n" inb] n(2) by simp
    ultimately show ?thesis using False unfolding read_all.simps n_def [symmetric] Let_def by simp
  qed auto
qed (auto simp: steady_def)

lemma count_receiver_good:
  "list_all moves plan \<Longrightarrow> tot + length inb = expected \<Longrightarrow> length inb \<le> length plan \<Longrightarrow>
     count_receiver expected plan inb tot = Some expected"
proof (induction plan arbitrary: inb tot)
  case Nil
  then show ?case by (simp add: count_receiver.simps)
next
  case (Cons r plan)
  then obtain k where r: "r = Moves k" by (cases r) auto
  show ?case
  proof (cases "inb = []")
    case False
    let ?n = "min (Suc k) (min 65536 (length inb))"
    have "count_receiver expected plan (drop ?n inb) (tot + ?n) = Some expected"
      using Cons.prems False by (intro Cons.IH) auto
    with r False Cons.prems(2) show ?thesis by (subst count_receiver.simps) (simp add: Let_def)
  qed (use Cons.prems(2) in \<open>simp add: count_receiver.simps\<close>)
qed

section \<open>Senders that lose nothing\<close>

text \<open>
  What a complete send loop promises: whatever the replies, a prefix of the bytes is on the wire, and all of
  them when it returns; and with as many progressing replies as bytes, interrupted calls between them
  or not, it returns.
\<close>

locale reliable_sender =
  fixes run :: "'r list \<Rightarrow> 'a list \<Rightarrow> io_result \<times> 'a list" and enough :: "nat \<Rightarrow> 'r list \<Rightarrow> bool"
  assumes sends_prefix: "prefix (snd (run plan bs)) bs"
    and done_all: "fst (run plan bs) = IO_Done \<Longrightarrow> snd (run plan bs) = bs"
    and progress: "enough (length bs) plan \<Longrightarrow> fst (run plan bs) = IO_Done"
begin

lemma delivers: "enough (length bs) plan \<Longrightarrow> run plan bs = (IO_Done, bs)"
  using progress done_all by (metis prod.collapse)

lemma read_back:
  assumes "enough (length bs) plan" and "steady (Suc (length bs)) pr"
  shows "read_all room pr (snd (run plan bs)) = (IO_Done, take room bs)"
  using delivers [OF assms(1)] read_all_good [OF steady_mono [OF assms(2)], of room bs] by simp

lemma counted:
  assumes "enough (length bs) plan" and "list_all moves pr" and "length bs \<le> length pr"
  shows "count_receiver (length bs) pr (snd (run plan bs)) 0 = Some (length bs)"
  using delivers [OF assms(1)] count_receiver_good [of pr 0 bs "length bs"] assms(2,3) by simp

end

definition write_run :: "reply list \<Rightarrow> 'a list \<Rightarrow> io_result \<times> 'a list" where
  "write_run plan bs = (case write_all plan bs of (r, w, p) \<Rightarrow> (r, w))"

lemma write_all_prefix: "write_all plan bs = (r, w, p) \<Longrightarrow> prefix w bs \<and> (r = IO_Done \<longrightarrow> w = bs)"
  using send_loop_prefix [of True plan bs r w p] by (auto simp: write_all_def prefix_def)

lemma send_loop_steady:
  "steady (length bs + extra) plan \<Longrightarrow> \<exists>p. send_loop True plan bs = (IO_Done, bs, p) \<and> steady extra p"
proof (induction True plan bs rule: send_loop.induct)
  case (3 k plan b bs)
  let ?n = "min (Suc k) (length (b # bs))"
  have "steady (length (drop ?n (b # bs)) + extra) plan"
    using 3(2) by (auto simp: steady_Cons elim: steady_mono)
  with 3(1) [OF refl] obtain p where "send_loop True plan (drop ?n (b # bs)) = (IO_Done, drop ?n (b # bs), p)"
    "steady extra p" by blast
  then show ?case by (simp add: Let_def del: drop_Suc_Cons take_Suc_Cons min_Suc_Suc)
qed (auto simp: steady_def)

lemma write_all_good:
  "steady (length bs + extra) plan \<Longrightarrow> \<exists>p. write_all plan bs = (IO_Done, bs, p) \<and> steady extra p"
  unfolding write_all_def by (rule send_loop_steady)

interpretation file_writer: reliable_sender write_run steady
proof unfold_locales
  show "prefix (snd (write_run plan bs)) bs" for plan and bs :: "'b list"
    using write_all_prefix [of plan bs] by (auto simp: write_run_def split: prod.splits)
  show "fst (write_run plan bs) = IO_Done \<Longrightarrow> snd (write_run plan bs) = bs" for plan and bs :: "'b list"
    using write_all_prefix [of plan bs] by (auto simp: write_run_def split: prod.splits)
  show "steady (length bs) plan \<Longrightarrow> fst (write_run plan bs) = IO_Done" for plan and bs :: "'b list"
    using write_all_good [of bs 0 plan] by (auto simp: write_run_def)
qed

subsection \<open>sendfile\<close>

text \<open>
  Both loops from an offset: a prefix of what remains, all of it on return; and they cannot return when
  the file has become shorter than \<open>stat\<close> said.
\<close>

lemma sendfile_moves:
  "0 < m \<Longrightarrow> sendfile_loop (Moves k # plan) file offset m =
     (let sent = min (Suc k) (min m (length file - offset))
      in case sendfile_loop plan file (offset + sent) (m - sent) of (r, w) \<Rightarrow> (r, take sent (drop offset file) @ w))"
  by (subst sendfile_loop.simps) simp

lemma sendfile_other:
  "sendfile_loop (Interrupted # plan) file offset m = (if m = 0 then (IO_Done, []) else sendfile_loop plan file offset m)"
  "sendfile_loop (Broken # plan) file offset m = (if m = 0 then (IO_Done, []) else (IO_Error, []))"
  by (subst sendfile_loop.simps, simp)+

lemma sendfile_prefix:
  "offset + m \<le> length file \<Longrightarrow> sendfile_loop plan file offset m = (r, w) \<Longrightarrow>
     prefix w (take m (drop offset file)) \<and> (r = IO_Done \<longrightarrow> w = take m (drop offset file))"
proof (induction plan arbitrary: offset m r w)
  case Nil
  then show ?case by (auto simp: sendfile_loop.simps split: if_splits)
next
  case (Cons x plan)
  show ?case
  proof (cases "m = 0")
    case False
    show ?thesis
    proof (cases x)
      case (Moves k)
      define n where "n = min (Suc k) (min m (length file - offset))"
      have n: "n \<le> m" "offset + n + (m - n) \<le> length file" using Cons.prems(1) by (auto simp: n_def)
      obtain r' w' where w': "sendfile_loop plan file (offset + n) (m - n) = (r', w')" by fastforce
      have "sendfile_loop (x # plan) file offset m = (r', take n (drop offset file) @ w')"
        using False w' by (simp add: Moves sendfile_moves n_def [symmetric] Let_def)
      with Cons.prems(2) have "r = r'" "w = take n (drop offset file) @ w'" by simp_all
      moreover have "take m (drop offset file) = take n (drop offset file) @ take (m - n) (drop (offset + n) file)"
        using take_add [of n "m - n" "drop offset file"] n(1) by (simp add: add.commute)
      ultimately show ?thesis using Cons.IH [OF n(2) w'] by simp
    qed (use Cons False in \<open>auto simp: sendfile_other\<close>)
  qed (use Cons.prems in \<open>simp add: sendfile_loop.simps\<close>)
qed

lemma sendfile_good:
  "steady m plan \<Longrightarrow> offset + m \<le> length file \<Longrightarrow> fst (sendfile_loop plan file offset m) = IO_Done"
proof (induction plan arbitrary: offset m)
  case Nil
  then show ?case by (simp add: sendfile_loop.simps steady_def)
next
  case (Cons x plan)
  show ?case
  proof (cases x)
    case (Moves k)
    define n where "n = min (Suc k) (min m (length file - offset))"
    show ?thesis
    proof (cases "m = 0")
      case False
      have n: "0 < n" "n \<le> m" using False Cons.prems(2) by (auto simp: n_def)
      have "steady (m - 1) plan" using Cons.prems(1) by (simp add: Moves steady_Cons)
      then have "steady (m - n) plan" by (rule steady_mono) (use n in simp)
      then have "fst (sendfile_loop plan file (offset + n) (m - n)) = IO_Done"
        using Cons.prems(2) n by (intro Cons.IH) auto
      with False show ?thesis by (simp add: Moves sendfile_moves n_def [symmetric] Let_def case_prod_unfold)
    qed (simp add: sendfile_loop.simps)
  qed (use Cons in \<open>auto simp: sendfile_other steady_Cons\<close>)
qed

lemma sendfile_stuck:
  "offset \<le> length file \<Longrightarrow> length file < offset + m \<Longrightarrow> fst (sendfile_loop plan file offset m) \<noteq> IO_Done"
proof (induction plan arbitrary: offset m)
  case Nil
  then show ?case by (auto simp: sendfile_loop.simps)
next
  case (Cons x plan)
  show ?case
  proof (cases x)
    case (Moves k)
    define n where "n = min (Suc k) (min m (length file - offset))"
    have "n \<le> length file - offset" by (simp add: n_def)
    then have "fst (sendfile_loop plan file (offset + n) (m - n)) \<noteq> IO_Done"
      using Cons.prems by (intro Cons.IH) auto
    moreover have "0 < m" using Cons.prems by simp
    ultimately show ?thesis by (simp add: Moves sendfile_moves n_def [symmetric] Let_def case_prod_unfold)
  qed (use Cons in \<open>auto simp: sendfile_other split: if_splits\<close>)
qed

text \<open>The macOS loop is the Linux loop, with a reply that may move nothing when it says \<^verbatim>\<open>EAGAIN\<close>.\<close>

lemma mac_prefix:
  "offset + m \<le> length file \<Longrightarrow> mac_sendfile_loop plan file offset m = (r, w) \<Longrightarrow>
     prefix w (take m (drop offset file)) \<and> (r = IO_Done \<longrightarrow> w = take m (drop offset file))"
proof (induction plan arbitrary: offset m r w)
  case Nil
  then show ?case by (auto simp: mac_sendfile_loop.simps split: if_splits)
next
  case (Cons x plan)
  show ?case
  proof (cases "m = 0 \<or> x = Mac_Fail")
    case False
    define n where "n = min (mac_this_len x) (min m (length file - offset))"
    have n: "n \<le> m" "offset + n + (m - n) \<le> length file" using Cons.prems(1) by (auto simp: n_def)
    obtain r' w' where w': "mac_sendfile_loop plan file (offset + n) (m - n) = (r', w')" by fastforce
    have "mac_sendfile_loop (x # plan) file offset m = (r', take n (drop offset file) @ w')"
      using False w' unfolding mac_sendfile_loop.simps [of "x # plan"]
      by (simp add: n_def [symmetric] Let_def)
    with Cons.prems(2) have "r = r'" "w = take n (drop offset file) @ w'" by simp_all
    moreover have "take m (drop offset file) = take n (drop offset file) @ take (m - n) (drop (offset + n) file)"
      using take_add [of n "m - n" "drop offset file"] n(1) by (simp add: add.commute)
    ultimately show ?thesis using Cons.IH [OF n(2) w'] by simp
  qed (use Cons.prems in \<open>auto simp: mac_sendfile_loop.simps split: if_splits\<close>)
qed

lemma mac_good:
  "mac_steady m plan \<Longrightarrow> offset + m \<le> length file \<Longrightarrow> fst (mac_sendfile_loop plan file offset m) = IO_Done"
proof (induction plan arbitrary: offset m)
  case Nil
  then show ?case by (simp add: mac_sendfile_loop.simps mac_steady_def)
next
  case (Cons x plan)
  then have x: "x \<noteq> Mac_Fail" by (auto simp: mac_steady_def)
  define n where "n = min (mac_this_len x) (min m (length file - offset))"
  show ?case
  proof (cases "m = 0")
    case False
    have "0 < mac_this_len x \<Longrightarrow> 0 < n" "n \<le> m" using False Cons.prems by (auto simp: n_def)
    then have "mac_steady (m - n) plan" using Cons.prems(1) by (auto simp: mac_steady_def split: if_splits)
    then have "fst (mac_sendfile_loop plan file (offset + n) (m - n)) = IO_Done"
      using Cons.prems(2) \<open>n \<le> m\<close> by (intro Cons.IH) auto
    with False x show ?thesis unfolding mac_sendfile_loop.simps [of "x # plan"]
      by (simp add: n_def [symmetric] Let_def case_prod_unfold)
  qed (simp add: mac_sendfile_loop.simps)
qed

interpretation linux: reliable_sender "\<lambda>plan file. sendfile_loop plan file 0 (length file)" steady
proof unfold_locales
  fix plan and bs :: "'b list"
  obtain r w where w: "sendfile_loop plan bs 0 (length bs) = (r, w)" by fastforce
  show "prefix (snd (sendfile_loop plan bs 0 (length bs))) bs"
    "fst (sendfile_loop plan bs 0 (length bs)) = IO_Done \<Longrightarrow> snd (sendfile_loop plan bs 0 (length bs)) = bs"
    using sendfile_prefix [OF _ w] w by auto
qed (simp add: sendfile_good)

interpretation mac: reliable_sender "\<lambda>plan file. mac_sendfile_loop plan file 0 (length file)" mac_steady
proof unfold_locales
  fix plan and bs :: "'b list"
  obtain r w where w: "mac_sendfile_loop plan bs 0 (length bs) = (r, w)" by fastforce
  show "prefix (snd (mac_sendfile_loop plan bs 0 (length bs))) bs"
    "fst (mac_sendfile_loop plan bs 0 (length bs)) = IO_Done \<Longrightarrow> snd (mac_sendfile_loop plan bs 0 (length bs)) = bs"
    using mac_prefix [OF _ w] w by auto
qed (simp add: mac_good)

subsection \<open>splice\<close>

text \<open>
  Nothing is lost or reordered: wire, pipe and file concatenate to the original file, and \<open>remaining\<close>
  counts what is not on the wire.
\<close>

definition splice_inv :: "'a list \<Rightarrow> 'a splice_state \<Rightarrow> bool" where
  "splice_inv file s \<longleftrightarrow> file = sp_wire s @ sp_pipe s @ sp_file s \<and> sp_remaining s = length (sp_pipe s) + length (sp_file s)"

lemma splice_pass_inv:
  assumes "splice_inv file s"
  shows "splice_inv file (splice_pass k j s)" and "length (sp_pipe s) \<le> length (sp_pipe (splice_pass k j s))"
    and "sp_pipe s \<noteq> [] \<Longrightarrow> sp_pipe (splice_pass k j s) \<noteq> []"
proof -
  define n m where "n = splice_in k s" and "m = splice_out n j"
  have nm: "m \<le> n" "n \<le> length (sp_file s)"
    by (simp add: m_def splice_out_def, simp add: n_def splice_in_def)
  let ?p = "sp_pipe s @ take n (sp_file s)"
  have pass: "splice_pass k j s = s\<lparr>sp_file := drop n (sp_file s), sp_pipe := drop m ?p, sp_wire := sp_wire s @ take m ?p,
           sp_remaining := sp_remaining s - m\<rparr>"
    by (simp add: splice_pass_def n_def m_def Let_def)
  have "take m ?p @ drop m ?p @ drop n (sp_file s) = ?p @ drop n (sp_file s)" by (simp only: append_assoc [symmetric] append_take_drop_id)
  then have "sp_wire s @ take m ?p @ drop m ?p @ drop n (sp_file s) = file"
    using assms by (simp add: splice_inv_def)
  moreover show len: "length (sp_pipe s) \<le> length (sp_pipe (splice_pass k j s))" using nm by (simp add: pass)
  ultimately show "splice_inv file (splice_pass k j s)"
    using assms nm by (simp add: pass splice_inv_def)
  show "sp_pipe (splice_pass k j s) \<noteq> []" if "sp_pipe s \<noteq> []"
    using len that by (cases "sp_pipe (splice_pass k j s)") simp_all
qed

lemma splice_loop_stop: "sp_remaining s = 0 \<Longrightarrow> splice_loop plan s = (IO_Done, s)"
  by (simp add: splice_loop.simps)

lemma splice_loop_cons:
  assumes "sp_remaining s \<noteq> 0"
  shows "splice_loop [] s = (IO_Blocked, s)"
    and "splice_loop (Spliced k j # plan) s = splice_loop plan (splice_pass k j s)"
    and "splice_loop (File_To_Pipe_Fails # plan) s = (IO_Error, s)"
    and "splice_loop (Pipe_To_Sock_Fails k # plan) s =
      (IO_Error, s\<lparr>sp_file := drop (splice_in k s) (sp_file s), sp_pipe := sp_pipe s @ take (splice_in k s) (sp_file s)\<rparr>)"
  using assms by (subst splice_loop.simps, simp add: Let_def)+

lemma splice_loop_inv:
  "splice_inv file s \<Longrightarrow> splice_loop plan s = (r, t) \<Longrightarrow>
     file = sp_wire t @ sp_pipe t @ sp_file t \<and> (r = IO_Done \<longrightarrow> sp_wire t = file)"
proof (induction plan arbitrary: s)
  case Nil
  then show ?case
    by (cases "sp_remaining s = 0") (auto simp: splice_loop_stop splice_loop_cons(1) splice_inv_def)
next
  case (Cons x plan)
  show ?case
  proof (cases "sp_remaining s = 0")
    case True
    with Cons.prems show ?thesis by (auto simp: splice_loop_stop splice_inv_def)
  next
    case False
    show ?thesis
    proof (cases x)
      case (Spliced k j)
      with Cons.prems(2) splice_loop_cons(2) [OF False] have "splice_loop plan (splice_pass k j s) = (r, t)" by simp
      then show ?thesis by (rule Cons.IH [OF splice_pass_inv(1) [OF Cons.prems(1)]])
    qed (use Cons.prems splice_loop_cons(3,4) [OF False] in \<open>auto simp: splice_inv_def\<close>)
  qed
qed

text \<open>A byte left in the pipe stays there: the loop can then never return normally.\<close>

lemma splice_stuck:
  "splice_inv file s \<Longrightarrow> sp_pipe s \<noteq> [] \<Longrightarrow> fst (splice_loop plan s) \<noteq> IO_Done"
proof (induction plan arbitrary: s)
  case Nil
  then show ?case by (simp add: splice_loop_cons(1) splice_inv_def)
next
  case (Cons x plan)
  from Cons.prems have r: "sp_remaining s \<noteq> 0" by (simp add: splice_inv_def)
  show ?case
  proof (cases x)
    case (Spliced k j)
    with Cons.IH [OF splice_pass_inv(1,3) [OF Cons.prems(1)]] Cons.prems(2) r show ?thesis by (simp add: splice_loop_cons(2))
  qed (simp_all add: splice_loop_cons(3,4) r)
qed

text \<open>When every splice into the socket moves all it was asked to, the loop empties the file.\<close>

fun full_splice :: "splice_reply \<Rightarrow> bool" where
  "full_splice (Spliced k j) = (k \<le> j)"
| "full_splice _ = False"

lemma splice_good:
  "splice_inv file s \<Longrightarrow> sp_pipe s = [] \<Longrightarrow> list_all full_splice plan \<Longrightarrow> sp_remaining s \<le> length plan \<Longrightarrow>
     fst (splice_loop plan s) = IO_Done"
proof (induction plan arbitrary: s)
  case Nil
  then show ?case by (subst splice_loop.simps) simp
next
  case (Cons x plan)
  then obtain k j where x: "x = Spliced k j" "k \<le> j" by (cases x) auto
  show ?case
  proof (cases "sp_remaining s = 0")
    case False
    have "splice_out (splice_in k s) j = splice_in k s" using x(2) by (auto simp: splice_in_def splice_out_def)
    moreover have "0 < splice_in k s" using False Cons.prems(1,2) by (auto simp: splice_in_def splice_inv_def)
    moreover have "splice_in k s \<le> length (sp_file s)" by (simp add: splice_in_def)
    ultimately have "sp_pipe (splice_pass k j s) = []" "sp_remaining (splice_pass k j s) \<le> length plan"
      using Cons.prems(2,4) by (auto simp: splice_pass_def Let_def)
    then have "fst (splice_loop plan (splice_pass k j s)) = IO_Done"
      using Cons.prems splice_pass_inv(1) by (intro Cons.IH) auto
    with False x show ?thesis by (simp add: splice_loop_cons(2))
  qed (simp add: splice_loop_stop)
qed

lemma splice_start_inv: "splice_inv file (splice_start file)"
  by (simp add: splice_inv_def splice_start_def)

subsection \<open>Single sends\<close>

lemma stream_server_cons:
  assumes "inb \<noteq> []"
  obtains buf where "buf = take (min (Suc k) 255) inb" "length buf \<le> Suc k"
    "stream_server ((k, j) # plan) inb
       = (buf # fst (stream_server plan (drop (length buf) inb)), take (Suc j) buf @ snd (stream_server plan (drop (length buf) inb)))"
  using assms that [of "take (min (Suc k) 255) inb"] by (simp add: Let_def case_prod_unfold)

lemma stream_server_echo:
  "(\<exists>rest. inb = concat (fst (stream_server plan inb)) @ rest)
     \<and> subseq (snd (stream_server plan inb)) (concat (fst (stream_server plan inb)))
     \<and> ((\<forall>(k, j) \<in> set plan. k \<le> j) \<longrightarrow> snd (stream_server plan inb) = concat (fst (stream_server plan inb)))"
proof (induction plan arbitrary: inb)
  case (Cons x plan)
  obtain k j where x: "x = (k, j)" by fastforce
  show ?case
  proof (cases "inb = []")
    case False
    obtain buf where b: "buf = take (min (Suc k) 255) inb" "length buf \<le> Suc k"
      "stream_server ((k, j) # plan) inb
         = (buf # fst (stream_server plan (drop (length buf) inb)), take (Suc j) buf @ snd (stream_server plan (drop (length buf) inb)))"
      using stream_server_cons [OF False] by blast
    have "inb = buf @ drop (length buf) inb" unfolding b(1) by (simp add: min_def)
    moreover have "subseq (take (Suc j) buf) buf" by (simp add: take_is_prefix prefix_imp_subseq)
    moreover obtain rest where "drop (length buf) inb = concat (fst (stream_server plan (drop (length buf) inb))) @ rest"
      using Cons.IH [of "drop (length buf) inb"] by blast
    ultimately have "inb = concat (fst (stream_server (x # plan) inb)) @ rest"
      by (metis append.assoc b(3) concat.simps(2) fst_conv x)
    moreover have "subseq (snd (stream_server (x # plan) inb)) (concat (fst (stream_server (x # plan) inb)))"
      using Cons.IH [of "drop (length buf) inb"] \<open>subseq _ buf\<close>
      unfolding x b(3) fst_conv snd_conv concat.simps by (intro list_emb_append_mono) simp_all
    moreover have "snd (stream_server (x # plan) inb) = concat (fst (stream_server (x # plan) inb))"
      if "\<forall>(k, j) \<in> set (x # plan). k \<le> j"
    proof -
      have "snd (stream_server plan (drop (length buf) inb)) = concat (fst (stream_server plan (drop (length buf) inb)))"
        using Cons.IH [of "drop (length buf) inb"] that by auto
      moreover have "take (Suc j) buf = buf" using b(2) that x by simp
      ultimately show ?thesis unfolding x b(3) by simp
    qed
    ultimately show ?thesis by blast
  qed (simp add: x)
qed simp

lemma fallback_complete: "\<forall>k \<in> set ks. 65536 \<le> k \<Longrightarrow> length fl \<le> length ks \<Longrightarrow> fallback_loop ks fl = fl"
proof (induction ks fl rule: fallback_loop.induct)
  case (1 ks fl)
  show ?case
  proof (cases "fl = []")
    case False
    then obtain k ks' where ks: "ks = k # ks'" using 1(3) by (cases ks) auto
    have "fallback_loop ks' (drop 65536 fl) = drop 65536 fl"
      using 1(2,3) ks False by (intro 1(1) [OF False ks]) auto
    moreover have "take (min k 65536) (take 65536 fl) = take 65536 fl" using 1(2) ks by simp
    ultimately show ?thesis using False ks by (subst fallback_loop.simps) simp
  qed (simp add: fallback_loop.simps)
qed

subsection \<open>The io\_uring server\<close>

fun uring_sane :: "'a completion list \<Rightarrow> 'a uring \<Rightarrow> bool" where
  "uring_sane [] s = True"
| "uring_sane (c # cs) s =
     (answers_tag (in_flight s) c \<and> (case uring_step c s of Inl t \<Rightarrow> True | Inr t \<Rightarrow> uring_sane cs t))"

fun full_sends :: "'a completion list \<Rightarrow> 'a uring \<Rightarrow> bool" where
  "full_sends [] s = True"
| "full_sends (c # cs) s =
     ((case c of Sends n \<Rightarrow> length (ctx_buf s) \<le> n | _ \<Rightarrow> True)
      \<and> (case uring_step c s of Inl t \<Rightarrow> True | Inr t \<Rightarrow> full_sends cs t))"

text \<open>The wire holds every message but the one whose \<open>send\<close> is in flight.\<close>

definition uring_inv :: "'a uring \<Rightarrow> bool" where
  "uring_inv s \<longleftrightarrow>
     (if in_flight s = Tag_Send
      then \<exists>ms. ur_received s = ms @ [ctx_buf s] \<and> ur_wire s = concat ms
      else ur_wire s = concat (ur_received s))"

lemma uring_inv_init: "uring_inv uring_init"
  by (simp add: uring_inv_def uring_init_def)

lemma uring_step_inv:
  assumes "uring_inv s" and "answers_tag (in_flight s) c" and "case c of Sends n \<Rightarrow> length (ctx_buf s) \<le> n | _ \<Rightarrow> True"
  shows "case uring_step c s of Inl t \<Rightarrow> uring_inv t \<and> ur_closed t \<in> {ur_closed s, ur_closed s @ [client_fd t]}
    | Inr t \<Rightarrow> uring_inv t \<and> ur_closed t = ur_closed s"
  using assms by (cases c) (auto simp: uring_step_def uring_inv_def)

lemma uring_loop_inv:
  "uring_inv s \<Longrightarrow> uring_sane cs s \<Longrightarrow> full_sends cs s \<Longrightarrow> uring_loop n cs s = Some t \<Longrightarrow>
     uring_inv t \<and> ur_closed t \<in> {ur_closed s, ur_closed s @ [client_fd t]}"
proof (induction n cs s rule: uring_loop.induct)
  case (3 n c cs s)
  have step: "case uring_step c s of Inl t \<Rightarrow> uring_inv t \<and> ur_closed t \<in> {ur_closed s, ur_closed s @ [client_fd t]}
    | Inr t \<Rightarrow> uring_inv t \<and> ur_closed t = ur_closed s"
    using 3(2,3,4) by (intro uring_step_inv) auto
  show ?case
  proof (cases "uring_step c s")
    case (Inl u)
    with step 3(5) show ?thesis by simp
  next
    case (Inr u)
    with step have "uring_inv u" "ur_closed u = ur_closed s" by simp_all
    with Inr 3 show ?thesis by simp
  qed
qed auto

lemma uring_inv_prefix: "uring_inv s \<Longrightarrow> prefix (ur_wire s) (concat (ur_received s)) \<and> (in_flight s \<noteq> Tag_Send \<longrightarrow> ur_wire s = concat (ur_received s))"
  by (auto simp: uring_inv_def split: if_splits)

subsection \<open>The programs\<close>

lemma write_seq_good:
  "steady (length (concat bs) + extra) plan \<Longrightarrow>
     \<exists>p. write_seq plan bs = (IO_Done, concat bs, p) \<and> steady extra p"
proof (induction bs arbitrary: plan)
  case (Cons b bs)
  then obtain p where p: "write_all plan b = (IO_Done, b, p)" "steady (length (concat bs) + extra) p"
    using write_all_good [of b "length (concat bs) + extra" plan] by (auto simp: add.assoc)
  with Cons.IH [of p] show ?case by auto
qed simp

lemma csv_text:
  "concat csv_lines = ''ts,price'' @ nl @ ''1700000000,100.00'' @ nl @ ''1700000001,100.25'' @ nl @ ''1700000002,100.50'' @ nl
     @ ''1700000003,100.75'' @ nl @ ''1700000004,101.00'' @ nl"
  by code_simp

lemma upto_newline_cut:
  assumes "CHR 0x0A \<notin> set l" and "length l < n"
  shows "upto_newline (take (min k n) (l @ nl @ rest)) = take k l"
proof (cases "k \<le> length l")
  case True
  then have "take (min k n) (l @ nl @ rest) = take k l" using assms(2) by simp
  moreover have "\<forall>c \<in> set (take k l). c \<noteq> CHR 0x0A" using assms(1) by (metis in_set_takeD)
  ultimately show ?thesis by (simp only: upto_newline_def takeWhile_eq_all_conv)
next
  case False
  then obtain m where "take (min k n) (l @ nl @ rest) = l @ CHR 0x0A # take m rest"
    using assms(2) by (cases "min k n - length l") (auto simp: nl_def)
  moreover have "\<forall>c \<in> set l. c \<noteq> CHR 0x0A" using assms(1) by metis
  ultimately show ?thesis using False by (simp add: upto_newline_def takeWhile_append2)
qed

lemma csv_first_line: "upto_newline (take (min k 31) (drop 9 (concat csv_lines))) = take k ''1700000000,100.00''"
proof -
  have "drop 9 (concat csv_lines) = ''1700000000,100.00'' @ nl @ drop 27 (concat csv_lines)"
    unfolding csv_text nl_def by simp
  then show ?thesis by (simp only:) (rule upto_newline_cut, simp_all)
qed

lemma csv_main_result:
  assumes "steady 99 pw" "steady 100 pr" "steady 18 pa"
  shows "csv_main pw pr k pa
    = Some (99, concat csv_lines, take k ''1700000000,100.00'', concat csv_lines @ ''1700000005,101.25'' @ nl)"
proof -
  have len: "length (concat csv_lines) = 99" by (simp add: csv_text nl_def del: concat.simps)
  obtain p where w: "write_seq pw csv_lines = (IO_Done, concat csv_lines, p)"
    using write_seq_good [of csv_lines 0 pw] assms(1) len by auto
  have r: "read_all 511 pr (concat csv_lines) = (IO_Done, concat csv_lines)"
    using read_all_good [of 511 "concat csv_lines" pr] assms(2) len by simp
  have "length (''1700000005,101.25'' @ nl) = 18" by (simp add: nl_def)
  then have "steady (length (''1700000005,101.25'' @ nl) + 0) pa" using assms(3) by (simp only: add_0_right)
  from write_all_good [OF this] obtain q
    where a: "write_all pa (''1700000005,101.25'' @ nl) = (IO_Done, ''1700000005,101.25'' @ nl, q)" by blast
  from w r a len csv_first_line show ?thesis by (simp add: csv_main_def Let_def)
qed

lemma pipe_results:
  assumes "steady 60 pw" "steady 61 pr"
  shows "demo_anonymous_pipe pw pr = Some (''  child received 24 bytes: '' @ concat orders)"
    and "demo_fifo pw pr = Some (''  reader: 60 bytes received:'' @ nl @ concat (map tick_line [0..<4]))"
proof -
  have len: "length (concat orders) = 24" "length (concat (map tick_line [0..<4])) = 60" by code_simp+
  have "''24'' = dec_nat 24" "''60'' = dec_nat 60" by code_simp+
  obtain p where p: "write_seq pw orders = (IO_Done, concat orders, p)"
    using write_seq_good [of orders 0 pw] steady_mono [OF assms(1), of 24] len by auto
  obtain q where q: "write_seq pw (map tick_line [0..<4]) = (IO_Done, concat (map tick_line [0..<4]), q)"
    using write_seq_good [of "map tick_line [0..<4]" 0 pw] assms(1) len by auto
  have "read_all 255 pr (concat orders) = (IO_Done, concat orders)"
    using read_all_good [of 255 "concat orders" pr] steady_mono [OF assms(2), of 25] len by simp
  then show "demo_anonymous_pipe pw pr = Some (''  child received 24 bytes: '' @ concat orders)"
    using p len \<open>''24'' = dec_nat 24\<close> by (simp add: demo_anonymous_pipe_def)
  have "read_all 255 pr (concat (map tick_line [0..<4])) = (IO_Done, concat (map tick_line [0..<4]))"
    using read_all_good [of 255 "concat (map tick_line [0..<4])" pr] assms(2) len by simp
  then show "demo_fifo pw pr = Some (''  reader: 60 bytes received:'' @ nl @ concat (map tick_line [0..<4]))"
    using q len \<open>''60'' = dec_nat 60\<close> by (simp add: demo_fifo_def del: upt_rec_numeral)
qed

lemma socketpair_result:
  assumes "steady 13 pw" "steady 18 pc"
  shows "demo_socketpair pw k pc j = Some (if k = 0 \<or> j = 0 then []
    else ''  parent received: '' @ take j (''ECHO:'' @ take k ''PRICE_REQUEST''))"
proof -
  define req where "req = ''PRICE_REQUEST''"
  have req: "length req = 13" "req \<noteq> []" by (simp_all add: req_def)
  obtain p where p: "write_all pw req = (IO_Done, req, p)"
    using write_all_good [of req 0 pw] assms(1) req by auto
  have k: "take (min k 63) req = take k req" using req by (simp add: min_def)
  define answer where "answer = ''ECHO:'' @ take k req"
  have len: "length answer \<le> 18" "answer \<noteq> []" using req by (simp_all add: answer_def)
  then have whole: "take 79 answer = answer" by simp
  have j: "take (min j 79) answer = take j answer" using len(1) by (simp add: min_def)
  obtain q where q: "write_all pc answer = (IO_Done, answer, q)"
    using write_all_good [of answer 0 pc] steady_mono [OF assms(2) len(1)] by auto
  have "demo_socketpair pw k pc j = Some (if k = 0 \<or> j = 0 then [] else ''  parent received: '' @ take j answer)"
    unfolding demo_socketpair_def req_def [symmetric] Let_def p prod.case io_result.case k
      answer_def [symmetric] whole q j
    using req(2) len(2) by simp
  then show ?thesis by (simp only: answer_def req_def)
qed

lemma nb_send_good:
  "steady (length (concat ms)) plan \<Longrightarrow>
     nb_send_msgs plan ms = (IO_Done, concat ms, map (\<lambda>m. ''client: sent '' @ quoted m) ms)"
proof (induction ms arbitrary: plan)
  case (Cons m ms)
  then obtain p where "send_loop True plan m = (IO_Done, m, p)" "steady (length (concat ms)) p"
    using send_loop_steady [of m "length (concat ms)" plan] by auto
  with Cons.IH [of p] show ?case by simp
qed simp

lemma test_file_size: "(\<And>x. length (enc x) = 8) \<Longrightarrow> length (create_test_file enc n) = 8 * n"
  by (simp add: create_test_file_def length_concat comp_def sum_list_triv)

text \<open>The datagram server sees the client's three datagrams whole; no two are merged, unlike on a stream.\<close>

lemma dgram_run:
  "dgram_server (dgram_client path) =
     map (\<lambda>m. ''dgram server: '' @ quoted m @ '' from '' @ quoted path) [''TICK AAPL 182.50'', ''TICK MSFT 415.20'', ''DONE'']"
  by (simp add: dgram_server_def dgram_client_def numeral_eq_Suc)

lemma tcp_client_echo: "tcp_client (\<lambda>m. m) = map (\<lambda>m. ''  client echo: '' @ quoted m) uring_msgs"
  by (simp add: tcp_client_def uring_msgs_def)

lemma connect_succeeds:
  "(\<exists>out. nonblocking_connect c = Inr (out, Ready_To_Send)) \<longleftrightarrow> c = Connected_Now \<or> c = In_Progress (Some 0)"
  by (auto simp: nonblocking_connect_def Let_def split: connect_reply.splits option.splits if_splits)

section \<open>Properties\<close>



text \<open>
  \<open>splice\<close> through the pipe keeps the bytes in order whatever the kernel answers, and a loop that returns has
  put the whole file on the socket.  It returns when every splice into the socket moves all it was given.
  After one short splice into the socket it never returns: the bytes left in the pipe are never sent, and
  the loop spins once the file is used up.  \<open>sendfile\<close> of a file that has become shorter than its recorded
  size never returns either.
\<close>

theorem splice_complete_or_stuck:
  shows "(splice_loop plan (splice_start src) = (r, s) \<longrightarrow>
        src = sp_wire s @ sp_pipe s @ sp_file s \<and> (r = IO_Done \<longrightarrow> sp_wire s = src))
    \<and> (list_all full_splice plan \<and> length src \<le> length plan \<longrightarrow> fst (splice_loop plan (splice_start src)) = IO_Done)
    \<and> (Suc j < splice_in k (splice_start src) \<longrightarrow> fst (splice_loop (Spliced k j # plan) (splice_start src)) \<noteq> IO_Done)
    \<and> (length src < fsize \<longrightarrow> fst (sendfile_loop replies src 0 fsize) \<noteq> IO_Done)"
proof (intro conjI impI)
  show "src = sp_wire s @ sp_pipe s @ sp_file s" "r = IO_Done \<Longrightarrow> sp_wire s = src"
    if "splice_loop plan (splice_start src) = (r, s)"
    using splice_loop_inv [OF splice_start_inv that] by blast+
  show "fst (splice_loop plan (splice_start src)) = IO_Done" if "list_all full_splice plan \<and> length src \<le> length plan"
    using that by (intro splice_good [OF splice_start_inv]) (simp_all add: splice_start_def)
  show "fst (splice_loop (Spliced k j # plan) (splice_start src)) \<noteq> IO_Done" if "Suc j < splice_in k (splice_start src)"
  proof -
    let ?s = "splice_start src"
    have "sp_remaining ?s \<noteq> 0" "sp_pipe ?s = []" using that by (auto simp: splice_in_def splice_start_def)
    moreover have "splice_in k ?s \<le> length (sp_file ?s)" by (simp add: splice_in_def)
    ultimately have "sp_pipe (splice_pass k j ?s) \<noteq> []"
      using that by (auto simp: splice_pass_def Let_def splice_out_def)
    with \<open>sp_remaining ?s \<noteq> 0\<close> show ?thesis
      using splice_stuck [OF splice_pass_inv(1) [OF splice_start_inv]] by (simp add: splice_loop_cons(2))
  qed
  show "fst (sendfile_loop replies src 0 fsize) \<noteq> IO_Done" if "length src < fsize"
    using sendfile_stuck [of 0 src fsize] that by simp
qed

theorem splice_complete_or_stuck_witness:
  "fst (splice_loop [Spliced 3 9, Spliced 3 9, Spliced 3 9, Spliced 0 0, Spliced 0 0, Spliced 0 0] (splice_start ''ABCDEF'')) = IO_Done
   \<and> fst (splice_loop [Spliced 9 1, Spliced 9 9, Spliced 9 9] (splice_start ''ABCDEF'')) \<noteq> IO_Done
   \<and> fst (sendfile_loop [Moves 9, Moves 9] ''ABCDEF'' 0 8) \<noteq> IO_Done"
  using splice_complete_or_stuck [of "[Spliced 3 9, Spliced 3 9, Spliced 3 9, Spliced 0 0, Spliced 0 0, Spliced 0 0]" "''ABCDEF''"]
    splice_complete_or_stuck [of "[Spliced 9 9, Spliced 9 9]" "''ABCDEF''" _ _ 1 9 8 "[Moves 9, Moves 9]"]
  by (auto simp: splice_in_def splice_start_def)

text \<open>
  The echo servers that send each buffer once.  \<open>stream_server\<close> reads the stream in order; what it sends
  back is a subsequence of what it read, and equal to it when no \<open>send\<close> is short.  The \<open>io_uring\<close> server has on the wire
  every message it received except one whose send is in flight, when no send is short, and has closed
  the client at most once; but a short send is not resumed, and leaving by the iteration
  limit leaks the client and drops the message in flight.
\<close>

theorem single_send_echo:
  "(\<exists>rest. inb = concat (fst (stream_server plan inb)) @ rest)
   \<and> subseq (snd (stream_server plan inb)) (concat (fst (stream_server plan inb)))
   \<and> ((\<forall>(k, j) \<in> set plan. k \<le> j) \<longrightarrow> snd (stream_server plan inb) = concat (fst (stream_server plan inb)))
   \<and> (uring_sane cs uring_init \<and> full_sends cs uring_init \<and> io_uring_echo_server srv cs = Some s \<longrightarrow>
       prefix (ur_wire s) (concat (ur_received s))
       \<and> (in_flight s \<noteq> Tag_Send \<longrightarrow> ur_wire s = concat (ur_received s))
       \<and> ur_closed s \<in> {[srv], [client_fd s, srv]})
   \<and> map_option ur_wire (io_uring_echo_server 3 [Accepts 7, Receives ''QUOTE'', Sends 2, Receives []]) = Some ''QU''
   \<and> map_option (\<lambda>s. (length (ur_received s), length (ur_wire s), ur_closed s))
        (io_uring_echo_server 3 (Accepts 7 # concat (replicate 10 [Receives ''Q'', Sends 1]))) = Some (10, 9, [3])"
proof (intro conjI impI)
  assume a: "uring_sane cs uring_init \<and> full_sends cs uring_init \<and> io_uring_echo_server srv cs = Some s"
  then obtain t where t: "uring_loop 20 cs uring_init = Some t" "s = t\<lparr>ur_closed := ur_closed t @ [srv]\<rparr>"
    by (auto simp: io_uring_echo_server_def split: option.splits)
  with a uring_loop_inv [OF uring_inv_init, of cs 20 t]
  have "uring_inv t" "ur_closed t \<in> {[], [client_fd t]}" by (auto simp: uring_init_def)
  then show "prefix (ur_wire s) (concat (ur_received s))" "in_flight s \<noteq> Tag_Send \<Longrightarrow> ur_wire s = concat (ur_received s)"
    "ur_closed s \<in> {[srv], [client_fd s, srv]}"
    using uring_inv_prefix [of t] t(2) by auto
next
  show "map_option ur_wire (io_uring_echo_server 3 [Accepts 7, Receives ''QUOTE'', Sends 2, Receives []]) = Some ''QU''"
    by code_simp
  show "map_option (\<lambda>s. (length (ur_received s), length (ur_wire s), ur_closed s))
        (io_uring_echo_server 3 (Accepts 7 # concat (replicate 10 [Receives ''Q'', Sends 1]))) = Some (10, 9, [3])"
    by code_simp
qed (use stream_server_echo [of inb plan] in auto)

theorem single_send_echo_witness:
  "snd (stream_server [(3, 9), (0, 0)] ''ABCDEF'') = concat (fst (stream_server [(3, 9), (0, 0)] ''ABCDEF''))
   \<and> (\<exists>s. io_uring_echo_server 3 [Accepts 7, Receives ''QUOTE'', Sends 5, Receives []] = Some s
        \<and> ur_wire s = concat (ur_received s) \<and> ur_closed s \<in> {[3], [client_fd s, 3]})"
proof -
  let ?cs = "[Accepts 7, Receives ''QUOTE'', Sends 5, Receives []]"
  have "uring_sane ?cs uring_init" "full_sends ?cs uring_init" by code_simp+
  moreover obtain s where "io_uring_echo_server 3 ?cs = Some s" "in_flight s = Tag_Recv"
    by (simp add: io_uring_echo_server_def uring_step_def uring_init_def numeral_eq_Suc)
  ultimately show ?thesis
    using single_send_echo [of "''ABCDEF''" "[(3, 9), (0, 0)]" ?cs 3 s] by auto
qed

end
