(* ===== verification/Feeds.thy ===== *)
theory Feeds
  imports Complex_Main Framing
begin

text \<open>
  Market data over datagrams and in files: the packed packets of \<^verbatim>\<open>networking/04_udp_basics.cpp\<close> and
  \<^verbatim>\<open>networking/05_udp_multicast.cpp\<close> with their sender and receiver loops, the sequence-gap detector, and the
  tick file of \<^verbatim>\<open>system_calls/03_mmap_file.cpp\<close>.  Packets are byte lists in the packed layout of the
  structs on a little-endian machine; a \<open>double\<close> in a packet is its 64-bit pattern.
\<close>

section \<open>Bytes of integers\<close>

definition le32 :: "32 word \<Rightarrow> 8 word list" where
  "le32 w = [ucast w, ucast (drop_bit 8 w), ucast (drop_bit 16 w), ucast (drop_bit 24 w)]"

fun rd32 :: "8 word list \<Rightarrow> 32 word" where
  "rd32 [a, b, c, d] = (push_bit 24 (ucast d) OR push_bit 16 (ucast c)) OR (push_bit 8 (ucast b) OR ucast a)"
| "rd32 _ = 0"

definition le64 :: "64 word \<Rightarrow> 8 word list" where
  "le64 w = le32 (ucast w) @ le32 (ucast (drop_bit 32 w))"

definition rd64 :: "8 word list \<Rightarrow> 64 word" where
  "rd64 bs = push_bit 32 (ucast (rd32 (drop 4 bs))) OR ucast (rd32 (take 4 bs))"

lemma le32_htonl: "le32 w = rev (htonl w)"
  by (simp add: le32_def htonl_def)

lemma length_le32 [simp]: "length (le32 w) = 4"
  by (simp add: le32_def)

lemma length_le64 [simp]: "length (le64 w) = 8"
  by (simp add: le64_def)

lemma rd32_le32 [simp]: "rd32 (le32 w) = w"
  using ntohl_htonl [of w] by (simp add: le32_def htonl_def)

lemma rd64_le64 [simp]: "rd64 (le64 w) = w"
proof (rule bit_word_eqI)
  fix n assume "n < LENGTH(64)"
  then consider "n < 32" | "32 \<le> n" "n < 64" by fastforce
  then show "bit (rd64 (le64 w)) n \<longleftrightarrow> bit w n"
    by cases (auto simp: rd64_def le64_def bit_simps)
qed

section \<open>Strings in fixed fields\<close>

text \<open>\<open>strncpy\<close> into a field of \<open>n\<close> bytes pads with zero bytes and cuts a longer string, without a terminator.\<close>

definition strncpy :: "nat \<Rightarrow> 8 word list \<Rightarrow> 8 word list" where
  "strncpy n s = take n s @ replicate (n - length s) 0"

text \<open>The bytes \<open>printf\<close> shows of a field: up to the first zero byte.\<close>

definition field_text :: "8 word list \<Rightarrow> 8 word list" where
  "field_text f = takeWhile (\<lambda>b. b \<noteq> 0) f"

lemma length_strncpy [simp]: "length (strncpy n s) = n"
  by (simp add: strncpy_def)

lemma field_text_strncpy: "0 \<notin> set s \<Longrightarrow> length s \<le> n \<Longrightarrow> field_text (strncpy n s) = s"
proof -
  assume s: "0 \<notin> set s" "length s \<le> n"
  then have "takeWhile (\<lambda>b. b \<noteq> 0) (s @ replicate (n - length s) 0) = s @ takeWhile (\<lambda>b. b \<noteq> 0) (replicate (n - length s) 0)"
    by (intro takeWhile_append2) auto
  then show ?thesis using s(2) by (simp add: field_text_def strncpy_def takeWhile_replicate)
qed

section \<open>Packets\<close>

record market_packet =
  mp_seq :: "32 word"
  mp_timestamp_ns :: "64 word"
  mp_bid :: "64 word"
  mp_ask :: "64 word"
  mp_bid_size :: "32 word"
  mp_ask_size :: "32 word"
  mp_symbol :: "8 word list"

text \<open>The bytes of the struct; \<open>seq\<close> was stored by \<open>htonl\<close>, the other integers are in host order.\<close>

definition market_bytes :: "market_packet \<Rightarrow> 8 word list" where
  "market_bytes p = htonl (mp_seq p) @ le64 (mp_timestamp_ns p) @ le64 (mp_bid p) @ le64 (mp_ask p)
     @ le32 (mp_bid_size p) @ le32 (mp_ask_size p) @ strncpy 8 (mp_symbol p)"

text \<open>What the receiver prints of a packet: sequence number, symbol, bid and ask.\<close>

definition market_view :: "8 word list \<Rightarrow> 32 word \<times> 8 word list \<times> 64 word \<times> 64 word" where
  "market_view bs = (ntohl (take 4 bs), field_text (take 8 (drop 36 bs)), rd64 (take 8 (drop 12 bs)), rd64 (take 8 (drop 20 bs)))"

record feed_packet =
  fp_seq :: "32 word"
  fp_exchange_ts_ns :: "64 word"
  fp_feed_id :: "8 word list"
  fp_symbol :: "8 word list"
  fp_bid :: "64 word"
  fp_ask :: "64 word"
  fp_bid_qty :: "32 word"
  fp_ask_qty :: "32 word"
  fp_msg_type :: "8 word"

text \<open>Here the quantities are stored by \<open>htonl\<close> too; the two character fields are filled by \<open>memcpy\<close>.\<close>

definition feed_bytes :: "feed_packet \<Rightarrow> 8 word list" where
  "feed_bytes p = htonl (fp_seq p) @ le64 (fp_exchange_ts_ns p) @ take 4 (fp_feed_id p) @ take 8 (fp_symbol p)
     @ le64 (fp_bid p) @ le64 (fp_ask p) @ htonl (fp_bid_qty p) @ htonl (fp_ask_qty p) @ [fp_msg_type p, 0, 0, 0]"

definition feed_view ::
  "8 word list \<Rightarrow> 32 word \<times> 8 word list \<times> 64 word \<times> 64 word \<times> 32 word \<times> 32 word" where
  "feed_view bs = (ntohl (take 4 bs), field_text (take 8 (drop 16 bs)), rd64 (take 8 (drop 24 bs)), rd64 (take 8 (drop 32 bs)),
     ntohl (take 4 (drop 40 bs)), ntohl (take 4 (drop 44 bs)))"

section \<open>Receivers\<close>

text \<open>
  \<open>recvfrom\<close> into a packet: a longer datagram is cut to the size of the struct, and after a shorter one the
  rest of the zero-initialised struct stays zero.
\<close>

definition recv_packet :: "nat \<Rightarrow> 8 word list \<Rightarrow> nat \<times> 8 word list" where
  "recv_packet cap d = (min cap (length d), strncpy cap d)"

datatype market_event = Packet "32 word" "8 word list" "64 word" "64 word" | Unexpected_Size nat

text \<open>\<open>udp_receiver\<close>: \<open>NUM_MSGS\<close> datagrams, of which one with the wrong size is reported and not retried.\<close>

definition udp_receive :: "8 word list \<Rightarrow> market_event" where
  "udp_receive d =
     (case recv_packet 44 d of
        (n, pkt) \<Rightarrow> if n \<noteq> 44 then Unexpected_Size n else (case market_view pkt of (s, y, b, a) \<Rightarrow> Packet s y b a))"

definition udp_receiver :: "8 word list list \<Rightarrow> market_event list" where
  "udp_receiver ds = map udp_receive (take 5 ds)"

text \<open>\<open>multicast_receiver\<close> stops at an empty datagram and does not look at the size of the others.\<close>

fun multicast_loop :: "nat \<Rightarrow> 8 word list list \<Rightarrow> (32 word \<times> 8 word list \<times> 64 word \<times> 64 word \<times> 32 word \<times> 32 word) list" where
  "multicast_loop (Suc i) (d # ds) =
     (if d = [] then [] else feed_view (snd (recv_packet 52 d)) # multicast_loop i ds)"
| "multicast_loop _ _ = []"

definition multicast_receiver ::
  "8 word list list \<Rightarrow> (32 word \<times> 8 word list \<times> 64 word \<times> 64 word \<times> 32 word \<times> 32 word) list" where
  "multicast_receiver ds = multicast_loop 6 ds"

section \<open>Senders\<close>

text \<open>
  The quote tables and the clock are parameters; the sequence numbers run from 1.
\<close>

record quote_row =
  qr_symbol :: "8 word list"
  qr_bid :: "64 word"
  qr_ask :: "64 word"
  qr_bsz :: "32 word"
  qr_asz :: "32 word"

definition market_packet_of :: "(nat \<Rightarrow> 64 word) \<Rightarrow> nat \<Rightarrow> quote_row \<Rightarrow> market_packet" where
  "market_packet_of now i q = \<lparr>mp_seq = of_nat (i + 1), mp_timestamp_ns = now i, mp_bid = qr_bid q, mp_ask = qr_ask q,
     mp_bid_size = qr_bsz q, mp_ask_size = qr_asz q, mp_symbol = qr_symbol q\<rparr>"

definition udp_sender :: "(nat \<Rightarrow> 64 word) \<Rightarrow> quote_row list \<Rightarrow> 8 word list list" where
  "udp_sender now quotes = map (\<lambda>i. market_bytes (market_packet_of now i (quotes ! i))) [0..<5]"

definition xnys :: "8 word list" where
  "xnys = [88, 78, 89, 83]"

definition feed_packet_of :: "(nat \<Rightarrow> 64 word) \<Rightarrow> nat \<Rightarrow> quote_row \<Rightarrow> feed_packet" where
  "feed_packet_of now i t = \<lparr>fp_seq = of_nat (i + 1), fp_exchange_ts_ns = now i, fp_feed_id = xnys, fp_symbol = qr_symbol t,
     fp_bid = qr_bid t, fp_ask = qr_ask t, fp_bid_qty = qr_bsz t, fp_ask_qty = qr_asz t, fp_msg_type = 1\<rparr>"

definition multicast_sender :: "(nat \<Rightarrow> 64 word) \<Rightarrow> quote_row list \<Rightarrow> 8 word list list" where
  "multicast_sender now ticks = map (\<lambda>i. feed_bytes (feed_packet_of now i (ticks ! i))) [0..<6]"

section \<open>Gap detection\<close>

datatype gap_event = Gap "32 word" "32 word" "32 word" | In_Order "32 word" | Duplicate "32 word" "32 word"

record gap_state =
  expected :: "32 word"
  gaps :: int
  gap_log :: "gap_event list"

definition gap_step :: "32 word \<Rightarrow> gap_state \<Rightarrow> gap_state" where
  "gap_step seq s =
     (if expected s < seq
      then s\<lparr>gap_log := gap_log s @ [Gap (expected s) seq (seq - expected s)], gaps := gaps s + sint (seq - expected s),
             expected := seq + 1\<rparr>
      else if seq = expected s then s\<lparr>gap_log := gap_log s @ [In_Order seq], expected := expected s + 1\<rparr>
      else s\<lparr>gap_log := gap_log s @ [Duplicate seq (expected s)]\<rparr>)"

definition detect_gaps :: "32 word list \<Rightarrow> gap_state" where
  "detect_gaps received = fold gap_step received \<lparr>expected = 1, gaps = 0, gap_log = []\<rparr>"

section \<open>The tick file\<close>

record tick =
  tk_timestamp_ns :: int
  tk_price :: real
  tk_qty :: int

definition tick_at :: "nat \<Rightarrow> tick" where
  "tick_at i = \<lparr>tk_timestamp_ns = 1700000000000000000 + int i * 100000, tk_price = 100 + real i * 0.01,
     tk_qty = 100 + int (i mod 50)\<rparr>"

definition create_tick_file :: "nat \<Rightarrow> tick list" where
  "create_tick_file n_ticks = map tick_at [0..<n_ticks]"

text \<open>The scan of the mapping: the weighted sum and the volume, then the division when the volume is positive.\<close>

definition scan_ticks :: "tick list \<Rightarrow> real \<times> int" where
  "scan_ticks ticks = fold (\<lambda>t (vwap, vol). (vwap + tk_price t * real_of_int (tk_qty t), vol + tk_qty t)) ticks (0, 0)"

definition vwap :: "tick list \<Rightarrow> real" where
  "vwap ticks = (case scan_ticks ticks of (v, vol) \<Rightarrow> if vol > 0 then v / real_of_int vol else v)"

definition adjust_prices :: "real \<Rightarrow> tick list \<Rightarrow> tick list" where
  "adjust_prices adj ticks = map (\<lambda>t. t\<lparr>tk_price := tk_price t * adj\<rparr>) ticks"

definition spot_check :: "tick list \<Rightarrow> real" where
  "spot_check ticks = fold (\<lambda>s acc. acc + tk_price (ticks ! (s * 200))) [0..<5] 0"

section \<open>Round trips\<close>

lemma length_market_bytes: "length (market_bytes p) = 44"
  by (simp add: market_bytes_def)

lemma market_roundtrip:
  "0 \<notin> set (mp_symbol p) \<Longrightarrow> length (mp_symbol p) \<le> 8 \<Longrightarrow>
     market_view (market_bytes p) = (mp_seq p, mp_symbol p, mp_bid p, mp_ask p)"
  by (simp add: market_view_def market_bytes_def ntohl_htonl field_text_strncpy)

lemma length_feed_bytes: "length (fp_feed_id p) = 4 \<Longrightarrow> length (fp_symbol p) = 8 \<Longrightarrow> length (feed_bytes p) = 52"
  by (simp add: feed_bytes_def)

lemma feed_roundtrip:
  "length (fp_feed_id p) = 4 \<Longrightarrow> length (fp_symbol p) = 8 \<Longrightarrow>
     feed_view (feed_bytes p) = (fp_seq p, field_text (fp_symbol p), fp_bid p, fp_ask p, fp_bid_qty p, fp_ask_qty p)"
  by (simp add: feed_view_def feed_bytes_def ntohl_htonl)

lemma recv_packet_exact: "length d = n \<Longrightarrow> recv_packet n d = (n, d)"
  by (simp add: recv_packet_def strncpy_def)

lemma udp_receive_packet:
  assumes "0 \<notin> set (mp_symbol p)" and "length (mp_symbol p) \<le> 8"
  shows "udp_receive (market_bytes p @ junk) = Packet (mp_seq p) (mp_symbol p) (mp_bid p) (mp_ask p)"
proof -
  have "recv_packet 44 (market_bytes p @ junk) = (44, market_bytes p)"
    by (simp add: recv_packet_def strncpy_def length_market_bytes)
  with market_roundtrip [OF assms] show ?thesis by (simp add: udp_receive_def)
qed

lemma udp_receive_short: "length d < 44 \<Longrightarrow> udp_receive d = Unexpected_Size (length d)"
  by (simp add: udp_receive_def recv_packet_def)

lemma multicast_loop_map:
  "\<forall>d \<in> set ds. d \<noteq> [] \<Longrightarrow> multicast_loop n ds = map (\<lambda>d. feed_view (snd (recv_packet 52 d))) (take n ds)"
  by (induction n ds rule: multicast_loop.induct) auto

section \<open>Gap detection\<close>

text \<open>The arrivals that are higher than everything before them.\<close>

fun new_highs :: "nat \<Rightarrow> nat list \<Rightarrow> nat list" where
  "new_highs m [] = []"
| "new_highs m (x # xs) = (if m < x then x # new_highs x xs else new_highs m xs)"

lemma new_highs_sorted: "sorted_wrt (<) (m # new_highs m xs)"
proof (induction xs arbitrary: m)
  case (Cons x xs)
  show ?case
  proof (cases "m < x")
    case True
    with Cons [of x] show ?thesis by fastforce
  qed (use Cons [of m] in simp)
qed simp

lemma new_highs_sub: "set (new_highs m xs) \<subseteq> set xs"
  by (induction m xs rule: new_highs.induct) auto

lemma new_highs_last: "last (m # new_highs m xs) = Max (insert m (set xs))"
proof (induction m xs rule: new_highs.induct)
  case (2 m x xs)
  show ?case
  proof (cases "m < x")
    case True
    have "last (m # new_highs m (x # xs)) = last (x # new_highs x xs)" using True by simp
    also have "\<dots> = Max (insert x (set xs))" using 2(1) True by simp
    also have "\<dots> = Max (insert m (set (x # xs)))" using True
      by (cases "set xs = {}") (auto simp: max_def Max_insert)
    finally show ?thesis .
  next
    case False
    have "last (m # new_highs m (x # xs)) = Max (insert m (set xs))" using 2(2) False by simp
    also have "\<dots> = Max (insert m (set (x # xs)))" using False
      by (cases "set xs = {}") (auto simp: max_def Max_insert)
    finally show ?thesis .
  qed
qed simp

lemma new_highs_id: "sorted_wrt (<) (m # xs) \<Longrightarrow> new_highs m xs = xs"
  by (induction m xs rule: new_highs.induct) auto

lemma unat_small: "x < 2 ^ 31 \<Longrightarrow> unat (of_nat x :: 32 word) = x"
  by (simp add: unsigned_of_nat take_bit_nat_eq_self)

lemma of_nat_less_small: "x < 2 ^ 31 \<Longrightarrow> y \<le> 2 ^ 31 \<Longrightarrow> (of_nat x :: 32 word) < of_nat y \<longleftrightarrow> x < y"
  by (simp add: word_less_nat_alt unsigned_of_nat take_bit_nat_eq_self)

lemma sint_diff_small: "x < 2 ^ 31 \<Longrightarrow> y \<le> x \<Longrightarrow> sint ((of_nat x :: 32 word) - of_nat y) = int x - int y"
proof -
  assume x: "x < 2 ^ 31" "y \<le> x"
  then have "(of_nat x :: 32 word) - of_nat y = of_nat (x - y)" by simp
  moreover have "sint (of_nat (x - y) :: 32 word) = int (x - y)"
    using x(1) by (simp add: signed_of_nat signed_take_bit_int_eq_self)
  ultimately show ?thesis using x(2) by simp
qed

lemma gap_step_cases:
  assumes "x < 2 ^ 31" and "m < 2 ^ 31" and "expected s = of_nat (Suc m)"
  shows "m < x \<Longrightarrow> expected (gap_step (of_nat x) s) = of_nat (Suc x) \<and> gaps (gap_step (of_nat x) s) = gaps s + int x - int m - 1"
    and "x \<le> m \<Longrightarrow> expected (gap_step (of_nat x) s) = expected s \<and> gaps (gap_step (of_nat x) s) = gaps s
      \<and> gap_log (gap_step (of_nat x) s) = gap_log s @ [Duplicate (of_nat x) (of_nat (Suc m))]"
proof -
  have e: "unat (of_nat (Suc m) :: 32 word) = Suc m"
    unfolding unsigned_of_nat using assms(2) by (simp add: take_bit_nat_eq_self)
  have less: "expected s < of_nat x \<longleftrightarrow> Suc m < x" "of_nat x < expected s \<longleftrightarrow> x < Suc m"
    unfolding word_less_nat_alt assms(3) e unat_small [OF assms(1)] by simp_all
  have eq: "of_nat x = expected s \<longleftrightarrow> x = Suc m"
    using less by (metis assms(3) nat_neq_iff order.irrefl)
  show "expected (gap_step (of_nat x) s) = of_nat (Suc x) \<and> gaps (gap_step (of_nat x) s) = gaps s + int x - int m - 1"
    if "m < x"
    using that less eq assms sint_diff_small [OF assms(1), of "Suc m"]
    by (cases "x = Suc m") (auto simp: gap_step_def)
  show "expected (gap_step (of_nat x) s) = expected s \<and> gaps (gap_step (of_nat x) s) = gaps s
      \<and> gap_log (gap_step (of_nat x) s) = gap_log s @ [Duplicate (of_nat x) (of_nat (Suc m))]"
    if "x \<le> m"
    using that less eq assms by (auto simp: gap_step_def)
qed

lemma gap_fold:
  "\<forall>x \<in> set xs. x < 2 ^ 31 \<Longrightarrow> m < 2 ^ 31 \<Longrightarrow> expected s = of_nat (Suc m) \<Longrightarrow>
     expected (fold gap_step (map of_nat xs) s) = of_nat (Suc (last (m # new_highs m xs)))
     \<and> gaps (fold gap_step (map of_nat xs) s) = gaps s + int (last (m # new_highs m xs)) - int m - int (length (new_highs m xs))"
proof (induction xs arbitrary: m s)
  case (Cons x xs)
  have x: "x < 2 ^ 31" using Cons.prems by simp
  show ?case
  proof (cases "m < x")
    case True
    with gap_step_cases(1) [OF x Cons.prems(2,3)] Cons.IH [of x "gap_step (of_nat x) s"] Cons.prems show ?thesis by auto
  next
    case False
    with gap_step_cases(2) [OF x Cons.prems(2,3)] Cons.IH [of m "gap_step (of_nat x) s"] Cons.prems show ?thesis by auto
  qed
qed simp

lemma card_missing:
  assumes "sorted_wrt (<) (0 # h)" and "n = last (0 # h)"
  shows "int (card ({1..n} - set h)) = int n - int (length h)"
proof -
  have "x \<le> n" if "x \<in> set h" for x
    using that assms by (induction h rule: rev_induct) (auto simp: sorted_wrt_append)
  then have sub: "set h \<subseteq> {1..n}" using assms(1) by auto
  have "card (set h) = length h"
    using assms(1) by (intro distinct_card) (auto simp: strict_sorted_iff)
  with sub show ?thesis using card_Diff_subset [of "set h" "{1..n}"] card_mono [OF _ sub] by auto
qed

section \<open>The tick file\<close>

lemma scan_ticks_sums:
  "scan_ticks ticks = (sum_list (map (\<lambda>t. tk_price t * real_of_int (tk_qty t)) ticks), sum_list (map tk_qty ticks))"
proof -
  have "fold (\<lambda>t (v, vol). (v + tk_price t * real_of_int (tk_qty t), vol + tk_qty t)) ticks (a, b)
      = (a + sum_list (map (\<lambda>t. tk_price t * real_of_int (tk_qty t)) ticks), b + sum_list (map tk_qty ticks))" for a b
    by (induction ticks arbitrary: a b) auto
  then show ?thesis by (simp add: scan_ticks_def)
qed

lemma volume_positive: "ticks \<noteq> [] \<Longrightarrow> \<forall>t \<in> set ticks. 0 < tk_qty t \<Longrightarrow> 0 < sum_list (map tk_qty ticks)"
  by (induction ticks rule: list_nonempty_induct) auto

lemma weighted_bounds:
  "\<forall>t \<in> set ticks. 0 < tk_qty t \<and> lo \<le> tk_price t \<and> tk_price t \<le> hi \<Longrightarrow>
     lo * real_of_int (sum_list (map tk_qty ticks)) \<le> sum_list (map (\<lambda>t. tk_price t * real_of_int (tk_qty t)) ticks)
     \<and> sum_list (map (\<lambda>t. tk_price t * real_of_int (tk_qty t)) ticks) \<le> hi * real_of_int (sum_list (map tk_qty ticks))"
proof (induction ticks)
  case (Cons t ticks)
  have "0 \<le> real_of_int (tk_qty t)" using Cons.prems by fastforce
  then have "lo * real_of_int (tk_qty t) \<le> tk_price t * real_of_int (tk_qty t)"
    "tk_price t * real_of_int (tk_qty t) \<le> hi * real_of_int (tk_qty t)"
    using Cons.prems by (auto intro: mult_right_mono)
  moreover have "lo * real_of_int (sum_list (map tk_qty ticks)) \<le> sum_list (map (\<lambda>t. tk_price t * real_of_int (tk_qty t)) ticks)"
    "sum_list (map (\<lambda>t. tk_price t * real_of_int (tk_qty t)) ticks) \<le> hi * real_of_int (sum_list (map tk_qty ticks))"
    using Cons by auto
  ultimately show ?case unfolding list.map sum_list.Cons of_int_add distrib_left by linarith
qed simp

lemma vwap_between:
  assumes "ticks \<noteq> []" and "\<forall>t \<in> set ticks. 0 < tk_qty t \<and> lo \<le> tk_price t \<and> tk_price t \<le> hi"
  shows "lo \<le> vwap ticks \<and> vwap ticks \<le> hi"
proof -
  have v: "0 < sum_list (map tk_qty ticks)" using volume_positive assms by blast
  moreover from v have "0 < real_of_int (sum_list (map tk_qty ticks))" by linarith
  ultimately show ?thesis using weighted_bounds [OF assms(2)]
    by (simp add: vwap_def scan_ticks_sums pos_le_divide_eq pos_divide_le_eq)
qed

lemma vwap_adjust: "vwap (adjust_prices adj ticks) = adj * vwap ticks"
proof -
  have "map tk_qty (adjust_prices adj ticks) = map tk_qty ticks" by (simp add: adjust_prices_def)
  moreover have "sum_list (map (\<lambda>t. tk_price t * real_of_int (tk_qty t)) (adjust_prices adj ticks))
      = adj * sum_list (map (\<lambda>t. tk_price t * real_of_int (tk_qty t)) ticks)"
    unfolding adjust_prices_def sum_list_const_mult [symmetric] by (simp add: comp_def algebra_simps)
  ultimately show ?thesis by (simp add: vwap_def scan_ticks_sums)
qed

lemma file_tick_bounds:
  "t \<in> set (create_tick_file n) \<Longrightarrow> 0 < tk_qty t \<and> 100 \<le> tk_price t \<and> tk_price t \<le> 100 + (real n - 1) * 0.01"
  by (auto simp: create_tick_file_def tick_at_def)

lemma spot_check_adjusted: "spot_check (adjust_prices adj (create_tick_file 1000)) = 520 * adj"
proof -
  have nth: "tk_price (adjust_prices adj (create_tick_file 1000) ! k) = (100 + real k * 0.01) * adj" if "k < 1000" for k
    using that by (simp add: adjust_prices_def create_tick_file_def tick_at_def)
  have "[0..<5] = [0, 1, 2, 3, 4 :: nat]" by (simp add: upt_rec)
  then show ?thesis by (simp add: spot_check_def nth algebra_simps)
qed

section \<open>Properties\<close>

text \<open>
  Packets survive the wire.  With symbols that fit their field, the receiver of \<^verbatim>\<open>04_udp_basics.cpp\<close> reports exactly the five
  quotes the sender published, numbered from 1, and the receiver of \<^verbatim>\<open>05_udp_multicast.cpp\<close> the six ticks with
  their quantities; a datagram that is too short is reported by its size, and one that is too long is accepted
  as the packet it starts with.
\<close>

theorem feed_packets_roundtrip:
  assumes "length quotes = 5" and "\<forall>q \<in> set quotes. 0 \<notin> set (qr_symbol q) \<and> length (qr_symbol q) \<le> 8"
    and "length ticks = 6" and "\<forall>q \<in> set ticks. length (qr_symbol q) = 8"
  shows "udp_receiver (udp_sender now quotes)
      = map (\<lambda>i. Packet (of_nat (i + 1)) (qr_symbol (quotes ! i)) (qr_bid (quotes ! i)) (qr_ask (quotes ! i))) [0..<5]
    \<and> multicast_receiver (multicast_sender now ticks)
      = map (\<lambda>i. (of_nat (i + 1), field_text (qr_symbol (ticks ! i)), qr_bid (ticks ! i), qr_ask (ticks ! i),
          qr_bsz (ticks ! i), qr_asz (ticks ! i))) [0..<6]
    \<and> (length d < 44 \<longrightarrow> udp_receive d = Unexpected_Size (length d))
    \<and> (0 \<notin> set (mp_symbol p) \<and> length (mp_symbol p) \<le> 8 \<longrightarrow>
        udp_receive (market_bytes p @ junk) = Packet (mp_seq p) (mp_symbol p) (mp_bid p) (mp_ask p))"
proof (intro conjI impI)
  have "udp_receive (market_bytes (market_packet_of now i (quotes ! i)))
      = Packet (of_nat (i + 1)) (qr_symbol (quotes ! i)) (qr_bid (quotes ! i)) (qr_ask (quotes ! i))" if "i < 5" for i
    using udp_receive_packet [of "market_packet_of now i (quotes ! i)" "[]"] assms(1,2) that
    by (simp add: market_packet_of_def)
  then show "udp_receiver (udp_sender now quotes)
      = map (\<lambda>i. Packet (of_nat (i + 1)) (qr_symbol (quotes ! i)) (qr_bid (quotes ! i)) (qr_ask (quotes ! i))) [0..<5]"
    unfolding udp_receiver_def udp_sender_def take_map map_map by (intro map_cong) auto
  let ?f = "\<lambda>i. feed_bytes (feed_packet_of now i (ticks ! i))"
  have len: "length (?f i) = 52" if "i < 6" for i
    using length_feed_bytes [of "feed_packet_of now i (ticks ! i)"] assms(3,4) that by (simp add: feed_packet_of_def xnys_def)
  then have "\<forall>d \<in> set (multicast_sender now ticks). d \<noteq> []" unfolding multicast_sender_def by fastforce
  from multicast_loop_map [OF this, of 6]
  have "multicast_receiver (multicast_sender now ticks) = map (\<lambda>i. feed_view (snd (recv_packet 52 (?f i)))) [0..<6]"
    unfolding multicast_receiver_def by (simp add: multicast_sender_def take_map comp_def del: upt_rec_numeral)
  moreover have "feed_view (snd (recv_packet 52 (?f i))) = (of_nat (i + 1), field_text (qr_symbol (ticks ! i)), qr_bid (ticks ! i),
      qr_ask (ticks ! i), qr_bsz (ticks ! i), qr_asz (ticks ! i))" if "i < 6" for i
    using recv_packet_exact [OF len [OF that]] feed_roundtrip [of "feed_packet_of now i (ticks ! i)"] assms(3,4) that
    by (simp add: feed_packet_of_def xnys_def)
  ultimately show "multicast_receiver (multicast_sender now ticks)
      = map (\<lambda>i. (of_nat (i + 1), field_text (qr_symbol (ticks ! i)), qr_bid (ticks ! i), qr_ask (ticks ! i),
          qr_bsz (ticks ! i), qr_asz (ticks ! i))) [0..<6]" by simp
qed (use udp_receive_short udp_receive_packet in auto)

definition row :: "8 word list \<Rightarrow> quote_row" where
  "row s = \<lparr>qr_symbol = s, qr_bid = 10, qr_ask = 11, qr_bsz = 500, qr_asz = 300\<rparr>"

theorem feed_packets_roundtrip_witness:
  "udp_receiver (udp_sender (\<lambda>i. 0) (replicate 5 (row [65, 66])))
     = map (\<lambda>i. Packet (of_nat (i + 1)) [65, 66] 10 11) [0..<5]
   \<and> udp_receive [1, 2, 3] = Unexpected_Size 3
   \<and> udp_receive (market_bytes \<lparr>mp_seq = 7, mp_timestamp_ns = 0, mp_bid = 1, mp_ask = 2, mp_bid_size = 0, mp_ask_size = 0,
        mp_symbol = [65]\<rparr> @ [9, 9]) = Packet 7 [65] 1 2"
  using feed_packets_roundtrip [of "replicate 5 (row [65, 66])" "replicate 6 (row (replicate 8 65))" "\<lambda>i. 0" "[1, 2, 3]"
    "\<lparr>mp_seq = 7, mp_timestamp_ns = 0, mp_bid = 1, mp_ask = 2, mp_bid_size = 0, mp_ask_size = 0, mp_symbol = [65]\<rparr>" "[9, 9]"]
  by (simp add: row_def del: upt_rec_numeral)

text \<open>
  The gap counter.  For sequence numbers below $2^{31}$ the number of gaps is the number of values up to the highest one
  received that did not arrive as a new highest; for arrivals in increasing order these are exactly the
  missing packets.  A late packet is therefore counted as missing and then reported as a duplicate; and when the
  last number before the counter wraps is lost, every later packet is reported as a duplicate.
\<close>

theorem gap_detection:
  assumes "\<forall>x \<in> set xs. 1 \<le> x \<and> x < 2 ^ 31"
  shows "gaps (detect_gaps (map of_nat xs)) = int (card ({1..Max (insert 0 (set xs))} - set (new_highs 0 xs)))
    \<and> (sorted_wrt (<) xs \<longrightarrow> gaps (detect_gaps (map of_nat xs)) = int (card ({1..Max (insert 0 (set xs))} - set xs)))
    \<and> gap_log (detect_gaps [1, 2, 4, 5]) = [In_Order 1, In_Order 2, Gap 3 4 1, In_Order 5]
    \<and> gaps (detect_gaps [1, 3, 2]) = 1 \<and> gap_log (detect_gaps [1, 3, 2]) = [In_Order 1, Gap 2 3 1, Duplicate 2 4]
    \<and> (expected s = - 1 \<and> seq \<noteq> - 1 \<longrightarrow> expected (gap_step seq s) = - 1 \<and> gap_log (gap_step seq s) = gap_log s @ [Duplicate seq (- 1)])"
proof (intro conjI impI)
  have g: "gaps (detect_gaps (map of_nat xs)) = int (Max (insert 0 (set xs))) - int (length (new_highs 0 xs))"
    using gap_fold [of xs 0 "\<lparr>expected = 1, gaps = 0, gap_log = []\<rparr>"] assms new_highs_last [of 0 xs]
    by (simp add: detect_gaps_def)
  then show a: "gaps (detect_gaps (map of_nat xs)) = int (card ({1..Max (insert 0 (set xs))} - set (new_highs 0 xs)))"
    using card_missing [OF new_highs_sorted new_highs_last [symmetric]] by simp
  show "gaps (detect_gaps (map of_nat xs)) = int (card ({1..Max (insert 0 (set xs))} - set xs))" if "sorted_wrt (<) xs"
  proof -
    have "new_highs 0 xs = xs" using assms that by (intro new_highs_id) auto
    with a show ?thesis by simp
  qed
  show "expected (gap_step seq s) = - 1" "gap_log (gap_step seq s) = gap_log s @ [Duplicate seq (- 1)]"
    if "expected s = - 1 \<and> seq \<noteq> - 1"
    using that word_order.extremum [of seq] by (auto simp: gap_step_def not_less [symmetric])
qed code_simp+

theorem gap_detection_witness:
  "gaps (detect_gaps (map of_nat [1, 2, 4, 7])) = int (card ({1..7 :: nat} - {1, 2, 4, 7}))
   \<and> gap_log (gap_step 5 \<lparr>expected = - 1, gaps = 0, gap_log = []\<rparr>) = [Duplicate 5 (- 1)]"
  using gap_detection [of "[1, 2, 4, 7]" "\<lparr>expected = - 1, gaps = 0, gap_log = []\<rparr>" 5] by simp

text \<open>
  The scan of the tick file: the volume-weighted price of ticks with positive quantities lies between their lowest and
  highest price, the in-place adjustment multiplies it by the factor, and for the program's file of a thousand ticks
  it lies between 100 and 109.99 and the spot check after the adjustment by 1.0001 is 520.052.
\<close>

theorem tick_file_scan:
  assumes "ticks \<noteq> []" and "\<forall>t \<in> set ticks. 0 < tk_qty t \<and> lo \<le> tk_price t \<and> tk_price t \<le> hi"
  shows "lo \<le> vwap ticks \<and> vwap ticks \<le> hi \<and> vwap (adjust_prices adj ticks) = adj * vwap ticks
    \<and> 100 \<le> vwap (create_tick_file 1000) \<and> vwap (create_tick_file 1000) \<le> 109.99
    \<and> spot_check (adjust_prices 1.0001 (create_tick_file 1000)) = 520.052"
proof -
  have f: "\<forall>t \<in> set (create_tick_file 1000). 0 < tk_qty t \<and> 100 \<le> tk_price t \<and> tk_price t \<le> 109.99"
    using file_tick_bounds [of _ 1000] by auto
  moreover have "create_tick_file 1000 \<noteq> []" by (simp add: create_tick_file_def)
  ultimately show ?thesis
    using vwap_between [OF assms] vwap_between [OF _ f] vwap_adjust [of adj ticks] spot_check_adjusted [of "1.0001"] by simp
qed

theorem tick_file_scan_witness:
  "100 \<le> vwap (create_tick_file 2) \<and> vwap (create_tick_file 2) \<le> 101"
  using tick_file_scan [of "create_tick_file 2" 100 101 1] file_tick_bounds [of _ 2]
  by (force simp: create_tick_file_def)

end
