(* ===== verification/Processes.thy ===== *)
theory Processes
  imports Transfers "HOL-Library.Multiset"
begin

text \<open>
  Processes, signals and file modes: the decoding of wait statuses and the reaping loops of
  \<^verbatim>\<open>system_calls/05_fork_exec.cpp\<close>, the handler and the two polling loops of \<^verbatim>\<open>system_calls/06_signals.cpp\<close>, and the
  mode string of \<^verbatim>\<open>system_calls/02_stat_links.cpp\<close>.  Which signals arrive between two accesses to the flags, what
  each \<open>waitpid\<close> returns and the order in which children end are parameters.
\<close>

section \<open>Wait statuses\<close>

text \<open>The macros of \<^verbatim>\<open><sys/wait.h>\<close>, and the status of a process that called \<open>exit(c)\<close> or was killed.\<close>

definition wifexited :: "32 word \<Rightarrow> bool" where
  "wifexited st \<longleftrightarrow> st AND 0x7F = 0"

definition wexitstatus :: "32 word \<Rightarrow> 32 word" where
  "wexitstatus st = drop_bit 8 (st AND 0xFF00)"

definition wtermsig :: "32 word \<Rightarrow> 32 word" where
  "wtermsig st = st AND 0x7F"

definition wifsignaled :: "32 word \<Rightarrow> bool" where
  "wifsignaled st \<longleftrightarrow> wtermsig st \<noteq> 0 \<and> wtermsig st \<noteq> 0x7F"

definition exit_status :: "int \<Rightarrow> 32 word" where
  "exit_status c = push_bit 8 (word_of_int c AND 0xFF)"

definition print_status :: "int \<Rightarrow> 32 word \<Rightarrow> console" where
  "print_status pid st =
     (if wifexited st then [''  pid '' @ dec_int pid @ '' exited with code '' @ dec_int (uint (wexitstatus st))]
      else if wifsignaled st then [''  pid '' @ dec_int pid @ '' killed by signal '' @ dec_int (uint (wtermsig st))]
      else [])"

section \<open>Reaping children\<close>

definition demo_basic_fork :: "int \<Rightarrow> console" where
  "demo_basic_fork child = print_status child (exit_status 42) @ [''  parent: child reaped (no zombie)'']"

text \<open>The polling loop: \<open>None\<close> is a \<open>waitpid\<close> that returned 0.  The result says whether the child was reaped.\<close>

fun wnohang_loop :: "int \<Rightarrow> nat \<Rightarrow> 32 word option list \<Rightarrow> console \<times> bool" where
  "wnohang_loop child attempt (r # rs) =
     (if attempt < 10
      then case r of
             None \<Rightarrow> (case wnohang_loop child (Suc attempt) rs of
                 (out, ok) \<Rightarrow> ((''  attempt '' @ dec_nat (attempt + 1) @ '': child not done yet'') # out, ok))
           | Some st \<Rightarrow> (print_status child st, True)
      else ([], False))"
| "wnohang_loop child attempt [] = ([], False)"

definition demo_wnohang :: "int \<Rightarrow> 32 word option list \<Rightarrow> console \<times> bool" where
  "demo_wnohang child rs = wnohang_loop child 0 rs"

text \<open>Three children that exit with codes 10, 11 and 12; \<open>waitpid(-1)\<close> returns them in the order they ended.\<close>

definition children_of :: "int list \<Rightarrow> (int \<times> 32 word) list" where
  "children_of pids = map (\<lambda>i. (pids ! i, exit_status (int i + 10))) [0..<3]"

definition demo_multiple_children :: "(int \<times> 32 word) list \<Rightarrow> console" where
  "demo_multiple_children ended = concat (map (\<lambda>(pid, st). print_status pid st) (take 3 ended))"

text \<open>
  The pipe of \<open>demo_pipe_fork\<close>: each order is written once and the result ignored; \<open>js\<close> is how much each \<open>write\<close>
  accepts.  The child stops at the first \<open>read\<close> that returns zero or fails.
\<close>

definition order_line :: "int \<Rightarrow> string" where
  "order_line i = ''ORDER_'' @ dec_int i @ nl"

definition pipe_writes :: "nat list \<Rightarrow> string" where
  "pipe_writes js = concat (map (\<lambda>(j, i). take (Suc j) (order_line i)) (zip js [1001..1005]))"

fun read_until_stop :: "nat \<Rightarrow> reply list \<Rightarrow> 'a list \<Rightarrow> 'a list" where
  "read_until_stop room (Moves k # plan) inb =
     (if room = 0 \<or> inb = [] then []
      else let n = min (Suc k) (min room (length inb)) in take n inb @ read_until_stop (room - n) plan (drop n inb))"
| "read_until_stop room plan inb = []"

definition demo_pipe_fork :: "nat list \<Rightarrow> reply list \<Rightarrow> string" where
  "demo_pipe_fork js plan = ''  child received: '' @ read_until_stop 127 plan (pipe_writes js)"

section \<open>Signals\<close>

record sig_state =
  g_stop :: bool
  g_reload :: bool
  g_last_signal :: int

definition sigint :: int where "sigint = 2"
definition sigusr1 :: int where "sigusr1 = 10"
definition sigterm :: int where "sigterm = 15"

definition handle_signal :: "int \<Rightarrow> sig_state \<Rightarrow> sig_state" where
  "handle_signal sg s =
     (let s = s\<lparr>g_last_signal := sg\<rparr>
      in if sg = sigterm \<or> sg = sigint then s\<lparr>g_stop := True\<rparr>
         else if sg = sigusr1 then s\<lparr>g_reload := True\<rparr>
         else s)"

definition sig_init :: sig_state where
  "sig_init = \<lparr>g_stop = False, g_reload = False, g_last_signal = 0\<rparr>"

text \<open>
  The shutdown loop: the signals that arrive before each test of \<open>g_stop\<close>.  The result is the number of
  iterations and the flags, or \<open>None\<close> while the loop runs.
\<close>

fun shutdown_loop :: "int list list \<Rightarrow> sig_state \<Rightarrow> (nat \<times> sig_state) option" where
  "shutdown_loop [] s = None"
| "shutdown_loop (sigs # rest) s =
     (let s = fold handle_signal sigs s
      in if g_stop s then Some (0, s)
         else (case shutdown_loop rest s of None \<Rightarrow> None | Some (n, t) \<Rightarrow> Some (Suc n, t)))"

text \<open>
  The reload loop: per iteration, the signals before the test of \<open>g_stop\<close> and those between the test and the
  \<open>exchange\<close>.  The result counts the reloads.
\<close>

fun reload_loop :: "(int list \<times> int list) list \<Rightarrow> sig_state \<Rightarrow> (nat \<times> sig_state) option" where
  "reload_loop [] s = None"
| "reload_loop ((before, between) # rest) s =
     (let s = fold handle_signal before s
      in if g_stop s then Some (0, s)
         else let s = fold handle_signal between s;
                  r = g_reload s
              in (case reload_loop rest (s\<lparr>g_reload := False\<rparr>) of
                    None \<Rightarrow> None
                  | Some (n, t) \<Rightarrow> Some ((if r then Suc n else n), t)))"

section \<open>File modes\<close>

definition mode_type :: "32 word \<Rightarrow> string" where
  "mode_type m =
     (if m AND 0xF000 = 0x8000 then ''reg '' else if m AND 0xF000 = 0x4000 then ''dir ''
      else if m AND 0xF000 = 0xA000 then ''link'' else ''??? '')"

definition perm_string :: "32 word \<Rightarrow> string" where
  "perm_string m =
     map (\<lambda>(b, c). if bit m b then c else CHR ''-'')
       [(8, CHR ''r''), (7, CHR ''w''), (6, CHR ''x''), (5, CHR ''r''), (4, CHR ''w''), (3, CHR ''x''),
        (2, CHR ''r''), (1, CHR ''w''), (0, CHR ''x'')]"

definition print_stat :: "string \<Rightarrow> 32 word \<Rightarrow> int \<Rightarrow> int \<Rightarrow> int \<Rightarrow> string" where
  "print_stat lbl mode st_size nlink ino =
     ''  '' @ pad 16 lbl @ '' '' @ mode_type mode @ '' '' @ perm_string mode @ ''  size='' @ pad 6 (dec_int st_size)
     @ ''  nlink='' @ dec_int nlink @ ''  ino='' @ dec_int ino"

section \<open>Lemmas\<close>

lemma mask_and: "(w :: 32 word) AND 0xFF = take_bit 8 w" "(w :: 32 word) AND 0x7F = take_bit 7 w"
  by (simp_all add: take_bit_eq_mask mask_eq_exp_minus_1)

lemma exit_status_exited: "wifexited (exit_status c)"
  by (simp add: wifexited_def exit_status_def mask_and take_bit_push_bit)

lemma exit_status_code: "uint (wexitstatus (exit_status c)) = c mod 256"
proof -
  have "wexitstatus (exit_status c) = take_bit 8 (word_of_int c)"
    by (rule bit_word_eqI) (auto simp: wexitstatus_def exit_status_def mask_and bit_simps)
  then have "uint (wexitstatus (exit_status c)) = take_bit 8 c"
    by (simp only: unsigned_take_bit_eq unsigned_of_int take_bit_take_bit) simp
  then show ?thesis by (simp add: take_bit_eq_mod)
qed

lemma killed_status:
  assumes "1 \<le> sg" and "sg \<le> 126"
  shows "\<not> wifexited (word_of_int sg)" and "wifsignaled (word_of_int sg)" and "uint (wtermsig (word_of_int sg)) = sg"
proof -
  have "uint (wtermsig (word_of_int sg)) = take_bit 7 sg"
    by (simp only: wtermsig_def mask_and unsigned_take_bit_eq unsigned_of_int take_bit_take_bit) simp
  with assms have u: "uint (wtermsig (word_of_int sg)) = sg" by (simp add: take_bit_eq_mod)
  then show "uint (wtermsig (word_of_int sg)) = sg" .
  have "wtermsig (word_of_int sg) \<noteq> 0" "wtermsig (word_of_int sg) \<noteq> 0x7F" using u assms by auto
  then show "\<not> wifexited (word_of_int sg)" "wifsignaled (word_of_int sg)"
    by (simp_all add: wifsignaled_def wifexited_def wtermsig_def)
qed

lemma wnohang_reaped:
  "snd (wnohang_loop child k rs) \<longleftrightarrow> (\<exists>i. k + i < 10 \<and> i < length rs \<and> rs ! i \<noteq> None)"
proof (induction child k rs rule: wnohang_loop.induct)
  case (1 child k r rs)
  show ?case
  proof (cases r)
    case None
    have "(\<exists>i. k + i < 10 \<and> i < length (r # rs) \<and> (r # rs) ! i \<noteq> None)
        \<longleftrightarrow> (\<exists>i. Suc k + i < 10 \<and> i < length rs \<and> rs ! i \<noteq> None)" (is "?a \<longleftrightarrow> ?b")
    proof
      assume ?a
      then obtain i where "k + i < 10" "i < length (r # rs)" "(r # rs) ! i \<noteq> None" by blast
      with None show ?b by (cases i) auto
    next
      assume ?b
      then show ?a by (metis add_Suc_shift length_Cons Suc_less_eq nth_Cons_Suc)
    qed
    with 1 None show ?thesis by (cases "k < 10") (auto split: prod.splits)
  next
    case (Some st)
    then show ?thesis by (auto intro: exI [of _ 0])
  qed
qed simp

lemma mset_concat_map: "mset (concat (map f xs)) = (\<Sum>x \<in># mset xs. mset (f x))"
  by (induction xs) auto

lemma children_reaped:
  assumes "mset ended = mset (children_of pids)"
  shows "mset (demo_multiple_children ended)
    = mset (map (\<lambda>i. ''  pid '' @ dec_int (pids ! i) @ '' exited with code '' @ dec_int (int i + 10)) [0..<3])"
proof -
  have "length ended = 3" using mset_eq_length [OF assms] by (simp add: children_of_def)
  then have "mset (demo_multiple_children ended) = mset (concat (map (\<lambda>(pid, st). print_status pid st) ended))"
    by (simp add: demo_multiple_children_def)
  also have "\<dots> = mset (concat (map (\<lambda>(pid, st). print_status pid st) (children_of pids)))"
    unfolding mset_concat_map assms ..
  also have "concat (map (\<lambda>(pid, st). print_status pid st) (children_of pids))
      = map (\<lambda>i. ''  pid '' @ dec_int (pids ! i) @ '' exited with code '' @ dec_int (int i + 10)) [0..<3]"
    by (simp add: children_of_def print_status_def exit_status_exited exit_status_code upt_rec numeral_eq_Suc)
  finally show ?thesis .
qed

definition stops :: "int list \<Rightarrow> bool" where
  "stops sigs \<longleftrightarrow> sigterm \<in> set sigs \<or> sigint \<in> set sigs"

lemma handle_flags:
  "g_stop (fold handle_signal sigs s) \<longleftrightarrow> g_stop s \<or> stops sigs"
  "g_reload (fold handle_signal sigs s) \<longleftrightarrow> g_reload s \<or> sigusr1 \<in> set sigs"
  by (induction sigs arbitrary: s) (auto simp: handle_signal_def stops_def Let_def sigterm_def sigint_def sigusr1_def)

lemma shutdown_first_stop:
  "\<not> g_stop s \<Longrightarrow> (\<exists>t. shutdown_loop rounds s = Some (n, t)) \<longleftrightarrow>
     n < length rounds \<and> stops (rounds ! n) \<and> (\<forall>i<n. \<not> stops (rounds ! i))"
proof (induction rounds arbitrary: s n)
  case (Cons sigs rounds)
  let ?s = "fold handle_signal sigs s"
  show ?case
  proof (cases "stops sigs")
    case True
    then have "shutdown_loop (sigs # rounds) s = Some (0, ?s)" by (simp add: Let_def handle_flags)
    with True show ?thesis by (cases n) (auto)
  next
    case False
    with Cons.prems have "\<not> g_stop ?s" by (simp add: handle_flags)
    with Cons.IH [of ?s "n - 1"] False show ?thesis
      by (cases n) (auto simp: Let_def less_Suc_eq_0_disj split: option.splits)
  qed
qed simp

lemma reload_counts:
  assumes "\<forall>(b, w) \<in> set xs. \<not> stops b \<and> \<not> stops w" and "stops b"
  shows "\<not> g_stop s \<Longrightarrow> \<not> g_reload s \<Longrightarrow>
    \<exists>t. reload_loop (xs @ (b, w) # ys) s = Some (length (filter (\<lambda>(b, w). sigusr1 \<in> set b \<union> set w) xs), t)
      \<and> (g_reload t \<longleftrightarrow> sigusr1 \<in> set b)"
  using assms(1)
proof (induction xs arbitrary: s)
  case Nil
  with assms(2) show ?case by (simp add: Let_def handle_flags)
next
  case (Cons x xs)
  obtain b' w' where x: "x = (b', w')" by fastforce
  let ?s = "fold handle_signal b' s" let ?u = "fold handle_signal w' ?s"
  have ns: "\<not> g_stop ?s" "\<not> g_stop (?u\<lparr>g_reload := False\<rparr>)" using Cons.prems x by (auto simp: handle_flags)
  then obtain t where "reload_loop (xs @ (b, w) # ys) (?u\<lparr>g_reload := False\<rparr>)
      = Some (length (filter (\<lambda>(b, w). sigusr1 \<in> set b \<union> set w) xs), t)" "g_reload t \<longleftrightarrow> sigusr1 \<in> set b"
    using Cons.IH [of "?u\<lparr>g_reload := False\<rparr>"] Cons.prems(3) by auto
  moreover have "g_reload ?u \<longleftrightarrow> sigusr1 \<in> set b' \<union> set w'" using Cons.prems(2) by (simp add: handle_flags)
  ultimately show ?case using ns(1) x by (simp add: Let_def)
qed

lemma all_less_9: "(\<forall>b<9. P b) \<longleftrightarrow> P 8 \<and> P 7 \<and> P 6 \<and> P 5 \<and> P 4 \<and> P 3 \<and> P 2 \<and> P 1 \<and> P (0 :: nat)"
  by (simp add: numeral_eq_Suc All_less_Suc)

lemma dash_eq: "(if a then c else CHR ''-'') = (if b then c else CHR ''-'') \<longleftrightarrow> a = b \<or> c = CHR ''-''"
  by auto

lemma perm_string_bits: "perm_string m = perm_string m' \<longleftrightarrow> take_bit 9 m = take_bit 9 m'"
proof -
  have "take_bit 9 m = take_bit 9 m' \<longleftrightarrow> (\<forall>b<9. bit m b \<longleftrightarrow> bit m' b)"
  proof
    assume t: "take_bit 9 m = take_bit 9 m'"
    have "bit m b \<longleftrightarrow> bit m' b" if "b < 9" for b
      using t that bit_take_bit_iff [of 9 m b] bit_take_bit_iff [of 9 m' b] by simp
    then show "\<forall>b<9. bit m b \<longleftrightarrow> bit m' b" by simp
  next
    assume "\<forall>b<9. bit m b \<longleftrightarrow> bit m' b"
    then show "take_bit 9 m = take_bit 9 m'" by (intro bit_word_eqI) (auto simp: bit_take_bit_iff)
  qed
  also have "\<dots> \<longleftrightarrow> perm_string m = perm_string m'"
    unfolding all_less_9 by (simp only: perm_string_def list.map prod.case list.inject dash_eq) auto
  finally show ?thesis by simp
qed

lemma read_until_good:
  "list_all moves plan \<Longrightarrow> min room (length inb) < length plan \<Longrightarrow> read_until_stop room plan inb = take room inb"
proof (induction room plan inb rule: read_until_stop.induct)
  case (1 room k plan inb)
  show ?case
  proof (cases "room = 0 \<or> inb = []")
    case False
    define n where "n = min (Suc k) (min room (length inb))"
    have n: "0 < n" "n \<le> room" using False by (auto simp: n_def)
    have "min (room - n) (length inb - n) < length plan"
      using 1(3) False by (intro min_minus_less n(1)) simp_all
    with 1(1) [OF False n_def] 1(2) have "read_until_stop (room - n) plan (drop n inb) = take (room - n) (drop n inb)"
      by simp
    moreover have "take room inb = take n inb @ take (room - n) (drop n inb)"
      using take_add [of n "room - n" inb] n(2) by simp
    ultimately show ?thesis using False unfolding read_until_stop.simps n_def [symmetric] Let_def by simp
  qed auto
qed auto

lemma pipe_fork_result:
  assumes "length js = 5" and "\<forall>j \<in> set js. 10 \<le> j" and "list_all moves plan" and "55 < length plan"
  shows "demo_pipe_fork js plan = ''  child received: '' @ concat (map order_line [1001..1005])"
proof -
  have ids: "[1001..1005] = [1001, 1002, 1003, 1004, 1005 :: int]" by code_simp
  have "list_all (\<lambda>i. length (order_line i) = 11) [1001..1005]" by code_simp
  then have l: "length (order_line i) = 11" if "i \<in> set [1001..1005]" for i using that by (simp only: list_all_iff)
  have whole: "take (Suc j) (order_line i) = order_line i" if "(j, i) \<in> set (zip js [1001..1005])" for i j
    using l [OF set_zip_rightD [OF that]] set_zip_leftD [OF that] assms(2) by simp
  have "map (\<lambda>(j, i). take (Suc j) (order_line i)) (zip js [1001..1005]) = map (\<lambda>(j, i). order_line i) (zip js [1001..1005])"
    using whole by (intro map_cong) (auto simp del: set_zip)
  also have "\<dots> = map order_line [1001..1005]"
    using assms(1) map_snd_zip [of js "[1001..1005]"] by (simp add: case_prod_unfold flip: map_map [of order_line snd, unfolded comp_def])
  finally have w: "pipe_writes js = concat (map order_line [1001..1005])" by (simp add: pipe_writes_def)
  moreover have "length (concat (map order_line [1001..1005])) = 55"
    by code_simp
  ultimately show ?thesis
    using read_until_good [of plan 127 "concat (map order_line [1001..1005])"] assms(3,4) by (simp add: demo_pipe_fork_def)
qed

section \<open>Properties\<close>

text \<open>
  Wait statuses and reaping.  \<open>print_status\<close> reports \<open>exit(c)\<close> as the code \<open>c\<close> modulo 256 and death by a signal as that
  signal; in whatever order the three children end, exactly their three codes are reported; the polling loop reaps
  its child exactly when it has ended by one of the first ten polls, and otherwise leaves it unreaped; and the
  child of the pipe program prints all five orders when no write is short.
\<close>

theorem child_statuses:
  "print_status pid (exit_status c) = [''  pid '' @ dec_int pid @ '' exited with code '' @ dec_int (c mod 256)]
   \<and> (1 \<le> sg \<and> sg \<le> 126 \<longrightarrow>
       print_status pid (word_of_int sg) = [''  pid '' @ dec_int pid @ '' killed by signal '' @ dec_int sg])
   \<and> (mset ended = mset (children_of pids) \<longrightarrow> mset (demo_multiple_children ended)
       = mset (map (\<lambda>i. ''  pid '' @ dec_int (pids ! i) @ '' exited with code '' @ dec_int (int i + 10)) [0..<3]))
   \<and> (snd (demo_wnohang child rs) \<longleftrightarrow> (\<exists>i<10. i < length rs \<and> rs ! i \<noteq> None))
   \<and> (length js = 5 \<and> (\<forall>j \<in> set js. 10 \<le> j) \<and> list_all moves plan \<and> 55 < length plan \<longrightarrow>
       demo_pipe_fork js plan = ''  child received: '' @ concat (map order_line [1001..1005]))"
  using killed_status [of sg] children_reaped wnohang_reaped [of child 0 rs] pipe_fork_result
  by (simp add: print_status_def exit_status_exited exit_status_code demo_wnohang_def)

theorem child_statuses_witness:
  "print_status 7 (word_of_int 9) = [''  pid '' @ dec_int 7 @ '' killed by signal '' @ dec_int 9]
   \<and> demo_pipe_fork (replicate 5 20) (replicate 60 (Moves 3)) = ''  child received: '' @ concat (map order_line [1001..1005])
   \<and> mset (demo_multiple_children (rev (children_of [5, 6, 7])))
       = mset (map (\<lambda>i. ''  pid '' @ dec_int ([5, 6, 7] ! i) @ '' exited with code '' @ dec_int (int i + 10)) [0..<3])"
  using child_statuses [where pid = 7 and sg = 9 and js = "replicate 5 20" and plan = "replicate 60 (Moves 3)"
      and ended = "rev (children_of [5, 6, 7])" and pids = "[5, 6, 7]"]
  by (simp add: list_all_iff del: upt_rec_numeral)

text \<open>
  The signal loops.  The shutdown loop returns after exactly the iterations that precede the first \<^verbatim>\<open>SIGTERM\<close> or \<^verbatim>\<open>SIGINT\<close>.
  The reload loop reloads once for every iteration in which at least one \<^verbatim>\<open>SIGUSR1\<close> arrived (several in one iteration
  coalesce); a reload requested in the last moment before the stop signal is seen stays pending.
\<close>

theorem signal_loops:
  assumes "\<not> g_stop s" and "\<not> g_reload s"
  shows "((\<exists>t. shutdown_loop rounds s = Some (n, t)) \<longleftrightarrow>
        n < length rounds \<and> stops (rounds ! n) \<and> (\<forall>i<n. \<not> stops (rounds ! i)))
    \<and> ((\<forall>(b, w) \<in> set xs. \<not> stops b \<and> \<not> stops w) \<and> stops b \<longrightarrow>
        (\<exists>t. reload_loop (xs @ (b, w) # ys) s = Some (length (filter (\<lambda>(b, w). sigusr1 \<in> set b \<union> set w) xs), t)
           \<and> (g_reload t \<longleftrightarrow> sigusr1 \<in> set b)))"
  using shutdown_first_stop [OF assms(1)] reload_counts [OF _ _ assms] by blast

theorem signal_loops_witness:
  "(\<exists>t. shutdown_loop [[], [10], [15]] sig_init = Some (2, t))
   \<and> (\<exists>t. reload_loop [([10, 10], []), ([], [10]), ([], []), ([10, 15], [])] sig_init = Some (2, t) \<and> g_reload t)"
proof -
  have i: "\<not> g_stop sig_init" "\<not> g_reload sig_init" by (simp_all add: sig_init_def)
  show ?thesis
    using signal_loops [OF i, of "[[], [10], [15]]" 2 "[([10, 10], []), ([], [10]), ([], [])]" "[10, 15]" "[]" "[]"]
    by (auto simp: stops_def sigterm_def sigint_def sigusr1_def less_Suc_eq numeral_eq_Suc)
qed

text \<open>
  The mode string of \<open>print_stat\<close> shows exactly the nine permission bits: two modes have the same string exactly when these bits
  agree, it always has nine characters, and mode 0644 prints as \<open>rw-r--r--\<close>.
\<close>

theorem mode_string:
  "(perm_string m = perm_string m' \<longleftrightarrow> take_bit 9 m = take_bit 9 m') \<and> length (perm_string m) = 9
   \<and> perm_string 0x1A4 = ''rw-r--r--'' \<and> mode_type (0x81A4) = ''reg ''"
proof (intro conjI)
  show "perm_string m = perm_string m' \<longleftrightarrow> take_bit 9 m = take_bit 9 m'" by (rule perm_string_bits)
  show "length (perm_string m) = 9" by (simp add: perm_string_def)
qed code_simp+

end
