(* ===== verification/Raii.thy ===== *)
theory Raii
  imports Copy_Swap
begin

text \<open>
  The owning classes of \<^verbatim>\<open>raii/\<close>: \<open>Buffer\<close> (\<^verbatim>\<open>01_memory.cpp\<close>), \<open>FileHandle\<close> (\<^verbatim>\<open>02_file.cpp\<close>), \<open>UniqueBuffer\<close>
  (\<^verbatim>\<open>03_move.cpp\<close>), the locks of \<^verbatim>\<open>04_lock.cpp\<close>, the \<open>unique_ptr\<close> with a deleter of \<^verbatim>\<open>05_custom_deleter.cpp\<close> and the nodes of
  \<^verbatim>\<open>06_rule_of_zero.cpp\<close>, over the free store of \<^verbatim>\<open>Copy_Swap\<close>.  A handle of the C library is a block like any
  other: \<open>fopen\<close> allocates it or fails, \<open>fclose\<close> frees it.
\<close>

section \<open>Objects that own one resource\<close>

text \<open>The objects constructed so far, by number; \<open>None\<close> after the destructor has run.\<close>

record world =
  objs :: "owner option list"
  heap :: "int mem"

definition world_init :: world where
  "world_init = \<lparr>objs = [], heap = mem_empty\<rparr>"

definition obj_at :: "world \<Rightarrow> nat \<Rightarrow> owner option" where
  "obj_at w i = (if i < length (objs w) then objs w ! i else None)"

text \<open>The constructor: \<open>new\<close> or \<open>fopen\<close> may fail, and then there is no object.\<close>

definition construct_obj :: "bool \<Rightarrow> nat \<Rightarrow> world \<Rightarrow> world" where
  "construct_obj ok n w =
     (case construct ok n (replicate n 0) (heap w) of
        Inl e \<Rightarrow> w
      | Inr (x, m) \<Rightarrow> w\<lparr>objs := objs w @ [Some x], heap := m\<rparr>)"

definition move_ctor :: "nat \<Rightarrow> world \<Rightarrow> world" where
  "move_ctor i w =
     (case obj_at w i of
        None \<Rightarrow> w
      | Some y \<Rightarrow> (case move_construct y of (x, y') \<Rightarrow> w\<lparr>objs := (objs w)[i := Some y'] @ [Some x]\<rparr>))"

text \<open>Move assignment of \<open>UniqueBuffer\<close>: a self-check, then release, then steal.\<close>

definition move_assign_obj :: "nat \<Rightarrow> nat \<Rightarrow> world \<Rightarrow> world" where
  "move_assign_obj i j w =
     (if i = j then w
      else case (obj_at w i, obj_at w j) of
             (Some x, Some y) \<Rightarrow>
               w\<lparr>objs := (objs w)[i := Some y, j := Some \<lparr>data_ptr = None, data_size = 0\<rparr>], heap := mem_delete (data_ptr x) (heap w)\<rparr>
           | _ \<Rightarrow> w)"

definition destroy_obj :: "nat \<Rightarrow> world \<Rightarrow> world" where
  "destroy_obj i w =
     (case obj_at w i of
        None \<Rightarrow> w
      | Some x \<Rightarrow> w\<lparr>objs := (objs w)[i := None], heap := destroy x (heap w)\<rparr>)"

datatype raii_op = Construct bool nat | Move_Construct nat | Move_Assign nat nat | Destroy nat

fun raii_exec :: "raii_op \<Rightarrow> world \<Rightarrow> world" where
  "raii_exec (Construct ok n) w = construct_obj ok n w"
| "raii_exec (Move_Construct i) w = move_ctor i w"
| "raii_exec (Move_Assign i j) w = move_assign_obj i j w"
| "raii_exec (Destroy i) w = destroy_obj i w"

text \<open>The end of a scope, also when an exception leaves it: the destructors run in reverse order of construction.\<close>

definition end_scope :: "world \<Rightarrow> world" where
  "end_scope w = fold destroy_obj (rev [0..<length (objs w)]) w"

text \<open>\<open>raw_leak\<close> allocates without an owner; \<open>raii_safe\<close> and \<open>preferred\<close> throw while the owner is in scope.\<close>

definition raw_leak :: "int mem \<Rightarrow> int mem" where
  "raw_leak m = snd (mem_new (replicate 100 0) m)"

definition raii_safe :: "world \<Rightarrow> world" where
  "raii_safe w = end_scope (construct_obj True 100 w)"

section \<open>The printing of UniqueBuffer\<close>

definition raii_print :: "raii_op \<Rightarrow> world \<Rightarrow> console" where
  "raii_print op w =
     (case op of
        Construct ok n \<Rightarrow> if ok then [''[construct]  acquired '' @ dec_nat n @ '' ints''] else []
      | Move_Construct i \<Rightarrow> if obj_at w i = None then [] else [''[move ctor]  ownership transferred'']
      | Move_Assign i j \<Rightarrow>
          if i = j \<or> obj_at w i = None \<or> obj_at w j = None then [] else [''[move assign] ownership transferred'']
      | Destroy i \<Rightarrow>
          (case obj_at w i of
             None \<Rightarrow> []
           | Some x \<Rightarrow> if data_ptr x = None then [''[destruct]   moved-from, no-op''] else [''[destruct]   released'']))"

fun raii_run :: "raii_op list \<Rightarrow> world \<Rightarrow> console \<times> world" where
  "raii_run [] w = ([], w)"
| "raii_run (op # ops) w = (case raii_run ops (raii_exec op w) of (out, w') \<Rightarrow> (raii_print op w @ out, w'))"

definition size_of :: "world \<Rightarrow> nat \<Rightarrow> string" where
  "size_of w i = (case obj_at w i of None \<Rightarrow> [] | Some x \<Rightarrow> dec_nat (data_size x))"

text \<open>\<open>main\<close> of \<^verbatim>\<open>03_move.cpp\<close>: \<open>a\<close>, \<open>b\<close> and \<open>c\<close> are the objects 0, 1 and 2; returning from \<open>make_buffer\<close> elides the move.\<close>

definition move_main :: "console \<times> world" where
  "move_main =
     (case raii_run [Construct True 4, Move_Construct 0] world_init of
        (o1, w1) \<Rightarrow>
          (case raii_run [Construct True 8, Move_Assign 2 1] w1 of
             (o2, w2) \<Rightarrow>
               (case raii_run [Destroy 2, Destroy 1, Destroy 0] w2 of
                  (o3, w3) \<Rightarrow> (o1 @ [''b.size='' @ size_of w1 1 @ '', a is moved-from'', []] @ o2 @ [''c.size='' @ size_of w2 2, []] @ o3, w3))))"

section \<open>The nodes\<close>

text \<open>\<open>BadNode\<close>: copy assignment (\<open>self\<close> is \<open>this == &o\<close>) frees before it allocates; move assignment has no self-check.\<close>

definition bad_copy_assign :: "bool \<Rightarrow> bool \<Rightarrow> owner \<Rightarrow> owner \<Rightarrow> int mem \<Rightarrow> cs_error option \<times> owner \<times> int mem" where
  "bad_copy_assign self ok x y m =
     (if self then (None, x, m)
      else let m = mem_delete (data_ptr x) m
           in case contents y m of
                None \<Rightarrow> (Some Null_Read, x, m)
              | Some v \<Rightarrow> if \<not> ok then (Some Bad_Alloc, x, m)
                          else (case mem_new v m of (p, m') \<Rightarrow> (None, x\<lparr>data_ptr := Some p\<rparr>, m')))"

definition bad_move_assign :: "owner \<Rightarrow> owner \<Rightarrow> int mem \<Rightarrow> owner \<times> owner \<times> int mem" where
  "bad_move_assign x y m = (x\<lparr>data_ptr := data_ptr y\<rparr>, y\<lparr>data_ptr := None\<rparr>, mem_delete (data_ptr x) m)"

text \<open>Assigned to itself there is one object: its pointer is freed, copied onto itself and set to null.\<close>

definition bad_self_move :: "owner \<Rightarrow> int mem \<Rightarrow> owner \<times> int mem" where
  "bad_self_move x m = (x\<lparr>data_ptr := None\<rparr>, mem_delete (data_ptr x) m)"

text \<open>\<open>Config\<close> is a value: copying copies, moving empties the source.\<close>

record config =
  cname :: string
  ckeys :: "string list"

definition config_copy :: "config \<Rightarrow> config" where
  "config_copy c = c"

definition config_move :: "config \<Rightarrow> config \<times> config" where
  "config_move c = (c, \<lparr>cname = [], ckeys = []\<rparr>)"

definition config_print :: "config \<Rightarrow> string" where
  "config_print c = cname c @ '': '' @ concat (map (\<lambda>k. k @ '' '') (ckeys c))"

definition zero_main :: console where
  "zero_main =
     (let a = \<lparr>cname = ''db'', ckeys = [''host'', ''port'', ''user'']\<rparr>;
          b = config_copy a;
          (c, a) = config_move a
      in [config_print b, config_print c, ''GoodNode value: '' @ dec_int 42])"

section \<open>Locks\<close>

text \<open>
  \<open>None\<close> is a call that blocks on a mutex that is held for ever; the flag of the result is whether the
  function threw.
\<close>

record lock_state =
  held :: bool
  g_counter :: int

definition lock_mutex :: "lock_state \<Rightarrow> lock_state option" where
  "lock_mutex s = (if held s then None else Some (s\<lparr>held := True\<rparr>))"

definition unlock_mutex :: "lock_state \<Rightarrow> lock_state" where
  "unlock_mutex s = s\<lparr>held := False\<rparr>"

definition bump :: "lock_state \<Rightarrow> lock_state" where
  "bump s = s\<lparr>g_counter := g_counter s + 1\<rparr>"

definition unsafe_increment :: "lock_state \<Rightarrow> (bool \<times> lock_state) option" where
  "unsafe_increment s = (case lock_mutex s of None \<Rightarrow> None | Some s \<Rightarrow> Some (True, bump s))"

definition safe_increment :: "lock_state \<Rightarrow> (bool \<times> lock_state) option" where
  "safe_increment s = (case lock_mutex s of None \<Rightarrow> None | Some s \<Rightarrow> Some (False, unlock_mutex (bump s)))"

definition work_with_unlock :: "lock_state \<Rightarrow> (bool \<times> lock_state) option" where
  "work_with_unlock s =
     (case lock_mutex s of
        None \<Rightarrow> None
      | Some s \<Rightarrow> (case lock_mutex (unlock_mutex (bump s)) of None \<Rightarrow> None | Some s \<Rightarrow> Some (False, unlock_mutex (bump s))))"

definition lock_main :: "string option" where
  "lock_main =
     (case safe_increment \<lparr>held = False, g_counter = 0\<rparr> of
        None \<Rightarrow> None
      | Some (_, s) \<Rightarrow> (case work_with_unlock s of
            None \<Rightarrow> None
          | Some (_, s) \<Rightarrow> Some (''counter = '' @ dec_int (g_counter s) @ '' (expected 3)'')))"

section \<open>Ownership\<close>

text \<open>
  The pointers of the objects: no two own the same block, and the allocated blocks are exactly the owned ones.
\<close>

definition ptr :: "world \<Rightarrow> nat \<Rightarrow> nat option" where
  "ptr w i = (case obj_at w i of None \<Rightarrow> None | Some x \<Rightarrow> data_ptr x)"

definition uniq :: "(nat \<Rightarrow> nat option) \<Rightarrow> bool" where
  "uniq P \<longleftrightarrow> (\<forall>i j p. P i = Some p \<longrightarrow> P j = Some p \<longrightarrow> i = j)"

definition owns :: "(nat \<Rightarrow> nat option) \<Rightarrow> (nat \<Rightarrow> 'a list option) \<Rightarrow> bool" where
  "owns P B \<longleftrightarrow> uniq P \<and> dom B = ran P"

definition raii_inv :: "world \<Rightarrow> bool" where
  "raii_inv w \<longleftrightarrow> mem_ok (heap w) \<and> owns (ptr w) (blocks (heap w))"

lemma uniqI: "(\<And>i j p. P i = Some p \<Longrightarrow> P j = Some p \<Longrightarrow> i = j) \<Longrightarrow> uniq P"
  unfolding uniq_def by blast

lemma uniqD: "uniq P \<Longrightarrow> P i = Some p \<Longrightarrow> P j = Some p \<Longrightarrow> i = j"
  unfolding uniq_def by blast

lemma owns_new:
  assumes "owns P B" and "P k = None" and "B p = None"
  shows "owns (P(k := Some p)) (B(p := Some xs))"
proof -
  have "p \<notin> ran P" using assms(1,3) by (auto simp: owns_def)
  then have no: "P i \<noteq> Some p" for i by (auto simp: ran_def)
  have u: "uniq P" using assms(1) by (simp add: owns_def)
  have "uniq (P(k := Some p))"
  proof (rule uniqI)
    fix i j q assume "(P(k := Some p)) i = Some q" "(P(k := Some p)) j = Some q"
    then show "i = j" using no [of i] no [of j] uniqD [OF u, of i q j] by (cases "i = k"; cases "j = k") auto
  qed
  then show ?thesis using assms by (simp add: owns_def ran_map_upd)
qed

lemma owns_move:
  assumes "owns P B" and "P k = None" and "i \<noteq> k"
  shows "owns (P(i := None, k := P i)) B"
proof -
  let ?Q = "P(i := None, k := P i)"
  have u: "uniq P" using assms(1) by (simp add: owns_def)
  have "uniq ?Q"
  proof (rule uniqI)
    fix a b q assume "?Q a = Some q" "?Q b = Some q"
    then have "P (if a = k then i else a) = Some q" "P (if b = k then i else b) = Some q" "a \<noteq> i" "b \<noteq> i"
      using assms(3) by (auto split: if_splits)
    then show "a = b" using uniqD [OF u, of "if a = k then i else a" q "if b = k then i else b"]
      by (auto split: if_splits)
  qed
  moreover have "ran ?Q = ran P"
  proof (intro set_eqI iffI)
    fix q assume "q \<in> ran ?Q"
    then show "q \<in> ran P" by (auto simp: ran_def split: if_splits)
  next
    fix q assume "q \<in> ran P"
    then obtain a where a: "P a = Some q" by (auto simp: ran_def)
    then have "?Q (if a = i then k else a) = Some q" using assms(2) by auto
    then show "q \<in> ran ?Q" unfolding ran_def by blast
  qed
  ultimately show ?thesis using assms(1) by (auto simp: owns_def)
qed

lemma owns_drop:
  assumes "owns P B"
  shows "owns (P(i := None)) (case P i of None \<Rightarrow> B | Some p \<Rightarrow> B(p := None))"
proof (cases "P i")
  case None
  then have "P(i := None) = P" by auto
  with None assms show ?thesis by simp
next
  case (Some p)
  have u: "uniq P" using assms by (simp add: owns_def)
  have "ran (P(i := None)) = ran P - {p}"
  proof (intro set_eqI iffI)
    fix q assume "q \<in> ran (P(i := None))"
    then obtain a where "a \<noteq> i" "P a = Some q" by (auto simp: ran_def split: if_splits)
    with uniqD [OF u Some, of a] show "q \<in> ran P - {p}" by (auto simp: ran_def)
  next
    fix q assume "q \<in> ran P - {p}"
    then obtain a where "P a = Some q" "q \<noteq> p" by (auto simp: ran_def)
    then have "(P(i := None)) a = Some q" using Some by auto
    then show "q \<in> ran (P(i := None))" unfolding ran_def by blast
  qed
  moreover have "uniq (P(i := None))"
  proof (rule uniqI)
    fix a b q assume "(P(i := None)) a = Some q" "(P(i := None)) b = Some q"
    then show "a = b" using uniqD [OF u, of a q b] by (auto split: if_splits)
  qed
  ultimately show ?thesis using Some assms by (simp add: owns_def)
qed

lemma ptr_beyond [simp]: "length (objs w) \<le> i \<Longrightarrow> ptr w i = None"
  by (simp add: ptr_def obj_at_def)

lemma mem_delete_blocks:
  "blocks (mem_delete q m) = (case q of None \<Rightarrow> blocks m | Some p \<Rightarrow> (blocks m)(p := None))"
  by (simp add: mem_delete_def split: option.splits)

lemma mem_delete_ok:
  assumes "mem_ok m" and "owns P (blocks m)" and "P i = q"
  shows "mem_ok (mem_delete q m)"
proof (cases q)
  case (Some p)
  then have "p \<in> ran P" using assms(3) by (auto simp: ran_def)
  then have "blocks m p \<noteq> None" using assms(2) by (auto simp: owns_def)
  with Some assms(1) show ?thesis by (auto simp: mem_ok_def mem_delete_def)
qed (use assms(1) in \<open>simp add: mem_delete_def\<close>)

lemma construct_obj_inv: "raii_inv w \<Longrightarrow> raii_inv (construct_obj ok n w)"
proof -
  assume inv: "raii_inv w"
  have "ptr (construct_obj True n w) = (ptr w)(length (objs w) := Some (next_block (heap w)))"
    by (auto simp: ptr_def obj_at_def construct_obj_def construct_def mem_new_def nth_append fun_eq_iff)
  moreover have "blocks (heap w) (next_block (heap w)) = None" using inv by (simp add: raii_inv_def mem_ok_def)
  ultimately have "raii_inv (construct_obj True n w)"
    using inv owns_new [of "ptr w" "blocks (heap w)" "length (objs w)" "next_block (heap w)" "replicate n 0"]
    by (auto simp: raii_inv_def construct_obj_def construct_def mem_new_def mem_ok_def)
  with inv show ?thesis by (cases ok) (simp_all add: construct_obj_def construct_def)
qed

lemma move_ctor_inv: "raii_inv w \<Longrightarrow> raii_inv (move_ctor i w)"
proof (cases "obj_at w i")
  case (Some y)
  assume inv: "raii_inv w"
  from Some have i: "i < length (objs w)" by (auto simp: obj_at_def split: if_splits)
  with Some have "ptr (move_ctor i w) = (ptr w)(i := None, length (objs w) := ptr w i)"
    by (auto simp: ptr_def obj_at_def move_ctor_def move_construct_def nth_append fun_eq_iff nth_list_update)
  moreover have "heap (move_ctor i w) = heap w" by (simp add: move_ctor_def Some move_construct_def)
  ultimately show ?thesis
    using inv i owns_move [of "ptr w" "blocks (heap w)" "length (objs w)" i] by (simp add: raii_inv_def)
qed (simp add: move_ctor_def)

lemma destroy_obj_inv:
  assumes "raii_inv w"
  shows "raii_inv (destroy_obj i w)" and "ptr (destroy_obj i w) = (ptr w)(i := None)"
    and "objs (destroy_obj i w) = (if obj_at w i = None then objs w else (objs w)[i := None])"
proof -
  show p: "ptr (destroy_obj i w) = (ptr w)(i := None)"
    by (auto simp: ptr_def obj_at_def destroy_obj_def fun_eq_iff nth_list_update split: option.splits)
  show "objs (destroy_obj i w) = (if obj_at w i = None then objs w else (objs w)[i := None])"
    by (auto simp: destroy_obj_def split: option.splits)
  show "raii_inv (destroy_obj i w)"
  proof (cases "obj_at w i")
    case (Some x)
    then have x: "ptr w i = data_ptr x" by (simp add: ptr_def)
    have "heap (destroy_obj i w) = mem_delete (ptr w i) (heap w)" by (simp add: destroy_obj_def Some destroy_def x)
    with assms p show ?thesis
      using owns_drop [of "ptr w" "blocks (heap w)" i] mem_delete_ok [of "heap w" "ptr w" i]
      by (simp add: raii_inv_def mem_delete_blocks)
  qed (use assms in \<open>simp add: destroy_obj_def\<close>)
qed

lemma move_assign_inv: "raii_inv w \<Longrightarrow> raii_inv (move_assign_obj i j w)"
proof (cases "i = j \<or> obj_at w i = None \<or> obj_at w j = None")
  case False
  assume inv: "raii_inv w"
  from False obtain x y where xy: "obj_at w i = Some x" "obj_at w j = Some y" "i \<noteq> j" by auto
  let ?P = "(ptr w)(i := None)" let ?B = "blocks (mem_delete (data_ptr x) (heap w))"
  have x: "ptr w i = data_ptr x" by (simp add: ptr_def xy)
  have o1: "owns ?P ?B" using inv owns_drop [of "ptr w" "blocks (heap w)" i]
    by (simp add: raii_inv_def mem_delete_blocks x)
  have "owns (?P(j := None, i := ?P j)) ?B" using xy(3) by (intro owns_move o1) auto
  moreover have "ptr (move_assign_obj i j w) = ?P(j := None, i := ?P j)"
    using xy by (auto simp: ptr_def obj_at_def move_assign_obj_def fun_eq_iff nth_list_update split: if_splits)
  moreover have "heap (move_assign_obj i j w) = mem_delete (data_ptr x) (heap w)"
    using xy by (simp add: move_assign_obj_def)
  moreover have "mem_ok (mem_delete (data_ptr x) (heap w))"
    using inv x by (intro mem_delete_ok [of _ "ptr w" i]) (simp_all add: raii_inv_def)
  ultimately show ?thesis by (simp add: raii_inv_def)
qed (auto simp: move_assign_obj_def split: option.splits)

lemma raii_exec_inv: "raii_inv w \<Longrightarrow> raii_inv (raii_exec op w)"
  by (cases op) (simp_all add: construct_obj_inv move_ctor_inv move_assign_inv destroy_obj_inv(1))

interpretation owning: inv_system "\<lambda>w. w = world_init" "\<lambda>w w'. \<exists>op. w' = raii_exec op w" raii_inv
proof unfold_locales
  have "ptr world_init = Map.empty" by (auto simp: ptr_def obj_at_def world_init_def)
  then show "raii_inv s" if "s = world_init" for s
    using that by (simp add: raii_inv_def owns_def uniq_def mem_ok_def world_init_def mem_empty_def)
qed (auto intro: raii_exec_inv)

lemma raii_reachable: "(\<lambda>w w'. \<exists>op. w' = raii_exec op w)\<^sup>*\<^sup>* w (fold raii_exec ops w)"
proof (induction ops arbitrary: w)
  case (Cons op ops)
  have "(\<lambda>w w'. \<exists>op. w' = raii_exec op w)\<^sup>*\<^sup>* w (raii_exec op w)" by blast
  with Cons [of "raii_exec op w"] show ?case by (auto intro: rtranclp_trans)
qed simp

lemma raii_run_inv: "raii_inv (fold raii_exec ops world_init)"
  using owning.reachable_inv [OF refl raii_reachable] .

lemma destroys_inv:
  "raii_inv w \<Longrightarrow> raii_inv (fold destroy_obj is w) \<and> (\<forall>i \<in> set is. ptr (fold destroy_obj is w) i = None)
     \<and> (\<forall>i. ptr w i = None \<longrightarrow> ptr (fold destroy_obj is w) i = None)"
proof (induction "is" arbitrary: w)
  case (Cons i "is")
  from Cons.IH [OF destroy_obj_inv(1) [OF Cons.prems, of i]] destroy_obj_inv(2) [OF Cons.prems, of i]
  show ?case by auto
qed simp

text \<open>When all objects are destroyed, no block is left.\<close>

lemma end_scope_clean:
  assumes "raii_inv w"
  shows "blocks (heap (end_scope w)) = Map.empty" and "\<not> bad_free (heap (end_scope w))"
proof -
  have inv: "raii_inv (end_scope w)" and p: "ptr (end_scope w) i = None" for i
    using destroys_inv [OF assms, of "rev [0..<length (objs w)]"]
    by (simp_all add: end_scope_def) (metis atLeastLessThan_iff le0 linorder_not_le ptr_beyond)
  then have "ran (ptr (end_scope w)) = {}" by (simp add: ran_def)
  with inv show "blocks (heap (end_scope w)) = Map.empty" by (simp add: raii_inv_def owns_def)
  from inv show "\<not> bad_free (heap (end_scope w))" by (simp add: raii_inv_def mem_ok_def)
qed

section \<open>Properties\<close>

text \<open>
  C21: Unique ownership.  Whatever sequence of constructions (failing or not), move constructions, move assignments and
  destructions runs, nothing is freed twice, no two objects own the same block, and every allocated block has an owner; so
  when the scope ends, normally or by an exception, no block is left.  A block allocated without an owner is left.
\<close>

theorem unique_ownership:
  "let w = fold raii_exec ops world_init
   in \<not> bad_free (heap w)
     \<and> uniq (ptr w) \<and> dom (blocks (heap w)) = ran (ptr w)
     \<and> blocks (heap (end_scope w)) = Map.empty \<and> \<not> bad_free (heap (end_scope w))
     \<and> blocks (raw_leak (heap w)) (next_block (heap w)) \<noteq> None"
  using raii_run_inv [of ops] end_scope_clean [OF raii_run_inv [of ops]]
  by (simp add: Let_def raii_inv_def mem_ok_def owns_def raw_leak_def mem_new_def)

text \<open>
  The pitfalls the files warn of.  Copy assignment of \<open>BadNode\<close> frees its value before it allocates the new one: when the allocation
  throws, the object still holds the freed pointer and its destructor frees it again.  Assigning a node to itself
  by move loses its value.  After \<open>unsafe_increment\<close> throws, the mutex stays locked and the next
  \<open>safe_increment\<close> never returns, while \<open>safe_increment\<close> and \<open>work_with_unlock\<close> always leave it free.
\<close>

theorem raii_pitfalls:
  assumes "data_ptr x = Some p" and "data_ptr y = Some q" and "p \<noteq> q" and "blocks m p \<noteq> None" and "blocks m q \<noteq> None" and "\<not> bad_free m"
  shows "(case bad_copy_assign False False x y m of (e, x', m') \<Rightarrow> e = Some Bad_Alloc \<and> \<not> bad_free m' \<and> bad_free (destroy x' m'))
    \<and> (case bad_self_move x m of (x', m') \<Rightarrow> contents x' m' = None \<and> blocks m' p = None)
    \<and> (\<not> held s \<longrightarrow> (\<exists>t u. unsafe_increment s = Some (True, t) \<and> safe_increment t = None
          \<and> safe_increment s = Some (False, u) \<and> \<not> held u))
    \<and> lock_main = Some ''counter = 3 (expected 3)''"
proof -
  obtain v where "blocks m q = Some v" using assms(5) by auto
  then have "case bad_copy_assign False False x y m of (e, x', m') \<Rightarrow> e = Some Bad_Alloc \<and> \<not> bad_free m' \<and> bad_free (destroy x' m')"
    using assms by (simp add: bad_copy_assign_def mem_delete_def contents_def destroy_def)
  moreover have "lock_main = Some ''counter = 3 (expected 3)''" by code_simp
  ultimately show ?thesis
    using assms by (simp add: bad_self_move_def contents_def mem_delete_def unsafe_increment_def safe_increment_def
        lock_mutex_def bump_def unlock_mutex_def)
qed

theorem raii_pitfalls_witness:
  "let m = \<lparr>blocks = (\<lambda>i. if i < 2 then Some [7] else None), next_block = 2, bad_free = False\<rparr>;
       x = \<lparr>data_ptr = Some 0, data_size = 1\<rparr>; y = \<lparr>data_ptr = Some 1, data_size = 1\<rparr>
   in (case bad_copy_assign False False x y m of (e, x', m') \<Rightarrow> bad_free (destroy x' m'))
      \<and> safe_increment \<lparr>held = True, g_counter = 1\<rparr> = None"
  using raii_pitfalls [of "\<lparr>data_ptr = Some 0, data_size = 1\<rparr>" 0 "\<lparr>data_ptr = Some 1, data_size = 1\<rparr>" 1
    "\<lparr>blocks = (\<lambda>i. if i < 2 then Some [7] else None), next_block = 2, bad_free = False\<rparr>" "\<lparr>held = False, g_counter = 0\<rparr>"]
  by (auto simp: Let_def safe_increment_def lock_mutex_def split: prod.splits)

text \<open>The programs print the listed lines; the moved-from objects are destroyed without effect.\<close>

lemma raii_programs:
  "fst move_main =
     [''[construct]  acquired 4 ints'', ''[move ctor]  ownership transferred'', ''b.size=4, a is moved-from'', [],
      ''[construct]  acquired 8 ints'', ''[move assign] ownership transferred'', ''c.size=4'', [],
      ''[destruct]   released'', ''[destruct]   moved-from, no-op'', ''[destruct]   moved-from, no-op'']"
  "zero_main = [''db: host port user '', ''db: host port user '', ''GoodNode value: 42'']"
  by code_simp+

section \<open>Files\<close>

text \<open>
  \<^verbatim>\<open>02_file.cpp\<close> and \<^verbatim>\<open>05_custom_deleter.cpp\<close>.  The state is the files, the open streams by handle (path and
  buffered text; \<open>None\<close> once closed) and the text printed.  \<open>can path\<close> says whether the system lets the program open the path.
\<close>

record fstate =
  fcontents :: "string \<Rightarrow> string option"
  streams :: "(string \<times> string) option list"
  printed :: console

definition fopen_w :: "(string \<Rightarrow> bool) \<Rightarrow> string \<Rightarrow> fstate \<Rightarrow> nat option \<times> fstate" where
  "fopen_w can path s =
     (if can path
      then (Some (length (streams s)), s\<lparr>fcontents := (fcontents s)(path \<mapsto> []), streams := streams s @ [Some (path, [])]\<rparr>)
      else (None, s))"

definition fputs :: "string \<Rightarrow> nat \<Rightarrow> fstate \<Rightarrow> fstate" where
  "fputs txt h s =
     (case streams s ! h of
        None \<Rightarrow> s
      | Some (path, buf) \<Rightarrow> s\<lparr>streams := (streams s)[h := Some (path, buf @ txt)]\<rparr>)"

definition fclose :: "nat \<Rightarrow> fstate \<Rightarrow> fstate" where
  "fclose h s =
     (case streams s ! h of
        None \<Rightarrow> s
      | Some (path, buf) \<Rightarrow>
          s\<lparr>fcontents := (fcontents s)(path := Some ((case fcontents s path of None \<Rightarrow> [] | Some t \<Rightarrow> t) @ buf)), streams := (streams s)[h := None]\<rparr>)"

definition fsay :: "string \<Rightarrow> fstate \<Rightarrow> fstate" where
  "fsay l s = s\<lparr>printed := printed s @ [l]\<rparr>"

text \<open>
  A function that opens a stream, writes one text and lets the owner's destructor run: \<open>release\<close> is what the
  destructor or deleter does.  When the stream cannot be opened the constructor throws, and there is no owner to destroy.
\<close>

definition write_owned :: "(nat \<Rightarrow> fstate \<Rightarrow> fstate) \<Rightarrow> string \<Rightarrow> (string \<Rightarrow> bool) \<Rightarrow> string \<Rightarrow> fstate \<Rightarrow> (string + unit) \<times> fstate" where
  "write_owned release txt can path s =
     (case fopen_w can path s of
        (None, s) \<Rightarrow> (Inl (''cannot open: '' @ path), s)
      | (Some h, s) \<Rightarrow> (Inr (), release h (fputs txt h s)))"

definition write_c_style :: "(string \<Rightarrow> bool) \<Rightarrow> string \<Rightarrow> fstate \<Rightarrow> (string + unit) \<times> fstate" where
  "write_c_style = write_owned fclose (''hello from FileHandle'' @ nl)"

definition write_fstream :: "(string \<Rightarrow> bool) \<Rightarrow> string \<Rightarrow> fstate \<Rightarrow> (string + unit) \<times> fstate" where
  "write_fstream = write_owned fclose (''hello from fstream'' @ nl)"

definition fclose_deleter :: "nat \<Rightarrow> fstate \<Rightarrow> fstate" where
  "fclose_deleter h s = fsay ''[deleter] fclose called'' (fclose h s)"

definition use_open_file :: "(string \<Rightarrow> bool) \<Rightarrow> string \<Rightarrow> fstate \<Rightarrow> (string + unit) \<times> fstate" where
  "use_open_file = write_owned fclose_deleter (''custom deleter'' @ nl)"

definition use_open_file2 :: "(string \<Rightarrow> bool) \<Rightarrow> string \<Rightarrow> fstate \<Rightarrow> (string + unit) \<times> fstate" where
  "use_open_file2 = write_owned fclose (''function pointer deleter'' @ nl)"

text \<open>Both \<open>main\<close>s call one writer after the other; an exception leaves \<open>main\<close>.\<close>

definition then_do :: "(string + unit) \<times> fstate \<Rightarrow> (fstate \<Rightarrow> (string + unit) \<times> fstate) \<Rightarrow> (string + unit) \<times> fstate" where
  "then_do r f = (case r of (Inl e, s) \<Rightarrow> (Inl e, s) | (Inr _, s) \<Rightarrow> f s)"

definition file_main :: "(string \<Rightarrow> bool) \<Rightarrow> fstate \<Rightarrow> (string + unit) \<times> fstate" where
  "file_main can s =
     then_do (write_c_style can ''/tmp/raii_file1.txt'' s) (\<lambda>s.
     then_do (write_fstream can ''/tmp/raii_file2.txt'' s) (\<lambda>s.
       (Inr (), fsay ''both files written and closed'' s)))"

definition deleter_main :: "(string \<Rightarrow> bool) \<Rightarrow> fstate \<Rightarrow> (string + unit) \<times> fstate" where
  "deleter_main can s =
     then_do (use_open_file can ''/tmp/raii_custom_del.txt'' s) (\<lambda>s.
     then_do (use_open_file2 can ''/tmp/raii_custom_del2.txt'' s) (\<lambda>s.
       (Inr (), fsay ''done'' s)))"

text \<open>\<open>main\<close> of \<^verbatim>\<open>01_memory.cpp\<close>: both functions throw, and their owners are destroyed on the way out.\<close>

definition memory_main :: "world \<Rightarrow> console \<times> world" where
  "memory_main w = ([''raii_safe:  no leak'', ''preferred:  no leak''], raii_safe (raii_safe w))"

text \<open>What a writer does: the file holds the text, its stream is closed, everything else is unchanged.\<close>

lemma write_owned_fclose:
  "write_owned fclose txt can path s =
     (if can path
      then (Inr (), s\<lparr>fcontents := (fcontents s)(path \<mapsto> txt), streams := streams s @ [None]\<rparr>)
      else (Inl (''cannot open: '' @ path), s))"
  by (simp add: write_owned_def fopen_w_def fputs_def fclose_def nth_append)

lemma write_owned_deleter:
  "write_owned fclose_deleter txt can path s =
     (if can path
      then (Inr (), s\<lparr>fcontents := (fcontents s)(path \<mapsto> txt), streams := streams s @ [None],
              printed := printed s @ [''[deleter] fclose called'']\<rparr>)
      else (Inl (''cannot open: '' @ path), s))"
  by (simp add: write_owned_def fopen_w_def fputs_def fclose_deleter_def fclose_def fsay_def nth_append)

lemmas file_writers = write_c_style_def write_fstream_def use_open_file_def use_open_file2_def write_owned_fclose write_owned_deleter

text \<open>No program leaves a stream open, whichever paths can be opened; on success both files hold their line.\<close>

lemma file_programs_close:
  "filter (\<lambda>x. x \<noteq> None) (streams (snd (file_main can s))) = filter (\<lambda>x. x \<noteq> None) (streams s)"
  "filter (\<lambda>x. x \<noteq> None) (streams (snd (deleter_main can s))) = filter (\<lambda>x. x \<noteq> None) (streams s)"
  by (simp_all add: file_main_def deleter_main_def then_do_def file_writers fsay_def)

lemma file_programs_write:
  assumes "\<And>path. can path"
  shows "fst (file_main can s) = Inr ()
      \<and> fcontents (snd (file_main can s)) ''/tmp/raii_file1.txt'' = Some (''hello from FileHandle'' @ nl)
      \<and> fcontents (snd (file_main can s)) ''/tmp/raii_file2.txt'' = Some (''hello from fstream'' @ nl)"
    and "printed (snd (deleter_main can s)) = printed s @ [''[deleter] fclose called'', ''done'']"
  using assms by (simp_all add: file_main_def deleter_main_def then_do_def file_writers fsay_def)

lemma file_programs_fail:
  assumes "\<not> can ''/tmp/raii_file2.txt''" and "can ''/tmp/raii_file1.txt''"
  shows "fst (file_main can s) = Inl ''cannot open: /tmp/raii_file2.txt'' \<and> printed (snd (file_main can s)) = printed s"
  using assms by (simp add: file_main_def then_do_def file_writers)

lemma memory_main_clean: "blocks (heap (snd (memory_main world_init))) = Map.empty \<and> \<not> bad_free (heap (snd (memory_main world_init)))"
proof -
  have "raii_inv (raii_safe world_init)"
    unfolding raii_safe_def end_scope_def using raii_run_inv [of "[]"] by (simp add: construct_obj_inv destroys_inv)
  then show ?thesis
    using end_scope_clean [OF construct_obj_inv, of "raii_safe world_init" True 100]
    by (simp add: memory_main_def raii_safe_def [of "raii_safe world_init"])
qed

end
