(* ===== verification/Memory_Order.thy ===== *)
theory Memory_Order
  imports Atomic_Counters
begin

text \<open>
  The atomics of \<^verbatim>\<open>concurrency/04_atomic.cpp\<close> and the acquire/release pairing of \<^verbatim>\<open>05_data_races.cpp\<close>, in a memory
  that is not sequentially consistent: every location keeps the history of its values, a load returns any value
  not older than what its thread has already seen, and only a release store read by an acquire load passes
  on what the storing thread has seen.  Each location here is written by one thread, so its
  modification order is the order of that thread's stores.
\<close>

section \<open>Histories and views\<close>

datatype mem_order = Relaxed | Release | Acquire

text \<open>A view gives for each location the position of the newest value the thread must see.\<close>

type_synonym 'l view = "'l \<Rightarrow> nat"
type_synonym 'l history = "'l \<Rightarrow> (int \<times> 'l view) list"

definition join_view :: "'l view \<Rightarrow> 'l view \<Rightarrow> 'l view" where
  "join_view V W = (\<lambda>l. max (V l) (W l))"

text \<open>A store appends; its message carries the thread's view when the store is a release.\<close>

definition atomic_store :: "mem_order \<Rightarrow> 'l \<Rightarrow> int \<Rightarrow> 'l view \<Rightarrow> 'l history \<Rightarrow> 'l view \<times> 'l history" where
  "atomic_store ord l v V H =
     (let V' = V(l := length (H l))
      in (V', H(l := H l @ [(v, if ord = Release then V' else (\<lambda>_. 0)(l := length (H l)))])))"

text \<open>A load of position \<open>i\<close> of the history, if the thread may still read it.\<close>

definition atomic_load :: "mem_order \<Rightarrow> 'l \<Rightarrow> nat \<Rightarrow> 'l view \<Rightarrow> 'l history \<Rightarrow> (int \<times> 'l view) option" where
  "atomic_load ord l i V H =
     (if V l \<le> i \<and> i < length (H l)
      then Some (fst (H l ! i), join_view (V(l := i)) (if ord = Acquire then snd (H l ! i) else (\<lambda>_. 0)))
      else None)"

definition hist_init :: "'l history" where
  "hist_init = (\<lambda>_. [(0, \<lambda>_. 0)])"

section \<open>Publisher and subscriber\<close>

datatype cell = Data | Flag

datatype sub_pc = Sub_Spin | Sub_Read | Sub_Done int

record mp =
  mp_hist :: "cell history"
  pub_view :: "cell view"
  sub_view :: "cell view"
  pub_at :: nat
  sub_at :: sub_pc

definition mp_init :: mp where
  "mp_init = \<lparr>mp_hist = hist_init, pub_view = (\<lambda>_. 0), sub_view = (\<lambda>_. 0), pub_at = 0, sub_at = Sub_Spin\<rparr>"

text \<open>
  \<open>publisher\<close> stores the data and then the flag with order \<open>wo\<close>; \<open>subscriber\<close> spins on the flag with order \<open>ro\<close> and
  reads the data.  The program has \<open>wo = Release\<close> and \<open>ro = Acquire\<close>.
\<close>

inductive mp_step :: "mem_order \<Rightarrow> mem_order \<Rightarrow> mp \<Rightarrow> mp \<Rightarrow> bool" for wo ro :: mem_order where
  pub_data: "pub_at s = 0 \<Longrightarrow> atomic_store Relaxed Data 42 (pub_view s) (mp_hist s) = (V, H) \<Longrightarrow>
     mp_step wo ro s (s\<lparr>pub_view := V, mp_hist := H, pub_at := 1\<rparr>)"
| pub_flag: "pub_at s = 1 \<Longrightarrow> atomic_store wo Flag 1 (pub_view s) (mp_hist s) = (V, H) \<Longrightarrow>
     mp_step wo ro s (s\<lparr>pub_view := V, mp_hist := H, pub_at := 2\<rparr>)"
| sub_spin: "sub_at s = Sub_Spin \<Longrightarrow> atomic_load ro Flag i (sub_view s) (mp_hist s) = Some (v, V) \<Longrightarrow>
     mp_step wo ro s (s\<lparr>sub_view := V, sub_at := if v = 0 then Sub_Spin else Sub_Read\<rparr>)"
| sub_read: "sub_at s = Sub_Read \<Longrightarrow> atomic_load Relaxed Data i (sub_view s) (mp_hist s) = Some (v, V) \<Longrightarrow>
     mp_step wo ro s (s\<lparr>sub_view := V, sub_at := Sub_Done v\<rparr>)"

text \<open>
  What the histories hold at each point of the publisher, and that the subscriber has seen the data once it has
  left its loop.
\<close>

definition first_msg :: "int \<times> cell view" where
  "first_msg = (0, \<lambda>_. 0)"

definition data_hist :: "nat \<Rightarrow> (int \<times> cell view) list" where
  "data_hist p = (if p = 0 then [first_msg] else [first_msg, (42, (\<lambda>_. 0)(Data := 1))])"

definition flag_hist :: "nat \<Rightarrow> (int \<times> cell view) list" where
  "flag_hist p = (if p = 2 then [first_msg, (1, (\<lambda>_. 0)(Data := 1, Flag := 1))] else [first_msg])"

definition mp_inv :: "mp \<Rightarrow> bool" where
  "mp_inv s \<longleftrightarrow> pub_at s \<le> 2
     \<and> mp_hist s Data = data_hist (pub_at s) \<and> mp_hist s Flag = flag_hist (pub_at s)
     \<and> pub_view s = (if pub_at s = 0 then (\<lambda>_. 0) else if pub_at s = 1 then (\<lambda>_. 0)(Data := 1) else (\<lambda>_. 0)(Data := 1, Flag := 1))
     \<and> sub_view s Flag < length (flag_hist (pub_at s)) \<and> sub_view s Data < length (data_hist (pub_at s))
     \<and> (sub_at s \<noteq> Sub_Spin \<longrightarrow> sub_view s Data = 1 \<and> pub_at s = 2)
     \<and> (\<forall>v. sub_at s = Sub_Done v \<longrightarrow> v = 42)"

lemmas mp_hists = data_hist_def flag_hist_def first_msg_def

lemma mp_inv_init: "mp_inv mp_init"
  by (simp add: mp_inv_def mp_init_def hist_init_def mp_hists)

lemma mp_inv_step: "mp_inv s \<Longrightarrow> mp_step Release Acquire s t \<Longrightarrow> mp_inv t"
proof (erule mp_step.cases, goal_cases)
  case (1 s V H)
  then show ?case by (auto simp: mp_inv_def mp_hists atomic_store_def Let_def)
next
  case (2 s V H)
  then show ?case by (auto simp: mp_inv_def mp_hists atomic_store_def Let_def)
next
  case (3 s i v V)
  then show ?case
    by (auto simp: mp_inv_def mp_hists atomic_load_def join_view_def less_Suc_eq nth_Cons' split: if_splits)
next
  case (4 s i v V)
  then show ?case
    by (auto simp: mp_inv_def mp_hists atomic_load_def join_view_def less_Suc_eq nth_Cons' split: if_splits)
qed

interpretation pairing: inv_system "\<lambda>s. s = mp_init" "mp_step Release Acquire" mp_inv
  by unfold_locales (auto intro: mp_inv_init mp_inv_step)

text \<open>One step chosen by a scheduler: the publisher, or the subscriber reading position \<open>i\<close>.\<close>

datatype mp_choice = Pub | Sub nat

definition mp_next :: "mem_order \<Rightarrow> mem_order \<Rightarrow> mp_choice \<Rightarrow> mp \<Rightarrow> mp option" where
  "mp_next wo ro c s =
     (case c of
        Pub \<Rightarrow>
          if pub_at s = 0 then (case atomic_store Relaxed Data 42 (pub_view s) (mp_hist s) of
            (V, H) \<Rightarrow> Some (s\<lparr>pub_view := V, mp_hist := H, pub_at := 1\<rparr>))
          else if pub_at s = 1 then (case atomic_store wo Flag 1 (pub_view s) (mp_hist s) of
            (V, H) \<Rightarrow> Some (s\<lparr>pub_view := V, mp_hist := H, pub_at := 2\<rparr>))
          else None
      | Sub i \<Rightarrow>
          (case sub_at s of
             Sub_Spin \<Rightarrow> (case atomic_load ro Flag i (sub_view s) (mp_hist s) of
                 None \<Rightarrow> None
               | Some (v, V) \<Rightarrow> Some (s\<lparr>sub_view := V, sub_at := if v = 0 then Sub_Spin else Sub_Read\<rparr>))
           | Sub_Read \<Rightarrow> (case atomic_load Relaxed Data i (sub_view s) (mp_hist s) of
                 None \<Rightarrow> None
               | Some (v, V) \<Rightarrow> Some (s\<lparr>sub_view := V, sub_at := Sub_Done v\<rparr>))
           | Sub_Done v \<Rightarrow> None))"

fun mp_run :: "mem_order \<Rightarrow> mem_order \<Rightarrow> mp_choice list \<Rightarrow> mp \<Rightarrow> mp option" where
  "mp_run wo ro [] s = Some s"
| "mp_run wo ro (c # cs) s = (case mp_next wo ro c s of None \<Rightarrow> None | Some t \<Rightarrow> mp_run wo ro cs t)"

lemma mp_next_step: "mp_next wo ro c s = Some t \<Longrightarrow> mp_step wo ro s t"
  by (auto simp: mp_next_def dest: pub_data [of _ _ _ wo ro] pub_flag [of _ wo _ _ ro] sub_spin [of _ ro _ _ _ wo] sub_read [of _ _ _ _ wo ro] intro: pub_flag split: mp_choice.splits if_splits prod.splits sub_pc.splits option.splits)

lemma mp_run_steps: "mp_run wo ro cs s = Some t \<Longrightarrow> (mp_step wo ro)\<^sup>*\<^sup>* s t"
  by (induction cs arbitrary: s) (auto split: option.splits dest: mp_next_step intro: converse_rtranclp_into_rtranclp)

lemma mp_run_reaches:
  "map_option sub_at (mp_run wo ro cs s) = Some c \<Longrightarrow> \<exists>u. (mp_step wo ro)\<^sup>*\<^sup>* s u \<and> sub_at u = c"
  by (auto dest: mp_run_steps)

text \<open>From every reachable state the publisher can finish, and then the subscriber can read the newest values.\<close>

definition pub_rest :: "mp \<Rightarrow> mp_choice list" where
  "pub_rest s = replicate (2 - pub_at s) Pub"

definition sub_rest :: "mp \<Rightarrow> mp_choice list" where
  "sub_rest s = (case sub_at s of Sub_Spin \<Rightarrow> [Sub 1, Sub 1] | Sub_Read \<Rightarrow> [Sub 1] | Sub_Done v \<Rightarrow> [])"

lemma mp_run_append:
  "mp_run wo ro (xs @ ys) s = (case mp_run wo ro xs s of None \<Rightarrow> None | Some t \<Rightarrow> mp_run wo ro ys t)"
  by (induction xs arbitrary: s) (auto split: option.splits)

lemma pub_can_finish:
  assumes "mp_inv s"
  shows "\<exists>t. mp_run Release Acquire (pub_rest s) s = Some t \<and> mp_inv t \<and> pub_at t = 2 \<and> sub_at t = sub_at s"
proof -
  have "pub_at s = 0 \<or> pub_at s = 1 \<or> pub_at s = 2" using assms by (auto simp: mp_inv_def)
  moreover have "\<exists>t. mp_run Release Acquire (pub_rest s) s = Some t \<and> pub_at t = 2 \<and> sub_at t = sub_at s" if "pub_at s = 0 \<or> pub_at s = 1 \<or> pub_at s = 2"
    using that by (auto simp: pub_rest_def mp_next_def atomic_store_def Let_def numeral_2_eq_2)
  ultimately show ?thesis
    using pairing.steps_inv [OF mp_run_steps assms] by blast
qed

lemma sub_can_finish:
  assumes "mp_inv s" and "pub_at s = 2"
  shows "\<exists>t. mp_run Release Acquire (sub_rest s) s = Some t \<and> sub_at t = Sub_Done 42"
  using assms
  by (cases "sub_at s") (auto simp: sub_rest_def mp_next_def atomic_load_def join_view_def mp_inv_def mp_hists)

lemma mp_can_finish:
  assumes "mp_inv s"
  shows "\<exists>t. (mp_step Release Acquire)\<^sup>*\<^sup>* s t \<and> sub_at t = Sub_Done 42"
proof -
  obtain t where t: "mp_run Release Acquire (pub_rest s) s = Some t" "mp_inv t" "pub_at t = 2"
    using pub_can_finish [OF assms] by blast
  obtain u where "mp_run Release Acquire (sub_rest t) t = Some u" "sub_at u = Sub_Done 42"
    using sub_can_finish [OF t(2,3)] by blast
  with t(1) show ?thesis by (meson mp_run_steps rtranclp_trans)
qed

section \<open>Signalling through a flag and a join\<close>

text \<open>
  The worker of \<^verbatim>\<open>04_atomic.cpp\<close> spins on \<open>ready\<close> (\<open>Flag\<close>), then stores \<open>result\<close> (\<open>Data\<close>) relaxed; \<open>main\<close> sets the flag, joins the worker
  and reads the result.  Joining makes everything the worker has done visible to \<open>main\<close>.
\<close>

datatype join_pc = M_Signal | M_Join | M_Read | M_End int
datatype worker_pc = Wk_Spin | Wk_Store | Wk_End

record sig =
  sig_hist :: "cell history"
  main_view :: "cell view"
  worker_view :: "cell view"
  main_at :: join_pc
  worker_at :: worker_pc

definition signal_init :: sig where
  "signal_init = \<lparr>sig_hist = hist_init, main_view = (\<lambda>_. 0), worker_view = (\<lambda>_. 0), main_at = M_Signal, worker_at = Wk_Spin\<rparr>"

inductive sig_step :: "sig \<Rightarrow> sig \<Rightarrow> bool" where
  sig_signal: "main_at s = M_Signal \<Longrightarrow> atomic_store Release Flag 1 (main_view s) (sig_hist s) = (V, H) \<Longrightarrow>
     sig_step s (s\<lparr>main_view := V, sig_hist := H, main_at := M_Join\<rparr>)"
| sig_spin: "worker_at s = Wk_Spin \<Longrightarrow> atomic_load Acquire Flag i (worker_view s) (sig_hist s) = Some (v, V) \<Longrightarrow>
     sig_step s (s\<lparr>worker_view := V, worker_at := if v = 0 then Wk_Spin else Wk_Store\<rparr>)"
| sig_store: "worker_at s = Wk_Store \<Longrightarrow> atomic_store Relaxed Data 42 (worker_view s) (sig_hist s) = (V, H) \<Longrightarrow>
     sig_step s (s\<lparr>worker_view := V, sig_hist := H, worker_at := Wk_End\<rparr>)"
| sig_join: "main_at s = M_Join \<Longrightarrow> worker_at s = Wk_End \<Longrightarrow>
     sig_step s (s\<lparr>main_view := join_view (main_view s) (worker_view s), main_at := M_Read\<rparr>)"
| sig_read: "main_at s = M_Read \<Longrightarrow> atomic_load Acquire Data i (main_view s) (sig_hist s) = Some (v, V) \<Longrightarrow>
     sig_step s (s\<lparr>main_view := V, main_at := M_End v\<rparr>)"

definition sig_inv :: "sig \<Rightarrow> bool" where
  "sig_inv s \<longleftrightarrow>
     sig_hist s Flag = (if main_at s = M_Signal then [first_msg] else [first_msg, (1, (\<lambda>_. 0)(Flag := 1))])
     \<and> sig_hist s Data = (if worker_at s = Wk_End then [first_msg, (42, (\<lambda>_. 0)(Data := 1))] else [first_msg])
     \<and> worker_view s Flag < length (sig_hist s Flag)
     \<and> worker_view s Data = (if worker_at s = Wk_End then 1 else 0)
     \<and> (case main_at s of
          M_Signal \<Rightarrow> worker_at s = Wk_Spin \<and> main_view s = (\<lambda>_. 0)
        | M_Join \<Rightarrow> main_view s Data = 0
        | M_Read \<Rightarrow> worker_at s = Wk_End \<and> main_view s Data = 1
        | M_End v \<Rightarrow> worker_at s = Wk_End \<and> v = 42)"

lemma sig_inv_step: "sig_inv s \<Longrightarrow> sig_step s t \<Longrightarrow> sig_inv t"
proof (erule sig_step.cases, goal_cases)
  case (1 s V H)
  then show ?case by (auto simp: sig_inv_def first_msg_def atomic_store_def Let_def)
next
  case (2 s i v V)
  then show ?case
    by (auto simp: sig_inv_def first_msg_def atomic_load_def join_view_def less_Suc_eq split: if_splits join_pc.splits)
next
  case (3 s V H)
  then show ?case by (auto simp: sig_inv_def first_msg_def atomic_store_def Let_def split: if_splits join_pc.splits)
next
  case (4 s)
  then show ?case by (auto simp: sig_inv_def join_view_def)
next
  case (5 s i v V)
  then show ?case
    by (auto simp: sig_inv_def first_msg_def atomic_load_def join_view_def less_Suc_eq split: if_splits join_pc.splits)
qed

interpretation signal: inv_system "\<lambda>s. s = signal_init" sig_step sig_inv
  by unfold_locales (simp add: sig_inv_def signal_init_def hist_init_def first_msg_def, rule sig_inv_step)

text \<open>From every reachable state the program can finish.\<close>

lemma sig_worker_spin:
  assumes "sig_inv s" and "main_at s = M_Join"
  shows "\<exists>t. sig_step\<^sup>*\<^sup>* s t \<and> main_at t = M_Join \<and> worker_at t = Wk_End"
proof -
  have store: "\<exists>t. sig_step\<^sup>*\<^sup>* s t \<and> main_at t = M_Join \<and> worker_at t = Wk_End" if "worker_at s = Wk_Store" "main_at s = M_Join" for s
  proof -
    obtain V H where "atomic_store Relaxed Data 42 (worker_view s) (sig_hist s) = (V, H)" by fastforce
    from sig_store [OF that(1) this] that(2) show ?thesis by (auto intro!: exI [of _ "s\<lparr>worker_view := V, sig_hist := H, worker_at := Wk_End\<rparr>"])
  qed
  show ?thesis
  proof (cases "worker_at s")
    case Wk_Spin
    let ?t = "s\<lparr>worker_view := join_view ((worker_view s)(Flag := 1)) ((\<lambda>_. 0)(Flag := 1)), worker_at := Wk_Store\<rparr>"
    have "atomic_load Acquire Flag 1 (worker_view s) (sig_hist s) =
        Some (1, join_view ((worker_view s)(Flag := 1)) ((\<lambda>_. 0)(Flag := 1)))"
      using assms by (auto simp: sig_inv_def atomic_load_def)
    from sig_spin [OF Wk_Spin this] have "sig_step s ?t" by simp
    then show ?thesis using store [of ?t] assms(2) by (auto intro: converse_rtranclp_into_rtranclp)
  qed (use store assms in auto)
qed

lemma sig_main_finish:
  assumes "sig_inv s" and "main_at s = M_Join" and "worker_at s = Wk_End"
  shows "\<exists>t. sig_step\<^sup>*\<^sup>* s t \<and> main_at t = M_End 42"
proof -
  let ?t = "s\<lparr>main_view := join_view (main_view s) (worker_view s), main_at := M_Read\<rparr>"
  have t: "sig_step s ?t" using sig_join [OF assms(2,3)] .
  have "\<exists>u. sig_step ?t u \<and> main_at u = M_End 42"
    using sig_read [of ?t 1] assms by (fastforce simp: sig_inv_def atomic_load_def join_view_def)
  with t show ?thesis by (meson converse_rtranclp_into_rtranclp r_into_rtranclp)
qed

lemma sig_can_finish:
  assumes "sig_inv s" and "main_at s = M_Signal"
  shows "\<exists>t. sig_step\<^sup>*\<^sup>* s t \<and> main_at t = M_End 42"
proof -
  obtain t where "sig_step s t" "main_at t = M_Join"
    using sig_signal [OF assms(2)] by (fastforce simp: atomic_store_def Let_def)
  moreover from this assms(1) obtain u where "sig_step\<^sup>*\<^sup>* t u" "main_at u = M_Join" "worker_at u = Wk_End"
    using sig_worker_spin [OF sig_inv_step, of s t] by blast
  ultimately show ?thesis
    using sig_main_finish [of u] signal.steps_inv [of s u] assms(1)
    by (meson converse_rtranclp_into_rtranclp rtranclp_trans)
qed

section \<open>The rest of the programs\<close>

text \<open>
  \<open>compare_exchange_weak\<close> returns whether it stored, and updates \<open>cur\<close> on failure; \<open>spurious\<close> are the
  attempts that fail although the value is the expected one.  \<open>main\<close> is the only thread that uses \<open>val\<close>.
\<close>

definition exchange :: "int \<Rightarrow> int \<Rightarrow> int \<times> int" where
  "exchange v old = (old, v)"

definition compare_exchange_weak :: "bool \<Rightarrow> int \<Rightarrow> int \<Rightarrow> int \<Rightarrow> bool \<times> int \<times> int" where
  "compare_exchange_weak spurious v cur desired = (if v = cur \<and> \<not> spurious then (True, cur, desired) else (False, v, v))"

fun mul3_loop :: "bool list \<Rightarrow> int \<Rightarrow> int \<Rightarrow> int option" where
  "mul3_loop [] v cur = None"
| "mul3_loop (sp # sps) v cur =
     (case compare_exchange_weak sp v cur (cur * 3) of
        (True, _, v') \<Rightarrow> Some v'
      | (False, cur', v') \<Rightarrow> mul3_loop sps v' cur')"

definition basic_ops :: "bool list \<Rightarrow> console option" where
  "basic_ops spurious =
     (let (old, v) = exchange 20 10
      in map_option (\<lambda>v3. [''old='' @ dec_int old @ '' val='' @ dec_int v, ''after *3: val='' @ dec_int v3]) (mul3_loop spurious v v))"

text \<open>\<open>safe_write\<close> and \<open>safe_read\<close> of \<^verbatim>\<open>05_data_races.cpp\<close>: critical sections on \<open>shared_val\<close>.\<close>

definition safe_write :: "int \<Rightarrow> int \<Rightarrow> int" where
  "safe_write v shared_val = v"

definition safe_read :: "int \<Rightarrow> int" where
  "safe_read shared_val = shared_val"

definition race_main_end :: console where
  "race_main_end = [''safe_read='' @ dec_int (safe_read (safe_write 99 0))]"

text \<open>The loop stores three times the value at the first attempt that does not fail spuriously.\<close>

lemma mul3_loop_correct: "mul3_loop sps v v = (if False \<in> set sps then Some (3 * v) else None)"
  by (induction sps) (auto simp: compare_exchange_weak_def)

lemma mul3_loop_stale: "cur \<noteq> v \<Longrightarrow> mul3_loop (sp # sps) v cur = mul3_loop sps v v"
  by (simp add: compare_exchange_weak_def)

lemma fetch_add_joined:
  assumes "(fa_step ops)\<^sup>*\<^sup>* (fa_init n) s" and "fa_i s = replicate n ops"
  shows "fa_counter s = of_nat (n * ops)"
proof -
  have "(spec_step ops)\<^sup>*\<^sup>* (0, replicate n 0) (fa_abs s)"
    using fa.reachable_sim [OF refl assms(1)] by (simp add: fa_abs_def fa_init_def)
  then have "spec_inv n ops (fa_abs s)" by (rule spec.reachable_inv [OF refl])
  then show ?thesis using assms(2) by (simp add: spec_inv_def fa_abs_def sum_list_replicate)
qed

section \<open>Properties\<close>

text \<open>
  C22: Message passing.  In every execution of the weak memory the subscriber prints 42 and nothing else, and from every reachable state it can
  still do so; likewise \<open>main\<close> reads 42 from the worker after the join, and eight threads that each add one leave 8.  With a
  relaxed store of the flag, or a relaxed load of it, the subscriber can print 0.
\<close>

theorem message_passing:
  "((mp_step Release Acquire)\<^sup>*\<^sup>* mp_init s \<longrightarrow>
      (\<forall>v. sub_at s = Sub_Done v \<longrightarrow> v = 42) \<and> (\<exists>t. (mp_step Release Acquire)\<^sup>*\<^sup>* s t \<and> sub_at t = Sub_Done 42))
   \<and> (\<exists>u. (mp_step Relaxed Acquire)\<^sup>*\<^sup>* mp_init u \<and> sub_at u = Sub_Done 0)
   \<and> (\<exists>u. (mp_step Release Relaxed)\<^sup>*\<^sup>* mp_init u \<and> sub_at u = Sub_Done 0)
   \<and> (sig_step\<^sup>*\<^sup>* signal_init r \<longrightarrow> (\<forall>v. main_at r = M_End v \<longrightarrow> v = 42))
   \<and> (\<exists>t. sig_step\<^sup>*\<^sup>* signal_init t \<and> main_at t = M_End 42)
   \<and> ((fa_step 1)\<^sup>*\<^sup>* (fa_init 8) f \<longrightarrow> fa_i f = replicate 8 1 \<longrightarrow> fa_counter f = 8)"
proof (intro conjI impI)
  assume "(mp_step Release Acquire)\<^sup>*\<^sup>* mp_init s"
  then have "mp_inv s" by (rule pairing.reachable_inv [OF refl])
  then show "\<forall>v. sub_at s = Sub_Done v \<longrightarrow> v = 42" "\<exists>t. (mp_step Release Acquire)\<^sup>*\<^sup>* s t \<and> sub_at t = Sub_Done 42"
    by (simp add: mp_inv_def, rule mp_can_finish)
next
  show "\<exists>u. (mp_step Relaxed Acquire)\<^sup>*\<^sup>* mp_init u \<and> sub_at u = Sub_Done 0"
    by (rule mp_run_reaches [of _ _ "[Pub, Pub, Sub 1, Sub 0]"])
      (simp add: mp_next_def atomic_store_def Let_def atomic_load_def mp_init_def hist_init_def join_view_def)
  show "\<exists>u. (mp_step Release Relaxed)\<^sup>*\<^sup>* mp_init u \<and> sub_at u = Sub_Done 0"
    by (rule mp_run_reaches [of _ _ "[Pub, Pub, Sub 1, Sub 0]"])
      (simp add: mp_next_def atomic_store_def Let_def atomic_load_def mp_init_def hist_init_def join_view_def)
next
  assume "sig_step\<^sup>*\<^sup>* signal_init r"
  then have "sig_inv r" by (rule signal.reachable_inv [OF refl])
  then show "\<forall>v. main_at r = M_End v \<longrightarrow> v = 42" by (auto simp: sig_inv_def split: join_pc.splits)
next
  show "\<exists>t. sig_step\<^sup>*\<^sup>* signal_init t \<and> main_at t = M_End 42"
    by (rule sig_can_finish) (simp_all add: signal.init_inv signal_init_def)
qed (use fetch_add_joined [of 1 8 f] in simp)

theorem message_passing_witness:
  "(\<exists>s t. (mp_step Release Acquire)\<^sup>*\<^sup>* mp_init s \<and> (mp_step Release Acquire)\<^sup>*\<^sup>* s t \<and> sub_at t = Sub_Done 42)
   \<and> basic_ops [True, True, False] = Some [''old=10 val=20'', ''after *3: val=60''] \<and> race_main_end = [''safe_read=99'']"
proof -
  have "basic_ops [True, True, False] = Some [''old=10 val=20'', ''after *3: val=60'']" "race_main_end = [''safe_read=99'']"
    by code_simp+
  then show ?thesis using message_passing [of mp_init signal_init "fa_init 8"] by blast
qed

end
