(* ===== verification/Timers.thy ===== *)
theory Timers
  imports Prelude
begin

text \<open>
  Threads with a clock: \<open>RepeatingTimer\<close> and \<open>OneShotTimer\<close> of \<^verbatim>\<open>concurrency/09_timers.cpp\<close>, the \<open>jthread\<close> of
  \<^verbatim>\<open>01_thread_basics.cpp\<close>, and the futures of \<^verbatim>\<open>06_async_future.cpp\<close>.  Time is in milliseconds and passes between any two steps.
\<close>

section \<open>RepeatingTimer\<close>

datatype timer_pc = T_Start | T_Check | T_Sleep | T_Recheck | T_Call | T_Advance | T_End
datatype owner_pc = Live | Joining | Gone

text \<open>
  \<open>fired\<close> are the times of the callbacks so far, \<open>begun\<close> the time at which the thread read the clock, \<open>stopped\<close> the time of the
  first \<open>cancel()\<close>, and \<open>late\<close> the number of callbacks after it; these four only record what happened.
\<close>

record timer =
  clock :: nat
  next_at :: nat
  cancelled :: bool
  t_pc :: timer_pc
  t_owner :: owner_pc
  fired :: "nat list"
  begun :: nat
  stopped :: "nat option"
  late :: nat

definition timer_init :: "nat \<Rightarrow> timer" where
  "timer_init t = \<lparr>clock = t, next_at = 0, cancelled = False, t_pc = T_Start, t_owner = Live,
     fired = [], begun = 0, stopped = None, late = 0\<rparr>"

text \<open>The thread's function, one step per clock reading, sleep, load of the flag and callback.\<close>

definition timer_thread :: "nat \<Rightarrow> timer \<Rightarrow> timer option" where
  "timer_thread interval s =
     (case t_pc s of
        T_Start \<Rightarrow> Some (s\<lparr>next_at := clock s + interval, begun := clock s, t_pc := T_Check\<rparr>)
      | T_Check \<Rightarrow> Some (s\<lparr>t_pc := if cancelled s then T_End else T_Sleep\<rparr>)
      | T_Sleep \<Rightarrow> if next_at s \<le> clock s then Some (s\<lparr>t_pc := T_Recheck\<rparr>) else None
      | T_Recheck \<Rightarrow> Some (s\<lparr>t_pc := if cancelled s then T_Advance else T_Call\<rparr>)
      | T_Call \<Rightarrow> Some (s\<lparr>fired := fired s @ [clock s], late := if cancelled s then Suc (late s) else late s, t_pc := T_Advance\<rparr>)
      | T_Advance \<Rightarrow> Some (s\<lparr>next_at := next_at s + interval, t_pc := T_Check\<rparr>)
      | T_End \<Rightarrow> None)"

definition cancel :: "timer \<Rightarrow> timer" where
  "cancel s = s\<lparr>cancelled := True, stopped := (case stopped s of None \<Rightarrow> Some (clock s) | Some t \<Rightarrow> Some t)\<rparr>"

inductive timer_step :: "nat \<Rightarrow> timer \<Rightarrow> timer \<Rightarrow> bool" for interval :: nat where
  t_time: "timer_step interval s (s\<lparr>clock := clock s + d\<rparr>)"
| t_thread: "timer_thread interval s = Some t \<Longrightarrow> timer_step interval s t"
| t_cancel: "t_owner s = Live \<Longrightarrow> timer_step interval s (cancel s)"
| t_destroy: "t_owner s = Live \<Longrightarrow> timer_step interval s ((cancel s)\<lparr>t_owner := Joining\<rparr>)"
| t_join: "t_owner s = Joining \<Longrightarrow> t_pc s = T_End \<Longrightarrow> timer_step interval s (s\<lparr>t_owner := Gone\<rparr>)"

definition timer_reach :: "nat \<Rightarrow> nat \<Rightarrow> timer \<Rightarrow> bool" where
  "timer_reach interval t0 s \<longleftrightarrow> (timer_step interval)\<^sup>*\<^sup>* (timer_init t0) s"

text \<open>
  The deadline is a whole number of intervals after the start, one more than the callbacks so far; a callback is
  only decided on at or after its deadline, and before \<open>cancel\<close> was called.
\<close>

definition before_stop :: "nat option \<Rightarrow> nat \<Rightarrow> bool" where
  "before_stop st x = (case st of None \<Rightarrow> True | Some c \<Rightarrow> x \<le> c)"

definition on_time :: "nat \<Rightarrow> nat \<Rightarrow> nat option \<Rightarrow> nat \<Rightarrow> nat list \<Rightarrow> bool" where
  "on_time interval b st now fs \<longleftrightarrow>
     (\<forall>k < length fs. b + Suc k * interval \<le> fs ! k \<and> fs ! k \<le> now \<and> before_stop st (b + Suc k * interval))"

lemma on_time_Nil [simp]: "on_time interval b st now []"
  by (simp add: on_time_def)

lemma on_time_later: "on_time interval b st now fs \<Longrightarrow> on_time interval b st (now + d) fs"
  by (auto simp: on_time_def intro: trans_le_add1)

lemma on_time_stop: "on_time interval b st now fs \<Longrightarrow> on_time interval b (case st of None \<Rightarrow> Some now | Some t \<Rightarrow> Some t) now fs"
  by (auto simp: on_time_def before_stop_def split: option.splits intro: order_trans)

lemma on_time_snoc:
  "on_time interval b st now fs \<Longrightarrow> b + Suc (length fs) * interval \<le> now \<Longrightarrow> before_stop st (b + Suc (length fs) * interval) \<Longrightarrow>
   on_time interval b st now (fs @ [now])"
  by (auto simp: on_time_def nth_append less_Suc_eq)

lemma on_time_last:
  assumes "on_time interval b st now fs" and "fs \<noteq> []"
  shows "b + length fs * interval \<le> now \<and> before_stop st (b + length fs * interval)"
proof -
  obtain n where n: "length fs = Suc n" using assms(2) by (cases fs) auto
  then show ?thesis using assms(1) order_trans unfolding on_time_def by (metis lessI)
qed

definition deadline :: "nat \<Rightarrow> timer \<Rightarrow> nat" where
  "deadline interval s = begun s + Suc (length (fired s)) * interval"

definition pc_ok :: "nat \<Rightarrow> timer \<Rightarrow> bool" where
  "pc_ok interval s =
     (case t_pc s of
        T_Start \<Rightarrow> fired s = [] \<and> late s = 0
      | T_Check \<Rightarrow> cancelled s \<or> next_at s = deadline interval s
      | T_Sleep \<Rightarrow> late s = 0 \<and> next_at s = deadline interval s
      | T_Recheck \<Rightarrow> late s = 0 \<and> next_at s = deadline interval s \<and> next_at s \<le> clock s
      | T_Call \<Rightarrow> late s = 0 \<and> next_at s = deadline interval s \<and> next_at s \<le> clock s \<and> before_stop (stopped s) (next_at s)
      | T_Advance \<Rightarrow> cancelled s \<or> next_at s + interval = deadline interval s
      | T_End \<Rightarrow> cancelled s)"

definition timer_inv :: "nat \<Rightarrow> timer \<Rightarrow> bool" where
  "timer_inv interval s \<longleftrightarrow>
     (cancelled s \<longleftrightarrow> stopped s \<noteq> None)
     \<and> on_time interval (begun s) (stopped s) (clock s) (fired s)
     \<and> pc_ok interval s
     \<and> (cancelled s \<or> late s = 0) \<and> late s \<le> 1
     \<and> (t_owner s \<noteq> Live \<longrightarrow> cancelled s)
     \<and> (t_owner s = Gone \<longrightarrow> t_pc s = T_End)"

lemma timer_inv_init: "timer_inv interval (timer_init t)"
  by (simp add: timer_inv_def timer_init_def pc_ok_def)

lemma timer_inv_time: "timer_inv interval s \<Longrightarrow> timer_inv interval (s\<lparr>clock := clock s + d\<rparr>)"
  unfolding timer_inv_def by (cases "t_pc s") (auto simp: on_time_later pc_ok_def deadline_def)

lemma timer_inv_cancel:
  assumes "timer_inv interval s"
  shows "timer_inv interval (cancel s)"
proof -
  have "pc_ok interval (cancel s)"
    using assms by (cases "t_pc s"; cases "stopped s") (simp_all add: timer_inv_def pc_ok_def cancel_def deadline_def before_stop_def)
  moreover have "on_time interval (begun s) (stopped (cancel s)) (clock s) (fired s)"
    using assms by (simp add: timer_inv_def cancel_def on_time_stop)
  ultimately show ?thesis
    using assms by (simp add: timer_inv_def) (simp add: cancel_def split: option.splits)
qed

lemma timer_inv_thread:
  assumes "timer_inv interval s" and "timer_thread interval s = Some t"
  shows "timer_inv interval t"
proof (cases "t_pc s")
  case T_Call
  then show ?thesis
    using assms on_time_snoc [of interval "begun s" "stopped s" "clock s" "fired s"]
    by (auto simp: timer_thread_def timer_inv_def pc_ok_def deadline_def)
next
  case T_Recheck
  then show ?thesis
    using assms by (cases "cancelled s") (auto simp: timer_thread_def timer_inv_def pc_ok_def deadline_def before_stop_def)
next
  case T_Sleep
  then show ?thesis using assms by (auto simp: timer_thread_def timer_inv_def pc_ok_def deadline_def split: if_splits)
qed (use assms in \<open>auto simp: timer_thread_def timer_inv_def pc_ok_def deadline_def\<close>)

lemma pc_ok_owner [simp]: "pc_ok interval (s\<lparr>t_owner := p\<rparr>) = pc_ok interval s"
  by (cases "t_pc s") (simp_all add: pc_ok_def deadline_def)

lemma timer_inv_owner: "timer_inv interval s \<Longrightarrow> cancelled s \<Longrightarrow> (p = Gone \<longrightarrow> t_pc s = T_End) \<Longrightarrow> timer_inv interval (s\<lparr>t_owner := p\<rparr>)"
  by (simp add: timer_inv_def)

lemma timer_inv_step: "timer_inv interval s \<Longrightarrow> timer_step interval s t \<Longrightarrow> timer_inv interval t"
proof (erule timer_step.cases, goal_cases)
  case (4 s)
  then show ?case using timer_inv_owner [OF timer_inv_cancel, of interval s Joining] by (simp add: cancel_def)
next
  case (5 s)
  then have "cancelled s" by (auto simp: timer_inv_def)
  with 5 show ?case using timer_inv_owner [of interval s Gone] by simp
qed (auto intro: timer_inv_time timer_inv_cancel timer_inv_thread)

interpretation timer: inv_system "\<lambda>s. \<exists>t. s = timer_init t" "timer_step interval" "timer_inv interval" for interval
  by unfold_locales (auto intro: timer_inv_init timer_inv_step)

text \<open>After \<open>cancel\<close> every step of the thread brings it closer to its end, and no other step takes it further away.\<close>

fun steps_to_end :: "timer_pc \<Rightarrow> nat" where
  "steps_to_end T_End = 0"
| "steps_to_end T_Check = 1"
| "steps_to_end T_Advance = 2"
| "steps_to_end T_Start = 2"
| "steps_to_end T_Call = 3"
| "steps_to_end T_Recheck = 4"
| "steps_to_end T_Sleep = 5"

lemma cancelled_thread:
  assumes "cancelled s" and "timer_thread interval s = Some t"
  shows "cancelled t \<and> steps_to_end (t_pc t) < steps_to_end (t_pc s) \<and> t_owner t = t_owner s"
  using assms by (cases "t_pc s") (auto simp: timer_thread_def split: if_splits)

lemma thread_can_step:
  assumes "t_pc s \<noteq> T_End"
  shows "\<exists>d t. timer_thread interval (s\<lparr>clock := clock s + d\<rparr>) = Some t"
proof -
  have "timer_thread interval (s\<lparr>clock := clock s + (next_at s - clock s)\<rparr>) \<noteq> None"
    using assms by (cases "t_pc s") (auto simp: timer_thread_def)
  then show ?thesis by blast
qed

lemma cancelled_ends:
  assumes "cancelled s"
  shows "\<exists>t. (timer_step interval)\<^sup>*\<^sup>* s t \<and> t_pc t = T_End \<and> t_owner t = t_owner s"
  using assms
proof (induction "steps_to_end (t_pc s)" arbitrary: s rule: less_induct)
  case less
  show ?case
  proof (cases "t_pc s = T_End")
    case False
    then obtain d t where t: "timer_thread interval (s\<lparr>clock := clock s + d\<rparr>) = Some t"
      using thread_can_step by blast
    have c: "cancelled t" "steps_to_end (t_pc t) < steps_to_end (t_pc s)" "t_owner t = t_owner s"
      using cancelled_thread [OF _ t] less.prems by auto
    then obtain u where "(timer_step interval)\<^sup>*\<^sup>* t u" "t_pc u = T_End" "t_owner u = t_owner s"
      using less.hyps [of t] by auto
    then show ?thesis
      using t_time [of interval s d] t_thread [OF t] by (meson converse_rtranclp_into_rtranclp)
  qed auto
qed

text \<open>A run of chosen steps.\<close>

datatype timer_act = Act_Time nat | Act_Thread | Act_Cancel | Act_Destroy | Act_Join

definition timer_next :: "nat \<Rightarrow> timer_act \<Rightarrow> timer \<Rightarrow> timer option" where
  "timer_next interval a s =
     (case a of
        Act_Time d \<Rightarrow> Some (s\<lparr>clock := clock s + d\<rparr>)
      | Act_Thread \<Rightarrow> timer_thread interval s
      | Act_Cancel \<Rightarrow> if t_owner s = Live then Some (cancel s) else None
      | Act_Destroy \<Rightarrow> if t_owner s = Live then Some ((cancel s)\<lparr>t_owner := Joining\<rparr>) else None
      | Act_Join \<Rightarrow> if t_owner s = Joining \<and> t_pc s = T_End then Some (s\<lparr>t_owner := Gone\<rparr>) else None)"

fun timer_run :: "nat \<Rightarrow> timer_act list \<Rightarrow> timer \<Rightarrow> timer option" where
  "timer_run interval [] s = Some s"
| "timer_run interval (a # as) s = (case timer_next interval a s of None \<Rightarrow> None | Some t \<Rightarrow> timer_run interval as t)"

lemma timer_next_step: "timer_next interval a s = Some t \<Longrightarrow> timer_step interval s t"
  by (cases a) (auto simp: timer_next_def intro: timer_step.intros split: if_splits)

lemma timer_run_steps: "timer_run interval as s = Some t \<Longrightarrow> (timer_step interval)\<^sup>*\<^sup>* s t"
  by (induction as arbitrary: s) (auto split: option.splits dest: timer_next_step intro: converse_rtranclp_into_rtranclp)

section \<open>OneShotTimer\<close>

datatype shot_pc = S_Start | S_Sleep | S_End

record shot =
  s_clock :: nat
  s_wake :: nat
  s_begun :: nat
  s_pc :: shot_pc
  s_fired :: "nat list"
  s_joined :: bool

definition shot_init :: "nat \<Rightarrow> shot" where
  "shot_init t = \<lparr>s_clock = t, s_wake = 0, s_begun = t, s_pc = S_Start, s_fired = [], s_joined = False\<rparr>"

text \<open>The destructor of the timer joins the thread.\<close>

inductive shot_step :: "nat \<Rightarrow> shot \<Rightarrow> shot \<Rightarrow> bool" for delay :: nat where
  s_time: "shot_step delay s (s\<lparr>s_clock := s_clock s + d\<rparr>)"
| s_sleep: "s_pc s = S_Start \<Longrightarrow> shot_step delay s (s\<lparr>s_wake := s_clock s + delay, s_pc := S_Sleep\<rparr>)"
| s_call: "s_pc s = S_Sleep \<Longrightarrow> s_wake s \<le> s_clock s \<Longrightarrow>
     shot_step delay s (s\<lparr>s_fired := s_fired s @ [s_clock s], s_pc := S_End\<rparr>)"
| s_join: "s_pc s = S_End \<Longrightarrow> shot_step delay s (s\<lparr>s_joined := True\<rparr>)"

definition shot_inv :: "nat \<Rightarrow> shot \<Rightarrow> bool" where
  "shot_inv delay s \<longleftrightarrow> s_begun s \<le> s_clock s \<and> (s_joined s \<longrightarrow> s_pc s = S_End)
     \<and> (case s_pc s of
          S_Start \<Rightarrow> s_fired s = []
        | S_Sleep \<Rightarrow> s_fired s = [] \<and> s_begun s + delay \<le> s_wake s
        | S_End \<Rightarrow> (\<exists>t. s_fired s = [t] \<and> s_begun s + delay \<le> t))"

interpretation one_shot: inv_system "\<lambda>s. \<exists>t. s = shot_init t" "shot_step delay" "shot_inv delay" for delay
proof (unfold_locales, goal_cases)
  case (1 s)
  then show ?case by (auto simp: shot_inv_def shot_init_def)
next
  case (2 s t)
  from 2(2,1) show ?case by (cases rule: shot_step.cases) (auto simp: shot_inv_def split: shot_pc.splits)
qed

section \<open>The stop token of a jthread\<close>

text \<open>
  The loop of \<^verbatim>\<open>01_thread_basics.cpp\<close> that starts at time \<open>now\<close>, where stop is requested at \<open>stop_at\<close> and the sleeps take the
  times \<open>ds\<close>; \<open>None\<close> is a thread still in its loop after them.
\<close>

fun jthread_loop :: "nat \<Rightarrow> nat \<Rightarrow> nat \<Rightarrow> nat list \<Rightarrow> console option" where
  "jthread_loop stop_at now tick ds =
     (if stop_at \<le> now then Some [''jthread stopping'']
      else case ds of
             [] \<Rightarrow> None
           | d # ds \<Rightarrow> map_option (\<lambda>out. (''jthread tick '' @ dec_nat (Suc tick)) # out) (jthread_loop stop_at (now + d) (Suc tick) ds))"

declare jthread_loop.simps [simp del]

definition thread_main_start :: console where
  "thread_main_start = [''thread '' @ dec_nat 1 @ '' running'', ''lambda thread'']"

text \<open>The loop ends once the sleeps have passed the stop, with at most one tick per ten milliseconds begun.\<close>

lemma jthread_ends: "stop_at \<le> now + sum_list ds \<Longrightarrow> \<exists>out. jthread_loop stop_at now tick ds = Some out \<and> last out = ''jthread stopping'' \<and> out \<noteq> []"
proof (induction ds arbitrary: now tick)
  case Nil
  then show ?case by (simp add: jthread_loop.simps)
next
  case (Cons d ds)
  obtain out where "jthread_loop stop_at (now + d) (Suc tick) ds = Some out" "last out = ''jthread stopping''" "out \<noteq> []"
    using Cons.IH [of "now + d" "Suc tick"] Cons.prems by (auto simp: add.assoc)
  then show ?case by (simp add: jthread_loop.simps [of _ now])
qed

lemma jthread_ticks:
  assumes "jthread_loop stop_at now tick ds = Some out" and "\<forall>d \<in> set ds. 10 \<le> d"
  shows "10 * length out \<le> 19 + (stop_at - now)"
  using assms
proof (induction ds arbitrary: now tick out)
  case Nil
  then show ?case by (auto simp: jthread_loop.simps split: if_splits)
next
  case (Cons d ds)
  then show ?case
  proof (cases "stop_at \<le> now")
    case False
    then obtain rest where r: "jthread_loop stop_at (now + d) (Suc tick) ds = Some rest" "length out = Suc (length rest)"
      using Cons.prems(1) by (subst (asm) jthread_loop.simps) auto
    have "10 * length rest \<le> 19 + (stop_at - (now + d))" using Cons.IH [OF r(1)] Cons.prems(2) by simp
    moreover have "length rest = 1" if "stop_at \<le> now + d" using r(1) that by (auto simp: jthread_loop.simps)
    ultimately show ?thesis using r(2) Cons.prems(2) False by (cases "stop_at \<le> now + d") auto
  next
    case True
    then have "out = [''jthread stopping'']" using Cons.prems(1) by (simp add: jthread_loop.simps [of _ now])
    then show ?thesis by simp
  qed
qed

section \<open>Futures\<close>

text \<open>
  The shared state of a future: the stored value or exception, and whether the future still refers to it.  \<open>get\<close> blocks (no step)
  until a result is stored, and releases the state.
\<close>

record 'a shared_state =
  result :: "(string + 'a) option"
  valid :: bool

definition shared_init :: "'a shared_state" where
  "shared_init = \<lparr>result = None, valid = True\<rparr>"

definition set_result :: "string + 'a \<Rightarrow> 'a shared_state \<Rightarrow> 'a shared_state option" where
  "set_result r s = (case result s of None \<Rightarrow> Some (s\<lparr>result := Some r\<rparr>) | Some _ \<Rightarrow> None)"

definition future_get :: "'a shared_state \<Rightarrow> ((string + 'a) \<times> 'a shared_state) option" where
  "future_get s = (if valid s then map_option (\<lambda>r. (r, s\<lparr>valid := False\<rparr>)) (result s) else None)"

text \<open>One thread runs \<open>body\<close> and stores its outcome, another gets it.\<close>

record 'a handoff =
  shared :: "'a shared_state"
  produced :: bool
  got :: "(string + 'a) option"

definition handoff_init :: "'a handoff" where
  "handoff_init = \<lparr>shared = shared_init, produced = False, got = None\<rparr>"

inductive handoff_step :: "string + 'a \<Rightarrow> 'a handoff \<Rightarrow> 'a handoff \<Rightarrow> bool" for body :: "string + 'a" where
  h_produce: "\<not> produced s \<Longrightarrow> set_result body (shared s) = Some sh \<Longrightarrow> handoff_step body s (s\<lparr>shared := sh, produced := True\<rparr>)"
| h_get: "got s = None \<Longrightarrow> future_get (shared s) = Some (r, sh) \<Longrightarrow> handoff_step body s (s\<lparr>shared := sh, got := Some r\<rparr>)"

definition handoff_inv :: "string + 'a \<Rightarrow> 'a handoff \<Rightarrow> bool" where
  "handoff_inv body s \<longleftrightarrow> result (shared s) = (if produced s then Some body else None)
     \<and> valid (shared s) = (got s = None) \<and> (\<forall>r. got s = Some r \<longrightarrow> r = body \<and> produced s)"

interpretation handoff: inv_system "\<lambda>s. s = handoff_init" "handoff_step body" "handoff_inv body" for body :: "string + 'a"
proof (unfold_locales, goal_cases)
  case (1 s)
  then show ?case by (simp add: handoff_inv_def handoff_init_def shared_init_def)
next
  case (2 s t)
  from 2(2,1) show ?case
    by (cases rule: handoff_step.cases) (auto simp: handoff_inv_def set_result_def future_get_def split: option.splits if_splits)
qed

text \<open>While the result has not been taken some thread can step, and there are at most two steps.\<close>

lemma handoff_progress:
  assumes "handoff_inv body s" and "got s = None"
  shows "\<exists>t. handoff_step body s t"
proof (cases "produced s")
  case True
  then have "future_get (shared s) = Some (body, (shared s)\<lparr>valid := False\<rparr>)"
    using assms by (simp add: handoff_inv_def future_get_def)
  then show ?thesis using h_get [OF assms(2)] by blast
next
  case False
  then have "set_result body (shared s) = Some ((shared s)\<lparr>result := Some body\<rparr>)"
    using assms by (simp add: handoff_inv_def set_result_def)
  then show ?thesis using h_produce [OF False] by blast
qed

definition handoff_left :: "'a handoff \<Rightarrow> nat" where
  "handoff_left s = (if produced s then 0 else 1) + (if got s = None then 1 else 0)"

lemma handoff_decreases: "handoff_step body s t \<Longrightarrow> handoff_left t < handoff_left s"
  by (erule handoff_step.cases) (auto simp: handoff_left_def)

definition heavy :: "int \<Rightarrow> int" where
  "heavy n = n * n"

text \<open>What \<open>get\<close> returns to \<open>main\<close>, the thread having run: the result is stored, then taken.\<close>

definition await :: "string + 'a \<Rightarrow> string + 'a" where
  "await body =
     (case set_result body shared_init of
        None \<Rightarrow> Inl ''promise already satisfied''
      | Some s \<Rightarrow> (case future_get s of None \<Rightarrow> Inl ''blocked'' | Some (r, _) \<Rightarrow> r))"

definition show_result :: "string \<Rightarrow> string + int \<Rightarrow> string" where
  "show_result label r = (case r of Inl e \<Rightarrow> ''caught: '' @ e | Inr v \<Rightarrow> label @ dec_int v)"

definition async_main :: console where
  "async_main =
     [''doing other work while heavy() runs...'', show_result ''result='' (await (Inr (heavy 7))),
      show_result [] (await (Inl ''oops'' :: string + int)),
      show_result ''promise result='' (await (Inr 100)),
      show_result ''packaged_task result='' (await (Inr (heavy 9)))]"

lemma await_body: "await body = body"
  by (simp add: await_def set_result_def future_get_def shared_init_def)

section \<open>Properties\<close>

text \<open>
  Repeating timer.  In every interleaving and for every passing of time, callback \<open>k\<close> never runs before its time, \<open>k + 1\<close> intervals after
  the start, so that their number is bounded by the elapsed time, and delays do not accumulate: the deadline is always a multiple of the interval.  After \<open>cancel()\<close>
  at most one callback runs, one already due when \<open>cancel\<close> was called, and the thread ends after at most five more of its
  steps.  When the destructor returns the thread has ended, so that it no longer uses the flag.  A one-shot timer calls back exactly once, not early, before its destructor returns.
\<close>

theorem timers_fire_on_time:
  assumes "(timer_step interval)\<^sup>*\<^sup>* (timer_init t0) s" and "(shot_step delay)\<^sup>*\<^sup>* (shot_init t1) r"
  shows "(\<forall>k < length (fired s). begun s + Suc k * interval \<le> fired s ! k \<and> fired s ! k \<le> clock s)
    \<and> length (fired s) * interval \<le> clock s
    \<and> late s \<le> 1
    \<and> (\<forall>c. stopped s = Some c \<longrightarrow> fired s \<noteq> [] \<longrightarrow> begun s + length (fired s) * interval \<le> c)
    \<and> (cancelled s \<longrightarrow> (\<forall>t. timer_thread interval s = Some t \<longrightarrow> steps_to_end (t_pc t) < steps_to_end (t_pc s))
         \<and> (\<exists>t. (timer_step interval)\<^sup>*\<^sup>* s t \<and> t_pc t = T_End))
    \<and> (t_owner s = Gone \<longrightarrow> timer_thread interval s = None)
    \<and> (s_joined r \<longrightarrow> (\<exists>t. s_fired r = [t] \<and> s_begun r + delay \<le> t))"
proof -
  have inv: "timer_inv interval s" using timer.reachable_inv assms(1) by blast
  have sh: "shot_inv delay r" using one_shot.reachable_inv assms(2) by blast
  have on: "on_time interval (begun s) (stopped s) (clock s) (fired s)" and l: "late s \<le> 1"
    and gone: "t_owner s = Gone \<longrightarrow> t_pc s = T_End" using inv by (simp_all add: timer_inv_def)
  have "\<forall>k < length (fired s). begun s + Suc k * interval \<le> fired s ! k \<and> fired s ! k \<le> clock s"
    using on by (simp add: on_time_def)
  moreover have "length (fired s) * interval \<le> clock s"
    using on_time_last [OF on] by (cases "fired s = []") auto
  moreover have "\<forall>c. stopped s = Some c \<longrightarrow> fired s \<noteq> [] \<longrightarrow> begun s + length (fired s) * interval \<le> c"
    using on_time_last [OF on] by (auto simp: before_stop_def)
  moreover have "t_owner s = Gone \<longrightarrow> timer_thread interval s = None"
    using gone by (simp add: timer_thread_def)
  moreover have "s_joined r \<longrightarrow> (\<exists>t. s_fired r = [t] \<and> s_begun r + delay \<le> t)"
    using sh by (auto simp: shot_inv_def)
  ultimately show ?thesis using l cancelled_thread [of s interval] cancelled_ends [of s interval] by blast
qed

text \<open>A run in which \<open>cancel\<close> comes between the second check of the flag and the callback.\<close>

theorem timers_fire_on_time_witness:
  "\<exists>s r. (timer_step 20)\<^sup>*\<^sup>* (timer_init 0) s \<and> fired s = [25] \<and> late s = 1 \<and> t_owner s = Gone \<and> timer_thread 20 s = None
     \<and> (shot_step 50)\<^sup>*\<^sup>* (shot_init 0) r \<and> late s \<le> 1"
proof -
  let ?acts = "[Act_Thread, Act_Thread, Act_Time 25, Act_Thread, Act_Thread, Act_Destroy, Act_Thread, Act_Thread, Act_Thread, Act_Join]"
  let ?s = "the (timer_run 20 ?acts (timer_init 0))"
  have run: "timer_run 20 ?acts (timer_init 0) = Some ?s" "fired ?s = [25]" "late ?s = 1" "t_owner ?s = Gone"
    by code_simp+
  have reach: "(timer_step 20)\<^sup>*\<^sup>* (timer_init 0) ?s" using timer_run_steps [OF run(1)] .
  show ?thesis
    using timers_fire_on_time [OF reach rtranclp.rtrancl_refl [of "shot_step 50" "shot_init 0"]] run reach by blast
qed

text \<open>
  Futures.  Whichever thread runs first, \<open>get\<close> returns exactly the value or exception of the asynchronous function, some thread can step
  until it has, and every step brings the end nearer; \<open>main\<close> prints the lines listed.  The loop of a \<open>jthread\<close> ends after a stop request, after at most one
  tick for every ten milliseconds begun.
\<close>

theorem futures_deliver:
  assumes "(handoff_step body)\<^sup>*\<^sup>* handoff_init s" and "\<forall>d \<in> set ds. 10 \<le> d" and "stop_at \<le> now + sum_list ds"
  shows "(\<forall>r. got s = Some r \<longrightarrow> r = body) \<and> (got s = None \<longrightarrow> (\<exists>t. handoff_step body s t))
    \<and> (\<forall>t. handoff_step body s t \<longrightarrow> handoff_left t < handoff_left s)
    \<and> (\<exists>out. jthread_loop stop_at now 0 ds = Some out \<and> last out = ''jthread stopping'' \<and> 10 * (length out - 1) \<le> 9 + (stop_at - now))
    \<and> async_main = [''doing other work while heavy() runs...'', ''result=49'', ''caught: oops'', ''promise result=100'', ''packaged_task result=81'']"
proof -
  have inv: "handoff_inv body s" using handoff.reachable_inv [OF refl assms(1)] .
  obtain out where out: "jthread_loop stop_at now 0 ds = Some out" "last out = ''jthread stopping''"
    using jthread_ends [OF assms(3)] by blast
  moreover have "10 * (length out - 1) \<le> 9 + (stop_at - now)" using jthread_ticks [OF out(1) assms(2)] by simp
  moreover have "async_main = [''doing other work while heavy() runs...'', ''result=49'', ''caught: oops'', ''promise result=100'', ''packaged_task result=81'']"
    by code_simp
  ultimately show ?thesis
    using inv handoff_progress [OF inv] handoff_decreases unfolding handoff_inv_def by blast
qed

theorem futures_deliver_witness:
  "(\<exists>t. handoff_step (Inr (3::int)) handoff_init t \<and> handoff_left t < 2)
   \<and> jthread_loop 35 0 0 [10, 10, 10, 10] =
       Some [''jthread tick 1'', ''jthread tick 2'', ''jthread tick 3'', ''jthread tick 4'', ''jthread stopping'']"
proof -
  have "jthread_loop 35 0 0 [10, 10, 10, 10] =
       Some [''jthread tick 1'', ''jthread tick 2'', ''jthread tick 3'', ''jthread tick 4'', ''jthread stopping'']"
    by code_simp
  moreover have "handoff_left (handoff_init :: int handoff) = 2" "got (handoff_init :: int handoff) = None"
    by (simp_all add: handoff_left_def handoff_init_def)
  ultimately show ?thesis
    using futures_deliver [OF rtranclp.rtrancl_refl [of "handoff_step (Inr (3::int))" handoff_init], of "[10, 10, 10, 10]" 35 0] by auto
qed

end
