(* ===== verification/Layout.thy ===== *)
theory Layout
  imports Prelude "HOL-Library.Multiset"
begin

text \<open>
  How the compiler lays out the structures of \<^verbatim>\<open>performance/02_memory_layout.cpp\<close> and the false-sharing demonstration of
  \<^verbatim>\<open>01_cache_effects.cpp\<close>.  Offsets, padding, \<open>alignas\<close> and \<open>packed\<close> follow the usual ABI rule, which the comment at the top of the
  first file states; the cache line is taken to be the 64 bytes both files name.
\<close>

section \<open>Types and structures\<close>

record ctype =
  csize :: nat
  calign :: nat

definition scalar :: "nat \<Rightarrow> ctype" where
  "scalar n = \<lparr>csize = n, calign = n\<rparr>"

definition array_of :: "nat \<Rightarrow> ctype \<Rightarrow> ctype" where
  "array_of n t = \<lparr>csize = n * csize t, calign = calign t\<rparr>"

text \<open>\<open>alignas(n)\<close> on a member or on a structure can only raise the alignment.\<close>

definition align_as :: "nat \<Rightarrow> ctype \<Rightarrow> ctype" where
  "align_as n t = t\<lparr>calign := max n (calign t)\<rparr>"

definition round_up :: "nat \<Rightarrow> nat \<Rightarrow> nat" where
  "round_up n a = (n + a - 1) div a * a"

fun offsets :: "nat \<Rightarrow> ctype list \<Rightarrow> nat list" where
  "offsets pos [] = []"
| "offsets pos (t # ts) = (let off = round_up pos (calign t) in off # offsets (off + csize t) ts)"

fun end_pos :: "nat \<Rightarrow> ctype list \<Rightarrow> nat" where
  "end_pos pos [] = pos"
| "end_pos pos (t # ts) = end_pos (round_up pos (calign t) + csize t) ts"

definition struct_align :: "ctype list \<Rightarrow> nat" where
  "struct_align ts = foldr (\<lambda>t a. max (calign t) a) ts 1"

text \<open>A structure with members \<open>ts\<close>, declared \<open>alignas(n)\<close> (1 when there is none).\<close>

definition struct_of :: "nat \<Rightarrow> ctype list \<Rightarrow> ctype" where
  "struct_of n ts = (let a = max n (struct_align ts) in \<lparr>csize = round_up (end_pos 0 ts) a, calign = a\<rparr>)"

definition packed :: "ctype list \<Rightarrow> ctype" where
  "packed ts = \<lparr>csize = sum_list (map csize ts), calign = 1\<rparr>"

definition padding :: "ctype list \<Rightarrow> nat" where
  "padding ts = csize (struct_of 1 ts) - sum_list (map csize ts)"

section \<open>The structures of the programs\<close>

definition char_t :: ctype where "char_t = scalar 1"
definition int_t :: ctype where "int_t = scalar 4"
definition double_t :: ctype where "double_t = scalar 8"

definition padded_bad :: "ctype list" where "padded_bad = [char_t, int_t, char_t, double_t]"
definition padded_good :: "ctype list" where "padded_good = [double_t, int_t, char_t, char_t]"
definition order_bad :: "ctype list" where "order_bad = [char_t, double_t, char_t, int_t, array_of 8 char_t]"
definition order_good :: "ctype list" where "order_good = [double_t, array_of 8 char_t, int_t, char_t, char_t]"
definition core_accumulator :: "ctype list" where "core_accumulator = [double_t, scalar 8]"
definition price_buffer :: "ctype list" where "price_buffer = [array_of 4 double_t]"
definition wire_quote :: "ctype list" where "wire_quote = [int_t, scalar 2, double_t, double_t, int_t, int_t]"

definition cache_line :: nat where "cache_line = 64"

definition cache_aligned :: "ctype \<Rightarrow> ctype" where
  "cache_aligned t = struct_of 1 [align_as cache_line t]"

text \<open>The two counters of \<open>demo_false_sharing_layout\<close>, and whether two addresses lie in one cache line.\<close>

definition shared_counters :: "ctype list" where "shared_counters = [scalar 8, scalar 8]"
definition padded_counters :: "ctype list" where "padded_counters = [align_as 64 (scalar 8), align_as 64 (scalar 8)]"

definition same_line :: "nat \<Rightarrow> nat \<Rightarrow> bool" where
  "same_line p q \<longleftrightarrow> p div cache_line = q div cache_line"

definition show_type :: "string \<Rightarrow> ctype \<Rightarrow> string" where
  "show_type name t = ''  '' @ pad 26 name @ ''  sizeof='' @ pad_left 2 (dec_nat (csize t)) @ ''  alignof='' @ dec_nat (calign t)"

definition layout_main :: console where
  "layout_main =
     [show_type ''PaddedBad'' (struct_of 1 padded_bad), show_type ''PaddedGood'' (struct_of 1 padded_good), [],
      show_type ''OrderBad'' (struct_of 1 order_bad), show_type ''OrderGood'' (struct_of 1 order_good), [],
      show_type ''CoreAccumulator'' (struct_of 64 core_accumulator), show_type ''PriceBuffer'' (struct_of 32 price_buffer),
      show_type ''WireQuote'' (packed wire_quote),
      ''  std::hardware_destructive_interference_size = '' @ dec_nat cache_line]
     @ map2 (\<lambda>name off. ''  '' @ pad 9 (name @ '':'') @ ''offset '' @ dec_nat off)
         [''price'', ''symbol'', ''qty'', ''is_buy'', ''ioc''] (offsets 0 order_good)"

section \<open>Rounding\<close>

lemma round_up_ge: "0 < a \<Longrightarrow> n \<le> round_up n a"
proof -
  assume a: "0 < a"
  have "n + a - 1 = (n + a - 1) div a * a + (n + a - 1) mod a" by simp
  moreover have "(n + a - 1) mod a < a" using a by simp
  ultimately show ?thesis unfolding round_up_def using a by linarith
qed

lemma round_up_dvd: "a dvd round_up n a"
  by (simp add: round_up_def)

lemma round_up_least:
  assumes "a dvd m" and "n \<le> m" and "0 < a"
  shows "round_up n a \<le> m"
proof -
  obtain k where k: "m = k * a" using assms(1) by (metis dvd_def mult.commute)
  have "n + a - 1 < Suc k * a" using assms(2,3) k by simp
  then have "(n + a - 1) div a < Suc k" by (rule less_mult_imp_div_less)
  then show ?thesis using k by (simp add: round_up_def)
qed

lemma round_up_id: "a dvd n \<Longrightarrow> 0 < a \<Longrightarrow> round_up n a = n"
  by (meson dual_order.refl le_antisym round_up_ge round_up_least)

section \<open>Offsets\<close>

lemma length_offsets [simp]: "length (offsets pos ts) = length ts"
  by (induction ts arbitrary: pos) (simp_all add: Let_def)

lemma offsets_from: "\<forall>t \<in> set ts. 0 < calign t \<Longrightarrow> i < length ts \<Longrightarrow> pos \<le> offsets pos ts ! i"
proof (induction ts arbitrary: pos i)
  case (Cons t ts)
  have r: "pos \<le> round_up pos (calign t)" using Cons.prems(1) by (simp add: round_up_ge)
  show ?case
  proof (cases i)
    case (Suc k)
    then have "round_up pos (calign t) + csize t \<le> offsets (round_up pos (calign t) + csize t) ts ! k"
      using Cons by simp
    then show ?thesis using r Suc by (simp add: Let_def)
  qed (simp add: r Let_def)
qed simp

lemma offsets_aligned: "i < length ts \<Longrightarrow> calign (ts ! i) dvd offsets pos ts ! i"
  by (induction ts arbitrary: pos i) (auto simp: Let_def nth_Cons' round_up_dvd)

lemma offsets_disjoint:
  "\<forall>t \<in> set ts. 0 < calign t \<Longrightarrow> i < j \<Longrightarrow> j < length ts \<Longrightarrow> offsets pos ts ! i + csize (ts ! i) \<le> offsets pos ts ! j"
proof (induction ts arbitrary: pos i j)
  case (Cons t ts)
  obtain k where k: "j = Suc k" using Cons.prems(2) by (cases j) auto
  show ?case
  proof (cases i)
    case 0
    then show ?thesis
      using offsets_from [of ts k "round_up pos (calign t) + csize t"] Cons.prems k by (simp add: Let_def)
  next
    case (Suc i')
    then show ?thesis using Cons.IH [of i' k] Cons.prems k by (simp add: Let_def)
  qed
qed simp

lemma end_pos_from: "\<forall>t \<in> set ts. 0 < calign t \<Longrightarrow> pos + sum_list (map csize ts) \<le> end_pos pos ts"
proof (induction ts arbitrary: pos)
  case (Cons t ts)
  have "pos \<le> round_up pos (calign t)" using Cons.prems by (simp add: round_up_ge)
  then show ?case using Cons.IH [of "round_up pos (calign t) + csize t"] Cons.prems by simp
qed simp

lemma offsets_end:
  "\<forall>t \<in> set ts. 0 < calign t \<Longrightarrow> i < length ts \<Longrightarrow> offsets pos ts ! i + csize (ts ! i) \<le> end_pos pos ts"
proof (induction ts arbitrary: pos i)
  case (Cons t ts)
  show ?case
  proof (cases i)
    case 0
    then show ?thesis using end_pos_from [of ts "round_up pos (calign t) + csize t"] Cons.prems by (simp add: Let_def)
  next
    case (Suc k)
    then show ?thesis using Cons.IH [of k] Cons.prems by (simp add: Let_def)
  qed
qed simp

section \<open>Alignment of the structure\<close>

text \<open>Alignments are powers of two, so that the largest is a multiple of each.\<close>

definition pow_of_two :: "nat \<Rightarrow> bool" where
  "pow_of_two n \<longleftrightarrow> (\<exists>k. n = 2 ^ k)"

definition aligned_types :: "ctype list \<Rightarrow> bool" where
  "aligned_types ts \<longleftrightarrow> (\<forall>t \<in> set ts. pow_of_two (calign t))"

lemma pow_of_two_pos: "pow_of_two n \<Longrightarrow> 0 < n"
  by (auto simp: pow_of_two_def)

lemma pow_of_two_le_dvd: "pow_of_two a \<Longrightarrow> pow_of_two b \<Longrightarrow> a \<le> b \<Longrightarrow> a dvd b"
  by (auto simp: pow_of_two_def le_imp_power_dvd)

lemma pow_of_two_max: "pow_of_two a \<Longrightarrow> pow_of_two b \<Longrightarrow> pow_of_two (max a b)"
  by (simp add: max_def)

lemma pow_of_two_1: "pow_of_two 1"
  unfolding pow_of_two_def by (rule exI [of _ 0]) simp

lemma pow_of_two_numerals: "pow_of_two 4" "pow_of_two 8" "pow_of_two 64"
  unfolding pow_of_two_def by (rule exI [of _ 2], simp, rule exI [of _ 3], simp, rule exI [of _ 6], simp)

lemma struct_align_pow_of_two: "aligned_types ts \<Longrightarrow> pow_of_two (struct_align ts)"
  by (induction ts) (simp_all add: aligned_types_def struct_align_def pow_of_two_max pow_of_two_1 [simplified])

lemma struct_align_le: "struct_align ts \<le> a \<longleftrightarrow> 1 \<le> a \<and> (\<forall>t \<in> set ts. calign t \<le> a)"
  by (induction ts) (auto simp: struct_align_def)

lemma struct_align_ge: "t \<in> set ts \<Longrightarrow> calign t \<le> struct_align ts"
  using struct_align_le [of ts "struct_align ts"] by simp

lemma struct_align_mset: "mset ts = mset us \<Longrightarrow> struct_align ts = struct_align us"
  by (metis order_refl order_antisym set_mset_mset struct_align_le)

lemma member_align_dvd:
  assumes "aligned_types ts" and "pow_of_two n" and "i < length ts"
  shows "calign (ts ! i) dvd calign (struct_of n ts)"
proof -
  have "calign (ts ! i) \<le> max n (struct_align ts)"
    using struct_align_ge [of "ts ! i" ts] assms(3) by (simp add: max.coboundedI2)
  then show ?thesis
    using assms by (simp add: struct_of_def Let_def pow_of_two_le_dvd pow_of_two_max struct_align_pow_of_two aligned_types_def)
qed

lemma aligned_pos: "aligned_types ts \<Longrightarrow> \<forall>t \<in> set ts. 0 < calign t"
  by (auto simp: aligned_types_def pow_of_two_pos)

lemma struct_size_ge: "aligned_types ts \<Longrightarrow> end_pos 0 ts \<le> csize (struct_of n ts)"
  using round_up_ge [of "max n (struct_align ts)" "end_pos 0 ts"] pow_of_two_pos [OF struct_align_pow_of_two, of ts]
  by (simp add: struct_of_def Let_def)

section \<open>Largest member first\<close>

text \<open>
  Members whose sizes are multiples of all later alignments need no padding between them; members in order of decreasing
  alignment are of this kind, when each size is a multiple of its alignment (as for every type but a member declared \<open>alignas\<close>).
\<close>

definition full_types :: "ctype list \<Rightarrow> bool" where
  "full_types ts \<longleftrightarrow> (\<forall>t \<in> set ts. calign t dvd csize t)"

definition tight :: "ctype list \<Rightarrow> bool" where
  "tight ts \<longleftrightarrow> sorted_wrt (\<lambda>t u. calign u dvd csize t) ts"

lemma descending_tight:
  assumes "aligned_types ts" and "full_types ts" and "sorted_wrt (\<lambda>t u. calign u \<le> calign t) ts"
  shows "tight ts"
  unfolding tight_def
proof (rule sorted_wrt_mono_rel [OF _ assms(3)])
  fix t u assume "t \<in> set ts" "u \<in> set ts" "calign u \<le> calign t"
  then show "calign u dvd csize t"
    using assms(1,2) by (metis aligned_types_def dvd_trans full_types_def pow_of_two_le_dvd)
qed

lemma tight_end:
  assumes "aligned_types ts" and "tight ts" and "\<forall>t \<in> set ts. calign t dvd pos"
  shows "end_pos pos ts = pos + sum_list (map csize ts)"
  using assms
proof (induction ts arbitrary: pos)
  case (Cons t ts)
  have "round_up pos (calign t) = pos"
    using Cons.prems(1,3) by (simp add: round_up_id aligned_types_def pow_of_two_pos)
  then show ?case using Cons by (simp add: aligned_types_def tight_def)
qed simp

lemma tight_optimal:
  assumes al: "aligned_types ts" and "tight ts" and ms: "mset us = mset ts"
  shows "csize (struct_of n ts) \<le> csize (struct_of n us)"
proof -
  have alu: "aligned_types us" using al ms by (metis aligned_types_def set_mset_mset)
  have sum: "sum_list (map csize us) = sum_list (map csize ts)" using ms by (metis mset_map sum_mset_sum_list)
  have a: "struct_align us = struct_align ts" using ms by (rule struct_align_mset)
  have "end_pos 0 ts \<le> end_pos 0 us"
    using tight_end [OF assms(1,2), of 0] end_pos_from [OF aligned_pos [OF alu], of 0] sum by simp
  also have "\<dots> \<le> csize (struct_of n us)" using alu by (rule struct_size_ge)
  finally have "end_pos 0 ts \<le> csize (struct_of n us)" .
  moreover have "max n (struct_align ts) dvd csize (struct_of n us)" by (simp add: struct_of_def Let_def a round_up_dvd)
  moreover have "0 < max n (struct_align ts)" using pow_of_two_pos [OF struct_align_pow_of_two [OF al]] by simp
  ultimately show ?thesis by (subst struct_of_def) (simp add: Let_def round_up_least)
qed

text \<open>
  The rule itself is sound.  Every member lies at a multiple of its alignment, members do not overlap and lie inside the structure, the structure's size
  is a multiple of its alignment, and so a structure is itself a type whose arrays keep every member aligned.  When every size is a multiple of the later alignments, as when the members are ordered by
  decreasing alignment, the structure has the least size any order of its members can have.
\<close>

lemma struct_layout_sound:
  assumes "aligned_types ts" and "pow_of_two n"
  shows "(\<forall>i < length ts. offsets 0 ts ! i + csize (ts ! i) \<le> csize (struct_of n ts)
        \<and> (\<forall>k. calign (ts ! i) dvd k * csize (struct_of n ts) + offsets 0 ts ! i))
    \<and> (\<forall>i j. i < j \<and> j < length ts \<longrightarrow> offsets 0 ts ! i + csize (ts ! i) \<le> offsets 0 ts ! j)
    \<and> aligned_types [struct_of n ts] \<and> full_types [struct_of n ts]
    \<and> (full_types ts \<and> sorted_wrt (\<lambda>t u. calign u \<le> calign t) ts \<longrightarrow> tight ts)
    \<and> (\<forall>us. tight ts \<and> mset us = mset ts \<longrightarrow> csize (struct_of n ts) \<le> csize (struct_of n us))"
proof -
  note pos = aligned_pos [OF assms(1)]
  have size: "full_types [struct_of n ts]" by (simp add: full_types_def struct_of_def Let_def round_up_dvd)
  have "pow_of_two (max n (struct_align ts))" using assms by (simp add: pow_of_two_max struct_align_pow_of_two)
  then have "aligned_types [struct_of n ts]" by (simp add: aligned_types_def struct_of_def Let_def)
  moreover have "offsets 0 ts ! i + csize (ts ! i) \<le> csize (struct_of n ts)" if "i < length ts" for i
    using offsets_end [OF pos that, of 0] struct_size_ge [OF assms(1), of n] by simp
  moreover have "calign (ts ! i) dvd k * csize (struct_of n ts) + offsets 0 ts ! i" if "i < length ts" for i k
    using member_align_dvd [OF assms that] size offsets_aligned [OF that, of 0]
    by (auto simp: full_types_def intro!: dvd_add dvd_mult intro: dvd_trans)
  ultimately show ?thesis
    using size offsets_disjoint [OF pos, of _ _ 0] tight_optimal [OF assms(1)] descending_tight [OF assms(1)] by blast
qed

lemma layout_evals:
  "csize (struct_of 1 padded_bad) = 24" "csize (struct_of 1 padded_good) = 16" "csize (struct_of 1 order_bad) = 32"
  "csize (struct_of 1 order_good) = 24" "struct_of 64 core_accumulator = \<lparr>csize = 64, calign = 64\<rparr>" "csize (struct_of 32 price_buffer) = 32"
  "csize (packed wire_quote) = 30" "cache_aligned double_t = \<lparr>csize = 64, calign = 64\<rparr>" "offsets 0 padded_bad = [0, 4, 8, 16]" "offsets 0 padded_good = [0, 8, 12, 13]"
  "offsets 0 order_good = [0, 8, 16, 20, 21]" "padding padded_bad = 10" "padding padded_good = 2"
  "csize (struct_of 1 shared_counters) = 16" "csize (struct_of 1 padded_counters) = 128"
  "offsets 0 shared_counters = [0, 8]" "offsets 0 padded_counters = [0, 64]"
  by code_simp+

lemma false_sharing:
  assumes "8 dvd base"
  shows "same_line base (base + offsets 0 shared_counters ! 1) \<longleftrightarrow> base mod 64 \<noteq> 56"
    and "\<not> same_line base (base + offsets 0 padded_counters ! 1)"
proof -
  obtain k where k: "base = 8 * k" using assms by blast
  have "8 * k div 64 = k div 8" "8 * k mod 64 = 8 * (k mod 8)" "(8 * k + 8) div 64 = Suc k div 8" by (simp_all add: div_mult2_eq [of _ 8 8, simplified] mult_mod_right)
  moreover have "k div 8 = Suc k div 8 \<longleftrightarrow> k mod 8 \<noteq> 7" by (simp add: div_Suc mod_Suc)
  ultimately show "same_line base (base + offsets 0 shared_counters ! 1) \<longleftrightarrow> base mod 64 \<noteq> 56"
    using k by (auto simp: same_line_def cache_line_def layout_evals)
qed (simp add: same_line_def cache_line_def layout_evals)

lemma accumulators_apart:
  assumes "64 dvd base" and "i \<noteq> j" and "x < 64" and "y < 64"
  shows "\<not> same_line (base + i * 64 + x) (base + j * 64 + y)"
proof -
  obtain k where k: "base = 64 * k" using assms(1) by blast
  have "(64 * k + i * 64 + x) div 64 = k + i" if "x < 64" for i x :: nat using that by simp
  with assms k show ?thesis by (simp add: same_line_def cache_line_def)
qed

text \<open>The reordered structures are permutations of the naive ones that need no inner padding.\<close>

lemma reordered_optimal:
  "mset us = mset padded_bad \<Longrightarrow> csize (struct_of 1 padded_good) \<le> csize (struct_of 1 us)"
  "mset us = mset order_bad \<Longrightarrow> csize (struct_of 1 order_good) \<le> csize (struct_of 1 us)"
proof -
  note defs = padded_bad_def padded_good_def order_bad_def order_good_def char_t_def int_t_def
    double_t_def scalar_def array_of_def
  have ok: "aligned_types padded_good" "tight padded_good" "aligned_types order_good" "tight order_good"
    by (simp_all add: aligned_types_def tight_def defs pow_of_two_1 [simplified] pow_of_two_numerals)
  have ms: "mset padded_bad = mset padded_good" "mset order_bad = mset order_good"
    by (simp_all add: defs add_mset_commute)
  show "csize (struct_of 1 padded_good) \<le> csize (struct_of 1 us)" if "mset us = mset padded_bad"
    using that ms by (intro tight_optimal ok) simp
  show "csize (struct_of 1 order_good) \<le> csize (struct_of 1 us)" if "mset us = mset order_bad"
    using that ms by (intro tight_optimal ok) simp
qed

section \<open>Properties\<close>

text \<open>
  C23: The structures of the programs.  Every \<open>static_assert\<close> on a size or an alignment holds and the members lie at the offsets the
  comments give, but \<open>PaddedBad\<close> wastes 10 bytes where its comment says 7.  No order of their members makes \<open>PaddedGood\<close> or \<open>OrderGood\<close>
  smaller than they are.  Bytes of two different elements of an array of \<open>CoreAccumulator\<close> never lie in one cache line, nor do the two counters
  of \<open>Padded\<close>; those of \<open>Shared\<close> do, unless the object starts 56 bytes into a line.
\<close>

theorem struct_layouts:
  "(csize (struct_of 1 padded_bad) = 24 \<and> csize (struct_of 1 padded_good) = 16
      \<and> csize (struct_of 1 order_bad) = 32 \<and> csize (struct_of 1 order_good) = 24
      \<and> struct_of 64 core_accumulator = \<lparr>csize = 64, calign = 64\<rparr> \<and> csize (struct_of 32 price_buffer) = 32
      \<and> csize (packed wire_quote) = 30 \<and> csize (cache_aligned double_t) = cache_line)
   \<and> (offsets 0 padded_bad = [0, 4, 8, 16] \<and> offsets 0 padded_good = [0, 8, 12, 13]
      \<and> offsets 0 order_good = [0, 8, 16, 20, 21] \<and> padding padded_bad = 10 \<and> padding padded_good = 2)
   \<and> (mset us = mset padded_bad \<longrightarrow> csize (struct_of 1 padded_good) \<le> csize (struct_of 1 us))
   \<and> (mset us = mset order_bad \<longrightarrow> csize (struct_of 1 order_good) \<le> csize (struct_of 1 us))
   \<and> (64 dvd base \<and> i \<noteq> j \<and> x < 64 \<and> y < 64 \<longrightarrow>
        \<not> same_line (base + i * csize (struct_of 64 core_accumulator) + x)
                    (base + j * csize (struct_of 64 core_accumulator) + y))
   \<and> (8 dvd addr \<longrightarrow> same_line addr (addr + offsets 0 shared_counters ! 1) = (addr mod 64 \<noteq> 56)
        \<and> \<not> same_line addr (addr + offsets 0 padded_counters ! 1))"
  using accumulators_apart [of base i j x y] reordered_optimal [of us] false_sharing [of addr]
  by (simp del: One_nat_def add: layout_evals layout_evals(8) [THEN arg_cong, of csize] cache_line_def)

theorem struct_layouts_witness:
  "csize (struct_of 1 padded_good) \<le> csize (struct_of 1 [int_t, char_t, double_t, char_t])
   \<and> csize (struct_of 1 order_good) \<le> csize (struct_of 1 order_bad)
   \<and> \<not> same_line (128 + 0 * csize (struct_of 64 core_accumulator) + 63) (128 + 1 * csize (struct_of 64 core_accumulator) + 0)
   \<and> same_line 48 (48 + offsets 0 shared_counters ! 1)"
proof -
  have m: "mset [int_t, char_t, double_t, char_t] = mset padded_bad" by (simp add: padded_bad_def add_mset_commute)
  have n: "(64::nat) dvd 128 \<and> (0::nat) \<noteq> 1 \<and> (63::nat) < 64 \<and> (0::nat) < 64" "(8::nat) dvd 48" "(48::nat) mod 64 \<noteq> 56"
    by simp_all
  note w = struct_layouts [of "[int_t, char_t, double_t, char_t]" 128 0 1 63 0 48]
  from w m have "csize (struct_of 1 padded_good) \<le> csize (struct_of 1 [int_t, char_t, double_t, char_t])" by blast
  moreover from struct_layouts [of order_bad] have "csize (struct_of 1 order_good) \<le> csize (struct_of 1 order_bad)" by blast
  moreover from w n(1) have "\<not> same_line (128 + 0 * csize (struct_of 64 core_accumulator) + 63)
      (128 + 1 * csize (struct_of 64 core_accumulator) + 0)" by blast
  moreover from w n(2,3) have "same_line 48 (48 + offsets 0 shared_counters ! 1)" by blast
  ultimately show ?thesis by blast
qed

end
