(* ===== verification/Ring_Buffers.thy ===== *)
theory Ring_Buffers
  imports Prelude "HOL-Library.Multiset"
begin

text \<open>
  The interface of a ring that overwrites its oldest entry: \<open>RingBuffer\<close> of \<^verbatim>\<open>templates/01_function_class_templates.cpp\<close> and the sample ring of
  \<^verbatim>\<open>performance/10_profiling.cpp\<close> provide it.  What it promises is proved here once: after any writes the ring holds the last entries.
\<close>

lemma mset_rotate_list: "mset (rotate m xs) = mset xs"
  by (simp add: rotate_drop_take union_code [symmetric] add.commute del: mset_append) (metis append_take_drop_id mset_append add.commute)

locale overwriting_ring =
  fixes cap :: nat
    and put :: "'a \<Rightarrow> 's \<Rightarrow> 's"
    and cells :: "'s \<Rightarrow> 'a list"
    and wpos :: "'s \<Rightarrow> nat"
    and start :: 's
    and ok :: "'s \<Rightarrow> bool"
  assumes cap_pos: "0 < cap"
    and ok_start: "ok start"
    and ok_put: "ok s \<Longrightarrow> ok (put x s)"
    and cells_put: "ok s \<Longrightarrow> cells (put x s) = (cells s)[wpos s mod cap := x]"
    and wpos_put: "ok s \<Longrightarrow> wpos (put x s) mod cap = Suc (wpos s) mod cap"
    and cells_start: "length (cells start) = cap"
    and wpos_start: "wpos start mod cap = 0"
begin

definition filled :: "'a list \<Rightarrow> 's" where
  "filled xs = fold put xs start"

lemma filled_snoc: "filled (xs @ [x]) = put x (filled xs)"
  by (simp add: filled_def)

lemma filled_ok [simp]: "ok (filled xs)"
  by (induction xs rule: rev_induct) (simp_all add: filled_snoc ok_put, simp add: filled_def ok_start)

lemma filled_length [simp]: "length (cells (filled xs)) = cap"
  by (induction xs rule: rev_induct) (simp_all add: filled_snoc cells_put, simp add: filled_def cells_start)

lemma filled_wpos: "wpos (filled xs) mod cap = length xs mod cap"
proof (induction xs rule: rev_induct)
  case Nil
  show ?case by (simp add: filled_def wpos_start)
next
  case (snoc x xs)
  then have "Suc (wpos (filled xs)) mod cap = Suc (length xs) mod cap" by (metis mod_Suc_eq)
  then show ?case by (simp add: filled_snoc wpos_put)
qed

text \<open>Entry \<open>i\<close> is in its cell while fewer than \<open>cap\<close> entries have come after it; cells not yet written are those of the start.\<close>

lemma filled_nth: "i < length xs \<Longrightarrow> length xs \<le> i + cap \<Longrightarrow> cells (filled xs) ! (i mod cap) = xs ! i"
proof (induction xs rule: rev_induct)
  case (snoc x xs)
  have neq: "i mod cap \<noteq> length xs mod cap" if "i < length xs"
    using mod_eq_close [of i "length xs" cap] that snoc.prems by simp
  have "i mod cap < cap" using cap_pos by simp
  then show ?case
    using snoc neq by (auto simp: filled_snoc cells_put filled_wpos nth_append nth_list_update less_Suc_eq)
qed simp

lemma filled_unwritten: "length xs \<le> j \<Longrightarrow> j < cap \<Longrightarrow> cells (filled xs) ! j = cells start ! j"
  by (induction xs rule: rev_induct) (simp_all add: filled_snoc cells_put filled_wpos, simp add: filled_def)

lemma filled_short: "length xs \<le> cap \<Longrightarrow> cells (filled xs) = xs @ drop (length xs) (cells start)"
proof (rule nth_equalityI)
  fix j assume l: "length xs \<le> cap" and "j < length (cells (filled xs))"
  then have "j < cap" by simp
  then show "cells (filled xs) ! j = (xs @ drop (length xs) (cells start)) ! j"
    using l filled_nth [of j xs] filled_unwritten [of xs j] by (cases "j < length xs") (simp_all add: nth_append cells_start)
qed (simp add: cells_start)

lemma filled_rotate:
  assumes "cap \<le> length xs"
  defines "n \<equiv> length xs - cap"
  shows "\<exists>m. cells (filled xs) = rotate m (drop n xs)"
proof -
  define m where "m = cap - n mod cap"
  have lend: "length (drop n xs) = cap" using assms(1) by (simp add: n_def)
  have "cells (filled xs) ! j = rotate m (drop n xs) ! j" if j: "j < cap" for j
  proof -
    define d where "d = (m + j) mod cap"
    have d: "d < cap" using cap_pos by (simp add: d_def)
    have "(n + d) mod cap = (n mod cap + (m + j)) mod cap" by (simp add: d_def mod_simps)
    also have "n mod cap + (m + j) = cap + j" using mod_less_divisor [OF cap_pos, of n] by (simp add: m_def del: mod_less_divisor)
    finally have "(n + d) mod cap = j" using j by simp
    moreover have "n + d < length xs" "length xs \<le> n + d + cap" using d assms(1) by (simp_all add: n_def)
    ultimately have "cells (filled xs) ! j = xs ! (n + d)" using filled_nth by metis
    also have "\<dots> = rotate m (drop n xs) ! j" using j lend d assms(1) by (simp add: nth_rotate d_def n_def)
    finally show ?thesis .
  qed
  then show ?thesis using lend by (intro exI [of _ m] nth_equalityI) simp_all
qed

lemma filled_mset: "cap \<le> length xs \<Longrightarrow> mset (cells (filled xs)) = mset (drop (length xs - cap) xs)"
  using filled_rotate [of xs] by (metis mset_rotate_list)

end

end
