(* ===== verification/Latency.thy ===== *)
theory Latency
  imports Ring_Buffers Complex_Main
begin

text \<open>
  Latency measurement: clock readings, percentiles and histograms of \<^verbatim>\<open>performance/06_latency_timing.cpp\<close>, the harness of \<^verbatim>\<open>09_benchmarking.cpp\<close>, and the
  shared accumulator \<open>LatencyStats\<close> and the ring of samples of \<^verbatim>\<open>10_profiling.cpp\<close>.  The times themselves are arguments.  The
  \<open>std::atomic<int64_t>\<close> sums of \<open>LatencyStats\<close> wrap around at \<open>2 ^ 63\<close>.
\<close>

section \<open>The clock\<close>

definition now_ns :: "int \<times> int \<Rightarrow> int" where
  "now_ns ts = fst ts * 1000000000 + snd ts"

text \<open>A monotonic clock never goes back; the nanoseconds of a \<open>timespec\<close> are below a second.\<close>

definition timespec_ok :: "int \<times> int \<Rightarrow> bool" where
  "timespec_ok ts \<longleftrightarrow> 0 \<le> snd ts \<and> snd ts < 1000000000"

definition timespec_le :: "int \<times> int \<Rightarrow> int \<times> int \<Rightarrow> bool" where
  "timespec_le a b \<longleftrightarrow> fst a < fst b \<or> fst a = fst b \<and> snd a \<le> snd b"

lemma now_ns_mono: "timespec_ok a \<Longrightarrow> timespec_ok b \<Longrightarrow> timespec_le a b \<Longrightarrow> now_ns a \<le> now_ns b"
  by (auto simp: timespec_ok_def timespec_le_def now_ns_def)

section \<open>Percentiles\<close>

text \<open>
  \<open>p\<close> is in tenths of a percent.  The harnesses clamp the index (\<open>pct\<close>); \<open>demo_histogram\<close> does not, and reads outside the vector when
  the index reaches its size (\<open>None\<close>).
\<close>

definition pct_index :: "nat \<Rightarrow> nat \<Rightarrow> nat" where
  "pct_index p n = p * n div 1000"

definition pct :: "'a::linorder list \<Rightarrow> nat \<Rightarrow> 'a" where
  "pct samples p = sort samples ! min (pct_index p (length samples)) (length samples - 1)"

definition pct_raw :: "'a::linorder list \<Rightarrow> nat \<Rightarrow> 'a option" where
  "pct_raw samples p =
     (let i = pct_index p (length samples) in if i < length samples then Some (sort samples ! i) else None)"

text \<open>\<open>run_bench\<close>: minimum, median and 99th percentile of the measured times.\<close>

definition run_bench :: "'a::linorder list \<Rightarrow> 'a \<times> 'a \<times> 'a" where
  "run_bench samples = (sort samples ! 0, pct samples 500, pct samples 990)"

definition clock_overhead :: "int list \<Rightarrow> int \<times> int \<times> int" where
  "clock_overhead deltas = (let s = sort deltas; n = length deltas in (s ! 0, s ! (n div 2), s ! (n * 99 div 100)))"

lemma sorted_nth_rank:
  fixes ys :: "'a::linorder list"
  assumes "sorted ys" and "i < length ys"
  shows "length (filter (\<lambda>y. y < ys ! i) ys) \<le> i" and "i < length (filter (\<lambda>y. y \<le> ys ! i) ys)"
proof -
  have split: "length (filter P ys) = length (filter P (take k ys)) + length (filter P (drop k ys))" for P k
    by (metis append_take_drop_id filter_append length_append)
  have "filter (\<lambda>y. y < ys ! i) (drop i ys) = []"
    using assms by (auto simp: filter_empty_conv in_set_conv_nth sorted_nth_mono leD)
  then show "length (filter (\<lambda>y. y < ys ! i) ys) \<le> i"
    using split [of "\<lambda>y. y < ys ! i" i] length_filter_le [of "\<lambda>y. y < ys ! i" "take i ys"] assms(2) by simp
  have "filter (\<lambda>y. y \<le> ys ! i) (take (Suc i) ys) = take (Suc i) ys"
    using assms by (intro filter_True) (auto simp: in_set_conv_nth sorted_nth_mono less_Suc_eq_le)
  then show "i < length (filter (\<lambda>y. y \<le> ys ! i) ys)"
    using split [of "\<lambda>y. y \<le> ys ! i" "Suc i"] assms(2) by simp
qed

lemma length_filter_sort: "length (filter P (sort xs)) = length (filter P xs)"
  by (metis mset_filter mset_sort size_mset)

lemma sort_nth_rank:
  fixes xs :: "'a::linorder list"
  assumes "i < length xs"
  shows "sort xs ! i \<in> set xs \<and> length (filter (\<lambda>x. x < sort xs ! i) xs) \<le> i \<and> i < length (filter (\<lambda>x. x \<le> sort xs ! i) xs)"
  using sorted_nth_rank [of "sort xs" i] assms by (simp add: length_filter_sort) (metis length_sort nth_mem set_sort)

lemma pct_index_mono: "p \<le> q \<Longrightarrow> pct_index p n \<le> pct_index q n"
  by (simp add: pct_index_def div_le_mono mult_le_mono1)

lemma pct_mono: "samples \<noteq> [] \<Longrightarrow> p \<le> q \<Longrightarrow> pct samples p \<le> pct samples q"
  using pct_index_mono [of p q "length samples"]
  by (auto simp: pct_def min_less_iff_disj intro!: sorted_nth_mono min.mono)

section \<open>The histogram\<close>

definition bucket_of :: "int \<Rightarrow> nat" where
  "bucket_of lat = (if lat < 100 then 0 else if lat < 1000 then 1 else if lat < 10000 then 2 else if lat < 100000 then 3 else 4)"

definition fill_buckets :: "int list \<Rightarrow> nat list" where
  "fill_buckets latencies = fold (\<lambda>lat b. b[bucket_of lat := Suc (b ! bucket_of lat)]) latencies (replicate 5 0)"

definition bucket_row :: "string \<Rightarrow> nat \<Rightarrow> nat \<Rightarrow> string \<times> nat \<times> real" where
  "bucket_row lbl c n = (lbl, c, 100 * real c / real n)"

lemma bucket_of_less: "bucket_of lat < 5"
  by (simp add: bucket_of_def)

lemma fill_buckets_count:
  "k < 5 \<Longrightarrow> fill_buckets latencies ! k = length (filter (\<lambda>lat. bucket_of lat = k) latencies)"
  "length (fill_buckets latencies) = 5"
proof -
  define upd where "upd = (\<lambda>lat (b :: nat list). b[bucket_of lat := Suc (b ! bucket_of lat)])"
  have len: "length (fold upd ls b) = length b" for ls b by (induction ls arbitrary: b) (simp_all add: upd_def)
  have count: "fold upd ls b ! k = b ! k + length (filter (\<lambda>lat. bucket_of lat = k) ls)" if "length b = 5" "k < 5" for ls b k
    using that by (induction ls arbitrary: b) (auto simp: upd_def nth_list_update bucket_of_less)
  show "k < 5 \<Longrightarrow> fill_buckets latencies ! k = length (filter (\<lambda>lat. bucket_of lat = k) latencies)"
    using count [of "replicate 5 0" k latencies] by (simp add: fill_buckets_def upd_def)
  show "length (fill_buckets latencies) = 5"
    using len [of latencies "replicate 5 0"] by (simp add: fill_buckets_def upd_def)
qed

lemma bucket_total: "(\<Sum>k<5. length (filter (\<lambda>lat. bucket_of lat = k) ls)) = length ls"
proof (induction ls)
  case (Cons a ls)
  have "(\<Sum>k<5. length (filter (\<lambda>lat. bucket_of lat = k) (a # ls))) =
      (\<Sum>k<5. (if k = bucket_of a then 1 else 0) + length (filter (\<lambda>lat. bucket_of lat = k) ls))"
    by (intro sum.cong) auto
  then show ?case using Cons by (simp add: sum.distrib bucket_of_less)
qed simp

section \<open>The ring of samples\<close>

unbundle bit_operations_syntax

text \<open>\<open>ring[write_pos++ & (BUF_SIZE - 1)] = ns\<close> with \<open>BUF_SIZE = 2 ^ k\<close>.\<close>

definition ring_write :: "nat \<Rightarrow> int \<Rightarrow> int list \<times> nat \<Rightarrow> int list \<times> nat" where
  "ring_write k ns r = (case r of (ring, pos) \<Rightarrow> (ring[pos AND (2 ^ k - 1) := ns], Suc pos))"

definition ring_fill :: "nat \<Rightarrow> int list \<Rightarrow> int list \<times> nat" where
  "ring_fill k samples = fold (ring_write k) samples (replicate (2 ^ k) 0, 0)"

definition ring_percentiles :: "nat \<Rightarrow> int list \<Rightarrow> int \<times> int \<times> int" where
  "ring_percentiles k samples = (let ring = fst (ring_fill k samples) in (pct ring 500, pct ring 950, pct ring 990))"

lemma ring_index: "pos AND (2 ^ k - 1) = pos mod 2 ^ k" for pos :: nat
  unfolding mask_eq_exp_minus_1 [symmetric] take_bit_eq_mask [symmetric] take_bit_eq_mod ..

interpretation sample_ring: overwriting_ring "2 ^ k" "ring_write k" fst snd "(replicate (2 ^ k) 0, 0)" "\<lambda>_. True" for k
  by unfold_locales (simp_all add: ring_write_def ring_index [simplified] split: prod.splits)

lemma ring_fill_filled: "ring_fill k xs = sample_ring.filled k xs"
  by (simp add: ring_fill_def sample_ring.filled_def)

lemma ring_fill_mset: "2 ^ k \<le> length xs \<Longrightarrow> mset (fst (ring_fill k xs)) = mset (drop (length xs - 2 ^ k) xs)"
  using sample_ring.filled_mset [of k xs] by (simp add: ring_fill_filled)

section \<open>The shared accumulator\<close>

text \<open>
  \<open>LatencyStats\<close> with threads that record their samples, one step per atomic operation.  A thread has a program counter, the samples it has
  recorded (for the properties only) and the samples still to record, the first of which is being recorded.
\<close>

record lstats =
  ls_count :: int
  ls_total :: int
  ls_min :: int
  ls_max :: int

definition int64_max :: int where
  "int64_max = 2 ^ 63 - 1"

definition lstats_init :: lstats where
  "lstats_init = \<lparr>ls_count = 0, ls_total = 0, ls_min = int64_max, ls_max = 0\<rparr>"

text \<open>\<open>fetch_add\<close> on a signed atomic wraps around in two's complement.\<close>

definition wrap64 :: "int \<Rightarrow> int" where
  "wrap64 x = (x + 2 ^ 63) mod 2 ^ 64 - 2 ^ 63"

lemma wrap64_id: "- (2 ^ 63) \<le> x \<Longrightarrow> x < 2 ^ 63 \<Longrightarrow> wrap64 x = x"
  by (simp add: wrap64_def)

lemma wrap64_add: "wrap64 (wrap64 x + y) = wrap64 (x + y)"
proof -
  have "wrap64 x + y + 2 ^ 63 = (x + 2 ^ 63) mod 2 ^ 64 + y" by (simp add: wrap64_def)
  then have "(wrap64 x + y + 2 ^ 63) mod 2 ^ 64 = (x + 2 ^ 63 + y) mod 2 ^ 64" by (simp only: mod_add_left_eq)
  then show ?thesis by (simp add: wrap64_def add_ac)
qed

datatype rec_pc = L_Count | L_Total | L_Min_Load | L_Min int | L_Max_Load | L_Max int

type_synonym rec_thread = "rec_pc \<times> int list \<times> int list"

text \<open>\<open>record(ns)\<close>; \<open>spurious\<close> makes a \<open>compare_exchange_weak\<close> fail although the value is the expected one.\<close>

fun record_step :: "bool \<Rightarrow> lstats \<Rightarrow> rec_thread \<Rightarrow> (lstats \<times> rec_thread) option" where
  "record_step spurious s (pc, dn, []) = None"
| "record_step spurious s (L_Count, dn, ns # todo) = Some (s\<lparr>ls_count := wrap64 (ls_count s + 1)\<rparr>, L_Total, dn, ns # todo)"
| "record_step spurious s (L_Total, dn, ns # todo) = Some (s\<lparr>ls_total := wrap64 (ls_total s + ns)\<rparr>, L_Min_Load, dn, ns # todo)"
| "record_step spurious s (L_Min_Load, dn, ns # todo) = Some (s, L_Min (ls_min s), dn, ns # todo)"
| "record_step spurious s (L_Min cur, dn, ns # todo) =
     (if ns < cur then
        if ls_min s = cur \<and> \<not> spurious then Some (s\<lparr>ls_min := ns\<rparr>, L_Max_Load, dn, ns # todo)
        else Some (s, L_Min (ls_min s), dn, ns # todo)
      else Some (s, L_Max_Load, dn, ns # todo))"
| "record_step spurious s (L_Max_Load, dn, ns # todo) = Some (s, L_Max (ls_max s), dn, ns # todo)"
| "record_step spurious s (L_Max cur, dn, ns # todo) =
     (if ns > cur then
        if ls_max s = cur \<and> \<not> spurious then Some (s\<lparr>ls_max := ns\<rparr>, L_Count, dn @ [ns], todo)
        else Some (s, L_Max (ls_max s), dn, ns # todo)
      else Some (s, L_Count, dn @ [ns], todo))"

type_synonym rec_sys = "lstats \<times> rec_thread list"

definition rec_init :: "int list list \<Rightarrow> rec_sys" where
  "rec_init samples = (lstats_init, map (\<lambda>xs. (L_Count, [], xs)) samples)"

inductive rec_step :: "rec_sys \<Rightarrow> rec_sys \<Rightarrow> bool" where
  rec: "t < length ths \<Longrightarrow> record_step spurious s (ths ! t) = Some (s', th) \<Longrightarrow> rec_step (s, ths) (s', ths[t := th])"

definition rec_done :: "rec_sys \<Rightarrow> bool" where
  "rec_done s \<longleftrightarrow> (\<forall>th \<in> set (snd s). snd (snd th) = [])"

definition print_stats :: "lstats \<Rightarrow> (int \<times> real \<times> int \<times> int) option" where
  "print_stats s =
     (if ls_count s = 0 then None
      else Some (ls_count s, real_of_int (ls_total s) / real_of_int (ls_count s), ls_min s, ls_max s))"

text \<open>What a thread has contributed to the count and to the total, and what it relies on for the extremes.\<close>

definition counted :: "rec_thread \<Rightarrow> int" where
  "counted th = (case th of (pc, dn, todo) \<Rightarrow> int (length dn) + (if pc = L_Count then 0 else 1))"

definition summed :: "rec_thread \<Rightarrow> int" where
  "summed th = (case th of (pc, dn, todo) \<Rightarrow> sum_list dn + (if pc = L_Count \<or> pc = L_Total then 0 else hd todo))"

definition thread_ok :: "int list \<Rightarrow> lstats \<Rightarrow> rec_thread \<Rightarrow> bool" where
  "thread_ok xs s th = (case th of (pc, dn, todo) \<Rightarrow>
     dn @ todo = xs \<and> (pc \<noteq> L_Count \<longrightarrow> todo \<noteq> [])
     \<and> (\<forall>x \<in> set dn. ls_min s \<le> x \<and> x \<le> ls_max s)
     \<and> (case pc of
          L_Min cur \<Rightarrow> ls_min s \<le> cur
        | L_Max_Load \<Rightarrow> ls_min s \<le> hd todo
        | L_Max cur \<Rightarrow> ls_min s \<le> hd todo \<and> cur \<le> ls_max s
        | _ \<Rightarrow> True))"

lemma thread_ok_rely: "thread_ok xs s th \<Longrightarrow> ls_min s' \<le> ls_min s \<Longrightarrow> ls_max s \<le> ls_max s' \<Longrightarrow> thread_ok xs s' th"
  by (auto simp: thread_ok_def split: prod.splits rec_pc.splits intro: order_trans)

lemma record_step_guarantee:
  assumes "record_step spurious s th = Some (s', th')" and "thread_ok xs s th"
  shows "ls_min s' \<le> ls_min s" "ls_max s \<le> ls_max s'" "thread_ok xs s' th'"
    "ls_count s' = ls_count s \<and> counted th' = counted th \<or> ls_count s' = wrap64 (ls_count s + (counted th' - counted th))"
    "ls_total s' = ls_total s \<and> summed th' = summed th \<or> ls_total s' = wrap64 (ls_total s + (summed th' - summed th))"
    "ls_min s' = ls_min s \<or> ls_min s' \<in> set xs" "ls_max s' = ls_max s \<or> ls_max s' \<in> set xs"
  using assms
  by (induction spurious s th rule: record_step.induct)
    (auto simp: thread_ok_def counted_def summed_def split: if_splits intro: order_trans, fastforce)

lemma sum_list_map_update_int:
  fixes f :: "'a \<Rightarrow> int"
  assumes "i < length xs"
  shows "sum_list (map f (xs[i := x])) = sum_list (map f xs) - f (xs ! i) + f x"
  using assms by (induction xs arbitrary: i) (auto split: nat.split)

lemma sum_list_map_wrap64:
  assumes "n = wrap64 (sum_list (map f xs))" and "n' = n \<and> f x = f (xs ! i) \<or> n' = wrap64 (n + (f x - f (xs ! i)))"
    and "i < length xs"
  shows "n' = wrap64 (sum_list (map f (xs[i := x])))"
proof -
  have "sum_list (map f (xs[i := x])) = sum_list (map f xs) + (f x - f (xs ! i))"
    using sum_list_map_update_int [OF assms(3)] by simp
  with assms(1,2) show ?thesis by (metis add_cancel_right_right diff_self wrap64_add)
qed

definition rec_inv :: "int list list \<Rightarrow> rec_sys \<Rightarrow> bool" where
  "rec_inv samples sys = (case sys of (s, ths) \<Rightarrow>
     length ths = length samples
     \<and> (\<forall>t < length samples. thread_ok (samples ! t) s (ths ! t))
     \<and> ls_count s = wrap64 (sum_list (map counted ths)) \<and> ls_total s = wrap64 (sum_list (map summed ths))
     \<and> ls_min s \<in> insert int64_max (\<Union>xs \<in> set samples. set xs)
     \<and> ls_max s \<in> insert 0 (\<Union>xs \<in> set samples. set xs)
     \<and> ls_min s \<le> int64_max \<and> 0 \<le> ls_max s)"

lemma rec_inv_init: "rec_inv samples (rec_init samples)"
  by (auto simp: rec_inv_def rec_init_def thread_ok_def counted_def summed_def lstats_init_def int64_max_def o_def wrap64_def)

lemma rec_inv_step: "rec_inv samples sys \<Longrightarrow> rec_step sys sys' \<Longrightarrow> rec_inv samples sys'"
proof (erule rec_step.cases, goal_cases)
  case (1 t ths spurious s s' th)
  have inv: "rec_inv samples (s, ths)" and t: "t < length ths" and st: "record_step spurious s (ths ! t) = Some (s', th)"
    using 1 by simp_all
  have len: "length ths = length samples" and ok: "thread_ok (samples ! t) s (ths ! t)"
    using inv t by (simp_all add: rec_inv_def)
  note g = record_step_guarantee [OF st ok]
  have "thread_ok (samples ! u) s' (ths[t := th] ! u)" if "u < length samples" for u
    using that inv g(1-3) t by (cases "u = t") (auto simp: rec_inv_def intro: thread_ok_rely)
  moreover have "samples ! t \<in> set samples" using t len by simp
  then have "ls_min s' \<in> insert int64_max (\<Union>xs \<in> set samples. set xs)" "ls_max s' \<in> insert 0 (\<Union>xs \<in> set samples. set xs)"
    using inv g(6,7) by (auto simp: rec_inv_def)
  moreover have "ls_min s' \<le> int64_max" "0 \<le> ls_max s'" using inv g(1,2) by (auto simp: rec_inv_def)
  moreover have sums: "ls_count s = wrap64 (sum_list (map counted ths))" "ls_total s = wrap64 (sum_list (map summed ths))"
    using inv by (simp_all add: rec_inv_def)
  have "ls_count s' = wrap64 (sum_list (map counted (ths[t := th])))" "ls_total s' = wrap64 (sum_list (map summed (ths[t := th])))"
    using sum_list_map_wrap64 [OF sums(1) g(4) t] sum_list_map_wrap64 [OF sums(2) g(5) t] by simp_all
  moreover note this
  ultimately show ?case using 1(2,3) len by (simp add: rec_inv_def)
qed

interpretation stats: inv_system "\<lambda>s. s = rec_init samples" rec_step "rec_inv samples" for samples
  by unfold_locales (auto intro: rec_inv_init rec_inv_step)

text \<open>A thread on its own, with no spurious failure, finishes its current sample within seven steps.\<close>

fun solo_rank :: "lstats \<Rightarrow> rec_pc \<Rightarrow> nat" where
  "solo_rank s L_Count = 7"
| "solo_rank s L_Total = 6"
| "solo_rank s L_Min_Load = 5"
| "solo_rank s (L_Min cur) = (if cur = ls_min s then 3 else 4)"
| "solo_rank s L_Max_Load = 2"
| "solo_rank s (L_Max cur) = (if cur = ls_max s then 0 else 1)"

lemma solo_step:
  assumes "todo \<noteq> []"
  shows "\<exists>s' pc' dn' todo'. record_step False s (pc, dn, todo) = Some (s', pc', dn', todo')
     \<and> (todo' = tl todo \<or> todo' = todo \<and> solo_rank s' pc' < solo_rank s pc)"
proof -
  obtain ns rest where "todo = ns # rest" using assms by (cases todo) auto
  then show ?thesis by (cases pc) auto
qed

lemma solo_finish:
  assumes "t < length ths" and "ths ! t = (pc, dn, todo)" and "todo \<noteq> []"
  shows "\<exists>s' th. rec_step\<^sup>*\<^sup>* (s, ths) (s', ths[t := th]) \<and> snd (snd th) = tl todo"
  using assms
proof (induction "solo_rank s pc" arbitrary: s ths pc dn rule: less_induct)
  case less
  obtain s' pc' dn' todo' where st: "record_step False s (pc, dn, todo) = Some (s', pc', dn', todo')"
    and or: "todo' = tl todo \<or> todo' = todo \<and> solo_rank s' pc' < solo_rank s pc"
    using solo_step [OF less.prems(3)] by blast
  let ?ths = "ths[t := (pc', dn', todo')]"
  have r: "rec_step (s, ths) (s', ?ths)" using rec [OF less.prems(1)] st less.prems(2) by simp
  from or show ?case
  proof
    assume "todo' = tl todo"
    then show ?thesis using r by (intro exI [of _ s'] exI [of _ "(pc', dn', todo')"]) auto
  next
    assume more: "todo' = todo \<and> solo_rank s' pc' < solo_rank s pc"
    then obtain s'' th where "rec_step\<^sup>*\<^sup>* (s', ?ths) (s'', ?ths[t := th])" "snd (snd th) = tl todo"
      using less.hyps [of s' pc' ?ths dn'] less.prems by auto
    then have "rec_step\<^sup>*\<^sup>* (s, ths) (s'', ths[t := th])" using r by (simp add: converse_rtranclp_into_rtranclp)
    then show ?thesis using \<open>snd (snd th) = tl todo\<close> by blast
  qed
qed

definition unrecorded :: "rec_sys \<Rightarrow> nat" where
  "unrecorded sys = sum_list (map (\<lambda>th. length (snd (snd th))) (snd sys))"

lemma rec_can_finish: "\<exists>sys'. rec_step\<^sup>*\<^sup>* sys sys' \<and> rec_done sys'"
proof (induction "unrecorded sys" arbitrary: sys rule: less_induct)
  case less
  obtain s ths where sys: "sys = (s, ths)" by fastforce
  show ?case
  proof (cases "rec_done sys")
    case False
    then obtain t where t: "t < length ths" "snd (snd (ths ! t)) \<noteq> []"
      using sys by (auto simp: rec_done_def in_set_conv_nth)
    obtain s' th where r: "rec_step\<^sup>*\<^sup>* sys (s', ths[t := th])" "snd (snd th) = tl (snd (snd (ths ! t)))"
      using solo_finish [OF t(1) _ t(2), of "fst (ths ! t)" "fst (snd (ths ! t))" s] sys by auto
    have "unrecorded (s', ths[t := th]) + length (snd (snd (ths ! t))) = unrecorded sys + length (snd (snd th))"
      using sum_list_update_nat [of t "map (\<lambda>th. length (snd (snd th))) ths" "length (snd (snd th))"] t(1)
      by (simp add: unrecorded_def sys map_update)
    then have "unrecorded (s', ths[t := th]) < unrecorded sys" using r(2) t(2) by (cases "snd (snd (ths ! t))") auto
    then show ?thesis using less.hyps r(1) by (meson rtranclp_trans)
  next
    case True
    then show ?thesis by (intro exI [of _ sys]) simp
  qed
qed

section \<open>Properties\<close>

text \<open>A finished thread has recorded all its samples.\<close>

lemma finished_thread:
  assumes "thread_ok xs s th" and "snd (snd th) = []"
  shows "counted th = int (length xs)" "summed th = sum_list xs" "\<forall>x \<in> set xs. ls_min s \<le> x \<and> x \<le> ls_max s"
  using assms by (auto simp: thread_ok_def counted_def summed_def split: prod.splits)

lemma finished_sums:
  assumes "rec_inv samples (s, ths)" and "rec_done (s, ths)"
  shows "map counted ths = map (\<lambda>xs. int (length xs)) samples" "map summed ths = map sum_list samples"
    "xs \<in> set samples \<Longrightarrow> x \<in> set xs \<Longrightarrow> ls_min s \<le> x \<and> x \<le> ls_max s"
proof -
  have ok: "thread_ok (samples ! t) s (ths ! t) \<and> snd (snd (ths ! t)) = []" if "t < length samples" for t
    using that assms by (simp add: rec_inv_def rec_done_def)
  have len: "length ths = length samples" using assms(1) by (simp add: rec_inv_def)
  show "map counted ths = map (\<lambda>xs. int (length xs)) samples" "map summed ths = map sum_list samples"
    using len ok [THEN conjunct1, THEN finished_thread(1)] ok [THEN conjunct1, THEN finished_thread(2)] ok
    by (auto intro!: nth_equalityI)
  show "ls_min s \<le> x \<and> x \<le> ls_max s" if "xs \<in> set samples" "x \<in> set xs"
    using that ok finished_thread(3) by (metis in_set_conv_nth)
qed

text \<open>
  C24: Latency statistics.  However the steps of concurrent \<open>record\<close> calls interleave, and whichever \<open>compare_exchange_weak\<close> fails spuriously, once all threads have
  finished the count and total are those of all samples modulo \<open>2 ^ 64\<close>, as signed numbers, and so exact while they fit into \<open>int64_t\<close>; the minimum and maximum are the extremes
  of the samples (with the initial values \<open>INT64_MAX\<close> and 0), and from every state the threads can finish.
\<close>

theorem latency_stats_exact:
  assumes "rec_step\<^sup>*\<^sup>* (rec_init samples) (s, ths)"
  shows "(rec_done (s, ths) \<longrightarrow>
        ls_count s = wrap64 (int (length (concat samples))) \<and> ls_total s = wrap64 (sum_list (concat samples))
        \<and> (int (length (concat samples)) < 2 ^ 63 \<longrightarrow> ls_count s = int (length (concat samples)))
        \<and> (- (2 ^ 63) \<le> sum_list (concat samples) \<and> sum_list (concat samples) < 2 ^ 63 \<longrightarrow> ls_total s = sum_list (concat samples))
        \<and> ls_min s = Min (insert int64_max (set (concat samples))) \<and> ls_max s = Max (insert 0 (set (concat samples))))
    \<and> (\<exists>sys. rec_step\<^sup>*\<^sup>* (s, ths) sys \<and> rec_done sys)"
proof (intro conjI impI)
  have inv: "rec_inv samples (s, ths)" using stats.reachable_inv [OF refl assms] .
  assume fin: "rec_done (s, ths)"
  note f = finished_sums [OF inv fin]
  have "(\<Sum>xs\<leftarrow>samples. int (length xs)) = int (length (concat samples))" by (induction samples) auto
  then show n: "ls_count s = wrap64 (int (length (concat samples)))" using inv f(1) by (simp add: rec_inv_def)
  show "ls_count s = int (length (concat samples))" if "int (length (concat samples)) < 2 ^ 63"
    unfolding n using that by (intro wrap64_id) (simp_all add: order_trans [of _ 0])
  have "sum_list (map sum_list samples) = sum_list (concat samples)" by (induction samples) auto
  then show total: "ls_total s = wrap64 (sum_list (concat samples))" using inv f(2) by (simp add: rec_inv_def)
  show "ls_total s = sum_list (concat samples)"
    if "- (2 ^ 63) \<le> sum_list (concat samples) \<and> sum_list (concat samples) < 2 ^ 63"
    unfolding total using that by (intro wrap64_id) simp_all
  show "ls_min s = Min (insert int64_max (set (concat samples)))" "ls_max s = Max (insert 0 (set (concat samples)))"
    using inv f(3) by (intro Min_eqI [symmetric] Max_eqI [symmetric]; force simp: rec_inv_def)+
qed (rule rec_can_finish)

fun rec_run :: "(nat \<times> bool) list \<Rightarrow> rec_sys \<Rightarrow> rec_sys option" where
  "rec_run [] sys = Some sys"
| "rec_run ((t, sp) # cs) (s, ths) =
     (if t < length ths then
        (case record_step sp s (ths ! t) of None \<Rightarrow> None | Some (s', th) \<Rightarrow> rec_run cs (s', ths[t := th]))
      else None)"

lemma rec_run_steps: "rec_run cs sys = Some sys' \<Longrightarrow> rec_step\<^sup>*\<^sup>* sys sys'"
  by (induction cs sys rule: rec_run.induct)
    (auto split: if_splits option.splits intro: converse_rtranclp_into_rtranclp rec)

text \<open>
  Two threads whose loads of the minimum both precede the first exchange: one exchange fails and is retried.  Two samples of \<open>INT64_MAX\<close>
  add up to -2.
\<close>

theorem latency_stats_exact_witness:
  "(\<exists>s ths. rec_step\<^sup>*\<^sup>* (rec_init [[30], [20]]) (s, ths) \<and> ls_count s = 2 \<and> ls_total s = 50 \<and> ls_min s = 20 \<and> ls_max s = 30)
   \<and> (\<exists>s ths. rec_step\<^sup>*\<^sup>* (rec_init [[int64_max, int64_max]]) (s, ths) \<and> ls_count s = 2 \<and> ls_total s = - 2)"
proof
  let ?cs = "map (\<lambda>t. (t, False)) [0, 0, 0, 1, 1, 1, 0, 1, 1, 0, 0, 1, 1]"
  let ?r = "the (rec_run ?cs (rec_init [[30], [20]]))"
  have run: "rec_run ?cs (rec_init [[30], [20]]) = Some ?r" by code_simp
  have fin: "\<forall>th \<in> set (snd ?r). snd (snd th) = []" by code_simp
  have reach: "rec_step\<^sup>*\<^sup>* (rec_init [[30], [20]]) (fst ?r, snd ?r)" using rec_run_steps [OF run] by simp
  show "\<exists>s ths. rec_step\<^sup>*\<^sup>* (rec_init [[30], [20]]) (s, ths) \<and> ls_count s = 2 \<and> ls_total s = 50 \<and> ls_min s = 20 \<and> ls_max s = 30"
    using latency_stats_exact [OF reach] fin reach by (intro exI [of _ "fst ?r"] exI [of _ "snd ?r"]) (simp add: rec_done_def int64_max_def)
next
  let ?x = "[[int64_max, int64_max]]"
  obtain sys where sys: "rec_step\<^sup>*\<^sup>* (rec_init ?x) sys" "rec_done sys" using rec_can_finish by blast
  then have reach: "rec_step\<^sup>*\<^sup>* (rec_init ?x) (fst sys, snd sys)" and fin: "rec_done (fst sys, snd sys)" by simp_all
  have "wrap64 2 = 2" "wrap64 (int64_max + int64_max) = - 2" by (simp_all add: wrap64_def int64_max_def)
  with latency_stats_exact [OF reach] fin
  have "ls_count (fst sys) = 2 \<and> ls_total (fst sys) = - 2" by simp
  with reach show "\<exists>s ths. rec_step\<^sup>*\<^sup>* (rec_init ?x) (s, ths) \<and> ls_count s = 2 \<and> ls_total s = - 2" by blast
qed

text \<open>
  Percentiles, histogram and ring.  The percentile at index \<open>i\<close> is a sample with at most \<open>i\<close> samples below it and more than \<open>i\<close> not above it; the clamped index is always
  in range, percentiles grow with \<open>p\<close>, and the unclamped one reads outside the vector exactly when \<open>p\<close> is at least 100 percent.  Every sample falls in exactly one bucket of the histogram.
  The ring holds exactly the last \<open>2 ^ k\<close> samples once that many were written; before, its percentiles include the zeros it starts with.  Elapsed times
  of a monotonic clock are not negative.
\<close>

theorem latency_summaries:
  fixes samples :: "int list"
  assumes "samples \<noteq> []" and "p \<le> q"
  defines "i \<equiv> min (pct_index p (length samples)) (length samples - 1)"
  shows "pct samples p \<in> set samples
    \<and> length (filter (\<lambda>x. x < pct samples p) samples) \<le> i \<and> i < length (filter (\<lambda>x. x \<le> pct samples p) samples)
    \<and> pct samples p \<le> pct samples q
    \<and> (pct_raw samples p = None \<longleftrightarrow> 1000 \<le> p)
    \<and> (p < 1000 \<longrightarrow> pct_raw samples p = Some (pct samples p))
    \<and> sum_list (fill_buckets samples) = length samples
    \<and> (\<forall>k < 5. fill_buckets samples ! k = length (filter (\<lambda>lat. bucket_of lat = k) samples))
    \<and> (2 ^ k \<le> length samples \<longrightarrow> mset (fst (ring_fill k samples)) = mset (drop (length samples - 2 ^ k) samples))
    \<and> (length samples < 2 ^ k \<longrightarrow> fst (ring_fill k samples) = samples @ replicate (2 ^ k - length samples) 0)
    \<and> (timespec_ok a \<longrightarrow> timespec_ok b \<longrightarrow> timespec_le a b \<longrightarrow> 0 \<le> now_ns b - now_ns a)"
proof -
  have n: "0 < length samples" using assms(1) by simp
  have i: "i < length samples" using n by (simp add: i_def min_less_iff_disj)
  have idx: "pct_index p (length samples) < length samples \<longleftrightarrow> p < 1000"
    using n by (simp add: pct_index_def div_less_iff_less_mult)
  have raw: "pct_raw samples p = None \<longleftrightarrow> 1000 \<le> p" using idx by (auto simp: pct_raw_def Let_def)
  have raw2: "p < 1000 \<longrightarrow> pct_raw samples p = Some (pct samples p)"
    using idx by (auto simp: pct_raw_def pct_def Let_def min_def)
  have "sum_list (fill_buckets samples) = (\<Sum>k<5. fill_buckets samples ! k)"
    using fill_buckets_count(2) [of samples] by (simp add: sum_list_sum_nth atLeast0LessThan)
  also have "\<dots> = (\<Sum>k<5. length (filter (\<lambda>lat. bucket_of lat = k) samples))" by (simp add: fill_buckets_count)
  also have "\<dots> = length samples" by (rule bucket_total)
  finally have buckets: "sum_list (fill_buckets samples) = length samples" .
  have short: "fst (ring_fill k samples) = samples @ replicate (2 ^ k - length samples) 0" if "length samples < 2 ^ k"
    using sample_ring.filled_short [of samples k] that by (simp add: ring_fill_filled)
  show ?thesis
    using sort_nth_rank [OF i] pct_mono [OF assms(1,2)] raw raw2 buckets fill_buckets_count(1) ring_fill_mset short now_ns_mono [of a b]
    by (simp add: pct_def i_def)
qed

theorem latency_summaries_witness:
  "pct [30, 10, 20, 40::int] 500 \<le> pct [30, 10, 20, 40] 990 \<and> sum_list (fill_buckets [30, 10, 20, 40]) = 4"
  using latency_summaries [of "[30, 10, 20, 40]" 500 990] by simp

end
