(* ===== verification/Kernels.thy ===== *)
theory Kernels
  imports Prelude Complex_Main "HOL-Library.Multiset"
begin

text \<open>
  The computations the performance programs time: array addition, prefix sums and averages of \<^verbatim>\<open>04_simd_vectorization.cpp\<close> and
  \<^verbatim>\<open>09_benchmarking.cpp\<close>, the scans of \<^verbatim>\<open>01_cache_effects.cpp\<close>, the branchless code of \<^verbatim>\<open>03_branch_prediction.cpp\<close> and \<^verbatim>\<open>05_compiler_hints.cpp\<close>.
  A \<^verbatim>\<open>double\<close> is a real number.
\<close>

section \<open>Arrays in memory\<close>

text \<open>
  Memory maps addresses (in elements) to values; an array is its first address.  \<open>add_no_restrict\<close>, \<open>add_restrict\<close> and \<open>add_aligned\<close> are the same loop;
  what the compiler may assume of the last two is \<open>add_vector\<close>, which reads both arrays before it writes.
\<close>

type_synonym memory = "nat \<Rightarrow> real"

fun add_loop :: "nat \<Rightarrow> nat \<Rightarrow> nat \<Rightarrow> nat \<Rightarrow> memory \<Rightarrow> memory" where
  "add_loop a b out 0 m = m"
| "add_loop a b out (Suc n) m = (let m' = add_loop a b out n m in m'(out + n := m' (a + n) + m' (b + n)))"

definition add_vector :: "nat \<Rightarrow> nat \<Rightarrow> nat \<Rightarrow> nat \<Rightarrow> memory \<Rightarrow> memory" where
  "add_vector a b out n m = (\<lambda>p. if out \<le> p \<and> p < out + n then m (a + (p - out)) + m (b + (p - out)) else m p)"

text \<open>\<open>prefix_sum\<close> writes \<open>out[0]\<close> before its loop, whatever \<open>n\<close> is.\<close>

fun prefix_loop :: "nat \<Rightarrow> nat \<Rightarrow> nat \<Rightarrow> memory \<Rightarrow> memory" where
  "prefix_loop src out 0 m = m(out := m src)"
| "prefix_loop src out (Suc i) m =
     (let m' = prefix_loop src out i m in m'(out + Suc i := m' (out + i) + m' (src + Suc i)))"

definition prefix_sum :: "nat \<Rightarrow> nat \<Rightarrow> nat \<Rightarrow> memory \<Rightarrow> memory" where
  "prefix_sum src out n m = prefix_loop src out (n - 1) m"

text \<open>\<open>out\<close> never runs ahead of a source: the write to \<open>out + k\<close> is not read again as element \<open>j > k\<close> of a source.\<close>

definition no_overrun :: "nat \<Rightarrow> nat \<Rightarrow> nat \<Rightarrow> bool" where
  "no_overrun a out n \<longleftrightarrow> out \<le> a \<or> a + n \<le> out"

definition disjoint_arrays :: "nat \<Rightarrow> nat \<Rightarrow> nat \<Rightarrow> bool" where
  "disjoint_arrays a out n \<longleftrightarrow> out + n \<le> a \<or> a + n \<le> out"

lemma add_loop_vector:
  assumes "no_overrun a out n" and "no_overrun b out n" and "k \<le> n"
  shows "add_loop a b out k m = add_vector a b out k m"
  using assms(3)
proof (induction k)
  case 0
  show ?case by (auto simp: add_vector_def)
next
  case (Suc k)
  have "add_vector a b out k m (a + k) = m (a + k)" "add_vector a b out k m (b + k) = m (b + k)"
    using assms(1,2) Suc.prems by (auto simp: add_vector_def no_overrun_def)
  then show ?case using Suc by (auto simp: add_vector_def Let_def fun_eq_iff less_Suc_eq)
qed

lemma prefix_loop_outside: "p < out \<or> out + k < p \<Longrightarrow> prefix_loop src out k m p = m p"
  by (induction k) (auto simp: Let_def)

lemma prefix_loop_correct:
  assumes "disjoint_arrays src out n" and "k < n" and "i \<le> k"
  shows "prefix_loop src out k m (out + i) = (\<Sum>j\<le>i. m (src + j))"
  using assms(2,3)
proof (induction k arbitrary: i)
  case (Suc k)
  have "src + Suc k < out \<or> out + k < src + Suc k"
    using assms(1) Suc.prems(1) by (auto simp: disjoint_arrays_def)
  then have "prefix_loop src out k m (src + Suc k) = m (src + Suc k)" by (rule prefix_loop_outside)
  then show ?case using Suc by (cases "i = Suc k") (auto simp: Let_def)
qed simp

lemma prefix_sum_correct:
  assumes "disjoint_arrays src out n" and "i < n"
  shows "prefix_sum src out n m (out + i) = (\<Sum>j\<le>i. m (src + j))"
  using prefix_loop_correct [OF assms(1), of "n - 1" i m] assms(2) by (simp add: prefix_sum_def)

section \<open>Averages\<close>

fun vwap_loop :: "real list \<Rightarrow> real list \<Rightarrow> real \<Rightarrow> real \<Rightarrow> real \<times> real" where
  "vwap_loop (p # ps) (q # qs) num den = vwap_loop ps qs (num + p * q) (den + q)"
| "vwap_loop ps qs num den = (num, den)"

definition vwap_prices :: "real list \<Rightarrow> real list \<Rightarrow> real" where
  "vwap_prices ps qs = (case vwap_loop ps qs 0 0 of (num, den) \<Rightarrow> if den > 0 then num / den else 0)"

text \<open>\<open>compute_ewma\<close> reads \<open>data[0]\<close>, which an empty array does not have.\<close>

definition compute_ewma :: "real \<Rightarrow> real list \<Rightarrow> real option" where
  "compute_ewma alpha data = (case data of [] \<Rightarrow> None | x # xs \<Rightarrow> Some (fold (\<lambda>y ewma. alpha * y + (1 - alpha) * ewma) xs x))"

definition sum_array :: "int list \<Rightarrow> int" where
  "sum_array data = fold (\<lambda>x s. s + x) data 0"

definition running_pnl :: "real list \<Rightarrow> real" where
  "running_pnl deltas = fold (\<lambda>x pnl. pnl + x) deltas 0"

lemma vwap_loop_sums:
  "length ps = length qs \<Longrightarrow> vwap_loop ps qs num den = (num + sum_list (map2 (*) ps qs), den + sum_list qs)"
  by (induction ps qs num den rule: vwap_loop.induct) (auto simp: algebra_simps)

lemma weighted_between:
  assumes "length ps = length qs" and "\<forall>p \<in> set ps. lo \<le> p \<and> p \<le> hi" and "\<forall>q \<in> set qs. (0::real) \<le> q"
  shows "lo * sum_list qs \<le> sum_list (map2 (*) ps qs) \<and> sum_list (map2 (*) ps qs) \<le> hi * sum_list qs"
  using assms
proof (induction ps qs rule: list_induct2)
  case (Cons p ps q qs)
  then have "lo * q \<le> p * q" "p * q \<le> hi * q" by (auto intro: mult_right_mono)
  then show ?case using Cons by (auto simp: algebra_simps)
qed simp

lemma vwap_prices_between:
  assumes "length ps = length qs" and "\<forall>p \<in> set ps. lo \<le> p \<and> p \<le> hi" and "\<forall>q \<in> set qs. 0 \<le> q" and "0 < sum_list qs"
  shows "lo \<le> vwap_prices ps qs \<and> vwap_prices ps qs \<le> hi"
  using weighted_between [OF assms(1-3)] assms(4)
  by (simp add: vwap_prices_def vwap_loop_sums [OF assms(1)] pos_le_divide_eq pos_divide_le_eq)

lemma ewma_between:
  assumes "0 \<le> alpha" "alpha \<le> 1" and "\<forall>x \<in> set data. lo \<le> x \<and> x \<le> hi" and "compute_ewma alpha data = Some v"
  shows "lo \<le> v \<and> v \<le> hi"
proof -
  have mix: "lo \<le> alpha * y + (1 - alpha) * e \<and> alpha * y + (1 - alpha) * e \<le> hi" if "lo \<le> y \<and> y \<le> hi" "lo \<le> e \<and> e \<le> hi" for y e
  proof -
    have "alpha * lo \<le> alpha * y" "(1 - alpha) * lo \<le> (1 - alpha) * e" "alpha * y \<le> alpha * hi" "(1 - alpha) * e \<le> (1 - alpha) * hi"
      using that assms(1,2) by (auto intro: mult_left_mono)
    then show ?thesis by (simp add: algebra_simps)
  qed
  have "lo \<le> fold (\<lambda>y ewma. alpha * y + (1 - alpha) * ewma) xs e \<and> fold (\<lambda>y ewma. alpha * y + (1 - alpha) * ewma) xs e \<le> hi"
    if "lo \<le> e \<and> e \<le> hi" "\<forall>x \<in> set xs. lo \<le> x \<and> x \<le> hi" for xs e
    using that by (induction xs arbitrary: e) (auto simp: mix)
  then show ?thesis using assms(3,4) by (cases data) (auto simp: compute_ewma_def)
qed

lemma sum_array_sum: "sum_array xs = sum_list xs"
proof -
  have "fold (\<lambda>x s. s + x) xs a = a + sum_list xs" for a :: int by (induction xs arbitrary: a) simp_all
  then show ?thesis by (simp add: sum_array_def)
qed

section \<open>Scans\<close>

text \<open>
  The sums of \<^verbatim>\<open>01_cache_effects.cpp\<close>: in order, with a stride, and through a permutation of the indices (what \<open>std::shuffle\<close> of \<open>iota\<close> gives).
\<close>

definition seq_sum :: "real list \<Rightarrow> real" where
  "seq_sum data = sum_list (map (\<lambda>i. data ! i) [0..<length data])"

definition stride_sum :: "nat \<Rightarrow> real list \<Rightarrow> real" where
  "stride_sum s data = sum_list (map (\<lambda>i. data ! i) (filter (\<lambda>i. i mod s = 0) [0..<length data]))"

definition indexed_sum :: "nat list \<Rightarrow> real list \<Rightarrow> real" where
  "indexed_sum idx data = sum_list (map (\<lambda>i. data ! i) idx)"

text \<open>Quotes as an array of structures and as a structure of arrays.\<close>

record quote_aos =
  q_bid :: real
  q_ask :: real
  q_mid :: real
  q_size :: int

record quote_soa =
  s_bid :: "real list"
  s_ask :: "real list"
  s_mid :: "real list"
  s_size :: "int list"

definition soa_of :: "quote_aos list \<Rightarrow> quote_soa" where
  "soa_of qs = \<lparr>s_bid = map q_bid qs, s_ask = map q_ask qs, s_mid = map q_mid qs, s_size = map q_size qs\<rparr>"

definition vwap_result :: "real \<times> int \<Rightarrow> real" where
  "vwap_result r = (case r of (v, vol) \<Rightarrow> if vol > 0 then v / real_of_int vol else 0)"

definition vwap_aos :: "quote_aos list \<Rightarrow> real" where
  "vwap_aos qs = vwap_result (fold (\<lambda>q (v, vol). (v + q_bid q * real_of_int (q_size q), vol + q_size q)) qs (0, 0))"

definition vwap_soa :: "nat \<Rightarrow> quote_soa \<Rightarrow> real" where
  "vwap_soa n b = vwap_result (fold (\<lambda>i (v, vol). (v + s_bid b ! i * real_of_int (s_size b ! i), vol + s_size b ! i)) [0..<n] (0, 0))"

definition quotes_aos :: "nat \<Rightarrow> quote_aos list" where
  "quotes_aos n = map (\<lambda>i. \<lparr>q_bid = 100 + real i * 0.01, q_ask = 100.02 + real i * 0.01, q_mid = 100.01 + real i * 0.01, q_size = 100\<rparr>) [0..<n]"

definition quotes_soa :: "nat \<Rightarrow> quote_soa" where
  "quotes_soa n = \<lparr>s_bid = map (\<lambda>i. 100 + real i * 0.01) [0..<n], s_ask = map (\<lambda>i. 100.02 + real i * 0.01) [0..<n],
     s_mid = map (\<lambda>i. 100.01 + real i * 0.01) [0..<n], s_size = map (\<lambda>i. 100) [0..<n]\<rparr>"

lemma fold_upt_nth: "fold (\<lambda>i. f (xs ! i)) [0..<length xs] s = fold f xs s"
proof -
  have "fold (\<lambda>i. f (xs ! i)) [0..<length xs] s = fold f (map (\<lambda>i. xs ! i) [0..<length xs]) s" by (simp add: fold_map o_def)
  then show ?thesis by (simp add: map_nth)
qed

lemma vwap_soa_aos: "vwap_soa (length qs) (soa_of qs) = vwap_aos qs"
proof -
  let ?f = "\<lambda>q (v, vol). (v + q_bid q * real_of_int (q_size q), vol + q_size q)"
  have "fold (\<lambda>i (v, vol). (v + s_bid (soa_of qs) ! i * real_of_int (s_size (soa_of qs) ! i), vol + s_size (soa_of qs) ! i)) [0..<length qs] (0, 0)
      = fold (\<lambda>i. ?f (qs ! i)) [0..<length qs] (0, 0)"
    by (intro fold_cong refl) (auto simp: soa_of_def)
  also have "\<dots> = fold ?f qs (0, 0)" by (rule fold_upt_nth)
  finally show ?thesis by (simp only: vwap_soa_def vwap_aos_def)
qed

lemma quotes_same: "soa_of (quotes_aos n) = quotes_soa n"
  by (simp add: soa_of_def quotes_aos_def quotes_soa_def o_def)

lemma indexed_sum_perm:
  assumes "mset idx = mset [0..<length data]"
  shows "indexed_sum idx data = seq_sum data"
proof -
  have "mset (map (\<lambda>i. data ! i) idx) = mset (map (\<lambda>i. data ! i) [0..<length data])" using assms by simp
  then show ?thesis unfolding indexed_sum_def seq_sum_def by (metis sum_mset_sum_list)
qed

section \<open>Branches\<close>

unbundle bit_operations_syntax

text \<open>The filtered sum of \<open>demo_sorted_vs_random\<close> and the absolute value by sign extension.\<close>

definition threshold_sum :: "int \<Rightarrow> int list \<Rightarrow> int" where
  "threshold_sum threshold data = fold (\<lambda>x s. if x > threshold then s + x else s) data 0"

definition abs_branch :: "32 word \<Rightarrow> 32 word" where
  "abs_branch v = (if v <s 0 then - v else v)"

definition abs_branchless :: "32 word \<Rightarrow> 32 word" where
  "abs_branchless v = (let mask = signed_drop_bit 31 v in (v XOR mask) - mask)"

text \<open>\<open>static_cast<int>(rng()) - 1000\<close>: signed subtraction, undefined (\<open>None\<close>) outside the range of \<open>int\<close>.\<close>

definition generate_value :: "32 word \<Rightarrow> int option" where
  "generate_value r = (let v = sint r - 1000 in if - (2 ^ 31) \<le> v then Some v else None)"

definition clamp_bl :: "int \<Rightarrow> int \<Rightarrow> int \<Rightarrow> int" where
  "clamp_bl v lo hi = (if v < lo then lo else if hi < v then hi else v)"

datatype reject_reason = No_Reject | Price_Oob | Size_Zero | Duplicate_Id

definition validate_order :: "real \<Rightarrow> int \<Rightarrow> int \<Rightarrow> reject_reason" where
  "validate_order price qty id_no =
     (if price \<le> 0 then Price_Oob else if qty \<le> 0 then Size_Zero else if id_no \<le> 0 then Duplicate_Id else No_Reject)"

definition count_accepted :: "(real \<times> int \<times> int) list \<Rightarrow> nat" where
  "count_accepted orders = fold (\<lambda>(p, q, i) n. if validate_order p q i = No_Reject then Suc n else n) orders 0"

definition likely_orders :: "nat \<Rightarrow> (real \<times> int \<times> int) list" where
  "likely_orders n = map (\<lambda>i. (100 + real i * 0.001, 100, int i + 1)) [0..<n]"

text \<open>The two-level book, indexed by the side; another index is outside the array.\<close>

definition book_update :: "nat \<Rightarrow> real \<times> int \<Rightarrow> (real \<times> int) list \<Rightarrow> (real \<times> int) list option" where
  "book_update side lvl book = (if side < length book then Some (book[side := lvl]) else None)"

lemma signed_mask:
  fixes v :: "32 word"
  shows "signed_drop_bit 31 v = (if v <s 0 then - 1 else 0)"
proof -
  have r: "- (2 ^ 31) \<le> sint v" "sint v < 2 ^ 31" using sint_ge [of v] sint_lt [of v] by simp_all
  have "sint (signed_drop_bit 31 v) = sint v div 2 ^ 31" by (simp add: sint_signed_drop_bit_eq drop_bit_eq_div)
  also have "\<dots> = (if sint v < 0 then - 1 else 0)"
  proof (cases "sint v < 0")
    case True
    then have "(sint v + 2 ^ 31 * 1) div 2 ^ 31 = 0" using r by (intro div_pos_pos_trivial) auto
    then show ?thesis using True by simp
  qed (use r in simp)
  also have "\<dots> = sint (if v <s 0 then - 1 else (0 :: 32 word))" by (simp add: word_sless_alt)
  finally show ?thesis by (simp only: signed_word_eqI)
qed

lemma abs_branchless_correct: "abs_branchless v = abs_branch v"
  unfolding abs_branchless_def abs_branch_def signed_mask Let_def by (cases "v <s 0") (simp_all add: not_eq_complement)

lemma abs_branch_sint: "v \<noteq> 0x80000000 \<Longrightarrow> sint (abs_branch v) = \<bar>sint v\<bar>"
proof -
  assume v: "v \<noteq> 0x80000000"
  have min: "sint (0x80000000 :: 32 word) = - (2 ^ 31)" by simp
  have "sint v \<noteq> - (2 ^ 31)" using v min signed_word_eqI by metis
  then have "- (2 ^ 31) < sint v" "sint v < 2 ^ 31" using sint_ge [of v] sint_lt [of v] by simp_all
  then have "sint (- v) = - sint v" if "sint v < 0" using that by (simp add: sint_word_minus signed_take_bit_int_eq_self)
  then show ?thesis by (simp add: abs_branch_def word_sless_alt)
qed

lemma threshold_sum_filter: "threshold_sum t xs = sum_list (filter (\<lambda>x. x > t) xs)"
proof -
  have "fold (\<lambda>x s. if x > t then s + x else s) xs a = a + sum_list (filter (\<lambda>x. x > t) xs)" for a
    by (induction xs arbitrary: a) simp_all
  then show ?thesis by (simp add: threshold_sum_def)
qed

lemma threshold_sum_sorted: "threshold_sum t (sort xs) = threshold_sum t xs"
  by (simp add: threshold_sum_filter filter_sort) (metis mset_sort sum_mset_sum_list)

lemma likely_all_accepted: "count_accepted (likely_orders n) = n"
  by (induction n) (simp_all add: count_accepted_def likely_orders_def validate_order_def)

section \<open>Compiler hints\<close>

text \<open>The functions of \<^verbatim>\<open>05_compiler_hints.cpp\<close>; the attributes do not change what they compute.\<close>

definition fast_sign :: "int \<Rightarrow> int" where
  "fast_sign x = (if x > 0 then 1 else 0) - (if x < 0 then 1 else 0)"

definition accumulate_signs :: "int list \<Rightarrow> int" where
  "accumulate_signs data = fold (\<lambda>x s. s + fast_sign x) data 0"

definition demo_inline :: "nat \<Rightarrow> int" where
  "demo_inline n = accumulate_signs (map (\<lambda>i. int i - int n div 2) [0..<n])"

definition calc_mid :: "real \<Rightarrow> real \<Rightarrow> real" where
  "calc_mid bid ask = (bid + ask) * 0.5"

definition point_value :: "int \<Rightarrow> real \<Rightarrow> real" where
  "point_value qty price = real_of_int qty * price"

definition tick_size :: "int \<Rightarrow> real" where
  "tick_size venue = (if venue \<ge> 0 \<and> venue < 4 then [0.01, 0.001, 0.0001, 0.00001] ! nat venue else 0.01)"

datatype side_t = Buy_Side | Sell_Side

fun order_sign :: "side_t \<Rightarrow> real" where
  "order_sign Buy_Side = 1"
| "order_sign Sell_Side = - 1"

datatype hint_error = Invalid_Price real | Bad_Qty

definition validate_quote :: "real \<Rightarrow> real \<Rightarrow> int \<Rightarrow> hint_error option" where
  "validate_quote bid ask qty =
     (if bid \<le> 0 then Some (Invalid_Price bid)
      else if ask \<le> bid then Some (Invalid_Price ask)
      else if qty \<le> 0 then Some Bad_Qty else None)"

definition is_error :: "int \<Rightarrow> console \<times> bool" where
  "is_error code = (if code \<noteq> 0 then ([''  error code: '' @ dec_int code], True) else ([], False))"

definition demo_builtin_expect :: console where
  "demo_builtin_expect = concat (map (\<lambda>c. fst (is_error c)) [0, 0, 0, 42, 0])"

lemma fast_sign_sgn: "fast_sign x = sgn x"
  by (simp add: fast_sign_def sgn_if)

lemma accumulate_signs_sum: "accumulate_signs xs = (\<Sum>x\<leftarrow>xs. sgn x)"
proof -
  have "fold (\<lambda>x s. s + fast_sign x) xs a = a + (\<Sum>x\<leftarrow>xs. sgn x)" for a
    by (induction xs arbitrary: a) (simp_all add: fast_sign_sgn)
  then show ?thesis by (simp add: accumulate_signs_def)
qed

text \<open>The values run from \<open>- n\<close> to \<open>n - 1\<close>: one more negative than positive.\<close>

lemma sum_signs:
  assumes "0 < n"
  shows "(\<Sum>i\<leftarrow>[0..<2 * n]. sgn (int i - int n)) = - 1"
proof -
  have "[0..<2 * n] = [0..<n] @ n # [Suc n..<2 * n]"
    using assms by (simp add: upt_conv_Cons [symmetric] upt_add_eq_append [of 0 n n, simplified] mult_2)
  moreover have "(\<Sum>i\<leftarrow>[0..<n]. sgn (int i - int n)) = (\<Sum>i\<leftarrow>[0..<n]. - 1)" by (intro arg_cong [of _ _ sum_list] map_cong) auto
  moreover have "(\<Sum>i\<leftarrow>[Suc n..<2 * n]. sgn (int i - int n)) = (\<Sum>i\<leftarrow>[Suc n..<2 * n]. 1)" by (intro arg_cong [of _ _ sum_list] map_cong) auto
  ultimately show ?thesis using assms by (simp add: sum_list_triv)
qed

lemma demo_inline_value: "0 < n \<Longrightarrow> demo_inline (2 * n) = - 1"
  using sum_signs [of n] by (simp add: demo_inline_def accumulate_signs_sum o_def)

section \<open>Properties\<close>

text \<open>
  Array loops.  When the output does not overlap the inputs, or starts at or before each, the addition loop computes what reading everything first and then writing
  computes, which is what \<open>__restrict__\<close> lets the compiler assume; with an output one element after an input it does not.  \<open>prefix_sum\<close> of disjoint
  arrays leaves the partial sums; the averages lie between the extremes of their data; the array-of-structures and
  structure-of-arrays scans agree, and so do the scans in order and through a permutation of the indices.
\<close>

theorem array_loops:
  fixes m :: memory
  assumes "no_overrun a out n" and "no_overrun b out n" and "disjoint_arrays src dst n" and "mset idx = mset [0..<length data]"
    and "length ps = length qs" and "\<forall>p \<in> set ps. lo \<le> p \<and> p \<le> hi" and "\<forall>q \<in> set qs. 0 \<le> q" and "0 < sum_list qs"
    and "0 \<le> alpha" and "alpha \<le> 1"
  shows "add_loop a b out n m = add_vector a b out n m
    \<and> (disjoint_arrays x y k \<longrightarrow> no_overrun x y k)
    \<and> add_loop 0 0 1 2 (\<lambda>_. 1) \<noteq> add_vector 0 0 1 2 (\<lambda>_. 1)
    \<and> (\<forall>i < n. prefix_sum src dst n m (dst + i) = (\<Sum>j\<le>i. m (src + j)))
    \<and> lo \<le> vwap_prices ps qs \<and> vwap_prices ps qs \<le> hi
    \<and> (\<forall>v. compute_ewma alpha ps = Some v \<longrightarrow> lo \<le> v \<and> v \<le> hi)
    \<and> vwap_soa (length quotes) (soa_of quotes) = vwap_aos quotes
    \<and> indexed_sum idx data = seq_sum data"
proof -
  have "add_loop 0 0 1 2 (\<lambda>_. 1) 2 \<noteq> add_vector 0 0 1 2 (\<lambda>_. 1) 2"
    by (simp add: numeral_2_eq_2 add_vector_def Let_def)
  then have ne: "add_loop 0 0 1 2 (\<lambda>_. 1) \<noteq> add_vector 0 0 1 2 (\<lambda>_. 1)" by metis
  have "disjoint_arrays x y k \<longrightarrow> no_overrun x y k" by (auto simp: disjoint_arrays_def no_overrun_def)
  with ne show ?thesis
    using add_loop_vector [OF assms(1,2) order_refl] prefix_sum_correct [OF assms(3)] vwap_prices_between [OF assms(5-8)]
      ewma_between [OF assms(9,10,6)] vwap_soa_aos indexed_sum_perm [OF assms(4)] by blast
qed

theorem array_loops_witness:
  "add_loop 0 3 6 3 real = add_vector 0 3 6 3 real \<and> 1 \<le> vwap_prices [1, 2] [1, 1] \<and> vwap_prices [1, 2] [1, 1] \<le> 2
   \<and> indexed_sum [1, 0] [5, 7] = seq_sum [5, 7]"
  using array_loops [of 0 6 3 3 0 5 "[1, 0]" "[5, 7]" "[1, 2]" "[1, 1]" 1 2 "1 / 2" real] 
  by (simp add: no_overrun_def disjoint_arrays_def upt_rec add_mset_commute)

text \<open>
  Branchless code.  The absolute value by sign extension equals the branching one on every 32-bit value, and is the absolute value except for the smallest one; \<open>fast_sign\<close> is
  the sign and the program's sum of signs is \<open>-1\<close>; the filtered sum does not depend on the order of the data; an order is accepted exactly when its price, quantity and number are positive.
  The generator of the test data overflows for the thousand smallest random values.
\<close>

theorem branchless_agrees:
  "abs_branchless v = abs_branch v
   \<and> (v \<noteq> 0x80000000 \<longrightarrow> sint (abs_branch v) = \<bar>sint v\<bar>)
   \<and> abs_branch 0x80000000 = 0x80000000
   \<and> fast_sign x = sgn x \<and> demo_inline (2 ^ 20) = - 1
   \<and> threshold_sum t (sort xs) = threshold_sum t xs
   \<and> (validate_order price qty i = No_Reject \<longleftrightarrow> 0 < price \<and> 0 < qty \<and> 0 < i) \<and> count_accepted (likely_orders n) = n
   \<and> (validate_quote bid ask qty = None \<longleftrightarrow> 0 < bid \<and> bid < ask \<and> 0 < qty)
   \<and> (generate_value v = None \<longleftrightarrow> sint v < - (2 ^ 31) + 1000)
   \<and> book_update 2 lvl [l0, l1] = None"
proof (intro conjI)
  show "demo_inline (2 ^ 20) = - 1" using demo_inline_value [of "2 ^ 19"] by simp
  show "abs_branch 0x80000000 = 0x80000000" by (simp add: abs_branch_def)
  show "generate_value v = None \<longleftrightarrow> sint v < - (2 ^ 31) + 1000" by (auto simp: generate_value_def Let_def)
qed (auto simp: abs_branchless_correct abs_branch_sint fast_sign_sgn threshold_sum_sorted validate_order_def likely_all_accepted validate_quote_def book_update_def)

text \<open>The book of the program after its two updates, and the constants of \<^verbatim>\<open>05_compiler_hints.cpp\<close>.\<close>

lemma hint_values:
  "Option.bind (book_update 0 (99.95, 300) [(99.9, 500), (100.1, 500)]) (book_update 1 (100.05, 200)) = Some [(99.95, 300), (100.05, 200)]"
  "demo_builtin_expect = [''  error code: 42'']" "calc_mid 99.9 100.1 = 100"
  "map tick_size [0, 1, 2, 3, 4, - 1] = [0.01, 0.001, 0.0001, 0.00001, 0.01, 0.01]"
  "map (\<lambda>v. clamp_bl v 0 100) [- 5, 0, 50, 100, 200] = [0, 0, 50, 100, 100]"
  "order_sign Buy_Side + order_sign Sell_Side = 0" "point_value 100 99.5 = 9950"
proof -
  show "demo_builtin_expect = [''  error code: 42'']" by code_simp
qed (simp_all add: book_update_def calc_mid_def tick_size_def clamp_bl_def point_value_def)

theorem branchless_agrees_witness:
  "sint (abs_branch (- 5 :: 32 word)) = 5 \<and> abs_branchless (- 5) = abs_branch (- 5)"
  using branchless_agrees [of "- 5"] by simp

end
