(* ===== verification/Type_Level.thy ===== *)
theory Type_Level
  imports Prelude
begin

text \<open>
  Compile-time computation: the type traits of \<^verbatim>\<open>templates/02_specialisation.cpp\<close>, \<^verbatim>\<open>04_sfinae.cpp\<close>, \<^verbatim>\<open>09_type_traits.cpp\<close> and \<^verbatim>\<open>10_metaprogramming.cpp\<close>, the concepts and
  constrained overloads of \<^verbatim>\<open>07_concepts_basics.cpp\<close> and \<^verbatim>\<open>08_standard_concepts.cpp\<close>, and the exception specifications of \<^verbatim>\<open>errors/03_noexcept.cpp\<close>.  A type is a term,
  a trait a function on types, \<open>std::is_same\<close> equality.
\<close>

section \<open>Types\<close>

datatype cty =
    Bool_T | Int_T | Long_T | Float_T | Double_T | String_T | Char_T
  | Vector_T cty | List_T cty | Class_T string
  | Ptr_T cty | Arr_T nat cty | LRef_T cty | RRef_T cty | Const_T cty | Volatile_T cty

text \<open>
  Types in the form the compiler keeps them: one \<open>const\<close> outside one \<open>volatile\<close>, none on a reference, and none directly on an array (it moves to
  the element type); no pointers, arrays or references to references.
\<close>

fun is_ref :: "cty \<Rightarrow> bool" where
  "is_ref (LRef_T t) = True"
| "is_ref (RRef_T t) = True"
| "is_ref t = False"

fun cv_free :: "cty \<Rightarrow> bool" where
  "cv_free (Const_T t) = False"
| "cv_free (Volatile_T t) = False"
| "cv_free (Arr_T n t) = cv_free t"
| "cv_free t = True"

fun canonical :: "cty \<Rightarrow> bool" where
  "canonical (Const_T (Volatile_T t)) = (canonical t \<and> \<not> is_ref t \<and> (case t of Arr_T _ _ \<Rightarrow> False | Const_T _ \<Rightarrow> False | Volatile_T _ \<Rightarrow> False | _ \<Rightarrow> True))"
| "canonical (Const_T t) = (canonical t \<and> \<not> is_ref t \<and> (case t of Arr_T _ _ \<Rightarrow> False | Const_T _ \<Rightarrow> False | _ \<Rightarrow> True))"
| "canonical (Volatile_T t) = (canonical t \<and> \<not> is_ref t \<and> (case t of Arr_T _ _ \<Rightarrow> False | Const_T _ \<Rightarrow> False | Volatile_T _ \<Rightarrow> False | _ \<Rightarrow> True))"
| "canonical (Ptr_T t) = (canonical t \<and> \<not> is_ref t)"
| "canonical (Arr_T n t) = (canonical t \<and> \<not> is_ref t)"
| "canonical (LRef_T t) = (canonical t \<and> \<not> is_ref t)"
| "canonical (RRef_T t) = (canonical t \<and> \<not> is_ref t)"
| "canonical (Vector_T t) = canonical t"
| "canonical (List_T t) = canonical t"
| "canonical t = True"

section \<open>Traits\<close>

fun remove_reference :: "cty \<Rightarrow> cty" where
  "remove_reference (LRef_T t) = t"
| "remove_reference (RRef_T t) = t"
| "remove_reference t = t"

fun remove_cv :: "cty \<Rightarrow> cty" where
  "remove_cv (Const_T t) = remove_cv t"
| "remove_cv (Volatile_T t) = remove_cv t"
| "remove_cv (Arr_T n t) = Arr_T n (remove_cv t)"
| "remove_cv t = t"

definition remove_cvref :: "cty \<Rightarrow> cty" where
  "remove_cvref t = remove_cv (remove_reference t)"

fun add_const :: "cty \<Rightarrow> cty" where
  "add_const (LRef_T t) = LRef_T t"
| "add_const (RRef_T t) = RRef_T t"
| "add_const (Const_T t) = Const_T t"
| "add_const (Arr_T n t) = Arr_T n (add_const t)"
| "add_const t = Const_T t"

definition add_pointer :: "cty \<Rightarrow> cty" where
  "add_pointer t = Ptr_T (remove_reference t)"

definition decay :: "cty \<Rightarrow> cty" where
  "decay t = (case remove_reference t of Arr_T n e \<Rightarrow> Ptr_T e | u \<Rightarrow> remove_cv u)"

definition make_const_ref :: "cty \<Rightarrow> cty" where
  "make_const_ref t = LRef_T (add_const (remove_cvref t))"

text \<open>The user-written \<open>is_pointer\<close> of \<^verbatim>\<open>02_specialisation.cpp\<close> has one specialisation, \<open>T*\<close>; the standard one looks through \<open>cv\<close>.\<close>

fun is_pointer_spec :: "cty \<Rightarrow> bool" where
  "is_pointer_spec (Ptr_T t) = True"
| "is_pointer_spec t = False"

definition is_pointer :: "cty \<Rightarrow> bool" where
  "is_pointer t = is_pointer_spec (remove_cv t)"

definition is_integral :: "cty \<Rightarrow> bool" where
  "is_integral t = (remove_cv t \<in> {Bool_T, Char_T, Int_T, Long_T})"

definition is_floating_point :: "cty \<Rightarrow> bool" where
  "is_floating_point t = (remove_cv t \<in> {Float_T, Double_T})"

definition is_arithmetic :: "cty \<Rightarrow> bool" where
  "is_arithmetic t = (is_integral t \<or> is_floating_point t)"

fun is_const :: "cty \<Rightarrow> bool" where
  "is_const (Const_T t) = True"
| "is_const (Arr_T n t) = is_const t"
| "is_const t = False"

text \<open>Detection with \<open>void_t\<close>: whether the library type has the member; \<open>reserve\<close> is not callable on a \<open>const\<close> object.\<close>

fun has_member :: "string \<Rightarrow> cty \<Rightarrow> bool" where
  "has_member m (Vector_T t) = (m \<in> {''size'', ''begin'', ''reserve''})"
| "has_member m String_T = (m \<in> {''size'', ''begin'', ''reserve''})"
| "has_member m (List_T t) = (m \<in> {''size'', ''begin''})"
| "has_member m t = False"

definition has_size :: "cty \<Rightarrow> bool" where
  "has_size t = has_member ''size'' (remove_cvref t)"

definition is_iterable :: "cty \<Rightarrow> bool" where
  "is_iterable t = has_member ''begin'' (remove_cvref t)"

definition has_reserve :: "cty \<Rightarrow> bool" where
  "has_reserve t = (has_member ''reserve'' (remove_cvref t) \<and> \<not> is_const (remove_reference t))"

text \<open>\<open>const T&\<close> of a reference \<open>T\<close> collapses to the reference.  Sizes on the 64-bit platform of the programs (a \<open>std::string\<close> is 32 bytes in libstdc++, 24 in libc++: \<open>str\<close>).\<close>

fun sizeof_t :: "nat \<Rightarrow> cty \<Rightarrow> nat" where
  "sizeof_t str Bool_T = 1"
| "sizeof_t str Char_T = 1"
| "sizeof_t str Int_T = 4"
| "sizeof_t str Long_T = 8"
| "sizeof_t str Float_T = 4"
| "sizeof_t str Double_T = 8"
| "sizeof_t str String_T = str"
| "sizeof_t str (Vector_T t) = 24"
| "sizeof_t str (List_T t) = 24"
| "sizeof_t str (Class_T c) = 1"
| "sizeof_t str (Ptr_T t) = 8"
| "sizeof_t str (Arr_T n t) = n * sizeof_t str t"
| "sizeof_t str (LRef_T t) = sizeof_t str t"
| "sizeof_t str (RRef_T t) = sizeof_t str t"
| "sizeof_t str (Const_T t) = sizeof_t str t"
| "sizeof_t str (Volatile_T t) = sizeof_t str t"

definition storage_type :: "nat \<Rightarrow> cty \<Rightarrow> cty" where
  "storage_type str t = (if sizeof_t str t \<le> 8 then t else LRef_T (remove_reference (add_const t)))"

section \<open>What the traits guarantee\<close>

lemma canonical_const: "canonical (Const_T t) \<Longrightarrow> canonical t"
  by (cases t) auto

lemma canonical_volatile: "canonical (Volatile_T t) \<Longrightarrow> canonical t"
  by (cases t) auto

lemma canonical_unref: "canonical t \<Longrightarrow> canonical (remove_reference t) \<and> \<not> is_ref (remove_reference t)"
  by (cases t) auto

lemma canonical_cv_noref: "canonical (Const_T t) \<Longrightarrow> \<not> is_ref t" "canonical (Volatile_T t) \<Longrightarrow> \<not> is_ref t"
  by (cases t; auto)+

lemma remove_cv_free: "cv_free (remove_cv t)"
  by (induction t) auto

lemma remove_cv_canonical: "canonical t \<Longrightarrow> \<not> is_ref t \<Longrightarrow> canonical (remove_cv t) \<and> \<not> is_ref (remove_cv t)"
proof (induction t)
  case (Const_T t)
  then have "canonical t" "\<not> is_ref t" by (blast dest: canonical_const canonical_cv_noref)+
  then show ?case using Const_T.IH by simp
next
  case (Volatile_T t)
  then have "canonical t" "\<not> is_ref t" by (blast dest: canonical_volatile canonical_cv_noref)+
  then show ?case using Volatile_T.IH by simp
qed auto

lemma remove_cv_id: "cv_free t \<Longrightarrow> remove_cv t = t"
  by (induction t) auto

lemma add_const_canonical: "cv_free t \<Longrightarrow> canonical t \<Longrightarrow> \<not> is_ref t \<Longrightarrow> canonical (add_const t) \<and> \<not> is_ref (add_const t)"
  by (induction t) auto

lemma remove_cv_add_const: "cv_free t \<Longrightarrow> remove_cv (add_const t) = t"
  by (induction t) auto

lemma cvref_props:
  assumes "canonical t"
  shows "canonical (remove_cvref t)" "\<not> is_ref (remove_cvref t)" "cv_free (remove_cvref t)"
  using canonical_unref [OF assms] remove_cv_canonical remove_cv_free by (simp_all add: remove_cvref_def)

lemma unref_id: "\<not> is_ref t \<Longrightarrow> remove_reference t = t"
  by (cases t) auto

lemma make_const_ref_idem: "canonical t \<Longrightarrow> make_const_ref (make_const_ref t) = make_const_ref t"
  using cvref_props [of t] by (simp add: make_const_ref_def remove_cvref_def [of "LRef_T _"] remove_cv_add_const)

lemma remove_cv_not_array:
  assumes "canonical u" and "\<And>n e. u \<noteq> Arr_T n e"
  shows "remove_cv u \<noteq> Arr_T n e"
  using assms
proof (induction u)
  case (Const_T t)
  then show ?case using canonical_const [of t] by (cases t) auto
next
  case (Volatile_T t)
  then show ?case using canonical_volatile [of t] by (cases t) auto
qed auto

lemma decay_cases:
  assumes "canonical t"
  shows "decay t = remove_cv (remove_reference t) \<and> (\<forall>n e. remove_reference t \<noteq> Arr_T n e)
    \<or> (\<exists>n e. remove_reference t = Arr_T n e \<and> decay t = Ptr_T e)"
  by (cases "remove_reference t") (simp_all add: decay_def)

lemma decay_props:
  assumes "canonical t"
  shows "\<not> is_ref (decay t)" "\<forall>n e. decay t \<noteq> Arr_T n e" "cv_free (decay t)" "canonical (decay t)"
  using decay_cases [OF assms] canonical_unref [OF assms] remove_cv_canonical [of "remove_reference t"]
    remove_cv_not_array [of "remove_reference t"] remove_cv_free [of "remove_reference t"] by auto

lemma decay_fixed: "\<not> is_ref u \<Longrightarrow> \<forall>n e. u \<noteq> Arr_T n e \<Longrightarrow> cv_free u \<Longrightarrow> decay u = u"
  by (cases u) (auto simp: decay_def)

lemma decay_idem: "canonical t \<Longrightarrow> decay (decay t) = decay t"
  using decay_props [of t] by (intro decay_fixed)

section \<open>The type of an expression\<close>

text \<open>\<open>decltype\<close> of a name, of a parenthesised name, of a prvalue and of a call that returns the given type.\<close>

datatype cexpr = Name_E cty | Paren_E cty | Prvalue_E cty | Call_E cty

fun decltype_of :: "cexpr \<Rightarrow> cty" where
  "decltype_of (Name_E t) = t"
| "decltype_of (Paren_E t) = LRef_T (remove_reference t)"
| "decltype_of (Prvalue_E t) = t"
| "decltype_of (Call_E t) = t"

definition auto_return :: "cexpr \<Rightarrow> cty" where
  "auto_return e = decay (decltype_of e)"

definition decltype_auto_return :: "cexpr \<Rightarrow> cty" where
  "decltype_auto_return e = decltype_of e"

section \<open>Constraints and overloads\<close>

text \<open>A constraint over atomic ones; subsumption compares disjunctive and conjunctive normal forms, as the standard prescribes.\<close>

datatype constr = No_C | Atom_C string | And_C constr constr | Or_C constr constr

fun sat :: "(string \<Rightarrow> bool) \<Rightarrow> constr \<Rightarrow> bool" where
  "sat v No_C = True"
| "sat v (Atom_C a) = v a"
| "sat v (And_C p q) = (sat v p \<and> sat v q)"
| "sat v (Or_C p q) = (sat v p \<or> sat v q)"

fun dnf :: "constr \<Rightarrow> string list list" where
  "dnf No_C = [[]]"
| "dnf (Atom_C a) = [[a]]"
| "dnf (And_C p q) = [c @ d. c \<leftarrow> dnf p, d \<leftarrow> dnf q]"
| "dnf (Or_C p q) = dnf p @ dnf q"

fun cnf :: "constr \<Rightarrow> string list list" where
  "cnf No_C = []"
| "cnf (Atom_C a) = [[a]]"
| "cnf (And_C p q) = cnf p @ cnf q"
| "cnf (Or_C p q) = [c @ d. c \<leftarrow> cnf p, d \<leftarrow> cnf q]"

definition subsumes :: "constr \<Rightarrow> constr \<Rightarrow> bool" where
  "subsumes p q = (\<forall>c \<in> set (dnf p). \<forall>d \<in> set (cnf q). \<exists>a \<in> set c. a \<in> set d)"

record overload =
  needs :: constr
  prints :: string

definition viable :: "(string \<Rightarrow> bool) \<Rightarrow> overload list \<Rightarrow> overload list" where
  "viable v fs = filter (\<lambda>f. sat v (needs f)) fs"

text \<open>The viable overload more constrained than every other one; \<open>None\<close> is a call that does not compile (no candidate, or ambiguity).\<close>

definition resolve :: "(string \<Rightarrow> bool) \<Rightarrow> overload list \<Rightarrow> overload option" where
  "resolve v fs =
     (let vs = viable v fs;
          best = filter (\<lambda>f. \<forall>g \<in> set vs. g = f \<or> subsumes (needs f) (needs g) \<and> \<not> subsumes (needs g) (needs f)) vs
      in case best of [f] \<Rightarrow> Some f | _ \<Rightarrow> None)"

lemma sat_dnf: "sat v p \<longleftrightarrow> (\<exists>c \<in> set (dnf p). \<forall>a \<in> set c. v a)"
proof (induction p)
  case (And_C p q)
  have "(\<exists>c \<in> set (dnf (And_C p q)). \<forall>a \<in> set c. v a) \<longleftrightarrow> (\<exists>c \<in> set (dnf p). \<exists>d \<in> set (dnf q). \<forall>a \<in> set (c @ d). v a)" by auto
  also have "\<dots> \<longleftrightarrow> (\<exists>c \<in> set (dnf p). \<forall>a \<in> set c. v a) \<and> (\<exists>d \<in> set (dnf q). \<forall>a \<in> set d. v a)" by auto
  finally show ?case using And_C by simp
qed auto

lemma sat_cnf: "sat v p \<longleftrightarrow> (\<forall>c \<in> set (cnf p). \<exists>a \<in> set c. v a)"
proof (induction p)
  case (Or_C p q)
  have "(\<forall>c \<in> set (cnf (Or_C p q)). \<exists>a \<in> set c. v a) \<longleftrightarrow> (\<forall>c \<in> set (cnf p). \<forall>d \<in> set (cnf q). \<exists>a \<in> set (c @ d). v a)" by auto
  also have "\<dots> \<longleftrightarrow> (\<forall>c \<in> set (cnf p). \<exists>a \<in> set c. v a) \<or> (\<forall>d \<in> set (cnf q). \<exists>a \<in> set d. v a)"
    by (simp add: bex_Un)
  finally show ?case using Or_C by simp
qed auto

text \<open>Subsumption is implication: it holds for every meaning of the atoms, and conversely an implication that always holds is found.\<close>

lemma subsumes_sound: "subsumes p q \<Longrightarrow> sat v p \<Longrightarrow> sat v q"
  unfolding sat_dnf [of v p] sat_cnf [of v q] subsumes_def by blast

lemma subsumes_complete:
  assumes "\<And>v. sat v p \<Longrightarrow> sat v q"
  shows "subsumes p q"
  unfolding subsumes_def
proof (intro ballI)
  fix c d assume c: "c \<in> set (dnf p)" and d: "d \<in> set (cnf q)"
  have "sat (\<lambda>a. a \<in> set c) p" unfolding sat_dnf using c by blast
  then have "sat (\<lambda>a. a \<in> set c) q" by (rule assms)
  then show "\<exists>a \<in> set c. a \<in> set d" unfolding sat_cnf using d by blast
qed

lemma resolve_best:
  assumes "resolve v fs = Some f"
  shows "f \<in> set fs \<and> sat v (needs f) \<and> (\<forall>g \<in> set fs. sat v (needs g) \<longrightarrow> g = f \<or> subsumes (needs f) (needs g) \<and> \<not> subsumes (needs g) (needs f))"
proof -
  let ?best = "filter (\<lambda>f. \<forall>g \<in> set (viable v fs). g = f \<or> subsumes (needs f) (needs g) \<and> \<not> subsumes (needs g) (needs f)) (viable v fs)"
  have "?best = [f]" using assms by (auto simp: resolve_def Let_def split: list.splits)
  then have "f \<in> set ?best" by simp
  then show ?thesis by (auto simp: viable_def)
qed

section \<open>The overloads and concepts of the programs\<close>

definition atom_holds :: "cty \<Rightarrow> string \<Rightarrow> bool" where
  "atom_holds t a =
     (if a = ''integral'' then is_integral t
      else if a = ''floating_point'' then is_floating_point t
      else False)"

definition numeric_c :: constr where
  "numeric_c = Or_C (Atom_C ''integral'') (Atom_C ''floating_point'')"

definition describe_overloads :: "overload list" where
  "describe_overloads =
     [\<lparr>needs = No_C, prints = ''generic''\<rparr>, \<lparr>needs = numeric_c, prints = ''numeric''\<rparr>, \<lparr>needs = Atom_C ''integral'', prints = ''integral''\<rparr>]"

definition describe_concept :: "cty \<Rightarrow> string option" where
  "describe_concept t = map_option prints (resolve (atom_holds t) describe_overloads)"

text \<open>\<open>describe\<close> of \<^verbatim>\<open>04_sfinae.cpp\<close>: unconstrained candidates that substitution removes; two left would be ambiguous.\<close>

definition describe_sfinae :: "cty \<Rightarrow> string option" where
  "describe_sfinae t =
     (case (if is_integral t then [''integral''] else []) @ (if is_floating_point t then [''floating point''] else []) of
        [x] \<Rightarrow> Some x | _ \<Rightarrow> None)"

definition describe_if :: "cty \<Rightarrow> string" where
  "describe_if t = (if is_integral t then ''integral'' else if is_floating_point t then ''floating point'' else ''other'')"

definition print_number_label :: "cty \<Rightarrow> string option" where
  "print_number_label t =
     (case (if is_arithmetic t then [''number: ''] else []) @ (if \<not> is_arithmetic t then [''non-number: ''] else []) of
        [x] \<Rightarrow> Some x | _ \<Rightarrow> None)"

text \<open>Ranges: containers and arrays; sized when \<open>size()\<close> takes constant time, which \<open>std::list::size\<close> does since C++11.\<close>

definition is_range :: "cty \<Rightarrow> bool" where
  "is_range t = is_iterable t"

definition is_sized_range :: "cty \<Rightarrow> bool" where
  "is_sized_range t = (is_range t \<and> has_size t)"

definition convertible :: "cty \<Rightarrow> cty \<Rightarrow> bool" where
  "convertible t u = (t = u \<or> is_arithmetic t \<and> is_arithmetic u)"

definition show_same :: "cty \<Rightarrow> cty \<Rightarrow> bool \<times> bool" where
  "show_same t u = (t = u, convertible t u)"

definition try_reserve :: "cty \<Rightarrow> nat \<Rightarrow> string" where
  "try_reserve t n = (if has_reserve t then ''reserved '' @ dec_nat n @ '' slots'' else ''no reserve() available'')"

section \<open>Exception specifications\<close>

text \<open>
  A move constructor declared \<open>noexcept\<close>, defaulted at its declaration (it then does not throw if no member's does), or written by the user without a
  specification.  \<open>std::move_if_noexcept\<close> moves unless the move may throw and a copy is available.
\<close>

datatype move_decl = Declared_Noexcept | Defaulted | User_Written

fun nothrow_move :: "move_decl \<Rightarrow> bool list \<Rightarrow> bool" where
  "nothrow_move Declared_Noexcept members = True"
| "nothrow_move Defaulted members = list_all id members"
| "nothrow_move User_Written members = False"

definition move_if_noexcept_moves :: "move_decl \<Rightarrow> bool list \<Rightarrow> bool \<Rightarrow> bool" where
  "move_if_noexcept_moves d members copyable = (nothrow_move d members \<or> \<not> copyable)"

definition swap_safe_noexcept :: "bool \<Rightarrow> bool" where
  "swap_safe_noexcept swap_noexcept = swap_noexcept"

definition show_flag :: "bool \<Rightarrow> string" where
  "show_flag b = (if b then ''true'' else ''false'')"

text \<open>\<open>WithMove\<close> and \<open>WithoutNoexcept\<close> have one \<^verbatim>\<open>int\<close> member, whose move does not throw, and are copyable.\<close>

definition noexcept_main :: console where
  "noexcept_main =
     [''safe_add noexcept: '' @ show_flag True, ''swap_safe<int> noexcept: '' @ show_flag (swap_safe_noexcept True),
      ''WithMove move_if_noexcept is rvalue: '' @ show_flag (move_if_noexcept_moves Declared_Noexcept [True] True),
      ''WithoutNoexcept move_if_noexcept is rvalue: '' @ show_flag (move_if_noexcept_moves Defaulted [True] True)]"

section \<open>Properties\<close>

text \<open>
  Type traits.  On every type in canonical form: \<open>decay\<close> gives a type that is no reference, no array and has no qualifier, is itself canonical, and does nothing the second time; \<open>make_const_ref\<close> gives a
  constant reference to the type without reference and qualifiers, once and for all; \<open>storage_type\<close> is the type itself or a reference to it.  \<open>auto\<close> never returns a reference where \<open>decltype(auto)\<close> keeps the one
  a call returns.  The pointer test written in \<^verbatim>\<open>02_specialisation.cpp\<close> agrees with the standard one except on qualified pointers.
\<close>

theorem type_traits_canonical:
  assumes "canonical t"
  shows "\<not> is_ref (decay t) \<and> (\<forall>n e. decay t \<noteq> Arr_T n e) \<and> cv_free (decay t) \<and> canonical (decay t) \<and> decay (decay t) = decay t
    \<and> canonical (make_const_ref t) \<and> remove_cvref (make_const_ref t) = remove_cvref t \<and> make_const_ref (make_const_ref t) = make_const_ref t
    \<and> remove_reference (storage_type str t) \<in> {t, remove_reference t, add_const t}
    \<and> \<not> is_ref (auto_return (Call_E t)) \<and> decltype_auto_return (Call_E t) = t
    \<and> (is_pointer t = is_pointer_spec t \<or> \<not> cv_free t)"
proof -
  note c = cvref_props [OF assms]
  have "canonical (make_const_ref t)"
    using add_const_canonical [OF c(3,1,2)] by (simp add: make_const_ref_def)
  moreover have "remove_cvref (make_const_ref t) = remove_cvref t"
    using c by (simp add: make_const_ref_def remove_cvref_def [of "LRef_T _"] remove_cv_add_const)
  moreover have "remove_reference (storage_type str t) \<in> {t, remove_reference t, add_const t}"
    by (cases t) (simp_all add: storage_type_def)
  moreover have "is_pointer t = is_pointer_spec t \<or> \<not> cv_free t" by (auto simp: is_pointer_def remove_cv_id)
  ultimately show ?thesis
    using decay_props [OF assms] decay_idem [OF assms] make_const_ref_idem [OF assms]
    by (simp add: auto_return_def decltype_auto_return_def)
qed

theorem type_traits_canonical_witness:
  "canonical (LRef_T (Const_T Int_T)) \<and> canonical (decay (LRef_T (Const_T Int_T))) \<and> decay (LRef_T (Const_T Int_T)) = Int_T"
  using type_traits_canonical [of "LRef_T (Const_T Int_T)"] by (simp add: decay_def)

text \<open>
  Constrained overloads.  Subsumption, decided on normal forms, is implication between the constraints; a resolved call picks a viable overload whose constraint implies that of every other viable one and is implied by none.
  So \<open>describe\<close> chooses \<open>integral\<close> exactly for integral types, \<open>numeric\<close> for floating-point types and \<open>generic\<close> otherwise; and the three ways of writing it agree
  where they are all defined.
\<close>

theorem overload_resolution:
  "(subsumes p q \<longleftrightarrow> (\<forall>v. sat v p \<longrightarrow> sat v q))
   \<and> (resolve v fs = Some f \<longrightarrow> f \<in> set fs \<and> sat v (needs f)
        \<and> (\<forall>g \<in> set fs. sat v (needs g) \<longrightarrow> g = f \<or> (\<forall>w. sat w (needs f) \<longrightarrow> sat w (needs g)) \<and> \<not> (\<forall>w. sat w (needs g) \<longrightarrow> sat w (needs f))))
   \<and> describe_concept t = Some (if is_integral t then ''integral'' else if is_floating_point t then ''numeric'' else ''generic'')
   \<and> describe_sfinae t = (if is_arithmetic t then Some (describe_if t) else None)
   \<and> print_number_label t \<noteq> None"
proof -
  have iff: "subsumes p q \<longleftrightarrow> (\<forall>v. sat v p \<longrightarrow> sat v q)" for p q using subsumes_sound subsumes_complete by blast
  have disj: "\<not> (is_integral t \<and> is_floating_point t)" by (auto simp: is_integral_def is_floating_point_def)
  have "describe_concept t = Some (if is_integral t then ''integral'' else if is_floating_point t then ''numeric'' else ''generic'')"
    using disj
    by (cases "is_integral t"; cases "is_floating_point t")
      (simp_all add: describe_concept_def resolve_def describe_overloads_def viable_def Let_def atom_holds_def numeric_c_def subsumes_def)
  moreover have "describe_sfinae t = (if is_arithmetic t then Some (describe_if t) else None)" "print_number_label t \<noteq> None"
    using disj by (auto simp: describe_sfinae_def describe_if_def is_arithmetic_def print_number_label_def)
  ultimately show ?thesis using iff resolve_best [of v fs f] by simp
qed

theorem overload_resolution_witness:
  "subsumes (Atom_C ''integral'') numeric_c \<and> \<not> subsumes numeric_c (Atom_C ''integral'')
   \<and> describe_concept Int_T = Some ''integral'' \<and> describe_concept Double_T = Some ''numeric'' \<and> describe_concept String_T = Some ''generic''"
proof -
  have "subsumes (Atom_C ''integral'') numeric_c" "\<not> subsumes numeric_c (Atom_C ''integral'')" by (simp_all add: subsumes_def numeric_c_def)
  moreover have "is_integral Int_T" "\<not> is_integral Double_T" "is_floating_point Double_T" "\<not> is_integral String_T" "\<not> is_floating_point String_T"
    by (simp_all add: is_integral_def is_floating_point_def)
  ultimately show ?thesis
    using overload_resolution [of No_C No_C _ _ _ Int_T] overload_resolution [of No_C No_C _ _ _ Double_T] overload_resolution [of No_C No_C _ _ _ String_T]
    by simp
qed

text \<open>
  The static assertions and queries of the programs.  A \<open>std::list\<close> is a sized range, against the comment in \<^verbatim>\<open>08_standard_concepts.cpp\<close>; and the
  defaulted move of \<open>WithoutNoexcept\<close> does not throw, so that the last line of \<^verbatim>\<open>03_noexcept.cpp\<close> is \<open>true\<close>, not \<open>false\<close>.
\<close>

lemma type_queries:
  "remove_reference (LRef_T Int_T) = Int_T" "remove_reference (RRef_T Int_T) = Int_T" "remove_cv (Const_T (Volatile_T Int_T)) = Int_T"
  "decay (LRef_T (Const_T Int_T)) = Int_T" "decay (Arr_T 3 Int_T) = Ptr_T Int_T" "add_const Int_T = Const_T Int_T" "add_pointer Int_T = Ptr_T Int_T"
  "make_const_ref (RRef_T Int_T) = LRef_T (Const_T Int_T)" "make_const_ref (Const_T Double_T) = LRef_T (Const_T Double_T)"
  "storage_type 32 Int_T = Int_T" "storage_type 32 String_T = LRef_T (Const_T String_T)" "storage_type 24 String_T = LRef_T (Const_T String_T)"
  "map is_pointer_spec [Int_T, Ptr_T Int_T, Ptr_T Char_T] = [False, True, True]"
  "map has_size [Vector_T Int_T, Int_T] = [True, False]" "map is_iterable [Vector_T Int_T, String_T, Int_T] = [True, True, False]"
  "map has_reserve [Vector_T Int_T, List_T Int_T, LRef_T (Const_T (Vector_T Int_T))] = [True, False, False]"
  "map (\<lambda>t. try_reserve t 100) [Vector_T Int_T, List_T Int_T] = [''reserved 100 slots'', ''no reserve() available'']"
  "show_same Int_T Int_T = (True, True)" "show_same Int_T Double_T = (False, True)"
  "map decltype_of [Name_E Int_T, Paren_E Int_T, Prvalue_E Int_T] = [Int_T, LRef_T Int_T, Int_T]"
  "auto_return (Call_E (LRef_T Int_T)) = Int_T" "decltype_auto_return (Call_E (LRef_T Int_T)) = LRef_T Int_T"
  "is_sized_range (List_T Int_T)"
  "noexcept_main = [''safe_add noexcept: true'', ''swap_safe<int> noexcept: true'', ''WithMove move_if_noexcept is rvalue: true'',
     ''WithoutNoexcept move_if_noexcept is rvalue: true'']"
  by code_simp+

end
