(* ===== verification/Templates.thy ===== *)
theory Templates
  imports Type_Level Ring_Buffers Complex_Main
begin

text \<open>
  What the templates of \<^verbatim>\<open>templates/\<close> and the generic lambdas of \<^verbatim>\<open>lambdas/02_generic_templated.cpp\<close> compute at run time: the ring buffer, pairs, variadic functions and the recursive tuple,
  the serialiser, the stacks with policies, and the programs' output.  An argument pack is a list of values with their types.
\<close>

section \<open>Values\<close>

text \<open>A \<^verbatim>\<open>double\<close> is a decimal: \<open>D_V n d\<close> is \<open>n / 10 ^ d\<close>.\<close>

datatype cval = I_V int | D_V int nat | S_V string | B_V bool | V_V "cval list"

fun type_of_val :: "cval \<Rightarrow> cty" where
  "type_of_val (I_V i) = Int_T"
| "type_of_val (D_V n d) = Double_T"
| "type_of_val (S_V s) = String_T"
| "type_of_val (B_V b) = Bool_T"
| "type_of_val (V_V vs) = Vector_T (case vs of [] \<Rightarrow> Int_T | v # _ \<Rightarrow> type_of_val v)"

text \<open>\<open>operator<<\<close> prints a \<^verbatim>\<open>double\<close> without trailing zeros.\<close>

fun show_decimal :: "int \<Rightarrow> nat \<Rightarrow> string" where
  "show_decimal n 0 = dec_int n"
| "show_decimal n (Suc d) = (if n mod 10 = 0 then show_decimal (n div 10) d else dec_fixed (Suc d) n)"

fun show_val :: "cval \<Rightarrow> string option" where
  "show_val (I_V i) = Some (dec_int i)"
| "show_val (D_V n d) = Some (show_decimal n d)"
| "show_val (S_V s) = Some s"
| "show_val (B_V b) = Some (if b then ''1'' else ''0'')"
| "show_val (V_V vs) = None"

definition out_val :: "cval \<Rightarrow> string" where
  "out_val v = (case show_val v of None \<Rightarrow> [] | Some s \<Rightarrow> s)"

section \<open>Function and class templates\<close>

definition max_of :: "'a::linorder \<Rightarrow> 'a \<Rightarrow> 'a" where
  "max_of a b = (if a > b then a else b)"

text \<open>\<open>std::string\<close> compares character by character.\<close>

fun string_greater :: "string \<Rightarrow> string \<Rightarrow> bool" where
  "string_greater [] bs = False"
| "string_greater (a # as) [] = True"
| "string_greater (a # as) (b # bs) =
     (if (of_char a :: nat) = of_char b then string_greater as bs else (of_char a :: nat) > of_char b)"

definition max_of_string :: "string \<Rightarrow> string \<Rightarrow> string" where
  "max_of_string a b = (if string_greater a b then a else b)"

definition print_pair :: "cval \<Rightarrow> cval \<Rightarrow> string" where
  "print_pair a b = out_val a @ '', '' @ out_val b"

record 'a ring_buf =
  rb_buf :: "'a list"
  rb_head :: nat
  rb_size :: nat

definition rb_init :: "nat \<Rightarrow> 'a \<Rightarrow> 'a ring_buf" where
  "rb_init n z = \<lparr>rb_buf = replicate n z, rb_head = 0, rb_size = 0\<rparr>"

definition rb_push :: "nat \<Rightarrow> 'a \<Rightarrow> 'a ring_buf \<Rightarrow> 'a ring_buf" where
  "rb_push n v r =
     r\<lparr>rb_buf := (rb_buf r)[rb_head r := v], rb_head := (rb_head r + 1) mod n,
       rb_size := if rb_size r < n then rb_size r + 1 else rb_size r\<rparr>"

definition rb_at :: "nat \<Rightarrow> nat \<Rightarrow> 'a ring_buf \<Rightarrow> 'a" where
  "rb_at n i r = rb_buf r ! (i mod n)"

definition rb_fill :: "nat \<Rightarrow> 'a \<Rightarrow> 'a list \<Rightarrow> 'a ring_buf" where
  "rb_fill n z xs = fold (rb_push n) xs (rb_init n z)"

definition pair_swap :: "'a \<times> 'a \<Rightarrow> 'a \<times> 'a \<Rightarrow> ('a \<times> 'a) \<times> ('a \<times> 'a)" where
  "pair_swap p q = (q, p)"

definition pair_as :: "('a \<Rightarrow> 'b) \<Rightarrow> 'a \<times> 'a \<Rightarrow> 'b \<times> 'b" where
  "pair_as cast p = (cast (fst p), cast (snd p))"

definition show_pair :: "cval \<times> cval \<Rightarrow> string" where
  "show_pair p = ''('' @ out_val (fst p) @ '', '' @ out_val (snd p) @ '')''"

fun int_to_double :: "cval \<Rightarrow> cval" where
  "int_to_double (I_V i) = D_V i 0"
| "int_to_double v = v"

definition class_templates_main :: console where
  "class_templates_main =
     (let (p1, p2) = pair_swap (I_V 1, I_V 2) (I_V 10, I_V 20);
          rb = rb_fill 4 0 (map (\<lambda>i. int i * 10) [0..<6])
      in [dec_int (max_of 3 7), show_decimal (max_of 314 271) 2, max_of_string ''apple'' ''banana'',
          print_pair (I_V 42) (S_V ''hello''), print_pair (D_V 314 2) (B_V True),
          show_pair (I_V 1, I_V 2), ''after swap: '' @ show_pair p1, ''as double: '' @ show_pair (pair_as int_to_double p1),
          ''ring[0]='' @ dec_int (rb_at 4 0 rb) @ '' ring[1]='' @ dec_int (rb_at 4 1 rb),
          ''capacity='' @ dec_nat 4 @ '' size='' @ dec_nat (rb_size rb)])"

section \<open>Specialisation\<close>

text \<open>\<open>Storage<T>\<close>: the primary template, the full specialisation for \<^verbatim>\<open>bool\<close> and the partial one for pointers (\<open>None\<close> is null).\<close>

datatype storage = Storage_Any cval | Storage_Bool nat | Storage_Ptr "cval option"

definition make_storage_bool :: "bool \<Rightarrow> storage" where
  "make_storage_bool v = Storage_Bool (if v then 1 else 0)"

fun storage_print :: "storage \<Rightarrow> string" where
  "storage_print (Storage_Any v) = ''Storage<T>: '' @ out_val v"
| "storage_print (Storage_Bool b) = ''Storage<bool>: '' @ (if b \<noteq> 0 then ''true'' else ''false'')"
| "storage_print (Storage_Ptr (Some v)) = ''Storage<T*>: points to '' @ out_val v"
| "storage_print (Storage_Ptr None) = ''Storage<T*>: null''"

fun strcmp_eq :: "string \<Rightarrow> string \<Rightarrow> bool" where
  "strcmp_eq [] [] = True"
| "strcmp_eq (a # as) (b # bs) = (a = b \<and> strcmp_eq as bs)"
| "strcmp_eq _ _ = False"

definition in_quotes :: "string \<Rightarrow> string" where
  "in_quotes s = CHR 0x22 # s @ [CHR 0x22]"

definition specialisation_main :: console where
  "specialisation_main =
     [storage_print (Storage_Any (I_V 42)), storage_print (make_storage_bool True), storage_print (Storage_Ptr (Some (I_V 99))),
      storage_print (Storage_Ptr None), [],
      ''is_pointer<int>:   '' @ out_val (B_V (is_pointer_spec Int_T)), ''is_pointer<int*>:  '' @ out_val (B_V (is_pointer_spec (Ptr_T Int_T))),
      ''is_pointer<char*>: '' @ out_val (B_V (is_pointer_spec (Ptr_T Char_T))), [],
      ''equal(1,1):       '' @ out_val (B_V ((1::int) = 1)), (''equal('' @ in_quotes ''hi'' @ '','' @ in_quotes ''hi'' @ ''): '') @ out_val (B_V (strcmp_eq ''hi'' ''hi'')),
      (''equal('' @ in_quotes ''hi'' @ '','' @ in_quotes ''bye'' @ ''): '') @ out_val (B_V (strcmp_eq ''hi'' ''bye''))]"

section \<open>Variadic functions and the tuple\<close>

text \<open>\<open>(args + ...)\<close> is a right fold and does not compile for an empty pack (\<open>None\<close>); \<open>(... && ...)\<close> of an empty pack is true.\<close>

fun sum_pack :: "int list \<Rightarrow> int option" where
  "sum_pack [] = None"
| "sum_pack [x] = Some x"
| "sum_pack (x # y # ys) = map_option (\<lambda>s. x + s) (sum_pack (y # ys))"

fun all_positive :: "int list \<Rightarrow> bool" where
  "all_positive [] = True"
| "all_positive (x # xs) = (x > 0 \<and> all_positive xs)"

fun print_all_from :: "nat \<Rightarrow> cval list \<Rightarrow> string" where
  "print_all_from i [] = []"
| "print_all_from i (v # vs) = (if i \<noteq> 0 then '' '' else []) @ out_val v @ print_all_from (Suc i) vs"

definition print_all_pack :: "cval list \<Rightarrow> string" where
  "print_all_pack vs = print_all_from 0 vs"

fun print_typed :: "cval list \<Rightarrow> string option" where
  "print_typed [] = None"
| "print_typed [v] = Some (out_val v @ '' [last]'')"
| "print_typed (v # w # vs) = map_option (\<lambda>r. out_val v @ '' -> '' @ r) (print_typed (w # vs))"

datatype tuple_t = Tuple_Empty | Tuple_Node cval tuple_t

fun make_tuple :: "cval list \<Rightarrow> tuple_t" where
  "make_tuple [] = Tuple_Empty"
| "make_tuple (v # vs) = Tuple_Node v (make_tuple vs)"

text \<open>\<open>get<N>\<close> returns a reference: reading and writing through it.  An index outside the tuple does not compile.\<close>

fun tuple_get :: "nat \<Rightarrow> tuple_t \<Rightarrow> cval option" where
  "tuple_get n Tuple_Empty = None"
| "tuple_get 0 (Tuple_Node h t) = Some h"
| "tuple_get (Suc n) (Tuple_Node h t) = tuple_get n t"

fun tuple_set :: "nat \<Rightarrow> cval \<Rightarrow> tuple_t \<Rightarrow> tuple_t option" where
  "tuple_set n v Tuple_Empty = None"
| "tuple_set 0 v (Tuple_Node h t) = Some (Tuple_Node v t)"
| "tuple_set (Suc n) v (Tuple_Node h t) = map_option (Tuple_Node h) (tuple_set n v t)"

definition show_count :: "cval list \<Rightarrow> string" where
  "show_count vs = ''pack has '' @ dec_nat (length vs) @ '' elements''"

definition opt_line :: "string option \<Rightarrow> string" where
  "opt_line x = (case x of None \<Rightarrow> ''(does not compile)'' | Some s \<Rightarrow> s)"

definition variadic_main :: console where
  "variadic_main =
     (let t = make_tuple [I_V 42, S_V ''hello'', D_V 314 2]
      in [opt_line (map_option dec_int (sum_pack [1, 2, 3, 4, 5])), opt_line (map_option (\<lambda>n. show_decimal n 1) (sum_pack [15, 25, 30])),
          out_val (B_V (all_positive [1, 2, 3])), out_val (B_V (all_positive [1, -1, 3])),
          print_all_pack [I_V 10, S_V ''hello'', D_V 314 2, B_V True], [],
          opt_line (print_typed [I_V 1, S_V ''two'', D_V 3 0]), [],
          opt_line (map_option out_val (tuple_get 0 t)), opt_line (map_option out_val (tuple_get 1 t)), opt_line (map_option out_val (tuple_get 2 t)), [],
          show_count [I_V 1, I_V 2, I_V 3], show_count [S_V ''a''], show_count []])"

lemma sum_pack_sum: "xs \<noteq> [] \<Longrightarrow> sum_pack xs = Some (sum_list xs)"
  by (induction xs rule: sum_pack.induct) auto

lemma all_positive_iff: "all_positive xs \<longleftrightarrow> (\<forall>x \<in> set xs. x > 0)"
  by (induction xs) auto

lemma tuple_get_nth: "tuple_get i (make_tuple vs) = (if i < length vs then Some (vs ! i) else None)"
proof (induction vs arbitrary: i)
  case (Cons v vs)
  then show ?case by (cases i) auto
qed simp

lemma tuple_set_update: "i < length vs \<Longrightarrow> tuple_set i v (make_tuple vs) = Some (make_tuple (vs[i := v]))"
  by (induction vs arbitrary: i) (auto split: nat.split simp: less_Suc_eq_0_disj)

section \<open>Compile-time branches\<close>

text \<open>\<open>print_info\<close> of \<^verbatim>\<open>04_sfinae.cpp\<close> and of \<^verbatim>\<open>05_if_constexpr.cpp\<close>.\<close>

fun val_size :: "cval \<Rightarrow> nat" where
  "val_size (S_V s) = length s"
| "val_size (V_V vs) = length vs"
| "val_size v = 0"

definition print_info_sfinae :: "cval \<Rightarrow> string" where
  "print_info_sfinae v = (if has_size (type_of_val v) then ''has size: '' @ dec_nat (val_size v) else ''no size() member'')"

definition print_info :: "cval \<Rightarrow> string" where
  "print_info v =
     ''value: '' @ (case show_val v of Some s \<Rightarrow> s | None \<Rightarrow> ''<not streamable>'')
     @ (if has_size (type_of_val v) then '' size='' @ dec_nat (val_size v) else [])"

fun print_all_args :: "cval list \<Rightarrow> string option" where
  "print_all_args [] = None"
| "print_all_args (v # vs) = (if vs = [] then Some (out_val v) else map_option (\<lambda>r. out_val v @ '', '' @ r) (print_all_args vs))"

text \<open>\<open>serialise\<close> ends every call with a newline, also the calls for the elements.\<close>

fun serialise :: "cval \<Rightarrow> string" where
  "serialise (B_V b) = (if b then ''true'' else ''false'') @ nl"
| "serialise (I_V i) = dec_int i @ nl"
| "serialise (D_V n d) = show_decimal n d @ nl"
| "serialise (S_V s) = in_quotes s @ nl"
| "serialise (V_V vs) = ''['' @ concat (map (\<lambda>v. serialise v @ '' '') vs) @ '']'' @ nl"

definition sfinae_main :: console where
  "sfinae_main =
     [opt_line (describe_sfinae Int_T), opt_line (describe_sfinae Double_T),
      opt_line (print_number_label Int_T) @ ''10'', opt_line (print_number_label Float_T) @ ''2.5'', opt_line (print_number_label String_T) @ ''hello'', [],
      ''vector has size: '' @ out_val (B_V (has_size (Vector_T Int_T))), ''int has size:    '' @ out_val (B_V (has_size Int_T)),
      print_info_sfinae (V_V [I_V 1, I_V 2, I_V 3]), print_info_sfinae (I_V 42)]"

definition constexpr_main :: "console \<times> string" where
  "constexpr_main =
     ([describe_if Int_T, describe_if Double_T, describe_if (Ptr_T (Const_T Char_T)), [],
       print_info (I_V 42), print_info (S_V ''hello''), print_info (V_V [I_V 1, I_V 2, I_V 3]), [],
       opt_line (print_all_args [I_V 1, S_V ''two'', D_V 3 0]), opt_line (print_all_args [I_V 42]), []],
      serialise (B_V True) @ serialise (I_V 42) @ serialise (S_V ''hello'') @ serialise (V_V [I_V 1, I_V 2, I_V 3]))"

section \<open>Stacks with policies\<close>

text \<open>
  \<open>Stack\<close> holds its elements in a standard sequence container, of which it uses the end; \<open>InstrumentedStack\<close> also tells its policy about every operation.
\<close>

type_synonym 'a stack_t = "'a list"

definition stack_push :: "'a \<Rightarrow> 'a stack_t \<Rightarrow> 'a stack_t" where
  "stack_push v s = s @ [v]"

definition stack_pop :: "'a stack_t \<Rightarrow> string + 'a \<times> 'a stack_t" where
  "stack_pop s = (if s = [] then Inl ''stack is empty'' else Inr (last s, butlast s))"

record log_policy =
  on_push :: "int \<Rightarrow> console"
  on_pop :: "int \<Rightarrow> console"

definition logging_policy :: log_policy where
  "logging_policy = \<lparr>on_push = (\<lambda>v. [''[log] push '' @ dec_int v]), on_pop = (\<lambda>v. [''[log] pop  '' @ dec_int v])\<rparr>"

definition silent_policy :: log_policy where
  "silent_policy = \<lparr>on_push = (\<lambda>v. []), on_pop = (\<lambda>v. [])\<rparr>"

type_synonym istack = "int list \<times> console"

definition istack_push :: "log_policy \<Rightarrow> int \<Rightarrow> istack \<Rightarrow> istack" where
  "istack_push p v s = (fst s @ [v], snd s @ on_push p v)"

definition istack_pop :: "log_policy \<Rightarrow> istack \<Rightarrow> string + int \<times> istack" where
  "istack_pop p s =
     (if fst s = [] then Inl ''empty''
      else let v = last (fst s) in Inr (v, (butlast (fst s), snd s @ on_pop p v)))"

text \<open>The contract of a stack: pops return what was pushed last, and fail exactly when the stack is empty.\<close>

locale lifo =
  fixes push :: "'a \<Rightarrow> 's \<Rightarrow> 's"
    and pop :: "'s \<Rightarrow> string + 'a \<times> 's"
    and elems :: "'s \<Rightarrow> 'a list"
  assumes elems_push: "elems (push v s) = elems s @ [v]"
    and pop_empty: "elems s = [] \<Longrightarrow> \<exists>e. pop s = Inl e"
    and pop_last: "elems s = xs @ [v] \<Longrightarrow> \<exists>s'. pop s = Inr (v, s') \<and> elems s' = xs"
begin

fun pops :: "nat \<Rightarrow> 's \<Rightarrow> 'a list" where
  "pops 0 s = []"
| "pops (Suc n) s = (case pop s of Inl e \<Rightarrow> [] | Inr (v, s') \<Rightarrow> v # pops n s')"

lemma pops_elems: "pops n s = take n (rev (elems s))"
proof (induction n arbitrary: s)
  case (Suc n)
  show ?case
  proof (cases "elems s" rule: rev_cases)
    case Nil
    then obtain e where "pop s = Inl e" using pop_empty by blast
    then show ?thesis using Nil by simp
  next
    case (snoc xs v)
    then obtain s' where "pop s = Inr (v, s')" "elems s' = xs" using pop_last by blast
    then show ?thesis using Suc snoc by simp
  qed
qed simp

lemma elems_pushes: "elems (fold push vs s) = elems s @ vs"
  by (induction vs arbitrary: s) (simp_all add: elems_push)

lemma push_pop_reverses: "elems s = [] \<Longrightarrow> pops (length vs) (fold push vs s) = rev vs"
  by (simp add: pops_elems elems_pushes)

lemma pop_error: "(\<exists>e. pop s = Inl e) \<longleftrightarrow> elems s = []"
proof
  assume "\<exists>e. pop s = Inl e"
  then show "elems s = []" using pop_last [of s] by (cases "elems s" rule: rev_cases) fastforce+
qed (rule pop_empty)

end

interpretation plain_stack: lifo stack_push stack_pop "\<lambda>s. s"
  by unfold_locales (auto simp: stack_push_def stack_pop_def)

interpretation logged_stack: lifo "istack_push p" "istack_pop p" fst for p
  by unfold_locales (auto simp: istack_push_def istack_pop_def Let_def)

text \<open>The logging policy sees exactly the operations that happen, the silent one nothing.\<close>

lemma istack_log:
  "snd (istack_push p v s) = snd s @ on_push p v"
  "istack_pop p s = Inr (v, s') \<Longrightarrow> snd s' = snd s @ on_pop p v"
  by (auto simp: istack_push_def istack_pop_def Let_def split: if_splits)

definition pop_line :: "string + 'a \<times> 's \<Rightarrow> ('a \<Rightarrow> string) \<Rightarrow> string" where
  "pop_line r sh = (case r of Inl e \<Rightarrow> e | Inr (v, _) \<Rightarrow> sh v)"

definition policy_main :: console where
  "policy_main =
     (let vs = fold stack_push [1, 2, 3] []; ds = fold stack_push [10, 20] [];
          logged = fold (istack_push logging_policy) [5, 10] ([], []);
          log = (case istack_pop logging_policy logged of Inl e \<Rightarrow> [e] | Inr (_, s) \<Rightarrow> snd s);
          silent = (case istack_pop silent_policy (istack_push silent_policy 99 ([], [])) of Inl e \<Rightarrow> ([], [e]) | Inr (_, s) \<Rightarrow> s)
      in [''vector stack pop: '' @ pop_line (stack_pop vs) dec_int, ''deque  stack pop: '' @ pop_line (stack_pop ds) dec_int, []] @ log @ [[]] @ snd silent
         @ [''silent stack done, size='' @ dec_nat (length (fst silent))])"

section \<open>Ranges, references and recursion\<close>

text \<open>\<open>filter\<close>, \<open>print_range_of\<close>, \<open>sort_and_print\<close> and \<open>range_sum\<close> of \<^verbatim>\<open>08_standard_concepts.cpp\<close>.\<close>

fun filter_loop :: "('a \<Rightarrow> bool) \<Rightarrow> 'a list \<Rightarrow> 'a list \<Rightarrow> 'a list" where
  "filter_loop pred [] res = res"
| "filter_loop pred (x # xs) res = filter_loop pred xs (if pred x then res @ [x] else res)"

definition print_range_of :: "string list \<Rightarrow> string" where
  "print_range_of xs = concat (map (\<lambda>x. x @ '' '') xs)"

definition print_with_size :: "string list \<Rightarrow> string" where
  "print_with_size xs = ''size='' @ dec_nat (length xs) @ '': '' @ print_range_of xs"

definition sort_and_print :: "int list \<Rightarrow> int list \<times> string" where
  "sort_and_print xs = (sort xs, print_range_of (map dec_int (sort xs)))"

definition range_sum :: "int list \<Rightarrow> int" where
  "range_sum xs = fold (\<lambda>x acc. acc + x) xs 0"

definition concepts_main :: console where
  "concepts_main =
     (let (nums, line) = sort_and_print [5, 2, 8, 1, 9]
      in [''same_as<T,U>:        '' @ show_flag (fst (show_same Int_T Int_T)), ''convertible_to<T,U>: '' @ show_flag (snd (show_same Int_T Int_T)), [],
          ''same_as<T,U>:        '' @ show_flag (fst (show_same Int_T Double_T)), ''convertible_to<T,U>: '' @ show_flag (snd (show_same Int_T Double_T)), [],
          print_range_of (map dec_int (filter_loop (\<lambda>x. x > 0) [1, -2, 3, -4, 5] [])), print_with_size [''hello'', ''world'', ''cpp''],
          print_range_of (map dec_int [10, 20, 30]), line, ''sum = '' @ dec_int (range_sum nums)])"

text \<open>\<open>add\<close>, \<open>square\<close>, \<open>NumericPair\<close> of \<^verbatim>\<open>07_concepts_basics.cpp\<close> and its program.\<close>

definition numeric_add :: "'a::plus \<Rightarrow> 'a \<Rightarrow> 'a" where
  "numeric_add a b = a + b"

definition square :: "'a::times \<Rightarrow> 'a" where
  "square x = x * x"

definition numeric_pair :: "'a::{plus,times} \<times> 'a \<Rightarrow> 'a \<times> 'a" where
  "numeric_pair p = (fst p + snd p, fst p * snd p)"

definition concepts_basics_main :: console where
  "concepts_basics_main =
     [''42'', show_decimal 314 2, ''hello'', dec_int (numeric_add 3 4), show_decimal (numeric_add 15 25) 1, dec_int (square 5), [],
      opt_line (describe_concept String_T), opt_line (describe_concept Double_T), opt_line (describe_concept Int_T), [],
      ''sum='' @ dec_int (fst (numeric_pair (3, 4))) @ '' product='' @ dec_int (snd (numeric_pair (3, 4)))]"

text \<open>\<^verbatim>\<open>11_decltype_auto.cpp\<close>: \<open>front\<close> copies, \<open>front_ref\<close> refers to the element; \<open>call\<close> forwards.  Both need a non-empty container.\<close>

definition front_copy :: "'a list \<Rightarrow> 'a option" where
  "front_copy c = (case c of [] \<Rightarrow> None | x # _ \<Rightarrow> Some x)"

definition front_ref_assign :: "'a \<Rightarrow> 'a list \<Rightarrow> 'a list option" where
  "front_ref_assign v c = (case c of [] \<Rightarrow> None | _ # xs \<Rightarrow> Some (v # xs))"

definition call2 :: "('a \<Rightarrow> 'b \<Rightarrow> 'c) \<Rightarrow> 'a \<Rightarrow> 'b \<Rightarrow> 'c" where
  "call2 f a b = f a b"

definition decltype_main :: console where
  "decltype_main =
     [''a=10 b=5 c=0'', dec_int (numeric_add 1 2), show_decimal (numeric_add 10 25) 1, ''hello '' @ ''world'',
      ''v[0] after front_ref = '' @ (case front_ref_assign 99 [10, 20, 30] of Some (x # _) \<Rightarrow> dec_int x | _ \<Rightarrow> ''undefined''),
      ''ComputeResult is int: '' @ out_val (B_V (decltype_of (Call_E Int_T) = Int_T)), ''call result: '' @ dec_int (call2 (\<lambda>a b. a * b) 6 7)]"

text \<open>\<^verbatim>\<open>10_metaprogramming.cpp\<close>: the factor of \<open>scale\<close> is converted to the type of the value, towards zero when a \<^verbatim>\<open>double\<close> becomes an \<^verbatim>\<open>int\<close>.\<close>

definition scale_int :: "int \<Rightarrow> int \<times> nat \<Rightarrow> int" where
  "scale_int value factor = value * (sgn (fst factor) * (\<bar>fst factor\<bar> div 10 ^ snd factor))"

definition add_const_int :: "int \<Rightarrow> int \<Rightarrow> int" where
  "add_const_int a b = a + b"

definition metaprogramming_main :: console where
  "metaprogramming_main =
     [''Int16or32 size: '' @ dec_nat (sizeof_t 32 (if sizeof_t 32 Int_T \<ge> 4 then Int_T else Long_T)), ''conditional static_asserts passed'', [],
      ''vector has reserve: '' @ out_val (B_V (has_reserve (Vector_T Int_T))), ''list   has reserve: '' @ out_val (B_V (has_reserve (List_T Int_T))),
      try_reserve (Vector_T Int_T) 100, try_reserve (List_T Int_T) 100, [], ''scale(5, 2.0) = '' @ dec_int (scale_int 5 (2, 0)), [],
      ''3 + 4 at compile time: '' @ dec_int (add_const_int 3 4), ''result is even: '' @ out_val (B_V (add_const_int 3 4 mod 2 = 0))]"

text \<open>The lambdas of \<^verbatim>\<open>lambdas/02_generic_templated.cpp\<close>; \<open>factorial\<close> multiplies 32-bit integers, and leaving their range is undefined (\<open>None\<close>).\<close>

definition sum_container :: "int list \<Rightarrow> int" where
  "sum_container c = fold (\<lambda>x acc. acc + x) c 0"

function factorial :: "int \<Rightarrow> int option" where
  "factorial n =
     (if n \<le> 1 then Some 1
      else case factorial (n - 1) of None \<Rightarrow> None | Some r \<Rightarrow> if n * r < 2 ^ 31 then Some (n * r) else None)"
  by pat_completeness auto
termination by (relation "measure nat") auto

declare factorial.simps [simp del]

definition generic_main :: "console option" where
  "generic_main =
     map_option (\<lambda>f.
       [''42'', show_decimal 314 2, ''hello'', dec_int (1 + 2), show_decimal (15 + 25) 1, ''foo'' @ ''bar'', dec_int (3 + 4), dec_int (square 7),
        dec_int (sum_container [1, 2, 3, 4]), show_decimal (sum_container [11, 22, 33]) 1, dec_int f]) (factorial 6)"

lemma filter_loop_filter: "filter_loop pred xs res = res @ filter pred xs"
  by (induction xs arbitrary: res) auto

lemma factorial_Suc:
  "0 < n \<Longrightarrow> factorial (int (Suc n)) =
     (case factorial (int n) of None \<Rightarrow> None | Some r \<Rightarrow> if int (Suc n) * r < 2 ^ 31 then Some (int (Suc n) * r) else None)"
  by (subst factorial.simps) simp

lemma factorial_fact: "n \<le> 12 \<Longrightarrow> factorial (int n) = Some (fact n)"
proof (induction n)
  case (Suc n)
  have "fact (Suc n) \<le> (fact 12 :: int)" using Suc.prems fact_mono by blast
  then have "int (Suc n) * fact n < 2 ^ 31" by (simp add: fact_numeral)
  moreover have "factorial (int n) = Some (fact n)" using Suc by simp
  ultimately show ?case
  proof (cases "n = 0")
    case False
    then show ?thesis using \<open>factorial (int n) = Some (fact n)\<close> \<open>int (Suc n) * fact n < 2 ^ 31\<close>
      by (simp only: factorial_Suc fact_Suc) simp
  qed (simp add: factorial.simps)
qed (simp add: factorial.simps)

lemma factorial_overflow: "factorial (int (13 + k)) = None"
proof (induction k)
  case 0
  have "factorial (int 12) = Some (fact 12)" by (rule factorial_fact) simp
  then have "factorial (int (Suc 12)) = None" by (subst factorial_Suc) (simp_all add: fact_numeral)
  then show ?case by simp
next
  case (Suc k)
  then show ?case using factorial_Suc [of "13 + k"] by simp
qed

section \<open>The ring buffer as a ring\<close>

definition rb_ok :: "nat \<Rightarrow> 'a ring_buf \<Rightarrow> bool" where
  "rb_ok n r \<longleftrightarrow> rb_head r < Suc n \<and> length (rb_buf r) = Suc n \<and> rb_size r \<le> Suc n"

interpretation ring_buffer: overwriting_ring "Suc n" "rb_push (Suc n)" rb_buf rb_head "rb_init (Suc n) z" "rb_ok n" for n z
  by unfold_locales (auto simp: rb_ok_def rb_push_def rb_init_def)

lemma rb_fill_filled: "rb_fill (Suc n) z xs = ring_buffer.filled n z xs"
  by (simp add: rb_fill_def ring_buffer.filled_def)

lemma rb_fill_size: "rb_size (rb_fill n z xs) = min (length xs) n"
  by (induction xs rule: rev_induct) (auto simp: rb_fill_def rb_init_def rb_push_def min_def)

section \<open>Properties\<close>

text \<open>
  Ring buffer and stacks.  After any pushes a \<open>RingBuffer\<close> of capacity \<open>n + 1\<close> holds exactly the last \<open>n + 1\<close> values, or all of them in order when there are not more, and its
  size is their number.  Both stacks return what was pushed in reverse order, and a pop fails exactly when the stack is empty, whatever the policy.
\<close>

theorem containers_hold_last:
  "rb_size (rb_fill (Suc n) z xs) = min (length xs) (Suc n)
   \<and> (length xs \<le> Suc n \<longrightarrow> take (length xs) (rb_buf (rb_fill (Suc n) z xs)) = xs)
   \<and> (Suc n \<le> length xs \<longrightarrow> mset (rb_buf (rb_fill (Suc n) z xs)) = mset (drop (length xs - Suc n) xs))
   \<and> (i < length xs \<and> length xs \<le> i + Suc n \<longrightarrow> rb_at (Suc n) i (rb_fill (Suc n) z xs) = xs ! i)
   \<and> plain_stack.pops (length vs) (fold stack_push vs []) = rev vs
   \<and> logged_stack.pops p (length ws) (fold (istack_push p) ws ([], lg)) = rev ws
   \<and> ((\<exists>e. stack_pop s = Inl e) \<longleftrightarrow> s = []) \<and> ((\<exists>e. istack_pop p t = Inl e) \<longleftrightarrow> fst t = [])"
  using ring_buffer.filled_short [of xs n z] ring_buffer.filled_mset [of n xs z] ring_buffer.filled_nth [of i xs n z]
    plain_stack.push_pop_reverses [of "[]" vs] logged_stack.push_pop_reverses [of "([], lg)" p ws]
    plain_stack.pop_error [of s] logged_stack.pop_error [of p t] rb_fill_size [of "Suc n" z xs]
  by (simp add: rb_fill_filled rb_at_def)

theorem containers_hold_last_witness:
  "rb_size (rb_fill (Suc 3) 0 [0, 10, 20, 30, 40, 50::int]) = 4 \<and> mset (rb_buf (rb_fill (Suc 3) 0 [0, 10, 20, 30, 40, 50::int])) = {#20, 30, 40, 50#}"
  using containers_hold_last [of 3 "0::int" "[0, 10, 20, 30, 40, 50]" 0 "[] :: nat list" silent_policy "[]" "[]" "[] :: nat list" "([], [])"] by simp

text \<open>
  Variadic functions and recursion.  The fold sums its pack and is not defined for an empty one; \<open>get<i>\<close> of a tuple reads and writes its \<open>i\<close>-th element and does not compile outside it;
  \<open>filter\<close> keeps the elements that satisfy the predicate in order; \<open>factorial\<close> is the factorial up to 12 and leaves the range of \<^verbatim>\<open>int\<close> from 13 on.
\<close>

theorem variadic_functions:
  "sum_pack xs = (if xs = [] then None else Some (sum_list xs))
   \<and> (all_positive xs \<longleftrightarrow> (\<forall>x \<in> set xs. 0 < x))
   \<and> tuple_get i (make_tuple vs) = (if i < length vs then Some (vs ! i) else None)
   \<and> (i < length vs \<longrightarrow> (\<exists>t. tuple_set i v (make_tuple vs) = Some t
        \<and> (\<forall>j. tuple_get j t = (if j = i then Some v else tuple_get j (make_tuple vs)))))
   \<and> filter_loop pred ys [] = filter pred ys
   \<and> factorial (int n) = (if n \<le> 12 then Some (fact n) else None)"
proof (intro conjI impI)
  show "factorial (int n) = (if n \<le> 12 then Some (fact n) else None)"
    using factorial_fact [of n] factorial_overflow [of "n - 13"] by auto
  assume "i < length vs"
  then show "\<exists>t. tuple_set i v (make_tuple vs) = Some t \<and> (\<forall>j. tuple_get j t = (if j = i then Some v else tuple_get j (make_tuple vs)))"
    by (auto simp: tuple_set_update tuple_get_nth)
qed (auto simp: sum_pack_sum all_positive_iff tuple_get_nth filter_loop_filter)

theorem variadic_functions_witness:
  "sum_pack [1, 2, 3, 4, 5] = Some 15 \<and> all_positive [1, 2, 3] \<and> factorial (int 6) = Some 720"
  using variadic_functions [of "[1, 2, 3, 4, 5]" 0 "[]" "I_V 0" "\<lambda>_. True" "[] :: int list" 6]
    variadic_functions [of "[1, 2, 3]" 0 "[]" "I_V 0" "\<lambda>_. True" "[] :: int list" 6]
  by (simp add: fact_numeral)

text \<open>What the programs print.  The elements of a serialised vector are each followed by a newline.\<close>

lemma template_programs:
  "class_templates_main = [''7'', ''3.14'', ''banana'', ''42, hello'', ''3.14, 1'', ''(1, 2)'', ''after swap: (10, 20)'', ''as double: (10, 20)'',
     ''ring[0]=40 ring[1]=50'', ''capacity=4 size=4'']"
  "take 4 specialisation_main = [''Storage<T>: 42'', ''Storage<bool>: true'', ''Storage<T*>: points to 99'', ''Storage<T*>: null'']"
  "variadic_main = [''15'', ''7'', ''1'', ''0'', ''10 hello 3.14 1'', [], ''1 -> two -> 3 [last]'', [], ''42'', ''hello'', ''3.14'', [],
     ''pack has 3 elements'', ''pack has 1 elements'', ''pack has 0 elements'']"
  "sfinae_main = [''integral'', ''floating point'', ''number: 10'', ''number: 2.5'', ''non-number: hello'', [], ''vector has size: 1'',
     ''int has size:    0'', ''has size: 3'', ''no size() member'']"
  "fst constexpr_main = [''integral'', ''floating point'', ''other'', [], ''value: 42'', ''value: hello size=5'', ''value: <not streamable> size=3'', [],
     ''1, two, 3'', ''42'', []]"
  "snd constexpr_main = ''true'' @ nl @ ''42'' @ nl @ in_quotes ''hello'' @ nl @ ''[1'' @ nl @ '' 2'' @ nl @ '' 3'' @ nl @ '' ]'' @ nl"
  "policy_main = [''vector stack pop: 3'', ''deque  stack pop: 20'', [], ''[log] push 5'', ''[log] push 10'', ''[log] pop  10'', [], ''silent stack done, size=0'']"
  "concepts_main = [''same_as<T,U>:        true'', ''convertible_to<T,U>: true'', [], ''same_as<T,U>:        false'', ''convertible_to<T,U>: true'', [],
     ''1 3 5 '', ''size=3: hello world cpp '', ''10 20 30 '', ''1 2 5 8 9 '', ''sum = 25'']"
  "concepts_basics_main = [''42'', ''3.14'', ''hello'', ''7'', ''4'', ''25'', [], ''generic'', ''numeric'', ''integral'', [], ''sum=7 product=12'']"
  "decltype_main = [''a=10 b=5 c=0'', ''3'', ''3.5'', ''hello world'', ''v[0] after front_ref = 99'', ''ComputeResult is int: 1'', ''call result: 42'']"
  "metaprogramming_main = [''Int16or32 size: 4'', ''conditional static_asserts passed'', [], ''vector has reserve: 1'', ''list   has reserve: 0'',
     ''reserved 100 slots'', ''no reserve() available'', [], ''scale(5, 2.0) = 10'', [], ''3 + 4 at compile time: 7'', ''result is even: 0'']"
  "generic_main = Some [''42'', ''3.14'', ''hello'', ''3'', ''4'', ''foobar'', ''7'', ''49'', ''10'', ''6.6'', ''720'']"
  by code_simp+

end
