(* ===== verification/Sanitizers.thy ===== *)
theory Sanitizers
  imports Prelude
begin

text \<open>
  The programs of \<^verbatim>\<open>build_tooling/\<close> about memory errors (\<^verbatim>\<open>01_asan_heap.cpp\<close>, \<^verbatim>\<open>02_asan_stack_leak.cpp\<close>,
  \<^verbatim>\<open>05_msan.cpp\<close>) over a checked store: every object has a storage class, a lifetime and cells that may not have
  been written yet, and every access the language leaves undefined ends the run with a fault that says which.
  The \<^verbatim>\<open>TRIGGER_\<close> macros are Boolean arguments.  \<open>malloc\<close> and \<open>calloc\<close> may return a null pointer; \<open>new\<close> is taken not to throw.  Prices are exact hundredths; the address that \<open>%p\<close> prints is
  an argument of the programs that print one; the box-drawing dashes around a heading are left out and
  a long dash in a message is written \<open>-\<close>.
\<close>

section \<open>A store that checks every access\<close>

datatype storage_class = Heap_Block | Stack_Var | Global_Var

text \<open>A cell that was never written is \<open>None\<close>.\<close>

record obj =
  kind :: storage_class
  live :: bool
  elem :: nat
  cells :: "int option list"

datatype pointer = Nullptr | Ptr nat int

datatype fault =
    Out_Of_Bounds storage_class
  | Use_After_Free
  | Use_After_Scope
  | Double_Free
  | Bad_Free
  | Null_Access
  | Wild_Pointer
  | Uninit_Use

record san_state =
  store :: "obj list"
  out :: console

definition san_init :: san_state where
  "san_init = \<lparr>store = [], out = []\<rparr>"

type_synonym 'a san_run = "(fault, san_state, 'a) exec"

definition puts :: "string \<Rightarrow> unit san_run" where
  "puts s m = (Inr (), m\<lparr>out := out m @ [s]\<rparr>)"

definition locate :: "san_state \<Rightarrow> pointer \<Rightarrow> fault + nat \<times> nat" where
  "locate m p =
     (case p of
        Nullptr \<Rightarrow> Inl Null_Access
      | Ptr b i \<Rightarrow>
          (if length (store m) \<le> b then Inl Wild_Pointer
           else if \<not> live (store m ! b) then Inl (if kind (store m ! b) = Heap_Block then Use_After_Free else Use_After_Scope)
           else if i < 0 \<or> int (length (cells (store m ! b))) \<le> i then Inl (Out_Of_Bounds (kind (store m ! b)))
           else Inr (b, nat i)))"

definition load :: "pointer \<Rightarrow> int option san_run" where
  "load p m = (case locate m p of Inl e \<Rightarrow> (Inl e, m) | Inr (b, i) \<Rightarrow> (Inr (cells (store m ! b) ! i), m))"

definition write_cell :: "pointer \<Rightarrow> int \<Rightarrow> unit san_run" where
  "write_cell p v m =
     (case locate m p of
        Inl e \<Rightarrow> (Inl e, m)
      | Inr (b, i) \<Rightarrow> (Inr (), m\<lparr>store := (store m)[b := (store m ! b)\<lparr>cells := (cells (store m ! b))[i := Some v]\<rparr>]\<rparr>))"

text \<open>A value is used when a condition depends on it or when it is printed.\<close>

definition need :: "int option \<Rightarrow> int san_run" where
  "need v = (case v of None \<Rightarrow> fault_with Uninit_Use | Some x \<Rightarrow> okay x)"

definition load_use :: "pointer \<Rightarrow> int san_run" where
  "load_use p = andthen (load p) need"

definition fresh :: "storage_class \<Rightarrow> nat \<Rightarrow> int option list \<Rightarrow> pointer san_run" where
  "fresh k sz cs m = (Inr (Ptr (length (store m)) 0), m\<lparr>store := store m @ [\<lparr>kind = k, live = True, elem = sz, cells = cs\<rparr>]\<rparr>)"

definition kill :: "nat \<Rightarrow> san_state \<Rightarrow> san_state" where
  "kill b m = m\<lparr>store := (store m)[b := (store m ! b)\<lparr>live := False\<rparr>]\<rparr>"

definition dispose :: "pointer \<Rightarrow> unit san_run" where
  "dispose p m =
     (case p of
        Nullptr \<Rightarrow> (Inr (), m)
      | Ptr b i \<Rightarrow>
          (if length (store m) \<le> b \<or> kind (store m ! b) \<noteq> Heap_Block \<or> i \<noteq> 0 then (Inl Bad_Free, m)
           else if \<not> live (store m ! b) then (Inl Double_Free, m)
           else (Inr (), kill b m)))"

definition leave_scope :: "pointer \<Rightarrow> unit san_run" where
  "leave_scope p m = (case p of Nullptr \<Rightarrow> (Inr (), m) | Ptr b i \<Rightarrow> (Inr (), kill b m))"

fun plus_ptr :: "pointer \<Rightarrow> int \<Rightarrow> pointer" where
  "plus_ptr Nullptr i = Nullptr"
| "plus_ptr (Ptr b j) i = Ptr b (j + i)"

definition fill_array :: "pointer \<Rightarrow> nat \<Rightarrow> (nat \<Rightarrow> int) \<Rightarrow> unit san_run" where
  "fill_array p n f = runs (map (\<lambda>i. write_cell (plus_ptr p (int i)) (f i)) [0..<n])"

definition obj_bytes :: "obj \<Rightarrow> nat" where
  "obj_bytes ob = elem ob * length (cells ob)"

text \<open>What the leak check at exit counts: the heap blocks still alive.\<close>

definition leaked :: "san_state \<Rightarrow> nat" where
  "leaked m = sum_list (map (\<lambda>ob. if kind ob = Heap_Block \<and> live ob then obj_bytes ob else 0) (store m))"

definition show1 :: "int \<Rightarrow> string" where
  "show1 v = dec_fixed 1 (v div 10)"

definition show2 :: "int \<Rightarrow> string" where
  "show2 v = dec_fixed 2 v"

section \<open>01_asan_heap.cpp\<close>

definition demo_heap_overflow :: "bool \<Rightarrow> unit san_run" where
  "demo_heap_overflow TRIGGER_OVERFLOW =
     andthen (puts ''heap buffer overflow'') (\<lambda>_.
     andthen (fresh Heap_Block 8 (replicate 10 None)) (\<lambda>prices.
     andthen (fill_array prices 10 (\<lambda>i. 10000 + 100 * int i)) (\<lambda>_.
     andthen
       (if TRIGGER_OVERFLOW
        then runs [write_cell (plus_ptr prices 10) 99900, puts ''  (ASan should have fired above this line)'']
        else andthen (load_use prices) (\<lambda>a.
             andthen (load_use (plus_ptr prices 9)) (\<lambda>b.
             runs [puts (''  prices[0]='' @ show1 a @ ''  prices[9]='' @ show1 b @ ''  (safe access)''),
                   puts ''  compile with -DTRIGGER_OVERFLOW to see ASan report''])))
     (\<lambda>_. dispose prices))))"

definition demo_uaf :: "bool \<Rightarrow> unit san_run" where
  "demo_uaf TRIGGER_UAF =
     andthen (puts ''use-after-free'') (\<lambda>_.
     andthen (fresh Heap_Block 8 [Some 10150]) (\<lambda>order_price.
     andthen (load_use order_price) (\<lambda>v.
     andthen (puts (''  price before free: '' @ show2 v)) (\<lambda>_.
     andthen (dispose order_price) (\<lambda>_.
     if TRIGGER_UAF
     then andthen (load_use order_price) (\<lambda>v.
          runs [puts (''  price after free (UAF!): '' @ show2 v), puts ''  (ASan should have fired above this line)''])
     else runs [puts ''  pointer nulled after free - no UAF possible'',
                puts ''  compile with -DTRIGGER_UAF to see ASan report''])))))"

definition demo_heap_underflow :: "bool \<Rightarrow> unit san_run" where
  "demo_heap_underflow TRIGGER_UNDERFLOW =
     andthen (puts ''heap underflow (write before start)'') (\<lambda>_.
     andthen (fresh Heap_Block 4 (replicate 8 (Some 0))) (\<lambda>data.
     andthen
       (if TRIGGER_UNDERFLOW
        then runs [write_cell (plus_ptr data (- 1)) 42, puts ''  (ASan should have fired above this line)'']
        else andthen (load_use data) (\<lambda>v.
             runs [puts (''  data[0]='' @ dec_int v @ ''  (safe - no underflow)''),
                   puts ''  compile with -DTRIGGER_UNDERFLOW to see ASan report'']))
     (\<lambda>_. dispose data)))"

definition demo_leak :: "(pointer \<Rightarrow> string) \<Rightarrow> unit san_run" where
  "demo_leak addr =
     andthen (puts ''memory leak (LeakSanitizer)'') (\<lambda>_.
     andthen (fresh Heap_Block 8 (replicate 10 None)) (\<lambda>ticks.
     andthen (fill_array ticks 10 (\<lambda>i. 10000 + 100 * int i)) (\<lambda>_.
     runs [puts (''  allocated 10 doubles at '' @ addr ticks @ '' (not freed)''),
           puts ''  run with ASAN_OPTIONS=detect_leaks=1 to see leak report''])))"

text \<open>
  \<open>std::vector<double>\<close>: a buffer, a length and a capacity.  At full capacity \<open>push_back\<close> allocates a buffer of twice
  the size, moves the elements over and frees the old buffer; \<open>reserve\<close> does so when it must grow.
\<close>

record vec =
  buf :: pointer
  len :: nat
  cap :: nat

definition vec_regrow :: "nat \<Rightarrow> vec \<Rightarrow> vec san_run" where
  "vec_regrow n v =
     andthen (fresh Heap_Block 8 (replicate n None)) (\<lambda>q.
     andthen (runs (map (\<lambda>i. andthen (load_use (plus_ptr (buf v) (int i))) (write_cell (plus_ptr q (int i)))) [0..<len v])) (\<lambda>_.
     andthen (dispose (buf v)) (\<lambda>_. okay \<lparr>buf = q, len = len v, cap = n\<rparr>)))"

definition vec_reserve :: "nat \<Rightarrow> vec \<Rightarrow> vec san_run" where
  "vec_reserve n v = (if n \<le> cap v then okay v else vec_regrow n v)"

definition push_back :: "int \<Rightarrow> vec \<Rightarrow> vec san_run" where
  "push_back x v =
     andthen (if len v = cap v then vec_regrow (max 1 (2 * cap v)) v else okay v) (\<lambda>v.
     andthen (write_cell (plus_ptr (buf v) (int (len v))) x) (\<lambda>_. okay (v\<lparr>len := Suc (len v)\<rparr>)))"

primrec push_values :: "int list \<Rightarrow> vec \<Rightarrow> vec san_run" where
  "push_values [] v = okay v"
| "push_values (x # xs) v = andthen (push_back x v) (push_values xs)"

definition demo_iterator_invalidation :: "bool \<Rightarrow> unit san_run" where
  "demo_iterator_invalidation TRIGGER_ITER_INVAL =
     andthen (puts ''iterator invalidation (UAF pattern)'') (\<lambda>_.
     andthen (vec_reserve 4 \<lparr>buf = Nullptr, len = 0, cap = 0\<rparr>) (\<lambda>book.
     andthen (push_back 10000 book) (\<lambda>book.
     let ptr = buf book in
     andthen (push_values (map (\<lambda>i. 20000 + 100 * int i) [0..<5]) book) (\<lambda>book.
     andthen
       (if TRIGGER_ITER_INVAL
        then andthen (load_use ptr) (\<lambda>v. puts (''  old ptr: '' @ show2 v @ '' (UAF after realloc!)''))
        else andthen (load_use (buf book)) (\<lambda>v.
             runs [puts (''  book.data()[0]='' @ show1 v @ ''  (accessed safely via fresh pointer)''),
                   puts ''  compile with -DTRIGGER_ITER_INVAL to see ASan report'']))
     (\<lambda>_. dispose (buf book))))))"

definition asan_heap_main :: "(pointer \<Rightarrow> string) \<Rightarrow> bool \<Rightarrow> bool \<Rightarrow> bool \<Rightarrow> bool \<Rightarrow> unit san_run" where
  "asan_heap_main addr TRIGGER_OVERFLOW TRIGGER_UAF TRIGGER_UNDERFLOW TRIGGER_ITER_INVAL =
     runs [puts ''=== ASan heap bugs ==='',
           demo_heap_overflow TRIGGER_OVERFLOW,
           demo_uaf TRIGGER_UAF,
           demo_heap_underflow TRIGGER_UNDERFLOW,
           demo_leak addr,
           demo_iterator_invalidation TRIGGER_ITER_INVAL,
           puts ''=== done (run with -fsanitize=address and -DTRIGGER_* flags) ==='']"

section \<open>02_asan_stack_leak.cpp\<close>

definition demo_stack_overflow :: "bool \<Rightarrow> unit san_run" where
  "demo_stack_overflow TRIGGER_STACK_OVF =
     andthen (puts ''stack buffer overflow'') (\<lambda>_.
     andthen (fresh Stack_Var 8 (replicate 8 None)) (\<lambda>prices.
     andthen (fill_array prices 8 (\<lambda>i. 10000 + 100 * int i)) (\<lambda>_.
     andthen
       (if TRIGGER_STACK_OVF
        then runs [write_cell (plus_ptr prices 8) 99900, puts ''  (ASan should have fired above this line)'']
        else andthen (load_use (plus_ptr prices 7)) (\<lambda>v.
             runs [puts (''  prices[7]='' @ show1 v @ '' (last valid element)''),
                   puts ''  compile with -DTRIGGER_STACK_OVF to see ASan report'']))
     (\<lambda>_. leave_scope prices))))"

text \<open>\<open>fill_dangling\<close> leaves the address of its local in \<open>g_dangling\<close>.\<close>

definition fill_dangling :: "pointer san_run" where
  "fill_dangling = andthen (fresh Stack_Var 8 [Some 10175]) (\<lambda>p. andthen (leave_scope p) (\<lambda>_. okay p))"

definition demo_use_after_scope :: "bool \<Rightarrow> unit san_run" where
  "demo_use_after_scope TRIGGER_USE_AFTER_SCOPE =
     andthen (puts ''use-after-scope'') (\<lambda>_.
     andthen fill_dangling (\<lambda>g_dangling.
     if TRIGGER_USE_AFTER_SCOPE
     then andthen (load_use g_dangling) (\<lambda>v.
          runs [puts (''  g_dangling dereference (UAscope!): '' @ show2 v), puts ''  (ASan should have fired above this line)''])
     else runs [puts ''  pointer would dangle after fill_dangling() returns'',
                puts ''  compile with -DTRIGGER_USE_AFTER_SCOPE to see ASan report'']))"

definition make_dangling_return :: "pointer san_run" where
  "make_dangling_return = andthen (fresh Stack_Var 8 [Some 10250]) (\<lambda>p. andthen (leave_scope p) (\<lambda>_. okay p))"

definition demo_use_after_return :: "unit san_run" where
  "demo_use_after_return =
     andthen (puts ''use-after-return'') (\<lambda>_.
     andthen make_dangling_return (\<lambda>p.
     runs [puts ''  pointer p = &local in make_dangling_return()'',
           puts ''  re-run with ASAN_OPTIONS=detect_stack_use_after_return=1'',
           puts ''  and dereference p to see the ASan report'']))"

definition demo_lsan :: "(pointer \<Rightarrow> string) \<Rightarrow> bool \<Rightarrow> unit san_run" where
  "demo_lsan addr TRIGGER_LEAK =
     andthen (puts ''LeakSanitizer'') (\<lambda>_.
     andthen (fresh Heap_Block 8 (replicate 50 None)) (\<lambda>ticks.
     andthen (fresh Heap_Block 8 (replicate 4 (Some 0))) (\<lambda>book.
     andthen (fill_array ticks 50 (\<lambda>i. 10000 + int i)) (\<lambda>_.
     runs [puts (''  allocated ticks[50] at '' @ addr ticks @ '' (intentionally leaked)''),
           puts (''  allocated book[4]   at '' @ addr book @ '' (freed below - not leaked)''),
           (if TRIGGER_LEAK then okay () else dispose ticks),
           dispose book,
           puts ''  compile with -DTRIGGER_LEAK and -fsanitize=address'',
           puts ''  then run with ASAN_OPTIONS=detect_leaks=1'']))))"

text \<open>The array \<open>g_rates\<close> has static storage_class; its pointer is an argument.\<close>

definition g_rates :: "int option list" where
  "g_rates = [Some 1, Some 2, Some 3, Some 4]"

definition demo_global_overflow :: "pointer \<Rightarrow> bool \<Rightarrow> unit san_run" where
  "demo_global_overflow rates TRIGGER_GLOBAL_OVF =
     andthen (puts ''global buffer overflow'') (\<lambda>_.
     if TRIGGER_GLOBAL_OVF
     then runs [write_cell (plus_ptr rates 4) 5, puts ''  (ASan should have fired above this line)'']
     else andthen (load_use (plus_ptr rates 3)) (\<lambda>v.
          runs [puts (''  g_rates[3]='' @ show2 v @ '' (last valid element)''),
                puts ''  compile with -DTRIGGER_GLOBAL_OVF to see ASan report'']))"

definition asan_stack_main :: "(pointer \<Rightarrow> string) \<Rightarrow> bool \<Rightarrow> bool \<Rightarrow> bool \<Rightarrow> bool \<Rightarrow> unit san_run" where
  "asan_stack_main addr TRIGGER_STACK_OVF TRIGGER_USE_AFTER_SCOPE TRIGGER_LEAK TRIGGER_GLOBAL_OVF =
     andthen (fresh Global_Var 8 g_rates) (\<lambda>rates.
     runs [puts ''=== ASan stack + LSan ==='',
           demo_stack_overflow TRIGGER_STACK_OVF,
           demo_use_after_scope TRIGGER_USE_AFTER_SCOPE,
           demo_use_after_return,
           demo_lsan addr TRIGGER_LEAK,
           demo_global_overflow rates TRIGGER_GLOBAL_OVF,
           puts ''=== done ===''])"

section \<open>05_msan.cpp\<close>

text \<open>A local variable that was never written is \<open>None\<close>; arithmetic on it gives an unwritten result.\<close>

definition add_tainted :: "int option \<Rightarrow> int option \<Rightarrow> int option" where
  "add_tainted a b = (case (a, b) of (Some x, Some y) \<Rightarrow> Some (x + y) | _ \<Rightarrow> None)"

definition demo_uninit_condition :: "bool \<Rightarrow> unit san_run" where
  "demo_uninit_condition TRIGGER_UNINIT_COND =
     andthen (puts ''uninitialised value in condition'') (\<lambda>_.
     let flag = None in
     if TRIGGER_UNINIT_COND
     then andthen (need flag) (\<lambda>f. if 0 < f then puts ''  flag is positive (UB - uninitialised)''
                                       else puts ''  flag is not positive (UB - uninitialised)'')
     else andthen (need (Some 0)) (\<lambda>f.
          runs [if 0 < f then puts ''  flag is positive''
                else puts ''  flag is not positive (safe_flag=0 - properly initialised)'',
                puts ''  compile with -DTRIGGER_UNINIT_COND and -fsanitize=memory'']))"

record msan_order =
  oid :: "int option"
  price :: "int option"
  qty :: "int option"
  side :: "int option"

text \<open>\<open>Order bad;\<close> leaves every field unwritten, \<open>Order good{};\<close> sets them to zero.\<close>

definition order_default :: msan_order where
  "order_default = \<lparr>oid = None, price = None, qty = None, side = None\<rparr>"

definition order_value :: msan_order where
  "order_value = \<lparr>oid = Some 0, price = Some 0, qty = Some 0, side = Some 0\<rparr>"

definition msan_process_order :: "msan_order \<Rightarrow> unit san_run" where
  "msan_process_order x =
     andthen (need (oid x)) (\<lambda>i.
     andthen (need (price x)) (\<lambda>p.
     andthen (need (qty x)) (\<lambda>q.
     andthen (need (side x)) (\<lambda>s.
     puts (''  order id='' @ dec_int i @ '' price='' @ show2 p @ '' qty='' @ dec_int q @ '' side='' @ (if s = 0 then ''buy'' else ''sell''))))))"

definition demo_uninit_struct :: "bool \<Rightarrow> unit san_run" where
  "demo_uninit_struct TRIGGER_UNINIT_STRUCT =
     andthen (puts ''partially uninitialised struct'') (\<lambda>_.
     let bad = order_default\<lparr>oid := Some 42, price := Some 10150, qty := Some 100\<rparr>;
         good = order_value\<lparr>oid := Some 42, price := Some 10150, qty := Some 100, side := Some 1\<rparr>
     in runs [if TRIGGER_UNINIT_STRUCT then msan_process_order bad
              else puts ''  bad.side never set - compile with -DTRIGGER_UNINIT_STRUCT'',
              msan_process_order good])"

text \<open>\<open>malloc\<close> and \<open>calloc\<close> may fail; \<open>calloc\<close> zeroes the block.\<close>

definition c_alloc :: "bool \<Rightarrow> int option \<Rightarrow> nat \<Rightarrow> pointer san_run" where
  "c_alloc granted c n = (if granted then fresh Heap_Block 8 (replicate n c) else okay Nullptr)"

text \<open>\<open>MSAN_UNPOISON\<close> marks the bytes as written; it stores nothing.  Here the loop writes all of them next.\<close>

definition demo_malloc_uninit :: "bool \<Rightarrow> bool \<Rightarrow> bool \<Rightarrow> unit san_run" where
  "demo_malloc_uninit malloc_ok calloc_ok TRIGGER_MALLOC_UNINIT =
     andthen (puts ''malloc vs calloc vs explicit init'') (\<lambda>_.
     andthen (c_alloc malloc_ok None 8) (\<lambda>buf_bad.
     if buf_bad = Nullptr then okay ()
     else
     andthen (c_alloc calloc_ok (Some 0) 8) (\<lambda>buf_good.
     if buf_good = Nullptr then dispose buf_bad
     else
     andthen
       (if TRIGGER_MALLOC_UNINIT
        then andthen (load_use buf_bad) (\<lambda>v. puts (''  buf_bad[0] = '' @ show1 v @ ''  (uninitialised - MSan fires)''))
        else andthen (fill_array buf_bad 8 (\<lambda>i. 10000 + 100 * int i)) (\<lambda>_.
             andthen (load_use buf_bad) (\<lambda>v.
             andthen (puts (''  buf_bad[0]  = '' @ show1 v @ '' (written before read - safe)'')) (\<lambda>_.
             andthen (load_use buf_good) (\<lambda>w.
             puts (''  buf_good[0] = '' @ show1 w @ '' (calloc zero-init - safe)''))))))
     (\<lambda>_. runs [dispose buf_bad, dispose buf_good]))))"

definition demo_taint_propagation :: "unit san_run" where
  "demo_taint_propagation =
     andthen (puts ''uninitialised taint propagation'') (\<lambda>_.
     let a = Some 5; b = None; c = add_tainted a b; b_safe = Some 0; c_safe = add_tainted a b_safe in
     andthen (need c_safe) (\<lambda>v.
     runs [puts (''  c_safe = '' @ dec_int v @ ''  (all values initialised)''),
           puts ''  in real build: 'c = a + b' with b uninitialised taints c'',
           puts ''  MSan fires when c is used in a condition or printed'']))"

definition print_platform_note :: "bool \<Rightarrow> bool \<Rightarrow> unit san_run" where
  "print_platform_note APPLE LINUX =
     andthen (puts ''platform notes'') (\<lambda>_.
     if APPLE
     then runs [puts ''  MSan is NOT supported on macOS.'', puts ''  Alternatives:'',
                puts ''    - valgrind --tool=memcheck (slower but works on macOS)'',
                puts ''    - Use a Linux VM/container for MSan builds'',
                puts ''    - Clang static analyser: clang++ --analyze'']
     else if LINUX
     then runs [puts ''  Linux detected - MSan is available with Clang.'',
                puts ''  Remember: rebuild libc++ and all deps with -fsanitize=memory'',
                puts ''  or use a pre-built MSan sysroot.'']
     else puts ''  MSan: check Clang documentation for platform support.'')"

definition msan_main :: "bool \<Rightarrow> bool \<Rightarrow> bool \<Rightarrow> bool \<Rightarrow> bool \<Rightarrow> bool \<Rightarrow> bool \<Rightarrow> unit san_run" where
  "msan_main APPLE LINUX malloc_ok calloc_ok TRIGGER_UNINIT_COND TRIGGER_UNINIT_STRUCT TRIGGER_MALLOC_UNINIT =
     runs [puts ''=== MemorySanitizer (MSan) - uninitialised reads ==='',
           demo_uninit_condition TRIGGER_UNINIT_COND,
           demo_uninit_struct TRIGGER_UNINIT_STRUCT,
           demo_malloc_uninit malloc_ok calloc_ok TRIGGER_MALLOC_UNINIT,
           demo_taint_propagation,
           print_platform_note APPLE LINUX,
           puts ''=== compile with clang++ -fsanitize=memory (Linux) ==='']"

section \<open>The store only grows, and the dead stay dead\<close>

definition grows :: "san_state \<Rightarrow> san_state \<Rightarrow> bool" where
  "grows m m' \<longleftrightarrow>
     length (store m) \<le> length (store m') \<and>
     (\<forall>b<length (store m). kind (store m' ! b) = kind (store m ! b) \<and> obj_bytes (store m' ! b) = obj_bytes (store m ! b) \<and>
        (live (store m' ! b) \<longrightarrow> live (store m ! b))) \<and>
     (\<exists>ys. out m' = out m @ ys)"

lemma grows_refl [simp]: "grows m m"
  by (simp add: grows_def)

lemma grows_trans:
  assumes "grows l m" and "grows m n"
  shows "grows l n"
  using assms unfolding grows_def by (auto intro: order_trans)

text \<open>
  A checked run: whatever it does, it neither brings an object back to life nor forgets one.  A pointer to an
  object that is dead before such a run is reported after it.
\<close>

locale checked_run =
  fixes r :: "'a san_run"
  assumes run_grows: "grows m (snd (r m))"
begin

lemma dead_stays_dead:
  assumes "b < length (store m)" and "\<not> live (store m ! b)"
  shows "load (Ptr b i) (snd (r m)) = (Inl (if kind (store m ! b) = Heap_Block then Use_After_Free else Use_After_Scope), snd (r m))"
  using assms run_grows [of m] by (auto simp: grows_def load_def locate_def)

lemma output_kept: "\<exists>ys. out (snd (r m)) = out m @ ys"
  using run_grows [of m] by (simp add: grows_def)

end

lemma checked_okay [inv_intros]: "checked_run (okay x)"
  by unfold_locales (simp add: okay_def)

lemma checked_stop [inv_intros]: "checked_run (fault_with e)"
  by unfold_locales (simp add: fault_with_def)

lemma checked_puts [inv_intros]: "checked_run (puts s)"
  by unfold_locales (simp add: puts_def grows_def)

lemma checked_andthen [inv_intros]:
  assumes "checked_run r" and "\<And>x. checked_run (k x)"
  shows "checked_run (andthen r k)"
proof
  fix m
  obtain res m' where r: "r m = (res, m')" by fastforce
  have "grows m m'"
    using checked_run.run_grows [OF assms(1), of m] r by simp
  then show "grows m (snd (andthen r k m))"
    using checked_run.run_grows [OF assms(2)] r by (auto simp: andthen_def split: sum.splits intro: grows_trans)
qed

lemma checked_if [inv_intros]: "checked_run r \<Longrightarrow> checked_run s \<Longrightarrow> checked_run (if c then r else s)"
  by simp

lemma checked_runs_Nil [inv_intros]: "checked_run (runs [])"
  by (simp add: inv_intros)

lemma checked_runs_Cons [inv_intros]: "checked_run r \<Longrightarrow> checked_run (runs rs) \<Longrightarrow> checked_run (runs (r # rs))"
  by (simp add: inv_intros)

lemma checked_runs: "(\<And>r. r \<in> set rs \<Longrightarrow> checked_run r) \<Longrightarrow> checked_run (runs rs)"
  by (induction rs) (auto intro: inv_intros)

lemma grows_update:
  assumes "kind ob = kind (store m ! b)" and "obj_bytes ob = obj_bytes (store m ! b)" and "live ob \<Longrightarrow> live (store m ! b)"
  shows "grows m (m\<lparr>store := (store m)[b := ob]\<rparr>)"
proof -
  have upd: "(store m)[b := ob] ! b' = (if b' = b then ob else store m ! b')" if "b' < length (store m)" for b'
    using that by auto
  show ?thesis
    using assms by (auto simp: grows_def upd split: if_splits)
qed

lemma grows_kill [simp]: "grows m (kill b m)"
  unfolding kill_def by (rule grows_update) (simp_all add: obj_bytes_def)

lemma checked_load [inv_intros]: "checked_run (load p)"
  by unfold_locales (auto simp: load_def split: sum.split)

lemma checked_need [inv_intros]: "checked_run (need v)"
  by (auto simp: need_def split: option.split intro: inv_intros)

lemma checked_load_use [inv_intros]: "checked_run (load_use p)"
  unfolding load_use_def by (intro inv_intros)

lemma checked_write_cell [inv_intros]: "checked_run (write_cell p v)"
  by unfold_locales (auto simp: write_cell_def obj_bytes_def split: sum.split intro!: grows_update)

lemma checked_fresh [inv_intros]: "checked_run (fresh k sz cs)"
  by unfold_locales (auto simp: fresh_def grows_def nth_append)

lemma checked_dispose [inv_intros]: "checked_run (dispose p)"
  by unfold_locales (auto simp: dispose_def split: pointer.split)

lemma checked_leave_scope [inv_intros]: "checked_run (leave_scope p)"
  by unfold_locales (auto simp: leave_scope_def split: pointer.split)

lemma checked_fill_array [inv_intros]: "checked_run (fill_array p n f)"
  unfolding fill_array_def by (rule checked_runs) (auto intro: inv_intros)

lemma checked_vec_regrow [inv_intros]: "checked_run (vec_regrow n v)"
  unfolding vec_regrow_def by (intro inv_intros checked_runs) (auto intro: inv_intros)

lemma checked_push_back [inv_intros]: "checked_run (push_back x v)"
  by (simp add: push_back_def inv_intros)

lemma checked_push_all [inv_intros]: "checked_run (push_values xs v)"
  by (induction xs arbitrary: v) (simp_all add: inv_intros)

lemmas heap_demo_defs = demo_heap_overflow_def demo_uaf_def demo_heap_underflow_def demo_leak_def demo_iterator_invalidation_def
lemmas stack_demo_defs = demo_stack_overflow_def demo_use_after_scope_def demo_use_after_return_def demo_lsan_def
  demo_global_overflow_def fill_dangling_def make_dangling_return_def
lemmas msan_demo_defs = demo_uninit_condition_def demo_uninit_struct_def msan_process_order_def demo_malloc_uninit_def c_alloc_def
  demo_taint_propagation_def print_platform_note_def

interpretation heap_prog: checked_run "asan_heap_main addr t1 t2 t3 t4" for addr t1 t2 t3 t4
  unfolding asan_heap_main_def heap_demo_defs vec_reserve_def Let_def by (intro inv_intros)

interpretation stack_program: checked_run "asan_stack_main addr t1 t2 t3 t4" for addr t1 t2 t3 t4
  unfolding asan_stack_main_def stack_demo_defs by (intro inv_intros)

interpretation msan_program: checked_run "msan_main a l mo co t1 t2 t3" for a l mo co t1 t2 t3
  unfolding msan_main_def msan_demo_defs Let_def by (intro inv_intros)

section \<open>Vectors and iterator invalidation\<close>

definition vec_holds :: "vec \<Rightarrow> int list \<Rightarrow> san_state \<Rightarrow> bool" where
  "vec_holds v xs m \<longleftrightarrow>
     (case buf v of
        Nullptr \<Rightarrow> cap v = 0 \<and> len v = 0 \<and> xs = []
      | Ptr b i \<Rightarrow> i = 0 \<and> b < length (store m) \<and> kind (store m ! b) = Heap_Block \<and> live (store m ! b) \<and>
          length (cells (store m ! b)) = cap v \<and> len v = length xs \<and> len v \<le> cap v \<and> elem (store m ! b) = 8 \<and>
          take (len v) (cells (store m ! b)) = map Some xs)"

text \<open>The copy loop of a reallocation, and the fill loops of the programs, run to their end on a fresh block.\<close>

lemma write_last:
  "i < length cs \<Longrightarrow>
   write_cell (Ptr (length st) (int i)) v \<lparr>store = st @ \<lparr>kind = k, live = True, elem = sz, cells = cs\<rparr> # st', out = ys\<rparr>
   = (Inr (), \<lparr>store = st @ \<lparr>kind = k, live = True, elem = sz, cells = cs[i := Some v]\<rparr> # st', out = ys\<rparr>)"
  by (simp add: write_cell_def locate_def)

lemma fill_last:
  "n \<le> length cs \<Longrightarrow>
   fill_array (Ptr (length st) 0) n f \<lparr>store = st @ \<lparr>kind = k, live = True, elem = sz, cells = cs\<rparr> # st', out = ys\<rparr>
   = (Inr (), \<lparr>store = st @ \<lparr>kind = k, live = True, elem = sz, cells = map (\<lambda>i. Some (f i)) [0..<n] @ drop n cs\<rparr> # st', out = ys\<rparr>)"
proof (induction n)
  case (Suc n)
  then have "drop n cs = cs ! n # drop (Suc n) cs"
    by (simp add: Cons_nth_drop_Suc)
  with Suc show ?case
    by (simp add: fill_array_def runs_append andthen_def okay_def write_last list_update_append)
qed (simp add: fill_array_def okay_def)

lemma copy_last:
  assumes "kind (st ! b) = Heap_Block" and "live (st ! b)" and "b < length st"
    and "take n (cells (st ! b)) = map Some xs" and "length xs = n" and "n \<le> length cs"
  shows "j \<le> n \<Longrightarrow>
    runs (map (\<lambda>i. andthen (load_use (plus_ptr (Ptr b 0) (int i))) (write_cell (plus_ptr (Ptr (length st) 0) (int i)))) [0..<j])
      \<lparr>store = st @ [\<lparr>kind = k, live = True, elem = sz, cells = cs\<rparr>], out = ys\<rparr>
    = (Inr (), \<lparr>store = st @ [\<lparr>kind = k, live = True, elem = sz, cells = map Some (take j xs) @ drop j cs\<rparr>], out = ys\<rparr>)"
proof (induction j)
  case (Suc j)
  from Suc.prems assms have len: "j < length xs" "n \<le> length (cells (st ! b))"
    by (auto simp: min_def dest!: arg_cong [where f = length] split: if_splits)
  have "cells (st ! b) ! j = take n (cells (st ! b)) ! j"
    using Suc.prems by simp
  then have cell: "cells (st ! b) ! j = Some (xs ! j)"
    using assms(4) len by simp
  have "drop j cs = cs ! j # drop (Suc j) cs"
    using Suc.prems assms(6) by (simp add: Cons_nth_drop_Suc)
  with Suc assms len cell show ?case
    by (simp add: runs_append andthen_def okay_def write_last list_update_append load_use_def load_def locate_def need_def
        nth_append take_Suc_conv_app_nth)
qed (simp add: okay_def)

lemma vec_regrow_run:
  assumes "vec_holds v xs m" and "len v \<le> n"
  shows "\<exists>v' m'. vec_regrow n v m = (Inr v', m') \<and> cap v' = n \<and> vec_holds v' xs m' \<and>
    (\<forall>b i j. buf v = Ptr b i \<longrightarrow> load (Ptr b j) m' = (Inl Use_After_Free, m')) \<and> buf v' \<noteq> Nullptr"
proof (cases "buf v")
  case Nullptr
  with assms show ?thesis
    by (auto simp: vec_holds_def vec_regrow_def andthen_def fresh_def okay_def dispose_def)
next
  case (Ptr b i)
  with assms have b: "i = 0" "b < length (store m)" "kind (store m ! b) = Heap_Block" "live (store m ! b)" "len v = length xs"
      "take (len v) (cells (store m ! b)) = map Some xs"
    by (auto simp: vec_holds_def)
  obtain st ys where m: "m = \<lparr>store = st, out = ys\<rparr>" by (cases m)
  define new where "new = \<lparr>kind = Heap_Block, live = True, elem = 8, cells = map Some xs @ replicate (n - len v) None\<rparr>"
  define m' where "m' = kill b \<lparr>store = st @ [new], out = ys\<rparr>"
  have "runs (map (\<lambda>i. andthen (load_use (plus_ptr (Ptr b 0) (int i))) (write_cell (plus_ptr (Ptr (length st) 0) (int i)))) [0..<len v])
      \<lparr>store = st @ [\<lparr>kind = Heap_Block, live = True, elem = 8, cells = replicate n None\<rparr>], out = ys\<rparr>
      = (Inr (), \<lparr>store = st @ [new], out = ys\<rparr>)"
  proof -
    have old: "kind (st ! b) = Heap_Block" "live (st ! b)" "b < length st" "take (len v) (cells (st ! b)) = map Some xs"
      using b m by auto
    have "len v \<le> length (replicate n (None :: int option))" and all: "take (len v) xs = xs"
      using assms(2) b(5) by simp_all
    from copy_last [OF old b(5) [symmetric] this(1) order_refl, of Heap_Block 8 ys] show ?thesis
      unfolding new_def drop_replicate all .
  qed
  then have "vec_regrow n v m = (Inr \<lparr>buf = Ptr (length st) 0, len = len v, cap = n\<rparr>, m')"
    using b Ptr m by (simp add: vec_regrow_def andthen_def fresh_def okay_def dispose_def m'_def nth_append)
  moreover have "store m' ! length st = new" "length (store m') = Suc (length st)" "\<not> live (store m' ! b)"
      "kind (store m' ! b) = Heap_Block" "b < Suc (length st)"
    using b(2-4) m by (simp_all add: m'_def kill_def nth_append list_update_append)
  ultimately show ?thesis
    using Ptr b(5) assms(2) by (auto simp: vec_holds_def new_def load_def locate_def)
qed

lemma push_back_room:
  assumes "vec_holds v xs m" and "len v < cap v"
  shows "\<exists>m'. push_back x v m = (Inr (v\<lparr>len := Suc (len v)\<rparr>), m') \<and> vec_holds (v\<lparr>len := Suc (len v)\<rparr>) (xs @ [x]) m' \<and>
    (\<forall>b. b < length (store m) \<longrightarrow> live (store m' ! b) = live (store m ! b) \<and> kind (store m' ! b) = kind (store m ! b)) \<and>
    length (store m') = length (store m)"
proof (cases "buf v")
  case (Ptr b i)
  have upd: "\<And>c ob. c < length (store m) \<Longrightarrow> (store m)[b := ob] ! c = (if c = b then ob else store m ! c)"
    by simp
  from assms(1) Ptr have v: "len v = length xs" "take (length xs) (cells (store m ! b)) = map Some xs"
    by (auto simp: vec_holds_def)
  have "take (Suc (length xs)) ((cells (store m ! b))[length xs := Some x]) = map Some (xs @ [x])"
    using assms Ptr v by (simp add: vec_holds_def take_Suc_conv_app_nth)
  with assms Ptr v show ?thesis
    by (auto simp: vec_holds_def push_back_def andthen_def okay_def write_cell_def locate_def upd)
qed (use assms in \<open>auto simp: vec_holds_def\<close>)

lemma push_back_full:
  assumes "vec_holds v xs m" and "len v = cap v"
  shows "\<exists>v' m'. push_back x v m = (Inr v', m') \<and> vec_holds v' (xs @ [x]) m' \<and> cap v' = max 1 (2 * cap v) \<and>
    (\<forall>b i j. buf v = Ptr b i \<longrightarrow> load (Ptr b j) m' = (Inl Use_After_Free, m'))"
proof -
  obtain w m1 where grow: "vec_regrow (max 1 (2 * cap v)) v m = (Inr w, m1)" "cap w = max 1 (2 * cap v)" "vec_holds w xs m1"
      "\<forall>b i j. buf v = Ptr b i \<longrightarrow> load (Ptr b j) m1 = (Inl Use_After_Free, m1)" "buf w \<noteq> Nullptr"
    using vec_regrow_run [OF assms(1), of "max 1 (2 * cap v)"] assms(2) le_max_iff_disj [of "cap v" 1 "2 * cap v"] by auto
  then have "len w = length xs" "len v = length xs"
    using assms(1) by (auto simp: vec_holds_def split: pointer.splits)
  with grow assms(2) have "len w < cap w" by simp
  from push_back_room [OF grow(3) this, of x] obtain m2 where
      push: "push_back x w m1 = (Inr (w\<lparr>len := Suc (len w)\<rparr>), m2)" "vec_holds (w\<lparr>len := Suc (len w)\<rparr>) (xs @ [x]) m2"
        "\<forall>b. b < length (store m1) \<longrightarrow> live (store m2 ! b) = live (store m1 ! b) \<and> kind (store m2 ! b) = kind (store m1 ! b)"
        "length (store m2) = length (store m1)"
    by blast
  have "push_back x v m = (Inr (w\<lparr>len := Suc (len w)\<rparr>), m2)"
    using push(1) grow(1) assms(2) \<open>len w < cap w\<close> by (simp add: push_back_def andthen_def okay_def)
  moreover have "load (Ptr b j) m2 = (Inl Use_After_Free, m2)" if "buf v = Ptr b i" for b i j
  proof -
    from grow(4) that have "load (Ptr b j) m1 = (Inl Use_After_Free, m1)" by blast
    then have "b < length (store m1)" "\<not> live (store m1 ! b)" "kind (store m1 ! b) = Heap_Block"
      by (auto simp: load_def locate_def split: if_splits)
    with push(3, 4) show ?thesis by (simp add: load_def locate_def)
  qed
  ultimately show ?thesis
    using push(2) grow(2) by fastforce
qed

section \<open>What each program reports\<close>

lemma fst_puts [simp]: "fst (puts s m) = Inr ()" and leaked_puts [simp]: "leaked (snd (puts s m)) = leaked m"
  by (simp_all add: puts_def leaked_def)

lemma leaked_append: "leaked (m\<lparr>store := st @ st'\<rparr>) = leaked (m\<lparr>store := st\<rparr>) + leaked (m\<lparr>store := st'\<rparr>)"
  by (simp add: leaked_def)

lemmas san_steps = andthen_def okay_def fault_with_def puts_def fresh_def load_use_def load_def need_def locate_def write_cell_def
  dispose_def kill_def leave_scope_def c_alloc_def

lemma demo_heap_overflow_run [run_simps]:
  "fst (demo_heap_overflow t m) = (if t then Inl (Out_Of_Bounds Heap_Block) else Inr ())"
  "leaked (snd (demo_heap_overflow False m)) = leaked m"
  by (cases m, simp add: demo_heap_overflow_def san_steps fill_last leaked_def nth_append list_update_append)+

lemma demo_uaf_run [run_simps]:
  "fst (demo_uaf t m) = (if t then Inl Use_After_Free else Inr ())"
  "leaked (snd (demo_uaf False m)) = leaked m"
  by (simp_all add: demo_uaf_def san_steps leaked_def nth_append list_update_append)

lemma demo_heap_underflow_run [run_simps]:
  "fst (demo_heap_underflow t m) = (if t then Inl (Out_Of_Bounds Heap_Block) else Inr ())"
  "leaked (snd (demo_heap_underflow False m)) = leaked m"
  by (simp_all add: demo_heap_underflow_def san_steps leaked_def nth_append list_update_append)

lemma demo_leak_run [run_simps]: "fst (demo_leak addr m) = Inr ()" "leaked (snd (demo_leak addr m)) = leaked m + 80"
  by (cases m, simp add: demo_leak_def san_steps fill_last leaked_def obj_bytes_def)+

lemma demo_stack_overflow_run [run_simps]:
  "fst (demo_stack_overflow t m) = (if t then Inl (Out_Of_Bounds Stack_Var) else Inr ())"
  "leaked (snd (demo_stack_overflow False m)) = leaked m"
  by (cases m, simp add: demo_stack_overflow_def san_steps fill_last leaked_def nth_append list_update_append)+

lemma demo_use_after_scope_run [run_simps]:
  "fst (demo_use_after_scope t m) = (if t then Inl Use_After_Scope else Inr ())"
  "leaked (snd (demo_use_after_scope False m)) = leaked m"
  by (simp_all add: demo_use_after_scope_def fill_dangling_def san_steps leaked_def nth_append list_update_append)

lemma demo_use_after_return_run [run_simps]:
  "fst (demo_use_after_return m) = Inr ()" "leaked (snd (demo_use_after_return m)) = leaked m"
  by (simp_all add: demo_use_after_return_def make_dangling_return_def san_steps leaked_def nth_append list_update_append)

lemma demo_global_overflow_run:
  assumes "b < length (store m)" and "store m ! b = \<lparr>kind = Global_Var, live = True, elem = 8, cells = g_rates\<rparr>"
  shows "fst (demo_global_overflow (Ptr b 0) t m) = (if t then Inl (Out_Of_Bounds Global_Var) else Inr ())"
    and "leaked (snd (demo_global_overflow (Ptr b 0) False m)) = leaked m"
  using assms by (simp_all add: demo_global_overflow_def san_steps leaked_def g_rates_def)

lemma demo_lsan_run [run_simps]:
  "fst (demo_lsan addr t m) = Inr ()"
  "leaked (snd (demo_lsan addr t m)) = leaked m + (if t then 400 else 0)"
  by (cases m, simp add: demo_lsan_def san_steps fill_last leaked_def obj_bytes_def nth_append list_update_append)+

text \<open>The programs leave the objects that existed before them alone.\<close>

definition framed :: "san_state \<Rightarrow> san_state \<Rightarrow> bool" where
  "framed m m' \<longleftrightarrow> (\<exists>zs. store m' = store m @ zs)"

lemma framed_trans: "framed l m \<Longrightarrow> framed m n \<Longrightarrow> framed l n"
  by (auto simp: framed_def)

lemma stack_demos_framed:
  "framed m (snd (puts s m))" "framed m (snd (demo_stack_overflow False m))" "framed m (snd (demo_use_after_scope False m))"
  "framed m (snd (demo_use_after_return m))" "framed m (snd (demo_lsan addr t m))"
  by (cases m, simp add: framed_def stack_demo_defs san_steps fill_last nth_append list_update_append)+

lemma demo_iterator_invalidation_run [run_simps]:
  "fst (demo_iterator_invalidation t m) = (if t then Inl Use_After_Free else Inr ())"
  "leaked (snd (demo_iterator_invalidation False m)) = leaked m"
  by (simp_all add: demo_iterator_invalidation_def vec_reserve_def push_back_def vec_regrow_def san_steps upt_rec
      eval_nat_numeral leaked_def nth_append list_update_append)

lemma stack_main_run:
  "fst (asan_stack_main addr t1 t2 t3 t4 m) =
     (if t1 then Inl (Out_Of_Bounds Stack_Var) else if t2 then Inl Use_After_Scope
      else if t4 then Inl (Out_Of_Bounds Global_Var) else Inr ())"
  "leaked (snd (asan_stack_main addr False False t3 False m)) = leaked m + (if t3 then 400 else 0)"
proof -
  define g where "g = \<lparr>kind = Global_Var, live = True, elem = 8, cells = g_rates\<rparr>"
  define m0 where "m0 = m\<lparr>store := store m @ [g]\<rparr>"
  define m1 where "m1 = snd (puts ''=== ASan stack + LSan ==='' m0)"
  define m2 where "m2 = snd (demo_stack_overflow False m1)"
  define m3 where "m3 = snd (demo_use_after_scope False m2)"
  define m4 where "m4 = snd (demo_use_after_return m3)"
  define m5 where "m5 = snd (demo_lsan addr t3 m4)"
  have start: "fresh Global_Var 8 g_rates m = (Inr (Ptr (length (store m)) 0), m0)"
    by (simp add: fresh_def m0_def g_def)
  have "framed m0 m1" "framed m1 m2" "framed m2 m3" "framed m3 m4" "framed m4 m5"
    unfolding m5_def m4_def m3_def m2_def m1_def by (rule stack_demos_framed)+
  then have "framed m0 m5"
    by (auto simp: framed_def)
  then have glob: "length (store m) < length (store m5)" "store m5 ! length (store m) = \<lparr>kind = Global_Var, live = True, elem = 8, cells = g_rates\<rparr>"
    by (auto simp: framed_def m0_def g_def nth_append)
  have leak: "leaked m5 = leaked m + (if t3 then 400 else 0)"
    by (simp add: m5_def m4_def m3_def m2_def m1_def m0_def run_simps leaked_append) (simp add: leaked_def g_def)
  show "fst (asan_stack_main addr t1 t2 t3 t4 m) =
     (if t1 then Inl (Out_Of_Bounds Stack_Var) else if t2 then Inl Use_After_Scope
      else if t4 then Inl (Out_Of_Bounds Global_Var) else Inr ())"
    using demo_global_overflow_run(1) [OF glob, of t4]
    by (cases t1; cases t2) (simp_all add: asan_stack_main_def andthen_def [of "fresh _ _ _"] start fst_runs_Cons run_simps runs_Nil
        flip: m1_def m2_def m3_def m4_def m5_def del: runs.simps)
  show "leaked (snd (asan_stack_main addr False False t3 False m)) = leaked m + (if t3 then 400 else 0)"
    using demo_global_overflow_run [OF glob] leak
    by (simp add: asan_stack_main_def andthen_def [of "fresh _ _ _"] start snd_runs_Cons run_simps runs_Nil
        flip: m1_def m2_def m3_def m4_def m5_def del: runs.simps)
qed

lemma msan_process_order_run:
  "msan_process_order x m =
     (case (oid x, price x, qty x, side x) of
        (Some i, Some p, Some q, Some s) \<Rightarrow>
          puts (''  order id='' @ dec_int i @ '' price='' @ show2 p @ '' qty='' @ dec_int q @ '' side='' @ (if s = 0 then ''buy'' else ''sell'')) m
      | _ \<Rightarrow> (Inl Uninit_Use, m))"
  by (auto simp: msan_process_order_def andthen_def need_def okay_def fault_with_def split: option.split)

lemma demo_uninit_condition_run [run_simps]:
  "fst (demo_uninit_condition t m) = (if t then Inl Uninit_Use else Inr ())"
  "leaked (snd (demo_uninit_condition t m)) = leaked m"
  by (simp_all add: demo_uninit_condition_def san_steps leaked_def)

lemma demo_uninit_struct_run [run_simps]:
  "fst (demo_uninit_struct t m) = (if t then Inl Uninit_Use else Inr ())"
  "leaked (snd (demo_uninit_struct t m)) = leaked m"
  by (simp_all add: demo_uninit_struct_def msan_process_order_run order_default_def order_value_def Let_def san_steps leaked_def)

lemma demo_malloc_uninit_run [run_simps]:
  "fst (demo_malloc_uninit mo co t m) = (if mo \<and> co \<and> t then Inl Uninit_Use else Inr ())"
  "leaked (snd (demo_malloc_uninit mo co False m)) = leaked m"
  by (cases m; cases mo; cases co;
      simp add: demo_malloc_uninit_def san_steps fill_last leaked_def nth_append list_update_append)+

lemma demo_taint_propagation_run [run_simps]:
  "fst (demo_taint_propagation m) = Inr ()" "leaked (snd (demo_taint_propagation m)) = leaked m"
  by (simp_all add: demo_taint_propagation_def add_tainted_def Let_def san_steps leaked_def)

lemma print_platform_note_run [run_simps]:
  "fst (print_platform_note a l m) = Inr ()" "leaked (snd (print_platform_note a l m)) = leaked m"
  by (simp_all add: print_platform_note_def san_steps leaked_def)

section \<open>The properties\<close>

text \<open>
  C25: The sanitizer programs, from any state of the store.  Of the heap program the first macro that is set decides
  the report: a write past or before a block is a bounds error, a read through a freed pointer or through one that a
  \<open>push_back\<close> invalidated is a use after free; with no macro set it ends normally and leaves exactly the 80 bytes of
  \<open>demo_leak\<close> behind.  The stack program reports an overflow of the stack array, the use of a local after its
  scope, an overflow of the global array, in this order, and leaves 400 bytes exactly when \<open>TRIGGER_LEAK\<close> is
  set.  The third program reports an unwritten value exactly when one is used, whichever allocations fail, and with no
  macro set it frees all it allocated.
\<close>

theorem sanitizer_reports:
  "fst (asan_heap_main addr t1 t2 t3 t4 m) =
     (if t1 then Inl (Out_Of_Bounds Heap_Block) else if t2 then Inl Use_After_Free
      else if t3 then Inl (Out_Of_Bounds Heap_Block) else if t4 then Inl Use_After_Free else Inr ()) \<and>
   leaked (snd (asan_heap_main addr False False False False m)) = leaked m + 80 \<and>
   fst (asan_stack_main addr t1 t2 t3 t4 m) =
     (if t1 then Inl (Out_Of_Bounds Stack_Var) else if t2 then Inl Use_After_Scope
      else if t4 then Inl (Out_Of_Bounds Global_Var) else Inr ()) \<and>
   leaked (snd (asan_stack_main addr False False t3 False m)) = leaked m + (if t3 then 400 else 0) \<and>
   fst (msan_main apple linux mo co t1 t2 t3 m) = (if t1 \<or> t2 \<or> mo \<and> co \<and> t3 then Inl Uninit_Use else Inr ()) \<and>
   leaked (snd (msan_main apple linux mo co False False False m)) = leaked m"
  by (intro conjI stack_main_run)
    (simp_all add: asan_heap_main_def msan_main_def fst_runs_Cons snd_runs_Cons runs_Nil run_simps del: runs.simps)

text \<open>
  Dangling pointers are always reported.  An object that is dead before one of the three programs runs, whatever
  macros are set and whether or not the program is stopped, cannot be read afterwards: the access is a use after free for
  a heap block and a use after scope otherwise.  \<open>push_back\<close> on a vector that holds \<open>xs\<close> returns, the vector then holds
  \<open>xs @ [x]\<close>, and when it was full every pointer into the old buffer is reported.
\<close>

theorem dangling_reported:
  assumes "b < length (store m)" and "\<not> live (store m ! b)" and "vec_holds v xs m"
  shows "fst (load (Ptr b i) (snd (asan_heap_main addr t1 t2 t3 t4 m))) =
      Inl (if kind (store m ! b) = Heap_Block then Use_After_Free else Use_After_Scope) \<and>
    fst (load (Ptr b i) (snd (asan_stack_main addr t1 t2 t3 t4 m))) =
      Inl (if kind (store m ! b) = Heap_Block then Use_After_Free else Use_After_Scope) \<and>
    fst (load (Ptr b i) (snd (msan_main apple linux mo co t1 t2 t3 m))) =
      Inl (if kind (store m ! b) = Heap_Block then Use_After_Free else Use_After_Scope) \<and>
    (\<exists>v' m'. push_back x v m = (Inr v', m') \<and> vec_holds v' (xs @ [x]) m' \<and>
       (len v = cap v \<longrightarrow> (\<forall>c j k. buf v = Ptr c j \<longrightarrow> fst (load (Ptr c k) m') = Inl Use_After_Free)))"
proof (intro conjI)
  have "len v \<le> cap v"
    using assms(3) by (auto simp: vec_holds_def split: pointer.splits)
  then consider "len v = cap v" | "len v < cap v" by linarith
  then show "\<exists>v' m'. push_back x v m = (Inr v', m') \<and> vec_holds v' (xs @ [x]) m' \<and>
       (len v = cap v \<longrightarrow> (\<forall>c j k. buf v = Ptr c j \<longrightarrow> fst (load (Ptr c k) m') = Inl Use_After_Free))"
  proof cases
    case 1
    from push_back_full [OF assms(3) this, of x] show ?thesis by fastforce
  next
    case 2
    from push_back_room [OF assms(3) this, of x] 2 show ?thesis by fastforce
  qed
qed (simp_all add: heap_prog.dead_stays_dead stack_program.dead_stays_dead msan_program.dead_stays_dead assms(1, 2))

theorem dangling_reported_witness:
  "let m = \<lparr>store = [\<lparr>kind = Heap_Block, live = False, elem = 8, cells = [Some 1]\<rparr>,
                     \<lparr>kind = Heap_Block, live = True, elem = 8, cells = [Some 7]\<rparr>], out = []\<rparr>
   in fst (load (Ptr 0 0) (snd (asan_heap_main (\<lambda>_. []) False True False False m))) = Inl Use_After_Free \<and>
      (\<exists>v' m'. push_back 8 \<lparr>buf = Ptr 1 0, len = 1, cap = 1\<rparr> m = (Inr v', m') \<and> fst (load (Ptr 1 0) m') = Inl Use_After_Free)"
proof -
  define m where "m = \<lparr>store = [\<lparr>kind = Heap_Block, live = False, elem = 8, cells = [Some 1]\<rparr>,
    \<lparr>kind = Heap_Block, live = True, elem = 8, cells = [Some 7]\<rparr>], out = []\<rparr>"
  have "0 < length (store m)" "\<not> live (store m ! 0)" "vec_holds \<lparr>buf = Ptr 1 0, len = 1, cap = 1\<rparr> [7] m"
    by (simp_all add: m_def vec_holds_def)
  from dangling_reported [OF this, of 0 "\<lambda>_. []" False True False False False False False False 8]
  have "fst (load (Ptr 0 0) (snd (asan_heap_main (\<lambda>_. []) False True False False m))) = Inl Use_After_Free"
    and "\<exists>v' m'. push_back 8 \<lparr>buf = Ptr 1 0, len = 1, cap = 1\<rparr> m = (Inr v', m') \<and> fst (load (Ptr 1 0) m') = Inl Use_After_Free"
    by (auto simp: m_def)
  then show ?thesis
    by (simp only: m_def Let_def)
qed

end
