(* ===== verification/Checked_Arith.thy ===== *)
theory Checked_Arith
  imports Feeds "HOL-Library.Signed_Division"
begin

text \<open>
  The operations of \<^verbatim>\<open>build_tooling/03_ubsan.cpp\<close> that the language leaves undefined on some operands, and the small
  programs of \<^verbatim>\<open>06_compiler_warnings.cpp\<close>, \<^verbatim>\<open>07_clang_tidy.cpp\<close> and \<^verbatim>\<open>08_build_modes.cpp\<close>.  An \<^verbatim>\<open>int\<close> is a 32-bit
  word read as a signed number; an operation whose result is undefined gives the report instead of a value.
  The state of a program is what it has printed; headings are printed without their box-drawing dashes, and a long
  dash in a message is written \<open>-\<close>.
\<close>

section \<open>Operations that may be undefined\<close>

datatype ub_report =
    Signed_Overflow
  | Null_Load
  | Shift_Exponent int
  | Division_By_Zero
  | Index_Out_Of_Bounds int

type_synonym int32 = "32 word"
type_synonym 'a prog = "(ub_report, console, 'a) exec"

definition INT_MAX :: int32 where
  "INT_MAX = word_of_int (2 ^ 31 - 1)"

definition INT_MIN :: int32 where
  "INT_MIN = word_of_int (- (2 ^ 31))"

definition representable :: "int \<Rightarrow> bool" where
  "representable i \<longleftrightarrow> - (2 ^ 31) \<le> i \<and> i < 2 ^ 31"

definition say_line :: "string \<Rightarrow> unit prog" where
  "say_line s ys = (Inr (), ys @ [s])"

definition add_int :: "int32 \<Rightarrow> int32 \<Rightarrow> int32 prog" where
  "add_int a b = (if representable (sint a + sint b) then okay (a + b) else fault_with Signed_Overflow)"

text \<open>\<^verbatim>\<open>__builtin_add_overflow(a, b, &r)\<close>: whether the sum overflows, and the wrapped sum.\<close>

definition builtin_add_overflow :: "int32 \<Rightarrow> int32 \<Rightarrow> bool \<times> int32" where
  "builtin_add_overflow a b = (sint (a + b) \<noteq> sint a + sint b, a + b)"

definition shl_uint :: "uint32 \<Rightarrow> int32 \<Rightarrow> uint32 prog" where
  "shl_uint a s = (if 0 \<le> sint s \<and> sint s < 32 then okay (push_bit (nat (sint s)) a) else fault_with (Shift_Exponent (sint s)))"

text \<open>The guard of the last part of \<open>demo_shift_ub\<close>: \<^verbatim>\<open>n < static_cast<int>(sizeof(unsigned int) * 8)\<close>.\<close>

definition shift_guard :: "int32 \<Rightarrow> bool" where
  "shift_guard n \<longleftrightarrow> sint n < 32"

definition div_int :: "int32 \<Rightarrow> int32 \<Rightarrow> int32 prog" where
  "div_int a b =
     (if b = 0 then fault_with Division_By_Zero
      else if a = INT_MIN \<and> b = - 1 then fault_with Signed_Overflow
      else okay (word_of_int (sint a sdiv sint b)))"

definition index_int :: "int32 list \<Rightarrow> int32 \<Rightarrow> int32 prog" where
  "index_int arr i = (if 0 \<le> sint i \<and> sint i < int (length arr) then okay (arr ! nat (sint i)) else fault_with (Index_Out_Of_Bounds (sint i)))"

definition deref_ptr :: "'a option \<Rightarrow> 'a prog" where
  "deref_ptr p = (case p of None \<Rightarrow> fault_with Null_Load | Some v \<Rightarrow> okay v)"

text \<open>\<open>memcpy\<close> of the eight bytes of a \<open>double\<close> to and from any position of a byte buffer.\<close>

definition memcpy_to :: "byte list \<Rightarrow> nat \<Rightarrow> 64 word \<Rightarrow> byte list" where
  "memcpy_to buf pos v = take pos buf @ le64 v @ drop (pos + 8) buf"

definition memcpy_from :: "byte list \<Rightarrow> nat \<Rightarrow> 64 word" where
  "memcpy_from buf pos = rd64 (take 8 (drop pos buf))"

section \<open>03_ubsan.cpp\<close>

definition demo_signed_overflow :: "unit prog" where
  "demo_signed_overflow =
     andthen (say_line ''signed integer overflow'') (\<lambda>_.
     let a = INT_MAX in
     andthen (say_line (''  INT_MAX = '' @ dec_int (sint a))) (\<lambda>_.
     andthen (add_int a 1) (\<lambda>b.
     runs [say_line (''  INT_MAX + 1 = '' @ dec_int (sint b) @ ''  (UB - UBSan flags this)''),
           say_line ''  Fix: use unsigned arithmetic, or __builtin_add_overflow()'',
           if fst (builtin_add_overflow a 1) then say_line ''  __builtin_add_overflow correctly detected overflow'' else okay ()])))"

text \<open>Prices in hundredths.\<close>

definition maybe_find_price :: "bool \<Rightarrow> int option" where
  "maybe_find_price found = (if found then Some 10000 else None)"

text \<open>The address that \<open>%p\<close> prints is an argument.\<close>

definition demo_null_deref :: "(int option \<Rightarrow> string) \<Rightarrow> unit prog" where
  "demo_null_deref addr =
     andthen (say_line ''null pointer dereference'') (\<lambda>_.
     let p = maybe_find_price False in
     runs [say_line (''  p = '' @ addr p),
           if p \<noteq> None then andthen (deref_ptr p) (\<lambda>v. say_line (''  price = '' @ dec_fixed 2 v))
           else say_line ''  price not found - null pointer not dereferenced (safe)'',
           say_line ''  to trigger: remove the null check and dereference p''])"

text \<open>\<open>%.1f\<close> of a bit pattern is an argument; the pattern of 42.5 is \<open>0x4045400000000000\<close>.\<close>

definition demo_misaligned :: "(64 word \<Rightarrow> string) \<Rightarrow> unit prog" where
  "demo_misaligned fmt =
     andthen (say_line ''misaligned memory access'') (\<lambda>_.
     let buf = replicate 16 0; raw = 1; value = 0x4045400000000000; buf = memcpy_to buf raw value; loaded = memcpy_from buf raw in
     runs [say_line (''  memcpy round-trip: '' @ fmt loaded @ '' (safe - no alignment UB)''),
           say_line ''  reinterpret_cast<double*>(misaligned_ptr) is UB - use memcpy''])"

text \<open>\<open>%X\<close> and \<open>%08X\<close>.\<close>

definition hex_digit :: "nat \<Rightarrow> char" where
  "hex_digit d = (if d < 10 then digit_char d else char_of (55 + d))"

definition hex8 :: "32 word \<Rightarrow> string" where
  "hex8 w = map (\<lambda>k. hex_digit (unat (drop_bit (4 * k) w AND 15))) (rev [0..<8])"

definition hex_short :: "32 word \<Rightarrow> string" where
  "hex_short w = (let s = dropWhile (\<lambda>c. c = CHR ''0'') (hex8 w) in if s = [] then ''0'' else s)"

definition demo_shift_ub :: "unit prog" where
  "demo_shift_ub =
     andthen (say_line ''shift out of range'') (\<lambda>_.
     let flags = 1 in
     andthen (say_line (''  flags = 0x'' @ hex_short flags)) (\<lambda>_.
     andthen (runs (map (\<lambda>s. andthen (shl_uint flags s) (\<lambda>shifted.
                say_line (''  flags << '' @ pad_left 2 (dec_int (sint s)) @ '' = 0x'' @ hex8 shifted))) [0, 7, 15, 31])) (\<lambda>_.
     andthen (shl_uint flags 32) (\<lambda>bad.
     runs [say_line ''  flags << 32 is UB (width == 32) - UBSan flags this'',
           if shift_guard 32 then say_line (''  safe shift guard: '' @ dec_int 32 @ '' < 32, would shift'')
           else say_line ''  safe shift guard: shift amount >= width, skipped'']))))"

text \<open>A scoped enumeration with underlying type \<^verbatim>\<open>int\<close> has every \<^verbatim>\<open>int\<close> among its values.\<close>

datatype Side = Side_Of int32

definition Buy :: Side where "Buy = Side_Of 0"
definition Sell :: Side where "Sell = Side_Of 1"

definition side_cast :: "int32 \<Rightarrow> Side" where
  "side_cast raw = Side_Of raw"

definition demo_enum_cast :: "unit prog" where
  "demo_enum_cast =
     (let side = side_cast 99 in
      runs [say_line ''invalid enum cast'',
            say_line (''  static_cast<Side>(99) - UBSan: not a valid value for 'Side'' @ [CHR 0x27]),
            say_line ''  Fix: validate raw_side before casting''])"

definition demo_div_zero :: "unit prog" where
  "demo_div_zero =
     andthen (say_line ''integer division by zero'') (\<lambda>_.
     andthen (div_int 100 0) (\<lambda>result.
     runs [say_line (''  100 / 0 = '' @ dec_int (sint result) @ ''  (UB - UBSan flags this)''),
           say_line ''  Fix: guard with `if (denominator == 0) return;` before dividing'']))"

definition demo_bounds :: "int32 \<Rightarrow> unit prog" where
  "demo_bounds idx =
     andthen (say_line ''array out of bounds (-fsanitize=bounds)'') (\<lambda>_.
     let arr = [1, 2, 3, 4, 5] in
     if 0 \<le> sint idx \<and> sint idx < 5
     then andthen (index_int arr idx) (\<lambda>v. say_line (''  arr['' @ dec_int (sint idx) @ ''] = '' @ dec_int (sint v) @ '' (safe)''))
     else runs [say_line (''  idx='' @ dec_int (sint idx) @ '' is out of [0,5) - skipped (safe path)''),
                say_line ''  remove the bounds check to see -fsanitize=bounds fire''])"

definition ubsan_main :: "(int option \<Rightarrow> string) \<Rightarrow> (64 word \<Rightarrow> string) \<Rightarrow> unit prog" where
  "ubsan_main addr fmt =
     runs [say_line ''=== UndefinedBehaviorSanitizer ==='', demo_signed_overflow, demo_null_deref addr, demo_misaligned fmt,
           demo_shift_ub, demo_enum_cast, demo_div_zero, demo_bounds 5,
           say_line ''=== compile with -fsanitize=undefined to see all reports ==='']"

section \<open>What the checks guarantee\<close>

lemma representable_sint: "representable i \<Longrightarrow> sint (word_of_int i :: int32) = i"
  by (simp add: representable_def signed_of_int signed_take_bit_int_eq_self)

lemma sint_representable [simp]: "representable (sint (a :: int32))"
  using sint_range_size [of a] by (simp add: representable_def word_size)

lemma sint_add_iff: "sint (a + b) = sint a + sint b \<longleftrightarrow> representable (sint a + sint b)" for a b :: int32
proof
  assume "sint (a + b) = sint a + sint b"
  then show "representable (sint a + sint b)" using sint_representable [of "a + b"] by simp
next
  assume "representable (sint a + sint b)"
  from representable_sint [OF this] show "sint (a + b) = sint a + sint b" by simp
qed

lemma add_int_builtin:
  "add_int a b = (if fst (builtin_add_overflow a b) then fault_with Signed_Overflow else okay (snd (builtin_add_overflow a b)))"
  by (simp add: add_int_def builtin_add_overflow_def sint_add_iff)

lemma sint_INT_MIN: "sint INT_MIN = - (2 ^ 31)"
  unfolding INT_MIN_def by (rule representable_sint) (simp add: representable_def)

lemma sdiv_abs: "\<bar>a sdiv b\<bar> = \<bar>a\<bar> div \<bar>b\<bar>" for a b :: int
  by (cases "a = 0"; cases "b = 0") (simp_all add: signed_divide_int_def abs_mult abs_sgn_eq pos_imp_zdiv_nonneg_iff)

lemma sdiv_representable:
  assumes "representable a" and "representable b" and "b \<noteq> 0" and "\<not> (a = - (2 ^ 31) \<and> b = - 1)"
  shows "representable (a sdiv b)"
proof -
  consider "b = 1" | "b = - 1" | "2 \<le> \<bar>b\<bar>" using assms(3) by linarith
  then show ?thesis
  proof cases
    case 1
    then show ?thesis using assms(1) by (simp add: signed_divide_int_def mult_sgn_abs)
  next
    case 2
    then have "a sdiv b = - a" by (simp add: signed_divide_int_def mult_sgn_abs)
    then show ?thesis using 2 assms(1, 4) by (auto simp: representable_def)
  next
    case 3
    have "\<bar>a\<bar> div \<bar>b\<bar> \<le> \<bar>a\<bar> div 2"
      using 3 by (intro zdiv_mono2) auto
    moreover have "\<bar>a\<bar> \<le> 2 ^ 31"
      using assms(1) by (auto simp: representable_def)
    ultimately have "\<bar>a sdiv b\<bar> \<le> 2 ^ 30"
      by (simp add: sdiv_abs)
    then show ?thesis by (simp add: representable_def abs_le_iff)
  qed
qed

lemma div_int_value:
  assumes "b \<noteq> 0" and "\<not> (a = INT_MIN \<and> b = - 1)"
  shows "\<exists>q. div_int a b ys = (Inr q, ys) \<and> sint q = sint a sdiv sint b"
proof -
  have "sint b \<noteq> 0" using assms(1) by (metis signed_0 signed_word_eqI)
  moreover have "\<not> (sint a = - (2 ^ 31) \<and> sint b = - 1)"
    using assms(2) sint_INT_MIN by (metis signed_minus_1 signed_word_eqI)
  ultimately have "representable (sint a sdiv sint b)"
    by (intro sdiv_representable) auto
  from representable_sint [OF this] assms show ?thesis
    by (auto simp: div_int_def okay_def)
qed

lemma memcpy_roundtrip:
  assumes "pos + 8 \<le> length buf"
  shows "memcpy_from (memcpy_to buf pos v) pos = v" "length (memcpy_to buf pos v) = length buf"
    "i < pos \<or> pos + 8 \<le> i \<Longrightarrow> i < length buf \<Longrightarrow> memcpy_to buf pos v ! i = buf ! i"
  using assms by (auto simp: memcpy_from_def memcpy_to_def nth_append)

lemma shl_uint_guarded:
  assumes "shift_guard n" and "0 \<le> sint n"
  shows "shl_uint a n ys = (Inr (a * 2 ^ nat (sint n)), ys)"
  using assms by (simp add: shl_uint_def shift_guard_def okay_def push_bit_eq_mult)

lemma demo_bounds_returns: "fst (demo_bounds idx ys) = Inr ()"
  by (simp add: demo_bounds_def andthen_def say_line_def index_int_def okay_def Let_def)

lemmas prog_defs = andthen_def okay_def fault_with_def say_line_def Let_def

lemma ubsan_main_stops:
  "ubsan_main addr fmt ys =
     (Inl Signed_Overflow, ys @ [''=== UndefinedBehaviorSanitizer ==='', ''signed integer overflow'', ''  INT_MAX = 2147483647''])"
proof -
  have int_max: "sint INT_MAX = 2 ^ 31 - 1"
    unfolding INT_MAX_def by (rule representable_sint) (simp add: representable_def)
  have "dec_int (2 ^ 31 - 1) = ''2147483647''"
    by code_simp
  with int_max show ?thesis
    by (simp add: ubsan_main_def demo_signed_overflow_def prog_defs add_int_def representable_def)
qed

lemma demos_return:
  "fst (demo_null_deref addr ys) = Inr ()" "fst (demo_misaligned fmt ys) = Inr ()" "fst (demo_enum_cast ys) = Inr ()"
  by (simp_all add: demo_null_deref_def demo_misaligned_def demo_enum_cast_def maybe_find_price_def prog_defs)

lemma demos_fault:
  "fst (demo_shift_ub ys) = Inl (Shift_Exponent 32)" "fst (demo_div_zero ys) = Inl Division_By_Zero"
  by (simp_all add: demo_shift_ub_def demo_div_zero_def shl_uint_def div_int_def prog_defs)

section \<open>06_compiler_warnings.cpp\<close>

text \<open>Prices in hundredths; \<open>static_cast<int>\<close> of a price drops the fraction towards zero.\<close>

definition price_to_int :: "int \<Rightarrow> int" where
  "price_to_int p = p sdiv 100"

definition demo_unused :: console where
  "demo_unused =
     [''-Wunused-variable / -Wunused-parameter'', ''  [[maybe_unused]] suppresses 'unused variable' warning'',
      ''  (void)param; is the pre-C++17 idiom for unused params'']"

definition demo_shadow :: console where
  "demo_shadow =
     (let bid_price = 10000; ask_price = 10100; spread = ask_price - bid_price in
      [''-Wshadow'', ''  bid='' @ dec_fixed 1 (bid_price div 10) @ '' ask='' @ dec_fixed 1 (ask_price div 10) @ '' spread='' @ dec_fixed 1 (spread div 10),
       ''  BAD: inner 'price' shadows outer 'price' - use distinct names''])"

definition demo_conversion :: console where
  "demo_conversion =
     (let price = 10175; qty = price_to_int price; v = [1, 2, 3 :: int]; n = length v in
      [''-Wconversion / -Wsign-conversion'',
       ''  price='' @ dec_fixed 2 price @ '' truncated to qty='' @ dec_int qty @ ''  (explicit cast)'',
       ''  v.size()='' @ dec_nat (length v) @ '', n='' @ dec_nat n @ ''  (explicit sign-cast)''])"

definition demo_old_style_cast :: console where
  "demo_old_style_cast =
     [''-Wold-style-cast'', ''  static_cast<int*>(raw) is explicit; (int*)raw hides intent'',
      ''  const_cast is explicit; C-cast silently drops const'']"

text \<open>The literal format prints its argument as it is, whatever it contains.\<close>

definition demo_format :: "string \<Rightarrow> console" where
  "demo_format user_input =
     [''-Wformat=2'', ''  safe: '' @ user_input, ''  price: '' @ dec_fixed 2 10150,
      ''  -Wformat=2 catches format/type mismatches and non-literals'']"

text \<open>A \<open>switch\<close> as the labels with the statements that follow them: control enters at the label and runs to the next \<open>break\<close>.\<close>

datatype stmt = Put string | Break

fun run_switch :: "stmt list \<Rightarrow> console" where
  "run_switch [] = []"
| "run_switch (Break # ss) = []"
| "run_switch (Put s # ss) = s # run_switch ss"

fun enter_switch :: "(int option \<times> stmt list) list \<Rightarrow> int \<Rightarrow> stmt list" where
  "enter_switch [] i = []"
| "enter_switch ((l, ss) # rest) i = (if l = Some i \<or> l = None then ss @ concat (map snd rest) else enter_switch rest i)"

definition side_switch :: "(int option \<times> stmt list) list" where
  "side_switch =
     [(Some 0, [Put ''  Buy order'', Break]),
      (Some 1, [Put ''  Sell order'', Break]),
      (Some 2, [Put ''  Short order (falls through to Sell handling)'']),
      (Some 3, [Put ''  Short/Sell common handling'', Break]),
      (None, [Put ''  Unknown side''])]"

definition demo_fallthrough :: "int \<Rightarrow> console" where
  "demo_fallthrough side = ''-Wimplicit-fallthrough'' # run_switch (enter_switch side_switch side)"

definition find_price :: "int \<Rightarrow> int option" where
  "find_price i = (if i < 0 then None else Some 10200)"

definition demo_null_dereference :: "int \<Rightarrow> console" where
  "demo_null_dereference i =
     [''-Wnull-dereference'',
      case find_price i of Some v \<Rightarrow> ''  price = '' @ dec_fixed 2 v @ '' (null-checked before deref_ptr)''
                         | None \<Rightarrow> ''  price not found - null deref_ptr avoided'',
      ''  BAD: deref_ptr p without null check - -Wnull-dereference warns'']"

definition demo_undef :: "bool \<Rightarrow> console" where
  "demo_undef MY_MACRO =
     [''-Wundef'',
      if MY_MACRO then ''  MY_MACRO is defined'' else ''  MY_MACRO is not defined - used defined() to check safely'',
      ''  BAD: #if MY_MACRO  (silently 0 if not defined)'', ''  FIX: #if defined(MY_MACRO)'']"

definition warnings_main :: "bool \<Rightarrow> console" where
  "warnings_main MY_MACRO =
     [''=== Compiler warnings demo ===''] @ demo_unused @ demo_shadow @ demo_conversion @ demo_old_style_cast @
     demo_format ''some text from network'' @ demo_fallthrough 2 @ demo_null_dereference 1 @ demo_undef MY_MACRO @
     [''=== all patterns use the corrected (warning-free) form ==='']"

section \<open>07_clang_tidy.cpp\<close>

definition demo_nullptr :: console where
  "demo_nullptr =
     (let p = None :: string option in
      ''modernize-use-nullptr'' # (if p = None then [''  p is nullptr - using nullptr (not NULL or 0)''] else []))"

text \<open>The interface \<open>PriceFeed\<close> and its one implementation; \<open>subscribe\<close> is not called by the program.\<close>

record price_feed =
  latest_price :: int
  subscribe :: console

definition MarketDataFeed :: price_feed where
  "MarketDataFeed = \<lparr>latest_price = 10100, subscribe = [''  subscribed'']\<rparr>"

definition demo_override :: console where
  "demo_override =
     [''modernize-use-override'', ''  price = '' @ dec_fixed 2 (latest_price MarketDataFeed),
      ''  'override' makes compiler verify the function exists in base'']"

definition demo_auto :: console where
  "demo_auto =
     (let prices = [10000, 10100, 10200]; feed = MarketDataFeed in
      [''modernize-use-auto'', ''  first price via auto iterator: '' @ dec_fixed 1 (hd prices div 10),
       ''  feed price: '' @ dec_fixed 2 (latest_price feed)])"

definition sum_ticks :: "int list \<Rightarrow> int" where
  "sum_ticks ticks = fold (\<lambda>t s. s + t) ticks 0"

definition demo_range_for :: console where
  "demo_range_for =
     [''modernize-use-range-for'', ''  sum via range-for: '' @ dec_fixed 1 (sum_ticks [10010, 10020, 10030] div 10)]"

text \<open>A string moved from is valid but unspecified: \<open>left\<close>.  The next statement assigns it again.\<close>

definition demo_use_after_move :: "string \<Rightarrow> console" where
  "demo_use_after_move left =
     (let name = ''AAPL''; target = name; name = left; name = ''MSFT'' in
      [''bugprone-use-after-move'', ''  target='' @ target @ ''  name (after re-assign)='' @ name])"

text \<open>Averages in tenths: the correct one divides in floating point, the other one divides first.\<close>

definition avg_tenths :: "int \<Rightarrow> int \<Rightarrow> int" where
  "avg_tenths trades days = (10 * trades) sdiv days"

definition avg_truncated :: "int \<Rightarrow> int \<Rightarrow> int" where
  "avg_truncated trades days = 10 * (trades sdiv days)"

definition demo_int_division :: console where
  "demo_int_division =
     (let trades = 7; days = 2 in
      [''bugprone-integer-division'',
       ''  trades/days = '' @ dec_fixed 1 (avg_tenths trades days) @ '' (correct fp division)'',
       ''  bug version: '' @ dec_int trades @ '' / '' @ dec_int days @ '' = '' @ dec_fixed 1 (avg_truncated trades days) @ '' (truncated!)''])"

definition demo_unnecessary_copy :: console where
  "demo_unnecessary_copy =
     (let prices = [10000, 10100, 10200] in
      [''performance-unnecessary-copy-initialization'', ''  p[0]='' @ dec_fixed 1 (hd prices div 10) @ '' (const ref - no copy made)''])"

definition concat_log :: "string list \<Rightarrow> string" where
  "concat_log syms = fold (\<lambda>s acc. (acc @ s) @ '' '') syms []"

definition demo_string_concat :: console where
  "demo_string_concat =
     [''performance-inefficient-string-concatenation'', ''  log = '' @ [CHR 0x27] @ concat_log [''AAPL'', ''MSFT'', ''GOOG''] @ [CHR 0x27]]"

text \<open>The fee \<open>qty * price * 0.00025\<close>, in units of \<open>10^-7\<close> for a price in hundredths.\<close>

definition commission_fee :: "int \<Rightarrow> int \<Rightarrow> int" where
  "commission_fee qty price = qty * price * 25"

definition demo_magic_numbers :: console where
  "demo_magic_numbers =
     [''readability-magic-numbers'',
      ''  commission fee = '' @ dec_fixed 4 (commission_fee 100 10150 div 10 ^ 3) @ ''  (using named constant)'']"

definition get_qty :: int where
  "get_qty = 100"

definition demo_const_return :: console where
  "demo_const_return =
     [''readability-const-return-type'', ''  qty = '' @ dec_int get_qty @ ''  (non-const return type - const would be ignored)'']"

definition tidy_main :: "string \<Rightarrow> console" where
  "tidy_main left =
     [''=== clang-tidy patterns ===''] @ demo_nullptr @ demo_override @ demo_auto @ demo_range_for @ demo_use_after_move left @
     demo_int_division @ demo_unnecessary_copy @ demo_string_concat @ demo_magic_numbers @ demo_const_return @
     [''=== run: clang-tidy -checks='' @ [CHR 0x27] @ ''modernize-*,bugprone-*'' @ [CHR 0x27] @ '' ... ==='']"

section \<open>08_build_modes.cpp\<close>

text \<open>
  The macros of the build are arguments.  \<open>assert\<close> aborts on a false condition unless \<open>NDEBUG\<close> is defined, and then
  the condition is not even evaluated.
\<close>

datatype aborted = Assertion_Failed

type_synonym 'a mode_run = "(aborted, console, 'a) exec"

definition out_line :: "string \<Rightarrow> unit mode_run" where
  "out_line s ys = (Inr (), ys @ [s])"

definition assert_that :: "bool \<Rightarrow> bool mode_run \<Rightarrow> unit mode_run" where
  "assert_that NDEBUG cond =
     (if NDEBUG then okay () else andthen cond (\<lambda>b. if b then okay () else fault_with Assertion_Failed))"

definition safe_front :: "int list \<Rightarrow> int mode_run" where
  "safe_front v = (if v = [] then andthen (out_line ''  BUG: empty vector!'') (\<lambda>_. okay 0) else okay (hd v))"

definition demo_assert :: "bool \<Rightarrow> unit mode_run" where
  "demo_assert NDEBUG =
     (let data = [1, 2, 3] in
     andthen (out_line ''NDEBUG and assert()'') (\<lambda>_.
     andthen (out_line (if NDEBUG then ''  NDEBUG is defined - asserts are compiled out (Release mode)''
                        else ''  NDEBUG not defined - asserts are active (Debug mode)'')) (\<lambda>_.
     andthen (assert_that NDEBUG (okay (data \<noteq> []))) (\<lambda>_.
     andthen (out_line (''  data[0] = '' @ dec_int (data ! 0) @ ''  (assert checked in Debug only)'')) (\<lambda>_.
     andthen (safe_front data) (\<lambda>v.
     out_line (''  safe_front = '' @ dec_int v @ ''  (runs in both Debug and Release)'')))))))"

datatype compiler = Clang string | Gcc nat nat | Msvc nat | Unknown_Compiler

definition demo_optimize_macro :: "bool \<Rightarrow> bool \<Rightarrow> compiler \<Rightarrow> console" where
  "demo_optimize_macro OPTIMIZE OPTIMIZE_SIZE cc =
     [''__OPTIMIZE__ macro'',
      if OPTIMIZE then ''  __OPTIMIZE__ is defined - compiler is optimising (-'' @ (if OPTIMIZE_SIZE then ''s'' else ''1'') @ '' or higher)''
      else ''  __OPTIMIZE__ not defined - compiled with -O0 (Debug)''] @
     (case cc of
        Clang v \<Rightarrow> [''  Compiler: Clang '' @ v]
      | Gcc a b \<Rightarrow> [''  Compiler: GCC '' @ dec_nat a @ ''.'' @ dec_nat b]
      | Msvc n \<Rightarrow> [''  Compiler: MSVC '' @ dec_nat n]
      | Unknown_Compiler \<Rightarrow> [])"

text \<open>The loop of \<open>heavy_compute\<close> over exact reals.\<close>

primrec heavy_loop :: "nat \<Rightarrow> nat \<Rightarrow> real \<Rightarrow> real" where
  "heavy_loop i 0 s = s"
| "heavy_loop i (Suc left) s = heavy_loop (Suc i) left (s + real i * 1.00001)"

definition heavy_compute :: "int \<Rightarrow> real" where
  "heavy_compute n = heavy_loop 0 (nat n) 0"

text \<open>\<open>tick_value\<close> with the price in hundredths.\<close>

definition tick_value :: "int \<Rightarrow> int \<Rightarrow> int" where
  "tick_value price qty = price * qty"

definition demo_lto_concept :: console where
  "demo_lto_concept =
     [''LTO concept'', ''  tick_value = '' @ dec_fixed 2 (tick_value 10150 100),
      ''  With LTO: tick_value() can be inlined from a separate TU'',
      ''  Flags: g++ -O2 -flto=auto; clang++ -O2 -flto=thin'',
      ''  CMake:  set_property(TARGET app PROPERTY INTERPROCEDURAL_OPTIMIZATION TRUE)'']"

definition DBG_LOG :: "bool \<Rightarrow> string \<Rightarrow> console" where
  "DBG_LOG NDEBUG s = (if NDEBUG then [] else [''[DEBUG] '' @ s])"

definition demo_debug_logging :: "bool \<Rightarrow> console" where
  "demo_debug_logging NDEBUG =
     (let order_id = 42 in
      [''debug-only logging (zero overhead in Release)''] @ DBG_LOG NDEBUG (''processing order '' @ dec_int order_id) @
      [''  order '' @ dec_int order_id @ '' processed  (debug log above only in Debug build)''])"

section \<open>Properties of the small programs\<close>

lemma demo_fallthrough_cases:
  "demo_fallthrough side =
     ''-Wimplicit-fallthrough'' #
     (if side = 0 then [''  Buy order''] else if side = 1 then [''  Sell order'']
      else if side = 2 then [''  Short order (falls through to Sell handling)'', ''  Short/Sell common handling'']
      else if side = 3 then [''  Short/Sell common handling''] else [''  Unknown side''])"
  by (auto simp: demo_fallthrough_def side_switch_def)

lemma avg_truncated_le:
  assumes "0 \<le> trades" and "0 < days"
  shows "avg_truncated trades days \<le> avg_tenths trades days" and
    "days dvd trades \<Longrightarrow> avg_truncated trades days = avg_tenths trades days"
proof -
  have q: "a sdiv days = a div days" if "0 \<le> a" for a
    using assms that by (cases "a = 0") (auto simp: signed_divide_int_def)
  have "trades div days * days \<le> trades"
    using assms(2) div_mult_mod_eq [of trades days] pos_mod_sign [of days trades] by linarith
  then have "(10 * (trades div days) * days) div days \<le> (10 * trades) div days"
    using assms(2) by (intro zdiv_mono1) auto
  then show "avg_truncated trades days \<le> avg_tenths trades days"
    using assms q [of trades] q [of "10 * trades"] by (simp add: avg_truncated_def avg_tenths_def)
  show "avg_truncated trades days = avg_tenths trades days" if "days dvd trades"
    using assms q [of trades] q [of "10 * trades"] that
    by (simp add: avg_truncated_def avg_tenths_def div_mult_swap)
qed

lemma concat_log_spec: "concat_log syms = concat (map (\<lambda>s. s @ '' '') syms)"
proof -
  have "fold (\<lambda>s acc. (acc @ s) @ '' '') syms acc = acc @ concat (map (\<lambda>s. s @ '' '') syms)" for acc
    by (induction syms arbitrary: acc) simp_all
  then show ?thesis by (simp add: concat_log_def)
qed

lemma heavy_loop_sum: "heavy_loop i left s = s + 1.00001 * (\<Sum>k = i..<i + left. real k)"
proof (induction left arbitrary: i s)
  case (Suc left)
  have "(\<Sum>k = i..<i + Suc left. real k) = real i + (\<Sum>k = Suc i..<Suc i + left. real k)"
    by (simp add: sum.atLeast_Suc_lessThan)
  with Suc show ?case by (simp add: algebra_simps)
qed simp

lemma heavy_compute_closed:
  assumes "0 \<le> n"
  shows "heavy_compute n = 1.00001 * (real_of_int n * (real_of_int n - 1) / 2)"
proof -
  have gauss: "(\<Sum>k = 0..<m. real k) = real m * (real m - 1) / 2" for m
    by (induction m) (simp_all add: field_simps)
  show ?thesis
    using gauss [of "nat n"] assms by (simp add: heavy_compute_def heavy_loop_sum)
qed

lemma assert_modes:
  "assert_that True cond = okay ()"
  "assert_that False (okay b) = (if b then okay () else fault_with Assertion_Failed)"
  by (simp_all add: assert_that_def andthen_def okay_def fun_eq_iff)

lemma demo_assert_modes:
  "snd (demo_assert NDEBUG []) =
     [''NDEBUG and assert()'',
      if NDEBUG then ''  NDEBUG is defined - asserts are compiled out (Release mode)''
      else ''  NDEBUG not defined - asserts are active (Debug mode)'',
      ''  data[0] = 1  (assert checked in Debug only)'', ''  safe_front = 1  (runs in both Debug and Release)'']"
  by (cases NDEBUG) (simp_all only: if_True if_False, code_simp+)

text \<open>
  The operations that the language leaves partly undefined.  The checked sum of two ints is reported exactly when
  \<^verbatim>\<open>__builtin_add_overflow\<close> says so, and otherwise it is the exact sum; a quotient is reported for a zero
  divisor and for \<open>INT_MIN / -1\<close> only, and otherwise it is the exact quotient, rounded towards zero; the copy of a
  \<open>double\<close> to any position of a byte buffer and back returns its pattern and keeps the other bytes; a guarded index is
  never reported.  The guard \<^verbatim>\<open>n < 32\<close> that the program offers for shifts makes them safe for non-negative amounts only:
  it lets \<open>-1\<close> pass, which is reported.  The program itself is stopped by its first part, after three lines; on their
  own, the parts on shifts and division are stopped too, the others run to their end.
\<close>

theorem undefined_operations:
  "add_int a b ys = (if fst (builtin_add_overflow a b) then (Inl Signed_Overflow, ys) else (Inr (snd (builtin_add_overflow a b)), ys)) \<and>
   (\<not> fst (builtin_add_overflow a b) \<longrightarrow> sint (snd (builtin_add_overflow a b)) = sint a + sint b) \<and>
   (b \<noteq> 0 \<longrightarrow> \<not> (a = INT_MIN \<and> b = - 1) \<longrightarrow> (\<exists>q. div_int a b ys = (Inr q, ys) \<and> sint q = sint a sdiv sint b)) \<and>
   div_int a 0 ys = (Inl Division_By_Zero, ys) \<and> div_int INT_MIN (- 1) ys = (Inl Signed_Overflow, ys) \<and>
   (pos + 8 \<le> length buf \<longrightarrow> memcpy_from (memcpy_to buf pos v) pos = v \<and> length (memcpy_to buf pos v) = length buf \<and>
      (\<forall>i<length buf. i < pos \<or> pos + 8 \<le> i \<longrightarrow> memcpy_to buf pos v ! i = buf ! i)) \<and>
   fst (demo_bounds idx ys) = Inr () \<and>
   (shift_guard n \<and> 0 \<le> sint n \<longrightarrow> shl_uint x n ys = (Inr (x * 2 ^ nat (sint n)), ys)) \<and>
   shift_guard (- 1) \<and> shl_uint x (- 1) ys = (Inl (Shift_Exponent (- 1)), ys) \<and>
   ubsan_main addr fmt [] =
     (Inl Signed_Overflow, [''=== UndefinedBehaviorSanitizer ==='', ''signed integer overflow'', ''  INT_MAX = 2147483647'']) \<and>
   fst (demo_shift_ub ys) = Inl (Shift_Exponent 32) \<and> fst (demo_div_zero ys) = Inl Division_By_Zero \<and>
   fst (demo_null_deref addr ys) = Inr () \<and> fst (demo_misaligned fmt ys) = Inr () \<and> fst (demo_enum_cast ys) = Inr ()"
proof -
  have "div_int INT_MIN (- 1) ys = (Inl Signed_Overflow, ys)"
    by (simp add: div_int_def fault_with_def)
  moreover have "add_int a b ys = (if fst (builtin_add_overflow a b) then (Inl Signed_Overflow, ys) else (Inr (snd (builtin_add_overflow a b)), ys))"
    by (simp add: add_int_builtin fault_with_def okay_def)
  moreover have "\<not> fst (builtin_add_overflow a b) \<longrightarrow> sint (snd (builtin_add_overflow a b)) = sint a + sint b"
    by (simp add: builtin_add_overflow_def)
  moreover have "shift_guard (- 1) \<and> shl_uint x (- 1) ys = (Inl (Shift_Exponent (- 1)), ys)"
    by (simp add: shift_guard_def shl_uint_def fault_with_def)
  moreover have "div_int a 0 ys = (Inl Division_By_Zero, ys)"
    by (simp add: div_int_def fault_with_def)
  moreover have "ubsan_main addr fmt [] =
     (Inl Signed_Overflow, [''=== UndefinedBehaviorSanitizer ==='', ''signed integer overflow'', ''  INT_MAX = 2147483647''])"
    using ubsan_main_stops [of addr fmt "[]"] by simp
  moreover have "b \<noteq> 0 \<longrightarrow> \<not> (a = INT_MIN \<and> b = - 1) \<longrightarrow> (\<exists>q. div_int a b ys = (Inr q, ys) \<and> sint q = sint a sdiv sint b)"
    using div_int_value by blast
  moreover have "shift_guard n \<and> 0 \<le> sint n \<longrightarrow> shl_uint x n ys = (Inr (x * 2 ^ nat (sint n)), ys)"
    using shl_uint_guarded by blast
  ultimately show ?thesis
    by (intro conjI impI allI demo_bounds_returns demos_return demos_fault memcpy_roundtrip) blast+
qed

theorem undefined_operations_witness:
  "sint (snd (builtin_add_overflow 40 2)) = 42 \<and> (\<exists>q. div_int (- 7) 2 [] = (Inr q, []) \<and> sint q = - 3) \<and>
   memcpy_from (memcpy_to (replicate 16 0) 1 0x4045400000000000) 1 = 0x4045400000000000 \<and> shl_uint 1 31 [] = (Inr (2 ^ 31), [])"
proof -
  have facts: "\<not> fst (builtin_add_overflow 40 2)" "(1::nat) + 8 \<le> length (replicate 16 (0::byte))" "shift_guard 31" "0 \<le> sint (31 :: int32)"
    by (simp_all add: builtin_add_overflow_def shift_guard_def)
  have "\<exists>q. div_int (- 7) 2 [] = (Inr q, []) \<and> sint q = sint (- 7 :: int32) sdiv sint (2 :: int32)"
    using undefined_operations [of "- 7" 2 "[]"] by simp
  moreover have "sint (- 7 :: int32) sdiv sint (2 :: int32) = - 3"
    by (simp add: signed_divide_int_def)
  ultimately show ?thesis
    using undefined_operations [of 40 2 "[]" 1 "replicate 16 0" "0x4045400000000000" 0 31 1 "\<lambda>_. []" "\<lambda>_. []"] facts by simp
qed

end
