(* ===== verification/Shared_Price.thy ===== *)
theory Shared_Price
  imports Prelude
begin

text \<open>
  Two repairs of a data race in \<^verbatim>\<open>build_tooling/04_tsan.cpp\<close>: threads that store a sequence of prices into one
  shared variable, under a mutex (\<open>demo_mutex_fixed\<close>) and as atomic stores (\<open>demo_atomic_fixed\<close>).  Any number of
  threads is allowed; thread \<open>t\<close> stores \<open>base ! t + i\<close> for \<open>i = 0, \<dots>, n - 1\<close>.  Prices are whole numbers, as in the
  program.  The mutex version refines the atomic one.
\<close>

section \<open>Atomic stores\<close>

text \<open>The shared price and the loop counter of every thread.\<close>

type_synonym price_spec = "int \<times> nat list"

inductive store_step :: "nat \<Rightarrow> int list \<Rightarrow> price_spec \<Rightarrow> price_spec \<Rightarrow> bool" for n :: nat and base :: "int list" where
  store: "t < length is \<Longrightarrow> is ! t < n \<Longrightarrow> store_step n base (p, is) (base ! t + int (is ! t), is[t := Suc (is ! t)])"

inductive_cases store_stepE: "store_step n base s s'"

definition store_init :: "int list \<Rightarrow> price_spec" where
  "store_init base = (0, replicate (length base) 0)"

definition last_stored :: "int list \<Rightarrow> price_spec \<Rightarrow> bool" where
  "last_stored base s =
     (case s of (p, is) \<Rightarrow>
        length is = length base \<and>
        (is = replicate (length base) 0 \<or> (\<exists>t<length base. 0 < is ! t \<and> p = base ! t + int (is ! t) - 1)))"

lemma store_step_inv: "last_stored base s \<Longrightarrow> store_step n base s s' \<Longrightarrow> last_stored base s'"
proof (elim store_stepE)
  fix t "is" p
  assume s: "last_stored base s" "s = (p, is)" "s' = (base ! t + int (is ! t), is[t := Suc (is ! t)])" "t < length is"
  then have "length is = length base" by (simp add: last_stored_def)
  with s show "last_stored base s'"
    by (auto simp: last_stored_def intro!: exI [of _ t])
qed

interpretation stores: inv_system "\<lambda>s. s = store_init base" "store_step n base" "last_stored base" for n base
  by unfold_locales (simp add: store_init_def last_stored_def, erule (1) store_step_inv)

section \<open>Stores under the mutex\<close>

text \<open>\<open>wrote\<close> tells whether the holder of the lock has stored its price already.\<close>

record mutex_state =
  g_mutex :: "nat option"
  wrote :: bool
  g_mutex_price :: int
  counters :: "nat list"

definition guarded_init :: "int list \<Rightarrow> mutex_state" where
  "guarded_init base = \<lparr>g_mutex = None, wrote = False, g_mutex_price = 0, counters = replicate (length base) 0\<rparr>"

inductive guarded_step :: "nat \<Rightarrow> int list \<Rightarrow> mutex_state \<Rightarrow> mutex_state \<Rightarrow> bool" for n :: nat and base :: "int list" where
  lock: "g_mutex s = None \<Longrightarrow> t < length (counters s) \<Longrightarrow> counters s ! t < n \<Longrightarrow> guarded_step n base s (s\<lparr>g_mutex := Some t\<rparr>)"
| assign: "g_mutex s = Some t \<Longrightarrow> \<not> wrote s \<Longrightarrow>
    guarded_step n base s (s\<lparr>g_mutex_price := base ! t + int (counters s ! t), wrote := True\<rparr>)"
| unlock: "g_mutex s = Some t \<Longrightarrow> wrote s \<Longrightarrow>
    guarded_step n base s (s\<lparr>g_mutex := None, wrote := False, counters := (counters s)[t := Suc (counters s ! t)]\<rparr>)"

inductive_cases guarded_stepE: "guarded_step n base s s'"

definition guarded_inv :: "nat \<Rightarrow> int list \<Rightarrow> mutex_state \<Rightarrow> bool" where
  "guarded_inv n base s \<longleftrightarrow>
     length (counters s) = length base \<and>
     (case g_mutex s of None \<Rightarrow> \<not> wrote s | Some t \<Rightarrow> t < length base \<and> counters s ! t < n)"

text \<open>The store counts from the moment it is made, not from the unlock.\<close>

definition guarded_abs :: "mutex_state \<Rightarrow> price_spec" where
  "guarded_abs s =
     (g_mutex_price s,
      case g_mutex s of Some t \<Rightarrow> if wrote s then (counters s)[t := Suc (counters s ! t)] else counters s | None \<Rightarrow> counters s)"

lemma guarded_step_inv: "guarded_inv n base s \<Longrightarrow> guarded_step n base s s' \<Longrightarrow> guarded_inv n base s'"
  by (elim guarded_stepE) (auto simp: guarded_inv_def)

lemma guarded_step_sim:
  assumes "guarded_inv n base s" and "guarded_step n base s s'"
  shows "(store_step n base)\<^sup>*\<^sup>* (guarded_abs s) (guarded_abs s')"
  using assms(2)
proof cases
  case (assign t)
  with assms(1) have "store_step n base (guarded_abs s) (guarded_abs s')"
    by (auto simp: guarded_abs_def guarded_inv_def intro: store)
  then show ?thesis by simp
qed (use assms(1) in \<open>auto simp: guarded_abs_def guarded_inv_def\<close>)

interpretation guarded_stores: simulation "\<lambda>s. s = guarded_init base" "guarded_step n base" "guarded_inv n base" "store_step n base" guarded_abs
  for n base
  by unfold_locales (simp add: guarded_init_def guarded_inv_def, erule (1) guarded_step_inv, erule (1) guarded_step_sim)

lemma guarded_reaches:
  assumes "(guarded_step n base)\<^sup>*\<^sup>* (guarded_init base) s"
  shows "guarded_inv n base s" and "last_stored base (guarded_abs s)"
proof -
  show "guarded_inv n base s"
    by (rule guarded_stores.reachable_inv) (use assms in simp_all)
  have abs: "(store_step n base)\<^sup>*\<^sup>* (guarded_abs (guarded_init base)) (guarded_abs s)"
    by (rule guarded_stores.reachable_sim) (use assms in simp_all)
  show "last_stored base (guarded_abs s)"
    by (rule stores.reachable_inv [OF refl]) (use abs in \<open>simp add: guarded_abs_def guarded_init_def store_init_def\<close>)
qed

text \<open>The number of steps that are left.\<close>

definition to_do :: "nat \<Rightarrow> mutex_state \<Rightarrow> nat" where
  "to_do n s = 3 * sum_list (map (\<lambda>i. n - i) (counters s)) - (case g_mutex s of None \<Rightarrow> 0 | Some t \<Rightarrow> if wrote s then 2 else 1)"

definition joined :: "nat \<Rightarrow> mutex_state \<Rightarrow> bool" where
  "joined n s \<longleftrightarrow> g_mutex s = None \<and> (\<forall>i\<in>set (counters s). n \<le> i)"

lemma guarded_progress: "guarded_inv n base s \<Longrightarrow> \<not> joined n s \<Longrightarrow> \<exists>s'. guarded_step n base s s'"
proof (cases "g_mutex s")
  case None
  assume "\<not> joined n s"
  with None obtain t where "t < length (counters s)" "counters s ! t < n"
    by (auto simp: joined_def in_set_conv_nth)
  with lock [OF None this] show ?thesis by blast
next
  case (Some t)
  then show ?thesis
    by (cases "wrote s") (blast intro: assign unlock)+
qed

lemma guarded_step_decreases:
  assumes "guarded_inv n base s" and "guarded_step n base s s'"
  shows "to_do n s' < to_do n s"
proof -
  have some_left: "0 < sum_list (map (\<lambda>i. n - i) (counters s))" if "t < length (counters s)" "counters s ! t < n" for t
    using member_le_sum_list [of "n - counters s ! t" "map (\<lambda>i. n - i) (counters s)"] that by force
  have bump: "sum_list (map (\<lambda>i. n - i) ((counters s)[t := Suc (counters s ! t)])) + 1 = sum_list (map (\<lambda>i. n - i) (counters s))"
    if "t < length (counters s)" "counters s ! t < n" for t
    using sum_list_update_nat [of t "map (\<lambda>i. n - i) (counters s)" "n - Suc (counters s ! t)"] that
    by (simp add: map_update)
  from assms(2) show ?thesis
  proof cases
    case (lock t)
    then show ?thesis using some_left [of t] by (simp add: to_do_def)
  next
    case (assign t)
    then show ?thesis using some_left [of t] assms(1) by (simp add: to_do_def guarded_inv_def)
  next
    case (unlock t)
    then show ?thesis using bump [of t] assms(1) by (simp add: to_do_def guarded_inv_def)
  qed
qed

lemma guarded_finishes:
  assumes "guarded_inv n base s"
  shows "\<exists>s'. (guarded_step n base)\<^sup>*\<^sup>* s s' \<and> joined n s'"
  using assms
proof (induction "to_do n s" arbitrary: s rule: less_induct)
  case less
  show ?case
  proof (cases "joined n s")
    case False
    then obtain s1 where "guarded_step n base s s1"
      using guarded_progress less.prems by blast
    with less show ?thesis
      by (meson converse_rtranclp_into_rtranclp guarded_step_decreases guarded_step_inv)
  qed blast
qed

section \<open>The final price\<close>

lemma final_price:
  assumes "last_stored base (p, is)" and "\<forall>i\<in>set is. i = n" and "0 < n" and "base \<noteq> []"
  shows "\<exists>t<length base. p = base ! t + int n - 1"
proof -
  have len: "length is = length base" using assms(1) by (simp add: last_stored_def)
  with assms(4) have "is \<noteq> replicate (length base) 0"
    using assms(2, 3) by (auto simp: neq_Nil_conv)
  with assms(1) obtain t where "t < length base" "p = base ! t + int (is ! t) - 1"
    by (auto simp: last_stored_def)
  moreover from this len assms(2) have "is ! t = n" by simp
  ultimately show ?thesis by auto
qed

text \<open>What \<open>main\<close> starts: thread 0 stores \<open>100.0 + i\<close>, thread 1 stores \<open>200.0 + i\<close>, ten thousand times each.\<close>

definition tsan_base :: "int list" where
  "tsan_base = [100, 200]"

definition tsan_rounds :: nat where
  "tsan_rounds = 10000"

definition demo_mutex_fixed :: "mutex_state \<Rightarrow> console" where
  "demo_mutex_fixed s =
     [''data race fixed with mutex'', ''  g_mutex_price final = '' @ dec_int (g_mutex_price s) @ ''.0  (serialised - no race)'']"

definition demo_atomic_fixed :: "price_spec \<Rightarrow> console" where
  "demo_atomic_fixed s =
     [''data race fixed with atomic'', ''  g_atomic_price final = '' @ dec_int (fst s) @ ''.0  (atomic - no race)'']"

text \<open>
  The repaired races.  Every execution of the threads under the mutex is, step by step, an execution of the atomic stores
  (a store counts from the assignment), it always can be continued until all threads have joined, no step leads away from
  that, and then the final price is the last price of one of the threads; the same holds of the atomic stores.
\<close>

theorem mutex_refines_atomic_price:
  assumes "(guarded_step n base)\<^sup>*\<^sup>* (guarded_init base) s" and "0 < n" and "base \<noteq> []"
  shows "(store_step n base)\<^sup>*\<^sup>* (store_init base) (guarded_abs s) \<and>
    (\<exists>s'. (guarded_step n base)\<^sup>*\<^sup>* s s' \<and> joined n s') \<and>
    (\<forall>s'. guarded_step n base s s' \<longrightarrow> to_do n s' < to_do n s) \<and>
    (g_mutex s = None \<and> counters s = replicate (length base) n \<longrightarrow> (\<exists>t<length base. g_mutex_price s = base ! t + int n - 1)) \<and>
    ((store_step n base)\<^sup>*\<^sup>* (store_init base) (p, replicate (length base) n) \<longrightarrow> (\<exists>t<length base. p = base ! t + int n - 1))"
proof -
  note inv = guarded_reaches [OF assms(1)]
  have "(store_step n base)\<^sup>*\<^sup>* (guarded_abs (guarded_init base)) (guarded_abs s)"
    by (rule guarded_stores.reachable_sim) (use assms(1) in simp_all)
  then have "(store_step n base)\<^sup>*\<^sup>* (store_init base) (guarded_abs s)"
    by (simp add: guarded_abs_def guarded_init_def store_init_def)
  moreover have "\<exists>t<length base. g_mutex_price s = base ! t + int n - 1"
    if "g_mutex s = None \<and> counters s = replicate (length base) n"
    using inv(2) that assms(2, 3) by (intro final_price [of base "g_mutex_price s" "counters s" n]) (auto simp: guarded_abs_def)
  moreover have "\<exists>t<length base. p = base ! t + int n - 1"
    if "(store_step n base)\<^sup>*\<^sup>* (store_init base) (p, replicate (length base) n)"
    using stores.reachable_inv [OF refl that] assms(2, 3) by (intro final_price) auto
  ultimately show ?thesis
    using inv(1) guarded_finishes guarded_step_decreases by blast
qed

theorem mutex_refines_atomic_price_witness:
  "\<exists>s'. (guarded_step tsan_rounds tsan_base)\<^sup>*\<^sup>* (guarded_init tsan_base) s' \<and> joined tsan_rounds s'"
  using mutex_refines_atomic_price [of tsan_rounds tsan_base "guarded_init tsan_base"]
  by (simp add: tsan_rounds_def tsan_base_def)

text \<open>In the program the final price is therefore 10099 or 10199.\<close>

lemma tsan_final_price:
  assumes "(guarded_step tsan_rounds tsan_base)\<^sup>*\<^sup>* (guarded_init tsan_base) s" and "joined tsan_rounds s"
    and "counters s = [tsan_rounds, tsan_rounds]"
  shows "g_mutex_price s \<in> {10099, 10199}"
proof -
  have "\<exists>t<length tsan_base. g_mutex_price s = tsan_base ! t + int tsan_rounds - 1"
    using guarded_reaches(2) [OF assms(1)] assms(2, 3)
    by (intro final_price [of tsan_base "g_mutex_price s" "counters s" tsan_rounds])
      (auto simp: guarded_abs_def joined_def tsan_base_def tsan_rounds_def)
  then show ?thesis by (auto simp: tsan_base_def tsan_rounds_def less_Suc_eq)
qed

end
