(* ===== verification/Rpc_Handlers.thy ===== *)
theory Rpc_Handlers
  imports Prelude
begin

text \<open>
  The service handlers and clients of \<^verbatim>\<open>grpc_proto/04\<close> to \<^verbatim>\<open>07\<close>, \<^verbatim>\<open>09\<close> and \<^verbatim>\<open>10\<close>, over the messages of
  \<^verbatim>\<open>protos/metrics.proto\<close>.  The gRPC library is not part of the repository: what it answers is an argument, the
  function behind a stub, the messages a stream reads, and for the \<open>k\<close>-th call of \<open>IsCancelled\<close> or \<open>Write\<close> of a handler
  its result.  Values of metrics are exact tenths.
\<close>

section \<open>Messages\<close>

record metric_request =
  rq_name :: string
  rq_limit :: int

record metric_point =
  pt_name :: string
  pt_value :: int
  pt_timestamp :: int
  pt_labels :: "(string \<times> string) list"

record batch_result =
  accepted :: nat
  rejected :: nat
  br_text :: string

datatype status = OK | CANCELLED | INVALID_ARGUMENT string | UNAUTHENTICATED string | DEADLINE_EXCEEDED

fun status_code :: "status \<Rightarrow> nat" where
  "status_code OK = 0"
| "status_code CANCELLED = 1"
| "status_code (INVALID_ARGUMENT s) = 3"
| "status_code DEADLINE_EXCEEDED = 4"
| "status_code (UNAUTHENTICATED s) = 16"

fun error_message :: "status \<Rightarrow> string" where
  "error_message (INVALID_ARGUMENT s) = s"
| "error_message (UNAUTHENTICATED s) = s"
| "error_message _ = []"

definition point_default :: metric_point where
  "point_default = \<lparr>pt_name = [], pt_value = 0, pt_timestamp = 0, pt_labels = []\<rparr>"

definition request_default :: metric_request where
  "request_default = \<lparr>rq_name = [], rq_limit = 0\<rparr>"

text \<open>\<open>operator<<\<close> of a \<open>double\<close> given in tenths, and of a Boolean with \<open>boolalpha\<close>.\<close>

definition show_tenths :: "int \<Rightarrow> string" where
  "show_tenths v = dec_int (v div 10) @ (if v mod 10 = 0 then [] else ''.'' @ dec_int (v mod 10))"

definition boolalpha :: "bool \<Rightarrow> string" where
  "boolalpha b = (if b then ''true'' else ''false'')"

section \<open>04: unary\<close>

definition GetMetric :: "int \<Rightarrow> metric_request \<Rightarrow> console \<times> metric_point \<times> status" where
  "GetMetric now req =
     ([''[server] GetMetric: name='' @ rq_name req],
      if rq_name req = [] then (point_default, INVALID_ARGUMENT ''name required'')
      else (\<lparr>pt_name = rq_name req, pt_value = 427, pt_timestamp = now, pt_labels = [(''host'', ''node-1'')]\<rparr>, OK))"

text \<open>What the client prints on standard output and standard error for the two calls, over the function behind the stub.\<close>

definition unary_report :: "metric_point \<times> status \<Rightarrow> console \<times> console" where
  "unary_report answer =
     (case answer of (resp, s) \<Rightarrow>
        if s = OK then ([''[client] '' @ pt_name resp @ '' = '' @ show_tenths (pt_value resp) @ '' ts='' @ dec_int (pt_timestamp resp)], [])
        else ([], [''[client] error: '' @ error_message s]))"

definition unary_client :: "(metric_request \<Rightarrow> metric_point \<times> status) \<Rightarrow> console \<times> console" where
  "unary_client stub =
     (case unary_report (stub (request_default\<lparr>rq_name := ''cpu_usage''\<rparr>)) of (o1, e1) \<Rightarrow>
      case stub request_default of (resp, s) \<Rightarrow>
        (o1 @ [''[client] empty name -> code='' @ dec_nat (status_code s) @ '' msg='' @ error_message s], e1))"

section \<open>05: server streaming\<close>

definition stream_point :: "metric_request \<Rightarrow> nat \<Rightarrow> metric_point" where
  "stream_point req i =
     \<lparr>pt_name = rq_name req, pt_value = 500 + int i * 5, pt_timestamp = 1700000000 + int i, pt_labels = [(''seq'', dec_nat i)]\<rparr>"

definition stream_limit :: "metric_request \<Rightarrow> nat" where
  "stream_limit req = nat (if 0 < rq_limit req then rq_limit req else 10)"

text \<open>The loop from \<open>i\<close> with \<open>left\<close> rounds to go: the points written, the lines printed, the status.\<close>

primrec stream_loop :: "(nat \<Rightarrow> bool) \<Rightarrow> (nat \<Rightarrow> bool) \<Rightarrow> metric_request \<Rightarrow> nat \<Rightarrow> nat \<Rightarrow> metric_point list \<times> console \<times> status" where
  "stream_loop is_cancelled write_ok req i 0 = ([], [], OK)"
| "stream_loop is_cancelled write_ok req i (Suc left) =
     (if is_cancelled i then ([], [''[server] client cancelled''], CANCELLED)
      else if \<not> write_ok i then ([], [], OK)
      else case stream_loop is_cancelled write_ok req (Suc i) left of (ps, ys, s) \<Rightarrow> (stream_point req i # ps, ys, s))"

definition StreamMetrics :: "(nat \<Rightarrow> bool) \<Rightarrow> (nat \<Rightarrow> bool) \<Rightarrow> metric_request \<Rightarrow> metric_point list \<times> console \<times> status" where
  "StreamMetrics is_cancelled write_ok req =
     (case stream_loop is_cancelled write_ok req 0 (stream_limit req) of (ps, ys, s) \<Rightarrow>
        (ps, (''[server] StreamMetrics: '' @ rq_name req @ '' limit='' @ dec_int (rq_limit req)) # ys, s))"

definition stream_client :: "(metric_request \<Rightarrow> metric_point list \<times> status) \<Rightarrow> console" where
  "stream_client stub =
     (case stub \<lparr>rq_name = ''mem_usage'', rq_limit = 5\<rparr> of (ps, s) \<Rightarrow>
        map (\<lambda>p. ''[client] '' @ pt_name p @ '' = '' @ show_tenths (pt_value p) @ '' ts='' @ dec_int (pt_timestamp p)) ps @
        [''[client] stream done: '' @ dec_nat (length ps) @ '' points, ok='' @ boolalpha (s = OK)])"

section \<open>06: client streaming\<close>

text \<open>The loop of \<open>BatchWrite\<close> over the points that \<open>Read\<close> delivers.\<close>

fun batch_loop :: "nat \<Rightarrow> nat \<Rightarrow> metric_point list \<Rightarrow> nat \<times> nat \<times> console" where
  "batch_loop a r [] = (a, r, [])"
| "batch_loop a r (p # ps) =
     (if pt_name p = [] then batch_loop a (Suc r) ps
      else case batch_loop (Suc a) r ps of (a', r', ys) \<Rightarrow> (a', r', (''[server] received: '' @ pt_name p @ '' = '' @ show_tenths (pt_value p)) # ys))"

definition BatchWrite :: "metric_point list \<Rightarrow> console \<times> batch_result \<times> status" where
  "BatchWrite ps =
     (case batch_loop 0 0 ps of (a, r, ys) \<Rightarrow>
        (ys, \<lparr>accepted = a, rejected = r, br_text = ''ingested '' @ dec_nat a @ '' points''\<rparr>, OK))"

definition batch_points :: "(string \<times> int) list" where
  "batch_points = [(''cpu_usage'', 721), (''mem_usage'', 40960), (''disk_io'', 12345), ([], 0), (''net_rx'', 9999)]"

text \<open>The client writes until a write fails; the points written, and what it prints on standard error.\<close>

fun client_writes :: "(nat \<Rightarrow> bool) \<Rightarrow> nat \<Rightarrow> (string \<times> int) list \<Rightarrow> int \<Rightarrow> metric_point list \<times> console" where
  "client_writes write_ok i [] now = ([], [])"
| "client_writes write_ok i ((name, val) # ps) now =
     (if write_ok i
      then case client_writes write_ok (Suc i) ps now of (qs, es) \<Rightarrow> (\<lparr>pt_name = name, pt_value = val, pt_timestamp = now, pt_labels = []\<rparr> # qs, es)
      else ([], [''[client] server closed stream early'']))"

definition batch_client :: "(metric_point list \<Rightarrow> batch_result \<times> status) \<Rightarrow> (nat \<Rightarrow> bool) \<Rightarrow> int \<Rightarrow> console \<times> console" where
  "batch_client finish write_ok now =
     (case client_writes write_ok 0 batch_points now of (sent, es) \<Rightarrow>
      case finish sent of (result, s) \<Rightarrow>
        if s = OK
        then ([''[client] accepted='' @ dec_nat (accepted result) @ '' rejected='' @ dec_nat (rejected result) @ '' msg='' @ br_text result], es)
        else ([], es @ [''[client] RPC failed: '' @ error_message s]))"

section \<open>07: bidirectional streaming\<close>

definition monitor_point :: "metric_request \<Rightarrow> nat \<Rightarrow> metric_point" where
  "monitor_point req i = \<lparr>pt_name = rq_name req, pt_value = 100 * (int i + 1), pt_timestamp = 1700000000 + int i, pt_labels = []\<rparr>"

definition monitor_count :: "metric_request \<Rightarrow> nat" where
  "monitor_count req = nat (if 0 < rq_limit req then rq_limit req else 3)"

text \<open>The inner loop: the points written and whether all writes succeeded; \<open>w\<close> counts the writes of the handler.\<close>

primrec monitor_burst :: "(nat \<Rightarrow> bool) \<Rightarrow> nat \<Rightarrow> metric_request \<Rightarrow> nat \<Rightarrow> nat \<Rightarrow> metric_point list \<times> bool" where
  "monitor_burst write_ok w req i 0 = ([], True)"
| "monitor_burst write_ok w req i (Suc left) =
     (if write_ok w then case monitor_burst write_ok (Suc w) req (Suc i) left of (ps, ok) \<Rightarrow> (monitor_point req i # ps, ok)
      else ([], False))"

fun monitor_loop :: "(nat \<Rightarrow> bool) \<Rightarrow> (nat \<Rightarrow> bool) \<Rightarrow> nat \<Rightarrow> nat \<Rightarrow> metric_request list \<Rightarrow> metric_point list \<times> console" where
  "monitor_loop is_cancelled write_ok k w [] = ([], [])"
| "monitor_loop is_cancelled write_ok k w (req # reqs) =
     (if is_cancelled k then ([], [])
      else case monitor_burst write_ok w req 0 (monitor_count req) of (ps, ok) \<Rightarrow>
        let line = ''[server] monitoring: '' @ rq_name req @ '' x'' @ dec_int (rq_limit req) in
        if \<not> ok then (ps, [line])
        else case monitor_loop is_cancelled write_ok (Suc k) (w + monitor_count req) reqs of (qs, ys) \<Rightarrow> (ps @ qs, line # ys))"

definition Monitor :: "(nat \<Rightarrow> bool) \<Rightarrow> (nat \<Rightarrow> bool) \<Rightarrow> metric_request list \<Rightarrow> metric_point list \<times> console \<times> status" where
  "Monitor is_cancelled write_ok reqs = (case monitor_loop is_cancelled write_ok 0 0 reqs of (ps, ys) \<Rightarrow> (ps, ys, OK))"

definition bidi_requests :: "metric_request list" where
  "bidi_requests = [\<lparr>rq_name = ''cpu_usage'', rq_limit = 3\<rparr>, \<lparr>rq_name = ''mem_usage'', rq_limit = 2\<rparr>]"

definition bidi_client :: "(metric_request list \<Rightarrow> metric_point list \<times> status) \<Rightarrow> (nat \<Rightarrow> bool) \<Rightarrow> console" where
  "bidi_client stream write_ok =
     (let sent = map snd (takeWhile (\<lambda>(i, r). write_ok i) (enumerate 0 bidi_requests)) in
      case stream sent of (ps, s) \<Rightarrow>
        map (\<lambda>p. ''[client] '' @ pt_name p @ '' = '' @ show_tenths (pt_value p)) ps @ [''[client] bidi done, ok='' @ boolalpha (s = OK)])"

section \<open>09: interceptors\<close>

datatype hook = PRE_SEND_INITIAL_METADATA | POST_RECV_MESSAGE | PRE_SEND_STATUS | OTHER_HOOK

text \<open>
  One batch: the hook points it carries, the metadata to send (absent when the pointer is null), the lines printed, and
  how often the chain was told to proceed.
\<close>

record batch =
  hooks :: "hook list"
  metadata :: "(string \<times> string) list option"
  printed :: console
  proceeded :: nat

definition proceed :: "batch \<Rightarrow> batch" where
  "proceed b = b\<lparr>proceeded := Suc (proceeded b)\<rparr>"

definition print_if :: "hook \<Rightarrow> string \<Rightarrow> batch \<Rightarrow> batch" where
  "print_if h s b = (if h \<in> set (hooks b) then b\<lparr>printed := printed b @ [s]\<rparr> else b)"

definition LoggingInterceptor :: "batch \<Rightarrow> batch" where
  "LoggingInterceptor b =
     proceed (print_if PRE_SEND_STATUS ''[server-interceptor] sending status''
       (print_if POST_RECV_MESSAGE ''[server-interceptor] received message''
         (print_if PRE_SEND_INITIAL_METADATA ''[server-interceptor] sending initial metadata'' b)))"

definition AuthInterceptor :: "batch \<Rightarrow> batch" where
  "AuthInterceptor b = proceed b"

definition AuthTokenInterceptor :: "string \<Rightarrow> batch \<Rightarrow> batch" where
  "AuthTokenInterceptor token b =
     proceed
       (if PRE_SEND_INITIAL_METADATA \<in> set (hooks b)
        then b\<lparr>metadata := map_option (\<lambda>md. md @ [(''x-auth-token'', token)]) (metadata b),
               printed := printed b @ [''[client-interceptor] injected auth token'']\<rparr>
        else b)"

definition GetMetric_auth :: "(string \<times> string) list \<Rightarrow> metric_request \<Rightarrow> console \<times> metric_point \<times> status" where
  "GetMetric_auth md req =
     (if map_of md ''x-auth-token'' \<noteq> Some ''secret'' then ([''[server] unauthorized''], point_default, UNAUTHENTICATED ''bad token'')
      else ([], point_default\<lparr>pt_name := rq_name req, pt_value := 10\<rparr>, OK))"

text \<open>
  The call of \<open>main\<close>: the client interceptor sees the batch that sends the initial metadata, the server gets that
  metadata.
\<close>

definition interceptor_call :: "string \<Rightarrow> (string \<times> string) list \<Rightarrow> metric_request \<Rightarrow> console \<times> metric_point \<times> status" where
  "interceptor_call token md req =
     (let b = AuthTokenInterceptor token \<lparr>hooks = [PRE_SEND_INITIAL_METADATA], metadata = Some md, printed = [], proceeded = 0\<rparr> in
      case GetMetric_auth (case metadata b of Some m \<Rightarrow> m | None \<Rightarrow> []) req of (ys, resp, s) \<Rightarrow> (printed b @ ys, resp, s))"

definition interceptors_client :: "metric_point \<times> status \<Rightarrow> console" where
  "interceptors_client answer =
     (case answer of (resp, s) \<Rightarrow> [''[client] ok='' @ boolalpha (s = OK) @ '' val='' @ show_tenths (pt_value resp)])"

section \<open>10: deadlines and cancellation\<close>

primrec slow_loop :: "(nat \<Rightarrow> bool) \<Rightarrow> nat \<Rightarrow> nat \<Rightarrow> nat option" where
  "slow_loop is_cancelled i 0 = None"
| "slow_loop is_cancelled i (Suc left) = (if is_cancelled i then Some i else slow_loop is_cancelled (Suc i) left)"

definition GetMetric_slow :: "(nat \<Rightarrow> bool) \<Rightarrow> metric_request \<Rightarrow> console \<times> metric_point \<times> status" where
  "GetMetric_slow is_cancelled req =
     (let start = ''[server] GetMetric: '' @ rq_name req in
      case slow_loop is_cancelled 0 20 of
        Some i \<Rightarrow> ([start, ''[server] cancelled after '' @ dec_nat i @ '' steps''], point_default, CANCELLED)
      | None \<Rightarrow> ([start], point_default\<lparr>pt_name := rq_name req, pt_value := 420\<rparr>, OK))"

definition endless_point :: "metric_request \<Rightarrow> nat \<Rightarrow> metric_point" where
  "endless_point req i = \<lparr>pt_name = rq_name req, pt_value = 10 * int i, pt_timestamp = 1700000000 + int i, pt_labels = []\<rparr>"

text \<open>The stream without a bound: \<open>None\<close> when the loop never ends.\<close>

partial_function (option) endless_stream ::
  "(nat \<Rightarrow> bool) \<Rightarrow> (nat \<Rightarrow> bool) \<Rightarrow> metric_request \<Rightarrow> nat \<Rightarrow> metric_point list \<Rightarrow> (metric_point list \<times> console \<times> status) option" where
  "endless_stream is_cancelled write_ok req i ps =
     (if is_cancelled i then Some (ps, [''[server] stream cancelled at i='' @ dec_nat i], CANCELLED)
      else if \<not> write_ok i then Some (ps, [], OK)
      else endless_stream is_cancelled write_ok req (Suc i) (ps @ [endless_point req i]))"

definition demo_deadline :: "(metric_request \<Rightarrow> status) \<Rightarrow> console" where
  "demo_deadline stub =
     (let s = stub (request_default\<lparr>rq_name := ''slow_metric''\<rparr>) in
      [''[deadline demo] ok='' @ boolalpha (s = OK) @ '' code='' @ dec_nat (status_code s) @
       (if s = DEADLINE_EXCEEDED then '' -> DEADLINE_EXCEEDED (expected)'' else [])])"

text \<open>\<open>demo_cancel\<close> reads the points that still arrive and asks for the cancellation after the second one.\<close>

fun cancel_reads :: "nat \<Rightarrow> metric_point list \<Rightarrow> console" where
  "cancel_reads c [] = []"
| "cancel_reads c (p # ps) =
     (''[cancel demo] got pt '' @ dec_nat c @ '' = '' @ show_tenths (pt_value p)) #
     (if Suc c = 2 then [''[cancel demo] calling TryCancel()''] else []) @ cancel_reads (Suc c) ps"

definition demo_cancel :: "metric_point list \<Rightarrow> status \<Rightarrow> console" where
  "demo_cancel ps s =
     cancel_reads 0 ps @
     [''[cancel demo] final code='' @ dec_nat (status_code s) @ (if s = CANCELLED then '' -> CANCELLED (expected)'' else [])]"

section \<open>What the handlers guarantee\<close>

text \<open>A streaming loop stops at the first round in which it sees a cancellation or a failed write.\<close>

definition goes_on :: "(nat \<Rightarrow> bool) \<Rightarrow> (nat \<Rightarrow> bool) \<Rightarrow> nat \<Rightarrow> bool" where
  "goes_on is_cancelled write_ok i \<longleftrightarrow> \<not> is_cancelled i \<and> write_ok i"

lemma upt_first: "[i..<i + Suc k] = i # [Suc i..<Suc i + k]"
  by (metis add_Suc_right add_Suc less_add_Suc1 upt_conv_Cons)

lemma stream_loop_spec:
  "stream_loop c w req i left =
     (let n = length (takeWhile (goes_on c w) [i..<i + left]) in
      (map (stream_point req) [i..<i + n],
       if n < left \<and> c (i + n) then [''[server] client cancelled''] else [],
       if n < left \<and> c (i + n) then CANCELLED else OK))"
proof (induction left arbitrary: i)
  case (Suc left)
  define n where "n = length (takeWhile (goes_on c w) [Suc i..<Suc i + left])"
  have step: "stream_loop c w req (Suc i) left =
      (map (stream_point req) [Suc i..<Suc i + n],
       if n < left \<and> c (Suc i + n) then [''[server] client cancelled''] else [],
       if n < left \<and> c (Suc i + n) then CANCELLED else OK)"
    using Suc [of "Suc i"] by (simp only: n_def Let_def)
  show ?case
  proof (cases "goes_on c w i")
    case True
    then have "length (takeWhile (goes_on c w) [i..<i + Suc left]) = Suc n"
      unfolding upt_first n_def by simp
    with True step show ?thesis
      unfolding Let_def by (simp add: upt_conv_Cons [of i "Suc (i + n)"] goes_on_def del: upt_Suc)
  next
    case False
    then have "length (takeWhile (goes_on c w) [i..<i + Suc left]) = 0"
      unfolding upt_first by simp
    with False show ?thesis
      unfolding Let_def by (auto simp: goes_on_def simp del: upt_Suc)
  qed
qed simp

lemma batch_loop_spec:
  "batch_loop a r ps =
     (a + length (filter (\<lambda>p. pt_name p \<noteq> []) ps), r + length (filter (\<lambda>p. pt_name p = []) ps),
      map (\<lambda>p. ''[server] received: '' @ pt_name p @ '' = '' @ show_tenths (pt_value p)) (filter (\<lambda>p. pt_name p \<noteq> []) ps))"
  by (induction a r ps rule: batch_loop.induct) auto

lemma monitor_burst_all:
  "(\<And>v. w \<le> v \<Longrightarrow> write_ok v) \<Longrightarrow> monitor_burst write_ok w req i left = (map (monitor_point req) [i..<i + left], True)"
proof (induction left arbitrary: w i)
  case (Suc left)
  then show ?case using Suc.IH [of "Suc w" "Suc i"] by (simp only: upt_first) simp
qed simp

lemma monitor_loop_all:
  "fst (monitor_loop (\<lambda>_. False) (\<lambda>_. True) k w reqs) = concat (map (\<lambda>r. map (monitor_point r) [0..<monitor_count r]) reqs)"
proof (induction reqs arbitrary: k w)
  case (Cons r reqs)
  have burst: "monitor_burst (\<lambda>_. True) w r 0 (monitor_count r) = (map (monitor_point r) [0..<monitor_count r], True)"
    using monitor_burst_all [of w "\<lambda>_. True" r 0 "monitor_count r"] by simp
  show ?case
    using Cons.IH [of "Suc k" "w + monitor_count r"]
    by (cases "monitor_loop (\<lambda>_. False) (\<lambda>_. True) (Suc k) (w + monitor_count r) reqs") (simp add: burst Let_def)
qed simp

lemma monitor_burst_prefix:
  "monitor_burst write_ok w req i left = (ps, ok) \<Longrightarrow> \<exists>n\<le>left. ps = map (monitor_point req) [i..<i + n] \<and> (ok \<longleftrightarrow> n = left)"
proof (induction left arbitrary: w i ps ok)
  case (Suc left)
  show ?case
  proof (cases "write_ok w")
    case True
    then obtain qs where qs: "monitor_burst write_ok (Suc w) req (Suc i) left = (qs, ok)" "ps = monitor_point req i # qs"
      using Suc.prems by (auto split: prod.splits)
    from Suc.IH [OF qs(1)] obtain n where "n \<le> left" "qs = map (monitor_point req) [Suc i..<Suc i + n]" "ok \<longleftrightarrow> n = left"
      by blast
    with qs(2) show ?thesis by (intro exI [of _ "Suc n"]) (simp only: upt_first, simp)
  next
    case False
    then show ?thesis using Suc.prems by (intro exI [of _ 0]) auto
  qed
qed simp

lemma slow_loop_find: "slow_loop c i left = List.find c [i..<i + left]"
proof (induction left arbitrary: i)
  case (Suc left)
  then show ?case by (simp only: upt_first) simp
qed simp

lemma endless_stream_stops:
  assumes "\<forall>j<n. goes_on c w (i + j)" and "\<not> goes_on c w (i + n)"
  shows "endless_stream c w req i ps =
    Some (ps @ map (endless_point req) [i..<i + n],
          if c (i + n) then [''[server] stream cancelled at i='' @ dec_nat (i + n)] else [],
          if c (i + n) then CANCELLED else OK)"
  using assms
proof (induction n arbitrary: i ps)
  case 0
  then show ?case by (subst endless_stream.simps) (auto simp: goes_on_def)
next
  case (Suc n)
  have "goes_on c w i" using Suc.prems(1) by (metis add.right_neutral zero_less_Suc)
  moreover have "\<forall>j<n. goes_on c w (Suc i + j)" "\<not> goes_on c w (Suc i + n)"
    using Suc.prems by (metis Suc_less_eq add_Suc_shift, simp)
  ultimately show ?case
    using Suc.IH [of "Suc i" "ps @ [endless_point req i]"]
    by (subst endless_stream.simps) (simp only: upt_first goes_on_def, simp)
qed


lemma endless_stream_returns_imp:
  assumes "endless_stream c w req i ps = Some r"
  shows "\<exists>j. \<not> goes_on c w (i + j)"
proof (rule endless_stream.raw_induct [where P = "\<lambda>c w req i ps r. \<exists>j. \<not> goes_on c w (i + j)", OF _ assms])
  fix f c w req i ps r
  assume hyp: "\<And>c w req i ps r. f c w req i ps = Some r \<Longrightarrow> \<exists>j. \<not> goes_on c w (i + j)"
    and body: "(if c i then Some (ps, [''[server] stream cancelled at i='' @ dec_nat i], CANCELLED) else if \<not> w i then Some (ps, [], OK)
      else f c w req (Suc i) (ps @ [endless_point req i])) = Some r"
  show "\<exists>j. \<not> goes_on c w (i + j)"
  proof (cases "goes_on c w i")
    case True
    then have "f c w req (Suc i) (ps @ [endless_point req i]) = Some r"
      using body by (auto simp: goes_on_def)
    from hyp [OF this] obtain j where "\<not> goes_on c w (Suc i + j)" by blast
    then show ?thesis by (intro exI [of _ "Suc j"]) simp
  next
    case False
    then show ?thesis by (intro exI [of _ 0]) simp
  qed
qed

text \<open>An endless stream returns exactly when some round sees a cancellation or a failed write.\<close>

lemma endless_stream_returns: "(\<exists>r. endless_stream c w req i ps = Some r) \<longleftrightarrow> (\<exists>j. \<not> goes_on c w (i + j))"
proof
  assume stops: "\<exists>j. \<not> goes_on c w (i + j)"
  define n where "n = (LEAST j. \<not> goes_on c w (i + j))"
  have "\<not> goes_on c w (i + n)" using stops unfolding n_def by (rule LeastI_ex)
  moreover have "\<forall>j<n. goes_on c w (i + j)" unfolding n_def using not_less_Least by blast
  ultimately show "\<exists>r. endless_stream c w req i ps = Some r"
    using endless_stream_stops by blast
qed (use endless_stream_returns_imp in blast)

lemma auth_injected:
  assumes "map_of md ''x-auth-token'' = None"
  shows "interceptor_call ''secret'' md req =
      ([''[client-interceptor] injected auth token''], point_default\<lparr>pt_name := rq_name req, pt_value := 10\<rparr>, OK)"
    and "token \<noteq> ''secret'' \<Longrightarrow> snd (snd (interceptor_call token md req)) = UNAUTHENTICATED ''bad token''"
  using assms
  by (simp_all add: interceptor_call_def AuthTokenInterceptor_def proceed_def GetMetric_auth_def map_add_def)

text \<open>Every interceptor of the chain lets the call go on exactly once, whatever the batch carries.\<close>

lemma interceptors_proceed:
  "proceeded (LoggingInterceptor b) = Suc (proceeded b)" "proceeded (AuthInterceptor b) = Suc (proceeded b)"
  "proceeded (AuthTokenInterceptor token b) = Suc (proceeded b)" "metadata (AuthInterceptor b) = metadata b"
  by (simp_all add: LoggingInterceptor_def AuthInterceptor_def AuthTokenInterceptor_def proceed_def print_if_def)

section \<open>Properties\<close>

text \<open>
  The streaming handlers, for every answer of the library.  \<open>StreamMetrics\<close> of the server-streaming program returns; it
  writes the points \<open>0, 1, \<dots>\<close> up to the first round that sees a cancellation or a failed write, never more than the limit
  (10 for a limit that is not positive), and the status is \<open>CANCELLED\<close> exactly when it stopped at a cancellation.
  \<open>BatchWrite\<close> accepts the points with a name and rejects the others.  \<open>Monitor\<close>, undisturbed, writes for every request its
  number of points, in the order of the requests.  The slow handler is cancelled at the first of its 20 checks that says
  so.  The stream without a limit returns exactly when some round sees a cancellation or a failed write.
\<close>

theorem streaming_handlers:
  "(let n = length (takeWhile (goes_on c w) [0..<stream_limit req]) in
      fst (StreamMetrics c w req) = map (stream_point req) [0..<n] \<and>
      snd (snd (StreamMetrics c w req)) = (if n < stream_limit req \<and> c n then CANCELLED else OK)) \<and>
   (case BatchWrite ps of (ys, result, s) \<Rightarrow>
      s = OK \<and> accepted result + rejected result = length ps \<and> accepted result = length (filter (\<lambda>p. pt_name p \<noteq> []) ps) \<and>
      length ys = accepted result) \<and>
   fst (Monitor (\<lambda>_. False) (\<lambda>_. True) reqs) = concat (map (\<lambda>r. map (monitor_point r) [0..<monitor_count r]) reqs) \<and>
   snd (snd (GetMetric_slow c req)) = (if List.find c [0..<20] = None then OK else CANCELLED) \<and>
   ((\<exists>r. endless_stream c w req 0 [] = Some r) \<longleftrightarrow> (\<exists>j. \<not> goes_on c w j))"
proof -
  have "length (filter (\<lambda>p. pt_name p \<noteq> []) ps) + length (filter (\<lambda>p. pt_name p = []) ps) = length ps"
    using sum_length_filter_compl [of "\<lambda>p. pt_name p \<noteq> []" ps] by simp
  moreover have "fst (Monitor (\<lambda>_. False) (\<lambda>_. True) reqs) = fst (monitor_loop (\<lambda>_. False) (\<lambda>_. True) 0 0 reqs)"
    by (simp add: Monitor_def split: prod.split)
  moreover have "(\<exists>r. endless_stream c w req 0 [] = Some r) \<longleftrightarrow> (\<exists>j. \<not> goes_on c w j)"
    using endless_stream_returns [of c w req 0 "[]"] by (simp add: goes_on_def)
  ultimately show ?thesis
    by (auto simp: StreamMetrics_def stream_loop_spec BatchWrite_def batch_loop_spec monitor_loop_all GetMetric_slow_def
        slow_loop_find Let_def split: option.split)
qed

text \<open>The four sessions, with a library that passes every message on.\<close>

lemma rpc_sessions:
  "unary_client (\<lambda>req. snd (GetMetric 1700000000 req)) =
     ([''[client] cpu_usage = 42.7 ts=1700000000'', ''[client] empty name -> code=3 msg=name required''], [])"
  "stream_client (\<lambda>req. case StreamMetrics (\<lambda>_. False) (\<lambda>_. True) req of (ps, ys, s) \<Rightarrow> (ps, s)) =
     [''[client] mem_usage = 50 ts=1700000000'', ''[client] mem_usage = 50.5 ts=1700000001'', ''[client] mem_usage = 51 ts=1700000002'',
      ''[client] mem_usage = 51.5 ts=1700000003'', ''[client] mem_usage = 52 ts=1700000004'', ''[client] stream done: 5 points, ok=true'']"
  "batch_client (\<lambda>ps. snd (BatchWrite ps)) (\<lambda>_. True) 0 = ([''[client] accepted=4 rejected=1 msg=ingested 4 points''], [])"
  "bidi_client (\<lambda>reqs. case Monitor (\<lambda>_. False) (\<lambda>_. True) reqs of (ps, ys, s) \<Rightarrow> (ps, s)) (\<lambda>_. True) =
     [''[client] cpu_usage = 10'', ''[client] cpu_usage = 20'', ''[client] cpu_usage = 30'', ''[client] mem_usage = 10'',
      ''[client] mem_usage = 20'', ''[client] bidi done, ok=true'']"
  "demo_deadline (\<lambda>_. DEADLINE_EXCEEDED) = [''[deadline demo] ok=false code=4 -> DEADLINE_EXCEEDED (expected)'']"
  by code_simp+

end
