(* ===== verification/Async_Server.thy ===== *)
theory Async_Server
  imports Rpc_Handlers "HOL-Library.Multiset"
begin

text \<open>
  The asynchronous server of \<^verbatim>\<open>grpc_proto/08_grpc_async.cpp\<close>: a \<open>CallData\<close> object per call, driven by the events of one
  completion queue that two worker threads drain.  The library is modelled by what it documents: an operation started with a
  tag (a request for the next call, the sending of a reply) later puts one event with that tag into the queue, in
  any order, with \<open>ok\<close> false when the server is shut down before a call arrived; a worker takes any event that is
  there.  The workers may be any number.  The clients of the program stay until they have their answer, so the sending of a reply completes with \<open>ok\<close>; a client that
  goes away before, for which \<open>Finish\<close> may complete with \<open>ok\<close> false and \<open>drain_queue\<close> would leave the object undeleted, is not modelled.
\<close>

section \<open>State\<close>

datatype cd_state = CREATE | PROCESS | FINISH

text \<open>A \<open>CallData\<close> object; \<open>alive\<close> until \<^verbatim>\<open>delete this\<close>.  \<open>request\<close> is filled in by the library when the call arrives.\<close>

record call_data =
  cd_st :: cd_state
  request :: "nat option"
  alive :: bool

text \<open>
  \<open>requests\<close> are the names sent by clients, by number, and \<open>waiting\<close> the numbers of those the server has not been given yet;
  \<open>listening\<close> and \<open>sending\<close> are the operations in progress, a reply with the number of the request its responder belongs to.
\<close>

record async_server =
  requests :: "string list"
  waiting :: "nat list"
  calls :: "call_data list"
  listening :: "nat list"
  sending :: "(nat \<times> nat \<times> metric_point) list"
  queue :: "(nat \<times> bool) list"
  held :: "(nat \<times> bool) option list"
  replies :: "(nat \<times> metric_point) list"
  down :: bool
  async_out :: console

definition async_point :: "string \<Rightarrow> metric_point" where
  "async_point name = \<lparr>pt_name = name, pt_value = 999, pt_timestamp = 1700000042, pt_labels = []\<rparr>"

text \<open>The constructor calls \<open>Proceed\<close> in state \<open>CREATE\<close>: it registers for the next call, which fails at once after a shutdown.\<close>

definition new_CallData :: "async_server \<Rightarrow> async_server" where
  "new_CallData s =
     (let t = length (calls s); s1 = s\<lparr>calls := calls s @ [\<lparr>cd_st = PROCESS, request = None, alive = True\<rparr>]\<rparr> in
      if down s then s1\<lparr>queue := queue s1 @ [(t, False)]\<rparr> else s1\<lparr>listening := listening s1 @ [t]\<rparr>)"

definition call_name :: "async_server \<Rightarrow> nat \<Rightarrow> string" where
  "call_name s t = (case request (calls s ! t) of Some r \<Rightarrow> requests s ! r | None \<Rightarrow> [])"

definition Proceed :: "nat \<Rightarrow> async_server \<Rightarrow> async_server" where
  "Proceed t s =
     (case cd_st (calls s ! t) of
        CREATE \<Rightarrow> s\<lparr>calls := (calls s)[t := (calls s ! t)\<lparr>cd_st := PROCESS\<rparr>], listening := listening s @ [t]\<rparr>
      | PROCESS \<Rightarrow>
          (let s1 = new_CallData s in
           s1\<lparr>async_out := async_out s1 @ [''[async-server] GetMetric: '' @ call_name s t],
              calls := (calls s1)[t := (calls s1 ! t)\<lparr>cd_st := FINISH\<rparr>],
              sending := sending s1 @ [(t, the (request (calls s ! t)), async_point (call_name s t))]\<rparr>)
      | FINISH \<Rightarrow> s\<lparr>calls := (calls s)[t := (calls s ! t)\<lparr>alive := False\<rparr>]\<rparr>)"

definition async_init :: "nat \<Rightarrow> string list \<Rightarrow> async_server" where
  "async_init workers reqs =
     new_CallData \<lparr>requests = reqs, waiting = [0..<length reqs], calls = [], listening = [], sending = [], queue = [],
                   held = replicate workers None, replies = [], down = False, async_out = []\<rparr>"

section \<open>Steps\<close>

text \<open>
  The library: a waiting request meets a registered call, a reply has been sent, the server shuts down (which fails the
  registered calls).  A worker: \<open>Next\<close> takes an event, then the body of the loop runs \<open>Proceed\<close> when \<open>ok\<close>.
\<close>

inductive async_step :: "async_server \<Rightarrow> async_server \<Rightarrow> bool" where
  arrive: "waiting s = rs @ r # rs' \<Longrightarrow> listening s = ls @ t # ls' \<Longrightarrow>
    async_step s (s\<lparr>waiting := rs @ rs', listening := ls @ ls', calls := (calls s)[t := (calls s ! t)\<lparr>request := Some r\<rparr>],
      queue := queue s @ [(t, True)]\<rparr>)"
| sent: "sending s = ss @ (t, r, p) # ss' \<Longrightarrow>
    async_step s (s\<lparr>sending := ss @ ss', replies := replies s @ [(r, p)], queue := queue s @ [(t, True)]\<rparr>)"
| shutdown: "\<not> down s \<Longrightarrow>
    async_step s (s\<lparr>down := True, listening := [], queue := queue s @ map (\<lambda>t. (t, False)) (listening s)\<rparr>)"
| Next_event: "queue s = qs @ e # qs' \<Longrightarrow> k < length (held s) \<Longrightarrow> held s ! k = None \<Longrightarrow>
    async_step s (s\<lparr>queue := qs @ qs', held := (held s)[k := Some e]\<rparr>)"
| handle_ok: "k < length (held s) \<Longrightarrow> held s ! k = Some (t, True) \<Longrightarrow> async_step s (Proceed t (s\<lparr>held := (held s)[k := None]\<rparr>))"
| handle_bad: "k < length (held s) \<Longrightarrow> held s ! k = Some (t, False) \<Longrightarrow> async_step s (s\<lparr>held := (held s)[k := None]\<rparr>)"

inductive_cases async_stepE: "async_step s s'"

section \<open>Invariant\<close>

definition event_of :: "(nat \<times> bool) option \<Rightarrow> (nat \<times> bool) multiset" where
  "event_of h = (case h of None \<Rightarrow> {#} | Some e \<Rightarrow> {#e#})"

text \<open>The events that are in the queue or in the hands of a worker, and the tags the library or a worker still holds.\<close>

definition events :: "async_server \<Rightarrow> (nat \<times> bool) multiset" where
  "events s = mset (queue s) + sum_list (map event_of (held s))"

definition tags :: "async_server \<Rightarrow> nat multiset" where
  "tags s = mset (listening s) + image_mset fst (mset (sending s)) + image_mset fst (events s)"

definition tags_ok :: "async_server \<Rightarrow> bool" where
  "tags_ok s \<longleftrightarrow>
     (\<forall>t. count (tags s) t \<le> (if t < length (calls s) \<and> alive (calls s ! t) then 1 else 0)) \<and>
     (\<forall>t<length (calls s).
        (cd_st (calls s ! t) = FINISH \<and> alive (calls s ! t) \<longrightarrow> t \<in># tags s) \<and>
        (cd_st (calls s ! t) = PROCESS \<longrightarrow> alive (calls s ! t) \<and> (\<not> down s \<longrightarrow> t \<in># tags s)) \<and>
        cd_st (calls s ! t) \<noteq> CREATE)"

definition event_fits :: "call_data \<Rightarrow> bool \<Rightarrow> bool" where
  "event_fits c ok \<longleftrightarrow>
     (if ok then cd_st c = PROCESS \<longrightarrow> request c \<noteq> None else cd_st c = PROCESS \<and> request c = None)"

definition shapes_ok :: "async_server \<Rightarrow> bool" where
  "shapes_ok s \<longleftrightarrow>
     (\<forall>t\<in>set (listening s). event_fits (calls s ! t) False) \<and>
     (\<forall>(t, r, p)\<in>set (sending s). cd_st (calls s ! t) = FINISH \<and> p = async_point (requests s ! r)) \<and>
     (\<forall>(t, ok)\<in>#events s. event_fits (calls s ! t) ok) \<and>
     (down s \<longrightarrow> listening s = []) \<and>
     (\<forall>t. (t, False) \<in># events s \<longrightarrow> down s)"

definition accepting :: "call_data \<Rightarrow> nat" where
  "accepting c = (if cd_st c = PROCESS then 1 else 0)"

definition given :: "call_data \<Rightarrow> nat multiset" where
  "given c = (if cd_st c = PROCESS then (case request c of None \<Rightarrow> {#} | Some r \<Rightarrow> {#r#}) else {#})"

text \<open>Every request is waiting, with a call that has not answered it yet, on its way back, or answered.\<close>

definition accounts_ok :: "async_server \<Rightarrow> bool" where
  "accounts_ok s \<longleftrightarrow>
     sum_list (map accepting (calls s)) = 1 \<and>
     mset (waiting s) + sum_list (map given (calls s)) + image_mset (fst \<circ> snd) (mset (sending s)) + mset (map fst (replies s))
       = mset [0..<length (requests s)] \<and>
     (\<forall>(r, p)\<in>set (replies s). p = async_point (requests s ! r))"

definition async_inv :: "async_server \<Rightarrow> bool" where
  "async_inv s \<longleftrightarrow> tags_ok s \<and> shapes_ok s \<and> accounts_ok s"

lemmas async_defs = tags_ok_def shapes_ok_def accounts_ok_def

lemma events_hold:
  assumes "k < length (held s)" and "held s ! k = None"
  shows "sum_list (map event_of ((held s)[k := Some e])) = add_mset e (sum_list (map event_of (held s)))"
  using sum_list_map_update [OF assms(1), of event_of "Some e"] assms(2) by (simp add: event_of_def)

lemma events_drop:
  assumes "k < length (held s)" and "held s ! k = Some e"
  shows "events s = add_mset e (events (s\<lparr>held := (held s)[k := None]\<rparr>))"
  using sum_list_map_update [OF assms(1), of event_of None] assms(2) by (simp add: event_of_def events_def)

lemma async_init_inv: "async_inv (async_init n reqs)"
proof -
  have "sum_list (map event_of (replicate n None)) = {#}"
    by (rule sum_list_map_zero) (auto simp: event_of_def)
  then show ?thesis
    by (simp add: async_inv_def async_defs async_init_def new_CallData_def Let_def tags_def events_def accepting_def given_def event_fits_def)
qed

lemma tag_known:
  assumes "tags_ok s" and "t \<in># tags s"
  shows "t < length (calls s)" and "alive (calls s ! t)" and "count (tags s) t = 1"
proof -
  have "0 < count (tags s) t" using assms(2) by simp
  moreover have "count (tags s) t \<le> (if t < length (calls s) \<and> alive (calls s ! t) then 1 else 0)"
    using assms(1) by (simp add: tags_ok_def)
  ultimately show "t < length (calls s)" and "alive (calls s ! t)" and "count (tags s) t = 1"
    by (auto split: if_splits simp del: count_greater_zero_iff)
qed

lemma tags_ok_same:
  assumes "tags_ok s" and "tags s' = tags s" and "length (calls s') = length (calls s)" and "down s \<Longrightarrow> down s'"
    and "\<And>u. alive (calls s' ! u) = alive (calls s ! u)" and "\<And>u. cd_st (calls s' ! u) = cd_st (calls s ! u)"
  shows "tags_ok s'"
  using assms(1, 4) unfolding tags_ok_def assms(2, 3, 5, 6) by blast

lemma arrive_inv:
  assumes inv: "async_inv s" and rs: "waiting s = rs @ r # rs'" and ls: "listening s = ls @ t # ls'"
    and s': "s' = s\<lparr>waiting := rs @ rs', listening := ls @ ls', calls := (calls s)[t := (calls s ! t)\<lparr>request := Some r\<rparr>],
      queue := queue s @ [(t, True)]\<rparr>"
  shows "async_inv s'"
proof -
  have toks: "tags s' = tags s"
    using ls s' by (simp add: tags_def events_def)
  have t: "t < length (calls s)" "count (tags s) t = 1"
    using inv ls tag_known [of s t] by (auto simp: async_inv_def tags_def)
  have pr: "cd_st (calls s ! t) = PROCESS" "request (calls s ! t) = None"
    using inv ls by (auto simp: async_inv_def shapes_ok_def event_fits_def)
  have calls: "calls s' ! u = (if u = t then (calls s ! t)\<lparr>request := Some r\<rparr> else calls s ! u)" for u
    using s' t(1) by simp
  have alone: "t \<notin> set ls \<union> set ls'" "t \<notin># image_mset fst (mset (sending s))" "t \<notin># image_mset fst (events s)"
    using t(2) ls by (auto simp: tags_def count_eq_zero_iff simp flip: count_mset)
  have same: "listening s' = ls @ ls'" "sending s' = sending s" "requests s' = requests s" "down s' = down s"
      "length (calls s') = length (calls s)"
    using s' by simp_all
  have "shapes_ok s'"
    unfolding shapes_ok_def
  proof (intro conjI)
    show "\<forall>u\<in>set (listening s'). event_fits (calls s' ! u) False"
      using inv ls alone(1) by (auto simp: async_inv_def shapes_ok_def calls same)
    show "\<forall>(u, r, p)\<in>set (sending s'). cd_st (calls s' ! u) = FINISH \<and> p = async_point (requests s' ! r)"
      using inv pr(1) by (force simp: async_inv_def shapes_ok_def calls same)
    have "events s' = add_mset (t, True) (events s)"
      using s' by (simp add: events_def)
    moreover have "\<forall>(u, ok)\<in>#events s. event_fits (calls s' ! u) ok"
    proof (intro ballI, clarify)
      fix u ok assume e: "(u, ok) \<in># events s"
      then have "u \<noteq> t" using alone(3) by (metis fst_conv image_eqI set_image_mset)
      moreover have "event_fits (calls s ! u) ok"
        using inv e unfolding async_inv_def shapes_ok_def by blast
      ultimately show "event_fits (calls s' ! u) ok" by (simp add: calls)
    qed
    ultimately show "\<forall>(u, ok)\<in>#events s'. event_fits (calls s' ! u) ok"
      by (simp add: calls event_fits_def)
    show "down s' \<longrightarrow> listening s' = []"
      using inv ls by (auto simp: async_inv_def shapes_ok_def same)
    show "\<forall>u. (u, False) \<in># events s' \<longrightarrow> down s'"
      using inv \<open>events s' = add_mset (t, True) (events s)\<close> by (auto simp: async_inv_def shapes_ok_def same)
  qed
  moreover have "tags_ok s'"
    by (rule tags_ok_same [of s]) (use inv toks same in \<open>simp_all add: async_inv_def calls\<close>)
  moreover have "accounts_ok s'"
    using inv rs pr s' sum_list_map_update [OF t(1), of accepting "(calls s ! t)\<lparr>request := Some r\<rparr>"]
      sum_list_map_update [OF t(1), of given "(calls s ! t)\<lparr>request := Some r\<rparr>"]
    by (simp add: async_inv_def accounts_ok_def accepting_def given_def)
  ultimately show ?thesis by (simp add: async_inv_def)
qed

lemma sent_inv:
  assumes inv: "async_inv s" and ss: "sending s = ss @ (t, r, p) # ss'"
    and s': "s' = s\<lparr>sending := ss @ ss', replies := replies s @ [(r, p)], queue := queue s @ [(t, True)]\<rparr>"
  shows "async_inv s'"
proof -
  have fin: "cd_st (calls s ! t) = FINISH" "p = async_point (requests s ! r)"
    using inv ss by (auto simp: async_inv_def shapes_ok_def)
  have "tags_ok s'"
    by (rule tags_ok_same [of s]) (use inv ss s' in \<open>simp_all add: async_inv_def tags_def events_def\<close>)
  moreover have "shapes_ok s'"
    using inv ss s' fin by (auto simp: async_inv_def shapes_ok_def events_def event_fits_def)
  moreover have "accounts_ok s'"
    using inv ss s' fin by (auto simp: async_inv_def accounts_ok_def)
  ultimately show ?thesis by (simp add: async_inv_def)
qed

lemma shutdown_inv:
  assumes inv: "async_inv s"
    and s': "s' = s\<lparr>down := True, listening := [], queue := queue s @ map (\<lambda>t. (t, False)) (listening s)\<rparr>"
  shows "async_inv s'"
proof -
  have "tags_ok s'"
    by (rule tags_ok_same [of s]) (use inv s' in \<open>simp_all add: async_inv_def tags_def events_def image_mset.compositionality comp_def\<close>)
  moreover have "shapes_ok s'"
    using inv s' by (auto simp: async_inv_def shapes_ok_def events_def)
  moreover have "accounts_ok s'"
    using inv s' by (simp add: async_inv_def accounts_ok_def)
  ultimately show ?thesis by (simp add: async_inv_def)
qed

lemma Next_inv:
  assumes inv: "async_inv s" and qs: "queue s = qs @ e # qs'" and k: "k < length (held s)" "held s ! k = None"
    and s': "s' = s\<lparr>queue := qs @ qs', held := (held s)[k := Some e]\<rparr>"
  shows "async_inv s'"
proof -
  have ev: "events s' = events s"
    using s' qs events_hold [OF k] by (simp add: events_def)
  have "tags_ok s'"
    by (rule tags_ok_same [of s]) (use inv s' ev in \<open>simp_all add: async_inv_def tags_def\<close>)
  moreover have "shapes_ok s'"
    using inv s' ev by (simp add: async_inv_def shapes_ok_def)
  moreover have "accounts_ok s'"
    using inv s' by (simp add: async_inv_def accounts_ok_def)
  ultimately show ?thesis by (simp add: async_inv_def)
qed

lemma handle_bad_inv:
  assumes inv: "async_inv s" and k: "k < length (held s)" "held s ! k = Some (t, False)"
    and s': "s' = s\<lparr>held := (held s)[k := None]\<rparr>"
  shows "async_inv s'"
proof -
  have ev: "events s = add_mset (t, False) (events s')"
    using events_drop [OF k] s' by simp
  have same: "listening s' = listening s" "sending s' = sending s" "requests s' = requests s" "down s' = down s" "calls s' = calls s"
    using s' by simp_all
  have tg: "tags s = add_mset t (tags s')"
    using ev same by (simp add: tags_def)
  have dn: "down s" "cd_st (calls s ! t) = PROCESS"
    using inv ev by (auto simp: async_inv_def shapes_ok_def event_fits_def)
  have "tags_ok s'"
    unfolding tags_ok_def same
  proof (intro conjI allI impI)
    fix u
    have "count (tags s') u \<le> count (tags s) u" using tg by simp
    also have "\<dots> \<le> (if u < length (calls s) \<and> alive (calls s ! u) then 1 else 0)"
      using inv by (simp add: async_inv_def tags_ok_def)
    finally show "count (tags s') u \<le> (if u < length (calls s) \<and> alive (calls s ! u) then 1 else 0)" .
  next
    fix u assume u: "u < length (calls s)" "cd_st (calls s ! u) = FINISH \<and> alive (calls s ! u)"
    then have "u \<in># tags s" "u \<noteq> t" using inv dn(2) by (auto simp: async_inv_def tags_ok_def)
    then show "u \<in># tags s'" using tg by simp
  qed (use inv dn in \<open>auto simp: async_inv_def tags_ok_def\<close>)
  moreover have "shapes_ok s'"
    using inv ev unfolding async_inv_def shapes_ok_def same by auto
  moreover have "accounts_ok s'"
    using inv s' by (simp add: async_inv_def accounts_ok_def)
  ultimately show ?thesis by (simp add: async_inv_def)
qed

lemma handle_finish_inv:
  assumes inv: "async_inv s" and k: "k < length (held s)" "held s ! k = Some (t, True)" and fin: "cd_st (calls s ! t) = FINISH"
    and s': "s' = Proceed t (s\<lparr>held := (held s)[k := None]\<rparr>)"
  shows "async_inv s'"
proof -
  have ev: "events s = add_mset (t, True) (events s')"
    using events_drop [OF k] s' fin by (simp add: Proceed_def events_def)
  have same: "listening s' = listening s" "sending s' = sending s" "requests s' = requests s" "down s' = down s"
      "replies s' = replies s" "waiting s' = waiting s" "calls s' = (calls s)[t := (calls s ! t)\<lparr>alive := False\<rparr>]"
    using s' fin by (simp_all add: Proceed_def)
  have tg: "tags s = add_mset t (tags s')"
    using ev same by (simp add: tags_def)
  then have t: "t < length (calls s)" "t \<notin># tags s'"
    using inv tag_known [of s t] by (auto simp: async_inv_def count_eq_zero_iff)
  have calls: "calls s' ! u = (if u = t then (calls s ! t)\<lparr>alive := False\<rparr> else calls s ! u)" for u
    using same t(1) by simp
  have len: "length (calls s') = length (calls s)" using same by simp
  have "tags_ok s'"
    unfolding tags_ok_def same(4) len
  proof (intro conjI allI impI)
    fix u
    have "count (tags s) u \<le> (if u < length (calls s) \<and> alive (calls s ! u) then 1 else 0)"
      using inv by (simp add: async_inv_def tags_ok_def)
    then show "count (tags s') u \<le> (if u < length (calls s) \<and> alive (calls s' ! u) then 1 else 0)"
      using tg t(2) by (cases "u = t") (auto simp: calls count_eq_zero_iff)
  next
    fix u assume u: "u < length (calls s)" "cd_st (calls s' ! u) = FINISH \<and> alive (calls s' ! u)"
    then have "u \<in># tags s" "u \<noteq> t" using inv by (auto simp: calls async_inv_def tags_ok_def split: if_splits)
    then show "u \<in># tags s'" using tg by simp
  next
    fix u assume u: "u < length (calls s)" "cd_st (calls s' ! u) = PROCESS"
    then have "u \<noteq> t" using fin by (auto simp: calls)
    with u show "alive (calls s' ! u)" using inv by (auto simp: calls async_inv_def tags_ok_def)
    show "u \<in># tags s'" if "\<not> down s"
      using inv u \<open>u \<noteq> t\<close> tg that by (auto simp: calls async_inv_def tags_ok_def)
  qed (use inv fin in \<open>auto simp: calls async_inv_def tags_ok_def\<close>)
  moreover have "shapes_ok s'"
  proof -
    have fits: "event_fits (calls s' ! u) ok = event_fits (calls s ! u) ok" "cd_st (calls s' ! u) = cd_st (calls s ! u)" for u ok
      by (simp_all add: calls event_fits_def)
    show ?thesis
      using inv ev unfolding async_inv_def shapes_ok_def same(1-4) fits by auto
  qed
  moreover have "accounts_ok s'"
    using inv fin sum_list_map_update [OF t(1), of accepting "(calls s ! t)\<lparr>alive := False\<rparr>"]
      sum_list_map_update [OF t(1), of given "(calls s ! t)\<lparr>alive := False\<rparr>"]
    unfolding async_inv_def accounts_ok_def same by (simp add: accepting_def given_def)
  ultimately show ?thesis by (simp add: async_inv_def)
qed

text \<open>In state \<open>PROCESS\<close> the call answers its request and leaves a new call that listens in its place.\<close>

lemma process_effect:
  assumes inv: "async_inv s" and k: "k < length (held s)" "held s ! k = Some (t, True)" and pr: "cd_st (calls s ! t) = PROCESS"
    and s': "s' = Proceed t (s\<lparr>held := (held s)[k := None]\<rparr>)" and n: "n = length (calls s)"
  obtains r es where "request (calls s ! t) = Some r" and "t < n" and "alive (calls s ! t)"
    and "requests s' = requests s" and "down s' = down s" and "replies s' = replies s" and "waiting s' = waiting s"
    and "sending s' = sending s @ [(t, r, async_point (requests s ! r))]"
    and "listening s' = listening s @ (if down s then [] else [n])"
    and "calls s' = (calls s)[t := (calls s ! t)\<lparr>cd_st := FINISH\<rparr>] @ [\<lparr>cd_st = PROCESS, request = None, alive = True\<rparr>]"
    and "events s = add_mset (t, True) es" and "events s' = es + (if down s then {#(n, False)#} else {#})"
    and "tags s' = add_mset n (tags s)" and "t \<in># tags s" and "n \<notin># tags s" and "t \<notin># image_mset fst es"
proof -
  define es where "es = events (s\<lparr>held := (held s)[k := None]\<rparr>)"
  have ev: "events s = add_mset (t, True) es"
    unfolding es_def by (rule events_drop [OF k])
  obtain r where r: "request (calls s ! t) = Some r"
    using inv ev pr by (auto simp: async_inv_def shapes_ok_def event_fits_def)
  have tin: "t \<in># tags s" using ev by (simp add: tags_def)
  then have t: "t < n" "alive (calls s ! t)" "count (tags s) t = 1"
    using inv tag_known [of s t] n by (auto simp: async_inv_def)
  have new: "n \<notin># tags s"
    using inv tag_known [of s n] n by (auto simp: async_inv_def)
  have name: "call_name (s\<lparr>held := (held s)[k := None]\<rparr>) t = requests s ! r"
    using r by (simp add: call_name_def)
  have same: "requests s' = requests s" "down s' = down s" "replies s' = replies s" "waiting s' = waiting s"
      "sending s' = sending s @ [(t, r, async_point (requests s ! r))]"
      "listening s' = listening s @ (if down s then [] else [n])"
      "calls s' = (calls s)[t := (calls s ! t)\<lparr>cd_st := FINISH\<rparr>] @ [\<lparr>cd_st = PROCESS, request = None, alive = True\<rparr>]"
      "events s' = es + (if down s then {#(n, False)#} else {#})"
    using s' pr r t(1) name n
    by (simp_all add: Proceed_def new_CallData_def Let_def nth_append list_update_append es_def events_def)
  have "t \<notin># image_mset fst es"
    using t(3) ev by (auto simp: tags_def count_eq_zero_iff)
  moreover have "tags s' = add_mset n (tags s)"
    using same ev by (simp add: tags_def)
  ultimately show thesis
    using that [OF r t(1, 2) same(1-7) ev same(8)] tin new by blast
qed

lemma tags_okD:
  assumes "tags_ok s" and "u < length (calls s)"
  shows "cd_st (calls s ! u) = FINISH \<Longrightarrow> alive (calls s ! u) \<Longrightarrow> u \<in># tags s"
    and "cd_st (calls s ! u) = PROCESS \<Longrightarrow> alive (calls s ! u)"
    and "cd_st (calls s ! u) = PROCESS \<Longrightarrow> \<not> down s \<Longrightarrow> u \<in># tags s"
    and "cd_st (calls s ! u) \<noteq> CREATE"
  using assms unfolding tags_ok_def by blast+

lemma process_tags:
  assumes ok: "tags_ok s" and n: "n = length (calls s)" and t: "t < n" "alive (calls s ! t)" "t \<in># tags s"
    and s': "down s' = down s" "tags s' = add_mset n (tags s)" "n \<notin># tags s"
      "calls s' = (calls s)[t := (calls s ! t)\<lparr>cd_st := FINISH\<rparr>] @ [\<lparr>cd_st = PROCESS, request = None, alive = True\<rparr>]"
  shows "tags_ok s'"
proof -
  have len: "length (calls s') = Suc n" using s' n by simp
  have old: "calls s' ! u = (if u = t then (calls s ! t)\<lparr>cd_st := FINISH\<rparr> else calls s ! u)" if "u < n" for u
    using s'(4) t(1) that n by (simp add: nth_append)
  have last: "calls s' ! n = \<lparr>cd_st = PROCESS, request = None, alive = True\<rparr>"
    using s'(4) n by (simp add: nth_append)
  have cnt: "count (tags s') u \<le> (if u < Suc n \<and> alive (calls s' ! u) then 1 else 0)" for u
  proof -
    have "count (tags s) u \<le> (if u < n \<and> alive (calls s ! u) then 1 else 0)"
      using ok n by (simp add: tags_ok_def)
    then show ?thesis
      using s'(2, 3) t(2) by (cases u n rule: linorder_cases) (auto simp: old last not_in_iff split: if_splits)
  qed
  have "(cd_st (calls s' ! u) = FINISH \<and> alive (calls s' ! u) \<longrightarrow> u \<in># tags s') \<and>
      (cd_st (calls s' ! u) = PROCESS \<longrightarrow> alive (calls s' ! u) \<and> (\<not> down s' \<longrightarrow> u \<in># tags s')) \<and> cd_st (calls s' ! u) \<noteq> CREATE"
    if "u < Suc n" for u
  proof (cases "u = n")
    case True
    then show ?thesis by (simp add: last s'(2))
  next
    case False
    with that have u: "u < n" by simp
    then show ?thesis
      using tags_okD [OF ok, of u] n t(3) s'(1, 2) by (simp add: old)
  qed
  with cnt show ?thesis
    unfolding tags_ok_def len by blast
qed

lemma process_shapes:
  assumes inv: "async_inv s" and n: "n = length (calls s)"
    and eff: "request (calls s ! t) = Some r" "t < n"
      "calls s' = (calls s)[t := (calls s ! t)\<lparr>cd_st := FINISH\<rparr>] @ [\<lparr>cd_st = PROCESS, request = None, alive = True\<rparr>]"
      "requests s' = requests s" "down s' = down s"
      "sending s' = sending s @ [(t, r, async_point (requests s ! r))]"
      "listening s' = listening s @ (if down s then [] else [n])"
      "events s = add_mset (t, True) es" "events s' = es + (if down s then {#(n, False)#} else {#})" "t \<notin># image_mset fst es"
  shows "shapes_ok s'"
proof -
  have old: "calls s' ! u = calls s ! u" if "u < n" "u \<noteq> t" for u
    using eff(3) n that by (simp add: nth_append)
  have fin: "cd_st (calls s' ! t) = FINISH"
    using eff(2, 3) n by (simp add: nth_append)
  have last: "event_fits (calls s' ! n) False"
    using eff(3) n by (simp add: nth_append event_fits_def)
  have known: "u < n" if "u \<in># tags s" for u
    using tag_known(1) [OF _ that] inv n by (simp add: async_inv_def)
  have listen: "event_fits (calls s' ! u) False" if "u \<in> set (listening s)" for u
  proof -
    have "u < n" using known [of u] that by (simp add: tags_def)
    moreover have "event_fits (calls s ! u) False" using inv that by (simp add: async_inv_def shapes_ok_def)
    moreover have "u \<noteq> t" using calculation(2) eff(1) by (auto simp: event_fits_def)
    ultimately show ?thesis by (simp add: old)
  qed
  have send: "cd_st (calls s' ! u) = FINISH \<and> p = async_point (requests s ! q)" if "(u, q, p) \<in> set (sending s)" for u q p
  proof -
    have "u \<in># tags s" using that by (force simp: tags_def)
    moreover have "cd_st (calls s ! u) = FINISH \<and> p = async_point (requests s ! q)"
      using inv that unfolding async_inv_def shapes_ok_def by blast
    ultimately show ?thesis using old [of u] known [of u] fin by (cases "u = t") simp_all
  qed
  have event: "event_fits (calls s' ! u) ok" if "(u, ok) \<in># es" for u ok
  proof -
    have "u \<in># tags s" "u \<noteq> t" using that eff(8, 10) by (force simp: tags_def)+
    moreover have "event_fits (calls s ! u) ok"
      using inv that eff(8) by (auto simp: async_inv_def shapes_ok_def)
    ultimately show ?thesis using old [of u] known [of u] by simp
  qed
  have "(u, False) \<in># es \<Longrightarrow> down s" for u
    using inv eff(8) by (auto simp: async_inv_def shapes_ok_def)
  then show ?thesis
    unfolding shapes_ok_def eff(4, 5, 6, 7, 9)
    using inv listen send event last fin by (auto simp: async_inv_def shapes_ok_def split: if_splits)
qed

lemma handle_process_inv:
  assumes inv: "async_inv s" and k: "k < length (held s)" "held s ! k = Some (t, True)" and pr: "cd_st (calls s ! t) = PROCESS"
    and s': "s' = Proceed t (s\<lparr>held := (held s)[k := None]\<rparr>)"
  shows "async_inv s'"
proof -
  obtain n where n: "n = length (calls s)" by simp
  from process_effect [OF inv k pr s' n] obtain r es where eff:
      "request (calls s ! t) = Some r" "t < n" "alive (calls s ! t)"
      "requests s' = requests s" "down s' = down s" "replies s' = replies s" "waiting s' = waiting s"
      "sending s' = sending s @ [(t, r, async_point (requests s ! r))]"
      "listening s' = listening s @ (if down s then [] else [n])"
      "calls s' = (calls s)[t := (calls s ! t)\<lparr>cd_st := FINISH\<rparr>] @ [\<lparr>cd_st = PROCESS, request = None, alive = True\<rparr>]"
      "events s = add_mset (t, True) es" "events s' = es + (if down s then {#(n, False)#} else {#})"
      "tags s' = add_mset n (tags s)" "t \<in># tags s" "n \<notin># tags s" "t \<notin># image_mset fst es" .
  have "tags_ok s'"
    using process_tags [OF _ n eff(2, 3, 14) eff(5, 13, 15, 10)] inv by (simp add: async_inv_def)
  moreover have "accounts_ok s'"
  proof -
    have acc: "sum_list (map accepting (calls s')) = sum_list (map accepting (calls s))"
      using sum_list_map_update [of t "calls s" accepting "(calls s ! t)\<lparr>cd_st := FINISH\<rparr>"] eff(2, 10) n pr
      by (simp add: accepting_def)
    have giv: "sum_list (map given (calls s)) = add_mset r (sum_list (map given (calls s')))"
      using sum_list_map_update [of t "calls s" given "(calls s ! t)\<lparr>cd_st := FINISH\<rparr>"] eff(1, 2, 10) n pr
      by (simp add: given_def)
    show ?thesis
      using inv unfolding async_inv_def accounts_ok_def acc giv eff(4-8) by simp
  qed
  moreover have "shapes_ok s'"
    using process_shapes [OF inv n eff(1, 2, 10, 4, 5, 8, 9, 11, 12, 16)] .
  ultimately show ?thesis by (simp add: async_inv_def)
qed

lemma async_step_inv: "async_inv s \<Longrightarrow> async_step s s' \<Longrightarrow> async_inv s'"
proof (elim async_stepE)
  fix k t
  assume inv: "async_inv s" and k: "k < length (held s)" "held s ! k = Some (t, True)"
    and s': "s' = Proceed t (s\<lparr>held := (held s)[k := None]\<rparr>)"
  have "t \<in># tags s"
    using events_drop [OF k] by (simp add: tags_def)
  then have "cd_st (calls s ! t) \<noteq> CREATE"
    using inv tags_okD(4) tag_known(1) unfolding async_inv_def by blast
  then show "async_inv s'"
    using handle_process_inv [OF inv k _ s'] handle_finish_inv [OF inv k _ s'] by (cases "cd_st (calls s ! t)") simp_all
qed (blast intro: arrive_inv sent_inv shutdown_inv Next_inv handle_bad_inv)+

interpretation async_sys: inv_system "\<lambda>s. s = async_init n reqs" async_step async_inv for n reqs
  by unfold_locales (simp add: async_init_inv, erule (1) async_step_inv)

section \<open>Consequences\<close>

lemma held_alive:
  assumes "async_inv s" and "k < length (held s)" and "held s ! k = Some (t, ok)"
  shows "t < length (calls s) \<and> alive (calls s ! t)"
proof -
  have "t \<in># tags s" using events_drop [OF assms(2, 3)] by (simp add: tags_def)
  then show ?thesis using assms(1) tag_known unfolding async_inv_def by blast
qed

lemma replies_distinct:
  assumes "async_inv s"
  shows "distinct (map fst (replies s))" and "\<forall>(r, p)\<in>set (replies s). r < length (requests s) \<and> p = async_point (requests s ! r)"
proof -
  have acc: "mset (waiting s) + sum_list (map given (calls s)) + image_mset (fst \<circ> snd) (mset (sending s)) + mset (map fst (replies s))
      = mset [0..<length (requests s)]" "\<forall>(r, p)\<in>set (replies s). p = async_point (requests s ! r)"
    using assms by (simp_all add: async_inv_def accounts_ok_def)
  then have sub: "mset (map fst (replies s)) \<subseteq># mset [0..<length (requests s)]"
    by (metis mset_subset_eq_add_right)
  have "count (mset (map fst (replies s))) r \<le> 1" for r
    using mset_subset_eq_count [OF sub, of r] distinct_count_atmost_1 [of "[0..<length (requests s)]"]
    by (auto simp: count_mset_0_iff split: if_splits)
  then show "distinct (map fst (replies s))"
    by (metis One_nat_def count_mset_0_iff distinct_count_atmost_1 le_SucE le_zero_eq)
  have "set (map fst (replies s)) \<subseteq> {0..<length (requests s)}"
    using set_mset_mono [OF sub] by simp
  then show "\<forall>(r, p)\<in>set (replies s). r < length (requests s) \<and> p = async_point (requests s ! r)"
    using acc(2) by fastforce
qed

lemma idle_progress:
  assumes inv: "async_inv s" and "\<not> down s" and "held s \<noteq> []" and "mset (map fst (replies s)) \<noteq> mset [0..<length (requests s)]"
    and idle: "\<forall>k<length (held s). held s ! k = None" "queue s = []" "sending s = []"
  shows "\<exists>s'. async_step s s' \<and> \<not> down s'"
proof -
  have "sum_list (map event_of (held s)) = {#}"
    using idle(1) by (intro sum_list_map_zero) (auto simp: event_of_def in_set_conv_nth)
  then have tg: "tags s = mset (listening s)" using idle by (simp add: tags_def events_def)
  have listens: "t \<in> set (listening s)" if "t < length (calls s)" "cd_st (calls s ! t) = PROCESS" for t
    using tags_okD(3) [of s t] inv assms(2) tg that by (simp add: async_inv_def)
  have "sum_list (map accepting (calls s)) \<noteq> 0" using inv by (simp add: async_inv_def accounts_ok_def)
  then obtain c where "c \<in> set (calls s)" "accepting c \<noteq> 0"
    using sum_list_map_zero [of "calls s" accepting] by metis
  then obtain t where "t < length (calls s)" "cd_st (calls s ! t) = PROCESS"
    by (auto simp: in_set_conv_nth accepting_def split: if_splits)
  then obtain ls ls' where ls: "listening s = ls @ t # ls'" using listens by (meson split_list)
  have "given c = {#}" if "c \<in> set (calls s)" for c
  proof (cases "cd_st c = PROCESS")
    case True
    with that obtain u where "u < length (calls s)" "c = calls s ! u" by (auto simp: in_set_conv_nth)
    with True listens [of u] inv show ?thesis
      by (auto simp: given_def async_inv_def shapes_ok_def event_fits_def)
  qed (simp add: given_def)
  then have "sum_list (map given (calls s)) = {#}" by (rule sum_list_map_zero)
  then have "waiting s \<noteq> []"
    using inv idle(3) assms(4) by (auto simp: async_inv_def accounts_ok_def)
  then obtain r rs where "waiting s = [] @ r # rs" by (auto simp: neq_Nil_conv)
  from arrive [OF this ls] assms(2) show ?thesis by fastforce
qed

text \<open>Nothing that runs is stuck while a request is unanswered: a step other than the shutdown is possible.\<close>

lemma async_progress:
  assumes inv: "async_inv s" and "\<not> down s" and "held s \<noteq> []" and "mset (map fst (replies s)) \<noteq> mset [0..<length (requests s)]"
  shows "\<exists>s'. async_step s s' \<and> \<not> down s'"
proof -
  consider k t ok where "k < length (held s)" "held s ! k = Some (t, ok)"
    | e qs where "\<forall>k<length (held s). held s ! k = None" "queue s = e # qs"
    | x ss where "sending s = x # ss"
    | "\<forall>k<length (held s). held s ! k = None" "queue s = []" "sending s = []"
    by (metis list.exhaust option.exhaust surj_pair)
  then show ?thesis
  proof cases
    case (1 k t ok)
    then show ?thesis
      using handle_ok [of k s t] handle_bad [of k s t] assms(2)
      by (cases ok) (auto simp: Proceed_def new_CallData_def Let_def split: cd_state.splits intro!: exI conjI)
  next
    case (2 e qs)
    then have "held s ! 0 = None" using assms(3) by simp
    then show ?thesis using Next_event [of s "[]" e qs 0] 2 assms(2, 3) by fastforce
  next
    case (3 x ss)
    then show ?thesis using sent [of s "[]" "fst x" "fst (snd x)" "snd (snd x)" ss] assms(2) by fastforce
  next
    case 4
    then show ?thesis using idle_progress assms by blast
  qed
qed

lemma sum_accepting: "sum_list (map accepting cs) = length (filter (\<lambda>c. cd_st c = PROCESS) cs)"
  by (induction cs) (simp_all add: accepting_def)

text \<open>When no event is left one object has not been deleted: the one that was listening.\<close>

lemma one_call_left:
  assumes inv: "async_inv s" and "tags s = {#}"
  shows "length (filter alive (calls s)) = 1"
proof -
  have "alive c \<longleftrightarrow> cd_st c = PROCESS" if c: "c \<in> set (calls s)" for c
  proof -
    obtain u where u: "u < length (calls s)" "c = calls s ! u" using c by (auto simp: in_set_conv_nth)
    have "tags_ok s" using inv by (simp add: async_inv_def)
    from tags_okD [OF this u(1)] show ?thesis
      unfolding u(2) assms(2) by (cases "cd_st (calls s ! u)") auto
  qed
  then have "filter alive (calls s) = filter (\<lambda>c. cd_st c = PROCESS) (calls s)"
    by (rule filter_cong [OF refl])
  then show ?thesis
    using inv sum_accepting [of "calls s"] by (simp add: async_inv_def accounts_ok_def)
qed

text \<open>
  C27: The asynchronous server, for any number of workers and clients and every order of the events.  A worker never calls
  \<open>Proceed\<close> on a \<open>CallData\<close> that was deleted; every request is answered at most once, with the point for its own
  name; at every moment exactly one \<open>CallData\<close> stands ready for the next call; and while the server is up and a request is
  unanswered, the library or a worker can take a step.  After the shutdown, when all events are drained, exactly one
  \<open>CallData\<close> has not been deleted.
\<close>

theorem async_server_correct:
  assumes "async_step\<^sup>*\<^sup>* (async_init workers reqs) s"
  shows "(\<forall>k t ok. k < length (held s) \<longrightarrow> held s ! k = Some (t, ok) \<longrightarrow> t < length (calls s) \<and> alive (calls s ! t)) \<and>
    distinct (map fst (replies s)) \<and>
    (\<forall>(r, p)\<in>set (replies s). r < length (requests s) \<and> p = async_point (requests s ! r)) \<and>
    length (filter (\<lambda>c. cd_st c = PROCESS) (calls s)) = 1 \<and>
    (\<not> down s \<longrightarrow> held s \<noteq> [] \<longrightarrow> mset (map fst (replies s)) \<noteq> mset [0..<length (requests s)] \<longrightarrow> (\<exists>s'. async_step s s' \<and> \<not> down s')) \<and>
    (tags s = {#} \<longrightarrow> length (filter alive (calls s)) = 1)"
proof -
  have inv: "async_inv s"
    using async_sys.reachable_inv [OF refl assms] .
  then have "length (filter (\<lambda>c. cd_st c = PROCESS) (calls s)) = 1"
    using sum_accepting [of "calls s"] by (simp add: async_inv_def accounts_ok_def)
  then show ?thesis
    using held_alive [OF inv] replies_distinct [OF inv] async_progress [OF inv] one_call_left [OF inv] by blast
qed

theorem async_server_correct_witness:
  "\<exists>s'. async_step (async_init 2 [''cpu_0'', ''cpu_1'']) s' \<and> \<not> down s'"
proof -
  have "\<not> down (async_init 2 [''cpu_0'', ''cpu_1''])" "held (async_init 2 [''cpu_0'', ''cpu_1'']) \<noteq> []"
    "mset (map fst (replies (async_init 2 [''cpu_0'', ''cpu_1'']))) \<noteq> mset [0..<length (requests (async_init 2 [''cpu_0'', ''cpu_1'']))]"
    by (simp_all add: async_init_def new_CallData_def Let_def)
  then show ?thesis
    using async_server_correct [of 2 "[''cpu_0'', ''cpu_1'']" "async_init 2 [''cpu_0'', ''cpu_1'']"] by blast
qed

end
