(* ===== verification/File_Locks.thy ===== *)
theory File_Locks
  imports Prelude
begin

text \<open>
  The advisory locks of \<^verbatim>\<open>system_calls/09_file_locking.cpp\<close>.  Whole-file locks follow the rule of \<open>flock(2)\<close> that its first comment states: they
  belong to an open file description and are shared or exclusive.  The PID lock file is modelled for any number of instances of the
  program, over a directory entry that is created, opened and unlinked.
\<close>

section \<open>Whole-file locks\<close>

datatype flock_mode = LOCK_SH | LOCK_EX

text \<open>The locks on one file: the descriptions that hold one, with their mode.\<close>

type_synonym flock_table = "(nat \<times> flock_mode) list"

definition grantable :: "nat \<Rightarrow> flock_mode \<Rightarrow> flock_table \<Rightarrow> bool" where
  "grantable d m tab \<longleftrightarrow> list_all (\<lambda>(d', m'). d' = d \<or> m = LOCK_SH \<and> m' = LOCK_SH) tab"

definition flock_unlock :: "nat \<Rightarrow> flock_table \<Rightarrow> flock_table" where
  "flock_unlock d tab = filter (\<lambda>(d', m'). d' \<noteq> d) tab"

text \<open>\<open>None\<close> is \<open>EWOULDBLOCK\<close> with \<open>LOCK_NB\<close>; without the flag the call waits until it can be granted.\<close>

definition flock_nb :: "nat \<Rightarrow> flock_mode \<Rightarrow> flock_table \<Rightarrow> flock_table option" where
  "flock_nb d m tab = (if grantable d m tab then Some ((d, m) # flock_unlock d tab) else None)"

definition flock_ok :: "flock_table \<Rightarrow> bool" where
  "flock_ok tab \<longleftrightarrow> distinct (map fst tab) \<and> (\<forall>(d, m)\<in>set tab. \<forall>(d', m')\<in>set tab. d = d' \<or> m = LOCK_SH \<and> m' = LOCK_SH)"

lemma flock_unlock_ok: "flock_ok tab \<Longrightarrow> flock_ok (flock_unlock d tab)"
proof -
  have "set (flock_unlock d tab) \<subseteq> set tab" "distinct (map fst tab) \<Longrightarrow> distinct (map fst (flock_unlock d tab))"
    by (auto simp: flock_unlock_def distinct_map_filter)
  then show "flock_ok tab \<Longrightarrow> flock_ok (flock_unlock d tab)"
    unfolding flock_ok_def by blast
qed

lemma flock_nb_ok: "flock_ok tab \<Longrightarrow> flock_nb d m tab = Some tab' \<Longrightarrow> flock_ok tab'"
proof -
  assume ok: "flock_ok tab" and nb: "flock_nb d m tab = Some tab'"
  have "\<forall>(d', m')\<in>set (flock_unlock d tab). d' \<noteq> d \<and> m = LOCK_SH \<and> m' = LOCK_SH"
    using nb by (auto simp: flock_nb_def grantable_def list_all_iff flock_unlock_def split: if_splits)
  then show "flock_ok tab'"
    using flock_unlock_ok [OF ok, of d] nb by (fastforce simp: flock_nb_def flock_ok_def split: if_splits)
qed

text \<open>\<open>demo_flock\<close>: description 0 is the parent's, 1 and 2 are opened by the children.\<close>

definition demo_flock :: "flock_table \<Rightarrow> console \<times> flock_table" where
  "demo_flock tab =
     (case flock_nb 0 LOCK_EX tab of
        None \<Rightarrow> ([], tab)
      | Some tab \<Rightarrow>
          (let child1 = (case flock_nb 1 LOCK_SH tab of None \<Rightarrow> [''  child: LOCK_SH | LOCK_NB -> EWOULDBLOCK (expected)'']
                                                       | Some _ \<Rightarrow> [''  child: acquired LOCK_SH'']);
               tab = flock_unlock 0 tab
           in (case flock_nb 2 LOCK_SH tab of
                 None \<Rightarrow> ([''  acquired LOCK_EX''] @ child1 @ [''  released LOCK_EX''], tab)
               | Some tab' \<Rightarrow>
                   ([''  acquired LOCK_EX''] @ child1 @ [''  released LOCK_EX'', ''  child2: acquired LOCK_SH after release''],
                    flock_unlock 0 (flock_unlock 2 tab')))))"

section \<open>Record locks\<close>

text \<open>
  \<open>demo_fcntl_locks\<close>.  The lock table of the kernel is an argument with its state: \<open>setlk\<close> is \<open>F_SETLK\<close> for a type (none for \<open>F_UNLCK\<close>), an offset and
  a length, \<open>None\<close> on a conflict; \<open>getlk\<close> is \<open>F_GETLK\<close>, the process that stands in the way.
\<close>

datatype record_type = F_RDLCK | F_WRLCK

definition REC_SIZE :: int where "REC_SIZE = 16"

definition demo_fcntl_locks :: "(record_type option \<Rightarrow> int \<Rightarrow> int \<Rightarrow> 's \<Rightarrow> 's option) \<Rightarrow> (record_type \<Rightarrow> int \<Rightarrow> int \<Rightarrow> 's \<Rightarrow> nat option)
    \<Rightarrow> 's \<Rightarrow> (console \<times> 's) option" where
  "demo_fcntl_locks setlk getlk ls =
     (case setlk (Some F_WRLCK) (2 * REC_SIZE) REC_SIZE ls of
        None \<Rightarrow> None
      | Some ls1 \<Rightarrow>
          (let test = (case getlk F_WRLCK (2 * REC_SIZE) REC_SIZE ls1 of
                         None \<Rightarrow> ''  F_GETLK: no conflict (this fd owns it)''
                       | Some p \<Rightarrow> ''  F_GETLK: conflict - held by PID '' @ dec_nat p)
           in case setlk (Some F_RDLCK) 0 REC_SIZE ls1 of
                None \<Rightarrow> None
              | Some ls2 \<Rightarrow>
                  Some ([''  locked record 2 (bytes '' @ dec_int (2 * REC_SIZE) @ ''-'' @ dec_int (3 * REC_SIZE - 1) @ '') F_WRLCK'',
                         test, ''  locked record 0 F_RDLCK (non-overlapping - succeeds)'', ''  unlocked record 2''],
                        (case setlk None (2 * REC_SIZE) REC_SIZE ls2 of None \<Rightarrow> ls2 | Some ls3 \<Rightarrow> ls3))))"

section \<open>The PID lock file\<close>

text \<open>
  Instances of \<open>demo_pid_lockfile\<close>, by number.  \<open>entry\<close> is the file the path names at the moment; a file lives on without a
  name while it is open.  Instance \<open>i\<close> opens description \<open>i\<close>; \<open>pid i\<close> is its process id.
\<close>

datatype pid_pc = P_Start | P_Open | P_Lock | P_Locked | P_Truncated | P_Running | P_Unlocked | P_Done | P_Refused string | P_Crashed

record inode =
  content :: string
  locks :: flock_table

record pid_sys =
  entry :: "nat option"
  inodes :: "inode list"
  pcs :: "pid_pc list"
  fds :: "nat list"

definition pid_init :: "nat \<Rightarrow> pid_sys" where
  "pid_init n = \<lparr>entry = None, inodes = [], pcs = replicate n P_Start, fds = replicate n 0\<rparr>"

definition move_to :: "nat \<Rightarrow> pid_pc \<Rightarrow> pid_sys \<Rightarrow> pid_sys" where
  "move_to i pc s = s\<lparr>pcs := (pcs s)[i := pc]\<rparr>"

definition on_file :: "nat \<Rightarrow> (inode \<Rightarrow> inode) \<Rightarrow> pid_sys \<Rightarrow> pid_sys" where
  "on_file f g s = s\<lparr>inodes := (inodes s)[f := g (inodes s ! f)]\<rparr>"

definition open_creat :: "nat \<Rightarrow> pid_sys \<Rightarrow> pid_sys" where
  "open_creat i s =
     (case entry s of
        Some f \<Rightarrow> s\<lparr>fds := (fds s)[i := f]\<rparr>
      | None \<Rightarrow> s\<lparr>entry := Some (length (inodes s)), inodes := inodes s @ [\<lparr>content = [], locks = []\<rparr>], fds := (fds s)[i := length (inodes s)]\<rparr>)"

text \<open>
  The next system call of an instance.  \<open>unlinks\<close> tells whether the program removes the path, first of all and after
  the release; the code does.  The refused instance reads up to 15 bytes of the file.
\<close>

definition pid_next :: "bool \<Rightarrow> (nat \<Rightarrow> nat) \<Rightarrow> nat \<Rightarrow> pid_sys \<Rightarrow> pid_sys option" where
  "pid_next unlinks pid i s =
     (let f = fds s ! i in
      case pcs s ! i of
        P_Start \<Rightarrow> Some (move_to i P_Open (if unlinks then s\<lparr>entry := None\<rparr> else s))
      | P_Open \<Rightarrow> Some (move_to i P_Lock (open_creat i s))
      | P_Lock \<Rightarrow>
          (case flock_nb i LOCK_EX (locks (inodes s ! f)) of
             Some tab \<Rightarrow> Some (move_to i P_Locked (on_file f (\<lambda>n. n\<lparr>locks := tab\<rparr>) s))
           | None \<Rightarrow> Some (move_to i (P_Refused (take 15 (content (inodes s ! f)))) s))
      | P_Locked \<Rightarrow> Some (move_to i P_Truncated (on_file f (\<lambda>n. n\<lparr>content := []\<rparr>) s))
      | P_Truncated \<Rightarrow> Some (move_to i P_Running (on_file f (\<lambda>n. n\<lparr>content := dec_nat (pid i) @ nl\<rparr>) s))
      | P_Running \<Rightarrow> Some (move_to i P_Unlocked (on_file f (\<lambda>n. n\<lparr>locks := flock_unlock i (locks n)\<rparr>) s))
      | P_Unlocked \<Rightarrow> Some (move_to i P_Done (if unlinks then s\<lparr>entry := None\<rparr> else s))
      | _ \<Rightarrow> None)"

text \<open>
  A crash releases the lock and leaves the file.  The child that a running instance forks to show a refusal is not a process of its own here: it
  shares the open description of its parent, and \<open>crash\<close> stands for the end of both.
\<close>

inductive pid_step :: "bool \<Rightarrow> (nat \<Rightarrow> nat) \<Rightarrow> pid_sys \<Rightarrow> pid_sys \<Rightarrow> bool" for unlinks :: bool and pid :: "nat \<Rightarrow> nat" where
  call: "i < length (pcs s) \<Longrightarrow> pid_next unlinks pid i s = Some s' \<Longrightarrow> pid_step unlinks pid s s'"
| crash: "i < length (pcs s) \<Longrightarrow> pcs s ! i \<notin> {P_Start, P_Open} \<Longrightarrow>
    pid_step unlinks pid s (move_to i P_Crashed (on_file (fds s ! i) (\<lambda>n. n\<lparr>locks := flock_unlock i (locks n)\<rparr>) s))"

inductive_cases pid_stepE: "pid_step unlinks pid s s'"

definition has_lock :: "pid_pc \<Rightarrow> bool" where
  "has_lock pc \<longleftrightarrow> pc \<in> {P_Locked, P_Truncated, P_Running}"

definition has_fd :: "pid_pc \<Rightarrow> bool" where
  "has_fd pc \<longleftrightarrow> pc \<notin> {P_Start, P_Open}"

text \<open>What the second instance in \<open>demo_pid_lockfile\<close> prints: the PID up to the newline.\<close>

definition refusal_line :: "string \<Rightarrow> string" where
  "refusal_line existing = ''  second instance refused - held by PID '' @ takeWhile (\<lambda>c. c \<noteq> CHR 0x0A) existing"

primrec pid_schedule :: "bool \<Rightarrow> (nat \<Rightarrow> nat) \<Rightarrow> nat list \<Rightarrow> pid_sys \<Rightarrow> pid_sys option" where
  "pid_schedule unlinks pid [] s = Some s"
| "pid_schedule unlinks pid (i # is) s = (case pid_next unlinks pid i s of None \<Rightarrow> None | Some s' \<Rightarrow> pid_schedule unlinks pid is s')"

text \<open>A file has at most one holder, the holders are the instances between lock and release, and the running one's PID is in the file.\<close>

definition pid_lock_inv :: "(nat \<Rightarrow> nat) \<Rightarrow> pid_sys \<Rightarrow> bool" where
  "pid_lock_inv pid s \<longleftrightarrow>
     length (fds s) = length (pcs s) \<and>
     (\<forall>f. entry s = Some f \<longrightarrow> f < length (inodes s)) \<and>
     (\<forall>i<length (pcs s). has_fd (pcs s ! i) \<longrightarrow> fds s ! i < length (inodes s)) \<and>
     (\<forall>i<length (pcs s). has_lock (pcs s ! i) \<longrightarrow> locks (inodes s ! (fds s ! i)) = [(i, LOCK_EX)]) \<and>
     (\<forall>f<length (inodes s). locks (inodes s ! f) \<noteq> [] \<longrightarrow> (\<exists>i<length (pcs s). has_lock (pcs s ! i) \<and> fds s ! i = f)) \<and>
     (\<forall>i<length (pcs s). pcs s ! i = P_Running \<longrightarrow> content (inodes s ! (fds s ! i)) = dec_nat (pid i) @ nl)"

lemma flock_nb_free: "flock_nb i LOCK_EX tab = Some tab' \<Longrightarrow> tab = [] \<or> (\<forall>(j, m)\<in>set tab. j = i)"
  by (auto simp: flock_nb_def grantable_def list_all_iff split: if_splits)

lemma pid_init_inv: "pid_lock_inv pid (pid_init n)"
  by (auto simp: pid_lock_inv_def pid_init_def has_fd_def has_lock_def)

lemma pid_lock_invI:
  assumes "length (fds s) = length (pcs s)" and "\<And>f. entry s = Some f \<Longrightarrow> f < length (inodes s)"
    and "\<And>i. i < length (pcs s) \<Longrightarrow> has_fd (pcs s ! i) \<Longrightarrow> fds s ! i < length (inodes s)"
    and "\<And>i. i < length (pcs s) \<Longrightarrow> has_lock (pcs s ! i) \<Longrightarrow> locks (inodes s ! (fds s ! i)) = [(i, LOCK_EX)]"
    and "\<And>f. f < length (inodes s) \<Longrightarrow> locks (inodes s ! f) \<noteq> [] \<Longrightarrow> \<exists>i<length (pcs s). has_lock (pcs s ! i) \<and> fds s ! i = f"
    and "\<And>i. i < length (pcs s) \<Longrightarrow> pcs s ! i = P_Running \<Longrightarrow> content (inodes s ! (fds s ! i)) = dec_nat (pid i) @ nl"
  shows "pid_lock_inv pid s"
  using assms unfolding pid_lock_inv_def by blast

lemma pid_lock_invD:
  assumes "pid_lock_inv pid s"
  shows "length (fds s) = length (pcs s)" and "entry s = Some f \<Longrightarrow> f < length (inodes s)"
    and "i < length (pcs s) \<Longrightarrow> has_fd (pcs s ! i) \<Longrightarrow> fds s ! i < length (inodes s)"
    and "i < length (pcs s) \<Longrightarrow> has_lock (pcs s ! i) \<Longrightarrow> locks (inodes s ! (fds s ! i)) = [(i, LOCK_EX)]"
    and "f < length (inodes s) \<Longrightarrow> locks (inodes s ! f) \<noteq> [] \<Longrightarrow> \<exists>i<length (pcs s). has_lock (pcs s ! i) \<and> fds s ! i = f"
    and "i < length (pcs s) \<Longrightarrow> pcs s ! i = P_Running \<Longrightarrow> content (inodes s ! (fds s ! i)) = dec_nat (pid i) @ nl"
  using assms unfolding pid_lock_inv_def by blast+

text \<open>A step of instance \<open>i\<close> that neither takes nor releases a lock and writes no file.\<close>

lemma pid_quiet_inv:
  assumes inv: "pid_lock_inv pid s" and i: "i < length (pcs s)" "\<not> has_lock (pcs s ! i)" "\<not> has_lock pc"
    and s': "inodes s' = inodes s" "fds s' = fds s" "pcs s' = (pcs s)[i := pc]"
      "entry s' = None \<or> entry s' = entry s" "has_fd pc \<Longrightarrow> has_fd (pcs s ! i)"
  shows "pid_lock_inv pid s'"
proof -
  have len: "length (pcs s') = length (pcs s)" using s' by simp
  have pcs: "pcs s' ! j = (if j = i then pc else pcs s ! j)" if "j < length (pcs s)" for j
    using s'(3) that by simp
  have run: "pc \<noteq> P_Running" using i(3) by (auto simp: has_lock_def)
  show ?thesis
  proof (rule pid_lock_invI, unfold len s'(1, 2))
    show "length (fds s) = length (pcs s)" using pid_lock_invD(1) [OF inv] .
    show "f < length (inodes s)" if "entry s' = Some f" for f
      using pid_lock_invD(2) [OF inv] s'(4) that by auto
    show "fds s ! j < length (inodes s)" if "j < length (pcs s)" "has_fd (pcs s' ! j)" for j
      using pid_lock_invD(3) [OF inv that(1)] s'(5) that by (auto simp: pcs split: if_splits)
    show "locks (inodes s ! (fds s ! j)) = [(j, LOCK_EX)]" if "j < length (pcs s)" "has_lock (pcs s' ! j)" for j
      using pid_lock_invD(4) [OF inv that(1)] i(3) that by (auto simp: pcs split: if_splits)
    show "\<exists>j<length (pcs s). has_lock (pcs s' ! j) \<and> fds s ! j = f" if "f < length (inodes s)" "locks (inodes s ! f) \<noteq> []" for f
      using pid_lock_invD(5) [OF inv that] i(2) by (auto simp: pcs)
    show "content (inodes s ! (fds s ! j)) = dec_nat (pid j) @ nl" if "j < length (pcs s)" "pcs s' ! j = P_Running" for j
      using pid_lock_invD(6) [OF inv that(1)] run that by (auto simp: pcs split: if_splits)
  qed
qed

text \<open>A step of instance \<open>i\<close> on its own file: it has the lock afterwards and no one else had it, or it has none afterwards.\<close>

lemma pid_file_inv:
  assumes inv: "pid_lock_inv pid s" and i: "i < length (pcs s)" "has_fd (pcs s ! i)" and f: "f = fds s ! i"
    and s': "inodes s' = (inodes s)[f := nd]" "fds s' = fds s" "pcs s' = (pcs s)[i := pc]" "entry s' = entry s"
    and "if has_lock pc then locks nd = [(i, LOCK_EX)] \<and> set (locks (inodes s ! f)) \<subseteq> {(i, LOCK_EX)} \<and> (pc = P_Running \<longrightarrow> content nd = dec_nat (pid i) @ nl)
         else content nd = content (inodes s ! f) \<and> locks nd = (if has_lock (pcs s ! i) then [] else locks (inodes s ! f))"
  shows "pid_lock_inv pid s'"
proof -
  have len: "length (pcs s') = length (pcs s)" "length (inodes s') = length (inodes s)" using s' by simp_all
  have pcs: "pcs s' ! j = (if j = i then pc else pcs s ! j)" if "j < length (pcs s)" for j
    using s'(3) that by simp
  have fl: "f < length (inodes s)" using pid_lock_invD(3) [OF inv i] f by simp
  have nodes: "inodes s' ! g = (if g = f then nd else inodes s ! g)" if "g < length (inodes s)" for g
    using s'(1) that by simp
  have other: "fds s ! j \<noteq> f \<or> \<not> has_lock pc \<and> \<not> has_lock (pcs s ! i)" if "j < length (pcs s)" "j \<noteq> i" "has_lock (pcs s ! j)" for j
    using pid_lock_invD(4) [OF inv that(1, 3)] pid_lock_invD(4) [OF inv i(1)] that(2) f assms(9) by (auto split: if_splits)
  have fd: "has_fd pc" if "has_lock pc" for pc using that by (auto simp: has_fd_def has_lock_def)
  show ?thesis
  proof (rule pid_lock_invI, unfold len s'(2, 4))
    show "length (fds s) = length (pcs s)" "\<And>f. entry s = Some f \<Longrightarrow> f < length (inodes s)"
      using pid_lock_invD(1, 2) [OF inv] by blast+
    show inode_ok: "fds s ! j < length (inodes s)" if "j < length (pcs s)" "has_fd (pcs s' ! j)" for j
      using pid_lock_invD(3) [OF inv that(1)] fl f that by (auto simp: pcs split: if_splits)
    show "locks (inodes s' ! (fds s ! j)) = [(j, LOCK_EX)]" if "j < length (pcs s)" "has_lock (pcs s' ! j)" for j
      using pid_lock_invD(4) [OF inv that(1)] inode_ok [OF that(1) fd [OF that(2)]] other [OF that(1)] that assms(9) f
      by (cases "j = i") (auto simp: pcs nodes)
    show "\<exists>j<length (pcs s). has_lock (pcs s' ! j) \<and> fds s ! j = g" if "g < length (inodes s)" "locks (inodes s' ! g) \<noteq> []" for g
    proof (cases "g = f \<and> has_lock pc")
      case True
      then show ?thesis using i(1) f by (auto simp: pcs intro!: exI [of _ i])
    next
      case False
      with that assms(9) have "locks (inodes s ! g) \<noteq> []" and ff: "g = f \<Longrightarrow> \<not> has_lock (pcs s ! i)"
        by (auto simp: nodes split: if_splits)
      with pid_lock_invD(5) [OF inv that(1)] obtain j where "j < length (pcs s)" "has_lock (pcs s ! j)" "fds s ! j = g"
        by blast
      moreover from this ff f have "j \<noteq> i" by auto
      ultimately show ?thesis by (auto simp: pcs intro!: exI [of _ j])
    qed
    show "content (inodes s' ! (fds s ! j)) = dec_nat (pid j) @ nl" if "j < length (pcs s)" "pcs s' ! j = P_Running" for j
    proof -
      have "has_lock (pcs s' ! j)" using that(2) by (simp add: has_lock_def)
      then show ?thesis
        using pid_lock_invD(6) [OF inv that(1)] inode_ok [OF that(1) fd] other [OF that(1)] that assms(9) f
        by (cases "j = i") (auto simp: pcs nodes has_lock_def)
    qed
  qed
qed

lemma pid_open_inv:
  assumes inv: "pid_lock_inv pid s" and i: "i < length (pcs s)" "pcs s ! i = P_Open"
  shows "pid_lock_inv pid (move_to i P_Lock (open_creat i s))"
proof -
  define s' where "s' = move_to i P_Lock (open_creat i s)"
  have len: "length (pcs s') = length (pcs s)" "length (inodes s) \<le> length (inodes s')"
    by (auto simp: s'_def move_to_def open_creat_def split: option.split)
  have pcs: "pcs s' ! j = (if j = i then P_Lock else pcs s ! j)" if "j < length (pcs s)" for j
    using that by (auto simp: s'_def move_to_def open_creat_def split: option.split)
  have fds: "fds s' ! j = fds s ! j" if "j \<noteq> i" for j
    using that by (auto simp: s'_def move_to_def open_creat_def split: option.split)
  have own: "fds s' ! i < length (inodes s')"
    using pid_lock_invD(1, 2) [OF inv] i(1) by (auto simp: s'_def move_to_def open_creat_def split: option.split)
  have nodes: "inodes s' ! g = (if g < length (inodes s) then inodes s ! g else \<lparr>content = [], locks = []\<rparr>)" if "g < length (inodes s')" for g
    using that by (auto simp: s'_def move_to_def open_creat_def nth_append split: option.splits)
  have no: "\<not> has_lock P_Lock" "\<not> has_lock (pcs s ! i)" using i(2) by (simp_all add: has_lock_def)
  have fd: "has_fd pc" if "has_lock pc" for pc using that by (auto simp: has_fd_def has_lock_def)
  have "pid_lock_inv pid s'"
  proof (rule pid_lock_invI, unfold len(1))
    show "length (fds s') = length (pcs s)"
      using pid_lock_invD(1) [OF inv] by (auto simp: s'_def move_to_def open_creat_def split: option.split)
    show "f < length (inodes s')" if "entry s' = Some f" for f
      using pid_lock_invD(2) [OF inv] that by (auto simp: s'_def move_to_def open_creat_def split: option.splits)
    show "fds s' ! j < length (inodes s')" if "j < length (pcs s)" "has_fd (pcs s' ! j)" for j
      using pid_lock_invD(3) [OF inv that(1)] own that len(2) by (cases "j = i") (auto simp: pcs fds)
    show "locks (inodes s' ! (fds s' ! j)) = [(j, LOCK_EX)]" if "j < length (pcs s)" "has_lock (pcs s' ! j)" for j
      using pid_lock_invD(3, 4) [OF inv that(1)] no that len(2) fd by (cases "j = i") (auto simp: pcs fds nodes)
    show "\<exists>j<length (pcs s). has_lock (pcs s' ! j) \<and> fds s' ! j = g" if "g < length (inodes s')" "locks (inodes s' ! g) \<noteq> []" for g
    proof -
      have "g < length (inodes s)" "locks (inodes s ! g) \<noteq> []" using that by (auto simp: nodes split: if_splits)
      from pid_lock_invD(5) [OF inv this] obtain j where "j < length (pcs s)" "has_lock (pcs s ! j)" "fds s ! j = g" by blast
      moreover from this no(2) have "j \<noteq> i" by auto
      ultimately show ?thesis by (auto simp: pcs fds intro!: exI [of _ j])
    qed
    show "content (inodes s' ! (fds s' ! j)) = dec_nat (pid j) @ nl" if "j < length (pcs s)" "pcs s' ! j = P_Running" for j
      using pid_lock_invD(3, 6) [OF inv that(1)] that len(2) by (cases "j = i") (auto simp: pcs fds nodes has_fd_def)
  qed
  then show ?thesis by (simp add: s'_def)
qed

text \<open>Releasing the lock of a description leaves the other descriptions' locks alone.\<close>

lemma unlock_own:
  assumes inv: "pid_lock_inv pid s" and i: "i < length (pcs s)" "has_fd (pcs s ! i)"
  shows "flock_unlock i (locks (inodes s ! (fds s ! i))) = (if has_lock (pcs s ! i) then [] else locks (inodes s ! (fds s ! i)))"
proof (cases "has_lock (pcs s ! i) \<or> locks (inodes s ! (fds s ! i)) = []")
  case False
  then obtain j where j: "j < length (pcs s)" "has_lock (pcs s ! j)" "fds s ! j = fds s ! i"
    using pid_lock_invD(5) [OF inv pid_lock_invD(3) [OF inv i]] by blast
  with False have "j \<noteq> i" by auto
  with pid_lock_invD(4) [OF inv j(1, 2)] j(3) False show ?thesis by (simp add: flock_unlock_def)
qed (use pid_lock_invD(4) [OF inv i(1)] in \<open>auto simp: flock_unlock_def\<close>)

text \<open>The non-blocking exclusive lock is granted only on a file nobody has locked.\<close>

lemma lock_was_free:
  assumes inv: "pid_lock_inv pid s" and i: "i < length (pcs s)" "pcs s ! i = P_Lock" and f: "f = fds s ! i"
    and got: "flock_nb i LOCK_EX (locks (inodes s ! f)) = Some tab"
  shows "locks (inodes s ! f) = []" and "tab = [(i, LOCK_EX)]"
proof -
  show free: "locks (inodes s ! f) = []"
  proof (rule ccontr)
    assume "locks (inodes s ! f) \<noteq> []"
    then obtain j where j: "j < length (pcs s)" "has_lock (pcs s ! j)" "fds s ! j = f"
      using pid_lock_invD(5) [OF inv, of f] pid_lock_invD(3) [OF inv i(1)] i(2) f by (auto simp: has_fd_def)
    with pid_lock_invD(4) [OF inv j(1, 2)] flock_nb_free [OF got] have "j = i" by auto
    with j i(2) show False by (simp add: has_lock_def)
  qed
  with got show "tab = [(i, LOCK_EX)]"
    by (auto simp: flock_nb_def flock_unlock_def split: if_splits)
qed

lemma pid_step_inv:
  assumes inv: "pid_lock_inv pid s" and "pid_step unlinks pid s s'"
  shows "pid_lock_inv pid s'"
  using assms(2)
proof cases
  case (crash i)
  then have fd: "has_fd (pcs s ! i)" by (simp add: has_fd_def)
  note unl = unlock_own [OF inv crash(2) fd]
  show ?thesis
    unfolding crash(1)
    by (rule pid_file_inv [OF inv crash(2) fd refl, where pc = P_Crashed and nd = "(inodes s ! (fds s ! i))\<lparr>locks := flock_unlock i (locks (inodes s ! (fds s ! i)))\<rparr>"])
      (simp_all add: move_to_def on_file_def has_lock_def [of P_Crashed] unl)
next
  case (call i)
  define f where "f = fds s ! i"
  have on_own: "pid_lock_inv pid (move_to i pc (on_file f g s))"
    if "has_fd (pcs s ! i)" "if has_lock pc then locks (g (inodes s ! f)) = [(i, LOCK_EX)] \<and> set (locks (inodes s ! f)) \<subseteq> {(i, LOCK_EX)} \<and>
          (pc = P_Running \<longrightarrow> content (g (inodes s ! f)) = dec_nat (pid i) @ nl)
         else content (g (inodes s ! f)) = content (inodes s ! f) \<and> locks (g (inodes s ! f)) = (if has_lock (pcs s ! i) then [] else locks (inodes s ! f))"
    for pc g
    by (rule pid_file_inv [OF inv call(1) that(1) f_def]) (use that(2) in \<open>simp_all add: move_to_def on_file_def\<close>)
  have quiet: "pid_lock_inv pid (move_to i pc s2)"
    if "\<not> has_lock (pcs s ! i)" "\<not> has_lock pc" "s2 = s \<or> s2 = s\<lparr>entry := None\<rparr>" "has_fd pc \<Longrightarrow> has_fd (pcs s ! i)" for pc s2
    by (rule pid_quiet_inv [OF inv call(1) that(1, 2)]) (use that(3, 4) in \<open>auto simp: move_to_def\<close>)
  have lk: "locks (inodes s ! f) = [(i, LOCK_EX)]" if "has_lock (pcs s ! i)"
    using pid_lock_invD(4) [OF inv call(1) that] by (simp add: f_def)
  show ?thesis
  proof (cases "pcs s ! i")
    case P_Lock
    show ?thesis
    proof (cases "flock_nb i LOCK_EX (locks (inodes s ! f))")
      case None
      with P_Lock call(2) show ?thesis
        using quiet [of "P_Refused (take 15 (content (inodes s ! f)))" s] by (simp add: pid_next_def f_def has_lock_def has_fd_def Let_def)
    next
      case (Some tab)
      note free = lock_was_free [OF inv call(1) P_Lock f_def Some]
      then show ?thesis
        using on_own [of P_Locked "\<lambda>n. n\<lparr>locks := tab\<rparr>"] P_Lock Some call(2) by (simp add: pid_next_def f_def has_lock_def has_fd_def Let_def)
    qed
  next
    case P_Open
    with call pid_open_inv [OF inv call(1)] show ?thesis by (simp add: pid_next_def Let_def)
  next
    case P_Locked
    with call(2) lk on_own [of P_Truncated "\<lambda>n. n\<lparr>content := []\<rparr>"] show ?thesis by (simp add: pid_next_def f_def has_lock_def has_fd_def Let_def)
  next
    case P_Truncated
    with call(2) lk on_own [of P_Running "\<lambda>n. n\<lparr>content := dec_nat (pid i) @ nl\<rparr>"] show ?thesis
      by (simp add: pid_next_def f_def has_lock_def has_fd_def Let_def)
  next
    case P_Running
    with call(2) lk on_own [of P_Unlocked "\<lambda>n. n\<lparr>locks := flock_unlock i (locks n)\<rparr>"] show ?thesis
      by (simp add: pid_next_def f_def has_lock_def has_fd_def flock_unlock_def Let_def)
  qed (use call(2) quiet in \<open>auto simp: pid_next_def has_lock_def has_fd_def Let_def split: if_splits\<close>)
qed

interpretation pid_locks: inv_system "\<lambda>s. s = pid_init n" "pid_step unlinks pid" "pid_lock_inv pid" for n unlinks pid
  by unfold_locales (simp add: pid_init_inv, erule (1) pid_step_inv)

section \<open>With and without removing the path\<close>

text \<open>If no instance removes the path, all of them open the same file.\<close>

definition one_file :: "pid_sys \<Rightarrow> bool" where
  "one_file s \<longleftrightarrow> (\<forall>i<length (pcs s). has_fd (pcs s ! i) \<longrightarrow> i < length (fds s) \<longrightarrow> entry s = Some (fds s ! i))"

lemma one_file_step:
  assumes one: "one_file s" and "pid_step False pid s s'"
  shows "one_file s'"
  using assms(2)
proof cases
  case (call i)
  have other: "has_fd (pcs s ! j) \<Longrightarrow> j < length (pcs s) \<Longrightarrow> j < length (fds s) \<Longrightarrow> entry s = Some (fds s ! j)" for j
    using one by (simp add: one_file_def)
  show "one_file s'"
    using call other
    by (cases "pcs s ! i";
        auto simp: pid_next_def one_file_def move_to_def on_file_def open_creat_def has_fd_def nth_list_update Let_def split: option.splits if_splits;
        blast)
next
  case (crash i)
  then show "one_file s'"
    using one by (auto simp: one_file_def move_to_def on_file_def has_fd_def nth_list_update)
qed

interpretation one_lock_file: inv_system "\<lambda>s. s = pid_init n" "pid_step False pid" one_file for n pid
  by unfold_locales (simp add: one_file_def pid_init_def has_fd_def, erule (1) one_file_step)

lemma pid_schedule_steps: "pid_schedule u pid is s = Some s' \<Longrightarrow> \<forall>i\<in>set is. i < length (pcs s) \<Longrightarrow> (pid_step u pid)\<^sup>*\<^sup>* s s'"
proof (induction "is" arbitrary: s)
  case (Cons i "is")
  then obtain s1 where s1: "pid_next u pid i s = Some s1" "pid_schedule u pid is s1 = Some s'"
    by (auto split: option.splits)
  have "length (pcs s1) = length (pcs s)"
    using s1(1) by (auto simp: pid_next_def move_to_def on_file_def open_creat_def Let_def split: pid_pc.splits option.splits if_splits)
  moreover have "pid_step u pid s s1" using s1(1) Cons.prems(2) by (auto intro: call)
  ultimately show ?case using Cons s1(2) by (auto intro: converse_rtranclp_into_rtranclp)
qed simp

lemma two_instances_run:
  "\<exists>s. (pid_step True (\<lambda>i. 100 + i))\<^sup>*\<^sup>* (pid_init 2) s \<and> pcs s = [P_Running, P_Running]"
proof -
  have "\<exists>s. pid_schedule True (\<lambda>i. 100 + i) [0, 0, 0, 0, 0, 1, 1, 1, 1, 1] (pid_init 2) = Some s \<and> pcs s = [P_Running, P_Running]"
    by (simp add: pid_init_def pid_next_def move_to_def open_creat_def on_file_def flock_nb_def grantable_def flock_unlock_def numeral_2_eq_2 Let_def)
  then show ?thesis
    using pid_schedule_steps [of True "\<lambda>i. 100 + i" "[0, 0, 0, 0, 0, 1, 1, 1, 1, 1]" "pid_init 2"] by (auto simp: pid_init_def)
qed

section \<open>Properties\<close>

text \<open>
  C29: The PID lock file.  In every reachable state, crashes included, two instances that hold the lock of the same file are
  the same instance, and the file of a running instance contains its PID.  Without the removals of the path at most one
  instance holds the lock at all; as the program is written, removing the path before it opens it, two instances can run at
  the same time.
\<close>

theorem pid_lock_file:
  assumes "(pid_step unlinks pid)\<^sup>*\<^sup>* (pid_init n) s" and "i < length (pcs s)" and "has_lock (pcs s ! i)"
  shows "(\<forall>j<length (pcs s). has_lock (pcs s ! j) \<longrightarrow> fds s ! j = fds s ! i \<longrightarrow> j = i) \<and>
    (pcs s ! i = P_Running \<longrightarrow> content (inodes s ! (fds s ! i)) = dec_nat (pid i) @ nl) \<and>
    (\<not> unlinks \<longrightarrow> (\<forall>j<length (pcs s). has_lock (pcs s ! j) \<longrightarrow> j = i)) \<and>
    (\<exists>s. (pid_step True (\<lambda>i. 100 + i))\<^sup>*\<^sup>* (pid_init 2) s \<and> pcs s = [P_Running, P_Running])"
proof -
  have inv: "pid_lock_inv pid s"
    using pid_locks.reachable_inv [OF refl assms(1)] .
  have same: "j = i" if "j < length (pcs s)" "has_lock (pcs s ! j)" "fds s ! j = fds s ! i" for j
    using pid_lock_invD(4) [OF inv that(1, 2)] pid_lock_invD(4) [OF inv assms(2, 3)] that(3) by (metis fst_conv list.sel(1))
  have "j = i" if "\<not> unlinks" "j < length (pcs s)" "has_lock (pcs s ! j)" for j
  proof -
    have "(pid_step False pid)\<^sup>*\<^sup>* (pid_init n) s" using assms(1) that(1) by simp
    then have one: "one_file s" by (rule one_lock_file.reachable_inv [OF refl])
    have "has_fd (pcs s ! k)" if "has_lock (pcs s ! k)" for k using that by (auto simp: has_lock_def has_fd_def)
    then have "entry s = Some (fds s ! k)" if "k < length (pcs s)" "has_lock (pcs s ! k)" for k
      using one that pid_lock_invD(1) [OF inv] by (simp add: one_file_def)
    from this [OF that(2, 3)] this [OF assms(2, 3)] show ?thesis
      using that(2, 3) by (intro same) simp_all
  qed
  with same pid_lock_invD(6) [OF inv assms(2)] show ?thesis
    by (intro conjI two_instances_run) blast+
qed

theorem pid_lock_file_witness:
  "\<exists>s. (pid_step False (\<lambda>i. 100 + i))\<^sup>*\<^sup>* (pid_init 2) s \<and> pcs s ! 0 = P_Running \<and> content (inodes s ! (fds s ! 0)) = ''100'' @ nl"
proof -
  have "\<exists>s. pid_schedule False (\<lambda>i. 100 + i) [0, 0, 0, 0, 0] (pid_init 2) = Some s \<and> pcs s = [P_Running, P_Start]"
    by (simp add: pid_init_def pid_next_def move_to_def open_creat_def on_file_def flock_nb_def grantable_def flock_unlock_def numeral_2_eq_2 Let_def)
  then obtain s where s: "(pid_step False (\<lambda>i. 100 + i))\<^sup>*\<^sup>* (pid_init 2) s" "pcs s = [P_Running, P_Start]"
    using pid_schedule_steps [of False "\<lambda>i. 100 + i" "[0, 0, 0, 0, 0]" "pid_init 2"] by (auto simp: pid_init_def)
  have "dec_nat 100 = ''100''" by code_simp
  with pid_lock_file [OF s(1), of 0] s show ?thesis by (auto simp: has_lock_def)
qed

text \<open>The three demonstrations on free files.\<close>

lemma lock_demos:
  "demo_flock [] = ([''  acquired LOCK_EX'', ''  child: LOCK_SH | LOCK_NB -> EWOULDBLOCK (expected)'', ''  released LOCK_EX'',
     ''  child2: acquired LOCK_SH after release''], [])"
  "demo_fcntl_locks (\<lambda>_ _ _ ls. Some ls) (\<lambda>_ _ _ _. None) () = Some ([''  locked record 2 (bytes 32-47) F_WRLCK'', ''  F_GETLK: no conflict (this fd owns it)'',
     ''  locked record 0 F_RDLCK (non-overlapping - succeeds)'', ''  unlocked record 2''], ())"
  "refusal_line (''4711'' @ nl) = ''  second instance refused - held by PID 4711''"
  by code_simp+

end
