(* ===== verification/Ping_Pong.thy ===== *)
theory Ping_Pong
  imports Feeds
begin

text \<open>
  \<^verbatim>\<open>networking/02_tcp_options.cpp\<close>: the socket options, with what the kernel makes of a value as an argument, and the
  round trips between \<open>ping_rtt_us\<close> and \<open>echo_server\<close> over a byte stream that may be cut anywhere; and the addresses of
  \<^verbatim>\<open>networking/07_unix_domain_sockets.cpp\<close>.
\<close>

section \<open>Socket options\<close>

datatype sock_opt =
    SO_REUSEADDR | SO_REUSEPORT | TCP_NODELAY | SO_KEEPALIVE | SO_SNDBUF | SO_RCVBUF | TCP_KEEPIDLE | TCP_KEEPINTVL | TCP_KEEPCNT

text \<open>
  The options of one socket; \<open>None\<close> is an option that is not supported.  \<open>stored\<close> gives the value that is kept
  for a value that is set (Linux doubles the buffer sizes).
\<close>

type_synonym sock_opts = "sock_opt \<Rightarrow> int option"

definition setsockopt :: "(sock_opt \<Rightarrow> int \<Rightarrow> int) \<Rightarrow> sock_opt \<Rightarrow> int \<Rightarrow> sock_opts \<Rightarrow> sock_opts" where
  "setsockopt stored opt v tab = (if tab opt = None then tab else tab(opt \<mapsto> stored opt v))"

definition show_opt :: "sock_opts \<Rightarrow> sock_opt \<Rightarrow> string \<Rightarrow> string" where
  "show_opt tab opt name =
     ''  '' @ pad 30 name @ '' = '' @ (case tab opt of Some v \<Rightarrow> dec_int v | None \<Rightarrow> ''(not supported)'')"

definition socket_options_set :: "(sock_opt \<Rightarrow> int \<Rightarrow> int) \<Rightarrow> sock_opts \<Rightarrow> sock_opts" where
  "socket_options_set stored tab =
     (let bufsz = 2 * 1024 * 1024 in
      setsockopt stored SO_RCVBUF bufsz (setsockopt stored SO_SNDBUF bufsz (setsockopt stored SO_KEEPALIVE 1
        (setsockopt stored TCP_NODELAY 1 (setsockopt stored SO_REUSEPORT 1 (setsockopt stored SO_REUSEADDR 1 tab))))))"

definition demo_socket_options :: "(sock_opt \<Rightarrow> int \<Rightarrow> int) \<Rightarrow> sock_opts \<Rightarrow> console" where
  "demo_socket_options stored tab =
     [''socket option defaults'', show_opt tab SO_REUSEADDR ''SO_REUSEADDR'', show_opt tab SO_REUSEPORT ''SO_REUSEPORT'',
      show_opt tab TCP_NODELAY ''TCP_NODELAY'', show_opt tab SO_KEEPALIVE ''SO_KEEPALIVE'', show_opt tab SO_SNDBUF ''SO_SNDBUF'',
      show_opt tab SO_RCVBUF ''SO_RCVBUF'', ''after setting options''] @
     (let tab = socket_options_set stored tab in
      [show_opt tab SO_REUSEADDR ''SO_REUSEADDR'', show_opt tab SO_REUSEPORT ''SO_REUSEPORT'',
       show_opt tab TCP_NODELAY ''TCP_NODELAY'', show_opt tab SO_KEEPALIVE ''SO_KEEPALIVE'', show_opt tab SO_SNDBUF ''SO_SNDBUF (actual)'',
       show_opt tab SO_RCVBUF ''SO_RCVBUF (actual)''])"

text \<open>\<open>demo_keepalive\<close> on Linux.\<close>

definition demo_keepalive :: "(sock_opt \<Rightarrow> int \<Rightarrow> int) \<Rightarrow> sock_opts \<Rightarrow> console \<times> sock_opts" where
  "demo_keepalive stored tab =
     (let idle = 10; intvl = 5; cnt = 3 in
      ([''TCP keepalive tuning'', ''  TCP_KEEPIDLE='' @ dec_int idle @ ''  TCP_KEEPINTVL='' @ dec_int intvl @ ''  TCP_KEEPCNT='' @ dec_int cnt],
       setsockopt stored TCP_KEEPCNT cnt (setsockopt stored TCP_KEEPINTVL intvl (setsockopt stored TCP_KEEPIDLE idle
         (setsockopt stored SO_KEEPALIVE 1 tab)))))"

section \<open>Ping and echo\<close>

definition NUM_PINGS :: nat where "NUM_PINGS = 20"

text \<open>
  The client: its 64-byte buffer, how many pings it sent and how many \<open>recv\<close> calls returned.  The server: how many of its
  \<open>recv\<close> calls returned.  \<open>to_server\<close> and \<open>to_client\<close> are the bytes on their way.
\<close>

record ping_sys =
  pbuf :: string
  pings :: nat
  answers :: nat
  served :: nat
  to_server :: string
  to_client :: string
  killed :: bool

definition ping_init :: ping_sys where
  "ping_init = \<lparr>pbuf = ''PING'' @ replicate 60 (CHR 0x00), pings = 0, answers = 0, served = 0, to_server = [], to_client = [], killed = False\<rparr>"

definition client_done :: "nat \<Rightarrow> ping_sys \<Rightarrow> bool" where
  "client_done n s \<longleftrightarrow> answers s = n"

definition server_done :: "nat \<Rightarrow> ping_sys \<Rightarrow> bool" where
  "server_done n s \<longleftrightarrow> served s = n"

text \<open>
  Both sides make \<open>n\<close> rounds.  \<open>recv\<close> returns any non-empty part of what is there, up to 64 bytes.  Once the other side
  has closed it may also return 0, or -1 when the connection was reset and what was on its way dropped; the server does
  not answer then and the client ignores it.  What is sent to a closed server is lost, and a \<open>send\<close> to a closed peer may
  raise \<^verbatim>\<open>SIGPIPE\<close>, which ends the process with both threads.
\<close>

definition to_closed :: "nat \<Rightarrow> ping_sys \<Rightarrow> bool" where
  "to_closed n s \<longleftrightarrow>
     server_done n s \<and> pings s = answers s \<and> pings s < n \<or> client_done n s \<and> served s < n \<and> to_server s \<noteq> []"

inductive ping_step :: "nat \<Rightarrow> ping_sys \<Rightarrow> ping_sys \<Rightarrow> bool" for n :: nat where
  client_send: "\<not> killed s \<Longrightarrow> pings s = answers s \<Longrightarrow> pings s < n \<Longrightarrow>
    ping_step n s (s\<lparr>pings := Suc (pings s), to_server := (if server_done n s then to_server s else to_server s @ take 4 (pbuf s))\<rparr>)"
| client_recv: "\<not> killed s \<Longrightarrow> answers s < pings s \<Longrightarrow> 0 < k \<Longrightarrow> k \<le> min 64 (length (to_client s)) \<Longrightarrow>
    ping_step n s (s\<lparr>answers := Suc (answers s), pbuf := take k (to_client s) @ drop k (pbuf s), to_client := drop k (to_client s)\<rparr>)"
| client_eof: "\<not> killed s \<Longrightarrow> answers s < pings s \<Longrightarrow> server_done n s \<Longrightarrow>
    ping_step n s (s\<lparr>answers := Suc (answers s), to_client := []\<rparr>)"
| server_echo: "\<not> killed s \<Longrightarrow> served s < n \<Longrightarrow> 0 < k \<Longrightarrow> k \<le> min 64 (length (to_server s)) \<Longrightarrow>
    ping_step n s (s\<lparr>served := Suc (served s), to_client := to_client s @ take k (to_server s), to_server := drop k (to_server s)\<rparr>)"
| server_eof: "\<not> killed s \<Longrightarrow> served s < n \<Longrightarrow> client_done n s \<Longrightarrow>
    ping_step n s (s\<lparr>served := Suc (served s), to_server := []\<rparr>)"
| broken_pipe: "\<not> killed s \<Longrightarrow> to_closed n s \<Longrightarrow> ping_step n s (s\<lparr>killed := True\<rparr>)"

inductive_cases ping_stepE: "ping_step n s s'"

text \<open>The average of the measured round trips, in microseconds, for times in nanoseconds.\<close>

definition ping_average :: "int list \<Rightarrow> real" where
  "ping_average ns = foldl (\<lambda>total d. total + real_of_int d / 1000) 0 ns / real (length ns)"

definition ping_inv :: "nat \<Rightarrow> ping_sys \<Rightarrow> bool" where
  "ping_inv n s \<longleftrightarrow>
     answers s \<le> pings s \<and> pings s \<le> Suc (answers s) \<and> pings s \<le> n \<and> served s \<le> n \<and> length (pbuf s) = 64 \<and>
     (\<not> server_done n s \<longrightarrow> answers s < pings s \<longrightarrow> to_server s \<noteq> [] \<or> to_client s \<noteq> [])"

lemma ping_init_inv: "ping_inv n ping_init"
  by (simp add: ping_inv_def ping_init_def)

lemma ping_step_inv: "ping_inv n s \<Longrightarrow> ping_step n s s' \<Longrightarrow> ping_inv n s'"
  by (elim ping_stepE) (auto simp: ping_inv_def server_done_def client_done_def)

interpretation ping_system: inv_system "\<lambda>s. s = ping_init" "ping_step n" "ping_inv n" for n
  by unfold_locales (simp add: ping_init_inv, erule (1) ping_step_inv)

definition ping_left :: "nat \<Rightarrow> ping_sys \<Rightarrow> nat" where
  "ping_left n s = (n - pings s) + (n - answers s) + (n - served s) + (if killed s then 0 else 1)"

definition ping_ended :: "nat \<Rightarrow> ping_sys \<Rightarrow> bool" where
  "ping_ended n s \<longleftrightarrow> killed s \<or> client_done n s \<and> server_done n s"

lemma ping_step_decreases: "ping_inv n s \<Longrightarrow> ping_step n s s' \<Longrightarrow> ping_left n s' < ping_left n s"
  by (elim ping_stepE) (auto simp: ping_inv_def ping_left_def server_done_def)

lemma ping_progress:
  assumes "ping_inv n s" and "\<not> ping_ended n s"
  shows "\<exists>s'. ping_step n s s'"
proof -
  have alive: "\<not> killed s" using assms(2) by (simp add: ping_ended_def)
  consider (send) "pings s = answers s" "pings s < n" | (reply) "answers s < pings s" "to_client s \<noteq> []"
    | (closed) "answers s < pings s" "server_done n s"
    | (echo) "\<not> server_done n s" "to_server s \<noteq> []" | (rest) "\<not> server_done n s" "client_done n s"
    using assms by (fastforce simp: ping_inv_def ping_ended_def client_done_def server_done_def)
  then show ?thesis
  proof cases
    case reply
    then have "1 \<le> min 64 (length (to_client s))" by (simp add: Suc_le_eq)
    with client_recv [of s 1 n] reply alive show ?thesis by auto
  next
    case echo
    then have "1 \<le> min 64 (length (to_server s))" "served s < n"
      using assms(1) by (auto simp: Suc_le_eq ping_inv_def server_done_def)
    with server_echo [of s n 1] alive show ?thesis by auto
  next
    case rest
    then show ?thesis using server_eof alive assms(1) by (auto simp: ping_inv_def server_done_def le_less)
  qed (use client_send client_eof alive in blast)+
qed

interpretation ping_ends: ending_system "\<lambda>s. s = ping_init" "ping_step n" "ping_inv n" "ping_left n" "ping_ended n" for n
  by unfold_locales (erule (1) ping_step_decreases, erule (1) ping_progress)

text \<open>Runs in which every \<open>recv\<close> returns all that is on its way: there are then never more than the four bytes of one ping.\<close>

definition uncut_step :: "nat \<Rightarrow> ping_sys \<Rightarrow> ping_sys \<Rightarrow> bool" where
  "uncut_step n s s' \<longleftrightarrow> ping_step n s s' \<and> length (to_server s') \<in> {0, 4} \<and> length (to_client s') \<in> {0, 4}"

definition in_flight :: "string \<Rightarrow> nat" where
  "in_flight t = (if t = [] then 0 else 1)"

definition uncut_inv :: "nat \<Rightarrow> ping_sys \<Rightarrow> bool" where
  "uncut_inv n s \<longleftrightarrow>
     ping_inv n s \<and> \<not> killed s \<and> length (to_server s) \<in> {0, 4} \<and> length (to_client s) \<in> {0, 4} \<and>
     pings s = served s + in_flight (to_server s) \<and> served s = answers s + in_flight (to_client s)"

lemma uncut_init_inv: "uncut_inv n ping_init"
  using ping_init_inv by (simp add: uncut_inv_def ping_init_def in_flight_def)

lemma uncut_not_closed:
  assumes "uncut_inv n s"
  shows "\<not> to_closed n s"
proof
  assume closed: "to_closed n s"
  have counts: "pings s = served s + in_flight (to_server s)" "served s = answers s + in_flight (to_client s)" "pings s \<le> n"
    using assms by (simp_all add: uncut_inv_def ping_inv_def)
  from closed consider "served s = n" "pings s = answers s" "pings s < n" | "answers s = n" "served s < n"
    unfolding to_closed_def server_done_def client_done_def by blast
  then show False using counts by cases linarith+
qed

lemma in_flight_simps [simp]: "in_flight [] = 0" "t \<noteq> [] \<Longrightarrow> in_flight t = 1"
  by (simp_all add: in_flight_def)

lemma uncut_step_inv:
  assumes "uncut_inv n s" and "uncut_step n s s'"
  shows "uncut_inv n s'"
proof -
  have st: "ping_step n s s'" and len: "length (to_server s') \<in> {0, 4}" "length (to_client s') \<in> {0, 4}"
    using assms(2) by (auto simp: uncut_step_def)
  have inv: "ping_inv n s'" using ping_step_inv st assms(1) by (auto simp: uncut_inv_def)
  have old: "\<not> killed s" "length (to_server s) \<in> {0, 4}" "length (to_client s) \<in> {0, 4}" "length (pbuf s) = 64" "pings s \<le> n"
    "pings s = served s + in_flight (to_server s)" "served s = answers s + in_flight (to_client s)"
    using assms(1) by (simp_all add: uncut_inv_def ping_inv_def)
  from st have "\<not> killed s' \<and> pings s' = served s' + in_flight (to_server s') \<and> served s' = answers s' + in_flight (to_client s')"
  proof cases
    case client_send
    then have "to_server s = []" "to_client s = []" "take 4 (pbuf s) \<noteq> []" using old by (auto simp: in_flight_def split: if_splits)
    then show ?thesis using client_send old by (simp add: server_done_def)
  next
    case (client_recv k)
    then have "to_client s \<noteq> []" "drop k (to_client s) = []" using old len by auto
    then show ?thesis using client_recv old by simp
  next
    case client_eof
    then show ?thesis using old by (auto simp: server_done_def in_flight_def split: if_splits)
  next
    case (server_echo k)
    then have "to_server s \<noteq> []" "drop k (to_server s) = []" "take k (to_server s) \<noteq> []" using old len by auto
    moreover have "to_client s = []" using server_echo old len by auto
    ultimately show ?thesis using server_echo old by simp
  next
    case server_eof
    then show ?thesis using old by (auto simp: client_done_def in_flight_def split: if_splits)
  next
    case broken_pipe
    then show ?thesis using uncut_not_closed [OF assms(1)] by simp
  qed
  with inv len show ?thesis by (simp add: uncut_inv_def)
qed

interpretation uncut_system: inv_system "\<lambda>s. s = ping_init" "uncut_step n" "uncut_inv n" for n
  by unfold_locales (simp add: uncut_init_inv, erule (1) uncut_step_inv)

text \<open>A server that reads byte by byte has made four rounds when the client has made one.\<close>

definition cut_state :: "nat \<Rightarrow> ping_sys" where
  "cut_state r = ping_init\<lparr>pings := r, answers := r, served := 4 * r\<rparr>"

lemma cut_round:
  assumes "4 * r < 4 * m"
  shows "(ping_step (4 * m))\<^sup>*\<^sup>* (cut_state r) (cut_state (Suc r))"
proof -
  let ?s = "\<lambda>sv ts tc. ping_init\<lparr>pings := Suc r, answers := r, served := sv, to_server := ts, to_client := tc\<rparr>"
  have send: "ping_step (4 * m) (cut_state r) (?s (4 * r) ''PING'' [])"
    using client_send [of "cut_state r" "4 * m"] assms by (simp add: cut_state_def ping_init_def server_done_def)
  have echo: "ping_step (4 * m) (?s sv (c # ts) tc) (?s (Suc sv) ts (tc @ [c]))" if "sv < 4 * m" for sv c ts tc
    using server_echo [of "?s sv (c # ts) tc" "4 * m" 1] that by (simp add: ping_init_def)
  have recv: "ping_step (4 * m) (?s (4 * Suc r) [] ''PING'') (cut_state (Suc r))"
    using client_recv [of "?s (4 * Suc r) [] ''PING''" 4 "4 * m"] by (simp add: cut_state_def ping_init_def)
  have bound: "Suc (Suc (Suc (4 * r))) < 4 * m" using assms by simp
  have e0: "ping_step (4 * m) (?s (4 * r) ''PING'' []) (?s (Suc (4 * r)) ''ING'' ''P'')"
    using echo [where sv = "4 * r" and tc = "[]" and ts = "''ING''" and c = "CHR ''P''"] bound by simp
  have e1: "ping_step (4 * m) (?s (Suc (4 * r)) ''ING'' ''P'') (?s (Suc (Suc (4 * r))) ''NG'' ''PI'')"
    using echo [where sv = "Suc (4 * r)" and tc = "''P''" and ts = "''NG''" and c = "CHR ''I''"] bound by simp
  have e2: "ping_step (4 * m) (?s (Suc (Suc (4 * r))) ''NG'' ''PI'') (?s (Suc (Suc (Suc (4 * r)))) ''G'' ''PIN'')"
    using echo [where sv = "Suc (Suc (4 * r))" and tc = "''PI''" and ts = "''G''" and c = "CHR ''N''"] bound by simp
  have e3: "ping_step (4 * m) (?s (Suc (Suc (Suc (4 * r)))) ''G'' ''PIN'') (?s (Suc (Suc (Suc (Suc (4 * r))))) [] ''PING'')"
    using echo [where sv = "Suc (Suc (Suc (4 * r)))" and tc = "''PIN''" and ts = "[]" and c = "CHR ''G''"] bound by simp
  have last: "4 * Suc r = Suc (Suc (Suc (Suc (4 * r))))" by simp
  note into = rtranclp.rtrancl_into_rtrancl [where r = "ping_step (4 * m)"]
  have "(ping_step (4 * m))\<^sup>*\<^sup>* (cut_state r) (?s (4 * Suc r) [] ''PING'')"
    unfolding last by (rule into, rule into, rule into, rule into, rule r_into_rtranclp, rule send, rule e0, rule e1, rule e2, rule e3)
  then show ?thesis using recv by (rule into)
qed

lemma cut_rounds: "r \<le> m \<Longrightarrow> (ping_step (4 * m))\<^sup>*\<^sup>* (cut_state 0) (cut_state r)"
proof (induction r)
  case (Suc r)
  then show ?case using cut_round [of r m] by (auto intro: rtranclp_trans)
qed simp

lemma cut_pings_kill: "\<exists>u. (ping_step NUM_PINGS)\<^sup>*\<^sup>* ping_init u \<and> killed u"
proof -
  have start: "cut_state 0 = ping_init" by (simp add: cut_state_def ping_init_def)
  have n: "4 * 5 = NUM_PINGS" by (simp add: NUM_PINGS_def)
  have "ping_step (4 * 5) (cut_state 5) (cut_state 5\<lparr>killed := True\<rparr>)"
    by (rule broken_pipe) (simp_all add: cut_state_def ping_init_def to_closed_def server_done_def)
  with cut_rounds [of 5 5] have "(ping_step (4 * 5))\<^sup>*\<^sup>* (cut_state 0) (cut_state 5\<lparr>killed := True\<rparr>)"
    by (metis order_refl rtranclp.rtrancl_into_rtrancl)
  moreover have "killed (cut_state 5\<lparr>killed := True\<rparr>)" by simp
  ultimately show ?thesis unfolding n start by blast
qed

section \<open>Addresses of UNIX sockets\<close>

text \<open>\<open>fill_addr\<close> zeroes the 108 bytes of \<open>sun_path\<close> and copies at most 107 of the path.\<close>

definition fill_addr :: "byte list \<Rightarrow> byte list" where
  "fill_addr path = strncpy 107 path @ [0]"

text \<open>An abstract address: a zero byte, the name, and a length that ends with the name.\<close>

definition abstract_addr :: "byte list \<Rightarrow> byte list \<times> nat" where
  "abstract_addr name = (0 # strncpy 106 name @ [0], 2 + 1 + length name)"

text \<open>The bytes the kernel takes as the name: those after the family, up to the length.\<close>

definition bound_name :: "byte list \<times> nat \<Rightarrow> byte list" where
  "bound_name addr = (case addr of (path, len) \<Rightarrow> take (len - 2) path)"

lemma fill_addr_path:
  assumes "0 \<notin> set path"
  shows "length (fill_addr path) = 108" and "field_text (fill_addr path) = take 107 path"
proof -
  show "length (fill_addr path) = 108" by (simp add: fill_addr_def)
  have "0 \<notin> set (take 107 path)" using assms by (meson in_set_takeD)
  have "fill_addr path = take 107 path @ replicate (107 - length path) 0 @ [0]"
    by (simp add: fill_addr_def strncpy_def)
  moreover have "takeWhile (\<lambda>b. b \<noteq> 0) (replicate (107 - length path) 0 @ [0]) = ([] :: byte list)"
    by (cases "107 - length path") simp_all
  moreover have "takeWhile (\<lambda>b. b \<noteq> 0) (take 107 path @ replicate (107 - length path) 0 @ [0])
      = take 107 path @ takeWhile (\<lambda>b. b \<noteq> 0) (replicate (107 - length path) 0 @ [0])"
    by (rule takeWhile_append2) (use \<open>0 \<notin> set (take 107 path)\<close> in auto)
  ultimately show "field_text (fill_addr path) = take 107 path"
    by (simp add: field_text_def)
qed

lemma abstract_name: "length name \<le> 106 \<Longrightarrow> bound_name (abstract_addr name) = 0 # name"
  by (simp add: bound_name_def abstract_addr_def strncpy_def)

section \<open>Properties\<close>

lemma socket_options_shown:
  assumes "tab opt \<noteq> None" and "opt \<in> {SO_REUSEADDR, SO_REUSEPORT, TCP_NODELAY, SO_KEEPALIVE}"
  shows "socket_options_set stored tab opt = Some (stored opt 1)"
  using assms by (auto simp: socket_options_set_def setsockopt_def Let_def)

text \<open>
  C30: The latency measurement ends.  However the stream cuts the pings and the echoes, no side is left waiting for
  the other for ever: every reachable state that has not ended has a step, every step brings the end closer, and the end is
  that both have made their \<open>n\<close> rounds or that a send to the closed peer killed the process.  When every \<open>recv\<close>
  returns all that is on its way, no send ever meets a closed peer; a \<open>recv\<close> that cuts a ping lets the server leave too
  early, and then the process can be killed.  A path of a UNIX socket always ends with a zero byte and is kept up to 107
  bytes; an abstract name is passed on exactly.
\<close>

theorem ping_pong_ends:
  assumes "(ping_step n)\<^sup>*\<^sup>* ping_init s" and "0 \<notin> set path" and "length name \<le> 106"
  shows "(\<exists>s'. (ping_step n)\<^sup>*\<^sup>* s s' \<and> ping_ended n s') \<and>
    (\<forall>s'. ping_step n s s' \<longrightarrow> ping_left n s' < ping_left n s) \<and>
    (\<not> ping_ended n s \<longrightarrow> (\<exists>s'. ping_step n s s')) \<and>
    (\<forall>u. (uncut_step n)\<^sup>*\<^sup>* ping_init u \<longrightarrow> \<not> killed u \<and> \<not> to_closed n u) \<and>
    (\<exists>u. (ping_step NUM_PINGS)\<^sup>*\<^sup>* ping_init u \<and> killed u) \<and>
    field_text (fill_addr path) = take 107 path \<and> bound_name (abstract_addr name) = 0 # name"
proof -
  have inv: "ping_inv n s" using ping_system.reachable_inv [OF refl assms(1)] .
  have uncut: "\<not> killed u \<and> \<not> to_closed n u" if "(uncut_step n)\<^sup>*\<^sup>* ping_init u" for u
    using uncut_system.reachable_inv [OF refl that] uncut_not_closed by (auto simp: uncut_inv_def)
  show ?thesis
    using ping_ends.finishes [OF inv] ping_step_decreases [OF inv] ping_progress [OF inv] fill_addr_path(2) [OF assms(2)]
      abstract_name [OF assms(3)] uncut cut_pings_kill by blast
qed

theorem ping_pong_ends_witness:
  "(\<exists>s. (ping_step NUM_PINGS)\<^sup>*\<^sup>* ping_init s \<and> ping_ended NUM_PINGS s) \<and>
   field_text (fill_addr [47, 116]) = [47, 116]"
  using ping_pong_ends [of NUM_PINGS ping_init "[47, 116]" "[]"] by simp

end
