(* ===== verification/Guarded_Data.thy ===== *)
theory Guarded_Data
  imports File_Locks
begin

text \<open>
  Data behind a reader/writer lock of a library: the \<open>Cache\<close> of \<^verbatim>\<open>libraries/folly/10_shared_mutex.cpp\<close>, the vector of
  \<^verbatim>\<open>libraries/folly/04_synchronized.cpp\<close> and the \<open>SafeCounter\<close> of \<^verbatim>\<open>libraries/abseil/08_mutex.cpp\<close>.  The lock is an argument of the
  programs; the locale \<open>shared_lock\<close> states what its documentation promises.  The whole-file locks of \<^verbatim>\<open>File_Locks\<close>
  provide the same interface, and so does \<open>std::shared_mutex\<close>.
\<close>

section \<open>The lock\<close>

record 'm lock_ops =
  lk_new :: 'm
  lk_lock_shared :: "nat \<Rightarrow> 'm \<Rightarrow> 'm option"
  lk_unlock_shared :: "nat \<Rightarrow> 'm \<Rightarrow> 'm"
  lk_lock :: "nat \<Rightarrow> 'm \<Rightarrow> 'm option"
  lk_unlock :: "nat \<Rightarrow> 'm \<Rightarrow> 'm"

text \<open>
  The argument of type \<open>nat\<close> is the thread; \<open>None\<close> means that the lock is not available now, so that the thread waits or
  a \<open>try_lock\<close> fails.  \<open>sh m\<close> and \<open>ex m\<close> are the threads that hold \<open>m\<close> shared and exclusively.
\<close>

locale shared_lock =
  fixes L :: "'m lock_ops"
    and sh :: "'m \<Rightarrow> nat set"
    and ex :: "'m \<Rightarrow> nat set"
    and good :: "'m \<Rightarrow> bool"
  assumes new_free: "good (lk_new L) \<and> sh (lk_new L) = {} \<and> ex (lk_new L) = {}"
    and lock_shared_excludes: "good m \<Longrightarrow> i \<notin> sh m \<union> ex m \<Longrightarrow> lk_lock_shared L i m = Some m' \<Longrightarrow>
      good m' \<and> ex m = {} \<and> sh m' = insert i (sh m) \<and> ex m' = {}"
    and lock_excludes: "good m \<Longrightarrow> i \<notin> sh m \<union> ex m \<Longrightarrow> lk_lock L i m = Some m' \<Longrightarrow>
      good m' \<and> ex m = {} \<and> sh m = {} \<and> sh m' = {} \<and> ex m' = {i}"
    and readers_share: "good m \<Longrightarrow> ex m = {} \<Longrightarrow> \<exists>m'. lk_lock_shared L i m = Some m'"
    and free_grants: "good m \<Longrightarrow> ex m = {} \<Longrightarrow> sh m = {} \<Longrightarrow> \<exists>m'. lk_lock L i m = Some m'"
    and unlock_shared_drops: "good m \<Longrightarrow> i \<in> sh m \<Longrightarrow>
      good (lk_unlock_shared L i m) \<and> sh (lk_unlock_shared L i m) = sh m - {i} \<and> ex (lk_unlock_shared L i m) = ex m"
    and unlock_drops: "good m \<Longrightarrow> i \<in> ex m \<Longrightarrow>
      good (lk_unlock L i m) \<and> ex (lk_unlock L i m) = ex m - {i} \<and> sh (lk_unlock L i m) = sh m"

text \<open>\<open>std::shared_mutex\<close>: the readers and the writer, if there is one.\<close>

definition std_shared_mutex :: "(nat set \<times> nat option) lock_ops" where
  "std_shared_mutex =
     \<lparr>lk_new = ({}, None),
      lk_lock_shared = (\<lambda>i (r, w). if w = None then Some (insert i r, None) else None),
      lk_unlock_shared = (\<lambda>i (r, w). (r - {i}, w)),
      lk_lock = (\<lambda>i (r, w). if w = None \<and> r = {} then Some ({}, Some i) else None),
      lk_unlock = (\<lambda>i (r, w). (r, None))\<rparr>"

interpretation std_lock: shared_lock std_shared_mutex fst "\<lambda>m. set_option (snd m)" "\<lambda>_. True"
  by unfold_locales (auto simp: std_shared_mutex_def split: if_splits)

text \<open>The whole-file lock, one open description for each thread.\<close>

definition flock_lock :: "flock_table lock_ops" where
  "flock_lock =
     \<lparr>lk_new = [], lk_lock_shared = (\<lambda>i. flock_nb i LOCK_SH), lk_unlock_shared = flock_unlock,
      lk_lock = (\<lambda>i. flock_nb i LOCK_EX), lk_unlock = flock_unlock\<rparr>"

definition flock_holders :: "flock_mode \<Rightarrow> flock_table \<Rightarrow> nat set" where
  "flock_holders k tab = {d. (d, k) \<in> set tab}"

lemma flock_nb_granted:
  assumes "i \<notin> flock_holders LOCK_SH tab \<union> flock_holders LOCK_EX tab" and "flock_nb i k tab = Some tab'"
  shows "tab' = (i, k) # tab" and "flock_holders LOCK_EX tab = {}" and "k = LOCK_EX \<Longrightarrow> flock_holders LOCK_SH tab = {}"
proof -
  have other: "d \<noteq> i" if "(d, m) \<in> set tab" for d m
    using assms(1) that by (cases m) (auto simp: flock_holders_def)
  have all: "k = LOCK_SH \<and> m = LOCK_SH" if "(d, m) \<in> set tab" for d m
    using assms(2) that other [OF that] by (auto simp: flock_nb_def grantable_def list_all_iff split: if_splits)
  have "flock_unlock i tab = tab" using other by (auto simp: flock_unlock_def filter_id_conv)
  then show "tab' = (i, k) # tab" using assms(2) by (auto simp: flock_nb_def split: if_splits)
  show "flock_holders LOCK_EX tab = {}" using all by (auto simp: flock_holders_def)
  show "k = LOCK_EX \<Longrightarrow> flock_holders LOCK_SH tab = {}" using all by (auto simp: flock_holders_def)
qed

lemma flock_nb_grants:
  "flock_holders LOCK_EX tab = {} \<Longrightarrow> k = LOCK_SH \<or> flock_holders LOCK_SH tab = {} \<Longrightarrow> \<exists>tab'. flock_nb i k tab = Some tab'"
  by (auto simp: flock_nb_def grantable_def list_all_iff flock_holders_def) (metis flock_mode.exhaust)+

lemma flock_unlock_holders:
  "flock_holders k (flock_unlock i tab) = flock_holders k tab - {i}"
  by (auto simp: flock_holders_def flock_unlock_def)

lemma flock_holder_unique:
  "flock_ok tab \<Longrightarrow> i \<in> flock_holders LOCK_SH tab \<Longrightarrow> i \<notin> flock_holders LOCK_EX tab"
  by (auto simp: flock_ok_def flock_holders_def dest: eq_key_imp_eq_value)

interpretation file_lock: shared_lock flock_lock "flock_holders LOCK_SH" "flock_holders LOCK_EX" flock_ok
proof (unfold_locales, goal_cases)
  case 1
  then show ?case by (simp add: flock_lock_def flock_ok_def flock_holders_def)
next
  case (2 m i m')
  then show ?case
    using flock_nb_granted [of i m LOCK_SH m'] flock_nb_ok [of m i LOCK_SH m'] by (auto simp: flock_lock_def flock_holders_def)
next
  case (3 m i m')
  then show ?case
    using flock_nb_granted [of i m LOCK_EX m'] flock_nb_ok [of m i LOCK_EX m'] by (auto simp: flock_lock_def flock_holders_def)
next
  case (4 m i)
  then show ?case using flock_nb_grants by (simp add: flock_lock_def)
next
  case (5 m i)
  then show ?case using flock_nb_grants by (simp add: flock_lock_def)
next
  case (6 m i)
  then show ?case using flock_holder_unique by (auto simp: flock_lock_def flock_unlock_holders flock_unlock_ok)
next
  case (7 m i)
  then show ?case using flock_holder_unique by (auto simp: flock_lock_def flock_unlock_holders flock_unlock_ok)
qed

section \<open>A counter of reads and a guarded value\<close>

text \<open>
  A reader takes the lock shared and increments \<open>reads\<close>, which is a load and a store; a writer takes it exclusively and
  increments \<open>value\<close>.  With each thread goes the number of rounds it has still to start.
\<close>

datatype rw_pc = R_Idle | R_In | R_Loaded int | R_Out | W_Idle | W_In | W_Loaded int | W_Out

record 'm cache =
  mu :: 'm
  value_of :: int
  reads_of :: int

fun cache_local :: "'m lock_ops \<Rightarrow> unit \<Rightarrow> nat \<Rightarrow> 'm cache \<Rightarrow> rw_pc \<times> nat \<Rightarrow> ('m cache \<times> rw_pc \<times> nat) option" where
  "cache_local L c i g (R_Idle, Suc n) = map_option (\<lambda>m. (g\<lparr>mu := m\<rparr>, R_In, n)) (lk_lock_shared L i (mu g))"
| "cache_local L c i g (R_In, n) = Some (g, R_Loaded (reads_of g), n)"
| "cache_local L c i g (R_Loaded v, n) = Some (g\<lparr>reads_of := v + 1\<rparr>, R_Out, n)"
| "cache_local L c i g (R_Out, n) = Some (g\<lparr>mu := lk_unlock_shared L i (mu g)\<rparr>, R_Idle, n)"
| "cache_local L c i g (W_Idle, Suc n) = map_option (\<lambda>m. (g\<lparr>mu := m\<rparr>, W_In, n)) (lk_lock L i (mu g))"
| "cache_local L c i g (W_In, n) = Some (g, W_Loaded (value_of g), n)"
| "cache_local L c i g (W_Loaded v, n) = Some (g\<lparr>value_of := v + 1\<rparr>, W_Out, n)"
| "cache_local L c i g (W_Out, n) = Some (g\<lparr>mu := lk_unlock L i (mu g)\<rparr>, W_Idle, n)"
| "cache_local L c i g (R_Idle, 0) = None"
| "cache_local L c i g (W_Idle, 0) = None"

definition cache_init :: "'m lock_ops \<Rightarrow> nat \<Rightarrow> nat \<Rightarrow> nat \<Rightarrow> 'm cache \<times> (rw_pc \<times> nat) list" where
  "cache_init L readers writers ops =
     (\<lparr>mu = lk_new L, value_of = 0, reads_of = 0\<rparr>,
      replicate readers (R_Idle, ops) @ replicate writers (W_Idle, ops div 10))"

definition cache_joined :: "'m cache \<times> (rw_pc \<times> nat) list \<Rightarrow> bool" where
  "cache_joined s \<longleftrightarrow> set (snd s) \<subseteq> {(R_Idle, 0), (W_Idle, 0)}"

text \<open>\<open>SafeCounter\<close> with its threads is the case without readers.\<close>

definition safe_counter_init :: "'m lock_ops \<Rightarrow> nat \<Rightarrow> nat \<Rightarrow> 'm cache \<times> (rw_pc \<times> nat) list" where
  "safe_counter_init L threads n = (\<lparr>mu = lk_new L, value_of = 0, reads_of = 0\<rparr>, replicate threads (W_Idle, n))"

fun reading :: "rw_pc \<times> nat \<Rightarrow> bool" where
  "reading (pc, n) \<longleftrightarrow> (case pc of R_In \<Rightarrow> True | R_Loaded v \<Rightarrow> True | R_Out \<Rightarrow> True | _ \<Rightarrow> False)"

fun writing :: "rw_pc \<times> nat \<Rightarrow> bool" where
  "writing (pc, n) \<longleftrightarrow> (case pc of W_In \<Rightarrow> True | W_Loaded v \<Rightarrow> True | W_Out \<Rightarrow> True | _ \<Rightarrow> False)"

text \<open>How many increments a thread has still to make.\<close>

fun reads_left :: "rw_pc \<times> nat \<Rightarrow> int" where
  "reads_left (pc, n) = (case pc of R_Idle \<Rightarrow> int n | R_In \<Rightarrow> int n + 1 | R_Loaded v \<Rightarrow> int n + 1 | R_Out \<Rightarrow> int n | _ \<Rightarrow> 0)"

fun writes_left :: "rw_pc \<times> nat \<Rightarrow> int" where
  "writes_left (pc, n) = (case pc of W_Idle \<Rightarrow> int n | W_In \<Rightarrow> int n + 1 | W_Loaded v \<Rightarrow> int n + 1 | W_Out \<Rightarrow> int n | _ \<Rightarrow> 0)"

fun guarded_left :: "rw_pc \<times> nat \<Rightarrow> nat" where
  "guarded_left (pc, n) = 4 * n + (case pc of R_Idle \<Rightarrow> 0 | R_In \<Rightarrow> 3 | R_Loaded v \<Rightarrow> 2 | R_Out \<Rightarrow> 1
     | W_Idle \<Rightarrow> 0 | W_In \<Rightarrow> 3 | W_Loaded v \<Rightarrow> 2 | W_Out \<Rightarrow> 1)"

text \<open>
  The lock is held by the threads that are inside; the value and the writes still to come add up; the reads counted, and the
  counts that readers have loaded, leave at least \<open>d\<close> of the total uncounted.
\<close>

definition cache_inv :: "('m \<Rightarrow> nat set) \<Rightarrow> ('m \<Rightarrow> nat set) \<Rightarrow> ('m \<Rightarrow> bool) \<Rightarrow> int \<Rightarrow> int \<Rightarrow> int
    \<Rightarrow> 'm cache \<times> (rw_pc \<times> nat) list \<Rightarrow> bool" where
  "cache_inv sh ex good rtotal wtotal d = (\<lambda>(g, ls).
     good (mu g) \<and> sh (mu g) = where_in reading ls \<and> ex (mu g) = where_in writing ls \<and>
     (ex (mu g) = {} \<or> (\<exists>i. ex (mu g) = {i} \<and> sh (mu g) = {})) \<and>
     value_of g + sum_list (map writes_left ls) = wtotal \<and>
     reads_of g + d + sum_list (map reads_left ls) \<le> rtotal \<and>
     (\<forall>n v. (R_Loaded v, n) \<in> set ls \<longrightarrow> v + d + sum_list (map reads_left ls) \<le> rtotal) \<and>
     (\<forall>n v. (W_Loaded v, n) \<in> set ls \<longrightarrow> v = value_of g))"

lemma reads_left_nonneg: "0 \<le> reads_left l"
  by (cases l) (auto split: rw_pc.split)

lemma cache_inv_init:
  assumes "shared_lock L sh ex good"
  shows "cache_inv sh ex good (int (readers * ops)) (int (writers * (ops div 10))) 0 (cache_init L readers writers ops)"
    and "cache_inv sh ex good 0 (int (threads * n)) 0 (safe_counter_init L threads n)"
proof -
  have free: "good (lk_new L)" "sh (lk_new L) = {}" "ex (lk_new L) = {}"
    using shared_lock.new_free [OF assms] by auto
  show "cache_inv sh ex good (int (readers * ops)) (int (writers * (ops div 10))) 0 (cache_init L readers writers ops)"
    using free by (auto simp: cache_inv_def cache_init_def where_in_def nth_append sum_list_replicate)
  show "cache_inv sh ex good 0 (int (threads * n)) 0 (safe_counter_init L threads n)"
    using free by (auto simp: cache_inv_def safe_counter_init_def where_in_def sum_list_replicate)
qed

fun_cases cache_localE: "cache_local L c i g l = Some (g', l')"

context shared_lock
begin

lemma cache_local_locks:
  assumes i: "i < length ls" and loc: "cache_local L c i g (ls ! i) = Some (g', l')"
    and old: "good (mu g)" "sh (mu g) = where_in reading ls" "ex (mu g) = where_in writing ls"
      "ex (mu g) = {} \<or> (\<exists>i. ex (mu g) = {i} \<and> sh (mu g) = {})"
  shows "good (mu g') \<and> sh (mu g') = where_in reading (ls[i := l']) \<and> ex (mu g') = where_in writing (ls[i := l']) \<and>
      (ex (mu g') = {} \<or> (\<exists>i. ex (mu g') = {i} \<and> sh (mu g') = {}))"
proof -
  have at: "i \<in> sh (mu g) \<longleftrightarrow> reading (ls ! i)" "i \<in> ex (mu g) \<longleftrightarrow> writing (ls ! i)"
    using i by (simp_all add: old where_in_iff)
  note sets = where_in_update [OF i]
  show ?thesis
    using loc
  proof (elim cache_localE, goal_cases)
    case (1 n)
    then obtain m where m: "lk_lock_shared L i (mu g) = Some m" "g' = g\<lparr>mu := m\<rparr>" "l' = (R_In, n)" by auto
    have out: "i \<notin> sh (mu g) \<union> ex (mu g)" using at 1 by simp
    show ?case using lock_shared_excludes [OF old(1) out m(1)] out m by (simp add: sets old)
  next
    case (5 n)
    then obtain m where m: "lk_lock L i (mu g) = Some m" "g' = g\<lparr>mu := m\<rparr>" "l' = (W_In, n)" by auto
    have out: "i \<notin> sh (mu g) \<union> ex (mu g)" using at 5 by simp
    show ?case using lock_excludes [OF old(1) out m(1)] out m by (auto simp: sets simp flip: old(2, 3))
  next
    case (4 n)
    then have "i \<in> sh (mu g)" using at by simp
    with unlock_shared_drops [OF old(1) this] 4 old(4) show ?case by (auto simp: sets simp flip: old(2, 3))
  next
    case (8 n)
    then have "i \<in> ex (mu g)" using at by simp
    with unlock_drops [OF old(1) this] 8 old(4) show ?case by (auto simp: sets simp flip: old(2, 3))
  qed (use at old(1, 4) in \<open>auto simp: sets insert_absorb simp flip: old(2, 3)\<close>)
qed

lemma cache_step_inv:
  assumes inv: "cache_inv sh ex good rtotal wtotal d s" and st: "par_step (cache_local L) s t"
  shows "cache_inv sh ex good rtotal wtotal d t"
proof -
  obtain g ls where s: "s = (g, ls)" by (cases s)
  obtain i c g' l' where i: "i < length ls" and loc: "cache_local L c i g (ls ! i) = Some (g', l')" and t: "t = (g', ls[i := l'])"
    using st unfolding s by (elim par_stepE)
  define rl where "rl = sum_list (map reads_left ls)"
  define wl where "wl = sum_list (map writes_left ls)"
  have rsum: "sum_list (map reads_left (ls[i := l])) = rl - reads_left (ls ! i) + reads_left l" for l
    using sum_list_map_update [OF i, of reads_left l] by (simp add: rl_def)
  have wsum: "sum_list (map writes_left (ls[i := l])) = wl - writes_left (ls ! i) + writes_left l" for l
    using sum_list_map_update [OF i, of writes_left l] by (simp add: wl_def)
  have mem: "x = l' \<or> x \<in> set ls" if "x \<in> set (ls[i := l'])" for x
    using that set_update_subset_insert [of ls i l'] by blast
  have old: "good (mu g)" "sh (mu g) = where_in reading ls" "ex (mu g) = where_in writing ls"
    "ex (mu g) = {} \<or> (\<exists>i. ex (mu g) = {i} \<and> sh (mu g) = {})" "value_of g + wl = wtotal" "reads_of g + d + rl \<le> rtotal"
    "(R_Loaded v, n) \<in> set ls \<Longrightarrow> v + d + rl \<le> rtotal" "(W_Loaded v, n) \<in> set ls \<Longrightarrow> v = value_of g" for v n
    using inv by (simp_all add: s cache_inv_def rl_def wl_def) (elim conjE disjE; simp; fail)?
  have at: "ls ! i \<in> set ls" using i by simp
  note locks = cache_local_locks [OF i loc old(1-4)]
  have vals: "value_of g' + sum_list (map writes_left (ls[i := l'])) = wtotal"
    using loc at old(5, 8) by (elim cache_localE) (auto simp: wsum)
  have reads: "reads_of g' + d + sum_list (map reads_left (ls[i := l'])) \<le> rtotal"
    using loc at old(6) old(7) by (elim cache_localE) (fastforce simp: rsum)+
  have le: "sum_list (map reads_left (ls[i := l'])) \<le> rl"
    using loc by (elim cache_localE) (auto simp: rsum)
  have loaded: "v + d + sum_list (map reads_left (ls[i := l'])) \<le> rtotal" if "(R_Loaded v, n) \<in> set (ls[i := l'])" for v n
    using mem [OF that]
  proof
    assume "(R_Loaded v, n) = l'"
    then show ?thesis using loc le old(6) by (elim cache_localE) auto
  next
    assume "(R_Loaded v, n) \<in> set ls"
    then show ?thesis using le old(7) by fastforce
  qed
  have wloaded: "v = value_of g'" if wl: "(W_Loaded v, n) \<in> set (ls[i := l'])" for v n
  proof -
    obtain j where j: "j < length ls" "ls[i := l'] ! j = (W_Loaded v, n)"
      using wl by (auto simp: in_set_conv_nth)
    then have "j \<in> where_in writing (ls[i := l'])" by (simp add: where_in_iff)
    with locks have only: "where_in writing (ls[i := l']) = {j}" by (metis empty_iff singletonD)
    show ?thesis
    proof (cases "j = i")
      case True
      then show ?thesis using j loc i by (elim cache_localE) auto
    next
      case False
      then have "\<not> writing l'" using only i by (auto simp: where_in_update split: if_splits)
      moreover have "(W_Loaded v, n) \<in> set ls" using j False by (metis nth_list_update_neq nth_mem)
      ultimately show ?thesis using loc old(8) by (elim cache_localE) auto
    qed
  qed
  show ?thesis unfolding t cache_inv_def prod.case using locks vals reads loaded wloaded by blast
qed

lemma cache_step_lowers:
  "par_step (cache_local L) s t \<Longrightarrow> sum_list (map guarded_left (snd t)) < sum_list (map guarded_left (snd s))"
  by (cases s; cases t) (auto elim!: par_step_lowers cache_localE)

lemma cache_progress:
  assumes inv: "cache_inv sh ex good rtotal wtotal d s" and "\<not> cache_joined s"
  shows "\<exists>t. par_step (cache_local L) s t"
proof -
  obtain g ls where s: "s = (g, ls)" by (cases s)
  have old: "good (mu g)" "sh (mu g) = where_in reading ls" "ex (mu g) = where_in writing ls"
    using inv by (auto simp: s cache_inv_def)
  show ?thesis
  proof (cases "\<exists>l\<in>set ls. reading l \<or> writing l")
    case True
    then obtain i where i: "i < length ls" "reading (ls ! i) \<or> writing (ls ! i)" by (auto simp: in_set_conv_nth)
    obtain pc n where "ls ! i = (pc, n)" by (cases "ls ! i")
    with i have "cache_local L () i g (ls ! i) \<noteq> None" by (cases pc) auto
    with i(1) show ?thesis unfolding s by (rule par_progress)
  next
    case False
    then have free: "sh (mu g) = {}" "ex (mu g) = {}" by (auto simp: old where_in_def dest: nth_mem)
    obtain i where i: "i < length ls" "ls ! i \<notin> {(R_Idle, 0), (W_Idle, 0)}"
      using assms(2) by (auto simp: s cache_joined_def in_set_conv_nth subset_iff)
    obtain pc n where pc: "ls ! i = (pc, n)" by (cases "ls ! i")
    have "\<not> reading (pc, n)" "\<not> writing (pc, n)" using False i(1) pc by (metis nth_mem)+
    then have "cache_local L () i g (ls ! i) \<noteq> None"
      using i(2) pc readers_share [OF old(1) free(2), of i] free_grants [OF old(1) free(2, 1), of i]
      by (cases pc; cases n) auto
    with i(1) show ?thesis unfolding s by (rule par_progress)
  qed
qed

end

sublocale shared_lock \<subseteq> guarded: ending_system "cache_inv sh ex good rtotal wtotal d" "par_step (cache_local L)"
  "cache_inv sh ex good rtotal wtotal d" "\<lambda>s. sum_list (map guarded_left (snd s))" cache_joined for rtotal wtotal d
  by unfold_locales (assumption, erule (1) cache_step_inv, erule cache_step_lowers, erule (1) cache_progress)

text \<open>Two readers inside at once load the same count: one of their two increments is lost.\<close>

context shared_lock
begin

lemma lost_read_run:
  assumes "good m" and "sh m = {}" and "ex m = {}"
  shows "\<exists>m'. (par_step (cache_local L))\<^sup>*\<^sup>*
      (\<lparr>mu = m, value_of = v, reads_of = r\<rparr>, (R_Idle, Suc k) # (R_Idle, Suc n) # ls)
      (\<lparr>mu = m', value_of = v, reads_of = r + 1\<rparr>, (R_Idle, k) # (R_Idle, n) # ls) \<and> good m' \<and> sh m' = {} \<and> ex m' = {}"
proof -
  let ?g = "\<lambda>m r. \<lparr>mu = m, value_of = v, reads_of = r\<rparr>"
  obtain m1 where m1: "lk_lock_shared L 0 m = Some m1" using readers_share assms by blast
  have h1: "good m1" "sh m1 = {0}" "ex m1 = {}" using lock_shared_excludes [OF assms(1) _ m1] assms by auto
  obtain m2 where m2: "lk_lock_shared L 1 m1 = Some m2" using readers_share h1 by blast
  have h2: "good m2" "sh m2 = {0, 1}" "ex m2 = {}" using lock_shared_excludes [OF h1(1) _ m2] h1 by auto
  define m3 where "m3 = lk_unlock_shared L 0 m2"
  have h3: "good m3" "sh m3 = {1}" "ex m3 = {}" using unlock_shared_drops [OF h2(1), of 0] h2 by (auto simp: m3_def)
  define m4 where "m4 = lk_unlock_shared L 1 m3"
  have h4: "good m4" "sh m4 = {}" "ex m4 = {}" using unlock_shared_drops [OF h3(1), of 1] h3 by (auto simp: m4_def)
  have "par_run (cache_local L) [((), 0), ((), 1), ((), 0), ((), 1), ((), 0), ((), 1), ((), 0), ((), 1)]
      (?g m r, (R_Idle, Suc k) # (R_Idle, Suc n) # ls) = Some (?g m4 (r + 1), (R_Idle, k) # (R_Idle, n) # ls)"
    using m2 by (simp add: m1 m3_def m4_def)
  then have "(par_step (cache_local L))\<^sup>*\<^sup>* (?g m r, (R_Idle, Suc k) # (R_Idle, Suc n) # ls) (?g m4 (r + 1), (R_Idle, k) # (R_Idle, n) # ls)"
    by (rule par_run_steps)
  with h4 show ?thesis by blast
qed

lemma lost_read_inv:
  assumes "good m" and "sh m = {}" and "ex m = {}"
  shows "cache_inv sh ex good (int (Suc (Suc n) * Suc k)) (int (writers * w)) 1
    (\<lparr>mu = m, value_of = 0, reads_of = 1\<rparr>, (R_Idle, k) # (R_Idle, k) # replicate n (R_Idle, Suc k) @ replicate writers (W_Idle, w))"
  using assms by (auto simp: cache_inv_def where_in_def nth_Cons nth_append sum_list_replicate algebra_simps split: nat.splits)

end

section \<open>A synchronised vector\<close>

text \<open>
  Thread \<open>t\<close> pushes \<open>t * K + k\<close> for \<open>k = 0, \<dots>, K - 1\<close>, each time under \<open>withWLock\<close>.  With each thread goes the number of values it
  has pushed.
\<close>

datatype sv_pc = SV_Idle | SV_In | SV_Out

fun sync_local :: "'m lock_ops \<Rightarrow> nat \<Rightarrow> unit \<Rightarrow> nat \<Rightarrow> 'm \<times> int list \<Rightarrow> sv_pc \<times> nat \<Rightarrow> (('m \<times> int list) \<times> sv_pc \<times> nat) option" where
  "sync_local L K c t (m, v) (SV_Idle, k) = (if k < K then map_option (\<lambda>m. ((m, v), SV_In, k)) (lk_lock L t m) else None)"
| "sync_local L K c t (m, v) (SV_In, k) = Some ((m, v @ [int (t * K + k)]), SV_Out, Suc k)"
| "sync_local L K c t (m, v) (SV_Out, k) = Some ((lk_unlock L t m, v), SV_Idle, k)"

fun_cases sync_localE: "sync_local L K c t g l = Some (g', l')"

definition sync_init :: "'m lock_ops \<Rightarrow> nat \<Rightarrow> ('m \<times> int list) \<times> (sv_pc \<times> nat) list" where
  "sync_init L workers = ((lk_new L, []), replicate workers (SV_Idle, 0))"

definition sync_joined :: "nat \<Rightarrow> ('m \<times> int list) \<times> (sv_pc \<times> nat) list \<Rightarrow> bool" where
  "sync_joined K s \<longleftrightarrow> set (snd s) \<subseteq> {(SV_Idle, K)}"

definition sv_inside :: "sv_pc \<times> nat \<Rightarrow> bool" where
  "sv_inside l \<longleftrightarrow> fst l \<noteq> SV_Idle"

definition pushed :: "nat \<Rightarrow> nat \<Rightarrow> nat \<Rightarrow> int list" where
  "pushed K t k = map (\<lambda>k. int (t * K + k)) [0..<k]"

definition sync_inv :: "('m \<Rightarrow> nat set) \<Rightarrow> ('m \<Rightarrow> nat set) \<Rightarrow> ('m \<Rightarrow> bool) \<Rightarrow> nat \<Rightarrow> nat
    \<Rightarrow> ('m \<times> int list) \<times> (sv_pc \<times> nat) list \<Rightarrow> bool" where
  "sync_inv sh ex good K T = (\<lambda>((m, v), ls).
     length ls = T \<and> good m \<and> sh m = {} \<and> ex m = where_in sv_inside ls \<and>
     (\<forall>l\<in>set ls. snd l \<le> K \<and> (fst l = SV_In \<longrightarrow> snd l < K)) \<and>
     (\<forall>t<T. filter (\<lambda>x. x div int K = int t) v = pushed K t (snd (ls ! t))) \<and>
     length v = sum_list (map snd ls))"

definition sv_left :: "nat \<Rightarrow> sv_pc \<times> nat \<Rightarrow> nat" where
  "sv_left K l = 3 * (K - snd l) + (case fst l of SV_Idle \<Rightarrow> 1 | SV_In \<Rightarrow> 0 | SV_Out \<Rightarrow> 2)"

context shared_lock
begin

lemma sync_inv_init: "sync_inv sh ex good K T (sync_init L T)"
  using new_free by (auto simp: sync_inv_def sync_init_def where_in_def sv_inside_def pushed_def sum_list_replicate)

lemma sync_step_inv:
  assumes inv: "sync_inv sh ex good K T s" and st: "par_step (sync_local L K) s s'"
  shows "sync_inv sh ex good K T s'"
proof -
  obtain m v ls where s: "s = ((m, v), ls)" by (metis surj_pair)
  obtain t c g' l' where t: "t < length ls" and loc: "sync_local L K c t (m, v) (ls ! t) = Some (g', l')" and s': "s' = (g', ls[t := l'])"
    using st unfolding s by (elim par_stepE)
  have old: "length ls = T" "good m" "sh m = {}" "ex m = where_in sv_inside ls" "\<forall>l\<in>set ls. snd l \<le> K \<and> (fst l = SV_In \<longrightarrow> snd l < K)"
    "length v = sum_list (map snd ls)" "u < T \<Longrightarrow> filter (\<lambda>x. x div int K = int u) v = pushed K u (snd (ls ! u))" for u
    using inv by (auto simp: s sync_inv_def)
  have at: "t \<in> ex m \<longleftrightarrow> sv_inside (ls ! t)" using t by (simp add: old where_in_iff)
  note sets = where_in_update [OF t]
  have bound: "snd (ls ! t) \<le> K \<and> (fst (ls ! t) = SV_In \<longrightarrow> snd (ls ! t) < K)" using old(5) t nth_mem by blast
  show ?thesis using loc
  proof (elim sync_localE, goal_cases)
    case (1 m0 v0 k)
    then obtain m' where m': "lk_lock L t m = Some m'" "g' = (m', v)" "l' = (SV_In, k)" "k < K" by (auto split: if_splits)
    have "t \<notin> sh m \<union> ex m" using at old(3) 1 by (simp add: sv_inside_def)
    from lock_excludes [OF old(2) this m'(1)] show ?case
      using 1 m' old t sum_list_map_update [OF t, of snd "(SV_In, k)"] all_set_update [OF old(5), of l' t]
      by (auto simp: s' sync_inv_def sets nth_list_update sv_inside_def)
  next
    case (2 m0 v0 k)
    then have k: "k < K" "t \<in> ex m" using bound at by (auto simp: sv_inside_def)
    have "(int (t * K + k)) div int K = int t" using k(1) by (simp flip: zdiv_int)
    then have "filter (\<lambda>x. x div int K = int u) (v @ [int (t * K + k)]) = pushed K u (snd (ls[t := l'] ! u))" if "u < T" for u
      using old(7) [OF that] 2 t by (auto simp: nth_list_update pushed_def)
    then show ?case
      using 2 k old t sum_list_map_update [OF t, of snd "(SV_Out, Suc k)"] all_set_update [OF old(5), of l' t]
      by (auto simp: s' sync_inv_def sets sv_inside_def insert_absorb)
  next
    case (3 m0 v0 k)
    then have "t \<in> ex m" using at by (simp add: sv_inside_def)
    from unlock_drops [OF old(2) this] show ?case
      using 3 old t bound sum_list_map_update [OF t, of snd "(SV_Idle, k)"] all_set_update [OF old(5), of l' t]
      by (auto simp: s' sync_inv_def sets nth_list_update sv_inside_def)
  qed
qed

lemma sync_step_lowers:
  assumes "sync_inv sh ex good K T s" and "par_step (sync_local L K) s s'"
  shows "sum_list (map (sv_left K) (snd s')) < sum_list (map (sv_left K) (snd s))"
proof -
  obtain m v ls where s: "s = ((m, v), ls)" by (metis surj_pair)
  obtain t c g' l' where t: "t < length ls" and loc: "sync_local L K c t (m, v) (ls ! t) = Some (g', l')" and s': "s' = (g', ls[t := l'])"
    using assms(2) unfolding s by (elim par_stepE)
  have "fst (ls ! t) = SV_In \<longrightarrow> snd (ls ! t) < K" using assms(1) t nth_mem by (fastforce simp: s sync_inv_def)
  then have "sv_left K l' < sv_left K (ls ! t)" using loc by (elim sync_localE) (auto simp: sv_left_def split: if_splits)
  then show ?thesis using sum_list_map_update [OF t, of "sv_left K" l'] by (simp add: s s')
qed

lemma sync_progress:
  assumes inv: "sync_inv sh ex good K T s" and "\<not> sync_joined K s"
  shows "\<exists>s'. par_step (sync_local L K) s s'"
proof -
  obtain m v ls where s: "s = ((m, v), ls)" by (metis surj_pair)
  have old: "good m" "sh m = {}" "ex m = where_in sv_inside ls" "\<forall>l\<in>set ls. snd l \<le> K"
    using inv by (auto simp: s sync_inv_def)
  obtain u where u: "u < length ls" "ls ! u \<noteq> (SV_Idle, K)"
    using assms(2) by (auto simp: s sync_joined_def subset_iff in_set_conv_nth)
  obtain t where t: "t < length ls" "sv_inside (ls ! t) \<or> where_in sv_inside ls = {} \<and> ls ! t \<noteq> (SV_Idle, K)"
    using u that by (cases "where_in sv_inside ls = {}") (auto simp: where_in_def)
  obtain pc k where pc: "ls ! t = (pc, k)" by (cases "ls ! t")
  have "k \<le> K" using old(4) t(1) pc by (metis nth_mem snd_conv)
  then have "sync_local L K () t (m, v) (ls ! t) \<noteq> None"
    using t(2) pc free_grants [OF old(1) _ old(2), of t] old(3) by (cases pc) (auto simp: sv_inside_def)
  with t(1) show ?thesis unfolding s by (rule par_progress)
qed

end

sublocale shared_lock \<subseteq> synced: ending_system "sync_inv sh ex good K T" "par_step (sync_local L K)" "sync_inv sh ex good K T"
  "\<lambda>s. sum_list (map (sv_left K) (snd s))" "sync_joined K" for K T
  by unfold_locales (assumption, erule (1) sync_step_inv, erule (1) sync_step_lowers, erule (1) sync_progress)

section \<open>The programs\<close>

text \<open>\<^verbatim>\<open>main\<close> of \<^verbatim>\<open>10_shared_mutex.cpp\<close> after the threads have been joined; \<open>rp\<close> is the lock with read priority.\<close>

definition shared_mutex_main :: "'m lock_ops \<Rightarrow> 'r lock_ops \<Rightarrow> 'm cache \<Rightarrow> console" where
  "shared_mutex_main L rp g =
     [''final value: '' @ dec_int (value_of g), ''total reads: '' @ dec_int (reads_of g)] @
     (case lk_lock L 0 (lk_new L) of
        None \<Rightarrow> []
      | Some m \<Rightarrow>
          (let m1 = lk_unlock L 0 m in
           [''try_lock_shared while write-locked: '' @ (if lk_lock_shared L 0 m = None then ''false'' else ''true''),
            ''try_lock_shared after unlock: '' @ (if lk_lock_shared L 0 m1 = None then ''false'' else ''true'')])) @
     (if lk_lock_shared rp 0 (lk_new rp) = None then [] else [''ReadPriority shared lock acquired''])"

text \<open>\<^verbatim>\<open>main\<close> of \<^verbatim>\<open>04_synchronized.cpp\<close>: the vector \<open>sv\<close> is only used by one thread; \<open>shared\<close> is the vector after the join.\<close>

definition synchronized_main :: "int list \<Rightarrow> console" where
  "synchronized_main shared =
     (let sv = [1, 2, 3]; sv4 = sv @ [4]; sv5 = (if last sv4 = 4 then sv4 @ [5] else sv4) in
      [''size: '' @ dec_nat (length sv), concat (map (\<lambda>x. dec_int x @ '' '') sv), ''sum: '' @ dec_int (foldl (+) 0 sv4),
       ''concurrent writes: '' @ dec_nat (length shared) @ '' items'', ''after upgrade: '' @ dec_int (last sv5)])"

section \<open>Properties\<close>

lemma joined_sums:
  assumes "cache_joined (g, ls)"
  shows "sum_list (map writes_left ls) = 0" and "sum_list (map reads_left ls) = 0"
  using assms by (auto simp: cache_joined_def intro!: sum_list_map_zero)

lemma filter_pushed_all:
  assumes "sync_inv sh ex good K T ((m, v), ls)" and "sync_joined K ((m, v), ls)"
  shows "length v = T * K" and "\<forall>t<T. filter (\<lambda>x. x div int K = int t) v = pushed K t K"
proof -
  have ls: "ls = replicate T (SV_Idle, K)"
    using assms by (auto simp: sync_inv_def sync_joined_def intro: replicate_eqI)
  show "length v = T * K" using assms(1) by (simp add: sync_inv_def ls sum_list_replicate)
  show "\<forall>t<T. filter (\<lambda>x. x div int K = int t) v = pushed K t K" using assms(1) by (auto simp: sync_inv_def ls)
qed

context shared_lock
begin

lemma cache_lost_read:
  assumes "2 \<le> readers" and "0 < ops"
  shows "\<exists>s. (par_step (cache_local L))\<^sup>*\<^sup>* (cache_init L readers writers ops) s \<and> cache_joined s \<and> reads_of (fst s) < int (readers * ops)"
proof -
  obtain n k where nk: "readers = Suc (Suc n)" "ops = Suc k" using assms by (metis add_2_eq_Suc le_Suc_ex gr0_implies_Suc)
  let ?ls = "replicate n (R_Idle, Suc k) @ replicate writers (W_Idle, ops div 10)"
  obtain m where run: "(par_step (cache_local L))\<^sup>*\<^sup>* (cache_init L readers writers ops)
      (\<lparr>mu = m, value_of = 0, reads_of = 1\<rparr>, (R_Idle, k) # (R_Idle, k) # ?ls)" and m: "good m" "sh m = {}" "ex m = {}"
    using lost_read_run [of "lk_new L" 0 0 k k ?ls] new_free by (auto simp: cache_init_def nk)
  obtain s where s: "(par_step (cache_local L))\<^sup>*\<^sup>* (\<lparr>mu = m, value_of = 0, reads_of = 1\<rparr>, (R_Idle, k) # (R_Idle, k) # ?ls) s" "cache_joined s"
    using guarded.finishes [OF lost_read_inv [OF m]] by blast
  have "cache_inv sh ex good (int (Suc (Suc n) * Suc k)) (int (writers * (ops div 10))) 1 s"
    using guarded.steps_inv [OF s(1) lost_read_inv [OF m]] .
  moreover have "0 \<le> sum_list (map reads_left (snd s))" by (rule sum_list_nonneg) (auto simp: reads_left_nonneg simp del: reads_left.simps)
  ultimately have "reads_of (fst s) < int (readers * ops)" by (cases s) (auto simp: cache_inv_def nk)
  with s run show ?thesis by (meson rtranclp_trans)
qed

lemma guarded_threads:
  assumes cache: "(par_step (cache_local L))\<^sup>*\<^sup>* (cache_init L readers writers ops) s"
    and counter: "(par_step (cache_local L))\<^sup>*\<^sup>* (safe_counter_init L threads n) c"
    and vector: "(par_step (sync_local L K))\<^sup>*\<^sup>* (sync_init L T) v"
    and race: "2 \<le> readers" "0 < ops"
  shows "(cache_joined s \<longrightarrow> value_of (fst s) = int (writers * (ops div 10)) \<and> reads_of (fst s) \<le> int (readers * ops)) \<and>
    (\<exists>t. (par_step (cache_local L))\<^sup>*\<^sup>* s t \<and> cache_joined t) \<and>
    (\<exists>t. (par_step (cache_local L))\<^sup>*\<^sup>* (cache_init L readers writers ops) t \<and> cache_joined t \<and> reads_of (fst t) < int (readers * ops)) \<and>
    (cache_joined c \<longrightarrow> value_of (fst c) = int (threads * n)) \<and> (\<exists>t. (par_step (cache_local L))\<^sup>*\<^sup>* c t \<and> cache_joined t) \<and>
    (sync_joined K v \<longrightarrow> length (snd (fst v)) = T * K \<and> (\<forall>t<T. filter (\<lambda>x. x div int K = int t) (snd (fst v)) = pushed K t K)) \<and>
    (\<exists>t. (par_step (sync_local L K))\<^sup>*\<^sup>* v t \<and> sync_joined K t)"
proof -
  have cinv: "cache_inv sh ex good (int (readers * ops)) (int (writers * (ops div 10))) 0 s"
    using guarded.steps_inv [OF cache cache_inv_init(1) [OF shared_lock_axioms]] .
  have ninv: "cache_inv sh ex good 0 (int (threads * n)) 0 c"
    using guarded.steps_inv [OF counter cache_inv_init(2) [OF shared_lock_axioms]] .
  have vinv: "sync_inv sh ex good K T v"
    using synced.steps_inv [OF vector sync_inv_init] .
  have "value_of (fst s) = int (writers * (ops div 10)) \<and> reads_of (fst s) \<le> int (readers * ops)" if "cache_joined s"
    using cinv that joined_sums [of "fst s" "snd s"] by (cases s) (auto simp: cache_inv_def)
  moreover have "value_of (fst c) = int (threads * n)" if "cache_joined c"
    using ninv that joined_sums [of "fst c" "snd c"] by (cases c) (auto simp: cache_inv_def)
  moreover have "length (snd (fst v)) = T * K \<and> (\<forall>t<T. filter (\<lambda>x. x div int K = int t) (snd (fst v)) = pushed K t K)" if "sync_joined K v"
    using filter_pushed_all [of sh ex good K T "fst (fst v)" "snd (fst v)" "snd v"] vinv that by simp
  ultimately show ?thesis
    using guarded.finishes [OF cinv] guarded.finishes [OF ninv] synced.finishes [OF vinv]
      cache_lost_read [OF race] by blast
qed

end



end
