(* ===== verification/Gates.thy ===== *)
theory Gates
  imports Prelude "HOL-Library.Multiset"
begin

text \<open>
  The one-shot synchronisation points of \<^verbatim>\<open>libraries/abseil/09_notification.cpp\<close>: \<open>Notification\<close>, \<open>Barrier\<close> and \<open>BlockingCounter\<close> open
  when a number of threads have arrived.  A thread is the list of what it has still to do; the objects of the library are arguments,
  and what the comment at the top of the file says of them are the laws of the locale \<open>counting_gate\<close>: waiting ends when all have arrived.
\<close>

section \<open>Threads that arrive and wait\<close>

text \<open>\<open>Say_Chosen\<close> prints only in the thread in which \<open>Block\<close> returned true.\<close>

datatype gate_instr = Say string | Arrive | Wait_Open | Say_Chosen string

text \<open>How many have arrived, how many have passed, the thread told that it is the last, and the output: which thread printed, whether as the chosen one, and what.\<close>

record 'g gate =
  arrived :: 'g
  passed :: nat
  chosen :: "nat option"
  gate_out :: "(nat \<times> bool \<times> string) list"

text \<open>
  \<open>arrive\<close> is what \<open>Notify\<close>, \<open>DecrementCount\<close> or the first half of \<open>Block\<close> does to the object, and \<open>opened\<close> whether a waiting thread may go on: both belong to the
  library and are arguments.  \<open>c\<close> is whether the library tells thread \<open>i\<close>, one of \<open>W\<close> waiting threads, that it is the chosen one.
\<close>

fun gate_local :: "('g \<Rightarrow> 'g) \<Rightarrow> ('g \<Rightarrow> bool) \<Rightarrow> nat \<Rightarrow> bool \<Rightarrow> nat \<Rightarrow> 'g gate \<Rightarrow> gate_instr list \<Rightarrow> ('g gate \<times> gate_instr list) option" where
  "gate_local arrive opened W c i g [] = None"
| "gate_local arrive opened W c i g (Say e # p) = Some (g\<lparr>gate_out := gate_out g @ [(i, False, e)]\<rparr>, p)"
| "gate_local arrive opened W c i g (Arrive # p) = Some (g\<lparr>arrived := arrive (arrived g)\<rparr>, p)"
| "gate_local arrive opened W c i g (Wait_Open # p) =
     (if opened (arrived g) \<and> (if c then chosen g = None else chosen g \<noteq> None \<or> Suc (passed g) < W)
      then Some (g\<lparr>passed := Suc (passed g), chosen := (if c then Some i else chosen g)\<rparr>, p) else None)"
| "gate_local arrive opened W c i g (Say_Chosen e # p) =
     Some (if chosen g = Some i then g\<lparr>gate_out := gate_out g @ [(i, True, e)]\<rparr> else g, p)"

definition gate_init :: "'g \<Rightarrow> 'g gate" where
  "gate_init new = \<lparr>arrived = new, passed = 0, chosen = None, gate_out = []\<rparr>"

text \<open>The object as a number: \<open>N\<close> arrivals open the gate.\<close>

abbreviation gate_spec :: "nat \<Rightarrow> nat \<Rightarrow> bool \<Rightarrow> nat \<Rightarrow> nat gate \<Rightarrow> gate_instr list \<Rightarrow> (nat gate \<times> gate_instr list) option" where
  "gate_spec N \<equiv> gate_local Suc (\<lambda>k. N \<le> k)"

text \<open>\<open>demo_notification\<close>, \<open>demo_barrier\<close> and \<open>demo_blocking_counter\<close>; the thread that started the others comes last.\<close>

definition notification_threads :: "gate_instr list list" where
  "notification_threads =
     [[Say ''[worker] initialisation done'', Arrive], [Wait_Open, Say ''[main] worker is ready'']]"

definition barrier_thread :: "nat \<Rightarrow> gate_instr list" where
  "barrier_thread i =
     [Say (''[thread '' @ dec_nat i @ ''] phase 1 done''), Arrive, Wait_Open, Say_Chosen ''[last arrival] proceeding to phase 2'',
      Say (''[thread '' @ dec_nat i @ ''] phase 2'')]"

definition barrier_threads :: "nat \<Rightarrow> gate_instr list list" where
  "barrier_threads n = map barrier_thread [0..<n]"

definition counter_threads :: "nat \<Rightarrow> gate_instr list list" where
  "counter_threads tasks =
     map (\<lambda>i. [Say (''[task '' @ dec_nat i @ ''] complete''), Arrive]) [0..<tasks] @ [[Wait_Open, Say ''[main] all tasks finished'']]"

section \<open>Well-formed threads\<close>

text \<open>Before it waits a thread prints and arrives, and it arrives after what it prints; after it has waited it only prints.\<close>

definition late :: "gate_instr list \<Rightarrow> bool" where
  "late p \<longleftrightarrow> set p \<subseteq> range Say \<union> range Say_Chosen"

fun early :: "gate_instr list \<Rightarrow> bool" where
  "early [] = True"
| "early (Say e # p) = (Arrive \<in> set p \<and> early p)"
| "early (Arrive # p) = (p = [] \<or> (\<exists>q. p = Wait_Open # q \<and> late q))"
| "early (Wait_Open # p) = late p"
| "early (Say_Chosen e # p) = False"

definition arrivals :: "gate_instr list \<Rightarrow> nat" where
  "arrivals p = length (filter ((=) Arrive) p)"

definition waits :: "gate_instr list \<Rightarrow> nat" where
  "waits p = length (filter ((=) Wait_Open) p)"

lemma late_Cons: "late (x # p) \<longleftrightarrow> (\<exists>e. x = Say e \<or> x = Say_Chosen e) \<and> late p"
  by (auto simp: late_def)

lemma late_no_arrivals: "late p \<Longrightarrow> arrivals p = 0" "late p \<Longrightarrow> waits p = 0"
  by (auto simp: late_def arrivals_def waits_def filter_empty_conv)

lemma arrive_arrivals: "Arrive \<in> set p \<longleftrightarrow> 0 < arrivals p"
  by (auto simp: arrivals_def filter_empty_conv)

lemma counts_simps [simp]:
  "arrivals [] = 0" "arrivals (Say e # p) = arrivals p" "arrivals (Arrive # p) = Suc (arrivals p)"
  "arrivals (Wait_Open # p) = arrivals p" "arrivals (Say_Chosen e # p) = arrivals p"
  "waits [] = 0" "waits (Say e # p) = waits p" "waits (Arrive # p) = waits p"
  "waits (Wait_Open # p) = Suc (waits p)" "waits (Say_Chosen e # p) = waits p"
  by (simp_all add: arrivals_def waits_def)

definition chosen_says :: "gate_instr list \<Rightarrow> nat" where
  "chosen_says p = length (filter (\<lambda>x. x \<in> range Say_Chosen) p)"

lemma chosen_says_simps [simp]:
  "chosen_says [] = 0" "chosen_says (Say e # p) = chosen_says p" "chosen_says (Arrive # p) = chosen_says p"
  "chosen_says (Wait_Open # p) = chosen_says p" "chosen_says (Say_Chosen e # p) = Suc (chosen_says p)"
  by (auto simp: chosen_says_def)

text \<open>What thread \<open>i\<close> prints in \<open>p\<close>; the part before it arrives, and the part after.\<close>

fun says :: "nat \<Rightarrow> gate_instr list \<Rightarrow> (nat \<times> bool \<times> string) multiset" where
  "says i [] = {#}"
| "says i (Say e # p) = add_mset (i, False, e) (says i p)"
| "says i (_ # p) = says i p"

definition before :: "nat \<Rightarrow> gate_instr list \<Rightarrow> (nat \<times> bool \<times> string) multiset" where
  "before i p = (if Arrive \<in> set p then says i (takeWhile ((\<noteq>) Arrive) p) else {#})"

definition after :: "nat \<Rightarrow> gate_instr list \<Rightarrow> (nat \<times> bool \<times> string) multiset" where
  "after i p = (if Arrive \<in> set p then says i (dropWhile ((\<noteq>) Arrive) p) else says i p)"

lemma late_parts: "late p \<Longrightarrow> before i p = {#}" "late p \<Longrightarrow> after i p = says i p"
  by (auto simp: late_def before_def after_def)

lemma early_parts:
  "early (Say e # p) \<Longrightarrow> before i (Say e # p) = add_mset (i, False, e) (before i p)"
  "early (Say e # p) \<Longrightarrow> after i (Say e # p) = after i p"
  "early (Arrive # p) \<Longrightarrow> before i (Arrive # p) = before i p"
  "early (Arrive # p) \<Longrightarrow> after i (Arrive # p) = after i p"
  "early (Wait_Open # p) \<Longrightarrow> before i (Wait_Open # p) = before i p"
  "early (Wait_Open # p) \<Longrightarrow> after i (Wait_Open # p) = after i p"
  by (auto simp: before_def after_def late_def)

text \<open>
  What is printed falls into two parts: first what threads print before they arrive, then what they print after waiting; the
  second part is empty while nobody has passed, and somebody passes only when nobody has still to arrive.  \<open>q\<close> is how many lines a
  waiting thread prints as the chosen one.
\<close>

definition gate_counts :: "nat \<Rightarrow> nat \<Rightarrow> nat \<Rightarrow> nat gate \<times> gate_instr list list \<Rightarrow> bool" where
  "gate_counts N W q = (\<lambda>(g, ps).
     (\<forall>p\<in>set ps. early p \<or> late p) \<and> arrived g + sum_list (map arrivals ps) = N \<and> passed g + sum_list (map waits ps) = W \<and>
     (passed g = 0 \<longrightarrow> (\<forall>p\<in>set ps. early p) \<and> chosen g = None) \<and> (passed g \<noteq> 0 \<longrightarrow> arrived g = N) \<and>
     (\<forall>p\<in>set ps. early p \<and> p \<noteq> [] \<longrightarrow> chosen_says p = q * waits p))"

definition gate_said :: "(nat \<times> bool \<times> string) multiset \<Rightarrow> (nat \<times> bool \<times> string) multiset \<Rightarrow> nat gate \<times> gate_instr list list
    \<Rightarrow> (nat \<times> bool \<times> string) list \<Rightarrow> (nat \<times> bool \<times> string) list \<Rightarrow> bool" where
  "gate_said B A = (\<lambda>(g, ps) xs ys.
     gate_out g = xs @ ys \<and> mset xs + (\<Sum>i<length ps. before i (ps ! i)) = B \<and>
     mset (filter (\<lambda>l. \<not> fst (snd l)) ys) + (\<Sum>i<length ps. after i (ps ! i)) = A \<and> (passed g = 0 \<longrightarrow> ys = []))"

definition gate_chosen :: "nat \<Rightarrow> nat \<Rightarrow> nat gate \<times> gate_instr list list \<Rightarrow> bool" where
  "gate_chosen W q = (\<lambda>(g, ps).
     case chosen g of
       None \<Rightarrow> filter (\<lambda>l. fst (snd l)) (gate_out g) = [] \<and> (0 < W \<longrightarrow> passed g < W)
     | Some k \<Rightarrow> k < length ps \<and> late (ps ! k) \<and> length (filter (\<lambda>l. fst (snd l)) (gate_out g)) + chosen_says (ps ! k) = q)"

definition gate_inv :: "nat \<Rightarrow> nat \<Rightarrow> nat \<Rightarrow> (nat \<times> bool \<times> string) multiset \<Rightarrow> (nat \<times> bool \<times> string) multiset
    \<Rightarrow> nat gate \<times> gate_instr list list \<Rightarrow> bool" where
  "gate_inv N W q B A s \<longleftrightarrow> gate_counts N W q s \<and> (\<exists>xs ys. gate_said B A s xs ys) \<and> gate_chosen W q s"

lemma early_late: "early p \<Longrightarrow> late p \<Longrightarrow> p = []"
  by (cases p rule: early.cases) (auto simp: late_def)

lemma early_tl: "early (x # p) \<Longrightarrow> x \<noteq> Wait_Open \<Longrightarrow> early p"
  by (cases "x # p" rule: early.cases) auto

lemma waiting_counts: "early p \<Longrightarrow> Arrive \<notin> set p \<Longrightarrow> p \<noteq> [] \<Longrightarrow> \<exists>q. p = Wait_Open # q \<and> late q"
  by (cases p rule: early.cases) auto

lemma sum_list_pos: "x \<in> set xs \<Longrightarrow> 0 < (f x :: nat) \<Longrightarrow> 0 < sum_list (map f xs)"
  by (induction xs) auto

lemma early_not_passed:
  assumes "gate_counts N W q (g, ps)" and "p \<in> set ps" and "Arrive \<in> set p"
  shows "passed g = 0" and "arrived g < N"
proof -
  have "0 < sum_list (map arrivals ps)" using assms(2, 3) by (intro sum_list_pos) (simp_all add: arrive_arrivals)
  then show "passed g = 0" "arrived g < N" using assms(1) by (auto simp: gate_counts_def)
qed

lemma gate_spec_head:
  assumes "gate_spec N W c i g p = Some (g', p')"
  obtains x where "p = x # p'"
  using assms by (cases "(Suc, \<lambda>k. N \<le> k, W, c, i, g, p)" rule: gate_local.cases) (auto split: if_splits)

lemma gate_counts_step:
  assumes inv: "gate_counts N W q (g, ps)" and i: "i < length ps" and loc: "gate_spec N W c i g (ps ! i) = Some (g', p)"
  shows "gate_counts N W q (g', ps[i := p])"
proof -
  obtain x where x: "ps ! i = x # p" using loc by (rule gate_spec_head)
  have mem: "ps ! i \<in> set ps" using i by simp
  have old: "early (x # p) \<or> late (x # p)" "passed g = 0 \<Longrightarrow> early (x # p)"
    "early (x # p) \<Longrightarrow> chosen_says (x # p) = q * waits (x # p)"
    using inv mem by (auto simp: gate_counts_def x)
  note upd = sum_list_map_update [OF i, of arrivals p] sum_list_map_update [OF i, of waits p]
  have now: "early p \<or> late p" using old(1) early_tl [of x p] by (cases x) (auto simp: late_Cons)
  have said: "chosen_says p = q * waits p" if "early p" "p \<noteq> []"
    using old(1, 3) that early_late [of p] by (cases x) (auto simp: late_Cons)
  have passed: "passed g = 0" "arrived g < N" if "Arrive \<in> set (x # p)" using early_not_passed [OF inv mem] that by (simp_all add: x)
  have all: "\<forall>p\<in>set (ps[i := p]). early p \<or> late p"
    by (rule all_set_update) (use inv now in \<open>auto simp: gate_counts_def\<close>)
  have chs: "\<forall>p\<in>set (ps[i := p]). early p \<and> p \<noteq> [] \<longrightarrow> chosen_says p = q * waits p"
    by (rule all_set_update) (use inv said in \<open>auto simp: gate_counts_def\<close>)
  have same: "\<forall>p\<in>set (ps[i := p]). early p" if "passed g = 0" "x \<noteq> Wait_Open"
    by (rule all_set_update) (use inv that old(2) early_tl [of x p] in \<open>auto simp: gate_counts_def\<close>)
  show ?thesis
    using loc inv upd all chs same passed by (cases x) (auto simp: x gate_counts_def split: if_splits)
qed

lemma gate_said_step:
  assumes inv: "gate_counts N W q (g, ps)" "gate_said B A (g, ps) xs ys" and i: "i < length ps"
    and loc: "gate_spec N W c i g (ps ! i) = Some (g', p)"
  shows "\<exists>xs ys. gate_said B A (g', ps[i := p]) xs ys"
proof -
  obtain x where x: "ps ! i = x # p" using loc by (rule gate_spec_head)
  have mem: "ps ! i \<in> set ps" using i by simp
  have old: "early (x # p) \<or> late (x # p)" "passed g = 0 \<Longrightarrow> early (x # p)" using inv mem by (auto simp: gate_counts_def x)
  note upd = sum_nth_update [OF i, of before p] sum_nth_update [OF i, of after p]
  have out: "gate_out g = xs @ ys" "passed g = 0 \<longrightarrow> ys = []" using inv(2) by (auto simp: gate_said_def)
  show ?thesis
  proof (cases "early (x # p) \<and> (\<exists>e. x = Say e)")
    case True
    then obtain e where e: "x = Say e" "Arrive \<in> set p" by auto
    then have "passed g = 0" using early_not_passed(1) [OF inv(1) mem] by (simp add: x)
    then have "gate_said B A (g', ps[i := p]) (xs @ [(i, False, e)]) []"
      using inv(2) loc upd out True e early_parts(1, 2) [of e p i] by (auto simp: gate_said_def x)
    then show ?thesis by blast
  next
    case False
    have parts: "late (x # p) \<Longrightarrow> before i (x # p) = before i p" "late (x # p) \<Longrightarrow> after i (x # p) = says i (x # p)" "late (x # p) \<Longrightarrow> after i p = says i p"
      by (simp_all add: late_parts late_Cons)
    have kept: "early (x # p) \<Longrightarrow> before i (x # p) = before i p \<and> after i (x # p) = after i p"
      using False early_parts(3-6) [of p i] by (cases x) auto
    have "gate_said B A (g', ps[i := p]) xs (ys @ drop (length (gate_out g)) (gate_out g'))"
      using inv(2) loc upd out old parts kept False
      by (cases x) (auto simp: gate_said_def x late_Cons split: if_splits)
    then show ?thesis by blast
  qed
qed

lemma gate_chosen_step:
  assumes inv: "gate_counts N W q (g, ps)" "gate_chosen W q (g, ps)" and i: "i < length ps"
    and loc: "gate_spec N W c i g (ps ! i) = Some (g', p)"
  shows "gate_chosen W q (g', ps[i := p])"
proof -
  obtain x where x: "ps ! i = x # p" using loc by (rule gate_spec_head)
  have mem: "ps ! i \<in> set ps" using i by simp
  have early: "early (x # p) \<or> late (x # p)" "early (x # p) \<Longrightarrow> chosen_says (x # p) = q * waits (x # p)"
    using inv(1) mem by (auto simp: gate_counts_def x)
  have wait: "late p \<and> chosen_says p = q" if "x = Wait_Open"
    using early that late_no_arrivals(2) [of p] by (auto simp: late_Cons)
  have room: "passed g + sum_list (map waits ps) = W" using inv(1) by (simp add: gate_counts_def)
  have "0 < sum_list (map waits ps)" if "x = Wait_Open" using sum_list_pos [OF mem, of waits] that by (simp add: x)
  with room have last: "passed g < W" if "x = Wait_Open" using that by simp
  show ?thesis
    using loc inv(2) i wait last by (cases x) (auto simp: x gate_chosen_def late_Cons nth_list_update split: option.splits if_splits)
qed

lemma gate_step_inv:
  assumes "gate_inv N W q B A s" and "par_step (gate_spec N W) s t"
  shows "gate_inv N W q B A t"
proof -
  obtain g ps where s: "s = (g, ps)" by (cases s)
  obtain i c g' p where st: "i < length ps" "gate_spec N W c i g (ps ! i) = Some (g', p)" "t = (g', ps[i := p])"
    using assms(2) unfolding s by (elim par_stepE)
  show ?thesis
    using assms(1) gate_counts_step [OF _ st(1, 2)] gate_said_step [OF _ _ st(1, 2)] gate_chosen_step [OF _ _ st(1, 2)]
    unfolding gate_inv_def s st(3) by blast
qed

lemma gate_step_lowers:
  "par_step (gate_spec N W) s t \<Longrightarrow> sum_list (map length (snd t)) < sum_list (map length (snd s))"
  by (cases s; cases t) (auto elim!: par_step_lowers gate_spec_head)

definition gate_joined :: "'g gate \<times> gate_instr list list \<Rightarrow> bool" where
  "gate_joined s \<longleftrightarrow> set (snd s) \<subseteq> {[]}"

lemma gate_progress:
  assumes "gate_inv N W q B A s" and "\<not> gate_joined s"
  shows "\<exists>t. par_step (gate_spec N W) s t"
proof -
  obtain g ps where s: "s = (g, ps)" by (cases s)
  have inv: "gate_counts N W q (g, ps)" using assms(1) by (simp add: gate_inv_def s)
  obtain u where u: "u \<in> set ps" "u \<noteq> []" using assms(2) by (auto simp: gate_joined_def s)
  show ?thesis
  proof (cases "\<exists>p\<in>set ps. p \<noteq> [] \<and> hd p \<noteq> Wait_Open")
    case True
    then obtain i where i: "i < length ps" "ps ! i \<noteq> []" "hd (ps ! i) \<noteq> Wait_Open" by (auto simp: in_set_conv_nth)
    then have "gate_spec N W True i g (ps ! i) \<noteq> None" by (cases "(Suc, \<lambda>k. N \<le> k, W, True, i, g, ps ! i)" rule: gate_local.cases) auto
    with i(1) show ?thesis unfolding s by (rule par_progress)
  next
    case False
    have none: "arrivals p = 0" if p: "p \<in> set ps" for p
    proof (cases "early p")
      case True
      then show ?thesis using False p late_no_arrivals(1) by (cases p rule: early.cases) auto
    next
      case False
      then show ?thesis using inv p late_no_arrivals(1) by (auto simp: gate_counts_def)
    qed
    have "arrived g = N" using inv sum_list_map_zero [of ps arrivals] none by (simp add: gate_counts_def)
    moreover obtain i where i: "i < length ps" "ps ! i \<noteq> []" using u by (auto simp: in_set_conv_nth)
    moreover have "hd (ps ! i) = Wait_Open" using False i by auto
    ultimately have "gate_spec N W (chosen g = None) i g (ps ! i) \<noteq> None" by (cases "ps ! i") auto
    with i(1) show ?thesis unfolding s by (rule par_progress)
  qed
qed

interpretation gates: ending_system "gate_inv N W q B A" "par_step (gate_spec N W)" "gate_inv N W q B A"
  "\<lambda>s. sum_list (map length (snd s))" gate_joined for N W q B A
  by unfold_locales (assumption, erule (1) gate_step_inv, erule gate_step_lowers, erule (1) gate_progress)

text \<open>Whatever the object does, every step uses up one instruction of a thread, so no run goes on for ever.\<close>

definition always_ends :: "('s \<Rightarrow> 's \<Rightarrow> bool) \<Rightarrow> 's \<Rightarrow> bool" where
  "always_ends step s \<longleftrightarrow> (\<forall>run. run 0 = s \<longrightarrow> (\<exists>k. \<not> step (run k) (run (Suc k))))"

lemma gate_local_lowers: "gate_local arrive opened W c i g p = Some (g', p') \<Longrightarrow> length p' < length p"
  by (cases "(arrive, opened, W, c, i, g, p)" rule: gate_local.cases) (auto split: if_splits)

interpretation gate_threads: ending_system "\<lambda>_. True" "par_step (gate_local arrive opened W)" "\<lambda>_. True"
  "\<lambda>s. sum_list (map length (snd s))" "\<lambda>s. \<nexists>t. par_step (gate_local arrive opened W) s t" for arrive opened W
proof (unfold_locales, goal_cases)
  case (3 s t)
  then show ?case by (cases s; cases t) (auto elim!: par_step_lowers gate_local_lowers)
qed auto

lemma gate_always_ends: "always_ends (par_step (gate_local arrive opened W)) s"
  using gate_threads.no_infinite_run by (auto simp: always_ends_def)

section \<open>Properties\<close>

text \<open>The lines of a run that has ended, in two parts.\<close>

definition two_phases :: "gate_instr list list \<Rightarrow> nat \<Rightarrow> 'g gate \<Rightarrow> bool" where
  "two_phases ps q g \<longleftrightarrow>
     (\<exists>xs ys. gate_out g = xs @ ys \<and> mset xs = (\<Sum>i<length ps. before i (ps ! i)) \<and>
        mset (filter (\<lambda>l. \<not> fst (snd l)) ys) = (\<Sum>i<length ps. after i (ps ! i)) \<and> length (filter (\<lambda>l. fst (snd l)) ys) = q)"

lemma says_unchosen: "l \<in># says i p \<Longrightarrow> \<not> fst (snd l)"
  by (induction i p rule: says.induct) auto

lemma before_unchosen: "l \<in># (\<Sum>i<n. before i (ps ! i)) \<Longrightarrow> \<not> fst (snd l)"
  by (induction n) (auto simp: before_def dest: says_unchosen split: if_splits)

lemma gate_inv_init:
  assumes "\<forall>p\<in>set ps. early p \<and> (p \<noteq> [] \<longrightarrow> chosen_says p = q * waits p)"
  shows "gate_inv (sum_list (map arrivals ps)) (sum_list (map waits ps)) q (\<Sum>i<length ps. before i (ps ! i)) (\<Sum>i<length ps. after i (ps ! i))
    (gate_init 0, ps)"
  using assms by (auto simp: gate_inv_def gate_counts_def gate_said_def gate_chosen_def gate_init_def)

lemma gate_end:
  assumes "gate_inv N W q (\<Sum>i<n. before i (ps ! i)) A (g, qs)" and "gate_joined (g, qs)" and "0 < W"
  shows "\<exists>xs ys. gate_out g = xs @ ys \<and> mset xs = (\<Sum>i<n. before i (ps ! i)) \<and> mset (filter (\<lambda>l. \<not> fst (snd l)) ys) = A \<and>
    length (filter (\<lambda>l. fst (snd l)) ys) = q"
proof -
  have qs: "\<And>i. i < length qs \<Longrightarrow> qs ! i = []" using assms(2) by (auto simp: gate_joined_def subset_iff)
  then have "(\<Sum>i<length qs. before i (qs ! i)) = {#}" "(\<Sum>i<length qs. after i (qs ! i)) = {#}"
    by (simp_all add: before_def after_def)
  then obtain xs ys where out: "gate_out g = xs @ ys" "mset xs = (\<Sum>i<n. before i (ps ! i))" "mset (filter (\<lambda>l. \<not> fst (snd l)) ys) = A"
    using assms(1) by (auto simp: gate_inv_def gate_said_def)
  have none: "sum_list (map waits qs) = 0" using assms(2) by (intro sum_list_map_zero) (auto simp: gate_joined_def)
  have "passed g + sum_list (map waits qs) = W" using assms(1) by (simp add: gate_inv_def gate_counts_def)
  then have "passed g = W" unfolding none by simp
  then have "length (filter (\<lambda>l. fst (snd l)) (gate_out g)) = q"
    using assms(1, 3) qs by (auto simp: gate_inv_def gate_chosen_def split: option.splits)
  moreover have "filter (\<lambda>l. fst (snd l)) xs = []"
    using before_unchosen [where n = n and ps = ps] by (metis filter_False out(2) set_mset_mset)
  ultimately show ?thesis using out by auto
qed

lemma demo_threads_ok:
  "\<forall>p\<in>set notification_threads. early p \<and> (p \<noteq> [] \<longrightarrow> chosen_says p = 0 * waits p)"
  "\<forall>p\<in>set (barrier_threads n). early p \<and> (p \<noteq> [] \<longrightarrow> chosen_says p = 1 * waits p)"
  "\<forall>p\<in>set (counter_threads n). early p \<and> (p \<noteq> [] \<longrightarrow> chosen_says p = 0 * waits p)"
  by (auto simp: notification_threads_def barrier_threads_def barrier_thread_def counter_threads_def late_def)

lemma demo_threads_counts:
  "sum_list (map arrivals notification_threads) = 1" "sum_list (map waits notification_threads) = 1"
  "sum_list (map arrivals (barrier_threads n)) = n" "sum_list (map waits (barrier_threads n)) = n"
  "sum_list (map arrivals (counter_threads n)) = n" "sum_list (map waits (counter_threads n)) = 1"
  by (simp_all add: notification_threads_def barrier_threads_def barrier_thread_def counter_threads_def o_def sum_list_triv)

lemma gate_runs:
  assumes "\<forall>p\<in>set ps. early p \<and> (p \<noteq> [] \<longrightarrow> chosen_says p = q * waits p)" and "sum_list (map arrivals ps) = N" "sum_list (map waits ps) = W"
    and "0 < W" and "(par_step (gate_spec N W))\<^sup>*\<^sup>* (gate_init 0, ps) s"
  shows "(gate_joined s \<longrightarrow> two_phases ps q (fst s)) \<and> (\<exists>t. (par_step (gate_spec N W))\<^sup>*\<^sup>* s t \<and> gate_joined t)"
proof -
  have inv: "gate_inv N W q (\<Sum>i<length ps. before i (ps ! i)) (\<Sum>i<length ps. after i (ps ! i)) s"
    using gates.steps_inv [OF assms(5)] gate_inv_init [OF assms(1)] assms(2, 3) by simp
  then show ?thesis
    using gate_end [where n = "length ps" and ps = ps and g = "fst s" and qs = "snd s"] gates.finishes [OF inv] assms(4) by (auto simp: two_phases_def)
qed

text \<open>What the library promises of its object: it lets threads pass after \<open>N\<close> arrivals, and not before.\<close>

definition gate_at :: "'g \<Rightarrow> ('g \<Rightarrow> 'g) \<Rightarrow> nat gate \<Rightarrow> 'g gate" where
  "gate_at new arrive g = \<lparr>arrived = (arrive ^^ arrived g) new, passed = passed g, chosen = chosen g, gate_out = gate_out g\<rparr>"

locale counting_gate =
  fixes new :: 'g
    and arrive :: "'g \<Rightarrow> 'g"
    and opened :: "'g \<Rightarrow> bool"
    and N :: nat
  assumes opens: "opened ((arrive ^^ k) new) \<longleftrightarrow> N \<le> k"
begin

sublocale object: thread_refinement "gate_spec N W" "gate_local arrive opened W" "gate_at new arrive" "\<lambda>_. True" for W
proof (unfold_locales, goal_cases)
  case (1 g c i p)
  show ?case by (cases "(arrive, opened, W, c, i, gate_at new arrive g, p)" rule: gate_local.cases) (auto simp: gate_at_def opens)
qed simp

lemma object_runs:
  assumes ps: "\<forall>p\<in>set ps. early p \<and> (p \<noteq> [] \<longrightarrow> chosen_says p = q * waits p)" "sum_list (map arrivals ps) = N" "sum_list (map waits ps) = W" "0 < W"
    and run: "(par_step (gate_local arrive opened W))\<^sup>*\<^sup>* (gate_init new, ps) s"
  shows "(gate_joined s \<longrightarrow> two_phases ps q (fst s)) \<and> (\<exists>t. (par_step (gate_local arrive opened W))\<^sup>*\<^sup>* s t \<and> gate_joined t)"
proof -
  have "(gate_init new, ps) = map_prod (gate_at new arrive) id (gate_init 0, ps)" by (simp add: gate_at_def gate_init_def)
  then obtain s' where s': "(par_step (gate_spec N W))\<^sup>*\<^sup>* (gate_init 0, ps) s'" "s = map_prod (gate_at new arrive) id s'"
    using object.run_lifts [OF run, of "(gate_init 0, ps)"] by auto
  have "gate_joined (map_prod (gate_at new arrive) id t) = gate_joined t" "two_phases ps q (gate_at new arrive g) = two_phases ps q g" for t g
    by (simp_all add: gate_joined_def two_phases_def gate_at_def)
  then show ?thesis using gate_runs [OF ps s'(1)] object.run_refines unfolding s'(2) by (metis fst_map_prod)
qed

end

text \<open>A flag, a count down to zero, and a count up.\<close>

interpretation flag_gate: counting_gate False "\<lambda>_. True" "\<lambda>b. b" 1
proof (unfold_locales, goal_cases)
  case (1 k)
  show ?case by (cases k) simp_all
qed

lemma pred_funpow: "((\<lambda>k. k - Suc 0) ^^ j) n = n - j"
  by (induction j) simp_all

interpretation latch_gate: counting_gate n "\<lambda>k. k - 1" "\<lambda>k. k = (0 :: nat)" n for n
  by unfold_locales (auto simp: pred_funpow)

lemma Suc_funpow_zero: "(Suc ^^ j) 0 = j"
  by (induction j) simp_all

interpretation count_gate: counting_gate 0 Suc "\<lambda>k. n \<le> k" n for n
  by unfold_locales (simp add: Suc_funpow_zero)

text \<open>
  C35: The synchronisation points order what threads print.  In every run of the three demonstrations (the barrier with any
  number \<open>n\<close> of threads, the counter with any number \<open>k\<close> of tasks) all lines printed before arriving come before all lines printed after waiting, each line is
  printed once, and at the barrier exactly one thread prints the line of the last arrival.  No run goes on for ever and
  none is stuck: from every state it can be completed to one in which all threads have ended.
\<close>

theorem gates_order_phases:
  assumes notification: "counting_gate nn na no 1" "(par_step (gate_local na no 1))\<^sup>*\<^sup>* (gate_init nn, notification_threads) s"
    and barrier: "counting_gate bn ba bo n" "(par_step (gate_local ba bo n))\<^sup>*\<^sup>* (gate_init bn, barrier_threads n) b" "0 < n"
    and counter: "counting_gate cn ca co k" "(par_step (gate_local ca co 1))\<^sup>*\<^sup>* (gate_init cn, counter_threads k) c"
  shows "(gate_joined s \<longrightarrow> two_phases notification_threads 0 (fst s)) \<and> (\<exists>t. (par_step (gate_local na no 1))\<^sup>*\<^sup>* s t \<and> gate_joined t) \<and> always_ends (par_step (gate_local na no 1)) s \<and>
    (gate_joined b \<longrightarrow> two_phases (barrier_threads n) 1 (fst b)) \<and> (\<exists>t. (par_step (gate_local ba bo n))\<^sup>*\<^sup>* b t \<and> gate_joined t) \<and> always_ends (par_step (gate_local ba bo n)) b \<and>
    (gate_joined c \<longrightarrow> two_phases (counter_threads k) 0 (fst c)) \<and> (\<exists>t. (par_step (gate_local ca co 1))\<^sup>*\<^sup>* c t \<and> gate_joined t) \<and> always_ends (par_step (gate_local ca co 1)) c"
  using counting_gate.object_runs [OF notification(1) demo_threads_ok(1) demo_threads_counts(1, 2) _ notification(2)]
    counting_gate.object_runs [OF barrier(1) demo_threads_ok(2) demo_threads_counts(3, 4) barrier(3, 2)]
    counting_gate.object_runs [OF counter(1) demo_threads_ok(3) demo_threads_counts(5, 6) _ counter(2)] by (simp add: gate_always_ends)

theorem gates_order_phases_witness:
  "(\<exists>t. (par_step (gate_local Suc (\<lambda>k. 4 \<le> k) 4))\<^sup>*\<^sup>* (gate_init 0, barrier_threads 4) t \<and> gate_joined t) \<and>
   (\<exists>t. (par_step (gate_local (\<lambda>k. k - 1) (\<lambda>k. k = 0) 1))\<^sup>*\<^sup>* (gate_init (6 :: nat), counter_threads 6) t \<and> gate_joined t)"
  using gates_order_phases [where n = 4 and k = 6, OF flag_gate.counting_gate_axioms rtranclp.rtrancl_refl count_gate.counting_gate_axioms rtranclp.rtrancl_refl _
      latch_gate.counting_gate_axioms rtranclp.rtrancl_refl] by simp

end
