(* ===== verification/Handoff.thy ===== *)
theory Handoff
  imports Memory_Order "HOL-Library.Multiset"
begin

text \<open>
  One thread hands values to another: the queue with a separate flag \<open>done\<close> of \<^verbatim>\<open>libraries/folly/03_queues.cpp\<close> and
  \<^verbatim>\<open>libraries/boost/07_lockfree.cpp\<close> (\<open>demo_spsc\<close>), and the guarded queue with a condition variable and the \<open>Await\<close> of
  \<^verbatim>\<open>libraries/abseil/08_mutex.cpp\<close>.  Of the lock-free queue of the library the programs rely on what its documentation says, that
  a value that is read has been published before; the memory orders that ensure it are arguments of the model.  The queue never fills
  (1024 places for at most 20 values).  The memory is the one of \<^verbatim>\<open>Memory_Order\<close>.
\<close>

section \<open>A queue and a flag\<close>

datatype ho_loc = Wr | Fin

datatype ho_pc = Ho_Done | Ho_Empty | Ho_Read | Ho_End

record spsc_handoff =
  ho_hist :: "ho_loc history"
  ho_pview :: "ho_loc view"
  ho_cview :: "ho_loc view"
  produced :: nat
  closed :: bool
  ho_at :: ho_pc
  taken :: nat
  ho_sum :: int

definition ho_init :: spsc_handoff where
  "ho_init = \<lparr>ho_hist = hist_init, ho_pview = (\<lambda>_. 0), ho_cview = (\<lambda>_. 0), produced = 0, closed = False,
     ho_at = Ho_Done, taken = 0, ho_sum = 0\<rparr>"

text \<open>
  The producer writes \<open>0, \<dots>, n - 1\<close> and then sets \<open>done\<close>.  The consumer's loop reads \<open>done\<close> with order \<open>ro\<close> (relaxed in the folly
  program, sequentially consistent and so at least acquire in the boost program), then asks whether the queue is empty, then
  tries to read; with \<open>again\<close> (boost) it goes on reading until a read fails.  The queue is the library's: the orders \<open>wo\<close> in which a write
  publishes a value and \<open>qo\<close> in which the consumer looks for one are arguments.
\<close>

inductive ho_step :: "mem_order \<Rightarrow> mem_order \<Rightarrow> bool \<Rightarrow> mem_order \<Rightarrow> nat \<Rightarrow> spsc_handoff \<Rightarrow> spsc_handoff \<Rightarrow> bool" for wo :: mem_order and qo :: mem_order and again :: bool and ro :: mem_order and n :: nat where
  ho_write: "produced s < n \<Longrightarrow> atomic_store wo Wr (int (Suc (produced s))) (ho_pview s) (ho_hist s) = (V, H) \<Longrightarrow>
    ho_step wo qo again ro n s (s\<lparr>ho_pview := V, ho_hist := H, produced := Suc (produced s)\<rparr>)"
| ho_close: "produced s = n \<Longrightarrow> \<not> closed s \<Longrightarrow> atomic_store Release Fin 1 (ho_pview s) (ho_hist s) = (V, H) \<Longrightarrow>
    ho_step wo qo again ro n s (s\<lparr>ho_pview := V, ho_hist := H, closed := True\<rparr>)"
| ho_done: "ho_at s = Ho_Done \<Longrightarrow> atomic_load ro Fin k (ho_cview s) (ho_hist s) = Some (v, V) \<Longrightarrow>
    ho_step wo qo again ro n s (s\<lparr>ho_cview := V, ho_at := if v = 0 then Ho_Read else Ho_Empty\<rparr>)"
| ho_empty: "ho_at s = Ho_Empty \<Longrightarrow> atomic_load qo Wr k (ho_cview s) (ho_hist s) = Some (w, V) \<Longrightarrow>
    ho_step wo qo again ro n s (s\<lparr>ho_cview := V, ho_at := if w = int (taken s) then Ho_End else Ho_Read\<rparr>)"
| ho_fail: "ho_at s = Ho_Read \<Longrightarrow> atomic_load qo Wr k (ho_cview s) (ho_hist s) = Some (w, V) \<Longrightarrow> w = int (taken s) \<Longrightarrow>
    ho_step wo qo again ro n s (s\<lparr>ho_cview := V, ho_at := Ho_Done\<rparr>)"
| ho_read: "ho_at s = Ho_Read \<Longrightarrow> atomic_load qo Wr k (ho_cview s) (ho_hist s) = Some (w, V) \<Longrightarrow> w \<noteq> int (taken s) \<Longrightarrow>
    ho_step wo qo again ro n s (s\<lparr>ho_cview := V, ho_sum := ho_sum s + int (taken s), taken := Suc (taken s),
      ho_at := if again then Ho_Read else Ho_Done\<rparr>)"

text \<open>The histories, and what the consumer has seen.\<close>

definition wr_hist :: "nat \<Rightarrow> (int \<times> ho_loc view) list" where
  "wr_hist k = map (\<lambda>j. (int j, (\<lambda>_. 0)(Wr := j))) [0..<Suc k]"

definition fin_hist :: "nat \<Rightarrow> bool \<Rightarrow> (int \<times> ho_loc view) list" where
  "fin_hist n b = (0, \<lambda>_. 0) # (if b then [(1, (\<lambda>_. 0)(Wr := n, Fin := 1))] else [])"

definition ho_base :: "nat \<Rightarrow> spsc_handoff \<Rightarrow> bool" where
  "ho_base n s \<longleftrightarrow>
     produced s \<le> n \<and> (closed s \<longrightarrow> produced s = n) \<and> ho_hist s Wr = wr_hist (produced s) \<and> ho_hist s Fin = fin_hist n (closed s) \<and>
     ho_pview s = (\<lambda>_. 0)(Wr := produced s, Fin := if closed s then 1 else 0) \<and>
     ho_cview s Wr \<le> produced s \<and> ho_cview s Fin \<le> (if closed s then 1 else 0) \<and>
     taken s \<le> ho_cview s Wr \<and> ho_sum s = (\<Sum>k<taken s. int k)"

definition ho_inv :: "nat \<Rightarrow> spsc_handoff \<Rightarrow> bool" where
  "ho_inv n s \<longleftrightarrow> ho_base n s \<and> (ho_at s = Ho_Empty \<longrightarrow> closed s \<and> ho_cview s Wr = n) \<and> (ho_at s = Ho_End \<longrightarrow> taken s = n)"

lemma wr_hist_nth: "k \<le> m \<Longrightarrow> wr_hist m ! k = (int k, (\<lambda>_. 0)(Wr := k))" "length (wr_hist m) = Suc m"
  by (simp_all add: wr_hist_def del: upt_Suc)

lemma wr_hist_Suc: "wr_hist (Suc m) = wr_hist m @ [(int (Suc m), (\<lambda>_. 0)(Wr := Suc m))]"
  by (simp add: wr_hist_def)

lemma ho_base_init: "ho_base n ho_init"
  by (auto simp: ho_base_def ho_init_def hist_init_def wr_hist_def fin_hist_def)

lemma wr_load:
  assumes "ho_base n s" and "atomic_load Acquire Wr k (ho_cview s) (ho_hist s) = Some (w, V)"
  shows "w = int k" and "ho_cview s Wr \<le> k" and "k \<le> produced s" and "V = (ho_cview s)(Wr := k)"
  using assms by (auto simp: ho_base_def atomic_load_def wr_hist_nth join_view_def fun_eq_iff split: if_splits)

lemma fin_load:
  assumes "ho_base n s" and "atomic_load ro Fin k (ho_cview s) (ho_hist s) = Some (v, V)"
  shows "v \<noteq> 0 \<Longrightarrow> closed s \<and> k = 1 \<and> (ro = Acquire \<longrightarrow> V Wr = n)" and "ho_cview s Wr \<le> V Wr" and "V Wr \<le> produced s"
    and "V Fin \<le> (if closed s then 1 else 0)"
  using assms by (auto simp: ho_base_def atomic_load_def fin_hist_def join_view_def nth_Cons' split: if_splits)

lemma wr_store:
  assumes "ho_base n s" and "\<not> closed s" and "atomic_store Release Wr (int (Suc (produced s))) (ho_pview s) (ho_hist s) = (V, H)"
  shows "V = (\<lambda>_. 0)(Wr := Suc (produced s), Fin := 0)" and "H = (ho_hist s)(Wr := wr_hist (Suc (produced s)))"
proof -
  have V: "(ho_pview s)(Wr := Suc (produced s)) = (\<lambda>_. 0)(Wr := Suc (produced s))"
    using assms(1, 2) by (auto simp: ho_base_def)
  have "V = (ho_pview s)(Wr := Suc (produced s))" "H = (ho_hist s)(Wr := ho_hist s Wr @ [(int (Suc (produced s)), V)])"
    using assms(1, 3) by (auto simp: ho_base_def atomic_store_def Let_def wr_hist_nth(2))
  then show "V = (\<lambda>_. 0)(Wr := Suc (produced s), Fin := 0)" "H = (ho_hist s)(Wr := wr_hist (Suc (produced s)))"
    using assms(1) by (auto simp: V wr_hist_Suc ho_base_def)
qed

lemma fin_store:
  assumes "ho_base n s" and "\<not> closed s" and "produced s = n" and "atomic_store Release Fin 1 (ho_pview s) (ho_hist s) = (V, H)"
  shows "V = (\<lambda>_. 0)(Wr := n, Fin := 1)" and "H = (ho_hist s)(Fin := fin_hist n True)"
  using assms by (auto simp: ho_base_def atomic_store_def Let_def fin_hist_def)

lemma ho_base_step:
  assumes base: "ho_base n s" and st: "ho_step Release Acquire again ro n s t"
  shows "ho_base n t"
  using st
proof cases
  case (ho_write V H)
  then have op: "\<not> closed s" using base by (auto simp: ho_base_def)
  show ?thesis using wr_store [OF base op ho_write(3)] ho_write base op by (simp add: ho_base_def)
next
  case (ho_close V H)
  show ?thesis using fin_store [OF base ho_close(3, 2, 4)] ho_close base by (simp add: ho_base_def)
next
  case (ho_done k v V)
  then show ?thesis using fin_load [OF base ho_done(3)] base by (auto simp: ho_base_def)
next
  case (ho_empty k w V)
  then show ?thesis using wr_load [OF base ho_empty(3)] base by (auto simp: ho_base_def)
next
  case (ho_fail k w V)
  then show ?thesis using wr_load [OF base ho_fail(3)] base by (auto simp: ho_base_def)
next
  case (ho_read k w V)
  then show ?thesis using wr_load [OF base ho_read(3)] base by (auto simp: ho_base_def)
qed

lemma ho_inv_step: "ho_inv n s \<Longrightarrow> ho_step Release Acquire again Acquire n s t \<Longrightarrow> ho_inv n t"
proof -
  assume inv: "ho_inv n s" and st: "ho_step Release Acquire again Acquire n s t"
  have base: "ho_base n s" "ho_base n t" using inv st ho_base_step by (auto simp: ho_inv_def)
  from st show "ho_inv n t"
  proof cases
    case (ho_done k v V)
    then show ?thesis using inv base fin_load [OF base(1) ho_done(3)] by (auto simp: ho_inv_def)
  next
    case (ho_empty k w V)
    then show ?thesis using inv base wr_load [OF base(1) ho_empty(3)] by (auto simp: ho_inv_def ho_base_def)
  qed (use inv base in \<open>auto simp: ho_inv_def\<close>)
qed

text \<open>
  Steps that bring the end closer: those of the producer, and those of the consumer that read the newest value after \<open>done\<close>
  is set.  Every state has one until the consumer has left its loop.
\<close>

fun ho_weight :: "nat \<Rightarrow> ho_pc \<Rightarrow> nat" where
  "ho_weight m Ho_End = 0"
| "ho_weight m Ho_Empty = 4 * m + 1"
| "ho_weight m Ho_Done = 4 * m + 2"
| "ho_weight m Ho_Read = (if m = 0 then 3 else 4 * m)"

definition ho_left :: "nat \<Rightarrow> spsc_handoff \<Rightarrow> nat" where
  "ho_left n s = (n - produced s) + (if closed s then 0 else 1) + ho_weight (n - taken s) (ho_at s)"

lemma newest_load:
  assumes "ho_base n s" and "closed s"
  shows "\<exists>V. atomic_load Acquire Wr n (ho_cview s) (ho_hist s) = Some (int n, V)"
    and "\<exists>V. atomic_load ro Fin 1 (ho_cview s) (ho_hist s) = Some (1, V)"
  using assms by (auto simp: ho_base_def atomic_load_def wr_hist_nth fin_hist_def)

lemma ho_progress:
  assumes inv: "ho_inv n s" and "ho_at s \<noteq> Ho_End \<or> \<not> closed s"
  shows "\<exists>t. ho_step Release Acquire again Acquire n s t \<and> ho_left n t < ho_left n s"
proof -
  have base: "ho_base n s" using inv by (simp add: ho_inv_def)
  have le: "taken s \<le> n" "produced s \<le> n" using base by (auto simp: ho_base_def)
  consider "produced s < n" | "produced s = n" "\<not> closed s" | "closed s" "ho_at s \<noteq> Ho_End" using le assms(2) by linarith
  then show ?thesis
  proof cases
    case 1
    obtain V H where vh: "atomic_store Release Wr (int (Suc (produced s))) (ho_pview s) (ho_hist s) = (V, H)" by fastforce
    show ?thesis using 1 ho_write [OF 1 vh] by (intro exI conjI) (assumption, simp add: ho_left_def)
  next
    case 2
    obtain V H where vh: "atomic_store Release Fin 1 (ho_pview s) (ho_hist s) = (V, H)" by fastforce
    show ?thesis using 2 ho_close [OF 2 vh] by (intro exI conjI) (assumption, simp add: ho_left_def)
  next
    case 3
    obtain V where w: "atomic_load Acquire Wr n (ho_cview s) (ho_hist s) = Some (int n, V)" using newest_load(1) [OF base 3(1)] by blast
    obtain U where f: "atomic_load Acquire Fin 1 (ho_cview s) (ho_hist s) = Some (1, U)" using newest_load(2) [OF base 3(1)] by blast
    show ?thesis
    proof (cases "ho_at s")
      case Ho_Done
      show ?thesis using ho_done [OF Ho_Done f] by (intro exI conjI) (assumption, simp add: ho_left_def Ho_Done)
    next
      case Ho_Empty
      show ?thesis using ho_empty [OF Ho_Empty w] le by (intro exI conjI) (assumption, simp add: ho_left_def Ho_Empty)
    next
      case Ho_Read
      show ?thesis
      proof (cases "taken s = n")
        case True
        then have eq: "int n = int (taken s)" by simp
        show ?thesis using ho_fail [OF Ho_Read w eq] True
          by (intro exI conjI) (assumption, simp add: ho_left_def Ho_Read)
      next
        case False
        then have neq: "int n \<noteq> int (taken s)" by simp
        obtain m where m: "n - taken s = Suc m" "n - Suc (taken s) = m" using False le(1) by (metis Suc_diff_Suc le_neq_implies_less)
        show ?thesis using ho_read [OF Ho_Read w neq]
          by (intro exI conjI) (assumption, simp add: ho_left_def Ho_Read m)
      qed
    qed (use 3 in simp)
  qed
qed

lemma ho_inv_init: "ho_inv n ho_init"
  using ho_base_init by (simp add: ho_inv_def) (simp add: ho_init_def)

interpretation acquiring: ends_from "\<lambda>s. s = ho_init" "ho_step Release Acquire again Acquire n" "ho_inv n" "ho_left n" "\<lambda>s. ho_at s = Ho_End \<and> closed s"
  for again n
  by unfold_locales (simp add: ho_inv_init, erule (1) ho_inv_step, rule ho_progress, auto)

text \<open>With a relaxed load of \<open>done\<close> the consumer can see the flag and an old number of values: it then leaves with nothing read.\<close>

lemma produce_all:
  "k \<le> n \<Longrightarrow> \<exists>s. (ho_step Release Acquire again ro n)\<^sup>*\<^sup>* ho_init s \<and> produced s = k \<and> \<not> closed s \<and> ho_base n s \<and> ho_cview s = (\<lambda>_. 0) \<and>
     ho_at s = Ho_Done \<and> taken s = 0 \<and> ho_sum s = 0"
proof (induction k)
  case 0
  show ?case by (rule exI [of _ ho_init]) (use ho_base_init in \<open>auto simp: ho_init_def\<close>)
next
  case (Suc k)
  then obtain s where s: "(ho_step Release Acquire again ro n)\<^sup>*\<^sup>* ho_init s" "produced s = k" "\<not> closed s" "ho_base n s" "ho_cview s = (\<lambda>_. 0)"
    "ho_at s = Ho_Done" "taken s = 0" "ho_sum s = 0" by auto
  obtain V H where vh: "atomic_store Release Wr (int (Suc (produced s))) (ho_pview s) (ho_hist s) = (V, H)" by fastforce
  have st: "ho_step Release Acquire again ro n s (s\<lparr>ho_pview := V, ho_hist := H, produced := Suc (produced s)\<rparr>)"
    using ho_write [OF _ vh] s(2) Suc.prems by simp
  show ?case
    using rtranclp.rtrancl_into_rtrancl [OF s(1) st] ho_base_step [OF s(4) st] s
    by (intro exI [of _ "s\<lparr>ho_pview := V, ho_hist := H, produced := Suc (produced s)\<rparr>"]) simp
qed

lemma relaxed_loses:
  "\<exists>s. (ho_step Release Acquire again Relaxed n)\<^sup>*\<^sup>* ho_init s \<and> ho_at s = Ho_End \<and> closed s \<and> ho_sum s = 0 \<and> taken s = 0"
proof -
  obtain s where s: "(ho_step Release Acquire again Relaxed n)\<^sup>*\<^sup>* ho_init s" "produced s = n" "\<not> closed s" "ho_base n s" "ho_cview s = (\<lambda>_. 0)"
    "ho_at s = Ho_Done" "taken s = 0" "ho_sum s = 0" using produce_all [of n n again Relaxed] by auto
  obtain V H where vh: "atomic_store Release Fin 1 (ho_pview s) (ho_hist s) = (V, H)" by fastforce
  define a where "a = s\<lparr>ho_pview := V, ho_hist := H, closed := True\<rparr>"
  have sa: "ho_step Release Acquire again Relaxed n s a" using ho_close [OF s(2, 3) vh] by (simp add: a_def)
  have base: "ho_base n a" using ho_base_step [OF s(4) sa] .
  have at: "ho_cview a = (\<lambda>_. 0)" "ho_at a = Ho_Done" "taken a = 0" "ho_sum a = 0" "closed a" "produced a = n"
    using s by (simp_all add: a_def)
  have f: "atomic_load Relaxed Fin 1 (ho_cview a) (ho_hist a) = Some (1, (\<lambda>_. 0)(Fin := 1))"
    using base at by (auto simp: ho_base_def atomic_load_def fin_hist_def join_view_def fun_eq_iff)
  define b where "b = a\<lparr>ho_cview := (\<lambda>_. 0)(Fin := 1), ho_at := Ho_Empty\<rparr>"
  have ab: "ho_step Release Acquire again Relaxed n a b" using ho_done [OF at(2) f] by (simp add: b_def)
  have w: "atomic_load Acquire Wr 0 (ho_cview b) (ho_hist b) = Some (0, (\<lambda>_. 0)(Fin := 1))"
    using base by (auto simp: ho_base_def atomic_load_def wr_hist_nth join_view_def b_def fun_eq_iff)
  have bc: "ho_step Release Acquire again Relaxed n b (b\<lparr>ho_cview := (\<lambda>_. 0)(Fin := 1), ho_at := Ho_End\<rparr>)"
    using ho_empty [OF _ w] at by (simp add: b_def)
  show ?thesis
    by (rule exI, intro conjI, rule rtranclp.rtrancl_into_rtrancl [OF rtranclp.rtrancl_into_rtrancl [OF rtranclp.rtrancl_into_rtrancl [OF s(1) sa] ab] bc])
      (simp_all add: b_def at)
qed

section \<open>A guarded queue with a condition variable\<close>

text \<open>
  Everything between taking and giving back the mutex is one step.  A consumer that finds nothing waits; a signal, the
  timeout or nothing at all wakes it, and it tests again.
\<close>

record cv_queue =
  cv_items :: "nat list"
  cv_done :: bool
  cv_out :: "nat list"

datatype cv_thread = Cv_Produce nat | Cv_Consume | Cv_Waiting | Cv_End

fun cv_local :: "nat \<Rightarrow> unit \<Rightarrow> nat \<Rightarrow> cv_queue \<Rightarrow> cv_thread \<Rightarrow> (cv_queue \<times> cv_thread) option" where
  "cv_local n c i q (Cv_Produce k) =
     Some (if k < n then (q\<lparr>cv_items := cv_items q @ [k]\<rparr>, Cv_Produce (Suc k)) else (q\<lparr>cv_done := True\<rparr>, Cv_End))"
| "cv_local n c i q Cv_Consume =
     Some (if cv_items q = [] \<and> \<not> cv_done q then (q, Cv_Waiting)
           else (q\<lparr>cv_items := [], cv_out := cv_out q @ rev (cv_items q)\<rparr>, if cv_done q then Cv_End else Cv_Consume))"
| "cv_local n c i q Cv_Waiting = Some (q, Cv_Consume)"
| "cv_local n c i q Cv_End = None"

definition cv_init :: "cv_queue \<times> cv_thread list" where
  "cv_init = (\<lparr>cv_items = [], cv_done = False, cv_out = []\<rparr>, [Cv_Produce 0, Cv_Consume])"

definition cv_lines :: "cv_queue \<Rightarrow> console" where
  "cv_lines q = map (\<lambda>v. ''consumed: '' @ dec_nat v) (cv_out q)"

text \<open>The output is what was produced, cut into batches, each batch backwards.\<close>

definition batches_of :: "nat list \<Rightarrow> nat list \<Rightarrow> bool" where
  "batches_of xs out \<longleftrightarrow> (\<exists>bs. out = concat (map rev bs) \<and> xs = concat bs)"

lemma batches_extend: "batches_of xs out \<Longrightarrow> batches_of (xs @ b) (out @ rev b)"
  unfolding batches_of_def by (elim exE, rule_tac x = "bs @ [b]" in exI) simp

lemma mset_concat_rev: "mset (concat (map rev bs)) = mset (concat bs)"
  by (induction bs) auto

lemma batches_perm: "batches_of xs out \<Longrightarrow> mset out = mset xs"
  unfolding batches_of_def using mset_concat_rev by blast

definition cv_inv :: "nat \<Rightarrow> cv_queue \<times> cv_thread list \<Rightarrow> bool" where
  "cv_inv n = (\<lambda>(q, ls). \<exists>p c k xs. ls = [p, c] \<and> k \<le> n \<and> (p = Cv_Produce k \<and> \<not> cv_done q \<or> p = Cv_End \<and> k = n \<and> cv_done q) \<and>
     xs @ cv_items q = [0..<k] \<and> batches_of xs (cv_out q) \<and> c \<in> {Cv_Consume, Cv_Waiting, Cv_End} \<and>
     (c = Cv_End \<longrightarrow> cv_done q \<and> cv_items q = []))"

lemma cv_inv_init: "cv_inv n cv_init"
  by (auto simp: cv_inv_def cv_init_def batches_of_def intro: exI [of _ "[]"])

lemma cv_step_inv:
  assumes inv: "cv_inv n s" and st: "par_step (cv_local n) s t"
  shows "cv_inv n t"
proof -
  obtain q p c k xs where s: "s = (q, [p, c])" and old: "k \<le> n" "p = Cv_Produce k \<and> \<not> cv_done q \<or> p = Cv_End \<and> k = n \<and> cv_done q"
    "xs @ cv_items q = [0..<k]" "batches_of xs (cv_out q)" "c \<in> {Cv_Consume, Cv_Waiting, Cv_End}" "c = Cv_End \<longrightarrow> cv_done q \<and> cv_items q = []"
    using inv by (cases s) (auto simp: cv_inv_def)
  obtain i u q' l where i: "i < length [p, c]" and loc: "cv_local n u i q ([p, c] ! i) = Some (q', l)" and t: "t = (q', [p, c][i := l])"
    using st unfolding s by (elim par_stepE)
  consider "i = 0" | "i = 1" using i by (auto simp: less_Suc_eq)
  then show ?thesis
  proof cases
    case 1
    then have p: "p = Cv_Produce k" "\<not> cv_done q" using loc old(2) by auto
    have "c \<noteq> Cv_End" using p old(6) by auto
    then show ?thesis using 1 loc p old unfolding t cv_inv_def
      by (auto split: if_splits)
  next
    case 2
    have more: "batches_of (xs @ cv_items q) (cv_out q @ rev (cv_items q))" using old(4) by (rule batches_extend)
    have inv: "cv_inv n (q', [p, l])"
    proof (cases "c = Cv_Consume \<and> (cv_items q \<noteq> [] \<or> cv_done q)")
      case True
      then have "q' = q\<lparr>cv_items := [], cv_out := cv_out q @ rev (cv_items q)\<rparr>" "l = (if cv_done q then Cv_End else Cv_Consume)"
        using 2 loc by auto
      then show ?thesis
        unfolding cv_inv_def prod.case using old more by (intro exI [of _ p] exI [of _ l] exI [of _ k] exI [of _ "[0..<k]"]) auto
    next
      case False
      then have "q' = q" "l \<in> {Cv_Consume, Cv_Waiting}" using 2 loc old(5) by auto
      then show ?thesis
        unfolding cv_inv_def prod.case using old by (intro exI [of _ p] exI [of _ l] exI [of _ k] exI [of _ xs]) auto
    qed
    then show ?thesis using 2 by (simp add: t)
  qed
qed

definition cv_weight :: "nat \<Rightarrow> cv_thread \<Rightarrow> nat" where
  "cv_weight n l = (case l of Cv_Produce k \<Rightarrow> Suc (n - k) | Cv_Consume \<Rightarrow> 1 | Cv_Waiting \<Rightarrow> 2 | Cv_End \<Rightarrow> 0)"

definition cv_left :: "nat \<Rightarrow> cv_queue \<times> cv_thread list \<Rightarrow> nat" where
  "cv_left n s = sum_list (map (cv_weight n) (snd s))"

definition cv_joined :: "cv_queue \<times> cv_thread list \<Rightarrow> bool" where
  "cv_joined s \<longleftrightarrow> snd s = [Cv_End, Cv_End]"

lemma cv_advance:
  assumes "i < length ls" and "cv_local n () i q (ls ! i) = Some (q', l)" and "cv_weight n l < cv_weight n (ls ! i)"
  shows "\<exists>t. par_step (cv_local n) (q, ls) t \<and> cv_left n t < cv_left n (q, ls)"
proof -
  have "cv_left n (q', ls[i := l]) < cv_left n (q, ls)"
    using sum_list_map_update [OF assms(1), of "cv_weight n" l] assms(3) by (simp add: cv_left_def)
  then show ?thesis using par_stepI [of i ls "cv_local n" "()" q q' l] assms(1, 2) by blast
qed

lemma cv_progress:
  assumes "cv_inv n s" and "\<not> cv_joined s"
  shows "\<exists>t. par_step (cv_local n) s t \<and> cv_left n t < cv_left n s"
proof -
  obtain q p c k where s: "s = (q, [p, c])" and old: "k \<le> n" "p = Cv_Produce k \<and> \<not> cv_done q \<or> p = Cv_End \<and> k = n \<and> cv_done q"
    "c \<in> {Cv_Consume, Cv_Waiting, Cv_End}"
    using assms(1) by (cases s) (auto simp: cv_inv_def)
  show ?thesis
  proof (cases "p = Cv_Produce k")
    case True
    then show ?thesis unfolding s using old(1)
      by (cases "k < n"; intro cv_advance [of 0]) (auto simp: cv_weight_def)
  next
    case False
    then have "p = Cv_End" "cv_done q" using old(2) by auto
    moreover have "c \<noteq> Cv_End" using assms(2) calculation by (simp add: s cv_joined_def)
    ultimately show ?thesis unfolding s using old(3)
      by (cases "c = Cv_Waiting"; intro cv_advance [of 1]) (auto simp: cv_weight_def)
  qed
qed

interpretation guarded_queue: ends_from "\<lambda>s. s = cv_init" "par_step (cv_local n)" "cv_inv n" "cv_left n" cv_joined for n
  by unfold_locales (simp add: cv_inv_init, erule (1) cv_step_inv, erule (1) cv_progress)

section \<open>Await\<close>

text \<open>A thread that sets the value under the mutex, and one whose \<open>Await\<close> goes on when the value is not zero.\<close>

datatype await_thread = Setter | Awaiting | Await_End

fun await_local :: "unit \<Rightarrow> nat \<Rightarrow> int \<times> console \<Rightarrow> await_thread \<Rightarrow> ((int \<times> console) \<times> await_thread) option" where
  "await_local c i (v, out) Setter = Some ((42, out), Await_End)"
| "await_local c i (v, out) Awaiting =
     (if v \<noteq> 0 then Some ((v, out @ [''await got value: '' @ dec_int v]), Await_End) else None)"
| "await_local c i (v, out) Await_End = None"

definition await_states :: "((int \<times> console) \<times> await_thread list) set" where
  "await_states = {((0, []), [Setter, Awaiting]), ((42, []), [Await_End, Awaiting]),
     ((42, [''await got value: 42'']), [Await_End, Await_End])}"

lemma await_line: "''await got value: '' @ dec_int 42 = ''await got value: 42''"
  by code_simp

lemma await_reachable:
  assumes "(par_step await_local)\<^sup>*\<^sup>* ((0, []), [Setter, Awaiting]) s"
  shows "s \<in> await_states"
  using assms
proof (induction rule: rtranclp_induct)
  case base
  show ?case by (simp add: await_states_def)
next
  case (step s t)
  show ?case
    using step.hyps(2) step.IH await_line
    by (auto simp: await_states_def elim!: par_stepE split: if_splits) (auto simp: less_Suc_eq nth_Cons' split: if_splits)
qed

section \<open>Properties\<close>

text \<open>
  C36: Values handed over are neither lost nor invented.  For a queue that publishes with release and looks with acquire order, a consumer that reads \<open>done\<close> with acquire order (or stronger) and
  then asks for emptiness leaves only after it has taken all \<open>n\<close> values, and from every reachable state it can get
  there; with the relaxed load of the folly program there is a run in which it leaves with nothing.  The guarded queue prints every
  value once, in batches that come out backwards, and can always be finished; \<open>Await\<close> prints 42 and nothing else.
\<close>

theorem handoff_complete:
  assumes publishes: "wo = Release" "qo = Acquire"
    and "(ho_step wo qo again Acquire n)\<^sup>*\<^sup>* ho_init s" and "(par_step (cv_local n))\<^sup>*\<^sup>* cv_init q"
    and "(par_step await_local)\<^sup>*\<^sup>* ((0, []), [Setter, Awaiting]) a"
  shows "(ho_at s = Ho_End \<longrightarrow> taken s = n \<and> ho_sum s = (\<Sum>k<n. int k)) \<and>
    (\<exists>t. (ho_step wo qo again Acquire n)\<^sup>*\<^sup>* s t \<and> ho_at t = Ho_End \<and> closed t) \<and>
    (\<exists>t. (ho_step wo qo again Relaxed n)\<^sup>*\<^sup>* ho_init t \<and> ho_at t = Ho_End \<and> closed t \<and> ho_sum t = 0) \<and>
    (cv_joined q \<longrightarrow> batches_of [0..<n] (cv_out (fst q)) \<and> mset (cv_out (fst q)) = mset [0..<n]) \<and>
    (\<exists>t. (par_step (cv_local n))\<^sup>*\<^sup>* q t \<and> cv_joined t) \<and>
    (snd a = [Await_End, Await_End] \<longrightarrow> snd (fst a) = [''await got value: 42''])"
proof -
  have ho: "ho_inv n s" using acquiring.reachable_inv [OF refl assms(3) [unfolded publishes]] .
  have cv: "cv_inv n q" using guarded_queue.reachable_inv [OF refl assms(4)] .
  have "ho_at s = Ho_End \<longrightarrow> taken s = n \<and> ho_sum s = (\<Sum>k<n. int k)" using ho by (auto simp: ho_inv_def ho_base_def)
  moreover have "\<exists>t. (ho_step wo qo again Acquire n)\<^sup>*\<^sup>* s t \<and> ho_at t = Ho_End \<and> closed t" unfolding publishes by (rule acquiring.finishes [OF ho])
  moreover have "cv_joined q \<longrightarrow> batches_of [0..<n] (cv_out (fst q))" using cv by (cases q) (auto simp: cv_inv_def cv_joined_def)
  moreover have "\<exists>t. (par_step (cv_local n))\<^sup>*\<^sup>* q t \<and> cv_joined t" by (rule guarded_queue.finishes [OF cv])
  moreover have "snd a = [Await_End, Await_End] \<longrightarrow> snd (fst a) = [''await got value: 42'']"
    using await_reachable [OF assms(5)] by (auto simp: await_states_def)
  ultimately show ?thesis using relaxed_loses [of again n] batches_perm unfolding publishes by blast
qed

theorem handoff_complete_witness:
  "(\<exists>t. (ho_step Release Acquire False Acquire 20)\<^sup>*\<^sup>* ho_init t \<and> ho_at t = Ho_End \<and> closed t) \<and>
   (\<exists>t. (ho_step Release Acquire False Relaxed 20)\<^sup>*\<^sup>* ho_init t \<and> ho_at t = Ho_End \<and> closed t \<and> ho_sum t = 0) \<and> (\<Sum>k<20. int k) = 190 \<and>
   par_run (cv_local 3) [((), 0), ((), 0), ((), 1), ((), 0), ((), 0), ((), 1)] cv_init =
     Some (\<lparr>cv_items = [], cv_done = True, cv_out = [1, 0, 2]\<rparr>, [Cv_End, Cv_End])"
proof -
  have "(\<Sum>k<20. int k) = 190" by code_simp
  moreover have "par_run (cv_local 3) [((), 0), ((), 0), ((), 1), ((), 0), ((), 0), ((), 1)] cv_init =
     Some (\<lparr>cv_items = [], cv_done = True, cv_out = [1, 0, 2]\<rparr>, [Cv_End, Cv_End])" by code_simp
  ultimately show ?thesis
    using handoff_complete [of Release Acquire False 20 ho_init cv_init "((0, []), [Setter, Awaiting])"] by simp
qed

end
