(* ===== verification/Mpmc_Queue.thy ===== *)
theory Mpmc_Queue
  imports Spsc_Queue
begin

text \<open>
  Several producers and consumers on one bounded queue: \<open>demo_mpmc\<close> of \<^verbatim>\<open>libraries/folly/03_queues.cpp\<close> and \<open>demo_mpmc_queue\<close> of
  \<^verbatim>\<open>libraries/boost/07_lockfree.cpp\<close>.  The queue is known by its documentation: first in, first out, each call atomic; a blocking write
  waits for room, a failed push is tried again, \<open>tryRead\<close> fails on an empty queue.
\<close>

section \<open>The threads\<close>

record 'q mpmc =
  mq_queue :: 'q
  mq_log :: "int list"
  mq_total :: nat

text \<open>\<open>Put k\<close> has written \<open>k\<close> values.  A consumer checks the total, asks whether the queue is empty, tries to read, and adds one to the total.\<close>

datatype mq_thread = Put nat | Get_Check | Get_Ask | Get_Try | Get_Took | Get_End

text \<open>
  The operations of the queue are arguments: \<open>push\<close> and \<open>pop\<close> return whether they succeeded, \<open>emp\<close> is the test of the consumers'
  first branch, as the comment there describes it.  A producer whose push fails is where it was: the blocking write waits, the loop tries again.
  Producer \<open>t\<close> writes \<open>t * 100 + k\<close> for \<open>k < each\<close>; the consumers stop at \<open>goal\<close>.
\<close>

fun mq_local :: "(int \<Rightarrow> 'q \<Rightarrow> bool \<times> 'q) \<Rightarrow> ('q \<Rightarrow> int option \<times> 'q) \<Rightarrow> ('q \<Rightarrow> bool) \<Rightarrow> nat \<Rightarrow> nat \<Rightarrow> unit \<Rightarrow> nat \<Rightarrow>
    'q mpmc \<Rightarrow> mq_thread \<Rightarrow> ('q mpmc \<times> mq_thread) option" where
  "mq_local push pop emp each goal c t q (Put k) =
     (if k < each
      then case push (int (t * 100 + k)) (mq_queue q) of (True, q') \<Rightarrow> Some (q\<lparr>mq_queue := q'\<rparr>, Put (Suc k)) | (False, _) \<Rightarrow> None
      else None)"
| "mq_local push pop emp each goal c t q Get_Check = Some (q, if mq_total q < goal then Get_Ask else Get_End)"
| "mq_local push pop emp each goal c t q Get_Ask = Some (q, if emp (mq_queue q) then Get_Check else Get_Try)"
| "mq_local push pop emp each goal c t q Get_Try =
     Some (case pop (mq_queue q) of (None, q') \<Rightarrow> (q\<lparr>mq_queue := q'\<rparr>, Get_Check)
       | (Some x, q') \<Rightarrow> (q\<lparr>mq_queue := q', mq_log := mq_log q @ [x]\<rparr>, Get_Took))"
| "mq_local push pop emp each goal c t q Get_Took = Some (q\<lparr>mq_total := Suc (mq_total q)\<rparr>, Get_Check)"
| "mq_local push pop emp each goal c t q Get_End = None"

definition mq_init :: "'q \<Rightarrow> nat \<Rightarrow> nat \<Rightarrow> 'q mpmc \<times> mq_thread list" where
  "mq_init new producers consumers = (\<lparr>mq_queue = new, mq_log = [], mq_total = 0\<rparr>, replicate producers (Put 0) @ replicate consumers Get_Check)"

definition mq_joined :: "nat \<Rightarrow> 'q mpmc \<times> mq_thread list \<Rightarrow> bool" where
  "mq_joined each s \<longleftrightarrow> set (snd s) \<subseteq> {Put each, Get_End}"

text \<open>The end of \<open>demo_mpmc_queue\<close>: \<open>visits\<close> is the order in which \<open>consume_all\<close> calls its argument, which counts.\<close>

definition consume_all_count :: "('q \<Rightarrow> int list) \<Rightarrow> 'q mpmc \<Rightarrow> nat" where
  "consume_all_count visits q = foldl (\<lambda>n _. Suc n) 0 (visits (mq_queue q))"

text \<open>\<open>demo_stack\<close>, on any stack.\<close>

definition demo_stack :: "(int \<Rightarrow> 's \<Rightarrow> 's) \<Rightarrow> ('s \<Rightarrow> int list) \<Rightarrow> 's \<Rightarrow> string" where
  "demo_stack push visits new =
     ''stack (LIFO): '' @ concat (map (\<lambda>v. dec_int v @ '' '') (visits (foldl (\<lambda>s i. push i s) new [1, 2, 3, 4, 5])))"

section \<open>The same threads on a list\<close>

fun mq_spec :: "nat \<Rightarrow> nat \<Rightarrow> nat \<Rightarrow> unit \<Rightarrow> nat \<Rightarrow> int list mpmc \<Rightarrow> mq_thread \<Rightarrow> (int list mpmc \<times> mq_thread) option" where
  "mq_spec cap each goal c t q (Put k) =
     (if k < each \<and> length (mq_queue q) < cap then Some (q\<lparr>mq_queue := mq_queue q @ [int (t * 100 + k)]\<rparr>, Put (Suc k)) else None)"
| "mq_spec cap each goal c t q Get_Check = Some (q, if mq_total q < goal then Get_Ask else Get_End)"
| "mq_spec cap each goal c t q Get_Ask = Some (q, if mq_queue q = [] then Get_Check else Get_Try)"
| "mq_spec cap each goal c t q Get_Try =
     Some (case mq_queue q of [] \<Rightarrow> (q, Get_Check) | x # xs \<Rightarrow> (q\<lparr>mq_queue := xs, mq_log := mq_log q @ [x]\<rparr>, Get_Took))"
| "mq_spec cap each goal c t q Get_Took = Some (q\<lparr>mq_total := Suc (mq_total q)\<rparr>, Get_Check)"
| "mq_spec cap each goal c t q Get_End = None"

definition mq_abs :: "('q \<Rightarrow> int list) \<Rightarrow> 'q mpmc \<Rightarrow> int list mpmc" where
  "mq_abs items q = \<lparr>mq_queue = items (mq_queue q), mq_log = mq_log q, mq_total = mq_total q\<rparr>"

lemma mq_abs_sel [simp]:
  "mq_queue (mq_abs items q) = items (mq_queue q)" "mq_log (mq_abs items q) = mq_log q" "mq_total (mq_abs items q) = mq_total q"
  by (simp_all add: mq_abs_def)

lemma mq_joined_abs [simp]: "mq_joined each (map_prod f id s) = mq_joined each s"
  by (simp add: mq_joined_def)

text \<open>What the library promises: a bounded first-in, first-out queue, with a test for emptiness.\<close>

locale mpmc_queue = bounded_fifo push pop items wf room
  for push :: "int \<Rightarrow> 'q \<Rightarrow> bool \<times> 'q" and pop :: "'q \<Rightarrow> int option \<times> 'q" and items :: "'q \<Rightarrow> int list" and wf :: "'q \<Rightarrow> bool" and room :: nat +
  fixes emp :: "'q \<Rightarrow> bool"
  assumes emp_iff: "wf q \<Longrightarrow> emp q \<longleftrightarrow> items q = []"
begin

lemma push_cases:
  "wf q \<Longrightarrow> (case push v q of (True, q') \<Rightarrow> length (items q) < room \<and> items q' = items q @ [v] \<and> wf q' | (False, _) \<Rightarrow> \<not> length (items q) < room)"
  using push_room [of q v] push_full [of q v] wf_push [of q v] by (cases "length (items q) < room") (auto split: prod.splits bool.splits)

lemma pop_cases:
  "wf q \<Longrightarrow> (case pop q of (Some x, q') \<Rightarrow> items q = x # items q' \<and> wf q' | (None, q') \<Rightarrow> items q = [] \<and> q' = q)"
  using pop_item [of q] pop_none [of q] wf_pop [of q] by (cases "items q") (auto split: prod.splits option.splits)

sublocale threads: thread_refinement "mq_local push pop emp each goal" "mq_spec room each goal" "mq_abs items" "\<lambda>q. wf (mq_queue q)" for each goal
proof (unfold_locales, goal_cases)
  case (1 q c t l)
  then show ?case
    using push_cases [of "mq_queue q" "int (t * 100 + (case l of Put k \<Rightarrow> k | _ \<Rightarrow> 0))"] pop_cases [of "mq_queue q"] emp_iff [of "mq_queue q"]
    by (cases l) (auto simp: mq_abs_def split: prod.splits bool.splits option.splits)
next
  case (2 q c t l q' l')
  then show ?case
    using push_cases [of "mq_queue q" "int (t * 100 + (case l of Put k \<Rightarrow> k | _ \<Rightarrow> 0))"] pop_cases [of "mq_queue q"]
    by (cases l) (auto split: prod.splits bool.splits option.splits if_splits)
qed

end

text \<open>The ring of \<^verbatim>\<open>performance/08_lockfree.cpp\<close> keeps the promise, each call taken as one step.\<close>

lemma spsc_empty_items: "spsc_wf 1024 q \<Longrightarrow> spsc_empty q \<longleftrightarrow> spsc_items 1024 q = []"
  using try_pop_item [OF capacity_ok_1024, of q] try_pop_none [OF capacity_ok_1024, of q]
  by (cases "spsc_items 1024 q") (auto simp: spsc_empty_def try_pop_def Let_def split: if_splits)

interpretation ring_mpmc: mpmc_queue "try_push 1024" "try_pop 1024" "spsc_items 1024" "spsc_wf 1024" "unat (1024 :: size_t) - 1" spsc_empty
  by unfold_locales (rule spsc_empty_items)

section \<open>Invariant\<close>

definition put_left :: "nat \<Rightarrow> mq_thread \<Rightarrow> nat" where
  "put_left each l = (case l of Put k \<Rightarrow> each - k | _ \<Rightarrow> 0)"

definition taking :: "mq_thread \<Rightarrow> nat" where
  "taking l = (if l = Get_Took then 1 else 0)"

definition put_values :: "nat \<Rightarrow> nat \<Rightarrow> int list" where
  "put_values t k = map (\<lambda>j. int (t * 100 + j)) [0..<k]"

definition mq_inv :: "nat \<Rightarrow> nat \<Rightarrow> nat \<Rightarrow> nat \<Rightarrow> int list mpmc \<times> mq_thread list \<Rightarrow> bool" where
  "mq_inv cap each P C = (\<lambda>(q, ls).
     length ls = P + C \<and> length (mq_queue q) \<le> cap \<and>
     (\<forall>t<P. \<exists>k\<le>each. ls ! t = Put k \<and> filter (\<lambda>x. x div 100 = int t) (mq_log q @ mq_queue q) = put_values t k) \<and>
     (\<forall>t<P + C. P \<le> t \<longrightarrow> (\<forall>k. ls ! t \<noteq> Put k)) \<and>
     mq_total q + sum_list (map taking ls) + length (mq_queue q) + sum_list (map (put_left each) ls) = P * each \<and>
     mq_total q + sum_list (map taking ls) = length (mq_log q) \<and>
     (Get_End \<in> set ls \<longrightarrow> mq_total q = P * each) \<and> (C = 0 \<longrightarrow> mq_log q = []))"

lemma mq_inv_init: "mq_inv cap each P C (mq_init [] P C)"
  by (auto simp: mq_inv_def mq_init_def nth_append put_values_def taking_def put_left_def sum_list_replicate)

lemma taking_pos: "t < length ls \<Longrightarrow> ls ! t = Get_Took \<Longrightarrow> 0 < sum_list (map taking ls)"
  using sum_list_map_update [of t ls taking Get_Check] by (simp add: taking_def)

lemma put_left_pos:
  assumes "0 < sum_list (map (put_left each) ls)"
  obtains t k where "t < length ls" "ls ! t = Put k" "k < each"
proof -
  have "\<exists>l\<in>set ls. put_left each l \<noteq> 0" using assms sum_list_map_zero [of ls "put_left each"] by (metis less_irrefl)
  then obtain t where "t < length ls" "put_left each (ls ! t) \<noteq> 0" by (auto simp: in_set_conv_nth)
  then show ?thesis using that by (cases "ls ! t") (auto simp: put_left_def)
qed

lemma mq_step_inv:
  assumes inv: "mq_inv cap each P C s" and st: "par_step (mq_spec cap each (P * each)) s s'" and each: "each \<le> 100"
  shows "mq_inv cap each P C s'"
proof -
  obtain q ls where s: "s = (q, ls)" by (cases s)
  obtain t c q' l where t: "t < length ls" and loc: "mq_spec cap each (P * each) c t q (ls ! t) = Some (q', l)" and s': "s' = (q', ls[t := l])"
    using st unfolding s by (elim par_stepE)
  have old: "length ls = P + C" "length (mq_queue q) \<le> cap"
    "\<forall>t<P. \<exists>k\<le>each. ls ! t = Put k \<and> filter (\<lambda>x. x div 100 = int t) (mq_log q @ mq_queue q) = put_values t k"
    "\<forall>t<P + C. P \<le> t \<longrightarrow> (\<forall>k. ls ! t \<noteq> Put k)"
    "mq_total q + sum_list (map taking ls) + length (mq_queue q) + sum_list (map (put_left each) ls) = P * each"
    "mq_total q + sum_list (map taking ls) = length (mq_log q)" "Get_End \<in> set ls \<longrightarrow> mq_total q = P * each"
    "C = 0 \<longrightarrow> mq_log q = []"
    using inv by (auto simp: s mq_inv_def)
  note upd = sum_list_map_update [OF t, of taking] sum_list_map_update [OF t, of "put_left each"]
  have ends: "Get_End \<in> set (ls[t := l]) \<Longrightarrow> l = Get_End \<or> Get_End \<in> set ls"
    using set_update_subset_insert [of ls t l] by blast
  show ?thesis
  proof (cases "t < P")
    case True
    then obtain k where k: "ls ! t = Put k" "filter (\<lambda>x. x div 100 = int t) (mq_log q @ mq_queue q) = put_values t k" using old(3) by blast
    then have new: "k < each" "length (mq_queue q) < cap" "q' = q\<lparr>mq_queue := mq_queue q @ [int (t * 100 + k)]\<rparr>" "l = Put (Suc k)"
      using loc by (auto split: if_splits)
    have dv: "int (t * 100 + k) div 100 = int t" using new(1) each by simp
    have puts: "\<exists>k'\<le>each. ls[t := l] ! u = Put k' \<and> filter (\<lambda>x. x div 100 = int u) (mq_log q' @ mq_queue q') = put_values u k'" if "u < P" for u
      using old(3) [rule_format, OF that] k new dv t by (cases "u = t") (auto simp: put_values_def)
    have gets: "\<forall>u<P + C. P \<le> u \<longrightarrow> (\<forall>k. ls[t := l] ! u \<noteq> Put k)" using old(4) True by (auto simp: nth_list_update)
    have took: "sum_list (map taking (ls[t := l])) = sum_list (map taking ls)" using upd(1) [of l] k(1) new(4) by (simp add: taking_def)
    have left: "sum_list (map (put_left each) (ls[t := l])) + 1 = sum_list (map (put_left each) ls)"
      using upd(2) [of l] k(1) new(1, 4) by (simp add: put_left_def)
    have "Get_End \<in> set (ls[t := l]) \<longrightarrow> mq_total q = P * each" using ends old(7) new(4) by blast
    then show ?thesis
      unfolding s' mq_inv_def prod.case using old(1, 2, 5, 6, 8) new(2) puts gets took left by (simp add: new(3))
  next
    case False
    then have other: "\<And>k. ls ! t \<noteq> Put k" using old(1, 4) t by auto
    have kept: "mq_log q' @ mq_queue q' = mq_log q @ mq_queue q" and get: "\<And>k. l \<noteq> Put k"
      and less: "length (mq_queue q') \<le> length (mq_queue q)"
      using loc other by (cases "ls ! t"; auto split: list.splits if_splits)+
    have sums: "mq_total q' + taking l + length (mq_queue q') = mq_total q + taking (ls ! t) + length (mq_queue q)"
      "mq_total q' + taking l + length (mq_log q) = mq_total q + taking (ls ! t) + length (mq_log q')"
      using loc other by (cases "ls ! t"; auto simp: taking_def split: list.splits if_splits)+
    have "put_left each l = 0" "put_left each (ls ! t) = 0" using get other by (auto simp: put_left_def split: mq_thread.split)
    then have left: "sum_list (map (put_left each) (ls[t := l])) = sum_list (map (put_left each) ls)" using upd(2) [of l] by simp
    have fin: "mq_total q' = P * each" if "Get_End \<in> set (ls[t := l])"
    proof (cases "ls ! t = Get_Took")
      case True
      then have "mq_total q < P * each" using old(5) taking_pos [OF t] by linarith
      moreover have "l = Get_Check" using True loc by simp
      ultimately show ?thesis using ends [OF that] old(7) by auto
    next
      case False
      then show ?thesis using ends [OF that] old(5, 7) loc other by (cases "ls ! t") (auto split: list.splits if_splits)
    qed
    have puts: "\<forall>u<P. \<exists>k'\<le>each. ls[t := l] ! u = Put k' \<and> filter (\<lambda>x. x div 100 = int u) (mq_log q' @ mq_queue q') = put_values u k'"
      using old(3) False unfolding kept by (metis nth_list_update_neq)
    have gets: "\<forall>u<P + C. P \<le> u \<longrightarrow> (\<forall>k. ls[t := l] ! u \<noteq> Put k)" using old(4) get t by (auto simp: nth_list_update)
    have "mq_total q' + sum_list (map taking (ls[t := l])) + length (mq_queue q') + sum_list (map (put_left each) (ls[t := l])) = P * each"
      "mq_total q' + sum_list (map taking (ls[t := l])) = length (mq_log q')" "length (mq_queue q') \<le> cap" "length (ls[t := l]) = P + C"
      using old(1, 2, 5, 6) less sums upd(1) [of l] left by simp_all
    moreover have "C \<noteq> 0" using False t old(1) by simp
    ultimately show ?thesis unfolding s' mq_inv_def prod.case using fin puts gets by blast
  qed
qed

section \<open>The end can always be reached\<close>

text \<open>
  A consumer that finds the queue empty goes back to its check, so not every step comes closer to the end; but one that does
  is always there.  The weight of a consumer depends on whether the total has been reached.
\<close>

definition get_weight :: "bool \<Rightarrow> mq_thread \<Rightarrow> nat" where
  "get_weight all l = (case l of Put k \<Rightarrow> 0 | Get_Check \<Rightarrow> 3 | Get_Ask \<Rightarrow> if all then 4 else 2 | Get_Try \<Rightarrow> if all then 4 else 1
     | Get_Took \<Rightarrow> 4 | Get_End \<Rightarrow> 0)"

definition mq_left :: "nat \<Rightarrow> nat \<Rightarrow> int list mpmc \<times> mq_thread list \<Rightarrow> nat" where
  "mq_left each goal s =
     8 * sum_list (map (put_left each) (snd s)) + 4 * length (mq_queue (fst s)) + 5 * length (snd s) * (goal - mq_total (fst s)) +
     sum_list (map (get_weight (goal \<le> mq_total (fst s))) (snd s))"

lemma get_weight_le: "get_weight b l \<le> 4"
  by (cases l) (auto simp: get_weight_def)

lemma sum_get_weight_le: "sum_list (map (get_weight b) ls) \<le> 4 * length ls"
  by (induction ls) (use get_weight_le in \<open>auto simp: add_mono\<close>)

text \<open>A step of thread \<open>t\<close> that leaves the total alone is judged by what it changes.\<close>

lemma mq_advance:
  assumes t: "t < length ls" and loc: "mq_spec cap each goal () t q (ls ! t) = Some (q', l)" and same: "mq_total q' = mq_total q"
    and less: "8 * put_left each l + 4 * length (mq_queue q') + get_weight (goal \<le> mq_total q) l
      < 8 * put_left each (ls ! t) + 4 * length (mq_queue q) + get_weight (goal \<le> mq_total q) (ls ! t)"
  shows "\<exists>s'. par_step (mq_spec cap each goal) (q, ls) s' \<and> mq_left each goal s' < mq_left each goal (q, ls)"
proof -
  have "mq_left each goal (q', ls[t := l]) < mq_left each goal (q, ls)"
    using sum_list_map_update [OF t, of "put_left each" l] sum_list_map_update [OF t, of "get_weight (goal \<le> mq_total q)" l] less same
    by (simp add: mq_left_def)
  then show ?thesis using par_stepI [of t ls "mq_spec cap each goal" "()" q q' l] t loc by blast
qed

lemma mq_advance_took:
  assumes t: "t < length ls" and took: "ls ! t = Get_Took" and more: "mq_total q < goal"
  shows "\<exists>s'. par_step (mq_spec cap each goal) (q, ls) s' \<and> mq_left each goal s' < mq_left each goal (q, ls)"
proof -
  let ?q = "q\<lparr>mq_total := Suc (mq_total q)\<rparr>" and ?ls = "ls[t := Get_Check]"
  have "sum_list (map (put_left each) ?ls) = sum_list (map (put_left each) ls)"
    using sum_list_map_update [OF t, of "put_left each" Get_Check] took by (simp add: put_left_def)
  moreover have "sum_list (map (get_weight (goal \<le> Suc (mq_total q))) ?ls) \<le> 4 * length ls" using sum_get_weight_le [of _ ?ls] by simp
  moreover obtain d where d: "goal - mq_total q = Suc d" "goal - Suc (mq_total q) = d" using more by (metis Suc_diff_Suc)
  moreover have "0 < length ls" using t by linarith
  ultimately have "sum_list (map (get_weight (goal \<le> Suc (mq_total q))) ?ls) < 5 * length ls + sum_list (map (get_weight (goal \<le> mq_total q)) ls)"
    by linarith
  then have "mq_left each goal (?q, ?ls) < mq_left each goal (q, ls)" using \<open>sum_list (map (put_left each) ?ls) = _\<close> d by (simp add: mq_left_def)
  then show ?thesis using par_stepI [of t ls "mq_spec cap each goal" "()" q ?q Get_Check] t took by auto
qed

lemma mq_progress:
  assumes inv: "mq_inv cap each P C s" and "\<not> mq_joined each s" and room: "0 < cap" "0 < C \<or> P * each \<le> cap"
  shows "\<exists>s'. par_step (mq_spec cap each (P * each)) s s' \<and> mq_left each (P * each) s' < mq_left each (P * each) s"
proof -
  obtain q ls where s: "s = (q, ls)" by (cases s)
  have old: "length ls = P + C" "\<forall>t<P. \<exists>k\<le>each. ls ! t = Put k" "\<forall>t<P + C. P \<le> t \<longrightarrow> (\<forall>k. ls ! t \<noteq> Put k)"
    "mq_total q + sum_list (map taking ls) + length (mq_queue q) + sum_list (map (put_left each) ls) = P * each"
    "Get_End \<in> set ls \<longrightarrow> mq_total q = P * each"
    using inv by (auto simp: s mq_inv_def)
  have full: "mq_queue q \<noteq> [] \<Longrightarrow> mq_total q < P * each" using old(4) by (cases "mq_queue q") auto
  consider (took) t where "t < length ls" "ls ! t = Get_Took"
    | (check) t where "t < length ls" "ls ! t = Get_Check"
    | (ask) t where "t < length ls" "ls ! t = Get_Ask \<or> ls ! t = Get_Try" "mq_queue q \<noteq> [] \<or> P * each \<le> mq_total q"
    | (put) t k where "t < length ls" "ls ! t = Put k" "k < each" "length (mq_queue q) < cap"
  proof (cases "\<exists>t<length ls. ls ! t \<in> {Get_Took, Get_Check, Get_Ask, Get_Try}")
    case True
    then obtain t where t: "t < length ls" "ls ! t \<in> {Get_Took, Get_Check, Get_Ask, Get_Try}" by blast
    show ?thesis
    proof (cases "\<exists>u<length ls. ls ! u = Get_Took")
      case no_took: False
      then have none: "sum_list (map taking ls) = 0" by (intro sum_list_map_zero) (auto simp: taking_def in_set_conv_nth)
      have "mq_queue q = [] \<Longrightarrow> mq_total q < P * each \<Longrightarrow> 0 < sum_list (map (put_left each) ls)" using old(4) unfolding none by simp
      then show ?thesis using t no_took that room(1) put_left_pos [of each ls] by (cases "mq_queue q = []"; cases "P * each \<le> mq_total q") auto
    qed (use that in blast)
  next
    case False
    then have gets: "t < length ls \<Longrightarrow> P \<le> t \<Longrightarrow> ls ! t = Get_End" for t using old(1, 3) by (cases "ls ! t") auto
    obtain t where t: "t < length ls" "ls ! t \<noteq> Put each" "ls ! t \<noteq> Get_End"
      using assms(2) by (auto simp: s mq_joined_def subset_iff in_set_conv_nth)
    then have "t < P" using gets not_le by blast
    then obtain k where k: "ls ! t = Put k" "k < each" using old(2) t by (metis le_neq_implies_less)
    have "0 < sum_list (map (put_left each) ls)" using sum_list_map_update [OF t(1), of "put_left each" Get_End] k by (simp add: put_left_def)
    then have "mq_total q + length (mq_queue q) < P * each" using old(4) by linarith
    moreover have "C = 0"
    proof (rule ccontr)
      assume "C \<noteq> 0"
      then have "ls ! P = Get_End" "P < length ls" using gets old(1) by auto
      then show False using old(5) calculation by (metis add_lessD1 nat_neq_iff nth_mem)
    qed
    ultimately show ?thesis using that(4) [OF t(1) k] room(2) by simp
  qed
  then show ?thesis
  proof cases
    case took
    have "mq_total q < P * each" using old(4) taking_pos [OF took] by linarith
    then show ?thesis unfolding s by (rule mq_advance_took [OF took])
  next
    case check
    then show ?thesis unfolding s by (intro mq_advance [of t]) (auto simp: put_left_def get_weight_def)
  next
    case ask
    show ?thesis
    proof (cases "mq_queue q")
      case Nil
      then show ?thesis unfolding s using ask by (intro mq_advance [of t _ _ _ _ _ q Get_Check]) (auto simp: put_left_def get_weight_def)
    next
      case (Cons x xs)
      then have "mq_total q < P * each" using full by simp
      then show ?thesis unfolding s using ask Cons
          mq_advance [where t = t and q' = q and l = Get_Try]
          mq_advance [where t = t and q' = "q\<lparr>mq_queue := xs, mq_log := mq_log q @ [x]\<rparr>" and l = Get_Took]
        by (cases "ls ! t = Get_Ask") (auto simp: put_left_def get_weight_def)
    qed
  next
    case put
    then show ?thesis unfolding s
      using mq_advance [where t = t and q' = "q\<lparr>mq_queue := mq_queue q @ [int (t * 100 + k)]\<rparr>" and l = "Put (Suc k)"]
      by (auto simp: put_left_def get_weight_def)
  qed
qed

text \<open>The invariant with what the program's constants guarantee.\<close>

definition mq_sound :: "nat \<Rightarrow> nat \<Rightarrow> nat \<Rightarrow> nat \<Rightarrow> int list mpmc \<times> mq_thread list \<Rightarrow> bool" where
  "mq_sound cap each P C s \<longleftrightarrow> mq_inv cap each P C s \<and> each \<le> 100 \<and> 0 < cap \<and> (0 < C \<or> P * each \<le> cap)"

interpretation shared_queue: ends_from "mq_sound cap each P C" "par_step (mq_spec cap each (P * each))" "mq_sound cap each P C"
  "mq_left each (P * each)" "mq_joined each" for cap each P C
  unfolding mq_sound_def by unfold_locales (assumption, blast intro: mq_step_inv, blast intro: mq_progress)

lemma mq_end:
  assumes inv: "mq_inv cap each P C (q, ls)" and "mq_joined each (q, ls)"
  shows "\<forall>t<P. filter (\<lambda>x. x div 100 = int t) (mq_log q @ mq_queue q) = put_values t each"
    and "mq_total q = length (mq_log q)" and "length (mq_log q) + length (mq_queue q) = P * each" and "0 < C \<Longrightarrow> mq_queue q = []"
proof -
  have none: "sum_list (map taking ls) = 0" "sum_list (map (put_left each) ls) = 0"
    using assms(2) by (auto simp: mq_joined_def taking_def put_left_def intro!: sum_list_map_zero)
  have sums: "mq_total q + sum_list (map taking ls) + length (mq_queue q) + sum_list (map (put_left each) ls) = P * each"
    "mq_total q + sum_list (map taking ls) = length (mq_log q)" "length ls = P + C"
    "\<forall>t<P + C. P \<le> t \<longrightarrow> (\<forall>k. ls ! t \<noteq> Put k)" "Get_End \<in> set ls \<longrightarrow> mq_total q = P * each"
    using inv by (auto simp: mq_inv_def)
  show total: "mq_total q = length (mq_log q)" and all: "length (mq_log q) + length (mq_queue q) = P * each"
    using sums(1, 2) unfolding none by simp_all
  have puts: "ls ! t = Put each" if "t < P" for t
  proof -
    have "\<exists>k. ls ! t = Put k" using inv that by (auto simp: mq_inv_def)
    then obtain k where "ls ! t = Put k" ..
    moreover have "ls ! t \<in> {Put each, Get_End}" using assms(2) sums(3) that by (auto simp: mq_joined_def subset_iff)
    ultimately show ?thesis by auto
  qed
  show "\<forall>t<P. filter (\<lambda>x. x div 100 = int t) (mq_log q @ mq_queue q) = put_values t each"
  proof (intro allI impI)
    fix t assume t: "t < P"
    obtain k where "ls ! t = Put k" "filter (\<lambda>x. x div 100 = int t) (mq_log q @ mq_queue q) = put_values t k"
      using inv t unfolding mq_inv_def prod.case by blast
    then show "filter (\<lambda>x. x div 100 = int t) (mq_log q @ mq_queue q) = put_values t each" using puts [OF t] by simp
  qed
  show "mq_queue q = []" if "0 < C"
  proof -
    have "P < length ls" using sums(3) that by simp
    moreover have "ls ! P \<noteq> Put each" using sums(4) that by simp
    moreover have "ls ! P \<in> {Put each, Get_End}" using assms(2) \<open>P < length ls\<close> by (auto simp: mq_joined_def subset_iff)
    ultimately have "Get_End \<in> set ls" using nth_mem [of P ls] by (metis insertE singletonD)
    then show ?thesis using sums(5) total all by simp
  qed
qed

lemma consume_all_length: "consume_all_count visits q = length (visits (mq_queue q))"
proof -
  have "foldl (\<lambda>n _. Suc n) m xs = m + length xs" for m and xs :: "int list" by (induction xs arbitrary: m) simp_all
  then show ?thesis by (simp add: consume_all_count_def)
qed

text \<open>With the operations of the library.\<close>

context mpmc_queue
begin

lemma library_sound:
  assumes run: "(par_step (mq_local push pop emp each (P * each)))\<^sup>*\<^sup>* (mq_init q0 P C) s" and new: "wf q0" "items q0 = []"
    and each: "each \<le> 100" "0 < room" "0 < C \<or> P * each \<le> room"
  shows "mq_sound room each P C (map_prod (mq_abs items) id s)" and "wf (mq_queue (fst s))"
proof -
  have init: "map_prod (mq_abs items) id (mq_init q0 P C) = mq_init [] P C" using new(2) by (simp add: mq_init_def mq_abs_def)
  have start: "wf (mq_queue (fst (mq_init q0 P C)))" using new(1) by (simp add: mq_init_def)
  show "wf (mq_queue (fst s))" using threads.run_refines [OF run start] by blast
  have "mq_sound room each P C (mq_init [] P C)" using mq_inv_init each by (simp add: mq_sound_def)
  then show "mq_sound room each P C (map_prod (mq_abs items) id s)"
    using threads.run_refines [OF run start] shared_queue.steps_inv unfolding init by blast
qed

lemma library_ends:
  assumes "mq_sound room each P C (map_prod (mq_abs items) id s)" and "wf (mq_queue (fst s))"
  shows "\<exists>t. (par_step (mq_local push pop emp each (P * each)))\<^sup>*\<^sup>* s t \<and> mq_joined each t"
  using shared_queue.finishes [OF assms(1)] threads.run_lifts [OF _ assms(2) refl] by (metis mq_joined_abs)

end

section \<open>Properties\<close>

text \<open>
  C37: Many producers and consumers on one first-in, first-out queue of any capacity.  When all threads have ended, every value has
  been read exactly once, the values of each producer in the order it wrote them, the total is the number of values and the queue is empty; and
  from every reachable state all threads can end, however full or empty the queue is.  Producers alone, when the queue has room for
  all values, can end too and leave exactly all of them to \<open>consume_all\<close>.  The stack is printed last value first.
\<close>

theorem mpmc_complete:
  assumes queue: "mpmc_queue push pop items good room emp" "good q0" "items q0 = []" "0 < room" and each: "each \<le> 100"
    and run: "(par_step (mq_local push pop emp each (P * each)))\<^sup>*\<^sup>* (mq_init q0 P C) s" "0 < C"
    and alone: "(par_step (mq_local push pop emp each (P * each)))\<^sup>*\<^sup>* (mq_init q0 P 0) b" "P * each \<le> room"
    and visits: "\<And>q. good q \<Longrightarrow> visits q = items q"
    and stack: "stacked new = []" "\<And>v s. stacked (spush v s) = v # stacked s"
  shows "(mq_joined each s \<longrightarrow> mq_total (fst s) = P * each \<and> items (mq_queue (fst s)) = [] \<and> length (mq_log (fst s)) = P * each \<and>
      (\<forall>t<P. filter (\<lambda>x. x div 100 = int t) (mq_log (fst s)) = put_values t each)) \<and>
    (\<exists>t. (par_step (mq_local push pop emp each (P * each)))\<^sup>*\<^sup>* s t \<and> mq_joined each t) \<and>
    (mq_joined each b \<longrightarrow> consume_all_count visits (fst b) = P * each) \<and>
    (\<exists>t. (par_step (mq_local push pop emp each (P * each)))\<^sup>*\<^sup>* b t \<and> mq_joined each t) \<and>
    demo_stack spush stacked new = ''stack (LIFO): 5 4 3 2 1 ''"
proof -
  note S = mpmc_queue.library_sound [OF queue(1) run(1) queue(2, 3) each queue(4)]
    and B = mpmc_queue.library_sound [OF queue(1) alone(1) queue(2, 3) each queue(4)]
  have inv: "mq_sound room each P C (map_prod (mq_abs items) id s)" "good (mq_queue (fst s))" using S run(2) by blast+
  have binv: "mq_sound room each P 0 (map_prod (mq_abs items) id b)" "good (mq_queue (fst b))" using B alone(2) by blast+
  have "demo_stack spush stacked new = ''stack (LIFO): '' @ concat (map (\<lambda>v. dec_int v @ '' '') [5, 4, 3, 2, 1])"
    by (simp add: demo_stack_def stack)
  also have "\<dots> = ''stack (LIFO): 5 4 3 2 1 ''" by code_simp
  finally have "demo_stack spush stacked new = ''stack (LIFO): 5 4 3 2 1 ''" .
  moreover have "consume_all_count visits (fst b) = P * each" if "mq_joined each b"
    using mq_end(3) [of room each P 0 "mq_abs items (fst b)" "snd b"] binv that visits
    by (cases b) (auto simp: mq_sound_def mq_inv_def consume_all_length mq_joined_def)
  moreover have "mq_total (fst s) = P * each \<and> items (mq_queue (fst s)) = [] \<and> length (mq_log (fst s)) = P * each \<and>
      (\<forall>t<P. filter (\<lambda>x. x div 100 = int t) (mq_log (fst s)) = put_values t each)" if "mq_joined each s"
  proof -
    have "mq_inv room each P C (mq_abs items (fst s), snd s)" "mq_joined each (mq_abs items (fst s), snd s)"
      using inv that by (cases s; simp add: mq_sound_def mq_joined_def)+
    from mq_end [OF this] run(2) show ?thesis by simp
  qed
  ultimately show ?thesis
    using mpmc_queue.library_ends [OF queue(1) inv] mpmc_queue.library_ends [OF queue(1) binv] by blast
qed

theorem mpmc_complete_witness:
  "(\<exists>t. (par_step (mq_local (try_push 1024) (try_pop 1024) spsc_empty 25 (4 * 25)))\<^sup>*\<^sup>* (mq_init (spsc_new 1024 0) 4 2) t \<and> mq_joined 25 t) \<and>
   demo_stack Cons id [] = ''stack (LIFO): 5 4 3 2 1 ''"
proof -
  have new: "spsc_wf 1024 (spsc_new 1024 (0 :: int))" "spsc_items 1024 (spsc_new 1024 (0 :: int)) = []"
    by (rule spsc_wf_new [OF capacity_ok_1024], rule spsc_items_new)
  show ?thesis
    using mpmc_complete [OF ring_mpmc.mpmc_queue_axioms new, where each = 25 and P = 4 and C = 2 and s = "mq_init (spsc_new 1024 0) 4 2"
        and b = "mq_init (spsc_new 1024 0) 4 0" and visits = "spsc_items 1024" and stacked = id and new = "[]" and spush = Cons]
    by simp
qed

end
