(* ===== verification/Asio_Echo.thy ===== *)
theory Asio_Echo
  imports Prelude "HOL-Library.Sublist"
begin

text \<open>
  The asynchronous echo servers: the chain of completion handlers of \<^verbatim>\<open>libraries/boost/06_asio_tcp.cpp\<close> (\<open>Session\<close>, \<open>Server\<close>) and the coroutines
  of \<^verbatim>\<open>coroutines/08_asio_coro.cpp\<close> (\<open>echo_session\<close>, \<open>acceptor_loop\<close>), with their clients, and the repeating timer of
  \<^verbatim>\<open>libraries/boost/05_asio_timers.cpp\<close>.  A session is what its handlers do with the results of operations; the results themselves are
  events, any that the documentation of the operation allows: \<open>async_read_some\<close> delivers at least one byte and at most what the buffer holds,
  \<open>async_write\<close> completes when all bytes are written, an error ends either.
\<close>

section \<open>Operations and their results\<close>

datatype io_op = Read_Some nat | Write_All string

datatype asio_result = Io_Done nat | Io_Error string

text \<open>The library has filled the front of the buffer before the handler runs.\<close>

definition fill :: "string \<Rightarrow> string \<Rightarrow> string" where
  "fill d b = d @ drop (length d) b"

section \<open>A session as a chain of handlers\<close>

text \<open>
  \<open>pending\<close> is the operation whose handler holds \<open>self\<close>, the only owner of the session between handlers: without one the
  session has been destroyed.
\<close>

record session =
  sbuf :: string
  pending :: "io_op option"

definition session_read :: "session \<Rightarrow> session" where
  "session_read s = s\<lparr>pending := Some (Read_Some (length (sbuf s)))\<rparr>"

definition session_write :: "nat \<Rightarrow> session \<Rightarrow> session" where
  "session_write n s = s\<lparr>pending := Some (Write_All (take n (sbuf s)))\<rparr>"

definition session_start :: "string \<Rightarrow> session" where
  "session_start b = session_read \<lparr>sbuf = b, pending = None\<rparr>"

text \<open>The handler leaves the queue and runs; \<open>d\<close> is what was read.\<close>

fun session_complete :: "string \<Rightarrow> asio_result \<Rightarrow> session \<Rightarrow> session" where
  "session_complete d r s =
     (let s' = s\<lparr>sbuf := fill d (sbuf s), pending := None\<rparr> in
      case (pending s, r) of
        (Some (Read_Some _), Io_Done n) \<Rightarrow> session_write n s'
      | (Some (Write_All _), Io_Done _) \<Rightarrow> session_read s'
      | _ \<Rightarrow> s')"

section \<open>A session as a coroutine\<close>

datatype co_point = Await_Read | Await_Write nat | Co_Ended

record echo_coro =
  co_buf :: string
  co_at :: co_point
  co_closed :: "string option"

definition echo_session :: "string \<Rightarrow> echo_coro" where
  "echo_session b = \<lparr>co_buf = b, co_at = Await_Read, co_closed = None\<rparr>"

definition co_request :: "echo_coro \<Rightarrow> io_op option" where
  "co_request c = (case co_at c of Await_Read \<Rightarrow> Some (Read_Some (length (co_buf c))) | Await_Write n \<Rightarrow> Some (Write_All (take n (co_buf c))) | Co_Ended \<Rightarrow> None)"

text \<open>An error is thrown at the \<open>co_await\<close> and ends the loop in the handler of the \<open>try\<close> block.\<close>

fun echo_resume :: "string \<Rightarrow> asio_result \<Rightarrow> echo_coro \<Rightarrow> echo_coro" where
  "echo_resume d r c =
     (let c' = c\<lparr>co_buf := fill d (co_buf c)\<rparr> in
      case (co_at c, r) of
        (Await_Read, Io_Done n) \<Rightarrow> c'\<lparr>co_at := Await_Write n\<rparr>
      | (Await_Write _, Io_Done _) \<Rightarrow> c'\<lparr>co_at := Await_Read\<rparr>
      | (Co_Ended, _) \<Rightarrow> c
      | (_, Io_Error e) \<Rightarrow> c'\<lparr>co_at := Co_Ended, co_closed := Some (''[server] session closed: '' @ e)\<rparr>)"

section \<open>Connections\<close>

text \<open>What the peer has sent and the session not read, what it has read, and what it has written back.\<close>

record conn =
  unread :: string
  got :: string
  echoed :: string

definition conn_new :: conn where
  "conn_new = \<lparr>unread = [], got = [], echoed = []\<rparr>"

text \<open>The peer sends, or the pending operation completes with \<open>k\<close> bytes and perhaps an error.\<close>

datatype conn_event = Peer_Sends string | Op_Done nat "string option"

fun conn_step :: "('s \<Rightarrow> io_op option) \<Rightarrow> (string \<Rightarrow> asio_result \<Rightarrow> 's \<Rightarrow> 's) \<Rightarrow> conn_event \<Rightarrow> conn \<times> 's \<Rightarrow> (conn \<times> 's) option" where
  "conn_step request complete (Peer_Sends bs) (c, s) = Some (c\<lparr>unread := unread c @ bs\<rparr>, s)"
| "conn_step request complete (Op_Done k err) (c, s) =
     (case (request s, err) of
        (Some (Read_Some m), None) \<Rightarrow>
          if 0 < k \<and> k \<le> m \<and> k \<le> length (unread c)
          then Some (c\<lparr>unread := drop k (unread c), got := got c @ take k (unread c)\<rparr>, complete (take k (unread c)) (Io_Done k) s) else None
      | (Some (Write_All bs), None) \<Rightarrow>
          if k = length bs then Some (c\<lparr>echoed := echoed c @ bs\<rparr>, complete [] (Io_Done k) s) else None
      | (Some (Read_Some m), Some e) \<Rightarrow> if k = 0 then Some (c, complete [] (Io_Error e) s) else None
      | (Some (Write_All bs), Some e) \<Rightarrow>
          if k \<le> length bs then Some (c\<lparr>echoed := echoed c @ take k bs\<rparr>, complete [] (Io_Error e) s) else None
      | (None, _) \<Rightarrow> None)"

section \<open>The servers\<close>

record 's asio_server =
  accepting :: bool
  sessions :: "(conn \<times> 's) list"

datatype server_event = Accept_Done "string option" | On_Conn nat conn_event

text \<open>\<open>Server::accept\<close>: the handler always queues the next accept.  \<open>acceptor_loop\<close>: an error leaves the loop.\<close>

definition server_accept :: "string \<Rightarrow> string option \<Rightarrow> session asio_server \<Rightarrow> session asio_server" where
  "server_accept b err srv =
     (if err = None then srv\<lparr>sessions := sessions srv @ [(conn_new, session_start b)]\<rparr> else srv)\<lparr>accepting := True\<rparr>"

definition acceptor_loop :: "string \<Rightarrow> string option \<Rightarrow> echo_coro asio_server \<Rightarrow> echo_coro asio_server" where
  "acceptor_loop b err srv =
     (if err = None then srv\<lparr>sessions := sessions srv @ [(conn_new, echo_session b)], accepting := True\<rparr> else srv\<lparr>accepting := False\<rparr>)"

text \<open>One handler at a time, on the thread that calls \<open>run\<close>.\<close>

fun server_step :: "('s \<Rightarrow> io_op option) \<Rightarrow> (string \<Rightarrow> asio_result \<Rightarrow> 's \<Rightarrow> 's) \<Rightarrow> (string option \<Rightarrow> 's asio_server \<Rightarrow> 's asio_server) \<Rightarrow>
    server_event \<Rightarrow> 's asio_server \<Rightarrow> 's asio_server option" where
  "server_step request complete accept (Accept_Done err) srv = (if accepting srv then Some (accept err srv) else None)"
| "server_step request complete accept (On_Conn i e) srv =
     (if i < length (sessions srv)
      then map_option (\<lambda>cs. srv\<lparr>sessions := (sessions srv)[i := cs]\<rparr>) (conn_step request complete e (sessions srv ! i)) else None)"

fun server_run :: "('s \<Rightarrow> io_op option) \<Rightarrow> (string \<Rightarrow> asio_result \<Rightarrow> 's \<Rightarrow> 's) \<Rightarrow> (string option \<Rightarrow> 's asio_server \<Rightarrow> 's asio_server) \<Rightarrow>
    server_event list \<Rightarrow> 's asio_server \<Rightarrow> 's asio_server option" where
  "server_run request complete accept [] srv = Some srv"
| "server_run request complete accept (e # es) srv = Option.bind (server_step request complete accept e srv) (server_run request complete accept es)"

definition boost_server :: "string \<Rightarrow> server_event list \<Rightarrow> session asio_server option" where
  "boost_server b es = server_run pending session_complete (server_accept b) es \<lparr>accepting = True, sessions = []\<rparr>"

definition coro_server :: "string \<Rightarrow> server_event list \<Rightarrow> echo_coro asio_server option" where
  "coro_server b es = server_run co_request echo_resume (acceptor_loop b) es \<lparr>accepting = True, sessions = []\<rparr>"

text \<open>What a client prints: one \<open>read_some\<close> into a buffer of 256 bytes returns some of what was echoed; \<open>k\<close> of it is here.\<close>

definition client_line :: "string \<Rightarrow> nat \<Rightarrow> conn \<Rightarrow> string option" where
  "client_line tag k c = (if 0 < k \<and> k \<le> 256 \<and> k \<le> length (echoed c) then Some (tag @ take k (echoed c)) else None)"

definition client_msg :: string where
  "client_msg = ''hello from client'' @ [CHR 0x0A]"

definition co_client_msg :: string where
  "co_client_msg = ''hello coroutine world''"

section \<open>The repeating timer\<close>

text \<open>\<open>repeat\<close>: the timer expires with the given results, \<open>True\<close> for an error; what is printed, and whether the timer is armed again.\<close>

fun repeat_timer :: "int \<Rightarrow> int \<Rightarrow> bool list \<Rightarrow> string list \<times> bool" where
  "repeat_timer cnt limit [] = ([], True)"
| "repeat_timer cnt limit (ec # ecs) =
     (if ec then ([], False)
      else let cnt' = cnt + 1; line = ''tick '' @ dec_int cnt' in
        if cnt' < limit then map_prod ((#) line) id (repeat_timer cnt' limit ecs) else ([line], False))"

section \<open>What every echo server does\<close>

text \<open>A session is fully described by the operation it waits for.\<close>

fun echo_spec :: "nat \<Rightarrow> string \<Rightarrow> asio_result \<Rightarrow> io_op option \<Rightarrow> io_op option" where
  "echo_spec cap d (Io_Done k) (Some (Read_Some m)) = Some (Write_All d)"
| "echo_spec cap d (Io_Done k) (Some (Write_All bs)) = Some (Read_Some cap)"
| "echo_spec cap d r op = None"

definition accept_spec :: "nat \<Rightarrow> bool \<Rightarrow> string option \<Rightarrow> io_op option asio_server \<Rightarrow> io_op option asio_server" where
  "accept_spec cap again err srv =
     (if err = None then \<lparr>accepting = True, sessions = sessions srv @ [(conn_new, Some (Read_Some cap))]\<rparr> else srv\<lparr>accepting := again\<rparr>)"

definition echo_server :: "nat \<Rightarrow> bool \<Rightarrow> server_event list \<Rightarrow> io_op option asio_server option" where
  "echo_server cap again es = server_run (\<lambda>op. op) (echo_spec cap) (accept_spec cap again) es \<lparr>accepting = True, sessions = []\<rparr>"

definition server_view :: "('s \<Rightarrow> io_op option) \<Rightarrow> 's asio_server \<Rightarrow> io_op option asio_server" where
  "server_view request srv = \<lparr>accepting = accepting srv, sessions = map (map_prod id request) (sessions srv)\<rparr>"

lemma server_view_sel [simp]:
  "accepting (server_view request srv) = accepting srv" "sessions (server_view request srv) = map (map_prod id request) (sessions srv)"
  by (simp_all add: server_view_def)

text \<open>The results an operation can have; \<open>d\<close> is what was read.\<close>

fun io_allowed :: "nat \<Rightarrow> io_op \<Rightarrow> string \<Rightarrow> asio_result \<Rightarrow> bool" where
  "io_allowed cap (Read_Some m) d (Io_Done k) \<longleftrightarrow> k = length d \<and> k \<le> cap"
| "io_allowed cap _ d r \<longleftrightarrow> d = []"

locale echo_handler =
  fixes request :: "'s \<Rightarrow> io_op option"
    and complete :: "string \<Rightarrow> asio_result \<Rightarrow> 's \<Rightarrow> 's"
    and accept :: "string option \<Rightarrow> 's asio_server \<Rightarrow> 's asio_server"
    and cap :: nat
    and again :: bool
    and good :: "'s \<Rightarrow> bool"
  assumes completes: "good s \<Longrightarrow> request s = Some op \<Longrightarrow> io_allowed cap op d r \<Longrightarrow>
      good (complete d r s) \<and> request (complete d r s) = echo_spec cap d r (Some op)"
    and reads: "good s \<Longrightarrow> request s = Some (Read_Some m) \<Longrightarrow> m = cap"
    and accepts: "list_all (\<lambda>p. good (snd p)) (sessions srv) \<Longrightarrow>
      list_all (\<lambda>p. good (snd p)) (sessions (accept err srv)) \<and> server_view request (accept err srv) = accept_spec cap again err (server_view request srv)"
begin

lemma conn_refines:
  assumes "good (snd p)"
  shows "map_option (map_prod id request) (conn_step request complete e p) = conn_step (\<lambda>op. op) (echo_spec cap) e (map_prod id request p)"
    and "conn_step request complete e p = Some cs \<Longrightarrow> good (snd cs)"
proof -
  obtain c s where p: "p = (c, s)" by (cases p)
  have good: "good s" using assms p by simp
  have okd: "io_allowed cap op [] (Io_Error e')" "io_allowed cap (Write_All bs) [] r" for op e' bs r by (cases op; simp)+
  note facts = completes [OF good] reads [OF good] okd good
  show "map_option (map_prod id request) (conn_step request complete e p) = conn_step (\<lambda>op. op) (echo_spec cap) e (map_prod id request p)"
    using facts by (cases e) (auto simp: p split: option.splits io_op.splits)
  show "conn_step request complete e p = Some cs \<Longrightarrow> good (snd cs)"
    using facts by (cases e) (auto simp: p split: option.splits io_op.splits if_splits)
qed

lemma step_view:
  assumes "list_all (\<lambda>p. good (snd p)) (sessions srv)"
  shows "map_option (server_view request) (server_step request complete accept e srv) =
      server_step (\<lambda>op. op) (echo_spec cap) (accept_spec cap again) e (server_view request srv)"
    and "server_step request complete accept e srv = Some srv' \<Longrightarrow> list_all (\<lambda>p. good (snd p)) (sessions srv')"
proof -
  have "good (snd (sessions srv ! i))" if "i < length (sessions srv)" for i
    using assms that by (simp add: list_all_length)
  note conn = conn_refines [OF this]
  show "map_option (server_view request) (server_step request complete accept e srv) =
      server_step (\<lambda>op. op) (echo_spec cap) (accept_spec cap again) e (server_view request srv)"
  proof (cases e)
    case (On_Conn i ev)
    then show ?thesis
      using conn(1) [of i ev, symmetric] by (simp add: option.map_comp o_def server_view_def map_update)
  qed (use accepts [OF assms] in simp)
  show "list_all (\<lambda>p. good (snd p)) (sessions srv')" if st: "server_step request complete accept e srv = Some srv'"
  proof (cases e)
    case (On_Conn i ev)
    then obtain cs where "i < length (sessions srv)" "conn_step request complete ev (sessions srv ! i) = Some cs" "srv' = srv\<lparr>sessions := (sessions srv)[i := cs]\<rparr>"
      using st by (auto split: if_splits)
    then show ?thesis using conn(2) [of i ev cs] assms by (auto simp: list_all_length nth_list_update)
  qed (use accepts [OF assms] st in \<open>auto split: if_splits\<close>)
qed

lemma run_view:
  "list_all (\<lambda>p. good (snd p)) (sessions srv) \<Longrightarrow>
   map_option (server_view request) (server_run request complete accept es srv) =
     server_run (\<lambda>op. op) (echo_spec cap) (accept_spec cap again) es (server_view request srv)"
proof (induction es arbitrary: srv)
  case (Cons e es)
  show ?case
  proof (cases "server_step request complete accept e srv")
    case None
    then show ?thesis using step_view(1) [OF Cons.prems, of e] by simp
  next
    case (Some srv')
    then have "server_step (\<lambda>op. op) (echo_spec cap) (accept_spec cap again) e (server_view request srv) = Some (server_view request srv')"
      using step_view(1) [OF Cons.prems, of e, symmetric] by simp
    then show ?thesis using step_view(2) [OF Cons.prems Some] Cons.IH [of srv'] Some by simp
  qed
qed simp

end

interpretation boost_echo: echo_handler pending session_complete "server_accept b" "length b" True "\<lambda>s. length (sbuf s) = length b \<and>
    (\<forall>m. pending s = Some (Read_Some m) \<longrightarrow> m = length b)" for b
proof (unfold_locales, goal_cases)
  case (1 s op d r)
  then show ?case
    by (cases op; cases r) (auto simp: Let_def session_read_def session_write_def fill_def)
next
  case (3 srv err)
  then show ?case by (auto simp: server_accept_def accept_spec_def server_view_def session_start_def session_read_def)
qed simp

interpretation coro_echo: echo_handler co_request echo_resume "acceptor_loop b" "length b" False "\<lambda>c. length (co_buf c) = length b" for b
proof (unfold_locales, goal_cases)
  case (1 c op d r)
  then show ?case
    by (cases "co_at c"; cases r) (auto simp: Let_def co_request_def fill_def)
next
  case (2 c m)
  then show ?case by (auto simp: co_request_def split: co_point.splits)
next
  case (3 srv err)
  then show ?case by (auto simp: acceptor_loop_def accept_spec_def server_view_def echo_session_def co_request_def)
qed

text \<open>Both servers are the same echo server, up to what an error of \<open>accept\<close> does.\<close>

lemma servers_view:
  "map_option (server_view pending) (boost_server b es) = echo_server (length b) True es"
  "map_option (server_view co_request) (coro_server b es) = echo_server (length b) False es"
  unfolding boost_server_def coro_server_def echo_server_def
  by (subst boost_echo.run_view coro_echo.run_view, simp, simp add: server_view_def)+

section \<open>Echoes\<close>

text \<open>What the peer of connection \<open>i\<close> has sent in all.\<close>

definition sent_to :: "nat \<Rightarrow> server_event list \<Rightarrow> string" where
  "sent_to i es = concat (map (\<lambda>e. case e of On_Conn j (Peer_Sends bs) \<Rightarrow> if j = i then bs else [] | _ \<Rightarrow> []) es)"

fun echo_inv :: "nat \<Rightarrow> string \<Rightarrow> conn \<times> io_op option \<Rightarrow> bool" where
  "echo_inv cap all (c, op) \<longleftrightarrow>
     got c @ unread c = all \<and>
     (case op of Some (Read_Some m) \<Rightarrow> m = cap \<and> echoed c = got c | Some (Write_All bs) \<Rightarrow> got c = echoed c @ bs | None \<Rightarrow> prefix (echoed c) (got c))"

lemma echo_inv_step:
  assumes "echo_inv cap all p" and "conn_step (\<lambda>op. op) (echo_spec cap) e p = Some p'"
  shows "echo_inv cap (case e of Peer_Sends bs \<Rightarrow> all @ bs | _ \<Rightarrow> all) p'"
  using assms
  by (cases p; cases e) (auto simp: take_is_prefix split: option.splits io_op.splits if_splits)

lemma server_run_snoc:
  "server_run request complete accept (es @ [e]) srv = Option.bind (server_run request complete accept es srv) (server_step request complete accept e)"
  by (induction es arbitrary: srv) (auto simp: bind_eq_Some_conv split: Option.bind_splits)

lemma server_run_append:
  "server_run request complete accept (es @ fs) srv = Option.bind (server_run request complete accept es srv) (server_run request complete accept fs)"
  by (induction es arbitrary: srv) (auto split: Option.bind_splits)

definition accepted :: "server_event list \<Rightarrow> nat" where
  "accepted es = length (filter ((=) (Accept_Done None)) es)"

lemma sent_to_snoc:
  "sent_to i (es @ [e]) = sent_to i es @ (case e of On_Conn j (Peer_Sends bs) \<Rightarrow> if j = i then bs else [] | _ \<Rightarrow> [])"
  by (simp add: sent_to_def)

lemma accepted_snoc: "accepted (es @ [e]) = accepted es + (if e = Accept_Done None then 1 else 0)"
  by (auto simp: accepted_def)

lemma echo_server_inv:
  assumes "echo_server cap again es = Some srv"
  shows "length (sessions srv) = accepted es \<and> (\<forall>i<length (sessions srv). echo_inv cap (sent_to i es) (sessions srv ! i)) \<and>
    (\<forall>i\<ge>length (sessions srv). sent_to i es = []) \<and> (again \<longrightarrow> accepting srv)"
  using assms unfolding echo_server_def
proof (induction es arbitrary: srv rule: rev_induct)
  case (snoc e es)
  then obtain srv0 where run: "server_run (\<lambda>op. op) (echo_spec cap) (accept_spec cap again) es \<lparr>accepting = True, sessions = []\<rparr> = Some srv0"
    and st: "server_step (\<lambda>op. op) (echo_spec cap) (accept_spec cap again) e srv0 = Some srv"
    by (auto simp: server_run_snoc bind_eq_Some_conv)
  note IH = snoc.IH [OF run]
  show ?case
  proof (cases e)
    case (Accept_Done err)
    then show ?thesis
      using IH st by (auto simp: accept_spec_def sent_to_snoc accepted_snoc nth_append conn_new_def less_Suc_eq split: if_splits)
  next
    case (On_Conn i ev)
    then obtain p where p: "i < length (sessions srv0)" "conn_step (\<lambda>op. op) (echo_spec cap) ev (sessions srv0 ! i) = Some p"
      "srv = srv0\<lparr>sessions := (sessions srv0)[i := p]\<rparr>" using st by (auto split: if_splits)
    have "echo_inv cap (sent_to i (es @ [e])) p"
      using echo_inv_step [OF _ p(2)] IH p(1) On_Conn by (cases ev) (auto simp: sent_to_snoc)
    moreover have "sent_to j (es @ [e]) = sent_to j es" if "j \<noteq> i" for j using that On_Conn by (auto simp: sent_to_snoc split: conn_event.splits)
    ultimately show ?thesis using IH p On_Conn by (auto simp: accepted_snoc nth_list_update)
  qed
qed (simp add: accepted_def sent_to_def)

text \<open>A session that waits for something can always go on until everything has been echoed.\<close>

lemma echo_drains:
  assumes "sessions srv ! i = (c, op)" and "i < length (sessions srv)" and "echo_inv cap all (c, op)" and "op \<noteq> None" and "0 < cap"
  shows "\<exists>es c'. server_run (\<lambda>op. op) (echo_spec cap) (accept_spec cap again) es srv =
      Some (srv\<lparr>sessions := (sessions srv)[i := (c', Some (Read_Some cap))]\<rparr>) \<and> echoed c' = all"
  using assms
proof (induction "2 * length (unread c) + (case op of Some (Write_All _) \<Rightarrow> 1 | _ \<Rightarrow> 0)" arbitrary: srv c op rule: less_induct)
  case less
  let ?run = "server_run (\<lambda>op. op) (echo_spec cap) (accept_spec cap again)"
  have next_op: ?case
    if st: "conn_step (\<lambda>op. op) (echo_spec cap) (Op_Done k None) (c, op) = Some (c2, Some op2)"
      and less2: "2 * length (unread c2) + (case op2 of Write_All _ \<Rightarrow> 1 | _ \<Rightarrow> 0) < 2 * length (unread c) + (case op of Some (Write_All _) \<Rightarrow> 1 | _ \<Rightarrow> 0)"
    for k c2 op2
  proof -
    let ?srv = "srv\<lparr>sessions := (sessions srv)[i := (c2, Some op2)]\<rparr>"
    have inv: "echo_inv cap all (c2, Some op2)" using echo_inv_step [OF less.prems(3) st] by simp
    obtain es c' where es: "?run es ?srv = Some (?srv\<lparr>sessions := (sessions ?srv)[i := (c', Some (Read_Some cap))]\<rparr>)" "echoed c' = all"
      using less.hyps [where srv = ?srv, OF _ _ _ inv] less2 less.prems(2, 5) by auto
    have "?run (On_Conn i (Op_Done k None) # es) srv = Some (srv\<lparr>sessions := (sessions srv)[i := (c', Some (Read_Some cap))]\<rparr>)"
      using es(1) st less.prems(1, 2) by simp
    then show ?thesis using es(2) by blast
  qed
  obtain op1 where op: "op = Some op1" using less.prems(4) by blast
  show ?case
  proof (cases op1)
    case (Write_All bs)
    then show ?thesis using next_op [of "length bs" "c\<lparr>echoed := echoed c @ bs\<rparr>" "Read_Some cap"] op by simp
  next
    case (Read_Some m)
    then have m: "m = cap" "echoed c = got c" "got c @ unread c = all" using less.prems(3) op by auto
    show ?thesis
    proof (cases "unread c = []")
      case True
      then have "?run [] srv = Some (srv\<lparr>sessions := (sessions srv)[i := (c, Some (Read_Some cap))]\<rparr>)"
        using less.prems(1, 2) op Read_Some m by (metis list_update_id asio_server.surjective asio_server.update_convs(2) server_run.simps(1))
      then show ?thesis using m True by (metis append_Nil2)
    next
      case False
      let ?k = "min cap (length (unread c))"
      have "0 < ?k" "?k \<le> length (unread c)" using False less.prems(5) by simp_all
      then have "Suc (2 * (length (unread c) - ?k)) < 2 * length (unread c)" by linarith
      then show ?thesis
        using next_op [of ?k "c\<lparr>unread := drop ?k (unread c), got := got c @ take ?k (unread c)\<rparr>" "Write_All (take ?k (unread c))"] op Read_Some m False less.prems(5)
        by simp
    qed
  qed
qed

lemma echo_server_drains:
  assumes run: "echo_server cap again es = Some srv" and i: "i < accepted es" and op: "snd (sessions srv ! i) \<noteq> None" and cap: "0 < cap"
  shows "\<exists>fs srv'. echo_server cap again (es @ fs) = Some srv' \<and> echoed (fst (sessions srv' ! i)) = sent_to i es"
proof -
  note inv = echo_server_inv [OF run]
  have i': "i < length (sessions srv)" using inv i by simp
  have inv_i: "echo_inv cap (sent_to i es) (fst (sessions srv ! i), snd (sessions srv ! i))" using inv i' by simp
  from echo_drains [OF surjective_pairing i' inv_i op cap] obtain fs c' where
    "server_run (\<lambda>op. op) (echo_spec cap) (accept_spec cap again) fs srv = Some (srv\<lparr>sessions := (sessions srv)[i := (c', Some (Read_Some cap))]\<rparr>)"
    "echoed c' = sent_to i es" by blast
  then have "echo_server cap again (es @ fs) = Some (srv\<lparr>sessions := (sessions srv)[i := (c', Some (Read_Some cap))]\<rparr>)"
    "echoed (fst (sessions (srv\<lparr>sessions := (sessions srv)[i := (c', Some (Read_Some cap))]\<rparr>) ! i)) = sent_to i es"
    using run i' by (simp_all add: echo_server_def server_run_append)
  then show ?thesis by blast
qed

lemma echo_prefix: "echo_inv cap all p \<Longrightarrow> prefix (echoed (fst p)) all"
  by (cases p) (auto simp: prefix_def split: option.splits io_op.splits)

lemma client_line_prefix: "prefix (echoed c) all \<Longrightarrow> client_line tag k c = Some l \<Longrightarrow> prefix l (tag @ all)"
  using take_is_prefix [of k "echoed c"] by (auto simp: client_line_def split: if_splits intro: prefix_order.trans)

lemma repeat_ticks:
  "0 < n \<Longrightarrow> repeat_timer cnt (cnt + int n) (replicate n False) = (map (\<lambda>j. ''tick '' @ dec_int (cnt + int (Suc j))) [0..<n], False)"
proof (induction n arbitrary: cnt)
  case (Suc n)
  show ?case
  proof (cases n)
    case (Suc k)
    then have IH: "repeat_timer (cnt + 1) (cnt + 1 + int n) (replicate n False) =
        (map (\<lambda>j. ''tick '' @ dec_int (cnt + 1 + int (Suc j))) [0..<n], False)" using Suc.IH [of "cnt + 1"] by simp
    have "[0..<Suc n] = 0 # map Suc [0..<n]" by (metis map_Suc_upt upt_conv_Cons zero_less_Suc)
    then show ?thesis using IH Suc by (simp add: Let_def o_def algebra_simps del: upt_Suc)
  qed (simp add: Let_def)
qed simp

section \<open>Properties\<close>

text \<open>
  C31: Both echo servers refine one specification, so that the chain of handlers and the coroutine behave alike: after any sequence of accepted
  connections, arriving bytes and completed operations, in any order, there is one session for each accepted connection, what has been written
  to a peer is a prefix of what that peer sent, and what a client prints is one of what it sent.  A session that waits for an operation can always go on until
  everything has been echoed.  The server of handlers goes on accepting after any error of \<open>accept\<close>, while \<open>acceptor_loop\<close> never accepts again
  after one.  The repeating timer ticks \<open>limit\<close> times.
\<close>

theorem asio_echo:
  assumes b: "0 < length b" and boost: "boost_server b es = Some srv" and coro: "coro_server b fs = Some cs"
  shows "map_option (server_view pending) (boost_server b gs) = echo_server (length b) True gs \<and>
    map_option (server_view co_request) (coro_server b gs) = echo_server (length b) False gs \<and>
    accepting srv \<and> length (sessions srv) = accepted es \<and> length (sessions cs) = accepted fs \<and>
    (\<forall>i<accepted es. prefix (echoed (fst (sessions srv ! i))) (sent_to i es) \<and>
      (client_line tag k (fst (sessions srv ! i)) = Some l \<longrightarrow> prefix l (tag @ sent_to i es)) \<and>
      (pending (snd (sessions srv ! i)) \<noteq> None \<longrightarrow>
        (\<exists>hs srv'. boost_server b (es @ hs) = Some srv' \<and> echoed (fst (sessions srv' ! i)) = sent_to i es))) \<and>
    (\<forall>i<accepted fs. prefix (echoed (fst (sessions cs ! i))) (sent_to i fs) \<and>
      (client_line tag k (fst (sessions cs ! i)) = Some l \<longrightarrow> prefix l (tag @ sent_to i fs)) \<and>
      (co_at (snd (sessions cs ! i)) \<noteq> Co_Ended \<longrightarrow>
        (\<exists>hs cs'. coro_server b (fs @ hs) = Some cs' \<and> echoed (fst (sessions cs' ! i)) = sent_to i fs))) \<and>
    (accepting cs \<longrightarrow> coro_server b (fs @ [Accept_Done (Some e), Accept_Done r]) = None) \<and>
    (0 < n \<longrightarrow> repeat_timer 0 (int n) (replicate n False) = (map (\<lambda>j. ''tick '' @ dec_int (int (Suc j))) [0..<n], False))"
proof -
  have view: "echo_server (length b) True es = Some (server_view pending srv)" "echo_server (length b) False fs = Some (server_view co_request cs)"
    using servers_view [of b es] servers_view [of b fs] boost coro by simp_all
  note inv = echo_server_inv [OF view(1)] echo_server_inv [OF view(2)]
  have counts: "length (sessions srv) = accepted es" "length (sessions cs) = accepted fs" "accepting srv" using inv by simp_all
  have pre: "prefix (echoed (fst (sessions srv ! i))) (sent_to i es)" if "i < accepted es" for i
    using inv(1) echo_prefix [of "length b" "sent_to i es" "sessions (server_view pending srv) ! i"] that counts by simp
  have cpre: "prefix (echoed (fst (sessions cs ! i))) (sent_to i fs)" if "i < accepted fs" for i
    using inv(2) echo_prefix [of "length b" "sent_to i fs" "sessions (server_view co_request cs) ! i"] that counts by simp
  have drain: "\<exists>hs srv'. boost_server b (es @ hs) = Some srv' \<and> echoed (fst (sessions srv' ! i)) = sent_to i es"
    if i: "i < accepted es" and op: "pending (snd (sessions srv ! i)) \<noteq> None" for i
  proof -
    obtain hs v where v: "echo_server (length b) True (es @ hs) = Some v" "echoed (fst (sessions v ! i)) = sent_to i es"
      using echo_server_drains [OF view(1) i _ b] op counts i by auto
    then obtain srv' where "boost_server b (es @ hs) = Some srv'" "v = server_view pending srv'" using servers_view(1) [of b "es @ hs"] by auto
    moreover have "i < length (sessions srv')" using echo_server_inv [OF v(1)] calculation i by (simp add: accepted_def)
    ultimately show ?thesis using v(2) by auto
  qed
  have cdrain: "\<exists>hs cs'. coro_server b (fs @ hs) = Some cs' \<and> echoed (fst (sessions cs' ! i)) = sent_to i fs"
    if i: "i < accepted fs" and op: "co_at (snd (sessions cs ! i)) \<noteq> Co_Ended" for i
  proof -
    have "co_request (snd (sessions cs ! i)) \<noteq> None" using op by (auto simp: co_request_def split: co_point.splits)
    then obtain hs v where v: "echo_server (length b) False (fs @ hs) = Some v" "echoed (fst (sessions v ! i)) = sent_to i fs"
      using echo_server_drains [OF view(2) i _ b] counts i by auto
    then obtain cs' where "coro_server b (fs @ hs) = Some cs'" "v = server_view co_request cs'" using servers_view(2) [of b "fs @ hs"] by auto
    moreover have "i < length (sessions cs')" using echo_server_inv [OF v(1)] calculation i by (simp add: accepted_def)
    ultimately show ?thesis using v(2) by auto
  qed
  have "coro_server b (fs @ [Accept_Done (Some e), Accept_Done r]) = None"
    using coro by (simp add: coro_server_def server_run_append acceptor_loop_def)
  moreover have "0 < n \<longrightarrow> repeat_timer 0 (int n) (replicate n False) = (map (\<lambda>j. ''tick '' @ dec_int (int (Suc j))) [0..<n], False)"
    using repeat_ticks [of n 0] by simp
  ultimately show ?thesis using servers_view counts pre cpre drain cdrain client_line_prefix by blast
qed

theorem asio_echo_witness:
  "(\<exists>hs srv'. boost_server (replicate 1024 CHR ''x'') ([Accept_Done None, On_Conn 0 (Peer_Sends client_msg)] @ hs) = Some srv' \<and>
      echoed (fst (sessions srv' ! 0)) = client_msg) \<and>
   map_option (\<lambda>cs. map (\<lambda>p. client_line ''[client] echo: '' 21 (fst p)) (sessions cs))
     (coro_server (replicate 30 CHR ''x'') [Accept_Done None, On_Conn 0 (Peer_Sends co_client_msg), On_Conn 0 (Op_Done 21 None), On_Conn 0 (Op_Done 21 None)]) =
     Some [Some ''[client] echo: hello coroutine world'']"
proof -
  let ?b = "replicate 1024 CHR ''x''" and ?es = "[Accept_Done None, On_Conn 0 (Peer_Sends client_msg)]"
  let ?srv = "\<lparr>accepting = True, sessions = [(\<lparr>unread = client_msg, got = [], echoed = []\<rparr>, session_start ?b)]\<rparr>"
  have run: "boost_server ?b ?es = Some ?srv" by (simp add: boost_server_def server_accept_def conn_new_def)
  have new: "coro_server ?b [] = Some \<lparr>accepting = True, sessions = []\<rparr>" by (simp add: coro_server_def)
  have "sent_to 0 ?es = client_msg" "0 < accepted ?es" "pending (snd (sessions ?srv ! 0)) \<noteq> None"
    by (simp_all add: sent_to_def accepted_def session_start_def session_read_def)
  moreover have "map_option (\<lambda>cs. map (\<lambda>p. client_line ''[client] echo: '' 21 (fst p)) (sessions cs))
     (coro_server (replicate 30 CHR ''x'') [Accept_Done None, On_Conn 0 (Peer_Sends co_client_msg), On_Conn 0 (Op_Done 21 None), On_Conn 0 (Op_Done 21 None)]) =
     Some [Some ''[client] echo: hello coroutine world'']" by code_simp
  ultimately show ?thesis using asio_echo [OF _ run new] by (metis length_replicate zero_less_numeral)
qed

end
