(* ===== verification/Thread_Hops.thy ===== *)
theory Thread_Hops
  imports Tasks
begin

text \<open>
  Coroutines that move between threads: \<open>multi_hop\<close> and \<open>main\<close> of \<^verbatim>\<open>coroutines/05_thread_hop.cpp\<close>, the tasks of \<^verbatim>\<open>coroutines/09_when_all.cpp\<close> and
  the last two parts of \<^verbatim>\<open>coroutines/10_cancellation.cpp\<close>, on the machine of \<^verbatim>\<open>Tasks\<close>.  The header of the first file promises that the
  frame survives the hops; that is shown here for every coroutine body, together with what goes wrong when \<open>sync_wait\<close> does not wait.
\<close>

section \<open>The pool threads\<close>

text \<open>The threads of the pools take \<open>n\<close> posted handles, one after the other.\<close>

fun pump :: "flavour \<Rightarrow> nat \<Rightarrow> machine \<Rightarrow> machine option" where
  "pump fl 0 m = Some m"
| "pump fl (Suc n) m = Option.bind (pool_turn fl m) (pump fl n)"

text \<open>
  What other threads do between two statements of the caller: a pool or timer thread takes a turn, or a stop is
  requested.  A turn runs until the coroutine suspends again or ends.
\<close>

datatype hop_event = Turn | Stop_Request

fun meanwhile :: "flavour \<Rightarrow> hop_event list \<Rightarrow> machine \<Rightarrow> machine option" where
  "meanwhile fl [] m = Some m"
| "meanwhile fl (Turn # es) m = Option.bind (pool_turn fl m) (meanwhile fl es)"
| "meanwhile fl (Stop_Request # es) m = meanwhile fl es (m\<lparr>flag := True\<rparr>)"

lemma meanwhile_turns: "meanwhile fl (replicate k Turn) m = pump fl k m"
  by (induction k arbitrary: m) (simp_all cong: Option.bind_cong)

text \<open>
  The copies of \<open>Task\<close> in the three files: a result and an exception pointer, and \<open>sync_wait\<close> that resumes once and reads
  the promise.  \<open>es\<close> is what happens between \<open>handle_.resume()\<close> and \<open>await_resume()\<close>.
\<close>

definition hop_sync_wait :: "ty \<Rightarrow> hop_event list \<Rightarrow> co \<Rightarrow> (delivery \<times> machine) option" where
  "hop_sync_wait t es c =
     Option.bind (resume Plain_Exn 0 (start_task False c)) (\<lambda>m.
       map_option (\<lambda>m'. (task_result Plain_Exn t 0 m', m')) (meanwhile Plain_Exn es m))"

definition cancel_sync_wait :: "bool \<Rightarrow> hop_event list \<Rightarrow> co \<Rightarrow> (delivery \<times> machine) option" where
  "cancel_sync_wait stopped es c =
     Option.bind (resume Plain_Exn 0 (start_task stopped c)) (\<lambda>m.
       map_option (\<lambda>m'. (task_result Plain_Exn TStr 0 m', m')) (meanwhile Plain_Exn es m))"

section \<open>The coroutines\<close>

text \<open>\<open>y\<close> is what \<open>std::to_string\<close> makes of the float; the thread ids that end some of the lines are left out.\<close>

definition multi_hop :: "string \<Rightarrow> co" where
  "multi_hop y =
     (let x = 10 in
      Co_Suspend Pool (let x = x * 2 in Co_Suspend Pool (Co_Return (VStr (''x='' @ dec_int x @ '' y='' @ y)))))"

definition fetch_int :: "int \<Rightarrow> co" where
  "fetch_int v = Co_Suspend Pool (Co_Print (''  task('' @ dec_int v @ '') done on thread '') (Co_Return (VInt v)))"

definition fetch_str :: "string \<Rightarrow> co" where
  "fetch_str s = Co_Suspend Pool (Co_Print (''  task('' @ [CHR 0x22] @ s @ [CHR 0x22] @ '') done'') (Co_Return (VStr s)))"

text \<open>A launcher of \<open>main\<close>: \<open>sync_wait\<close>, the line with the result, and the end of the scope, which destroys the task.\<close>

definition launcher :: "hop_event list \<Rightarrow> int \<Rightarrow> (string \<times> machine) option" where
  "launcher es i =
     map_option (\<lambda>(d, m). (''[req '' @ dec_int i @ ''] result='' @ show_delivery d, destroy_task 0 m)) (hop_sync_wait TInt es (process_request i))"

text \<open>
  One part of \<open>main\<close> of \<^verbatim>\<open>10_cancellation.cpp\<close>: the temporary task ends with the statement.  \<open>stopped\<close> is whether the stop was requested
  before the task starts.
\<close>

definition cancel_part :: "bool \<Rightarrow> hop_event list \<Rightarrow> (string \<times> machine) option" where
  "cancel_part stopped es =
     map_option (\<lambda>(d, m). (''[main] result: '' @ show_delivery d, destroy_task 0 m)) (cancel_sync_wait stopped es long_operation)"

text \<open>The worker of \<open>jthread_demo\<close>: \<open>stops i\<close> is whether the stop has been requested when iteration \<open>i\<close> asks.\<close>

function jthread_worker :: "(nat \<Rightarrow> bool) \<Rightarrow> nat \<Rightarrow> string list" where
  "jthread_worker stops i =
     (if i < 20
      then if stops i then [''[jthread] stopping at i='' @ dec_nat i]
           else (''[jthread] working '' @ dec_nat i) # jthread_worker stops (Suc i)
      else [])"
  by pat_completeness auto
termination by (relation "measure (\<lambda>(stops, i). 20 - i)") auto

declare jthread_worker.simps [simp del]

section \<open>Hops leave no trace\<close>

text \<open>A body run as a plain function that goes on where it was at every hop.\<close>

primrec hop_eval :: "flavour \<Rightarrow> bool \<Rightarrow> co \<Rightarrow> console \<times> fin option" where
  "hop_eval fl b (Co_Return v) = ([], Some (Ret v))"
| "hop_eval fl b (Co_Throw e) = ([], Some (Exn e))"
| "hop_eval fl b (Co_Print s c) = (s # fst (hop_eval fl b c), snd (hop_eval fl b c))"
| "hop_eval fl b (Co_Await t c k) =
     (case snd (hop_eval fl b c) of
        None \<Rightarrow> (fst (hop_eval fl b c), None)
      | Some r \<Rightarrow> (fst (hop_eval fl b c) @ fst (hop_eval fl b (k (await_resume fl t (Some r)))),
                  snd (hop_eval fl b (k (await_resume fl t (Some r))))))"
| "hop_eval fl b (Co_Suspend w c) = (if w = Pool then hop_eval fl b c else ([], None))"
| "hop_eval fl b (Co_Read_Flag k) = hop_eval fl b (k b)"

definition pumped :: "flavour \<Rightarrow> nat \<Rightarrow> machine \<Rightarrow> machine option" where
  "pumped fl k m = Option.bind (drive fl m) (pump fl k)"

lemma pumped_step: "running m = Some i \<Longrightarrow> pumped fl k m = pumped fl k (co_step fl m)"
  by (simp add: pumped_def drive_step)

lemma pumped_hop:
  assumes "running m = Some i" and "i < length (frames m)" and "frames m ! i = Some f" and "code f = Ready (Co_Suspend Pool c)" and "posted m = []"
  shows "pumped fl (Suc k) m = pumped fl k (m\<lparr>frames := (frames m)[i := Some (f\<lparr>code := Ready c\<rparr>)]\<rparr>)"
proof -
  let ?m = "m\<lparr>frames := (frames m)[i := Some (f\<lparr>code := Ready c\<rparr>)]\<rparr>"
  have "drive fl m = Some (?m\<lparr>running := None, posted := [i]\<rparr>)" using assms by (simp add: drive_step step_defs drive_idle)
  moreover have "?m\<lparr>posted := [], running := Some i\<rparr> = ?m" using assms(1, 5) by simp
  ultimately show ?thesis by (simp add: pumped_def pool_turn_def resume_def)
qed

lemma pumped_completes:
  assumes "running m = Some i" and "i < length (frames m)" and "frames m ! i = Some f"
    and "code f = Ready c" and "hop_eval fl (flag m) c = (out, Some r)" and "posted m = []"
  shows "\<exists>n h. \<forall>k. pumped fl (h + k) m = pumped fl k (completed i f r out n m)"
  using assms
proof (induction c arbitrary: m i f out r)
  case (Co_Return v)
  then show ?case by (intro exI [of _ 0]) (simp add: pumped_step step_defs completed_def)
next
  case (Co_Throw e)
  then show ?case by (intro exI [of _ 0]) (simp add: pumped_step step_defs completed_def)
next
  case (Co_Print s c)
  let ?f = "f\<lparr>code := Ready c\<rparr>"
  let ?m = "m\<lparr>frames := (frames m)[i := Some ?f], printed := printed m @ [s]\<rparr>"
  obtain o' where o': "out = s # o'" "hop_eval fl (flag m) c = (o', Some r)"
    using Co_Print.prems(5) by (cases "hop_eval fl (flag m) c") auto
  have "pumped fl k m = pumped fl k ?m" for k using Co_Print.prems by (simp add: pumped_step step_defs)
  moreover obtain n h where "\<forall>k. pumped fl (h + k) ?m = pumped fl k (completed i ?f r o' n ?m)"
    using Co_Print.IH [of ?m i ?f o' r] Co_Print.prems o' by auto
  ultimately have "\<forall>k. pumped fl (h + k) m = pumped fl k (completed i f r out n m)" using o'(1) by (simp add: completed_def)
  then show ?case by blast
next
  case (Co_Suspend w c)
  let ?f = "f\<lparr>code := Ready c\<rparr>"
  let ?m = "m\<lparr>frames := (frames m)[i := Some ?f]\<rparr>"
  have w: "w = Pool" "hop_eval fl (flag m) c = (out, Some r)" using Co_Suspend.prems(5) by (auto split: if_splits)
  obtain n h where "\<forall>k. pumped fl (h + k) ?m = pumped fl k (completed i ?f r out n ?m)"
    using Co_Suspend.IH [of ?m i ?f out r] Co_Suspend.prems w by auto
  moreover have "pumped fl (Suc h + k) m = pumped fl (h + k) ?m" for k
    using pumped_hop [of m i f c] Co_Suspend.prems w(1) by simp
  ultimately have "\<forall>k. pumped fl (Suc h + k) m = pumped fl k (completed i f r out n m)" by (simp add: completed_def)
  then show ?case by blast
next
  case (Co_Read_Flag g)
  let ?f = "f\<lparr>code := Ready (g (flag m))\<rparr>"
  let ?m = "m\<lparr>frames := (frames m)[i := Some ?f]\<rparr>"
  have "pumped fl k m = pumped fl k ?m" for k using Co_Read_Flag.prems by (simp add: pumped_step step_defs)
  moreover obtain n h where "\<forall>k. pumped fl (h + k) ?m = pumped fl k (completed i ?f r out n ?m)"
    using Co_Read_Flag.IH [of "g (flag m)" ?m i ?f out r] Co_Read_Flag.prems by auto
  ultimately have "\<forall>k. pumped fl (h + k) m = pumped fl k (completed i f r out n m)" by (simp add: completed_def)
  then show ?case by blast
next
  case (Co_Await t c g)
  let ?j = "length (frames m)"
  let ?w = "f\<lparr>code := Waiting ?j t g\<rparr>"
  let ?g = "new_frame c (Some i)"
  let ?m = "m\<lparr>frames := (frames m)[i := Some ?w] @ [Some ?g], running := Some ?j\<rparr>"
  obtain o1 r1 where 1: "hop_eval fl (flag m) c = (o1, Some r1)"
    using Co_Await.prems(5) by (cases "hop_eval fl (flag m) c") (auto split: option.splits)
  define d where "d = await_resume fl t (Some r1)"
  obtain o2 where 2: "hop_eval fl (flag m) (g d) = (o2, Some r)" "out = o1 @ o2"
    using Co_Await.prems(5) 1 by (cases "hop_eval fl (flag m) (g d)") (auto simp: d_def)
  have a: "pumped fl k m = pumped fl k ?m" for k using Co_Await.prems by (simp add: pumped_step step_defs)
  obtain n h where n: "\<forall>k. pumped fl (h + k) ?m = pumped fl k (completed ?j ?g r1 o1 n ?m)"
    using Co_Await.IH(1) [of ?m ?j ?g o1 r1] 1 Co_Await.prems(6) by (auto simp: new_frame_def nth_append)
  let ?c = "completed ?j ?g r1 o1 n ?m"
  let ?f = "f\<lparr>code := Ready (g d)\<rparr>"
  let ?d = "?c\<lparr>frames := (frames ?c)[i := Some ?f, ?j := None]\<rparr>"
  have b: "pumped fl k ?c = pumped fl k ?d" for k
    using Co_Await.prems(2)
    by (subst pumped_step [where i = i])
      (simp_all add: completed_def step_defs new_frame_def nth_append list_update_append d_def)
  obtain n' h' where n': "\<forall>k. pumped fl (h' + k) ?d = pumped fl k (completed i ?f r o2 n' ?d)"
    using Co_Await.IH(2) [of "g d" ?d i ?f o2 r] 2 Co_Await.prems(2, 6)
    by (auto simp: completed_def new_frame_def nth_append list_update_append)
  have "completed i ?f r o2 n' ?d = completed i f r out (Suc n + n') m"
    using Co_Await.prems(2) 2(2)
    by (simp add: completed_def new_frame_def list_update_append replicate_add)
  then have "\<forall>k. pumped fl (h + h' + k) m = pumped fl k (completed i f r out (Suc n + n') m)"
    using a n b n' by (metis add.assoc)
  then show ?case by blast
qed

section \<open>Properties\<close>

lemma jthread_stops:
  assumes "k \<le> 20" and "k < 20 \<Longrightarrow> stops k" and "i \<le> k" and "\<And>j. i \<le> j \<Longrightarrow> j < k \<Longrightarrow> \<not> stops j"
  shows "jthread_worker stops i =
    map (\<lambda>j. ''[jthread] working '' @ dec_nat j) [i..<k] @ (if k < 20 then [''[jthread] stopping at i='' @ dec_nat k] else [])"
  using assms(3, 4)
proof (induction "k - i" arbitrary: i)
  case 0
  then have "i = k" by simp
  then show ?case using assms(1, 2) by (subst jthread_worker.simps) auto
next
  case (Suc n)
  then have "i < k" "\<not> stops i" by simp_all
  then show ?case
    using Suc.hyps(1) [of "Suc i"] Suc assms(1) by (subst jthread_worker.simps) (auto simp: upt_conv_Cons)
qed

text \<open>Turns of an idle pool change nothing, so what counts is how many turns there were until the coroutine had ended.\<close>

lemma pump_idle: "posted m = [] \<Longrightarrow> pump fl k m = Some m"
  by (induction k) (simp_all add: pool_turn_def)

lemma pump_add: "pump fl (j + k) m = Option.bind (pump fl j m) (pump fl k)"
  by (induction j arbitrary: m) (simp_all add: bind_assoc cong: Option.bind_cong)

lemma pump_settles:
  assumes "j \<le> k" and "pump fl j m = Some m'" and "posted m' = []"
  shows "pump fl k m = Some m'"
  using assms pump_add [of fl j "k - j" m] by (simp add: pump_idle)

lemma meanwhile_append: "meanwhile fl (es @ fs) m = Option.bind (meanwhile fl es m) (meanwhile fl fs)"
  by (induction fl es m rule: meanwhile.induct) (simp_all add: bind_assoc cong: Option.bind_cong)

lemma meanwhile_idle: "posted m = [] \<Longrightarrow> \<exists>b. meanwhile fl es m = Some (m\<lparr>flag := b\<rparr>)"
proof (induction fl es m rule: meanwhile.induct)
  case (1 fl m)
  then show ?case by (intro exI [of _ "flag m"]) simp
qed (simp_all add: pool_turn_def)

lemma task_result_flag [simp]: "task_result fl t i (m\<lparr>flag := b\<rparr>) = task_result fl t i m"
  by (simp add: task_result_def frame_at_def)

lemma hop_outcome:
  assumes "resume Plain_Exn 0 (start_task b c) = Some m" and "meanwhile Plain_Exn es m = Some m'"
  shows "Option.bind (resume Plain_Exn 0 (start_task b c)) (\<lambda>m. map_option (\<lambda>m'. (task_result Plain_Exn t 0 m', m')) (meanwhile Plain_Exn es m))
    = Some (task_result Plain_Exn t 0 m', m')"
  using assms by simp

lemma launcher_result:
  "\<exists>m. launcher (replicate k Turn) i = Some (''[req '' @ dec_int i @ ''] result='' @ dec_int (if k < 2 then 0 else i * i), m)
     \<and> (k < 2 \<longrightarrow> (\<exists>m'. pool_turn Plain_Exn m = Some m' \<and> fault m')) \<and> (2 \<le> k \<longrightarrow> posted m = [] \<and> \<not> fault m)"
proof -
  consider "k = 0" | "k = 1" | "2 \<le> k" by linarith
  then show ?thesis
  proof cases
    case 3
    have "\<exists>m m'. resume Plain_Exn 0 (start_task False (process_request i)) = Some m \<and> pump Plain_Exn 2 m = Some m' \<and> posted m' = []
      \<and> task_result Plain_Exn TInt 0 m' = Value (VInt (i * i)) \<and> \<not> fault m'"
      by (simp add: run_machine process_request_def numeral_2_eq_2)
    then obtain m m' where m: "resume Plain_Exn 0 (start_task False (process_request i)) = Some m" "pump Plain_Exn 2 m = Some m'"
      "posted m' = []" "task_result Plain_Exn TInt 0 m' = Value (VInt (i * i))" "\<not> fault m'" by blast
    have "meanwhile Plain_Exn (replicate k Turn) m = Some m'" unfolding meanwhile_turns by (rule pump_settles [OF 3 m(2,3)])
    from hop_outcome [OF m(1) this, of TInt] m 3 show ?thesis by (simp add: launcher_def hop_sync_wait_def destroy_task_def)
  qed (simp_all add: launcher_def hop_sync_wait_def run_machine process_request_def)
qed

lemmas cancel_run = cancel_part_def cancel_sync_wait_def run_machine long_operation_def delay_step_def cancellable_delay_def

text \<open>The states of \<open>long_operation\<close> after no turn, one turn and two turns of its timers, with the stop requested in between or not.\<close>

lemma long_operation_states:
  "\<exists>m0 m1 m2. resume Plain_Exn 0 (start_task False long_operation) = Some m0 \<and> pump Plain_Exn 1 m0 = Some m1 \<and> pump Plain_Exn 1 m1 = Some m2
     \<and> task_result Plain_Exn TStr 0 m0 = Value (VStr []) \<and> task_result Plain_Exn TStr 0 m1 = Value (VStr [])
     \<and> task_result Plain_Exn TStr 0 m2 = Value (VStr ''completed'') \<and> posted m2 = [] \<and> \<not> fault m2
     \<and> (\<exists>m'. pool_turn Plain_Exn (destroy_task 0 m0) = Some m' \<and> fault m') \<and> (\<exists>m'. pool_turn Plain_Exn (destroy_task 0 m1) = Some m' \<and> fault m')
     \<and> (\<forall>m\<in>{m0, m1}. \<exists>m'. pump Plain_Exn 1 (m\<lparr>flag := True\<rparr>) = Some m' \<and> posted m' = [] \<and> task_result Plain_Exn TStr 0 m' = Value (VStr ''cancelled''))"
  by (simp add: cancel_run)

lemma cancel_result:
  "\<exists>m. cancel_part False (replicate k Turn) = Some (''[main] result: '' @ (if k < 2 then [] else ''completed''), m)
     \<and> (k < 2 \<longrightarrow> (\<exists>m'. pool_turn Plain_Exn m = Some m' \<and> fault m')) \<and> (2 \<le> k \<longrightarrow> posted m = [] \<and> \<not> fault m)"
  "\<exists>m. cancel_part False (replicate j Turn @ Stop_Request # replicate k Turn)
     = Some (''[main] result: '' @ (if 2 \<le> j then ''completed'' else if k = 0 then [] else ''cancelled''), m)"
proof -
  from long_operation_states obtain m0 m1 m2 where m: "resume Plain_Exn 0 (start_task False long_operation) = Some m0"
      "pump Plain_Exn 1 m0 = Some m1" "pump Plain_Exn 1 m1 = Some m2"
      "task_result Plain_Exn TStr 0 m0 = Value (VStr [])" "task_result Plain_Exn TStr 0 m1 = Value (VStr [])"
      "task_result Plain_Exn TStr 0 m2 = Value (VStr ''completed'')" "posted m2 = []" "\<not> fault m2"
    and dead: "\<exists>m'. pool_turn Plain_Exn (destroy_task 0 m0) = Some m' \<and> fault m'" "\<exists>m'. pool_turn Plain_Exn (destroy_task 0 m1) = Some m' \<and> fault m'"
    and stop: "\<forall>m\<in>{m0, m1}. \<exists>m'. pump Plain_Exn 1 (m\<lparr>flag := True\<rparr>) = Some m' \<and> posted m' = [] \<and> task_result Plain_Exn TStr 0 m' = Value (VStr ''cancelled'')"
    by blast
  have two: "pump Plain_Exn k m0 = Some m2" if "2 \<le> k" for k
  proof (rule pump_settles [OF that _ m(7)])
    show "pump Plain_Exn 2 m0 = Some m2"
      using pump_add [of Plain_Exn 1 1 m0] by (simp only: m(2,3) Option.bind.simps one_add_one)
  qed
  have out: "cancel_part False es = Some (''[main] result: '' @ show_delivery (task_result Plain_Exn TStr 0 m'), destroy_task 0 m')"
    if "meanwhile Plain_Exn es m0 = Some m'" for es m'
    using hop_outcome [OF m(1) that, of TStr] by (simp add: cancel_part_def cancel_sync_wait_def)
  consider "k = 0" | "k = 1" | "2 \<le> k" by linarith
  then show "\<exists>m. cancel_part False (replicate k Turn) = Some (''[main] result: '' @ (if k < 2 then [] else ''completed''), m)
     \<and> (k < 2 \<longrightarrow> (\<exists>m'. pool_turn Plain_Exn m = Some m' \<and> fault m')) \<and> (2 \<le> k \<longrightarrow> posted m = [] \<and> \<not> fault m)"
  proof cases
    case 1
    with out [of "[]" m0] m(4) dead(1) show ?thesis by simp
  next
    case 2
    with out [of "replicate k Turn" m1] m(2,5) dead(2) show ?thesis unfolding meanwhile_turns by simp
  next
    case 3
    with out [of "replicate k Turn" m2] two [OF 3] m(6-8) show ?thesis unfolding meanwhile_turns by (simp add: destroy_task_def)
  qed
  have late: "\<exists>m. cancel_part False (replicate j Turn @ Stop_Request # replicate k Turn)
      = Some (''[main] result: '' @ (if k = 0 then [] else ''cancelled''), m)"
    if "pump Plain_Exn j m0 = Some n" "n \<in> {m0, m1}" for n
  proof -
    have n01: "n \<in> {m0, m1}" by (rule that(2))
    then have n: "task_result Plain_Exn TStr 0 n = Value (VStr [])" using m(4,5) by auto
    obtain n' where n': "pump Plain_Exn 1 (n\<lparr>flag := True\<rparr>) = Some n'" "posted n' = []" "task_result Plain_Exn TStr 0 n' = Value (VStr ''cancelled'')"
      using stop n01 by blast
    have run: "meanwhile Plain_Exn (replicate j Turn @ Stop_Request # replicate k Turn) m0 = pump Plain_Exn k (n\<lparr>flag := True\<rparr>)"
      using that(1) by (simp add: meanwhile_append meanwhile_turns)
    show ?thesis
    proof (cases "k = 0")
      case True
      with out [of "replicate j Turn @ Stop_Request # replicate k Turn" "n\<lparr>flag := True\<rparr>"] run n show ?thesis by simp
    next
      case False
      then have "1 \<le> k" by simp
      then have "pump Plain_Exn k (n\<lparr>flag := True\<rparr>) = Some n'" using n'(1,2) by (rule pump_settles)
      with out [of "replicate j Turn @ Stop_Request # replicate k Turn" n'] run n'(3) False show ?thesis by simp
    qed
  qed
  consider "j = 0" | "j = 1" | "2 \<le> j" by linarith
  then show "\<exists>m. cancel_part False (replicate j Turn @ Stop_Request # replicate k Turn)
     = Some (''[main] result: '' @ (if 2 \<le> j then ''completed'' else if k = 0 then [] else ''cancelled''), m)"
  proof cases
    case 1
    with late [of m0] show ?thesis by simp
  next
    case 2
    with late [of m1] m(2) show ?thesis by simp
  next
    case 3
    have "meanwhile Plain_Exn (replicate j Turn @ Stop_Request # replicate k Turn) m0 = Some (m2\<lparr>flag := True\<rparr>)"
      using two [OF 3] m(7) by (simp add: meanwhile_append meanwhile_turns pump_idle)
    from out [OF this] 3 m(6) show ?thesis by simp
  qed
qed

lemma cancel_before_start:
  "\<exists>m. cancel_part True es = Some (''[main] result: cancelled'', m) \<and> posted m = [] \<and> printed m = [''[task] step 1'', ''[task] cancelled at step 1'']"
proof -
  have "\<exists>m. resume Plain_Exn 0 (start_task True long_operation) = Some m \<and> posted m = [] \<and> task_result Plain_Exn TStr 0 m = Value (VStr ''cancelled'')
    \<and> printed m = [''[task] step 1'', ''[task] cancelled at step 1'']"
    by (simp add: cancel_run)
  then obtain m where m: "resume Plain_Exn 0 (start_task True long_operation) = Some m" "posted m = []"
    "task_result Plain_Exn TStr 0 m = Value (VStr ''cancelled'')" "printed m = [''[task] step 1'', ''[task] cancelled at step 1'']" by blast
  obtain b where b: "meanwhile Plain_Exn es m = Some (m\<lparr>flag := b\<rparr>)" using meanwhile_idle [OF m(2)] by blast
  with hop_outcome [OF m(1) b, of TStr] m show ?thesis by (simp add: cancel_part_def cancel_sync_wait_def destroy_task_def)
qed



end
