(* ===== verification/Descriptors.thy ===== *)
theory Descriptors
  imports Prelude
begin

text \<open>
  What functions do with file descriptors.  A function is a list of statements that keep of the C++ code the system calls with their descriptor arguments,
  the branches on their results, loops, early exits and scopes; the data they transfer is modelled in other theories.  Every call on
  descriptors can fail, and a call on \<open>-1\<close> or on a closed descriptor does; \<open>unlink\<close> of a file that the function created is taken to succeed.  The abstract interpreter \<open>ab\<close> forgets the numbers; it is shown to be exact, so that evaluating it decides
  whether some execution leaks a descriptor, leaves a file behind or uses a bad descriptor.
\<close>

section \<open>Statements\<close>

text \<open>A variable holds \<open>-1\<close>, an open descriptor, or one it has closed.\<close>

datatype 'n fdval = Minus1 | Live 'n | Stale 'n

text \<open>
  \<open>Get v us c\<close> is \<^verbatim>\<open>v = c(us, ...)\<close>, \<open>Use us c\<close> a call whose result is not looked at, \<open>Fails us c b\<close> is \<^verbatim>\<open>if (c(us, ...) == -1) b\<close>, \<open>Bind v p b\<close> the same for a
  \<open>bind\<close> that creates the file \<open>p\<close>, \<open>Get_Pair\<close> a call of \<open>pipe\<close>.  \<open>Loop False\<close> ends only from inside, \<open>Either\<close> branches on something that is not a descriptor, \<open>Scoped v b\<close>
  closes \<open>v\<close> when the scope is left, but not on \<open>exit\<close>; \<open>Leave\<close> inside \<open>Label b\<close> is a \<open>goto\<close> to the label at the end of \<open>b\<close>, and elsewhere a \<open>return\<close>.
\<close>

datatype fd_stmt =
    Get string "string list" string
  | Get_Pair string string "fd_stmt list"
  | Use "string list" string
  | Fails "string list" string "fd_stmt list"
  | Bind string string "fd_stmt list"
  | Creates string
  | Unlink string
  | If_Bad string "fd_stmt list"
  | If_Good string "fd_stmt list"
  | Close string
  | Puts string
  | Die string
  | Leave
  | Break_Loop
  | Next_Loop
  | Either "fd_stmt list" "fd_stmt list"
  | Loop bool "fd_stmt list"
  | Scoped string "fd_stmt list"
  | Label "fd_stmt list"

datatype fd_outcome = Normal | Broke | Skipped | Returned | Exited

section \<open>Execution\<close>

record proc =
  vals :: "(string \<times> nat fdval) list"
  opened :: "nat set"
  files :: "string list"
  misused :: bool

definition usable :: "(string \<times> 'n fdval) list \<Rightarrow> string \<Rightarrow> bool" where
  "usable e v = (case map_of e v of Some (Live _) \<Rightarrow> True | _ \<Rightarrow> False)"

definition minus1 :: "(string \<times> 'n fdval) list \<Rightarrow> string \<Rightarrow> bool" where
  "minus1 e v = (case map_of e v of Some Minus1 \<Rightarrow> True | _ \<Rightarrow> False)"

definition setv :: "string \<Rightarrow> 'n fdval \<Rightarrow> (string \<times> 'n fdval) list \<Rightarrow> (string \<times> 'n fdval) list" where
  "setv v x e = map (\<lambda>(w, y). if w = v then (w, x) else (w, y)) e"

definition misuse :: "string list \<Rightarrow> proc \<Rightarrow> proc" where
  "misuse us s = s\<lparr>misused := misused s \<or> \<not> list_all (usable (vals s)) us\<rparr>"

definition close_var :: "string \<Rightarrow> proc \<Rightarrow> proc" where
  "close_var v s =
     (case map_of (vals s) v of
        Some (Live fd) \<Rightarrow> s\<lparr>vals := setv v (Stale fd) (vals s), opened := opened s - {fd}\<rparr>
      | _ \<Rightarrow> s\<lparr>misused := True\<rparr>)"

text \<open>The guard does not close \<open>-1\<close>.\<close>

definition guard_exit :: "string \<Rightarrow> proc \<Rightarrow> proc" where
  "guard_exit v s = (if minus1 (vals s) v then s else close_var v s)"

definition proc_start :: "string list \<Rightarrow> nat set \<Rightarrow> proc" where
  "proc_start vs B = \<lparr>vals = map (\<lambda>v. (v, Minus1)) vs, opened = B, files = [], misused = False\<rparr>"

inductive exec1 :: "fd_stmt \<Rightarrow> proc \<Rightarrow> proc \<Rightarrow> fd_outcome \<Rightarrow> bool"
  and exec :: "fd_stmt list \<Rightarrow> proc \<Rightarrow> proc \<Rightarrow> fd_outcome \<Rightarrow> bool" where
  get_ok: "list_all (usable (vals s)) us \<Longrightarrow> fd \<notin> opened s \<Longrightarrow>
    exec1 (Get v us c) s (s\<lparr>vals := setv v (Live fd) (vals s), opened := insert fd (opened s)\<rparr>) Normal"
| get_fail: "exec1 (Get v us c) s ((misuse us s)\<lparr>vals := setv v Minus1 (vals s)\<rparr>) Normal"
| pair_ok: "fd \<notin> opened s \<Longrightarrow> fd' \<notin> opened s \<Longrightarrow> fd \<noteq> fd' \<Longrightarrow>
    exec1 (Get_Pair v w b) s (s\<lparr>vals := setv w (Live fd') (setv v (Live fd) (vals s)), opened := insert fd' (insert fd (opened s))\<rparr>) Normal"
| pair_fail: "exec b s t oc \<Longrightarrow> exec1 (Get_Pair v w b) s t oc"
| use: "exec1 (Use us c) s (misuse us s) Normal"
| fails_ok: "list_all (usable (vals s)) us \<Longrightarrow> exec1 (Fails us c b) s s Normal"
| fails: "exec b (misuse us s) t oc \<Longrightarrow> exec1 (Fails us c b) s t oc"
| bind_ok: "usable (vals s) v \<Longrightarrow> p \<notin> set (files s) \<Longrightarrow> exec1 (Bind v p b) s (s\<lparr>files := p # files s\<rparr>) Normal"
| bind_fail: "exec b (misuse [v] s) t oc \<Longrightarrow> exec1 (Bind v p b) s t oc"
| creates: "exec1 (Creates p) s (s\<lparr>files := List.insert p (files s)\<rparr>) Normal"
| unlink: "exec1 (Unlink p) s (s\<lparr>files := removeAll p (files s)\<rparr>) Normal"
| if_bad: "minus1 (vals s) v \<Longrightarrow> exec b s t oc \<Longrightarrow> exec1 (If_Bad v b) s t oc"
| if_bad_not: "\<not> minus1 (vals s) v \<Longrightarrow> exec1 (If_Bad v b) s s Normal"
| if_good: "\<not> minus1 (vals s) v \<Longrightarrow> exec b s t oc \<Longrightarrow> exec1 (If_Good v b) s t oc"
| if_good_not: "minus1 (vals s) v \<Longrightarrow> exec1 (If_Good v b) s s Normal"
| close: "exec1 (Close v) s (close_var v s) Normal"
| puts: "exec1 (Puts c) s s Normal"
| die: "exec1 (Die c) s s Exited"
| leave: "exec1 Leave s s Returned"
| break: "exec1 Break_Loop s s Broke"
| next_loop: "exec1 Next_Loop s s Skipped"
| either_left: "exec b s t oc \<Longrightarrow> exec1 (Either b b') s t oc"
| either_right: "exec b' s t oc \<Longrightarrow> exec1 (Either b b') s t oc"
| loop_stop: "exec1 (Loop True b) s s Normal"
| loop_next: "exec b s t oc \<Longrightarrow> oc = Normal \<or> oc = Skipped \<Longrightarrow> exec1 (Loop stop b) t u oc' \<Longrightarrow> exec1 (Loop stop b) s u oc'"
| loop_break: "exec b s t Broke \<Longrightarrow> exec1 (Loop stop b) s t Normal"
| loop_leave: "exec b s t oc \<Longrightarrow> oc = Returned \<or> oc = Exited \<Longrightarrow> exec1 (Loop stop b) s t oc"
| scoped: "exec b s t oc \<Longrightarrow> exec1 (Scoped v b) s (if oc = Exited then t else guard_exit v t) oc"
| label: "exec b s t oc \<Longrightarrow> exec1 (Label b) s t (if oc = Returned then Normal else oc)"
| exec_nil: "exec [] s s Normal"
| exec_cons: "exec1 c s t Normal \<Longrightarrow> exec cs t u oc \<Longrightarrow> exec (c # cs) s u oc"
| exec_stop: "exec1 c s t oc \<Longrightarrow> oc \<noteq> Normal \<Longrightarrow> exec (c # cs) s t oc"

section \<open>The abstract interpreter\<close>

type_synonym astate = "(string \<times> unit fdval) list \<times> string list \<times> bool"
type_synonym aresult = "(astate \<times> fd_outcome) list"

definition a_misuse :: "string list \<Rightarrow> astate \<Rightarrow> astate" where
  "a_misuse us = (\<lambda>(e, f, b). (e, f, b \<or> \<not> list_all (usable e) us))"

definition a_close :: "string \<Rightarrow> astate \<Rightarrow> astate" where
  "a_close v = (\<lambda>(e, f, b). if usable e v then (setv v (Stale ()) e, f, b) else (e, f, True))"

definition a_guard :: "string \<Rightarrow> astate \<Rightarrow> astate" where
  "a_guard v = (\<lambda>(e, f, b). if minus1 e v then (e, f, b) else a_close v (e, f, b))"

text \<open>A variable that is assigned a descriptor must be declared and not hold an open one.\<close>

definition settable :: "(string \<times> 'n fdval) list \<Rightarrow> string \<Rightarrow> bool" where
  "settable e v \<longleftrightarrow> map_of e v \<noteq> None \<and> \<not> usable e v"

definition again :: "fd_outcome \<Rightarrow> bool" where
  "again oc \<longleftrightarrow> oc = Normal \<or> oc = Skipped"

definition leaves :: "('a \<times> fd_outcome) list \<Rightarrow> ('a \<times> fd_outcome) list" where
  "leaves rs = map (\<lambda>(a, oc). (a, if oc = Broke then Normal else oc)) (filter (\<lambda>r. \<not> again (snd r)) rs)"

definition all_results :: "(astate \<Rightarrow> aresult option) \<Rightarrow> astate list \<Rightarrow> aresult option" where
  "all_results g S = map_option concat (those (map g S))"

text \<open>The states at the head of a loop; a few rounds are enough for the functions at hand.\<close>

fun heads :: "nat \<Rightarrow> (astate \<Rightarrow> aresult option) \<Rightarrow> astate list \<Rightarrow> astate list option" where
  "heads n g S =
     (case all_results g S of
        None \<Rightarrow> None
      | Some rs \<Rightarrow>
          (let T = map fst (filter (again \<circ> snd) rs) in
           if set T \<subseteq> set S then Some S else case n of 0 \<Rightarrow> None | Suc k \<Rightarrow> heads k g (remdups (S @ T))))"

fun ab1 :: "fd_stmt \<Rightarrow> astate \<Rightarrow> aresult option"
  and ab :: "fd_stmt list \<Rightarrow> astate \<Rightarrow> aresult option" where
  "ab1 (Get v us c) a =
     (if settable (fst a) v
      then Some ((if list_all (usable (fst a)) us then [((setv v (Live ()) (fst a), snd a), Normal)] else []) @
        [((setv v Minus1 (fst a), snd (a_misuse us a)), Normal)])
      else None)"
| "ab1 (Get_Pair v w b) a =
     (if settable (fst a) v \<and> settable (fst a) w \<and> v \<noteq> w
      then map_option ((#) ((setv w (Live ()) (setv v (Live ()) (fst a)), snd a), Normal)) (ab b a) else None)"
| "ab1 (Use us c) a = Some [(a_misuse us a, Normal)]"
| "ab1 (Fails us c b) a = map_option ((@) (if list_all (usable (fst a)) us then [(a, Normal)] else [])) (ab b (a_misuse us a))"
| "ab1 (Bind v p b) a =
     map_option ((@) (if usable (fst a) v \<and> p \<notin> set (fst (snd a)) then [((fst a, p # fst (snd a), snd (snd a)), Normal)] else []))
       (ab b (a_misuse [v] a))"
| "ab1 (Creates p) a = Some [((fst a, List.insert p (fst (snd a)), snd (snd a)), Normal)]"
| "ab1 (Unlink p) a = Some [((fst a, removeAll p (fst (snd a)), snd (snd a)), Normal)]"
| "ab1 (If_Bad v b) a = (if minus1 (fst a) v then ab b a else Some [(a, Normal)])"
| "ab1 (If_Good v b) a = (if minus1 (fst a) v then Some [(a, Normal)] else ab b a)"
| "ab1 (Close v) a = Some [(a_close v a, Normal)]"
| "ab1 (Puts c) a = Some [(a, Normal)]"
| "ab1 (Die c) a = Some [(a, Exited)]"
| "ab1 Leave a = Some [(a, Returned)]"
| "ab1 Break_Loop a = Some [(a, Broke)]"
| "ab1 Next_Loop a = Some [(a, Skipped)]"
| "ab1 (Either b b') a = (case (ab b a, ab b' a) of (Some rs, Some rs') \<Rightarrow> Some (rs @ rs') | _ \<Rightarrow> None)"
| "ab1 (Loop stop b) a =
     (case heads 4 (\<lambda>x. ab b x) [a] of
        None \<Rightarrow> None
      | Some S \<Rightarrow>
          map_option (\<lambda>rs. (if stop then map (\<lambda>x. (x, Normal)) S else []) @ leaves rs) (all_results (\<lambda>x. ab b x) S))"
| "ab1 (Scoped v b) a = map_option (map (\<lambda>(x, oc). (if oc = Exited then x else a_guard v x, oc))) (ab b a)"
| "ab1 (Label b) a = map_option (map (\<lambda>(x, oc). (x, if oc = Returned then Normal else oc))) (ab b a)"
| "ab [] a = Some [(a, Normal)]"
| "ab (c # cs) a =
     (case ab1 c a of
        None \<Rightarrow> None
      | Some rs \<Rightarrow> map_option (remdups \<circ> concat) (those (map (\<lambda>(x, oc). if oc = Normal then ab cs x else Some [(x, oc)]) rs)))"

text \<open>What is asked of a function: the variables are its locals.\<close>

definition a_start :: "string list \<Rightarrow> astate" where
  "a_start vs = (map (\<lambda>v. (v, Minus1)) vs, [], False)"

definition no_live :: "astate \<Rightarrow> bool" where
  "no_live a = list_all (\<lambda>(v, x). x \<noteq> Live ()) (fst a)"

text \<open>On every way out but \<open>exit\<close> nothing is left open and no file is left; and on every way out every call had an open descriptor.\<close>

definition releases_all :: "string list \<Rightarrow> fd_stmt list \<Rightarrow> bool" where
  "releases_all vs b =
     (case ab b (a_start vs) of None \<Rightarrow> False | Some rs \<Rightarrow> list_all (\<lambda>(a, oc). oc = Exited \<or> no_live a \<and> fst (snd a) = []) rs)"

definition checks_all :: "string list \<Rightarrow> fd_stmt list \<Rightarrow> bool" where
  "checks_all vs b = (case ab b (a_start vs) of None \<Rightarrow> False | Some rs \<Rightarrow> list_all (\<lambda>(a, oc). \<not> snd (snd a)) rs)"

section \<open>The abstraction\<close>

definition blank :: "(string \<times> 'n fdval) list \<Rightarrow> (string \<times> unit fdval) list" where
  "blank e = map (\<lambda>(v, x). (v, map_fdval (\<lambda>_. ()) x)) e"

definition proc_shape :: "proc \<Rightarrow> astate" where
  "proc_shape s = (blank (vals s), files s, misused s)"

text \<open>The open descriptors are those that were open before and those the variables hold, each in one variable.\<close>

definition holds_fd :: "(string \<times> 'n fdval) list \<Rightarrow> string \<Rightarrow> 'n \<Rightarrow> bool" where
  "holds_fd e v fd \<longleftrightarrow> map_of e v = Some (Live fd)"

definition fds_ok :: "nat set \<Rightarrow> proc \<Rightarrow> bool" where
  "fds_ok B s \<longleftrightarrow> finite (opened s) \<and> (\<forall>fd. fd \<in> opened s \<longleftrightarrow> fd \<in> B \<or> (\<exists>v. holds_fd (vals s) v fd)) \<and>
     (\<forall>v fd. holds_fd (vals s) v fd \<longrightarrow> fd \<notin> B \<and> (\<forall>w. holds_fd (vals s) w fd \<longrightarrow> w = v))"

lemma map_of_setv: "map_of (setv v x e) w = (if w = v \<and> map_of e v \<noteq> None then Some x else map_of e w)"
  by (induction e) (auto simp: setv_def)

lemma map_of_blank: "map_of (blank e) v = map_option (map_fdval (\<lambda>_. ())) (map_of e v)"
  by (induction e) (auto simp: blank_def)

lemma blank_setv: "blank (setv v x e) = setv v (map_fdval (\<lambda>_. ()) x) (blank e)"
  by (induction e) (auto simp: blank_def setv_def)

lemma blank_tests [simp]: "usable (blank e) v = usable e v" "minus1 (blank e) v = minus1 e v" "settable (blank e) v = settable e v"
  by (auto simp: usable_def minus1_def settable_def map_of_blank split: option.splits fdval.splits)

lemma blank_usable [simp]: "usable (blank e) = usable e"
  by (rule ext) simp

lemma shape_sel [simp]: "fst (proc_shape s) = blank (vals s)" "snd (proc_shape s) = (files s, misused s)"
  by (simp_all add: proc_shape_def)

lemma usable_live: "usable e v \<longleftrightarrow> (\<exists>fd. holds_fd e v fd)"
  by (auto simp: usable_def holds_fd_def split: option.splits fdval.splits)

lemma live_setv:
  "settable e v \<Longrightarrow> holds_fd (setv v (Live fd) e) w x \<longleftrightarrow> w = v \<and> x = fd \<or> holds_fd e w x"
  "settable e v \<Longrightarrow> holds_fd (setv v Minus1 e) w x \<longleftrightarrow> holds_fd e w x"
  "holds_fd (setv v (Stale fd) e) w x \<longleftrightarrow> holds_fd e w x \<and> w \<noteq> v"
  by (auto simp: holds_fd_def settable_def usable_live map_of_setv)

lemma shape_misuse: "proc_shape (misuse us s) = a_misuse us (proc_shape s)"
  by (simp add: proc_shape_def misuse_def a_misuse_def)

lemma close_var_cases:
  "holds_fd (vals s) v fd \<Longrightarrow> close_var v s = s\<lparr>vals := setv v (Stale fd) (vals s), opened := opened s - {fd}\<rparr>"
  "\<not> usable (vals s) v \<Longrightarrow> close_var v s = s\<lparr>misused := True\<rparr>"
  by (auto simp: close_var_def holds_fd_def usable_def split: option.splits fdval.splits)

lemma shape_close: "proc_shape (close_var v s) = a_close v (proc_shape s)"
proof (cases "usable (vals s) v")
  case True
  then obtain fd where "holds_fd (vals s) v fd" by (auto simp: usable_live)
  then show ?thesis using True by (simp add: close_var_cases proc_shape_def a_close_def blank_setv)
qed (simp add: close_var_cases proc_shape_def a_close_def)

lemma shape_guard: "proc_shape (guard_exit v s) = a_guard v (proc_shape s)"
  by (auto simp: guard_exit_def a_guard_def shape_close) (auto simp: proc_shape_def)

lemma fds_ok_get:
  assumes "fds_ok B s" and "settable (vals s) v" and "fd \<notin> opened s"
  shows "fds_ok B (s\<lparr>vals := setv v (Live fd) (vals s), opened := insert fd (opened s)\<rparr>)"
  using assms by (auto simp: fds_ok_def live_setv)

lemma fds_ok_same:
  "fds_ok B s \<Longrightarrow> fds_ok B (misuse us s)" "fds_ok B s \<Longrightarrow> fds_ok B (s\<lparr>files := f\<rparr>)"
  by (simp_all add: fds_ok_def misuse_def)

lemma fds_ok_fail: "fds_ok B s \<Longrightarrow> settable (vals s) v \<Longrightarrow> fds_ok B ((misuse us s)\<lparr>vals := setv v Minus1 (vals s)\<rparr>)"
  by (simp add: fds_ok_def misuse_def live_setv)

lemma fds_ok_close:
  assumes "fds_ok B s"
  shows "fds_ok B (close_var v s)"
proof (cases "usable (vals s) v")
  case True
  then obtain fd where fd: "holds_fd (vals s) v fd" by (auto simp: usable_live)
  then have "fd \<notin> B" "\<And>w. holds_fd (vals s) w fd \<Longrightarrow> w = v" using assms by (auto simp: fds_ok_def)
  then show ?thesis using assms fd by (auto simp: close_var_cases fds_ok_def live_setv) (auto simp: holds_fd_def)
qed (use assms in \<open>simp add: close_var_cases fds_ok_def\<close>)

lemma fds_ok_guard: "fds_ok B s \<Longrightarrow> fds_ok B (guard_exit v s)"
  by (simp add: guard_exit_def fds_ok_close)

lemma settable_setv: "settable e w \<Longrightarrow> v \<noteq> w \<Longrightarrow> settable (setv v x e) w"
  by (simp add: settable_def usable_def map_of_setv)

lemma fds_ok_pair:
  assumes "fds_ok B s" and "settable (vals s) v" and "settable (vals s) w" and "v \<noteq> w" and "fd \<notin> opened s" "fd' \<notin> opened s" "fd \<noteq> fd'"
  shows "fds_ok B (s\<lparr>vals := setv w (Live fd') (setv v (Live fd) (vals s)), opened := insert fd' (insert fd (opened s))\<rparr>)"
  using fds_ok_get [OF fds_ok_get [OF assms(1, 2, 5)], of w fd'] settable_setv [OF assms(3, 4)] assms(6, 7) by simp

section \<open>Loops\<close>

lemma those_Some: "those xs = Some ys \<longleftrightarrow> xs = map Some ys"
  by (induction xs arbitrary: ys) (auto split: option.splits simp: Cons_eq_map_conv)

lemma all_results_iff:
  assumes "all_results g S = Some rs"
  shows "x \<in> set S \<Longrightarrow> \<exists>r. g x = Some r \<and> set r \<subseteq> set rs" and "q \<in> set rs \<Longrightarrow> \<exists>x\<in>set S. \<exists>r. g x = Some r \<and> q \<in> set r"
proof -
  obtain yss where y: "map g S = map Some yss" "rs = concat yss" using assms by (auto simp: all_results_def those_Some)
  show "\<exists>r. g x = Some r \<and> set r \<subseteq> set rs" if "x \<in> set S"
  proof -
    have "g x \<in> set (map Some yss)" using that y(1) [symmetric] by simp
    then show ?thesis using y(2) by auto
  qed
  show "\<exists>x\<in>set S. \<exists>r. g x = Some r \<and> q \<in> set r" if q: "q \<in> set rs"
  proof -
    obtain r where "r \<in> set yss" "q \<in> set r" using q y(2) by auto
    then have "Some r \<in> set (map g S)" using y(1) by simp
    then show ?thesis using \<open>q \<in> set r\<close> by force
  qed
qed

text \<open>From one head of the loop to the next.\<close>

definition hop :: "(astate \<Rightarrow> aresult option) \<Rightarrow> astate \<Rightarrow> astate \<Rightarrow> bool" where
  "hop g x y \<longleftrightarrow> (\<exists>rs oc. g x = Some rs \<and> (y, oc) \<in> set rs \<and> again oc)"

definition closed_heads :: "(astate \<Rightarrow> aresult option) \<Rightarrow> astate list \<Rightarrow> bool" where
  "closed_heads g S \<longleftrightarrow> (\<forall>x\<in>set S. g x \<noteq> None \<and> (\<forall>y. hop g x y \<longrightarrow> y \<in> set S))"

lemma heads_correct:
  assumes "heads n g S = Some T"
  shows "set S \<subseteq> set T \<and> closed_heads g T \<and> (\<forall>y\<in>set T. \<exists>x\<in>set S. (hop g)\<^sup>*\<^sup>* x y)"
  using assms
proof (induction n g S arbitrary: T rule: heads.induct)
  case (1 n g S)
  obtain rs where rs: "all_results g S = Some rs" using 1(2) by (cases "all_results g S") auto
  let ?N = "map fst (filter (again \<circ> snd) rs)"
  have hops: "y \<in> set ?N \<longleftrightarrow> (\<exists>x\<in>set S. hop g x y)" for y
  proof
    assume "y \<in> set ?N"
    then obtain oc where oc: "(y, oc) \<in> set rs" "again oc" by auto
    then show "\<exists>x\<in>set S. hop g x y" using all_results_iff(2) [OF rs oc(1)] by (auto simp: hop_def)
  next
    assume "\<exists>x\<in>set S. hop g x y"
    then obtain x q oc where q: "x \<in> set S" "g x = Some q" "(y, oc) \<in> set q" "again oc" by (auto simp: hop_def)
    then have "(y, oc) \<in> set rs" using all_results_iff(1) [OF rs q(1)] by auto
    then show "y \<in> set ?N" using q(4) by force
  qed
  have def: "g x \<noteq> None" if "x \<in> set S" for x using all_results_iff(1) [OF rs that] by auto
  show ?case
  proof (cases "set ?N \<subseteq> set S")
    case True
    then have "T = S" using 1(2) rs by (simp add: Let_def)
    then show ?thesis unfolding closed_heads_def using True hops def by blast
  next
    case False
    then obtain k where k: "n = Suc k" "heads k g (remdups (S @ ?N)) = Some T" using 1(2) rs by (auto simp: Let_def split: nat.splits)
    have IH: "set (remdups (S @ ?N)) \<subseteq> set T \<and> closed_heads g T \<and> (\<forall>y\<in>set T. \<exists>x\<in>set (remdups (S @ ?N)). (hop g)\<^sup>*\<^sup>* x y)"
      using 1(1) [OF rs refl False k] .
    have "\<exists>x\<in>set S. (hop g)\<^sup>*\<^sup>* x y" if y: "y \<in> set T" for y
    proof -
      obtain z where z: "z \<in> set S \<or> z \<in> set ?N" "(hop g)\<^sup>*\<^sup>* z y" using IH y by (metis Un_iff set_append set_remdups)
      then show ?thesis using hops [of z] by (meson converse_rtranclp_into_rtranclp)
    qed
    moreover have "set S \<subseteq> set T" "closed_heads g T" using IH by auto
    ultimately show ?thesis by blast
  qed
qed

declare heads.simps [simp del]

definition loop_out :: "(astate \<Rightarrow> aresult option) \<Rightarrow> astate list \<Rightarrow> bool \<Rightarrow> astate \<Rightarrow> fd_outcome \<Rightarrow> bool" where
  "loop_out g S stop y oc \<longleftrightarrow> stop \<and> oc = Normal \<and> y \<in> set S \<or>
     (\<exists>x\<in>set S. \<exists>rs oc'. g x = Some rs \<and> (y, oc') \<in> set rs \<and> \<not> again oc' \<and> oc = (if oc' = Broke then Normal else oc'))"

lemma leaves_iff: "(y, oc) \<in> set (leaves rs) \<longleftrightarrow> (\<exists>oc'. (y, oc') \<in> set rs \<and> \<not> again oc' \<and> oc = (if oc' = Broke then Normal else oc'))"
  by (auto simp: leaves_def image_iff Bex_def)

lemma all_results_mem:
  assumes "all_results g S = Some rs"
  shows "q \<in> set rs \<longleftrightarrow> (\<exists>x\<in>set S. \<exists>r. g x = Some r \<and> q \<in> set r)"
proof
  assume "\<exists>x\<in>set S. \<exists>r. g x = Some r \<and> q \<in> set r"
  then obtain x r where x: "x \<in> set S" "g x = Some r" "q \<in> set r" by blast
  then show "q \<in> set rs" using all_results_iff(1) [OF assms x(1)] by auto
qed (rule all_results_iff(2) [OF assms])

lemma ab1_loop:
  assumes "ab1 (Loop stop b) a = Some rs"
  shows "\<exists>S. a \<in> set S \<and> closed_heads (ab b) S \<and> (\<forall>y\<in>set S. (hop (ab b))\<^sup>*\<^sup>* a y) \<and> (\<forall>y oc. (y, oc) \<in> set rs \<longleftrightarrow> loop_out (ab b) S stop y oc)"
proof -
  obtain S qs where S: "heads 4 (ab b) [a] = Some S" "all_results (ab b) S = Some qs"
    "rs = (if stop then map (\<lambda>x. (x, Normal)) S else []) @ leaves qs" using assms by (auto split: option.splits)
  have "(y, oc) \<in> set (leaves qs) \<longleftrightarrow>
      (\<exists>x\<in>set S. \<exists>rs oc'. ab b x = Some rs \<and> (y, oc') \<in> set rs \<and> \<not> again oc' \<and> oc = (if oc' = Broke then Normal else oc'))" for y oc
  proof -
    have "(y, oc) \<in> set (leaves qs) \<longleftrightarrow> (\<exists>oc'. (y, oc') \<in> set qs \<and> \<not> again oc' \<and> oc = (if oc' = Broke then Normal else oc'))" by (rule leaves_iff)
    then show ?thesis unfolding all_results_mem [OF S(2)] by blast
  qed
  then have "\<forall>y oc. (y, oc) \<in> set rs \<longleftrightarrow> loop_out (ab b) S stop y oc" by (auto simp: S(3) loop_out_def)
  then show ?thesis using heads_correct [OF S(1)] by auto
qed

lemma those_outcomes:
  fixes g :: "'a \<Rightarrow> ('a \<times> fd_outcome) list option"
  assumes "those (map (\<lambda>(x, oc). if oc = Normal then g x else Some [(x, oc)]) rs) = Some qs"
  shows "(x, Normal) \<in> set rs \<Longrightarrow> g x \<noteq> None"
    and "(y, oc) \<in> set (concat qs) \<longleftrightarrow> oc \<noteq> Normal \<and> (y, oc) \<in> set rs \<or> (\<exists>x q. (x, Normal) \<in> set rs \<and> g x = Some q \<and> (y, oc) \<in> set q)"
proof -
  let ?f = "\<lambda>(x, oc). if oc = Normal then g x else Some [(x, oc)]"
  have sets: "?f ` set rs = Some ` set qs" using arg_cong [OF assms [unfolded those_Some], of set] by simp
  have "?f (x, Normal) \<in> Some ` set qs" if "(x, Normal) \<in> set rs" for x unfolding sets [symmetric] using that by (rule imageI)
  then show "g x \<noteq> None" if "(x, Normal) \<in> set rs" using that by auto
  have in_qs: "q \<in> set qs" if "?f p = Some q" "p \<in> set rs" for p q
  proof -
    have "?f p \<in> ?f ` set rs" using that(2) by (rule imageI)
    then have "Some q \<in> Some ` set qs" unfolding sets that(1) .
    then show ?thesis by auto
  qed
  have of_qs: "\<exists>p\<in>set rs. ?f p = Some q" if "q \<in> set qs" for q
  proof -
    have "Some q \<in> ?f ` set rs" unfolding sets using that by simp
    then obtain p where "Some q = ?f p" "p \<in> set rs" by (rule imageE)
    then show ?thesis by (intro bexI [of _ p]) (rule sym)
  qed
  show "(y, oc) \<in> set (concat qs) \<longleftrightarrow> oc \<noteq> Normal \<and> (y, oc) \<in> set rs \<or> (\<exists>x q. (x, Normal) \<in> set rs \<and> g x = Some q \<and> (y, oc) \<in> set q)"
  proof
    assume "(y, oc) \<in> set (concat qs)"
    then obtain q where "q \<in> set qs" "(y, oc) \<in> set q" by auto
    then show "oc \<noteq> Normal \<and> (y, oc) \<in> set rs \<or> (\<exists>x q. (x, Normal) \<in> set rs \<and> g x = Some q \<and> (y, oc) \<in> set q)"
      using of_qs [of q] by (auto split: if_splits)
  next
    assume "oc \<noteq> Normal \<and> (y, oc) \<in> set rs \<or> (\<exists>x q. (x, Normal) \<in> set rs \<and> g x = Some q \<and> (y, oc) \<in> set q)"
    then have "\<exists>q\<in>set qs. (y, oc) \<in> set q"
    proof (elim disjE exE conjE)
      assume "oc \<noteq> Normal" "(y, oc) \<in> set rs"
      then show ?thesis using in_qs [of "(y, oc)" "[(y, oc)]"] by (intro bexI [of _ "[(y, oc)]"]) auto
    next
      fix x q assume "(x, Normal) \<in> set rs" "g x = Some q" "(y, oc) \<in> set q"
      then show ?thesis using in_qs [of "(x, Normal)" q] by auto
    qed
    then show "(y, oc) \<in> set (concat qs)" by simp
  qed
qed

lemma ab_Cons:
  assumes "ab (c # cs) a = Some rs"
  obtains rs1 where "ab1 c a = Some rs1" and "\<And>x. (x, Normal) \<in> set rs1 \<Longrightarrow> ab cs x \<noteq> None"
    and "\<And>y oc. (y, oc) \<in> set rs \<longleftrightarrow> oc \<noteq> Normal \<and> (y, oc) \<in> set rs1 \<or> (\<exists>x q. (x, Normal) \<in> set rs1 \<and> ab cs x = Some q \<and> (y, oc) \<in> set q)"
proof (cases "ab1 c a")
  case (Some rs1)
  then obtain qs where qs: "those (map (\<lambda>(x, oc). if oc = Normal then ab cs x else Some [(x, oc)]) rs1) = Some qs" "rs = remdups (concat qs)"
    using assms by auto
  then have rs: "(y, oc) \<in> set rs \<longleftrightarrow> (y, oc) \<in> set (concat qs)" for y oc by simp
  show ?thesis
    by (rule that [OF Some]) (rule those_outcomes(1) [OF qs(1)], assumption, unfold rs, rule those_outcomes(2) [OF qs(1)])
qed (use assms in simp)

section \<open>The abstract interpreter is exact\<close>

lemma shape_updates:
  "proc_shape (s\<lparr>vals := setv v (Live fd) (vals s), opened := X\<rparr>) = (setv v (Live ()) (blank (vals s)), files s, misused s)"
  "proc_shape ((misuse us s)\<lparr>vals := setv v Minus1 (vals s)\<rparr>) = (setv v Minus1 (blank (vals s)), snd (a_misuse us (proc_shape s)))"
  "proc_shape (s\<lparr>vals := setv w (Live fd') (setv v (Live fd) (vals s)), opened := X\<rparr>) =
     (setv w (Live ()) (setv v (Live ()) (blank (vals s))), files s, misused s)"
  "proc_shape (s\<lparr>files := f\<rparr>) = (blank (vals s), f, misused s)"
  by (simp_all add: proc_shape_def blank_setv misuse_def a_misuse_def)

lemma loop_case:
  assumes "\<And>S. closed_heads (ab b) S \<Longrightarrow> proc_shape s \<in> set S \<Longrightarrow> loop_out (ab b) S stop (proc_shape t) oc \<and> fds_ok B t"
  shows "(\<forall>rs. ab1 (Loop stop b) (proc_shape s) = Some rs \<longrightarrow> (proc_shape t, oc) \<in> set rs \<and> fds_ok B t) \<and>
     (\<forall>stop' b' S. Loop stop b = Loop stop' b' \<longrightarrow> closed_heads (ab b') S \<longrightarrow> proc_shape s \<in> set S \<longrightarrow> loop_out (ab b') S stop' (proc_shape t) oc \<and> fds_ok B t)"
proof (intro conjI allI impI)
  fix rs assume "ab1 (Loop stop b) (proc_shape s) = Some rs"
  then obtain S where "proc_shape s \<in> set S" "closed_heads (ab b) S" "\<forall>y oc. (y, oc) \<in> set rs \<longleftrightarrow> loop_out (ab b) S stop y oc" using ab1_loop by blast
  then show "(proc_shape t, oc) \<in> set rs" "fds_ok B t" using assms by blast+
qed (use assms in auto)

lemma ab_sound:
  "exec1 c s t oc \<Longrightarrow> fds_ok B s \<Longrightarrow>
     (\<forall>rs. ab1 c (proc_shape s) = Some rs \<longrightarrow> (proc_shape t, oc) \<in> set rs \<and> fds_ok B t) \<and>
     (\<forall>stop b S. c = Loop stop b \<longrightarrow> closed_heads (ab b) S \<longrightarrow> proc_shape s \<in> set S \<longrightarrow> loop_out (ab b) S stop (proc_shape t) oc \<and> fds_ok B t)"
  "exec b s t oc \<Longrightarrow> fds_ok B s \<Longrightarrow> \<forall>rs. ab b (proc_shape s) = Some rs \<longrightarrow> (proc_shape t, oc) \<in> set rs \<and> fds_ok B t"
proof (induction rule: exec1_exec.inducts)
  case (get_ok s us fd v c)
  then show ?case by (auto simp: shape_updates fds_ok_get split: if_splits)
next
  case (get_fail v us c s)
  then show ?case by (auto simp: shape_updates fds_ok_fail split: if_splits)
next
  case (pair_ok fd s fd' v w b)
  then show ?case by (auto simp: shape_updates fds_ok_pair split: if_splits)
next
  case (loop_stop b s)
  then show ?case by (intro loop_case) (simp add: loop_out_def)
next
  case (loop_next b s t oc stop u oc')
  have out: "loop_out (ab b) S stop (proc_shape u) oc' \<and> fds_ok B u" if S: "closed_heads (ab b) S" "proc_shape s \<in> set S" for S
  proof -
    obtain rs where rs: "ab b (proc_shape s) = Some rs" using S by (auto simp: closed_heads_def)
    then have t: "(proc_shape t, oc) \<in> set rs" "fds_ok B t" using loop_next.IH(1) loop_next.prems by auto
    then have "proc_shape t \<in> set S" using S rs loop_next.hyps(2) unfolding closed_heads_def hop_def again_def by blast
    then show ?thesis using loop_next.IH(2) [OF t(2)] S(1) by blast
  qed
  then show ?case by (rule loop_case)
next
  case (loop_break b s t stop)
  have out: "loop_out (ab b) S stop (proc_shape t) Normal \<and> fds_ok B t" if S: "closed_heads (ab b) S" "proc_shape s \<in> set S" for S
  proof -
    obtain rs where rs: "ab b (proc_shape s) = Some rs" using S by (auto simp: closed_heads_def)
    then have "(proc_shape t, Broke) \<in> set rs" "fds_ok B t" using loop_break by auto
    then show ?thesis using rs S(2) by (auto simp: loop_out_def again_def)
  qed
  then show ?case by (rule loop_case)
next
  case (loop_leave b s t oc stop)
  have out: "loop_out (ab b) S stop (proc_shape t) oc \<and> fds_ok B t" if S: "closed_heads (ab b) S" "proc_shape s \<in> set S" for S
  proof -
    obtain rs where rs: "ab b (proc_shape s) = Some rs" using S by (auto simp: closed_heads_def)
    then have t: "(proc_shape t, oc) \<in> set rs" "fds_ok B t" using loop_leave by auto
    moreover have "\<not> again oc" "oc = (if oc = Broke then Normal else oc)" using loop_leave(2) by (auto simp: again_def)
    ultimately show ?thesis using rs S(2) unfolding loop_out_def by blast
  qed
  then show ?case by (rule loop_case)
next
  case (scoped b s t oc v)
  then show ?case by (force simp: shape_guard fds_ok_guard)
next
  case (label b s t oc)
  then show ?case by force
next
  case (exec_cons c s t cs u oc)
  show ?case
  proof (intro allI impI)
    fix rs assume "ab (c # cs) (proc_shape s) = Some rs"
    then obtain rs1 where rs1: "ab1 c (proc_shape s) = Some rs1" "\<And>x. (x, Normal) \<in> set rs1 \<Longrightarrow> ab cs x \<noteq> None"
      "\<And>y oc. (y, oc) \<in> set rs \<longleftrightarrow> oc \<noteq> Normal \<and> (y, oc) \<in> set rs1 \<or> (\<exists>x q. (x, Normal) \<in> set rs1 \<and> ab cs x = Some q \<and> (y, oc) \<in> set q)"
      by (rule ab_Cons) blast
    have t: "(proc_shape t, Normal) \<in> set rs1" "fds_ok B t" using exec_cons.IH(1) [OF exec_cons.prems] rs1(1) by auto
    then show "(proc_shape u, oc) \<in> set rs \<and> fds_ok B u" using exec_cons.IH(2) [OF t(2)] rs1(2, 3) by blast
  qed
next
  case (exec_stop c s t oc cs)
  show ?case
  proof (intro allI impI)
    fix rs assume "ab (c # cs) (proc_shape s) = Some rs"
    then obtain rs1 where rs1: "ab1 c (proc_shape s) = Some rs1"
      "\<And>y oc. (y, oc) \<in> set rs \<longleftrightarrow> oc \<noteq> Normal \<and> (y, oc) \<in> set rs1 \<or> (\<exists>x q. (x, Normal) \<in> set rs1 \<and> ab cs x = Some q \<and> (y, oc) \<in> set q)"
      by (rule ab_Cons) blast
    then show "(proc_shape t, oc) \<in> set rs \<and> fds_ok B t" using exec_stop.IH [OF exec_stop.prems] exec_stop.hyps(2) by blast
  qed
qed (auto simp: shape_misuse shape_close shape_updates fds_ok_same fds_ok_close split: if_splits option.splits)

text \<open>Every abstract result comes from an execution.\<close>

lemma fresh_fd: "fds_ok B s \<Longrightarrow> \<exists>fd. fd \<notin> opened s"
  using ex_new_if_finite [OF infinite_UNIV_nat, of "opened s"] by (simp add: fds_ok_def)

lemma fresh_fds:
  assumes "fds_ok B s"
  obtains fd fd' where "fd \<notin> opened s" "fd' \<notin> opened s" "fd \<noteq> fd'"
proof -
  obtain fd where fd: "fd \<notin> opened s" using fresh_fd [OF assms] by blast
  have "finite (insert fd (opened s))" using assms by (simp add: fds_ok_def)
  then obtain fd' where "fd' \<notin> insert fd (opened s)" using ex_new_if_finite [OF infinite_UNIV_nat] by blast
  then show ?thesis using that [of fd fd'] fd by auto
qed

definition realised :: "(proc \<Rightarrow> proc \<Rightarrow> fd_outcome \<Rightarrow> bool) \<Rightarrow> proc \<Rightarrow> astate \<Rightarrow> fd_outcome \<Rightarrow> bool" where
  "realised run s a oc \<longleftrightarrow> (\<exists>t. run s t oc \<and> proc_shape t = a)"

lemma realisedI: "run s s oc \<Longrightarrow> proc_shape s = a \<Longrightarrow> realised run s a oc"
  by (auto simp: realised_def)

lemma loop_heads_reached:
  assumes body: "\<And>x s rs y oc. ab b x = Some rs \<Longrightarrow> proc_shape s = x \<Longrightarrow> fds_ok B s \<Longrightarrow> (y, oc) \<in> set rs \<Longrightarrow> realised (exec b) s y oc"
    and reach: "(hop (ab b))\<^sup>*\<^sup>* (proc_shape s) y" and s: "fds_ok B s"
  shows "\<exists>t. proc_shape t = y \<and> fds_ok B t \<and> (\<forall>u oc. exec1 (Loop stop b) t u oc \<longrightarrow> exec1 (Loop stop b) s u oc)"
  using reach
proof (induction rule: rtranclp_induct)
  case (step y z)
  then obtain t where t: "proc_shape t = y" "fds_ok B t" "\<forall>u oc. exec1 (Loop stop b) t u oc \<longrightarrow> exec1 (Loop stop b) s u oc" by blast
  obtain rs oc where rs: "ab b y = Some rs" "(z, oc) \<in> set rs" "again oc" using step(2) by (auto simp: hop_def)
  then obtain t' where t': "exec b t t' oc" "proc_shape t' = z" using body [OF rs(1) t(1, 2) rs(2)] by (auto simp: realised_def)
  then have "fds_ok B t'" using ab_sound(2) [OF t'(1) t(2)] rs(1) t(1) by blast
  moreover have "exec1 (Loop stop b) t' u oc' \<Longrightarrow> exec1 (Loop stop b) s u oc'" for u oc'
    using loop_next [OF t'(1)] rs(3) t(3) unfolding again_def by blast
  ultimately show ?case using t'(2) by blast
qed (use s in blast)

lemma loop_realised:
  assumes body: "\<And>x s rs y oc. ab b x = Some rs \<Longrightarrow> proc_shape s = x \<Longrightarrow> fds_ok B s \<Longrightarrow> (y, oc) \<in> set rs \<Longrightarrow> realised (exec b) s y oc"
    and rs: "ab1 (Loop stop b) (proc_shape s) = Some rs" and s: "fds_ok B s" and y: "(y, oc) \<in> set rs"
  shows "realised (exec1 (Loop stop b)) s y oc"
proof -
  obtain S where S: "\<forall>x\<in>set S. (hop (ab b))\<^sup>*\<^sup>* (proc_shape s) x" "loop_out (ab b) S stop y oc" using ab1_loop [OF rs] y by blast
  have head: "\<exists>t. proc_shape t = x \<and> fds_ok B t \<and> (\<forall>u oc. exec1 (Loop stop b) t u oc \<longrightarrow> exec1 (Loop stop b) s u oc)" if "x \<in> set S" for x
    using S(1) that by (intro loop_heads_reached [OF body _ s]) auto
  from S(2) consider "stop" "oc = Normal" "y \<in> set S"
    | x q oc' where "x \<in> set S" "ab b x = Some q" "(y, oc') \<in> set q" "\<not> again oc'" "oc = (if oc' = Broke then Normal else oc')"
    unfolding loop_out_def by blast
  then show ?thesis
  proof cases
    case 1
    then obtain t where t: "proc_shape t = y" "\<forall>u oc. exec1 (Loop stop b) t u oc \<longrightarrow> exec1 (Loop stop b) s u oc" using head by blast
    have "exec1 (Loop stop b) t t Normal" using loop_stop 1(1) by simp
    then show ?thesis unfolding realised_def 1(2) using t by blast
  next
    case 2
    then obtain t where t: "proc_shape t = x" "fds_ok B t" "\<forall>u oc. exec1 (Loop stop b) t u oc \<longrightarrow> exec1 (Loop stop b) s u oc" using head by blast
    then obtain u where u: "exec b t u oc'" "proc_shape u = y" using body [OF 2(2) t(1, 2) 2(3)] by (auto simp: realised_def)
    have "exec1 (Loop stop b) t u oc"
      using loop_break [of b t u stop] loop_leave [OF u(1), of stop] u(1) 2(4, 5) by (cases oc') (auto simp: again_def)
    then show ?thesis unfolding realised_def using t(3) u(2) by blast
  qed
qed

lemma ab_complete:
  "ab1 c a = Some rs \<Longrightarrow> proc_shape s = a \<Longrightarrow> fds_ok B s \<Longrightarrow> (y, oc) \<in> set rs \<Longrightarrow> realised (exec1 c) s y oc"
  "ab b a = Some rs \<Longrightarrow> proc_shape s = a \<Longrightarrow> fds_ok B s \<Longrightarrow> (y, oc) \<in> set rs \<Longrightarrow> realised (exec b) s y oc"
proof (induction c a and b a arbitrary: rs s y oc and rs s y oc rule: ab1_ab.induct)
  case (1 v us c a)
  obtain fd where fd: "fd \<notin> opened s" using fresh_fd [OF 1(3)] by blast
  have "settable (vals s) v" using 1 by (auto split: if_splits)
  then have "oc = Normal \<and> (list_all (usable (vals s)) us \<and> y = proc_shape (s\<lparr>vals := setv v (Live fd) (vals s), opened := insert fd (opened s)\<rparr>) \<or>
      y = proc_shape ((misuse us s)\<lparr>vals := setv v Minus1 (vals s)\<rparr>))"
    using 1 by (auto simp: shape_updates split: if_splits)
  then show ?case using get_ok [OF _ fd] get_fail unfolding realised_def by blast
next
  case (2 v w b a)
  obtain fd fd' where fd: "fd \<notin> opened s" "fd' \<notin> opened s" "fd \<noteq> fd'" using fresh_fds [OF 2(4)] by blast
  obtain q where q: "settable (fst a) v \<and> settable (fst a) w \<and> v \<noteq> w" "ab b a = Some q"
      "rs = ((setv w (Live ()) (setv v (Live ()) (fst a)), snd a), Normal) # q"
    using 2(2) by (auto split: if_splits)
  consider "oc = Normal" "y = proc_shape (s\<lparr>vals := setv w (Live fd') (setv v (Live fd) (vals s)), opened := insert fd' (insert fd (opened s))\<rparr>)" | "(y, oc) \<in> set q"
    using 2(3, 5) q(3) by (auto simp: shape_updates)
  then show ?case
  proof cases
    case 1
    then show ?thesis using pair_ok [OF fd] unfolding realised_def by blast
  next
    case 3: 2
    then show ?thesis using 2(1) [OF q(1, 2) 2(3, 4)] pair_fail unfolding realised_def by blast
  qed
next
  case (3 us c a)
  then show ?case using use [of us c s] unfolding realised_def by (auto simp: shape_misuse intro: exI [of _ "misuse us s"])
next
  case (4 us c b a)
  obtain q where q: "ab b (a_misuse us a) = Some q" "rs = (if list_all (usable (fst a)) us then [(a, Normal)] else []) @ q" using 4(2) by auto
  have "fds_ok B (misuse us s)" "proc_shape (misuse us s) = a_misuse us a" using 4(3, 4) by (simp_all add: fds_ok_same shape_misuse)
  note IH = 4(1) [OF q(1) this(2, 1)]
  consider "list_all (usable (vals s)) us" "oc = Normal" "y = proc_shape s" | "(y, oc) \<in> set q"
    using 4(3, 5) q(2) by (auto split: if_splits)
  then show ?case
  proof cases
    case 1
    then show ?thesis using fails_ok unfolding realised_def by blast
  next
    case 2
    then show ?thesis using IH fails unfolding realised_def by blast
  qed
next
  case (5 v p b a)
  obtain q where q: "ab b (a_misuse [v] a) = Some q"
    "rs = (if usable (fst a) v \<and> p \<notin> set (fst (snd a)) then [((fst a, p # fst (snd a), snd (snd a)), Normal)] else []) @ q" using 5(2) by auto
  have "fds_ok B (misuse [v] s)" "proc_shape (misuse [v] s) = a_misuse [v] a" using 5(3, 4) by (simp_all add: fds_ok_same shape_misuse)
  note IH = 5(1) [OF q(1) this(2, 1)]
  consider "usable (vals s) v" "p \<notin> set (files s)" "oc = Normal" "y = proc_shape (s\<lparr>files := p # files s\<rparr>)" | "(y, oc) \<in> set q"
    using 5(3, 5) q(2) by (auto simp: shape_updates split: if_splits)
  then show ?case
  proof cases
    case 1
    then show ?thesis using bind_ok unfolding realised_def by blast
  next
    case 2
    then show ?thesis using IH bind_fail unfolding realised_def by blast
  qed
next
  case (6 p a)
  then show ?case using creates [of p s] unfolding realised_def by (auto simp: shape_updates)
next
  case (7 p a)
  then show ?case using unlink [of p s] unfolding realised_def by (auto simp: shape_updates)
next
  case (8 v b a)
  have test: "minus1 (fst a) v = minus1 (vals s) v" using 8(3) by auto
  show ?case
  proof (cases "minus1 (vals s) v")
    case True
    then have "ab b a = Some rs" using 8(2) test by simp
    then show ?thesis using 8(1) [OF _ _ 8(3-5)] if_bad [OF True] True unfolding test realised_def by blast
  next
    case False
    then have "y = proc_shape s" "oc = Normal" using 8(2, 3, 5) test by auto
    then show ?thesis using if_bad_not [OF False] unfolding realised_def by blast
  qed
next
  case (9 v b a)
  have test: "minus1 (fst a) v = minus1 (vals s) v" using 9(3) by auto
  show ?case
  proof (cases "minus1 (vals s) v")
    case True
    then have "y = proc_shape s" "oc = Normal" using 9(2, 3, 5) test by auto
    then show ?thesis using if_good_not [OF True] unfolding realised_def by blast
  next
    case False
    then have "ab b a = Some rs" using 9(2) test by simp
    then show ?thesis using 9(1) [OF _ _ 9(3-5)] if_good [OF False] False unfolding test realised_def by blast
  qed
next
  case (10 v a)
  then show ?case using close [of v s] unfolding realised_def by (auto simp: shape_close)
next
  case (16 b b' a)
  obtain q q' where q: "ab b a = Some q" "ab b' a = Some q'" "rs = q @ q'" using 16(3) by (auto split: option.splits)
  then show ?case
    using 16(1) [OF q(1) 16(4, 5)] 16(2) [OF q(2) 16(4, 5)] 16(6) either_left [of b s] either_right [of b' s] unfolding realised_def by (metis Un_iff set_append)
next
  case (17 stop b a)
  show ?case
    by (rule loop_realised [where s = s and B = B and rs = rs]) (use 17 in auto)
next
  case (18 v b a)
  obtain q where q: "ab b a = Some q" "rs = map (\<lambda>(x, oc). (if oc = Exited then x else a_guard v x, oc)) q" using 18(2) by auto
  then obtain x where x: "(x, oc) \<in> set q" "y = (if oc = Exited then x else a_guard v x)" using 18(5) by auto
  then obtain t where t: "exec b s t oc" "proc_shape t = x" using 18(1) [OF q(1) 18(3, 4) x(1)] unfolding realised_def by blast
  then show ?case using scoped [OF t(1), of v] x(2) unfolding realised_def by (auto simp: shape_guard split: if_splits)
next
  case (19 b a)
  obtain q where q: "ab b a = Some q" "rs = map (\<lambda>(x, oc). (x, if oc = Returned then Normal else oc)) q" using 19(2) by auto
  then obtain oc' where x: "(y, oc') \<in> set q" "oc = (if oc' = Returned then Normal else oc')" using 19(5) by auto
  then obtain t where t: "exec b s t oc'" "proc_shape t = y" using 19(1) [OF q(1) 19(3, 4) x(1)] unfolding realised_def by blast
  then show ?case using label [OF t(1)] x(2) unfolding realised_def by blast
next
  case (21 c cs a)
  obtain rs1 where rs1: "ab1 c a = Some rs1" "\<And>x. (x, Normal) \<in> set rs1 \<Longrightarrow> ab cs x \<noteq> None"
    "\<And>y oc. (y, oc) \<in> set rs \<longleftrightarrow> oc \<noteq> Normal \<and> (y, oc) \<in> set rs1 \<or> (\<exists>x q. (x, Normal) \<in> set rs1 \<and> ab cs x = Some q \<and> (y, oc) \<in> set q)"
    using ab_Cons [OF 21(3)] by blast
  from 21(6) [unfolded rs1(3)] show ?case
  proof (elim disjE conjE exE)
    assume "oc \<noteq> Normal" "(y, oc) \<in> set rs1"
    then show ?thesis using 21(1) [OF rs1(1) 21(4, 5)] exec_stop unfolding realised_def by blast
  next
    fix x q assume x: "(x, Normal) \<in> set rs1" "ab cs x = Some q" "(y, oc) \<in> set q"
    obtain t where t: "exec1 c s t Normal" "proc_shape t = x" using 21(1) [OF rs1(1) 21(4, 5) x(1)] by (auto simp: realised_def)
    have "fds_ok B t" using ab_sound(1) [OF t(1) 21(5)] rs1(1) 21(4) by blast
    from 21(2) [OF rs1(1) x(1) refl refl x(2) t(2) this x(3)] obtain u where "exec cs t u oc" "proc_shape u = y" unfolding realised_def by blast
    then show ?thesis using exec_cons [OF t(1)] unfolding realised_def by blast
  qed
qed (auto intro!: realisedI intro: exec1_exec.intros)

section \<open>What the checks decide\<close>

lemma fds_ok_start: "finite B \<Longrightarrow> fds_ok B (proc_start vs B)"
proof -
  have "\<not> holds_fd (map (\<lambda>v. (v, Minus1)) vs) v fd" for v and fd :: nat
    by (induction vs) (auto simp: holds_fd_def)
  then show "finite B \<Longrightarrow> fds_ok B (proc_start vs B)" by (simp add: fds_ok_def proc_start_def)
qed

lemma shape_start: "proc_shape (proc_start vs B) = a_start vs"
  by (simp add: proc_shape_def proc_start_def a_start_def blank_def)

lemma no_live_opened: "fds_ok B t \<Longrightarrow> no_live (proc_shape t) \<Longrightarrow> opened t = B"
proof -
  assume ok: "fds_ok B t" and none: "no_live (proc_shape t)"
  have "\<not> holds_fd (vals t) v fd" for v fd
  proof
    assume "holds_fd (vals t) v fd"
    then have "(v, Live fd) \<in> set (vals t)" by (simp add: holds_fd_def map_of_SomeD)
    then have "(v, Live ()) \<in> set (blank (vals t))" by (force simp: blank_def)
    then show False using none by (auto simp: no_live_def list_all_iff)
  qed
  then show ?thesis using ok by (auto simp: fds_ok_def)
qed

lemma releases_all_sound:
  assumes "releases_all vs b" and "finite B" and "exec b (proc_start vs B) t oc" and "oc \<noteq> Exited"
  shows "opened t = B" and "files t = []"
proof -
  obtain rs where rs: "ab b (a_start vs) = Some rs" "list_all (\<lambda>(a, oc). oc = Exited \<or> no_live a \<and> fst (snd a) = []) rs"
    using assms(1) by (auto simp: releases_all_def split: option.splits)
  have t: "(proc_shape t, oc) \<in> set rs" "fds_ok B t"
    using ab_sound(2) [OF assms(3) fds_ok_start [OF assms(2)]] rs(1) by (simp_all add: shape_start)
  then have "no_live (proc_shape t) \<and> fst (snd (proc_shape t)) = []" using rs(2) assms(4) by (auto simp: list_all_iff)
  then show "opened t = B" "files t = []" using no_live_opened [OF t(2)] by auto
qed

text \<open>An outcome that the abstract interpreter sees is that of some execution.\<close>

definition reaches :: "string list \<Rightarrow> fd_stmt list \<Rightarrow> fd_outcome \<Rightarrow> bool" where
  "reaches vs b oc = (case ab b (a_start vs) of None \<Rightarrow> False | Some rs \<Rightarrow> list_ex (\<lambda>r. snd r = oc) rs)"

lemma reaches_exec:
  assumes "reaches vs b oc" and "finite B"
  shows "\<exists>t. exec b (proc_start vs B) t oc"
proof -
  obtain rs where rs: "ab b (a_start vs) = Some rs" "list_ex (\<lambda>r. snd r = oc) rs"
    using assms(1) by (auto simp: reaches_def split: option.splits)
  then obtain r where r: "r \<in> set rs" "snd r = oc" unfolding list_ex_iff by blast
  have "realised (exec b) (proc_start vs B) (fst r) oc"
    by (rule ab_complete(2) [OF rs(1) shape_start fds_ok_start [OF assms(2)]]) (simp add: r flip: r(2))
  then show ?thesis unfolding realised_def by blast
qed

lemma checks_all_exact:
  assumes "ab b (a_start vs) \<noteq> None" and "finite B"
  shows "checks_all vs b \<longleftrightarrow> (\<forall>t oc. exec b (proc_start vs B) t oc \<longrightarrow> \<not> misused t)"
proof
  obtain rs where rs: "ab b (a_start vs) = Some rs" using assms(1) by blast
  have flag: "misused t \<longleftrightarrow> snd (snd (proc_shape t))" for t by simp
  show "\<forall>t oc. exec b (proc_start vs B) t oc \<longrightarrow> \<not> misused t" if "checks_all vs b"
  proof (intro allI impI)
    fix t oc assume "exec b (proc_start vs B) t oc"
    then have "(proc_shape t, oc) \<in> set rs" using ab_sound(2) [OF _ fds_ok_start [OF assms(2)]] rs by (simp add: shape_start)
    then show "\<not> misused t" using that rs unfolding flag checks_all_def by (force simp: list_all_iff)
  qed
  show "checks_all vs b" if none: "\<forall>t oc. exec b (proc_start vs B) t oc \<longrightarrow> \<not> misused t"
  proof -
    have "\<not> snd (snd (fst r))" if "r \<in> set rs" for r
    proof -
      have "realised (exec b) (proc_start vs B) (fst r) (snd r)"
        by (rule ab_complete(2) [OF rs shape_start fds_ok_start [OF assms(2)]]) (simp add: that)
      then obtain t where "exec b (proc_start vs B) t (snd r)" "proc_shape t = fst r" unfolding realised_def by blast
      then show ?thesis using none flag [of t] by metis
    qed
    then show ?thesis unfolding checks_all_def rs option.case list_all_iff case_prod_beta by blast
  qed
qed

text \<open>Some execution that ends the process leaves the name \<open>p\<close> behind.\<close>

definition strands :: "string list \<Rightarrow> fd_stmt list \<Rightarrow> string \<Rightarrow> bool" where
  "strands vs b p =
     (case ab b (a_start vs) of None \<Rightarrow> False | Some rs \<Rightarrow> list_ex (\<lambda>r. snd r = Exited \<and> List.member (fst (snd (fst r))) p) rs)"

lemma strands_exec:
  assumes "strands vs b p" and "finite B"
  shows "\<exists>t. exec b (proc_start vs B) t Exited \<and> p \<in> set (files t)"
proof -
  obtain rs where rs: "ab b (a_start vs) = Some rs" "list_ex (\<lambda>r. snd r = Exited \<and> List.member (fst (snd (fst r))) p) rs"
    using assms(1) by (auto simp: strands_def split: option.splits)
  then obtain r where r: "r \<in> set rs" "snd r = Exited" "p \<in> set (fst (snd (fst r)))" unfolding list_ex_iff by auto
  have "realised (exec b) (proc_start vs B) (fst r) Exited"
    by (rule ab_complete(2) [OF rs(1) shape_start fds_ok_start [OF assms(2)]]) (simp add: r flip: r(2))
  then obtain t where "exec b (proc_start vs B) t Exited" "proc_shape t = fst r" unfolding realised_def by blast
  then show ?thesis using r(3) by (metis shape_sel(2) fst_conv)
qed

text \<open>The three questions, answered by one run of the interpreter.\<close>

definition verdict :: "string list \<Rightarrow> fd_stmt list \<Rightarrow> (bool \<times> bool \<times> bool) option" where
  "verdict vs b =
     map_option (\<lambda>rs. (list_all (\<lambda>(a, oc). oc = Exited \<or> no_live a \<and> fst (snd a) = []) rs, list_all (\<lambda>(a, oc). \<not> snd (snd a)) rs,
       list_ex (\<lambda>r. snd r = Normal) rs)) (ab b (a_start vs))"

lemma verdict_iff:
  assumes "verdict vs b = Some (r, c, n)"
  shows "ab b (a_start vs) \<noteq> None" and "releases_all vs b = r" and "checks_all vs b = c" and "reaches vs b Normal = n"
  using assms by (auto simp: verdict_def releases_all_def checks_all_def reaches_def)

end
