(* ===== verification/Network_Calls.thy ===== *)
theory Network_Calls
  imports Descriptors
begin

text \<open>
  Thirty-four functions of \<^verbatim>\<open>networking/01\<close> to \<^verbatim>\<open>networking/08\<close>, the client of \<^verbatim>\<open>09\<close> and the framed server and client of \<^verbatim>\<open>10\<close> as the system calls they make on descriptors, in the language of \<^verbatim>\<open>Descriptors\<close>;
  \<open>checked_functions\<close> and \<open>unchecked_functions\<close> list them.  Not among them are the functions that keep descriptors in a table or hand them on: \<open>demo_poll\<close>, \<open>demo_epoll\<close> and \<open>demo_kqueue\<close>
  (in \<^verbatim>\<open>Event_Loops\<close>), \<open>io_uring_echo_server\<close> (in \<^verbatim>\<open>Transfers\<close>), \<open>connect_with_timeout\<close> and \<open>reconnect_with_backoff\<close> (in \<^verbatim>\<open>Connections\<close>); some of those leak.  A thread started by a
  function is a function of its own.  For each function it is decided whether every descriptor it opens is closed and every socket file it
  creates is removed on every way out, and whether it ever passes \<open>-1\<close> or a closed descriptor to a call.
\<close>

section \<open>Shared fragments\<close>

text \<open>\<^verbatim>\<open>v = socket(...); if (v == -1) die("socket");\<close>\<close>

definition new_socket :: "string \<Rightarrow> string \<Rightarrow> fd_stmt list" where
  "new_socket v msg = [Get v [] ''socket'', If_Bad v [Die msg]]"

text \<open>\<open>recv_exactly\<close> and \<open>send_all\<close>: they exit on an error other than \<open>EINTR\<close>; the former tells the end of the stream from the full message.\<close>

definition recv_exactly_calls :: "string \<Rightarrow> fd_stmt list \<Rightarrow> fd_stmt list" where
  "recv_exactly_calls v eof = [Loop True [Fails [v] ''recv'' [Either [Next_Loop] [Die ''recv'']]], Either eof []]"

definition send_all_calls :: "string \<Rightarrow> fd_stmt list" where
  "send_all_calls v = [Loop True [Fails [v] ''send'' [Either [Next_Loop] [Die ''send'']]]]"

definition set_nonblocking_calls :: "string \<Rightarrow> fd_stmt list" where
  "set_nonblocking_calls v = [Fails [v] ''fcntl F_GETFL'' [Die ''fcntl F_GETFL''], Fails [v] ''fcntl F_SETFL'' [Die ''fcntl F_SETFL'']]"

section \<open>\<^verbatim>\<open>01_tcp_server_client.cpp\<close>\<close>

definition run_server_calls :: "fd_stmt list" where
  "run_server_calls =
     new_socket ''srv'' ''socket'' @
     [Scoped ''srv''
       ([Fails [''srv''] ''setsockopt'' [Die ''setsockopt SO_REUSEADDR''],
         Fails [''srv''] ''bind'' [Die ''bind''],
         Fails [''srv''] ''listen'' [Die ''listen''],
         Puts ''server: listening on port 19900'',
         Get ''cli'' [''srv''] ''accept'',
         If_Bad ''cli'' [Die ''accept''],
         Scoped ''cli''
           [Puts ''server: connection from %s:%d'',
            Loop False
              (recv_exactly_calls ''cli'' [Break_Loop] @
               [Either [Puts ''server: invalid message length, closing'', Break_Loop] []] @
               recv_exactly_calls ''cli'' [Break_Loop] @
               [Puts ''server: echoing '' ] @ send_all_calls ''cli'' @ send_all_calls ''cli''),
            Puts ''server: client disconnected, shutting down'']])]"

definition run_client_calls :: "fd_stmt list" where
  "run_client_calls =
     new_socket ''fd'' ''socket'' @
     [Scoped ''fd''
       [Fails [''fd''] ''connect'' [Die ''connect''],
        Puts ''client: connected'',
        Loop True
          (send_all_calls ''fd'' @ send_all_calls ''fd'' @ [Puts ''client: sent ''] @
           recv_exactly_calls ''fd'' [] @ recv_exactly_calls ''fd'' [] @ [Puts ''client: got echo '']),
        Use [''fd''] ''shutdown'',
        Puts ''client: sent FIN, done'']]"

section \<open>\<^verbatim>\<open>02_tcp_options.cpp\<close>\<close>

definition show_opt_calls :: "string \<Rightarrow> string \<Rightarrow> fd_stmt" where
  "show_opt_calls v name = Fails [v] ''getsockopt'' [Puts (name @ '' = (not supported)'')]"

definition socket_options_calls :: "fd_stmt list" where
  "socket_options_calls =
     [Puts ''socket option defaults''] @ new_socket ''fd'' ''socket'' @
     map (show_opt_calls ''fd'') [''SO_REUSEADDR'', ''SO_REUSEPORT'', ''TCP_NODELAY'', ''SO_KEEPALIVE'', ''SO_SNDBUF'', ''SO_RCVBUF''] @
     [Puts ''after setting options'', Use [''fd''] ''setsockopt SO_REUSEADDR'', Use [''fd''] ''setsockopt SO_REUSEPORT'', Use [''fd''] ''setsockopt TCP_NODELAY'',
      Use [''fd''] ''setsockopt SO_KEEPALIVE'', Use [''fd''] ''setsockopt SO_SNDBUF'', Use [''fd''] ''setsockopt SO_RCVBUF''] @
     map (show_opt_calls ''fd'') [''SO_REUSEADDR'', ''SO_REUSEPORT'', ''TCP_NODELAY'', ''SO_KEEPALIVE'', ''SO_SNDBUF (actual)'', ''SO_RCVBUF (actual)''] @
     [Close ''fd'']"

definition echo_server_calls :: "fd_stmt list" where
  "echo_server_calls =
     [Get ''srv'' [] ''socket'', Use [''srv''] ''setsockopt SO_REUSEADDR'', Either [Use [''srv''] ''setsockopt TCP_NODELAY''] [],
      Use [''srv''] ''bind'', Use [''srv''] ''listen'', Get ''cli'' [''srv''] ''accept'', Either [Use [''cli''] ''setsockopt TCP_NODELAY''] [],
      Loop True [Use [''cli''] ''recv'', Either [Use [''cli''] ''send''] []],
      Close ''cli'', Close ''srv'']"

definition ping_rtt_calls :: "fd_stmt list" where
  "ping_rtt_calls =
     [Get ''fd'' [] ''socket'', Either [Use [''fd''] ''setsockopt TCP_NODELAY''] [], Use [''fd''] ''connect'',
      Loop True [Use [''fd''] ''send'', Use [''fd''] ''recv''], Close ''fd'']"

definition linger_calls :: "fd_stmt list" where
  "linger_calls =
     [Puts ''SO_LINGER (RST on close)''] @ new_socket ''fd'' ''socket'' @
     [Fails [''fd''] ''setsockopt SO_LINGER'' [Die ''setsockopt SO_LINGER''], Use [''fd''] ''getsockopt SO_LINGER'',
      Puts ''  SO_LINGER: on=%d  timeout=%d s'', Close ''fd'']"

definition keepalive_calls :: "fd_stmt list" where
  "keepalive_calls =
     [Puts ''TCP keepalive tuning''] @ new_socket ''fd'' ''socket'' @
     [Use [''fd''] ''setsockopt SO_KEEPALIVE'', Use [''fd''] ''setsockopt TCP_KEEPIDLE'', Use [''fd''] ''setsockopt TCP_KEEPINTVL'',
      Use [''fd''] ''setsockopt TCP_KEEPCNT'', Puts ''  TCP_KEEPIDLE=%d  TCP_KEEPINTVL=%d  TCP_KEEPCNT=%d'', Close ''fd'']"

section \<open>\<^verbatim>\<open>03_nonblocking_io.cpp\<close>\<close>

text \<open>The \<open>goto done\<close> leaves both loops.\<close>

definition nonblocking_server_calls :: "fd_stmt list" where
  "nonblocking_server_calls =
     new_socket ''srv'' ''socket'' @
     [Use [''srv''] ''setsockopt SO_REUSEADDR'', Use [''srv''] ''setsockopt TCP_NODELAY'', Use [''srv''] ''bind'', Use [''srv''] ''listen''] @
     set_nonblocking_calls ''srv'' @
     [Puts ''server: waiting for connection (non-blocking accept)'',
      Loop False
        [If_Good ''cli'' [Break_Loop],
         Use [''srv''] ''poll'',
         Either [Puts ''server: poll timeout'', Next_Loop] [],
         Either [Next_Loop] [],
         Get ''cli'' [''srv''] ''accept'',
         If_Bad ''cli'' [Either [] [Die ''accept'']]],
      Puts ''server: accepted connection''] @
     set_nonblocking_calls ''cli'' @
     [Label
       [Loop False
         [Use [''cli''] ''poll'',
          Either [Puts ''server: recv timeout, done'', Break_Loop] [],
          Loop False
            [Use [''cli''] ''recv'',
             Either [Puts ''server: EOF'', Leave] [],
             Either [Either [Break_Loop] [Die ''recv'']] [],
             Puts ''server: received [%zd bytes]'']]],
      Puts ''server: total messages received: %d'',
      Close ''cli'', Close ''srv'']"

definition nonblocking_client_calls :: "fd_stmt list" where
  "nonblocking_client_calls =
     new_socket ''fd'' ''socket'' @
     [Use [''fd''] ''setsockopt TCP_NODELAY''] @ set_nonblocking_calls ''fd'' @
     [Fails [''fd''] ''connect''
        [Either
          [Puts ''client: connect in progress (EINPROGRESS), polling...'',
           Use [''fd''] ''poll'',
           Either [Die ''poll for connect''] [],
           Use [''fd''] ''getsockopt SO_ERROR'',
           Either [Puts ''client: connect failed: %s'', Close ''fd'', Leave] [],
           Puts ''client: connect completed successfully'']
          [Die ''connect'']],
      Loop True
        [Loop True [Use [''fd''] ''poll'', Fails [''fd''] ''send'' [Either [Next_Loop] [Die ''send'']]],
         Puts ''client: sent ''],
      Use [''fd''] ''shutdown'', Close ''fd'', Puts ''client: done'']"

definition poll_multiple_calls :: "fd_stmt list" where
  "poll_multiple_calls =
     [Puts ''poll() multiple socket demo'', Get ''fd1'' [] ''socket'', Get ''fd2'' [] ''socket'', Use [''fd1''] ''setsockopt SO_REUSEADDR''] @
     set_nonblocking_calls ''fd1'' @ [Use [''fd2''] ''setsockopt SO_REUSEADDR''] @ set_nonblocking_calls ''fd2'' @
     [Use [''fd1''] ''bind'', Use [''fd1''] ''listen'', Use [''fd2''] ''bind'', Use [''fd2''] ''listen'',
      Use [''fd1'', ''fd2''] ''poll'',
      Either [Puts ''  poll timed out (no connections)''] [Puts ''  fd=%d is ready for accept''],
      Close ''fd1'', Close ''fd2'']"

section \<open>\<^verbatim>\<open>04_udp_basics.cpp\<close>\<close>

definition udp_receiver_calls :: "fd_stmt list" where
  "udp_receiver_calls =
     new_socket ''fd'' ''socket'' @
     [Use [''fd''] ''setsockopt SO_REUSEADDR'', Fails [''fd''] ''bind'' [Die ''bind''], Puts ''receiver: bound to port 19905'',
      Loop True
        [Fails [''fd''] ''recvfrom'' [Die ''recvfrom''],
         Either [Puts ''receiver: unexpected packet size %zd (expected %zu)'', Next_Loop] [],
         Puts ''receiver: seq=%u''],
      Puts ''receiver: done'', Close ''fd'']"

definition udp_sender_calls :: "fd_stmt list" where
  "udp_sender_calls =
     new_socket ''fd'' ''socket'' @
     [Loop True [Fails [''fd''] ''sendto'' [Die ''sendto''], Puts ''sender:   seq=%u''], Close ''fd'']"

definition connected_udp_calls :: "fd_stmt list" where
  "connected_udp_calls =
     [Puts ''connected UDP'', Get ''recv_fd'' [] ''socket'', Use [''recv_fd''] ''setsockopt SO_REUSEADDR'', Use [''recv_fd''] ''bind'',
      Get ''send_fd'' [] ''socket'', Fails [''send_fd''] ''connect'' [Die ''connect UDP''], Puts ''  sender connected (no handshake, just address stored)'',
      Use [''send_fd''] ''send'', Use [''recv_fd''] ''poll'', Either [Use [''recv_fd''] ''recv''] [],
      Close ''send_fd'', Close ''recv_fd'']"

section \<open>\<^verbatim>\<open>05_udp_multicast.cpp\<close>\<close>

definition multicast_receiver_calls :: "fd_stmt list" where
  "multicast_receiver_calls =
     new_socket ''fd'' ''socket'' @
     [Use [''fd''] ''setsockopt SO_REUSEADDR'', Use [''fd''] ''setsockopt SO_REUSEPORT'', Fails [''fd''] ''bind'' [Die ''bind''],
      Fails [''fd''] ''setsockopt IP_ADD_MEMBERSHIP'' [Puts ''IP_ADD_MEMBERSHIP'', Close ''fd'', Leave],
      Puts ''receiver[%d]: joined %s:%d'',
      Loop True [Use [''fd''] ''recvfrom'', Either [Break_Loop] [], Puts ''receiver[%d]: seq=%u''],
      Use [''fd''] ''setsockopt IP_DROP_MEMBERSHIP'', Puts ''receiver[%d]: left group, closing'', Close ''fd'']"

definition multicast_sender_calls :: "fd_stmt list" where
  "multicast_sender_calls =
     new_socket ''fd'' ''socket'' @
     [Fails [''fd''] ''setsockopt IP_MULTICAST_TTL'' [Puts ''IP_MULTICAST_TTL''],
      Use [''fd''] ''setsockopt IP_MULTICAST_LOOP'', Use [''fd''] ''setsockopt IP_MULTICAST_IF'',
      Puts ''sender: publishing to multicast group 239.1.2.3'',
      Loop True [Use [''fd''] ''sendto'', Either [Puts ''sendto multicast''] [Puts ''sender:     seq=%u'']],
      Close ''fd'', Puts ''sender: done'']"

definition ssm_join_calls :: "fd_stmt list" where
  "ssm_join_calls =
     [Puts ''SSM (source-specific multicast) join concept''] @ new_socket ''fd'' ''socket'' @
     [Use [''fd''] ''setsockopt SO_REUSEADDR'', Use [''fd''] ''bind'', Use [''fd''] ''setsockopt IP_ADD_SOURCE_MEMBERSHIP'',
      Either [Puts ''  SSM join 232.0.1.1 from source 10.0.0.1: OK'', Use [''fd''] ''setsockopt IP_DROP_SOURCE_MEMBERSHIP''] [Puts ''  IP_ADD_SOURCE_MEMBERSHIP''],
      Close ''fd'']"

section \<open>\<^verbatim>\<open>06_select_poll_epoll.cpp\<close>\<close>

definition make_server_calls :: "string \<Rightarrow> fd_stmt list" where
  "make_server_calls v =
     new_socket v ''socket'' @
     [Use [v] ''setsockopt SO_REUSEADDR'', Use [v] ''setsockopt SO_REUSEPORT'', Use [v] ''setsockopt TCP_NODELAY''] @
     set_nonblocking_calls v @ [Use [v] ''bind'', Use [v] ''listen'']"

definition make_client_calls :: "string \<Rightarrow> fd_stmt list" where
  "make_client_calls v = new_socket v ''socket'' @ [Use [v] ''setsockopt TCP_NODELAY'', Fails [v] ''connect'' [Die ''connect'']]"

text \<open>\<open>FD_SET\<close> is a use of the descriptor too: with \<open>-1\<close> it writes outside the set.\<close>

definition select_calls :: "fd_stmt list" where
  "select_calls =
     [Puts ''select() demo''] @ make_server_calls ''srv'' @
     [Label
       [Use [''srv''] ''FD_SET'', Use [''srv''] ''select'',
        Either [Puts ''  select: no connection'', Leave] [],
        Either
          [Get ''cli'' [''srv''] ''accept'',
           Puts ''  select: accept() got a connection'',
           Use [''cli''] ''FD_SET'', Use [''cli''] ''select'',
           Either [Use [''cli''] ''recv'', Puts ''  select: received %zd bytes''] [],
           Close ''cli'']
          []],
      Close ''srv'']"

definition select_client_calls :: "fd_stmt list" where
  "select_client_calls = make_client_calls ''c'' @ [Use [''c''] ''send'', Close ''c'']"

section \<open>\<^verbatim>\<open>07_unix_domain_sockets.cpp\<close>\<close>

definition stream_server_calls :: "fd_stmt list" where
  "stream_server_calls =
     [Unlink ''/tmp/applied_cpp_demo.sock''] @ new_socket ''srv'' ''socket'' @
     [Bind ''srv'' ''/tmp/applied_cpp_demo.sock'' [Die ''bind''],
      Fails [''srv''] ''listen'' [Die ''listen''],
      Puts ''stream server: listening on /tmp/applied_cpp_demo.sock'',
      Get ''cli'' [''srv''] ''accept'', If_Bad ''cli'' [Die ''accept''],
      Puts ''stream server: accepted connection'',
      Loop False [Use [''cli''] ''recv'', Either [Break_Loop] [], Puts ''stream server: received '', Use [''cli''] ''send''],
      Close ''cli'', Close ''srv'', Unlink ''/tmp/applied_cpp_demo.sock'', Puts ''stream server: done'']"

definition stream_client_calls :: "fd_stmt list" where
  "stream_client_calls =
     new_socket ''fd'' ''socket'' @
     [Fails [''fd''] ''connect'' [Die ''connect''], Puts ''stream client: connected'',
      Loop True [Use [''fd''] ''send'', Use [''fd''] ''recv'', Either [Puts ''stream client: echo ''] []],
      Close ''fd'']"

definition dgram_server_calls :: "fd_stmt list" where
  "dgram_server_calls =
     [Unlink ''/tmp/applied_cpp_dgram.sock''] @ new_socket ''fd'' ''socket dgram'' @
     [Bind ''fd'' ''/tmp/applied_cpp_dgram.sock'' [Die ''bind dgram server''],
      Puts ''dgram server: bound to /tmp/applied_cpp_dgram.sock'',
      Loop True [Use [''fd''] ''recvfrom'', Either [Break_Loop] [], Puts ''dgram server: ''],
      Close ''fd'', Unlink ''/tmp/applied_cpp_dgram.sock'']"

definition dgram_client_calls :: "fd_stmt list" where
  "dgram_client_calls =
     new_socket ''fd'' ''socket dgram client'' @
     [Unlink ''/tmp/applied_cpp_dgram_cli.sock'', Bind ''fd'' ''/tmp/applied_cpp_dgram_cli.sock'' [],
      Loop True [Use [''fd''] ''sendto'', Puts ''dgram client: sent ''],
      Close ''fd'', Unlink ''/tmp/applied_cpp_dgram_cli.sock'']"

text \<open>The abstract name makes no file.\<close>

definition abstract_server_calls :: "fd_stmt list" where
  "abstract_server_calls =
     [Puts ''abstract namespace (Linux)''] @ new_socket ''srv'' ''socket abstract'' @
     [Fails [''srv''] ''bind'' [Die ''bind abstract''], Use [''srv''] ''listen'', Puts ''  abstract socket bound (no file)'',
      Get ''cli'' [''srv''] ''accept'', Use [''cli''] ''recv'', Puts ''  abstract server received: '',
      Close ''cli'', Close ''srv'']"

definition abstract_client_calls :: "fd_stmt list" where
  "abstract_client_calls =
     [Get ''fd'' [] ''socket'', Fails [''fd''] ''connect'' [Die ''connect abstract''], Use [''fd''] ''send'', Close ''fd'']"

definition cred_server_calls :: "fd_stmt list" where
  "cred_server_calls =
     [Puts ''peer credentials'', Unlink ''/tmp/applied_cpp_cred.sock'', Get ''srv'' [] ''socket'',
      Bind ''srv'' ''/tmp/applied_cpp_cred.sock'' [], Use [''srv''] ''listen'',
      Get ''cli'' [''srv''] ''accept'', Use [''cli''] ''recv'',
      Fails [''cli''] ''getsockopt SO_PEERCRED'' [Puts ''  SO_PEERCRED''],
      Close ''cli'', Close ''srv'', Unlink ''/tmp/applied_cpp_cred.sock'']"

definition cred_client_calls :: "fd_stmt list" where
  "cred_client_calls = [Get ''fd'' [] ''socket'', Use [''fd''] ''connect'', Use [''fd''] ''send'', Close ''fd'']"

section \<open>\<^verbatim>\<open>08_sendfile_zerocopy.cpp\<close>\<close>

definition create_test_file_calls :: "fd_stmt list" where
  "create_test_file_calls =
     [Get ''fd'' [] ''open'', If_Bad ''fd'' [Die ''open test file''], Creates ''/tmp/applied_cpp_feed.bin'',
      Loop True [Use [''fd''] ''write''], Close ''fd'']"

definition count_receiver_calls :: "fd_stmt list" where
  "count_receiver_calls =
     [Get ''srv'' [] ''socket'', Use [''srv''] ''setsockopt SO_REUSEADDR'', Use [''srv''] ''setsockopt TCP_NODELAY'',
      Use [''srv''] ''bind'', Use [''srv''] ''listen'', Get ''cli'' [''srv''] ''accept'',
      Loop True [Use [''cli''] ''recv'', Either [Break_Loop] []],
      Puts ''receiver: got %zd bytes (expected %d)'', Close ''cli'', Close ''srv'']"

definition zc_make_client_calls :: "string \<Rightarrow> fd_stmt list" where
  "zc_make_client_calls v = new_socket v ''socket'' @ [Use [v] ''setsockopt TCP_NODELAY'', Fails [v] ''connect'' [Die ''connect'']]"

definition sendfile_calls :: "fd_stmt list" where
  "sendfile_calls =
     [Puts ''sendfile demo''] @ create_test_file_calls @ [Puts ''  file size: %lld bytes''] @ zc_make_client_calls ''sock_fd'' @
     [Get ''file_fd'' [] ''open'', If_Bad ''file_fd'' [Die ''open for sendfile''],
      Loop True [Fails [''sock_fd'', ''file_fd''] ''sendfile'' [Either [Next_Loop] [Die ''sendfile'']]],
      Puts ''  sendfile %lld bytes: %.1f us'', Close ''file_fd'', Close ''sock_fd'', Unlink ''/tmp/applied_cpp_feed.bin'']"

definition splice_receiver_calls :: "fd_stmt list" where
  "splice_receiver_calls =
     [Get ''srv'' [] ''socket'', Use [''srv''] ''setsockopt SO_REUSEADDR'', Use [''srv''] ''bind'', Use [''srv''] ''listen'',
      Get ''cli'' [''srv''] ''accept'', Loop True [Use [''cli''] ''recv'', Either [Break_Loop] []],
      Puts ''  splice receiver: got %zd bytes'', Close ''cli'', Close ''srv'']"

definition splice_calls :: "fd_stmt list" where
  "splice_calls =
     [Puts ''splice (Linux) demo'', Get_Pair ''pipefd[0]'' ''pipefd[1]'' [Die ''pipe'']] @ create_test_file_calls @
     [Get ''sock_fd'' [] ''socket'', Use [''sock_fd''] ''connect'', Get ''file_fd'' [] ''open'', If_Bad ''file_fd'' [Die ''open for splice''],
      Loop True
        [Fails [''file_fd'', ''pipefd[1]''] ''splice'' [Die ''splice file to pipe''],
         Fails [''pipefd[0]'', ''sock_fd''] ''splice'' [Die ''splice pipe to sock'']],
      Puts ''  splice %lld bytes: %.1f us'', Close ''file_fd'', Close ''sock_fd'', Close ''pipefd[0]'', Close ''pipefd[1]'',
      Unlink ''/tmp/applied_cpp_feed.bin'']"

definition msg_zerocopy_calls :: "fd_stmt list" where
  "msg_zerocopy_calls =
     [Puts ''MSG_ZEROCOPY (Linux)'', Get ''fd'' [] ''socket'',
      Fails [''fd''] ''setsockopt SO_ZEROCOPY'' [Puts ''  SO_ZEROCOPY not available on this kernel (need 4.14+)'', Close ''fd'', Leave],
      Puts ''  SO_ZEROCOPY enabled'', Close ''fd'']"

section \<open>\<^verbatim>\<open>09_io_uring.cpp\<close>\<close>

definition tcp_client_calls :: "fd_stmt list" where
  "tcp_client_calls =
     [Get ''fd'' [] ''socket'', Use [''fd''] ''setsockopt'', Use [''fd''] ''connect'',
      Loop True [Use [''fd''] ''send'', Use [''fd''] ''recv'', Either [Puts ''  client echo''] []],
      Close ''fd'']"

section \<open>\<^verbatim>\<open>10_socket_patterns.cpp\<close>\<close>

text \<open>\<open>send_frame\<close> and \<open>recv_frame\<close>: the first call that moves nothing ends them.  The callers ignore the result of the former; without a message \<open>none\<close> runs.\<close>

definition send_frame_calls :: "string \<Rightarrow> fd_stmt list" where
  "send_frame_calls v =
     [Label [Loop True [Fails [v] ''send'' [Leave], Either [Leave] []], Loop True [Fails [v] ''send'' [Leave], Either [Leave] []]]]"

definition recv_frame_calls :: "string \<Rightarrow> fd_stmt list \<Rightarrow> fd_stmt list" where
  "recv_frame_calls v none =
     [Label [Loop True [Fails [v] ''recv'' [Leave], Either [Leave] []], Either [Leave] [],
             Loop True [Fails [v] ''recv'' [Leave], Either [Leave] []]],
      Either none []]"

definition framed_server_calls :: "fd_stmt list" where
  "framed_server_calls =
     [Get ''srv'' [] ''socket'', Use [''srv''] ''setsockopt'', Use [''srv''] ''setsockopt'', Use [''srv''] ''bind'', Use [''srv''] ''listen'',
      Get ''cli'' [''srv''] ''accept'', Puts ''framed server: accepted'',
      Loop False (recv_frame_calls ''cli'' [Break_Loop] @ [Puts ''  framed server: received''] @ send_frame_calls ''cli''),
      Close ''cli'', Close ''srv'']"

text \<open>The destructor of \<open>Socket\<close> closes a valid descriptor.\<close>

definition framed_client_calls :: "fd_stmt list" where
  "framed_client_calls =
     [Get ''sock'' [] ''socket'',
      Scoped ''sock''
        [Use [''sock''] ''setsockopt'', Use [''sock''] ''connect'',
         Loop True (send_frame_calls ''sock'' @ recv_frame_calls ''sock'' [Next_Loop] @ [Puts ''  framed client: echo''])]]"

section \<open>The functions\<close>

text \<open>Their locals and their calls: first those that look at the result of every call that opens a descriptor, then those that do not.\<close>

definition checked_functions :: "(string list \<times> fd_stmt list) list" where
  "checked_functions =
     [([''srv'', ''cli''], run_server_calls), ([''fd''], run_client_calls),
      ([''fd''], socket_options_calls), ([''fd''], linger_calls), ([''fd''], keepalive_calls),
      ([''srv'', ''cli''], nonblocking_server_calls), ([''fd''], nonblocking_client_calls),
      ([''fd''], udp_receiver_calls), ([''fd''], udp_sender_calls),
      ([''fd''], multicast_receiver_calls), ([''fd''], multicast_sender_calls), ([''fd''], ssm_join_calls),
      ([''c''], select_client_calls),
      ([''srv'', ''cli''], stream_server_calls), ([''fd''], stream_client_calls), ([''fd''], dgram_server_calls), ([''fd''], dgram_client_calls),
      ([''fd'', ''sock_fd'', ''file_fd''], sendfile_calls)]"

definition unchecked_functions :: "(string list \<times> fd_stmt list) list" where
  "unchecked_functions =
     [([''srv'', ''cli''], echo_server_calls), ([''fd''], ping_rtt_calls),
      ([''fd1'', ''fd2''], poll_multiple_calls), ([''recv_fd'', ''send_fd''], connected_udp_calls),
      ([''srv'', ''cli''], select_calls),
      ([''srv'', ''cli''], abstract_server_calls), ([''fd''], abstract_client_calls), ([''srv'', ''cli''], cred_server_calls), ([''fd''], cred_client_calls),
      ([''srv'', ''cli''], count_receiver_calls), ([''srv'', ''cli''], splice_receiver_calls),
      ([''pipefd[0]'', ''pipefd[1]'', ''fd'', ''sock_fd'', ''file_fd''], splice_calls), ([''fd''], msg_zerocopy_calls),
      ([''fd''], tcp_client_calls), ([''srv'', ''cli''], framed_server_calls), ([''sock''], framed_client_calls)]"

lemma verdicts:
  "list_all (\<lambda>(vs, b). verdict vs b = Some (True, True, True)) checked_functions"
  "list_all (\<lambda>(vs, b). verdict vs b = Some (True, False, True)) unchecked_functions"
  by code_simp+

lemma checked_verdict: "(vs, b) \<in> set checked_functions \<Longrightarrow> verdict vs b = Some (True, True, True)"
  and unchecked_verdict: "(vs, b) \<in> set unchecked_functions \<Longrightarrow> verdict vs b = Some (True, False, True)"
  using verdicts by (auto simp: list_all_iff)

lemma function_verdict: "(vs, b) \<in> set (checked_functions @ unchecked_functions) \<Longrightarrow> \<exists>c. verdict vs b = Some (True, c, True)"
  unfolding set_append Un_iff using checked_verdict unchecked_verdict by blast

section \<open>Properties\<close>

text \<open>
  C33: Whatever calls fail, every function listed in \<open>checked_functions\<close> and \<open>unchecked_functions\<close> that returns has closed every descriptor it opened and removed every
  file it created, and each of them has an execution that returns.  The former look at every descriptor they
  get and never make a call on \<open>-1\<close> or on a closed descriptor, in any execution, also not in those that end in \<open>die\<close>; each of the latter does in some
  execution (a failed \<open>socket\<close> or \<open>accept\<close> is followed by calls on \<open>-1\<close>, in \<open>demo_select\<close> by \<open>FD_SET\<close>).
\<close>

theorem descriptors_released:
  assumes fn: "(vs, b) \<in> set (checked_functions @ unchecked_functions)" and B: "finite B" and run: "exec b (proc_start vs B) t oc"
    and un: "(us, u) \<in> set unchecked_functions"
  shows "(oc \<noteq> Exited \<longrightarrow> opened t = B \<and> files t = []) \<and> (\<exists>t'. exec b (proc_start vs B) t' Normal) \<and>
    ((vs, b) \<in> set checked_functions \<longrightarrow> \<not> misused t) \<and> (\<exists>t' oc'. exec u (proc_start us B) t' oc' \<and> misused t')"
proof -
  obtain c where v: "verdict vs b = Some (True, c, True)" using function_verdict [OF fn] by blast
  have "oc \<noteq> Exited \<longrightarrow> opened t = B \<and> files t = []" using releases_all_sound [OF _ B run] verdict_iff(2) [OF v] by blast
  moreover have "\<exists>t'. exec b (proc_start vs B) t' Normal" using reaches_exec [OF _ B] verdict_iff(4) [OF v] by blast
  moreover have "\<not> misused t" if "(vs, b) \<in> set checked_functions"
    using checks_all_exact [OF _ B, of b vs] verdict_iff [OF checked_verdict [OF that]] run by blast
  moreover have "\<exists>t' oc'. exec u (proc_start us B) t' oc' \<and> misused t'"
    using checks_all_exact [OF _ B, of u us] verdict_iff [OF unchecked_verdict [OF un]] by blast
  ultimately show ?thesis by blast
qed

theorem descriptors_released_witness:
  "\<exists>t t' oc'. exec stream_server_calls (proc_start [''srv'', ''cli''] {0, 1, 2}) t Normal \<and> opened t = {0, 1, 2} \<and> files t = [] \<and> \<not> misused t \<and>
     exec select_calls (proc_start [''srv'', ''cli''] {0, 1, 2}) t' oc' \<and> misused t'"
proof -
  have fn: "([''srv'', ''cli''], stream_server_calls) \<in> set checked_functions" "([''srv'', ''cli''], select_calls) \<in> set unchecked_functions"
    by (simp_all add: checked_functions_def unchecked_functions_def)
  have fn': "([''srv'', ''cli''], stream_server_calls) \<in> set (checked_functions @ unchecked_functions)" using fn(1) by simp
  have std: "finite ({0, 1, 2} :: nat set)" by simp
  obtain t where t: "exec stream_server_calls (proc_start [''srv'', ''cli''] {0, 1, 2}) t Normal"
    using reaches_exec [OF _ std] verdict_iff(4) [OF checked_verdict [OF fn(1)]] by blast
  show ?thesis using descriptors_released [OF fn' std t fn(2)] t fn(1) by blast
qed

end
