(* ===== verification/File_Calls.thy ===== *)
theory File_Calls
  imports Descriptors
begin

text \<open>
  The functions of \<^verbatim>\<open>system_calls/01_file_io.cpp\<close>, \<^verbatim>\<open>02_stat_links.cpp\<close>, \<^verbatim>\<open>03_mmap_file.cpp\<close>, \<^verbatim>\<open>04_mmap_ipc.cpp\<close>, \<^verbatim>\<open>07_pipes_fifo.cpp\<close>, \<^verbatim>\<open>08_poll.cpp\<close> and \<^verbatim>\<open>10_epoll_kqueue.cpp\<close> as the system calls they make, in the
  language of \<^verbatim>\<open>Descriptors\<close>.  A mapping is acquired by \<open>mmap\<close> and released by \<open>munmap\<close> like a descriptor; names are files, links, FIFOs and shared memory objects.  After \<open>fork\<close>
  the child is one branch, which ends in \<open>exit\<close>, and the parent the other.
\<close>

definition fork_child :: "string \<Rightarrow> fd_stmt list \<Rightarrow> fd_stmt list" where
  "fork_child msg child = [Fails [] ''fork'' [Die msg], Either (child @ [Die ''exit(0)'']) []]"

text \<open>\<open>write_all\<close> writes until everything is written, and exits on an error other than \<open>EINTR\<close>.\<close>

definition write_all_calls :: "string \<Rightarrow> fd_stmt list" where
  "write_all_calls v = [Loop True [Fails [v] ''write'' [Either [Next_Loop] [Die ''write_all'']]]]"

text \<open>The reading loops of the children.\<close>

definition read_to_eof_calls :: "string \<Rightarrow> string \<Rightarrow> fd_stmt list" where
  "read_to_eof_calls v msg = [Loop False [Fails [v] ''read'' [Either [Next_Loop] [Die msg]], Either [Break_Loop] []]]"

section \<open>\<^verbatim>\<open>01_file_io.cpp\<close>\<close>

definition redirect_calls :: "fd_stmt list" where
  "redirect_calls =
     [Get ''log_fd'' [] ''open'', If_Bad ''log_fd'' [Die ''open log''], Creates ''/tmp/redirect.log'',
      Get ''saved_stdout'' [] ''dup'', Use [''log_fd''] ''dup2'', Use [] ''write'', Use [''saved_stdout''] ''dup2'',
      Close ''saved_stdout'', Close ''log_fd'', Puts ''stdout restored (dup2 demo complete)'']"

definition lock_file_calls :: "fd_stmt list" where
  "lock_file_calls =
     [Get ''lfd'' [] ''open'',
      If_Bad ''lfd'' [Either [Puts ''lock already held''] [Die ''open lock'']],
      If_Good ''lfd''
        ([Creates ''/tmp/pricer.lock''] @ write_all_calls ''lfd'' @ [Close ''lfd'', Puts ''lock acquired'', Unlink ''/tmp/pricer.lock''])]"

definition file_io_calls :: "fd_stmt list" where
  "file_io_calls =
     [Get ''fd'' [] ''open'', If_Bad ''fd'' [Die ''open for write''], Creates ''/tmp/prices.csv''] @ write_all_calls ''fd'' @
     [Loop True (write_all_calls ''fd''), Close ''fd'',
      Get ''fd'' [] ''open'', If_Bad ''fd'' [Die ''open for read'']] @ read_to_eof_calls ''fd'' ''read'' @
     [Puts ''read %zd bytes'', Fails [''fd''] ''lseek'' [Die ''lseek''], Use [''fd''] ''read'', Puts ''first data line'', Close ''fd'',
      Get ''afd'' [] ''open'', If_Bad ''afd'' [Die ''open append'']] @ write_all_calls ''afd'' @ [Close ''afd'', Puts ''appended one extra line''] @
     redirect_calls @ lock_file_calls @ [Unlink ''/tmp/prices.csv'', Unlink ''/tmp/redirect.log'']"

section \<open>\<^verbatim>\<open>02_stat_links.cpp\<close>\<close>

definition stat_links_calls :: "fd_stmt list" where
  "stat_links_calls =
     [Get ''fd'' [] ''open'', If_Bad ''fd'' [Die ''open''], Creates ''/tmp/curve.dat'', Use [''fd''] ''write'', Close ''fd'',
      Fails [] ''link'' [Die ''link''], Creates ''/tmp/curve.hard'',
      Fails [] ''symlink'' [Die ''symlink''], Creates ''/tmp/curve.sym'',
      Get ''fd2'' [] ''open'', If_Bad ''fd2'' [Die ''open fstat''], Use [''fd2''] ''fstat'', Close ''fd2'',
      Get ''tfd'' [] ''open'', If_Bad ''tfd'' [Die ''open tmp''], Creates ''/tmp/curve.new'', Use [''tfd''] ''write'', Close ''tfd'',
      Fails [] ''rename'' [Die ''rename''], Unlink ''/tmp/curve.new'', Creates ''/tmp/curve.final'',
      Unlink ''/tmp/curve.sym'', Unlink ''/tmp/curve.hard'', Unlink ''/tmp/curve.dat'', Unlink ''/tmp/curve.final'',
      Get ''tmp_fd'' [] ''open'', If_Bad ''tmp_fd'' [Die ''open scratch''], Creates ''/tmp/scratch.bin'', Unlink ''/tmp/scratch.bin'',
      Use [''tmp_fd''] ''write'', Use [''tmp_fd''] ''lseek'', Use [''tmp_fd''] ''read'', Close ''tmp_fd'']"

section \<open>\<^verbatim>\<open>03_mmap_file.cpp\<close>\<close>

definition create_tick_file_calls :: "fd_stmt list" where
  "create_tick_file_calls =
     [Get ''cfd'' [] ''open'', If_Bad ''cfd'' [Die ''open tick''], Creates ''/tmp/ticks.bin'', Loop True [Use [''cfd''] ''write''], Close ''cfd'']"

text \<open>\<open>open\<close>, \<open>mmap\<close> and \<open>close\<close>, as for the four mappings of \<open>main\<close>.\<close>

definition map_file_calls :: "string \<Rightarrow> string \<Rightarrow> string \<Rightarrow> fd_stmt list \<Rightarrow> string \<Rightarrow> fd_stmt list" where
  "map_file_calls fd m open_msg stat mmap_msg =
     [Get fd [] ''open'', If_Bad fd [Die open_msg]] @ stat @ [Get m [fd] ''mmap'', If_Bad m [Die mmap_msg], Close fd]"

definition mmap_file_calls :: "fd_stmt list" where
  "mmap_file_calls =
     create_tick_file_calls @
     map_file_calls ''fd'' ''raw'' ''open for mmap'' [Fails [''fd''] ''fstat'' [Die ''fstat'']] ''mmap read'' @
     [Use [''raw''] ''madvise'', Use [''raw''] ''read ticks'', Use [''raw''] ''madvise'', Close ''raw''] @
     map_file_calls ''rw_fd'' ''wraw'' ''open rdwr'' [] ''mmap shared'' @
     [Use [''wraw''] ''adjust prices'', Fails [''wraw''] ''msync'' [Die ''msync''], Close ''wraw''] @
     map_file_calls ''vfd'' ''vraw'' ''open verify'' [Use [''vfd''] ''fstat''] ''mmap verify'' @
     [Use [''vraw''] ''read ticks'', Close ''vraw''] @
     map_file_calls ''rnd_fd'' ''rndraw'' ''open random'' [Use [''rnd_fd''] ''fstat''] ''mmap random'' @
     [Use [''rndraw''] ''madvise'', Use [''rndraw''] ''read ticks'', Close ''rndraw'', Unlink ''/tmp/ticks.bin'']"

section \<open>\<^verbatim>\<open>04_mmap_ipc.cpp\<close>\<close>

definition anonymous_shared_calls :: "fd_stmt list" where
  "anonymous_shared_calls =
     [Get ''raw'' [] ''mmap'', If_Bad ''raw'' [Die ''mmap anonymous'']] @
     fork_child ''fork'' [Loop True [Use [''raw''] ''publish'']] @
     [Loop True [Use [''raw''] ''read snapshot'', Either [Next_Loop] []], Close ''raw'']"

definition shm_writer_calls :: "fd_stmt list" where
  "shm_writer_calls =
     [Get ''fd'' [] ''shm_open'', If_Bad ''fd'' [Die ''shm_open writer''], Creates ''/applied_cpp_prices'',
      Fails [''fd''] ''ftruncate'' [Die ''ftruncate''],
      Get ''raw'' [''fd''] ''mmap'', Close ''fd'', If_Bad ''raw'' [Die ''mmap shm writer''],
      Loop True [Use [''raw''] ''publish''],
      Close ''raw'', Unlink ''/applied_cpp_prices'']"

definition shm_reader_calls :: "fd_stmt list" where
  "shm_reader_calls =
     [Get ''fd'' [] ''shm_open'', If_Bad ''fd'' [Get ''fd'' [] ''shm_open'', If_Bad ''fd'' [Die ''shm_open reader'']],
      Get ''raw'' [''fd''] ''mmap'', Close ''fd'', If_Bad ''raw'' [Die ''mmap shm reader''],
      Loop True [Use [''raw''] ''read update''],
      Close ''raw'']"

section \<open>\<^verbatim>\<open>07_pipes_fifo.cpp\<close>\<close>

definition anonymous_pipe_calls :: "fd_stmt list" where
  "anonymous_pipe_calls =
     [Get_Pair ''pipefd[0]'' ''pipefd[1]'' [Die ''pipe2'']] @
     fork_child ''fork pipe'' ([Close ''pipefd[1]''] @ read_to_eof_calls ''pipefd[0]'' ''read pipe'' @ [Close ''pipefd[0]'']) @
     [Close ''pipefd[0]'', Loop True (write_all_calls ''pipefd[1]''), Close ''pipefd[1]'']"

definition dup2_stdout_calls :: "fd_stmt list" where
  "dup2_stdout_calls =
     [Get_Pair ''pipefd[0]'' ''pipefd[1]'' [Die ''pipe2 dup2'']] @
     fork_child ''fork dup2'' [Close ''pipefd[0]'', Use [''pipefd[1]''] ''dup2'', Close ''pipefd[1]'', Use [] ''execvp'', Die ''execvp''] @
     [Close ''pipefd[1]'', Use [''pipefd[0]''] ''read'', Close ''pipefd[0]'', Either [Puts ''  uname output: ''] []]"

definition socketpair_calls :: "fd_stmt list" where
  "socketpair_calls =
     [Get_Pair ''sv[0]'' ''sv[1]'' [Die ''socketpair'']] @
     fork_child ''fork socketpair'' ([Close ''sv[0]'', Use [''sv[1]''] ''read'', Either (write_all_calls ''sv[1]'') [], Close ''sv[1]'']) @
     [Close ''sv[1]''] @ write_all_calls ''sv[0]'' @
     [Use [''sv[0]''] ''shutdown'', Use [''sv[0]''] ''read'', Either [Puts ''  parent received: ''] [], Close ''sv[0]'']"

definition fifo_calls :: "fd_stmt list" where
  "fifo_calls =
     [Unlink ''/tmp/md_feed.fifo'', Fails [] ''mkfifo'' [Die ''mkfifo''], Creates ''/tmp/md_feed.fifo''] @
     fork_child ''fork fifo writer''
       ([Get ''fd'' [] ''open'', If_Bad ''fd'' [Die ''open fifo write''], Loop True (write_all_calls ''fd''), Close ''fd'']) @
     fork_child ''fork fifo reader''
       ([Get ''fd'' [] ''open'', If_Bad ''fd'' [Die ''open fifo read'']] @ read_to_eof_calls ''fd'' ''read fifo'' @ [Close ''fd'']) @
     [Unlink ''/tmp/md_feed.fifo'']"

section \<open>\<^verbatim>\<open>08_poll.cpp\<close>\<close>

text \<open>\<open>start_feed\<close> on the pair of one feed, as \<open>main\<close> calls it: the parent is left with the reading end.\<close>

definition start_feed_calls :: "fd_stmt list" where
  "start_feed_calls =
     [Get_Pair ''sv[0]'' ''sv[1]'' [Die ''socketpair'']] @
     fork_child ''fork feed'' ([Close ''sv[0]'', Loop True (write_all_calls ''sv[1]''), Close ''sv[1]'']) @
     [Close ''sv[1]'']"

definition pollout_calls :: "fd_stmt list" where
  "pollout_calls =
     [Get_Pair ''pout[0]'' ''pout[1]'' [Die ''pipe2 pollout''], Use [''pout[1]''] ''poll'', Either (write_all_calls ''pout[1]'') [],
      Close ''pout[0]'', Close ''pout[1]'']"

section \<open>\<^verbatim>\<open>10_epoll_kqueue.cpp\<close>\<close>

definition edge_triggered_calls :: "fd_stmt list" where
  "edge_triggered_calls =
     [Puts ''EPOLLET edge-triggered demo'', Get_Pair ''et_sv[0]'' ''et_sv[1]'' [Die ''socketpair ET''],
      Get ''et_epfd'' [] ''epoll_create1'', If_Bad ''et_epfd'' [Die ''epoll ET''],
      Use [''et_sv[0]''] ''fcntl F_GETFL'', Use [''et_sv[0]''] ''fcntl F_SETFL'', Use [''et_epfd'', ''et_sv[0]''] ''epoll_ctl'',
      Use [''et_sv[1]''] ''write'', Use [''et_sv[1]''] ''write'', Use [''et_epfd''] ''epoll_wait'', Puts ''  ET: epoll_wait returned'',
      Loop False [Use [''et_sv[0]''] ''read'', Either [Break_Loop] [], Puts ''  ET drained''],
      Close ''et_sv[0]'', Close ''et_sv[1]'', Close ''et_epfd'']"

section \<open>The functions\<close>

definition file_functions :: "(string list \<times> fd_stmt list) list" where
  "file_functions =
     [([''fd'', ''fd2'', ''tfd'', ''tmp_fd''], stat_links_calls),
      ([''cfd'', ''fd'', ''raw'', ''rw_fd'', ''wraw'', ''vfd'', ''vraw'', ''rnd_fd'', ''rndraw''], mmap_file_calls),
      ([''raw''], anonymous_shared_calls), ([''fd'', ''raw''], shm_writer_calls), ([''fd'', ''raw''], shm_reader_calls),
      ([''pipefd[0]'', ''pipefd[1]''], anonymous_pipe_calls), ([''pipefd[0]'', ''pipefd[1]''], dup2_stdout_calls),
      ([''sv[0]'', ''sv[1]''], socketpair_calls), ([''fd''], fifo_calls),
      ([''pout[0]'', ''pout[1]''], pollout_calls),
      ([''et_sv[0]'', ''et_sv[1]'', ''et_epfd''], edge_triggered_calls), ([''lfd''], lock_file_calls)]"

definition file_io_locals :: "string list" where
  "file_io_locals = [''fd'', ''afd'', ''log_fd'', ''saved_stdout'', ''lfd'']"

text \<open>Only \<open>start_feed\<close> keeps a descriptor, for the event loop, which closes it.\<close>

lemma file_verdicts:
  "list_all (\<lambda>(vs, b). verdict vs b = Some (True, True, True)) file_functions"
  "verdict [''sv[0]'', ''sv[1]''] (start_feed_calls @ [Close ''sv[0]'']) = Some (True, True, True)"
  "verdict [''sv[0]'', ''sv[1]''] start_feed_calls = Some (False, True, True)"
  "verdict file_io_locals file_io_calls = Some (True, False, True)"
  "strands [''lfd''] lock_file_calls ''/tmp/pricer.lock''"
  by code_simp+

section \<open>Properties\<close>

text \<open>
  C34: Whatever calls fail, every function of these system call programs that returns has closed every descriptor, unmapped every
  mapping and removed every name it created, each can return, and no execution, in the parent or in a child, makes a call on an invalid or released descriptor or touches a mapping that
  failed or is gone.  \<open>start_feed\<close> leaves the parent exactly the reading end: closing it releases everything.  \<open>main\<close> of \<^verbatim>\<open>01_file_io.cpp\<close> releases everything too, but
  uses \<open>-1\<close> when \<open>dup\<close> fails, and a process that ends while it holds the lock file leaves it behind.
\<close>

theorem files_released:
  assumes fn: "(vs, b) \<in> set (([''sv[0]'', ''sv[1]''], start_feed_calls @ [Close ''sv[0]'']) # file_functions)" and B: "finite B"
    and run: "exec b (proc_start vs B) t oc" and io: "exec file_io_calls (proc_start file_io_locals B) u ou"
  shows "(oc \<noteq> Exited \<longrightarrow> opened t = B \<and> files t = []) \<and> \<not> misused t \<and> (\<exists>t'. exec b (proc_start vs B) t' Normal) \<and>
    (ou \<noteq> Exited \<longrightarrow> opened u = B \<and> files u = []) \<and> (\<exists>u' ou'. exec file_io_calls (proc_start file_io_locals B) u' ou' \<and> misused u') \<and>
    (\<exists>u'. exec lock_file_calls (proc_start [''lfd''] B) u' Exited \<and> ''/tmp/pricer.lock'' \<in> set (files u'))"
proof -
  have "verdict vs b = Some (True, True, True)" using fn file_verdicts by (auto simp: list_all_iff)
  note v = verdict_iff [OF this]
  note w = verdict_iff [OF file_verdicts(4)]
  have "ou \<noteq> Exited \<longrightarrow> opened u = B \<and> files u = []" using releases_all_sound [OF _ B io] w(2) by blast
  moreover have "\<exists>u' ou'. exec file_io_calls (proc_start file_io_locals B) u' ou' \<and> misused u'" using checks_all_exact [OF w(1) B] w(3) by blast
  moreover have "\<exists>u'. exec lock_file_calls (proc_start [''lfd''] B) u' Exited \<and> ''/tmp/pricer.lock'' \<in> set (files u')"
    by (rule strands_exec [OF file_verdicts(5) B])
  ultimately show ?thesis
    using releases_all_sound [OF _ B run] reaches_exec [OF _ B] checks_all_exact [OF v(1) B] v run by blast
qed

theorem files_released_witness:
  "\<exists>t. exec fifo_calls (proc_start [''fd''] {0, 1, 2}) t Normal \<and> opened t = {0, 1, 2} \<and> files t = [] \<and> \<not> misused t \<and>
    (\<exists>u. exec lock_file_calls (proc_start [''lfd''] {0, 1, 2}) u Exited \<and> ''/tmp/pricer.lock'' \<in> set (files u))"
proof -
  have fn: "([''fd''], fifo_calls) \<in> set (([''sv[0]'', ''sv[1]''], start_feed_calls @ [Close ''sv[0]'']) # file_functions)"
    by (simp add: file_functions_def)
  have std: "finite ({0, 1, 2} :: nat set)" by simp
  have "verdict [''fd''] fifo_calls = Some (True, True, True)" using file_verdicts(1) by (simp add: file_functions_def)
  then obtain t where t: "exec fifo_calls (proc_start [''fd''] {0, 1, 2}) t Normal" using reaches_exec [OF _ std] verdict_iff(4) by blast
  obtain u where u: "exec file_io_calls (proc_start file_io_locals {0, 1, 2}) u Normal"
    using reaches_exec [OF _ std] verdict_iff(4) [OF file_verdicts(4)] by blast
  show ?thesis using files_released [OF fn std t u] t by blast
qed

end
