(* ===== verification/Executors.thy ===== *)
theory Executors
  imports Prelude "HOL-Library.Multiset"
begin

text \<open>
  The first part of \<^verbatim>\<open>libraries/folly/07_executors.cpp\<close>: \<open>n\<close> tasks on a thread pool, the \<open>k\<close>-th of which adds \<open>k\<close> to an atomic sum, and a sentinel task that \<open>main\<close> waits for
  before it prints the sum.  The queue of the pool is the library's and an argument.  The locale \<open>task_bag\<close> asks of it only that a task that was added is handed out once and that an idle
  worker gets some task while there is one, in whatever order: that holds of one shared queue as of the work-stealing deques the comment of the file describes, and both are instances below.
\<close>

section \<open>The program\<close>

text \<open>Task \<open>k < n\<close> adds \<open>k\<close> to the \<open>std::atomic<int>\<close>, task \<open>n\<close> is the sentinel.\<close>

record 'q pool_run =
  tasks_in :: 'q
  sum_of :: "32 word"
  sentinel_done :: bool
  printed :: "32 word option"

datatype ex_thread = Adding nat | Waits | Prints | Main_Done | Free | Busy nat

fun ex_local :: "(nat \<Rightarrow> 'q \<Rightarrow> 'q) \<Rightarrow> (nat \<Rightarrow> 'q \<Rightarrow> (nat \<times> 'q) option) \<Rightarrow> nat \<Rightarrow> unit \<Rightarrow> nat \<Rightarrow> 'q pool_run \<Rightarrow> ex_thread \<Rightarrow>
    ('q pool_run \<times> ex_thread) option" where
  "ex_local add take_task n c i s (Adding k) =
     Some (s\<lparr>tasks_in := add k (tasks_in s)\<rparr>, if k < n then Adding (Suc k) else Waits)"
| "ex_local add take_task n c i s Waits = (if sentinel_done s then Some (s, Prints) else None)"
| "ex_local add take_task n c i s Prints = Some (s\<lparr>printed := Some (sum_of s)\<rparr>, Main_Done)"
| "ex_local add take_task n c i s Main_Done = None"
| "ex_local add take_task n c i s Free =
     (case take_task i (tasks_in s) of None \<Rightarrow> None | Some (k, q) \<Rightarrow> Some (s\<lparr>tasks_in := q\<rparr>, Busy k))"
| "ex_local add take_task n c i s (Busy k) =
     Some (if k < n then s\<lparr>sum_of := sum_of s + of_nat k\<rparr> else s\<lparr>sentinel_done := True\<rparr>, Free)"

definition ex_init :: "'q \<Rightarrow> nat \<Rightarrow> 'q pool_run \<times> ex_thread list" where
  "ex_init new w = (\<lparr>tasks_in = new, sum_of = 0, sentinel_done = False, printed = None\<rparr>, Adding 0 # replicate w Free)"

text \<open>What \<open>join\<close> waits for.\<close>

definition ex_drained :: "('q \<Rightarrow> nat multiset) \<Rightarrow> 'q pool_run \<times> ex_thread list \<Rightarrow> bool" where
  "ex_drained items s \<longleftrightarrow> items (tasks_in (fst s)) = {#} \<and> list_all (\<lambda>l. l = Main_Done \<or> l = Free) (snd s)"

section \<open>What is added is done or still to do\<close>

definition worth :: "nat \<Rightarrow> nat \<Rightarrow> nat" where
  "worth n k = (if k < n then k else 0)"

fun thread_worth :: "nat \<Rightarrow> ex_thread \<Rightarrow> nat" where
  "thread_worth n (Busy k) = worth n k"
| "thread_worth n (Adding k) = (\<Sum>j = k..n. worth n j)"
| "thread_worth n l = 0"

lemma worth_split: "k \<le> n \<Longrightarrow> (\<Sum>j = k..n. worth n j) = worth n k + (if k < n then \<Sum>j = Suc k..n. worth n j else 0)"
  by (simp add: sum.atLeast_Suc_atMost)

lemma worth_total: "(\<Sum>j = 0..n. worth n j) = (\<Sum>k<n. k)"
  by (simp add: worth_def atLeast0AtMost lessThan_Suc_atMost [symmetric])

definition adds_ok :: "nat \<Rightarrow> ex_thread \<Rightarrow> bool" where
  "adds_ok n l \<longleftrightarrow> (case l of Adding k \<Rightarrow> k \<le> n | _ \<Rightarrow> True)"

section \<open>Any bag of tasks\<close>

locale task_bag =
  fixes new :: 'q
    and add :: "nat \<Rightarrow> 'q \<Rightarrow> 'q"
    and take_task :: "nat \<Rightarrow> 'q \<Rightarrow> (nat \<times> 'q) option"
    and items :: "'q \<Rightarrow> nat multiset"
    and good :: "'q \<Rightarrow> bool"
  assumes new_items: "good new \<and> items new = {#}"
    and add_items: "good q \<Longrightarrow> good (add k q) \<and> items (add k q) = add_mset k (items q)"
    and take_items: "good q \<Longrightarrow>
      (case take_task i q of None \<Rightarrow> items q = {#} | Some (k, q') \<Rightarrow> items q = add_mset k (items q') \<and> good q')"
begin

text \<open>The sum, what the workers are about to add, what is queued and what \<open>main\<close> has yet to add make up the total.\<close>

definition ex_inv :: "nat \<Rightarrow> 'q pool_run \<times> ex_thread list \<Rightarrow> bool" where
  "ex_inv n s \<longleftrightarrow> good (tasks_in (fst s)) \<and> list_all (adds_ok n) (snd s) \<and>
     (\<exists>S. sum_of (fst s) = of_nat S \<and>
        S + (\<Sum>k\<in>#items (tasks_in (fst s)). worth n k) + sum_list (map (thread_worth n) (snd s)) = (\<Sum>k<n. k))"

lemma ex_local_keeps:
  assumes "ex_local add take_task n c i g l = Some (g', l')" and "good (tasks_in g)" and "adds_ok n l"
    and "sum_of g = of_nat S"
  shows "good (tasks_in g') \<and> adds_ok n l' \<and>
    (\<exists>S'. sum_of g' = of_nat S' \<and>
       S' + (\<Sum>k\<in>#items (tasks_in g'). worth n k) + thread_worth n l' = S + (\<Sum>k\<in>#items (tasks_in g). worth n k) + thread_worth n l)"
proof (cases l)
  case (Adding k)
  then have k: "k \<le> n" using assms(3) by (simp add: adds_ok_def)
  show ?thesis
    using assms Adding add_items [OF assms(2), of k] worth_split [OF k] k by (auto simp: adds_ok_def)
next
  case Free
  with assms take_items [OF assms(2), of i] show ?thesis by (auto simp: adds_ok_def split: option.splits)
next
  case (Busy k)
  have "sum_of g' = of_nat (S + worth n k)" "tasks_in g' = tasks_in g" "l' = Free" using assms Busy by (auto simp: worth_def)
  with assms(2) Busy show ?thesis by (intro conjI exI [of _ "S + worth n k"]) (simp_all add: adds_ok_def)
qed (use assms in \<open>auto simp: adds_ok_def split: if_splits\<close>)

lemma ex_inv_step:
  assumes "ex_inv n s" and "par_step (ex_local add take_task n) s t"
  shows "ex_inv n t"
proof -
  obtain g ls where s: "s = (g, ls)" by (cases s)
  obtain i c g' l' where i: "i < length ls" "ex_local add take_task n c i g (ls ! i) = Some (g', l')" and t: "t = (g', ls[i := l'])"
    using assms(2) unfolding s by (auto elim!: par_stepE)
  obtain S where S: "sum_of g = of_nat S"
    "S + (\<Sum>k\<in>#items (tasks_in g). worth n k) + sum_list (map (thread_worth n) ls) = (\<Sum>k<n. k)"
    and ok: "good (tasks_in g)" "list_all (adds_ok n) ls"
    using assms(1) by (auto simp: ex_inv_def s)
  have "adds_ok n (ls ! i)" using ok(2) i(1) by (simp add: list_all_length)
  from ex_local_keeps [OF i(2) ok(1) this S(1)] obtain S' where "good (tasks_in g')" "adds_ok n l'" "sum_of g' = of_nat S'"
    "S' + (\<Sum>k\<in>#items (tasks_in g'). worth n k) + thread_worth n l' = S + (\<Sum>k\<in>#items (tasks_in g). worth n k) + thread_worth n (ls ! i)"
    by blast
  then show ?thesis
    using sum_list_map_update [OF i(1), of "thread_worth n" l'] S(2) ok(2) i(1)
    by (auto simp: ex_inv_def t list_all_length nth_list_update intro!: exI [of _ S'])
qed

lemma ex_inv_init: "ex_inv n (ex_init new w)"
proof -
  have "sum_list (map (thread_worth n) (replicate w Free)) = 0" by (induction w) simp_all
  then show ?thesis using worth_total [of n] new_items by (auto simp: ex_inv_def ex_init_def adds_ok_def list_all_iff)
qed

lemma ex_inv_run: "(par_step (ex_local add take_task n))\<^sup>*\<^sup>* s t \<Longrightarrow> ex_inv n s \<Longrightarrow> ex_inv n t"
  by (induction rule: rtranclp_induct) (auto intro: ex_inv_step)

lemma drained_total:
  assumes "(par_step (ex_local add take_task n))\<^sup>*\<^sup>* (ex_init new w) s" and "ex_drained items s"
  shows "sum_of (fst s) = of_nat (\<Sum>k<n. k)"
proof -
  have none: "sum_list (map (thread_worth n) (snd s)) = 0"
    using assms(2) by (intro sum_list_map_zero) (auto simp: ex_drained_def list_all_iff)
  obtain S where "sum_of (fst s) = of_nat S"
    "S + (\<Sum>k\<in>#items (tasks_in (fst s)). worth n k) + sum_list (map (thread_worth n) (snd s)) = (\<Sum>k<n. k)"
    using ex_inv_run [OF assms(1) ex_inv_init] by (auto simp: ex_inv_def)
  moreover have "items (tasks_in (fst s)) = {#}" using assms(2) by (simp add: ex_drained_def)
  ultimately show ?thesis unfolding none by (simp del: of_nat_sum)
qed

text \<open>Main adds its tasks before any worker moves.\<close>

lemma main_adds:
  "k \<le> n \<Longrightarrow> good (tasks_in g) \<Longrightarrow>
   \<exists>g'. (par_step (ex_local add take_task n))\<^sup>*\<^sup>* (g, Adding k # ws) (g', Waits # ws) \<and> items (tasks_in g') = items (tasks_in g) + mset [k..<Suc n]"
proof (induction "n - k" arbitrary: k g)
  case 0
  then have k: "k = n" by simp
  have "par_step (ex_local add take_task n) (g, Adding k # ws) (g\<lparr>tasks_in := add k (tasks_in g)\<rparr>, Waits # ws)"
    using par_stepI [of 0 "Adding k # ws" "ex_local add take_task n" "()" g] by (simp add: k)
  then show ?case using add_items [OF "0.prems"(2), of k] k
    by (intro exI [of _ "g\<lparr>tasks_in := add k (tasks_in g)\<rparr>"]) auto
next
  case (Suc x)
  let ?g = "g\<lparr>tasks_in := add k (tasks_in g)\<rparr>"
  have k: "k < n" "[k..<Suc n] = k # [Suc k..<Suc n]" using Suc.hyps(2) by (simp_all add: upt_conv_Cons)
  have "par_step (ex_local add take_task n) (g, Adding k # ws) (?g, Adding (Suc k) # ws)"
    using par_stepI [of 0 "Adding k # ws" "ex_local add take_task n" "()" g] k(1) by simp
  moreover have "x = n - Suc k" "Suc k \<le> n" "good (tasks_in ?g)" using Suc.hyps(2) k(1) add_items [OF Suc.prems(2), of k] by simp_all
  from Suc.hyps(1) [OF this] obtain g' where "(par_step (ex_local add take_task n))\<^sup>*\<^sup>* (?g, Adding (Suc k) # ws) (g', Waits # ws)"
    "items (tasks_in g') = items (tasks_in ?g) + mset [Suc k..<Suc n]" by blast
  ultimately have "(par_step (ex_local add take_task n))\<^sup>*\<^sup>* (g, Adding k # ws) (g', Waits # ws)"
    "items (tasks_in g') = items (tasks_in g) + mset [k..<Suc n]"
    using add_items [OF Suc.prems(2), of k] unfolding k(2) by (auto intro: converse_rtranclp_into_rtranclp simp del: mset_upt)
  then show ?case by blast
qed

text \<open>A worker takes a task.\<close>

lemma worker_takes:
  assumes "i < length ls" and "ls ! i = Free" and "good (tasks_in g)" and "m \<in># items (tasks_in g)"
  shows "\<exists>k q. par_step (ex_local add take_task n) (g, ls) (g\<lparr>tasks_in := q\<rparr>, ls[i := Busy k]) \<and>
    items (tasks_in g) = add_mset k (items q) \<and> good q"
proof -
  obtain k q where "take_task i (tasks_in g) = Some (k, q)" "items (tasks_in g) = add_mset k (items q)" "good q"
    using take_items [OF assms(3), of i] assms(4) by (auto split: option.splits)
  then show ?thesis using par_stepI [of i ls "ex_local add take_task n" "()" g] assms(1,2) by auto
qed

text \<open>The second worker goes on until it has done the sentinel, whatever the first holds.\<close>

lemma second_does_sentinel:
  "good (tasks_in g) \<Longrightarrow> n \<in># items (tasks_in g) \<Longrightarrow>
   \<exists>g'. (par_step (ex_local add take_task n))\<^sup>*\<^sup>* (g, main # l # Free # ws) (g', main # l # Free # ws) \<and> sentinel_done g'"
proof (induction "size (items (tasks_in g))" arbitrary: g rule: less_induct)
  case less
  obtain k q where tk: "par_step (ex_local add take_task n) (g, main # l # Free # ws) (g\<lparr>tasks_in := q\<rparr>, main # l # Busy k # ws)"
    and q: "items (tasks_in g) = add_mset k (items q)" "good q"
    using worker_takes [of 2 "main # l # Free # ws" g n n] less.prems by (auto simp: numeral_2_eq_2)
  let ?g = "if k < n then g\<lparr>tasks_in := q, sum_of := sum_of g + of_nat k\<rparr> else g\<lparr>tasks_in := q, sentinel_done := True\<rparr>"
  have "par_step (ex_local add take_task n) (g\<lparr>tasks_in := q\<rparr>, main # l # Busy k # ws) (?g, main # l # Free # ws)"
    using par_stepI [of 2 "main # l # Busy k # ws" "ex_local add take_task n" "()" "g\<lparr>tasks_in := q\<rparr>"] by (cases "k < n") (simp_all add: numeral_2_eq_2)
  with tk have run: "(par_step (ex_local add take_task n))\<^sup>*\<^sup>* (g, main # l # Free # ws) (?g, main # l # Free # ws)" by simp
  show ?case
  proof (cases "k < n")
    case True
    then have "n \<in># items q" using less.prems(2) q(1) by auto
    with less.hyps [of ?g] True q
    obtain g' where "(par_step (ex_local add take_task n))\<^sup>*\<^sup>* (?g, main # l # Free # ws) (g', main # l # Free # ws)" "sentinel_done g'" by auto
    with run show ?thesis by (meson rtranclp_trans)
  qed (use run in auto)
qed

text \<open>Once the sentinel is done, \<open>main\<close> prints; what is still queued or held is missing.\<close>

lemma prints_short:
  assumes "ex_inv n (g, Waits # ls)" and "sentinel_done g" and "(\<Sum>k<n. k) < 2 ^ 31"
    and "0 < (\<Sum>k\<in>#items (tasks_in g). worth n k) + sum_list (map (thread_worth n) ls)"
  shows "\<exists>t m. (par_step (ex_local add take_task n))\<^sup>*\<^sup>* (g, Waits # ls) t \<and> hd (snd t) = Main_Done \<and> printed (fst t) = Some m \<and> unat m < (\<Sum>k<n. k)"
proof -
  obtain S where S: "sum_of g = of_nat S" "S < (\<Sum>k<n. k)" using assms(1,4) by (auto simp: ex_inv_def)
  have "par_step (ex_local add take_task n) (g, Waits # ls) (g, Prints # ls)"
    using par_stepI [of 0 "Waits # ls" "ex_local add take_task n" "()" g] assms(2) by simp
  moreover have "par_step (ex_local add take_task n) (g, Prints # ls) (g\<lparr>printed := Some (sum_of g)\<rparr>, Main_Done # ls)"
    using par_stepI [of 0 "Prints # ls" "ex_local add take_task n" "()" g] by simp
  moreover have "unat (sum_of g) < (\<Sum>k<n. k)" using S assms(3) by (simp add: unat_of_nat)
  ultimately show ?thesis by (intro exI [of _ "(g\<lparr>printed := Some (sum_of g)\<rparr>, Main_Done # ls)"] exI [of _ "sum_of g"]) auto
qed

text \<open>The first worker does tasks that add nothing until it meets another one: the sentinel it does, a task that adds something it holds.\<close>

lemma first_meets_task:
  "ex_inv n (g, Waits # Free # Free # ws) \<Longrightarrow> n \<in># items (tasks_in g) \<Longrightarrow> 1 \<in># items (tasks_in g) \<Longrightarrow> 1 < n \<Longrightarrow> (\<Sum>k<n. k) < 2 ^ 31 \<Longrightarrow>
   \<exists>t m. (par_step (ex_local add take_task n))\<^sup>*\<^sup>* (g, Waits # Free # Free # ws) t \<and> hd (snd t) = Main_Done \<and> printed (fst t) = Some m \<and> unat m < (\<Sum>k<n. k)"
proof (induction "size (items (tasks_in g))" arbitrary: g rule: less_induct)
  case less
  let ?P = "par_step (ex_local add take_task n)" and ?ls = "Waits # Free # Free # ws"
  have ok: "good (tasks_in g)" using less.prems(1) by (simp add: ex_inv_def)
  obtain k q where tk: "?P (g, ?ls) (g\<lparr>tasks_in := q\<rparr>, Waits # Busy k # Free # ws)"
    and q: "items (tasks_in g) = add_mset k (items q)" "good q"
    using worker_takes [of 1 ?ls g n n] ok less.prems(2) by auto
  let ?g = "if k < n then g\<lparr>tasks_in := q, sum_of := sum_of g + of_nat k\<rparr> else g\<lparr>tasks_in := q, sentinel_done := True\<rparr>"
  have does: "?P (g\<lparr>tasks_in := q\<rparr>, Waits # Busy k # Free # ws) (?g, ?ls)"
    using par_stepI [of 1 "Waits # Busy k # Free # ws" "ex_local add take_task n" "()" "g\<lparr>tasks_in := q\<rparr>"] by (cases "k < n") simp_all
  then have run: "?P\<^sup>*\<^sup>* (g, ?ls) (?g, ?ls)" using tk by (meson converse_rtranclp_into_rtranclp r_into_rtranclp)
  then have inv: "ex_inv n (?g, ?ls)" using less.prems(1) by (rule ex_inv_run)
  consider "k = 0" | "0 < k \<and> k < n" | "n \<le> k" by linarith
  then show ?case
  proof cases
    case 1
    then have "n \<in># items q" "1 \<in># items q" "size (items q) < size (items (tasks_in g))" using less.prems(2-4) q(1) by auto
    with less.hyps [of ?g] inv 1 less.prems(4,5)
    obtain t m where "?P\<^sup>*\<^sup>* (?g, ?ls) t" "hd (snd t) = Main_Done" "printed (fst t) = Some m" "unat m < (\<Sum>k<n. k)" by auto
    with run show ?thesis by (meson rtranclp_trans)
  next
    case 2
    have "n \<in># items q" using less.prems(2) q(1) 2 by auto
    with second_does_sentinel [of "g\<lparr>tasks_in := q\<rparr>" n Waits "Busy k" ws] q(2)
    obtain g' where g': "?P\<^sup>*\<^sup>* (g\<lparr>tasks_in := q\<rparr>, Waits # Busy k # Free # ws) (g', Waits # Busy k # Free # ws)" "sentinel_done g'" by auto
    with tk have run': "?P\<^sup>*\<^sup>* (g, ?ls) (g', Waits # Busy k # Free # ws)" by (meson converse_rtranclp_into_rtranclp)
    have "0 < thread_worth n (Busy k)" using 2 by (simp add: worth_def)
    with prints_short [OF ex_inv_run [OF run' less.prems(1)] g'(2) less.prems(5)]
    obtain t m where "?P\<^sup>*\<^sup>* (g', Waits # Busy k # Free # ws) t" "hd (snd t) = Main_Done" "printed (fst t) = Some m" "unat m < (\<Sum>k<n. k)" by auto
    with run' show ?thesis by (meson rtranclp_trans)
  next
    case 3
    then have "1 \<in># items q" using less.prems(3,4) q(1) by auto
    then obtain r where "items q = add_mset 1 r" by (metis mset_add)
    then have "0 < (\<Sum>k\<in>#items q. worth n k)" using less.prems(4) by (simp add: worth_def)
    with prints_short [OF inv _ less.prems(5)] 3
    obtain t m where "?P\<^sup>*\<^sup>* (?g, ?ls) t" "hd (snd t) = Main_Done" "printed (fst t) = Some m" "unat m < (\<Sum>k<n. k)" by auto
    with run show ?thesis by (meson rtranclp_trans)
  qed
qed

lemma prints_early:
  assumes "1 < n" and "(\<Sum>k<n. k) < 2 ^ 31" and "2 \<le> w"
  shows "\<exists>t m. (par_step (ex_local add take_task n))\<^sup>*\<^sup>* (ex_init new w) t \<and> hd (snd t) = Main_Done \<and> printed (fst t) = Some m \<and> unat m < (\<Sum>k<n. k)"
proof -
  obtain u where w: "w = Suc (Suc u)" using assms(3) by (metis add_2_eq_Suc le_Suc_ex)
  obtain g where g: "(par_step (ex_local add take_task n))\<^sup>*\<^sup>* (ex_init new w) (g, Waits # Free # Free # replicate u Free)" "items (tasks_in g) = mset [0..<Suc n]"
    using main_adds [of 0 n "fst (ex_init new w)" "Free # Free # replicate u Free"] new_items by (auto simp: ex_init_def w)
  have "n \<in># items (tasks_in g)" "1 \<in># items (tasks_in g)" using assms(1) by (simp_all add: g(2))
  with first_meets_task [OF ex_inv_run [OF g(1) ex_inv_init]] assms(1,2) g(1) show ?thesis by (meson rtranclp_trans)
qed

end

section \<open>A shared queue and work-stealing deques\<close>

definition std_queue_add :: "nat \<Rightarrow> nat list \<Rightarrow> nat list" where
  "std_queue_add k q = q @ [k]"

definition std_queue_take :: "nat \<Rightarrow> nat list \<Rightarrow> (nat \<times> nat list) option" where
  "std_queue_take i q = (case q of [] \<Rightarrow> None | k # q' \<Rightarrow> Some (k, q'))"

interpretation std_queue: task_bag "[]" std_queue_add std_queue_take mset "\<lambda>_. True"
  by unfold_locales (auto simp: std_queue_add_def std_queue_take_def split: list.splits)

text \<open>
  One deque per worker: tasks are dealt out in turn; worker \<open>i\<close> takes the front of its own deque, and the back of another one when its own is empty.
\<close>

definition deal :: "nat \<Rightarrow> nat \<times> nat list list \<Rightarrow> nat \<times> nat list list" where
  "deal k d = (case d of (j, qs) \<Rightarrow> (Suc j mod length qs, qs[j := qs ! j @ [k]]))"

definition steal :: "nat \<Rightarrow> nat \<times> nat list list \<Rightarrow> (nat \<times> nat \<times> nat list list) option" where
  "steal i d = (case d of (j, qs) \<Rightarrow>
     if i < length qs \<and> qs ! i \<noteq> [] then Some (hd (qs ! i), j, qs[i := tl (qs ! i)])
     else case filter (\<lambda>v. qs ! v \<noteq> []) [0..<length qs] of
            [] \<Rightarrow> None
          | v # _ \<Rightarrow> Some (last (qs ! v), j, qs[v := butlast (qs ! v)]))"

lemma mset_concat_update: "i < length qs \<Longrightarrow> mset (concat (qs[i := x])) + mset (qs ! i) = mset (concat qs) + mset x"
proof (induction qs arbitrary: i)
  case (Cons q qs)
  then show ?case by (cases i) (auto simp: ac_simps)
qed simp

lemma steal_bag:
  assumes "fst d < length (snd d)"
  shows "case steal i d of None \<Rightarrow> mset (concat (snd d)) = {#}
    | Some (k, d') \<Rightarrow> mset (concat (snd d)) = add_mset k (mset (concat (snd d'))) \<and> fst d' < length (snd d')"
proof -
  obtain j qs where d: "d = (j, qs)" by (cases d)
  show ?thesis
  proof (cases "i < length qs \<and> qs ! i \<noteq> []")
    case True
    then have "mset (qs ! i) = add_mset (hd (qs ! i)) (mset (tl (qs ! i)))" by (metis list.collapse mset.simps(2))
    with True mset_concat_update [of i qs "tl (qs ! i)"] assms show ?thesis by (simp add: d steal_def)
  next
    case False
    show ?thesis
    proof (cases "filter (\<lambda>v. qs ! v \<noteq> []) [0..<length qs]")
      case Nil
      then have "\<forall>q\<in>set qs. q = []" by (auto simp: filter_empty_conv in_set_conv_nth)
      then have "mset (concat qs) = {#}" by simp
      moreover have "steal i d = None" using False Nil by (simp only: d steal_def prod.case if_False list.case)
      ultimately show ?thesis by (simp add: d)
    next
      case (Cons v vs)
      then have "v \<in> set (filter (\<lambda>v. qs ! v \<noteq> []) [0..<length qs])" by simp
      then have v: "v < length qs" "qs ! v \<noteq> []" by simp_all
      then have "mset (qs ! v) = add_mset (last (qs ! v)) (mset (butlast (qs ! v)))"
        by (metis append_butlast_last_id mset_append mset_single_iff add_mset_add_single mset.simps)
      with mset_concat_update [OF v(1), of "butlast (qs ! v)"]
      have "mset (concat qs) = add_mset (last (qs ! v)) (mset (concat (qs[v := butlast (qs ! v)])))" by simp
      moreover have "steal i d = Some (last (qs ! v), j, qs[v := butlast (qs ! v)])"
        using False Cons by (simp only: d steal_def prod.case if_False list.case)
      ultimately show ?thesis using assms by (simp add: d)
    qed
  qed
qed

interpretation stealing: task_bag "(0, replicate (Suc w) [])" deal steal "\<lambda>d. mset (concat (snd d))" "\<lambda>d. fst d < length (snd d)" for w
proof (unfold_locales, goal_cases)
  case (2 d k)
  obtain j qs where d: "d = (j, qs)" by (cases d)
  with 2 have "Suc j mod length qs < length qs" by (intro mod_less_divisor) auto
  with 2 d mset_concat_update [of j qs "qs ! j @ [k]"] show ?case by (simp add: deal_def)
qed (simp, rule steal_bag)

section \<open>Properties\<close>

text \<open>
  C39: A sentinel task does not wait for the tasks before it.  For every queue that hands each task out once, whatever the order, every number of workers and every number \<open>n\<close> of tasks
  whose sum fits into \<open>int\<close>: once the pool is drained (which \<open>join\<close> waits for) the sum is complete; but with two or more workers and two or more tasks a run exists in which \<open>main\<close> prints
  a smaller sum after waiting for the sentinel, although the comment says that all prior tasks are complete then.
\<close>

theorem sentinel_too_early:
  assumes queue: "task_bag new add take_task items good"
    and run: "(par_step (ex_local add take_task n))\<^sup>*\<^sup>* (ex_init new w) s"
    and workers: "2 \<le> v" "1 < n" "(\<Sum>k<n. k) < 2 ^ 31"
  shows "(ex_drained items s \<longrightarrow> sum_of (fst s) = of_nat (\<Sum>k<n. k)) \<and>
    (\<exists>t m. (par_step (ex_local add take_task n))\<^sup>*\<^sup>* (ex_init new v) t \<and> hd (snd t) = Main_Done \<and> printed (fst t) = Some m \<and> unat m < (\<Sum>k<n. k))"
  using task_bag.drained_total [OF queue run] task_bag.prints_early [OF queue workers(2,3,1)] by blast

theorem sentinel_too_early_witness:
  "(\<exists>t m. (par_step (ex_local std_queue_add std_queue_take 100))\<^sup>*\<^sup>* (ex_init [] 4) t \<and> hd (snd t) = Main_Done \<and> printed (fst t) = Some m \<and> unat m < 4950) \<and>
   (\<exists>t m. (par_step (ex_local deal steal 100))\<^sup>*\<^sup>* (ex_init (0, replicate (Suc 3) []) 4) t \<and> hd (snd t) = Main_Done \<and> printed (fst t) = Some m \<and> unat m < 4950)"
proof -
  have total: "(\<Sum>k<100::nat. k) = 4950" by code_simp
  show ?thesis
    using sentinel_too_early [OF std_queue.task_bag_axioms rtranclp.rtrancl_refl, where v = 4 and n = 100]
      sentinel_too_early [OF stealing.task_bag_axioms [of 3] rtranclp.rtrancl_refl, where v = 4 and n = 100]
    unfolding total by simp
qed

end
