(* ===== verification/Spec2Isabelle.thy ===== *)
theory Spec2Isabelle
  imports Framing Connections Generators Tasks Scheduler When_All Spsc_Demo Atomic_Counters Lock_Order Arena
    Worker_Pool Copy_Swap Objects Callbacks Algorithms Seqlock Event_Loops Trading Transfers Feeds Processes Raii Memory_Order Timers Layout Latency Kernels Type_Level Templates
    Sanitizers Checked_Arith Shared_Price Async_Server File_Locks Ping_Pong Guarded_Data Gates Handoff Mpmc_Queue
    Asio_Echo Thread_Hops Network_Calls File_Calls Executors
begin

text \<open>
  A verification library for the \<^verbatim>\<open>applied-cpp\<close> repository, a collection of C++20 programs
  grouped by topic.  Each program of the repository is one source file with its own classes and
  a \<^verbatim>\<open>main\<close>; the files share no code but repeat the same designs (task queues, coroutine tasks,
  length-framed messages), and the library groups them by design rather than by directory.

  \<^bold>\<open>The parts and the theories that model them.\<close>

  \<^item> \<^verbatim>\<open>Prelude\<close>: scalar types, decimal printing, lemmas on lists, counters modulo a capacity and
    powers of two as words, and the interfaces \<open>inv_system\<close> (an inductive invariant of a transition
    system), \<open>ends_from\<close> and \<open>ending_system\<close> (an end can be, or is, reached), \<open>simulation\<close> (a refinement of one transition
    system by another) and \<open>thread_refinement\<close> (threads on an object behave like threads on what it stands for) that the concurrent
    components interpret.
  \<^item> \<^verbatim>\<open>Spsc_Queue\<close>, \<^verbatim>\<open>Spsc_Demo\<close> (\<^verbatim>\<open>performance/08_lockfree.cpp\<close>): the ring \<open>SpscQueue\<close> with its 64-bit
    indices.  \<open>try_push\<close> and \<open>try_pop\<close> refine a bounded queue (locale \<open>bounded_fifo\<close>, interpreted at the
    capacity the program uses); \<open>demo_spsc\<close> is a step relation in which every load, store and buffer
    access is a step, with absence of races, the final sum and the possibility to finish.
  \<^item> \<^verbatim>\<open>Atomic_Counters\<close> (\<^verbatim>\<open>performance/08_lockfree.cpp\<close>, \<^verbatim>\<open>concurrency/02_mutex_locks.cpp\<close>): the CAS loop,
    \<open>fetch_add\<close> and the mutex-protected increment, all simulations of one abstract counter.
  \<^item> \<^verbatim>\<open>Lock_Order\<close> (\<^verbatim>\<open>build_tooling/04_tsan.cpp\<close>, \<^verbatim>\<open>concurrency/02_mutex_locks.cpp\<close>): threads with nested
    \<open>lock_guard\<close>s or one \<open>scoped_lock\<close>; the inverted orders of the program deadlock exactly when each
    thread holds its first mutex, a total order or \<open>scoped_lock\<close> excludes it.
  \<^item> \<^verbatim>\<open>Arena\<close> (\<^verbatim>\<open>performance/07_allocators.cpp\<close>): \<open>alloc\<close>, \<open>make\<close> and \<open>reset\<close> on 64-bit words; bounds,
    disjointness and alignment of the blocks, and what a wrapped sum does.
  \<^item> \<^verbatim>\<open>Worker_Pool\<close> (\<^verbatim>\<open>concurrency/08_thread_pool.cpp\<close>, \<^verbatim>\<open>07_async_handlers.cpp\<close>, \<^verbatim>\<open>03_condition_variable.cpp\<close>,
    \<^verbatim>\<open>coroutines/05_thread_hop.cpp\<close>): one transition system over the decision a worker takes under the
    lock; the locale \<open>worker_loop\<close> proves drainage, absence of lost wake-ups and termination once and is
    interpreted for each of the four classes.
  \<^item> \<^verbatim>\<open>Generators\<close> (\<^verbatim>\<open>coroutines/01_generator.cpp\<close>, \<^verbatim>\<open>07_pipeline.cpp\<close>, \<^verbatim>\<open>10_cancellation.cpp\<close>): lazy sequences as
    bodies that yield or finish, the class \<open>Generator\<close> and the adaptors of the pipeline, related to the
    list functions they stand for.
  \<^item> \<^verbatim>\<open>Tasks\<close> (\<^verbatim>\<open>coroutines/02_task.cpp\<close> to \<^verbatim>\<open>05_thread_hop.cpp\<close>, \<^verbatim>\<open>10_cancellation.cpp\<close>): a machine of coroutine
    frames with promises, continuations and symmetric transfer; it refines the direct evaluation of
    the coroutine bodies.  \<^verbatim>\<open>Scheduler\<close> (\<^verbatim>\<open>06_scheduler.cpp\<close>) is the round-robin queue of jobs, and
    \<^verbatim>\<open>When_All\<close> (\<^verbatim>\<open>09_when_all.cpp\<close>) the countdown that resumes the parent of concurrent children.
  \<^item> \<^verbatim>\<open>Framing\<close> (\<^verbatim>\<open>networking/10_socket_patterns.cpp\<close>, \<^verbatim>\<open>01_tcp_server_client.cpp\<close>): the send and receive loops,
    the 4-byte length header and both echo servers, against every sequence of kernel replies
    (locale \<open>echo_server\<close>, interpreted for both).  \<^verbatim>\<open>Connections\<close> holds the rest of the first file: \<open>Socket\<close>,
    \<open>connect_with_timeout\<close>, \<open>reconnect_with_backoff\<close>, \<open>ConnectionPool\<close>.
  \<^item> \<^verbatim>\<open>Copy_Swap\<close> (\<^verbatim>\<open>errors/04_exception_safety.cpp\<close>, \<^verbatim>\<open>oop/05_copy_and_swap.cpp\<close>): owners of heap blocks over an
    explicit free store in which \<open>new\<close> may throw.
  \<^item> \<^verbatim>\<open>Errors\<close> (\<^verbatim>\<open>errors/\<close>), \<^verbatim>\<open>Objects\<close> (\<^verbatim>\<open>oop/\<close>), \<^verbatim>\<open>Callbacks\<close> (\<^verbatim>\<open>lambdas/\<close>; locale \<open>event_hub\<close> for both emitters)
    and \<^verbatim>\<open>Algorithms\<close> (\<^verbatim>\<open>algorithms/\<close>; locale \<open>strict_weak_order\<close> for the comparators): the classes and
    functions of these programs and their \<^verbatim>\<open>main\<close>s as the lines they print.

  \<^item> \<^verbatim>\<open>Raii\<close> (\<^verbatim>\<open>raii/\<close>): classes that own a block, a file or a lock over the free store of \<^verbatim>\<open>Copy_Swap\<close>; every
    sequence of constructions, moves and destructions keeps one owner for each live resource.
    \<^verbatim>\<open>Memory_Order\<close> (\<^verbatim>\<open>concurrency/04_atomic.cpp\<close>, \<^verbatim>\<open>05_data_races.cpp\<close>) is the one theory with a weak memory: release and
    acquire pass the payload on, and each relaxed variant has a run that reads the old one.
    \<^verbatim>\<open>Timers\<close> (\<^verbatim>\<open>concurrency/01\<close>, \<^verbatim>\<open>06\<close>, \<^verbatim>\<open>09\<close>) bounds when callbacks run and shows that futures deliver.
  \<^item> \<^verbatim>\<open>Seqlock\<close> (\<^verbatim>\<open>system_calls/04_mmap_ipc.cpp\<close>): the sequence lock returns only whole updates; the reader that
    skips it can mix two.  \<^verbatim>\<open>Processes\<close> (\<^verbatim>\<open>02\<close>, \<^verbatim>\<open>05\<close>, \<^verbatim>\<open>06\<close>): wait statuses, signal loops, mode strings.
    \<^verbatim>\<open>File_Locks\<close> (\<^verbatim>\<open>09\<close>): the PID lock file admits one instance,
    except that the program's own \<open>unlink\<close> lets a second one in.
  \<^item> \<^verbatim>\<open>Event_Loops\<close> (\<^verbatim>\<open>system_calls/08\<close>, \<^verbatim>\<open>10\<close>, \<^verbatim>\<open>networking/03\<close>, \<^verbatim>\<open>06\<close>; locale \<open>event_handler\<close>): every descriptor is read until
    it is closed and closed once.  \<^verbatim>\<open>Transfers\<close> (\<^verbatim>\<open>system_calls/01\<close>, \<^verbatim>\<open>07\<close>, \<^verbatim>\<open>networking/03\<close>, \<^verbatim>\<open>07\<close>, \<^verbatim>\<open>08\<close>, \<^verbatim>\<open>09\<close>; locale
    \<open>reliable_sender\<close>): byte loops deliver exactly their input against every sequence of short counts and interruptions.  \<^verbatim>\<open>Feeds\<close>
    (\<^verbatim>\<open>networking/04\<close>, \<^verbatim>\<open>05\<close>, \<^verbatim>\<open>system_calls/03\<close>): packet layouts, gap detection, the mapped tick file.  \<^verbatim>\<open>Ping_Pong\<close>
    (\<^verbatim>\<open>networking/02\<close>, addresses of \<^verbatim>\<open>07\<close>): the latency probe ends however the stream is cut, and when it can be killed.
  \<^item> \<^verbatim>\<open>Trading\<close> (\<^verbatim>\<open>testing/\<close>; locale \<open>resting_orders\<close>): the order book refines a bag of orders; the other classes under
    test with their tests as facts.
  \<^item> \<^verbatim>\<open>Layout\<close>, \<^verbatim>\<open>Latency\<close>, \<^verbatim>\<open>Kernels\<close> (\<^verbatim>\<open>performance/\<close>): offsets and padding of the programs' structures and which of them share a cache line, the concurrent
    accumulator of latencies with percentiles and histograms, and the timed loops against reference definitions.
    \<^verbatim>\<open>Ring_Buffers\<close> is the interface \<open>overwriting_ring\<close> that the rings of \<^verbatim>\<open>Latency\<close> and \<^verbatim>\<open>Templates\<close> provide.
  \<^item> \<^verbatim>\<open>Type_Level\<close>, \<^verbatim>\<open>Templates\<close> (\<^verbatim>\<open>templates/\<close>, \<^verbatim>\<open>lambdas/02\<close>, \<^verbatim>\<open>errors/03_noexcept.cpp\<close>): type traits, concepts and overload
    resolution as functions on a datatype of types; the containers and variadic functions at run time (locale \<open>lifo\<close>).
  \<^item> \<^verbatim>\<open>Sanitizers\<close> (\<^verbatim>\<open>build_tooling/01\<close>, \<^verbatim>\<open>02\<close>, \<^verbatim>\<open>05\<close>; locale \<open>checked_run\<close>): a store in which every access outside an object, its
    lifetime or its initialised part is a fault; each program reports the fault its macro plants and no other.
    \<^verbatim>\<open>Checked_Arith\<close> (\<^verbatim>\<open>03\<close>, \<^verbatim>\<open>06\<close>, \<^verbatim>\<open>07\<close>, \<^verbatim>\<open>08\<close>): arithmetic with its undefined cases, and the small programs.
    \<^verbatim>\<open>Shared_Price\<close> (\<^verbatim>\<open>04\<close>): the mutex version of a shared price refines the atomic one.
  \<^item> \<^verbatim>\<open>Rpc_Handlers\<close> (\<^verbatim>\<open>grpc_proto/04\<close> to \<^verbatim>\<open>07\<close>, \<^verbatim>\<open>09\<close>, \<^verbatim>\<open>10\<close>): service handlers, interceptors and clients, with the gRPC
    library as an argument.  \<^verbatim>\<open>Async_Server\<close> (\<^verbatim>\<open>08\<close>): the life of a \<open>CallData\<close> under a completion queue; no deleted object
    is used, every request is answered at most once, one object is left at shutdown.
  \<^item> The programs of \<^verbatim>\<open>libraries/\<close> with logic of their own, with the library's objects as arguments and its promises as the laws of a locale:
    \<^verbatim>\<open>Guarded_Data\<close> (\<^verbatim>\<open>folly/04\<close>, \<^verbatim>\<open>10\<close>, \<^verbatim>\<open>abseil/08\<close>; locale \<open>shared_lock\<close>): what is written under the exclusive lock is exact, what is counted
    under the shared lock is not.  \<^verbatim>\<open>Gates\<close> (\<^verbatim>\<open>abseil/09\<close>; locale \<open>counting_gate\<close>): nothing behind a notification, barrier or counter
    is printed before everything in front of it.  \<^verbatim>\<open>Handoff\<close> (\<^verbatim>\<open>folly/03\<close>, \<^verbatim>\<open>boost/07\<close>, \<^verbatim>\<open>abseil/08\<close>): a queue with a separate flag, on the weak memory of
    \<^verbatim>\<open>Memory_Order\<close>, and a queue with a condition variable.  \<^verbatim>\<open>Mpmc_Queue\<close> (\<^verbatim>\<open>folly/03\<close>, \<^verbatim>\<open>boost/07\<close>; locale \<open>mpmc_queue\<close>): every value is taken once and all
    threads can finish.  \<^verbatim>\<open>Executors\<close> (\<^verbatim>\<open>folly/07\<close>; locale \<open>task_bag\<close>): a sentinel task does not wait for the tasks before it.
  \<^item> \<^verbatim>\<open>Asio_Echo\<close> (\<^verbatim>\<open>boost/05\<close>, \<^verbatim>\<open>06\<close>, \<^verbatim>\<open>coroutines/08_asio_coro.cpp\<close>; locale \<open>echo_handler\<close>): the chain of completion handlers and the coroutine refine the
    same echo server.  \<^verbatim>\<open>Thread_Hops\<close> (\<^verbatim>\<open>coroutines/05\<close>, \<^verbatim>\<open>09\<close>, \<^verbatim>\<open>10\<close>): hops between threads do not change what a coroutine computes, but
    \<open>sync_wait\<close> does not wait for them, and what is printed depends on how many turns the pool happens to take.
  \<^item> \<^verbatim>\<open>Descriptors\<close> is a language of functions that make system calls on descriptors, with an execution relation in which every call may fail, and an
    abstract interpreter proved exact for it.  \<^verbatim>\<open>Network_Calls\<close> (\<^verbatim>\<open>networking/01\<close> to \<^verbatim>\<open>10\<close>) and \<^verbatim>\<open>File_Calls\<close> (\<^verbatim>\<open>system_calls/01\<close> to \<^verbatim>\<open>04\<close>, \<^verbatim>\<open>07\<close>, \<^verbatim>\<open>08\<close>, \<^verbatim>\<open>10\<close>)
    write functions of these files in it (the lists \<open>checked_functions\<close>, \<open>unchecked_functions\<close>, \<open>file_functions\<close>) and decide which of them release everything and which ever use a bad descriptor.  What the calls
    transfer is in \<^verbatim>\<open>Framing\<close>, \<^verbatim>\<open>Transfers\<close>, \<^verbatim>\<open>Feeds\<close> and \<^verbatim>\<open>Event_Loops\<close>.

  \<^bold>\<open>How code becomes definitions.\<close>  A class is a record, an enumeration or a class hierarchy a datatype;
  a member function is a function from the state to its result and the new state.  Threads are
  step relations, one step for each access to shared state, or for each critical section where a
  mutex makes it indivisible; the properties hold for every interleaving, and where the program
  waits on a condition variable also for every spurious wake-up.  Exceptions and failures are
  values of a sum or option type.  What the program prints is a list of lines.  The operating
  system is an argument: kernel replies, the environment variables, the files, the clock.

  \<^bold>\<open>Bounds and termination.\<close>  Sizes, ring indices, counters, header bytes and packet fields are machine words and
  wrap as in C++.  Signed integers that could overflow (\<open>fibonacci\<close>, \<open>iota\<close>, parsed numbers, the ids of the emitters, \<^verbatim>\<open>Checked_Arith\<close>) have an
  explicit range test, where leaving the range is the undefined behaviour, and signed atomics wrap (\<^verbatim>\<open>Latency\<close>, \<^verbatim>\<open>Executors\<close>); the programs that only handle small
  constants use unbounded integers.  \<^verbatim>\<open>double\<close> values are reals, or exact decimals where they are printed.  Loops
  are total functions with a measure; those that may not return (\<open>drain\<close>, \<open>filter_body\<close>, \<open>drop_body\<close>, \<open>pull_until\<close>,
  \<open>drive\<close>, \<open>sched_run\<close>, \<open>permutations_from\<close>, \<open>endless_stream\<close>) are \<^theory_text>\<open>partial_function (option)\<close>, where not returning is
  \<open>None\<close>, and the properties prove when they return.  A loop over kernel replies ends with
  the list of replies, and its blocking there is a result of its own.  The only fuel is in \<open>heads\<close> of \<^verbatim>\<open>Descriptors\<close>, the rounds in which the abstract
  interpreter closes the set of states at the head of a loop; too few rounds give \<open>None\<close>, and that every function gets an answer is part of the lemmas.

  \<^bold>\<open>Assumptions.\<close>  Outside \<^verbatim>\<open>Memory_Order\<close> and \<^verbatim>\<open>Handoff\<close> the atomics are sequentially consistent: in the modelled programs each
  shared index has one writer and is published by a release store read with an acquire load, or is updated by one
  read-modify-write.  Memory allocation does not fail except in \<^verbatim>\<open>Copy_Swap\<close>, \<^verbatim>\<open>Raii\<close>, \<^verbatim>\<open>Arena\<close> and, for \<open>malloc\<close> and \<open>calloc\<close>, \<^verbatim>\<open>Sanitizers\<close>.
  Standard library functions are defined by what the C++ standard says of their result, and what it leaves open is an
  argument, as is every answer of the kernel and of a library that is not in the repository.

  \<^bold>\<open>What is not modelled.\<close>  Programs that call one function of a third-party library after the other and print what it returns: \<^verbatim>\<open>libraries/abseil/01\<close> to \<^verbatim>\<open>07\<close>,
  \<^verbatim>\<open>10\<close>, \<^verbatim>\<open>boost/01\<close> to \<^verbatim>\<open>04\<close>, \<^verbatim>\<open>08\<close> to \<^verbatim>\<open>10\<close>, \<^verbatim>\<open>folly/01\<close>, \<^verbatim>\<open>02\<close>, \<^verbatim>\<open>05\<close>, \<^verbatim>\<open>06\<close>, \<^verbatim>\<open>08\<close>, \<^verbatim>\<open>09\<close>, \<^verbatim>\<open>serialisation/\<close>, and \<^verbatim>\<open>grpc_proto/01\<close> to \<^verbatim>\<open>03\<close>, whose message classes are generated: a
  model of them would restate results of code that is not in the repository.  Programs that only print explanations
  (\<^verbatim>\<open>build_tooling/09_pch_unity.cpp\<close>, \<^verbatim>\<open>10_toolchain.cpp\<close>).  Within modelled files: measured times and the reports made of them, the racy parts of
  \<^verbatim>\<open>build_tooling/04_tsan.cpp\<close> and \<^verbatim>\<open>concurrency/05_data_races.cpp\<close>, whose behaviour is undefined, the part of \<^verbatim>\<open>networking/10\<close> where a thread closes the
  listening socket of \<open>main\<close>, and hardware counters (\<open>rdtsc\<close>, \<open>perf_event_open\<close>).
\<close>

section \<open>Properties that span components\<close>

text \<open>
  The deterministic programs of the repository print exactly these lines: the generator,
  pipeline and cancellation programs, the task, handle and awaitable programs, the error
  programs, the copy-and-swap programs, the object-oriented, lambda and algorithm programs.  In
  particular the letters of the pipeline's \<open>zip\<close> appear as character codes, the label of the
  exception demonstration of \<^verbatim>\<open>02_task.cpp\<close> comes before what the task prints, and the call
  through \<open>Logger*\<close> in \<^verbatim>\<open>07_override_final.cpp\<close> reaches \<open>BadDerived::log\<close>.
\<close>

theorem programs_print:
  "generator_main =
     [Some ''range(0, 10, 2): 0 2 4 6 8 '', Some ''fibonacci: 0 1 1 2 3 5 8 13 21 34 '',
      Some ''names: Alice Bob Carol '', Some ''squares 1-5: 1 4 9 16 25 '',
      Some ''first Fibonacci > 100: 144'']
   \<and> pipeline_main =
     [Some ''squares 1-5: 1 4 9 16 25 '', Some ''evens 0-18: 0 2 4 6 8 10 12 14 16 18 '',
      Some ''iota[5..9]: 5 6 7 8 9 '', Some ''squares > 10: 16 25 36 49 64 '',
      Some ''zip(letters, 0..): 970 981 992 1003 1014 '', Some ''running sum 1-6: 1 3 6 10 15 21 '']
   \<and> cancellable_generator_demo =
     Some [''  0'', ''  1'', ''  2'', ''  3'', ''  4'', ''[gen] cancellation detected at i=5'']
   \<and> task_main = [Some (''25'' @ nl), Some (''6^2 = 36'' @ nl), Some (''level_a: 16'' @ nl),
     Some (''exception result: caught: something went wrong'' @ nl @ ''-1'' @ nl)]
   \<and> handle_main = (Some [False, False, False, True], Some ([''  [A] running'', ''  [B] running''], True, True))
   \<and> awaitable_main =
     [Some (Value (VInt 42), ['''', ''--- ImmediateValue ---'', ''result (no suspension): 42'']),
      Some (Value (VInt 0), ['''', ''--- AlwaysSuspend ---'', ''before suspend'',
         ''externally resuming parked coroutine'', ''after resume'']),
      Some (Value (VInt 0), ['''', ''--- ReadyWhen ---'', ''  [ReadyWhen:flag] await_ready=0'',
         ''  [ReadyWhen:flag] suspending'', ''setting flag=true and resuming'', ''  [ReadyWhen:flag] resumed'',
         ''condition was satisfied'']),
      Some (Value (VInt 99), ['''', ''--- Deferred ---'', ''callback: setting result and resuming'',
         ''deferred result: 99''])]
   \<and> exceptions_main = ([''5'', ''caught: division by zero'', ''out_of_range: index 99'', ''runtime_error: disk full'',
     ''unknown exception'', ''[log] caught: something failed'', ''outer caught: something failed''], Inr ())
   \<and> exception_types_main = ([''db: connection pool exhausted'',
     ''timeout: NetworkError 408: timeout connecting to slow.example.com'',
     ''network [400]: NetworkError 400: empty host'', ''connected to ok.example.com''], Inr ())
   \<and> raii_main = ([''success path:'', ''  acquiring resource'', ''  work done'', ''  releasing resource'',
     ''fail path:'', ''  acquiring resource'', ''  releasing resource'', ''  caught: processing failed'', '''',
     ''transaction:'', ''success path:'', ''  begin transaction'', ''  commit'',
     ''fail path:'', ''  begin transaction'', ''  rolling back'', ''  caught: transact failed''], Inr ())
   \<and> patterns_main = ([''config failed: config file not found: app.toml'', ''find charlie: (not found)'',
     ''connect failed: Connection refused'', ''connected, fd=42''], Inr ())
   \<and> error_codes_main (\<lambda>_. None) = ([''error: No such file or directory'', ''is no_such_file: 1'',
     ''app error [2]: quota exceeded'', ''category: app'', ''system_error: while parsing config: bad input'',
     ''code: bad input''], Inr ())
   \<and> optional_main None = [''odds first even: -1'', ''mixed first even: 4'', ''found: 4'', ''r1 is empty'',
     ''HOME: (not set)'', ''parsed: 42'', ''error: not an integer: abc'', ''parsed: -7'']
   \<and> expected_main = [''r1 has_value: true'', ''r1 value:     42'', ''r2 has_value: false'',
     ''r2 error:     not an integer: abc'', ''r2 value_or:  -1'', ''doubled:      14'', ''ok: 10'',
     ''range error: -3 is not positive'', ''parse error: not an integer: xyz'']
   \<and> string_main = [Some ''hello'', Some ''world'', Some ''hello'', Some ''hello'', Some ''hello'']
   \<and> buffer_main = [Some 1, Some 4, Some 1]
   \<and> dynamic_binding_main = [''Woof'', ''Meow'', '''', ''--- slicing ---'', ''Animal'', ''Woof'', '''',
     ''--- non-virtual ---'', ''Derived::v  (virtual)'', ''Base::nv (non-virtual)'']
   \<and> override_main = [''BadDerived: test'', ''GoodDerived: test'', ''TCP connect'', ''SSL connect'']
   \<and> composition_main = [''[log] push 1'', ''[log] push 2'', ''size = 2'', '''', ''[console] starting pipeline'',
     ''[console] pipeline done: batch-42'', '''', ''[file]    starting pipeline'', ''[file]    pipeline done: batch-43'']
   \<and> nvi_main = ([''[exporter] starting export'', ''[csv] writing: name,age'' @ [CHR 0x0A] @ ''Alice,30'',
     ''[exporter] export complete'', '''', ''[exporter] starting export'', ''[json] writing: {\"data\":\"Alice\"}'',
     ''[exporter] export complete'', '''', ''=== Report: Generic Report ==='', ''(empty)'', ''=== end ==='', '''',
     ''=== Report: Sales Q2 ==='', ''revenue: $42,000'', ''=== end ==='', '''', ''caught: data must not be empty''], Inr ())
   \<and> crtp_main = [''t1 < t2:  true'', ''t1 > t2:  false'', ''t1 <= t2: true'', ''t1 != t2: true'', '''', ''(3, 4)'',
     ''point: (3, 4)'', '''', ''dogs: 2'', ''cats: 1'', ''dogs after scope: 0'']
   \<and> higher_order_main = [''doubled: 2 4 6 8 10 12 14 16 18 20 '', ''as_str: 1 2 3 4 5 6 7 8 9 10 '', ''evens: 2 4 6 8 10 '',
     ''sum=55'', ''prod=3628800'', ''sum of squares of evens=220'', ''tripled: 3 6 9 12 15 18 21 24 27 30 '',
     ''between 4-7: 4 5 6 7 '', ''double_then_add1(5)=11'', ''evens + 10: 12 14 16 18 20 '']
   \<and> function_kinds_main = [''template sum=15'', ''1 2 3 4 5 '', ''stdfn log=1 2 3 4 5 '', ''handler1: click'',
     ''handler2: click'', ''handler1: hover'', ''handler2: hover'', ''handler1 fired 2 times'']
   \<and> callbacks_main = Some [''processing: main.cpp'', ''processing: util.cpp'', ''processing: test.cpp'', ''processed 3 files'',
     '''', ''[LOG] data: payload-1'', ''[raw] payload-1'', ''[LOG] data: payload-2'', ''[raw] payload-2'', '''',
     ''(unsubscribing id1)'', ''[raw] payload-3'']
   \<and> captures_main = [''hello'', ''snap=0'', ''counter=101'', ''item-7'', ''sum=10'', ''inner x=15'', ''inner x=20'',
     ''outer x=10'', ''owned value=42'', ''(dangling ref example intentionally skipped)'', ''getter=99'', ''snapshot=10'']
   \<and> iile_main None = [''config_value=25'', ''timeout=5000ms'', ''error_codes[\"not_found\"]=404'', ''port=8080'', ''squares[7]=49'']
   \<and> search_main = map Some [''found 9 at index 5'', ''first even: 4'', ''first non-1: 3'',
     ''first element that is 9 or 5: 5 at index 4'', ''sub-sequence {1,5} at index 3'', ''first consecutive pair: 3'',
     ''first pair where b==2a: 1'', ''found \"brown\" at pos 10'']
   \<and> binary_search_main = map Some [''binary_search(4): true'', ''binary_search(5): false'', ''lower_bound(4) index: 2'',
     ''lower_bound(5) points to: 6'', ''upper_bound(4) index: 5'', ''equal_range(4) count: 3'', ''equal_range(4): [4, 4, 4]'',
     ''equal_range(5) empty: true'', ''1 3 4 5 7 '', ''lower_bound(5, desc) points to: 4'']
   \<and> transform_main = [''doubled: 2 4 6 8 10 '', ''squared in-place: 1 4 9 16 25 '', ''a+b: 11 22 33 '', ''total=6'',
     ''replace evens with 0: 1 0 3 0 5 0 '', ''fill 7: 7 7 7 7 7 '', ''generate +10: 10 20 30 40 50 60 '']
   \<and> numeric_main = [''sum=15'', ''product=120'', ''hello world'', ''reduce sum=15'', ''partial_sum: 1 3 6 10 15 '',
     ''inclusive_scan: 1 3 6 10 15 '', ''exclusive_scan: 0 1 3 6 10 '', ''dot product=32'', ''sum of max pairs=15'',
     ''iota(1): 1 2 3 4 5 6 '']
   \<and> predicates_main = map Some [''all even:  true'', ''any neg:   false'', ''none neg:  true'', ''mixed all even: false'',
     ''mixed any odd:  true'', ''empty all_of:  true'', ''empty any_of:  false'', ''empty none_of: true'',
     ''count 2:     3'', ''count >2:    3'', ''a==b: true'', ''a==c: false'', ''first mismatch: a=3 c=4'']
   \<and> set_main = map Some [''union: 1 2 3 4 5 6 7 '', ''intersection: 3 4 5 '', ''a - b: 1 2 '', ''symmetric diff: 1 2 6 7 '',
     ''all permutations of {1,2,3}:'', ''123 132 213 231 312 321 '', ''reversed: 5 4 3 2 1 '', ''rotate by 2: 3 4 5 1 2 '',
     ''copy_if evens: 2 4 6 '', ''moved dest[0]=hello'']
   \<and> ranges_main = map Some [''ranges::sort: 1 2 3 5 7 8 9 '', ''find 7: 7'', ''alice(25) carol(30) bob(35) '',
     ''filter|transform|take(3): 4 16 36 '', ''iota(1,6): 1 2 3 4 5 '', ''squares: 1 4 9 16 25 '', ''reverse: 9 8 7 5 3 2 1 '',
     ''drop(2)|take(3): 3 5 7 '', ''materialised squares: 1 4 9 16 25 '', ''oldest: bob'', ''any under 30: true'']
   \<and> remove_main junk = [''remove 2: 1 3 4 5 '', ''remove evens: 1 3 5 7 '', ''erase_if >3: 1 2 3 '', ''erase 2: 1 3 1 '',
     ''unique (already sorted): 1 2 3 4 5 '', ''unique (unsorted): 3 1 2 3 2 '', ''sort+unique: 1 2 3 '']"
  by (intro conjI generator_programs [THEN conjunct1] generator_programs [THEN conjunct2, THEN conjunct1]
      generator_programs [THEN conjunct2, THEN conjunct2] task_programs [THEN conjunct1]
      task_programs [THEN conjunct2, THEN conjunct1] task_programs [THEN conjunct2, THEN conjunct2]
      error_programs copy_swap_programs object_programs callback_programs
      algorithm_programs remove_program)

end
